(* ===== verification/Prelude.thy ===== *)
theory Prelude
  imports Main "HOL-Library.Word"
begin

unbundle bit_operations_syntax

section \<open>Shared vocabulary of the development\<close>

text \<open>
  The types and the generic facts that the component theories share: bytes and buffers, the
  result type of operations that may throw, JavaScript's conversion of a 64-bit integer to a
  number, little-endian integers as Node's \<^verbatim>\<open>Buffer\<close> reads and writes them, and facts
  about lists, options and words that the library does not state in the form needed here.
\<close>

named_theorems buf_simps \<open>lengths and slices of encoded buffers\<close>

type_synonym byte = "8 word"
type_synonym buffer = "byte list"

text \<open>A JavaScript string is a sequence of 16-bit code units.\<close>

type_synonym js_string = "16 word list"

text \<open>A throwing operation returns \<open>Inl\<close> of the error or \<open>Inr\<close> of the result.\<close>

type_synonym ('e, 'a) res = "'e + 'a"

definition bind_res :: "('e, 'a) res \<Rightarrow> ('a \<Rightarrow> ('e, 'b) res) \<Rightarrow> ('e, 'b) res" where
  "bind_res r f = (case r of Inl e \<Rightarrow> Inl e | Inr a \<Rightarrow> f a)"

lemma bind_res_simps [simp]:
  "bind_res (Inl e) f = Inl e"
  "bind_res (Inr a) f = f a"
  by (simp_all add: bind_res_def)

lemma bind_res_cong [fundef_cong]:
  "r = r' \<Longrightarrow> (\<And>a. r' = Inr a \<Longrightarrow> f a = g a) \<Longrightarrow> bind_res r f = bind_res r' g"
  by (cases r') simp_all

definition map_res :: "('a \<Rightarrow> 'b) \<Rightarrow> ('e, 'a) res \<Rightarrow> ('e, 'b) res" where
  "map_res f r = bind_res r (\<lambda>a. Inr (f a))"

lemma map_res_simps [simp]: "map_res f (Inl e) = Inl e" "map_res f (Inr a) = Inr (f a)"
  by (simp_all add: map_res_def)

lemma map_res_bind: "map_res f (bind_res r g) = bind_res r (\<lambda>a. map_res f (g a))"
  by (cases r) simp_all

lemma bind_map_res: "bind_res (map_res f r) g = bind_res r (\<lambda>a. g (f a))"
  by (cases r) simp_all

lemma bind_res_Inr: "bind_res r f = Inr b \<longleftrightarrow> (\<exists>a. r = Inr a \<and> f a = Inr b)"
  by (cases r) simp_all

subsection \<open>Slices\<close>

text \<open>\<^verbatim>\<open>buf.subarray(a, b)\<close> for \<open>a \<le> b\<close>.\<close>

definition subarray :: "nat \<Rightarrow> nat \<Rightarrow> 'a list \<Rightarrow> 'a list" where
  "subarray a b xs = take (b - a) (drop a xs)"

lemma length_subarray [simp]: "length (subarray a b xs) = min (b - a) (length xs - a)"
  by (simp add: subarray_def min.commute)

lemma subarray_append_right:
  "length xs \<le> a \<Longrightarrow> subarray a b (xs @ ys) = subarray (a - length xs) (b - length xs) ys"
  by (simp add: subarray_def)

lemma subarray_prefix: "b \<le> length xs \<Longrightarrow> subarray a b (xs @ ys) = subarray a b xs"
  by (simp add: subarray_def)

lemma subarray_exact: "a = length xs \<Longrightarrow> b = length xs + length ys \<Longrightarrow> subarray a b (xs @ ys @ zs) = ys"
  by (simp add: subarray_def)

lemma subarray_drop: "subarray a b (drop k xs) = subarray (k + a) (k + b) xs"
  by (simp add: subarray_def add.commute)

lemma subarray_subarray: "b' \<le> b - a \<Longrightarrow> subarray a' b' (subarray a b xs) = subarray (a + a') (a + b') xs"
  by (simp add: subarray_def drop_take min_absorb1 add.commute)

lemma subarray_all [simp]: "subarray 0 (length xs) xs = xs"
  by (simp add: subarray_def)

lemma subarray_nth: "i < b - a \<Longrightarrow> a + i < length xs \<Longrightarrow> subarray a b xs ! i = xs ! (a + i)"
  by (simp add: subarray_def)

subsection \<open>Little-endian integers\<close>

text \<open>\<open>le_bytes k n\<close> are the \<open>k\<close> bytes that Node's \<^verbatim>\<open>writeUIntLE\<close> family stores for
  \<open>n\<close>; \<open>le_nat\<close> reads them back.\<close>

fun le_bytes :: "nat \<Rightarrow> nat \<Rightarrow> buffer" where
  "le_bytes 0 n = []"
| "le_bytes (Suc k) n = word_of_nat (n mod 256) # le_bytes k (n div 256)"

fun le_nat :: "buffer \<Rightarrow> nat" where
  "le_nat [] = 0"
| "le_nat (b # bs) = unat b + 256 * le_nat bs"

lemma length_le_bytes [simp]: "length (le_bytes k n) = k"
  by (induction k arbitrary: n) auto

lemma le_bytes_numeral: "le_bytes (numeral k) n = word_of_nat (n mod 256) # le_bytes (pred_numeral k) (n div 256)"
  using le_bytes.simps(2) [of "pred_numeral k" n] by (simp only: numeral_eq_Suc [of k, symmetric])

lemma unat_byte_mod: "unat (word_of_nat (n mod 256) :: byte) = n mod 256"
  by (simp add: unat_of_nat)

lemma le_nat_le_bytes: "n < 256 ^ k \<Longrightarrow> le_nat (le_bytes k n) = n"
proof (induction k arbitrary: n)
  case 0
  then show ?case by simp
next
  case (Suc k)
  then have "n div 256 < 256 ^ k"
    by (simp add: less_mult_imp_div_less mult.commute)
  then have "le_nat (le_bytes k (n div 256)) = n div 256" by (rule Suc.IH)
  then show ?case by (simp add: unat_byte_mod)
qed

lemma le_nat_bound: "le_nat bs < 256 ^ length bs"
proof (induction bs)
  case Nil
  then show ?case by simp
next
  case (Cons b bs)
  have "unat b < 256" using unsigned_less [of b, where ?'a = nat] by simp
  with Cons show ?case by simp
qed

text \<open>Two's complement over 64 bits, as \<^verbatim>\<open>writeBigInt64LE\<close> and \<^verbatim>\<open>readBigInt64LE\<close> use it.\<close>

definition i64_bytes :: "int \<Rightarrow> buffer" where
  "i64_bytes n = le_bytes 8 (nat (n mod 2 ^ 64))"

definition i64_of :: "buffer \<Rightarrow> int" where
  "i64_of bs = (let u = int (le_nat bs) in if u < 2 ^ 63 then u else u - 2 ^ 64)"

definition fits_i64 :: "int \<Rightarrow> bool" where
  "fits_i64 n \<longleftrightarrow> - (2 ^ 63) \<le> n \<and> n < 2 ^ 63"

lemma length_i64_bytes [simp]: "length (i64_bytes n) = 8"
  by (simp add: i64_bytes_def)

lemma i64_of_i64_bytes: "fits_i64 n \<Longrightarrow> i64_of (i64_bytes n) = n"
proof -
  assume fits: "fits_i64 n"
  have "nat (n mod 2 ^ 64) < 256 ^ 8"
    by (simp add: nat_less_iff)
  then have val: "int (le_nat (i64_bytes n)) = n mod 2 ^ 64"
    by (simp add: i64_bytes_def le_nat_le_bytes)
  show ?thesis
  proof (cases "0 \<le> n")
    case True
    with fits have "n mod 2 ^ 64 = n"
      by (intro mod_pos_pos_trivial) (simp_all add: fits_i64_def)
    with True fits show ?thesis by (simp add: i64_of_def val fits_i64_def)
  next
    case False
    with fits have "(n + 2 ^ 64) mod 2 ^ 64 = n + 2 ^ 64"
      by (intro mod_pos_pos_trivial) (simp_all add: fits_i64_def)
    then have "n mod 2 ^ 64 = n + 2 ^ 64" by simp
    with False fits show ?thesis by (simp add: i64_of_def val fits_i64_def)
  qed
qed

text \<open>
  \<^verbatim>\<open>Number(b)\<close> for a 64-bit integer \<open>b\<close>: the nearest double, ties to even. Integers up to
  \<open>2^53\<close> in magnitude are doubles themselves.
\<close>

fun bit_length :: "nat \<Rightarrow> nat" where
  "bit_length n = (if n = 0 then 0 else Suc (bit_length (n div 2)))"

declare bit_length.simps [simp del]

definition round_double :: "nat \<Rightarrow> nat" where
  "round_double m =
     (let k = bit_length m - 53; q = m div 2 ^ k; r = m mod 2 ^ k; half = 2 ^ (k - 1)
      in if r > half \<or> (r = half \<and> odd q) then (q + 1) * 2 ^ k else q * 2 ^ k)"

definition js_number :: "int \<Rightarrow> int" where
  "js_number n = (if \<bar>n\<bar> \<le> 2 ^ 53 then n else sgn n * int (round_double (nat \<bar>n\<bar>)))"

lemma js_number_safe: "\<bar>n\<bar> \<le> 2 ^ 53 \<Longrightarrow> js_number n = n"
  by (simp add: js_number_def)

subsection \<open>Sums over maps and lists\<close>

lemma upt_Suc0_numeral: "[Suc 0..<numeral n] = (if Suc 0 < numeral n then Suc 0 # [2..<numeral n] else [])"
  by (simp add: upt_rec [of "Suc 0"] numeral_2_eq_2)

lemma sum_list_remove1_nat:
  "x \<in> set xs \<Longrightarrow> sum_list (map f xs) = f x + sum_list (map f (remove1 x xs))" for f :: "'a \<Rightarrow> nat"
  by (induction xs) auto

lemma find_Some_nth:
  "find P [a..<n] = Some i \<Longrightarrow> a \<le> i \<and> i < n \<and> P i \<and> (\<forall>j. a \<le> j \<and> j < i \<longrightarrow> \<not> P j)"
  by (auto simp: find_Some_iff) (metis add_diff_cancel_left' diff_less_mono le_Suc_ex less_diff_conv2 nat_less_le nth_upt)

lemma find_upt_None: "find P [a..<n] = None \<longleftrightarrow> (\<forall>j. a \<le> j \<and> j < n \<longrightarrow> \<not> P j)"
  by (auto simp: find_None_iff)

lemma find_upt_eq_Some:
  assumes "a \<le> i" "i < n" "P i" "\<And>j. a \<le> j \<Longrightarrow> j < i \<Longrightarrow> \<not> P j"
  shows "find P [a..<n] = Some i"
proof (cases "find P [a..<n]")
  case None
  with assms show ?thesis by (auto simp: find_upt_None)
next
  case (Some j)
  then have "a \<le> j" "j < n" "P j" "\<forall>k. a \<le> k \<and> k < j \<longrightarrow> \<not> P k"
    by (auto dest: find_Some_nth)
  with assms show ?thesis by (metis Some linorder_cases)
qed

end
