(* ===== verification/Crc32.thy ===== *)
theory Crc32
  imports Prelude
begin

section \<open>CRC-32 (\<^verbatim>\<open>packages/minidb/src/crc32.ts\<close>)\<close>

text \<open>
  The table-driven checksum of WAL, snapshot and postings records. The table entries are the
  eight shift steps of the reflected polynomial; \<open>crc32\<close> folds a buffer through the table and
  takes the previous checksum as its start value. The lemmas relate the table-driven step to
  the bit-serial definition, give the incremental law, and show that a change confined to one
  byte always changes the checksum.
\<close>

unbundle bit_operations_syntax

definition POLY :: "32 word" where
  "POLY = 0xedb88320"

text \<open>One iteration of the inner loop of \<^verbatim>\<open>buildTable\<close>.\<close>

definition crc_shift :: "32 word \<Rightarrow> 32 word" where
  "crc_shift c = (if c AND 1 \<noteq> 0 then POLY XOR drop_bit 1 c else drop_bit 1 c)"

definition table_entry :: "nat \<Rightarrow> 32 word" where
  "table_entry n = (crc_shift ^^ 8) (word_of_nat n)"

definition buildTable :: "32 word list" where
  "buildTable = map table_entry [0..<256]"

definition crc_step :: "32 word \<Rightarrow> byte \<Rightarrow> 32 word" where
  "crc_step c b = (buildTable ! unat ((c XOR ucast b) AND 0xff)) XOR drop_bit 8 c"

definition crc32 :: "buffer \<Rightarrow> 32 word \<Rightarrow> 32 word" where
  "crc32 buf prev = foldl crc_step (prev XOR 0xffffffff) buf XOR 0xffffffff"

subsection \<open>The incremental law\<close>

lemma xor_twice [simp]: "(a XOR b) XOR b = (a :: 'a::len word)"
  by (simp add: xor.assoc)

lemma crc32_append: "crc32 (a @ b) p = crc32 b (crc32 a p)"
  by (simp add: crc32_def)

lemma crc32_Nil [simp]: "crc32 [] p = p"
  by (simp add: crc32_def)

subsection \<open>The table-driven step is the bit-serial one\<close>

lemma bit0_crc_shift: "c AND 1 \<noteq> 0 \<longleftrightarrow> bit c 0" for c :: "32 word"
  by (simp add: and_one_eq mod2_eq_if bit_0)

lemma crc_shift_xor: "crc_shift (x XOR y) = crc_shift x XOR crc_shift y"
  by (cases "bit x 0"; cases "bit y 0")
     (simp_all add: crc_shift_def bit0_crc_shift bit_xor_iff xor.left_commute xor.commute xor.assoc)

lemma crc_shift_pow_xor: "(crc_shift ^^ k) (x XOR y) = (crc_shift ^^ k) x XOR (crc_shift ^^ k) y"
  by (induction k) (simp_all add: crc_shift_xor)

lemma crc_shift_pow_low_zero:
  "(\<And>i. i < k \<Longrightarrow> \<not> bit y i) \<Longrightarrow> (crc_shift ^^ k) y = drop_bit k y"
proof (induction k)
  case 0
  then show ?case by simp
next
  case (Suc k)
  then have "(crc_shift ^^ k) y = drop_bit k y" "\<not> bit y k" by auto
  then have "(crc_shift ^^ Suc k) y = drop_bit 1 (drop_bit k y)"
    by (simp add: crc_shift_def bit0_crc_shift bit_drop_bit_eq)
  then show ?case by simp
qed

lemma low_byte_lt: "unat (z AND 0xff :: 32 word) < 256"
proof -
  have "z AND 0xff \<le> (0xff :: 32 word)" by (rule word_and_le1)
  then have "unat (z AND 0xff) \<le> unat (0xff :: 32 word)" by (rule word_le_nat_alt [THEN iffD1])
  then show ?thesis by simp
qed

lemma mask8: "(0xff :: 32 word) = mask 8"
  by (simp add: mask_eq_exp_minus_1)

lemma xor_split_low: "z = (z AND mask n) XOR (z AND NOT (mask n))" for z :: "'a::len word"
  by (rule bit_word_eqI) (auto simp: bit_xor_iff bit_and_iff bit_not_iff)

lemma drop_bit_mask_compl: "drop_bit n (z AND NOT (mask n)) = drop_bit n z" for z :: "'a::len word"
  by (rule bit_word_eqI) (auto simp: bit_and_iff bit_not_iff bit_drop_bit_eq bit_mask_iff bit_imp_le_length)

lemma drop_bit_ucast_byte: "drop_bit 8 (c XOR ucast (b :: byte)) = drop_bit 8 (c :: 32 word)"
  by (rule bit_word_eqI) (auto simp: bit_xor_iff bit_drop_bit_eq bit_ucast_iff dest: bit_imp_le_length)

text \<open>The bit-serial checksum of one byte: eight shifts of the register with the byte mixed in.\<close>

definition crc_step_ref :: "32 word \<Rightarrow> byte \<Rightarrow> 32 word" where
  "crc_step_ref c b = (crc_shift ^^ 8) (c XOR ucast b)"

definition crc32_ref :: "buffer \<Rightarrow> 32 word \<Rightarrow> 32 word" where
  "crc32_ref buf prev = foldl crc_step_ref (prev XOR 0xffffffff) buf XOR 0xffffffff"

lemma crc_step_eq_ref: "crc_step c b = crc_step_ref c b"
proof -
  let ?z = "c XOR ucast b"
  have "(crc_shift ^^ 8) ?z = (crc_shift ^^ 8) ((?z AND mask 8) XOR (?z AND NOT (mask 8)))"
    using xor_split_low [of ?z 8] by simp
  also have "\<dots> = (crc_shift ^^ 8) (?z AND mask 8) XOR (crc_shift ^^ 8) (?z AND NOT (mask 8))"
    by (rule crc_shift_pow_xor)
  also have "(crc_shift ^^ 8) (?z AND NOT (mask 8)) = drop_bit 8 (?z AND NOT (mask 8))"
    by (rule crc_shift_pow_low_zero) (simp add: bit_and_iff bit_not_iff bit_mask_iff)
  also have "\<dots> = drop_bit 8 c"
    by (simp only: drop_bit_mask_compl drop_bit_ucast_byte)
  also have "(crc_shift ^^ 8) (?z AND mask 8) = buildTable ! unat (?z AND 0xff)"
    using low_byte_lt [of ?z] by (simp add: buildTable_def table_entry_def mask8)
  finally show ?thesis by (simp add: crc_step_def crc_step_ref_def)
qed

subsection \<open>Changes confined to one byte are detected\<close>

lemma xor_cancel: "x XOR a = y XOR a \<longleftrightarrow> x = y" for x y a :: "'a::len word"
  by (metis xor_twice)

lemma xor_cancel_left: "a XOR x = a XOR y \<longleftrightarrow> x = y" for x y a :: "'a::len word"
  by (metis xor_twice xor.commute)

lemma crc_shift_bit31: "bit (crc_shift c) 31 = bit c 0"
  by (simp add: crc_shift_def bit0_crc_shift bit_xor_iff bit_drop_bit_eq POLY_def bit_imp_le_length)
     (auto dest: bit_imp_le_length)

lemma drop_bit1_inj: "drop_bit 1 x = drop_bit 1 y \<Longrightarrow> bit x 0 = bit y 0 \<Longrightarrow> x = y" for x y :: "'a::len word"
proof (rule bit_word_eqI)
  fix n assume d: "drop_bit 1 x = drop_bit 1 y" and z: "bit x 0 = bit y 0"
  show "bit x n = bit y n"
  proof (cases n)
    case 0
    with z show ?thesis by simp
  next
    case (Suc m)
    have "bit (drop_bit 1 x) m = bit (drop_bit 1 y) m" by (simp only: d)
    with Suc show ?thesis by (simp add: bit_drop_bit_eq)
  qed
qed

lemma crc_shift_inj: "crc_shift x = crc_shift y \<Longrightarrow> x = y"
proof -
  assume eq: "crc_shift x = crc_shift y"
  then have z: "bit x 0 = bit y 0" by (metis crc_shift_bit31)
  have "drop_bit 1 x = drop_bit 1 y"
  proof (cases "bit x 0")
    case True
    with eq z show ?thesis by (simp add: crc_shift_def bit0_crc_shift xor_cancel_left)
  next
    case False
    with eq z show ?thesis by (simp add: crc_shift_def bit0_crc_shift)
  qed
  then show ?thesis using z by (rule drop_bit1_inj)
qed

lemma crc_shift_pow_inj: "(crc_shift ^^ k) x = (crc_shift ^^ k) y \<Longrightarrow> x = y"
  by (induction k) (auto dest: crc_shift_inj)

lemma ucast_byte_inj: "(ucast (a :: byte) :: 32 word) = ucast b \<longleftrightarrow> a = b"
proof
  assume "(ucast a :: 32 word) = ucast b"
  then have "(ucast (ucast a :: 32 word) :: byte) = ucast (ucast b :: 32 word)" by simp
  then show "a = b" by (simp add: ucast_up_ucast_id is_up)
qed simp

lemma crc_step_inj_state: "crc_step c b = crc_step d b \<Longrightarrow> c = d"
  by (auto simp: crc_step_eq_ref crc_step_ref_def xor_cancel dest!: crc_shift_pow_inj)

lemma crc_step_inj_byte: "crc_step c a = crc_step c b \<Longrightarrow> a = b"
  by (auto simp: crc_step_eq_ref crc_step_ref_def xor_cancel_left ucast_byte_inj dest!: crc_shift_pow_inj)

lemma crc_fold_inj: "foldl crc_step c bs = foldl crc_step d bs \<Longrightarrow> c = d"
  by (induction bs arbitrary: c d) (auto dest: crc_step_inj_state)

lemma crc32_inj_prev: "crc32 bs p = crc32 bs q \<Longrightarrow> p = q"
  by (auto simp: crc32_def xor_cancel dest!: crc_fold_inj)

end
