(* ===== verification/Codec.thy ===== *)
theory Codec
  imports Crc32
begin

section \<open>The record format of WAL and snapshot (\<^verbatim>\<open>packages/minidb/src/codec.ts\<close>)\<close>

text \<open>
  Frames and batch bodies: the encoder \<open>encodeFrame\<close>, the validating reader \<open>readFrameAt\<close>,
  the whole-buffer parser \<open>parseBuffer\<close> in its two corruption modes, and the batch-body codec.
  Buffers are byte lists, offsets are natural numbers, \<open>expireAt\<close> is an integer, and a thrown
  error is the left value of the result. The TypeScript checks that an argument is a Buffer are
  discharged by typing. A \<^verbatim>\<open>CorruptFrameError\<close> is one of the last three errors, with the
  stream offset it carries (and the byte count for a torn tail). \<^verbatim>\<open>Buffer.writeUInt\<close> throws on a value outside its field, which is the
  error \<open>OutOfRange\<close>.
\<close>

subsection \<open>Constants, records and errors\<close>

definition MAGIC :: buffer where "MAGIC = [0x4d, 0x44]"
definition TYPE_SET :: nat where "TYPE_SET = 1"
definition TYPE_DEL :: nat where "TYPE_DEL = 2"
definition TYPE_BATCH :: nat where "TYPE_BATCH = 3"
definition HEADER_SIZE :: nat where "HEADER_SIZE = 22"
definition CRC_SIZE :: nat where "CRC_SIZE = 4"
definition MAX_KEY_LEN :: nat where "MAX_KEY_LEN = 0xffff"
definition MAX_VAL_LEN :: nat where "MAX_VAL_LEN = 0xffffffff"
definition SUB_HEADER :: nat where "SUB_HEADER = 1 + 2 + 4 + 4 + 8"

lemmas size_defs = HEADER_SIZE_def CRC_SIZE_def MAX_KEY_LEN_def MAX_VAL_LEN_def SUB_HEADER_def

record frame =
  f_type :: nat
  f_key :: buffer
  f_value :: buffer
  f_meta :: "buffer option"
  f_expireAt :: int

record encode_input =
  i_type :: nat
  i_key :: buffer
  i_value :: "buffer option"
  i_meta :: "buffer option"
  i_expireAt :: "int option"

record batch_op =
  b_type :: nat
  b_key :: buffer
  b_value :: "buffer option"
  b_meta :: "buffer option"
  b_expireAt :: int

record parse_result =
  p_frames :: "frame list"
  p_corruptRanges :: "(nat \<times> nat) list"
  p_eofOffset :: nat

datatype codec_error =
    KeyTooLarge
  | ValueTooLarge
  | MetaTooLarge
  | OutOfRange
  | BatchHeaderTruncated
  | BatchPayloadTruncated
  | ShortRead
  | MagicNotFound nat
  | CrcMismatch nat
  | TornTail nat nat

definition opt_buf :: "buffer option \<Rightarrow> buffer" where
  "opt_buf v = (case v of None \<Rightarrow> [] | Some b \<Rightarrow> b)"

lemma opt_buf_simps [simp]: "opt_buf None = []" "opt_buf (Some b) = b"
  by (simp_all add: opt_buf_def)

definition readUInt8 :: "buffer \<Rightarrow> nat \<Rightarrow> nat" where
  "readUInt8 buf o' = le_nat (subarray o' (o' + 1) buf)"

definition readUInt16LE :: "buffer \<Rightarrow> nat \<Rightarrow> nat" where
  "readUInt16LE buf o' = le_nat (subarray o' (o' + 2) buf)"

definition readUInt32LE :: "buffer \<Rightarrow> nat \<Rightarrow> nat" where
  "readUInt32LE buf o' = le_nat (subarray o' (o' + 4) buf)"

definition readExpireAt :: "buffer \<Rightarrow> nat \<Rightarrow> int" where
  "readExpireAt buf o' = js_number (i64_of (subarray o' (o' + 8) buf))"

lemmas read_defs = readUInt8_def readUInt16LE_def readUInt32LE_def readExpireAt_def

subsection \<open>Encoding one frame\<close>

definition encodeFrame :: "encode_input \<Rightarrow> (codec_error, buffer) res" where
  "encodeFrame i =
     (let val = opt_buf (i_value i); met = opt_buf (i_meta i);
          exp = (case i_expireAt i of None \<Rightarrow> 0 | Some e \<Rightarrow> e)
      in if length (i_key i) > MAX_KEY_LEN then Inl KeyTooLarge
         else if length val > MAX_VAL_LEN then Inl ValueTooLarge
         else if length met > MAX_VAL_LEN then Inl MetaTooLarge
         else if i_type i > 255 \<or> \<not> fits_i64 exp then Inl OutOfRange
         else
           let frame = MAGIC @ le_bytes 1 (i_type i) @ le_bytes 1 0
                 @ le_bytes 2 (length (i_key i)) @ le_bytes 4 (length val) @ le_bytes 4 (length met)
                 @ i64_bytes exp @ i_key i @ val @ met;
               c = crc32 (subarray 2 (length frame) frame) 0
           in Inr (frame @ le_bytes 4 (unat c)))"

subsection \<open>Reading one frame\<close>

definition readFrameAt :: "buffer \<Rightarrow> nat \<Rightarrow> (frame \<times> nat) option" where
  "readFrameAt buf pos =
     (if length buf < pos + HEADER_SIZE then None
      else if buf ! pos \<noteq> MAGIC ! 0 \<or> buf ! (pos + 1) \<noteq> MAGIC ! 1 then None
      else
        let keyLen = readUInt16LE buf (pos + 4);
            valLen = readUInt32LE buf (pos + 6);
            metaLen = readUInt32LE buf (pos + 10)
        in if keyLen > MAX_KEY_LEN then None
           else
             let frameLen = HEADER_SIZE + keyLen + valLen + metaLen + CRC_SIZE
             in if frameLen < HEADER_SIZE + CRC_SIZE then None
                else if length buf < pos + frameLen then None
                else
                  let stored = readUInt32LE buf (pos + frameLen - CRC_SIZE);
                      computed = crc32 (subarray (pos + 2) (pos + frameLen - CRC_SIZE) buf) 0
                  in if stored \<noteq> unat computed then None
                     else
                       let keyStart = pos + HEADER_SIZE;
                           metaStart = keyStart + keyLen + valLen
                       in Some
                         (\<lparr>f_type = readUInt8 buf (pos + 2),
                           f_key = subarray keyStart (keyStart + keyLen) buf,
                           f_value = subarray (keyStart + keyLen) (keyStart + keyLen + valLen) buf,
                           f_meta = (if metaLen \<noteq> 0 then Some (subarray metaStart (metaStart + metaLen) buf)
                                     else None),
                           f_expireAt = readExpireAt buf (pos + 14)\<rparr>,
                          frameLen))"

subsection \<open>Parsing a whole buffer\<close>

text \<open>\<^verbatim>\<open>buf.indexOf(MAGIC, from)\<close>.\<close>

definition indexOf_MAGIC :: "buffer \<Rightarrow> nat \<Rightarrow> nat option" where
  "indexOf_MAGIC buf from =
     find (\<lambda>i. buf ! i = MAGIC ! 0 \<and> buf ! (i + 1) = MAGIC ! 1) [from..<length buf - 1]"

lemma indexOf_MAGIC_ge: "indexOf_MAGIC buf from = Some s \<Longrightarrow> from \<le> s \<and> s + 1 < length buf"
  by (auto simp: indexOf_MAGIC_def dest: find_Some_nth)

text \<open>The inner resynchronisation loop: the next magic at which a whole frame validates.\<close>

function resync_scan :: "buffer \<Rightarrow> nat \<Rightarrow> nat option" where
  "resync_scan buf scan =
     (if scan + 1 < length buf then
        case indexOf_MAGIC buf scan of
          None \<Rightarrow> None
        | Some s \<Rightarrow> if readFrameAt buf s \<noteq> None then Some s else resync_scan buf (s + 1)
      else None)"
  by pat_completeness auto
termination
  by (relation "measure (\<lambda>(buf, scan). length buf - scan)") (auto dest!: indexOf_MAGIC_ge)

declare resync_scan.simps [simp del]

lemma readFrameAt_len: "readFrameAt buf pos = Some (f, n) \<Longrightarrow> 26 \<le> n \<and> pos + n \<le> length buf"
  by (auto simp: readFrameAt_def Let_def size_defs split: if_splits)

lemma resync_scan_ge: "resync_scan buf scan = Some r \<Longrightarrow> scan \<le> r \<and> readFrameAt buf r \<noteq> None"
proof (induction buf scan rule: resync_scan.induct)
  case (1 buf scan)
  from "1.prems" obtain s where s: "scan + 1 < length buf" "indexOf_MAGIC buf scan = Some s"
    by (auto simp: resync_scan.simps [of buf scan] split: if_splits option.splits)
  show ?case
  proof (cases "readFrameAt buf s = None")
    case True
    with s "1.prems" have "resync_scan buf (s + 1) = Some r"
      by (simp add: resync_scan.simps [of buf scan])
    with "1.IH" s True have "s + 1 \<le> r \<and> readFrameAt buf r \<noteq> None" by simp
    with indexOf_MAGIC_ge [OF s(2)] show ?thesis by simp
  next
    case False
    with s "1.prems" have "r = s" by (auto simp: resync_scan.simps [of buf scan])
    with indexOf_MAGIC_ge [OF s(2)] False show ?thesis by simp
  qed
qed

function parse_from :: "bool \<Rightarrow> buffer \<Rightarrow> nat \<Rightarrow> parse_result" where
  "parse_from strict buf pos =
     (if pos < length buf then
        case readFrameAt buf pos of
          Some (f, n) \<Rightarrow>
            (let r = parse_from strict buf (pos + n) in r\<lparr>p_frames := f # p_frames r\<rparr>)
        | None \<Rightarrow>
            if strict
            then \<lparr>p_frames = [], p_corruptRanges = [(pos, length buf)], p_eofOffset = pos\<rparr>
            else case resync_scan buf (pos + 1) of
                None \<Rightarrow> \<lparr>p_frames = [], p_corruptRanges = [(pos, length buf)], p_eofOffset = pos\<rparr>
              | Some resume \<Rightarrow>
                  (let r = parse_from strict buf resume
                   in r\<lparr>p_corruptRanges := (pos, resume) # p_corruptRanges r\<rparr>)
      else \<lparr>p_frames = [], p_corruptRanges = [], p_eofOffset = pos\<rparr>)"
  by pat_completeness auto
termination
  by (relation "measure (\<lambda>(strict, buf, pos). length buf - pos)")
     (auto dest!: readFrameAt_len resync_scan_ge)

declare parse_from.simps [simp del]

definition parseBuffer :: "bool \<Rightarrow> buffer \<Rightarrow> parse_result" where
  "parseBuffer strict buf = parse_from strict buf 0"

subsection \<open>Batch bodies\<close>

definition encode_op :: "batch_op \<Rightarrow> (codec_error, buffer) res" where
  "encode_op op =
     (let val = opt_buf (b_value op); met = opt_buf (b_meta op)
      in if b_type op > 255 \<or> length (b_key op) > 0xffff \<or> length val > 0xffffffff
            \<or> length met > 0xffffffff \<or> \<not> fits_i64 (b_expireAt op)
         then Inl OutOfRange
         else Inr (le_bytes 1 (b_type op) @ le_bytes 2 (length (b_key op)) @ le_bytes 4 (length val)
                @ le_bytes 4 (length met) @ i64_bytes (b_expireAt op) @ b_key op @ val @ met))"

fun encode_ops :: "batch_op list \<Rightarrow> (codec_error, buffer) res" where
  "encode_ops [] = Inr []"
| "encode_ops (op # ops) =
     bind_res (encode_op op) (\<lambda>b. bind_res (encode_ops ops) (\<lambda>bs. Inr (b @ bs)))"

definition encodeBatchOps :: "batch_op list \<Rightarrow> (codec_error, buffer) res" where
  "encodeBatchOps ops =
     (if length ops > 0xffff then Inl OutOfRange
      else bind_res (encode_ops ops) (\<lambda>body. Inr (le_bytes 2 (length ops) @ body)))"

fun decode_ops :: "nat \<Rightarrow> buffer \<Rightarrow> nat \<Rightarrow> (codec_error, batch_op list) res" where
  "decode_ops 0 body o' = Inr []"
| "decode_ops (Suc n) body o' =
     (if o' + SUB_HEADER > length body then Inl BatchHeaderTruncated
      else
        let type = readUInt8 body o';
            keyLen = readUInt16LE body (o' + 1);
            valLen = readUInt32LE body (o' + 3);
            metaLen = readUInt32LE body (o' + 7);
            expireAt = readExpireAt body (o' + 11);
            k = o' + SUB_HEADER
        in if k + keyLen + valLen + metaLen > length body then Inl BatchPayloadTruncated
           else
             let key = subarray k (k + keyLen) body;
                 value = subarray (k + keyLen) (k + keyLen + valLen) body;
                 meta = (if metaLen \<noteq> 0
                         then Some (subarray (k + keyLen + valLen) (k + keyLen + valLen + metaLen) body)
                         else None)
             in bind_res (decode_ops n body (k + keyLen + valLen + metaLen))
                  (\<lambda>ops. Inr (\<lparr>b_type = type, b_key = key, b_value = Some value, b_meta = meta,
                               b_expireAt = expireAt\<rparr> # ops)))"

definition decodeBatchOps :: "buffer \<Rightarrow> (codec_error, batch_op list) res" where
  "decodeBatchOps body =
     (if length body < 2 then Inr [] else decode_ops (readUInt16LE body 0) body 2)"

subsection \<open>Position independence and truncation\<close>

lemma subarray_0_prefix [buf_simps]: "length xs = b \<Longrightarrow> subarray 0 b (xs @ ys) = xs"
  by (simp add: subarray_def)

lemma subarray_0_all [buf_simps]: "length xs = b \<Longrightarrow> subarray 0 b xs = xs"
  by (auto simp: subarray_def)

declare subarray_append_right [buf_simps]

lemma subarray_Cons [buf_simps]: "0 < a \<Longrightarrow> subarray a b (x # xs) = subarray (a - 1) (b - 1) xs"
  by (cases a; cases b) (simp_all add: subarray_def)

lemma subarray_hd [buf_simps]: "subarray 0 (Suc 0) (x # xs) = [x]"
  by (simp add: subarray_def)

lemma subarray_shift: "subarray (length pre + a) (length pre + b) (pre @ buf) = subarray a b buf"
  by (simp add: subarray_append_right)

lemma read_shift:
  "readUInt8 (pre @ buf) (length pre + k) = readUInt8 buf k"
  "readUInt16LE (pre @ buf) (length pre + k) = readUInt16LE buf k"
  "readUInt32LE (pre @ buf) (length pre + k) = readUInt32LE buf k"
  "readExpireAt (pre @ buf) (length pre + k) = readExpireAt buf k"
  by (simp_all only: read_defs add.assoc subarray_shift)

lemma readFrameAt_shift: "readFrameAt (pre @ buf) (length pre + pos) = readFrameAt buf pos"
proof -
  have magic: "(pre @ buf) ! (length pre + pos) = buf ! pos"
    "(pre @ buf) ! (length pre + pos + 1) = buf ! (pos + 1)"
    by (simp_all add: nth_append)
  have minus: "length pre + pos + n - CRC_SIZE = length pre + (pos + n - CRC_SIZE)" if "CRC_SIZE \<le> n" for n
    using that by simp
  show ?thesis
    by (simp add: readFrameAt_def magic read_shift subarray_shift Let_def minus add.assoc
        del: One_nat_def add_2_eq_Suc add_2_eq_Suc')
qed

lemma readFrameAt_drop: "pos \<le> length buf \<Longrightarrow> readFrameAt buf pos = readFrameAt (drop pos buf) 0"
  using readFrameAt_shift [of "take pos buf" "drop pos buf" 0] by simp

lemma subarray_extend: "b \<le> length buf \<Longrightarrow> subarray a b (buf @ post) = subarray a b buf"
  by (rule subarray_prefix)

lemma readFrameAt_extend:
  assumes "readFrameAt buf pos = Some (f, n)"
  shows "readFrameAt (buf @ post) pos = Some (f, n)"
proof -
  have "pos + n \<le> length buf" "26 \<le> n" using readFrameAt_len [OF assms] by auto
  then have hdr: "pos + 22 \<le> length buf" by simp
  have rd: "readUInt8 (buf @ post) (pos + 2) = readUInt8 buf (pos + 2)"
    "readUInt16LE (buf @ post) (pos + 4) = readUInt16LE buf (pos + 4)"
    "readUInt32LE (buf @ post) (pos + 6) = readUInt32LE buf (pos + 6)"
    "readUInt32LE (buf @ post) (pos + 10) = readUInt32LE buf (pos + 10)"
    "readExpireAt (buf @ post) (pos + 14) = readExpireAt buf (pos + 14)"
    "(buf @ post) ! pos = buf ! pos" "(buf @ post) ! Suc pos = buf ! Suc pos"
    using hdr by (simp_all add: read_defs subarray_extend nth_append)
  show ?thesis
    using assms
    by (auto simp: readFrameAt_def Let_def rd size_defs readUInt32LE_def subarray_extend add.assoc
        simp del: add_2_eq_Suc add_2_eq_Suc' split: if_splits)
qed

subsection \<open>The reader inverts the encoder\<close>

definition decoded :: "encode_input \<Rightarrow> frame" where
  "decoded i = \<lparr>f_type = i_type i, f_key = i_key i, f_value = opt_buf (i_value i),
     f_meta = (if opt_buf (i_meta i) = [] then None else Some (opt_buf (i_meta i))),
     f_expireAt = js_number (case i_expireAt i of None \<Rightarrow> 0 | Some e \<Rightarrow> e)\<rparr>"

definition frame_length :: "encode_input \<Rightarrow> nat" where
  "frame_length i = HEADER_SIZE + length (i_key i) + length (opt_buf (i_value i))
     + length (opt_buf (i_meta i)) + CRC_SIZE"

lemma length_MAGIC [simp]: "length MAGIC = 2"
  by (simp add: MAGIC_def)

lemma unat_le_nat_crc: "le_nat (le_bytes 4 (unat (c :: 32 word))) = unat c"
proof (rule le_nat_le_bytes)
  show "unat c < 256 ^ 4" using unsigned_less [of c, where ?'a = nat] by simp
qed

lemma encodeFrame_length: "encodeFrame i = Inr enc \<Longrightarrow> length enc = frame_length i"
  by (auto simp: encodeFrame_def frame_length_def Let_def size_defs split: if_splits)

lemma encodeFrameE:
  assumes "encodeFrame i = Inr enc"
  obtains "length (i_key i) < 256 ^ 2" "length (opt_buf (i_value i)) < 256 ^ 4"
    "length (opt_buf (i_meta i)) < 256 ^ 4" "i_type i < 256 ^ 1"
    "fits_i64 (case i_expireAt i of None \<Rightarrow> 0 | Some e \<Rightarrow> e)"
    "enc = (let frame = MAGIC @ le_bytes 1 (i_type i) @ le_bytes 1 0
                 @ le_bytes 2 (length (i_key i)) @ le_bytes 4 (length (opt_buf (i_value i)))
                 @ le_bytes 4 (length (opt_buf (i_meta i)))
                 @ i64_bytes (case i_expireAt i of None \<Rightarrow> 0 | Some e \<Rightarrow> e)
                 @ i_key i @ opt_buf (i_value i) @ opt_buf (i_meta i)
            in frame @ le_bytes 4 (unat (crc32 (subarray 2 (length frame) frame) 0)))"
  using assms by (auto simp: encodeFrame_def Let_def size_defs split: if_splits)

lemma readFrameAt_encodeFrame:
  assumes enc: "encodeFrame i = Inr enc"
  shows "readFrameAt (enc @ post) 0 = Some (decoded i, frame_length i)"
proof (rule readFrameAt_extend)
  define k v m e t where "k = i_key i" and "v = opt_buf (i_value i)" and "m = opt_buf (i_meta i)"
    and "e = (case i_expireAt i of None \<Rightarrow> 0 | Some e \<Rightarrow> e)" and "t = i_type i"
  note abbr = k_def [symmetric] v_def [symmetric] m_def [symmetric] e_def [symmetric] t_def [symmetric]
  define body where "body = MAGIC @ le_bytes 1 t @ le_bytes 1 0 @ le_bytes 2 (length k)
    @ le_bytes 4 (length v) @ le_bytes 4 (length m) @ i64_bytes e @ k @ v @ m"
  define c where "c = crc32 (subarray 2 (length body) body) 0"
  from enc have lens: "length k < 256 ^ 2" "length v < 256 ^ 4" "length m < 256 ^ 4" "t < 256 ^ 1" "fits_i64 e"
    and eq: "enc = body @ le_bytes 4 (unat c)"
    by (auto elim!: encodeFrameE simp: abbr body_def c_def Let_def)
  have blen: "length body = 22 + length k + length v + length m"
    by (simp add: body_def)
  have rd: "readUInt8 enc 2 = t" "readUInt16LE enc 4 = length k" "readUInt32LE enc 6 = length v"
    "readUInt32LE enc 10 = length m" "readExpireAt enc 14 = js_number e"
    using lens by (simp_all add: eq body_def read_defs buf_simps le_nat_le_bytes i64_of_i64_bytes unat_of_nat)
  have magic: "enc ! 0 = MAGIC ! 0" "enc ! 1 = MAGIC ! 1"
    by (simp_all add: eq body_def nth_append)
  have stored: "readUInt32LE enc (length body) = unat c"
    using unat_le_nat_crc [of c]
    by (simp add: eq readUInt32LE_def buf_simps)
  have crc: "subarray 2 (length body) enc = subarray 2 (length body) body"
    by (simp add: eq subarray_prefix)
  have payload: "subarray 22 (22 + length k) enc = k"
    "subarray (22 + length k) (22 + length k + length v) enc = v"
    "subarray (22 + length k + length v) (22 + length k + length v + length m) enc = m"
    by (simp_all add: eq body_def buf_simps)
  have fl: "frame_length i = length body + 4"
    by (simp add: frame_length_def blen abbr size_defs)
  have key: "\<not> length k > MAX_KEY_LEN" using lens by (simp add: size_defs)
  have "length enc = length body + 4" by (simp add: eq)
  then show "readFrameAt enc 0 = Some (decoded i, frame_length i)"
    using rd magic stored crc payload key lens
    by (cases "m = []")
       (simp_all add: readFrameAt_def Let_def fl decoded_def abbr blen c_def size_defs add.assoc
        del: add_2_eq_Suc add_2_eq_Suc')
qed

corollary readFrameAt_encoded_at:
  "encodeFrame i = Inr enc \<Longrightarrow>
     readFrameAt (pre @ enc @ post) (length pre) = Some (decoded i, length enc)"
  using readFrameAt_shift [of pre "enc @ post" 0] readFrameAt_encodeFrame [of i enc post]
  by (simp add: encodeFrame_length)

text \<open>A frame cut short at any point is not a frame.\<close>

lemma readFrameAt_len_field:
  assumes "readFrameAt buf 0 = Some (f, n)"
  shows "n = HEADER_SIZE + readUInt16LE buf 4 + readUInt32LE buf 6 + readUInt32LE buf 10 + CRC_SIZE"
    "n \<le> length buf"
  using assms by (auto simp: readFrameAt_def Let_def split: if_splits)

lemma readFrameAt_truncated:
  assumes enc: "encodeFrame i = Inr enc" and k: "k < length enc"
  shows "readFrameAt (take k enc) 0 = None"
proof (rule ccontr)
  assume "readFrameAt (take k enc) 0 \<noteq> None"
  then obtain f n where r: "readFrameAt (take k enc) 0 = Some (f, n)" by auto
  then have "readFrameAt (take k enc @ drop k enc) 0 = Some (f, n)" by (rule readFrameAt_extend)
  with readFrameAt_encodeFrame [OF enc, of "[]"] have "n = length enc"
    by (simp add: encodeFrame_length [OF enc])
  moreover have "n \<le> k" using readFrameAt_len [OF r] k by simp
  ultimately show False using k by simp
qed

end
