(* ===== verification/Parsing.thy ===== *)
theory Parsing
  imports Codec
begin

section \<open>What parsing a log recovers\<close>

text \<open>
  Facts about \<open>parseBuffer\<close> on logs of encoded frames: intact logs, logs cut short by a crash,
  logs with a damaged frame, and the accounting of every byte in both corruption modes.
\<close>

definition encodable :: "encode_input \<Rightarrow> bool" where
  "encodable i \<longleftrightarrow> \<not> isl (encodeFrame i)"

definition encoded :: "encode_input \<Rightarrow> buffer" where
  "encoded i = projr (encodeFrame i)"

definition log_bytes :: "encode_input list \<Rightarrow> buffer" where
  "log_bytes is = concat (map encoded is)"

lemma encodable_Inr: "encodable i \<Longrightarrow> encodeFrame i = Inr (encoded i)"
  by (cases "encodeFrame i") (simp_all add: encodable_def encoded_def)

lemma log_bytes_simps [simp]:
  "log_bytes [] = []"
  "log_bytes (i # is) = encoded i @ log_bytes is"
  by (simp_all add: log_bytes_def)

lemma length_encoded: "encodable i \<Longrightarrow> length (encoded i) = frame_length i"
  by (rule encodeFrame_length, erule encodable_Inr)

lemma length_encoded_pos: "encodable i \<Longrightarrow> 26 \<le> length (encoded i)"
  by (simp add: length_encoded frame_length_def size_defs)

subsection \<open>Resynchronisation finds the next valid frame\<close>

lemma readFrameAt_magic:
  "readFrameAt buf s \<noteq> None \<Longrightarrow> s + 1 < length buf - 1 \<and> buf ! s = MAGIC ! 0 \<and> buf ! (s + 1) = MAGIC ! 1"
  by (auto simp: readFrameAt_def size_defs split: if_splits)

lemma resync_scan_find: "resync_scan buf scan = find (\<lambda>s. readFrameAt buf s \<noteq> None) [scan..<length buf - 1]"
proof (induction buf scan rule: resync_scan.induct)
  case (1 buf scan)
  let ?P = "\<lambda>s. readFrameAt buf s \<noteq> None" and ?n = "length buf - 1"
  show ?case
  proof (cases "indexOf_MAGIC buf scan")
    case None
    then have "\<forall>j. scan \<le> j \<and> j < ?n \<longrightarrow> \<not> ?P j"
      using readFrameAt_magic [of buf] by (auto simp: indexOf_MAGIC_def find_upt_None)
    then have "find ?P [scan..<?n] = None" by (simp add: find_upt_None)
    with None show ?thesis by (simp add: resync_scan.simps [of buf scan])
  next
    case (Some s)
    then have s: "scan \<le> s" "s < ?n" and
      before: "\<And>j. scan \<le> j \<Longrightarrow> j < s \<Longrightarrow> \<not> ?P j"
      using readFrameAt_magic [of buf] by (auto simp: indexOf_MAGIC_def dest!: find_Some_nth)
    show ?thesis
    proof (cases "?P s")
      case True
      with s before have "find ?P [scan..<?n] = Some s" by (intro find_upt_eq_Some) auto
      with Some s True show ?thesis by (simp add: resync_scan.simps [of buf scan])
    next
      case False
      have "find ?P [scan..<?n] = find ?P [s + 1..<?n]"
      proof (cases "find ?P [s + 1..<?n]")
        case None
        then have "\<forall>j. scan \<le> j \<and> j < ?n \<longrightarrow> \<not> ?P j"
          using before False unfolding find_upt_None by (metis Suc_eq_plus1 not_less_eq_eq nat_less_le)
        then have "find ?P [scan..<?n] = None" unfolding find_upt_None .
        with None show ?thesis by simp
      next
        case (Some r)
        then have "s + 1 \<le> r" "r < ?n" "?P r" "\<And>j. s + 1 \<le> j \<Longrightarrow> j < r \<Longrightarrow> \<not> ?P j"
          by (auto dest!: find_Some_nth)
        with before False s have "find ?P [scan..<?n] = Some r"
          by (intro find_upt_eq_Some) (auto, metis Suc_leI nat_neq_iff)
        with Some show ?thesis by simp
      qed
      moreover have "resync_scan buf scan = resync_scan buf (s + 1)"
      proof -
        have "scan + 1 < length buf" using s by arith
        with Some False show ?thesis by (subst resync_scan.simps) simp
      qed
      moreover have "resync_scan buf (s + 1) = find ?P [s + 1..<?n]"
        using s False by (intro "1.IH" [OF _ Some]) auto
      ultimately show ?thesis by simp
    qed
  qed
qed

subsection \<open>A prefix of intact frames\<close>

lemma parse_from_prefix:
  assumes "\<forall>i\<in>set is. encodable i"
  shows "parse_from strict (pre @ log_bytes is @ tail) (length pre) =
    (let r = parse_from strict (pre @ log_bytes is @ tail) (length pre + length (log_bytes is))
     in r\<lparr>p_frames := map decoded is @ p_frames r\<rparr>)"
  using assms
proof (induction "is" arbitrary: pre)
  case Nil
  then show ?case by simp
next
  case (Cons i js)
  let ?buf = "pre @ log_bytes (i # js) @ tail"
  from Cons.prems have i: "encodeFrame i = Inr (encoded i)" by (simp add: encodable_Inr)
  have "readFrameAt ?buf (length pre) = Some (decoded i, length (encoded i))"
    using readFrameAt_encoded_at [OF i, of pre "log_bytes js @ tail"] by simp
  moreover have "length pre < length ?buf"
    using Cons.prems length_encoded_pos [of i] by auto
  ultimately have "parse_from strict ?buf (length pre) =
      (let r = parse_from strict ?buf (length pre + length (encoded i)) in r\<lparr>p_frames := decoded i # p_frames r\<rparr>)"
    by (subst parse_from.simps) simp
  also have "parse_from strict ?buf (length pre + length (encoded i)) =
      (let r = parse_from strict ?buf (length pre + length (log_bytes (i # js)))
       in r\<lparr>p_frames := map decoded js @ p_frames r\<rparr>)"
    using Cons.IH [of "pre @ encoded i"] Cons.prems by (simp add: add.assoc)
  finally show ?case by (simp add: Let_def)
qed

lemma parse_from_end [simp]: "length buf \<le> pos \<Longrightarrow>
   parse_from strict buf pos = \<lparr>p_frames = [], p_corruptRanges = [], p_eofOffset = pos\<rparr>"
  by (simp add: parse_from.simps)

text \<open>The prefix lemma at the start of the buffer.\<close>

lemma parseBuffer_prefix:
  assumes "\<forall>i\<in>set is. encodable i"
  shows "parseBuffer strict (log_bytes is @ tail) =
    (let r = parse_from strict (log_bytes is @ tail) (length (log_bytes is))
     in r\<lparr>p_frames := map decoded is @ p_frames r\<rparr>)"
  using parse_from_prefix [OF assms, of strict "[]" tail] by (simp add: parseBuffer_def)

lemma parse_from_bad_strict:
  "pos < length buf \<Longrightarrow> readFrameAt buf pos = None \<Longrightarrow>
   parse_from True buf pos = \<lparr>p_frames = [], p_corruptRanges = [(pos, length buf)], p_eofOffset = pos\<rparr>"
  by (simp add: parse_from.simps)

lemma parse_from_bad_end:
  "pos < length buf \<Longrightarrow> readFrameAt buf pos = None \<Longrightarrow> resync_scan buf (pos + 1) = None \<Longrightarrow>
   parse_from s buf pos = \<lparr>p_frames = [], p_corruptRanges = [(pos, length buf)], p_eofOffset = pos\<rparr>"
  by (simp add: parse_from.simps)

subsection \<open>Checksum and single-byte damage\<close>

lemma crc32_single_byte:
  assumes "p < length xs" "b \<noteq> xs ! p"
  shows "crc32 (xs[p := b]) q \<noteq> crc32 xs q"
proof
  assume eq: "crc32 (xs[p := b]) q = crc32 xs q"
  let ?r = "crc32 (take p xs) q" and ?ys = "drop (Suc p) xs"
  have "xs[p := b] = take p xs @ [b] @ ?ys" "xs = take p xs @ [xs ! p] @ ?ys"
    using assms by (simp_all add: upd_conv_take_nth_drop id_take_nth_drop)
  with eq have "crc32 ?ys (crc32 [b] ?r) = crc32 ?ys (crc32 [xs ! p] ?r)"
    by (metis crc32_append)
  then have "crc32 [b] ?r = crc32 [xs ! p] ?r" by (rule crc32_inj_prev)
  then have "b = xs ! p" by (auto simp: crc32_def xor_cancel dest: crc_step_inj_byte)
  with assms show False by simp
qed

lemma le_nat_inj: "length xs = length ys \<Longrightarrow> le_nat xs = le_nat ys \<Longrightarrow> xs = ys"
proof (induction xs ys rule: list_induct2)
  case Nil
  then show ?case by simp
next
  case (Cons x xs y ys)
  have b: "unat x < 256" "unat y < 256"
    using unsigned_less [of x, where ?'a = nat] unsigned_less [of y, where ?'a = nat] by simp_all
  from Cons.prems have "unat x + 256 * le_nat xs = unat y + 256 * le_nat ys" by simp
  then have "unat x mod 256 = unat y mod 256" "unat x div 256 + le_nat xs = unat y div 256 + le_nat ys"
    by (metis mod_mult_self2, metis div_mult_self2 zero_neq_numeral add.commute)
  with b have "unat x = unat y" "le_nat xs = le_nat ys" by simp_all
  then have "x = y" "xs = ys" using Cons.IH by (simp_all add: word_unat_eq_iff)
  then show ?case by simp
qed

text \<open>Bytes 4 to 13 of a frame are its three length fields.\<close>

definition damaged :: "nat \<Rightarrow> byte \<Rightarrow> buffer \<Rightarrow> bool" where
  "damaged p b enc \<longleftrightarrow> p < length enc \<and> b \<noteq> enc ! p \<and> (p < 4 \<or> 14 \<le> p)"

lemma subarray_update: "subarray a b (xs[p := x]) =
    (if a \<le> p \<and> p < b then (subarray a b xs)[p - a := x] else subarray a b xs)"
  by (cases "a \<le> p") (auto simp: subarray_def drop_update_swap take_update_swap list_update_beyond)

lemma readFrameAt_check:
  assumes "readFrameAt buf 0 = Some (f, n)"
  shows "readUInt32LE buf (n - 4) = unat (crc32 (subarray 2 (n - 4) buf) 0)"
    "buf ! 0 = MAGIC ! 0" "buf ! 1 = MAGIC ! 1"
  using assms
  by (auto simp: readFrameAt_def Let_def size_defs simp del: add_2_eq_Suc add_2_eq_Suc' split: if_splits)

lemma readFrameAt_damaged:
  assumes i: "encodable i" and dmg: "damaged p b (encoded i)"
  shows "readFrameAt ((encoded i)[p := b] @ post) 0 = None"
proof (rule ccontr)
  let ?enc = "encoded i" and ?bad = "(encoded i)[p := b]"
  assume "readFrameAt (?bad @ post) 0 \<noteq> None"
  then obtain f n where r: "readFrameAt (?bad @ post) 0 = Some (f, n)" by auto
  have ok: "readFrameAt ?enc 0 = Some (decoded i, length ?enc)"
    using readFrameAt_encodeFrame [OF encodable_Inr [OF i], of "[]"] by (simp add: length_encoded [OF i])
  let ?L = "length ?enc"
  have L: "26 \<le> ?L" by (rule length_encoded_pos [OF i])
  have same: "readUInt16LE (?bad @ post) 4 = readUInt16LE ?enc 4"
    "readUInt32LE (?bad @ post) 6 = readUInt32LE ?enc 6" "readUInt32LE (?bad @ post) 10 = readUInt32LE ?enc 10"
    using dmg L by (auto simp: read_defs subarray_prefix subarray_update damaged_def)
  have n: "n = ?L"
    using readFrameAt_len_field(1) [OF r] readFrameAt_len_field(1) [OF ok] by (simp only: same)
  have stored: "readUInt32LE (?bad @ post) (?L - 4) = unat (crc32 (subarray 2 (?L - 4) (?bad @ post)) 0)"
    and m: "(?bad @ post) ! 0 = MAGIC ! 0" "(?bad @ post) ! 1 = MAGIC ! 1"
    using readFrameAt_check [OF r] by (simp_all add: n)
  have stored': "readUInt32LE ?enc (?L - 4) = unat (crc32 (subarray 2 (?L - 4) ?enc) 0)"
    and m': "?enc ! 0 = MAGIC ! 0" "?enc ! 1 = MAGIC ! 1"
    using readFrameAt_check [OF ok] by simp_all
  consider "p < 2" | "2 \<le> p" "p < ?L - 4" | "?L - 4 \<le> p" by linarith
  then show False
  proof cases
    case 1
    then have "p = 0 \<or> p = 1" by auto
    with m m' dmg L show False by (auto simp: damaged_def nth_append)
  next
    case 2
    then have eq: "subarray 2 (?L - 4) (?bad @ post) = (subarray 2 (?L - 4) ?enc)[p - 2 := b]"
      "readUInt32LE (?bad @ post) (?L - 4) = readUInt32LE ?enc (?L - 4)"
      using L by (auto simp: read_defs subarray_prefix subarray_update)
    have "crc32 ((subarray 2 (?L - 4) ?enc)[p - 2 := b]) 0 \<noteq> crc32 (subarray 2 (?L - 4) ?enc) 0"
    proof (rule crc32_single_byte)
      have "2 + (p - 2) = p" using 2 by simp
      then have "subarray 2 (?L - 4) ?enc ! (p - 2) = ?enc ! p"
        using 2 L subarray_nth [of "p - 2" "?L - 4" 2 ?enc] by simp
      with dmg show "b \<noteq> subarray 2 (?L - 4) ?enc ! (p - 2)" by (simp add: damaged_def)
    qed (use 2 L in auto)
    then show False using stored stored' eq by (simp add: word_unat_eq_iff)
  next
    case 3
    let ?t = "subarray (?L - 4) ?L ?enc" and ?t' = "subarray (?L - 4) ?L ?bad"
    have "subarray 2 (?L - 4) (?bad @ post) = subarray 2 (?L - 4) ?enc"
      using 3 L by (auto simp: subarray_prefix subarray_update)
    with stored stored' have "readUInt32LE (?bad @ post) (?L - 4) = readUInt32LE ?enc (?L - 4)" by simp
    then have "le_nat ?t' = le_nat ?t"
      using L by (simp add: readUInt32LE_def subarray_prefix)
    then have "?t' = ?t" by (rule le_nat_inj [rotated]) simp
    moreover have "?t' ! (p - (?L - 4)) = b" "?t ! (p - (?L - 4)) = ?enc ! p"
      using 3 dmg L by (auto simp: damaged_def subarray_nth)
    ultimately show False using dmg by (simp add: damaged_def)
  qed
qed

subsection \<open>Accounting\<close>

definition frame_size :: "frame \<Rightarrow> nat" where
  "frame_size f = HEADER_SIZE + length (f_key f) + length (f_value f)
     + length (opt_buf (f_meta f)) + CRC_SIZE"

definition lost_bytes :: "parse_result \<Rightarrow> nat" where
  "lost_bytes r = sum_list (map (\<lambda>(s, e). e - s) (p_corruptRanges r))"

definition kept_bytes :: "parse_result \<Rightarrow> nat" where
  "kept_bytes r = sum_list (map frame_size (p_frames r))"

definition ranges_ok :: "nat \<Rightarrow> nat \<Rightarrow> (nat \<times> nat) list \<Rightarrow> bool" where
  "ranges_ok lo hi rs \<longleftrightarrow>
     (\<forall>(s, e)\<in>set rs. lo \<le> s \<and> s < e \<and> e \<le> hi) \<and> sorted_wrt (\<lambda>(s, e) (s', e'). e < s') rs"

lemma readFrameAt_frame_size:
  "readFrameAt buf pos = Some (f, n) \<Longrightarrow> frame_size f = n"
  by (auto simp: readFrameAt_def Let_def frame_size_def size_defs split: if_splits)

lemma parse_from_accounting:
  "pos \<le> length buf \<Longrightarrow>
   pos + kept_bytes (parse_from strict buf pos) + lost_bytes (parse_from strict buf pos) = length buf"
proof (induction strict buf pos rule: parse_from.induct)
  case (1 strict buf pos)
  show ?case
  proof (cases "pos < length buf")
    case False
    with "1.prems" show ?thesis by (simp add: kept_bytes_def lost_bytes_def)
  next
    case lt: True
    show ?thesis
    proof (cases "readFrameAt buf pos")
      case (Some fn)
      then obtain f n where fn: "readFrameAt buf pos = Some (f, n)" by (cases fn) auto
      from readFrameAt_len [OF fn] have n: "pos + n \<le> length buf" by simp
      from fn lt have "parse_from strict buf pos =
          (let r = parse_from strict buf (pos + n) in r\<lparr>p_frames := f # p_frames r\<rparr>)"
        by (subst parse_from.simps) simp
      with "1.IH"(2) [OF lt fn refl n] readFrameAt_frame_size [OF fn] show ?thesis
        by (simp add: Let_def kept_bytes_def lost_bytes_def)
    next
      case None
      show ?thesis
      proof (cases "strict \<or> resync_scan buf (pos + 1) = None")
        case True
        with lt None have "parse_from strict buf pos =
            \<lparr>p_frames = [], p_corruptRanges = [(pos, length buf)], p_eofOffset = pos\<rparr>"
          by (subst parse_from.simps) auto
        with "1.prems" show ?thesis by (simp add: kept_bytes_def lost_bytes_def)
      next
        case False
        then obtain r where r: "\<not> strict" "resync_scan buf (pos + 1) = Some r" by auto
        from resync_scan_ge [OF r(2)] have ge: "pos < r" "r \<le> length buf"
          using readFrameAt_magic [of buf r] by auto
        from lt None r have "parse_from strict buf pos =
            (let q = parse_from strict buf r in q\<lparr>p_corruptRanges := (pos, r) # p_corruptRanges q\<rparr>)"
          by (subst parse_from.simps) simp
        with "1.IH"(1) [OF lt None r ge(2)] ge show ?thesis
          by (simp add: Let_def kept_bytes_def lost_bytes_def)
      qed
    qed
  qed
qed

lemma ranges_ok_Cons:
  "ranges_ok lo' hi rs \<Longrightarrow> lo \<le> s \<Longrightarrow> s < e \<Longrightarrow> e < lo' \<Longrightarrow> e \<le> hi \<Longrightarrow> ranges_ok lo hi ((s, e) # rs)"
  by (fastforce simp: ranges_ok_def)

lemma ranges_ok_mono: "ranges_ok lo' hi rs \<Longrightarrow> lo \<le> lo' \<Longrightarrow> ranges_ok lo hi rs"
  by (fastforce simp: ranges_ok_def)

text \<open>A scan that starts at a valid frame reports no damage before that frame's end.\<close>

lemma parse_from_ranges:
  "ranges_ok (case readFrameAt buf pos of None \<Rightarrow> pos | Some (f, n) \<Rightarrow> pos + n) (length buf)
     (p_corruptRanges (parse_from strict buf pos))"
proof (induction strict buf pos rule: parse_from.induct)
  case (1 strict buf pos)
  show ?case
  proof (cases "pos < length buf")
    case False
    then show ?thesis by (simp add: ranges_ok_def)
  next
    case lt: True
    show ?thesis
    proof (cases "readFrameAt buf pos")
      case (Some fn)
      then obtain f n where fn: "readFrameAt buf pos = Some (f, n)" by (cases fn) auto
      then have "p_corruptRanges (parse_from strict buf pos) = p_corruptRanges (parse_from strict buf (pos + n))"
        using lt by (subst parse_from.simps) (simp add: Let_def)
      with "1.IH"(2) [OF lt fn refl] fn show ?thesis
        by (auto elim!: ranges_ok_mono split: option.splits)
    next
      case None
      show ?thesis
      proof (cases "strict \<or> resync_scan buf (pos + 1) = None")
        case True
        with lt None have "p_corruptRanges (parse_from strict buf pos) = [(pos, length buf)]"
          by (subst parse_from.simps) auto
        with lt None show ?thesis by (simp add: ranges_ok_def)
      next
        case False
        then obtain r where r: "\<not> strict" "resync_scan buf (pos + 1) = Some r" by auto
        from resync_scan_ge [OF r(2)] obtain f n where
          ge: "pos < r" and fn: "readFrameAt buf r = Some (f, n)" by auto
        have "p_corruptRanges (parse_from strict buf pos) =
            (pos, r) # p_corruptRanges (parse_from strict buf r)"
          using lt None r by (subst parse_from.simps) (simp add: Let_def)
        with "1.IH"(1) [OF lt None r] None fn ge readFrameAt_len [OF fn] show ?thesis
          by (auto intro: ranges_ok_Cons)
      qed
    qed
  qed
qed

subsection \<open>The batch codec\<close>

definition decoded_op :: "batch_op \<Rightarrow> batch_op" where
  "decoded_op op = \<lparr>b_type = b_type op, b_key = b_key op, b_value = Some (opt_buf (b_value op)),
     b_meta = (if opt_buf (b_meta op) = [] then None else Some (opt_buf (b_meta op))),
     b_expireAt = js_number (b_expireAt op)\<rparr>"

lemma decode_ops_encode_op:
  assumes "encode_op op = Inr enc"
  shows "decode_ops (Suc n) (pre @ enc @ post) (length pre) =
    bind_res (decode_ops n (pre @ enc @ post) (length pre + length enc)) (\<lambda>ops. Inr (decoded_op op # ops))"
proof -
  define k v m where "k = b_key op" and "v = opt_buf (b_value op)" and "m = opt_buf (b_meta op)"
  note abbr = k_def [symmetric] v_def [symmetric] m_def [symmetric]
  from assms have lens: "length k < 256 ^ 2" "length v < 256 ^ 4" "length m < 256 ^ 4" "b_type op < 256 ^ 1"
      "fits_i64 (b_expireAt op)" and
    enc: "enc = le_bytes 1 (b_type op) @ le_bytes 2 (length k) @ le_bytes 4 (length v)
      @ le_bytes 4 (length m) @ i64_bytes (b_expireAt op) @ k @ v @ m"
    by (auto simp: encode_op_def Let_def abbr split: if_splits)
  let ?b = "pre @ enc @ post" and ?p = "length pre"
  have rd: "readUInt8 ?b ?p = b_type op" "readUInt16LE ?b (?p + 1) = length k"
    "readUInt32LE ?b (?p + 3) = length v" "readUInt32LE ?b (?p + 7) = length m"
    "readExpireAt ?b (?p + 11) = js_number (b_expireAt op)"
    using lens by (simp_all add: enc read_defs buf_simps le_nat_le_bytes i64_of_i64_bytes unat_of_nat)
  have len: "length enc = 19 + length k + length v + length m" by (simp add: enc)
  have pl: "subarray (?p + 19) (?p + 19 + length k) ?b = k"
    "subarray (?p + 19 + length k) (?p + 19 + length k + length v) ?b = v"
    "subarray (?p + 19 + length k + length v) (?p + 19 + length k + length v + length m) ?b = m"
    by (simp_all add: enc buf_simps)
  show ?thesis
    using rd pl len
    by (cases "m = []")
       (simp_all add: Let_def size_defs decoded_op_def abbr add.assoc)
qed

declare decode_ops.simps(2) [simp del]

lemma decode_ops_encode_ops:
  "encode_ops ops = Inr enc \<Longrightarrow>
   decode_ops (length ops) (pre @ enc @ post) (length pre) = Inr (map decoded_op ops)"
proof (induction ops arbitrary: pre enc)
  case Nil
  then show ?case by simp
next
  case (Cons op ops)
  then obtain b bs where b: "encode_op op = Inr b" "encode_ops ops = Inr bs" and enc: "enc = b @ bs"
    by (cases "encode_op op"; cases "encode_ops ops") auto
  have "decode_ops (length ops) ((pre @ b) @ bs @ post) (length (pre @ b)) = Inr (map decoded_op ops)"
    by (rule Cons.IH [OF b(2)])
  with decode_ops_encode_op [OF b(1), of "length ops" pre "bs @ post"] enc show ?case by simp
qed

subsection \<open>Properties\<close>

lemma parse_torn_bytes:
  assumes "\<forall>i\<in>set is. encodable i" and j: "encodable j" and k: "0 < k" "k < length (encoded j)"
    and "strict \<or> (\<forall>s. readFrameAt (take k (encoded j)) s = None)"
  shows "parseBuffer strict (log_bytes is @ take k (encoded j)) =
    \<lparr>p_frames = map decoded is,
     p_corruptRanges = [(length (log_bytes is), length (log_bytes is) + k)],
     p_eofOffset = length (log_bytes is)\<rparr>"
proof -
  let ?L = "length (log_bytes is)" and ?t = "take k (encoded j)"
  let ?buf = "log_bytes is @ ?t"
  have none: "readFrameAt ?buf ?L = None"
    using readFrameAt_shift [of "log_bytes is" ?t 0] readFrameAt_truncated [OF encodable_Inr [OF j] k(2)] by simp
  have lt: "?L < length ?buf" using k by simp
  have "resync_scan ?buf (?L + 1) = None" if "\<not> strict"
  proof -
    have "readFrameAt ?buf s = None" if "?L \<le> s" for s
      using assms(5) \<open>\<not> strict\<close> readFrameAt_shift [of "log_bytes is" ?t "s - ?L"] that by simp
    then show ?thesis by (auto simp: resync_scan_find find_upt_None)
  qed
  then have "parse_from strict ?buf ?L = \<lparr>p_frames = [], p_corruptRanges = [(?L, length ?buf)], p_eofOffset = ?L\<rparr>"
    using parse_from_bad_strict [OF lt none] parse_from_bad_end [OF lt none] by (cases strict) simp_all
  with parseBuffer_prefix [OF assms(1), of strict ?t] k show ?thesis by simp
qed

text \<open>C26: an intact log parses, in both modes, to exactly the frames that were appended, in order,
  with no damage reported and the end offset at the end of the log.\<close>

theorem parse_intact_log:
  assumes "\<forall>i\<in>set is. encodable i"
  shows "parseBuffer strict (log_bytes is) =
    \<lparr>p_frames = map decoded is, p_corruptRanges = [], p_eofOffset = length (log_bytes is)\<rparr>"
  using parseBuffer_prefix [OF assms, of strict "[]"] by simp

definition sample_set :: encode_input where
  "sample_set = \<lparr>i_type = TYPE_SET, i_key = [107], i_value = Some [118, 1], i_meta = None, i_expireAt = Some 5\<rparr>"

lemma encodable_sample [simp]: "encodable sample_set"
  by (simp add: encodable_def encodeFrame_def sample_set_def size_defs TYPE_SET_def fits_i64_def Let_def)

theorem parse_intact_log_witness:
  "p_frames (parseBuffer False (log_bytes [sample_set, sample_set])) = [decoded sample_set, decoded sample_set]"
  using parse_intact_log [of "[sample_set, sample_set]" False] by simp

text \<open>A log whose last append was cut short (a crash during the write) loses only that append:
  every earlier frame is returned, the torn bytes are one reported range up to the end of the
  file, and the end offset is where the valid data ends. In strict mode this holds for every cut;
  in resync mode when no valid frame lies inside the torn bytes.\<close>

theorem parse_torn_log:
  assumes "\<forall>i\<in>set is. encodable i" and j: "encodable j" and k: "0 < k" "k < length (encoded j)"
    and "strict \<or> (\<forall>s. readFrameAt (take k (encoded j)) s = None)"
  shows "parseBuffer strict (log_bytes is @ take k (encoded j)) =
    \<lparr>p_frames = map decoded is,
     p_corruptRanges = [(length (log_bytes is), length (log_bytes is) + k)],
     p_eofOffset = length (log_bytes is)\<rparr>"
  using assms by (rule parse_torn_bytes)

theorem parse_torn_log_witness:
  "p_frames (parseBuffer True (log_bytes [sample_set] @ take 7 (encoded sample_set))) = [decoded sample_set]"
  using parse_torn_log [of "[sample_set]" sample_set 7 True] length_encoded_pos [of sample_set] by simp

text \<open>Changing any one byte of a stored frame, other than the bytes of its length fields, is
  detected: strict parsing returns exactly the frames before the damaged one and reports
  everything from its first byte on as lost.\<close>

theorem parse_damaged_strict:
  assumes "\<forall>i\<in>set is. encodable i" and j: "encodable j" and d: "damaged p b (encoded j)"
  shows "parseBuffer True (log_bytes is @ (encoded j)[p := b] @ rest) =
    \<lparr>p_frames = map decoded is,
     p_corruptRanges = [(length (log_bytes is), length (log_bytes is) + length (encoded j) + length rest)],
     p_eofOffset = length (log_bytes is)\<rparr>"
proof -
  let ?L = "length (log_bytes is)" and ?t = "(encoded j)[p := b] @ rest"
  have none: "readFrameAt (log_bytes is @ ?t) ?L = None"
    using readFrameAt_shift [of "log_bytes is" ?t 0] readFrameAt_damaged [OF j d, of rest] by simp
  have "?L < length (log_bytes is @ ?t)" using length_encoded_pos [OF j] by auto
  from parse_from_bad_strict [OF this none] parseBuffer_prefix [OF assms(1), of True ?t]
  show ?thesis by (simp add: add.assoc)
qed

theorem parse_damaged_strict_witness:
  "p_frames (parseBuffer True (log_bytes [sample_set] @ (encoded sample_set)[0 := 0] @ log_bytes [sample_set]))
     = [decoded sample_set]"
proof -
  have "damaged 0 0 (encoded sample_set)"
    using length_encoded_pos [of sample_set] readFrameAt_magic [of "encoded sample_set" 0]
      readFrameAt_encodeFrame [OF encodable_Inr [of sample_set], of "[]"]
    by (auto simp: damaged_def MAGIC_def)
  from parse_damaged_strict [OF _ _ this, of "[sample_set]" "log_bytes [sample_set]"] show ?thesis by simp
qed

text \<open>C27: In resync mode, let damaged bytes stand between complete frames, at least one of them after: either one frame
  with one byte changed outside the three length fields of its header (bytes 4 to 13), or any bytes at whose beginning
  there is no valid frame; and let no valid frame begin inside them. Then the damage costs these bytes
  only: the frames before and all the frames after are returned, and the reported range is exactly the damaged bytes.\<close>

theorem parse_damaged_resync:
  assumes "\<forall>i\<in>set is. encodable i" and "\<forall>i\<in>set (n # ns). encodable i"
    and bad: "bad \<noteq> []" "(\<exists>j p b. encodable j \<and> damaged p b (encoded j) \<and> bad = (encoded j)[p := b]) \<or>
      readFrameAt (bad @ log_bytes (n # ns)) 0 = None"
    and inside: "\<forall>s. 0 < s \<and> s < length bad \<longrightarrow> readFrameAt (bad @ log_bytes (n # ns)) s = None"
  shows "parseBuffer False (log_bytes is @ bad @ log_bytes (n # ns)) =
    \<lparr>p_frames = map decoded (is @ n # ns),
     p_corruptRanges = [(length (log_bytes is), length (log_bytes is) + length bad)],
     p_eofOffset = length (log_bytes is @ bad @ log_bytes (n # ns))\<rparr>"
proof -
  let ?L = "length (log_bytes is)" and ?post = "log_bytes (n # ns)"
  let ?buf = "log_bytes is @ bad @ ?post" and ?R = "length (log_bytes is) + length bad"
  have at: "readFrameAt ?buf (?L + s) = readFrameAt (bad @ ?post) s" for s
    by (rule readFrameAt_shift)
  have none: "readFrameAt ?buf ?L = None"
    using at [of 0] bad(2) readFrameAt_damaged [where post = ?post] by auto
  have n: "encodable n" using assms(2) by simp
  have "readFrameAt (bad @ ?post) (length bad) = Some (decoded n, length (encoded n))"
    using readFrameAt_encoded_at [OF encodable_Inr [OF n], of bad "log_bytes ns"] by simp
  then have next_ok: "readFrameAt ?buf ?R \<noteq> None" using at [of "length bad"] by simp
  have "resync_scan ?buf (?L + 1) = Some ?R"
    unfolding resync_scan_find
  proof (rule find_upt_eq_Some)
    show "?L + 1 \<le> ?R" "?R < length ?buf - 1"
      using bad(1) length_encoded_pos [OF n] by (auto simp: Suc_le_eq)
    show "\<not> readFrameAt ?buf s \<noteq> None" if "?L + 1 \<le> s" "s < ?R" for s
      using at [of "s - ?L"] that inside by simp
  qed (rule next_ok)
  moreover have "?L < length ?buf" using bad(1) by simp
  ultimately have "parse_from False ?buf ?L =
      (let r = parse_from False ?buf ?R in r\<lparr>p_corruptRanges := (?L, ?R) # p_corruptRanges r\<rparr>)"
    using none by (subst parse_from.simps) simp
  moreover have "parse_from False ?buf ?R = \<lparr>p_frames = map decoded (n # ns), p_corruptRanges = [],
      p_eofOffset = length ?buf\<rparr>"
    using parse_from_prefix [OF assms(2), of False "log_bytes is @ bad" "[]"] by (simp add: add.assoc)
  ultimately show ?thesis
    using parseBuffer_prefix [OF assms(1), of False "bad @ ?post"] by (simp add: log_bytes_def)
qed

lemma sample_bytes: "\<exists>c0 c1 c2 c3. encoded sample_set =
    [0x4d, 0x44, 1, 0, 1, 0, 2, 0, 0, 0, 0, 0, 0, 0, 5, 0, 0, 0, 0, 0, 0, 0, 107, 118, 1, c0, c1, c2, c3]"
  by (simp add: encoded_def encodeFrame_def sample_set_def size_defs TYPE_SET_def fits_i64_def Let_def
      MAGIC_def i64_bytes_def le_bytes_numeral)

theorem parse_damaged_resync_witness:
  "p_frames (parseBuffer False ((encoded sample_set)[22 := 0] @ log_bytes [sample_set])) = [decoded sample_set]"
proof -
  obtain c0 c1 c2 c3 where b: "encoded sample_set =
    [0x4d, 0x44, 1, 0, 1, 0, 2, 0, 0, 0, 0, 0, 0, 0, 5, 0, 0, 0, 0, 0, 0, 0, 107, 118, 1, c0, c1, c2, c3]"
    using sample_bytes by blast
  let ?bad = "(encoded sample_set)[22 := 0]" and ?buf = "(encoded sample_set)[22 := 0] @ log_bytes [sample_set]"
  have d: "damaged 22 0 (encoded sample_set)" by (simp add: damaged_def b)
  have "list_all (\<lambda>s. readFrameAt ?buf s = None) [1..<29]"
    by (simp add: upt_Suc0_numeral b readFrameAt_def size_defs MAGIC_def Let_def read_defs
          subarray_def)
  then have inside: "\<forall>s. 0 < s \<and> s < length ?bad \<longrightarrow> readFrameAt ?buf s = None"
    by (auto simp: list_all_iff b)
  have "\<exists>j p b. encodable j \<and> damaged p b (encoded j) \<and> ?bad = (encoded j)[p := b]" using d encodable_sample by blast
  with parse_damaged_resync [OF _ _ _ _ inside, of "[]"] show ?thesis by (simp add: b)
qed

text \<open>C28: parsing loses no byte silently. In both modes the frames returned and the reported
  corrupt ranges together account for every byte of the file, and the ranges are disjoint,
  ordered and inside the file.\<close>

theorem parse_accounts_for_every_byte:
  "kept_bytes (parseBuffer strict buf) + lost_bytes (parseBuffer strict buf) = length buf \<and>
   ranges_ok 0 (length buf) (p_corruptRanges (parseBuffer strict buf))"
  using parse_from_accounting [of 0 buf strict] ranges_ok_mono [OF parse_from_ranges [where pos = 0 and buf = buf and strict = strict], of 0]
  by (simp add: parseBuffer_def)

text \<open>Decoding a batch body gives back the encoded operations, in order: an absent value
  becomes the empty value, an empty metadata blob becomes absent, and the expiry is unchanged when
  it is a number JavaScript represents exactly.\<close>

theorem batch_roundtrip:
  assumes "encodeBatchOps ops = Inr body"
  shows "decodeBatchOps body = Inr (map decoded_op ops)"
proof -
  from assms obtain bs where n: "length ops < 256 ^ 2" and bs: "encode_ops ops = Inr bs"
    and body: "body = le_bytes 2 (length ops) @ bs"
    by (cases "encode_ops ops") (auto simp: encodeBatchOps_def split: if_splits)
  have "readUInt16LE body 0 = length ops"
    using n by (simp add: body readUInt16LE_def buf_simps le_nat_le_bytes)
  moreover have "decode_ops (length ops) body 2 = Inr (map decoded_op ops)"
    using decode_ops_encode_ops [OF bs, of "le_bytes 2 (length ops)" "[]"] by (simp add: body)
  ultimately show ?thesis by (simp add: decodeBatchOps_def body)
qed

theorem batch_roundtrip_witness:
  "decodeBatchOps (projr (encodeBatchOps
     [\<lparr>b_type = TYPE_DEL, b_key = [7], b_value = None, b_meta = None, b_expireAt = -3\<rparr>]))
   = Inr [\<lparr>b_type = TYPE_DEL, b_key = [7], b_value = Some [], b_meta = None, b_expireAt = -3\<rparr>]"
proof -
  let ?ops = "[\<lparr>b_type = TYPE_DEL, b_key = [7], b_value = None, b_meta = None, b_expireAt = -3\<rparr>]"
  have "encodeBatchOps ?ops = Inr (projr (encodeBatchOps ?ops))"
    by (simp add: encodeBatchOps_def encode_op_def TYPE_DEL_def fits_i64_def Let_def)
  from batch_roundtrip [OF this] show ?thesis by (simp add: decoded_op_def js_number_def)
qed

text \<open>C31: the default resync mode can return a record that was never appended. A frame whose value
  holds the bytes of another frame (a stored copy of a log, say), cut short by a crash, parses to
  the frame inside the value.\<close>

definition carrier :: encode_input where
  "carrier = \<lparr>i_type = TYPE_SET, i_key = [], i_value = Some (encoded sample_set), i_meta = None, i_expireAt = None\<rparr>"

theorem resync_returns_unwritten_record:
  "\<exists>i j k. encodable i \<and> encodable j \<and> k < length (encoded j) \<and> decoded i \<noteq> decoded j \<and>
     p_frames (parseBuffer False (take k (encoded j))) = [decoded i]"
proof -
  have len: "length (encoded sample_set) = 29"
    using length_encoded [OF encodable_sample] by (simp add: frame_length_def sample_set_def size_defs)
  have enc: "encodable carrier"
    by (simp add: encodable_def encodeFrame_def carrier_def len size_defs TYPE_SET_def fits_i64_def Let_def)
  have clen: "length (encoded carrier) = 55"
    using length_encoded [OF enc] by (simp add: frame_length_def carrier_def size_defs len)
  let ?h = "[0x4d, 0x44, 1, 0, 0, 0, 29, 0, 0, 0, 0, 0, 0, 0, 0, 0, 0, 0, 0, 0, 0, 0] :: buffer"
  let ?buf = "take 51 (encoded carrier)"
  have buf: "?buf = ?h @ encoded sample_set"
    unfolding encoded_def [of carrier]
    by (simp add: encodeFrame_def carrier_def len size_defs TYPE_SET_def fits_i64_def
        Let_def MAGIC_def i64_bytes_def le_bytes_numeral)
  have none: "readFrameAt ?buf 0 = None"
    by (rule readFrameAt_truncated [OF encodable_Inr [OF enc]]) (simp add: clen)
  have inner: "readFrameAt ?buf 22 = Some (decoded sample_set, 29)"
  proof -
    have "length ?h = 22" by simp
    with readFrameAt_encoded_at [OF encodable_Inr [OF encodable_sample], of ?h "[]"]
    show ?thesis unfolding buf by (simp only: append_Nil2 len)
  qed
  have "resync_scan ?buf 1 = Some 22"
    unfolding resync_scan_find
  proof (rule find_upt_eq_Some)
    have "list_all (\<lambda>s. ?buf ! s \<noteq> MAGIC ! 0) [1..<22]"
      by (simp add: upt_Suc0_numeral buf MAGIC_def)
    then show "\<not> readFrameAt ?buf s \<noteq> None" if "1 \<le> s" "s < 22" for s
      using that readFrameAt_magic [of ?buf s] by (auto simp: list_all_iff)
  qed (simp_all add: inner clen)
  with none inner have "p_frames (parseBuffer False ?buf) = [decoded sample_set]"
    by (simp add: parseBuffer_def parse_from.simps [of False ?buf 0] parse_from.simps [of False ?buf 22] clen Let_def)
  moreover have "decoded sample_set \<noteq> decoded carrier"
    by (simp add: decoded_def sample_set_def carrier_def)
  ultimately show ?thesis using encodable_sample enc clen
    by (intro exI [of _ sample_set] exI [of _ carrier] exI [of _ 51]) simp
qed

end
