(* ===== verification/FrameScan.thy ===== *)
theory FrameScan
  imports Parsing
begin

section \<open>Scanning an open file into frame references (\<^verbatim>\<open>codec.ts\<close>, \<^verbatim>\<open>scanFrameRefsFd\<close>)\<close>

text \<open>
  Recovery does not load values: it scans the file with positioned reads and records where each
  value lies. A file is its bytes. A positioned read may return fewer bytes than asked for; how
  many is the operating system's choice, the parameter \<open>rd\<close> (position and length to count),
  clamped to at least one byte before the end of the file and to what is there. The lemmas show
  that the chunked checksum and the chunked magic search compute what \<open>parseBuffer\<close> computes on
  the whole content.
\<close>

type_synonym os_reads = "nat \<Rightarrow> nat \<Rightarrow> nat"

record frame_ref =
  r_type :: nat
  r_key :: buffer
  r_meta :: "buffer option"
  r_expireAt :: int
  r_frameOff :: nat
  r_valueOff :: nat
  r_valLen :: nat
  r_frameLen :: nat

record scan_result =
  s_frames :: "frame_ref list"
  s_corruptRanges :: "(nat \<times> nat) list"
  s_eofOffset :: nat

record batch_op_ref =
  q_type :: nat
  q_key :: buffer
  q_meta :: "buffer option"
  q_expireAt :: int
  q_valueOff :: nat
  q_valLen :: nat

definition CRC_CHUNK :: nat where "CRC_CHUNK = 2 ^ 20"
definition MAGIC_SCAN_CHUNK :: nat where "MAGIC_SCAN_CHUNK = 2 ^ 20"

text \<open>\<^verbatim>\<open>fs.readSync\<close> of at most \<open>len\<close> bytes at \<open>pos\<close>.\<close>

definition readSync :: "os_reads \<Rightarrow> buffer \<Rightarrow> nat \<Rightarrow> nat \<Rightarrow> buffer" where
  "readSync rd disk len pos = take (max 1 (rd pos len)) (take len (drop pos disk))"

lemma readSync_length: "length (readSync rd disk len pos) = min (max 1 (rd pos len)) (min len (length disk - pos))"
  by (simp add: readSync_def min.commute)

lemma take_length_take: "take n xs = take (length (take n xs)) xs"
  by (cases "n \<le> length xs") simp_all

lemma readSync_take: "readSync rd disk len pos = take (length (readSync rd disk len pos)) (drop pos disk)"
  unfolding readSync_def take_take by (rule take_length_take)

function read_exact :: "os_reads \<Rightarrow> buffer \<Rightarrow> nat \<Rightarrow> nat \<Rightarrow> buffer \<Rightarrow> (codec_error, buffer) res" where
  "read_exact rd disk len pos got =
     (if length got < len then
        let r = readSync rd disk (len - length got) (pos + length got)
        in if r = [] then Inl ShortRead else read_exact rd disk len pos (got @ r)
      else Inr got)"
  by pat_completeness auto
termination
  by (relation "measure (\<lambda>(rd, disk, len, pos, got). len - length got)") (simp_all flip: length_greater_0_conv add: diff_less_mono2)

declare read_exact.simps [simp del]

definition readExactSync :: "os_reads \<Rightarrow> buffer \<Rightarrow> nat \<Rightarrow> nat \<Rightarrow> (codec_error, buffer) res" where
  "readExactSync rd disk len pos = read_exact rd disk len pos []"

lemma subarray_extend_read:
  "pos + g \<le> length disk \<Longrightarrow> n \<le> length disk - (pos + g) \<Longrightarrow>
   subarray pos (pos + g) disk @ take n (drop (pos + g) disk) = subarray pos (pos + g + n) disk"
  by (simp add: subarray_def take_add add.commute)

lemma read_exact_ok:
  "pos + len \<le> length disk \<Longrightarrow> g \<le> len \<Longrightarrow>
   read_exact rd disk len pos (subarray pos (pos + g) disk) = Inr (subarray pos (pos + len) disk)"
proof (induction "len - g" arbitrary: g rule: less_induct)
  case less
  let ?got = "subarray pos (pos + g) disk"
  have got: "length ?got = g" using less.prems by simp
  show ?case
  proof (cases "g < len")
    case False
    with less.prems show ?thesis by (subst read_exact.simps) simp
  next
    case True
    let ?r = "readSync rd disk (len - g) (pos + g)"
    have r: "0 < length ?r" "length ?r \<le> len - g"
      using True less.prems by (auto simp: readSync_length)
    have "?got @ take (length ?r) (drop (pos + g) disk) = subarray pos (pos + g + length ?r) disk"
      using r less.prems by (intro subarray_extend_read) auto
    then have "?got @ ?r = subarray pos (pos + (g + length ?r)) disk"
      using readSync_take [of rd disk "len - g" "pos + g"] by (simp only: add.assoc)
    moreover have "read_exact rd disk len pos (subarray pos (pos + (g + length ?r)) disk)
        = Inr (subarray pos (pos + len) disk)"
    proof (rule less.hyps)
      show "len - (g + length ?r) < len - g" using r(1) True by linarith
    qed (use r(2) True less.prems in auto)
    ultimately show ?thesis
      using r got True by (simp add: read_exact.simps [of rd disk len pos ?got])
  qed
qed

lemma readExactSync_ok [simp]:
  "pos + len \<le> length disk \<Longrightarrow> readExactSync rd disk len pos = Inr (subarray pos (pos + len) disk)"
  using read_exact_ok [of pos len disk 0 rd] by (simp add: readExactSync_def subarray_def)

subsection \<open>The checksum over chunks\<close>

function crc_chunks :: "os_reads \<Rightarrow> buffer \<Rightarrow> nat \<Rightarrow> nat \<Rightarrow> 32 word \<Rightarrow> (codec_error, 32 word) res" where
  "crc_chunks rd disk crcPos crcLeft crc =
     (if crcLeft > 0 then
        let len = min CRC_CHUNK crcLeft
        in bind_res (readExactSync rd disk len crcPos)
             (\<lambda>buf. crc_chunks rd disk (crcPos + len) (crcLeft - len) (crc32 buf crc))
      else Inr crc)"
  by pat_completeness auto
termination
  by (relation "measure (\<lambda>(rd, disk, crcPos, crcLeft, crc). crcLeft)") (auto simp: CRC_CHUNK_def)

declare crc_chunks.simps [simp del]

lemma subarray_split:
  "subarray a (a + m + n) xs = subarray a (a + m) xs @ subarray (a + m) (a + m + n) xs"
  by (simp add: subarray_def take_add add.commute)

lemma crc_chunks_ok:
  "pos + n \<le> length disk \<Longrightarrow> crc_chunks rd disk pos n crc = Inr (crc32 (subarray pos (pos + n) disk) crc)"
proof (induction n arbitrary: pos crc rule: less_induct)
  case (less n)
  show ?case
  proof (cases "n = 0")
    case True
    then show ?thesis by (simp add: crc_chunks.simps subarray_def)
  next
    case False
    let ?len = "min CRC_CHUNK n"
    have len: "0 < ?len" "?len \<le> n" using False by (auto simp: CRC_CHUNK_def)
    then have "crc_chunks rd disk pos n crc =
        crc_chunks rd disk (pos + ?len) (n - ?len) (crc32 (subarray pos (pos + ?len) disk) crc)"
      using False less.prems by (subst crc_chunks.simps) (simp add: Let_def)
    also have "\<dots> = Inr (crc32 (subarray (pos + ?len) (pos + ?len + (n - ?len)) disk)
        (crc32 (subarray pos (pos + ?len) disk) crc))"
      using len less.prems by (intro less.IH) auto
    also have "\<dots> = Inr (crc32 (subarray pos (pos + n) disk) crc)"
      using subarray_split [of pos ?len "n - ?len" disk] len by (simp add: crc32_append [symmetric])
    finally show ?thesis .
  qed
qed

subsection \<open>One frame reference\<close>

definition readFrameRefAt :: "os_reads \<Rightarrow> buffer \<Rightarrow> nat \<Rightarrow> nat \<Rightarrow> (codec_error, frame_ref option) res" where
  "readFrameRefAt rd disk pos fsize =
     (if fsize < pos + HEADER_SIZE then Inr None
      else bind_res (readExactSync rd disk HEADER_SIZE pos) (\<lambda>header.
        if header ! 0 \<noteq> MAGIC ! 0 \<or> header ! 1 \<noteq> MAGIC ! 1 then Inr None
        else
          let type = readUInt8 header 2;
              keyLen = readUInt16LE header 4;
              valLen = readUInt32LE header 6;
              metaLen = readUInt32LE header 10
          in if keyLen > MAX_KEY_LEN then Inr None
             else
               let frameLen = HEADER_SIZE + keyLen + valLen + metaLen + CRC_SIZE
               in if frameLen < HEADER_SIZE + CRC_SIZE then Inr None
                  else if fsize < pos + frameLen then Inr None
                  else bind_res (crc_chunks rd disk (pos + 2) (frameLen - CRC_SIZE - 2) 0) (\<lambda>crc.
                    bind_res (readExactSync rd disk CRC_SIZE (pos + frameLen - CRC_SIZE)) (\<lambda>stored.
                    if readUInt32LE stored 0 \<noteq> unat crc then Inr None
                    else
                      let keyStart = pos + HEADER_SIZE;
                          valueOff = keyStart + keyLen;
                          metaStart = valueOff + valLen
                      in bind_res (if keyLen \<noteq> 0 then readExactSync rd disk keyLen keyStart else Inr []) (\<lambda>key.
                         bind_res (if metaLen \<noteq> 0
                                   then bind_res (readExactSync rd disk metaLen metaStart) (\<lambda>m. Inr (Some m))
                                   else Inr None) (\<lambda>meta.
                         Inr (Some \<lparr>r_type = type, r_key = key, r_meta = meta,
                                    r_expireAt = readExpireAt header 14, r_frameOff = pos,
                                    r_valueOff = valueOff, r_valLen = valLen, r_frameLen = frameLen\<rparr>)))))))"

text \<open>What a reference stands for: the frame with its value read back from the file.\<close>

definition deref :: "buffer \<Rightarrow> frame_ref \<Rightarrow> frame" where
  "deref disk r = \<lparr>f_type = r_type r, f_key = r_key r,
     f_value = subarray (r_valueOff r) (r_valueOff r + r_valLen r) disk,
     f_meta = r_meta r, f_expireAt = r_expireAt r\<rparr>"

definition ref_for :: "nat \<Rightarrow> frame \<Rightarrow> nat \<Rightarrow> frame_ref" where
  "ref_for pos f n = \<lparr>r_type = f_type f, r_key = f_key f, r_meta = f_meta f, r_expireAt = f_expireAt f,
     r_frameOff = pos, r_valueOff = pos + HEADER_SIZE + length (f_key f), r_valLen = length (f_value f),
     r_frameLen = n\<rparr>"

lemma read_header:
  assumes "pos + 22 \<le> length disk"
  shows "subarray pos (pos + 22) disk ! 0 = disk ! pos" "subarray pos (pos + 22) disk ! 1 = disk ! (pos + 1)"
    "readUInt8 (subarray pos (pos + 22) disk) 2 = readUInt8 disk (pos + 2)"
    "readUInt16LE (subarray pos (pos + 22) disk) 4 = readUInt16LE disk (pos + 4)"
    "readUInt32LE (subarray pos (pos + 22) disk) 6 = readUInt32LE disk (pos + 6)"
    "readUInt32LE (subarray pos (pos + 22) disk) 10 = readUInt32LE disk (pos + 10)"
    "readExpireAt (subarray pos (pos + 22) disk) 14 = readExpireAt disk (pos + 14)"
  using assms by (simp_all add: subarray_nth read_defs subarray_subarray add.commute numeral_3_eq_3)

lemma readFrameRefAt_eq:
  "readFrameRefAt rd disk pos (length disk) =
     Inr (map_option (\<lambda>(f, n). ref_for pos f n) (readFrameAt disk pos))"
proof (cases "length disk < pos + HEADER_SIZE")
  case True
  then show ?thesis by (simp add: readFrameRefAt_def readFrameAt_def)
next
  case False
  then have h: "pos + 22 \<le> length disk" by (simp add: size_defs)
  define k v m where "k = readUInt16LE disk (pos + 4)" and "v = readUInt32LE disk (pos + 6)"
    and "m = readUInt32LE disk (pos + 10)"
  note abbr = k_def [symmetric] v_def [symmetric] m_def [symmetric]
  let ?n = "22 + k + v + m + 4"
  show ?thesis
  proof (cases "pos + ?n \<le> length disk")
    case False
    with h show ?thesis
      by (simp add: readFrameRefAt_def readFrameAt_def Let_def read_header [OF h] size_defs abbr del: One_nat_def)
  next
    case True
    have chunks: "crc_chunks rd disk (pos + 2) (?n - 4 - 2) 0 = Inr (crc32 (subarray (pos + 2) (pos + ?n - 4) disk) 0)"
      using crc_chunks_ok [of "pos + 2" "?n - 4 - 2" disk rd 0] True by simp
    have crcrd: "readExactSync rd disk 4 (pos + ?n - 4) = Inr (subarray (pos + ?n - 4) (pos + ?n) disk)"
    proof -
      have e: "pos + ?n - 4 + 4 = pos + ?n" by simp
      have "readExactSync rd disk 4 (pos + ?n - 4) = Inr (subarray (pos + ?n - 4) (pos + ?n - 4 + 4) disk)"
        using True by (intro readExactSync_ok) simp
      then show ?thesis by (simp only: e)
    qed
    have stored: "readUInt32LE (subarray (pos + ?n - 4) (pos + ?n) disk) 0 = readUInt32LE disk (pos + ?n - 4)"
      by (simp add: readUInt32LE_def subarray_subarray)
    have k_rd: "(if k \<noteq> 0 then readExactSync rd disk k (pos + 22) else Inr []) = Inr (subarray (pos + 22) (pos + 22 + k) disk)"
      using True by (simp add: subarray_def)
    have m_rd: "readExactSync rd disk m (pos + 22 + k + v) = Inr (subarray (pos + 22 + k + v) (pos + 22 + k + v + m) disk)"
      using True by simp
    show ?thesis
      using h True chunks crcrd stored k_rd m_rd
      by (cases "k = 0"; cases "m = 0")
         (simp_all add: readFrameRefAt_def readFrameAt_def Let_def read_header [OF h] size_defs abbr
          ref_for_def add.assoc del: One_nat_def add_2_eq_Suc add_2_eq_Suc')
  qed
qed

subsection \<open>The chunked magic search\<close>

function findMagicSync :: "os_reads \<Rightarrow> buffer \<Rightarrow> nat \<Rightarrow> nat \<Rightarrow> nat option" where
  "findMagicSync rd disk pos fsize =
     (if pos < fsize then
        let len = min MAGIC_SCAN_CHUNK (fsize - pos);
            chunk = readSync rd disk len pos;
            n = length chunk
        in if n = 0 then None
           else case indexOf_MAGIC chunk 0 of
               Some idx \<Rightarrow> Some (pos + idx)
             | None \<Rightarrow> if n < length MAGIC then None
                       else findMagicSync rd disk (pos + (n - (length MAGIC - 1))) fsize
      else None)"
  by pat_completeness auto
termination
  by (relation "measure (\<lambda>(rd, disk, pos, fsize). fsize - pos)") auto

declare findMagicSync.simps [simp del]

text \<open>Reads of two bytes or more, or of what is left. Regular files usually return what is asked for.\<close>

definition reads_pairs :: "os_reads \<Rightarrow> bool" where
  "reads_pairs rd \<longleftrightarrow> (\<forall>pos len. 2 \<le> rd pos len)"

lemma indexOf_MAGIC_window:
  assumes "pos + n \<le> length disk"
  shows "indexOf_MAGIC (subarray pos (pos + n) disk) 0 = Some i \<Longrightarrow> indexOf_MAGIC disk pos = Some (pos + i)"
    "indexOf_MAGIC (subarray pos (pos + n) disk) 0 = None \<Longrightarrow> 2 \<le> n \<Longrightarrow>
       indexOf_MAGIC disk pos = indexOf_MAGIC disk (pos + (n - 1))"
proof -
  let ?P = "\<lambda>i. disk ! i = MAGIC ! 0 \<and> disk ! (i + 1) = MAGIC ! 1"
  let ?w = "subarray pos (pos + n) disk"
  have w: "length ?w = n" "\<And>i. i < n \<Longrightarrow> ?w ! i = disk ! (pos + i)"
    using assms by (simp_all add: subarray_nth)
  { assume "indexOf_MAGIC ?w 0 = Some i"
    then have i: "i < n - 1" "?P (pos + i)" "\<And>j. j < i \<Longrightarrow> \<not> ?P (pos + j)"
      using w by (auto simp: indexOf_MAGIC_def dest!: find_Some_nth)
    have "\<not> ?P j" if "pos \<le> j" "j < pos + i" for j
      using i(3) [of "j - pos"] that by simp
    then show "indexOf_MAGIC disk pos = Some (pos + i)"
      unfolding indexOf_MAGIC_def using i assms by (intro find_upt_eq_Some) auto }
  { assume none: "indexOf_MAGIC ?w 0 = None" and n: "2 \<le> n"
    have skip: "\<not> ?P j" if "pos \<le> j" "j < pos + (n - 1)" for j
    proof -
      define i where "i = j - pos"
      have i: "i < n - 1" "j = pos + i" using that by (auto simp: i_def)
      have "\<not> (?w ! i = MAGIC ! 0 \<and> ?w ! (i + 1) = MAGIC ! 1)"
        using none i(1) w(1) unfolding indexOf_MAGIC_def find_upt_None by simp
      with i w(2) [of i] w(2) [of "i + 1"] show ?thesis by (simp add: add.assoc)
    qed
    show "indexOf_MAGIC disk pos = indexOf_MAGIC disk (pos + (n - 1))"
    proof (cases "indexOf_MAGIC disk (pos + (n - 1))")
      case None
      then have "\<not> ?P j" if "pos \<le> j" "j < length disk - 1" for j
        using skip [of j] that unfolding indexOf_MAGIC_def find_upt_None by (metis not_less)
      then have "indexOf_MAGIC disk pos = None" unfolding indexOf_MAGIC_def find_upt_None by blast
      with None show ?thesis by simp
    next
      case (Some r)
      then have r: "pos + (n - 1) \<le> r" "r < length disk - 1" "?P r" "\<And>j. pos + (n - 1) \<le> j \<Longrightarrow> j < r \<Longrightarrow> \<not> ?P j"
        unfolding indexOf_MAGIC_def by (auto dest!: find_Some_nth)
      have "find ?P [pos..<length disk - 1] = Some r"
        using r skip by (intro find_upt_eq_Some) (auto, meson not_less)
      with Some show ?thesis by (simp add: indexOf_MAGIC_def)
    qed }
qed

lemma findMagicSync_eq:
  "reads_pairs rd \<Longrightarrow> findMagicSync rd disk pos (length disk) = indexOf_MAGIC disk pos"
proof (induction "length disk - pos" arbitrary: pos rule: less_induct)
  case less
  show ?case
  proof (cases "pos < length disk")
    case False
    then show ?thesis by (subst findMagicSync.simps) (simp add: indexOf_MAGIC_def)
  next
    case True
    define len where "len = min MAGIC_SCAN_CHUNK (length disk - pos)"
    define chunk where "chunk = readSync rd disk len pos"
    define n where "n = length chunk"
    have "2 \<le> rd pos len" using less.prems by (simp add: reads_pairs_def)
    then have n: "0 < n" "pos + n \<le> length disk" "n < 2 \<Longrightarrow> length disk - pos < 2"
      using True by (auto simp: n_def chunk_def readSync_length len_def MAGIC_SCAN_CHUNK_def)
    have chunk: "chunk = subarray pos (pos + n) disk"
      using readSync_take [of rd disk len pos] by (simp add: chunk_def n_def subarray_def)
    have unfold: "findMagicSync rd disk pos (length disk) =
        (case indexOf_MAGIC chunk 0 of Some idx \<Rightarrow> Some (pos + idx)
         | None \<Rightarrow> if n < length MAGIC then None
                   else findMagicSync rd disk (pos + (n - (length MAGIC - 1))) (length disk))"
      using True n(1) unfolding n_def chunk_def len_def by (subst findMagicSync.simps) (simp add: Let_def)
    show ?thesis
    proof (cases "indexOf_MAGIC chunk 0")
      case (Some idx)
      then show ?thesis using unfold indexOf_MAGIC_window(1) [OF n(2)] chunk by simp
    next
      case None
      show ?thesis
      proof (cases "n < 2")
        case True
        with n(3) None unfold show ?thesis by (simp add: indexOf_MAGIC_def)
      next
        case False
        then have "findMagicSync rd disk (pos + (n - 1)) (length disk) = indexOf_MAGIC disk (pos + (n - 1))"
          using n True less.prems by (intro less.hyps) auto
        with None False unfold indexOf_MAGIC_window(2) [OF n(2)] chunk show ?thesis by simp
      qed
    qed
  qed
qed

subsection \<open>The scan loop\<close>

lemma findMagicSync_ge: "findMagicSync rd disk pos fsize = Some s \<Longrightarrow> pos \<le> s \<and> (pos < fsize)"
proof (induction rd disk pos fsize rule: findMagicSync.induct)
  case (1 rd disk pos fsize)
  then show ?case
    by (subst (asm) (2) findMagicSync.simps) (fastforce simp: Let_def split: if_splits option.splits)
qed

function resync_fd :: "os_reads \<Rightarrow> buffer \<Rightarrow> nat \<Rightarrow> nat \<Rightarrow> (codec_error, nat option) res" where
  "resync_fd rd disk fsize scan =
     (if scan + 1 < fsize then
        case findMagicSync rd disk scan fsize of
          None \<Rightarrow> Inr None
        | Some s \<Rightarrow>
            bind_res (readFrameRefAt rd disk s fsize) (\<lambda>r.
              if r \<noteq> None then Inr (Some s) else resync_fd rd disk fsize (s + 1))
      else Inr None)"
  by pat_completeness auto
termination
  by (relation "measure (\<lambda>(rd, disk, fsize, scan). fsize - scan)") (auto dest!: findMagicSync_ge)

declare resync_fd.simps [simp del]

lemma resync_fd_ge: "resync_fd rd disk fsize scan = Inr (Some r) \<Longrightarrow> scan \<le> r"
proof (induction rd disk fsize scan rule: resync_fd.induct)
  case (1 rd disk fsize scan)
  then show ?case
    by (subst (asm) (2) resync_fd.simps)
       (fastforce simp: bind_res_Inr split: if_splits option.splits dest: findMagicSync_ge)
qed

lemma readFrameRefAt_frameLen: "readFrameRefAt rd disk pos fsize = Inr (Some r) \<Longrightarrow> 26 \<le> r_frameLen r"
  by (auto simp: readFrameRefAt_def Let_def bind_res_Inr size_defs split: if_splits)

function scan_from :: "os_reads \<Rightarrow> bool \<Rightarrow> buffer \<Rightarrow> nat \<Rightarrow> nat \<Rightarrow> (codec_error, scan_result) res" where
  "scan_from rd strict disk fsize pos =
     (if pos < fsize then
        bind_res (readFrameRefAt rd disk pos fsize) (\<lambda>r. case r of
          Some f \<Rightarrow>
            bind_res (scan_from rd strict disk fsize (pos + r_frameLen f))
              (\<lambda>s. Inr (s\<lparr>s_frames := f # s_frames s\<rparr>))
        | None \<Rightarrow>
            if strict then Inr \<lparr>s_frames = [], s_corruptRanges = [(pos, fsize)], s_eofOffset = pos\<rparr>
            else bind_res (resync_fd rd disk fsize (pos + 1)) (\<lambda>n. case n of
              None \<Rightarrow> Inr \<lparr>s_frames = [], s_corruptRanges = [(pos, fsize)], s_eofOffset = pos\<rparr>
            | Some resume \<Rightarrow>
                bind_res (scan_from rd strict disk fsize resume)
                  (\<lambda>s. Inr (s\<lparr>s_corruptRanges := (pos, resume) # s_corruptRanges s\<rparr>))))
      else Inr \<lparr>s_frames = [], s_corruptRanges = [], s_eofOffset = pos\<rparr>)"
  by pat_completeness auto
termination
  by (relation "measure (\<lambda>(rd, strict, disk, fsize, pos). fsize - pos)")
     (auto dest!: resync_fd_ge dest: readFrameRefAt_frameLen)

declare scan_from.simps [simp del]

definition scanFrameRefsFd :: "os_reads \<Rightarrow> bool \<Rightarrow> nat \<Rightarrow> buffer \<Rightarrow> (codec_error, scan_result) res" where
  "scanFrameRefsFd rd strict startOffset disk = scan_from rd strict disk (length disk) startOffset"

text \<open>The search for a magic that meets a read of a single byte ends there, although \<^verbatim>\<open>readExactSync\<close> goes on after one.\<close>

lemma one_byte_read_ends_search:
  "findMagicSync (\<lambda>pos len. 1) (0 # MAGIC) 0 3 = None \<and> findMagicSync (\<lambda>pos len. 2) (0 # MAGIC) 0 3 = Some 1"
proof
  show "findMagicSync (\<lambda>pos len. 1) (0 # MAGIC) 0 3 = None"
    by (subst findMagicSync.simps) (simp add: readSync_def indexOf_MAGIC_def MAGIC_def MAGIC_SCAN_CHUNK_def Let_def)
  have "findMagicSync (\<lambda>pos len. 2) (0 # MAGIC) 0 (length (0 # MAGIC)) = indexOf_MAGIC (0 # MAGIC) 0"
    by (rule findMagicSync_eq) (simp add: reads_pairs_def)
  moreover have "indexOf_MAGIC (0 # MAGIC) 0 = Some 1" by code_simp
  ultimately show "findMagicSync (\<lambda>pos len. 2) (0 # MAGIC) 0 3 = Some 1" by (simp add: MAGIC_def eval_nat_numeral)
qed

lemma resync_fd_eq: "reads_pairs rd \<Longrightarrow> resync_fd rd disk (length disk) scan = Inr (resync_scan disk scan)"
proof (induction disk scan rule: resync_scan.induct)
  case (1 disk scan)
  show ?case
  proof (cases "scan + 1 < length disk")
    case False
    then show ?thesis by (subst resync_fd.simps, subst resync_scan.simps) simp
  next
    case True
    show ?thesis
    proof (cases "indexOf_MAGIC disk scan")
      case None
      with True "1.prems" show ?thesis
        by (subst resync_fd.simps, subst resync_scan.simps) (simp add: findMagicSync_eq)
    next
      case (Some s)
      show ?thesis
      proof (cases "readFrameAt disk s = None")
        case no: True
        with True Some "1.IH" "1.prems" show ?thesis
          by (subst resync_fd.simps, subst resync_scan.simps) (simp add: findMagicSync_eq readFrameRefAt_eq)
      next
        case False
        with True Some "1.prems" show ?thesis
          by (subst resync_fd.simps, subst resync_scan.simps) (auto simp: findMagicSync_eq readFrameRefAt_eq)
      qed
    qed
  qed
qed

lemma deref_ref_for:
  "readFrameAt disk pos = Some (f, n) \<Longrightarrow> deref disk (ref_for pos f n) = f"
  by (auto simp: readFrameAt_def deref_def ref_for_def Let_def size_defs min_def split: if_splits)

lemma ref_for_bound:
  "readFrameAt disk pos = Some (f, n) \<Longrightarrow> pos + HEADER_SIZE + length (f_key f) + length (f_value f) \<le> length disk"
  by (auto simp: readFrameAt_def Let_def size_defs min_def split: if_splits)

text \<open>The scan agrees with the parser, and every value it points at lies inside the file.\<close>

definition scan_matches :: "buffer \<Rightarrow> scan_result \<Rightarrow> parse_result \<Rightarrow> bool" where
  "scan_matches disk s p \<longleftrightarrow> map (deref disk) (s_frames s) = p_frames p
     \<and> (\<forall>f\<in>set (s_frames s). r_valueOff f + r_valLen f \<le> length disk)
     \<and> s_corruptRanges s = p_corruptRanges p \<and> s_eofOffset s = p_eofOffset p"

lemma scan_from_eq:
  assumes "strict \<or> reads_pairs rd"
  shows "\<exists>s. scan_from rd strict disk (length disk) pos = Inr s \<and> scan_matches disk s (parse_from strict disk pos)"
  using assms
proof (induction strict disk pos rule: parse_from.induct)
  case (1 strict disk pos)
  have sync: "\<not> strict \<Longrightarrow> reads_pairs rd" using "1.prems" by blast
  show ?case
  proof (cases "pos < length disk")
    case False
    then show ?thesis by (subst scan_from.simps) (simp add: scan_matches_def)
  next
    case lt: True
    show ?thesis
    proof (cases "readFrameAt disk pos")
      case (Some fn)
      then obtain f n where fn: "readFrameAt disk pos = Some (f, n)" by (cases fn) auto
      from "1.IH"(2) [OF lt fn refl "1.prems"] obtain s where
        s: "scan_from rd strict disk (length disk) (pos + n) = Inr s" "scan_matches disk s (parse_from strict disk (pos + n))"
        by auto
      with lt fn deref_ref_for [OF fn] ref_for_bound [OF fn] show ?thesis
        by (subst scan_from.simps, subst parse_from.simps)
           (simp add: readFrameRefAt_eq scan_matches_def Let_def ref_for_def)
    next
      case None
      show ?thesis
      proof (cases "strict \<or> resync_scan disk (pos + 1) = None")
        case True
        with lt None show ?thesis
          by (subst scan_from.simps, subst parse_from.simps)
             (auto simp: readFrameRefAt_eq scan_matches_def resync_fd_eq [OF sync])
      next
        case False
        then obtain r where r: "\<not> strict" "resync_scan disk (pos + 1) = Some r" by auto
        from "1.IH"(1) [OF lt None r "1.prems"] obtain s where
          "scan_from rd strict disk (length disk) r = Inr s" "scan_matches disk s (parse_from strict disk r)"
          by auto
        with lt None r show ?thesis
          by (subst scan_from.simps, subst parse_from.simps)
             (simp add: readFrameRefAt_eq scan_matches_def resync_fd_eq [OF sync [OF r(1)]] Let_def)
      qed
    qed
  qed
qed

subsection \<open>References into a batch body\<close>

fun scan_ops :: "nat \<Rightarrow> buffer \<Rightarrow> nat \<Rightarrow> nat \<Rightarrow> (codec_error, batch_op_ref list) res" where
  "scan_ops 0 body bodyOff o' = Inr []"
| "scan_ops (Suc n) body bodyOff o' =
     (if o' + SUB_HEADER > length body then Inl BatchHeaderTruncated
      else
        let type = readUInt8 body o';
            keyLen = readUInt16LE body (o' + 1);
            valLen = readUInt32LE body (o' + 3);
            metaLen = readUInt32LE body (o' + 7);
            expireAt = readExpireAt body (o' + 11);
            k = o' + SUB_HEADER
        in if k + keyLen + valLen + metaLen > length body then Inl BatchPayloadTruncated
           else
             let key = subarray k (k + keyLen) body;
                 valueOff = bodyOff + k + keyLen;
                 m = k + keyLen + valLen;
                 meta = (if metaLen \<noteq> 0 then Some (subarray m (m + metaLen) body) else None)
             in bind_res (scan_ops n body bodyOff (m + metaLen))
                  (\<lambda>ops. Inr (\<lparr>q_type = type, q_key = key, q_meta = meta, q_expireAt = expireAt,
                               q_valueOff = valueOff, q_valLen = valLen\<rparr> # ops)))"

definition scanBatchOpRefs :: "buffer \<Rightarrow> nat \<Rightarrow> (codec_error, batch_op_ref list) res" where
  "scanBatchOpRefs body bodyOff =
     (if length body < 2 then Inr [] else scan_ops (readUInt16LE body 0) body bodyOff 2)"

definition deref_op :: "buffer \<Rightarrow> batch_op_ref \<Rightarrow> batch_op" where
  "deref_op disk r = \<lparr>b_type = q_type r, b_key = q_key r,
     b_value = Some (subarray (q_valueOff r) (q_valueOff r + q_valLen r) disk),
     b_meta = q_meta r, b_expireAt = q_expireAt r\<rparr>"

lemma scan_ops_eq:
  assumes "body = subarray bodyOff (bodyOff + length body) disk"
  shows "map_res (map (deref_op disk)) (scan_ops n body bodyOff o') = decode_ops n body o'"
proof (induction n arbitrary: o')
  case 0
  then show ?case by simp
next
  case (Suc n)
  have val: "subarray (bodyOff + a) (bodyOff + b) disk = subarray a b body" if "b \<le> length body" for a b
    using that subarray_subarray [of b "bodyOff + length body" bodyOff a disk]
    by (metis add_diff_cancel_left' assms)
  show ?case
    by (auto simp: Let_def decode_ops.simps(2) map_res_bind deref_op_def val add.assoc
        Suc [symmetric] bind_map_res)
qed

subsection \<open>Properties\<close>

text \<open>C32: In strict mode, whatever byte counts the positioned reads return (at least one until the end of the file), and
  in resync mode when each returns at least two bytes, or what is left of the file: the streaming scan of a file never
  fails and returns exactly what \<open>parseBuffer\<close> returns on its content: the same frames, each value at its recorded
  place in the file, the same corrupt ranges and the same end offset. (In resync mode a read of one byte ends the
  search for the next magic as if the file ended there.)\<close>

theorem scan_is_parse:
  assumes "strict \<or> reads_pairs rd"
  shows "\<exists>s. scanFrameRefsFd rd strict 0 disk = Inr s \<and> scan_matches disk s (parseBuffer strict disk)"
  using scan_from_eq [OF assms] by (simp add: scanFrameRefsFd_def parseBuffer_def)

theorem scan_is_parse_witness:
  "\<exists>s. scanFrameRefsFd (\<lambda>pos len. 2) False 0 (log_bytes [sample_set]) = Inr s \<and>
       map (deref (log_bytes [sample_set])) (s_frames s) = [decoded sample_set]"
  using scan_is_parse [of False "\<lambda>pos len. 2" "log_bytes [sample_set]"] parse_from_prefix [of "[sample_set]" False "[]" "[]"]
  by (auto simp: reads_pairs_def scan_matches_def parseBuffer_def)

text \<open>Scanning a batch body by reference agrees with decoding it: the same operations with
  each value at its place in the file, and the same error on a truncated header or payload.\<close>

theorem batch_refs_are_decode:
  assumes "body = subarray bodyOff (bodyOff + length body) disk"
  shows "map_res (map (deref_op disk)) (scanBatchOpRefs body bodyOff) = decodeBatchOps body"
  using scan_ops_eq [OF assms] by (simp add: scanBatchOpRefs_def decodeBatchOps_def)

theorem batch_refs_are_decode_witness:
  "map_res (map (deref_op [9, 1, 0])) (scanBatchOpRefs [1, 0] 1) = Inl BatchHeaderTruncated"
  using batch_refs_are_decode [of "[1, 0]" 1 "[9, 1, 0]"]
  by (simp add: decodeBatchOps_def readUInt16LE_def subarray_def decode_ops.simps(2) SUB_HEADER_def)

end
