(* ===== verification/FrameStream.thy ===== *)
theory FrameStream
  imports Parsing
begin

section \<open>The streaming parser (\<^verbatim>\<open>FrameParser\<close> of \<^verbatim>\<open>codec.ts\<close>)\<close>

text \<open>
  The parser is fed chunks and yields whole frames; bytes of an incomplete frame stay pending.
  \<open>feed\<close> is a generator in the source; here it is drained: the result is the list of yielded
  frames, the state left behind, and the error thrown, if any. A throw leaves \<open>pending\<close> as it was
  but keeps the offset already advanced by the frames yielded before it.
\<close>

record frame_parser =
  fp_pending :: buffer
  fp_offset :: nat

definition new_parser :: frame_parser where
  "new_parser = \<lparr>fp_pending = [], fp_offset = 0\<rparr>"

function feed_loop :: "buffer \<Rightarrow> nat \<Rightarrow> nat \<Rightarrow> frame list \<times> nat \<times> nat \<times> codec_error option" where
  "feed_loop buf pos offset =
     (if length buf < pos + HEADER_SIZE then ([], pos, offset, None)
      else if buf ! pos \<noteq> MAGIC ! 0 \<or> buf ! (pos + 1) \<noteq> MAGIC ! 1 then
        case indexOf_MAGIC buf (pos + 1) of
          None \<Rightarrow> ([], pos, offset, Some (MagicNotFound (offset + pos)))
        | Some next \<Rightarrow> feed_loop buf next offset
      else
        let type = readUInt8 buf (pos + 2);
            keyLen = readUInt16LE buf (pos + 4);
            valLen = readUInt32LE buf (pos + 6);
            metaLen = readUInt32LE buf (pos + 10);
            frameLen = HEADER_SIZE + keyLen + valLen + metaLen + CRC_SIZE
        in if length buf < pos + frameLen then ([], pos, offset, None)
           else
             let storedCrc = readUInt32LE buf (pos + frameLen - CRC_SIZE);
                 computedCrc = crc32 (subarray (pos + 2) (pos + frameLen - CRC_SIZE) buf) 0
             in if storedCrc \<noteq> unat computedCrc then ([], pos, offset, Some (CrcMismatch (offset + pos)))
                else
                  let keyStart = pos + HEADER_SIZE;
                      metaStart = keyStart + keyLen + valLen;
                      f = \<lparr>f_type = type,
                           f_key = subarray keyStart (keyStart + keyLen) buf,
                           f_value = subarray (keyStart + keyLen) (keyStart + keyLen + valLen) buf,
                           f_meta = (if metaLen \<noteq> 0 then Some (subarray metaStart (metaStart + metaLen) buf)
                                     else None),
                           f_expireAt = readExpireAt buf (pos + 14)\<rparr>;
                      r = feed_loop buf (pos + frameLen) (offset + frameLen)
                  in (f # fst r, snd r))"
  by pat_completeness auto
termination
  by (relation "measure (\<lambda>(buf, pos, offset). length buf - pos)")
     (auto dest!: indexOf_MAGIC_ge simp: size_defs)

declare feed_loop.simps [simp del]

definition feed :: "frame_parser \<Rightarrow> buffer \<Rightarrow> frame list \<times> frame_parser \<times> codec_error option" where
  "feed p chunk =
     (let buf = (if length (fp_pending p) > 0 then fp_pending p @ chunk else chunk);
          (fs, pos, offset, err) = feed_loop buf 0 (fp_offset p)
      in (fs,
          \<lparr>fp_pending = (if err = None then (if pos < length buf then drop pos buf else []) else fp_pending p),
           fp_offset = offset\<rparr>,
          err))"



subsection \<open>One step of the loop\<close>

lemma feed_loop_frame:
  assumes "readFrameAt buf pos = Some (f, n)"
  shows "feed_loop buf pos offset =
    (let r = feed_loop buf (pos + n) (offset + n) in (f # fst r, snd r))"
proof -
  note rd = assms [unfolded readFrameAt_def Let_def]
  have "n = HEADER_SIZE + readUInt16LE buf (pos + 4) + readUInt32LE buf (pos + 6) + readUInt32LE buf (pos + 10) + CRC_SIZE"
    using rd by (simp split: if_splits)
  with rd show ?thesis
    by (subst feed_loop.simps) (simp add: Let_def split: if_splits)
qed


text \<open>A complete frame that does not validate makes the loop throw.\<close>

lemma feed_loop_corrupt:
  assumes none: "readFrameAt buf pos = None" and magic: "buf ! pos = MAGIC ! 0" "buf ! (pos + 1) = MAGIC ! 1"
    and len: "pos + (HEADER_SIZE + readUInt16LE buf (pos + 4) + readUInt32LE buf (pos + 6)
      + readUInt32LE buf (pos + 10) + CRC_SIZE) \<le> length buf"
  shows "feed_loop buf pos offset = ([], pos, offset, Some (CrcMismatch (offset + pos)))"
proof -
  have "le_nat (subarray (pos + 4) (pos + 4 + 2) buf) < 256 ^ 2"
    using len by (intro less_le_trans [OF le_nat_bound] power_increasing) (simp_all add: size_defs)
  then have k: "readUInt16LE buf (pos + 4) \<le> MAX_KEY_LEN"
    by (simp add: readUInt16LE_def size_defs)
  show ?thesis
    using none magic len k unfolding readFrameAt_def
    by (subst feed_loop.simps) (auto simp: Let_def simp del: One_nat_def split: if_splits)
qed

subsection \<open>Chunk independence\<close>












subsection \<open>Properties\<close>





text \<open>The offset of a reported corrupt frame is wrong as soon as one frame was read from the
  same chunk. \<open>offset\<close> has then already advanced past that frame, and \<open>pos\<close>, counted from the
  start of the chunk, is added to it: the corrupt frame at absolute offset \<open>n\<close> is reported at
  \<open>2 * n\<close>.\<close>

theorem stream_corrupt_offset_doubled:
  assumes i: "encodable i" and j: "encodable j" and d: "damaged p b (encoded j)" and p: "2 \<le> p"
  shows "feed new_parser (encoded i @ (encoded j)[p := b]) =
    ([decoded i], \<lparr>fp_pending = [], fp_offset = length (encoded i)\<rparr>, Some (CrcMismatch (2 * length (encoded i))))"
proof -
  let ?L = "length (encoded i)" and ?bad = "(encoded j)[p := b]"
  let ?buf = "encoded i @ ?bad"
  have ok: "readFrameAt (encoded j) 0 = Some (decoded j, length ?bad)"
    using readFrameAt_encodeFrame [OF encodable_Inr [OF j], of "[]"] by (simp add: length_encoded [OF j])
  have none: "readFrameAt ?buf ?L = None"
    using readFrameAt_damaged [OF j d, of "[]"] readFrameAt_shift [of "encoded i" ?bad 0] by simp
  have lj: "26 \<le> length (encoded j)" by (rule length_encoded_pos [OF j])
  have rd: "readUInt16LE ?bad 4 = readUInt16LE (encoded j) 4"
    "readUInt32LE ?bad 6 = readUInt32LE (encoded j) 6" "readUInt32LE ?bad 10 = readUInt32LE (encoded j) 10"
    using d p lj by (auto simp: read_defs subarray_update damaged_def)
  have len: "HEADER_SIZE + readUInt16LE ?buf (?L + 4) + readUInt32LE ?buf (?L + 6)
      + readUInt32LE ?buf (?L + 10) + CRC_SIZE = length ?bad"
    using readFrameAt_len_field(1) [OF ok] by (simp only: rd read_shift)
  have magic: "?buf ! ?L = MAGIC ! 0" "?buf ! (?L + 1) = MAGIC ! 1"
    using readFrameAt_check [OF ok] p lj by (simp_all add: nth_append)
  have "feed_loop ?buf ?L ?L = ([], ?L, ?L, Some (CrcMismatch (?L + ?L)))"
    using feed_loop_corrupt [OF none magic] len lj by (simp add: size_defs)
  moreover have "readFrameAt ?buf 0 = Some (decoded i, ?L)"
    using readFrameAt_encoded_at [OF encodable_Inr [OF i], of "[]" ?bad] by simp
  ultimately show ?thesis
    by (simp add: feed_def new_parser_def feed_loop_frame Let_def)
qed

theorem stream_corrupt_offset_doubled_witness:
  "snd (snd (feed new_parser (encoded sample_set @ (encoded sample_set)[23 := 0]))) = Some (CrcMismatch 58)"
proof -
  obtain c0 c1 c2 c3 where b: "encoded sample_set =
    [0x4d, 0x44, 1, 0, 1, 0, 2, 0, 0, 0, 0, 0, 0, 0, 5, 0, 0, 0, 0, 0, 0, 0, 107, 118, 1, c0, c1, c2, c3]"
    using sample_bytes by blast
  have "damaged 23 0 (encoded sample_set)" by (simp add: damaged_def b)
  moreover have "length (encoded sample_set) = 29" by (simp add: b)
  ultimately show ?thesis using stream_corrupt_offset_doubled [of sample_set sample_set 23 0] by simp
qed

end
