(* ===== verification/Comparators.thy ===== *)
theory Comparators
  imports Prelude "HOL-Library.List_Lexorder"
begin

section \<open>Comparators (\<^verbatim>\<open>Comparator\<close> of \<^verbatim>\<open>skiplist.ts\<close>)\<close>

text \<open>
  The ordered indexes take their comparison functions as arguments. \<open>comparator\<close> is the contract
  such a function has to keep: its sign is a strict total order and zero means equal. The two
  comparators that the library exports keep it. JavaScript's \<open><\<close> on strings compares code units
  lexicographically, which is \<open><\<close> on lists; numbers are timestamps and column values, taken as
  integers.
\<close>

locale comparator =
  fixes cmp :: "'a \<Rightarrow> 'a \<Rightarrow> int"
  assumes zero: "cmp a b = 0 \<longleftrightarrow> a = b"
    and swap: "cmp b a < 0 \<longleftrightarrow> 0 < cmp a b"
    and trans: "cmp a b < 0 \<Longrightarrow> cmp b c < 0 \<Longrightarrow> cmp a c < 0"
begin

lemma irrefl: "\<not> cmp a a < 0" "\<not> 0 < cmp a a"
  using zero [of a a] by simp_all

lemma le_trans: "cmp a b \<le> 0 \<Longrightarrow> cmp b c \<le> 0 \<Longrightarrow> cmp a c \<le> 0"
  by (metis le_less trans zero)

lemma less_le_trans: "cmp a b < 0 \<Longrightarrow> cmp b c \<le> 0 \<Longrightarrow> cmp a c < 0"
  by (metis le_less trans zero)

lemma le_less_trans: "cmp a b \<le> 0 \<Longrightarrow> cmp b c < 0 \<Longrightarrow> cmp a c < 0"
  by (metis le_less trans zero)

lemma linear: "cmp a b < 0 \<or> a = b \<or> cmp b a < 0"
  by (metis linorder_neqE_linordered_idom swap zero)

lemma not_less: "\<not> cmp a b < 0 \<longleftrightarrow> cmp b a \<le> 0"
  by (metis linorder_not_less swap)

end

definition cmpNumber :: "int \<Rightarrow> int \<Rightarrow> int" where
  "cmpNumber a b = a - b"

definition cmpString :: "js_string \<Rightarrow> js_string \<Rightarrow> int" where
  "cmpString a b = (if a < b then -1 else if b < a then 1 else 0)"

interpretation number: comparator cmpNumber
  by unfold_locales (auto simp: cmpNumber_def)

interpretation str: comparator cmpString
  by unfold_locales (auto simp: cmpString_def split: if_splits)

text \<open>In a sorted list the elements below a threshold come first.\<close>

lemma sorted_split:
  assumes "sorted_wrt r (map f ts)" and "\<And>x y. r x y \<Longrightarrow> P y \<Longrightarrow> P x"
  shows "ts = filter (\<lambda>t. P (f t)) ts @ filter (\<lambda>t. \<not> P (f t)) ts"
  using assms(1)
proof (induction ts)
  case Nil
  then show ?case by simp
next
  case (Cons t ts)
  show ?case
  proof (cases "P (f t)")
    case True
    with Cons show ?thesis by simp
  next
    case False
    have "\<forall>x\<in>set ts. \<not> P (f x)" using Cons.prems False assms(2) by auto
    then show ?thesis using False by (simp add: filter_empty_conv filter_id_conv)
  qed
qed

text \<open>The order on entries: by key, ties broken by value.\<close>

definition entry_less :: "('k \<Rightarrow> 'k \<Rightarrow> int) \<Rightarrow> ('v \<Rightarrow> 'v \<Rightarrow> int) \<Rightarrow> 'k \<times> 'v \<Rightarrow> 'k \<times> 'v \<Rightarrow> bool" where
  "entry_less cmpK cmpV a b =
     (let c = cmpK (fst a) (fst b) in c < 0 \<or> (c = 0 \<and> cmpV (snd a) (snd b) < 0))"

locale entry_order = K: comparator cmpK + V: comparator cmpV
  for cmpK :: "'k \<Rightarrow> 'k \<Rightarrow> int" and cmpV :: "'v \<Rightarrow> 'v \<Rightarrow> int"
begin

lemma entry_less_irrefl: "\<not> entry_less cmpK cmpV a a"
  by (simp add: entry_less_def K.irrefl V.irrefl)

lemma entry_less_trans:
  "entry_less cmpK cmpV a b \<Longrightarrow> entry_less cmpK cmpV b c \<Longrightarrow> entry_less cmpK cmpV a c"
  by (auto simp: entry_less_def Let_def K.zero dest: K.trans V.trans)

lemma entry_linear: "entry_less cmpK cmpV a b \<or> a = b \<or> entry_less cmpK cmpV b a"
  by (cases a; cases b)
     (use K.linear [of "fst a" "fst b"] V.linear [of "snd a" "snd b"] in \<open>auto simp: entry_less_def Let_def K.zero\<close>)

lemma entry_less_asym: "entry_less cmpK cmpV a b \<Longrightarrow> \<not> entry_less cmpK cmpV b a"
  using entry_less_irrefl entry_less_trans by blast

end

interpretation str_str: entry_order cmpString cmpString
  by unfold_locales

interpretation number_str: entry_order cmpNumber cmpString
  by unfold_locales

end
