(* ===== verification/SkipList.thy ===== *)
theory SkipList
  imports Comparators "HOL-Library.Monad_Syntax"
begin

section \<open>The skip list (\<^verbatim>\<open>skiplist.ts\<close>)\<close>

text \<open>
  Nodes live in a store of nodes and are named by their index in it; \<open>insert\<close> allocates the next
  index. In \<open>x\<close> positions \<open>None\<close> is the header node, \<open>Some a\<close> the node \<open>a\<close>; in \<open>forward\<close>,
  \<open>backward\<close> and \<open>tail\<close> fields \<open>None\<close> is \<open>null\<close>. A level is the pair of its \<open>forward\<close> pointer
  and its \<open>span\<close>. The walks follow pointers and are partial functions: not returning is \<open>None\<close>,
  and the lemmas of \<open>SkipListInv\<close> prove that on the lists the operations build they return.
\<close>

definition MAX_LEVEL :: nat where "MAX_LEVEL = 32"

type_synonym level = "nat option \<times> int"

record ('k, 'v) skip_node =
  sn_key :: 'k
  sn_val :: 'v
  sn_backward :: "nat option"
  sn_level :: "level list"

record ('k, 'v) skip_list =
  sl_nodes :: "('k, 'v) skip_node list"
  sl_header :: "level list"
  sl_tail :: "nat option"
  sl_length :: nat
  sl_level :: nat

text \<open>\<open>draw k\<close> says whether the \<open>k\<close>-th call of \<^verbatim>\<open>Math.random()\<close> falls below \<^verbatim>\<open>P\<close>.\<close>

function random_level :: "(nat \<Rightarrow> bool) \<Rightarrow> nat \<Rightarrow> nat" where
  "random_level draw lvl = (if draw lvl \<and> lvl < MAX_LEVEL then random_level draw (lvl + 1) else lvl)"
  by pat_completeness auto
termination by (relation "measure (\<lambda>(draw, lvl). MAX_LEVEL - lvl)") auto

declare random_level.simps [simp del]

definition randomLevel :: "(nat \<Rightarrow> bool) \<Rightarrow> nat" where
  "randomLevel draw = random_level draw 1"

definition empty_list :: "('k, 'v) skip_list" where
  "empty_list = \<lparr>sl_nodes = [], sl_header = replicate MAX_LEVEL (None, 0), sl_tail = None,
                 sl_length = 0, sl_level = 1\<rparr>"

subsection \<open>Reading and writing the pointers\<close>

definition levels :: "('k, 'v) skip_list \<Rightarrow> nat option \<Rightarrow> level list" where
  "levels sl x = (case x of None \<Rightarrow> sl_header sl | Some a \<Rightarrow> sn_level (sl_nodes sl ! a))"

definition forward :: "('k, 'v) skip_list \<Rightarrow> nat option \<Rightarrow> nat \<Rightarrow> nat option" where
  "forward sl x i = fst (levels sl x ! i)"

definition span :: "('k, 'v) skip_list \<Rightarrow> nat option \<Rightarrow> nat \<Rightarrow> int" where
  "span sl x i = snd (levels sl x ! i)"

definition set_level :: "nat option \<Rightarrow> nat \<Rightarrow> level \<Rightarrow> ('k, 'v) skip_list \<Rightarrow> ('k, 'v) skip_list" where
  "set_level x i l sl =
     (case x of
        None \<Rightarrow> sl\<lparr>sl_header := (sl_header sl)[i := l]\<rparr>
      | Some a \<Rightarrow> (let n = sl_nodes sl ! a
                 in sl\<lparr>sl_nodes := (sl_nodes sl)[a := n\<lparr>sn_level := (sn_level n)[i := l]\<rparr>]\<rparr>))"

definition set_backward :: "nat \<Rightarrow> nat option \<Rightarrow> ('k, 'v) skip_list \<Rightarrow> ('k, 'v) skip_list" where
  "set_backward a b sl = sl\<lparr>sl_nodes := (sl_nodes sl)[a := (sl_nodes sl ! a)\<lparr>sn_backward := b\<rparr>]\<rparr>"

definition entry_at :: "('k, 'v) skip_list \<Rightarrow> nat \<Rightarrow> 'k \<times> 'v" where
  "entry_at sl a = (sn_key (sl_nodes sl ! a), sn_val (sl_nodes sl ! a))"

subsection \<open>Walking\<close>

text \<open>
  The inner loop of \<open>insert\<close>, \<open>delete\<close>, \<open>getRank\<close> and \<open>lowerBound\<close>: follow the level while the
  next node satisfies the loop's condition, adding up the spans (\<open>delete\<close> and \<open>lowerBound\<close> do not
  use the sum). \<open>walk_down\<close> is the outer loop, from level \<open>k - 1\<close> to 0; it returns where it ends,
  and for every level the node reached there (\<open>update\<close>) with its rank (\<open>rank\<close>), level 0 first.
\<close>

partial_function (option) walk ::
  "(nat \<Rightarrow> bool) \<Rightarrow> ('k, 'v) skip_list \<Rightarrow> nat \<Rightarrow> nat option \<Rightarrow> int \<Rightarrow> (nat option \<times> int) option" where
  "walk cond sl i x rank =
     (case forward sl x i of
        None \<Rightarrow> Some (x, rank)
      | Some f \<Rightarrow> if cond f then walk cond sl i (Some f) (rank + span sl x i) else Some (x, rank))"

fun walk_down :: "(nat \<Rightarrow> bool) \<Rightarrow> ('k, 'v) skip_list \<Rightarrow> nat \<Rightarrow> nat option \<Rightarrow> int
    \<Rightarrow> ((nat option \<times> int) \<times> (nat option \<times> int) list) option" where
  "walk_down cond sl 0 x rank = Some ((x, rank), [])"
| "walk_down cond sl (Suc i) x rank =
     do { (y, r) \<leftarrow> walk cond sl i x rank;
          (end, upd) \<leftarrow> walk_down cond sl i y r;
          Some (end, upd @ [(y, r)]) }"

definition nodeLess :: "('k \<Rightarrow> 'k \<Rightarrow> int) \<Rightarrow> ('v \<Rightarrow> 'v \<Rightarrow> int) \<Rightarrow> ('k, 'v) skip_list \<Rightarrow> 'k \<Rightarrow> 'v \<Rightarrow> nat \<Rightarrow> bool" where
  "nodeLess cmpK cmpV sl key val a = entry_less cmpK cmpV (entry_at sl a) (key, val)"

definition nodeEq :: "('k \<Rightarrow> 'k \<Rightarrow> int) \<Rightarrow> ('v \<Rightarrow> 'v \<Rightarrow> int) \<Rightarrow> ('k, 'v) skip_list \<Rightarrow> 'k \<Rightarrow> 'v \<Rightarrow> nat \<Rightarrow> bool" where
  "nodeEq cmpK cmpV sl key val a \<longleftrightarrow>
     cmpK (sn_key (sl_nodes sl ! a)) key = 0 \<and> cmpV (sn_val (sl_nodes sl ! a)) val = 0"

subsection \<open>Insertion\<close>

text \<open>A drawn level above the current one enters the header into \<open>update\<close> for the new levels and
  sets the header's spans there to the length.\<close>

definition raise_level :: "nat \<Rightarrow> ('k, 'v) skip_list \<times> (nat option \<times> int) list \<Rightarrow> ('k, 'v) skip_list \<times> (nat option \<times> int) list" where
  "raise_level lvl s =
     (let sl = fst s in
      if lvl > sl_level sl
      then (let sl' = fold (\<lambda>i t. set_level None i (forward t None i, int (sl_length t)) t) [sl_level sl..<lvl] sl
            in (sl'\<lparr>sl_level := lvl\<rparr>, snd s @ replicate (lvl - sl_level sl) (None, 0)))
      else s)"

text \<open>The body of the loop that splices the new node \<open>a\<close> into level \<open>i\<close>.\<close>

definition splice :: "nat \<Rightarrow> (nat option \<times> int) list \<Rightarrow> nat \<Rightarrow> ('k, 'v) skip_list \<Rightarrow> ('k, 'v) skip_list" where
  "splice a upd i sl =
     (let (u, r) = upd ! i; r0 = snd (upd ! 0);
          fwd = forward sl u i; sp = span sl u i
      in set_level u i (Some a, r0 - r + 1) (set_level (Some a) i (fwd, sp - (r0 - r)) sl))"

definition widen :: "(nat option \<times> int) list \<Rightarrow> nat \<Rightarrow> ('k, 'v) skip_list \<Rightarrow> ('k, 'v) skip_list" where
  "widen upd i sl = (let u = fst (upd ! i) in set_level u i (forward sl u i, span sl u i + 1) sl)"

definition new_node :: "'k \<Rightarrow> 'v \<Rightarrow> nat \<Rightarrow> ('k, 'v) skip_list \<Rightarrow> ('k, 'v) skip_list" where
  "new_node key val lvl sl =
     sl\<lparr>sl_nodes := sl_nodes sl @
        [\<lparr>sn_key = key, sn_val = val, sn_backward = None, sn_level = replicate lvl (None, 0)\<rparr>]\<rparr>"

text \<open>The new node's \<open>backward\<close> pointer is \<open>update[0]\<close>, or null for the header.\<close>

definition link_back :: "nat \<Rightarrow> nat option \<Rightarrow> ('k, 'v) skip_list \<Rightarrow> ('k, 'v) skip_list" where
  "link_back a u sl =
     (let sl1 = set_backward a u sl
      in case forward sl1 (Some a) 0 of
           Some f \<Rightarrow> set_backward f (Some a) sl1
         | None \<Rightarrow> sl1\<lparr>sl_tail := Some a\<rparr>)"

definition insert_node :: "('k \<Rightarrow> 'k \<Rightarrow> int) \<Rightarrow> ('v \<Rightarrow> 'v \<Rightarrow> int) \<Rightarrow> 'k \<Rightarrow> 'v \<Rightarrow> (nat \<Rightarrow> bool)
    \<Rightarrow> ('k, 'v) skip_list \<Rightarrow> ('k, 'v) skip_list option" where
  "insert_node cmpK cmpV key val draw sl =
     do { (end, upd) \<leftarrow> walk_down (nodeLess cmpK cmpV sl key val) sl (sl_level sl) None 0;
          let lvl = randomLevel draw;
          let (sl1, upd1) = raise_level lvl (sl, upd);
          let a = length (sl_nodes sl1);
          let sl2 = fold (splice a upd1) [0..<lvl] (new_node key val lvl sl1);
          let sl3 = fold (widen upd1) [lvl..<sl_level sl2] sl2;
          let sl4 = link_back a (fst (upd1 ! 0)) sl3;
          Some (sl4\<lparr>sl_length := sl_length sl4 + 1\<rparr>) }"

subsection \<open>Deletion\<close>

definition unsplice :: "nat \<Rightarrow> (nat option \<times> int) list \<Rightarrow> nat \<Rightarrow> ('k, 'v) skip_list \<Rightarrow> ('k, 'v) skip_list" where
  "unsplice x upd i sl =
     (let u = fst (upd ! i) in
      if forward sl u i = Some x
      then set_level u i (forward sl (Some x) i, span sl u i + (span sl (Some x) i - 1)) sl
      else set_level u i (forward sl u i, span sl u i - 1) sl)"

definition unlink_back :: "nat \<Rightarrow> ('k, 'v) skip_list \<Rightarrow> ('k, 'v) skip_list" where
  "unlink_back x sl =
     (case forward sl (Some x) 0 of
        Some f \<Rightarrow> set_backward f (sn_backward (sl_nodes sl ! x)) sl
      | None \<Rightarrow> sl\<lparr>sl_tail := sn_backward (sl_nodes sl ! x)\<rparr>)"

function trim_level :: "('k, 'v) skip_list \<Rightarrow> nat \<Rightarrow> nat" where
  "trim_level sl lvl = (if lvl > 1 \<and> forward sl None (lvl - 1) = None then trim_level sl (lvl - 1) else lvl)"
  by pat_completeness auto
termination by (relation "measure snd") auto

declare trim_level.simps [simp del]

definition deleteNode :: "nat \<Rightarrow> (nat option \<times> int) list \<Rightarrow> ('k, 'v) skip_list \<Rightarrow> ('k, 'v) skip_list" where
  "deleteNode x upd sl =
     (let sl1 = fold (unsplice x upd) [0..<sl_level sl] sl;
          sl2 = unlink_back x sl1
      in sl2\<lparr>sl_level := trim_level sl2 (sl_level sl2), sl_length := sl_length sl2 - 1\<rparr>)"

definition delete_node :: "('k \<Rightarrow> 'k \<Rightarrow> int) \<Rightarrow> ('v \<Rightarrow> 'v \<Rightarrow> int) \<Rightarrow> 'k \<Rightarrow> 'v
    \<Rightarrow> ('k, 'v) skip_list \<Rightarrow> (bool \<times> ('k, 'v) skip_list) option" where
  "delete_node cmpK cmpV key val sl =
     do { ((x, r), upd) \<leftarrow> walk_down (nodeLess cmpK cmpV sl key val) sl (sl_level sl) None 0;
          case forward sl x 0 of
            Some f \<Rightarrow>
              if nodeEq cmpK cmpV sl key val f then Some (True, deleteNode f upd sl) else Some (False, sl)
          | None \<Rightarrow> Some (False, sl) }"

subsection \<open>Queries\<close>

definition lowerBound :: "('k \<Rightarrow> 'k \<Rightarrow> int) \<Rightarrow> ('k, 'v) skip_list \<Rightarrow> 'k \<Rightarrow> bool \<Rightarrow> nat option option" where
  "lowerBound cmpK sl bound strict =
     do { ((x, r), upd) \<leftarrow> walk_down (\<lambda>f. let c = cmpK (sn_key (sl_nodes sl ! f)) bound
                                    in if strict then c \<le> 0 else c < 0) sl (sl_level sl) None 0;
          Some (forward sl x 0) }"

definition getRank :: "('k \<Rightarrow> 'k \<Rightarrow> int) \<Rightarrow> ('v \<Rightarrow> 'v \<Rightarrow> int) \<Rightarrow> ('k, 'v) skip_list \<Rightarrow> 'k \<Rightarrow> 'v \<Rightarrow> int option option" where
  "getRank cmpK cmpV sl key val =
     do { ((x, rank), upd) \<leftarrow> walk_down (\<lambda>f. nodeLess cmpK cmpV sl key val f \<or> nodeEq cmpK cmpV sl key val f)
             sl (sl_level sl) None 0;
          Some (case x of
                  None \<Rightarrow> None
                | Some a \<Rightarrow> if nodeEq cmpK cmpV sl key val a then Some (rank - 1) else None) }"

partial_function (option) rank_walk ::
  "int \<Rightarrow> ('k, 'v) skip_list \<Rightarrow> nat \<Rightarrow> nat option \<Rightarrow> int \<Rightarrow> (nat option \<times> int) option" where
  "rank_walk target sl i x traversed =
     (case forward sl x i of
        None \<Rightarrow> Some (x, traversed)
      | Some f \<Rightarrow> if traversed + span sl x i \<le> target
                  then rank_walk target sl i (Some f) (traversed + span sl x i) else Some (x, traversed))"

fun rank_down :: "int \<Rightarrow> ('k, 'v) skip_list \<Rightarrow> nat \<Rightarrow> nat option \<Rightarrow> int \<Rightarrow> nat option option" where
  "rank_down target sl 0 x traversed = Some None"
| "rank_down target sl (Suc i) x traversed =
     do { (y, t) \<leftarrow> rank_walk target sl i x traversed;
          if t = target then Some y else rank_down target sl i y t }"

definition getByRank :: "('k, 'v) skip_list \<Rightarrow> int \<Rightarrow> ('k \<times> 'v) option option" where
  "getByRank sl rank =
     (if rank < 0 \<or> rank \<ge> int (sl_length sl) then Some None
      else do { y \<leftarrow> rank_down (rank + 1) sl (sl_level sl) None 0;
                Some (map_option (entry_at sl) y) })"

text \<open>Bounds, offset and count of a range scan; an absent count is \<^verbatim>\<open>Infinity\<close>.\<close>

record 'k range_options =
  ro_gte :: "'k option"
  ro_gt :: "'k option"
  ro_lte :: "'k option"
  ro_lt :: "'k option"
  ro_offset :: int
  ro_count :: "int option"
  ro_reverse :: bool

definition below_lower :: "('k \<Rightarrow> 'k \<Rightarrow> int) \<Rightarrow> 'k range_options \<Rightarrow> 'k \<Rightarrow> bool" where
  "below_lower cmpK ro k \<longleftrightarrow>
     (case ro_gte ro of Some b \<Rightarrow> cmpK k b < 0 | None \<Rightarrow> False) \<or>
     (case ro_gt ro of Some b \<Rightarrow> cmpK k b \<le> 0 | None \<Rightarrow> False)"

definition above_upper :: "('k \<Rightarrow> 'k \<Rightarrow> int) \<Rightarrow> 'k range_options \<Rightarrow> 'k \<Rightarrow> bool" where
  "above_upper cmpK ro k \<longleftrightarrow>
     (case ro_lte ro of Some b \<Rightarrow> cmpK k b > 0 | None \<Rightarrow> False) \<or>
     (case ro_lt ro of Some b \<Rightarrow> cmpK k b \<ge> 0 | None \<Rightarrow> False)"

text \<open>The collecting loop, following \<open>next\<close> (\<open>backward\<close>, or \<open>forward\<close> on level 0) until \<open>stop\<close>,
  the end of the list or the end of the count.\<close>

partial_function (option) collect ::
  "(nat \<Rightarrow> nat option) \<Rightarrow> ('k \<Rightarrow> bool) \<Rightarrow> ('k, 'v) skip_list \<Rightarrow> nat option \<Rightarrow> int \<Rightarrow> int option
    \<Rightarrow> ('k \<times> 'v) list option" where
  "collect next stop sl x offset count =
     (case x of
        None \<Rightarrow> Some []
      | Some a \<Rightarrow>
          if stop (fst (entry_at sl a)) then Some []
          else if offset > 0 then collect next stop sl (next a) (offset - 1) count
          else if (case count of None \<Rightarrow> True | Some c \<Rightarrow> c > 0) then
            do { out \<leftarrow> collect next stop sl (next a) offset (map_option (\<lambda>c. c - 1) count);
                 Some (entry_at sl a # out) }
          else Some [])"

definition range_start_reverse :: "('k \<Rightarrow> 'k \<Rightarrow> int) \<Rightarrow> ('k, 'v) skip_list \<Rightarrow> 'k range_options \<Rightarrow> nat option option" where
  "range_start_reverse cmpK sl ro =
     (let before = (\<lambda>after. case after of Some a \<Rightarrow> sn_backward (sl_nodes sl ! a) | None \<Rightarrow> sl_tail sl)
      in case ro_lte ro of
           Some b \<Rightarrow> map_option before (lowerBound cmpK sl b True)
         | None \<Rightarrow>
             (case ro_lt ro of
                Some b \<Rightarrow> map_option before (lowerBound cmpK sl b False)
              | None \<Rightarrow> Some (sl_tail sl)))"

definition range_start :: "('k \<Rightarrow> 'k \<Rightarrow> int) \<Rightarrow> ('k, 'v) skip_list \<Rightarrow> 'k range_options \<Rightarrow> nat option option" where
  "range_start cmpK sl ro =
     (case (case ro_gte ro of Some b \<Rightarrow> Some b | None \<Rightarrow> ro_gt ro) of
        Some b \<Rightarrow> lowerBound cmpK sl b (ro_gt ro \<noteq> None)
      | None \<Rightarrow> Some (forward sl None 0))"

definition range_entries :: "('k \<Rightarrow> 'k \<Rightarrow> int) \<Rightarrow> ('k, 'v) skip_list \<Rightarrow> 'k range_options \<Rightarrow> ('k \<times> 'v) list option" where
  "range_entries cmpK sl ro =
     (if ro_reverse ro then
        do { x \<leftarrow> range_start_reverse cmpK sl ro;
             collect (\<lambda>a. sn_backward (sl_nodes sl ! a)) (below_lower cmpK ro) sl x (ro_offset ro) (ro_count ro) }
      else
        do { x \<leftarrow> range_start cmpK sl ro;
             collect (\<lambda>a. forward sl (Some a) 0) (above_upper cmpK ro) sl x (ro_offset ro) (ro_count ro) })"

text \<open>The generator \<open>iterate\<close>, drained: it repeats the code of \<open>range\<close> with \<^verbatim>\<open>yield\<close> for \<^verbatim>\<open>push\<close>.\<close>

definition iterate_entries :: "('k \<Rightarrow> 'k \<Rightarrow> int) \<Rightarrow> ('k, 'v) skip_list \<Rightarrow> 'k range_options \<Rightarrow> ('k \<times> 'v) list option" where
  "iterate_entries cmpK sl ro =
     (if ro_reverse ro then
        do { x \<leftarrow> range_start_reverse cmpK sl ro;
             collect (\<lambda>a. sn_backward (sl_nodes sl ! a)) (below_lower cmpK ro) sl x (ro_offset ro) (ro_count ro) }
      else
        do { x \<leftarrow> range_start cmpK sl ro;
             collect (\<lambda>a. forward sl (Some a) 0) (above_upper cmpK ro) sl x (ro_offset ro) (ro_count ro) })"

definition toArray :: "('k, 'v) skip_list \<Rightarrow> ('k \<times> 'v) list option" where
  "toArray sl = collect (\<lambda>a. forward sl (Some a) 0) (\<lambda>k. False) sl (forward sl None 0) 0 None"

end
