(* ===== verification/SkipListInv.thy ===== *)
theory SkipListInv
  imports SkipList
begin

section \<open>The skip list: linking invariant and searches\<close>

text \<open>
  The abstract view of a list is the sequence \<open>ts\<close> of its towers, a node with its height. From it
  every pointer and span is determined: \<open>hop i ts\<close> is what a level-\<open>i\<close> pointer standing before
  \<open>ts\<close> must hold, the next tower higher than \<open>i\<close> and the distance to it (or to the end).
\<close>

type_synonym tower = "nat \<times> nat"

fun hop :: "nat \<Rightarrow> tower list \<Rightarrow> level" where
  "hop i [] = (None, 0)"
| "hop i ((a, h) # ts) = (if i < h then (Some a, 1) else (fst (hop i ts), snd (hop i ts) + 1))"

definition endref :: "tower list \<Rightarrow> nat option" where
  "endref l = (if l = [] then None else Some (fst (last l)))"

definition tall :: "nat \<Rightarrow> tower list \<Rightarrow> bool" where
  "tall i l \<longleftrightarrow> l = [] \<or> i < snd (last l)"

definition low :: "nat \<Rightarrow> tower list \<Rightarrow> bool" where
  "low i r \<longleftrightarrow> (\<forall>t\<in>set r. snd t \<le> i)"

definition node_ok :: "('k, 'v) skip_list \<Rightarrow> nat option \<Rightarrow> nat \<Rightarrow> nat \<Rightarrow> tower list \<Rightarrow> bool" where
  "node_ok sl b a h rest \<longleftrightarrow>
     a < length (sl_nodes sl) \<and> length (sn_level (sl_nodes sl ! a)) = h \<and> 0 < h \<and> h \<le> sl_level sl \<and>
     sn_backward (sl_nodes sl ! a) = b \<and> (\<forall>i<h. sn_level (sl_nodes sl ! a) ! i = hop i rest)"

fun linked :: "('k, 'v) skip_list \<Rightarrow> nat option \<Rightarrow> tower list \<Rightarrow> bool" where
  "linked sl b [] = True"
| "linked sl b ((a, h) # ts) \<longleftrightarrow> node_ok sl b a h ts \<and> linked sl (Some a) ts"

definition list_inv :: "('k, 'v) skip_list \<Rightarrow> tower list \<Rightarrow> bool" where
  "list_inv sl ts \<longleftrightarrow>
     length (sl_header sl) = MAX_LEVEL \<and> 1 \<le> sl_level sl \<and> sl_level sl \<le> MAX_LEVEL \<and>
     distinct (map fst ts) \<and>
     (\<forall>i < sl_level sl. sl_header sl ! i = hop i ts) \<and>
     (\<forall>i. sl_level sl \<le> i \<and> i < MAX_LEVEL \<longrightarrow> fst (sl_header sl ! i) = None) \<and>
     linked sl None ts \<and> sl_tail sl = endref ts \<and> sl_length sl = length ts"

text \<open>The entries an index holds, in order.\<close>

definition entries :: "('k, 'v) skip_list \<Rightarrow> tower list \<Rightarrow> ('k \<times> 'v) list" where
  "entries sl ts = map (\<lambda>t. entry_at sl (fst t)) ts"

subsection \<open>Facts about \<open>hop\<close>\<close>

lemma hop_low: "low i r \<Longrightarrow> hop i (r @ vs) = (fst (hop i vs), snd (hop i vs) + int (length r))"
  by (induction r) (auto simp: low_def)

lemma hop_tall: "low i r \<Longrightarrow> i < h \<Longrightarrow> hop i (r @ (a, h) # vs) = (Some a, int (length r) + 1)"
  by (simp add: hop_low)

lemma hop_low_end: "low i r \<Longrightarrow> hop i r = (None, int (length r))"
  using hop_low [of i r "[]"] by simp

lemma low_simps [simp]:
  "low i []" "low i (t # r) \<longleftrightarrow> snd t \<le> i \<and> low i r" "low i (r @ r') \<longleftrightarrow> low i r \<and> low i r'"
  by (auto simp: low_def)

lemma hop_stop: "\<not> low i r \<Longrightarrow> hop i (r @ vs) = hop i (r @ vs')"
  by (induction r) auto

lemma tall_nil [simp]: "tall i []" by (simp add: tall_def)

lemma tall_mono: "tall i l \<Longrightarrow> j \<le> i \<Longrightarrow> tall j l"
  by (auto simp: tall_def)

lemma tall_snoc [simp]: "tall i (l @ [(a, h)]) \<longleftrightarrow> i < h"
  by (simp add: tall_def)

lemma endref_simps [simp]: "endref [] = None" "endref (l @ [t]) = Some (fst t)"
  by (simp_all add: endref_def)

lemma endref_append: "endref (l @ r) = (if r = [] then endref l else endref r)"
  by (simp add: endref_def)

text \<open>Every sequence splits after its last tower higher than \<open>i\<close>.\<close>

lemma tall_low_split: "\<exists>l r. us = l @ r \<and> tall i l \<and> low i r"
proof (induction us rule: rev_induct)
  case Nil
  then show ?case by simp
next
  case (snoc t us)
  show ?case
  proof (cases "i < snd t")
    case True
    then have "tall i (us @ [t])" by (simp add: tall_def)
    then show ?thesis by (metis append_Nil2 low_simps(1))
  next
    case False
    from snoc obtain l r where "us = l @ r" "tall i l" "low i r" by blast
    with False have "us @ [t] = l @ (r @ [t])" "low i (r @ [t])" by simp_all
    with \<open>tall i l\<close> show ?thesis by blast
  qed
qed

lemma first_tall_split:
  "\<not> low i r \<Longrightarrow> \<exists>r1 a h r2. r = r1 @ (a, h) # r2 \<and> low i r1 \<and> i < h"
proof (induction r)
  case Nil
  then show ?case by simp
next
  case (Cons t r)
  obtain a h where t: "t = (a, h)" by (cases t)
  show ?case
  proof (cases "i < h")
    case True
    with t show ?thesis by (metis append_Nil low_simps(1))
  next
    case False
    with Cons t obtain r1 b k r2 where "r = r1 @ (b, k) # r2" "low i r1" "i < k" by auto
    moreover from this False t have "t # r = (t # r1) @ (b, k) # r2" "low i (t # r1)" by simp_all
    ultimately show ?thesis by blast
  qed
qed

subsection \<open>Facts about the links\<close>

lemma linked_append:
  "linked sl b (us @ (a, h) # vs) \<Longrightarrow> node_ok sl (if us = [] then b else endref us) a h vs"
  by (induction us arbitrary: b) (auto simp: endref_def split: if_splits)

lemma linkedI:
  assumes "\<And>u a h v. ts = u @ (a, h) # v \<Longrightarrow> node_ok sl (if u = [] then b else endref u) a h v"
  shows "linked sl b ts"
  using assms
proof (induction ts arbitrary: b)
  case Nil
  then show ?case by simp
next
  case (Cons t ts)
  obtain a h where t: "t = (a, h)" by (cases t)
  have "node_ok sl b a h ts" using Cons.prems [of "[]" a h ts] t by simp
  moreover have "linked sl (Some a) ts"
  proof (rule Cons.IH)
    fix u c k v assume "ts = u @ (c, k) # v"
    with Cons.prems [of "t # u" c k v] show "node_ok sl (if u = [] then Some a else endref u) c k v"
      by (simp add: t endref_def split: if_splits)
  qed
  ultimately show ?case by (simp add: t)
qed

lemma inv_node:
  "list_inv sl (us @ (a, h) # vs) \<Longrightarrow> node_ok sl (endref us) a h vs"
  using linked_append [of sl None us a h vs] by (auto simp: list_inv_def endref_def split: if_splits)

text \<open>What a walk reads: the level-\<open>i\<close> pointer of the header or of a tower higher than \<open>i\<close>.\<close>

lemma level_at:
  assumes "list_inv sl (l @ m)" "tall i l" "i < sl_level sl"
  shows "levels sl (endref l) ! i = hop i m"
proof (cases l rule: rev_cases)
  case Nil
  with assms show ?thesis by (simp add: levels_def list_inv_def)
next
  case (snoc u t)
  obtain a h where t: "t = (a, h)" by (cases t)
  have "node_ok sl (endref u) a h m" using assms(1) by (intro inv_node) (simp add: snoc t)
  with assms snoc t show ?thesis by (simp add: levels_def node_ok_def)
qed

lemma forward_at:
  "list_inv sl (l @ m) \<Longrightarrow> tall i l \<Longrightarrow> i < sl_level sl \<Longrightarrow> forward sl (endref l) i = fst (hop i m)"
  "list_inv sl (l @ m) \<Longrightarrow> tall i l \<Longrightarrow> i < sl_level sl \<Longrightarrow> span sl (endref l) i = snd (hop i m)"
  by (simp_all add: forward_def span_def level_at)

lemma heights_pos: "list_inv sl ts \<Longrightarrow> t \<in> set ts \<Longrightarrow> 0 < snd t \<and> snd t \<le> sl_level sl"
proof -
  assume inv: "list_inv sl ts" and "t \<in> set ts"
  then obtain us vs where "ts = us @ (fst t, snd t) # vs" by (auto dest: split_list)
  with inv inv_node [of sl us "fst t" "snd t" vs] show ?thesis by (simp add: node_ok_def)
qed

lemma low_top: "list_inv sl ts \<Longrightarrow> sl_level sl \<le> i \<Longrightarrow> low i ts"
  using heights_pos by (fastforce simp: low_def)

subsection \<open>Searches\<close>

lemma walk_spec:
  assumes "list_inv sl (l @ r @ vs)" "tall i l" "i < sl_level sl"
    and "\<forall>t\<in>set r. cond (fst t)" "\<forall>t\<in>set vs. \<not> cond (fst t)"
  shows "\<exists>l2 r2. r = l2 @ r2 \<and> tall i (l @ l2) \<and> low i r2 \<and>
    walk cond sl i (endref l) (int (length l)) = Some (endref (l @ l2), int (length (l @ l2)))"
  using assms
proof (induction "length r" arbitrary: l r rule: less_induct)
  case less
  note at = forward_at [OF less.prems(1,2,3)]
  show ?case
  proof (cases "low i r")
    case True
    have "walk cond sl i (endref l) (int (length l)) = Some (endref l, int (length l))"
    proof (cases "fst (hop i vs)")
      case None
      then show ?thesis by (subst walk.simps) (simp add: at hop_low [OF True])
    next
      case (Some b)
      then have "\<not> low i vs" using hop_low_end by fastforce
      then obtain r1 h r2 where "vs = r1 @ (b, h) # r2"
        using Some by (metis first_tall_split fst_conv hop_tall option.inject)
      then have "\<not> cond b" using less.prems(5) by simp
      with Some show ?thesis by (subst walk.simps) (simp add: at hop_low [OF True])
    qed
    with True less.prems(2) show ?thesis by (intro exI [of _ "[]"] exI [of _ r]) simp
  next
    case False
    then obtain r1 a h r2 where r: "r = r1 @ (a, h) # r2" and low: "low i r1" and h: "i < h"
      using first_tall_split by blast
    let ?l = "l @ r1 @ [(a, h)]"
    have hop: "hop i (r @ vs) = (Some a, int (length r1) + 1)"
      using hop_tall [OF low h, of a "r2 @ vs"] by (simp add: r)
    have tall': "tall i ?l" using h by (simp only: append_assoc [symmetric] tall_snoc)
    have end': "endref ?l = Some a" by (simp add: endref_append endref_def)
    have "\<exists>l2 r3. r2 = l2 @ r3 \<and> tall i (?l @ l2) \<and> low i r3 \<and>
        walk cond sl i (endref ?l) (int (length ?l)) = Some (endref (?l @ l2), int (length (?l @ l2)))"
      by (rule less.hyps) (use less.prems r tall' in auto)
    then obtain l2 r3 where IH: "r2 = l2 @ r3" "tall i (?l @ l2)" "low i r3"
      "walk cond sl i (Some a) (int (length ?l)) = Some (endref (?l @ l2), int (length (?l @ l2)))"
      by (auto simp: end')
    have len: "int (length l) + (int (length r1) + 1) = int (length ?l)" by simp
    have "cond a" using less.prems(4) r by simp
    then have "walk cond sl i (endref l) (int (length l)) = walk cond sl i (Some a) (int (length ?l))"
      by (subst walk.simps) (simp only: at hop fst_conv snd_conv option.case if_True len)
    with IH r show ?thesis
      by (intro exI [of _ "r1 @ (a, h) # l2"] exI [of _ r3]) simp
  qed
qed

text \<open>The node and rank that a search before \<open>vs\<close> records for level \<open>i\<close>.\<close>

definition upd_ok :: "nat \<Rightarrow> tower list \<Rightarrow> nat option \<times> int \<Rightarrow> bool" where
  "upd_ok i us z \<longleftrightarrow> (\<exists>l r. us = l @ r \<and> tall i l \<and> low i r \<and> z = (endref l, int (length l)))"

lemma walk_down_spec:
  assumes "list_inv sl (us @ vs)" "k \<le> sl_level sl" "us = l @ r" "0 < k \<longrightarrow> tall (k - 1) l"
    and "\<forall>t\<in>set us. cond (fst t)" "\<forall>t\<in>set vs. \<not> cond (fst t)"
  shows "\<exists>upd. walk_down cond sl k (endref l) (int (length l)) =
      Some (if k = 0 then (endref l, int (length l)) else upd ! 0, upd) \<and>
    length upd = k \<and> (\<forall>i<k. upd_ok i us (upd ! i))"
  using assms(2-4)
proof (induction k arbitrary: l r)
  case 0
  then show ?case by simp
next
  case (Suc k)
  have pre: "list_inv sl (l @ r @ vs)" "tall k l" "k < sl_level sl"
    "\<forall>t\<in>set r. cond (fst t)" "\<forall>t\<in>set vs. \<not> cond (fst t)"
    using assms(1,4-) Suc.prems by auto
  obtain l2 r2 where w: "r = l2 @ r2" "tall k (l @ l2)" "low k r2"
    "walk cond sl k (endref l) (int (length l)) = Some (endref (l @ l2), int (length (l @ l2)))"
    using walk_spec [OF pre] by blast
  have "0 < k \<longrightarrow> tall (k - 1) (l @ l2)" using w(2) tall_mono by fastforce
  then obtain upd where upd: "walk_down cond sl k (endref (l @ l2)) (int (length (l @ l2))) =
      Some (if k = 0 then (endref (l @ l2), int (length (l @ l2))) else upd ! 0, upd)"
    "length upd = k" "\<forall>i<k. upd_ok i us (upd ! i)"
    using Suc.IH [of "l @ l2" r2] Suc.prems w(1) by auto
  let ?z = "(endref (l @ l2), int (length (l @ l2)))"
  have "upd_ok k us ?z" unfolding upd_ok_def
    by (intro exI [of _ "l @ l2"] exI [of _ r2]) (use Suc.prems w in auto)
  with upd w show ?case
    by (intro exI [of _ "upd @ [?z]"]) (auto simp: nth_append less_Suc_eq)
qed

lemma search_spec:
  assumes inv: "list_inv sl (us @ vs)"
    and "\<forall>t\<in>set us. cond (fst t)" "\<forall>t\<in>set vs. \<not> cond (fst t)"
  shows "\<exists>upd. walk_down cond sl (sl_level sl) None 0 = Some ((endref us, int (length us)), upd) \<and>
    length upd = sl_level sl \<and> (\<forall>i < sl_level sl. upd_ok i us (upd ! i)) \<and> upd ! 0 = (endref us, int (length us))"
proof -
  have pos: "0 < sl_level sl" using inv by (simp add: list_inv_def)
  obtain upd where upd: "walk_down cond sl (sl_level sl) None 0 = Some (upd ! 0, upd)"
    "length upd = sl_level sl" "\<forall>i < sl_level sl. upd_ok i us (upd ! i)"
    using walk_down_spec [OF inv, of "sl_level sl" "[]" us cond] assms pos by auto
  then obtain l r where lr: "us = l @ r" "low 0 r" "upd ! 0 = (endref l, int (length l))"
    using pos by (auto simp: upd_ok_def)
  have "\<not> low 0 r" if "r \<noteq> []"
    using heights_pos [OF inv, of "hd r"] lr(1) that by (cases r) auto
  with lr have "upd ! 0 = (endref us, int (length us))" by (cases "r = []") auto
  with upd show ?thesis by simp
qed

end
