(* ===== verification/SkipListInsert.thy ===== *)
theory SkipListInsert
  imports SkipListInv
begin

section \<open>The skip list: insertion keeps the links\<close>

text \<open>
  Both updates run loops over the levels, and the step for level \<open>i\<close> writes level-\<open>i\<close> pointers
  only. \<open>frame\<close> is what such a step leaves alone and \<open>fold_levels\<close> sums a loop up.
\<close>

definition slot :: "('k, 'v) skip_list \<Rightarrow> nat option \<Rightarrow> nat \<Rightarrow> bool" where
  "slot s y j \<longleftrightarrow> (case y of None \<Rightarrow> True | Some b \<Rightarrow> b < length (sl_nodes s)) \<and> j < length (levels s y)"

definition frame_eq :: "('k, 'v) skip_list \<Rightarrow> ('k, 'v) skip_list \<Rightarrow> bool" where
  "frame_eq s t \<longleftrightarrow>
     length (sl_nodes t) = length (sl_nodes s) \<and> length (sl_header t) = length (sl_header s) \<and>
     sl_tail t = sl_tail s \<and> sl_length t = sl_length s \<and> sl_level t = sl_level s \<and>
     (\<forall>b < length (sl_nodes s). entry_at t b = entry_at s b \<and>
        sn_backward (sl_nodes t ! b) = sn_backward (sl_nodes s ! b) \<and>
        length (sn_level (sl_nodes t ! b)) = length (sn_level (sl_nodes s ! b)))"

lemma frame_eq_refl [simp]: "frame_eq s s"
  by (simp add: frame_eq_def)

lemma frame_eq_trans: "frame_eq s t \<Longrightarrow> frame_eq t u \<Longrightarrow> frame_eq s u"
  by (auto simp: frame_eq_def)

lemma frame_eq_slot: "frame_eq s t \<Longrightarrow> slot t y j \<longleftrightarrow> slot s y j"
  by (auto simp: frame_eq_def slot_def levels_def split: option.splits)

lemma set_level_frame: "slot s x i \<Longrightarrow> frame_eq s (set_level x i l s)"
  by (cases x) (auto simp: frame_eq_def slot_def set_level_def entry_at_def nth_list_update Let_def)

lemma set_level_levels:
  "slot s x i \<Longrightarrow> slot s y j \<Longrightarrow> levels (set_level x i l s) y ! j = (if y = x \<and> j = i then l else levels s y ! j)"
  by (cases x; cases y) (auto simp: slot_def set_level_def levels_def nth_list_update Let_def)

lemma forward_span: "(forward s y j, span s y j) = levels s y ! j"
  by (simp add: forward_def span_def)

lemma fold_levels:
  assumes step: "\<And>i t. m \<le> i \<Longrightarrow> i < n \<Longrightarrow> frame_eq s t \<Longrightarrow> (\<And>y. slot s y i \<Longrightarrow> levels t y ! i = levels s y ! i) \<Longrightarrow>
      frame_eq t (f i t) \<and> (\<forall>y j. slot s y j \<longrightarrow> levels (f i t) y ! j = (if j = i then G i y else levels t y ! j))"
  shows "frame_eq s (fold f [m..<n] s) \<and>
    (\<forall>y j. slot s y j \<longrightarrow> levels (fold f [m..<n] s) y ! j = (if m \<le> j \<and> j < n then G j y else levels s y ! j))"
  using step
proof (induction n)
  case 0
  then show ?case by simp
next
  case (Suc n)
  show ?case
  proof (cases "m \<le> n")
    case False
    then show ?thesis by auto
  next
    case True
    let ?t = "fold f [m..<n] s"
    have IH: "frame_eq s ?t"
      "\<And>y j. slot s y j \<Longrightarrow> levels ?t y ! j = (if m \<le> j \<and> j < n then G j y else levels s y ! j)"
      using Suc.IH Suc.prems by (simp_all add: less_Suc_eq)
    have "frame_eq ?t (f n ?t) \<and>
        (\<forall>y j. slot s y j \<longrightarrow> levels (f n ?t) y ! j = (if j = n then G n y else levels ?t y ! j))"
      by (rule Suc.prems) (use True IH in auto)
    with IH True show ?thesis
      by (auto intro: frame_eq_trans)
  qed
qed

subsection \<open>Which node \<open>update\<close> holds\<close>

lemma append_tall_low:
  assumes "l @ r = p @ w" "tall i l" "low i r" "tall i p" "low i w"
  shows "l = p"
proof -
  consider x where "l = p @ x" "w = x @ r" | x where "p = l @ x" "r = x @ w"
    using assms(1) by (auto simp: append_eq_append_conv2)
  then show ?thesis
  proof cases
    case 1
    then show ?thesis using assms(2,5) by (cases x rule: rev_cases) (auto simp: tall_def)
  next
    case 2
    then show ?thesis using assms(3,4) by (cases x rule: rev_cases) (auto simp: tall_def)
  qed
qed

lemma endref_inj: "distinct (map fst us) \<Longrightarrow> us = l @ r \<Longrightarrow> us = p @ w \<Longrightarrow> endref l = endref p \<Longrightarrow> l = p"
proof -
  assume d: "distinct (map fst us)" and l: "us = l @ r" and p: "us = p @ w" and e: "endref l = endref p"
  from l p consider x where "l = p @ x" "w = x @ r" | x where "p = l @ x" "r = x @ w"
    by (auto simp: append_eq_append_conv2)
  then show "l = p"
  proof cases
    case 1
    with d l e show ?thesis
      by (cases x rule: rev_cases; cases p rule: rev_cases) (auto simp: endref_def image_iff)
  next
    case 2
    with d p e show ?thesis
      by (cases x rule: rev_cases; cases l rule: rev_cases) (auto simp: endref_def image_iff)
  qed
qed

lemma upd_ok_endref:
  assumes "distinct (map fst us)" "us = p @ w" "tall i p" "upd_ok i us z"
  shows "fst z = endref p \<longleftrightarrow> low i w"
proof -
  obtain l r where lr: "us = l @ r" "tall i l" "low i r" "fst z = endref l"
    using assms(4) by (auto simp: upd_ok_def)
  show ?thesis
  proof
    assume "fst z = endref p"
    then have "l = p" using endref_inj [OF assms(1) lr(1) assms(2)] lr(4) by simp
    with lr assms(2) show "low i w" by simp
  next
    assume "low i w"
    then have "l = p" using append_tall_low [of l r p w i] lr assms by simp
    with lr show "fst z = endref p" by simp
  qed
qed

lemma upd_ok_low: "us = p @ w \<Longrightarrow> tall i p \<Longrightarrow> low i w \<Longrightarrow> upd_ok i us z \<Longrightarrow> z = (endref p, int (length p))"
  unfolding upd_ok_def using append_tall_low by metis

lemma upd_ok_mem: "upd_ok i us z \<Longrightarrow> fst z = Some b \<Longrightarrow> b \<in> fst ` set us"
  by (auto simp: upd_ok_def endref_def split: if_splits)

lemma slot_endref:
  assumes "list_inv s (l @ m)" "tall i l" "i < sl_level s"
  shows "slot s (endref l) i"
proof (cases l rule: rev_cases)
  case Nil
  with assms show ?thesis by (simp add: slot_def levels_def list_inv_def)
next
  case (snoc u t)
  obtain a h where t: "t = (a, h)" by (cases t)
  have "node_ok s (endref u) a h m" using assms(1) by (intro inv_node) (simp add: snoc t)
  with assms snoc t show ?thesis by (simp add: slot_def levels_def node_ok_def)
qed

lemma upd_slot: "list_inv s (us @ vs) \<Longrightarrow> i < sl_level s \<Longrightarrow> upd_ok i us z \<Longrightarrow> slot s (fst z) i"
  by (auto simp: upd_ok_def intro: slot_endref)

subsection \<open>Raising the level\<close>

lemma fold_header_nodes:
  "sl_nodes (fold (\<lambda>i t. set_level None i (F i t) t) is s) = sl_nodes s"
  by (induction "is" arbitrary: s) (simp_all add: set_level_def)

lemma raise_level_inv:
  assumes inv: "list_inv s (us @ vs)" and lvl: "lvl \<le> MAX_LEVEL"
    and upd: "length upd = sl_level s" "\<forall>i < sl_level s. upd_ok i us (upd ! i)"
    and r: "raise_level lvl (s, upd) = (s1, upd1)"
  shows "list_inv s1 (us @ vs) \<and> sl_level s1 = max (sl_level s) lvl \<and> sl_nodes s1 = sl_nodes s \<and>
    length upd1 = sl_level s1 \<and> (\<forall>i < sl_level s1. upd_ok i us (upd1 ! i)) \<and> upd1 ! 0 = upd ! 0"
proof (cases "lvl > sl_level s")
  case False
  with r upd inv show ?thesis by (simp add: raise_level_def max_def)
next
  case True
  let ?F = "\<lambda>i t. set_level None i (forward t None i, int (sl_length t)) t"
  let ?t = "fold ?F [sl_level s..<lvl] s"
  have s1: "s1 = ?t\<lparr>sl_level := lvl\<rparr>" "upd1 = upd @ replicate (lvl - sl_level s) (None, 0)"
    using r True by (simp_all add: raise_level_def Let_def)
  have hdr: "length (sl_header s) = MAX_LEVEL" using inv by (simp add: list_inv_def)
  have f: "frame_eq s ?t \<and> (\<forall>y j. slot s y j \<longrightarrow> levels ?t y ! j =
      (if sl_level s \<le> j \<and> j < lvl then (if y = None then (forward s None j, int (sl_length s)) else levels s y ! j)
       else levels s y ! j))"
  proof (rule fold_levels)
    fix i t
    assume i: "sl_level s \<le> i" "i < lvl" and fr: "frame_eq s t"
      and same: "\<And>y. slot s y i \<Longrightarrow> levels t y ! i = levels s y ! i"
    have slot: "slot s None i" using i lvl hdr by (simp add: slot_def levels_def)
    then have slot': "slot t None i" by (simp add: frame_eq_slot [OF fr])
    have "forward t None i = forward s None i" "sl_length t = sl_length s"
      using same [OF slot] fr by (simp_all add: forward_def frame_eq_def)
    then show "frame_eq t (?F i t) \<and> (\<forall>y j. slot s y j \<longrightarrow> levels (?F i t) y ! j =
        (if j = i then (if y = None then (forward s None i, int (sl_length s)) else levels s y ! i) else levels t y ! j))"
      using set_level_frame [OF slot'] set_level_levels [OF slot'] same by (auto simp: frame_eq_slot [OF fr])
  qed
  have nodes: "sl_nodes ?t = sl_nodes s" by (rule fold_header_nodes)
  have header: "sl_header ?t ! j = (if sl_level s \<le> j \<and> j < lvl then (forward s None j, int (sl_length s)) else sl_header s ! j)"
    if "j < MAX_LEVEL" for j
    using f that hdr by (auto simp: slot_def levels_def dest!: spec [of _ None])
  have low: "low j (us @ vs)" if "sl_level s \<le> j" for j by (rule low_top [OF inv that])
  have "list_inv s1 (us @ vs)"
    unfolding list_inv_def
  proof (intro conjI allI impI)
    show "sl_header s1 ! j = hop j (us @ vs)" if "j < sl_level s1" for j
      using that header [of j] inv lvl hop_low_end [OF low, of j]
      by (auto simp: s1 list_inv_def forward_def levels_def)
    show "fst (sl_header s1 ! j) = None" if "sl_level s1 \<le> j \<and> j < MAX_LEVEL" for j
      using that header [of j] inv True by (auto simp: s1 list_inv_def)
    have "node_ok s b a h v \<Longrightarrow> node_ok s1 b a h v" for b a h v
      using True by (auto simp: node_ok_def s1 nodes)
    then have "linked s b ts \<Longrightarrow> linked s1 b ts" for b ts
      by (induction s b ts rule: linked.induct) simp_all
    then show "linked s1 None (us @ vs)" using inv by (simp add: list_inv_def)
  qed (use inv lvl True f in \<open>auto simp: s1 list_inv_def frame_eq_def\<close>)
  moreover have "upd_ok i us (None, 0)" if "sl_level s \<le> i" for i
    unfolding upd_ok_def using low [OF that] by (intro exI [of _ "[]"] exI [of _ us]) simp
  moreover have "0 < sl_level s" using inv by (simp add: list_inv_def)
  ultimately show ?thesis
    using upd True by (auto simp: s1 nodes nth_append max_def)
qed

lemma random_level_bounds: "1 \<le> lvl \<Longrightarrow> lvl \<le> MAX_LEVEL \<Longrightarrow> 1 \<le> random_level draw lvl \<and> random_level draw lvl \<le> MAX_LEVEL"
proof (induction draw lvl rule: random_level.induct)
  case (1 draw lvl)
  then show ?case by (subst (1 2) random_level.simps) auto
qed

lemma randomLevel_bounds: "1 \<le> randomLevel draw" "randomLevel draw \<le> MAX_LEVEL"
  using random_level_bounds [of 1 draw] by (simp_all add: randomLevel_def MAX_LEVEL_def)

subsection \<open>Splicing the new node in\<close>

lemma set_backward_simps [simp]:
  "levels (set_backward a b s) y = levels s y" "entry_at (set_backward a b s) c = entry_at s c"
  "length (sl_nodes (set_backward a b s)) = length (sl_nodes s)" "sl_header (set_backward a b s) = sl_header s"
  "sl_tail (set_backward a b s) = sl_tail s" "sl_length (set_backward a b s) = sl_length s"
  "sl_level (set_backward a b s) = sl_level s"
  by (cases "a < length (sl_nodes s)"; cases y;
      auto simp: set_backward_def levels_def entry_at_def nth_list_update list_update_beyond)+

lemma sn_backward_set: "c < length (sl_nodes s) \<Longrightarrow>
   sn_backward (sl_nodes (set_backward a b s) ! c) = (if c = a then b else sn_backward (sl_nodes s ! c))"
  by (simp add: set_backward_def nth_list_update)

lemma forward_set_backward [simp]: "forward (set_backward a b s) y i = forward s y i"
  by (simp add: forward_def)

lemma new_node_simps [simp]:
  "sl_header (new_node k v lvl s) = sl_header s" "sl_tail (new_node k v lvl s) = sl_tail s"
  "sl_length (new_node k v lvl s) = sl_length s" "sl_level (new_node k v lvl s) = sl_level s"
  "length (sl_nodes (new_node k v lvl s)) = Suc (length (sl_nodes s))"
  by (simp_all add: new_node_def)

lemma slot_new_node:
  "slot (new_node k v lvl s) y j \<longleftrightarrow> (if y = Some (length (sl_nodes s)) then j < lvl else slot s y j)"
  by (cases y) (auto simp: slot_def new_node_def levels_def nth_append)

lemma slot_new_node_old: "slot s y j \<Longrightarrow> slot (new_node k v lvl s) y j"
  by (auto simp: slot_new_node) (auto simp: slot_def)

lemma levels_new_node: "slot s y j \<Longrightarrow> levels (new_node k v lvl s) y = levels s y"
  by (cases y) (auto simp: slot_def new_node_def levels_def nth_append)

lemma splice_levels:
  fixes key :: 'k and val :: 'v and s :: "('k, 'v) skip_list"
  assumes upd: "\<And>i. i < lvl \<Longrightarrow> slot s (fst (upd ! i)) i"
  defines "a \<equiv> length (sl_nodes s)" and "s0 \<equiv> new_node key val lvl s"
  shows "frame_eq s0 (fold (splice a upd) [0..<lvl] s0) \<and>
    (\<forall>y j. slot s0 y j \<longrightarrow> levels (fold (splice a upd) [0..<lvl] s0) y ! j =
      (if 0 \<le> j \<and> j < lvl then
         (if y = fst (upd ! j) then (Some a, snd (upd ! 0) - snd (upd ! j) + 1)
          else if y = Some a then
            (forward s (fst (upd ! j)) j, span s (fst (upd ! j)) j - (snd (upd ! 0) - snd (upd ! j)))
          else levels s0 y ! j)
       else levels s0 y ! j))"
proof (rule fold_levels)
  fix i t
  assume i: "i < lvl" and fr: "frame_eq s0 t" and same: "\<And>y. slot s0 y i \<Longrightarrow> levels t y ! i = levels s0 y ! i"
  let ?u = "fst (upd ! i)" and ?d = "snd (upd ! 0) - snd (upd ! i)"
  let ?t1 = "set_level (Some a) i (forward t ?u i, span t ?u i - ?d) t"
  have neq: "?u \<noteq> Some a" using upd [OF i] by (auto simp: slot_def a_def split: option.splits)
  then have slots: "slot s0 ?u i" "slot s0 (Some a) i" using upd [OF i] i by (simp_all add: s0_def slot_new_node a_def)
  then have slots_t: "slot t ?u i" "slot t (Some a) i" by (simp_all add: frame_eq_slot [OF fr])
  have old: "levels t ?u ! i = levels s ?u ! i"
    using same [OF slots(1)] levels_new_node [OF upd [OF i]] by (simp add: s0_def)
  have t1: "frame_eq t ?t1" by (rule set_level_frame [OF slots_t(2)])
  have sp: "splice a upd i t = set_level ?u i (Some a, ?d + 1) ?t1"
    by (simp add: splice_def Let_def split: prod.split)
  have slot_t1: "slot ?t1 ?u i" using slots_t(1) by (simp add: frame_eq_slot [OF t1])
  have fr1: "frame_eq t (splice a upd i t)"
    unfolding sp by (rule frame_eq_trans [OF t1 set_level_frame [OF slot_t1]])
  have read: "(forward t ?u i, span t ?u i - ?d) = (forward s ?u i, span s ?u i - ?d)"
    by (simp add: forward_def span_def old)
  have "levels (splice a upd i t) y ! j =
      (if y = ?u \<and> j = i then (Some a, ?d + 1)
       else if y = Some a \<and> j = i then (forward s ?u i, span s ?u i - ?d) else levels t y ! j)"
    if "slot s0 y j" for y j
  proof -
    have y: "slot t y j" "slot ?t1 y j" using that by (simp_all add: frame_eq_slot [OF fr] frame_eq_slot [OF t1])
    show ?thesis
      unfolding sp by (simp only: set_level_levels [OF slot_t1 y(2)] set_level_levels [OF slots_t(2) y(1)])
         (use read in simp)
  qed
  with fr1 same show "frame_eq t (splice a upd i t) \<and> (\<forall>y j. slot s0 y j \<longrightarrow> levels (splice a upd i t) y ! j =
      (if j = i then
         (if y = ?u then (Some a, snd (upd ! 0) - snd (upd ! i) + 1)
          else if y = Some a then (forward s ?u i, span s ?u i - ?d)
          else levels s0 y ! i)
       else levels t y ! j))"
    by auto
qed

lemma widen_levels:
  assumes upd: "\<And>i. m \<le> i \<Longrightarrow> i < n \<Longrightarrow> slot s (fst (upd ! i)) i"
  shows "frame_eq s (fold (widen upd) [m..<n] s) \<and>
    (\<forall>y j. slot s y j \<longrightarrow> levels (fold (widen upd) [m..<n] s) y ! j =
      (if m \<le> j \<and> j < n then
         (if y = fst (upd ! j) then (forward s y j, span s y j + 1) else levels s y ! j)
       else levels s y ! j))"
proof (rule fold_levels)
  fix i t
  assume i: "m \<le> i" "i < n" and fr: "frame_eq s t" and same: "\<And>y. slot s y i \<Longrightarrow> levels t y ! i = levels s y ! i"
  let ?u = "fst (upd ! i)"
  have slot_t: "slot t ?u i" using upd [OF i] by (simp add: frame_eq_slot [OF fr])
  show "frame_eq t (widen upd i t) \<and> (\<forall>y j. slot s y j \<longrightarrow> levels (widen upd i t) y ! j =
      (if j = i then (if y = ?u then (forward s y i, span s y i + 1) else levels s y ! i) else levels t y ! j))"
    using set_level_frame [OF slot_t] set_level_levels [OF slot_t] same
    by (auto simp: widen_def Let_def frame_eq_slot [OF fr] forward_def span_def)
qed

text \<open>The state after both loops, with the new node before \<open>vs\<close>.\<close>

definition spliced :: "'k \<Rightarrow> 'v \<Rightarrow> nat \<Rightarrow> (nat option \<times> int) list \<Rightarrow> ('k, 'v) skip_list \<Rightarrow> ('k, 'v) skip_list" where
  "spliced key val lvl upd s =
     (let s2 = fold (splice (length (sl_nodes s)) upd) [0..<lvl] (new_node key val lvl s)
      in fold (widen upd) [lvl..<sl_level s2] s2)"

lemma spliced_frame_levels:
  fixes key :: 'k and val :: 'v and s :: "('k, 'v) skip_list"
  assumes inv: "list_inv s (us @ vs)" and lvl: "lvl \<le> sl_level s"
    and upd: "\<forall>i < sl_level s. upd_ok i us (upd ! i)"
  defines "a \<equiv> length (sl_nodes s)" and "s0 \<equiv> new_node key val lvl s" and "s3 \<equiv> spliced key val lvl upd s"
  shows "frame_eq s0 s3"
    and "slot s0 y j \<Longrightarrow> j < sl_level s \<Longrightarrow> levels s3 y ! j =
      (if y = fst (upd ! j) then
         (if j < lvl then (Some a, snd (upd ! 0) - snd (upd ! j) + 1) else (forward s y j, span s y j + 1))
       else if y = Some a then
         (forward s (fst (upd ! j)) j, span s (fst (upd ! j)) j - (snd (upd ! 0) - snd (upd ! j)))
       else levels s y ! j)"
    and "slot s y i \<Longrightarrow> sl_level s \<le> i \<Longrightarrow> levels s3 y ! i = levels s y ! i"
proof -
  have slots: "slot s (fst (upd ! i)) i" if "i < sl_level s" for i
    using upd_slot [OF inv that] upd that by blast
  define s2 where "s2 = fold (splice a upd) [0..<lvl] s0"
  have s2: "frame_eq s0 s2"
    "slot s0 y j \<Longrightarrow> levels s2 y ! j =
      (if j < lvl then
         (if y = fst (upd ! j) then (Some a, snd (upd ! 0) - snd (upd ! j) + 1)
          else if y = Some a then
            (forward s (fst (upd ! j)) j, span s (fst (upd ! j)) j - (snd (upd ! 0) - snd (upd ! j)))
          else levels s0 y ! j)
       else levels s0 y ! j)" for y j
    using splice_levels [of lvl s upd key val] slots lvl by (simp_all add: s2_def s0_def a_def)
  have lev: "sl_level s2 = sl_level s" using s2(1) by (simp add: frame_eq_def s0_def)
  have slot0: "slot s y j \<Longrightarrow> slot s0 y j \<and> levels s0 y = levels s y" for y j
    using levels_new_node [of s y j key val lvl] slot_new_node [of key val lvl s y j]
    by (auto simp: s0_def slot_def [of s])
  have slot2: "slot s2 (fst (upd ! i)) i" if "i < sl_level s" for i
    using slot0 [OF slots [OF that]] by (simp add: frame_eq_slot [OF s2(1)])
  have s3: "s3 = fold (widen upd) [lvl..<sl_level s] s2"
    by (simp add: s3_def spliced_def Let_def s2_def [symmetric] a_def [symmetric] s0_def [symmetric] lev)
  have w: "frame_eq s2 s3"
    "slot s2 y j \<Longrightarrow> levels s3 y ! j =
      (if lvl \<le> j \<and> j < sl_level s then
         (if y = fst (upd ! j) then (forward s2 y j, span s2 y j + 1) else levels s2 y ! j)
       else levels s2 y ! j)" for y j
    using widen_levels [of lvl "sl_level s" s2 upd] slot2 by (auto simp: s3)
  show "frame_eq s0 s3" by (rule frame_eq_trans [OF s2(1) w(1)])
  show "slot s y i \<Longrightarrow> sl_level s \<le> i \<Longrightarrow> levels s3 y ! i = levels s y ! i"
    using w(2) [of y i] s2(2) [of y i] slot0 [of y i] lvl by (simp add: frame_eq_slot [OF s2(1)])
  assume y: "slot s0 y j" and j: "j < sl_level s"
  have neq: "fst (upd ! j) \<noteq> Some a" using slots [OF j] by (auto simp: slot_def a_def split: option.splits)
  have same: "levels s0 y ! j = levels s y ! j" if "y \<noteq> Some a"
    using y that slot0 [of y j] by (simp add: s0_def slot_new_node a_def)
  show "levels s3 y ! j =
      (if y = fst (upd ! j) then
         (if j < lvl then (Some a, snd (upd ! 0) - snd (upd ! j) + 1) else (forward s y j, span s y j + 1))
       else if y = Some a then
         (forward s (fst (upd ! j)) j, span s (fst (upd ! j)) j - (snd (upd ! 0) - snd (upd ! j)))
       else levels s y ! j)"
  proof (cases "y = Some a")
    case True
    with y have "j < lvl" by (simp add: s0_def slot_new_node a_def)
    with True neq y show ?thesis by (simp add: w(2) [unfolded frame_eq_slot [OF s2(1)]] s2(2))
  next
    case False
    with same y j show ?thesis
      by (auto simp: w(2) [unfolded frame_eq_slot [OF s2(1)]] s2(2) forward_def span_def)
  qed
qed

lemma spliced_hops:
  fixes key :: 'k and val :: 'v and s :: "('k, 'v) skip_list"
  assumes inv: "list_inv s (us @ vs)" and lvl: "lvl \<le> sl_level s"
    and upd: "\<forall>i < sl_level s. upd_ok i us (upd ! i)" "upd ! 0 = (endref us, int (length us))"
  defines "a \<equiv> length (sl_nodes s)" and "s3 \<equiv> spliced key val lvl upd s"
  shows "us = p @ w \<Longrightarrow> tall j p \<Longrightarrow> j < sl_level s \<Longrightarrow> levels s3 (endref p) ! j = hop j (w @ (a, lvl) # vs)"
    and "j < lvl \<Longrightarrow> levels s3 (Some a) ! j = hop j vs"
    and "vs = w1 @ (b, h) # w2 \<Longrightarrow> j < h \<Longrightarrow> levels s3 (Some b) ! j = hop j w2"
proof -
  note lev = spliced_frame_levels(2) [OF inv lvl upd(1), where key = key and val = val, folded a_def s3_def]
  have dist: "distinct (map fst us)" "distinct (map fst (us @ vs))" using inv by (simp_all add: list_inv_def)
  have old: "c \<noteq> a" if mem: "(c, h) \<in> set (us @ vs)" for c h
  proof -
    obtain x z where "us @ vs = x @ (c, h) # z" using split_list [OF mem] by blast
    with inv inv_node [of s x c h z] show ?thesis by (simp add: node_ok_def a_def)
  qed
  { assume p: "us = p @ w" "tall j p" and j: "j < sl_level s"
    have inv': "list_inv s (p @ w @ vs)" using inv p by simp
    have slot: "slot s (endref p) j" by (rule slot_endref [OF inv' p(2) j])
    then have slot0: "slot (new_node key val lvl s) (endref p) j"
      by (rule slot_new_node_old)
    have neq: "endref p \<noteq> Some a" using slot by (auto simp: slot_def a_def split: option.splits)
    have at: "levels s (endref p) ! j = hop j (w @ vs)" by (rule level_at [OF inv' p(2) j])
    show "levels s3 (endref p) ! j = hop j (w @ (a, lvl) # vs)"
    proof (cases "low j w")
      case True
      have z: "upd ! j = (endref p, int (length p))" using upd_ok_low [OF p True] upd(1) j by blast
      show ?thesis
        using lev [OF slot0 j] at p(1)
        by (auto simp: z upd(2) forward_def span_def hop_low [OF True])
    next
      case False
      then have "endref p \<noteq> fst (upd ! j)" using upd_ok_endref [OF dist(1) p] upd(1) j by metis
      then show ?thesis using lev [OF slot0 j] neq at hop_stop [OF False, of "(a, lvl) # vs" vs] by simp
    qed }
  { assume j: "j < lvl"
    then have jL: "j < sl_level s" using lvl by simp
    have slot0: "slot (new_node key val lvl s) (Some a) j" using j by (simp add: slot_new_node a_def)
    obtain l r where lr: "us = l @ r" "tall j l" "low j r" "upd ! j = (endref l, int (length l))"
      using upd(1) jL by (auto simp: upd_ok_def)
    have inv': "list_inv s (l @ r @ vs)" using inv lr by simp
    have "slot s (endref l) j" by (rule slot_endref [OF inv' lr(2) jL])
    then have neq: "endref l \<noteq> Some a" by (auto simp: slot_def a_def split: option.splits)
    have "levels s (endref l) ! j = hop j (r @ vs)" by (rule level_at [OF inv' lr(2) jL])
    then show "levels s3 (Some a) ! j = hop j vs"
      using lev [OF slot0 jL] neq lr by (simp add: upd(2) forward_def span_def hop_low prod_eq_iff) }
  { assume v: "vs = w1 @ (b, h) # w2" and j: "j < h"
    have ok: "node_ok s (endref (us @ w1)) b h w2" by (rule inv_node) (use inv v in simp)
    then have jL: "j < sl_level s" using j by (simp add: node_ok_def)
    have b: "b \<noteq> a" using old [of b h] v by simp
    have slot0: "slot (new_node key val lvl s) (Some b) j"
      by (rule slot_new_node_old) (use ok j in \<open>simp add: slot_def levels_def node_ok_def\<close>)
    have "fst (upd ! j) \<noteq> Some b"
      using upd_ok_mem [of j us "upd ! j" b] upd(1) jL dist(2) v by auto
    then show "levels s3 (Some b) ! j = hop j w2"
      using lev [OF slot0 jL] b ok j by (auto simp: node_ok_def levels_def) }
qed

subsection \<open>The invariant after an insertion\<close>

lemma split_at_new:
  assumes "us @ n # vs = u @ t # v"
  obtains w where "us = u @ t # w" "v = w @ n # vs"
  | "u = us" "t = n" "v = vs"
  | w where "vs = w @ t # v" "u = us @ n # w"
  using assms by (auto simp: append_eq_append_conv2 append_eq_Cons_conv Cons_eq_append_conv)

lemma field_update_simps [simp]:
  "levels (s\<lparr>sl_tail := b\<rparr>) y = levels s y" "entry_at (s\<lparr>sl_tail := b\<rparr>) c = entry_at s c"
  "levels (s\<lparr>sl_length := n\<rparr>) y = levels s y" "entry_at (s\<lparr>sl_length := n\<rparr>) c = entry_at s c"
  "levels (s\<lparr>sl_level := n\<rparr>) y = levels s y" "entry_at (s\<lparr>sl_level := n\<rparr>) c = entry_at s c"
  by (simp_all add: levels_def entry_at_def split: option.splits)

lemma link_back_simps [simp]:
  "levels (link_back a u s) y = levels s y" "entry_at (link_back a u s) c = entry_at s c"
  "length (sl_nodes (link_back a u s)) = length (sl_nodes s)" "sl_header (link_back a u s) = sl_header s"
  "sl_length (link_back a u s) = sl_length s" "sl_level (link_back a u s) = sl_level s"
  by (simp_all add: link_back_def Let_def split: option.splits)

lemma link_back_backward:
  assumes "a < length (sl_nodes s)" "c < length (sl_nodes s)"
  shows "sn_backward (sl_nodes (link_back a u s) ! c) =
    (if forward s (Some a) 0 = Some c then Some a else if c = a then u else sn_backward (sl_nodes s ! c))"
    and "sl_tail (link_back a u s) = (if forward s (Some a) 0 = None then Some a else sl_tail s)"
  using assms by (auto simp: link_back_def Let_def sn_backward_set split: option.splits)

lemma inserted_inv:
  fixes key :: 'k and val :: 'v and s :: "('k, 'v) skip_list"
  assumes inv: "list_inv s (us @ vs)" and lvl: "0 < lvl" "lvl \<le> sl_level s"
    and upd: "\<forall>i < sl_level s. upd_ok i us (upd ! i)" "upd ! 0 = (endref us, int (length us))"
  defines "a \<equiv> length (sl_nodes s)"
  defines "s5 \<equiv> (let s4 = link_back a (fst (upd ! 0)) (spliced key val lvl upd s) in s4\<lparr>sl_length := sl_length s4 + 1\<rparr>)"
  shows "list_inv s5 (us @ (a, lvl) # vs)" "entry_at s5 a = (key, val)"
    "b < a \<Longrightarrow> entry_at s5 b = entry_at s b" "length (sl_nodes s5) = Suc a"
proof -
  let ?s0 = "new_node key val lvl s" and ?s3 = "spliced key val lvl upd s" and ?ts = "us @ (a, lvl) # vs"
  note hops = spliced_hops [OF inv lvl(2) upd, where key = key and val = val, folded a_def]
  note fr = spliced_frame_levels(1) [OF inv lvl(2) upd(1), where key = key and val = val]
  have len: "length (sl_nodes ?s3) = Suc a" using fr by (simp add: frame_eq_def a_def)
  have len5: "length (sl_nodes s5) = Suc a" by (simp add: s5_def Let_def len)
  have old: "sl_nodes ?s0 ! b = sl_nodes s ! b" if "b < a" for b
    using that by (simp add: new_node_def nth_append a_def)
  have new: "sl_nodes ?s0 ! a = \<lparr>sn_key = key, sn_val = val, sn_backward = None, sn_level = replicate lvl (None, 0)\<rparr>"
    by (simp add: new_node_def nth_append a_def)
  have lev5: "levels s5 y = levels ?s3 y" for y by (simp add: s5_def Let_def)
  have fields: "entry_at s5 c = entry_at ?s0 c"
    "length (levels s5 (Some c)) = length (sn_level (sl_nodes ?s0 ! c))" if "c < Suc a" for c
    using fr that unfolding lev5 by (simp_all add: s5_def Let_def levels_def frame_eq_def a_def)
  show "entry_at s5 a = (key, val)" using fields(1) [of a] new by (simp add: entry_at_def)
  show "b < a \<Longrightarrow> entry_at s5 b = entry_at s b" using fields(1) [of b] old [of b] by (simp add: entry_at_def)
  show "length (sl_nodes s5) = Suc a" by (rule len5)
  have f0: "forward ?s3 (Some a) 0 = (case vs of [] \<Rightarrow> None | t # _ \<Rightarrow> Some (fst t))"
    using hops(2) [OF lvl(1)] heights_pos [OF inv, of "hd vs"] by (cases vs) (auto simp: forward_def)
  have bwd: "sn_backward (sl_nodes s5 ! c) =
      (if forward ?s3 (Some a) 0 = Some c then Some a else if c = a then endref us else sn_backward (sl_nodes ?s0 ! c))"
    if "c < Suc a" for c
    using link_back_backward(1) [of a ?s3 c "endref us"] that fr len
    by (simp add: s5_def Let_def upd(2) frame_eq_def a_def)
  have tail: "sl_tail s5 = (if vs = [] then Some a else sl_tail s)"
    using link_back_backward(2) [of a ?s3 a "endref us"] len fr f0
    by (simp add: s5_def Let_def upd(2) frame_eq_def a_def split: list.splits)
  have fresh: "b < a" if mem: "(b, h) \<in> set (us @ vs)" for b h
    using split_list [OF mem] inv_node [of s _ b h] inv by (auto simp: node_ok_def a_def)
  have dist: "distinct (map fst (us @ vs))" using inv by (simp add: list_inv_def)
  have lev: "sl_level s5 = sl_level s" "sl_header s5 = sl_header ?s3" "sl_length s5 = Suc (sl_length s)"
    using fr by (simp_all add: s5_def Let_def frame_eq_def)
  have "linked s5 None ?ts"
  proof (rule linkedI)
    fix u b h v assume "?ts = u @ (b, h) # v"
    then have "node_ok s5 (endref u) b h v"
    proof (cases rule: split_at_new)
      case (1 w)
      have ok: "node_ok s (endref u) b h (w @ vs)" by (rule inv_node) (use inv 1 in simp)
      have b: "b < a" using fresh [of b h] 1 by simp
      have "forward ?s3 (Some a) 0 \<noteq> Some b" using dist 1 by (auto simp: f0 split: list.splits)
      moreover have "levels s5 (Some b) ! i = hop i v" if "i < h" for i
        using hops(1) [of "u @ [(b, h)]" w i] 1 that ok b by (simp add: lev5 node_ok_def)
      ultimately show ?thesis
        using ok b bwd [of b] fields(2) [of b] len5 lev old [of b] by (simp add: node_ok_def levels_def)
    next
      case 2
      then have b: "b = a" "h = lvl" by simp_all
      have "forward ?s3 (Some a) 0 \<noteq> Some a"
        using fresh [of a "snd (hd vs)"] by (cases vs) (auto simp: f0)
      with 2 b show ?thesis
        using bwd [of a] fields(2) [of a] lev5 [of "Some a"] len5 lev new lvl hops(2)
        by (simp add: node_ok_def levels_def)
    next
      case (3 w)
      have ok: "node_ok s (endref (us @ w)) b h v" by (rule inv_node) (use inv 3 in simp)
      have b: "b < a" using fresh [of b h] 3 by simp
      have "(forward ?s3 (Some a) 0 = Some b) = (w = [])" using dist 3 by (cases w) (auto simp: f0)
      moreover have "endref u = (if w = [] then Some a else endref w)" using 3 by (simp add: endref_def)
      ultimately show ?thesis
        using ok b bwd [of b] fields(2) [of b] lev5 [of "Some b"] len5 lev old [of b] hops(3) [OF 3(1)]
        by (simp add: node_ok_def levels_def endref_append)
    qed
    then show "node_ok s5 (if u = [] then None else endref u) b h v" by (cases "u = []") simp_all
  qed
  moreover have "sl_header s5 ! j = hop j ?ts" if "j < sl_level s5" for j
    using hops(1) [of "[]" us j] that by (simp add: lev levels_def)
  moreover have "fst (sl_header s5 ! j) = None" if "sl_level s5 \<le> j" "j < MAX_LEVEL" for j
    using spliced_frame_levels(3) [OF inv lvl(2) upd(1), of None j key val] that inv lev
    by (simp add: slot_def levels_def list_inv_def)
  moreover have "distinct (map fst ?ts)" using dist fresh by fastforce
  moreover have "sl_tail s5 = endref ?ts" using tail inv by (simp add: list_inv_def endref_def)
  moreover have "length (sl_header s5) = MAX_LEVEL" using fr inv lev by (simp add: frame_eq_def list_inv_def)
  ultimately show "list_inv s5 ?ts" using inv lev by (simp add: list_inv_def)
qed

end
