(* ===== verification/SkipListDelete.thy ===== *)
theory SkipListDelete
  imports SkipListInsert
begin

section \<open>The skip list: deletion keeps the links\<close>

text \<open>
  Unlinking a node level by level takes its span into that of its predecessors; the result is the list of the
  remaining nodes, with its back links and its level.
\<close>

lemma unspliced_levels:
  assumes inv: "list_inv s (us @ (x, k) # vs)" and upd: "\<forall>i < sl_level s. upd_ok i us (upd ! i)"
  defines "s' \<equiv> fold (unsplice x upd) [0..<sl_level s] s"
  shows "frame_eq s s' \<and> (\<forall>y j. slot s y j \<longrightarrow> levels s' y ! j =
    (if 0 \<le> j \<and> j < sl_level s then
       (if y = fst (upd ! j) then
          (if forward s y j = Some x then (forward s (Some x) j, span s y j + (span s (Some x) j - 1))
           else (forward s y j, span s y j - 1))
        else levels s y ! j)
     else levels s y ! j))"
  unfolding s'_def
proof (rule fold_levels)
  fix i t
  assume i: "i < sl_level s" and fr: "frame_eq s t" and same: "\<And>y. slot s y i \<Longrightarrow> levels t y ! i = levels s y ! i"
  let ?u = "fst (upd ! i)"
  have slot: "slot s ?u i" using upd_slot [OF inv i] upd i by blast
  then have slot_t: "slot t ?u i" by (simp add: frame_eq_slot [OF fr])
  obtain l r where lr: "us = l @ r" "tall i l" "low i r" "?u = endref l"
    using upd i by (auto simp: upd_ok_def)
  have inv': "list_inv s (l @ r @ (x, k) # vs)" using inv lr by simp
  have u: "forward s ?u i = fst (hop i (r @ (x, k) # vs))"
    using forward_at(1) [OF inv' lr(2) i] lr(4) by simp
  have x: "levels t (Some x) ! i = levels s (Some x) ! i" if "forward s ?u i = Some x"
  proof (rule same)
    have ok: "node_ok s (endref us) x k vs" by (rule inv_node [OF inv])
    have "i < k"
    proof (rule ccontr)
      assume "\<not> i < k"
      then have "fst (hop i vs) = Some x" using that u lr(3) by (simp add: hop_low)
      then have "\<not> low i vs" using hop_low_end by fastforce
      then obtain r1 b h r2 where vs: "vs = r1 @ (b, h) # r2" "low i r1" "i < h" using first_tall_split by blast
      then have "b = x" using \<open>fst (hop i vs) = Some x\<close> by (simp add: hop_tall)
      with vs inv show False by (simp add: list_inv_def)
    qed
    with ok show "slot s (Some x) i" by (simp add: slot_def node_ok_def levels_def)
  qed
  show "frame_eq t (unsplice x upd i t) \<and> (\<forall>y j. slot s y j \<longrightarrow> levels (unsplice x upd i t) y ! j =
      (if j = i then
         (if y = ?u then
            (if forward s y i = Some x then (forward s (Some x) i, span s y i + (span s (Some x) i - 1))
             else (forward s y i, span s y i - 1))
          else levels s y ! i)
       else levels t y ! j))"
    using set_level_frame [OF slot_t] set_level_levels [OF slot_t] same [OF slot] x same
    by (auto simp: unsplice_def Let_def frame_eq_slot [OF fr] forward_def span_def)
qed

lemma unspliced_hops:
  assumes inv: "list_inv s (us @ (x, k) # vs)" and upd: "\<forall>i < sl_level s. upd_ok i us (upd ! i)"
  defines "s' \<equiv> fold (unsplice x upd) [0..<sl_level s] s"
  shows "us = p @ w \<Longrightarrow> tall j p \<Longrightarrow> j < sl_level s \<Longrightarrow> levels s' (endref p) ! j = hop j (w @ vs)"
    and "j < k \<Longrightarrow> levels s' (Some x) ! j = hop j vs"
    and "vs = w1 @ (b, h) # w2 \<Longrightarrow> j < h \<Longrightarrow> levels s' (Some b) ! j = hop j w2"
proof -
  note lev = unspliced_levels [OF inv upd, folded s'_def, THEN conjunct2, rule_format]
  have dist: "distinct (map fst us)" "distinct (map fst (us @ (x, k) # vs))" using inv by (simp_all add: list_inv_def)
  have okx: "node_ok s (endref us) x k vs" by (rule inv_node [OF inv])
  { assume p: "us = p @ w" "tall j p" and j: "j < sl_level s"
    have inv': "list_inv s (p @ w @ (x, k) # vs)" using inv p by simp
    have slot: "slot s (endref p) j" by (rule slot_endref [OF inv' p(2) j])
    have at: "levels s (endref p) ! j = hop j (w @ (x, k) # vs)" by (rule level_at [OF inv' p(2) j])
    show "levels s' (endref p) ! j = hop j (w @ vs)"
    proof (cases "low j w")
      case True
      have z: "upd ! j = (endref p, int (length p))" using upd_ok_low [OF p True] upd j by blast
      have vs: "fst (hop j vs) \<noteq> Some x"
      proof
        assume x: "fst (hop j vs) = Some x"
        then have "\<not> low j vs" using hop_low_end by fastforce
        then obtain r1 b h r2 where "vs = r1 @ (b, h) # r2" "low j r1" "j < h" using first_tall_split by blast
        with x dist show False by (simp add: hop_tall)
      qed
      have "levels s (Some x) ! j = hop j vs" if "j < k" using okx that by (simp add: node_ok_def levels_def)
      then show ?thesis
        using lev [OF slot] j at vs True by (simp add: z forward_def span_def hop_low)
    next
      case False
      then have "endref p \<noteq> fst (upd ! j)" using upd_ok_endref [OF dist(1) p] upd j by metis
      then show ?thesis using lev [OF slot] at j hop_stop [OF False, of "(x, k) # vs" vs] by simp
    qed }
  have other: "levels s' (Some b) ! j = levels s (Some b) ! j" if "slot s (Some b) j" "b \<notin> fst ` set us" for b j
    using lev [OF that(1)] upd_ok_mem [of j us "upd ! j" b] upd that(2) by force
  show "levels s' (Some x) ! j = hop j vs" if j: "j < k"
    using other [of x j] okx j dist by (simp add: slot_def node_ok_def levels_def image_iff)
  show "levels s' (Some b) ! j = hop j w2" if v: "vs = w1 @ (b, h) # w2" and j: "j < h"
  proof -
    have ok: "node_ok s (endref (us @ (x, k) # w1)) b h w2" by (rule inv_node) (use inv v in simp)
    have "b \<notin> fst ` set us" using dist v by auto
    with ok j other [of b j] show ?thesis by (simp add: slot_def node_ok_def levels_def)
  qed
qed

subsection \<open>The invariant after a deletion\<close>

lemma trim_level_inv:
  "list_inv (s\<lparr>sl_level := lvl\<rparr>) ts \<Longrightarrow> list_inv (s\<lparr>sl_level := trim_level s lvl\<rparr>) ts"
proof (induction s lvl rule: trim_level.induct)
  case (1 s lvl)
  show ?case
  proof (cases "lvl > 1 \<and> forward s None (lvl - 1) = None")
    case False
    then have "trim_level s lvl = lvl" by (subst trim_level.simps) auto
    with 1(2) show ?thesis by simp
  next
    case True
    let ?s = "s\<lparr>sl_level := lvl\<rparr>" and ?t = "s\<lparr>sl_level := lvl - 1\<rparr>"
    have top: "fst (sl_header s ! (lvl - 1)) = None" using True by (simp add: forward_def levels_def)
    have "fst (hop (lvl - 1) ts) = None" using 1(2) True top by (simp add: list_inv_def)
    then have low: "low (lvl - 1) ts" using first_tall_split hop_tall by (metis fst_conv option.distinct(1))
    have h: "node_ok ?t b a h v" if "node_ok ?s b a h v" "(a, h) \<in> set ts" for a b h v
      using that low by (auto simp: node_ok_def low_def)
    have "linked ?t None ts"
    proof (rule linkedI)
      fix u a h v assume ts: "ts = u @ (a, h) # v"
      then have "node_ok ?s (if u = [] then None else endref u) a h v"
        using 1(2) by (intro linked_append) (simp add: list_inv_def)
      then show "node_ok ?t (if u = [] then None else endref u) a h v" by (rule h) (simp add: ts)
    qed
    moreover have "fst (sl_header s ! i) = None" if "lvl - 1 \<le> i" "i < MAX_LEVEL" for i
    proof (cases "i = lvl - 1")
      case False
      with that have "lvl \<le> i" by simp
      with that 1(2) show ?thesis by (simp add: list_inv_def)
    next
      case True
      then show ?thesis using top by (simp only:)
    qed
    moreover have "1 \<le> lvl - 1" "lvl - 1 \<le> MAX_LEVEL" using 1(2) True by (auto simp: list_inv_def)
    ultimately have "list_inv ?t ts" using 1(2) by (simp add: list_inv_def)
    moreover have "trim_level s lvl = trim_level s (lvl - 1)" using True by (subst trim_level.simps) simp
    ultimately show ?thesis using 1(1) True by simp
  qed
qed

lemma unlink_back_simps [simp]:
  "levels (unlink_back x s) y = levels s y" "entry_at (unlink_back x s) c = entry_at s c"
  "length (sl_nodes (unlink_back x s)) = length (sl_nodes s)" "sl_header (unlink_back x s) = sl_header s"
  "sl_length (unlink_back x s) = sl_length s" "sl_level (unlink_back x s) = sl_level s"
  by (simp_all add: unlink_back_def split: option.splits)

lemma unlink_back_backward:
  assumes "c < length (sl_nodes s)"
  shows "sn_backward (sl_nodes (unlink_back x s) ! c) =
    (if forward s (Some x) 0 = Some c then sn_backward (sl_nodes s ! x) else sn_backward (sl_nodes s ! c))"
    and "sl_tail (unlink_back x s) = (if forward s (Some x) 0 = None then sn_backward (sl_nodes s ! x) else sl_tail s)"
  using assms by (auto simp: unlink_back_def sn_backward_set split: option.splits)

lemma deleted_inv:
  assumes inv: "list_inv s (us @ (x, k) # vs)" and upd: "\<forall>i < sl_level s. upd_ok i us (upd ! i)"
  shows "list_inv (deleteNode x upd s) (us @ vs)" "b < length (sl_nodes s) \<Longrightarrow> entry_at (deleteNode x upd s) b = entry_at s b"
    "length (sl_nodes (deleteNode x upd s)) = length (sl_nodes s)"
proof -
  let ?s1 = "fold (unsplice x upd) [0..<sl_level s] s"
  let ?s2 = "unlink_back x ?s1"
  let ?s3 = "?s2\<lparr>sl_length := sl_length ?s2 - 1\<rparr>"
  note hops = unspliced_hops [OF inv upd]
  have fr: "frame_eq s ?s1" using unspliced_levels [OF inv upd] by blast
  have okx: "node_ok s (endref us) x k vs" by (rule inv_node [OF inv])
  have dist: "distinct (map fst (us @ (x, k) # vs))" using inv by (simp add: list_inv_def)
  have f0: "forward ?s1 (Some x) 0 = (case vs of [] \<Rightarrow> None | t # _ \<Rightarrow> Some (fst t))"
    using hops(2) [of 0] okx heights_pos [OF inv, of "hd vs"] by (cases vs) (auto simp: forward_def node_ok_def)
  have bx: "sn_backward (sl_nodes ?s1 ! x) = endref us" using okx fr by (simp add: node_ok_def frame_eq_def)
  have bwd: "sn_backward (sl_nodes ?s3 ! c) =
      (if forward ?s1 (Some x) 0 = Some c then endref us else sn_backward (sl_nodes s ! c))" if "c < length (sl_nodes s)" for c
    using unlink_back_backward(1) [of c ?s1 x] that fr bx by (simp add: frame_eq_def)
  have lens: "length (sl_nodes ?s3) = length (sl_nodes s)" "length (sl_header ?s3) = length (sl_header s)"
    "sl_level ?s3 = sl_level s" "sl_length ?s3 = sl_length s - 1"
    using fr by (simp_all add: frame_eq_def)
  have lev3: "levels ?s3 y = levels ?s1 y" for y by simp
  have hts: "length (levels ?s1 (Some c)) = length (sn_level (sl_nodes s ! c))" if "c < length (sl_nodes s)" for c
    using that fr by (simp add: frame_eq_def levels_def)
  have "linked ?s3 None (us @ vs)"
  proof (rule linkedI)
    fix u b h v assume ts: "us @ vs = u @ (b, h) # v"
    have "node_ok ?s3 (endref u) b h v"
    proof (cases "length u < length us")
      case True
      then obtain w where w: "us = u @ (b, h) # w" "v = w @ vs"
        using ts by (auto simp: append_eq_append_conv2 append_eq_Cons_conv Cons_eq_append_conv)
      have ok: "node_ok s (endref u) b h (w @ (x, k) # vs)" by (rule inv_node) (use inv w in simp)
      have "forward ?s1 (Some x) 0 \<noteq> Some b" using dist w by (auto simp: f0 split: list.splits)
      moreover have "levels ?s1 (Some b) ! i = hop i v" if "i < h" for i
        using hops(1) [of "u @ [(b, h)]" w i] w that ok by (simp add: node_ok_def)
      ultimately show ?thesis
        using ok bwd [of b] hts [of b] lens lev3 [of "Some b"] by (simp add: node_ok_def levels_def)
    next
      case False
      then obtain w where w: "vs = w @ (b, h) # v" "u = us @ w"
        using ts by (auto simp: append_eq_append_conv2 append_eq_Cons_conv Cons_eq_append_conv)
      have ok: "node_ok s (endref (us @ (x, k) # w)) b h v" by (rule inv_node) (use inv w in simp)
      have "(forward ?s1 (Some x) 0 = Some b) = (w = [])" using dist w by (cases w) (auto simp: f0)
      moreover have "w \<noteq> [] \<Longrightarrow> endref (us @ (x, k) # w) = endref w" by (simp add: endref_def)
      ultimately show ?thesis
        using ok bwd [of b] hts [of b] lens lev3 [of "Some b"] hops(3) [OF w(1)] w
        by (auto simp: node_ok_def levels_def endref_append)
    qed
    then show "node_ok ?s3 (if u = [] then None else endref u) b h v" by (cases "u = []") simp_all
  qed
  moreover have "sl_header ?s3 ! j = hop j (us @ vs)" if "j < sl_level ?s3" for j
    using hops(1) [of "[]" us j] that lens by (simp add: levels_def)
  moreover have "fst (sl_header ?s3 ! j) = None" if "sl_level ?s3 \<le> j" "j < MAX_LEVEL" for j
    using unspliced_levels [OF inv upd] that inv lens
    by (auto simp: slot_def levels_def list_inv_def dest!: spec [of _ None])
  moreover have "sl_tail ?s3 = endref (us @ vs)"
    using unlink_back_backward(2) [of x ?s1 x] okx fr bx f0 inv
    by (auto simp: frame_eq_def node_ok_def list_inv_def endref_def split: list.splits)
  ultimately have "list_inv ?s3 (us @ vs)" using inv lens by (simp add: list_inv_def)
  moreover have "?s3\<lparr>sl_level := sl_level ?s2\<rparr> = ?s3" by (rule skip_list.equality) simp_all
  ultimately have "list_inv (?s3\<lparr>sl_level := sl_level ?s2\<rparr>) (us @ vs)" by (simp only:)
  from trim_level_inv [OF this]
  have "list_inv (?s3\<lparr>sl_level := trim_level ?s3 (sl_level ?s2)\<rparr>) (us @ vs)" .
  moreover have "trim_level ?s3 l = trim_level ?s2 l" for l
    by (induction ?s3 l rule: trim_level.induct) (subst (1 2) trim_level.simps, simp add: forward_def)
  moreover have "deleteNode x upd s = ?s3\<lparr>sl_level := trim_level ?s2 (sl_level ?s2)\<rparr>"
    by (rule skip_list.equality) (simp_all add: deleteNode_def Let_def)
  ultimately show "list_inv (deleteNode x upd s) (us @ vs)" by (simp only:)
  show "length (sl_nodes (deleteNode x upd s)) = length (sl_nodes s)" using fr by (simp add: deleteNode_def Let_def frame_eq_def)
  show "b < length (sl_nodes s) \<Longrightarrow> entry_at (deleteNode x upd s) b = entry_at s b"
    using fr by (simp add: deleteNode_def Let_def frame_eq_def)
qed

end
