(* ===== verification/SkipListSpec.thy ===== *)
theory SkipListSpec
  imports SkipListDelete
begin

section \<open>The skip list: what its operations promise\<close>

text \<open>
  \<open>index_of sl es\<close> says that the linked structure \<open>sl\<close> holds the entries \<open>es\<close>, in order. The lemmas
  of the context show every public operation total on such a structure and give its result in terms
  of \<open>es\<close>; \<open>ordered_index\<close> states the part of this contract that the indexes built on skip lists
  rely on.
\<close>

definition index_of :: "('k \<Rightarrow> 'k \<Rightarrow> int) \<Rightarrow> ('v \<Rightarrow> 'v \<Rightarrow> int) \<Rightarrow> ('k, 'v) skip_list \<Rightarrow> ('k \<times> 'v) list \<Rightarrow> bool" where
  "index_of cmpK cmpV sl es \<longleftrightarrow>
     (\<exists>ts. list_inv sl ts \<and> es = entries sl ts) \<and> sorted_wrt (entry_less cmpK cmpV) es"

definition insert_sorted :: "('e \<Rightarrow> 'e \<Rightarrow> bool) \<Rightarrow> 'e \<Rightarrow> 'e list \<Rightarrow> 'e list" where
  "insert_sorted lt e es = filter (\<lambda>x. lt x e) es @ e # filter (\<lambda>x. \<not> lt x e) es"

lemma set_insert_sorted [simp]: "set (insert_sorted lt e es) = insert e (set es)"
  by (auto simp: insert_sorted_def)

lemma length_insert_sorted [simp]: "length (insert_sorted lt e es) = Suc (length es)"
  using sum_length_filter_compl [of "\<lambda>x. lt x e" es] by (simp add: insert_sorted_def)

definition take_count :: "int option \<Rightarrow> 'a list \<Rightarrow> 'a list" where
  "take_count c xs = (case c of None \<Rightarrow> xs | Some n \<Rightarrow> take (nat n) xs)"

lemma take_count_simps [simp]: "take_count None xs = xs" "take_count c [] = []"
  by (simp_all add: take_count_def split: option.splits)

text \<open>The collecting loop over a chain of nodes.\<close>

lemma collect_chain:
  assumes "\<And>i. i < length ns \<Longrightarrow> nxt (ns ! i) = (if Suc i < length ns then Some (ns ! Suc i) else None)"
  shows "collect nxt stop sl (if ns = [] then None else Some (hd ns)) off cnt =
    Some (take_count cnt (drop (nat off) (takeWhile (\<lambda>e. \<not> stop (fst e)) (map (entry_at sl) ns))))"
  using assms
proof (induction ns arbitrary: off cnt)
  case Nil
  then show ?case by (subst collect.simps) simp
next
  case (Cons a ns)
  have nxt: "nxt a = (if ns = [] then None else Some (hd ns))"
    using Cons.prems [of 0] by (cases ns) simp_all
  have IH: "collect nxt stop sl (nxt a) off cnt =
    Some (take_count cnt (drop (nat off) (takeWhile (\<lambda>e. \<not> stop (fst e)) (map (entry_at sl) ns))))" for off cnt
    unfolding nxt by (rule Cons.IH) (use Cons.prems [of "Suc _"] in auto)
  show ?case
  proof (cases "stop (fst (entry_at sl a))")
    case True
    then show ?thesis by (subst collect.simps) simp
  next
    case False
    consider "off > 0" | "off \<le> 0" "cnt = None" | c where "off \<le> 0" "cnt = Some c" "c > 0"
      | c where "off \<le> 0" "cnt = Some c" "c \<le> 0"
      by (cases cnt) force+
    then show ?thesis
    proof cases
      case 1
      then have "nat off = Suc (nat (off - 1))" by simp
      with 1 False show ?thesis by (subst collect.simps) (simp add: IH)
    next
      case 3
      then have "nat c = Suc (nat (c - 1))" by simp
      with 3 False show ?thesis by (subst collect.simps) (simp add: IH take_count_def)
    qed (use False in \<open>subst collect.simps; simp add: IH take_count_def\<close>)+
  qed
qed

subsection \<open>The chains of a list\<close>

lemma forward_chain:
  assumes inv: "list_inv sl (us @ ts)" and i: "i < length ts"
  shows "forward sl (Some (fst (ts ! i))) 0 = (if Suc i < length ts then Some (fst (ts ! Suc i)) else None)"
proof -
  obtain a h where t: "ts ! i = (a, h)" by fastforce
  have split: "us @ ts = (us @ take i ts) @ (a, h) # drop (Suc i) ts" using id_take_nth_drop [OF i] t by simp
  have ok: "node_ok sl (endref (us @ take i ts)) a h (drop (Suc i) ts)"
    by (rule inv_node) (use inv split in simp)
  then have "forward sl (Some a) 0 = fst (hop 0 (drop (Suc i) ts))"
    by (simp add: forward_def levels_def node_ok_def)
  moreover have "fst (hop 0 (drop (Suc i) ts)) = Some (fst (ts ! Suc i))" if "Suc i < length ts"
    using heights_pos [OF inv, of "ts ! Suc i"] that
    by (cases "ts ! Suc i") (auto simp: Cons_nth_drop_Suc [symmetric] dest: nth_mem)
  ultimately show ?thesis using t by simp
qed

lemma backward_chain:
  assumes inv: "list_inv sl (ts @ vs)" and i: "i < length ts"
  shows "sn_backward (sl_nodes sl ! fst (rev ts ! i)) = (if Suc i < length ts then Some (fst (rev ts ! Suc i)) else None)"
proof -
  let ?j = "length ts - Suc i"
  obtain a h where t: "ts ! ?j = (a, h)" by fastforce
  have j: "?j < length ts" using i by simp
  have split: "ts @ vs = take ?j ts @ (a, h) # drop (Suc ?j) ts @ vs"
    using id_take_nth_drop [OF j] t by simp
  have "node_ok sl (endref (take ?j ts)) a h (drop (Suc ?j) ts @ vs)"
    by (rule inv_node) (use inv split in simp)
  moreover have "endref (take ?j ts) = (if Suc i < length ts then Some (fst (ts ! (?j - 1))) else None)"
    using i by (auto simp: endref_def last_conv_nth)
  moreover have "?j - 1 = length ts - Suc (Suc i)" by simp
  ultimately show ?thesis using i t by (auto simp: rev_nth node_ok_def)
qed

lemma head_forward: "list_inv sl ts \<Longrightarrow> forward sl None 0 = (if ts = [] then None else Some (fst (hd ts)))"
  using heights_pos [of sl ts "hd ts"] by (cases ts) (auto simp: list_inv_def forward_def levels_def)

lemma next_forward:
  "list_inv sl (us @ vs) \<Longrightarrow> forward sl (endref us) 0 = (if vs = [] then None else Some (fst (hd vs)))"
proof -
  assume inv: "list_inv sl (us @ vs)"
  have t: "tall 0 us" using heights_pos [OF inv, of "last us"] by (cases us rule: rev_cases) (auto simp: tall_def)
  have "0 < sl_level sl" using inv by (simp add: list_inv_def)
  from forward_at(1) [OF inv t this] heights_pos [OF inv, of "hd vs"] show ?thesis
    by (cases vs) auto
qed

lemma collect_forward:
  assumes inv: "list_inv sl (us @ vs)"
  shows "collect (\<lambda>a. forward sl (Some a) 0) stop sl (if vs = [] then None else Some (fst (hd vs))) off cnt =
    Some (take_count cnt (drop (nat off) (takeWhile (\<lambda>e. \<not> stop (fst e)) (entries sl vs))))"
  using collect_chain [of "map fst vs" "\<lambda>a. forward sl (Some a) 0" stop sl off cnt] forward_chain [OF inv]
  by (auto simp: entries_def hd_map comp_def)

lemma collect_backward:
  assumes inv: "list_inv sl (us @ vs)"
  shows "collect (\<lambda>a. sn_backward (sl_nodes sl ! a)) stop sl (endref us) off cnt =
    Some (take_count cnt (drop (nat off) (takeWhile (\<lambda>e. \<not> stop (fst e)) (rev (entries sl us)))))"
  using collect_chain [of "map fst (rev us)" "\<lambda>a. sn_backward (sl_nodes sl ! a)" stop sl off cnt] backward_chain [OF inv]
  by (auto simp: entries_def hd_map hd_rev comp_def rev_map endref_def)

lemma toArray_spec: "list_inv sl ts \<Longrightarrow> toArray sl = Some (entries sl ts)"
  using collect_forward [of sl "[]" ts "\<lambda>k. False" 0 None] by (simp add: toArray_def head_forward)

subsection \<open>Searching by entry or by key\<close>

lemma inv_addr: "list_inv sl ts \<Longrightarrow> t \<in> set ts \<Longrightarrow> fst t < length (sl_nodes sl)"
proof -
  assume inv: "list_inv sl ts" and "t \<in> set ts"
  then obtain us vs where "ts = us @ (fst t, snd t) # vs" by (auto dest: split_list)
  with inv inv_node [of sl us "fst t" "snd t" vs] show ?thesis by (simp add: node_ok_def)
qed

lemma insert_node_inv:
  assumes inv: "list_inv sl (us @ vs)"
    and "\<forall>t\<in>set us. nodeLess cmpK cmpV sl key val (fst t)"
    and "\<forall>t\<in>set vs. \<not> nodeLess cmpK cmpV sl key val (fst t)"
  shows "\<exists>sl' a h. insert_node cmpK cmpV key val draw sl = Some sl' \<and> list_inv sl' (us @ (a, h) # vs) \<and>
    entries sl' (us @ (a, h) # vs) = entries sl us @ (key, val) # entries sl vs"
proof -
  obtain upd where upd: "walk_down (nodeLess cmpK cmpV sl key val) sl (sl_level sl) None 0 =
      Some ((endref us, int (length us)), upd)"
    "length upd = sl_level sl" "\<forall>i < sl_level sl. upd_ok i us (upd ! i)" "upd ! 0 = (endref us, int (length us))"
    using search_spec [OF assms] by blast
  let ?lvl = "randomLevel draw"
  obtain s1 upd1 where r: "raise_level ?lvl (sl, upd) = (s1, upd1)" by fastforce
  have s1: "list_inv s1 (us @ vs)" "sl_level s1 = max (sl_level sl) ?lvl" "sl_nodes s1 = sl_nodes sl"
    "\<forall>i < sl_level s1. upd_ok i us (upd1 ! i)" "upd1 ! 0 = (endref us, int (length us))"
    using raise_level_inv [OF inv randomLevel_bounds(2) upd(2,3) r] upd(4) by simp_all
  define a where "a = length (sl_nodes s1)"
  define s5 where "s5 = (let s4 = link_back a (fst (upd1 ! 0)) (spliced key val ?lvl upd1 s1)
    in s4\<lparr>sl_length := sl_length s4 + 1\<rparr>)"
  have lvl: "0 < ?lvl" "?lvl \<le> sl_level s1" using randomLevel_bounds(1) [of draw] s1(2) by simp_all
  note ok = inserted_inv [OF s1(1) lvl s1(4,5), where key = key and val = val, folded a_def, folded s5_def]
  have "insert_node cmpK cmpV key val draw sl = Some s5"
    unfolding insert_node_def by (simp add: upd(1) r s5_def spliced_def a_def Let_def)
  moreover have "entry_at s5 (fst t) = entry_at sl (fst t)" if "t \<in> set (us @ vs)" for t
  proof -
    have "fst t < a" using inv_addr [OF s1(1) that] by (simp add: a_def)
    with ok(3) [of "fst t"] s1(3) show ?thesis by (simp add: entry_at_def)
  qed
  then have "entries s5 us = entries sl us" "entries s5 vs = entries sl vs" by (auto simp: entries_def)
  then have "entries s5 (us @ (a, ?lvl) # vs) = entries sl us @ (key, val) # entries sl vs"
    using ok(2) by (simp add: entries_def)
  ultimately show ?thesis using ok(1) by blast
qed

lemma delete_node_hit:
  assumes inv: "list_inv sl (us @ (x, k) # vs)"
    and "\<forall>t\<in>set us. nodeLess cmpK cmpV sl key val (fst t)"
    and "\<forall>t\<in>set ((x, k) # vs). \<not> nodeLess cmpK cmpV sl key val (fst t)"
    and eq: "nodeEq cmpK cmpV sl key val x"
  shows "\<exists>sl'. delete_node cmpK cmpV key val sl = Some (True, sl') \<and> list_inv sl' (us @ vs) \<and>
    entries sl' (us @ vs) = entries sl (us @ vs)"
proof -
  obtain upd where upd: "walk_down (nodeLess cmpK cmpV sl key val) sl (sl_level sl) None 0 =
      Some ((endref us, int (length us)), upd)" "\<forall>i < sl_level sl. upd_ok i us (upd ! i)"
    using search_spec [OF assms(1-3)] by blast
  note ok = deleted_inv [OF inv upd(2)]
  have "entry_at (deleteNode x upd sl) (fst t) = entry_at sl (fst t)" if t: "t \<in> set (us @ vs)" for t
  proof -
    have "t \<in> set (us @ (x, k) # vs)" using t by auto
    from ok(2) [OF inv_addr [OF inv this]] show ?thesis .
  qed
  then have "entries (deleteNode x upd sl) (us @ vs) = entries sl (us @ vs)" by (auto simp: entries_def)
  moreover have "delete_node cmpK cmpV key val sl = Some (True, deleteNode x upd sl)"
    unfolding delete_node_def using eq by (simp add: upd(1) next_forward [OF inv])
  ultimately show ?thesis using ok(1) by blast
qed

lemma delete_node_miss:
  assumes inv: "list_inv sl (us @ vs)"
    and "\<forall>t\<in>set us. nodeLess cmpK cmpV sl key val (fst t)"
    and "\<forall>t\<in>set vs. \<not> nodeLess cmpK cmpV sl key val (fst t)"
    and neq: "vs \<noteq> [] \<longrightarrow> \<not> nodeEq cmpK cmpV sl key val (fst (hd vs))"
  shows "delete_node cmpK cmpV key val sl = Some (False, sl)"
proof -
  obtain upd where "walk_down (nodeLess cmpK cmpV sl key val) sl (sl_level sl) None 0 =
      Some ((endref us, int (length us)), upd)"
    using search_spec [OF assms(1-3)] by blast
  then show ?thesis unfolding delete_node_def using neq by (simp add: next_forward [OF inv])
qed

text \<open>\<open>lowerBound\<close> stops after the keys below the bound.\<close>

definition key_below :: "('k \<Rightarrow> 'k \<Rightarrow> int) \<Rightarrow> 'k \<Rightarrow> bool \<Rightarrow> 'k \<Rightarrow> bool" where
  "key_below cmpK bound strict k = (let c = cmpK k bound in if strict then c \<le> 0 else c < 0)"

lemma lowerBound_inv:
  assumes inv: "list_inv sl (us @ vs)"
    and "\<forall>t\<in>set us. key_below cmpK bound strict (fst (entry_at sl (fst t)))"
    and "\<forall>t\<in>set vs. \<not> key_below cmpK bound strict (fst (entry_at sl (fst t)))"
  shows "lowerBound cmpK sl bound strict = Some (if vs = [] then None else Some (fst (hd vs)))"
proof -
  let ?c = "\<lambda>f. let c = cmpK (sn_key (sl_nodes sl ! f)) bound in if strict then c \<le> 0 else c < 0"
  have c: "?c f = key_below cmpK bound strict (fst (entry_at sl f))" for f
    by (simp add: key_below_def entry_at_def)
  obtain upd where "walk_down ?c sl (sl_level sl) None 0 = Some ((endref us, int (length us)), upd)"
    using search_spec [OF inv, of ?c] assms(2,3) unfolding c by blast
  then show ?thesis unfolding lowerBound_def by (simp add: next_forward [OF inv])
qed

subsection \<open>Access by rank\<close>

lemma rank_walk_inv:
  assumes "list_inv sl (l @ r @ vs)" "tall i l" "i < sl_level sl" "target = int (length (l @ r))"
  shows "\<exists>l2 r2. r = l2 @ r2 \<and> tall i (l @ l2) \<and> low i r2 \<and>
    rank_walk target sl i (endref l) (int (length l)) = Some (endref (l @ l2), int (length (l @ l2)))"
  using assms
proof (induction "length r" arbitrary: l r rule: less_induct)
  case less
  note at = forward_at [OF less.prems(1,2,3)]
  show ?case
  proof (cases "low i r")
    case True
    have "snd (hop i vs) \<ge> 1" if "fst (hop i vs) \<noteq> None"
    proof -
      have "0 \<le> snd (hop i xs)" for xs by (induction i xs rule: hop.induct) auto
      then show ?thesis using that by (cases vs) (auto split: if_splits)
    qed
    then have "rank_walk target sl i (endref l) (int (length l)) = Some (endref l, int (length l))"
      using less.prems(4) by (subst rank_walk.simps) (auto simp: at hop_low [OF True] split: option.splits)
    with True less.prems(2) show ?thesis by (intro exI [of _ "[]"] exI [of _ r]) simp
  next
    case False
    then obtain r1 a h r2 where r: "r = r1 @ (a, h) # r2" and low: "low i r1" and h: "i < h"
      using first_tall_split by blast
    let ?l = "l @ r1 @ [(a, h)]"
    have hop: "hop i (r @ vs) = (Some a, int (length r1) + 1)"
      using hop_tall [OF low h, of a "r2 @ vs"] by (simp add: r)
    have tall': "tall i ?l" using h by (simp only: append_assoc [symmetric] tall_snoc)
    have end': "endref ?l = Some a" by (simp add: endref_append endref_def)
    have "\<exists>l2 r3. r2 = l2 @ r3 \<and> tall i (?l @ l2) \<and> low i r3 \<and>
        rank_walk target sl i (endref ?l) (int (length ?l)) = Some (endref (?l @ l2), int (length (?l @ l2)))"
      by (rule less.hyps) (use less.prems r tall' in auto)
    then obtain l2 r3 where IH: "r2 = l2 @ r3" "tall i (?l @ l2)" "low i r3"
      "rank_walk target sl i (Some a) (int (length ?l)) = Some (endref (?l @ l2), int (length (?l @ l2)))"
      by (auto simp: end')
    have len: "int (length l) + (int (length r1) + 1) = int (length ?l)" by simp
    have le: "int (length ?l) \<le> target" using less.prems(4) r by simp
    then have "rank_walk target sl i (endref l) (int (length l)) = rank_walk target sl i (Some a) (int (length ?l))"
      by (subst rank_walk.simps) (simp only: at hop fst_conv snd_conv option.case if_True len)
    with IH r show ?thesis
      by (intro exI [of _ "r1 @ (a, h) # l2"] exI [of _ r3]) simp
  qed
qed

lemma rank_down_inv:
  assumes "list_inv sl (us @ vs)" "k \<le> sl_level sl" "us = l @ r" "0 < k" "tall (k - 1) l"
  shows "rank_down (int (length us)) sl k (endref l) (int (length l)) = Some (endref us)"
  using assms
proof (induction k arbitrary: l r)
  case 0
  then show ?case by simp
next
  case (Suc k)
  have pre: "list_inv sl (l @ r @ vs)" "tall k l" "k < sl_level sl" "int (length us) = int (length (l @ r))"
    using Suc.prems by auto
  obtain l2 r2 where w: "r = l2 @ r2" "tall k (l @ l2)" "low k r2"
    "rank_walk (int (length us)) sl k (endref l) (int (length l)) = Some (endref (l @ l2), int (length (l @ l2)))"
    using rank_walk_inv [OF pre] by blast
  show ?case
  proof (cases "r2 = []")
    case True
    with w Suc.prems show ?thesis by simp
  next
    case False
    have "0 < k"
    proof (rule ccontr)
      assume "\<not> 0 < k"
      with w(3) False heights_pos [OF Suc.prems(1), of "hd r2"] w(1) Suc.prems(3) show False
        by (cases r2) auto
    qed
    with Suc.IH [of "l @ l2" r2] Suc.prems w tall_mono [OF w(2), of "k - 1"] False
    show ?thesis by simp
  qed
qed

lemma getByRank_inv:
  assumes inv: "list_inv sl ts"
  shows "getByRank sl n = Some (if 0 \<le> n \<and> n < int (length ts) then Some (entries sl ts ! nat n) else None)"
proof (cases "0 \<le> n \<and> n < int (length ts)")
  case False
  with inv show ?thesis by (auto simp: getByRank_def list_inv_def)
next
  case True
  then have n: "nat n < length ts" by (simp add: nat_less_iff)
  define us vs where "us = take (Suc (nat n)) ts" and "vs = drop (Suc (nat n)) ts"
  have split: "list_inv sl (us @ vs)" using inv by (simp add: us_def vs_def)
  have len: "int (length us) = n + 1" using True n by (simp add: us_def)
  have "0 < sl_level sl" using inv by (simp add: list_inv_def)
  then have "rank_down (n + 1) sl (sl_level sl) None 0 = Some (endref us)"
    using rank_down_inv [OF split order.refl, of "[]" us] by (simp add: len)
  moreover have "endref us = Some (fst (ts ! nat n))" using n by (simp add: us_def take_Suc_conv_app_nth)
  ultimately show ?thesis using True n inv by (simp add: getByRank_def list_inv_def entries_def)
qed

subsection \<open>The contract over the sequence of entries\<close>

text \<open>The entries of a range scan: from the first inside the lower bound to the last inside the
  upper, skipping \<open>offset\<close> of them and returning at most \<open>count\<close>.\<close>

definition range_spec :: "('k \<Rightarrow> 'k \<Rightarrow> int) \<Rightarrow> 'k range_options \<Rightarrow> ('k \<times> 'v) list \<Rightarrow> ('k \<times> 'v) list" where
  "range_spec cmpK ro es =
     (let hits = filter (\<lambda>e. \<not> below_lower cmpK ro (fst e) \<and> \<not> above_upper cmpK ro (fst e)) es
      in take_count (ro_count ro) (drop (nat (ro_offset ro)) (if ro_reverse ro then rev hits else hits)))"

definition single_bounds :: "'k range_options \<Rightarrow> bool" where
  "single_bounds ro \<longleftrightarrow> (ro_gte ro = None \<or> ro_gt ro = None) \<and> (ro_lte ro = None \<or> ro_lt ro = None)"

lemma sorted_takeWhile:
  assumes "sorted_wrt r xs" and mono: "\<And>x y. r x y \<Longrightarrow> P y \<Longrightarrow> P x"
  shows "takeWhile P xs = filter P xs"
  using assms(1)
proof (induction xs)
  case Nil
  then show ?case by simp
next
  case (Cons x xs)
  show ?case
  proof (cases "P x")
    case True
    with Cons show ?thesis by simp
  next
    case False
    then have "\<forall>y\<in>set xs. \<not> P y" using Cons.prems mono by auto
    with False show ?thesis by (simp add: filter_empty_conv)
  qed
qed

lemma sorted_takeWhile_rev:
  assumes "sorted_wrt r xs" and mono: "\<And>x y. r x y \<Longrightarrow> P y \<Longrightarrow> P x"
  shows "takeWhile (\<lambda>x. \<not> P x) (rev xs) = rev (filter (\<lambda>x. \<not> P x) xs)"
proof -
  have "takeWhile (\<lambda>x. \<not> P x) (rev xs) = filter (\<lambda>x. \<not> P x) (rev xs)"
    by (rule sorted_takeWhile [of "\<lambda>x y. r y x"]) (use assms in \<open>auto simp: sorted_wrt_rev\<close>)
  then show ?thesis by (simp add: rev_filter)
qed

lemma filter_neq: "x \<notin> set xs \<Longrightarrow> filter (\<lambda>e. e \<noteq> x) xs = xs"
  by (induction xs) auto

context entry_order begin

lemma entries_split:
  assumes "index_of cmpK cmpV sl es" and mono: "\<And>x y. entry_less cmpK cmpV x y \<Longrightarrow> P y \<Longrightarrow> P x"
  obtains us vs where "list_inv sl (us @ vs)" "es = entries sl us @ entries sl vs"
    "entries sl us = filter P es" "entries sl vs = filter (\<lambda>e. \<not> P e) es"
    "\<forall>t\<in>set us. P (entry_at sl (fst t))" "\<forall>t\<in>set vs. \<not> P (entry_at sl (fst t))"
proof -
  obtain ts where ts: "list_inv sl ts" "es = entries sl ts" "sorted_wrt (entry_less cmpK cmpV) es"
    using assms(1) by (auto simp: index_of_def)
  define us vs where "us = filter (\<lambda>t. P (entry_at sl (fst t))) ts"
    and "vs = filter (\<lambda>t. \<not> P (entry_at sl (fst t))) ts"
  have split: "ts = us @ vs"
    unfolding us_def vs_def
    by (rule sorted_split [of "entry_less cmpK cmpV" "\<lambda>t. entry_at sl (fst t)" ts P])
       (use ts mono in \<open>auto simp: entries_def\<close>)
  have parts: "entries sl us = filter P es" "entries sl vs = filter (\<lambda>e. \<not> P e) es"
    by (simp_all add: ts(2) us_def vs_def entries_def filter_map comp_def)
  have es: "es = entries sl us @ entries sl vs" using ts(2) split by (simp add: entries_def)
  have inv: "list_inv sl (us @ vs)" using ts(1) split by simp
  show ?thesis by (rule that [OF inv es parts]) (simp_all add: us_def vs_def)
qed

lemma index_empty: "index_of cmpK cmpV empty_list []"
proof -
  have "list_inv empty_list []" by (auto simp: list_inv_def empty_list_def MAX_LEVEL_def)
  then show ?thesis unfolding index_of_def by (intro conjI exI [of _ "[]"]) (simp_all add: entries_def)
qed

lemma index_list: "index_of cmpK cmpV sl es \<Longrightarrow> toArray sl = Some es"
  by (auto simp: index_of_def toArray_spec)

lemma index_length: "index_of cmpK cmpV sl es \<Longrightarrow> sl_length sl = length es"
  by (auto simp: index_of_def list_inv_def entries_def)

lemma sorted_insert:
  assumes "sorted_wrt (entry_less cmpK cmpV) es" "e \<notin> set es"
  shows "sorted_wrt (entry_less cmpK cmpV) (insert_sorted (entry_less cmpK cmpV) e es)"
proof -
  have "entry_less cmpK cmpV e x" if "x \<in> set es" "\<not> entry_less cmpK cmpV x e" for x
    using that assms(2) entry_linear [of e x] by auto
  moreover have "entry_less cmpK cmpV x y" if "entry_less cmpK cmpV x e" "y \<in> set es" "\<not> entry_less cmpK cmpV y e" for x y
    using that assms(2) entry_linear [of e y] entry_less_trans [of x e y] by auto
  ultimately show ?thesis
    using assms(1) by (auto simp: insert_sorted_def sorted_wrt_append sorted_wrt_filter)
qed

lemma index_insert:
  assumes "index_of cmpK cmpV sl es" "(key, val) \<notin> set es"
  shows "\<exists>sl'. insert_node cmpK cmpV key val draw sl = Some sl' \<and>
    index_of cmpK cmpV sl' (insert_sorted (entry_less cmpK cmpV) (key, val) es)"
proof -
  obtain us vs where s: "list_inv sl (us @ vs)" "es = entries sl us @ entries sl vs"
    "entries sl us = filter (\<lambda>e. entry_less cmpK cmpV e (key, val)) es"
    "entries sl vs = filter (\<lambda>e. \<not> entry_less cmpK cmpV e (key, val)) es"
    "\<forall>t\<in>set us. entry_less cmpK cmpV (entry_at sl (fst t)) (key, val)"
    "\<forall>t\<in>set vs. \<not> entry_less cmpK cmpV (entry_at sl (fst t)) (key, val)"
    by (rule entries_split [OF assms(1), of "\<lambda>e. entry_less cmpK cmpV e (key, val)"]) (rule entry_less_trans)
  obtain sl' a h where sl': "insert_node cmpK cmpV key val draw sl = Some sl'" "list_inv sl' (us @ (a, h) # vs)"
    "entries sl' (us @ (a, h) # vs) = entries sl us @ (key, val) # entries sl vs"
    using insert_node_inv [OF s(1), of cmpK cmpV key val draw] s(5,6) by (auto simp: nodeLess_def)
  have "entries sl us @ (key, val) # entries sl vs = insert_sorted (entry_less cmpK cmpV) (key, val) es"
    by (simp only: insert_sorted_def s(3,4))
  with sl' sorted_insert assms show ?thesis unfolding index_of_def by metis
qed

lemma index_delete:
  assumes "index_of cmpK cmpV sl es"
  shows "\<exists>sl'. delete_node cmpK cmpV key val sl = Some ((key, val) \<in> set es, sl') \<and>
    index_of cmpK cmpV sl' (filter (\<lambda>e. e \<noteq> (key, val)) es)"
proof -
  let ?lt = "\<lambda>e. entry_less cmpK cmpV e (key, val)"
  have sorted: "sorted_wrt (entry_less cmpK cmpV) es" using assms by (simp add: index_of_def)
  obtain us vs where s: "list_inv sl (us @ vs)" "es = entries sl us @ entries sl vs"
    "entries sl us = filter ?lt es" "entries sl vs = filter (\<lambda>e. \<not> ?lt e) es"
    "\<forall>t\<in>set us. ?lt (entry_at sl (fst t))" "\<forall>t\<in>set vs. \<not> ?lt (entry_at sl (fst t))"
    by (rule entries_split [OF assms, of ?lt]) (rule entry_less_trans)
  have eq: "nodeEq cmpK cmpV sl key val a \<longleftrightarrow> entry_at sl a = (key, val)" for a
    by (simp add: nodeEq_def entry_at_def K.zero V.zero)
  have "\<forall>e\<in>set (entries sl us). ?lt e" using s(5) by (simp add: entries_def)
  then have us: "(key, val) \<notin> set (entries sl us)" using entry_less_irrefl by blast
  have tail: "(key, val) \<notin> set (entries sl ws)" if "vs = t # ws" for t ws
  proof
    assume "(key, val) \<in> set (entries sl ws)"
    moreover have "\<forall>e\<in>set (entries sl ws). entry_less cmpK cmpV (entry_at sl (fst t)) e"
      using sorted s(2) that by (simp add: entries_def sorted_wrt_append)
    ultimately have "entry_less cmpK cmpV (entry_at sl (fst t)) (key, val)" by blast
    with s(6) that show False by simp
  qed
  show ?thesis
  proof (cases "vs \<noteq> [] \<and> entry_at sl (fst (hd vs)) = (key, val)")
    case True
    then obtain x k ws where vs: "vs = (x, k) # ws" and x: "entry_at sl x = (key, val)" by (cases vs) auto
    obtain sl' where sl': "delete_node cmpK cmpV key val sl = Some (True, sl')" "list_inv sl' (us @ ws)"
      "entries sl' (us @ ws) = entries sl (us @ ws)"
      using delete_node_hit [of sl us x k ws cmpK cmpV key val] s(1,5,6) vs x eq by (auto simp: nodeLess_def)
    have es: "es = entries sl us @ (key, val) # entries sl ws" using s(2) vs x by (simp add: entries_def)
    then have "filter (\<lambda>e. e \<noteq> (key, val)) es = entries sl us @ entries sl ws"
      using us tail [OF vs] by (simp add: filter_neq)
    then have "filter (\<lambda>e. e \<noteq> (key, val)) es = entries sl' (us @ ws)" using sl'(3) by (simp add: entries_def)
    moreover have "sorted_wrt (entry_less cmpK cmpV) (filter (\<lambda>e. e \<noteq> (key, val)) es)"
      by (rule sorted_wrt_filter [OF sorted])
    ultimately have "index_of cmpK cmpV sl' (filter (\<lambda>e. e \<noteq> (key, val)) es)"
      using sl'(2) unfolding index_of_def by blast
    with sl'(1) es show ?thesis by simp
  next
    case False
    then have "(key, val) \<notin> set (entries sl vs)" using tail by (cases vs) (auto simp: entries_def)
    then have no: "(key, val) \<notin> set es" using us s(2) by simp
    have "delete_node cmpK cmpV key val sl = Some (False, sl)"
      using delete_node_miss [OF s(1), of cmpK cmpV key val] s(5,6) False eq by (auto simp: nodeLess_def)
    moreover have "filter (\<lambda>e. e \<noteq> (key, val)) es = es" using no by (rule filter_neq)
    ultimately show ?thesis using assms no by simp
  qed
qed

lemma index_getByRank:
  assumes "index_of cmpK cmpV sl es"
  shows "getByRank sl n = Some (if 0 \<le> n \<and> n < int (length es) then Some (es ! nat n) else None)"
proof -
  obtain ts where "list_inv sl ts" "es = entries sl ts" using assms by (auto simp: index_of_def)
  moreover from this have "length ts = length es" by (simp add: entries_def)
  ultimately show ?thesis using getByRank_inv [of sl ts n] by simp
qed

lemma filter_le_sorted:
  assumes "sorted_wrt (entry_less cmpK cmpV) es"
  shows "filter (\<lambda>e. entry_less cmpK cmpV e t \<or> e = t) es =
    filter (\<lambda>e. entry_less cmpK cmpV e t) es @ (if t \<in> set es then [t] else [])"
  using assms
proof (induction es)
  case Nil
  then show ?case by simp
next
  case (Cons x xs)
  have above: "\<forall>y\<in>set xs. entry_less cmpK cmpV x y" using Cons.prems by simp
  show ?case
  proof (cases "entry_less cmpK cmpV x t")
    case True
    then have "x \<noteq> t" using entry_less_irrefl by blast
    with True Cons show ?thesis by simp
  next
    case False
    then have above': "\<forall>y\<in>set xs. \<not> entry_less cmpK cmpV y t \<and> y \<noteq> t"
      using above entry_less_trans by blast
    then have none: "filter (\<lambda>e. entry_less cmpK cmpV e t \<or> e = t) xs = []"
      "filter (\<lambda>e. entry_less cmpK cmpV e t) xs = []"
      by (simp_all add: filter_empty_conv)
    have "t \<notin> set xs" using above' by blast
    note none = none this
    show ?thesis using none False by auto
  qed
qed

lemma index_getRank:
  assumes "index_of cmpK cmpV sl es"
  shows "getRank cmpK cmpV sl key val =
    Some (if (key, val) \<in> set es
          then Some (int (length (filter (\<lambda>e. entry_less cmpK cmpV e (key, val)) es))) else None)"
proof -
  let ?lt = "\<lambda>e. entry_less cmpK cmpV e (key, val)"
  let ?le = "\<lambda>e. ?lt e \<or> e = (key, val)"
  have sorted: "sorted_wrt (entry_less cmpK cmpV) es" using assms by (simp add: index_of_def)
  have mono: "entry_less cmpK cmpV x y \<Longrightarrow> ?le y \<Longrightarrow> ?le x" for x y using entry_less_trans by blast
  obtain us vs where s: "list_inv sl (us @ vs)" "es = entries sl us @ entries sl vs"
    "entries sl us = filter ?le es" "entries sl vs = filter (\<lambda>e. \<not> ?le e) es"
    "\<forall>t\<in>set us. ?le (entry_at sl (fst t))" "\<forall>t\<in>set vs. \<not> ?le (entry_at sl (fst t))"
    by (rule entries_split [OF assms, of ?le]) (rule mono)
  have eq: "nodeEq cmpK cmpV sl key val a \<longleftrightarrow> entry_at sl a = (key, val)" for a
    by (simp add: nodeEq_def entry_at_def K.zero V.zero)
  let ?c = "\<lambda>f. nodeLess cmpK cmpV sl key val f \<or> nodeEq cmpK cmpV sl key val f"
  have c: "\<forall>t\<in>set us. ?c (fst t)" "\<forall>t\<in>set vs. \<not> ?c (fst t)"
    unfolding eq nodeLess_def by (rule s(5), rule s(6))
  obtain upd where upd: "walk_down ?c sl (sl_level sl) None 0 = Some ((endref us, int (length us)), upd)"
    using search_spec [OF s(1) c] by blast
  have us: "entries sl us = filter ?lt es @ (if (key, val) \<in> set es then [(key, val)] else [])"
    unfolding s(3) by (rule filter_le_sorted [OF sorted])
  have len: "length us = length (entries sl us)" by (simp add: entries_def)
  show ?thesis
  proof (cases us rule: rev_cases)
    case Nil
    with us have "(key, val) \<notin> set es" by (auto simp: entries_def split: if_splits)
    with upd Nil show ?thesis by (simp add: getRank_def)
  next
    case (snoc w t)
    have iff: "entry_at sl (fst t) = (key, val) \<longleftrightarrow> (key, val) \<in> set es"
    proof (cases "(key, val) \<in> set es")
      case True
      with us snoc show ?thesis by (simp add: entries_def)
    next
      case False
      have "entry_at sl (fst t) \<in> set (entries sl us)" using snoc by (simp add: entries_def)
      then have "entry_at sl (fst t) \<in> set es" unfolding s(3) by simp
      with False show ?thesis by metis
    qed
    have "int (length us) - 1 = int (length (filter ?lt es))" if "(key, val) \<in> set es"
      using len us that by simp
    with upd snoc iff show ?thesis by (simp add: getRank_def eq)
  qed
qed

lemma range_start_reverse_inv:
  assumes inv: "list_inv sl (us @ vs)"
  shows "(case (if vs = [] then None else Some (fst (hd vs))) of
      Some a \<Rightarrow> sn_backward (sl_nodes sl ! a) | None \<Rightarrow> sl_tail sl) = endref us"
proof (cases vs)
  case Nil
  with inv show ?thesis by (simp add: list_inv_def)
next
  case (Cons t ws)
  with inv inv_node [of sl us "fst t" "snd t" ws] show ?thesis by (simp add: node_ok_def)
qed

lemma entry_less_key: "entry_less cmpK cmpV x y \<Longrightarrow> cmpK (fst x) (fst y) \<le> 0"
  by (auto simp: entry_less_def Let_def)

lemma key_below_mono:
  "entry_less cmpK cmpV x y \<Longrightarrow> key_below cmpK b strict (fst y) \<Longrightarrow> key_below cmpK b strict (fst x)"
  by (cases strict)
     (auto simp: key_below_def Let_def dest!: entry_less_key intro: K.le_trans K.le_less_trans)

lemma index_lowerBound:
  assumes "index_of cmpK cmpV sl es"
  obtains us vs where "list_inv sl (us @ vs)" "es = entries sl us @ entries sl vs"
    "\<forall>e\<in>set (entries sl us). key_below cmpK b strict (fst e)"
    "\<forall>e\<in>set (entries sl vs). \<not> key_below cmpK b strict (fst e)"
    "lowerBound cmpK sl b strict = Some (if vs = [] then None else Some (fst (hd vs)))"
proof -
  let ?P = "\<lambda>e. key_below cmpK b strict (fst e)"
  obtain us vs where s: "list_inv sl (us @ vs)" "es = entries sl us @ entries sl vs"
    "\<forall>t\<in>set us. ?P (entry_at sl (fst t))" "\<forall>t\<in>set vs. \<not> ?P (entry_at sl (fst t))"
    by (rule entries_split [OF assms, of ?P]) (rule key_below_mono)
  show ?thesis
    by (rule that [OF s(1,2)]) (use s(3,4) lowerBound_inv [OF s(1), of cmpK b strict] in \<open>auto simp: entries_def\<close>)
qed

lemma below_lower_bound:
  "ro_gte ro = None \<or> ro_gt ro = None \<Longrightarrow>
   below_lower cmpK ro k \<longleftrightarrow>
     (case (case ro_gte ro of Some b \<Rightarrow> Some b | None \<Rightarrow> ro_gt ro) of
        None \<Rightarrow> False | Some b \<Rightarrow> key_below cmpK b (ro_gt ro \<noteq> None) k)"
  by (auto simp: below_lower_def key_below_def Let_def split: option.splits)

lemma above_upper_bound:
  "ro_lte ro = None \<or> ro_lt ro = None \<Longrightarrow>
   above_upper cmpK ro k \<longleftrightarrow>
     (case ro_lte ro of
        Some b \<Rightarrow> \<not> key_below cmpK b True k
      | None \<Rightarrow> (case ro_lt ro of Some b \<Rightarrow> \<not> key_below cmpK b False k | None \<Rightarrow> False))"
  by (auto simp: above_upper_def key_below_def Let_def split: option.splits)

lemma index_range_start:
  assumes idx: "index_of cmpK cmpV sl es" and lo: "ro_gte ro = None \<or> ro_gt ro = None"
  obtains us vs where "list_inv sl (us @ vs)" "es = entries sl us @ entries sl vs"
    "\<forall>e\<in>set (entries sl us). below_lower cmpK ro (fst e)"
    "\<forall>e\<in>set (entries sl vs). \<not> below_lower cmpK ro (fst e)"
    "range_start cmpK sl ro = Some (if vs = [] then None else Some (fst (hd vs)))"
proof (cases "case ro_gte ro of Some b \<Rightarrow> Some b | None \<Rightarrow> ro_gt ro")
  case None
  obtain ts where ts: "list_inv sl ts" "es = entries sl ts" using idx by (auto simp: index_of_def)
  show ?thesis
    by (rule that [of "[]" ts])
       (use ts head_forward [OF ts(1)] in \<open>simp_all add: None entries_def range_start_def below_lower_bound [OF lo]\<close>)
next
  case (Some b)
  obtain us vs where "list_inv sl (us @ vs)" "es = entries sl us @ entries sl vs"
    "\<forall>e\<in>set (entries sl us). key_below cmpK b (ro_gt ro \<noteq> None) (fst e)"
    "\<forall>e\<in>set (entries sl vs). \<not> key_below cmpK b (ro_gt ro \<noteq> None) (fst e)"
    "lowerBound cmpK sl b (ro_gt ro \<noteq> None) = Some (if vs = [] then None else Some (fst (hd vs)))"
    by (rule index_lowerBound [OF idx])
  then show ?thesis
    using that [of us vs] by (simp add: Some range_start_def below_lower_bound [OF lo])
qed

lemma index_range_start_reverse:
  assumes idx: "index_of cmpK cmpV sl es" and hi: "ro_lte ro = None \<or> ro_lt ro = None"
  obtains us vs where "list_inv sl (us @ vs)" "es = entries sl us @ entries sl vs"
    "\<forall>e\<in>set (entries sl us). \<not> above_upper cmpK ro (fst e)"
    "\<forall>e\<in>set (entries sl vs). above_upper cmpK ro (fst e)"
    "range_start_reverse cmpK sl ro = Some (endref us)"
proof (cases "ro_lte ro = None \<and> ro_lt ro = None")
  case True
  obtain ts where ts: "list_inv sl ts" "es = entries sl ts" using idx by (auto simp: index_of_def)
  show ?thesis
    by (rule that [of ts "[]"])
       (use ts True in \<open>simp_all add: entries_def range_start_reverse_def above_upper_bound list_inv_def\<close>)
next
  case False
  define b strict where "b = the (case ro_lte ro of None \<Rightarrow> ro_lt ro | Some b \<Rightarrow> Some b)"
    and "strict = (ro_lte ro \<noteq> None)"
  have up: "above_upper cmpK ro k \<longleftrightarrow> \<not> key_below cmpK b strict k" for k
    using False hi by (auto simp: above_upper_bound b_def strict_def split: option.splits)
  obtain us vs where s: "list_inv sl (us @ vs)" "es = entries sl us @ entries sl vs"
    "\<forall>e\<in>set (entries sl us). key_below cmpK b strict (fst e)"
    "\<forall>e\<in>set (entries sl vs). \<not> key_below cmpK b strict (fst e)"
    "lowerBound cmpK sl b strict = Some (if vs = [] then None else Some (fst (hd vs)))"
    by (rule index_lowerBound [OF idx])
  have "range_start_reverse cmpK sl ro = Some (endref us)"
    using False s(5) range_start_reverse_inv [OF s(1)]
    by (auto simp: range_start_reverse_def b_def strict_def Let_def split: option.splits)
  then show ?thesis using that [of us vs] s(1-4) by (simp add: up)
qed

lemma index_range:
  assumes idx: "index_of cmpK cmpV sl es" and one: "single_bounds ro"
  shows "range_entries cmpK sl ro = Some (range_spec cmpK ro es)"
proof -
  let ?below = "\<lambda>e. below_lower cmpK ro (fst e)" and ?above = "\<lambda>e. above_upper cmpK ro (fst e)"
  have sorted: "sorted_wrt (entry_less cmpK cmpV) es" using idx by (simp add: index_of_def)
  have lo: "ro_gte ro = None \<or> ro_gt ro = None" and hi: "ro_lte ro = None \<or> ro_lt ro = None"
    using one by (simp_all add: single_bounds_def)
  have mono_below: "entry_less cmpK cmpV x y \<Longrightarrow> ?below y \<Longrightarrow> ?below x" for x y
    using key_below_mono [of x y] by (auto simp: below_lower_bound [OF lo] split: option.splits)
  have mono_above: "entry_less cmpK cmpV x y \<Longrightarrow> \<not> ?above y \<Longrightarrow> \<not> ?above x" for x y
    using key_below_mono [of x y] by (auto simp: above_upper_bound [OF hi] split: option.splits)
  show ?thesis
  proof (cases "ro_reverse ro")
    case False
    obtain us vs where s: "list_inv sl (us @ vs)" "es = entries sl us @ entries sl vs"
      "\<forall>e\<in>set (entries sl us). ?below e" "\<forall>e\<in>set (entries sl vs). \<not> ?below e"
      "range_start cmpK sl ro = Some (if vs = [] then None else Some (fst (hd vs)))"
      by (rule index_range_start [OF idx lo])
    have "sorted_wrt (entry_less cmpK cmpV) (entries sl vs)"
      using sorted by (simp add: s(2) sorted_wrt_append)
    from sorted_takeWhile [OF this, of "\<lambda>e. \<not> ?above e"] mono_above
    have "takeWhile (\<lambda>e. \<not> ?above e) (entries sl vs) = filter (\<lambda>e. \<not> ?above e) (entries sl vs)" by blast
    moreover have "filter (\<lambda>e. \<not> ?below e \<and> \<not> ?above e) es = filter (\<lambda>e. \<not> ?above e) (entries sl vs)"
      using s(3,4) by (simp add: s(2) filter_empty_conv cong: filter_cong)
    ultimately show ?thesis
      using False s(5) collect_forward [OF s(1)] by (simp add: range_entries_def range_spec_def)
  next
    case True
    obtain us vs where s: "list_inv sl (us @ vs)" "es = entries sl us @ entries sl vs"
      "\<forall>e\<in>set (entries sl us). \<not> ?above e" "\<forall>e\<in>set (entries sl vs). ?above e"
      "range_start_reverse cmpK sl ro = Some (endref us)"
      by (rule index_range_start_reverse [OF idx hi])
    have "sorted_wrt (entry_less cmpK cmpV) (entries sl us)"
      using sorted by (simp add: s(2) sorted_wrt_append)
    from sorted_takeWhile_rev [OF this, of ?below] mono_below
    have "takeWhile (\<lambda>e. \<not> ?below e) (rev (entries sl us)) = rev (filter (\<lambda>e. \<not> ?below e) (entries sl us))" by blast
    moreover have "filter (\<lambda>e. \<not> ?below e \<and> \<not> ?above e) es = filter (\<lambda>e. \<not> ?below e) (entries sl us)"
      using s(3,4) by (simp add: s(2) filter_empty_conv cong: filter_cong)
    ultimately show ?thesis
      using True s(5) collect_backward [OF s(1)] by (simp add: range_entries_def range_spec_def)
  qed
qed

end

subsection \<open>The interface of an ordered index\<close>

text \<open>
  What the users of a skip list (the store's key order, the secondary indexes) rely on: from the
  empty list on, inserting an absent entry and deleting any entry return and change the set of
  entries by that entry alone, the entries are kept strictly sorted, and listing returns them.
\<close>

locale ordered_index =
  fixes lt :: "'e \<Rightarrow> 'e \<Rightarrow> bool"
    and emp :: 't
    and ins :: "'e \<Rightarrow> (nat \<Rightarrow> bool) \<Rightarrow> 't \<Rightarrow> 't option"
    and del :: "'e \<Rightarrow> 't \<Rightarrow> (bool \<times> 't) option"
    and listing :: "'t \<Rightarrow> 'e list option"
    and abs :: "'t \<Rightarrow> 'e list \<Rightarrow> bool"
  assumes lt_irrefl: "\<not> lt a a" and lt_trans: "lt a b \<Longrightarrow> lt b c \<Longrightarrow> lt a c"
    and abs_empty: "abs emp []"
    and abs_sorted: "abs t es \<Longrightarrow> sorted_wrt lt es"
    and abs_ins: "abs t es \<Longrightarrow> e \<notin> set es \<Longrightarrow> \<exists>t'. ins e draw t = Some t' \<and> abs t' (insert_sorted lt e es)"
    and abs_del: "abs t es \<Longrightarrow> \<exists>t'. del e t = Some (e \<in> set es, t') \<and> abs t' (filter (\<lambda>x. x \<noteq> e) es)"
    and abs_list: "abs t es \<Longrightarrow> listing t = Some es"
begin

lemma sorted_distinct: "sorted_wrt lt es \<Longrightarrow> distinct es"
  by (induction es) (auto simp: lt_irrefl)

lemma abs_distinct: "abs t es \<Longrightarrow> distinct es"
  by (rule sorted_distinct [OF abs_sorted])

lemma sorted_set_unique:
  "sorted_wrt lt es \<Longrightarrow> sorted_wrt lt fs \<Longrightarrow> set es = set fs \<Longrightarrow> es = fs"
proof (induction es arbitrary: fs)
  case Nil
  then show ?case by simp
next
  case (Cons e es)
  then obtain f gs where fs: "fs = f # gs" by (cases fs) auto
  have "e \<in> set (f # gs)" "f \<in> set (e # es)"
    using Cons.prems(3) unfolding fs by (metis list.set_intros(1))+
  with Cons.prems(1,2) have "e = f \<or> lt f e" "f = e \<or> lt e f" unfolding fs by auto
  then have "e = f" using lt_irrefl lt_trans by blast
  moreover have "e \<notin> set es" "f \<notin> set gs" 
    using sorted_distinct [OF Cons.prems(1)] sorted_distinct [OF Cons.prems(2)] fs by simp_all
  ultimately have "set es = set gs" using Cons.prems(3) unfolding fs by (metis insert_ident list.simps(15))
  with Cons fs \<open>e = f\<close> show ?case by simp
qed

lemma abs_unique: "abs t es \<Longrightarrow> abs t' fs \<Longrightarrow> set es = set fs \<Longrightarrow> es = fs"
  by (rule sorted_set_unique [OF abs_sorted abs_sorted])

lemma ins_set:
  "abs t es \<Longrightarrow> e \<notin> set es \<Longrightarrow> \<exists>t' fs. ins e draw t = Some t' \<and> abs t' fs \<and> set fs = insert e (set es)"
  using abs_ins [of t es e draw] by fastforce

lemma del_set:
  "abs t es \<Longrightarrow> \<exists>t' fs. del e t = Some (e \<in> set es, t') \<and> abs t' fs \<and> set fs = set es - {e}"
  using abs_del [of t es e] by (metis Diff_insert_absorb Set.set_insert filter_neq set_minus_filter_out)

end

sublocale entry_order \<subseteq> index: ordered_index "entry_less cmpK cmpV" empty_list
  "\<lambda>e draw sl. insert_node cmpK cmpV (fst e) (snd e) draw sl" "\<lambda>e sl. delete_node cmpK cmpV (fst e) (snd e) sl"
  toArray "index_of cmpK cmpV"
proof unfold_locales
  fix a b c :: "'k \<times> 'v" and t es draw
  show "\<not> entry_less cmpK cmpV a a" by (rule entry_less_irrefl)
  show "entry_less cmpK cmpV a b \<Longrightarrow> entry_less cmpK cmpV b c \<Longrightarrow> entry_less cmpK cmpV a c" by (rule entry_less_trans)
  show "index_of cmpK cmpV empty_list []" by (rule index_empty)
  show "index_of cmpK cmpV t es \<Longrightarrow> sorted_wrt (entry_less cmpK cmpV) es" by (simp add: index_of_def)
  show "index_of cmpK cmpV t es \<Longrightarrow> a \<notin> set es \<Longrightarrow> \<exists>t'. insert_node cmpK cmpV (fst a) (snd a) draw t = Some t' \<and>
      index_of cmpK cmpV t' (insert_sorted (entry_less cmpK cmpV) a es)"
    using index_insert [of t es "fst a" "snd a" draw] by simp
  show "index_of cmpK cmpV t es \<Longrightarrow> \<exists>t'. delete_node cmpK cmpV (fst a) (snd a) t = Some (a \<in> set es, t') \<and>
      index_of cmpK cmpV t' (filter (\<lambda>x. x \<noteq> a) es)"
    using index_delete [of t es "fst a" "snd a"] by simp
  show "index_of cmpK cmpV t es \<Longrightarrow> toArray t = Some es" by (rule index_list)
qed

subsection \<open>Properties\<close>

text \<open>C18: inserting an absent entry into a skip list returns, whatever levels are drawn, and the
  linked structure, with all its forward and backward pointers, spans, tail, level and length, then
  holds the old entries and the new one at its place in the order.\<close>

theorem skiplist_insert:
  assumes "index_of cmpNumber cmpString sl es" "(key, val) \<notin> set es"
  shows "\<exists>sl'. insert_node cmpNumber cmpString key val draw sl = Some sl' \<and>
    index_of cmpNumber cmpString sl' (insert_sorted (entry_less cmpNumber cmpString) (key, val) es)"
  by (rule number_str.index_insert [OF assms])

theorem skiplist_insert_witness:
  "\<exists>sl'. insert_node cmpNumber cmpString 3 [97] (\<lambda>n. n < 4) empty_list = Some sl' \<and>
    index_of cmpNumber cmpString sl' [(3, [97])]"
  using skiplist_insert [OF number_str.index_empty, of 3 "[97]" "\<lambda>n. n < 4"] by (simp add: insert_sorted_def)

text \<open>Deleting an entry from a skip list returns, reports whether the entry was there, and leaves
  a well-linked structure that holds exactly the other entries.\<close>

theorem skiplist_delete:
  assumes "index_of cmpNumber cmpString sl es"
  shows "\<exists>sl'. delete_node cmpNumber cmpString key val sl = Some ((key, val) \<in> set es, sl') \<and>
    index_of cmpNumber cmpString sl' (filter (\<lambda>e. e \<noteq> (key, val)) es)"
  by (rule number_str.index_delete [OF assms])

theorem skiplist_delete_witness:
  "\<exists>sl sl'. index_of cmpNumber cmpString sl [(3, [97])] \<and>
    delete_node cmpNumber cmpString 3 [97] sl = Some (True, sl') \<and> index_of cmpNumber cmpString sl' []"
proof -
  obtain sl where "index_of cmpNumber cmpString sl [(3, [97])]"
    using number_str.index_insert [OF number_str.index_empty, of 3 "[97]" "\<lambda>n. False"]
    by (auto simp: insert_sorted_def)
  with skiplist_delete [OF this, of 3 "[97]"] show ?thesis by auto
qed

text \<open>Rank and position are inverse. \<open>getByRank\<close> finds the entry at every 0-based rank of the
  list and nothing outside, and \<open>getRank\<close> returns that rank for it.\<close>

theorem skiplist_rank:
  assumes "index_of cmpNumber cmpString sl es"
  shows "getByRank sl n = Some (if 0 \<le> n \<and> n < int (length es) then Some (es ! nat n) else None) \<and>
    (0 \<le> n \<and> n < int (length es) \<longrightarrow>
       getRank cmpNumber cmpString sl (fst (es ! nat n)) (snd (es ! nat n)) = Some (Some n))"
proof -
  let ?lt = "entry_less cmpNumber cmpString"
  have sorted: "sorted_wrt ?lt es" using assms by (simp add: index_of_def)
  have "int (length (filter (\<lambda>e. ?lt e (es ! nat n)) es)) = n" if "0 \<le> n" "n < int (length es)"
  proof -
    have n: "nat n < length es" using that by (simp add: nat_less_iff)
    have "filter (\<lambda>e. ?lt e (es ! nat n)) (take (nat n) es @ es ! nat n # drop (Suc (nat n)) es) = take (nat n) es"
    proof -
      have "sorted_wrt ?lt (take (nat n) es @ es ! nat n # drop (Suc (nat n)) es)"
        using sorted id_take_nth_drop [OF n] by simp
      then have "\<forall>e\<in>set (take (nat n) es). ?lt e (es ! nat n)"
        "\<forall>e\<in>set (es ! nat n # drop (Suc (nat n)) es). \<not> ?lt e (es ! nat n)"
        using number_str.entry_less_irrefl number_str.entry_less_asym by (auto simp: sorted_wrt_append)
      then show ?thesis by (simp add: filter_empty_conv)
    qed
    with id_take_nth_drop [OF n] that n show ?thesis by simp
  qed
  then show ?thesis
    using number_str.index_getByRank [OF assms, of n] number_str.index_getRank [OF assms]
    by (auto simp: nat_less_iff)
qed

theorem skiplist_rank_witness:
  "\<exists>sl. index_of cmpNumber cmpString sl [(3, [97])] \<and> getByRank sl 0 = Some (Some (3, [97])) \<and>
    getByRank sl 1 = Some None \<and> getRank cmpNumber cmpString sl 3 [97] = Some (Some 0)"
proof -
  obtain sl where "index_of cmpNumber cmpString sl [(3, [97])]"
    using number_str.index_insert [OF number_str.index_empty, of 3 "[97]" "\<lambda>n. False"]
    by (auto simp: insert_sorted_def)
  with skiplist_rank [OF this, of 0] skiplist_rank [OF this, of 1] show ?thesis by auto
qed

text \<open>A range scan returns the entries between its bounds, ascending or descending, after
  \<open>offset\<close> of them and at most \<open>count\<close> many, when it has at most one lower and one upper bound.\<close>

theorem skiplist_range:
  assumes "index_of cmpNumber cmpString sl es" "single_bounds ro"
  shows "range_entries cmpNumber sl ro = Some (range_spec cmpNumber ro es)"
  by (rule number_str.index_range [OF assms])

definition sample_range :: "int range_options" where
  "sample_range = \<lparr>ro_gte = None, ro_gt = Some 3, ro_lte = Some 9, ro_lt = None, ro_offset = 0, ro_count = None, ro_reverse = True\<rparr>"

theorem skiplist_range_witness:
  "\<exists>sl. index_of cmpNumber cmpString sl [(3, [97]), (5, [98])] \<and>
    range_entries cmpNumber sl sample_range = Some [(5, [98])]"
proof -
  obtain s1 where s1: "index_of cmpNumber cmpString s1 [(3, [97])]"
    using number_str.index_insert [OF number_str.index_empty, of 3 "[97]" "\<lambda>n. False"]
    by (auto simp: insert_sorted_def)
  obtain sl where sl: "index_of cmpNumber cmpString sl [(3, [97]), (5, [98])]"
    using number_str.index_insert [OF s1, of 5 "[98]" "\<lambda>n. n < 2"]
    by (auto simp: insert_sorted_def entry_less_def cmpNumber_def)
  have "single_bounds sample_range" by (simp add: single_bounds_def sample_range_def)
  from skiplist_range [OF sl this] sl show ?thesis
    by (auto simp: range_spec_def sample_range_def below_lower_def above_upper_def cmpNumber_def)
qed

text \<open>With both \<open>gte\<close> and \<open>gt\<close> given, the scan starts strictly after \<open>gte\<close> and never looks at
  \<open>gt\<close>.\<close>

lemma range_both_lower_bounds:
  "ro_gte ro = Some a \<Longrightarrow> ro_gt ro = Some b \<Longrightarrow> \<not> ro_reverse ro \<Longrightarrow>
   range_entries cmpK sl ro = range_entries cmpK sl (ro\<lparr>ro_gte := None, ro_gt := Some a\<rparr>)"
proof -
  have "above_upper cmpK (ro\<lparr>ro_gte := None, ro_gt := Some a\<rparr>) = above_upper cmpK ro"
    by (rule ext) (simp add: above_upper_def)
  then show "ro_gte ro = Some a \<Longrightarrow> ro_gt ro = Some b \<Longrightarrow> \<not> ro_reverse ro \<Longrightarrow> ?thesis"
    by (simp add: range_entries_def range_start_def)
qed

end
