(* ===== verification/MinHeap.thy ===== *)
theory MinHeap
  imports Prelude "HOL-Library.Multiset"
begin

section \<open>The expiry heap (\<^verbatim>\<open>MinHeap\<close> of \<^verbatim>\<open>store.ts\<close>)\<close>

text \<open>
  A binary heap in an array, ordered by the timestamp. The invariant \<open>is_heap\<close> is the usual one;
  \<open>heap_queue\<close> is the interface the store relies on: a multiset of entries from which \<open>pop\<close> takes
  one with the least timestamp.
\<close>

record heap_entry =
  he_t :: int
  he_k :: js_string
  he_seq :: nat

definition swap :: "'a list \<Rightarrow> nat \<Rightarrow> nat \<Rightarrow> 'a list" where
  "swap a i j = a[i := a ! j, j := a ! i]"

function sift_up :: "heap_entry list \<Rightarrow> nat \<Rightarrow> heap_entry list" where
  "sift_up a i =
     (if i > 0 then
        let p = (i - 1) div 2
        in if he_t (a ! p) \<le> he_t (a ! i) then a else sift_up (swap a p i) p
      else a)"
  by pat_completeness auto
termination by (relation "measure snd") auto

declare sift_up.simps [simp del]

definition heap_push :: "heap_entry \<Rightarrow> heap_entry list \<Rightarrow> heap_entry list" where
  "heap_push item a = sift_up (a @ [item]) (length a)"

definition smallest_child :: "heap_entry list \<Rightarrow> nat \<Rightarrow> nat" where
  "smallest_child a i =
     (let l = 2 * i + 1; r = l + 1;
          s = (if l < length a \<and> he_t (a ! l) < he_t (a ! i) then l else i)
      in if r < length a \<and> he_t (a ! r) < he_t (a ! s) then r else s)"

lemma smallest_child_range: "smallest_child a i = i \<or> i < smallest_child a i \<and> smallest_child a i < length a"
  by (auto simp: smallest_child_def Let_def)

function sift_down :: "heap_entry list \<Rightarrow> nat \<Rightarrow> heap_entry list" where
  "sift_down a i =
     (let s = smallest_child a i in if s = i then a else sift_down (swap a s i) s)"
  by pat_completeness auto
termination
  by (relation "measure (\<lambda>(a, i). length a - i)") (use smallest_child_range in \<open>auto simp: swap_def, fastforce\<close>)

declare sift_down.simps [simp del]

definition heap_pop :: "heap_entry list \<Rightarrow> heap_entry option \<times> heap_entry list" where
  "heap_pop a =
     (if a = [] then (None, [])
      else let top = a ! 0; lst = last a; a' = butlast a
           in if length a' > 0 then (Some top, sift_down (a'[0 := lst]) 0) else (Some top, a'))"

definition heap_peek :: "heap_entry list \<Rightarrow> heap_entry option" where
  "heap_peek a = (if a = [] then None else Some (a ! 0))"

subsection \<open>The heap invariant\<close>

definition is_heap :: "heap_entry list \<Rightarrow> bool" where
  "is_heap a \<longleftrightarrow> (\<forall>j. 0 < j \<and> j < length a \<longrightarrow> he_t (a ! ((j - 1) div 2)) \<le> he_t (a ! j))"

text \<open>The invariant with one possible violation, between \<open>i\<close> and its parent or its children.\<close>

definition heap_above :: "heap_entry list \<Rightarrow> nat \<Rightarrow> bool" where
  "heap_above a i \<longleftrightarrow>
     (\<forall>j. 0 < j \<and> j < length a \<and> j \<noteq> i \<longrightarrow> he_t (a ! ((j - 1) div 2)) \<le> he_t (a ! j)) \<and>
     (\<forall>j. 0 < j \<and> j < length a \<and> (j - 1) div 2 = i \<and> 0 < i \<longrightarrow> he_t (a ! ((i - 1) div 2)) \<le> he_t (a ! j))"

definition heap_below :: "heap_entry list \<Rightarrow> nat \<Rightarrow> bool" where
  "heap_below a i \<longleftrightarrow>
     (\<forall>j. 0 < j \<and> j < length a \<and> (j - 1) div 2 \<noteq> i \<longrightarrow> he_t (a ! ((j - 1) div 2)) \<le> he_t (a ! j)) \<and>
     (\<forall>j. 0 < j \<and> j < length a \<and> (j - 1) div 2 = i \<and> 0 < i \<longrightarrow> he_t (a ! ((i - 1) div 2)) \<le> he_t (a ! j))"

lemma parent_less: "0 < (j :: nat) \<Longrightarrow> (j - 1) div 2 < j"
  by linarith

lemma length_swap [simp]: "length (swap a i j) = length a"
  by (simp add: swap_def)

lemma swap_nth: "i < length a \<Longrightarrow> j < length a \<Longrightarrow> n < length a \<Longrightarrow>
   swap a i j ! n = (if n = i then a ! j else if n = j then a ! i else a ! n)"
  by (auto simp: swap_def nth_list_update)

lemma mset_swap [simp]: "i < length a \<Longrightarrow> j < length a \<Longrightarrow> mset (swap a i j) = mset a"
  unfolding swap_def by (metis mset_swap)

lemma sift_up_heap: "heap_above a i \<Longrightarrow> i < length a \<Longrightarrow> is_heap (sift_up a i) \<and> mset (sift_up a i) = mset a"
proof (induction a i rule: sift_up.induct)
  case (1 a i)
  let ?p = "(i - 1) div 2"
  show ?case
  proof (cases "0 < i \<and> \<not> he_t (a ! ?p) \<le> he_t (a ! i)")
    case False
    then have "sift_up a i = a" by (subst sift_up.simps) (auto simp: Let_def)
    moreover have "is_heap a" using "1.prems" False by (auto simp: is_heap_def heap_above_def)
    ultimately show ?thesis by simp
  next
    case True
    then have p: "?p < i" "?p < length a" using "1.prems" by auto
    have "heap_above (swap a ?p i) ?p"
      unfolding heap_above_def
    proof (intro conjI allI impI)
      fix j assume j: "0 < j \<and> j < length (swap a ?p i) \<and> j \<noteq> ?p"
      show "he_t (swap a ?p i ! ((j - 1) div 2)) \<le> he_t (swap a ?p i ! j)"
      proof (cases "j = i")
        case True
        with \<open>0 < i \<and> _\<close> p "1.prems" show ?thesis by (simp add: swap_nth)
      next
        case False
        have "(j - 1) div 2 < length a" using j by auto
        with False j p "1.prems" True show ?thesis
          by (auto simp: swap_nth heap_above_def)
      qed
    next
      fix j assume j: "0 < j \<and> j < length (swap a ?p i) \<and> (j - 1) div 2 = ?p \<and> 0 < ?p"
      have q: "(?p - 1) div 2 < ?p" using j parent_less by blast
      then have "(?p - 1) div 2 < length a" using p by simp
      note q = q this
      have up: "he_t (a ! ((?p - 1) div 2)) \<le> he_t (a ! ?p)" using "1.prems" p j by (simp add: heap_above_def)
      obtain g where g: "g = (?p - 1) div 2" "g < ?p" "g < length a" using q by blast
      have "swap a ?p i ! g = a ! g" using swap_nth [of ?p a i g] p g(2,3) "1.prems" by simp
      moreover have "he_t (a ! g) \<le> he_t (swap a ?p i ! j)"
      proof (cases "j = i")
        case True
        with swap_nth [of ?p a i i] p "1.prems" up g(1) show ?thesis by simp
      next
        case False
        have "he_t (a ! ?p) \<le> he_t (a ! j)" using "1.prems" p j False by (auto simp: heap_above_def)
        moreover have "j \<noteq> ?p" using j parent_less [of j] by auto
        ultimately show ?thesis using swap_nth [of ?p a i j] False p j "1.prems" up g(1) by simp
      qed
      ultimately show "he_t (swap a ?p i ! ((?p - 1) div 2)) \<le> he_t (swap a ?p i ! j)"
        by (simp only: g(1))
    qed
    moreover have "sift_up a i = sift_up (swap a ?p i) ?p"
      using True by (subst sift_up.simps) (simp only: Let_def if_True if_False not_less)
    ultimately show ?thesis using "1.IH" [OF _ refl] True p "1.prems" by simp
  qed
qed

lemma smallest_child_spec:
  assumes "i < length a"
  shows "smallest_child a i \<noteq> i \<Longrightarrow> (smallest_child a i - 1) div 2 = i \<and> he_t (a ! smallest_child a i) < he_t (a ! i)"
    and "0 < j \<Longrightarrow> j < length a \<Longrightarrow> (j - 1) div 2 = i \<Longrightarrow> he_t (a ! smallest_child a i) \<le> he_t (a ! j)"
proof -
  show "smallest_child a i \<noteq> i \<Longrightarrow> (smallest_child a i - 1) div 2 = i \<and> he_t (a ! smallest_child a i) < he_t (a ! i)"
    by (auto simp: smallest_child_def Let_def split: if_splits)
  assume j: "0 < j" "j < length a" "(j - 1) div 2 = i"
  then have "j = 2 * i + 1 \<or> j = 2 * i + 2" by linarith
  with j show "he_t (a ! smallest_child a i) \<le> he_t (a ! j)"
    by (auto simp: smallest_child_def Let_def)
qed

lemma sift_down_heap: "heap_below a i \<Longrightarrow> i < length a \<Longrightarrow> is_heap (sift_down a i) \<and> mset (sift_down a i) = mset a"
proof (induction a i rule: sift_down.induct)
  case (1 a i)
  define s where "s = smallest_child a i"
  note sc = smallest_child_spec [OF "1.prems"(2), folded s_def]
  show ?case
  proof (cases "s = i")
    case True
    then have "sift_down a i = a" by (subst sift_down.simps) (simp add: s_def Let_def)
    moreover have "is_heap a"
      unfolding is_heap_def using "1.prems" sc(2) True by (metis heap_below_def)
    ultimately show ?thesis by simp
  next
    case False
    then have s: "(s - 1) div 2 = i" "he_t (a ! s) < he_t (a ! i)" "i < s" "s < length a"
      using sc(1) smallest_child_range [of a i] by (auto simp: s_def)
    have "heap_below (swap a s i) s"
      unfolding heap_below_def
    proof (intro conjI allI impI)
      fix j assume j: "0 < j \<and> j < length (swap a s i) \<and> (j - 1) div 2 \<noteq> s"
      let ?p = "(j - 1) div 2"
      have p: "?p < length a" "?p < j" using j by auto
      consider "?p = i" | "?p \<noteq> i" "j = i" | "?p \<noteq> i" "j \<noteq> i" by blast
      then show "he_t (swap a s i ! ?p) \<le> he_t (swap a s i ! j)"
      proof cases
        case 1
        then show ?thesis using j p s sc(2) [of j] "1.prems"(2) by (auto simp: swap_nth)
      next
        case 2
        then have "0 < i" "(s - 1) div 2 = i" "0 < s" using j s by auto
        then have "he_t (a ! ((i - 1) div 2)) \<le> he_t (a ! s)"
          using "1.prems"(1) s(4) by (simp add: heap_below_def)
        then show ?thesis using 2 j p s "1.prems"(2) by (auto simp: swap_nth)
      next
        case 3
        then have "he_t (a ! ?p) \<le> he_t (a ! j)" using "1.prems"(1) j by (simp add: heap_below_def)
        moreover have "j \<noteq> s" using 3 s by auto
        ultimately show ?thesis using 3 j p s "1.prems"(2) by (auto simp: swap_nth)
      qed
    next
      fix j assume j: "0 < j \<and> j < length (swap a s i) \<and> (j - 1) div 2 = s \<and> 0 < s"
      have j': "0 < j \<and> j < length a \<and> (j - 1) div 2 \<noteq> i" using j False by auto
      from "1.prems"(1) [unfolded heap_below_def, THEN conjunct1, rule_format, OF j']
      have "he_t (a ! ((j - 1) div 2)) \<le> he_t (a ! j)" .
      then have "he_t (a ! s) \<le> he_t (a ! j)" using j by simp
      moreover have "j \<noteq> i" "j \<noteq> s" using j s by auto
      ultimately show "he_t (swap a s i ! ((s - 1) div 2)) \<le> he_t (swap a s i ! j)"
        using j s "1.prems"(2) by (simp add: swap_nth)
    qed
    moreover have "sift_down a i = sift_down (swap a s i) s"
      using False by (subst sift_down.simps) (simp only: Let_def s_def [symmetric] if_False)
    ultimately show ?thesis using "1.IH" [OF s_def] False s "1.prems" by simp
  qed
qed

lemma heap_root: "is_heap a \<Longrightarrow> j < length a \<Longrightarrow> he_t (a ! 0) \<le> he_t (a ! j)"
proof (induction j rule: less_induct)
  case (less j)
  show ?case
  proof (cases "j = 0")
    case False
    then have "(j - 1) div 2 < j" by auto
    with less False have "he_t (a ! 0) \<le> he_t (a ! ((j - 1) div 2))" by auto
    also have "\<dots> \<le> he_t (a ! j)" using less False by (auto simp: is_heap_def)
    finally show ?thesis .
  qed simp
qed

lemma is_heap_butlast: "is_heap a \<Longrightarrow> is_heap (butlast a)"
  by (auto simp: is_heap_def nth_butlast)

lemma heap_push_ok: "is_heap a \<Longrightarrow> is_heap (heap_push e a) \<and> mset (heap_push e a) = add_mset e (mset a)"
proof -
  assume h: "is_heap a"
  have "heap_above (a @ [e]) (length a)"
    unfolding heap_above_def
  proof (intro conjI allI impI)
    fix j assume j: "0 < j \<and> j < length (a @ [e]) \<and> j \<noteq> length a"
    then have "(j - 1) div 2 < length a" by auto
    with j h show "he_t ((a @ [e]) ! ((j - 1) div 2)) \<le> he_t ((a @ [e]) ! j)" by (simp add: nth_append is_heap_def)
  qed auto
  from sift_up_heap [OF this] show ?thesis by (simp add: heap_push_def)
qed

lemma heap_pop_ok:
  assumes h: "is_heap a" and ne: "a \<noteq> []"
  shows "\<exists>b. heap_pop a = (Some (a ! 0), b) \<and> is_heap b \<and> mset a = add_mset (a ! 0) (mset b)"
proof (cases "length (butlast a) > 0")
  case False
  then have "length a = 1" using ne by (cases a) (auto split: if_splits)
  then obtain x where "a = [x]" by (auto simp: length_Suc_conv)
  then show ?thesis by (simp add: heap_pop_def is_heap_def)
next
  case True
  let ?c = "(butlast a)[0 := last a]"
  have len: "length ?c = length a - 1" by simp
  have c: "?c ! j = (if j = 0 then last a else a ! j)" if "j < length a - 1" for j
    using that True by (simp add: nth_list_update nth_butlast)
  have "heap_below ?c 0"
    unfolding heap_below_def
  proof (intro conjI allI impI)
    fix j assume j: "0 < j \<and> j < length ?c \<and> (j - 1) div 2 \<noteq> 0"
    then have "(j - 1) div 2 < length a - 1" by auto
    moreover have "he_t (a ! ((j - 1) div 2)) \<le> he_t (a ! j)" using j h by (auto simp: is_heap_def)
    ultimately show "he_t (?c ! ((j - 1) div 2)) \<le> he_t (?c ! j)" using j by (simp add: nth_butlast)
  qed simp
  from sift_down_heap [OF this] True
  have d: "is_heap (sift_down ?c 0)" "mset (sift_down ?c 0) = mset ?c" by simp_all
  obtain x xs where a: "butlast a = x # xs" using True by (cases "butlast a") auto
  then have "a = x # xs @ [last a]" using ne by (metis append_Cons append_butlast_last_id)
  then have "mset a = add_mset (a ! 0) (mset ?c)" by (metis a list_update_code(2) mset.simps(2) mset_append
    nth_Cons_0 union_commute add_mset_add_single union_mset_add_mset_left mset_rev rev.simps(2))
  with d ne True a show ?thesis by (simp add: heap_pop_def Let_def)
qed

subsection \<open>The interface of the expiry queue\<close>

text \<open>
  The store pushes entries and drains those that are due. The contract is stated over the multiset
  of the entries; \<open>due_first\<close> is what the draining loop uses.
\<close>

locale heap_queue =
  fixes emp :: 'q
    and push :: "heap_entry \<Rightarrow> 'q \<Rightarrow> 'q"
    and pop :: "'q \<Rightarrow> heap_entry option \<times> 'q"
    and peek :: "'q \<Rightarrow> heap_entry option"
    and ok :: "'q \<Rightarrow> bool"
    and contents :: "'q \<Rightarrow> heap_entry multiset"
  assumes emp: "ok emp" "contents emp = {#}"
    and push: "ok q \<Longrightarrow> ok (push e q)" "ok q \<Longrightarrow> contents (push e q) = add_mset e (contents q)"
    and peek: "ok q \<Longrightarrow> peek q = None \<longleftrightarrow> contents q = {#}"
    and peek_min: "ok q \<Longrightarrow> peek q = Some e \<Longrightarrow> e \<in># contents q \<and> (\<forall>f\<in>#contents q. he_t e \<le> he_t f)"
    and pop: "ok q \<Longrightarrow> peek q = Some e \<Longrightarrow>
      \<exists>q'. pop q = (Some e, q') \<and> ok q' \<and> contents q = add_mset e (contents q')"
begin

lemma none_due: "ok q \<Longrightarrow> peek q = Some e \<Longrightarrow> \<not> he_t e \<le> now \<Longrightarrow> f \<in># contents q \<Longrightarrow> \<not> he_t f \<le> now"
  using peek_min by force

lemma pop_size: "ok q \<Longrightarrow> peek q = Some e \<Longrightarrow> pop q = (x, q') \<Longrightarrow> size (contents q') < size (contents q)"
  using pop by force

lemma push_all: "ok q \<Longrightarrow> ok (fold push es q) \<and> contents (fold push es q) = contents q + mset es"
  by (induction es arbitrary: q) (auto simp: push)

end

interpretation heap: heap_queue "[]" heap_push heap_pop heap_peek is_heap mset
proof unfold_locales
  fix q and e :: heap_entry
  show "is_heap []" "mset [] = ({#} :: heap_entry multiset)" by (simp_all add: is_heap_def)
  show "is_heap q \<Longrightarrow> is_heap (heap_push e q)" "is_heap q \<Longrightarrow> mset (heap_push e q) = add_mset e (mset q)"
    using heap_push_ok by auto
  show "(heap_peek q = None) = (mset q = {#})" by (simp add: heap_peek_def)
  show "is_heap q \<Longrightarrow> heap_peek q = Some e \<Longrightarrow> e \<in># mset q \<and> (\<forall>f\<in>#mset q. he_t e \<le> he_t f)"
    using heap_root [of q] by (auto simp: heap_peek_def in_set_conv_nth split: if_splits)
  show "is_heap q \<Longrightarrow> heap_peek q = Some e \<Longrightarrow>
      \<exists>q'. heap_pop q = (Some e, q') \<and> is_heap q' \<and> mset q = add_mset e (mset q')"
    using heap_pop_ok [of q] by (auto simp: heap_peek_def split: if_splits)
qed

lemma length_heap_push: "is_heap q \<Longrightarrow> length (heap_push e q) = Suc (length q)"
  using heap.push(2) [of q e] by (metis size_add_mset size_mset)

subsection \<open>Properties\<close>

text \<open>The expiry heap is a priority queue. From any sequence of pushes, \<open>pop\<close> returns an entry
  with the least timestamp, the entries left are exactly the others, and the heap order holds
  again, so repeated pops return the entries in order of their timestamps.\<close>

theorem heap_pop_least:
  assumes "is_heap a" "a \<noteq> []"
  shows "\<exists>e b. heap_pop a = (Some e, b) \<and> heap_peek a = Some e \<and> is_heap b \<and>
    mset a = add_mset e (mset b) \<and> (\<forall>f\<in>set a. he_t e \<le> he_t f)"
proof -
  obtain e where e: "heap_peek a = Some e" using assms by (simp add: heap_peek_def)
  from heap.pop [OF assms(1) e] heap.peek_min [OF assms(1) e] e show ?thesis by auto
qed

theorem heap_pop_least_witness:
  "\<exists>e b. heap_pop (heap_push \<lparr>he_t = 3, he_k = [120], he_seq = 2\<rparr> [\<lparr>he_t = 7, he_k = [121], he_seq = 1\<rparr>]) = (Some e, b)
    \<and> he_t e \<le> 3"
proof -
  let ?y = "\<lparr>he_t = 7, he_k = [121], he_seq = 1\<rparr>" and ?x = "\<lparr>he_t = 3, he_k = [120], he_seq = 2\<rparr>"
  let ?a = "heap_push ?x [?y]"
  have a: "is_heap ?a" "mset ?a = {#?x, ?y#}"
    using heap_push_ok [of "[?y]" ?x] by (auto simp: is_heap_def)
  have "?x \<in># mset ?a" by (simp only: a(2)) simp
  then have x: "?x \<in> set ?a" by (simp only: set_mset_mset)
  then have "?a \<noteq> []" by (metis list.set(1) empty_iff)
  from heap_pop_least [OF a(1) this] obtain e b
    where "heap_pop ?a = (Some e, b)" "\<forall>f\<in>set ?a. he_t e \<le> he_t f" by blast
  moreover from this(2) have "he_t e \<le> he_t ?x" using x by (rule bspec)
  ultimately show ?thesis by auto
qed

end
