(* ===== verification/Store.thy ===== *)
theory Store
  imports SkipListSpec MinHeap "HOL-Library.AList"
begin

section \<open>The in-memory store (\<^verbatim>\<open>store.ts\<close>)\<close>

text \<open>
  The JavaScript \<open>Map\<close> keeps the insertion order of its keys: it is an association list, updated
  in place by \<open>AList.update\<close>. The key order is the skip list, the expiry queue the heap. Operations
  that use the skip list are in the option monad, \<open>None\<close> standing for a walk that does not return.
  \<open>now\<close> is what \<^verbatim>\<open>Date.now()\<close> returns in the call, the levels drawn by the skip list are an
  argument, and the calls of \<open>onExpire\<close> are collected in \<open>st_notified\<close>. The caller's reader of
  disk-backed values is a parameter. Numbers are integers below \<open>10^21\<close>, whose JSON text is their
  decimal digits.
\<close>

datatype value_file = Snapshot_file | Wal_file

record value_loc =
  vl_file :: value_file
  vl_off :: nat
  vl_len :: nat

datatype value_ref = Memory buffer | Disk value_loc

type_synonym dt_columns = "(js_string \<times> int) list"

record store_record =
  sr_ref :: value_ref
  sr_expireAt :: int
  sr_seq :: nat
  sr_dt :: "dt_columns option"

record store_entry =
  se_key :: buffer
  se_value :: buffer
  se_expireAt :: int
  se_dt :: "dt_columns option"

datatype store_error = NoValueReader | ReadFailed

type_synonym value_reader = "(value_loc \<Rightarrow> (store_error, buffer) res) option"

record store =
  st_map :: "(js_string \<times> store_record) list"
  st_order :: "(js_string, js_string) skip_list"
  st_heap :: "heap_entry list"
  st_seq :: nat
  st_bytes :: int
  st_expiring :: int
  st_maxPerTick :: nat
  st_expireTimeBudgetMs :: int
  st_expireAggressive :: bool
  st_notified :: "(js_string \<times> store_record) list"

definition new_store :: "nat \<Rightarrow> int \<Rightarrow> store" where
  "new_store maxPerTick budget =
     \<lparr>st_map = [], st_order = empty_list, st_heap = [], st_seq = 0, st_bytes = 0, st_expiring = 0,
      st_maxPerTick = maxPerTick, st_expireTimeBudgetMs = budget, st_expireAggressive = False, st_notified = []\<rparr>"

definition bufToKStr :: "buffer \<Rightarrow> js_string" where "bufToKStr b = map ucast b"
definition fromKStr :: "js_string \<Rightarrow> buffer" where "fromKStr k = map ucast k"

lemma fromKStr_bufToKStr [simp]: "fromKStr (bufToKStr b) = b"
  by (simp add: fromKStr_def bufToKStr_def comp_def ucast_up_ucast_id is_up)

subsection \<open>Accounting\<close>

definition DISK_REF_BYTES :: nat where "DISK_REF_BYTES = 64"

text \<open>The UTF-8 length of a string as \<^verbatim>\<open>JSON.stringify\<close> writes it.\<close>

fun json_units :: "js_string \<Rightarrow> nat" where
  "json_units [] = 0"
| "json_units (u # us) =
     (if 0xD800 \<le> u \<and> u < 0xDC00 \<and> us \<noteq> [] \<and> 0xDC00 \<le> hd us \<and> hd us < 0xE000 then 4 + json_units (tl us)
      else (if u = 34 \<or> u = 92 \<or> u \<in> {8, 9, 10, 12, 13} then 2
            else if u < 32 then 6
            else if u < 0x80 then 1
            else if u < 0x800 then 2
            else if 0xD800 \<le> u \<and> u < 0xE000 then 6
            else 3) + json_units us)"

fun nat_digits :: "nat \<Rightarrow> nat" where
  "nat_digits n = (if n < 10 then 1 else Suc (nat_digits (n div 10)))"

declare nat_digits.simps [simp del]

definition json_int :: "int \<Rightarrow> nat" where
  "json_int n = (if n < 0 then 1 else 0) + nat_digits (nat \<bar>n\<bar>)"

text \<open>The length of \<^verbatim>\<open>{"dt":{"a":1,"b":2}}\<close>.\<close>

definition json_dt_bytes :: "dt_columns \<Rightarrow> nat" where
  "json_dt_bytes dt = 9 + sum_list (map (\<lambda>(k, n). 3 + json_units k + json_int n) dt) + (length dt - 1)"

definition metaBytes :: "dt_columns option \<Rightarrow> nat" where
  "metaBytes dt = (case dt of None \<Rightarrow> 0 | Some d \<Rightarrow> json_dt_bytes d)"

definition refBytes :: "value_ref \<Rightarrow> nat" where
  "refBytes ref = (case ref of Memory v \<Rightarrow> length v | Disk loc \<Rightarrow> DISK_REF_BYTES)"

definition record_size :: "js_string \<Rightarrow> store_record \<Rightarrow> int" where
  "record_size k r = int (length k + refBytes (sr_ref r) + metaBytes (sr_dt r))"

definition recordBytes :: "js_string \<Rightarrow> store \<Rightarrow> int" where
  "recordBytes k s = (case map_of (st_map s) k of Some r \<Rightarrow> record_size k r | None \<Rightarrow> 0)"

definition estimateSetBytes :: "js_string \<Rightarrow> buffer \<Rightarrow> dt_columns option \<Rightarrow> bool \<Rightarrow> int" where
  "estimateSetBytes k value dt countValue =
     int (length k + (if countValue then length value else DISK_REF_BYTES) + metaBytes dt)"

definition materialize :: "value_reader \<Rightarrow> value_ref \<Rightarrow> (store_error, buffer) res" where
  "materialize reader ref =
     (case ref of
        Memory v \<Rightarrow> Inr v
      | Disk loc \<Rightarrow> (case reader of None \<Rightarrow> Inl NoValueReader | Some read \<Rightarrow> read loc))"

definition expired :: "int \<Rightarrow> store_record \<Rightarrow> bool" where
  "expired now r \<longleftrightarrow> sr_expireAt r \<noteq> 0 \<and> sr_expireAt r \<le> now"

definition store_size :: "int \<Rightarrow> store \<Rightarrow> nat" where
  "store_size now s =
     (if st_expiring s = 0 then length (st_map s)
      else length (filter (\<lambda>(k, r). sr_expireAt r = 0 \<or> sr_expireAt r > now) (st_map s)))"

subsection \<open>Removal and update\<close>

definition remove_key :: "js_string \<Rightarrow> store \<Rightarrow> (bool \<times> store) option" where
  "remove_key k s =
     (case map_of (st_map s) k of
        None \<Rightarrow> Some (False, s)
      | Some r \<Rightarrow>
          do { (found, order) \<leftarrow> delete_node cmpString cmpString k k (st_order s);
               Some (True, s\<lparr>st_map := AList.delete k (st_map s),
                             st_bytes := st_bytes s - record_size k r,
                             st_expiring := (if sr_expireAt r \<noteq> 0 then st_expiring s - 1 else st_expiring s),
                             st_order := order\<rparr>) })"

definition expireKey :: "js_string \<Rightarrow> store_record \<Rightarrow> store \<Rightarrow> store option" where
  "expireKey k r s =
     do { (ok, s') \<leftarrow> remove_key k s;
          Some (if ok then s'\<lparr>st_notified := st_notified s' @ [(k, r)]\<rparr> else s') }"

definition rebuildHeap :: "store \<Rightarrow> store" where
  "rebuildHeap s = s\<lparr>st_heap :=
     fold (\<lambda>(k, r) h. if sr_expireAt r \<noteq> 0
                      then heap_push \<lparr>he_t = sr_expireAt r, he_k = k, he_seq = sr_seq r\<rparr> h else h) (st_map s) []\<rparr>"

definition setRef :: "js_string \<Rightarrow> value_ref \<Rightarrow> int \<Rightarrow> dt_columns option \<Rightarrow> (nat \<Rightarrow> bool) \<Rightarrow> store \<Rightarrow> store option" where
  "setRef k ref expireAt dt draw s =
     (let prev = map_of (st_map s) k;
          s1 = (case prev of
                  None \<Rightarrow> s
                | Some p \<Rightarrow> s\<lparr>st_expiring := (if sr_expireAt p \<noteq> 0 then st_expiring s - 1 else st_expiring s),
                               st_bytes := st_bytes s - recordBytes k s\<rparr>);
          seq = st_seq s1 + 1;
          r = \<lparr>sr_ref = ref, sr_expireAt = expireAt, sr_seq = seq, sr_dt = dt\<rparr>;
          s2 = s1\<lparr>st_seq := seq, st_map := AList.update k r (st_map s1),
                  st_bytes := st_bytes s1 + int (length k + refBytes ref + metaBytes dt)\<rparr>
      in do { order \<leftarrow> (if prev = None then insert_node cmpString cmpString k k draw (st_order s2)
                       else Some (st_order s2));
              let s3 = s2\<lparr>st_order := order\<rparr>;
              Some (if expireAt \<noteq> 0 then
                      let s4 = s3\<lparr>st_expiring := st_expiring s3 + 1,
                                  st_heap := heap_push \<lparr>he_t = expireAt, he_k = k, he_seq = seq\<rparr> (st_heap s3)\<rparr>
                      in if length (st_heap s4) > length (st_map s4) * 2 + 64 then rebuildHeap s4 else s4
                    else s3) })"

definition store_set :: "js_string \<Rightarrow> buffer \<Rightarrow> int \<Rightarrow> dt_columns option \<Rightarrow> (nat \<Rightarrow> bool) \<Rightarrow> store \<Rightarrow> store option" where
  "store_set k value expireAt dt draw s = setRef k (Memory value) expireAt dt draw s"

subsection \<open>Reads\<close>

definition getRecord :: "js_string \<Rightarrow> int \<Rightarrow> store \<Rightarrow> (store_record option \<times> store) option" where
  "getRecord k now s =
     (case map_of (st_map s) k of
        None \<Rightarrow> Some (None, s)
      | Some r \<Rightarrow> if expired now r then do { s' \<leftarrow> expireKey k r s; Some (None, s') } else Some (Some r, s))"

definition store_get :: "value_reader \<Rightarrow> js_string \<Rightarrow> int \<Rightarrow> store \<Rightarrow> ((store_error, buffer option) res \<times> store) option" where
  "store_get reader k now s =
     (case map_of (st_map s) k of
        None \<Rightarrow> Some (Inr None, s)
      | Some r \<Rightarrow>
          if expired now r then do { s' \<leftarrow> expireKey k r s; Some (Inr None, s') }
          else Some (bind_res (materialize reader (sr_ref r)) (\<lambda>v. Inr (Some v)), s))"

definition store_has :: "js_string \<Rightarrow> int \<Rightarrow> store \<Rightarrow> (bool \<times> store) option" where
  "store_has k now s =
     (case map_of (st_map s) k of
        None \<Rightarrow> Some (False, s)
      | Some r \<Rightarrow> if expired now r then do { s' \<leftarrow> expireKey k r s; Some (False, s') } else Some (True, s))"

definition store_del :: "js_string \<Rightarrow> store \<Rightarrow> (bool \<times> store) option" where
  "store_del k s = remove_key k s"

definition entry_of :: "js_string \<Rightarrow> store_record \<Rightarrow> buffer \<Rightarrow> store_entry" where
  "entry_of k r v = \<lparr>se_key = fromKStr k, se_value = v, se_expireAt = sr_expireAt r, se_dt = sr_dt r\<rparr>"

fun entries_loop :: "value_reader \<Rightarrow> int \<Rightarrow> (js_string \<times> store_record) list \<Rightarrow> (store_error, store_entry list) res" where
  "entries_loop reader now [] = Inr []"
| "entries_loop reader now ((k, r) # xs) =
     (if expired now r then entries_loop reader now xs
      else bind_res (materialize reader (sr_ref r)) (\<lambda>v.
           bind_res (entries_loop reader now xs) (\<lambda>es. Inr (entry_of k r v # es))))"

definition store_entries :: "value_reader \<Rightarrow> int \<Rightarrow> store \<Rightarrow> (store_error, store_entry list) res" where
  "store_entries reader now s = entries_loop reader now (st_map s)"

text \<open>\<open>clock i\<close> is the time at the \<open>i\<close>-th key of the scan.\<close>

fun scan_loop :: "value_reader \<Rightarrow> (nat \<Rightarrow> int) \<Rightarrow> nat \<Rightarrow> js_string list \<Rightarrow> store
    \<Rightarrow> ((store_error, store_entry list) res \<times> store) option" where
  "scan_loop reader clock i [] s = Some (Inr [], s)"
| "scan_loop reader clock i (k # ks) s =
     do { (r, s1) \<leftarrow> getRecord k (clock i) s;
          case r of
            None \<Rightarrow> scan_loop reader clock (Suc i) ks s1
          | Some rec \<Rightarrow>
              (case materialize reader (sr_ref rec) of
                 Inl e \<Rightarrow> Some (Inl e, s1)
               | Inr v \<Rightarrow> do { (rest, s2) \<leftarrow> scan_loop reader clock (Suc i) ks s1;
                              Some (bind_res rest (\<lambda>es. Inr (entry_of k rec v # es)), s2) }) }"

definition store_scan :: "value_reader \<Rightarrow> (nat \<Rightarrow> int) \<Rightarrow> js_string range_options \<Rightarrow> store
    \<Rightarrow> ((store_error, store_entry list) res \<times> store) option" where
  "store_scan reader clock ro s =
     do { ns \<leftarrow> range_entries cmpString (st_order s) ro; scan_loop reader clock 0 (map fst ns) s }"

definition prefix_options :: "js_string \<Rightarrow> int option \<Rightarrow> js_string range_options" where
  "prefix_options p limit = \<lparr>ro_gte = Some p, ro_gt = None, ro_lte = None, ro_lt = Some (p @ [0xFFFF]),
                            ro_offset = 0, ro_count = limit, ro_reverse = False\<rparr>"

definition store_prefix :: "value_reader \<Rightarrow> (nat \<Rightarrow> int) \<Rightarrow> js_string \<Rightarrow> int option \<Rightarrow> store
    \<Rightarrow> ((store_error, store_entry list) res \<times> store) option" where
  "store_prefix reader clock p limit s = store_scan reader clock (prefix_options p limit) s"

fun raw_keys_loop :: "(nat \<Rightarrow> int) \<Rightarrow> nat \<Rightarrow> js_string list \<Rightarrow> store \<Rightarrow> (js_string list \<times> store) option" where
  "raw_keys_loop clock i [] s = Some ([], s)"
| "raw_keys_loop clock i (k # ks) s =
     do { (r, s1) \<leftarrow> getRecord k (clock i) s;
          (rest, s2) \<leftarrow> raw_keys_loop clock (Suc i) ks s1;
          Some (if r = None then rest else k # rest, s2) }"

definition rawKeys :: "(nat \<Rightarrow> int) \<Rightarrow> js_string range_options \<Rightarrow> store \<Rightarrow> (js_string list \<times> store) option" where
  "rawKeys clock ro s =
     do { ns \<leftarrow> range_entries cmpString (st_order s) ro; raw_keys_loop clock 0 (map fst ns) s }"

subsection \<open>Relocation and expiration\<close>

definition remapLocs :: "(js_string \<Rightarrow> value_loc \<Rightarrow> store_record \<Rightarrow> value_loc option) \<Rightarrow> store \<Rightarrow> store" where
  "remapLocs remap s = s\<lparr>st_map := map (\<lambda>(k, r). (k,
     case sr_ref r of
       Memory v \<Rightarrow> r
     | Disk loc \<Rightarrow> (case remap k loc r of None \<Rightarrow> r | Some loc' \<Rightarrow> r\<lparr>sr_ref := Disk loc'\<rparr>))) (st_map s)\<rparr>"

text \<open>The loop of one expiration tick; \<open>clock n\<close> is the time read after \<open>n\<close> pops.\<close>

partial_function (option) active_loop ::
  "(nat \<Rightarrow> int) \<Rightarrow> int \<Rightarrow> int \<Rightarrow> nat \<Rightarrow> nat \<Rightarrow> store \<Rightarrow> (nat \<times> store) option" where
  "active_loop clock deadline now n reaped s =
     (case heap_peek (st_heap s) of
        None \<Rightarrow> Some (reaped, s)
      | Some root \<Rightarrow>
          if \<not> he_t root \<le> now then Some (reaped, s)
          else if n \<ge> st_maxPerTick s \<and> n mod 16 = 0 \<and> clock n \<ge> deadline then Some (reaped, s)
          else
            (let (e, h) = heap_pop (st_heap s); s1 = s\<lparr>st_heap := h\<rparr>; k = he_k (the e)
             in case map_of (st_map s1) k of
                  None \<Rightarrow> active_loop clock deadline now (n + 1) reaped s1
                | Some r \<Rightarrow>
                    if sr_seq r = he_seq (the e) \<and> expired now r
                    then Option.bind (expireKey k r s1) (\<lambda>s2. active_loop clock deadline now (n + 1) (reaped + 1) s2)
                    else active_loop clock deadline now (n + 1) reaped s1))"

definition activeExpire :: "int \<Rightarrow> (nat \<Rightarrow> int) \<Rightarrow> store \<Rightarrow> store option" where
  "activeExpire now clock s =
     (let deadline = now + (if st_expireAggressive s then max (st_expireTimeBudgetMs s) 10 else st_expireTimeBudgetMs s)
      in do { (reaped, s') \<leftarrow> active_loop clock deadline now 0 0 s;
              Some (s'\<lparr>st_expireAggressive := (reaped \<ge> st_maxPerTick s')\<rparr>) })"

fun reap_loop :: "int \<Rightarrow> (js_string \<times> store_record) list \<Rightarrow> store \<Rightarrow> (nat \<times> store) option" where
  "reap_loop now [] s = Some (0, s)"
| "reap_loop now ((k, r) # xs) s =
     (if expired now r
      then do { s1 \<leftarrow> expireKey k r s; (n, s2) \<leftarrow> reap_loop now xs s1; Some (n + 1, s2) }
      else reap_loop now xs s)"

definition reapExpired :: "int \<Rightarrow> store \<Rightarrow> (nat \<times> store) option" where
  "reapExpired now s = reap_loop now (st_map s) s"

end
