(* ===== verification/StoreInv.thy ===== *)
theory StoreInv
  imports Store
begin

section \<open>The store: invariant and effect of each operation\<close>

text \<open>
  \<open>store_inv\<close> ties the parts of the store together: the key order lists exactly the keys of the
  map, the byte and TTL counters are the sums over it, and the expiry heap has an entry for every
  record with a TTL and none that names a live record with another expiry. \<open>live\<close> is the abstract
  view a client has at a time: the records that have not expired.
\<close>

definition keys_index :: "store \<Rightarrow> bool" where
  "keys_index s \<longleftrightarrow>
     (\<exists>es. index_of cmpString cmpString (st_order s) es \<and> set es = (\<lambda>k. (k, k)) ` fst ` set (st_map s))"

definition total_bytes :: "(js_string \<times> store_record) list \<Rightarrow> int" where
  "total_bytes m = sum_list (map (\<lambda>(k, r). record_size k r) m)"

definition ttl_count :: "(js_string \<times> store_record) list \<Rightarrow> int" where
  "ttl_count m = sum_list (map (\<lambda>(k, r). if sr_expireAt r \<noteq> 0 then 1 else 0) m)"

definition heap_covers :: "(js_string \<times> store_record) list \<Rightarrow> heap_entry list \<Rightarrow> bool" where
  "heap_covers m h \<longleftrightarrow> (\<forall>k r. map_of m k = Some r \<and> sr_expireAt r \<noteq> 0 \<longrightarrow>
     \<lparr>he_t = sr_expireAt r, he_k = k, he_seq = sr_seq r\<rparr> \<in> set h)"

definition heap_sound :: "nat \<Rightarrow> (js_string \<times> store_record) list \<Rightarrow> heap_entry list \<Rightarrow> bool" where
  "heap_sound sq m h \<longleftrightarrow> (\<forall>e\<in>set h. he_seq e \<le> sq \<and>
     (\<forall>r. map_of m (he_k e) = Some r \<and> sr_seq r = he_seq e \<longrightarrow> sr_expireAt r = he_t e))"

definition seqs_ok :: "nat \<Rightarrow> (js_string \<times> store_record) list \<Rightarrow> bool" where
  "seqs_ok sq m \<longleftrightarrow> (\<forall>k r. map_of m k = Some r \<longrightarrow> sr_seq r \<le> sq)"

definition store_inv :: "store \<Rightarrow> bool" where
  "store_inv s \<longleftrightarrow>
     distinct (map fst (st_map s)) \<and> keys_index s \<and>
     st_bytes s = total_bytes (st_map s) \<and> st_expiring s = ttl_count (st_map s) \<and>
     is_heap (st_heap s) \<and> heap_covers (st_map s) (st_heap s) \<and>
     heap_sound (st_seq s) (st_map s) (st_heap s) \<and> seqs_ok (st_seq s) (st_map s)"

definition live :: "int \<Rightarrow> store \<Rightarrow> js_string \<Rightarrow> store_record option" where
  "live now s k =
     (case map_of (st_map s) k of None \<Rightarrow> None | Some r \<Rightarrow> if expired now r then None else Some r)"

subsection \<open>Updates of the map\<close>

lemma sum_delete:
  "distinct (map fst m) \<Longrightarrow> map_of m k = Some r \<Longrightarrow>
   sum_list (map f m) = f (k, r) + sum_list (map f (AList.delete k m))" for f :: "'k \<times> 'v \<Rightarrow> int"
proof (induction m)
  case Nil
  then show ?case by simp
next
  case (Cons p m)
  obtain k' r' where p: "p = (k', r')" by (cases p)
  show ?case
  proof (cases "k' = k")
    case True
    then have "AList.delete k m = m" using Cons.prems(1) p by (auto simp: AList.delete_notin_dom)
    with True p Cons.prems show ?thesis by simp
  next
    case False
    with Cons p show ?thesis by simp
  qed
qed

lemma sum_update:
  "distinct (map fst m) \<Longrightarrow>
   sum_list (map f (AList.update k r m)) = f (k, r) + sum_list (map f (AList.delete k m))" for f :: "'k \<times> 'v \<Rightarrow> int"
proof (induction m)
  case Nil
  then show ?case by simp
next
  case (Cons p m)
  obtain k' r' where p: "p = (k', r')" by (cases p)
  show ?case
  proof (cases "k' = k")
    case True
    then have "AList.delete k m = m" using Cons.prems p by (auto simp: AList.delete_notin_dom)
    with True p show ?thesis by simp
  next
    case False
    with Cons p show ?thesis by simp
  qed
qed

lemma keys_update: "fst ` set (AList.update k r m) = insert k (fst ` set m)"
  by (induction m) auto

lemma keys_delete: "fst ` set (AList.delete k m) = fst ` set m - {k}"
  by (auto simp: AList.delete_eq)

lemma length_update: "length (AList.update k r m) = (if k \<in> fst ` set m then length m else Suc (length m))"
  by (induction m) auto

lemma map_of_delete: "map_of (AList.delete k m) k' = (if k' = k then None else map_of m k')"
  by (simp add: AList.delete_conv')

lemma map_of_update: "map_of (AList.update k r m) k' = (if k' = k then Some r else map_of m k')"
  by (simp add: AList.update_conv')

lemma map_of_None_iff: "map_of m k = None \<longleftrightarrow> k \<notin> fst ` set m"
  by (simp add: map_of_eq_None_iff)

lemma total_bytes_simps:
  "distinct (map fst m) \<Longrightarrow> map_of m k = Some r \<Longrightarrow> total_bytes (AList.delete k m) = total_bytes m - record_size k r"
  "distinct (map fst m) \<Longrightarrow> total_bytes (AList.update k r m) = record_size k r + total_bytes (AList.delete k m)"
  using sum_delete [of m k r "\<lambda>(k, r). record_size k r"] sum_update [of m "\<lambda>(k, r). record_size k r" k r]
  by (simp_all add: total_bytes_def)

lemma ttl_count_simps:
  "distinct (map fst m) \<Longrightarrow> map_of m k = Some r \<Longrightarrow>
     ttl_count (AList.delete k m) = ttl_count m - (if sr_expireAt r \<noteq> 0 then 1 else 0)"
  "distinct (map fst m) \<Longrightarrow> ttl_count (AList.update k r m) = (if sr_expireAt r \<noteq> 0 then 1 else 0) + ttl_count (AList.delete k m)"
  using sum_delete [of m k r "\<lambda>(k, r). if sr_expireAt r \<noteq> 0 then 1 else 0"]
    sum_update [of m "\<lambda>(k, r). if sr_expireAt r \<noteq> 0 then 1 else 0" k r]
  by (simp_all add: ttl_count_def)

lemma delete_absent: "map_of m k = None \<Longrightarrow> AList.delete k m = m"
  by (simp add: map_of_None_iff AList.delete_notin_dom)

lemma heap_covers_delete: "heap_covers m h \<Longrightarrow> heap_covers (AList.delete k m) h"
  by (simp add: heap_covers_def map_of_delete)

lemma heap_sound_delete: "heap_sound sq m h \<Longrightarrow> heap_sound sq (AList.delete k m) h"
  by (auto simp: heap_sound_def map_of_delete)

lemma seqs_ok_delete: "seqs_ok sq m \<Longrightarrow> seqs_ok sq (AList.delete k m)"
  by (auto simp: seqs_ok_def map_of_delete)

subsection \<open>Removal\<close>

lemma pair_image: "(k, k) \<in> (\<lambda>k. (k, k)) ` X \<longleftrightarrow> k \<in> X" "(\<lambda>k. (k, k)) ` X - {(k, k)} = (\<lambda>k. (k, k)) ` (X - {k})"
  by auto

lemma order_delete:
  assumes "keys_index s"
  shows "\<exists>order. delete_node cmpString cmpString k k (st_order s) = Some (k \<in> fst ` set (st_map s), order) \<and>
    (\<exists>es. index_of cmpString cmpString order es \<and> set es = (\<lambda>k. (k, k)) ` (fst ` set (st_map s) - {k}))"
proof -
  obtain es where es: "index_of cmpString cmpString (st_order s) es" "set es = (\<lambda>k. (k, k)) ` fst ` set (st_map s)"
    using assms by (auto simp: keys_index_def)
  obtain order fs where o: "delete_node cmpString cmpString k k (st_order s) = Some ((k, k) \<in> set es, order)"
    "index_of cmpString cmpString order fs" "set fs = set es - {(k, k)}"
    using str_str.index.del_set [OF es(1), of "(k, k)"] by auto
  have m: "(k, k) \<in> set es \<longleftrightarrow> k \<in> fst ` set (st_map s)" unfolding es(2) by (rule pair_image(1))
  have "set es - {(k, k)} = (\<lambda>k. (k, k)) ` (fst ` set (st_map s) - {k})" unfolding es(2) by (rule pair_image(2))
  with o(3) have "set fs = (\<lambda>k. (k, k)) ` (fst ` set (st_map s) - {k})" by (rule trans)
  with o(1,2) show ?thesis unfolding m by blast
qed

lemma order_insert:
  assumes "keys_index s" "k \<notin> fst ` set (st_map s)"
  shows "\<exists>order. insert_node cmpString cmpString k k draw (st_order s) = Some order \<and>
    (\<exists>es. index_of cmpString cmpString order es \<and> set es = (\<lambda>k. (k, k)) ` insert k (fst ` set (st_map s)))"
proof -
  obtain es where es: "index_of cmpString cmpString (st_order s) es" "set es = (\<lambda>k. (k, k)) ` fst ` set (st_map s)"
    using assms by (auto simp: keys_index_def)
  with assms(2) have "(k, k) \<notin> set es" by auto
  from str_str.index.ins_set [OF es(1) this, of draw] es(2) show ?thesis by auto
qed

definition same_config :: "store \<Rightarrow> store \<Rightarrow> bool" where
  "same_config s s' \<longleftrightarrow> st_maxPerTick s' = st_maxPerTick s \<and> st_expireTimeBudgetMs s' = st_expireTimeBudgetMs s \<and>
     st_expireAggressive s' = st_expireAggressive s"

lemma same_config_refl [simp]: "same_config s s"
  by (simp add: same_config_def)

lemma same_config_trans: "same_config s t \<Longrightarrow> same_config t u \<Longrightarrow> same_config s u"
  by (simp add: same_config_def)

lemma remove_key_spec:
  assumes inv: "store_inv s"
  shows "\<exists>s'. remove_key k s = Some (map_of (st_map s) k \<noteq> None, s') \<and> store_inv s' \<and>
    st_map s' = AList.delete k (st_map s) \<and> st_heap s' = st_heap s \<and> st_seq s' = st_seq s \<and>
    st_notified s' = st_notified s \<and> same_config s s'"
proof (cases "map_of (st_map s) k")
  case None
  with inv show ?thesis by (simp add: remove_key_def delete_absent)
next
  case (Some r)
  obtain order es where o: "delete_node cmpString cmpString k k (st_order s) = Some (k \<in> fst ` set (st_map s), order)"
    "index_of cmpString cmpString order es" "set es = (\<lambda>k. (k, k)) ` (fst ` set (st_map s) - {k})"
    using order_delete [of s k] inv by (auto simp: store_inv_def)
  have d: "distinct (map fst (st_map s))" using inv by (simp add: store_inv_def)
  let ?s' = "s\<lparr>st_map := AList.delete k (st_map s), st_bytes := st_bytes s - record_size k r,
    st_expiring := (if sr_expireAt r \<noteq> 0 then st_expiring s - 1 else st_expiring s), st_order := order\<rparr>"
  have "keys_index ?s'" using o(2,3) by (auto simp: keys_index_def keys_delete)
  then have "store_inv ?s'"
    using inv d by (simp add: store_inv_def total_bytes_simps(1) [OF d Some] ttl_count_simps(1) [OF d Some]
        heap_covers_delete heap_sound_delete seqs_ok_delete AList.distinct_delete)
  moreover have "remove_key k s = Some (True, ?s')" by (simp add: remove_key_def Some o(1))
  ultimately show ?thesis using Some by (auto simp: same_config_def)
qed

lemma expireKey_spec:
  assumes "store_inv s" "map_of (st_map s) k = Some r"
  shows "\<exists>s'. expireKey k r s = Some s' \<and> store_inv s' \<and> st_map s' = AList.delete k (st_map s) \<and>
    st_heap s' = st_heap s \<and> st_seq s' = st_seq s \<and> st_notified s' = st_notified s @ [(k, r)] \<and> same_config s s'"
proof -
  obtain s1 where s1: "remove_key k s = Some (True, s1)" "store_inv s1"
    "st_map s1 = AList.delete k (st_map s)" "st_heap s1 = st_heap s" "st_seq s1 = st_seq s"
    "st_notified s1 = st_notified s" "same_config s s1"
    using remove_key_spec [OF assms(1), of k] assms(2) by auto
  have "store_inv (s1\<lparr>st_notified := ns\<rparr>)" for ns using s1(2) by (simp add: store_inv_def keys_index_def)
  with s1 show ?thesis by (simp add: expireKey_def same_config_def)
qed

subsection \<open>Rebuilding the heap\<close>

definition entry_for :: "js_string \<Rightarrow> store_record \<Rightarrow> heap_entry" where
  "entry_for k r = \<lparr>he_t = sr_expireAt r, he_k = k, he_seq = sr_seq r\<rparr>"

lemma entry_for_simps [simp]: "he_t (entry_for k r) = sr_expireAt r" "he_k (entry_for k r) = k" "he_seq (entry_for k r) = sr_seq r"
  by (simp_all add: entry_for_def)

lemma set_heap_push: "is_heap h \<Longrightarrow> set (heap_push e h) = insert e (set h)"
  using heap.push(2) [of h e] by (metis set_mset_add_mset_insert set_mset_mset)

lemma rebuild_fold:
  assumes "is_heap h"
  shows "let h' = fold (\<lambda>(k, r) h. if sr_expireAt r \<noteq> 0 then heap_push (entry_for k r) h else h) m h in
    is_heap h' \<and> set h' = set h \<union> (\<lambda>(k, r). entry_for k r) ` {(k, r) \<in> set m. sr_expireAt r \<noteq> 0} \<and>
    length h' \<le> length h + length m"
  using assms
proof (induction m arbitrary: h)
  case Nil
  then show ?case by simp
next
  case (Cons p m)
  obtain k r where p: "p = (k, r)" by (cases p)
  let ?h = "if sr_expireAt r \<noteq> 0 then heap_push (entry_for k r) h else h"
  have "is_heap ?h" "set ?h = set h \<union> (if sr_expireAt r \<noteq> 0 then {entry_for k r} else {})"
    "length ?h \<le> Suc (length h)"
    using Cons.prems heap.push(1) [of h] by (auto simp: set_heap_push length_heap_push)
  with Cons.IH [of ?h] p show ?case by (auto simp: Let_def)
qed

lemma rebuildHeap_spec:
  assumes d: "distinct (map fst (st_map s))" and sq: "seqs_ok (st_seq s) (st_map s)"
  shows "\<exists>h. rebuildHeap s = s\<lparr>st_heap := h\<rparr> \<and> is_heap h \<and> heap_covers (st_map s) h \<and>
    heap_sound (st_seq s) (st_map s) h \<and> length h \<le> length (st_map s)"
proof -
  define h where "h = fold (\<lambda>(k, r) h. if sr_expireAt r \<noteq> 0 then heap_push (entry_for k r) h else h) (st_map s) []"
  have h: "is_heap h" "set h = (\<lambda>(k, r). entry_for k r) ` {(k, r) \<in> set (st_map s). sr_expireAt r \<noteq> 0}"
    "length h \<le> length (st_map s)"
    using rebuild_fold [OF heap.emp(1), of "st_map s"] by (simp_all add: h_def Let_def)
  have mem: "(k, r) \<in> set (st_map s) \<longleftrightarrow> map_of (st_map s) k = Some r" for k r using d by simp
  have "heap_covers (st_map s) h"
    unfolding heap_covers_def h(2) by (auto simp: image_iff mem entry_for_def)
  moreover have "heap_sound (st_seq s) (st_map s) h"
    using sq unfolding heap_sound_def h(2) seqs_ok_def by (auto simp: mem)
  moreover have "rebuildHeap s = s\<lparr>st_heap := h\<rparr>" unfolding rebuildHeap_def h_def entry_for_def by (rule refl)
  ultimately show ?thesis using h(1,3) by blast
qed

subsection \<open>Setting a key\<close>

lemma setRef_spec:
  fixes ref :: value_ref and expireAt :: int and dt :: "dt_columns option"
  assumes inv: "store_inv s"
  defines "r \<equiv> \<lparr>sr_ref = ref, sr_expireAt = expireAt, sr_seq = st_seq s + 1, sr_dt = dt\<rparr>"
  shows "\<exists>s'. setRef k ref expireAt dt draw s = Some s' \<and> store_inv s' \<and>
    st_map s' = AList.update k r (st_map s) \<and> st_seq s' = st_seq s + 1 \<and>
    st_notified s' = st_notified s \<and> same_config s s' \<and>
    (expireAt \<noteq> 0 \<longrightarrow> length (st_heap s') \<le> length (st_map s') * 2 + 64)"
proof -
  let ?m = "AList.update k r (st_map s)"
  have d: "distinct (map fst (st_map s))" using inv by (simp add: store_inv_def)
  have d': "distinct (map fst ?m)" by (rule AList.distinct_update [OF d])
  define s1 where "s1 = (case map_of (st_map s) k of None \<Rightarrow> s
    | Some p \<Rightarrow> s\<lparr>st_expiring := (if sr_expireAt p \<noteq> 0 then st_expiring s - 1 else st_expiring s),
                 st_bytes := st_bytes s - recordBytes k s\<rparr>)"
  have s1: "st_map s1 = st_map s" "st_order s1 = st_order s" "st_heap s1 = st_heap s" "st_seq s1 = st_seq s"
    "st_notified s1 = st_notified s" "same_config s s1"
    by (auto simp: s1_def same_config_def split: option.splits)
  have counts: "st_bytes s1 = total_bytes (AList.delete k (st_map s))" "st_expiring s1 = ttl_count (AList.delete k (st_map s))"
    using inv total_bytes_simps(1) [OF d] ttl_count_simps(1) [OF d]
    by (auto simp: s1_def store_inv_def recordBytes_def delete_absent split: option.splits)
  obtain order es where o: "(if map_of (st_map s) k = None then insert_node cmpString cmpString k k draw (st_order s)
      else Some (st_order s)) = Some order"
    "index_of cmpString cmpString order es" "set es = (\<lambda>k. (k, k)) ` fst ` set ?m"
  proof (cases "map_of (st_map s) k")
    case None
    then show ?thesis
      using that order_insert [of s k draw] inv by (auto simp: store_inv_def map_of_None_iff keys_update)
  next
    case (Some p)
    then have "insert k (fst ` set (st_map s)) = fst ` set (st_map s)" by (metis insert_absorb map_of_None_iff option.distinct(1))
    with Some show ?thesis using that inv by (auto simp: store_inv_def keys_index_def keys_update)
  qed
  define s3 where "s3 = s1\<lparr>st_seq := st_seq s + 1, st_map := ?m,
    st_bytes := st_bytes s1 + int (length k + refBytes ref + metaBytes dt), st_order := order\<rparr>"
  have set3: "setRef k ref expireAt dt draw s = Some (if expireAt \<noteq> 0 then
      let s4 = s3\<lparr>st_expiring := st_expiring s3 + 1, st_heap := heap_push (entry_for k r) (st_heap s3)\<rparr>
      in if length (st_heap s4) > length (st_map s4) * 2 + 64 then rebuildHeap s4 else s4 else s3)"
    using o(1) s1 unfolding setRef_def Let_def s1_def [symmetric]
    by (cases "map_of (st_map s) k") (simp_all add: s3_def r_def entry_for_def)
  have bytes: "st_bytes s3 = total_bytes ?m"
    using total_bytes_simps(2) [OF d, of k r] counts(1) by (simp add: s3_def record_size_def r_def)
  have keys: "keys_index (s3\<lparr>st_expiring := n, st_heap := h\<rparr>)" "keys_index s3" for n h
    using o(2,3) by (auto simp: keys_index_def s3_def)
  have sq: "seqs_ok (st_seq s + 1) ?m"
    using inv by (auto simp: seqs_ok_def store_inv_def map_of_update r_def) (meson le_SucI)
  have sound: "heap_sound (st_seq s + 1) ?m (st_heap s)"
    unfolding heap_sound_def map_of_update
  proof (rule ballI)
    fix e assume e: "e \<in> set (st_heap s)"
    then have "he_seq e \<le> st_seq s"
      "map_of (st_map s) (he_k e) = Some p \<Longrightarrow> sr_seq p = he_seq e \<Longrightarrow> sr_expireAt p = he_t e" for p
      using inv by (auto simp: store_inv_def heap_sound_def)
    then show "he_seq e \<le> st_seq s + 1 \<and>
        (\<forall>ra. (if he_k e = k then Some r else map_of (st_map s) (he_k e)) = Some ra \<and> sr_seq ra = he_seq e \<longrightarrow>
          sr_expireAt ra = he_t e)"
      by (auto simp: r_def)
  qed
  have heap: "is_heap (st_heap s)" using inv by (simp add: store_inv_def)
  show ?thesis
  proof (cases "expireAt = 0")
    case True
    have "heap_covers ?m (st_heap s)"
      using inv True by (auto simp: heap_covers_def store_inv_def map_of_update r_def)
    moreover have "st_expiring s3 = ttl_count ?m"
      using ttl_count_simps(2) [OF d, of k r] counts(2) True by (simp add: s3_def r_def)
    ultimately have "store_inv s3"
      using keys(2) bytes sq sound heap d' s1 by (simp add: store_inv_def s3_def)
    with True set3 s1 show ?thesis by (simp add: s3_def same_config_def)
  next
    case False
    define h where "h = heap_push (entry_for k r) (st_heap s)"
    define s4 where "s4 = s3\<lparr>st_expiring := st_expiring s3 + 1, st_heap := h\<rparr>"
    have hset: "set h = insert (entry_for k r) (set (st_heap s))" "is_heap h"
      using set_heap_push [OF heap] heap.push(1) [OF heap] by (simp_all add: h_def)
    have cov: "heap_covers ?m h"
      using inv by (auto simp: heap_covers_def store_inv_def map_of_update hset(1) entry_for_def)
    have snd: "heap_sound (st_seq s + 1) ?m h"
      using sound by (auto simp: heap_sound_def hset(1) map_of_update r_def)
    have "st_expiring s4 = ttl_count ?m"
      using ttl_count_simps(2) [OF d, of k r] counts(2) False by (simp add: s4_def s3_def r_def)
    then have inv4: "store_inv (s4\<lparr>st_heap := h'\<rparr>)" if "is_heap h'" "heap_covers ?m h'" "heap_sound (st_seq s + 1) ?m h'" for h'
      using that keys(1) [where n = "st_expiring s3 + 1" and h = h'] bytes sq d' by (simp add: store_inv_def s4_def s3_def)
    have s4: "st_map s4 = ?m" "st_seq s4 = st_seq s + 1" "st_notified s4 = st_notified s" "same_config s s4" "st_heap s4 = h"
      using s1 by (simp_all add: s4_def s3_def same_config_def)
    have set4: "setRef k ref expireAt dt draw s = Some (if length h > length ?m * 2 + 64 then rebuildHeap s4 else s4)"
      using set3 False s1 by (simp add: Let_def s4_def h_def s3_def)
    show ?thesis
    proof (cases "length h > length ?m * 2 + 64")
      case False
      have "s4\<lparr>st_heap := h\<rparr> = s4" by (rule store.equality) (simp_all add: s4(5))
      then have "store_inv s4" using inv4 [OF hset(2) cov snd] by (simp only:)
      with False set4 s4 show ?thesis by simp
    next
      case True
      obtain h' where h': "rebuildHeap s4 = s4\<lparr>st_heap := h'\<rparr>" "is_heap h'" "heap_covers ?m h'"
        "heap_sound (st_seq s + 1) ?m h'" "length h' \<le> length ?m"
        using rebuildHeap_spec [of s4] d' sq s4 by auto
      with True set4 s4 inv4 [OF h'(2-4)] show ?thesis by (simp add: same_config_def)
    qed
  qed
qed

subsection \<open>Reads\<close>

lemma get_is_getRecord:
  "store_get reader k now s = Option.bind (getRecord k now s) (\<lambda>(r, s').
     Some (case r of None \<Rightarrow> Inr None | Some rec \<Rightarrow> bind_res (materialize reader (sr_ref rec)) (\<lambda>v. Inr (Some v)), s'))"
  by (cases "map_of (st_map s) k") (auto simp: store_get_def getRecord_def Option.bind_assoc intro: Option.bind_cong)

lemma has_is_getRecord:
  "store_has k now s = Option.bind (getRecord k now s) (\<lambda>(r, s'). Some (r \<noteq> None, s'))"
  by (cases "map_of (st_map s) k") (auto simp: store_has_def getRecord_def Option.bind_assoc intro: Option.bind_cong)

text \<open>A read at \<open>now\<close> only drops records that have expired by then, so the view at any later time
  is unchanged.\<close>

definition later_view :: "int \<Rightarrow> store \<Rightarrow> store \<Rightarrow> bool" where
  "later_view now s s' \<longleftrightarrow> (\<forall>t\<ge>now. live t s' = live t s) \<and> set (st_map s') \<subseteq> set (st_map s)"

lemma expired_mono: "expired now r \<Longrightarrow> now \<le> t \<Longrightarrow> expired t r"
  by (auto simp: expired_def)

lemma later_view_refl [simp]: "later_view now s s"
  by (simp add: later_view_def)

lemma later_view_trans: "later_view now s t \<Longrightarrow> later_view now' t u \<Longrightarrow> later_view (max now now') s u"
  by (auto simp: later_view_def)

lemma later_view_mono: "later_view now s t \<Longrightarrow> now \<le> now' \<Longrightarrow> later_view now' s t"
  by (auto simp: later_view_def)

lemma later_view_delete:
  assumes "st_map s' = AList.delete k (st_map s)" "map_of (st_map s) k = Some r" "expired now r"
  shows "later_view now s s'"
proof -
  have "live t s' k' = live t s k'" if "now \<le> t" for t k'
    using assms expired_mono [OF assms(3) that] by (auto simp: live_def map_of_delete)
  then have "live t s' = live t s" if "now \<le> t" for t using that by (intro ext)
  moreover have "set (st_map s') \<subseteq> set (st_map s)" by (simp add: assms(1) AList.delete_eq)
  ultimately show ?thesis by (simp add: later_view_def)
qed

lemma getRecord_view:
  assumes "store_inv s"
  shows "\<exists>s'. getRecord k now s = Some (live now s k, s') \<and> store_inv s' \<and> later_view now s s' \<and>
    st_seq s' = st_seq s \<and> same_config s s'"
proof (cases "\<exists>r. map_of (st_map s) k = Some r \<and> expired now r")
  case False
  then show ?thesis
    using assms by (cases "map_of (st_map s) k") (auto simp: getRecord_def live_def)
next
  case True
  then obtain r where r: "map_of (st_map s) k = Some r" "expired now r" by blast
  obtain s' where "expireKey k r s = Some s'" "store_inv s'" "st_map s' = AList.delete k (st_map s)"
    "st_seq s' = st_seq s" "same_config s s'"
    using expireKey_spec [OF assms r(1)] by blast
  then show ?thesis using r later_view_delete [of s' k s r now] by (auto simp: getRecord_def live_def)
qed

end
