(* ===== verification/StoreOps.thy ===== *)
theory StoreOps
  imports StoreInv
begin

section \<open>The store: scans, expiration and the reachable states\<close>

text \<open>
  The scans of the store are those of its sorted key list, expiration removes exactly what is due, and the invariant of
  \<open>StoreInv\<close> holds in every state that the operations of the store reach.
\<close>

subsection \<open>The key order as a sorted list\<close>

definition sorted_keys :: "store \<Rightarrow> js_string list" where
  "sorted_keys s = sorted_list_of_set (fst ` set (st_map s))"

definition key_range :: "js_string range_options \<Rightarrow> js_string list \<Rightarrow> js_string list" where
  "key_range ro ks = map fst (range_spec cmpString ro (map (\<lambda>k. (k, k)) ks))"

lemma entry_less_dup: "entry_less cmpString cmpString (k, k) (k', k') \<longleftrightarrow> k < k'"
  by (auto simp: entry_less_def cmpString_def)

lemma order_entries:
  assumes "store_inv s"
  shows "index_of cmpString cmpString (st_order s) (map (\<lambda>k. (k, k)) (sorted_keys s))"
proof -
  obtain es where es: "index_of cmpString cmpString (st_order s) es" "set es = (\<lambda>k. (k, k)) ` fst ` set (st_map s)"
    using assms by (auto simp: store_inv_def keys_index_def)
  have "sorted_wrt (<) (sorted_keys s)" unfolding sorted_keys_def by (rule strict_sorted_list_of_set)
  then have "sorted_wrt (entry_less cmpString cmpString) (map (\<lambda>k. (k, k)) (sorted_keys s))"
    by (simp add: sorted_wrt_map entry_less_dup)
  moreover have "set es = set (map (\<lambda>k. (k, k)) (sorted_keys s))" using es(2) by (simp add: sorted_keys_def)
  ultimately have "es = map (\<lambda>k. (k, k)) (sorted_keys s)"
    using str_str.index.sorted_set_unique str_str.index.abs_sorted [OF es(1)] by blast
  with es(1) show ?thesis by simp
qed

lemma range_keys:
  assumes "store_inv s" "single_bounds ro"
  shows "\<exists>ns. range_entries cmpString (st_order s) ro = Some ns \<and> map fst ns = key_range ro (sorted_keys s)"
  using str_str.index_range [OF order_entries [OF assms(1)] assms(2)] by (simp add: key_range_def)

lemma set_take_count: "set (take_count c xs) \<subseteq> set xs"
  by (auto simp: take_count_def dest: in_set_takeD split: option.splits)

lemma distinct_take_count: "distinct xs \<Longrightarrow> distinct (take_count c xs)"
  by (simp add: take_count_def split: option.splits)

lemma map_take_count: "map f (take_count c xs) = take_count c (map f xs)"
  by (simp add: take_count_def take_map split: option.splits)

lemma key_range_eq:
  "key_range ro ks = take_count (ro_count ro) (drop (nat (ro_offset ro))
     (let hits = filter (\<lambda>k. \<not> below_lower cmpString ro k \<and> \<not> above_upper cmpString ro k) ks
      in if ro_reverse ro then rev hits else hits))"
  by (simp add: key_range_def range_spec_def Let_def map_take_count drop_map rev_map filter_map comp_def)

lemma distinct_key_range: "distinct ks \<Longrightarrow> distinct (key_range ro ks)"
  by (auto simp: key_range_eq Let_def intro!: distinct_take_count distinct_drop)

subsection \<open>Scans\<close>

definition value_of :: "value_reader \<Rightarrow> store_record \<Rightarrow> buffer" where
  "value_of reader r = projr (materialize reader (sr_ref r))"

definition readable :: "value_reader \<Rightarrow> int \<Rightarrow> store \<Rightarrow> bool" where
  "readable reader now s \<longleftrightarrow> (\<forall>k r. live now s k = Some r \<longrightarrow> \<not> isl (materialize reader (sr_ref r)))"

definition live_entries :: "value_reader \<Rightarrow> int \<Rightarrow> store \<Rightarrow> js_string list \<Rightarrow> store_entry list" where
  "live_entries reader now s ks =
     map (\<lambda>k. entry_of k (the (live now s k)) (value_of reader (the (live now s k)))) (filter (\<lambda>k. live now s k \<noteq> None) ks)"

lemma live_later: "later_view now s s' \<Longrightarrow> live now s' = live now s"
  by (simp add: later_view_def)

lemma scan_loop_spec:
  assumes "store_inv s" "readable reader now s"
  shows "\<exists>s'. scan_loop reader (\<lambda>_. now) i ks s = Some (Inr (live_entries reader now s ks), s') \<and>
    store_inv s' \<and> later_view now s s' \<and> st_seq s' = st_seq s \<and> same_config s s'"
  using assms
proof (induction ks arbitrary: i s)
  case Nil
  then show ?case by (simp add: live_entries_def)
next
  case (Cons k ks)
  obtain s1 where s1: "getRecord k now s = Some (live now s k, s1)" "store_inv s1" "later_view now s s1"
    "st_seq s1 = st_seq s" "same_config s s1"
    using getRecord_view [OF Cons.prems(1)] by blast
  have lv: "live now s1 = live now s" by (rule live_later [OF s1(3)])
  have rd: "readable reader now s1" using Cons.prems(2) by (simp add: readable_def lv)
  obtain s2 where s2: "scan_loop reader (\<lambda>_. now) (Suc i) ks s1 = Some (Inr (live_entries reader now s1 ks), s2)"
    "store_inv s2" "later_view now s1 s2" "st_seq s2 = st_seq s1" "same_config s1 s2"
    using Cons.IH [OF s1(2) rd] by blast
  have eq: "live_entries reader now s1 ks = live_entries reader now s ks" by (simp add: live_entries_def lv)
  have view: "later_view now s s2" using later_view_trans [OF s1(3) s2(3)] by simp
  have cfg: "same_config s s2" using same_config_trans [OF s1(5) s2(5)] .
  show ?case
  proof (cases "live now s k")
    case None
    with s1 s2 eq view cfg show ?thesis by (simp add: live_entries_def)
  next
    case (Some r)
    then have "\<not> isl (materialize reader (sr_ref r))" using Cons.prems(2) unfolding readable_def by blast
    then obtain v where "materialize reader (sr_ref r) = Inr v" by (cases "materialize reader (sr_ref r)") auto
    with Some s1 s2 eq view cfg show ?thesis by (simp add: live_entries_def value_of_def)
  qed
qed

lemma raw_keys_loop_spec:
  assumes "store_inv s"
  shows "\<exists>s'. raw_keys_loop (\<lambda>_. now) i ks s = Some (filter (\<lambda>k. live now s k \<noteq> None) ks, s') \<and>
    store_inv s' \<and> later_view now s s' \<and> st_seq s' = st_seq s \<and> same_config s s'"
  using assms
proof (induction ks arbitrary: i s)
  case Nil
  then show ?case by simp
next
  case (Cons k ks)
  obtain s1 where s1: "getRecord k now s = Some (live now s k, s1)" "store_inv s1" "later_view now s s1"
    "st_seq s1 = st_seq s" "same_config s s1"
    using getRecord_view [OF Cons.prems(1)] by blast
  have lv: "live now s1 = live now s" by (rule live_later [OF s1(3)])
  obtain s2 where s2: "raw_keys_loop (\<lambda>_. now) (Suc i) ks s1 = Some (filter (\<lambda>k. live now s1 k \<noteq> None) ks, s2)"
    "store_inv s2" "later_view now s1 s2" "st_seq s2 = st_seq s1" "same_config s1 s2"
    using Cons.IH [OF s1(2)] by blast
  have view: "later_view now s s2" using later_view_trans [OF s1(3) s2(3)] by simp
  have cfg: "same_config s s2" using same_config_trans [OF s1(5) s2(5)] .
  show ?case using s1 s2 view cfg lv by simp
qed

subsection \<open>Expiration\<close>

lemma reap_loop_spec:
  assumes "store_inv s" "distinct (map fst xs)" "\<forall>(k, r)\<in>set xs. map_of (st_map s) k = Some r"
  shows "\<exists>s'. reap_loop now xs s = Some (length (filter (\<lambda>(k, r). expired now r) xs), s') \<and> store_inv s' \<and>
    st_map s' = filter (\<lambda>(k, r). \<not> ((k, r) \<in> set xs \<and> expired now r)) (st_map s) \<and>
    st_notified s' = st_notified s @ filter (\<lambda>(k, r). expired now r) xs"
  using assms
proof (induction xs arbitrary: s)
  case Nil
  then show ?case by (simp add: case_prod_unfold)
next
  case (Cons p xs)
  obtain k r where p: "p = (k, r)" by (cases p)
  have k: "map_of (st_map s) k = Some r" using Cons.prems(3) p by simp
  have uniq: "(k, r') \<in> set (st_map s) \<Longrightarrow> r' = r" for r'
    using Cons.prems(1) k by (simp add: store_inv_def)
  have notin: "(k, r') \<notin> set xs" for r' using Cons.prems(2) p by (force simp: image_iff)
  show ?case
  proof (cases "expired now r")
    case False
    obtain s' where s': "reap_loop now xs s = Some (length (filter (\<lambda>(k, r). expired now r) xs), s')" "store_inv s'"
      "st_map s' = filter (\<lambda>(k, r). \<not> ((k, r) \<in> set xs \<and> expired now r)) (st_map s)"
      "st_notified s' = st_notified s @ filter (\<lambda>(k, r). expired now r) xs"
      using Cons.IH [OF Cons.prems(1)] Cons.prems by auto
    have "st_map s' = filter (\<lambda>(k, r). \<not> ((k, r) \<in> set (p # xs) \<and> expired now r)) (st_map s)"
      unfolding s'(3) by (rule filter_cong) (use False p in auto)
    with s' False p show ?thesis by simp
  next
    case True
    obtain s1 where s1: "expireKey k r s = Some s1" "store_inv s1" "st_map s1 = AList.delete k (st_map s)"
      "st_notified s1 = st_notified s @ [(k, r)]"
      using expireKey_spec [OF Cons.prems(1) k] by blast
    have "\<forall>(k', r')\<in>set xs. map_of (st_map s1) k' = Some r'"
      using Cons.prems(3) notin by (auto simp: s1(3) map_of_delete)
    then obtain s' where s': "reap_loop now xs s1 = Some (length (filter (\<lambda>(k, r). expired now r) xs), s')" "store_inv s'"
      "st_map s' = filter (\<lambda>(k, r). \<not> ((k, r) \<in> set xs \<and> expired now r)) (st_map s1)"
      "st_notified s' = st_notified s1 @ filter (\<lambda>(k, r). expired now r) xs"
      using Cons.IH [OF s1(2)] Cons.prems(2) by auto
    have "st_map s' = filter (\<lambda>(k, r). \<not> ((k, r) \<in> set (p # xs) \<and> expired now r)) (st_map s)"
      unfolding s'(3) s1(3) AList.delete_eq filter_filter
      by (rule filter_cong) (use True p uniq notin in auto)
    with s1 s' True p show ?thesis by simp
  qed
qed

lemma reapExpired_spec:
  assumes "store_inv s"
  shows "\<exists>s'. reapExpired now s = Some (length (filter (\<lambda>(k, r). expired now r) (st_map s)), s') \<and> store_inv s' \<and>
    st_map s' = filter (\<lambda>(k, r). \<not> expired now r) (st_map s) \<and>
    st_notified s' = st_notified s @ filter (\<lambda>(k, r). expired now r) (st_map s)"
proof -
  have d: "distinct (map fst (st_map s))" using assms by (simp add: store_inv_def)
  have all: "\<forall>(k, r)\<in>set (st_map s). map_of (st_map s) k = Some r" using d by auto
  have "filter (\<lambda>(k, r). \<not> ((k, r) \<in> set (st_map s) \<and> expired now r)) (st_map s) =
      filter (\<lambda>(k, r). \<not> expired now r) (st_map s)" by (rule filter_cong) auto
  moreover obtain s' where "reap_loop now (st_map s) s = Some (length (filter (\<lambda>(k, r). expired now r) (st_map s)), s')"
    "store_inv s'" "st_map s' = filter (\<lambda>(k, r). \<not> ((k, r) \<in> set (st_map s) \<and> expired now r)) (st_map s)"
    "st_notified s' = st_notified s @ filter (\<lambda>(k, r). expired now r) (st_map s)"
    using reap_loop_spec [OF assms d all, of now] by blast
  ultimately show ?thesis unfolding reapExpired_def by (intro exI [of _ s']) (simp only: simp_thms)
qed

text \<open>One tick. Without time pressure every expired record goes; with it, some may stay.\<close>

definition no_expired :: "int \<Rightarrow> store \<Rightarrow> bool" where
  "no_expired now s \<longleftrightarrow> (\<forall>(k, r)\<in>set (st_map s). \<not> expired now r)"

lemma no_expired_heap:
  assumes "store_inv s" "\<forall>e\<in>set (st_heap s). \<not> he_t e \<le> now"
  shows "no_expired now s"
proof -
  have "\<not> expired now r" if "(k, r) \<in> set (st_map s)" for k r
  proof
    assume ex: "expired now r"
    have "map_of (st_map s) k = Some r" using assms(1) that by (simp add: store_inv_def)
    then have "\<lparr>he_t = sr_expireAt r, he_k = k, he_seq = sr_seq r\<rparr> \<in> set (st_heap s)"
      using assms(1) ex by (auto simp: store_inv_def heap_covers_def expired_def)
    with assms(2) ex show False by (force simp: expired_def)
  qed
  then show ?thesis by (auto simp: no_expired_def)
qed

text \<open>Dropping the popped entry keeps the invariant unless its record is due.\<close>

lemma pop_entry:
  assumes inv: "store_inv s" and pk: "heap_peek (st_heap s) = Some e"
  shows "\<exists>h. heap_pop (st_heap s) = (Some e, h) \<and> length h < length (st_heap s) \<and>
    is_heap h \<and> set h \<subseteq> set (st_heap s) \<and> set (st_heap s) \<subseteq> insert e (set h)"
proof -
  have "is_heap (st_heap s)" using inv by (simp add: store_inv_def)
  from heap.pop [OF this pk] obtain h where h: "heap_pop (st_heap s) = (Some e, h)" "is_heap h"
    "mset (st_heap s) = add_mset e (mset h)" by blast
  have "length (st_heap s) = Suc (length h)" using h(3) by (metis size_add_mset size_mset)
  moreover have "set (st_heap s) = insert e (set h)" using h(3) by (metis set_mset_add_mset_insert set_mset_mset)
  ultimately show ?thesis using h by auto
qed

lemma drop_stale:
  assumes inv: "store_inv s" and h: "is_heap h" "set h \<subseteq> set (st_heap s)" "set (st_heap s) \<subseteq> insert e (set h)"
    and due: "he_t e \<le> now"
    and stale: "\<And>r. map_of (st_map s) (he_k e) = Some r \<Longrightarrow> \<not> (sr_seq r = he_seq e \<and> expired now r)"
  shows "store_inv (s\<lparr>st_heap := h\<rparr>)"
proof -
  have "heap_covers (st_map s) h"
    unfolding heap_covers_def
  proof (intro allI impI)
    fix k r assume k: "map_of (st_map s) k = Some r \<and> sr_expireAt r \<noteq> 0"
    let ?e = "\<lparr>he_t = sr_expireAt r, he_k = k, he_seq = sr_seq r\<rparr>"
    have "?e \<in> set (st_heap s)" using inv k by (simp add: store_inv_def heap_covers_def)
    moreover have "?e \<noteq> e"
    proof
      assume e: "?e = e"
      then have "he_k e = k" "he_seq e = sr_seq r" "he_t e = sr_expireAt r" by auto
      with k stale [of r] due show False by (simp add: expired_def)
    qed
    ultimately show "?e \<in> set h" using h(3) by blast
  qed
  moreover have "heap_sound (st_seq s) (st_map s) h"
    using inv h(2) by (auto simp: store_inv_def heap_sound_def)
  ultimately show ?thesis using inv h(1) by (simp add: store_inv_def keys_index_def)
qed

lemma drop_due:
  assumes inv: "store_inv s" and h: "is_heap h" "set h \<subseteq> set (st_heap s)" "set (st_heap s) \<subseteq> insert e (set h)"
    and r: "map_of (st_map s) (he_k e) = Some r"
  shows "\<exists>s'. expireKey (he_k e) r (s\<lparr>st_heap := h\<rparr>) = Some s' \<and> store_inv s' \<and>
    st_map s' = AList.delete (he_k e) (st_map s) \<and> st_heap s' = h \<and> st_seq s' = st_seq s \<and>
    st_notified s' = st_notified s @ [(he_k e, r)] \<and> same_config s s'"
proof -
  obtain s1 where s1: "expireKey (he_k e) r s = Some s1" "store_inv s1" "st_map s1 = AList.delete (he_k e) (st_map s)"
    "st_heap s1 = st_heap s" "st_seq s1 = st_seq s" "st_notified s1 = st_notified s @ [(he_k e, r)]" "same_config s s1"
    using expireKey_spec [OF inv r] by blast
  have eq: "expireKey (he_k e) r (s\<lparr>st_heap := h\<rparr>) = map_option (\<lambda>t. t\<lparr>st_heap := h\<rparr>) (expireKey (he_k e) r s)"
    using r by (cases "delete_node cmpString cmpString (he_k e) (he_k e) (st_order s)")
      (auto simp: expireKey_def remove_key_def)
  have "store_inv (s1\<lparr>st_heap := h\<rparr>)"
    by (rule drop_stale [OF s1(2), of h e "he_t e"])
       (use h s1 in \<open>simp_all add: map_of_delete\<close>)
  with s1 eq show ?thesis by (simp add: same_config_def)
qed

lemma live_heap [simp]: "live t (s\<lparr>st_heap := h\<rparr>) = live t s"
  by (rule ext) (simp add: live_def)

lemma active_loop_spec:
  assumes "store_inv s"
  shows "\<exists>c s'. active_loop clock deadline now n c0 s = Some (c, s') \<and> store_inv s' \<and> later_view now s s' \<and>
    same_config s s' \<and> st_seq s' = st_seq s \<and> ((\<forall>i. clock i < deadline) \<longrightarrow> no_expired now s')"
  using assms
proof (induction "length (st_heap s)" arbitrary: s n c0 rule: less_induct)
  case less
  have heap: "is_heap (st_heap s)" using less.prems by (simp add: store_inv_def)
  show ?case
  proof (cases "heap_peek (st_heap s)")
    case None
    then have "st_heap s = []" by (simp add: heap_peek_def split: if_splits)
    then have "no_expired now s" using no_expired_heap [OF less.prems, of now] by simp
    with None less.prems show ?thesis by (subst active_loop.simps) simp
  next
    case (Some e)
    show ?thesis
    proof (cases "he_t e \<le> now")
      case False
      have "\<forall>f\<in>set (st_heap s). \<not> he_t f \<le> now" using heap.none_due [OF heap Some False] by simp
      then have "no_expired now s" by (rule no_expired_heap [OF less.prems])
      with Some False less.prems show ?thesis by (subst active_loop.simps) simp
    next
      case due: True
      show ?thesis
      proof (cases "n \<ge> st_maxPerTick s \<and> n mod 16 = 0 \<and> clock n \<ge> deadline")
        case True
        then have "(\<forall>i. clock i < deadline) \<longrightarrow> no_expired now s" by (metis not_less)
        with True due Some less.prems show ?thesis by (subst active_loop.simps) simp
      next
        case False
        obtain h where h: "heap_pop (st_heap s) = (Some e, h)" "length h < length (st_heap s)" "is_heap h"
          "set h \<subseteq> set (st_heap s)" "set (st_heap s) \<subseteq> insert e (set h)"
          using pop_entry [OF less.prems Some] by blast
        let ?s1 = "s\<lparr>st_heap := h\<rparr>"
        show ?thesis
        proof (cases "\<exists>r. map_of (st_map s) (he_k e) = Some r \<and> sr_seq r = he_seq e \<and> expired now r")
          case True
          then obtain r where r: "map_of (st_map s) (he_k e) = Some r" "sr_seq r = he_seq e" "expired now r" by blast
          obtain s2 where s2: "expireKey (he_k e) r ?s1 = Some s2" "store_inv s2"
            "st_map s2 = AList.delete (he_k e) (st_map s)" "st_heap s2 = h" "st_seq s2 = st_seq s" "same_config s s2"
            using drop_due [OF less.prems h(3-5) r(1)] by blast
          have step: "active_loop clock deadline now n c0 s = active_loop clock deadline now (n + 1) (c0 + 1) s2"
            using due False r s2(1) by (subst active_loop.simps) (auto simp: Some h(1) Let_def)
          have v: "later_view now s s2" by (rule later_view_delete [OF s2(3) r(1,3)])
          from less.hyps [of s2 "n + 1" "c0 + 1"] h(2) s2 obtain c s' where
            "active_loop clock deadline now (n + 1) (c0 + 1) s2 = Some (c, s')" "store_inv s'" "later_view now s2 s'"
            "same_config s2 s'" "st_seq s' = st_seq s2" "(\<forall>i. clock i < deadline) \<longrightarrow> no_expired now s'" by auto
          with step s2 v later_view_trans [of now s s2 now s'] same_config_trans [of s s2 s'] show ?thesis by auto
        next
          case stale: False
          have inv1: "store_inv ?s1" by (rule drop_stale [OF less.prems h(3-5) due]) (use stale in blast)
          have step: "active_loop clock deadline now n c0 s = active_loop clock deadline now (n + 1) c0 ?s1"
            using due False stale by (subst active_loop.simps) (auto simp: Some h(1) Let_def split: option.split)
          have v: "later_view now s ?s1" by (simp add: later_view_def)
          from less.hyps [of ?s1 "n + 1" c0] h(2) inv1 obtain c s' where
            "active_loop clock deadline now (n + 1) c0 ?s1 = Some (c, s')" "store_inv s'" "later_view now ?s1 s'"
            "same_config ?s1 s'" "st_seq s' = st_seq ?s1" "(\<forall>i. clock i < deadline) \<longrightarrow> no_expired now s'" by auto
          with step v later_view_trans [of now s ?s1 now s'] show ?thesis by (auto simp: same_config_def)
        qed
      qed
    qed
  qed
qed

lemma inv_aggressive [simp]: "store_inv (s\<lparr>st_expireAggressive := b\<rparr>) = store_inv s"
  by (simp add: store_inv_def keys_index_def)

lemma activeExpire_spec:
  assumes "store_inv s"
  shows "\<exists>s'. activeExpire now clock s = Some s' \<and> store_inv s' \<and> later_view now s s' \<and>
    ((\<forall>i. clock i < now + st_expireTimeBudgetMs s) \<longrightarrow> no_expired now s')"
proof -
  let ?d = "now + (if st_expireAggressive s then max (st_expireTimeBudgetMs s) 10 else st_expireTimeBudgetMs s)"
  obtain c s' where s': "active_loop clock ?d now 0 0 s = Some (c, s')" "store_inv s'" "later_view now s s'"
    "(\<forall>i. clock i < ?d) \<longrightarrow> no_expired now s'"
    using active_loop_spec [OF assms, of clock ?d now 0 0] by blast
  have "clock i < ?d" if "\<forall>i. clock i < now + st_expireTimeBudgetMs s" for i
    using that by (auto intro: less_le_trans)
  then have "(\<forall>i. clock i < now + st_expireTimeBudgetMs s) \<longrightarrow> no_expired now s'" using s'(4) by blast
  moreover have "live t (s'\<lparr>st_expireAggressive := b\<rparr>) = live t s'" for t b by (rule ext) (simp add: live_def)
  moreover have "no_expired now (s'\<lparr>st_expireAggressive := b\<rparr>) = no_expired now s'" for b by (simp add: no_expired_def)
  ultimately show ?thesis using s'(1-3) by (simp add: activeExpire_def Let_def later_view_def)
qed

subsection \<open>Relocation and size\<close>

definition remap_record :: "(js_string \<Rightarrow> value_loc \<Rightarrow> store_record \<Rightarrow> value_loc option) \<Rightarrow> js_string \<Rightarrow> store_record \<Rightarrow> store_record" where
  "remap_record remap k r = (case sr_ref r of
       Memory v \<Rightarrow> r
     | Disk loc \<Rightarrow> (case remap k loc r of None \<Rightarrow> r | Some loc' \<Rightarrow> r\<lparr>sr_ref := Disk loc'\<rparr>))"

lemma remap_record_simps [simp]:
  "sr_expireAt (remap_record f k r) = sr_expireAt r" "sr_seq (remap_record f k r) = sr_seq r"
  "sr_dt (remap_record f k r) = sr_dt r" "refBytes (sr_ref (remap_record f k r)) = refBytes (sr_ref r)"
  by (auto simp: remap_record_def refBytes_def split: value_ref.splits option.splits)

lemma remapLocs_map: "remapLocs f s = s\<lparr>st_map := map (\<lambda>(k, r). (k, remap_record f k r)) (st_map s)\<rparr>"
  by (simp add: remapLocs_def remap_record_def)

lemma map_of_remap: "map_of (map (\<lambda>(k, r). (k, remap_record f k r)) m) k = map_option (remap_record f k) (map_of m k)"
  by (induction m) auto

lemma remapLocs_inv:
  assumes "store_inv s"
  shows "store_inv (remapLocs f s)"
proof -
  let ?m = "map (\<lambda>(k, r). (k, remap_record f k r)) (st_map s)"
  have keys: "map fst ?m = map fst (st_map s)" by (simp add: comp_def case_prod_unfold)
  then have img: "fst ` set ?m = fst ` set (st_map s)" by (metis list.set_map)
  have d: "distinct (map fst ?m)" unfolding keys using assms by (simp add: store_inv_def)
  have sums: "total_bytes ?m = total_bytes (st_map s)" "ttl_count ?m = ttl_count (st_map s)"
    by (simp_all add: total_bytes_def ttl_count_def comp_def case_prod_unfold record_size_def)
  have "heap_covers ?m (st_heap s)" "heap_sound (st_seq s) ?m (st_heap s)" "seqs_ok (st_seq s) ?m"
    using assms by (auto simp: store_inv_def heap_covers_def heap_sound_def seqs_ok_def map_of_remap)
  with assms sums keys img d show ?thesis
    by (simp add: store_inv_def remapLocs_map keys_index_def)
qed

lemma new_store_inv: "store_inv (new_store n b)"
  using str_str.index_empty
  by (auto simp: store_inv_def new_store_def keys_index_def total_bytes_def ttl_count_def is_heap_def
      heap_covers_def heap_sound_def seqs_ok_def)

lemma size_spec:
  assumes "store_inv s"
  shows "store_size now s = card {k. live now s k \<noteq> None}"
proof -
  have d: "distinct (map fst (st_map s))" using assms by (simp add: store_inv_def)
  let ?l = "filter (\<lambda>(k, r). sr_expireAt r = 0 \<or> sr_expireAt r > now) (st_map s)"
  have "live now s k \<noteq> None \<longleftrightarrow> (\<exists>r. map_of (st_map s) k = Some r \<and> (sr_expireAt r = 0 \<or> sr_expireAt r > now))" for k
    by (cases "map_of (st_map s) k") (auto simp: live_def expired_def)
  then have "{k. live now s k \<noteq> None} = fst ` set ?l"
    by (auto simp: map_of_eq_Some_iff [OF d] image_iff)
  moreover have dl: "distinct (map fst ?l)" using d by (rule distinct_map_filter)
  ultimately have card: "card {k. live now s k \<noteq> None} = length ?l"
    using distinct_card [OF dl] by simp
  have "?l = st_map s" if "st_expiring s = 0"
  proof -
    have "ttl_count m = 0 \<Longrightarrow> filter (\<lambda>(k, r). sr_expireAt r = 0 \<or> sr_expireAt r > now) m = m" for m
    proof (induction m)
      case (Cons p m)
      have "0 \<le> ttl_count m" by (auto simp: ttl_count_def intro!: sum_list_nonneg)
      with Cons show ?case by (cases p) (auto simp: ttl_count_def split: if_splits)
    qed simp
    with that assms show ?thesis by (simp add: store_inv_def)
  qed
  with card show ?thesis by (simp add: store_size_def)
qed

subsection \<open>Reachable stores\<close>

lemma scan_loop_inv:
  "store_inv s \<Longrightarrow> scan_loop reader clock i ks s = Some (res, s') \<Longrightarrow> store_inv s'"
proof (induction ks arbitrary: i s res)
  case Nil
  then show ?case by simp
next
  case (Cons k ks)
  obtain s1 where s1: "getRecord k (clock i) s = Some (live (clock i) s k, s1)" "store_inv s1"
    using getRecord_view [OF Cons.prems(1)] by blast
  then show ?case
    using Cons.prems(2) Cons.IH [OF s1(2)]
    by (cases "scan_loop reader clock (Suc i) ks s1") (auto split: option.splits sum.splits)
qed

lemma raw_keys_loop_inv:
  "store_inv s \<Longrightarrow> raw_keys_loop clock i ks s = Some (res, s') \<Longrightarrow> store_inv s'"
proof (induction ks arbitrary: i s res)
  case Nil
  then show ?case by simp
next
  case (Cons k ks)
  obtain s1 where s1: "getRecord k (clock i) s = Some (live (clock i) s k, s1)" "store_inv s1"
    using getRecord_view [OF Cons.prems(1)] by blast
  then show ?case
    using Cons.prems(2) Cons.IH [OF s1(2)]
    by (cases "raw_keys_loop clock (Suc i) ks s1") auto
qed

text \<open>Every call a client or the timer can make.\<close>

inductive store_step :: "store \<Rightarrow> store \<Rightarrow> bool" where
  step_set: "setRef k ref expireAt dt draw s = Some s' \<Longrightarrow> store_step s s'"
| step_get: "store_get reader k now s = Some (res, s') \<Longrightarrow> store_step s s'"
| step_has: "store_has k now s = Some (found, s') \<Longrightarrow> store_step s s'"
| step_record: "getRecord k now s = Some (r, s') \<Longrightarrow> store_step s s'"
| step_del: "store_del k s = Some (found, s') \<Longrightarrow> store_step s s'"
| step_scan: "store_scan reader clock ro s = Some (es, s') \<Longrightarrow> store_step s s'"
| step_keys: "rawKeys clock ro s = Some (ks, s') \<Longrightarrow> store_step s s'"
| step_remap: "store_step s (remapLocs f s)"
| step_tick: "activeExpire now clock s = Some s' \<Longrightarrow> store_step s s'"
| step_reap: "reapExpired now s = Some (n, s') \<Longrightarrow> store_step s s'"

inductive store_reachable :: "nat \<Rightarrow> int \<Rightarrow> store \<Rightarrow> bool" for maxPerTick :: nat and budget :: int where
  start: "store_reachable maxPerTick budget (new_store maxPerTick budget)"
| step: "store_reachable maxPerTick budget s \<Longrightarrow> store_step s s' \<Longrightarrow> store_reachable maxPerTick budget s'"

lemma store_step_inv: "store_step s s' \<Longrightarrow> store_inv s \<Longrightarrow> store_inv s'"
proof (induction rule: store_step.induct)
  case (step_set k ref expireAt dt draw s s')
  then show ?case using setRef_spec [of s k ref expireAt dt draw] by auto
next
  case (step_get reader k now s res s')
  then show ?case using getRecord_view [of s k now] by (auto simp: get_is_getRecord)
next
  case (step_has k now s found s')
  then show ?case using getRecord_view [of s k now] by (auto simp: has_is_getRecord)
next
  case (step_record k now s r s')
  then show ?case using getRecord_view [of s k now] by auto
next
  case (step_del k s found s')
  then show ?case using remove_key_spec [of s k] by (auto simp: store_del_def)
next
  case (step_scan reader clock ro s es s')
  then show ?case using scan_loop_inv by (auto simp: store_scan_def split: Option.bind_splits)
next
  case (step_keys clock ro s ks s')
  then show ?case using raw_keys_loop_inv by (auto simp: rawKeys_def split: Option.bind_splits)
next
  case (step_remap s f)
  then show ?case by (simp add: remapLocs_inv)
next
  case (step_tick now clock s s')
  then show ?case using activeExpire_spec [of s now clock] by auto
next
  case (step_reap now s n s')
  then show ?case using reapExpired_spec [of s now] by auto
qed

lemma reachable_inv: "store_reachable n b s \<Longrightarrow> store_inv s"
  by (induction rule: store_reachable.induct) (auto simp: new_store_inv intro: store_step_inv)

subsection \<open>Properties\<close>

text \<open>C19: in every state the store's operations and its timer can reach, the key order lists exactly
  the keys of the map, \<open>bytes\<close> is the sum of the sizes of the records and \<open>expiring\<close> the number of
  those with a TTL, the heap order holds and every record with a TTL has its heap entry; and \<open>size\<close>
  is the number of keys that have not expired.\<close>

theorem store_invariant:
  assumes "store_reachable maxPerTick budget s"
  shows "store_inv s \<and> store_size now s = card {k. live now s k \<noteq> None}"
  using reachable_inv [OF assms] size_spec by blast

definition sample_record :: store_record where
  "sample_record = \<lparr>sr_ref = Memory [7], sr_expireAt = 50, sr_seq = 1, sr_dt = None\<rparr>"

lemma sample_store: "\<exists>s. store_reachable 100 2 s \<and> st_map s = [([65], sample_record)] \<and> st_expireTimeBudgetMs s = 2"
proof -
  obtain s where s: "setRef [65] (Memory [7]) 50 None (\<lambda>n. False) (new_store 100 2) = Some s"
    "st_map s = AList.update [65] \<lparr>sr_ref = Memory [7], sr_expireAt = 50, sr_seq = st_seq (new_store 100 2) + 1, sr_dt = None\<rparr>
      (st_map (new_store 100 2))" "same_config (new_store 100 2) s"
    using setRef_spec [OF new_store_inv, where k = "[65]" and ref = "Memory [7]" and expireAt = 50 and dt = None
      and draw = "\<lambda>n. False"] by blast
  have "store_reachable 100 2 s" by (rule store_reachable.step [OF store_reachable.start step_set [OF s(1)]])
  with s show ?thesis by (auto simp: new_store_def sample_record_def same_config_def)
qed

theorem store_invariant_witness: "\<exists>s. store_inv s \<and> store_size 49 s = 1 \<and> store_size 50 s = 0"
proof -
  obtain s where s: "store_reachable 100 2 s" "st_map s = [([65], sample_record)]" using sample_store by blast
  have "{k. live 49 s k \<noteq> None} = {[65]}" "{k. live 50 s k \<noteq> None} = {}"
    by (auto simp: live_def s(2) expired_def sample_record_def split: if_splits)
  with store_invariant [OF s(1), of 49] store_invariant [OF s(1), of 50] show ?thesis by auto
qed

text \<open>A read sees the live view. \<open>get\<close> returns the value of the record last set and not expired,
  \<open>has\<close> whether there is one, and neither changes what any later read can see: at most the read
  key is reaped, once it has expired.\<close>

theorem store_get_live:
  assumes "store_reachable maxPerTick budget s"
  shows "\<exists>s'. store_get reader k now s = Some (case live now s k of
        None \<Rightarrow> Inr None | Some r \<Rightarrow> bind_res (materialize reader (sr_ref r)) (\<lambda>v. Inr (Some v)), s') \<and>
    store_has k now s = Some (live now s k \<noteq> None, s') \<and> store_inv s' \<and> later_view now s s'"
  using getRecord_view [OF reachable_inv [OF assms], of k now] by (auto simp: get_is_getRecord has_is_getRecord)

theorem store_get_live_witness:
  "\<exists>s s'. store_get None [65] 49 s = Some (Inr (Some [7]), s') \<and> store_has [65] 49 s = Some (True, s')"
proof -
  obtain s where s: "store_reachable 100 2 s" "st_map s = [([65], sample_record)]" using sample_store by blast
  have "live 49 s [65] = Some sample_record" by (simp add: live_def s(2) expired_def sample_record_def)
  with store_get_live [OF s(1), of None "[65]" 49] show ?thesis
    by (auto simp: materialize_def sample_record_def)
qed

text \<open>A write updates the live view of its key and of no other; the record's expiry decides at
  which times it is seen, and with a TTL the heap stays within twice the number of keys plus 64
  entries.\<close>

theorem store_set_live:
  fixes ref :: value_ref and expireAt :: int and dt :: "dt_columns option"
  assumes "store_reachable maxPerTick budget s"
  defines "r \<equiv> \<lparr>sr_ref = ref, sr_expireAt = expireAt, sr_seq = st_seq s + 1, sr_dt = dt\<rparr>"
  shows "\<exists>s'. setRef k ref expireAt dt draw s = Some s' \<and>
    (\<forall>now k'. live now s' k' = (if k' = k then if expired now r then None else Some r else live now s k')) \<and>
    (expireAt \<noteq> 0 \<longrightarrow> length (st_heap s') \<le> length (st_map s') * 2 + 64)"
proof -
  obtain s' where s': "setRef k ref expireAt dt draw s = Some s'" "st_map s' = AList.update k r (st_map s)"
    "expireAt \<noteq> 0 \<longrightarrow> length (st_heap s') \<le> length (st_map s') * 2 + 64"
    using setRef_spec [OF reachable_inv [OF assms(1)], of k ref expireAt dt draw] unfolding r_def by blast
  have "live now s' k' = (if k' = k then if expired now r then None else Some r else live now s k')" for now k'
    by (simp add: live_def s'(2) map_of_update)
  with s'(1,3) show ?thesis by blast
qed

theorem store_set_live_witness:
  "\<exists>s s'. setRef [65] (Memory []) 0 None (\<lambda>n. False) s = Some s' \<and> live 7 s' [65] \<noteq> None \<and> live 7 s [65] \<noteq> live 7 s' [65]"
proof -
  obtain s where s: "store_reachable 100 2 s" "st_map s = [([65], sample_record)]" using sample_store by blast
  have l: "live 7 s [65] = Some sample_record" by (simp add: live_def s(2) expired_def sample_record_def)
  from store_set_live [OF s(1), of "[65]" "Memory []" 0 None "\<lambda>n. False"] obtain s' where
    "setRef [65] (Memory []) 0 None (\<lambda>n. False) s = Some s'"
    "live 7 s' [65] = Some \<lparr>sr_ref = Memory [], sr_expireAt = 0, sr_seq = st_seq s + 1, sr_dt = None\<rparr>"
    by (auto simp: expired_def)
  then show ?thesis by (intro exI [of _ s] exI [of _ s']) (simp add: l sample_record_def)
qed

text \<open>An ordered scan returns, in key order (or its reverse), exactly the live records whose key
  lies in the range, after offset and count, each with its value; reaping the expired keys it
  meets does not change what later reads see.\<close>

theorem store_scan_live:
  assumes "store_reachable maxPerTick budget s" "single_bounds ro" "readable reader now s"
  shows "\<exists>s'. store_scan reader (\<lambda>_. now) ro s = Some (Inr (live_entries reader now s (key_range ro (sorted_keys s))), s') \<and>
    store_inv s' \<and> later_view now s s'"
proof -
  have inv: "store_inv s" by (rule reachable_inv [OF assms(1)])
  obtain ns where "range_entries cmpString (st_order s) ro = Some ns" "map fst ns = key_range ro (sorted_keys s)"
    using range_keys [OF inv assms(2)] by blast
  with scan_loop_spec [OF inv assms(3), of 0 "key_range ro (sorted_keys s)"] show ?thesis
    by (auto simp: store_scan_def)
qed

theorem store_scan_live_witness:
  "\<exists>s s'. store_scan None (\<lambda>_. 49) (prefix_options [65] None) s =
     Some (Inr [\<lparr>se_key = [65], se_value = [7], se_expireAt = 50, se_dt = None\<rparr>], s')"
proof -
  obtain s where s: "store_reachable 100 2 s" "st_map s = [([65], sample_record)]" using sample_store by blast
  have l: "live 49 s k = (if k = [65] then Some sample_record else None)" for k
    by (simp add: live_def s(2) expired_def sample_record_def)
  have "readable None 49 s" by (auto simp: readable_def l materialize_def sample_record_def split: if_splits)
  moreover have "single_bounds (prefix_options [65] None)" by (simp add: single_bounds_def prefix_options_def)
  moreover have "key_range (prefix_options [65] None) (sorted_keys s) = [[65]]"
    by (simp add: key_range_eq sorted_keys_def s(2) prefix_options_def below_lower_def above_upper_def cmpString_def)
  ultimately show ?thesis
    using store_scan_live [OF s(1), of "prefix_options [65] None" None 49]
    by (auto simp: live_entries_def l value_of_def materialize_def sample_record_def entry_of_def fromKStr_def)
qed

text \<open>An expiration tick returns, removes nothing that has not expired, and, unless the clock
  reaches the tick's deadline while it works, leaves no expired record behind, however many stale
  entries the heap holds.\<close>

theorem store_active_expire:
  assumes "store_reachable maxPerTick budget s"
  shows "\<exists>s'. activeExpire now clock s = Some s' \<and> store_inv s' \<and> later_view now s s' \<and>
    ((\<forall>i. clock i < now + st_expireTimeBudgetMs s) \<longrightarrow> no_expired now s')"
  by (rule activeExpire_spec [OF reachable_inv [OF assms]])

theorem store_active_expire_witness:
  "\<exists>s s'. st_map s = [([65], sample_record)] \<and> activeExpire 50 (\<lambda>_. 51) s = Some s' \<and> st_map s' = []"
proof -
  obtain s where s: "store_reachable 100 2 s" "st_map s = [([65], sample_record)]" "st_expireTimeBudgetMs s = 2"
    using sample_store by blast
  from store_active_expire [OF s(1), of 50 "\<lambda>_. 51"] s(3) obtain s' where
    s': "activeExpire 50 (\<lambda>_. 51) s = Some s'" "later_view 50 s s'" "no_expired 50 s'" by auto
  have "set (st_map s') \<subseteq> {([65], sample_record)}" using s'(2) s(2) by (simp add: later_view_def)
  moreover have "([65], sample_record) \<notin> set (st_map s')"
    using s'(3) by (auto simp: no_expired_def expired_def sample_record_def)
  ultimately have "st_map s' = []" by (cases "st_map s'") auto
  with s s'(1) show ?thesis by blast
qed

text \<open>\<open>reapExpired\<close> removes exactly the expired records, notifies the owner once for each of
  them, in map order, and returns their number.\<close>

theorem store_reap_expired:
  assumes "store_reachable maxPerTick budget s"
  shows "\<exists>s'. reapExpired now s = Some (length (filter (\<lambda>(k, r). expired now r) (st_map s)), s') \<and> store_inv s' \<and>
    st_map s' = filter (\<lambda>(k, r). \<not> expired now r) (st_map s) \<and>
    st_notified s' = st_notified s @ filter (\<lambda>(k, r). expired now r) (st_map s)"
  by (rule reapExpired_spec [OF reachable_inv [OF assms]])

theorem store_reap_expired_witness:
  "\<exists>s s'. st_map s = [([65], sample_record)] \<and> reapExpired 50 s = Some (1, s') \<and> st_map s' = []"
proof -
  obtain s where s: "store_reachable 100 2 s" "st_map s = [([65], sample_record)]" using sample_store by blast
  with store_reap_expired [OF s(1), of 50] show ?thesis by (auto simp: expired_def sample_record_def)
qed

end
