(* ===== verification/Recovery.thy ===== *)
theory Recovery
  imports FrameScan StoreOps
begin

section \<open>Recovery and replica catch-up (\<^verbatim>\<open>recovery.ts\<close>)\<close>

text \<open>
  A database directory holds a snapshot and a write-ahead log, both sequences of frames; recovery
  replays the one and then the other into an empty store. The parser of the JSON metadata
  (\<^verbatim>\<open>JSON.parse\<close>, \<open>None\<close> where it throws) is a parameter, as are the byte counts of the
  positioned reads, the clock and the levels drawn by the skip list (one draw per write, by
  its sequence number). The code reads the clock again for every record: \<open>now\<close> gives the time for each
  file, frame of the file and operation of the frame, by their index. The generator \<open>frameToOps\<close> is drained: its result is the operations it
  yields and the error that ends it, if any; the consumer applies the operations first.
\<close>

type_synonym meta_parser = "buffer \<Rightarrow> dt_columns option option"

datatype value_mode = Memory_mode | Disk_mode

datatype recovery_error = BadMeta | ReadError codec_error

record recovered_op =
  rc_type :: nat
  rc_key :: buffer
  rc_ref :: "value_ref option"
  rc_expireAt :: int
  rc_dt :: "dt_columns option"

record recovery_info =
  ri_snapshotFrames :: nat
  ri_walFrames :: nat
  ri_truncatedWal :: bool
  ri_corruptRanges :: "(nat \<times> nat) list"
  ri_snapshotCorruptRanges :: "(nat \<times> nat) list"
  ri_lostBytes :: int
  ri_walScanEnd :: nat
  ri_walDev :: nat
  ri_walIno :: nat

record wal_file =
  wf_bytes :: buffer
  wf_dev :: nat
  wf_ino :: nat

definition readAtSync :: "os_reads \<Rightarrow> buffer \<Rightarrow> nat \<Rightarrow> nat \<Rightarrow> (codec_error, buffer) res" where
  "readAtSync rd disk off len = (if len = 0 then Inr [] else read_exact rd disk len off [])"

definition parseMeta :: "meta_parser \<Rightarrow> buffer option \<Rightarrow> (recovery_error, dt_columns option) res" where
  "parseMeta pdt meta =
     (case meta of
        None \<Rightarrow> Inr None
      | Some b \<Rightarrow> (case pdt b of None \<Rightarrow> Inl BadMeta | Some dt \<Rightarrow> Inr dt))"

definition del_op :: "buffer \<Rightarrow> recovered_op" where
  "del_op key = \<lparr>rc_type = TYPE_DEL, rc_key = key, rc_ref = None, rc_expireAt = 0, rc_dt = None\<rparr>"

definition setRefToOps :: "meta_parser \<Rightarrow> os_reads \<Rightarrow> buffer \<Rightarrow> value_file \<Rightarrow> value_mode \<Rightarrow> int
    \<Rightarrow> buffer \<Rightarrow> nat \<Rightarrow> nat \<Rightarrow> buffer option \<Rightarrow> int \<Rightarrow> (recovery_error, recovered_op) res" where
  "setRefToOps pdt rd disk file' mode now key valueOff valLen meta expireAt =
     (if expireAt \<noteq> 0 \<and> expireAt \<le> now then Inr (del_op key)
      else
        bind_res (parseMeta pdt meta) (\<lambda>dt.
        bind_res (case mode of
                    Disk_mode \<Rightarrow> Inr (Disk \<lparr>vl_file = file', vl_off = valueOff, vl_len = valLen\<rparr>)
                  | Memory_mode \<Rightarrow> (case readAtSync rd disk valueOff valLen of
                                     Inl e \<Rightarrow> Inl (ReadError e) | Inr v \<Rightarrow> Inr (Memory v))) (\<lambda>ref.
        Inr \<lparr>rc_type = TYPE_SET, rc_key = key, rc_ref = Some ref, rc_expireAt = expireAt, rc_dt = dt\<rparr>)))"

fun batch_ops_loop :: "meta_parser \<Rightarrow> os_reads \<Rightarrow> buffer \<Rightarrow> value_file \<Rightarrow> value_mode \<Rightarrow> (nat \<Rightarrow> int) \<Rightarrow> batch_op_ref list
    \<Rightarrow> recovered_op list \<times> recovery_error option" where
  "batch_ops_loop pdt rd disk file' mode now [] = ([], None)"
| "batch_ops_loop pdt rd disk file' mode now (op # ops) =
     (if q_type op = TYPE_SET then
        (case setRefToOps pdt rd disk file' mode (now 0) (q_key op) (q_valueOff op) (q_valLen op) (q_meta op) (q_expireAt op) of
           Inl e \<Rightarrow> ([], Some e)
         | Inr r \<Rightarrow> (let rest = batch_ops_loop pdt rd disk file' mode (\<lambda>i. now (Suc i)) ops in (r # fst rest, snd rest)))
      else if q_type op = TYPE_DEL then
        (let rest = batch_ops_loop pdt rd disk file' mode (\<lambda>i. now (Suc i)) ops in (del_op (q_key op) # fst rest, snd rest))
      else batch_ops_loop pdt rd disk file' mode (\<lambda>i. now (Suc i)) ops)"

definition frameToOps :: "meta_parser \<Rightarrow> os_reads \<Rightarrow> buffer \<Rightarrow> value_file \<Rightarrow> value_mode \<Rightarrow> (nat \<Rightarrow> int) \<Rightarrow> frame_ref
    \<Rightarrow> recovered_op list \<times> recovery_error option" where
  "frameToOps pdt rd disk file' mode now f =
     (if r_type f = TYPE_SET then
        (case setRefToOps pdt rd disk file' mode (now 0) (r_key f) (r_valueOff f) (r_valLen f) (r_meta f) (r_expireAt f) of
           Inl e \<Rightarrow> ([], Some e) | Inr r \<Rightarrow> ([r], None))
      else if r_type f = TYPE_DEL then ([del_op (r_key f)], None)
      else if r_type f = TYPE_BATCH then
        (case bind_res (readAtSync rd disk (r_valueOff f) (r_valLen f)) (\<lambda>body. scanBatchOpRefs body (r_valueOff f)) of
           Inl e \<Rightarrow> ([], None)
         | Inr ops \<Rightarrow> batch_ops_loop pdt rd disk file' mode now ops)
      else ([], None))"

fun apply_ops :: "(nat \<Rightarrow> nat \<Rightarrow> bool) \<Rightarrow> recovered_op list \<Rightarrow> store \<Rightarrow> store option" where
  "apply_ops draws [] s = Some s"
| "apply_ops draws (op # ops) s =
     do { s' \<leftarrow> (if rc_type op = TYPE_SET
                then setRef (bufToKStr (rc_key op)) (the (rc_ref op)) (rc_expireAt op) (rc_dt op) (draws (st_seq s)) s
                else if rc_type op = TYPE_DEL then map_option snd (store_del (bufToKStr (rc_key op)) s)
                else Some s);
          apply_ops draws ops s' }"

fun applyFrames :: "meta_parser \<Rightarrow> os_reads \<Rightarrow> buffer \<Rightarrow> value_file \<Rightarrow> value_mode \<Rightarrow> (nat \<Rightarrow> nat \<Rightarrow> int) \<Rightarrow> (nat \<Rightarrow> nat \<Rightarrow> bool)
    \<Rightarrow> frame_ref list \<Rightarrow> store \<Rightarrow> (recovery_error option \<times> store) option" where
  "applyFrames pdt rd disk file' mode now draws [] s = Some (None, s)"
| "applyFrames pdt rd disk file' mode now draws (f # fs) s =
     do { let (ops, err) = frameToOps pdt rd disk file' mode (now 0) f;
          s' \<leftarrow> apply_ops draws ops s;
          case err of
            Some e \<Rightarrow> Some (Some e, s')
          | None \<Rightarrow> applyFrames pdt rd disk file' mode (\<lambda>i. now (Suc i)) draws fs s' }"

text \<open>Scanning one file and applying its frames; an error leaves what was applied before it.\<close>

definition recover_file :: "meta_parser \<Rightarrow> os_reads \<Rightarrow> bool \<Rightarrow> value_mode \<Rightarrow> (nat \<Rightarrow> nat \<Rightarrow> int) \<Rightarrow> (nat \<Rightarrow> nat \<Rightarrow> bool)
    \<Rightarrow> value_file \<Rightarrow> buffer \<Rightarrow> store \<Rightarrow> ((recovery_error, scan_result) res \<times> store) option" where
  "recover_file pdt rd strict mode now draws file' disk s =
     (case scanFrameRefsFd rd strict 0 disk of
        Inl e \<Rightarrow> Some (Inl (ReadError e), s)
      | Inr r \<Rightarrow>
          do { (err, s') \<leftarrow> applyFrames pdt rd disk file' mode now draws (s_frames r) s;
               Some (case err of Some e \<Rightarrow> Inl e | None \<Rightarrow> Inr r, s') })"

definition lost :: "(nat \<times> nat) list \<Rightarrow> int" where
  "lost rs = fold (\<lambda>(s, e) a. a + (int e - int s)) rs 0"

definition recover :: "meta_parser \<Rightarrow> os_reads \<Rightarrow> bool \<Rightarrow> bool \<Rightarrow> value_mode \<Rightarrow> (value_file \<Rightarrow> nat \<Rightarrow> nat \<Rightarrow> int) \<Rightarrow> (nat \<Rightarrow> nat \<Rightarrow> bool)
    \<Rightarrow> buffer option \<Rightarrow> wal_file option \<Rightarrow> store
    \<Rightarrow> ((recovery_error, recovery_info) res \<times> wal_file option \<times> store) option" where
  "recover pdt rd strict trunc mode now draws snap wal s =
     do { (r1, s1) \<leftarrow> (case snap of
            None \<Rightarrow> Some (Inr \<lparr>s_frames = [], s_corruptRanges = [], s_eofOffset = 0\<rparr>, s)
          | Some disk \<Rightarrow> recover_file pdt rd strict mode (now Snapshot_file) draws Snapshot_file disk s);
          case r1 of
            Inl e \<Rightarrow> Some (Inl e, wal, s1)
          | Inr q1 \<Rightarrow>
              do { (r2, s2) \<leftarrow> (case wal of
                     None \<Rightarrow> Some (Inr \<lparr>s_frames = [], s_corruptRanges = [], s_eofOffset = 0\<rparr>, s1)
                   | Some w \<Rightarrow> recover_file pdt rd strict mode (now Wal_file) draws Wal_file (wf_bytes w) s1);
                   Some (case r2 of
                     Inl e \<Rightarrow> (Inl e, wal, s2)
                   | Inr q2 \<Rightarrow>
                       (let torn = (case wal of
                              None \<Rightarrow> None
                            | Some w \<Rightarrow> (if s_corruptRanges q2 \<noteq> [] \<and> snd (last (s_corruptRanges q2)) = length (wf_bytes w)
                                        then Some (fst (last (s_corruptRanges q2))) else None));
                            cut = (trunc \<and> torn \<noteq> None)
                        in (Inr \<lparr>ri_snapshotFrames = length (s_frames q1), ri_walFrames = length (s_frames q2),
                                 ri_truncatedWal = cut, ri_corruptRanges = s_corruptRanges q2,
                                 ri_snapshotCorruptRanges = s_corruptRanges q1,
                                 ri_lostBytes = lost (s_corruptRanges q2 @ s_corruptRanges q1),
                                 ri_walScanEnd = s_eofOffset q2,
                                 ri_walDev = (case wal of None \<Rightarrow> 0 | Some w \<Rightarrow> wf_dev w),
                                 ri_walIno = (case wal of None \<Rightarrow> 0 | Some w \<Rightarrow> wf_ino w)\<rparr>,
                            (if cut then map_option (\<lambda>w. w\<lparr>wf_bytes := take (the torn) (wf_bytes w)\<rparr>) wal else wal),
                            s2))) } }"

text \<open>Catch-up scans strictly from the watermark and hands each frame to \<open>app\<close>.\<close>

definition catchUpWal :: "os_reads \<Rightarrow> wal_file option \<Rightarrow> int \<Rightarrow> nat \<Rightarrow> nat \<Rightarrow> (frame_ref \<Rightarrow> 's \<Rightarrow> 's) \<Rightarrow> 's
    \<Rightarrow> (codec_error, (nat \<times> nat) option) res \<times> 's" where
  "catchUpWal rd file' offset dev ino app s =
     (case file' of
        None \<Rightarrow> (Inr None, s)
      | Some w \<Rightarrow>
          if wf_dev w \<noteq> dev \<or> wf_ino w \<noteq> ino then (Inr None, s)
          else
            let disk = wf_bytes w; fsize = length disk
            in if offset < 0 \<or> offset > int fsize then (Inr None, s)
               else
                 (case scanFrameRefsFd rd True (nat offset) disk of
                    Inl e \<Rightarrow> (Inl e, s)
                  | Inr r \<Rightarrow>
                      if s_frames r = [] \<and> s_eofOffset r < fsize then
                        let n = min (length MAGIC) (fsize - nat offset)
                        in (case readAtSync rd disk (nat offset) n of
                              Inl e \<Rightarrow> (Inl e, s)
                            | Inr head \<Rightarrow>
                                if take n MAGIC \<noteq> head then (Inr None, s) else (Inr (Some (nat offset, 0)), s))
                      else (Inr (Some (s_eofOffset r, length (s_frames r))), fold app (s_frames r) s)))"

end
