(* ===== verification/RecoveryProofs.thy ===== *)
theory RecoveryProofs
  imports Recovery
begin

section \<open>Recovery replays the log\<close>

text \<open>
  The specification of recovery is a fold over the frames themselves: each frame stands for a list
  of writes (a key with its new value, or its deletion), and the recovered contents are the result
  of doing all writes in order. \<open>contents files s\<close> is what a store holds, with disk-backed values
  read back from the files.
\<close>

type_synonym payload = "buffer \<times> int \<times> dt_columns option"
type_synonym kv_write = "js_string \<times> payload option"

definition set_write :: "meta_parser \<Rightarrow> int \<Rightarrow> buffer \<Rightarrow> buffer \<Rightarrow> buffer option \<Rightarrow> int \<Rightarrow> (recovery_error, kv_write) res" where
  "set_write pdt now key value meta e =
     (if e \<noteq> 0 \<and> e \<le> now then Inr (bufToKStr key, None)
      else map_res (\<lambda>dt. (bufToKStr key, Some (value, e, dt))) (parseMeta pdt meta))"

fun batch_writes :: "meta_parser \<Rightarrow> (nat \<Rightarrow> int) \<Rightarrow> batch_op list \<Rightarrow> kv_write list \<times> recovery_error option" where
  "batch_writes pdt now [] = ([], None)"
| "batch_writes pdt now (op # ops) =
     (if b_type op = TYPE_SET then
        (case set_write pdt (now 0) (b_key op) (opt_buf (b_value op)) (b_meta op) (b_expireAt op) of
           Inl e \<Rightarrow> ([], Some e)
         | Inr w \<Rightarrow> (let rest = batch_writes pdt (\<lambda>i. now (Suc i)) ops in (w # fst rest, snd rest)))
      else if b_type op = TYPE_DEL then
        (let rest = batch_writes pdt (\<lambda>i. now (Suc i)) ops in ((bufToKStr (b_key op), None) # fst rest, snd rest))
      else batch_writes pdt (\<lambda>i. now (Suc i)) ops)"

definition frame_writes :: "meta_parser \<Rightarrow> (nat \<Rightarrow> int) \<Rightarrow> frame \<Rightarrow> kv_write list \<times> recovery_error option" where
  "frame_writes pdt now f =
     (if f_type f = TYPE_SET then
        (case set_write pdt (now 0) (f_key f) (f_value f) (f_meta f) (f_expireAt f) of
           Inl e \<Rightarrow> ([], Some e) | Inr w \<Rightarrow> ([w], None))
      else if f_type f = TYPE_DEL then ([(bufToKStr (f_key f), None)], None)
      else if f_type f = TYPE_BATCH then
        (case decodeBatchOps (f_value f) of Inl e \<Rightarrow> ([], None) | Inr ops \<Rightarrow> batch_writes pdt now ops)
      else ([], None))"

fun log_writes :: "meta_parser \<Rightarrow> (nat \<Rightarrow> nat \<Rightarrow> int) \<Rightarrow> frame list \<Rightarrow> kv_write list \<times> recovery_error option" where
  "log_writes pdt now [] = ([], None)"
| "log_writes pdt now (f # fs) =
     (case frame_writes pdt (now 0) f of
        (ws, Some e) \<Rightarrow> (ws, Some e)
      | (ws, None) \<Rightarrow> (let rest = log_writes pdt (\<lambda>i. now (Suc i)) fs in (ws @ fst rest, snd rest)))"

definition do_writes :: "kv_write list \<Rightarrow> (js_string \<Rightarrow> payload option) \<Rightarrow> js_string \<Rightarrow> payload option" where
  "do_writes ws m = fold (\<lambda>(k, v) m. m(k := v)) ws m"

lemma do_writes_simps [simp]:
  "do_writes [] m = m" "do_writes ((k, v) # ws) m = do_writes ws (m(k := v))"
  "do_writes (ws @ vs) m = do_writes vs (do_writes ws m)"
  by (simp_all add: do_writes_def)

subsection \<open>Contents of a store\<close>

definition value_at :: "(value_file \<Rightarrow> buffer) \<Rightarrow> value_ref \<Rightarrow> buffer" where
  "value_at files ref = (case ref of
     Memory v \<Rightarrow> v | Disk loc \<Rightarrow> subarray (vl_off loc) (vl_off loc + vl_len loc) (files (vl_file loc)))"

definition contents :: "(value_file \<Rightarrow> buffer) \<Rightarrow> store \<Rightarrow> js_string \<Rightarrow> payload option" where
  "contents files s k =
     map_option (\<lambda>r. (value_at files (sr_ref r), sr_expireAt r, sr_dt r)) (map_of (st_map s) k)"

definition op_write :: "(value_file \<Rightarrow> buffer) \<Rightarrow> recovered_op \<Rightarrow> kv_write" where
  "op_write files op = (bufToKStr (rc_key op),
     if rc_type op = TYPE_SET then Some (value_at files (the (rc_ref op)), rc_expireAt op, rc_dt op) else None)"

definition op_ok :: "recovered_op \<Rightarrow> bool" where
  "op_ok op \<longleftrightarrow> (rc_type op = TYPE_SET \<and> rc_ref op \<noteq> None) \<or> rc_type op = TYPE_DEL"

lemma types [simp]: "TYPE_DEL \<noteq> TYPE_SET" "TYPE_SET \<noteq> TYPE_DEL" "TYPE_BATCH \<noteq> TYPE_SET" "TYPE_BATCH \<noteq> TYPE_DEL"
  by (simp_all add: TYPE_SET_def TYPE_DEL_def TYPE_BATCH_def)

lemma op_write_key: "\<exists>v. op_write files op = (bufToKStr (rc_key op), v)"
  by (simp add: op_write_def)

lemma del_op_simps [simp]: "op_write files (del_op k) = (bufToKStr k, None)" "op_ok (del_op k)"
  by (simp_all add: op_write_def del_op_def op_ok_def)

lemma deref_op_simps [simp]: "b_type (deref_op disk q) = q_type q" "b_key (deref_op disk q) = q_key q"
  "b_value (deref_op disk q) = Some (subarray (q_valueOff q) (q_valueOff q + q_valLen q) disk)"
  "b_meta (deref_op disk q) = q_meta q" "b_expireAt (deref_op disk q) = q_expireAt q"
  by (simp_all add: deref_op_def)

lemma apply_ops_spec:
  assumes "store_inv s" "\<forall>op\<in>set ops. op_ok op"
  shows "\<exists>s'. apply_ops draws ops s = Some s' \<and> store_inv s' \<and>
    contents files s' = do_writes (map (op_write files) ops) (contents files s)"
  using assms
proof (induction ops arbitrary: s)
  case Nil
  then show ?case by simp
next
  case (Cons op ops)
  let ?k = "bufToKStr (rc_key op)"
  obtain v where v: "op_write files op = (?k, v)" using op_write_key by blast
  have "op_ok op" using Cons.prems by simp
  then consider "rc_type op = TYPE_SET" | "rc_type op = TYPE_DEL" by (auto simp: op_ok_def)
  then show ?case
  proof cases
    case 1
    obtain s1 where s1: "setRef ?k (the (rc_ref op)) (rc_expireAt op) (rc_dt op) (draws (st_seq s)) s = Some s1"
      "store_inv s1" "st_map s1 = AList.update ?k \<lparr>sr_ref = the (rc_ref op), sr_expireAt = rc_expireAt op,
         sr_seq = st_seq s + 1, sr_dt = rc_dt op\<rparr> (st_map s)"
      using setRef_spec [OF Cons.prems(1), of ?k "the (rc_ref op)" "rc_expireAt op" "rc_dt op" "draws (st_seq s)"] by blast
    have "contents files s1 = (contents files s)(?k := v)"
      using v by (intro ext) (auto simp: contents_def s1(3) map_of_update op_write_def 1)
    then have "\<exists>s'. apply_ops draws ops s1 = Some s' \<and> store_inv s' \<and>
        contents files s' = do_writes (map (op_write files) ops) ((contents files s)(?k := v))"
      using Cons.IH [OF s1(2)] Cons.prems(2) by (simp del: fun_upd_apply)
    then show ?thesis using s1(1) 1 v by (auto simp del: fun_upd_apply)
  next
    case 2
    obtain s1 where s1: "remove_key ?k s = Some (map_of (st_map s) ?k \<noteq> None, s1)" "store_inv s1"
      "st_map s1 = AList.delete ?k (st_map s)"
      using remove_key_spec [OF Cons.prems(1), of ?k] by blast
    have "contents files s1 = (contents files s)(?k := v)"
      using v by (intro ext) (auto simp: contents_def s1(3) map_of_delete op_write_def 2)
    then have "\<exists>s'. apply_ops draws ops s1 = Some s' \<and> store_inv s' \<and>
        contents files s' = do_writes (map (op_write files) ops) ((contents files s)(?k := v))"
      using Cons.IH [OF s1(2)] Cons.prems(2) by (simp del: fun_upd_apply)
    then show ?thesis using s1(1) 2 v by (auto simp: store_del_def simp del: fun_upd_apply)
  qed
qed

subsection \<open>One frame\<close>

lemma readAtSync_ok: "off + len \<le> length disk \<Longrightarrow> readAtSync rd disk off len = Inr (subarray off (off + len) disk)"
  using read_exact_ok [of off len disk 0 rd] by (simp add: readAtSync_def subarray_def)

lemma subarray_take [simp]: "b \<le> n \<Longrightarrow> subarray a b (take n xs) = subarray a b xs"
  by (cases "a \<le> n") (simp_all add: subarray_def drop_take min_def)

lemma setRefToOps_write:
  assumes "off + len \<le> n" "n \<le> length disk" "files file' = take n disk"
  shows "map_res (op_write files) (setRefToOps pdt rd disk file' mode now key off len meta e) =
      set_write pdt now key (subarray off (off + len) disk) meta e"
    "setRefToOps pdt rd disk file' mode now key off len meta e = Inr op \<Longrightarrow> op_ok op"
  using assms readAtSync_ok [of off len disk rd]
  by (cases "parseMeta pdt meta"; cases mode;
      auto simp: setRefToOps_def set_write_def op_write_def del_op_def value_at_def op_ok_def bind_res_Inr split: if_splits)+

lemma batch_ops_writes:
  assumes "\<forall>q\<in>set qs. q_valueOff q + q_valLen q \<le> n" "n \<le> length disk" "files file' = take n disk"
  shows "batch_ops_loop pdt rd disk file' mode now qs = (ops, err) \<Longrightarrow>
    (map (op_write files) ops, err) = batch_writes pdt now (map (deref_op disk) qs) \<and> (\<forall>op\<in>set ops. op_ok op)"
  using assms(1)
proof (induction qs arbitrary: ops now)
  case Nil
  then show ?case by simp
next
  case (Cons q qs)
  obtain ops' err' where rest: "batch_ops_loop pdt rd disk file' mode (\<lambda>i. now (Suc i)) qs = (ops', err')" by fastforce
  have IH: "(map (op_write files) ops', err') = batch_writes pdt (\<lambda>i. now (Suc i)) (map (deref_op disk) qs)" "\<forall>op\<in>set ops'. op_ok op"
    if "err' = err" using Cons.IH [of "\<lambda>i. now (Suc i)" ops'] rest Cons.prems(2) that by auto
  let ?s = "setRefToOps pdt rd disk file' mode (now 0) (q_key q) (q_valueOff q) (q_valLen q) (q_meta q) (q_expireAt q)"
  have w: "map_res (op_write files) ?s = set_write pdt (now 0) (q_key q) (subarray (q_valueOff q) (q_valueOff q + q_valLen q) disk)
      (q_meta q) (q_expireAt q)" "?s = Inr op \<Longrightarrow> op_ok op" for op
    using setRefToOps_write [of "q_valueOff q" "q_valLen q" n disk files file'] Cons.prems(2) assms(2,3) by auto
  show ?case
    using Cons.prems(1) IH w(2) rest
    by (cases ?s) (auto simp: w(1) [symmetric] Let_def simp flip: IH(1) split: if_splits)
qed

lemma scan_ops_bounds:
  "scan_ops n body bodyOff o' = Inr qs \<Longrightarrow> \<forall>q\<in>set qs. q_valueOff q + q_valLen q \<le> bodyOff + length body"
  by (induction n arbitrary: o' qs) (auto simp: Let_def bind_res_Inr split: if_splits)

lemma scanBatchOpRefs_bounds:
  "scanBatchOpRefs body bodyOff = Inr qs \<Longrightarrow> \<forall>q\<in>set qs. q_valueOff q + q_valLen q \<le> bodyOff + length body"
  using scan_ops_bounds by (cases "length body < 2") (auto simp: scanBatchOpRefs_def)

lemma frameToOps_writes:
  assumes "r_valueOff f + r_valLen f \<le> n" "n \<le> length disk" "files file' = take n disk"
    and "frameToOps pdt rd disk file' mode now f = (ops, err)"
  shows "(map (op_write files) ops, err) = frame_writes pdt now (deref disk f) \<and> (\<forall>op\<in>set ops. op_ok op)"
proof -
  let ?body = "subarray (r_valueOff f) (r_valueOff f + r_valLen f) disk"
  have bound: "r_valueOff f + r_valLen f \<le> length disk" using assms(1,2) by simp
  then have len: "length ?body = r_valLen f" by simp
  consider "r_type f = TYPE_SET" | "r_type f = TYPE_DEL" | "r_type f = TYPE_BATCH"
    | "r_type f \<noteq> TYPE_SET" "r_type f \<noteq> TYPE_DEL" "r_type f \<noteq> TYPE_BATCH" by blast
  then show ?thesis
  proof cases
    case 1
    let ?s = "setRefToOps pdt rd disk file' mode (now 0) (r_key f) (r_valueOff f) (r_valLen f) (r_meta f) (r_expireAt f)"
    note w = setRefToOps_write [where files = files and file' = file', OF assms(1,2,3), of pdt rd mode "now 0" "r_key f" "r_meta f" "r_expireAt f"]
    show ?thesis
      using assms(4) 1 w(2)
      by (cases ?s) (auto simp: frameToOps_def frame_writes_def deref_def w(1) [symmetric])
  next
    case 3
    have q: "map_res (map (deref_op disk)) (scanBatchOpRefs ?body (r_valueOff f)) = decodeBatchOps ?body"
      using scan_ops_eq [of ?body "r_valueOff f" disk] len by (simp add: scanBatchOpRefs_def decodeBatchOps_def)
    show ?thesis
    proof (cases "scanBatchOpRefs ?body (r_valueOff f)")
      case (Inl e)
      with q have "decodeBatchOps ?body = Inl e" by simp
      with Inl 3 assms readAtSync_ok [OF bound] show ?thesis
        by (simp add: frameToOps_def frame_writes_def deref_def)
    next
      case (Inr qs)
      then have "\<forall>q\<in>set qs. q_valueOff q + q_valLen q \<le> r_valueOff f + length ?body"
        by (rule scanBatchOpRefs_bounds)
      then have b: "\<forall>q\<in>set qs. q_valueOff q + q_valLen q \<le> n" using assms(1) len by auto
      have "batch_ops_loop pdt rd disk file' mode now qs = (ops, err)"
        using assms(4) 3 Inr readAtSync_ok [OF bound] by (simp add: frameToOps_def)
      from batch_ops_writes [where files = files and file' = file', OF b assms(2,3) this] Inr q [symmetric] 3 show ?thesis
        by (simp add: frame_writes_def deref_def)
    qed
  qed (use assms(4) in \<open>auto simp: frameToOps_def frame_writes_def deref_def op_write_def del_op_def op_ok_def\<close>)
qed


subsection \<open>A whole file\<close>

lemma applyFrames_spec:
  assumes "store_inv s" "\<forall>f\<in>set fs. r_valueOff f + r_valLen f \<le> n" "n \<le> length disk" "files file' = take n disk"
  shows "\<exists>s'. applyFrames pdt rd disk file' mode now draws fs s =
      Some (snd (log_writes pdt now (map (deref disk) fs)), s') \<and> store_inv s' \<and>
    contents files s' = do_writes (fst (log_writes pdt now (map (deref disk) fs))) (contents files s)"
  using assms
proof (induction fs arbitrary: s now)
  case Nil
  then show ?case by simp
next
  case (Cons f fs)
  obtain ops err where ops: "frameToOps pdt rd disk file' mode (now 0) f = (ops, err)" by fastforce
  have w: "frame_writes pdt (now 0) (deref disk f) = (map (op_write files) ops, err)" and ok: "\<forall>op\<in>set ops. op_ok op"
    using frameToOps_writes [where files = files and file' = file', OF _ Cons.prems(3,4) ops] Cons.prems(2) by auto
  obtain s1 where s1: "apply_ops draws ops s = Some s1" "store_inv s1"
    "contents files s1 = do_writes (map (op_write files) ops) (contents files s)"
    using apply_ops_spec [OF Cons.prems(1) ok] by blast
  show ?case
  proof (cases err)
    case (Some e)
    then show ?thesis using s1 ops w by simp
  next
    case None
    obtain s' where "applyFrames pdt rd disk file' mode (\<lambda>i. now (Suc i)) draws fs s1 =
        Some (snd (log_writes pdt (\<lambda>i. now (Suc i)) (map (deref disk) fs)), s')" "store_inv s'"
      "contents files s' = do_writes (fst (log_writes pdt (\<lambda>i. now (Suc i)) (map (deref disk) fs))) (contents files s1)"
      using Cons.IH [OF s1(2)] Cons.prems(2-) by auto
    with None s1 ops w show ?thesis by (simp add: Let_def)
  qed
qed

text \<open>Every value a scan points at lies before its end offset, and a range that reaches the end of
  the file starts at that offset: truncating the file there keeps every value.\<close>

lemma readFrameRefAt_inside: "readFrameRefAt rd disk pos fsize = Inr (Some r) \<Longrightarrow> r_valueOff r + r_valLen r \<le> pos + r_frameLen r"
  by (auto simp: readFrameRefAt_def Let_def bind_res_Inr size_defs split: if_splits)

lemma scan_from_inside:
  "scan_from rd strict disk fsize pos = Inr s \<Longrightarrow>
    pos \<le> s_eofOffset s \<and> (\<forall>f\<in>set (s_frames s). r_valueOff f + r_valLen f \<le> s_eofOffset s)"
proof (induction rd strict disk fsize pos arbitrary: s rule: scan_from.induct)
  case (1 rd strict disk fsize pos)
  note eq = "1.prems" [unfolded scan_from.simps [of rd strict disk fsize pos]]
  show ?case
  proof (cases "pos < fsize")
    case False
    with eq show ?thesis by auto
  next
    case lt: True
    show ?thesis
    proof (cases "readFrameRefAt rd disk pos fsize")
      case (Inl e)
      with eq lt show ?thesis by simp
    next
      case r: (Inr fo)
      show ?thesis
      proof (cases fo)
        case (Some f)
        with eq lt r obtain s1 where s1: "scan_from rd strict disk fsize (pos + r_frameLen f) = Inr s1"
          "s = s1\<lparr>s_frames := f # s_frames s1\<rparr>" by (auto simp: bind_res_Inr)
        show ?thesis
          using "1.IH"(2) [OF lt r Some s1(1)] readFrameRefAt_inside [OF r [unfolded Some]] s1(2) by auto
      next
        case None
        show ?thesis
        proof (cases "strict \<or> resync_fd rd disk fsize (pos + 1) = Inr None")
          case True
          with eq lt r None show ?thesis by (auto split: if_splits)
        next
          case False
          with eq lt r None obtain n s1 where n: "resync_fd rd disk fsize (pos + 1) = Inr (Some n)"
            "scan_from rd strict disk fsize n = Inr s1" "s = s1\<lparr>s_corruptRanges := (pos, n) # s_corruptRanges s1\<rparr>"
            by (auto simp: bind_res_Inr split: option.splits)
          show ?thesis
            using "1.IH"(1) [OF lt r None _ n(1) refl n(2)] False resync_fd_ge [OF n(1)] n(3) by auto
        qed
      qed
    qed
  qed
qed

lemma parse_last_range:
  "p_corruptRanges (parse_from strict disk pos) \<noteq> [] \<Longrightarrow> snd (last (p_corruptRanges (parse_from strict disk pos))) = length disk \<Longrightarrow>
    fst (last (p_corruptRanges (parse_from strict disk pos))) = p_eofOffset (parse_from strict disk pos)"
proof (induction strict disk pos rule: parse_from.induct)
  case (1 strict disk pos)
  note eq = parse_from.simps [of strict disk pos]
  show ?case
  proof (cases "pos < length disk")
    case False
    then show ?thesis using "1.prems" by (simp add: eq)
  next
    case lt: True
    show ?thesis
    proof (cases "readFrameAt disk pos")
      case (Some fn)
      then obtain f n where fn: "readFrameAt disk pos = Some (f, n)" by (cases fn) auto
      with "1.IH"(2) [OF lt fn refl] "1.prems" lt eq show ?thesis by (simp add: Let_def)
    next
      case None
      show ?thesis
      proof (cases "strict \<or> resync_scan disk (pos + 1) = None")
        case True
        with lt None eq show ?thesis by auto
      next
        case False
        then obtain r where r: "\<not> strict" "resync_scan disk (pos + 1) = Some r" by auto
        then have "r < length disk" by (auto simp: resync_scan_find find_Some_iff)
        with "1.IH"(1) [OF lt None r] "1.prems" lt None r eq show ?thesis by (auto simp: Let_def split: if_splits)
      qed
    qed
  qed
qed

lemma recover_file_spec:
  fixes strict :: bool and disk :: buffer
  assumes "store_inv s" "strict \<or> reads_pairs rd"
  defines "p \<equiv> parseBuffer strict disk"
  assumes "log_writes pdt now (p_frames p) = (ws, None)" "files file' = take n disk"
    and "n \<le> length disk" "p_eofOffset p \<le> n \<or> length disk \<le> n"
  shows "\<exists>q s'. recover_file pdt rd strict mode now draws file' disk s = Some (Inr q, s') \<and> store_inv s' \<and>
    contents files s' = do_writes ws (contents files s) \<and> scan_matches disk q p"
proof -
  obtain q where q: "scan_from rd strict disk (length disk) 0 = Inr q" "scan_matches disk q p"
    using scan_from_eq [OF assms(2), of disk 0] by (auto simp: p_def parseBuffer_def)
  have "\<forall>f\<in>set (s_frames q). r_valueOff f + r_valLen f \<le> n"
    using scan_from_inside [OF q(1)] q(2) assms(7) by (fastforce simp: scan_matches_def)
  then show ?thesis
    using applyFrames_spec [where files = files and file' = file' and disk = disk, OF assms(1) _ assms(6,5), of "s_frames q" pdt rd mode now draws]
      q assms(4) by (auto simp: recover_file_def scanFrameRefsFd_def scan_matches_def)
qed

subsection \<open>Recovery of a directory\<close>

text \<open>The bytes of the write-ahead log, none where the file does not exist.\<close>

definition wal_bytes :: "wal_file option \<Rightarrow> buffer" where
  "wal_bytes w = (case w of None \<Rightarrow> [] | Some w \<Rightarrow> wf_bytes w)"

lemma wal_bytes_simps [simp]: "wal_bytes None = []" "wal_bytes (Some w) = wf_bytes w"
  by (simp_all add: wal_bytes_def)

lemma parseBuffer_Nil [simp]: "parseBuffer strict [] = \<lparr>p_frames = [], p_corruptRanges = [], p_eofOffset = 0\<rparr>"
  by (simp add: parseBuffer_def)

definition torn_at :: "buffer \<Rightarrow> parse_result \<Rightarrow> nat option" where
  "torn_at bytes p =
     (if p_corruptRanges p \<noteq> [] \<and> snd (last (p_corruptRanges p)) = length bytes
      then Some (fst (last (p_corruptRanges p))) else None)"

lemma torn_at_eof: "torn_at disk (parseBuffer strict disk) = Some n \<Longrightarrow> n = p_eofOffset (parseBuffer strict disk)"
  using parse_last_range [of strict disk 0] by (auto simp: torn_at_def parseBuffer_def split: if_splits)

definition recovered_wal :: "bool \<Rightarrow> bool \<Rightarrow> wal_file option \<Rightarrow> wal_file option" where
  "recovered_wal strict trunc wal =
     (case torn_at (wal_bytes wal) (parseBuffer strict (wal_bytes wal)) of
        Some n \<Rightarrow> (if trunc then map_option (\<lambda>w. w\<lparr>wf_bytes := take n (wf_bytes w)\<rparr>) wal else wal)
      | None \<Rightarrow> wal)"

lemma recovered_wal_bytes:
  "\<exists>n\<le>length (wal_bytes wal). wal_bytes (recovered_wal strict trunc wal) = take n (wal_bytes wal) \<and>
     (p_eofOffset (parseBuffer strict (wal_bytes wal)) \<le> n \<or> length (wal_bytes wal) \<le> n)"
proof (cases "trunc \<and> torn_at (wal_bytes wal) (parseBuffer strict (wal_bytes wal)) \<noteq> None")
  case True
  then obtain n where n: "trunc" "torn_at (wal_bytes wal) (parseBuffer strict (wal_bytes wal)) = Some n" by auto
  then have "wal_bytes (recovered_wal strict trunc wal) = take n (wal_bytes wal)"
    by (cases wal) (simp_all add: recovered_wal_def)
  then have "wal_bytes (recovered_wal strict trunc wal) = take (min n (length (wal_bytes wal))) (wal_bytes wal)"
    by (simp add: min_def)
  with torn_at_eof [OF n(2)] show ?thesis by (intro exI [of _ "min n (length (wal_bytes wal))"]) auto
next
  case False
  then have "recovered_wal strict trunc wal = wal" by (auto simp: recovered_wal_def split: option.split)
  then show ?thesis by (intro exI [of _ "length (wal_bytes wal)"]) simp
qed

lemma recover_spec:
  assumes "store_inv s" "strict \<or> reads_pairs rd"
    and "log_writes pdt (now Snapshot_file) (p_frames (parseBuffer strict (opt_buf snap))) = (ws1, None)"
    and "log_writes pdt (now Wal_file) (p_frames (parseBuffer strict (wal_bytes wal))) = (ws2, None)"
    and "files Snapshot_file = opt_buf snap" "files Wal_file = wal_bytes (recovered_wal strict trunc wal)"
  shows "\<exists>info s'. recover pdt rd strict trunc mode now draws snap wal s = Some (Inr info, recovered_wal strict trunc wal, s') \<and>
    store_inv s' \<and> contents files s' = do_writes (ws1 @ ws2) (contents files s) \<and>
    ri_snapshotFrames info = length (p_frames (parseBuffer strict (opt_buf snap))) \<and>
    ri_walFrames info = length (p_frames (parseBuffer strict (wal_bytes wal))) \<and>
    ri_corruptRanges info = p_corruptRanges (parseBuffer strict (wal_bytes wal)) \<and>
    ri_snapshotCorruptRanges info = p_corruptRanges (parseBuffer strict (opt_buf snap)) \<and>
    ri_lostBytes info = lost (ri_corruptRanges info @ ri_snapshotCorruptRanges info) \<and>
    ri_truncatedWal info = (trunc \<and> torn_at (wal_bytes wal) (parseBuffer strict (wal_bytes wal)) \<noteq> None) \<and>
    ri_walScanEnd info = p_eofOffset (parseBuffer strict (wal_bytes wal))"
proof -
  let ?p1 = "parseBuffer strict (opt_buf snap)" and ?p2 = "parseBuffer strict (wal_bytes wal)"
  let ?none = "\<lparr>s_frames = [], s_corruptRanges = [], s_eofOffset = 0\<rparr>"
  obtain n where n: "n \<le> length (wal_bytes wal)" "files Wal_file = take n (wal_bytes wal)"
    "p_eofOffset ?p2 \<le> n \<or> length (wal_bytes wal) \<le> n"
    using recovered_wal_bytes [of wal strict trunc] unfolding assms(6) by blast
  obtain q1 s1 where 1: "(case snap of None \<Rightarrow> Some (Inr ?none, s)
        | Some disk \<Rightarrow> recover_file pdt rd strict mode (now Snapshot_file) draws Snapshot_file disk s) = Some (Inr q1, s1)"
    "store_inv s1" "contents files s1 = do_writes ws1 (contents files s)" "scan_matches (opt_buf snap) q1 ?p1"
  proof (cases snap)
    case None
    with assms(1,3) show thesis by (intro that [of ?none s]) (simp_all add: scan_matches_def)
  next
    case (Some disk)
    with recover_file_spec [OF assms(1,2), of pdt "now Snapshot_file" disk ws1 files Snapshot_file "length disk" mode draws] assms(3,5)
    show thesis by (auto intro: that)
  qed
  obtain q2 s2 where 2: "(case wal of None \<Rightarrow> Some (Inr ?none, s1)
        | Some w \<Rightarrow> recover_file pdt rd strict mode (now Wal_file) draws Wal_file (wf_bytes w) s1) = Some (Inr q2, s2)"
    "store_inv s2" "contents files s2 = do_writes ws2 (contents files s1)" "scan_matches (wal_bytes wal) q2 ?p2"
  proof (cases wal)
    case None
    with assms(4) 1(2) show thesis by (intro that [of ?none s1]) (simp_all add: scan_matches_def)
  next
    case (Some w)
    with recover_file_spec [OF 1(2) assms(2), of pdt "now Wal_file" "wf_bytes w" ws2 files Wal_file n mode draws] assms(4) n
    show thesis by (auto intro: that)
  qed
  have len: "length (s_frames q1) = length (p_frames ?p1)" "length (s_frames q2) = length (p_frames ?p2)"
    using 1(4) 2(4) by (metis length_map scan_matches_def)+
  have torn: "(case wal of None \<Rightarrow> None | Some w \<Rightarrow> (if s_corruptRanges q2 \<noteq> [] \<and> snd (last (s_corruptRanges q2)) = length (wf_bytes w)
        then Some (fst (last (s_corruptRanges q2))) else None)) = torn_at (wal_bytes wal) ?p2"
    using 2(4) by (cases wal) (simp_all add: torn_at_def scan_matches_def)
  show ?thesis
    unfolding recover_def 1(1) Option.bind_lunit prod.case sum.case 2(1) torn Let_def
    using 1(3,4) 2(2,3,4) len
    by (cases "torn_at (wal_bytes wal) ?p2") (simp_all add: recovered_wal_def scan_matches_def)
qed

lemma contents_new_store [simp]: "contents files (new_store n b) = Map.empty"
  by (auto simp: contents_def new_store_def)

lemma parse_log_with_tail:
  assumes "\<forall>i\<in>set is. encodable i" "encodable j" "k < length (encoded j)"
    and "strict \<or> (\<forall>s. readFrameAt (take k (encoded j)) s = None)"
  shows "parseBuffer strict (log_bytes is @ take k (encoded j)) =
    \<lparr>p_frames = map decoded is,
     p_corruptRanges = (if k = 0 then [] else [(length (log_bytes is), length (log_bytes is) + k)]),
     p_eofOffset = length (log_bytes is)\<rparr>"
  using assms parse_torn_bytes [of "is" j k strict] parseBuffer_prefix [of "is" strict "[]"] by (cases "k = 0") simp_all

subsection \<open>Catch-up\<close>

lemma log_bytes_append: "log_bytes (is @ js) = log_bytes is @ log_bytes js"
  by (simp add: log_bytes_def)

lemma encoded_MAGIC: "encodable i \<Longrightarrow> \<exists>r. encoded i = MAGIC @ r"
  by (drule encodable_Inr, unfold encodeFrame_def Let_def) (simp split: if_splits, metis)

lemma scan_log_suffix:
  assumes "\<forall>i\<in>set is. encodable i" "\<forall>i\<in>set js. encodable i" "encodable j" "k < length (encoded j)"
  shows "\<exists>q. scanFrameRefsFd rd True (length (log_bytes is)) (log_bytes is @ log_bytes js @ take k (encoded j)) = Inr q \<and>
    map (deref (log_bytes is @ log_bytes js @ take k (encoded j))) (s_frames q) = map decoded js \<and>
    s_eofOffset q = length (log_bytes (is @ js))"
proof -
  let ?disk = "log_bytes is @ log_bytes js @ take k (encoded j)" and ?L = "length (log_bytes (is @ js))"
  have "p_eofOffset (parse_from True ?disk ?L) = ?L \<and> p_frames (parse_from True ?disk ?L) = []"
  proof (cases "k = 0")
    case True
    then show ?thesis by (subst (1 2) parse_from_end) (simp_all add: log_bytes_def)
  next
    case False
    have "readFrameAt ?disk ?L = None"
      using readFrameAt_shift [of "log_bytes (is @ js)" "take k (encoded j)" 0]
        readFrameAt_truncated [OF encodable_Inr [OF assms(3)] assms(4)] by (simp add: log_bytes_append)
    with False assms(4) show ?thesis by (subst (1 2) parse_from_bad_strict) (auto simp: log_bytes_append)
  qed
  with parse_from_prefix [OF assms(2), of True "log_bytes is" "take k (encoded j)"]
  have "p_frames (parse_from True ?disk (length (log_bytes is))) = map decoded js"
    "p_eofOffset (parse_from True ?disk (length (log_bytes is))) = ?L" by (simp_all add: Let_def log_bytes_append)
  with scan_from_eq [of True rd ?disk "length (log_bytes is)"] show ?thesis
    by (auto simp: scanFrameRefsFd_def scan_matches_def)
qed

lemma catchUpWal_log:
  assumes "\<forall>i\<in>set is. encodable i" "\<forall>i\<in>set js. encodable i" "encodable j" "k < length (encoded j)"
  defines "disk \<equiv> log_bytes is @ log_bytes js @ take k (encoded j)"
  shows "\<exists>fs. catchUpWal rd (Some \<lparr>wf_bytes = disk, wf_dev = dev, wf_ino = ino\<rparr>) (int (length (log_bytes is))) dev ino app s =
      (Inr (Some (length (log_bytes (is @ js)), length js)), fold app fs s) \<and> map (deref disk) fs = map decoded js"
proof -
  let ?L = "length (log_bytes is)"
  obtain q where q: "scanFrameRefsFd rd True ?L disk = Inr q" "map (deref disk) (s_frames q) = map decoded js"
    "s_eofOffset q = length (log_bytes (is @ js))"
    using scan_log_suffix [OF assms(1-4)] by (auto simp: disk_def)
  have len: "length (s_frames q) = length js" using q(2) by (metis length_map)
  have le: "?L \<le> length disk" by (simp add: disk_def)
  have head: "readAtSync rd disk ?L (min (length MAGIC) (length disk - ?L)) = Inr (take (min (length MAGIC) (length disk - ?L)) MAGIC)"
    if "js = []"
  proof -
    have "readAtSync rd disk ?L (min (length MAGIC) (length disk - ?L)) =
        Inr (subarray ?L (?L + min (length MAGIC) (length disk - ?L)) disk)"
      by (rule readAtSync_ok) (use le in simp)
    moreover have "drop ?L disk = take k (encoded j)" by (simp add: disk_def that)
    moreover obtain r where "encoded j = MAGIC @ r" using encoded_MAGIC [OF assms(3)] by blast
    ultimately show ?thesis by (simp add: subarray_def disk_def that min_def take_Cons' MAGIC_def)
  qed
  show ?thesis
  proof (cases "s_frames q = [] \<and> s_eofOffset q < length disk")
    case True
    with len have "js = []" by simp
    with True q(1,3) le head show ?thesis
      by (intro exI [of _ "[]"]) (simp add: catchUpWal_def Let_def)
  next
    case False
    with q le len show ?thesis
      by (intro exI [of _ "s_frames q"]) (auto simp add: catchUpWal_def Let_def)
  qed
qed

subsection \<open>Properties\<close>

text \<open>C1: recovery replays the files. Take any bytes for the snapshot and the log, either corruption mode and
  either value mode; in resync mode let every read return two bytes or more (or what is left), and let the metadata of
  every record the parser returns be readable. Then the recovered store satisfies the store's invariant
  and holds exactly what the writes of the snapshot's frames followed by those of the log's frames leave
  (a record already expired when it is replayed deletes its key), where values kept on disk are read
  back from the files as recovery left them, a truncated log included.\<close>

theorem recover_replays:
  assumes "strict \<or> reads_pairs rd"
    and "log_writes pdt (now Snapshot_file) (p_frames (parseBuffer strict (opt_buf snap))) = (ws1, None)"
    and "log_writes pdt (now Wal_file) (p_frames (parseBuffer strict (wal_bytes wal))) = (ws2, None)"
    and "files Snapshot_file = opt_buf snap" "files Wal_file = wal_bytes (recovered_wal strict trunc wal)"
  shows "\<exists>info s. recover pdt rd strict trunc mode now draws snap wal (new_store n b) =
      Some (Inr info, recovered_wal strict trunc wal, s) \<and> store_inv s \<and>
    contents files s = do_writes (ws1 @ ws2) Map.empty \<and>
    ri_lostBytes info = lost (ri_corruptRanges info @ ri_snapshotCorruptRanges info)"
  using recover_spec [OF new_store_inv assms, of mode draws n b] by auto

text \<open>C2: a crash loses only the append in flight. The snapshot is any bytes, the log any number of complete appends
  and a part of the next one, and the records of both have readable metadata; in resync mode no valid frame may lie
  inside that part and every read returns two bytes or more (or what is left). Then recovery, when it may truncate the log, returns
  exactly the effect of the snapshot and of the complete appends, and truncates the log to the
  complete frames, so that the values it refers to stay readable and the next append starts at a frame
  boundary; the bytes of the cut append are the ones reported for the log.\<close>

theorem recover_after_crash:
  assumes "strict \<or> reads_pairs rd" "\<forall>i\<in>set is. encodable i" "encodable j" "k < length (encoded j)"
    and "strict \<or> (\<forall>s. readFrameAt (take k (encoded j)) s = None)"
    and "log_writes pdt (now Snapshot_file) (p_frames (parseBuffer strict (opt_buf snap))) = (ws0, None)"
    and "log_writes pdt (now Wal_file) (map decoded is) = (ws, None)"
    and "wf_bytes wal = log_bytes is @ take k (encoded j)"
  shows "\<exists>info wal' s. recover pdt rd strict True mode now draws snap (Some wal) (new_store n b) = Some (Inr info, Some wal', s) \<and>
    wf_bytes wal' = log_bytes is \<and> store_inv s \<and>
    contents (\<lambda>f. case f of Wal_file \<Rightarrow> log_bytes is | Snapshot_file \<Rightarrow> opt_buf snap) s = do_writes (ws0 @ ws) Map.empty \<and>
    ri_walFrames info = length is \<and> lost (ri_corruptRanges info) = int k \<and> ri_truncatedWal info = (0 < k) \<and>
    ri_walScanEnd info = length (log_bytes is)"
proof -
  let ?w = "wal\<lparr>wf_bytes := log_bytes is\<rparr>" and ?files = "\<lambda>f. case f of Wal_file \<Rightarrow> log_bytes is | Snapshot_file \<Rightarrow> opt_buf snap"
  have p: "parseBuffer strict (wf_bytes wal) = \<lparr>p_frames = map decoded is,
     p_corruptRanges = (if k = 0 then [] else [(length (log_bytes is), length (log_bytes is) + k)]),
     p_eofOffset = length (log_bytes is)\<rparr>"
    using parse_log_with_tail [OF assms(2,3,4,5)] assms(8) by simp
  have w: "recovered_wal strict True (Some wal) = Some ?w"
    using p assms(4,8) by (auto simp: recovered_wal_def torn_at_def)
  show ?thesis
    using recover_spec [where now = now and snap = snap and wal = "Some wal" and files = ?files and strict = strict and pdt = pdt,
        OF new_store_inv assms(1,6), of ws True mode draws n b]
      p w assms(4,7,8) by (cases "k = 0") (auto simp: torn_at_def lost_def)
qed

text \<open>A replica that caught up to a frame boundary continues there: catch-up hands it exactly the
  frames appended since, in order, and returns the boundary after them, so that a torn append is
  neither applied nor skipped.\<close>

theorem catch_up_applies_new_frames:
  assumes "\<forall>i\<in>set is. encodable i" "\<forall>i\<in>set js. encodable i" "encodable j" "k < length (encoded j)"
  defines "disk \<equiv> log_bytes is @ log_bytes js @ take k (encoded j)"
  shows "\<exists>fs. catchUpWal rd (Some \<lparr>wf_bytes = disk, wf_dev = dev, wf_ino = ino\<rparr>) (int (length (log_bytes is))) dev ino app s =
      (Inr (Some (length (log_bytes (is @ js)), length js)), fold app fs s) \<and> map (deref disk) fs = map decoded js"
  unfolding disk_def by (rule catchUpWal_log [OF assms(1-4)])

subsection \<open>Sample files\<close>

text \<open>A snapshot with two keys, the first of which expires; the log writes the second, repeats the first, which has
  expired by then, and ends in a part of a deletion.\<close>

definition sample_other :: encode_input where
  "sample_other = \<lparr>i_type = TYPE_SET, i_key = [108], i_value = Some [2], i_meta = None, i_expireAt = None\<rparr>"

definition sample_del :: encode_input where
  "sample_del = \<lparr>i_type = TYPE_DEL, i_key = [108], i_value = None, i_meta = None, i_expireAt = None\<rparr>"

lemma encodable_samples [simp]: "encodable sample_other" "encodable sample_del"
  by (simp_all add: encodable_def encodeFrame_def sample_other_def sample_del_def size_defs TYPE_SET_def TYPE_DEL_def fits_i64_def Let_def)

definition sample_snapshot :: buffer where
  "sample_snapshot = log_bytes [sample_set]"

definition sample_wal :: wal_file where
  "sample_wal = \<lparr>wf_bytes = log_bytes [sample_other, sample_set] @ take 7 (encoded sample_del), wf_dev = 1, wf_ino = 2\<rparr>"

definition sample_clock :: "value_file \<Rightarrow> nat \<Rightarrow> nat \<Rightarrow> int" where
  "sample_clock f i o' = (case f of Snapshot_file \<Rightarrow> 0 | Wal_file \<Rightarrow> 4 + int i)"

lemma sample_writes:
  "log_writes pdt (sample_clock Snapshot_file) [decoded sample_set] = ([(bufToKStr [107], Some ([118, 1], 5, None))], None)"
  "log_writes pdt (sample_clock Wal_file) [decoded sample_other, decoded sample_set] =
     ([(bufToKStr [108], Some ([2], 0, None)), (bufToKStr [107], None)], None)"
  by (simp_all add: frame_writes_def set_write_def decoded_def sample_set_def sample_other_def parseMeta_def js_number_def sample_clock_def)

lemma sample_parsed:
  "parseBuffer True (wf_bytes sample_wal) =
    \<lparr>p_frames = [decoded sample_other, decoded sample_set],
     p_corruptRanges = [(length (log_bytes [sample_other, sample_set]), length (log_bytes [sample_other, sample_set]) + 7)],
     p_eofOffset = length (log_bytes [sample_other, sample_set])\<rparr>"
  "p_frames (parseBuffer True sample_snapshot) = [decoded sample_set]"
  using parse_log_with_tail [of "[sample_other, sample_set]" sample_del 7 True] length_encoded_pos [of sample_del]
    parse_from_prefix [of "[sample_set]" True "[]" "[]"]
  by (simp_all add: sample_wal_def sample_snapshot_def parseBuffer_prefix [of "[sample_set]" True "[]", simplified])

definition sample_files :: "value_file \<Rightarrow> buffer" where
  "sample_files f = (case f of Wal_file \<Rightarrow> log_bytes [sample_other, sample_set] | Snapshot_file \<Rightarrow> sample_snapshot)"

theorem recover_replays_witness:
  "\<exists>info s. recover (\<lambda>b. None) (\<lambda>pos len. 2) True True Disk_mode sample_clock (\<lambda>q i. False) (Some sample_snapshot) (Some sample_wal)
       (new_store 100 2) = Some (Inr info, Some (sample_wal\<lparr>wf_bytes := log_bytes [sample_other, sample_set]\<rparr>), s) \<and>
     contents sample_files s (bufToKStr [107]) = None \<and> contents sample_files s (bufToKStr [108]) = Some ([2], 0, None)"
proof -
  have len: "length (wf_bytes sample_wal) = length (log_bytes [sample_other, sample_set]) + 7"
    using length_encoded_pos [of sample_del] by (simp add: sample_wal_def)
  have w: "recovered_wal True True (Some sample_wal) = Some (sample_wal\<lparr>wf_bytes := log_bytes [sample_other, sample_set]\<rparr>)"
    by (simp add: recovered_wal_def torn_at_def sample_parsed len) (simp add: sample_wal_def)
  have k: "bufToKStr [107] \<noteq> bufToKStr [108]" by code_simp
  have f: "sample_files Snapshot_file = opt_buf (Some sample_snapshot)"
    "sample_files Wal_file = wal_bytes (recovered_wal True True (Some sample_wal))"
    by (simp_all add: w sample_files_def)
  show ?thesis
    using recover_replays [where now = sample_clock and files = sample_files, OF _ _ _ f, of "\<lambda>pos len. 2" "\<lambda>b. None"
        "[(bufToKStr [107], Some ([118, 1], 5, None))]" "[(bufToKStr [108], Some ([2], 0, None)), (bufToKStr [107], None)]"
        Disk_mode "\<lambda>q i. False" 100 2]
      k w by (auto simp: reads_pairs_def sample_parsed sample_writes simp del: log_writes.simps)
qed

theorem recover_after_crash_witness:
  "\<exists>info wal' s. recover (\<lambda>b. None) (\<lambda>pos len. 2) True True Memory_mode sample_clock (\<lambda>q i. False) (Some sample_snapshot)
      (Some sample_wal) (new_store 100 2) =
     Some (Inr info, Some wal', s) \<and> wf_bytes wal' = log_bytes [sample_other, sample_set] \<and> lost (ri_corruptRanges info) = 7"
  using recover_after_crash [of True "\<lambda>pos len. 2" "[sample_other, sample_set]" sample_del 7 "\<lambda>b. None" sample_clock "Some sample_snapshot"
      "[(bufToKStr [107], Some ([118, 1], 5, None))]" "[(bufToKStr [108], Some ([2], 0, None)), (bufToKStr [107], None)]"
      sample_wal Memory_mode "\<lambda>q i. False" 100 2]
    length_encoded_pos [of sample_del] sample_parsed(2) sample_writes
  by (auto simp: reads_pairs_def sample_wal_def)

theorem catch_up_applies_new_frames_witness:
  "fst (catchUpWal (\<lambda>pos len. 2) (Some \<lparr>wf_bytes = log_bytes [sample_set] @ log_bytes [sample_set], wf_dev = 1, wf_ino = 2\<rparr>)
      (int (length (log_bytes [sample_set]))) 1 2 (\<lambda>f n. n + 1) (0::nat)) =
    Inr (Some (length (log_bytes [sample_set, sample_set]), 1))"
proof -
  have ne: "encoded sample_set \<noteq> []" using length_encoded_pos [of sample_set] by auto
  show ?thesis
    using catch_up_applies_new_frames [of "[sample_set]" "[sample_set]" sample_set 0 "\<lambda>pos len. 2" 1 2 "\<lambda>f n. n + 1" "0::nat"]
      ne by (auto simp: reads_pairs_def)
qed

end
