(* ===== verification/OrderedSets.thy ===== *)
theory OrderedSets
  imports SkipListSpec "HOL-Library.AList"
begin

section \<open>Skip lists as sets of entries\<close>

text \<open>
  The indexes of the engine use their skip lists as sets of entries: they insert entries they know
  to be absent, delete entries they have recorded, and read ranges. \<open>holds\<close> forgets the order of
  the sequence, which the comparators determine; \<open>ordered_set\<close> is the contract the indexes rely on,
  and every \<open>ordered_index\<close> gives it. The lemmas on association lists, the model of the code's
  \<^verbatim>\<open>Map\<close>s, are shared by the index theories.
\<close>

definition holds :: "('k \<Rightarrow> 'k \<Rightarrow> int) \<Rightarrow> ('v \<Rightarrow> 'v \<Rightarrow> int) \<Rightarrow> ('k, 'v) skip_list \<Rightarrow> ('k \<times> 'v) set \<Rightarrow> bool" where
  "holds cmpK cmpV sl X \<longleftrightarrow> (\<exists>es. index_of cmpK cmpV sl es \<and> set es = X)"

definition sorted_entries :: "('k \<Rightarrow> 'k \<Rightarrow> int) \<Rightarrow> ('v \<Rightarrow> 'v \<Rightarrow> int) \<Rightarrow> ('k \<times> 'v) set \<Rightarrow> ('k \<times> 'v) list \<Rightarrow> bool" where
  "sorted_entries cmpK cmpV X es \<longleftrightarrow> sorted_wrt (entry_less cmpK cmpV) es \<and> set es = X"

locale ordered_set =
  fixes emp :: 't
    and ins :: "'e \<Rightarrow> (nat \<Rightarrow> bool) \<Rightarrow> 't \<Rightarrow> 't option"
    and del :: "'e \<Rightarrow> 't \<Rightarrow> (bool \<times> 't) option"
    and size_of :: "'t \<Rightarrow> nat"
    and set_of :: "'t \<Rightarrow> 'e set \<Rightarrow> bool"
  assumes set_empty: "set_of emp {}"
    and set_ins: "set_of t X \<Longrightarrow> e \<notin> X \<Longrightarrow> \<exists>t'. ins e draw t = Some t' \<and> set_of t' (insert e X)"
    and set_del: "set_of t X \<Longrightarrow> \<exists>t'. del e t = Some (e \<in> X, t') \<and> set_of t' (X - {e})"
    and set_size: "set_of t X \<Longrightarrow> finite X \<and> size_of t = card X"
    and set_unique: "set_of t X \<Longrightarrow> set_of t Y \<Longrightarrow> X = Y"
begin

fun ins_all :: "(nat \<Rightarrow> nat \<Rightarrow> bool) \<Rightarrow> 'e list \<Rightarrow> 't \<Rightarrow> 't option" where
  "ins_all draws [] t = Some t"
| "ins_all draws (e # es) t = Option.bind (ins e (draws (length es)) t) (ins_all draws es)"

lemma set_ins_all:
  "set_of t X \<Longrightarrow> distinct es \<Longrightarrow> set es \<inter> X = {} \<Longrightarrow> \<exists>t'. ins_all draws es t = Some t' \<and> set_of t' (X \<union> set es)"
proof (induction es arbitrary: t X)
  case Nil
  then show ?case by simp
next
  case (Cons e es)
  obtain t1 where t1: "ins e (draws (length es)) t = Some t1" "set_of t1 (insert e X)"
    using set_ins [of t X e "draws (length es)"] Cons.prems by auto
  with Cons.IH [OF t1(2)] Cons.prems show ?case by auto
qed

fun del_all :: "'e list \<Rightarrow> 't \<Rightarrow> 't option" where
  "del_all [] t = Some t"
| "del_all (e # es) t = Option.bind (del e t) (\<lambda>r. del_all es (snd r))"

lemma set_del_all: "set_of t X \<Longrightarrow> \<exists>t'. del_all es t = Some t' \<and> set_of t' (X - set es)"
proof (induction es arbitrary: t X)
  case Nil
  then show ?case by simp
next
  case (Cons e es)
  obtain t1 where t1: "del e t = Some (e \<in> X, t1)" "set_of t1 (X - {e})" using set_del [OF Cons.prems] by blast
  have "X - {e} - set es = X - set (e # es)" by auto
  with Cons.IH [OF t1(2)] t1(1) show ?case by auto
qed

end

context entry_order
begin

lemma holds_range:
  assumes "holds cmpK cmpV sl X" "single_bounds ro"
  shows "\<exists>es. sorted_entries cmpK cmpV X es \<and> range_entries cmpK sl ro = Some (range_spec cmpK ro es)"
  using assms index_range index.abs_sorted unfolding holds_def sorted_entries_def by metis

lemma sorted_entries_unique: "sorted_entries cmpK cmpV X es \<Longrightarrow> sorted_entries cmpK cmpV X fs \<Longrightarrow> es = fs"
  unfolding sorted_entries_def using index.sorted_set_unique by blast

end

sublocale entry_order \<subseteq> sets: ordered_set empty_list
  "\<lambda>e draw sl. insert_node cmpK cmpV (fst e) (snd e) draw sl" "\<lambda>e sl. delete_node cmpK cmpV (fst e) (snd e) sl"
  sl_length "holds cmpK cmpV"
proof unfold_locales
  fix t :: "('k, 'v) skip_list" and X Y :: "('k \<times> 'v) set" and e :: "'k \<times> 'v" and draw
  show "holds cmpK cmpV empty_list {}" using index_empty by (auto simp: holds_def)
  show "\<exists>t'. insert_node cmpK cmpV (fst e) (snd e) draw t = Some t' \<and> holds cmpK cmpV t' (insert e X)"
    if "holds cmpK cmpV t X" "e \<notin> X"
    using that index.abs_ins [of t _ e draw] by (fastforce simp: holds_def)
  show "\<exists>t'. delete_node cmpK cmpV (fst e) (snd e) t = Some (e \<in> X, t') \<and> holds cmpK cmpV t' (X - {e})"
    if X: "holds cmpK cmpV t X"
  proof -
    obtain es where es: "index_of cmpK cmpV t es" "set es = X" using X by (auto simp: holds_def)
    obtain t' where t': "delete_node cmpK cmpV (fst e) (snd e) t = Some (e \<in> set es, t')"
      "index_of cmpK cmpV t' (filter (\<lambda>x. x \<noteq> e) es)" using index.abs_del [OF es(1), of e] by blast
    have "set (filter (\<lambda>x. x \<noteq> e) es) = X - {e}" using es(2) by auto
    with t' es(2) show ?thesis by (auto simp: holds_def)
  qed
  show "finite X \<and> sl_length t = card X" if X: "holds cmpK cmpV t X"
  proof -
    obtain es where es: "index_of cmpK cmpV t es" "set es = X" using X by (auto simp: holds_def)
    then show ?thesis using index_length [OF es(1)] distinct_card [OF index.abs_distinct [OF es(1)]] by auto
  qed
  show "X = Y" if "holds cmpK cmpV t X" "holds cmpK cmpV t Y"
    using that unfolding holds_def by (metis index.abs_list option.inject)
qed

subsection \<open>Association lists\<close>

declare map_of_eq_Some_iff [simp del]

lemma alist_keys_update: "fst ` set (AList.update k r m) = insert k (fst ` set m)"
  by (induction m) auto

lemma alist_keys_delete: "fst ` set (AList.delete k m) = fst ` set m - {k}"
  by (auto simp: AList.delete_eq)

lemma alist_map_of_delete: "map_of (AList.delete k m) k' = (if k' = k then None else map_of m k')"
  by (simp add: AList.delete_conv')

lemma alist_map_of_update: "map_of (AList.update k r m) k' = (if k' = k then Some r else map_of m k')"
  by (simp add: AList.update_conv')

lemma alist_empty_iff: "m = [] \<longleftrightarrow> map_of m = Map.empty"
  by (cases m) (auto simp: fun_eq_iff split: if_splits)

lemmas alist_simps = alist_keys_update alist_keys_delete alist_map_of_delete alist_map_of_update
  AList.distinct_update AList.distinct_delete

end
