(* ===== verification/DtIndex.thy ===== *)
theory DtIndex
  imports OrderedSets
begin

section \<open>Datetime columns (\<^verbatim>\<open>dt-index.ts\<close>)\<close>

text \<open>
  A column keeps the pairs (time, key) of the records that have a finite value in it, as a skip list
  and as a map from keys; a column without entries is removed. \<open>byKey\<close> records the last row given
  for a key. Maps are association lists in insertion order, rows association lists with distinct
  columns (own enumerable properties); times are integers, and a value that is not a finite number
  is \<open>NaN\<close> or \<open>Infinite\<close>. No entry ever compares equal to such a value, so deleting it from a
  list finds nothing. The skip list draws its levels at random: \<open>draws\<close> gives the draw for each
  column.
\<close>

datatype dt_num = Finite int | NaN | Infinite bool

type_synonym dt_row = "(js_string \<times> dt_num) list"

record dt_column =
  dc_list :: "(int, js_string) skip_list"
  dc_byKey :: "(js_string \<times> int) list"

record dt_index =
  di_cols :: "(js_string \<times> dt_column) list"
  di_byKey :: "(js_string \<times> dt_row) list"

definition new_dt_index :: dt_index where
  "new_dt_index = \<lparr>di_cols = [], di_byKey = []\<rparr>"

text \<open>Strict equality: \<open>NaN\<close> differs from itself.\<close>

definition same_num :: "dt_num \<Rightarrow> dt_num \<Rightarrow> bool" where
  "same_num a b \<longleftrightarrow> a = b \<and> a \<noteq> NaN"

definition dt_col :: "js_string \<Rightarrow> (js_string \<times> dt_column) list \<Rightarrow> dt_column" where
  "dt_col name cols = (case map_of cols name of Some c \<Rightarrow> c | None \<Rightarrow> \<lparr>dc_list = empty_list, dc_byKey = []\<rparr>)"

text \<open>Taking a key out of one column, the body shared by \<open>set\<close> and \<open>del\<close>.\<close>

definition drop_entry :: "js_string \<Rightarrow> js_string \<Rightarrow> dt_num \<Rightarrow> (js_string \<times> dt_column) list \<Rightarrow> (js_string \<times> dt_column) list option" where
  "drop_entry key col old cols =
     (case map_of cols col of
        None \<Rightarrow> Some cols
      | Some c \<Rightarrow>
          do { l \<leftarrow> (case old of Finite ms \<Rightarrow> map_option snd (delete_node cmpNumber cmpString ms key (dc_list c))
                              | _ \<Rightarrow> Some (dc_list c));
               let c' = \<lparr>dc_list = l, dc_byKey = AList.delete key (dc_byKey c)\<rparr>;
               Some (if dc_byKey c' = [] then AList.delete col cols else AList.update col c' cols) })"

fun drop_loop :: "js_string \<Rightarrow> (js_string \<Rightarrow> dt_num \<Rightarrow> bool) \<Rightarrow> dt_row \<Rightarrow> (js_string \<times> dt_column) list \<Rightarrow> (js_string \<times> dt_column) list option" where
  "drop_loop key stale [] cols = Some cols"
| "drop_loop key stale ((col, v) # row) cols =
     (if stale col v then Option.bind (drop_entry key col v cols) (drop_loop key stale row)
      else drop_loop key stale row cols)"

definition add_entry :: "js_string \<Rightarrow> js_string \<Rightarrow> int \<Rightarrow> (nat \<Rightarrow> bool) \<Rightarrow> (js_string \<times> dt_column) list \<Rightarrow> (js_string \<times> dt_column) list option" where
  "add_entry key col ms draw cols =
     (let c = dt_col col cols
      in do { l \<leftarrow> insert_node cmpNumber cmpString ms key draw (dc_list c);
              Some (AList.update col \<lparr>dc_list = l, dc_byKey = AList.update key ms (dc_byKey c)\<rparr> cols) })"

fun add_loop :: "js_string \<Rightarrow> dt_row \<Rightarrow> (js_string \<Rightarrow> nat \<Rightarrow> bool) \<Rightarrow> dt_row \<Rightarrow> (js_string \<times> dt_column) list \<Rightarrow> (js_string \<times> dt_column) list option" where
  "add_loop key old draws [] cols = Some cols"
| "add_loop key old draws ((col, v) # row) cols =
     (case v of
        Finite ms \<Rightarrow>
          if (case map_of old col of Some w \<Rightarrow> same_num w v | None \<Rightarrow> False) then add_loop key old draws row cols
          else Option.bind (add_entry key col ms (draws col) cols) (add_loop key old draws row)
      | _ \<Rightarrow> add_loop key old draws row cols)"

definition opt_row :: "dt_row option \<Rightarrow> dt_row" where
  "opt_row r = (case r of None \<Rightarrow> [] | Some row \<Rightarrow> row)"

definition dt_set :: "(js_string \<Rightarrow> nat \<Rightarrow> bool) \<Rightarrow> js_string \<Rightarrow> dt_row option \<Rightarrow> dt_index \<Rightarrow> dt_index option" where
  "dt_set draws key dt d =
     (let old = opt_row (map_of (di_byKey d) key); nxt = opt_row dt
      in do { cols1 \<leftarrow> drop_loop key (\<lambda>col v. case map_of nxt col of None \<Rightarrow> True | Some w \<Rightarrow> \<not> same_num v w) old (di_cols d);
              cols2 \<leftarrow> add_loop key old draws nxt cols1;
              Some \<lparr>di_cols = cols2,
                    di_byKey = (if nxt \<noteq> [] then AList.update key nxt (di_byKey d) else AList.delete key (di_byKey d))\<rparr> })"

definition dt_del :: "js_string \<Rightarrow> dt_index \<Rightarrow> dt_index option" where
  "dt_del key d =
     (case map_of (di_byKey d) key of
        None \<Rightarrow> Some d
      | Some old \<Rightarrow>
          do { cols \<leftarrow> drop_loop key (\<lambda>col v. True) old (di_cols d);
               Some \<lparr>di_cols = cols, di_byKey = AList.delete key (di_byKey d)\<rparr> })"

definition dt_range :: "js_string \<Rightarrow> int range_options \<Rightarrow> dt_index \<Rightarrow> (js_string \<times> int) list option" where
  "dt_range col ro d =
     (case map_of (di_cols d) col of
        None \<Rightarrow> Some []
      | Some c \<Rightarrow> map_option (map (\<lambda>(ms, key). (key, ms))) (range_entries cmpNumber (dc_list c) ro))"

definition dt_iterate :: "js_string \<Rightarrow> int range_options \<Rightarrow> dt_index \<Rightarrow> (js_string \<times> int) list option" where
  "dt_iterate col ro d =
     (case map_of (di_cols d) col of
        None \<Rightarrow> Some []
      | Some c \<Rightarrow> map_option (map (\<lambda>(ms, key). (key, ms))) (iterate_entries cmpNumber (dc_list c) ro))"

definition dt_columns_of :: "dt_index \<Rightarrow> js_string list" where
  "dt_columns_of d = map fst (di_cols d)"

fun dt_rebuild_loop :: "(nat \<Rightarrow> js_string \<Rightarrow> nat \<Rightarrow> bool) \<Rightarrow> (js_string \<times> dt_row option) list \<Rightarrow> dt_index \<Rightarrow> dt_index option" where
  "dt_rebuild_loop draws [] d = Some d"
| "dt_rebuild_loop draws ((key, dt) # es) d =
     (case dt of
        None \<Rightarrow> dt_rebuild_loop draws es d
      | Some row \<Rightarrow> Option.bind (dt_set (draws (length es)) key (Some row) d) (dt_rebuild_loop draws es))"

definition dt_rebuild :: "(nat \<Rightarrow> js_string \<Rightarrow> nat \<Rightarrow> bool) \<Rightarrow> (js_string \<times> dt_row option) list \<Rightarrow> dt_index option" where
  "dt_rebuild draws es = dt_rebuild_loop draws es new_dt_index"

end
