(* ===== verification/DtIndexProofs.thy ===== *)
theory DtIndexProofs
  imports DtIndex
begin

section \<open>Datetime columns: what the index promises\<close>

text \<open>
  \<open>cols_ok P cols\<close>: column by column, the list and the key map hold exactly the entries \<open>P\<close> names,
  and only columns with entries exist. The invariant \<open>dt_inv\<close> takes for \<open>P\<close> the finite values of
  the recorded rows (\<open>placed\<close>).
\<close>

definition column_ok :: "dt_column \<Rightarrow> (int \<times> js_string) set \<Rightarrow> bool" where
  "column_ok c X \<longleftrightarrow> holds cmpNumber cmpString (dc_list c) X \<and> distinct (map fst (dc_byKey c)) \<and>
     (\<forall>k ms. map_of (dc_byKey c) k = Some ms \<longleftrightarrow> (ms, k) \<in> X)"

definition cols_ok :: "(js_string \<Rightarrow> (int \<times> js_string) set) \<Rightarrow> (js_string \<times> dt_column) list \<Rightarrow> bool" where
  "cols_ok P cols \<longleftrightarrow> distinct (map fst cols) \<and>
     (\<forall>col c. map_of cols col = Some c \<longrightarrow> P col \<noteq> {} \<and> column_ok c (P col)) \<and>
     (\<forall>col. map_of cols col = None \<longrightarrow> P col = {})"

definition placed :: "dt_index \<Rightarrow> js_string \<Rightarrow> (int \<times> js_string) set" where
  "placed d col = {(ms, k). \<exists>row. map_of (di_byKey d) k = Some row \<and> map_of row col = Some (Finite ms)}"

definition dt_inv :: "dt_index \<Rightarrow> bool" where
  "dt_inv d \<longleftrightarrow> distinct (map fst (di_byKey d)) \<and>
     (\<forall>k row. map_of (di_byKey d) k = Some row \<longrightarrow> row \<noteq> [] \<and> distinct (map fst row)) \<and>
     cols_ok (placed d) (di_cols d)"

abbreviation without_key :: "js_string \<Rightarrow> (int \<times> js_string) set \<Rightarrow> (int \<times> js_string) set" where
  "without_key key X \<equiv> {e \<in> X. snd e \<noteq> key}"

lemma cols_okD: "cols_ok P cols \<Longrightarrow> map_of cols col = Some c \<Longrightarrow> P col \<noteq> {} \<and> column_ok c (P col)"
  by (simp add: cols_ok_def)

lemma cols_ok_absent: "cols_ok P cols \<Longrightarrow> map_of cols col = None \<Longrightarrow> P col = {}"
  by (simp add: cols_ok_def)

lemma cols_ok_update:
  "cols_ok P cols \<Longrightarrow> X \<noteq> {} \<Longrightarrow> column_ok c X \<Longrightarrow> cols_ok (P(col := X)) (AList.update col c cols)"
  by (auto simp: cols_ok_def alist_simps)

lemma cols_ok_delete: "cols_ok P cols \<Longrightarrow> cols_ok (P(col := {})) (AList.delete col cols)"
  by (auto simp: cols_ok_def alist_simps)

lemma column_empty: "column_ok \<lparr>dc_list = empty_list, dc_byKey = []\<rparr> {}"
  using number_str.sets.set_empty by (simp add: column_ok_def)

lemma column_drop:
  assumes "column_ok c X" "\<And>ms. (ms, key) \<in> X \<longleftrightarrow> old = Finite ms"
  shows "\<exists>l. (case old of Finite ms \<Rightarrow> map_option snd (delete_node cmpNumber cmpString ms key (dc_list c)) | _ \<Rightarrow> Some (dc_list c)) = Some l \<and>
    column_ok \<lparr>dc_list = l, dc_byKey = AList.delete key (dc_byKey c)\<rparr> (without_key key X)"
proof (cases old)
  case (Finite ms)
  obtain l where l: "delete_node cmpNumber cmpString ms key (dc_list c) = Some ((ms, key) \<in> X, l)"
    "holds cmpNumber cmpString l (X - {(ms, key)})"
    using number_str.sets.set_del [of "dc_list c" X "(ms, key)"] assms(1) by (auto simp: column_ok_def)
  moreover have "X - {(ms, key)} = without_key key X" using assms(2) Finite by auto
  ultimately show ?thesis using assms(1) Finite by (auto simp: column_ok_def alist_simps)
next
  case NaN
  then have "without_key key X = X" using assms(2) by auto
  with assms NaN show ?thesis by (auto simp: column_ok_def alist_simps)
next
  case (Infinite b)
  then have "without_key key X = X" using assms(2) by auto
  with assms Infinite show ?thesis by (auto simp: column_ok_def alist_simps)
qed

lemma drop_entry_spec:
  assumes "cols_ok P cols" "\<And>ms. (ms, key) \<in> P col \<longleftrightarrow> old = Finite ms"
  shows "\<exists>cols'. drop_entry key col old cols = Some cols' \<and> cols_ok (P(col := without_key key (P col))) cols'"
proof (cases "map_of cols col")
  case None
  then have "P(col := without_key key (P col)) = P" using cols_ok_absent [OF assms(1) None] by (simp add: fun_upd_idem)
  with None assms(1) show ?thesis by (simp add: drop_entry_def)
next
  case (Some c)
  let ?X = "without_key key (P col)"
  obtain l where l: "(case old of Finite ms \<Rightarrow> map_option snd (delete_node cmpNumber cmpString ms key (dc_list c)) | _ \<Rightarrow> Some (dc_list c)) = Some l"
    "column_ok \<lparr>dc_list = l, dc_byKey = AList.delete key (dc_byKey c)\<rparr> ?X"
    using column_drop [of c "P col" key old] cols_okD [OF assms(1) Some] assms(2) by auto
  have m: "map_of (AList.delete key (dc_byKey c)) k = Some ms \<longleftrightarrow> (ms, k) \<in> ?X" for k ms
    using l(2) by (simp add: column_ok_def)
  have "AList.delete key (dc_byKey c) = [] \<longleftrightarrow> (\<forall>k ms. map_of (AList.delete key (dc_byKey c)) k \<noteq> Some ms)"
    by (auto simp: alist_empty_iff fun_eq_iff)
  then have e: "AList.delete key (dc_byKey c) = [] \<longleftrightarrow> ?X = {}" unfolding m by auto
  show ?thesis
  proof (cases "?X = {}")
    case True
    then show ?thesis
      using cols_ok_delete [OF assms(1), of col] e l(1) Some unfolding True by (simp add: drop_entry_def)
  next
    case False
    then show ?thesis
      using cols_ok_update [OF assms(1) False l(2), of col] e l(1) Some False by (simp add: drop_entry_def del: ex_simps) blast
  qed
qed

lemma drop_loop_spec:
  assumes "cols_ok P cols" "distinct (map fst row)"
    and "\<And>col v ms. map_of row col = Some v \<Longrightarrow> (ms, key) \<in> P col \<longleftrightarrow> v = Finite ms"
  shows "\<exists>cols'. drop_loop key stale row cols = Some cols' \<and>
    cols_ok (\<lambda>col. if \<exists>v. map_of row col = Some v \<and> stale col v then without_key key (P col) else P col) cols'"
  using assms
proof (induction row arbitrary: P cols)
  case Nil
  then show ?case by simp
next
  case (Cons e row)
  obtain col v where e: "e = (col, v)" by (cases e)
  have notin: "map_of row col = None" using Cons.prems(2) e by (simp add: map_of_eq_None_iff)
  have rest: "map_of row c = Some w \<Longrightarrow> (ms, key) \<in> P c \<longleftrightarrow> w = Finite ms" for c w ms
    using Cons.prems(3) [of c w ms] notin e by (cases "c = col") auto
  show ?case
  proof (cases "stale col v")
    case True
    let ?P = "P(col := without_key key (P col))"
    obtain c1 where c1: "drop_entry key col v cols = Some c1" "cols_ok ?P c1"
      using drop_entry_spec [OF Cons.prems(1), of key col v] Cons.prems(3) [of col v] e by auto
    have "(ms, key) \<in> ?P c \<longleftrightarrow> w = Finite ms" if "map_of row c = Some w" for c w ms
      using rest [OF that, of ms] notin that by auto
    then obtain cols' where cols': "drop_loop key stale row c1 = Some cols'"
      "cols_ok (\<lambda>c. if \<exists>v. map_of row c = Some v \<and> stale c v then without_key key (?P c) else ?P c) cols'"
      using Cons.IH [OF c1(2)] Cons.prems(2) by (simp del: fun_upd_apply) blast
    moreover have "(\<lambda>c. if \<exists>v. map_of row c = Some v \<and> stale c v then without_key key (?P c) else ?P c) =
        (\<lambda>c. if \<exists>v. map_of (e # row) c = Some v \<and> stale c v then without_key key (P c) else P c)"
      using notin True e by (auto simp: fun_eq_iff)
    ultimately show ?thesis using c1(1) e True by simp
  next
    case False
    obtain cols' where cols': "drop_loop key stale row cols = Some cols'"
      "cols_ok (\<lambda>c. if \<exists>v. map_of row c = Some v \<and> stale c v then without_key key (P c) else P c) cols'"
      using Cons.IH [OF Cons.prems(1)] Cons.prems(2) rest e by auto
    moreover have "(\<lambda>c. if \<exists>v. map_of row c = Some v \<and> stale c v then without_key key (P c) else P c) =
        (\<lambda>c. if \<exists>v. map_of (e # row) c = Some v \<and> stale c v then without_key key (P c) else P c)"
      using notin False e by (auto simp: fun_eq_iff)
    ultimately show ?thesis using e False by simp
  qed
qed

lemma add_entry_spec:
  assumes "cols_ok P cols" "\<And>ms. (ms, key) \<notin> P col"
  shows "\<exists>cols'. add_entry key col ms draw cols = Some cols' \<and> cols_ok (P(col := insert (ms, key) (P col))) cols'"
proof -
  let ?c = "dt_col col cols"
  have c: "column_ok ?c (P col)"
    using cols_okD [OF assms(1)] cols_ok_absent [OF assms(1)] column_empty
    by (cases "map_of cols col") (auto simp: dt_col_def)
  obtain l where l: "insert_node cmpNumber cmpString ms key draw (dc_list ?c) = Some l"
    "holds cmpNumber cmpString l (insert (ms, key) (P col))"
    using number_str.sets.set_ins [of "dc_list ?c" "P col" "(ms, key)" draw] c assms(2) by (auto simp: column_ok_def)
  have "column_ok \<lparr>dc_list = l, dc_byKey = AList.update key ms (dc_byKey ?c)\<rparr> (insert (ms, key) (P col))"
    using c l(2) assms(2) by (auto simp: column_ok_def alist_simps)
  with l(1) cols_ok_update [OF assms(1)] show ?thesis by (simp add: add_entry_def Let_def)
qed

definition added :: "js_string \<Rightarrow> dt_row \<Rightarrow> dt_row \<Rightarrow> (js_string \<Rightarrow> (int \<times> js_string) set) \<Rightarrow> js_string \<Rightarrow> (int \<times> js_string) set" where
  "added key old row P col = P col \<union> {(ms, k). k = key \<and> map_of row col = Some (Finite ms) \<and> map_of old col \<noteq> Some (Finite ms)}"

lemma add_loop_spec:
  assumes "cols_ok P cols" "distinct (map fst row)"
    and "\<And>col ms ms'. map_of row col = Some (Finite ms) \<Longrightarrow> map_of old col \<noteq> Some (Finite ms) \<Longrightarrow> (ms', key) \<notin> P col"
  shows "\<exists>cols'. add_loop key old draws row cols = Some cols' \<and> cols_ok (added key old row P) cols'"
  using assms
proof (induction row arbitrary: P cols)
  case Nil
  then show ?case by (simp add: added_def)
next
  case (Cons e row)
  obtain col v where e: "e = (col, v)" by (cases e)
  have notin: "map_of row col = None" using Cons.prems(2) e by (simp add: map_of_eq_None_iff)
  have rest: "map_of row c = Some (Finite ms) \<Longrightarrow> map_of old c \<noteq> Some (Finite ms) \<Longrightarrow> (ms', key) \<notin> P c" for c ms ms'
    using Cons.prems(3) [of c ms ms'] notin e by (cases "c = col") auto
  show ?case
  proof (cases "\<exists>ms. v = Finite ms \<and> map_of old col \<noteq> Some v")
    case True
    then obtain ms where v: "v = Finite ms" "map_of old col \<noteq> Some v" by blast
    let ?P = "P(col := insert (ms, key) (P col))"
    obtain c1 where c1: "add_entry key col ms (draws col) cols = Some c1" "cols_ok ?P c1"
      using add_entry_spec [OF Cons.prems(1), of key col ms "draws col"] Cons.prems(3) [of col ms] v e by auto
    have p: "(ms'', key) \<notin> ?P c" if "map_of row c = Some (Finite ms')" "map_of old c \<noteq> Some (Finite ms')" for c ms' ms''
      using rest [OF that, of ms''] notin that by auto
    obtain cols' where cols': "add_loop key old draws row c1 = Some cols'" "cols_ok (added key old row ?P) cols'"
      using Cons.IH [OF c1(2)] p Cons.prems(2) by (simp del: fun_upd_apply) blast
    moreover have "added key old row ?P = added key old (e # row) P"
      using notin v e by (auto simp: added_def fun_eq_iff)
    ultimately show ?thesis using c1(1) e v by (cases "map_of old col") (auto simp: same_num_def)
  next
    case False
    obtain cols' where cols': "add_loop key old draws row cols = Some cols'" "cols_ok (added key old row P) cols'"
      using Cons.IH [OF Cons.prems(1)] Cons.prems(2) rest e by auto
    moreover have "added key old row P = added key old (e # row) P"
      using notin False e by (auto simp: added_def fun_eq_iff)
    ultimately show ?thesis using e False by (cases v) (auto simp: same_num_def)
  qed
qed

subsection \<open>The operations\<close>

text \<open>The row of a key after the last write, the empty row where there is none.\<close>

definition row_of :: "dt_index \<Rightarrow> js_string \<Rightarrow> dt_row" where
  "row_of d key = opt_row (map_of (di_byKey d) key)"

lemma placed_key:
  "dt_inv d \<Longrightarrow> (ms, key) \<in> placed d col \<longleftrightarrow> map_of (row_of d key) col = Some (Finite ms)"
  by (auto simp: placed_def row_of_def opt_row_def split: option.splits)

lemma dt_set_spec:
  assumes "dt_inv d" "distinct (map fst (opt_row dt))"
  shows "\<exists>d'. dt_set draws key dt d = Some d' \<and> dt_inv d' \<and>
    map_of (di_byKey d') = (map_of (di_byKey d))(key := if opt_row dt = [] then None else Some (opt_row dt))"
proof -
  let ?old = "row_of d key" and ?nxt = "opt_row dt"
  let ?stale = "\<lambda>col v. case map_of ?nxt col of None \<Rightarrow> True | Some w \<Rightarrow> \<not> same_num v w"
  have inv: "cols_ok (placed d) (di_cols d)" "distinct (map fst ?old)"
    using assms(1) by (auto simp: dt_inv_def row_of_def opt_row_def split: option.split)
  define P1 where "P1 = (\<lambda>col. if \<exists>v. map_of ?old col = Some v \<and> ?stale col v
    then without_key key (placed d col) else placed d col)"
  obtain cols1 where c1: "drop_loop key ?stale ?old (di_cols d) = Some cols1" "cols_ok P1 cols1"
    using drop_loop_spec [OF inv, of key ?stale] placed_key [OF assms(1), of _ key] unfolding P1_def by auto
  have p1: "(ms, key) \<in> P1 col \<Longrightarrow> map_of ?old col = Some (Finite ms) \<and> map_of ?nxt col = Some (Finite ms)" for ms col
    using placed_key [OF assms(1), of ms key col] by (auto simp: P1_def same_num_def split: if_splits option.splits)
  have "map_of ?nxt col = Some (Finite ms) \<Longrightarrow> map_of ?old col \<noteq> Some (Finite ms) \<Longrightarrow> (ms', key) \<notin> P1 col" for col ms ms'
    using p1 [of ms' col] by auto
  then obtain cols2 where c2: "add_loop key ?old draws ?nxt cols1 = Some cols2" "cols_ok (added key ?old ?nxt P1) cols2"
    using add_loop_spec [OF c1(2) assms(2), of ?old key draws] by blast
  define d' where "d' = \<lparr>di_cols = cols2,
     di_byKey = (if ?nxt \<noteq> [] then AList.update key ?nxt (di_byKey d) else AList.delete key (di_byKey d))\<rparr>"
  have rows: "map_of (di_byKey d') = (map_of (di_byKey d))(key := if ?nxt = [] then None else Some ?nxt)"
    by (auto simp: d'_def alist_simps)
  have "added key ?old ?nxt P1 col = placed d' col" for col
  proof (intro set_eqI)
    fix e :: "int \<times> js_string"
    obtain ms k where e: "e = (ms, k)" by (cases e)
    show "e \<in> added key ?old ?nxt P1 col \<longleftrightarrow> e \<in> placed d' col"
    proof (cases "k = key")
      case True
      have "(ms, key) \<in> P1 col" if "map_of ?nxt col = Some (Finite ms)" "map_of ?old col = Some (Finite ms)"
        using that placed_key [OF assms(1), of ms key col] by (auto simp: P1_def same_num_def)
      then show ?thesis
        using p1 [of ms col] True e by (auto simp: added_def placed_def rows)
    next
      case False
      then show ?thesis using e by (auto simp: added_def P1_def placed_def rows)
    qed
  qed
  then have "cols_ok (placed d') (di_cols d')" using c2(2) by (simp add: d'_def ext [of "added key ?old ?nxt P1" "placed d'"])
  moreover have "distinct (map fst (di_byKey d'))" using assms(1) by (simp add: d'_def dt_inv_def alist_simps)
  ultimately have "dt_inv d'" using assms rows by (auto simp: dt_inv_def split: if_splits)
  moreover have "dt_set draws key dt d = Some d'"
    using c1(1) c2(1) by (simp add: dt_set_def d'_def row_of_def Let_def)
  ultimately show ?thesis using rows by blast
qed

lemma dt_del_spec:
  assumes "dt_inv d"
  shows "\<exists>d'. dt_del key d = Some d' \<and> dt_inv d' \<and> map_of (di_byKey d') = (map_of (di_byKey d))(key := None)"
proof (cases "map_of (di_byKey d) key")
  case None
  then have "(map_of (di_byKey d))(key := None) = map_of (di_byKey d)" by (simp add: fun_upd_idem)
  with None assms show ?thesis by (simp add: dt_del_def)
next
  case (Some row)
  have inv: "cols_ok (placed d) (di_cols d)" "distinct (map fst row)" and row: "row_of d key = row"
    using assms Some by (auto simp: dt_inv_def row_of_def opt_row_def)
  define P1 where "P1 = (\<lambda>col. if \<exists>v. map_of row col = Some v \<and> True then without_key key (placed d col) else placed d col)"
  obtain cols1 where c1: "drop_loop key (\<lambda>col v. True) row (di_cols d) = Some cols1" "cols_ok P1 cols1"
    using drop_loop_spec [OF inv, of key "\<lambda>col v. True"] placed_key [OF assms, of _ key] row unfolding P1_def by auto
  define d' where "d' = \<lparr>di_cols = cols1, di_byKey = AList.delete key (di_byKey d)\<rparr>"
  have rows: "map_of (di_byKey d') = (map_of (di_byKey d))(key := None)" by (auto simp: d'_def alist_simps)
  have "P1 col = placed d' col" for col
    using Some by (auto simp: P1_def placed_def rows split: if_splits)
  then have "cols_ok (placed d') (di_cols d')" using c1(2) by (simp add: d'_def ext [of P1 "placed d'"])
  moreover have "distinct (map fst (di_byKey d'))" using assms by (simp add: d'_def dt_inv_def alist_simps)
  ultimately have "dt_inv d'" using assms rows by (auto simp: dt_inv_def split: if_splits)
  moreover have "dt_del key d = Some d'" using c1(1) Some by (simp add: dt_del_def d'_def)
  ultimately show ?thesis using rows by blast
qed

lemma dt_range_spec:
  assumes "dt_inv d" "single_bounds ro"
  shows "\<exists>es. sorted_entries cmpNumber cmpString (placed d col) es \<and>
    dt_range col ro d = Some (map (\<lambda>(ms, k). (k, ms)) (range_spec cmpNumber ro es))"
proof (cases "map_of (di_cols d) col")
  case None
  then have "placed d col = {}" using assms(1) by (auto simp: dt_inv_def dest: cols_ok_absent)
  then show ?thesis using None
    by (intro exI [of _ "[]"]) (simp add: sorted_entries_def dt_range_def range_spec_def)
next
  case (Some c)
  then have "holds cmpNumber cmpString (dc_list c) (placed d col)"
    using assms(1) by (auto simp: dt_inv_def column_ok_def dest: cols_okD)
  from number_str.holds_range [OF this assms(2)] show ?thesis using Some by (auto simp: dt_range_def)
qed

lemma new_dt_inv: "dt_inv new_dt_index"
  by (simp add: dt_inv_def new_dt_index_def cols_ok_def placed_def)

text \<open>The keys a rebuild inserts: the last row given for each key, none where it is empty.\<close>

fun rebuilt_rows :: "(js_string \<times> dt_row option) list \<Rightarrow> (js_string \<rightharpoonup> dt_row) \<Rightarrow> (js_string \<rightharpoonup> dt_row)" where
  "rebuilt_rows [] m = m"
| "rebuilt_rows ((key, dt) # es) m =
     rebuilt_rows es (case dt of None \<Rightarrow> m | Some row \<Rightarrow> m(key := if row = [] then None else Some row))"

lemma dt_rebuild_loop_spec:
  "dt_inv d \<Longrightarrow> \<forall>(key, dt)\<in>set es. distinct (map fst (opt_row dt)) \<Longrightarrow>
    \<exists>d'. dt_rebuild_loop draws es d = Some d' \<and> dt_inv d' \<and> map_of (di_byKey d') = rebuilt_rows es (map_of (di_byKey d))"
proof (induction draws es d rule: dt_rebuild_loop.induct)
  case (1 draws d)
  then show ?case by simp
next
  case (2 draws key dt es d)
  show ?case
  proof (cases dt)
    case None
    with 2 show ?thesis by simp
  next
    case (Some row)
    obtain d1 where d1: "dt_set (draws (length es)) key (Some row) d = Some d1" "dt_inv d1"
      "map_of (di_byKey d1) = (map_of (di_byKey d))(key := if row = [] then None else Some row)"
      using dt_set_spec [OF "2.prems"(1), of "Some row" "draws (length es)" key] "2.prems"(2) Some
      by (auto simp: opt_row_def)
    with "2.IH"(2) [OF Some d1(1,2)] "2.prems"(2) Some show ?thesis by (simp del: fun_upd_apply)
  qed
qed

subsection \<open>Properties\<close>

text \<open>Setting the datetime columns of a key replaces its row and only its row: afterwards a range
  over any column returns exactly the finite values of the recorded rows within the bounds, ordered
  by time and then by key, with no trace of the key's old values and no duplicate of an unchanged one.\<close>

theorem dt_set_range:
  assumes "dt_inv d" "distinct (map fst (opt_row dt))" "single_bounds ro"
  shows "\<exists>d' es. dt_set draws key dt d = Some d' \<and> dt_inv d' \<and>
    (\<forall>k. row_of d' k = (if k = key then opt_row dt else row_of d k)) \<and>
    sorted_entries cmpNumber cmpString {(ms, k). map_of (row_of d' k) col = Some (Finite ms)} es \<and>
    dt_range col ro d' = Some (map (\<lambda>(ms, k). (k, ms)) (range_spec cmpNumber ro es))"
proof -
  obtain d' where d': "dt_set draws key dt d = Some d'" "dt_inv d'"
    "map_of (di_byKey d') = (map_of (di_byKey d))(key := if opt_row dt = [] then None else Some (opt_row dt))"
    using dt_set_spec [OF assms(1,2)] by blast
  have "placed d' col = {(ms, k). map_of (row_of d' k) col = Some (Finite ms)}"
    using placed_key [OF d'(2), of _ _ col] by auto
  moreover have "row_of d' k = (if k = key then opt_row dt else row_of d k)" for k
    by (simp add: row_of_def d'(3)) (simp add: opt_row_def)
  ultimately show ?thesis using dt_range_spec [OF d'(2) assms(3), of col] d'(1,2) by auto
qed

theorem dt_set_range_witness:
  "\<exists>d'. dt_set (\<lambda>c n. False) [65] (Some [([99], Finite 7), ([100], NaN)]) new_dt_index = Some d' \<and>
     row_of d' [65] = [([99], Finite 7), ([100], NaN)] \<and> dt_inv d'"
  using dt_set_range [OF new_dt_inv, of "Some [([99], Finite 7), ([100], NaN)]"
      "\<lparr>ro_gte = None, ro_gt = None, ro_lte = None, ro_lt = None, ro_offset = 0, ro_count = None, ro_reverse = False\<rparr>"
      "\<lambda>c n. False" "[65]" "[]"]
  by (auto simp: opt_row_def single_bounds_def)

end
