(* ===== verification/Json.thy ===== *)
theory Json
  imports Prelude "HOL-Library.List_Lexorder"
begin

section \<open>JSON documents and their text\<close>

text \<open>
  Stored documents are JSON values; \<open>undefined\<close> is \<open>None\<close> where a value is optional. Numbers are
  integers (timestamps, counters, sizes) within JavaScript's exact range, objects association lists
  of their own properties, in the order \<^verbatim>\<open>Object.keys\<close> lists them; properties inherited from a
  prototype are not part of a document and are not modelled. The text functions follow
  \<^verbatim>\<open>JSON.stringify\<close> and \<^verbatim>\<open>String\<close>.
\<close>

datatype json = JNull | JBool bool | JNum int | JStr js_string | JArr "json list" | JObj "(js_string \<times> json) list"

definition js :: "string \<Rightarrow> js_string" where
  "js s = map of_char s"

text \<open>\<^verbatim>\<open>split\<close> at a separating unit: always at least one part.\<close>

fun split_at :: "16 word \<Rightarrow> js_string \<Rightarrow> js_string list" where
  "split_at sep [] = [[]]"
| "split_at sep (u # us) =
     (if u = sep then [] # split_at sep us
      else (case split_at sep us of [] \<Rightarrow> [[u]] | p # ps \<Rightarrow> (u # p) # ps))"

fun join_with :: "js_string \<Rightarrow> js_string list \<Rightarrow> js_string" where
  "join_with sep [] = []"
| "join_with sep [p] = p"
| "join_with sep (p # q # ps) = p @ sep @ join_with sep (q # ps)"

lemma split_at_not_Nil [simp]: "split_at sep us \<noteq> []"
  by (induction us) (auto split: list.splits)

lemma join_split: "join_with [sep] (split_at sep us) = us"
proof (induction us)
  case (Cons u us)
  then show ?case by (cases "split_at sep us"; cases "tl (split_at sep us)") auto
qed simp

lemma split_at_set: "p \<in> set (split_at sep s) \<Longrightarrow> set p \<subseteq> set s"
proof (induction s arbitrary: p)
  case Nil
  then show ?case by simp
next
  case (Cons u s)
  obtain q qs where q: "split_at sep s = q # qs" by (cases "split_at sep s") auto
  show ?case
  proof (cases "u = sep")
    case True
    with Cons show ?thesis by auto
  next
    case False
    with Cons.prems q have "p = u # q \<or> p \<in> set (split_at sep s)" by auto
    moreover have "set q \<subseteq> set s" using Cons.IH q by simp
    ultimately show ?thesis using Cons.IH by auto
  qed
qed

text \<open>Decimal digits.\<close>

lemma digit_unat: "m < 10 \<Longrightarrow> unat (of_nat (48 + m) :: 16 word) = 48 + m"
  by (subst unat_of_nat) simp

fun digits :: "nat \<Rightarrow> js_string" where
  "digits n = (if n < 10 then [of_nat (48 + n)] else digits (n div 10) @ [of_nat (48 + n mod 10)])"

declare digits.simps [simp del]

definition int_text :: "int \<Rightarrow> js_string" where
  "int_text n = (if n < 0 then 45 # digits (nat (- n)) else digits (nat n))"

fun digits_value :: "js_string \<Rightarrow> nat" where
  "digits_value us = foldl (\<lambda>a u. 10 * a + (unat u - 48)) 0 us"

lemma digits_value_digits: "digits_value (digits n) = n"
proof (induction n rule: digits.induct)
  case (1 n)
  have small: "m < 10 \<Longrightarrow> unat (of_nat (48 + m) :: 16 word) - 48 = m" for m
    using digit_unat [of m] by simp
  show ?case
  proof (cases "n < 10")
    case True
    then show ?thesis using small [of n] by (subst digits.simps) simp
  next
    case False
    with 1 small [of "n mod 10"] show ?thesis by (subst digits.simps) simp
  qed
qed

lemma digits_inj: "digits m = digits n \<longleftrightarrow> m = n"
  using digits_value_digits by metis

lemma digits_range: "u \<in> set (digits n) \<Longrightarrow> 48 \<le> u \<and> u \<le> 57"
proof (induction n rule: digits.induct)
  case (1 n)
  have small: "m < 10 \<Longrightarrow> 48 \<le> (of_nat (48 + m) :: 16 word) \<and> of_nat (48 + m) \<le> (57 :: 16 word)" for m
    unfolding word_le_nat_alt by (subst (1 2) digit_unat) simp_all
  from 1 small [of n] small [of "n mod 10"] show ?case
    by (subst (asm) (2) digits.simps) (auto split: if_splits)
qed

lemma int_text_inj: "int_text a = int_text b \<longleftrightarrow> a = b"
proof -
  have "45 \<notin> set (digits m)" for m using digits_range [of 45 m] by (auto simp: word_le_nat_alt)
  then have "digits m \<noteq> 45 # us \<and> 45 # us \<noteq> digits m" for m us by (metis list.set_intros(1))
  then show ?thesis by (auto simp: int_text_def digits_inj)
qed

text \<open>\<^verbatim>\<open>JSON.stringify\<close> of a string: quotes, backslashes and control units are escaped, and so
  are surrogates without a partner.\<close>

definition hex_unit :: "nat \<Rightarrow> 16 word" where
  "hex_unit n = of_nat (if n < 10 then 48 + n else 87 + n)"

definition u_escape :: "16 word \<Rightarrow> js_string" where
  "u_escape u = [92, 117, hex_unit (unat u div 4096 mod 16), hex_unit (unat u div 256 mod 16),
                 hex_unit (unat u div 16 mod 16), hex_unit (unat u mod 16)]"

definition is_high :: "16 word \<Rightarrow> bool" where "is_high u \<longleftrightarrow> 0xD800 \<le> u \<and> u < 0xDC00"
definition is_low :: "16 word \<Rightarrow> bool" where "is_low u \<longleftrightarrow> 0xDC00 \<le> u \<and> u < 0xE000"

definition escape_unit :: "16 word \<Rightarrow> js_string" where
  "escape_unit u =
     (if u = 34 then [92, 34] else if u = 92 then [92, 92]
      else if u = 8 then [92, 98] else if u = 9 then [92, 116] else if u = 10 then [92, 110]
      else if u = 12 then [92, 102] else if u = 13 then [92, 114]
      else if u < 32 \<or> is_high u \<or> is_low u then u_escape u else [u])"

fun escape :: "js_string \<Rightarrow> js_string" where
  "escape [] = []"
| "escape [u] = escape_unit u"
| "escape (u # v # us) =
     (if is_high u \<and> is_low v then u # v # escape us else escape_unit u @ escape (v # us))"

definition quote :: "js_string \<Rightarrow> js_string" where
  "quote s = 34 # escape s @ [34]"

text \<open>The canonical key of a string: its UTF-8 bytes as code units.\<close>

fun toKStr :: "js_string \<Rightarrow> js_string" where
  "toKStr [] = []"
| "toKStr (u # us) =
     (let n = unat u in
      if n < 0x80 then u # toKStr us
      else if n < 0x800 then of_nat (0xC0 + n div 64) # of_nat (0x80 + n mod 64) # toKStr us
      else if is_high u \<and> us \<noteq> [] \<and> is_low (hd us)
      then (let c = 0x10000 + (n - 0xD800) * 1024 + (unat (hd us) - 0xDC00)
            in of_nat (0xF0 + c div 262144) # of_nat (0x80 + c div 4096 mod 64) # of_nat (0x80 + c div 64 mod 64) # of_nat (0x80 + c mod 64) # toKStr (tl us))
      else if is_high u \<or> is_low u then 0xEF # 0xBF # 0xBD # toKStr us
      else of_nat (0xE0 + n div 4096) # of_nat (0x80 + n div 64 mod 64) # of_nat (0x80 + n mod 64) # toKStr us)"

text \<open>Scalars as \<^verbatim>\<open>JSON.stringify\<close> writes them.\<close>

definition bool_text :: "bool \<Rightarrow> js_string" where
  "bool_text b = (if b then js ''true'' else js ''false'')"

subsection \<open>Access by path\<close>

text \<open>An array index in canonical form: digits without a leading zero.\<close>

definition array_index :: "js_string \<Rightarrow> nat option" where
  "array_index k = (if k \<noteq> [] \<and> digits (digits_value k) = k then Some (digits_value k) else None)"

definition get_prop :: "json \<Rightarrow> js_string \<Rightarrow> json option" where
  "get_prop doc k =
     (case doc of
        JObj ms \<Rightarrow> map_of ms k
      | JArr xs \<Rightarrow>
          if k = js ''length'' then Some (JNum (int (length xs)))
          else (case array_index k of Some i \<Rightarrow> if i < length xs then Some (xs ! i) else None | None \<Rightarrow> None)
      | JStr s \<Rightarrow>
          if k = js ''length'' then Some (JNum (int (length s)))
          else (case array_index k of Some i \<Rightarrow> if i < length s then Some (JStr [s ! i]) else None | None \<Rightarrow> None)
      | _ \<Rightarrow> None)"

text \<open>Following a dotted path; \<open>null\<close> and \<open>undefined\<close> on the way give \<open>undefined\<close>.\<close>

definition step_path :: "json option \<Rightarrow> js_string \<Rightarrow> json option" where
  "step_path v k = (case v of None \<Rightarrow> None | Some JNull \<Rightarrow> None | Some d \<Rightarrow> get_prop d k)"

definition dotted_path :: "json \<Rightarrow> js_string \<Rightarrow> json option" where
  "dotted_path doc path = foldl step_path (Some doc) (split_at 46 path)"

end
