(* ===== verification/CompoundIndex.thy ===== *)
theory CompoundIndex
  imports OrderedSets Json
begin

section \<open>Compound indexes (\<^verbatim>\<open>compound-index.ts\<close>)\<close>

text \<open>
  A compound index groups documents by one field and keeps each group ordered by another (or by a
  datetime column, which takes precedence). Order keys are numbers or strings, according to the
  index's order type; the comparator is the one of that type, and bounds of a range are of that type
  too, so the order between a number and a string never decides anything. Group values are compared
  as keys of a JavaScript \<^verbatim>\<open>Map\<close>: scalars by value; a group that is an object or an array is a
  fresh key each time, which \<open>Fresh\<close> identifies by the write that made it.
\<close>

datatype order_type = Number_order | String_order

datatype order_key = ONum int | OStr js_string

datatype group_key = GBool bool | GNum int | GStr js_string | Fresh nat

definition cmpOrder :: "order_key \<Rightarrow> order_key \<Rightarrow> int" where
  "cmpOrder a b =
     (case (a, b) of
        (ONum x, ONum y) \<Rightarrow> cmpNumber x y
      | (OStr x, OStr y) \<Rightarrow> cmpString x y
      | (ONum x, OStr y) \<Rightarrow> -1
      | (OStr x, ONum y) \<Rightarrow> 1)"

record compound_def =
  cd_groupBy :: js_string
  cd_orderBy :: js_string
  cd_orderType :: order_type

record compound_entry =
  ce_def :: compound_def
  ce_groups :: "(group_key \<times> (order_key, js_string) skip_list) list"
  ce_byPk :: "(js_string \<times> group_key \<times> order_key) list"

type_synonym compound_manager = "(js_string \<times> compound_entry) list"

datatype compound_error = AlreadyExists js_string | NoSuchIndex js_string

definition compound_create :: "js_string \<Rightarrow> js_string \<Rightarrow> js_string \<Rightarrow> order_type option \<Rightarrow> compound_manager \<Rightarrow> (compound_error, compound_manager) res" where
  "compound_create name groupBy orderBy orderType m =
     (if map_of m name \<noteq> None then Inl (AlreadyExists name)
      else Inr (AList.update name
        \<lparr>ce_def = \<lparr>cd_groupBy = groupBy, cd_orderBy = orderBy,
                   cd_orderType = (case orderType of None \<Rightarrow> Number_order | Some t \<Rightarrow> t)\<rparr>,
         ce_groups = [], ce_byPk = []\<rparr> m))"

definition compound_drop :: "js_string \<Rightarrow> compound_manager \<Rightarrow> bool \<times> compound_manager" where
  "compound_drop name m = (map_of m name \<noteq> None, AList.delete name m)"

definition compound_list :: "compound_manager \<Rightarrow> (js_string \<times> compound_def) list" where
  "compound_list m = map (\<lambda>(name, e). (name, ce_def e)) m"

definition groupOf :: "compound_entry \<Rightarrow> group_key \<Rightarrow> (order_key, js_string) skip_list" where
  "groupOf e g = (case map_of (ce_groups e) g of Some l \<Rightarrow> l | None \<Rightarrow> empty_list)"

text \<open>The group of a document as a map key (\<open>None\<close> for \<^verbatim>\<open>undefined\<close> and \<^verbatim>\<open>null\<close>), and the order
  key, valid only where it has the index's type.\<close>

definition group_of_doc :: "nat \<Rightarrow> compound_entry \<Rightarrow> json \<Rightarrow> group_key option" where
  "group_of_doc w e doc =
     (case dotted_path doc (cd_groupBy (ce_def e)) of
        None \<Rightarrow> None
      | Some JNull \<Rightarrow> None
      | Some (JBool b) \<Rightarrow> Some (GBool b)
      | Some (JNum n) \<Rightarrow> Some (GNum n)
      | Some (JStr s) \<Rightarrow> Some (GStr s)
      | Some _ \<Rightarrow> Some (Fresh w))"

definition extract_order :: "compound_entry \<Rightarrow> json \<Rightarrow> (js_string \<times> int) list option \<Rightarrow> json option" where
  "extract_order e doc dt =
     (case (case dt of None \<Rightarrow> None | Some d \<Rightarrow> map_of d (cd_orderBy (ce_def e))) of
        Some ms \<Rightarrow> Some (JNum ms)
      | None \<Rightarrow> dotted_path doc (cd_orderBy (ce_def e)))"

definition validOrder :: "compound_entry \<Rightarrow> json option \<Rightarrow> order_key option" where
  "validOrder e order =
     (case (cd_orderType (ce_def e), order) of
        (Number_order, Some (JNum n)) \<Rightarrow> Some (ONum n)
      | (String_order, Some (JStr s)) \<Rightarrow> Some (OStr s)
      | _ \<Rightarrow> None)"

text \<open>Where a document belongs in an index, if anywhere.\<close>

definition placement :: "nat \<Rightarrow> compound_entry \<Rightarrow> json \<Rightarrow> (js_string \<times> int) list option \<Rightarrow> (group_key \<times> order_key) option" where
  "placement w e doc dt =
     (case (group_of_doc w e doc, validOrder e (extract_order e doc dt)) of
        (Some g, Some o') \<Rightarrow> Some (g, o') | _ \<Rightarrow> None)"

text \<open>Updating one index for a document; the group of an emptied list is removed.\<close>

definition unplace :: "js_string \<Rightarrow> compound_entry \<Rightarrow> compound_entry option" where
  "unplace pk e =
     (case map_of (ce_byPk e) pk of
        None \<Rightarrow> Some e
      | Some (g, o') \<Rightarrow>
          (case map_of (ce_groups e) g of
             None \<Rightarrow> Some e
           | Some l \<Rightarrow>
               do { (found, l') \<leftarrow> delete_node cmpOrder cmpString o' pk l;
                    Some (e\<lparr>ce_groups := (if sl_length l' = 0 then AList.delete g (ce_groups e)
                                          else AList.update g l' (ce_groups e))\<rparr>) }))"

definition compound_add_entry :: "nat \<Rightarrow> (nat \<Rightarrow> bool) \<Rightarrow> js_string \<Rightarrow> json \<Rightarrow> (js_string \<times> int) list option \<Rightarrow> compound_entry \<Rightarrow> compound_entry option" where
  "compound_add_entry w draw pk doc dt e =
     (let place = placement w e doc dt; prev = map_of (ce_byPk e) pk
      in if prev \<noteq> None \<and> prev = place then Some e
         else
           do { e1 \<leftarrow> unplace pk e;
                case place of
                  Some (g, o') \<Rightarrow>
                    do { l \<leftarrow> insert_node cmpOrder cmpString o' pk draw (groupOf e1 g);
                         Some (e1\<lparr>ce_groups := AList.update g l (ce_groups e1), ce_byPk := AList.update pk (g, o') (ce_byPk e1)\<rparr>) }
                | None \<Rightarrow> Some (e1\<lparr>ce_byPk := AList.delete pk (ce_byPk e1)\<rparr>) })"

definition compound_remove_entry :: "js_string \<Rightarrow> compound_entry \<Rightarrow> compound_entry option" where
  "compound_remove_entry pk e =
     (case map_of (ce_byPk e) pk of
        None \<Rightarrow> Some e
      | Some (g, o') \<Rightarrow>
          do { groups \<leftarrow> (case map_of (ce_groups e) g of
                 None \<Rightarrow> Some (ce_groups e)
               | Some l \<Rightarrow> map_option (\<lambda>(found, l'). AList.update g l' (ce_groups e)) (delete_node cmpOrder cmpString o' pk l));
               Some (e\<lparr>ce_groups := groups, ce_byPk := AList.delete pk (ce_byPk e)\<rparr>) })"

text \<open>The loops over all indexes, each with its own draw of levels.\<close>

fun each_entry :: "(js_string \<Rightarrow> compound_entry \<Rightarrow> compound_entry option) \<Rightarrow> compound_manager \<Rightarrow> compound_manager option" where
  "each_entry f [] = Some []"
| "each_entry f ((name, e) # m) = do { e' \<leftarrow> f name e; m' \<leftarrow> each_entry f m; Some ((name, e') # m') }"

definition compound_add :: "nat \<Rightarrow> (js_string \<Rightarrow> nat \<Rightarrow> bool) \<Rightarrow> js_string \<Rightarrow> json \<Rightarrow> (js_string \<times> int) list option \<Rightarrow> compound_manager \<Rightarrow> compound_manager option" where
  "compound_add w draws pk doc dt = each_entry (\<lambda>name. compound_add_entry w (draws name) pk doc dt)"

definition compound_remove :: "js_string \<Rightarrow> compound_manager \<Rightarrow> compound_manager option" where
  "compound_remove pk = each_entry (\<lambda>name. compound_remove_entry pk)"

definition compound_range :: "js_string \<Rightarrow> group_key \<Rightarrow> order_key range_options \<Rightarrow> int option \<Rightarrow> compound_manager
    \<Rightarrow> (compound_error, (js_string \<times> order_key) list option) res" where
  "compound_range name g ro limit m =
     (case map_of m name of
        None \<Rightarrow> Inl (NoSuchIndex name)
      | Some e \<Rightarrow>
          (case map_of (ce_groups e) g of
             None \<Rightarrow> Inr (Some [])
           | Some l \<Rightarrow> Inr (map_option (map (\<lambda>(o', pk). (pk, o')))
               (range_entries cmpOrder l (ro\<lparr>ro_count := (case limit of Some n \<Rightarrow> Some n | None \<Rightarrow> ro_count ro)\<rparr>)))))"

fun compound_rebuild_loop :: "(nat \<Rightarrow> js_string \<Rightarrow> nat \<Rightarrow> bool) \<Rightarrow> (js_string \<times> json \<times> (js_string \<times> int) list option) list \<Rightarrow> compound_manager \<Rightarrow> compound_manager option" where
  "compound_rebuild_loop draws [] m = Some m"
| "compound_rebuild_loop draws ((pk, doc, dt) # es) m =
     Option.bind (compound_add (length es) (draws (length es)) pk doc dt m) (compound_rebuild_loop draws es)"

definition compound_rebuild :: "(nat \<Rightarrow> js_string \<Rightarrow> nat \<Rightarrow> bool) \<Rightarrow> (js_string \<times> json \<times> (js_string \<times> int) list option) list \<Rightarrow> compound_manager \<Rightarrow> compound_manager option" where
  "compound_rebuild draws es m =
     compound_rebuild_loop draws es (map (\<lambda>(name, e). (name, e\<lparr>ce_groups := [], ce_byPk := []\<rparr>)) m)"

end
