(* ===== verification/CompoundProofs.thy ===== *)
theory CompoundProofs
  imports CompoundIndex
begin

section \<open>Compound indexes: what they promise\<close>

text \<open>
  The abstract view of the manager is the table of documents it was given: each index holds, group
  by group, exactly the documents whose fields place them there (\<open>reflects\<close>).
\<close>

lemma cmpOrder_comparator: "comparator cmpOrder"
proof
  show "cmpOrder a b = 0 \<longleftrightarrow> a = b" for a b
    by (cases a; cases b) (auto simp: cmpOrder_def number.zero str.zero)
  show "cmpOrder b a < 0 \<longleftrightarrow> 0 < cmpOrder a b" for a b
    by (cases a; cases b) (auto simp: cmpOrder_def number.swap str.swap)
  show "cmpOrder a b < 0 \<Longrightarrow> cmpOrder b c < 0 \<Longrightarrow> cmpOrder a c < 0" for a b c
    by (cases a; cases b; cases c) (auto simp: cmpOrder_def dest: number.trans str.trans)
qed

interpretation order_str: entry_order cmpOrder cmpString
  by (intro entry_order.intro cmpOrder_comparator str.comparator_axioms)

definition members :: "(js_string \<rightharpoonup> group_key \<times> order_key) \<Rightarrow> group_key \<Rightarrow> (order_key \<times> js_string) set" where
  "members B g = {(o', pk). B pk = Some (g, o')}"

definition groups_ok :: "(js_string \<rightharpoonup> group_key \<times> order_key) \<Rightarrow> (group_key \<times> (order_key, js_string) skip_list) list \<Rightarrow> bool" where
  "groups_ok B groups \<longleftrightarrow> distinct (map fst groups) \<and>
     (\<forall>g l. map_of groups g = Some l \<longrightarrow> holds cmpOrder cmpString l (members B g)) \<and>
     (\<forall>g. map_of groups g = None \<longrightarrow> members B g = {})"

definition entry_ok :: "compound_entry \<Rightarrow> bool" where
  "entry_ok e \<longleftrightarrow> groups_ok (map_of (ce_byPk e)) (ce_groups e) \<and> distinct (map fst (ce_byPk e))"

type_synonym doc_table = "js_string \<rightharpoonup> nat \<times> json \<times> (js_string \<times> int) list option"

definition doc_place :: "compound_entry \<Rightarrow> doc_table \<Rightarrow> js_string \<Rightarrow> (group_key \<times> order_key) option" where
  "doc_place e docs pk = (case docs pk of None \<Rightarrow> None | Some (w, doc, dt) \<Rightarrow> placement w e doc dt)"

definition reflects :: "doc_table \<Rightarrow> compound_manager \<Rightarrow> bool" where
  "reflects docs m \<longleftrightarrow> (\<forall>(name, e)\<in>set m. entry_ok e \<and> map_of (ce_byPk e) = doc_place e docs)"

lemma members_remove:
  "B pk = Some (g, o') \<Longrightarrow> members (B(pk := None)) g' = (if g' = g then members B g - {(o', pk)} else members B g')"
  by (auto simp: members_def split: if_splits)

lemma members_remove_absent: "B pk = None \<Longrightarrow> B(pk := None) = B"
  by (simp add: fun_upd_idem)

lemma members_add:
  "B pk = None \<Longrightarrow> members (B(pk := Some (g, o'))) g' = (if g' = g then insert (o', pk) (members B g) else members B g')"
  by (auto simp: members_def split: if_splits)

lemma groups_ok_update:
  "groups_ok B groups \<Longrightarrow> holds cmpOrder cmpString l (members B' g) \<Longrightarrow> (\<And>g'. g' \<noteq> g \<Longrightarrow> members B' g' = members B g') \<Longrightarrow>
    groups_ok B' (AList.update g l groups)"
  by (simp add: groups_ok_def alist_simps)

lemma groups_ok_delete:
  "groups_ok B groups \<Longrightarrow> members B' g = {} \<Longrightarrow> (\<And>g'. g' \<noteq> g \<Longrightarrow> members B' g' = members B g') \<Longrightarrow>
    groups_ok B' (AList.delete g groups)"
  by (simp add: groups_ok_def alist_simps)

lemma group_present: "groups_ok B groups \<Longrightarrow> B pk = Some (g, o') \<Longrightarrow> \<exists>l. map_of groups g = Some l \<and> holds cmpOrder cmpString l (members B g)"
  by (cases "map_of groups g") (auto simp: groups_ok_def members_def)

lemma delete_from_group:
  assumes "groups_ok B groups" "B pk = Some (g, o')"
  shows "\<exists>l l'. map_of groups g = Some l \<and> delete_node cmpOrder cmpString o' pk l = Some (True, l') \<and>
    holds cmpOrder cmpString l' (members (B(pk := None)) g) \<and>
    (sl_length l' = 0 \<longleftrightarrow> members (B(pk := None)) g = {})"
proof -
  obtain l where l: "map_of groups g = Some l" "holds cmpOrder cmpString l (members B g)"
    using group_present [OF assms] by blast
  have "(o', pk) \<in> members B g" using assms(2) by (simp add: members_def)
  then obtain l' where l': "delete_node cmpOrder cmpString o' pk l = Some (True, l')"
    "holds cmpOrder cmpString l' (members B g - {(o', pk)})"
    using order_str.sets.set_del [OF l(2), of "(o', pk)"] by auto
  have "members (B(pk := None)) g = members B g - {(o', pk)}" using members_remove [where B = B and pk = pk, OF assms(2)] by simp
  with l l' order_str.sets.set_size [OF l'(2)] show ?thesis by auto
qed

lemma unplace_spec:
  assumes "entry_ok e"
  shows "\<exists>e1. unplace pk e = Some e1 \<and> groups_ok ((map_of (ce_byPk e))(pk := None)) (ce_groups e1) \<and>
    ce_byPk e1 = ce_byPk e \<and> ce_def e1 = ce_def e"
proof (cases "map_of (ce_byPk e) pk")
  case None
  with assms show ?thesis by (simp add: unplace_def entry_ok_def members_remove_absent)
next
  case (Some place)
  then obtain g o' where p: "map_of (ce_byPk e) pk = Some (g, o')" by (cases place) simp
  let ?B = "map_of (ce_byPk e)"
  have ok: "groups_ok ?B (ce_groups e)" using assms by (simp add: entry_ok_def)
  obtain l l' where l: "map_of (ce_groups e) g = Some l" "delete_node cmpOrder cmpString o' pk l = Some (True, l')"
    "holds cmpOrder cmpString l' (members (?B(pk := None)) g)" "sl_length l' = 0 \<longleftrightarrow> members (?B(pk := None)) g = {}"
    using delete_from_group [where B = ?B and pk = pk, OF ok p] by (elim exE conjE) (rule that)
  have other: "g' \<noteq> g \<Longrightarrow> members (?B(pk := None)) g' = members ?B g'" for g' using members_remove [where B = ?B and pk = pk, OF p] by simp
  show ?thesis
    using groups_ok_update [OF ok l(3) other] groups_ok_delete [OF ok _ other] l p
    by (simp add: unplace_def del: fun_upd_apply)
qed

lemma compound_add_changed:
  assumes "\<not> (map_of (ce_byPk e) pk \<noteq> None \<and> map_of (ce_byPk e) pk = placement w e doc dt)"
  shows "compound_add_entry w draw pk doc dt e =
    do { e1 \<leftarrow> unplace pk e;
         case placement w e doc dt of
           Some (g, o') \<Rightarrow>
             do { l \<leftarrow> insert_node cmpOrder cmpString o' pk draw (groupOf e1 g);
                  Some (e1\<lparr>ce_groups := AList.update g l (ce_groups e1), ce_byPk := AList.update pk (g, o') (ce_byPk e1)\<rparr>) }
         | None \<Rightarrow> Some (e1\<lparr>ce_byPk := AList.delete pk (ce_byPk e1)\<rparr>) }"
  unfolding compound_add_entry_def Let_def using assms by (rule if_not_P)

lemma add_entry_ok:
  assumes "entry_ok e"
  shows "\<exists>e'. compound_add_entry w draw pk doc dt e = Some e' \<and> entry_ok e' \<and> ce_def e' = ce_def e \<and>
    map_of (ce_byPk e') = (map_of (ce_byPk e))(pk := placement w e doc dt)"
proof (cases "map_of (ce_byPk e) pk \<noteq> None \<and> map_of (ce_byPk e) pk = placement w e doc dt")
  case True
  then have "(map_of (ce_byPk e))(pk := placement w e doc dt) = map_of (ce_byPk e)" by (auto simp: fun_upd_idem)
  moreover have "compound_add_entry w draw pk doc dt e = Some e"
    unfolding compound_add_entry_def Let_def using True by (rule if_P)
  ultimately show ?thesis using assms by simp
next
  case False
  let ?B = "(map_of (ce_byPk e))(pk := None)"
  obtain e1 where e1: "unplace pk e = Some e1" "groups_ok ?B (ce_groups e1)" "ce_byPk e1 = ce_byPk e" "ce_def e1 = ce_def e"
    using unplace_spec [OF assms] by blast
  have d: "distinct (map fst (ce_byPk e))" using assms by (simp add: entry_ok_def)
  show ?thesis
  proof (cases "placement w e doc dt")
    case None
    let ?e = "e1\<lparr>ce_byPk := AList.delete pk (ce_byPk e1)\<rparr>"
    have B: "map_of (AList.delete pk (ce_byPk e)) = ?B" by (auto simp: alist_simps)
    have "compound_add_entry w draw pk doc dt e = Some ?e"
      unfolding compound_add_changed [OF False] using None e1(1) by simp
    moreover have "entry_ok ?e" using e1(2,3) d B by (simp add: entry_ok_def alist_simps)
    ultimately show ?thesis using None e1(3,4) B by (simp del: fun_upd_apply)
  next
    case (Some place)
    then obtain g o' where p: "placement w e doc dt = Some (g, o')" by (cases place) simp
    have "holds cmpOrder cmpString (groupOf e1 g) (members ?B g)"
      using e1(2) order_str.sets.set_empty
      by (cases "map_of (ce_groups e1) g") (simp_all add: groups_ok_def groupOf_def)
    then obtain l where l: "insert_node cmpOrder cmpString o' pk draw (groupOf e1 g) = Some l"
      "holds cmpOrder cmpString l (insert (o', pk) (members ?B g))"
      using order_str.sets.set_ins [of "groupOf e1 g" "members ?B g" "(o', pk)" draw] by (auto simp: members_def)
    let ?e = "e1\<lparr>ce_groups := AList.update g l (ce_groups e1), ce_byPk := AList.update pk (g, o') (ce_byPk e1)\<rparr>"
    have B: "map_of (AList.update pk (g, o') (ce_byPk e)) = ?B(pk := Some (g, o'))" by (auto simp: alist_simps)
    have m: "members ((map_of (ce_byPk e))(pk := Some (g, o'))) g' = (if g' = g then insert (o', pk) (members ?B g) else members ?B g')" for g'
      using members_add [where B = ?B and pk = pk and g = g and o' = o' and g' = g'] by simp
    have "groups_ok (?B(pk := Some (g, o'))) (AList.update g l (ce_groups e1))"
      by (rule groups_ok_update [OF e1(2)]) (simp_all add: m l(2))
    then have "entry_ok ?e" using e1(3) d B by (simp add: entry_ok_def alist_simps del: fun_upd_apply)
    moreover have "compound_add_entry w draw pk doc dt e = Some ?e"
      unfolding compound_add_changed [OF False] using p e1(1) l(1) by simp
    ultimately show ?thesis using p e1(3,4) B by (simp del: fun_upd_apply)
  qed
qed

lemma remove_entry_ok:
  assumes "entry_ok e"
  shows "\<exists>e'. compound_remove_entry pk e = Some e' \<and> entry_ok e' \<and> ce_def e' = ce_def e \<and>
    map_of (ce_byPk e') = (map_of (ce_byPk e))(pk := None)"
proof (cases "map_of (ce_byPk e) pk")
  case None
  with assms show ?thesis by (simp add: compound_remove_entry_def members_remove_absent)
next
  case (Some place)
  then obtain g o' where p: "map_of (ce_byPk e) pk = Some (g, o')" by (cases place) simp
  let ?B = "map_of (ce_byPk e)"
  have ok: "groups_ok ?B (ce_groups e)" and d: "distinct (map fst (ce_byPk e))" using assms by (simp_all add: entry_ok_def)
  obtain l l' where l: "map_of (ce_groups e) g = Some l" "delete_node cmpOrder cmpString o' pk l = Some (True, l')"
    "holds cmpOrder cmpString l' (members (?B(pk := None)) g)"
    using delete_from_group [where B = ?B and pk = pk, OF ok p] by (elim exE conjE) (rule that)
  have other: "g' \<noteq> g \<Longrightarrow> members (?B(pk := None)) g' = members ?B g'" for g' using members_remove [where B = ?B and pk = pk, OF p] by simp
  have B: "map_of (AList.delete pk (ce_byPk e)) = ?B(pk := None)" by (auto simp: alist_simps)
  show ?thesis
    using groups_ok_update [OF ok l(3) other] l(1,2) p d B
    by (simp add: compound_remove_entry_def entry_ok_def alist_simps del: fun_upd_apply)
qed

subsection \<open>All indexes\<close>

lemma each_entry_spec:
  assumes "\<And>name e. (name, e) \<in> set m \<Longrightarrow> entry_ok e \<and> map_of (ce_byPk e) = B e"
    and "\<And>name e. (name, e) \<in> set m \<Longrightarrow> entry_ok e \<Longrightarrow> \<exists>e'. f name e = Some e' \<and> entry_ok e' \<and> ce_def e' = ce_def e \<and>
      map_of (ce_byPk e') = (map_of (ce_byPk e))(pk := P e)"
  shows "\<exists>m'. each_entry f m = Some m' \<and>
    list_all2 (\<lambda>(name, e) (name', e'). name' = name \<and> ce_def e' = ce_def e \<and> entry_ok e' \<and> map_of (ce_byPk e') = (B e)(pk := P e)) m m'"
  using assms
proof (induction m)
  case Nil
  then show ?case by simp
next
  case (Cons p m)
  obtain name e where p: "p = (name, e)" by (cases p)
  obtain e' where e': "f name e = Some e'" "entry_ok e'" "ce_def e' = ce_def e" "map_of (ce_byPk e') = (B e)(pk := P e)"
    using Cons.prems(1) [of name e] Cons.prems(2) [of name e] p by (auto simp del: fun_upd_apply)
  have "\<exists>m'. each_entry f m = Some m' \<and>
    list_all2 (\<lambda>(name, e) (name', e'). name' = name \<and> ce_def e' = ce_def e \<and> entry_ok e' \<and> map_of (ce_byPk e') = (B e)(pk := P e)) m m'"
    by (rule Cons.IH) (rule Cons.prems, rule list.set_intros(2), assumption, rule Cons.prems(2), rule list.set_intros(2))
  with e' p show ?case by (auto simp del: fun_upd_apply)
qed

lemma placement_def_only:
  fixes e e' :: compound_entry
  assumes "ce_def e' = ce_def e"
  shows "placement w e' doc dt = placement w e doc dt"
  unfolding placement_def group_of_doc_def validOrder_def extract_order_def assms by (rule refl)

lemma doc_place_def_only:
  assumes "ce_def e' = ce_def e"
  shows "doc_place e' docs = doc_place e docs"
  unfolding doc_place_def [abs_def] placement_def_only [OF assms] by (rule refl)

lemma list_all2_transfer:
  assumes "list_all2 R m m'" "\<And>name e name' e'. R (name, e) (name', e') \<Longrightarrow> Q e'"
  shows "\<forall>(name, e)\<in>set m'. Q e"
  using assms(1)
proof (induction rule: list_all2_induct)
  case (Cons x xs y ys)
  then show ?case using assms(2) [of "fst x" "snd x" "fst y" "snd y"] by auto
qed simp

lemma list_all2_names:
  "list_all2 (\<lambda>(name, e) (name', e'). name' = name \<and> S e e') m m' \<Longrightarrow> map fst m' = map fst m"
  by (induction rule: list_all2_induct) auto

definition defs_of :: "compound_manager \<Rightarrow> (js_string \<times> compound_def) list" where
  "defs_of m = map (\<lambda>(name, e). (name, ce_def e)) m"

lemma list_all2_defs:
  "list_all2 (\<lambda>(name, e) (name', e'). name' = name \<and> ce_def e' = ce_def e \<and> S e e') m m' \<Longrightarrow> defs_of m' = defs_of m"
  by (induction rule: list_all2_induct) (auto simp: defs_of_def)

lemma compound_add_spec:
  assumes "reflects docs m"
  shows "\<exists>m'. compound_add w draws pk doc dt m = Some m' \<and> reflects (docs(pk := Some (w, doc, dt))) m' \<and> defs_of m' = defs_of m"
proof -
  obtain m' where m': "compound_add w draws pk doc dt m = Some m'"
    "list_all2 (\<lambda>(name, e) (name', e'). name' = name \<and> ce_def e' = ce_def e \<and> entry_ok e' \<and>
        map_of (ce_byPk e') = (doc_place e docs)(pk := placement w e doc dt)) m m'"
    using each_entry_spec [of m "\<lambda>e. doc_place e docs" "\<lambda>name. compound_add_entry w (draws name) pk doc dt" pk
        "\<lambda>e. placement w e doc dt"] add_entry_ok assms
    unfolding compound_add_def reflects_def by blast
  have "reflects (docs(pk := Some (w, doc, dt))) m'"
    unfolding reflects_def
  proof (rule list_all2_transfer [OF m'(2)], clarify)
    fix name and e e' :: compound_entry
    assume e: "ce_def e' = ce_def e" "map_of (ce_byPk e') = (doc_place e docs)(pk := placement w e doc dt)"
    have "(doc_place e docs)(pk := placement w e doc dt) = doc_place e (docs(pk := Some (w, doc, dt)))"
      by (auto simp: doc_place_def)
    with e show "map_of (ce_byPk e') = doc_place e' (docs(pk := Some (w, doc, dt)))" by (simp add: doc_place_def_only [OF e(1)])
  qed
  with m'(1) list_all2_defs [OF m'(2)] show ?thesis by blast
qed

lemma compound_remove_spec:
  assumes "reflects docs m"
  shows "\<exists>m'. compound_remove pk m = Some m' \<and> reflects (docs(pk := None)) m' \<and> defs_of m' = defs_of m"
proof -
  obtain m' where m': "compound_remove pk m = Some m'"
    "list_all2 (\<lambda>(name, e) (name', e'). name' = name \<and> ce_def e' = ce_def e \<and> entry_ok e' \<and>
        map_of (ce_byPk e') = (doc_place e docs)(pk := None)) m m'"
    using each_entry_spec [of m "\<lambda>e. doc_place e docs" "\<lambda>name. compound_remove_entry pk" pk "\<lambda>e. None"] remove_entry_ok assms
    unfolding compound_remove_def reflects_def by blast
  have "reflects (docs(pk := None)) m'"
    unfolding reflects_def
  proof (rule list_all2_transfer [OF m'(2)], clarify)
    fix name and e e' :: compound_entry
    assume e: "ce_def e' = ce_def e" "map_of (ce_byPk e') = (doc_place e docs)(pk := None)"
    have "(doc_place e docs)(pk := None) = doc_place e (docs(pk := None))" by (auto simp: doc_place_def)
    with e show "map_of (ce_byPk e') = doc_place e' (docs(pk := None))" by (simp add: doc_place_def_only [OF e(1)])
  qed
  with m'(1) list_all2_defs [OF m'(2)] show ?thesis by blast
qed

text \<open>A range over a group, with \<open>limit\<close> taking precedence over \<open>count\<close>.\<close>

definition with_limit :: "'k range_options \<Rightarrow> int option \<Rightarrow> 'k range_options" where
  "with_limit ro limit = ro\<lparr>ro_count := (case limit of Some n \<Rightarrow> Some n | None \<Rightarrow> ro_count ro)\<rparr>"

lemma compound_range_spec:
  assumes "reflects docs m" "map_of m name = Some e" "single_bounds ro"
  shows "\<exists>es. sorted_entries cmpOrder cmpString {(o', pk). doc_place e docs pk = Some (g, o')} es \<and>
    compound_range name g ro limit m = Inr (Some (map (\<lambda>(o', pk). (pk, o')) (range_spec cmpOrder (with_limit ro limit) es)))"
proof -
  have "(name, e) \<in> set m" using assms(2) by (rule map_of_SomeD)
  then have ok: "groups_ok (map_of (ce_byPk e)) (ce_groups e)" and B: "map_of (ce_byPk e) = doc_place e docs"
    using assms(1) by (auto simp: reflects_def entry_ok_def)
  have mem: "members (map_of (ce_byPk e)) g = {(o', pk). doc_place e docs pk = Some (g, o')}" by (simp add: members_def B)
  have sb: "single_bounds (with_limit ro limit)" using assms(3) by (simp add: single_bounds_def with_limit_def)
  show ?thesis
  proof (cases "map_of (ce_groups e) g")
    case None
    then have "members (map_of (ce_byPk e)) g = {}" using ok by (simp add: groups_ok_def)
    then show ?thesis unfolding mem [symmetric] using None assms(2)
      by (intro exI [of _ "[]"]) (simp add: sorted_entries_def compound_range_def range_spec_def)
  next
    case (Some l)
    then have "holds cmpOrder cmpString l (members (map_of (ce_byPk e)) g)" using ok by (simp add: groups_ok_def)
    from order_str.holds_range [OF this sb] show ?thesis
      unfolding mem [symmetric] using Some assms(2) by (auto simp: compound_range_def with_limit_def)
  qed
qed

lemma reflects_empty: "(\<And>name e. (name, e) \<in> set m \<Longrightarrow> ce_groups e = [] \<and> ce_byPk e = []) \<Longrightarrow> reflects Map.empty m"
  by (fastforce simp: reflects_def entry_ok_def groups_ok_def members_def doc_place_def)

lemma compound_rebuild_loop_spec:
  "reflects docs m \<Longrightarrow> \<exists>m' docs'. compound_rebuild_loop draws es m = Some m' \<and> reflects docs' m' \<and> defs_of m' = defs_of m"
proof (induction draws es m arbitrary: docs rule: compound_rebuild_loop.induct)
  case (1 draws m)
  then show ?case by auto
next
  case (2 draws pk doc dt es m)
  obtain m1 where m1: "compound_add (length es) (draws (length es)) pk doc dt m = Some m1"
    "reflects (docs(pk := Some (length es, doc, dt))) m1" "defs_of m1 = defs_of m"
    using compound_add_spec [OF "2.prems"] by blast
  with "2.IH" [OF m1(1,2)] show ?case by (simp del: fun_upd_apply)
qed

subsection \<open>Properties\<close>

text \<open>Adding a document updates every compound index to the document's new place and only that: a
  range over a group then returns exactly the documents whose fields put them in the group, in the
  order of the order key and then of the key, with no entry left at the document's old place and no
  second entry for an unchanged one.\<close>

theorem compound_add_range:
  assumes "reflects docs m" "single_bounds ro" "map_of m name = Some e"
  shows "\<exists>m' es. compound_add w draws pk doc dt m = Some m' \<and> reflects (docs(pk := Some (w, doc, dt))) m' \<and>
    sorted_entries cmpOrder cmpString {(o', k). doc_place e (docs(pk := Some (w, doc, dt))) k = Some (g, o')} es \<and>
    compound_range name g ro limit m' = Inr (Some (map (\<lambda>(o', k). (k, o')) (range_spec cmpOrder (with_limit ro limit) es)))"
proof -
  obtain m' where m': "compound_add w draws pk doc dt m = Some m'" "reflects (docs(pk := Some (w, doc, dt))) m'"
    "defs_of m' = defs_of m" using compound_add_spec [OF assms(1)] by blast
  have "map_of (defs_of n) name = map_option ce_def (map_of n name)" for n
    by (induction n) (auto simp: defs_of_def)
  then obtain e' where e': "map_of m' name = Some e'" "ce_def e' = ce_def e" using m'(3) assms(3) by (metis map_option_eq_Some option.map(2))
  show ?thesis
    using compound_range_spec [OF m'(2) e'(1) assms(2), of g limit] m'(1,2) doc_place_def_only [OF e'(2)] by auto
qed

definition sample_index :: compound_entry where
  "sample_index = \<lparr>ce_def = \<lparr>cd_groupBy = js ''w'', cd_orderBy = js ''t'', cd_orderType = Number_order\<rparr>, ce_groups = [], ce_byPk = []\<rparr>"

definition sample_doc :: json where
  "sample_doc = JObj [(js ''w'', JStr (js ''x'')), (js ''t'', JNum 5)]"

lemma sample_place: "placement 0 sample_index sample_doc None = Some (GStr (js ''x''), ONum 5)"
  by (simp add: placement_def group_of_doc_def validOrder_def extract_order_def sample_index_def sample_doc_def
      dotted_path_def step_path_def get_prop_def js_def)

theorem compound_add_range_witness:
  "\<exists>m'. compound_add 0 (\<lambda>name n. False) [65] sample_doc None [([99], sample_index)] = Some m' \<and>
     compound_range [99] (GStr (js ''x''))
       \<lparr>ro_gte = None, ro_gt = None, ro_lte = None, ro_lt = None, ro_offset = 0, ro_count = None, ro_reverse = False\<rparr> None m' =
     Inr (Some [([65], ONum 5)])"
proof -
  let ?ro = "\<lparr>ro_gte = None, ro_gt = None, ro_lte = None, ro_lt = None, ro_offset = 0, ro_count = None, ro_reverse = False\<rparr> :: order_key range_options"
  have r: "reflects Map.empty [([99], sample_index)]" by (rule reflects_empty) (simp add: sample_index_def)
  obtain m' es where m': "compound_add 0 (\<lambda>name n. False) [65] sample_doc None [([99], sample_index)] = Some m'"
    "sorted_entries cmpOrder cmpString {(o', k). doc_place sample_index (Map.empty([65] := Some (0, sample_doc, None))) k = Some (GStr (js ''x''), o')} es"
    "compound_range [99] (GStr (js ''x'')) ?ro None m' = Inr (Some (map (\<lambda>(o', k). (k, o')) (range_spec cmpOrder (with_limit ?ro None) es)))"
    using compound_add_range [OF r, of ?ro "[99]" sample_index 0 "\<lambda>name n. False" "[65]" sample_doc None "GStr (js ''x'')" None]
    by (auto simp: single_bounds_def)
  have "{(o', k). doc_place sample_index (Map.empty([65] := Some (0, sample_doc, None))) k = Some (GStr (js ''x''), o')} = set [(ONum 5, [65])]"
    by (auto simp: doc_place_def sample_place split: if_splits)
  then have "es = [(ONum 5, [65])]"
    using m'(2) order_str.sorted_entries_unique [of _ es "[(ONum 5, [65])]"] by (simp add: sorted_entries_def)
  with m'(1,3) show ?thesis by (simp add: range_spec_def with_limit_def below_lower_def above_upper_def)
qed

end
