(* ===== verification/IndexManager.thy ===== *)
theory IndexManager
  imports OrderedSets Json
begin

section \<open>Secondary indexes (\<^verbatim>\<open>index-manager.ts\<close>)\<close>

text \<open>
  An equality index maps the canonical text of a field value to the keys whose documents have it; a
  range index orders the numeric values of a field. A field that holds an array is indexed under
  every element. \<^verbatim>\<open>Map\<close>s are association lists in insertion order, \<^verbatim>\<open>Set\<close>s distinct lists.
\<close>

record idx_info =
  ix_name :: js_string
  ix_field :: js_string
  ix_unique :: bool
  ix_sparse :: bool

record eq_index = idx_info +
  eq_map :: "(js_string \<times> js_string list) list"
  eq_byPk :: "(js_string \<times> js_string list) list"

record range_index = idx_info +
  rg_list :: "(int, js_string) skip_list"
  rg_byPk :: "(js_string \<times> int list) list"

datatype any_index = EqIndex eq_index | RangeIndex range_index

type_synonym index_manager = "(js_string \<times> any_index) list"

datatype index_type = Equality | Range

datatype index_error =
    MissingField
  | IndexExists js_string
  | IndexUnknown js_string
  | UniqueViolation js_string "json option"
  | UniqueShared js_string nat js_string
  | WrongIndexType js_string index_type

subsection \<open>Canonical text of a value\<close>

text \<open>\<^verbatim>\<open>stableStringify\<close>: like \<^verbatim>\<open>JSON.stringify\<close>, with the members of an object sorted by name.\<close>

fun stableStringify :: "json \<Rightarrow> js_string"
  and stable_items :: "json list \<Rightarrow> js_string list"
  and stable_members :: "(js_string \<times> json) list \<Rightarrow> (js_string \<times> js_string) list" where
  "stableStringify JNull = js ''null''"
| "stableStringify (JBool b) = bool_text b"
| "stableStringify (JNum n) = int_text n"
| "stableStringify (JStr s) = quote s"
| "stableStringify (JArr xs) = 91 # join_with [44] (stable_items xs) @ [93]"
| "stableStringify (JObj ms) = 123 # join_with [44] (map snd (sort_key fst (stable_members ms))) @ [125]"
| "stable_items [] = []"
| "stable_items (x # xs) = stableStringify x # stable_items xs"
| "stable_members [] = []"
| "stable_members ((k, v) # ms) = (k, quote k @ [58] @ stableStringify v) # stable_members ms"

definition scalarKey :: "json option \<Rightarrow> js_string" where
  "scalarKey v =
     (case v of
        Some (JStr s) \<Rightarrow> js ''string:'' @ s
      | Some (JNum n) \<Rightarrow> js ''number:'' @ int_text n
      | Some (JBool b) \<Rightarrow> js ''boolean:'' @ bool_text b
      | None \<Rightarrow> js ''json:'' @ js ''undefined''
      | Some d \<Rightarrow> js ''json:'' @ stableStringify d)"

definition flatten :: "json option \<Rightarrow> json option list" where
  "flatten value = (case value of Some (JArr xs) \<Rightarrow> map Some xs | _ \<Rightarrow> [value])"

definition getField :: "json \<Rightarrow> js_string \<Rightarrow> json option" where
  "getField doc path = dotted_path doc path"

text \<open>The numbers among the values, and the distinct values of a list in order of first occurrence
  (a \<^verbatim>\<open>Set\<close> spread into an array).\<close>

definition numbers_of :: "json option list \<Rightarrow> int list" where
  "numbers_of vs = List.map_filter (\<lambda>v. case v of Some (JNum n) \<Rightarrow> Some n | _ \<Rightarrow> None) vs"

fun dedup :: "'a list \<Rightarrow> 'a list" where
  "dedup [] = []"
| "dedup (x # xs) = x # removeAll x (dedup xs)"

lemma set_dedup [simp]: "set (dedup xs) = set xs"
  by (induction xs) auto

lemma distinct_dedup [simp]: "distinct (dedup xs)"
  by (induction xs) (auto simp: distinct_removeAll)

subsection \<open>The registry\<close>

definition index_create :: "js_string \<Rightarrow> js_string \<Rightarrow> index_type \<Rightarrow> bool \<Rightarrow> bool \<Rightarrow> index_manager \<Rightarrow> (index_error, index_manager) res" where
  "index_create name field type unique sparse m =
     (if field = [] then Inl MissingField
      else if map_of m name \<noteq> None then Inl (IndexExists name)
      else Inr (AList.update name
        (case type of
           Range \<Rightarrow> RangeIndex \<lparr>ix_name = name, ix_field = field, ix_unique = unique, ix_sparse = sparse, rg_list = empty_list, rg_byPk = []\<rparr>
         | Equality \<Rightarrow> EqIndex \<lparr>ix_name = name, ix_field = field, ix_unique = unique, ix_sparse = sparse, eq_map = [], eq_byPk = []\<rparr>) m))"

definition index_drop :: "js_string \<Rightarrow> index_manager \<Rightarrow> bool \<times> index_manager" where
  "index_drop name m = (map_of m name \<noteq> None, AList.delete name m)"

definition index_get :: "js_string \<Rightarrow> index_manager \<Rightarrow> (index_error, any_index) res" where
  "index_get name m = (case map_of m name of None \<Rightarrow> Inl (IndexUnknown name) | Some i \<Rightarrow> Inr i)"

definition info_of :: "any_index \<Rightarrow> idx_info" where
  "info_of i = (case i of EqIndex e \<Rightarrow> idx_info.truncate e | RangeIndex r \<Rightarrow> idx_info.truncate r)"

definition type_of_index :: "any_index \<Rightarrow> index_type" where
  "type_of_index i = (case i of EqIndex e \<Rightarrow> Equality | RangeIndex r \<Rightarrow> Range)"

definition index_list :: "index_manager \<Rightarrow> (idx_info \<times> index_type) list" where
  "index_list m = map (\<lambda>(name, i). (info_of i, type_of_index i)) m"

subsection \<open>Adding and removing documents\<close>

definition set_add :: "'a \<Rightarrow> 'a list \<Rightarrow> 'a list" where
  "set_add x s = (if x \<in> set s then s else s @ [x])"

fun post_all :: "js_string \<Rightarrow> js_string list \<Rightarrow> (js_string \<times> js_string list) list \<Rightarrow> (js_string \<times> js_string list) list" where
  "post_all pk [] mp = mp"
| "post_all pk (sk # sks) mp =
     (let s = (case map_of mp sk of None \<Rightarrow> [] | Some s \<Rightarrow> s)
      in post_all pk sks (AList.update sk (set_add pk s) mp))"

definition eq_add :: "js_string \<Rightarrow> json \<Rightarrow> eq_index \<Rightarrow> eq_index" where
  "eq_add pk doc e =
     (let value = getField doc (ix_field e)
      in if value = None \<and> ix_sparse e then e
         else let keys = map scalarKey (flatten value)
              in e\<lparr>eq_map := post_all pk keys (eq_map e), eq_byPk := AList.update pk keys (eq_byPk e)\<rparr>)"

fun insert_all :: "(nat \<Rightarrow> nat \<Rightarrow> bool) \<Rightarrow> js_string \<Rightarrow> int list \<Rightarrow> (int, js_string) skip_list \<Rightarrow> (int, js_string) skip_list option" where
  "insert_all draws pk [] l = Some l"
| "insert_all draws pk (v # vs) l =
     Option.bind (insert_node cmpNumber cmpString v pk (draws (length vs)) l) (insert_all draws pk vs)"

definition range_add :: "(nat \<Rightarrow> nat \<Rightarrow> bool) \<Rightarrow> js_string \<Rightarrow> json \<Rightarrow> range_index \<Rightarrow> range_index option" where
  "range_add draws pk doc r =
     (let value = getField doc (ix_field r)
      in if value = None \<and> ix_sparse r then Some r
         else let vals = dedup (numbers_of (flatten value))
              in if vals = [] then Some r
                 else map_option (\<lambda>l. r\<lparr>rg_list := l, rg_byPk := AList.update pk vals (rg_byPk r)\<rparr>)
                        (insert_all draws pk vals (rg_list r)))"

fun index_add :: "(js_string \<Rightarrow> nat \<Rightarrow> nat \<Rightarrow> bool) \<Rightarrow> js_string \<Rightarrow> json \<Rightarrow> index_manager \<Rightarrow> index_manager option" where
  "index_add draws pk doc [] = Some []"
| "index_add draws pk doc ((name, i) # m) =
     do { i' \<leftarrow> (case i of EqIndex e \<Rightarrow> Some (EqIndex (eq_add pk doc e))
                       | RangeIndex r \<Rightarrow> map_option RangeIndex (range_add (draws name) pk doc r));
          m' \<leftarrow> index_add draws pk doc m;
          Some ((name, i') # m') }"

fun unpost_all :: "js_string \<Rightarrow> js_string list \<Rightarrow> (js_string \<times> js_string list) list \<Rightarrow> (js_string \<times> js_string list) list" where
  "unpost_all pk [] mp = mp"
| "unpost_all pk (sk # sks) mp =
     unpost_all pk sks
       (case map_of mp sk of
          None \<Rightarrow> mp
        | Some s \<Rightarrow> (let s' = removeAll pk s in if s' = [] then AList.delete sk mp else AList.update sk s' mp))"

definition eq_remove :: "js_string \<Rightarrow> eq_index \<Rightarrow> eq_index" where
  "eq_remove pk e =
     (case map_of (eq_byPk e) pk of
        None \<Rightarrow> e
      | Some keys \<Rightarrow> e\<lparr>eq_map := unpost_all pk keys (eq_map e), eq_byPk := AList.delete pk (eq_byPk e)\<rparr>)"

fun delete_all :: "js_string \<Rightarrow> int list \<Rightarrow> (int, js_string) skip_list \<Rightarrow> (int, js_string) skip_list option" where
  "delete_all pk [] l = Some l"
| "delete_all pk (v # vs) l = Option.bind (delete_node cmpNumber cmpString v pk l) (\<lambda>r. delete_all pk vs (snd r))"

definition range_remove :: "js_string \<Rightarrow> range_index \<Rightarrow> range_index option" where
  "range_remove pk r =
     (case map_of (rg_byPk r) pk of
        None \<Rightarrow> Some r
      | Some old \<Rightarrow> map_option (\<lambda>l. r\<lparr>rg_list := l, rg_byPk := AList.delete pk (rg_byPk r)\<rparr>) (delete_all pk old (rg_list r)))"

fun index_remove :: "js_string \<Rightarrow> index_manager \<Rightarrow> index_manager option" where
  "index_remove pk [] = Some []"
| "index_remove pk ((name, i) # m) =
     do { i' \<leftarrow> (case i of EqIndex e \<Rightarrow> Some (EqIndex (eq_remove pk e))
                       | RangeIndex r \<Rightarrow> map_option RangeIndex (range_remove pk r));
          m' \<leftarrow> index_remove pk m;
          Some ((name, i') # m') }"

definition clear_index :: "any_index \<Rightarrow> any_index" where
  "clear_index i =
     (case i of EqIndex e \<Rightarrow> EqIndex (e\<lparr>eq_map := [], eq_byPk := []\<rparr>)
              | RangeIndex r \<Rightarrow> RangeIndex (r\<lparr>rg_list := empty_list, rg_byPk := []\<rparr>))"

definition is_object :: "json \<Rightarrow> bool" where
  "is_object v = (case v of JObj ms \<Rightarrow> True | JArr xs \<Rightarrow> True | _ \<Rightarrow> False)"

fun rebuild_loop :: "(nat \<Rightarrow> js_string \<Rightarrow> nat \<Rightarrow> nat \<Rightarrow> bool) \<Rightarrow> (js_string \<times> json) list \<Rightarrow> index_manager \<Rightarrow> index_manager option" where
  "rebuild_loop draws [] m = Some m"
| "rebuild_loop draws ((pk, doc) # es) m =
     (if is_object doc then Option.bind (index_add (draws (length es)) pk doc m) (rebuild_loop draws es)
      else rebuild_loop draws es m)"

definition index_rebuild :: "(nat \<Rightarrow> js_string \<Rightarrow> nat \<Rightarrow> nat \<Rightarrow> bool) \<Rightarrow> (js_string \<times> json) list \<Rightarrow> index_manager \<Rightarrow> index_manager option" where
  "index_rebuild draws es m = rebuild_loop draws es (map (\<lambda>(name, i). (name, clear_index i)) m)"

subsection \<open>Uniqueness\<close>

definition exact_range :: "int \<Rightarrow> int range_options" where
  "exact_range v = \<lparr>ro_gte = Some v, ro_gt = None, ro_lte = Some v, ro_lt = None, ro_offset = 0, ro_count = Some 1, ro_reverse = False\<rparr>"

fun check_values :: "js_string \<Rightarrow> any_index \<Rightarrow> json option list \<Rightarrow> (index_error, unit) res option" where
  "check_values pk i [] = Some (Inr ())"
| "check_values pk i (v # vs) =
     (case i of
        RangeIndex r \<Rightarrow>
          (case v of
             Some (JNum n) \<Rightarrow>
               do { hit \<leftarrow> range_entries cmpNumber (rg_list r) (exact_range n);
                    if hit \<noteq> [] \<and> snd (hd hit) \<noteq> pk then Some (Inl (UniqueViolation (ix_name r) v))
                    else check_values pk i vs }
           | _ \<Rightarrow> check_values pk i vs)
      | EqIndex e \<Rightarrow>
          (case map_of (eq_map e) (scalarKey v) of
             Some s \<Rightarrow> if length s > 1 \<or> (length s = 1 \<and> pk \<notin> set s) then Some (Inl (UniqueViolation (ix_name e) v))
                       else check_values pk i vs
           | None \<Rightarrow> check_values pk i vs))"

fun checkUnique :: "js_string \<Rightarrow> json \<Rightarrow> index_manager \<Rightarrow> (index_error, unit) res option" where
  "checkUnique pk doc [] = Some (Inr ())"
| "checkUnique pk doc ((name, i) # m) =
     (let value = getField doc (ix_field (info_of i))
      in if \<not> ix_unique (info_of i) then checkUnique pk doc m
         else if value = None \<and> ix_sparse (info_of i) then checkUnique pk doc m
         else do { r \<leftarrow> check_values pk i (flatten value);
                   case r of Inl e \<Rightarrow> Some (Inl e) | Inr _ \<Rightarrow> checkUnique pk doc m })"

text \<open>A batch: the last operation of each key, and the owners of each value after the batch.\<close>

type_synonym batch_change = "js_string \<times> json option"

definition lastOps :: "batch_change list \<Rightarrow> batch_change list" where
  "lastOps ops = fold (\<lambda>(pk, d) m. AList.update pk d m) ops []"

fun claim :: "js_string \<Rightarrow> js_string \<Rightarrow> ('k \<times> json option) list \<Rightarrow> ('k \<times> js_string) list \<Rightarrow> (index_error, ('k \<times> js_string) list) res" where
  "claim name pk [] owner = Inr owner"
| "claim name pk ((sk, v) # vs) owner =
     (if (case map_of owner sk of Some prev \<Rightarrow> prev \<noteq> pk | None \<Rightarrow> False) then Inl (UniqueViolation name v)
      else claim name pk vs (AList.update sk pk owner))"

fun claim_ops :: "js_string \<Rightarrow> (json \<Rightarrow> ('k \<times> json option) list) \<Rightarrow> batch_change list \<Rightarrow> ('k \<times> js_string) list \<Rightarrow> (index_error, ('k \<times> js_string) list) res" where
  "claim_ops name vals [] owner = Inr owner"
| "claim_ops name vals ((pk, d) # ops) owner =
     (case d of
        None \<Rightarrow> claim_ops name vals ops owner
      | Some doc \<Rightarrow> bind_res (claim name pk (vals doc) owner) (claim_ops name vals ops))"

definition range_values :: "range_index \<Rightarrow> json \<Rightarrow> (int \<times> json option) list" where
  "range_values r doc = map (\<lambda>n. (n, Some (JNum n))) (numbers_of (flatten (getField doc (ix_field r))))"

definition eq_values :: "eq_index \<Rightarrow> json \<Rightarrow> (js_string \<times> json option) list" where
  "eq_values e doc =
     (let value = getField doc (ix_field e)
      in if value = None \<and> ix_sparse e then [] else map (\<lambda>v. (scalarKey v, v)) (flatten value))"

definition range_owners :: "js_string set \<Rightarrow> range_index \<Rightarrow> (int \<times> js_string) list" where
  "range_owners touched r =
     fold (\<lambda>(pk, vals) owner. if pk \<in> touched then owner else fold (\<lambda>v. AList.update v pk) vals owner) (rg_byPk r) []"

definition eq_owners :: "js_string set \<Rightarrow> eq_index \<Rightarrow> (js_string \<times> js_string) list" where
  "eq_owners touched e =
     fold (\<lambda>(sk, s) owner. fold (\<lambda>pk owner. if pk \<in> touched then owner else AList.update sk pk owner) s owner) (eq_map e) []"

fun check_batch :: "batch_change list \<Rightarrow> index_manager \<Rightarrow> (index_error, unit) res" where
  "check_batch ops [] = Inr ()"
| "check_batch ops ((name, i) # m) =
     (if \<not> ix_unique (info_of i) then check_batch ops m
      else
        (case (case i of
                 RangeIndex r \<Rightarrow> map_res (\<lambda>_. ()) (claim_ops (ix_name r) (range_values r) ops (range_owners (fst ` set ops) r))
               | EqIndex e \<Rightarrow> map_res (\<lambda>_. ()) (claim_ops (ix_name e) (eq_values e) ops (eq_owners (fst ` set ops) e))) of
           Inl e \<Rightarrow> Inl e
         | Inr _ \<Rightarrow> check_batch ops m))"

definition checkUniqueBatch :: "batch_change list \<Rightarrow> index_manager \<Rightarrow> (index_error, unit) res" where
  "checkUniqueBatch ops m = check_batch (lastOps ops) m"

fun claim_rows :: "js_string \<Rightarrow> (js_string \<times> int list) list \<Rightarrow> (int \<times> js_string) list \<Rightarrow> (index_error, unit) res" where
  "claim_rows name [] owner = Inr ()"
| "claim_rows name ((pk, vals) # rows) owner =
     bind_res (claim name pk (map (\<lambda>n. (n, Some (JNum n))) vals) owner) (claim_rows name rows)"

fun shared_key :: "js_string \<Rightarrow> (js_string \<times> js_string list) list \<Rightarrow> (index_error, unit) res" where
  "shared_key name [] = Inr ()"
| "shared_key name ((sk, s) # mp) =
     (if length s > 1 then Inl (UniqueShared name (length s) (hd s)) else shared_key name mp)"

definition assertUniqueValid :: "js_string \<Rightarrow> index_manager \<Rightarrow> (index_error, unit) res" where
  "assertUniqueValid name m =
     bind_res (index_get name m) (\<lambda>i.
       if \<not> ix_unique (info_of i) then Inr ()
       else (case i of RangeIndex r \<Rightarrow> claim_rows (ix_name r) (rg_byPk r) [] | EqIndex e \<Rightarrow> shared_key (ix_name e) (eq_map e)))"

subsection \<open>Lookups\<close>

definition findEq :: "js_string \<Rightarrow> json option \<Rightarrow> index_manager \<Rightarrow> (index_error, js_string list) res" where
  "findEq name value m =
     bind_res (index_get name m) (\<lambda>i. case i of
       RangeIndex r \<Rightarrow> Inl (WrongIndexType name Equality)
     | EqIndex e \<Rightarrow> Inr (case map_of (eq_map e) (scalarKey value) of Some s \<Rightarrow> s | None \<Rightarrow> []))"

definition hasEq :: "js_string \<Rightarrow> json option \<Rightarrow> js_string \<Rightarrow> index_manager \<Rightarrow> (index_error, bool) res" where
  "hasEq name value pk m =
     bind_res (index_get name m) (\<lambda>i. case i of
       RangeIndex r \<Rightarrow> Inl (WrongIndexType name Equality)
     | EqIndex e \<Rightarrow> Inr (case map_of (eq_map e) (scalarKey value) of Some s \<Rightarrow> pk \<in> set s | None \<Rightarrow> False))"

record find_options =
  fo_min :: "int option"
  fo_max :: "int option"
  fo_minExclusive :: bool
  fo_maxExclusive :: bool
  fo_offset :: "int option"
  fo_count :: "int option"
  fo_reverse :: bool

definition find_range_options :: "find_options \<Rightarrow> int range_options" where
  "find_range_options o' =
     \<lparr>ro_gte = (if fo_minExclusive o' then None else fo_min o'), ro_gt = (if fo_minExclusive o' then fo_min o' else None),
      ro_lte = (if fo_maxExclusive o' then None else fo_max o'), ro_lt = (if fo_maxExclusive o' then fo_max o' else None),
      ro_offset = (case fo_offset o' of None \<Rightarrow> 0 | Some n \<Rightarrow> n), ro_count = fo_count o', ro_reverse = fo_reverse o'\<rparr>"

definition findRange :: "js_string \<Rightarrow> find_options \<Rightarrow> index_manager \<Rightarrow> (index_error, (js_string \<times> int) list option) res" where
  "findRange name o' m =
     bind_res (index_get name m) (\<lambda>i. case i of
       EqIndex e \<Rightarrow> Inl (WrongIndexType name Range)
     | RangeIndex r \<Rightarrow> Inr (map_option (map (\<lambda>(v, pk). (pk, v))) (range_entries cmpNumber (rg_list r) (find_range_options o'))))"

end
