(* ===== verification/IndexProofs.thy ===== *)
theory IndexProofs
  imports IndexManager
begin

section \<open>Secondary indexes: contents\<close>

text \<open>
  The indexes are derived state of a table of documents: \<open>indexed docs m\<close> says that every index
  holds exactly the entries the documents' fields give, in the list or map and in the reverse map.
\<close>

definition eq_keys :: "eq_index \<Rightarrow> json \<Rightarrow> js_string list option" where
  "eq_keys e doc =
     (let value = getField doc (ix_field e)
      in if value = None \<and> ix_sparse e then None else Some (map scalarKey (flatten value)))"

definition range_keys :: "range_index \<Rightarrow> json \<Rightarrow> int list" where
  "range_keys r doc = dedup (numbers_of (flatten (getField doc (ix_field r))))"

definition posted :: "(js_string \<rightharpoonup> js_string list) \<Rightarrow> js_string \<Rightarrow> js_string set" where
  "posted K sk = {pk. \<exists>ks. K pk = Some ks \<and> sk \<in> set ks}"

definition postings_ok :: "(js_string \<Rightarrow> js_string set) \<Rightarrow> (js_string \<times> js_string list) list \<Rightarrow> bool" where
  "postings_ok P mp \<longleftrightarrow> distinct (map fst mp) \<and>
     (\<forall>sk s. map_of mp sk = Some s \<longrightarrow> s \<noteq> [] \<and> distinct s \<and> set s = P sk) \<and>
     (\<forall>sk. map_of mp sk = None \<longrightarrow> P sk = {})"

definition eq_ok :: "(js_string \<rightharpoonup> json) \<Rightarrow> eq_index \<Rightarrow> bool" where
  "eq_ok docs e \<longleftrightarrow> distinct (map fst (eq_byPk e)) \<and>
     map_of (eq_byPk e) = (\<lambda>pk. Option.bind (docs pk) (eq_keys e)) \<and>
     postings_ok (posted (map_of (eq_byPk e))) (eq_map e)"

definition valued :: "(js_string \<rightharpoonup> int list) \<Rightarrow> (int \<times> js_string) set" where
  "valued V = {(v, pk). \<exists>vs. V pk = Some vs \<and> v \<in> set vs}"

definition range_row :: "range_index \<Rightarrow> json \<Rightarrow> int list option" where
  "range_row r doc = (if range_keys r doc = [] then None else Some (range_keys r doc))"

definition range_ok :: "(js_string \<rightharpoonup> json) \<Rightarrow> range_index \<Rightarrow> bool" where
  "range_ok docs r \<longleftrightarrow> distinct (map fst (rg_byPk r)) \<and>
     map_of (rg_byPk r) = (\<lambda>pk. Option.bind (docs pk) (range_row r)) \<and>
     holds cmpNumber cmpString (rg_list r) (valued (map_of (rg_byPk r)))"

definition index_ok :: "(js_string \<rightharpoonup> json) \<Rightarrow> any_index \<Rightarrow> bool" where
  "index_ok docs i = (case i of EqIndex e \<Rightarrow> eq_ok docs e | RangeIndex r \<Rightarrow> range_ok docs r)"

definition indexed :: "(js_string \<rightharpoonup> json) \<Rightarrow> index_manager \<Rightarrow> bool" where
  "indexed docs m \<longleftrightarrow> (\<forall>(name, i)\<in>set m. index_ok docs i)"

subsection \<open>Postings\<close>

lemma postings_get: "postings_ok P mp \<Longrightarrow> (case map_of mp sk of None \<Rightarrow> {} | Some s \<Rightarrow> set s) = P sk"
  by (cases "map_of mp sk") (auto simp: postings_ok_def)

lemma set_add_simps [simp]: "set_add x s \<noteq> []" "distinct s \<Longrightarrow> distinct (set_add x s)" "set (set_add x s) = insert x (set s)"
  by (auto simp: set_add_def)

lemma post_one:
  assumes "postings_ok P mp"
  shows "postings_ok (P(sk := insert pk (P sk)))
    (AList.update sk (set_add pk (case map_of mp sk of None \<Rightarrow> [] | Some s \<Rightarrow> s)) mp)"
proof -
  let ?s = "case map_of mp sk of None \<Rightarrow> [] | Some s \<Rightarrow> s"
  have "set ?s = P sk" "distinct ?s" using assms by (cases "map_of mp sk"; simp add: postings_ok_def)+
  then have "set_add pk ?s \<noteq> []" "distinct (set_add pk ?s)" "set (set_add pk ?s) = insert pk (P sk)"
    by simp_all
  with assms show ?thesis by (simp add: postings_ok_def alist_simps)
qed

lemma post_all_ok:
  "postings_ok P mp \<Longrightarrow> postings_ok (\<lambda>sk. if sk \<in> set sks then insert pk (P sk) else P sk) (post_all pk sks mp)"
proof (induction sks arbitrary: P mp)
  case Nil
  then show ?case by simp
next
  case (Cons sk sks)
  let ?P = "P(sk := insert pk (P sk))"
  have "(\<lambda>x. if x \<in> set sks then insert pk (?P x) else ?P x) = (\<lambda>x. if x \<in> set (sk # sks) then insert pk (P x) else P x)"
    by (auto simp: fun_eq_iff)
  with Cons.IH [OF post_one [OF Cons.prems, of sk pk]] show ?case by (simp del: fun_upd_apply set_simps list.set)
qed

lemma unpost_one:
  assumes "postings_ok P mp"
  shows "postings_ok (P(sk := P sk - {pk}))
    (case map_of mp sk of
       None \<Rightarrow> mp
     | Some s \<Rightarrow> (let s' = removeAll pk s in if s' = [] then AList.delete sk mp else AList.update sk s' mp))"
proof (cases "map_of mp sk")
  case None
  then have "P(sk := P sk - {pk}) = P" using assms by (simp add: postings_ok_def fun_upd_idem)
  with None assms show ?thesis by simp
next
  case (Some s)
  then have s: "distinct (removeAll pk s)" "set (removeAll pk s) = P sk - {pk}" "removeAll pk s = [] \<longleftrightarrow> P sk - {pk} = {}"
    using assms by (auto simp: postings_ok_def distinct_removeAll simp flip: set_empty2)
  show ?thesis
  proof (cases "removeAll pk s = []")
    case True
    then show ?thesis using Some s assms by (simp add: postings_ok_def alist_simps)
  next
    case False
    then show ?thesis using Some s assms by (simp add: postings_ok_def alist_simps)
  qed
qed

lemma unpost_all_ok:
  "postings_ok P mp \<Longrightarrow> postings_ok (\<lambda>sk. if sk \<in> set sks then P sk - {pk} else P sk) (unpost_all pk sks mp)"
proof (induction sks arbitrary: P mp)
  case Nil
  then show ?case by simp
next
  case (Cons sk sks)
  let ?P = "P(sk := P sk - {pk})"
  have "(\<lambda>x. if x \<in> set sks then ?P x - {pk} else ?P x) = (\<lambda>x. if x \<in> set (sk # sks) then P x - {pk} else P x)"
    by (auto simp: fun_eq_iff)
  with Cons.IH [OF unpost_one [OF Cons.prems, of sk pk]] show ?case by (simp del: fun_upd_apply set_simps list.set)
qed

lemma posted_add:
  "K pk = None \<Longrightarrow> posted (K(pk := Some ks)) = (\<lambda>sk. if sk \<in> set ks then insert pk (posted K sk) else posted K sk)"
  by (auto simp: posted_def fun_eq_iff)

lemma posted_remove:
  "K pk = Some ks \<Longrightarrow> posted (K(pk := None)) = (\<lambda>sk. if sk \<in> set ks then posted K sk - {pk} else posted K sk)"
  by (auto simp: posted_def fun_eq_iff)

lemma eq_add_ok:
  assumes "eq_ok docs e" "docs pk = None"
  shows "eq_ok (docs(pk := Some doc)) (eq_add pk doc e)"
proof -
  let ?K = "map_of (eq_byPk e)"
  have K': "distinct (map fst (eq_byPk e))" "postings_ok (posted ?K) (eq_map e)"
    "?K = (\<lambda>pk. Option.bind (docs pk) (eq_keys e))"
    using assms(1) unfolding eq_ok_def by blast+
  then have "?K pk = None" using assms(2) by simp
  note K = this K'
  show ?thesis
  proof (cases "eq_keys e doc")
    case None
    then have e: "eq_add pk doc e = e" by (simp add: eq_add_def eq_keys_def Let_def split: if_splits)
    have d: "?K = (\<lambda>p. Option.bind ((docs(pk := Some doc)) p) (eq_keys e))"
      using K(4) assms(2) None by (auto simp: fun_eq_iff)
    show ?thesis unfolding eq_ok_def e using K'(1,2) d by blast
  next
    case (Some ks)
    then have e: "eq_add pk doc e = e\<lparr>eq_map := post_all pk ks (eq_map e), eq_byPk := AList.update pk ks (eq_byPk e)\<rparr>"
      by (auto simp: eq_add_def eq_keys_def Let_def split: if_splits)
    have keys: "eq_keys (eq_add pk doc e) = eq_keys e" unfolding e eq_keys_def [abs_def] by simp
    have "map_of (eq_byPk (eq_add pk doc e)) = ?K(pk := Some ks)" unfolding e by (auto simp: alist_simps)
    moreover have "?K(pk := Some ks) = (\<lambda>p. Option.bind ((docs(pk := Some doc)) p) (eq_keys e))"
      using K(4) Some by (auto simp: fun_eq_iff)
    moreover have "postings_ok (posted (?K(pk := Some ks))) (post_all pk ks (eq_map e))"
      unfolding posted_add [of ?K, OF K(1)] by (rule post_all_ok [OF K(3)])
    ultimately show ?thesis using K(2) unfolding eq_ok_def keys by (simp add: e alist_simps)
  qed
qed

lemma eq_remove_ok:
  assumes "eq_ok docs e"
  shows "eq_ok (docs(pk := None)) (eq_remove pk e)"
proof -
  let ?K = "map_of (eq_byPk e)"
  have K: "distinct (map fst (eq_byPk e))" "postings_ok (posted ?K) (eq_map e)"
    "?K = (\<lambda>pk. Option.bind (docs pk) (eq_keys e))"
    using assms unfolding eq_ok_def by blast+
  have docs: "?K(pk := None) = (\<lambda>p. Option.bind ((docs(pk := None)) p) (eq_keys e))"
    using K(3) by (auto simp: fun_eq_iff)
  show ?thesis
  proof (cases "?K pk")
    case None
    then have "eq_remove pk e = e" by (simp add: eq_remove_def)
    moreover have "?K(pk := None) = ?K" using None by (simp add: fun_upd_idem)
    ultimately show ?thesis using K docs by (simp add: eq_ok_def)
  next
    case (Some ks)
    then have e: "eq_remove pk e = e\<lparr>eq_map := unpost_all pk ks (eq_map e), eq_byPk := AList.delete pk (eq_byPk e)\<rparr>"
      by (simp add: eq_remove_def)
    have keys: "eq_keys (eq_remove pk e) = eq_keys e" unfolding e eq_keys_def [abs_def] by simp
    have B: "map_of (eq_byPk (eq_remove pk e)) = ?K(pk := None)" unfolding e by (auto simp: alist_simps)
    have "postings_ok (posted (?K(pk := None))) (unpost_all pk ks (eq_map e))"
      unfolding posted_remove [of ?K, OF Some] by (rule unpost_all_ok [OF K(2)])
    then show ?thesis using K(1) docs B unfolding eq_ok_def keys by (simp add: e alist_simps)
  qed
qed

subsection \<open>Ordered values\<close>

lemma insert_all_ok:
  "holds cmpNumber cmpString l X \<Longrightarrow> distinct vs \<Longrightarrow> \<forall>v\<in>set vs. (v, pk) \<notin> X \<Longrightarrow>
    \<exists>l'. insert_all draws pk vs l = Some l' \<and> holds cmpNumber cmpString l' (X \<union> {(v, p). p = pk \<and> v \<in> set vs})"
proof (induction vs arbitrary: l X)
  case Nil
  then show ?case by simp
next
  case (Cons v vs)
  obtain l1 where l1: "insert_node cmpNumber cmpString v pk (draws (length vs)) l = Some l1"
    "holds cmpNumber cmpString l1 (insert (v, pk) X)"
    using number_str.sets.set_ins [OF Cons.prems(1), of "(v, pk)" "draws (length vs)"] Cons.prems(3) by auto
  have "insert (v, pk) X \<union> {(w, p). p = pk \<and> w \<in> set vs} = X \<union> {(w, p). p = pk \<and> w \<in> set (v # vs)}" by auto
  with Cons.IH [OF l1(2)] Cons.prems(2,3) l1(1) show ?case by auto
qed

lemma delete_all_ok:
  "holds cmpNumber cmpString l X \<Longrightarrow>
    \<exists>l'. delete_all pk vs l = Some l' \<and> holds cmpNumber cmpString l' (X - {(v, p). p = pk \<and> v \<in> set vs})"
proof (induction vs arbitrary: l X)
  case Nil
  then show ?case by simp
next
  case (Cons v vs)
  obtain found l1 where l1: "delete_node cmpNumber cmpString v pk l = Some (found, l1)"
    "holds cmpNumber cmpString l1 (X - {(v, pk)})"
    using number_str.sets.set_del [OF Cons.prems, of "(v, pk)"] by auto
  have "X - {(v, pk)} - {(w, p). p = pk \<and> w \<in> set vs} = X - {(w, p). p = pk \<and> w \<in> set (v # vs)}" by auto
  with Cons.IH [OF l1(2)] l1(1) show ?case by auto
qed

lemma valued_add: "V pk = None \<Longrightarrow> valued (V(pk := Some vs)) = valued V \<union> {(v, p). p = pk \<and> v \<in> set vs}"
  by (auto simp: valued_def split: if_splits)

lemma valued_remove: "V pk = Some vs \<Longrightarrow> valued (V(pk := None)) = valued V - {(v, p). p = pk \<and> v \<in> set vs}"
  by (auto simp: valued_def split: if_splits)

lemma numbers_of_undefined [simp]: "numbers_of (flatten None) = []"
  by (simp add: numbers_of_def flatten_def List.map_filter_simps)

lemma range_row_cong:
  fixes r r' :: range_index
  assumes "ix_field r' = ix_field r"
  shows "range_row r' = range_row r"
  unfolding range_row_def [abs_def] range_keys_def assms by (rule refl)

lemma range_add_ok:
  assumes "range_ok docs r" "docs pk = None"
  shows "\<exists>r'. range_add draws pk doc r = Some r' \<and> range_ok (docs(pk := Some doc)) r' \<and> idx_info.truncate r' = idx_info.truncate r"
proof -
  let ?V = "map_of (rg_byPk r)"
  have V': "distinct (map fst (rg_byPk r))" "?V = (\<lambda>pk. Option.bind (docs pk) (range_row r))"
    "holds cmpNumber cmpString (rg_list r) (valued ?V)"
    using assms(1) unfolding range_ok_def by blast+
  then have V: "?V pk = None" using assms(2) by simp
  have docs: "?V(pk := range_row r doc) = (\<lambda>p. Option.bind ((docs(pk := Some doc)) p) (range_row r))"
    using V'(2) by (auto simp: fun_eq_iff)
  show ?thesis
  proof (cases "range_keys r doc = []")
    case True
    then have "range_add draws pk doc r = Some r" by (auto simp: range_add_def range_keys_def Let_def)
    moreover have "?V(pk := range_row r doc) = ?V" using V True by (simp add: range_row_def fun_upd_idem)
    ultimately show ?thesis using V' docs unfolding range_ok_def by simp
  next
    case False
    then have keys: "getField doc (ix_field r) \<noteq> None \<or> \<not> ix_sparse r" by (auto simp: range_keys_def)
    obtain l where l: "insert_all draws pk (range_keys r doc) (rg_list r) = Some l"
      "holds cmpNumber cmpString l (valued ?V \<union> {(v, p). p = pk \<and> v \<in> set (range_keys r doc)})"
      using insert_all_ok [OF V'(3), of "range_keys r doc" pk draws] V by (auto simp: range_keys_def valued_def)
    let ?r = "r\<lparr>rg_list := l, rg_byPk := AList.update pk (range_keys r doc) (rg_byPk r)\<rparr>"
    have add: "range_add draws pk doc r = Some ?r"
      using keys False l(1) by (auto simp: range_add_def range_keys_def Let_def)
    have row: "range_row ?r = range_row r" by (rule range_row_cong) simp
    have B: "map_of (rg_byPk ?r) = ?V(pk := range_row r doc)" using False by (auto simp: alist_simps range_row_def)
    have "holds cmpNumber cmpString l (valued (?V(pk := range_row r doc)))"
      using l(2) valued_add [of ?V, OF V] False by (simp add: range_row_def del: fun_upd_apply)
    then have "range_ok (docs(pk := Some doc)) ?r"
      unfolding range_ok_def row B docs using V'(1) by (simp add: alist_simps del: fun_upd_apply)
    with add show ?thesis by (simp add: idx_info.truncate_def)
  qed
qed

lemma range_remove_ok:
  assumes "range_ok docs r"
  shows "\<exists>r'. range_remove pk r = Some r' \<and> range_ok (docs(pk := None)) r' \<and> idx_info.truncate r' = idx_info.truncate r"
proof -
  let ?V = "map_of (rg_byPk r)"
  have V': "distinct (map fst (rg_byPk r))" "?V = (\<lambda>pk. Option.bind (docs pk) (range_row r))"
    "holds cmpNumber cmpString (rg_list r) (valued ?V)"
    using assms(1) unfolding range_ok_def by blast+
  have docs: "?V(pk := None) = (\<lambda>p. Option.bind ((docs(pk := None)) p) (range_row r))"
    using V'(2) by (auto simp: fun_eq_iff)
  show ?thesis
  proof (cases "?V pk")
    case None
    then have "range_remove pk r = Some r" by (simp add: range_remove_def)
    moreover have "?V(pk := None) = ?V" using None by (simp add: fun_upd_idem)
    ultimately show ?thesis using V' docs unfolding range_ok_def by simp
  next
    case (Some vs)
    obtain l where l: "delete_all pk vs (rg_list r) = Some l"
      "holds cmpNumber cmpString l (valued ?V - {(v, p). p = pk \<and> v \<in> set vs})"
      using delete_all_ok [OF V'(3)] by blast
    let ?r = "r\<lparr>rg_list := l, rg_byPk := AList.delete pk (rg_byPk r)\<rparr>"
    have row: "range_row ?r = range_row r" by (rule range_row_cong) simp
    have B: "map_of (rg_byPk ?r) = ?V(pk := None)" by (auto simp: alist_simps)
    have "range_ok (docs(pk := None)) ?r"
      unfolding range_ok_def row B docs using l(2) valued_remove [of ?V, OF Some] V'(1) docs
      by (simp add: alist_simps del: fun_upd_apply)
    moreover have "range_remove pk r = Some ?r" using Some l(1) by (simp add: range_remove_def)
    ultimately show ?thesis by (simp add: idx_info.truncate_def)
  qed
qed

subsection \<open>The manager\<close>

lemma info_simps [simp]: "info_of (EqIndex e) = idx_info.truncate e" "info_of (RangeIndex r) = idx_info.truncate r"
  by (simp_all add: info_of_def)

lemma truncate_simps [simp]: "ix_name (idx_info.truncate i) = ix_name i" "ix_field (idx_info.truncate i) = ix_field i"
  "ix_unique (idx_info.truncate i) = ix_unique i" "ix_sparse (idx_info.truncate i) = ix_sparse i"
  by (simp_all add: idx_info.truncate_def)

lemma eq_add_info [simp]: "idx_info.truncate (eq_add pk doc e) = idx_info.truncate e"
  by (simp add: eq_add_def Let_def idx_info.truncate_def)

lemma eq_remove_info [simp]: "idx_info.truncate (eq_remove pk e) = idx_info.truncate e"
  by (simp add: eq_remove_def idx_info.truncate_def split: option.split)

text \<open>The definitions of the indexes, which no document changes.\<close>

definition index_defs :: "index_manager \<Rightarrow> (js_string \<times> idx_info \<times> index_type) list" where
  "index_defs m = map (\<lambda>(name, i). (name, info_of i, type_of_index i)) m"

lemma indexed_simps [simp]: "indexed docs []" "indexed docs ((name, i) # m) \<longleftrightarrow> index_ok docs i \<and> indexed docs m"
  by (auto simp: indexed_def)

lemma index_defs_simps [simp]: "index_defs [] = []"
  "index_defs ((name, i) # m) = (name, info_of i, type_of_index i) # index_defs m"
  by (simp_all add: index_defs_def)

lemma index_add_spec:
  "indexed docs m \<Longrightarrow> docs pk = None \<Longrightarrow>
    \<exists>m'. index_add draws pk doc m = Some m' \<and> indexed (docs(pk := Some doc)) m' \<and> index_defs m' = index_defs m"
proof (induction draws pk doc m rule: index_add.induct)
  case (1 draws pk doc)
  then show ?case by simp
next
  case (2 draws pk doc name i m)
  obtain i' where i': "(case i of EqIndex e \<Rightarrow> Some (EqIndex (eq_add pk doc e))
      | RangeIndex r \<Rightarrow> map_option RangeIndex (range_add (draws name) pk doc r)) = Some i'"
    "index_ok (docs(pk := Some doc)) i'" "info_of i' = info_of i" "type_of_index i' = type_of_index i"
  proof (cases i)
    case (EqIndex e)
    with "2.prems" eq_add_ok [of docs e pk doc] show ?thesis
      by (intro that [of "EqIndex (eq_add pk doc e)"]) (simp_all add: index_ok_def type_of_index_def)
  next
    case (RangeIndex r)
    then obtain r' where "range_add (draws name) pk doc r = Some r'" "range_ok (docs(pk := Some doc)) r'"
      "idx_info.truncate r' = idx_info.truncate r"
      using range_add_ok [of docs r pk "draws name" doc] "2.prems" by (auto simp: index_ok_def)
    with RangeIndex show ?thesis
      by (intro that [of "RangeIndex r'"]) (simp_all add: index_ok_def type_of_index_def)
  qed
  with "2.IH" [OF i'(1)] "2.prems" show ?case by (auto simp del: fun_upd_apply)
qed

lemma index_remove_spec:
  "indexed docs m \<Longrightarrow>
    \<exists>m'. index_remove pk m = Some m' \<and> indexed (docs(pk := None)) m' \<and> index_defs m' = index_defs m"
proof (induction pk m rule: index_remove.induct)
  case (1 pk)
  then show ?case by simp
next
  case (2 pk name i m)
  obtain i' where i': "(case i of EqIndex e \<Rightarrow> Some (EqIndex (eq_remove pk e))
      | RangeIndex r \<Rightarrow> map_option RangeIndex (range_remove pk r)) = Some i'"
    "index_ok (docs(pk := None)) i'" "info_of i' = info_of i" "type_of_index i' = type_of_index i"
  proof (cases i)
    case (EqIndex e)
    with "2.prems" eq_remove_ok [of docs e pk] show ?thesis
      by (intro that [of "EqIndex (eq_remove pk e)"]) (simp_all add: index_ok_def type_of_index_def)
  next
    case (RangeIndex r)
    then obtain r' where "range_remove pk r = Some r'" "range_ok (docs(pk := None)) r'"
      "idx_info.truncate r' = idx_info.truncate r"
      using range_remove_ok [of docs r pk] "2.prems" by (auto simp: index_ok_def)
    with RangeIndex show ?thesis
      by (intro that [of "RangeIndex r'"]) (simp_all add: index_ok_def type_of_index_def)
  qed
  with "2.IH" [OF i'(1)] "2.prems" show ?case by (auto simp del: fun_upd_apply)
qed

text \<open>The table a rebuild indexes: the objects and arrays among the entries.\<close>

lemma clear_ok: "index_ok Map.empty (clear_index i)"
  using number_str.sets.set_empty
  by (cases i) (auto simp: index_ok_def clear_index_def eq_ok_def range_ok_def postings_ok_def posted_def valued_def)

lemma rebuild_loop_spec:
  "indexed docs m \<Longrightarrow> distinct (map fst es) \<Longrightarrow> \<forall>(pk, d)\<in>set es. docs pk = None \<Longrightarrow>
    \<exists>m'. rebuild_loop draws es m = Some m' \<and> index_defs m' = index_defs m \<and>
      indexed (docs ++ map_of (filter (\<lambda>(pk, d). is_object d) es)) m'"
proof (induction draws es m arbitrary: docs rule: rebuild_loop.induct)
  case (1 draws m)
  then show ?case by simp
next
  case (2 draws pk d es m)
  show ?case
  proof (cases "is_object d")
    case True
    obtain m1 where m1: "index_add (draws (length es)) pk d m = Some m1" "indexed (docs(pk := Some d)) m1"
      "index_defs m1 = index_defs m"
      using index_add_spec [OF "2.prems"(1), of pk "draws (length es)" d] "2.prems"(3) by auto
    have notin: "pk \<notin> fst ` set es" using "2.prems"(2) by simp
    have "\<exists>m'. rebuild_loop draws es m1 = Some m' \<and> index_defs m' = index_defs m1 \<and>
        indexed (docs(pk := Some d) ++ map_of (filter (\<lambda>(pk, d). is_object d) es)) m'"
      by (rule "2.IH"(1) [OF True m1(1,2)]) (use "2.prems" notin in \<open>auto simp: rev_image_eqI\<close>)
    moreover have n: "map_of (filter (\<lambda>(pk, d). is_object d) es) pk = None"
      using notin by (auto simp: map_of_eq_None_iff)
    moreover have "docs(pk := Some d) ++ map_of (filter (\<lambda>(pk, d). is_object d) es) =
        docs ++ map_of (filter (\<lambda>(pk, d). is_object d) ((pk, d) # es))"
      using n True by (simp add: map_add_upd_left dom_def)
    ultimately show ?thesis using m1(1,3) True by (simp del: fun_upd_apply)
  next
    case False
    with "2.IH"(2) [OF False "2.prems"(1)] "2.prems" show ?thesis by simp
  qed
qed

subsection \<open>Lookups\<close>

lemma find_info: "map_of m name = Some i \<Longrightarrow> indexed docs m \<Longrightarrow> index_ok docs i"
  by (auto simp: indexed_def dest: map_of_SomeD)

lemma findEq_spec:
  assumes "indexed docs m" "map_of m name = Some (EqIndex e)"
  shows "\<exists>pks. findEq name value m = Inr pks \<and> distinct pks \<and>
    set pks = {pk. \<exists>doc ks. docs pk = Some doc \<and> eq_keys e doc = Some ks \<and> scalarKey value \<in> set ks}"
proof -
  let ?K = "map_of (eq_byPk e)"
  have e: "?K = (\<lambda>pk. Option.bind (docs pk) (eq_keys e))" "postings_ok (posted ?K) (eq_map e)"
    using find_info [OF assms(2,1)] unfolding index_ok_def eq_ok_def by auto
  have P: "posted ?K (scalarKey value) = {pk. \<exists>doc ks. docs pk = Some doc \<and> eq_keys e doc = Some ks \<and> scalarKey value \<in> set ks}"
    unfolding e(1) posted_def by (auto simp: bind_eq_Some_conv)
  show ?thesis
    unfolding P [symmetric] using e(2) assms(2)
    by (cases "map_of (eq_map e) (scalarKey value)") (auto simp: findEq_def index_get_def postings_ok_def)
qed

lemma hasEq_findEq: "hasEq name value pk m = map_res (\<lambda>pks. pk \<in> set pks) (findEq name value m)"
  by (auto simp: hasEq_def findEq_def index_get_def split: option.split any_index.split)

lemma find_single [simp]: "single_bounds (find_range_options o')"
  by (simp add: single_bounds_def find_range_options_def)

lemma findRange_spec:
  assumes "indexed docs m" "map_of m name = Some (RangeIndex r)"
  shows "\<exists>es. sorted_entries cmpNumber cmpString {(v, pk). \<exists>doc. docs pk = Some doc \<and> v \<in> set (range_keys r doc)} es \<and>
    findRange name o' m = Inr (Some (map (\<lambda>(v, pk). (pk, v)) (range_spec cmpNumber (find_range_options o') es)))"
proof -
  let ?V = "map_of (rg_byPk r)"
  have r: "?V = (\<lambda>pk. Option.bind (docs pk) (range_row r))" "holds cmpNumber cmpString (rg_list r) (valued ?V)"
    using find_info [OF assms(2,1)] unfolding index_ok_def range_ok_def by auto
  have V: "valued ?V = {(v, pk). \<exists>doc. docs pk = Some doc \<and> v \<in> set (range_keys r doc)}"
    unfolding r(1) valued_def by (force simp: bind_eq_Some_conv range_row_def split: if_splits)
  from number_str.holds_range [OF r(2) find_single, of o'] show ?thesis
    unfolding V using assms(2) by (auto simp: findRange_def index_get_def)
qed

text \<open>The canonical text tells scalars apart.\<close>

lemma scalarKey_scalar:
  "scalarKey (Some (JStr s)) = scalarKey (Some (JStr t)) \<longleftrightarrow> s = t"
  "scalarKey (Some (JNum a)) = scalarKey (Some (JNum b)) \<longleftrightarrow> a = b"
  "scalarKey (Some (JBool p)) = scalarKey (Some (JBool q)) \<longleftrightarrow> p = q"
  "scalarKey (Some (JStr s)) \<noteq> scalarKey (Some (JNum a))" "scalarKey (Some (JStr s)) \<noteq> scalarKey (Some (JBool p))"
  "scalarKey (Some (JNum a)) \<noteq> scalarKey (Some (JBool p))"
  by (auto simp: scalarKey_def int_text_inj bool_text_def js_def)

end
