(* ===== verification/IndexUnique.thy ===== *)
theory IndexUnique
  imports IndexProofs
begin

section \<open>Secondary indexes: uniqueness\<close>

text \<open>
  A unique index admits no value under two keys. \<open>values_of\<close> are the values of a document an index
  compares; \<open>unique_docs\<close> is the constraint on the table of documents that all unique indexes
  together express.
\<close>

declare fun_upd_apply [simp del] fun_upd_same [simp] fun_upd_other [simp]

datatype index_value = TextValue js_string | NumValue int

definition values_of :: "any_index \<Rightarrow> json \<Rightarrow> index_value set" where
  "values_of i doc =
     (case i of
        EqIndex e \<Rightarrow> (case eq_keys e doc of None \<Rightarrow> {} | Some ks \<Rightarrow> TextValue ` set ks)
      | RangeIndex r \<Rightarrow> NumValue ` set (range_keys r doc))"

definition unique_in :: "any_index \<Rightarrow> (js_string \<rightharpoonup> json) \<Rightarrow> bool" where
  "unique_in i docs \<longleftrightarrow> (\<forall>p q d d'. docs p = Some d \<and> docs q = Some d' \<and> values_of i d \<inter> values_of i d' \<noteq> {} \<longrightarrow> p = q)"

definition unique_docs :: "index_manager \<Rightarrow> (js_string \<rightharpoonup> json) \<Rightarrow> bool" where
  "unique_docs m docs \<longleftrightarrow> (\<forall>(name, i)\<in>set m. ix_unique (info_of i) \<longrightarrow> unique_in i docs)"

lemma unique_inD: "unique_in i docs \<Longrightarrow> docs p = Some d \<Longrightarrow> docs q = Some d' \<Longrightarrow> v \<in> values_of i d \<Longrightarrow> v \<in> values_of i d' \<Longrightarrow> p = q"
  unfolding unique_in_def by blast

lemma unique_in_update:
  assumes "unique_in i docs"
  shows "unique_in i (docs(pk := Some doc)) \<longleftrightarrow>
    (\<forall>q d v. q \<noteq> pk \<and> docs q = Some d \<and> v \<in> values_of i d \<longrightarrow> v \<notin> values_of i doc)"
proof
  assume u: "unique_in i (docs(pk := Some doc))"
  show "\<forall>q d v. q \<noteq> pk \<and> docs q = Some d \<and> v \<in> values_of i d \<longrightarrow> v \<notin> values_of i doc"
    using unique_inD [OF u, of _ _ pk doc] by (metis fun_upd_other fun_upd_same)
next
  assume r: "\<forall>q d v. q \<noteq> pk \<and> docs q = Some d \<and> v \<in> values_of i d \<longrightarrow> v \<notin> values_of i doc"
  show "unique_in i (docs(pk := Some doc))"
    unfolding unique_in_def
  proof (intro allI impI, elim conjE)
    fix p q d d' assume a: "(docs(pk := Some doc)) p = Some d" "(docs(pk := Some doc)) q = Some d'"
      "values_of i d \<inter> values_of i d' \<noteq> {}"
    then obtain v where v: "v \<in> values_of i d" "v \<in> values_of i d'" by blast
    show "p = q"
      using a(1,2) r v unique_inD [OF assms _ _ v] by (cases "p = pk"; cases "q = pk") auto
  qed
qed

text \<open>Keys and values an index compares, from the values it runs through.\<close>

definition compared :: "any_index \<Rightarrow> json option \<Rightarrow> index_value option" where
  "compared i v =
     (case i of EqIndex e \<Rightarrow> Some (TextValue (scalarKey v))
              | RangeIndex r \<Rightarrow> (case v of Some (JNum n) \<Rightarrow> Some (NumValue n) | _ \<Rightarrow> None))"

lemma numbers_of_iff: "n \<in> set (numbers_of vs) \<longleftrightarrow> Some (JNum n) \<in> set vs"
  by (induction vs) (auto simp: numbers_of_def List.map_filter_simps split: option.splits json.splits)

lemma values_compared:
  assumes "\<not> (getField doc (ix_field (info_of i)) = None \<and> ix_sparse (info_of i))"
  shows "values_of i doc = {x. \<exists>v\<in>set (flatten (getField doc (ix_field (info_of i)))). compared i v = Some x}"
proof (cases i)
  case (EqIndex e)
  with assms show ?thesis by (auto simp: values_of_def eq_keys_def compared_def Let_def)
next
  case (RangeIndex r)
  have c: "compared i v = Some x \<longleftrightarrow> (\<exists>n. v = Some (JNum n) \<and> x = NumValue n)" for v x
    using RangeIndex by (auto simp: compared_def split: option.splits json.splits)
  have "values_of i doc = {x. \<exists>n. x = NumValue n \<and> Some (JNum n) \<in> set (flatten (getField doc (ix_field r)))}"
    using RangeIndex by (auto simp: values_of_def range_keys_def numbers_of_iff)
  then show ?thesis unfolding c using RangeIndex by auto
qed

lemma values_sparse:
  assumes "getField doc (ix_field (info_of i)) = None" "ix_sparse (info_of i)"
  shows "values_of i doc = {}"
proof (cases i)
  case (EqIndex e)
  with assms show ?thesis by (simp add: values_of_def eq_keys_def)
next
  case (RangeIndex r)
  with assms show ?thesis by (simp add: values_of_def range_keys_def)
qed

definition taken :: "any_index \<Rightarrow> (js_string \<rightharpoonup> json) \<Rightarrow> js_string \<Rightarrow> index_value \<Rightarrow> bool" where
  "taken i docs pk v \<longleftrightarrow> (\<exists>q d. q \<noteq> pk \<and> docs q = Some d \<and> v \<in> values_of i d)"

lemma eq_posted:
  assumes "eq_ok docs e"
  shows "posted (map_of (eq_byPk e)) sk = {pk. \<exists>d. docs pk = Some d \<and> TextValue sk \<in> values_of (EqIndex e) d}"
proof -
  have "map_of (eq_byPk e) = (\<lambda>pk. Option.bind (docs pk) (eq_keys e))" using assms unfolding eq_ok_def by blast
  then show ?thesis by (auto simp: posted_def values_of_def bind_eq_Some_conv split: option.splits)
qed

lemma eq_taken:
  assumes "eq_ok docs e"
  shows "(case map_of (eq_map e) sk of
      Some s \<Rightarrow> length s > 1 \<or> (length s = 1 \<and> pk \<notin> set s) | None \<Rightarrow> False) \<longleftrightarrow> taken (EqIndex e) docs pk (TextValue sk)"
proof -
  let ?S = "{pk. \<exists>d. docs pk = Some d \<and> TextValue sk \<in> values_of (EqIndex e) d}"
  have P: "postings_ok (posted (map_of (eq_byPk e))) (eq_map e)" using assms unfolding eq_ok_def by blast
  have t: "taken (EqIndex e) docs pk (TextValue sk) \<longleftrightarrow> ?S - {pk} \<noteq> {}" by (auto simp: taken_def)
  show ?thesis
  proof (cases "map_of (eq_map e) sk")
    case None
    then have "?S = {}" using P eq_posted [OF assms] by (simp add: postings_ok_def)
    with None t show ?thesis by simp
  next
    case (Some s)
    then have s: "s \<noteq> []" "distinct s" "set s = ?S" using P eq_posted [OF assms] by (auto simp: postings_ok_def)
    have "?S - {pk} \<noteq> {} \<longleftrightarrow> (length s > 1 \<or> (length s = 1 \<and> pk \<notin> set s))"
    proof (cases s)
      case (Cons a r)
      show ?thesis
      proof (cases r)
        case Nil
        then show ?thesis using Cons unfolding s(3) [symmetric] by auto
      next
        case c: (Cons b r')
        then have "a \<noteq> b" using Cons s(2) by auto
        then have "set s - {pk} \<noteq> {}" using Cons c by auto
        then show ?thesis using Cons c unfolding s(3) [symmetric] by simp
      qed
    qed (use s in simp)
    with Some t show ?thesis by simp
  qed
qed

lemma range_taken:
  assumes "range_ok docs r" "unique_in (RangeIndex r) docs"
  shows "\<exists>hit. range_entries cmpNumber (rg_list r) (exact_range n) = Some hit \<and>
    (hit \<noteq> [] \<and> snd (hd hit) \<noteq> pk \<longleftrightarrow> taken (RangeIndex r) docs pk (NumValue n))"
proof -
  have r: "map_of (rg_byPk r) = (\<lambda>pk. Option.bind (docs pk) (range_row r))" "holds cmpNumber cmpString (rg_list r) (valued (map_of (rg_byPk r)))"
    using assms(1) unfolding range_ok_def by blast+
  have V: "(v, q) \<in> valued (map_of (rg_byPk r)) \<longleftrightarrow> (\<exists>d. docs q = Some d \<and> NumValue v \<in> values_of (RangeIndex r) d)" for v q
    unfolding r(1) valued_def values_of_def by (force simp: bind_eq_Some_conv range_row_def split: if_splits)
  have sb: "single_bounds (exact_range n)" by (simp add: exact_range_def single_bounds_def)
  obtain es where es: "sorted_entries cmpNumber cmpString (valued (map_of (rg_byPk r))) es"
    "range_entries cmpNumber (rg_list r) (exact_range n) = Some (range_spec cmpNumber (exact_range n) es)"
    using number_str.holds_range [OF r(2) sb] by blast
  define hits where "hits = filter (\<lambda>e. fst e = n) es"
  have "range_spec cmpNumber (exact_range n) es = take 1 hits"
  proof -
    have "(\<lambda>e. \<not> below_lower cmpNumber (exact_range n) (fst e) \<and> \<not> above_upper cmpNumber (exact_range n) (fst e)) = (\<lambda>e :: int \<times> js_string. fst e = n)"
      by (auto simp: exact_range_def below_lower_def above_upper_def cmpNumber_def fun_eq_iff)
    then show ?thesis by (simp add: range_spec_def exact_range_def take_count_def hits_def)
  qed
  moreover have mem: "(v, q) \<in> set hits \<longleftrightarrow> v = n \<and> (\<exists>d. docs q = Some d \<and> NumValue n \<in> values_of (RangeIndex r) d)" for v q
    using es(1) V by (auto simp: hits_def sorted_entries_def)
  moreover have "take 1 hits \<noteq> [] \<and> snd (hd (take 1 hits)) \<noteq> pk \<longleftrightarrow> taken (RangeIndex r) docs pk (NumValue n)"
  proof (cases hits)
    case Nil
    then have "\<not> (\<exists>d. docs q = Some d \<and> NumValue n \<in> values_of (RangeIndex r) d)" for q using mem [of n q] by simp
    with Nil show ?thesis by (auto simp: taken_def)
  next
    case (Cons h hs)
    obtain v q where h: "h = (v, q)" by (cases h)
    then obtain d where d: "docs q = Some d" "NumValue n \<in> values_of (RangeIndex r) d" using mem [of v q] Cons by auto
    show ?thesis
    proof (cases "q = pk")
      case True
      then have "\<not> taken (RangeIndex r) docs pk (NumValue n)"
        using unique_inD [OF assms(2) d(1) _ d(2)] unfolding taken_def by blast
      with True Cons h show ?thesis by simp
    next
      case False
      then have "taken (RangeIndex r) docs pk (NumValue n)" using d unfolding taken_def by blast
      with False Cons h show ?thesis by simp
    qed
  qed
  ultimately show ?thesis using es(2) by simp
qed

subsection \<open>Checking one document\<close>

lemma check_values_spec:
  assumes "index_ok docs i" "unique_in i docs"
  shows "\<exists>r. check_values pk i vs = Some r \<and> (r = Inr () \<longleftrightarrow> (\<forall>v\<in>set vs. \<forall>x. compared i v = Some x \<longrightarrow> \<not> taken i docs pk x)) \<and>
    (\<forall>e. r = Inl e \<longrightarrow> (\<exists>v\<in>set vs. e = UniqueViolation (ix_name (info_of i)) v))"
proof (induction vs)
  case Nil
  then show ?case by simp
next
  case (Cons v vs)
  then obtain r where IH: "check_values pk i vs = Some r"
    "r = Inr () \<longleftrightarrow> (\<forall>v\<in>set vs. \<forall>x. compared i v = Some x \<longrightarrow> \<not> taken i docs pk x)"
    "\<forall>e. r = Inl e \<longrightarrow> (\<exists>v\<in>set vs. e = UniqueViolation (ix_name (info_of i)) v)" by blast
  have step: "check_values pk i (v # vs) =
      (if \<exists>x. compared i v = Some x \<and> taken i docs pk x then Some (Inl (UniqueViolation (ix_name (info_of i)) v)) else check_values pk i vs)"
  proof (cases i)
    case (EqIndex e)
    then have "eq_ok docs e" using assms(1) by (simp add: index_ok_def)
    from eq_taken [OF this, where sk = "scalarKey v" and pk = pk] show ?thesis
      using EqIndex by (cases "map_of (eq_map e) (scalarKey v)") (simp_all add: compared_def)
  next
    case (RangeIndex r)
    then have ok: "range_ok docs r" "unique_in (RangeIndex r) docs" using assms by (simp_all add: index_ok_def)
    show ?thesis
    proof (cases "\<exists>n. v = Some (JNum n)")
      case True
      then obtain n where v: "v = Some (JNum n)" by blast
      from range_taken [OF ok, where n = n and pk = pk] show ?thesis using RangeIndex v by (auto simp: compared_def)
    next
      case False
      then show ?thesis using RangeIndex by (simp add: compared_def split: option.split json.split)
    qed
  qed
  show ?case
  proof (cases "\<exists>x. compared i v = Some x \<and> taken i docs pk x")
    case True
    then show ?thesis unfolding step by auto
  next
    case False
    then show ?thesis unfolding step using IH by auto
  qed
qed

lemma unique_in_taken:
  "unique_in i docs \<Longrightarrow> unique_in i (docs(pk := Some doc)) \<longleftrightarrow> (\<forall>x\<in>values_of i doc. \<not> taken i docs pk x)"
  unfolding unique_in_update taken_def by blast

lemma unique_docs_simps [simp]: "unique_docs [] docs"
  "unique_docs ((name, i) # m) docs \<longleftrightarrow> (ix_unique (info_of i) \<longrightarrow> unique_in i docs) \<and> unique_docs m docs"
  by (auto simp: unique_docs_def)

lemma checkUnique_spec:
  "indexed docs m \<Longrightarrow> unique_docs m docs \<Longrightarrow>
    \<exists>r. checkUnique pk doc m = Some r \<and> (r = Inr () \<longleftrightarrow> unique_docs m (docs(pk := Some doc)))"
proof (induction pk doc m rule: checkUnique.induct)
  case (1 pk doc)
  then show ?case by simp
next
  case (2 pk doc name i m)
  let ?v = "getField doc (ix_field (info_of i))"
  show ?case
  proof (cases "ix_unique (info_of i) \<and> \<not> (?v = None \<and> ix_sparse (info_of i))")
    case False
    have rest: "checkUnique pk doc ((name, i) # m) = checkUnique pk doc m"
      using False by (auto simp: Let_def)
    have "ix_unique (info_of i) \<longrightarrow> unique_in i (docs(pk := Some doc))"
      using False "2.prems"(2) values_sparse [of doc i] by (auto simp: unique_in_taken)
    moreover obtain r where "checkUnique pk doc m = Some r" "r = Inr () \<longleftrightarrow> unique_docs m (docs(pk := Some doc))"
    proof (cases "ix_unique (info_of i)")
      case True
      with False have "?v = None \<and> ix_sparse (info_of i)" by blast
      with "2.IH"(2) [OF refl] True "2.prems" that show thesis by auto
    next
      case False
      with "2.IH"(1) [OF refl] "2.prems" that show thesis by auto
    qed
    ultimately show ?thesis unfolding rest by auto
  next
    case True
    then have u: "unique_in i docs" "index_ok docs i" using "2.prems" by auto
    obtain r where r: "check_values pk i (flatten ?v) = Some r"
      "r = Inr () \<longleftrightarrow> (\<forall>v\<in>set (flatten ?v). \<forall>x. compared i v = Some x \<longrightarrow> \<not> taken i docs pk x)"
      using check_values_spec [OF u(2,1), of pk "flatten ?v"] by blast
    have ok: "r = Inr () \<longleftrightarrow> unique_in i (docs(pk := Some doc))"
      unfolding r(2) unique_in_taken [OF u(1)] using values_compared [of doc i] True by auto
    have cond: "\<not> (?v = None \<and> ix_sparse (info_of i))" "ix_unique (info_of i)" using True by blast+
    have step: "checkUnique pk doc ((name, i) # m) = (case r of Inl e \<Rightarrow> Some (Inl e) | Inr _ \<Rightarrow> checkUnique pk doc m)"
      using cond r(1) by (simp only: checkUnique.simps Let_def if_False not_True_eq_False Option.bind_lunit simp_thms)
    show ?thesis
    proof (cases r)
      case (Inl e)
      with True ok show ?thesis unfolding step by simp
    next
      case (Inr u')
      obtain r' where "checkUnique pk doc m = Some r'" "r' = Inr () \<longleftrightarrow> unique_docs m (docs(pk := Some doc))"
        using "2.IH"(3) [OF refl _ _ r(1) Inr] True "2.prems" by auto
      with True ok Inr show ?thesis unfolding step by auto
    qed
  qed
qed

subsection \<open>Checking a batch\<close>

text \<open>Owners: each value belongs to one key. \<open>owner_is\<close> ties the owner map of the code to the
  values each key holds; a claim succeeds exactly when no other key holds one of the values.\<close>

definition owner_is :: "('k \<times> js_string) list \<Rightarrow> (js_string \<Rightarrow> 'k set) \<Rightarrow> bool" where
  "owner_is owner T \<longleftrightarrow> (\<forall>k p. map_of owner k = Some p \<longleftrightarrow> k \<in> T p)"

definition disjoint_owners :: "(js_string \<Rightarrow> 'k set) \<Rightarrow> bool" where
  "disjoint_owners T \<longleftrightarrow> (\<forall>k p q. k \<in> T p \<and> k \<in> T q \<longrightarrow> p = q)"

lemma owner_disjoint: "owner_is owner T \<Longrightarrow> disjoint_owners T"
  unfolding owner_is_def disjoint_owners_def by (metis option.inject)

lemma claim_spec:
  "owner_is owner T \<Longrightarrow>
    (case claim name pk vs owner of
       Inl e \<Rightarrow> \<exists>k\<in>fst ` set vs. \<exists>p. p \<noteq> pk \<and> k \<in> T p
     | Inr owner' \<Rightarrow> (\<forall>k\<in>fst ` set vs. \<forall>p. p \<noteq> pk \<longrightarrow> k \<notin> T p) \<and> owner_is owner' (T(pk := T pk \<union> fst ` set vs)))"
proof (induction name pk vs owner arbitrary: T rule: claim.induct)
  case (1 name pk owner)
  then show ?case by simp
next
  case (2 name pk sk v vs owner)
  have get: "map_of owner sk = Some p \<longleftrightarrow> sk \<in> T p" for p using "2.prems" by (simp add: owner_is_def)
  show ?case
  proof (cases "case map_of owner sk of Some prev \<Rightarrow> prev \<noteq> pk | None \<Rightarrow> False")
    case True
    then obtain p where p: "map_of owner sk = Some p" "p \<noteq> pk" by (auto split: option.splits)
    with get [of p] show ?thesis by auto
  next
    case False
    then have free: "p \<noteq> pk \<Longrightarrow> sk \<notin> T p" for p using get [of p] by (auto split: option.splits)
    let ?T = "T(pk := insert sk (T pk))"
    have "owner_is (AList.update sk pk owner) ?T"
      unfolding owner_is_def
    proof (intro allI)
      fix k p
      show "map_of (AList.update sk pk owner) k = Some p \<longleftrightarrow> k \<in> ?T p"
        using "2.prems" free [of p] by (auto simp: owner_is_def alist_simps fun_upd_apply)
    qed
    note IH = "2.IH" [OF False this]
    have T: "?T(pk := ?T pk \<union> fst ` set vs) = T(pk := T pk \<union> fst ` set ((sk, v) # vs))" by (simp add: Un_insert_right)
    have other: "p \<noteq> pk \<Longrightarrow> ?T p = T p" for p by simp
    show ?thesis
    proof (cases "claim name pk vs (AList.update sk pk owner)")
      case (Inl e)
      with IH False other show ?thesis by fastforce
    next
      case (Inr owner')
      with IH False other free T show ?thesis by simp
    qed
  qed
qed

definition claimed :: "(json \<Rightarrow> ('k \<times> json option) list) \<Rightarrow> batch_change list \<Rightarrow> (js_string \<Rightarrow> 'k set) \<Rightarrow> js_string \<Rightarrow> 'k set" where
  "claimed vals ops T p = (case map_of ops p of Some (Some doc) \<Rightarrow> fst ` set (vals doc) | _ \<Rightarrow> T p)"

lemma claim_ops_spec:
  "owner_is owner T \<Longrightarrow> distinct (map fst ops) \<Longrightarrow> \<forall>p\<in>fst ` set ops. T p = {} \<Longrightarrow>
    (\<exists>owner'. claim_ops name vals ops owner = Inr owner') \<longleftrightarrow> disjoint_owners (claimed vals ops T)"
proof (induction name vals ops owner arbitrary: T rule: claim_ops.induct)
  case (1 name vals owner)
  then show ?case using owner_disjoint [OF "1.prems"(1)] by (simp add: claimed_def)
next
  case (2 name vals pk d ops owner)
  have notin: "pk \<notin> fst ` set ops" "map_of ops pk = None" and dist: "distinct (map fst ops)"
    using "2.prems"(2) by (auto simp: map_of_eq_None_iff)
  have Tpk: "T pk = {}" using "2.prems"(3) by simp
  show ?case
  proof (cases d)
    case None
    have "claimed vals ((pk, d) # ops) T = claimed vals ops T"
      using None notin(2) Tpk by (auto simp: claimed_def fun_eq_iff fun_upd_apply)
    with "2.IH"(1) [OF None "2.prems"(1) dist] "2.prems"(3) None show ?thesis by simp
  next
    case (Some doc)
    let ?ks = "fst ` set (vals doc)"
    have cl: "claimed vals ((pk, d) # ops) T p = claimed vals ops (T(pk := T pk \<union> ?ks)) p" for p
      using Some notin(2) Tpk by (auto simp: claimed_def fun_upd_apply split: option.split)
    have c: "claimed vals ((pk, d) # ops) T = claimed vals ops (T(pk := T pk \<union> ?ks))" by (rule ext) (rule cl)
    note cs = claim_spec [OF "2.prems"(1), where name = name and pk = pk and vs = "vals doc"]
    show ?thesis
    proof (cases "claim name pk (vals doc) owner")
      case (Inl e)
      with cs obtain k p where kp: "k \<in> ?ks" "p \<noteq> pk" "k \<in> T p" by auto
      then have "p \<notin> fst ` set ops" using "2.prems"(3) by auto
      then have "map_of ops p = None" by (simp add: map_of_eq_None_iff)
      then have "k \<in> claimed vals ((pk, d) # ops) T p" "k \<in> claimed vals ((pk, d) # ops) T pk"
        using kp Some notin(2) by (simp_all add: claimed_def)
      then have "\<not> disjoint_owners (claimed vals ((pk, d) # ops) T)" using kp(2) unfolding disjoint_owners_def by blast
      with Inl Some show ?thesis by simp
    next
      case (Inr owner')
      with cs have "owner_is owner' (T(pk := T pk \<union> ?ks))" by simp
      moreover have "\<forall>p\<in>fst ` set ops. (T(pk := T pk \<union> ?ks)) p = {}"
        using "2.prems"(3) notin(1) by (auto simp: fun_upd_apply)
      ultimately have "(\<exists>o'. claim_ops name vals ops owner' = Inr o') \<longleftrightarrow>
          disjoint_owners (claimed vals ops (T(pk := T pk \<union> ?ks)))"
        by (intro "2.IH"(2) [OF Some Inr] dist)
      with Inr Some c show ?thesis by simp
    qed
  qed
qed

text \<open>The owner maps before the batch, without the keys it touches.\<close>

lemma fold_update: "map_of (fold (\<lambda>(k, p). AList.update k p) ps m) k = map_of (rev ps @ m) k"
  by (induction ps arbitrary: m) (auto simp: alist_simps map_add_def fun_upd_apply split: option.split)

lemma owner_fold:
  assumes "\<And>k p. (k, p) \<in> set ps \<longleftrightarrow> k \<in> T p" "disjoint_owners T"
  shows "owner_is (fold (\<lambda>(k, p). AList.update k p) ps []) T"
  unfolding owner_is_def
proof (intro allI)
  fix k p
  show "map_of (fold (\<lambda>(k, p). AList.update k p) ps []) k = Some p \<longleftrightarrow> k \<in> T p"
  proof
    assume "map_of (fold (\<lambda>(k, p). AList.update k p) ps []) k = Some p"
    then have "(k, p) \<in> set (rev ps)" unfolding fold_update by (auto dest: map_of_SomeD)
    then show "k \<in> T p" using assms(1) by simp
  next
    assume k: "k \<in> T p"
    then have "k \<in> fst ` set (rev ps @ [])" using assms(1) [of k p] by force
    then obtain q where q: "map_of (rev ps @ []) k = Some q" by (metis map_of_eq_None_iff not_Some_eq)
    then have "k \<in> T q" using assms(1) by (auto dest: map_of_SomeD)
    with k have "q = p" using assms(2) unfolding disjoint_owners_def by blast
    with q show "map_of (fold (\<lambda>(k, p). AList.update k p) ps []) k = Some p" unfolding fold_update by simp
  qed
qed

lemma range_owners_fold:
  "range_owners touched r = fold (\<lambda>(k, p). AList.update k p)
     (concat (map (\<lambda>(pk, vals). if pk \<in> touched then [] else map (\<lambda>v. (v, pk)) vals) (rg_byPk r))) []"
proof -
  have "fold (\<lambda>(pk, vals) owner. if pk \<in> touched then owner else fold (\<lambda>v. AList.update v pk) vals owner) rows m =
      fold (\<lambda>(k, p). AList.update k p) (concat (map (\<lambda>(pk, vals). if pk \<in> touched then [] else map (\<lambda>v. (v, pk)) vals) rows)) m" for rows m
    by (induction rows arbitrary: m) (auto simp: fold_map comp_def)
  then show ?thesis by (simp add: range_owners_def)
qed

lemma eq_owners_fold:
  "eq_owners touched e = fold (\<lambda>(k, p). AList.update k p)
     (concat (map (\<lambda>(sk, s). map (\<lambda>pk. (sk, pk)) (filter (\<lambda>pk. pk \<notin> touched) s)) (eq_map e))) []"
proof -
  have inner: "fold (\<lambda>pk owner. if pk \<in> touched then owner else AList.update sk pk owner) s m =
      fold (\<lambda>(k, p). AList.update k p) (map (\<lambda>pk. (sk, pk)) (filter (\<lambda>pk. pk \<notin> touched) s)) m" for sk s m
    by (induction s arbitrary: m) auto
  have "fold (\<lambda>(sk, s) owner. fold (\<lambda>pk owner. if pk \<in> touched then owner else AList.update sk pk owner) s owner) mp m =
      fold (\<lambda>(k, p). AList.update k p) (concat (map (\<lambda>(sk, s). map (\<lambda>pk. (sk, pk)) (filter (\<lambda>pk. pk \<notin> touched) s)) mp)) m" for mp m
    by (induction mp arbitrary: m) (auto simp: inner)
  then show ?thesis by (simp add: eq_owners_def)
qed

text \<open>The table after the batch.\<close>

definition after_batch :: "batch_change list \<Rightarrow> (js_string \<rightharpoonup> json) \<Rightarrow> (js_string \<rightharpoonup> json)" where
  "after_batch ops docs = (\<lambda>pk. case map_of ops pk of None \<Rightarrow> docs pk | Some d \<Rightarrow> d)"

lemma lastOps_distinct: "distinct (map fst (lastOps ops))"
proof -
  have "distinct (map fst m) \<Longrightarrow> distinct (map fst (fold (\<lambda>(pk, d) m. AList.update pk d m) ops m))" for m
    by (induction ops arbitrary: m) (auto simp: alist_simps)
  then show ?thesis by (simp add: lastOps_def)
qed

lemma lastOps_is_last: "map_of (lastOps ops) pk = map_of (rev ops) pk"
  using fold_update [of ops "[]" pk] by (simp add: lastOps_def case_prod_unfold)

definition held :: "any_index \<Rightarrow> (index_value \<Rightarrow> 'k) \<Rightarrow> js_string set \<Rightarrow> (js_string \<rightharpoonup> json) \<Rightarrow> js_string \<Rightarrow> 'k set" where
  "held i key touched docs p = (if p \<in> touched then {} else (case docs p of None \<Rightarrow> {} | Some d \<Rightarrow> key ` values_of i d))"

fun text_of :: "index_value \<Rightarrow> js_string" where "text_of (TextValue s) = s" | "text_of (NumValue n) = []"
fun num_of :: "index_value \<Rightarrow> int" where "num_of (NumValue n) = n" | "num_of (TextValue s) = 0"

lemma text_values: "text_of ` values_of (EqIndex e) d = (case eq_keys e d of None \<Rightarrow> {} | Some ks \<Rightarrow> set ks)"
  by (auto simp: values_of_def image_image split: option.split)

lemma num_values: "num_of ` values_of (RangeIndex r) d = set (range_keys r d)"
  by (auto simp: values_of_def image_image)

lemma disjoint_unique:
  assumes "inj_on key (\<Union>d. values_of i d)"
  shows "disjoint_owners (\<lambda>p. case docs p of None \<Rightarrow> {} | Some d \<Rightarrow> key ` values_of i d) \<longleftrightarrow> unique_in i docs"
proof -
  have inter: "key ` A \<inter> key ` B \<noteq> {} \<longleftrightarrow> A \<inter> B \<noteq> {}" if "A \<subseteq> (\<Union>d. values_of i d)" "B \<subseteq> (\<Union>d. values_of i d)" for A B
    using inj_on_image_Int [OF assms that] by (metis image_is_empty)
  have *: "key ` values_of i d \<inter> key ` values_of i d' \<noteq> {} \<longleftrightarrow> values_of i d \<inter> values_of i d' \<noteq> {}" for d d'
    by (rule inter) auto
  show ?thesis
  proof
    assume l: "disjoint_owners (\<lambda>p. case docs p of None \<Rightarrow> {} | Some d \<Rightarrow> key ` values_of i d)"
    show "unique_in i docs"
      unfolding unique_in_def * [symmetric]
    proof (intro allI impI, elim conjE)
      fix p q d d' assume "docs p = Some d" "docs q = Some d'" "key ` values_of i d \<inter> key ` values_of i d' \<noteq> {}"
      then obtain k where "k \<in> key ` values_of i d" "k \<in> key ` values_of i d'" "docs p = Some d" "docs q = Some d'" by blast
      with l show "p = q" unfolding disjoint_owners_def by (metis option.simps(5))
    qed
  next
    assume "unique_in i docs"
    then show "disjoint_owners (\<lambda>p. case docs p of None \<Rightarrow> {} | Some d \<Rightarrow> key ` values_of i d)"
      unfolding disjoint_owners_def unique_in_def * [symmetric] by (auto split: option.splits) blast
  qed
qed

lemma claimed_after:
  assumes "\<And>d. fst ` set (vals d) = key ` values_of i d"
  shows "claimed vals ops (held i key (fst ` set ops) docs) =
    (\<lambda>p. case after_batch ops docs p of None \<Rightarrow> {} | Some d \<Rightarrow> key ` values_of i d)"
proof
  fix p
  show "claimed vals ops (held i key (fst ` set ops) docs) p =
    (case after_batch ops docs p of None \<Rightarrow> {} | Some d \<Rightarrow> key ` values_of i d)"
  proof (cases "map_of ops p")
    case None
    then have "p \<notin> fst ` set ops" by (simp add: map_of_eq_None_iff)
    with None show ?thesis by (simp add: claimed_def held_def after_batch_def)
  next
    case (Some d)
    then have "p \<in> fst ` set ops" by (metis map_of_eq_None_iff option.distinct(1))
    with Some assms show ?thesis by (cases d) (simp_all add: claimed_def held_def after_batch_def)
  qed
qed

lemma held_iff: "k \<in> held i key touched docs p \<longleftrightarrow> p \<notin> touched \<and> (\<exists>d. docs p = Some d \<and> k \<in> key ` values_of i d)"
  by (auto simp: held_def split: option.splits)

lemma held_disjoint:
  assumes "inj_on key (\<Union>d. values_of i d)" "unique_in i docs"
  shows "disjoint_owners (held i key touched docs)"
  using assms(2) unfolding disjoint_unique [OF assms(1), symmetric] disjoint_owners_def held_def by (meson empty_iff)

lemma inj_keys: "inj_on text_of (\<Union>d. values_of (EqIndex e) d)" "inj_on num_of (\<Union>d. values_of (RangeIndex r) d)"
  by (auto simp: inj_on_def values_of_def split: option.splits)

lemma eq_owner_is:
  assumes "eq_ok docs e" "unique_in (EqIndex e) docs"
  shows "owner_is (eq_owners touched e) (held (EqIndex e) text_of touched docs)"
  unfolding eq_owners_fold
proof (rule owner_fold [OF _ held_disjoint [OF inj_keys(1) assms(2)]])
  fix k p
  have P: "postings_ok (posted (map_of (eq_byPk e))) (eq_map e)" using assms(1) unfolding eq_ok_def by blast
  have "(k, s) \<in> set (eq_map e) \<longleftrightarrow> map_of (eq_map e) k = Some s" for s
    using P by (simp add: postings_ok_def map_of_eq_Some_iff)
  then have "(\<exists>s. (k, s) \<in> set (eq_map e) \<and> p \<in> set s) \<longleftrightarrow> p \<in> posted (map_of (eq_byPk e)) k"
    using P unfolding postings_ok_def by (metis empty_iff not_Some_eq)
  moreover have "(\<exists>d. docs p = Some d \<and> TextValue k \<in> values_of (EqIndex e) d) \<longleftrightarrow>
      (\<exists>d. docs p = Some d \<and> k \<in> text_of ` values_of (EqIndex e) d)"
    unfolding text_values by (auto simp: values_of_def split: option.splits)
  ultimately show "(k, p) \<in> set (concat (map (\<lambda>(sk, s). map (\<lambda>pk. (sk, pk)) (filter (\<lambda>pk. pk \<notin> touched) s)) (eq_map e))) \<longleftrightarrow>
      k \<in> held (EqIndex e) text_of touched docs p"
    unfolding eq_posted [OF assms(1)] held_iff by auto
qed

lemma range_pairs:
  "(k, p) \<in> set (concat (map (\<lambda>(pk, vals). if pk \<in> touched then [] else map (\<lambda>v. (v, pk)) vals) rows)) \<longleftrightarrow>
    p \<notin> touched \<and> (\<exists>vs. (p, vs) \<in> set rows \<and> k \<in> set vs)"
proof (induction rows)
  case Nil
  then show ?case by simp
next
  case (Cons row rows)
  obtain pk vals where row: "row = (pk, vals)" by (cases row)
  have "(k, p) \<in> set (if pk \<in> touched then [] else map (\<lambda>v. (v, pk)) vals) \<longleftrightarrow> p \<notin> touched \<and> p = pk \<and> k \<in> set vals" by auto
  with Cons show ?case unfolding row by auto
qed

lemma range_owner_is:
  assumes "range_ok docs r" "unique_in (RangeIndex r) docs"
  shows "owner_is (range_owners touched r) (held (RangeIndex r) num_of touched docs)"
  unfolding range_owners_fold
proof (rule owner_fold [OF _ held_disjoint [OF inj_keys(2) assms(2)]])
  fix k p
  have r: "distinct (map fst (rg_byPk r))" "map_of (rg_byPk r) = (\<lambda>pk. Option.bind (docs pk) (range_row r))"
    using assms(1) unfolding range_ok_def by blast+
  have "(p, vs) \<in> set (rg_byPk r) \<longleftrightarrow> (\<exists>d. docs p = Some d \<and> range_row r d = Some vs)" for vs
    unfolding map_of_eq_Some_iff [OF r(1), symmetric] r(2) by (simp add: bind_eq_Some_conv)
  moreover have "(\<exists>vs. range_row r d = Some vs \<and> k \<in> set vs) \<longleftrightarrow> k \<in> set (range_keys r d)" for d
    by (cases "range_keys r d = []") (simp_all add: range_row_def)
  ultimately have "(\<exists>vs. (p, vs) \<in> set (rg_byPk r) \<and> k \<in> set vs) \<longleftrightarrow> (\<exists>d. docs p = Some d \<and> k \<in> set (range_keys r d))"
    by blast
  moreover have "(k, p) \<in> set (concat (map (\<lambda>(pk, vals). if pk \<in> touched then [] else map (\<lambda>v. (v, pk)) vals) (rg_byPk r))) \<longleftrightarrow>
      p \<notin> touched \<and> (\<exists>vs. (p, vs) \<in> set (rg_byPk r) \<and> k \<in> set vs)"
    by (rule range_pairs)
  ultimately show "(k, p) \<in> set (concat (map (\<lambda>(pk, vals). if pk \<in> touched then [] else map (\<lambda>v. (v, pk)) vals) (rg_byPk r))) \<longleftrightarrow>
      k \<in> held (RangeIndex r) num_of touched docs p"
    unfolding held_iff num_values by simp
qed

lemma map_res_unit: "map_res (\<lambda>_. ()) c = Inr () \<longleftrightarrow> (\<exists>o'. c = Inr o')"
  by (cases c) auto

lemma check_batch_spec:
  "indexed docs m \<Longrightarrow> unique_docs m docs \<Longrightarrow> distinct (map fst ops) \<Longrightarrow>
    check_batch ops m = Inr () \<longleftrightarrow> unique_docs m (after_batch ops docs)"
proof (induction ops m rule: check_batch.induct)
  case (1 ops)
  then show ?case by simp
next
  case (2 ops name i m)
  show ?case
  proof (cases "ix_unique (info_of i)")
    case False
    with 2 show ?thesis by simp
  next
    case True
    then have u: "unique_in i docs" "index_ok docs i" using "2.prems" by auto
    let ?c = "case i of
        RangeIndex r \<Rightarrow> map_res (\<lambda>_. ()) (claim_ops (ix_name r) (range_values r) ops (range_owners (fst ` set ops) r))
      | EqIndex e \<Rightarrow> map_res (\<lambda>_. ()) (claim_ops (ix_name e) (eq_values e) ops (eq_owners (fst ` set ops) e))"
    have "?c = Inr () \<longleftrightarrow> unique_in i (after_batch ops docs)"
    proof (cases i)
      case (EqIndex e)
      have ok: "owner_is (eq_owners (fst ` set ops) e) (held i text_of (fst ` set ops) docs)"
        using eq_owner_is u EqIndex by (simp add: index_ok_def)
      have "fst ` set (eq_values e d) = text_of ` values_of i d" for d
        unfolding EqIndex text_values by (auto simp: eq_values_def eq_keys_def Let_def image_image)
      note after = claimed_after [of "eq_values e" text_of i ops docs, OF this]
      have "(\<exists>o'. claim_ops (ix_name e) (eq_values e) ops (eq_owners (fst ` set ops) e) = Inr o') \<longleftrightarrow>
          disjoint_owners (claimed (eq_values e) ops (held i text_of (fst ` set ops) docs))"
        by (rule claim_ops_spec [OF ok "2.prems"(3)]) (simp add: held_def)
      also have "\<dots> \<longleftrightarrow> unique_in i (after_batch ops docs)"
        unfolding after by (rule disjoint_unique) (use inj_keys(1) EqIndex in simp)
      finally show ?thesis unfolding EqIndex any_index.case map_res_unit .
    next
      case (RangeIndex r)
      have ok: "owner_is (range_owners (fst ` set ops) r) (held i num_of (fst ` set ops) docs)"
        using range_owner_is u RangeIndex by (simp add: index_ok_def)
      have "fst ` set (range_values r d) = num_of ` values_of i d" for d
        unfolding RangeIndex num_values by (auto simp: range_values_def range_keys_def image_image)
      note after = claimed_after [of "range_values r" num_of i ops docs, OF this]
      have "(\<exists>o'. claim_ops (ix_name r) (range_values r) ops (range_owners (fst ` set ops) r) = Inr o') \<longleftrightarrow>
          disjoint_owners (claimed (range_values r) ops (held i num_of (fst ` set ops) docs))"
        by (rule claim_ops_spec [OF ok "2.prems"(3)]) (simp add: held_def)
      also have "\<dots> \<longleftrightarrow> unique_in i (after_batch ops docs)"
        unfolding after by (rule disjoint_unique) (use inj_keys(2) RangeIndex in simp)
      finally show ?thesis unfolding RangeIndex any_index.case map_res_unit .
    qed
    with 2 True show ?thesis by (cases ?c) auto
  qed
qed

declare fun_upd_apply [simp]

subsection \<open>Properties\<close>

lemma defs_get: "index_defs m' = index_defs m \<Longrightarrow> map_of m name = Some i \<Longrightarrow>
    \<exists>i'. map_of m' name = Some i' \<and> info_of i' = info_of i \<and> type_of_index i' = type_of_index i"
proof (induction m arbitrary: m')
  case Nil
  then show ?case by simp
next
  case (Cons x m)
  obtain n j where x: "x = (n, j)" by (cases x)
  with Cons.prems(1) obtain j' r where m': "m' = (n, j') # r" "index_defs r = index_defs m" "info_of j' = info_of j" "type_of_index j' = type_of_index j"
    by (cases m') auto
  show ?case using Cons.IH [OF m'(2)] Cons.prems(2) m'(1,3,4) x by (auto split: if_splits)
qed

lemma index_update_spec:
  assumes "indexed docs m"
  shows "\<exists>m1 m2. index_remove pk m = Some m1 \<and> index_add draws pk doc m1 = Some m2 \<and>
    indexed (docs(pk := Some doc)) m2 \<and> index_defs m2 = index_defs m"
proof -
  obtain m1 where m1: "index_remove pk m = Some m1" "indexed (docs(pk := None)) m1" "index_defs m1 = index_defs m"
    using index_remove_spec [OF assms] by blast
  have "(docs(pk := None)) pk = None" by simp
  from index_add_spec [OF m1(2) this, of draws doc] m1(1,3) show ?thesis by (simp del: fun_upd_apply)
qed

text \<open>Rewriting a document (its old entries removed, its new ones added) leaves every secondary index in
  step with the table: an equality lookup then returns, once each, exactly the keys whose document's
  field has that canonical value, among the elements when the field holds an array; an array element,
  a missing field and a sparse index are treated as the index was declared, and no entry of the old
  document survives.\<close>

theorem index_update_findEq:
  assumes "indexed docs m" "map_of m name = Some (EqIndex e)"
  shows "\<exists>m1 m2 pks. index_remove pk m = Some m1 \<and> index_add draws pk doc m1 = Some m2 \<and>
    indexed (docs(pk := Some doc)) m2 \<and> findEq name value m2 = Inr pks \<and> distinct pks \<and>
    set pks = {p. \<exists>d ks. (docs(pk := Some doc)) p = Some d \<and> eq_keys e d = Some ks \<and> scalarKey value \<in> set ks}"
proof -
  obtain m1 m2 where m: "index_remove pk m = Some m1" "index_add draws pk doc m1 = Some m2"
    "indexed (docs(pk := Some doc)) m2" "index_defs m2 = index_defs m"
    using index_update_spec [OF assms(1)] by blast
  obtain i' where i': "map_of m2 name = Some i'" "info_of i' = info_of (EqIndex e)" "type_of_index i' = Equality"
    using defs_get [OF m(4) assms(2)] by (auto simp: type_of_index_def)
  then obtain e' where e': "i' = EqIndex e'" by (cases i') (auto simp: type_of_index_def)
  have same: "ix_field e' = ix_field e" "ix_sparse e' = ix_sparse e"
    using arg_cong [OF i'(2), of ix_field] arg_cong [OF i'(2), of ix_sparse] unfolding e' by simp_all
  have "eq_keys e' = eq_keys e" unfolding eq_keys_def [abs_def] same by (rule refl)
  with findEq_spec [OF m(3), of name e'] i'(1) e' m(1-3) show ?thesis by auto
qed

text \<open>A range lookup after such a rewrite returns exactly the pairs of key and number with the
  number among the field's numeric values and within the bounds, in the order of the number and then
  of the key, cut to the offset and the count and reversed when asked.\<close>

theorem index_update_findRange:
  assumes "indexed docs m" "map_of m name = Some (RangeIndex r)"
  shows "\<exists>m1 m2 es. index_remove pk m = Some m1 \<and> index_add draws pk doc m1 = Some m2 \<and>
    sorted_entries cmpNumber cmpString {(v, p). \<exists>d. (docs(pk := Some doc)) p = Some d \<and> v \<in> set (range_keys r d)} es \<and>
    findRange name o' m2 = Inr (Some (map (\<lambda>(v, p). (p, v)) (range_spec cmpNumber (find_range_options o') es)))"
proof -
  obtain m1 m2 where m: "index_remove pk m = Some m1" "index_add draws pk doc m1 = Some m2"
    "indexed (docs(pk := Some doc)) m2" "index_defs m2 = index_defs m"
    using index_update_spec [OF assms(1)] by blast
  obtain i' where i': "map_of m2 name = Some i'" "info_of i' = info_of (RangeIndex r)" "type_of_index i' = Range"
    using defs_get [OF m(4) assms(2)] by (auto simp: type_of_index_def)
  then obtain r' where r': "i' = RangeIndex r'" by (cases i') (auto simp: type_of_index_def)
  have same: "ix_field r' = ix_field r"
    using arg_cong [OF i'(2), of ix_field] unfolding r' by simp
  have "range_keys r' = range_keys r" unfolding range_keys_def [abs_def] same by (rule refl)
  with findRange_spec [OF m(3), of name r' o'] i'(1) r' m(1,2) show ?thesis by auto
qed

text \<open>On a table that satisfies its unique indexes, the check before a write accepts the write
  exactly when the table still satisfies them after it; rewriting a document with its own value is
  accepted, and array values are compared element by element.\<close>

theorem checkUnique_exact:
  assumes "indexed docs m" "unique_docs m docs"
  shows "\<exists>r. checkUnique pk doc m = Some r \<and> (r = Inr () \<longleftrightarrow> unique_docs m (docs(pk := Some doc)))"
  by (rule checkUnique_spec [OF assms])

text \<open>C25: the check before a batch accepts it exactly when the table after the whole batch, the last
  operation of every key applied, satisfies the unique indexes: values freed by the batch may be
  reused in it, and two keys of the batch may not claim one value.\<close>

theorem checkUniqueBatch_exact:
  assumes "indexed docs m" "unique_docs m docs"
  shows "checkUniqueBatch ops m = Inr () \<longleftrightarrow> unique_docs m (after_batch (rev ops) docs)"
proof -
  have "after_batch (lastOps ops) docs = after_batch (rev ops) docs"
    by (simp add: after_batch_def lastOps_is_last)
  with check_batch_spec [OF assms lastOps_distinct, of ops] show ?thesis by (simp add: checkUniqueBatch_def)
qed

text \<open>A unique index on the field \<^verbatim>\<open>a\<close>, with one document in it.\<close>

definition unique_sample :: index_manager where
  "unique_sample = [(js ''u'', EqIndex \<lparr>ix_name = js ''u'', ix_field = js ''a'', ix_unique = True, ix_sparse = False, eq_map = [], eq_byPk = []\<rparr>),
     (js ''r'', RangeIndex \<lparr>ix_name = js ''r'', ix_field = js ''a'', ix_unique = False, ix_sparse = False, rg_list = empty_list, rg_byPk = []\<rparr>)]"

definition doc_a :: "int \<Rightarrow> json" where "doc_a n = JObj [(js ''a'', JNum n)]"

lemma unique_sample_ok: "indexed Map.empty unique_sample" "unique_docs unique_sample Map.empty"
proof -
  have "unique_sample = map (\<lambda>(n, i). (n, clear_index i)) unique_sample"
    by (simp add: unique_sample_def clear_index_def)
  moreover have "indexed Map.empty (map (\<lambda>(n, i). (n, clear_index i)) m)" for m
    by (induction m) (auto simp: clear_ok)
  ultimately show "indexed Map.empty unique_sample" by metis
  show "unique_docs unique_sample Map.empty" by (simp add: unique_docs_def unique_in_def unique_sample_def)
qed

lemma doc_a_field: "getField (doc_a n) (js ''a'') = Some (JNum n)" "getField (doc_a n) [97] = Some (JNum n)"
  by (simp_all add: getField_def doc_a_def dotted_path_def step_path_def get_prop_def js_def)

theorem index_update_findEq_witness:
  "\<exists>m1 m2. index_remove [65] unique_sample = Some m1 \<and> index_add (\<lambda>n k i. False) [65] (doc_a 3) m1 = Some m2 \<and>
     findEq (js ''u'') (Some (JNum 3)) m2 = Inr [[65]]"
proof -
  let ?e = "\<lparr>ix_name = js ''u'', ix_field = js ''a'', ix_unique = True, ix_sparse = False, eq_map = [], eq_byPk = []\<rparr>"
  have get: "map_of unique_sample (js ''u'') = Some (EqIndex ?e)" by (simp add: unique_sample_def)
  obtain m1 m2 pks where m: "index_remove [65] unique_sample = Some m1" "index_add (\<lambda>n k i. False) [65] (doc_a 3) m1 = Some m2"
    "findEq (js ''u'') (Some (JNum 3)) m2 = Inr pks" "distinct pks"
    "set pks = {p. \<exists>d ks. (Map.empty([65] := Some (doc_a 3))) p = Some d \<and> eq_keys ?e d = Some ks \<and> scalarKey (Some (JNum 3)) \<in> set ks}"
    using index_update_findEq [OF unique_sample_ok(1) get, of "[65]" "\<lambda>n k i. False" "doc_a 3" "Some (JNum 3)"] by blast
  have "set pks = {[65]}" unfolding m(5) by (auto simp: eq_keys_def doc_a_field flatten_def split: if_splits)
  then have "pks = [[65]]" using m(4) by (cases pks; cases "tl pks") auto
  with m show ?thesis by blast
qed

theorem index_update_findRange_witness:
  "\<exists>m1 m2. index_remove [65] unique_sample = Some m1 \<and> index_add (\<lambda>n k i. False) [65] (doc_a 3) m1 = Some m2 \<and>
     findRange (js ''r'') \<lparr>fo_min = Some 1, fo_max = Some 3, fo_minExclusive = False, fo_maxExclusive = False, fo_offset = None, fo_count = None, fo_reverse = False\<rparr> m2 =
       Inr (Some [([65], 3)])"
proof -
  let ?r = "\<lparr>ix_name = js ''r'', ix_field = js ''a'', ix_unique = False, ix_sparse = False, rg_list = empty_list, rg_byPk = []\<rparr>"
  let ?o = "\<lparr>fo_min = Some 1, fo_max = Some 3, fo_minExclusive = False, fo_maxExclusive = False, fo_offset = None, fo_count = None, fo_reverse = False\<rparr>"
  have get: "map_of unique_sample (js ''r'') = Some (RangeIndex ?r)" by (simp add: unique_sample_def js_def)
  obtain m1 m2 es where m: "index_remove [65] unique_sample = Some m1" "index_add (\<lambda>n k i. False) [65] (doc_a 3) m1 = Some m2"
    "sorted_entries cmpNumber cmpString {(v, p). \<exists>d. (Map.empty([65] := Some (doc_a 3))) p = Some d \<and> v \<in> set (range_keys ?r d)} es"
    "findRange (js ''r'') ?o m2 = Inr (Some (map (\<lambda>(v, p). (p, v)) (range_spec cmpNumber (find_range_options ?o) es)))"
    using index_update_findRange [OF unique_sample_ok(1) get, of "[65]" "\<lambda>n k i. False" "doc_a 3" ?o] by blast
  have "{(v, p :: js_string). \<exists>d. (Map.empty([65] := Some (doc_a 3))) p = Some d \<and> v \<in> set (range_keys ?r d)} = set [(3, [65])]"
    by (auto simp: range_keys_def doc_a_field flatten_def numbers_of_iff split: if_splits)
  then have "es = [(3, [65])]"
    using m(3) number_str.sorted_entries_unique [of _ es "[(3, [65])]"] by (simp add: sorted_entries_def)
  with m show ?thesis by (simp add: range_spec_def find_range_options_def below_lower_def above_upper_def cmpNumber_def)
qed

theorem checkUnique_exact_witness:
  "checkUnique [65] (doc_a 3) unique_sample = Some (Inr ()) \<and> unique_docs unique_sample (Map.empty([65] := Some (doc_a 3)))"
proof -
  have "checkUnique [65] (doc_a 3) unique_sample = Some (Inr ())"
    by (simp add: unique_sample_def flatten_def Let_def info_of_def idx_info.defs doc_a_field)
  with checkUnique_exact [OF unique_sample_ok, of "[65]" "doc_a 3"] show ?thesis by auto
qed

theorem checkUniqueBatch_exact_witness:
  "checkUniqueBatch [([65], Some (doc_a 3)), ([66], Some (doc_a 3)), ([65], None)] unique_sample = Inr () \<and>
     unique_docs unique_sample (after_batch [([65], None), ([66], Some (doc_a 3)), ([65], Some (doc_a 3))] Map.empty)"
proof -
  have "checkUniqueBatch [([65], Some (doc_a 3)), ([66], Some (doc_a 3)), ([65], None)] unique_sample = Inr ()"
    by (simp add: checkUniqueBatch_def lastOps_def unique_sample_def info_of_def idx_info.defs eq_owners_def eq_values_def doc_a_field flatten_def Let_def js_def)
  with checkUniqueBatch_exact [OF unique_sample_ok, of "[([65], Some (doc_a 3)), ([66], Some (doc_a 3)), ([65], None)]"]
  show ?thesis by auto
qed

end
