(* ===== verification/Wal.thy ===== *)
theory Wal
  imports Prelude
begin

section \<open>The write-ahead log (\<^verbatim>\<open>wal.ts\<close>)\<close>

text \<open>
  The log is an asynchronous object: calls queue frames, a scheduled callback hands the queue to one
  flush at a time, and the flush advances whenever a system call completes. The code between two
  \<^verbatim>\<open>await\<close>s is a function on the state \<open>wal\<close>; \<open>wal_step\<close> interleaves these functions with the
  completions of the system calls, and carries the file and the settled promises along.
  A promise is a ticket given by the caller.
\<close>

datatype fsync_policy = Always | EverySec | NoSync

datatype wal_error = WalClosed | WalSealed

record pending_write =
  pw_buf :: buffer
  pw_ticket :: nat

record wal_flight =
  fl_batch :: "pending_write list"
  fl_bufs :: "buffer list"
  fl_off :: nat
  fl_syncing :: bool

record wal =
  wl_policy :: fsync_policy
  wl_open :: bool
  wl_size :: nat
  wl_nextOffset :: nat
  wl_queue :: "pending_write list"
  wl_queuedBytes :: nat
  wl_flushing :: bool
  wl_inflight :: bool
  wl_flight :: "wal_flight option"
  wl_scheduled :: bool
  wl_sealed :: bool
  wl_timer :: bool
  wl_closed :: bool
  wl_written :: nat
  wl_fsyncs :: nat

type_synonym settlement = "(nat \<times> bool) list"

definition new_wal :: "fsync_policy \<Rightarrow> wal" where
  "new_wal policy = \<lparr>wl_policy = policy, wl_open = False, wl_size = 0, wl_nextOffset = 0, wl_queue = [], wl_queuedBytes = 0,
     wl_flushing = False, wl_inflight = False, wl_flight = None, wl_scheduled = False, wl_sealed = False, wl_timer = False,
     wl_closed = False, wl_written = 0, wl_fsyncs = 0\<rparr>"

definition wal_open :: "nat \<Rightarrow> wal \<Rightarrow> wal" where
  "wal_open st w =
     (if wl_open w then w
      else w\<lparr>wl_open := True, wl_size := st, wl_nextOffset := st, wl_timer := (wl_timer w \<or> wl_policy w = EverySec)\<rparr>)"

definition wal_seal :: "wal \<Rightarrow> wal" where
  "wal_seal w = w\<lparr>wl_sealed := True\<rparr>"

definition appendLoc :: "nat \<Rightarrow> buffer \<Rightarrow> wal \<Rightarrow> (wal_error, nat) res \<times> wal" where
  "appendLoc t frame w =
     (if wl_closed w then (Inl WalClosed, w)
      else if wl_sealed w then (Inl WalSealed, w)
      else (Inr (wl_nextOffset w),
            w\<lparr>wl_nextOffset := wl_nextOffset w + length frame,
              wl_queue := wl_queue w @ [\<lparr>pw_buf = frame, pw_ticket = t\<rparr>],
              wl_queuedBytes := wl_queuedBytes w + length frame,
              wl_scheduled := (wl_scheduled w \<or> \<not> wl_flushing w)\<rparr>))"

text \<open>The \<^verbatim>\<open>finally\<close> block, with the promises of the batch settled before it.\<close>

definition settle :: "bool \<Rightarrow> pending_write list \<Rightarrow> settlement" where
  "settle ok batch = map (\<lambda>b. (pw_ticket b, ok)) batch"

definition finish_flush :: "wal \<Rightarrow> wal" where
  "finish_flush w = w\<lparr>wl_flushing := False, wl_inflight := False, wl_flight := None,
     wl_scheduled := (wl_scheduled w \<or> (wl_queue w \<noteq> [] \<and> \<not> wl_closed w))\<rparr>"

text \<open>\<^verbatim>\<open>flushBatch\<close> up to its first \<^verbatim>\<open>await\<close>. Without a file handle the body fails before it, inside the
  call: the assignment to \<^verbatim>\<open>inflight\<close> then comes after the \<^verbatim>\<open>finally\<close> block.\<close>

definition flushBatch :: "wal \<Rightarrow> settlement \<times> wal" where
  "flushBatch w =
     (let w = w\<lparr>wl_scheduled := False\<rparr>; batch = wl_queue w
      in if wl_flushing w then ([], w)
         else if batch = [] then ([], w)
         else (let w = w\<lparr>wl_flushing := True, wl_queue := [], wl_queuedBytes := 0\<rparr>
               in if \<not> wl_open w then (settle False batch, (finish_flush w)\<lparr>wl_inflight := True\<rparr>)
                  else ([], w\<lparr>wl_inflight := True,
                              wl_flight := Some \<lparr>fl_batch = batch, fl_bufs = map pw_buf batch, fl_off = 0, fl_syncing = False\<rparr>\<rparr>)))"

definition toWrite :: "nat \<Rightarrow> buffer list \<Rightarrow> buffer list" where
  "toWrite off bufs = (if off > 0 then drop off (hd bufs) # tl bufs else bufs)"

fun consume :: "nat \<Rightarrow> nat \<Rightarrow> buffer list \<Rightarrow> buffer list \<times> nat" where
  "consume rem off [] = ([], off)"
| "consume rem off (b # bufs) =
     (if rem = 0 then (b # bufs, off)
      else (let left = length b - off
            in if rem < left then (b # bufs, off + rem) else consume (rem - left) 0 bufs))"

text \<open>The continuations of the flush: after \<^verbatim>\<open>writev\<close> returned \<open>n\<close>, after a system call failed, after the
  \<^verbatim>\<open>fsync\<close> of the policy \<^verbatim>\<open>always\<close>.\<close>

definition flush_failed :: "wal_flight \<Rightarrow> wal \<Rightarrow> settlement \<times> wal" where
  "flush_failed f w = (settle False (fl_batch f), finish_flush w)"

definition flush_synced :: "wal_flight \<Rightarrow> wal \<Rightarrow> settlement \<times> wal" where
  "flush_synced f w = (settle True (fl_batch f), finish_flush (w\<lparr>wl_fsyncs := wl_fsyncs w + 1\<rparr>))"

definition writev_returned :: "nat \<Rightarrow> wal_flight \<Rightarrow> wal \<Rightarrow> settlement \<times> wal" where
  "writev_returned n f w =
     (if n = 0 then flush_failed f w
      else (let w = w\<lparr>wl_size := wl_size w + n, wl_written := wl_written w + n\<rparr>;
                (bufs, off) = consume n (fl_off f) (fl_bufs f)
            in if bufs \<noteq> [] then ([], w\<lparr>wl_flight := Some (f\<lparr>fl_bufs := bufs, fl_off := off\<rparr>)\<rparr>)
               else if wl_policy w = Always then ([], w\<lparr>wl_flight := Some (f\<lparr>fl_bufs := [], fl_off := off, fl_syncing := True\<rparr>)\<rparr>)
               else (settle True (fl_batch f), finish_flush w)))"

definition refreshSize :: "nat \<Rightarrow> wal \<Rightarrow> wal" where
  "refreshSize st w = (if \<not> wl_open w then w else w\<lparr>wl_size := st, wl_nextOffset := st\<rparr>)"

definition wal_sync :: "wal \<Rightarrow> wal" where
  "wal_sync w = (if wl_open w then w\<lparr>wl_fsyncs := wl_fsyncs w + 1\<rparr> else w)"

text \<open>The loop condition of \<^verbatim>\<open>flush\<close>, and the parts of \<^verbatim>\<open>close\<close> before and after its waiting.\<close>

definition flush_waits :: "wal \<Rightarrow> bool" where
  "flush_waits w \<longleftrightarrow> wl_queue w \<noteq> [] \<or> wl_inflight w"

definition close_start :: "wal \<Rightarrow> wal" where
  "close_start w = (if wl_closed w then w else w\<lparr>wl_closed := True, wl_timer := False\<rparr>)"

definition close_end :: "wal \<Rightarrow> wal" where
  "close_end w = (wal_sync w)\<lparr>wl_open := False\<rparr>"

subsection \<open>The log, its file and its callers\<close>

text \<open>\<open>wd_log\<close> records what each accepted call of \<open>appendLoc\<close> was told: offset, frame and promise;
  \<open>wd_synced\<close> is the length of the file when the last \<^verbatim>\<open>fsync\<close> of the flush completed.\<close>

record wal_world =
  wd_wal :: wal
  wd_disk :: buffer
  wd_settled :: "nat \<rightharpoonup> bool"
  wd_log :: "(nat \<times> buffer \<times> nat) list"
  wd_synced :: nat

definition settled_by :: "settlement \<times> wal \<Rightarrow> wal_world \<Rightarrow> wal_world" where
  "settled_by r d = d\<lparr>wd_wal := snd r, wd_settled := wd_settled d ++ map_of (fst r)\<rparr>"

datatype wal_event =
    Appended nat buffer
  | Refused nat wal_error
  | Tick
  | Flushed
  | Written nat
  | WriteFailed
  | Synced
  | SyncFailed
  | TimerSync
  | Sealed
  | CloseStart
  | CloseEnd

inductive wal_step :: "wal_event \<Rightarrow> wal_world \<Rightarrow> wal_world \<Rightarrow> bool" where
  Appended: "appendLoc t frame (wd_wal d) = (Inr o', w) \<Longrightarrow> frame \<noteq> [] \<Longrightarrow> t \<notin> (snd \<circ> snd) ` set (wd_log d) \<Longrightarrow>
     wal_step (Appended t frame) d (d\<lparr>wd_wal := w, wd_log := wd_log d @ [(o', frame, t)]\<rparr>)"
| Refused: "appendLoc t frame (wd_wal d) = (Inl e, w) \<Longrightarrow> wal_step (Refused t e) d (d\<lparr>wd_wal := w\<rparr>)"
| Tick: "wl_scheduled (wd_wal d) \<Longrightarrow> wal_step Tick d (settled_by (flushBatch (wd_wal d)) d)"
| Flushed: "flush_waits (wd_wal d) \<Longrightarrow> wal_step Flushed d (settled_by (flushBatch (wd_wal d)) d)"
| Written: "wl_flight (wd_wal d) = Some f \<Longrightarrow> \<not> fl_syncing f \<Longrightarrow> n \<le> length (concat (toWrite (fl_off f) (fl_bufs f))) \<Longrightarrow>
     wal_step (Written n) d
       (settled_by (writev_returned n f (wd_wal d)) d\<lparr>wd_disk := wd_disk d @ take n (concat (toWrite (fl_off f) (fl_bufs f)))\<rparr>)"
| WriteFailed: "wl_flight (wd_wal d) = Some f \<Longrightarrow> \<not> fl_syncing f \<Longrightarrow>
     wal_step WriteFailed d (settled_by (flush_failed f (wd_wal d)) d)"
| Synced: "wl_flight (wd_wal d) = Some f \<Longrightarrow> fl_syncing f \<Longrightarrow>
     wal_step Synced d ((settled_by (flush_synced f (wd_wal d)) d)\<lparr>wd_synced := length (wd_disk d)\<rparr>)"
| SyncFailed: "wl_flight (wd_wal d) = Some f \<Longrightarrow> fl_syncing f \<Longrightarrow>
     wal_step SyncFailed d (settled_by (flush_failed f (wd_wal d)) d)"
| TimerSync: "wl_timer (wd_wal d) \<Longrightarrow> wal_step TimerSync d (d\<lparr>wd_wal := wal_sync (wd_wal d)\<rparr>)"
| Sealed: "wal_step Sealed d (d\<lparr>wd_wal := wal_seal (wd_wal d)\<rparr>)"
| CloseStart: "wal_step CloseStart d (d\<lparr>wd_wal := close_start (wd_wal d)\<rparr>)"
| CloseEnd: "wl_closed (wd_wal d) \<Longrightarrow> \<not> flush_waits (wd_wal d) \<Longrightarrow> wal_step CloseEnd d (d\<lparr>wd_wal := close_end (wd_wal d)\<rparr>)"

definition write_error :: "wal_event \<Rightarrow> bool" where
  "write_error e \<longleftrightarrow> e = WriteFailed \<or> e = Written 0"

inductive wal_run :: "wal_event list \<Rightarrow> wal_world \<Rightarrow> wal_world \<Rightarrow> bool" where
  run_none: "wal_run [] d d"
| run_step: "wal_run es d d' \<Longrightarrow> wal_step e d' d'' \<Longrightarrow> wal_run (es @ [e]) d d''"

definition opened :: "fsync_policy \<Rightarrow> buffer \<Rightarrow> wal_world" where
  "opened policy base = \<lparr>wd_wal = wal_open (length base) (new_wal policy), wd_disk = base, wd_settled = Map.empty, wd_log = [], wd_synced = 0\<rparr>"

text \<open>The step relation as a function, for evaluating runs.\<close>

fun wal_exec :: "wal_event \<Rightarrow> wal_world \<Rightarrow> wal_world option" where
  "wal_exec (Appended t frame) d =
     (case appendLoc t frame (wd_wal d) of
        (Inr o', w) \<Rightarrow> if frame \<noteq> [] \<and> t \<notin> (snd \<circ> snd) ` set (wd_log d) then Some (d\<lparr>wd_wal := w, wd_log := wd_log d @ [(o', frame, t)]\<rparr>) else None
      | (Inl e, w) \<Rightarrow> None)"
| "wal_exec (Refused t e) d = None"
| "wal_exec Tick d = (if wl_scheduled (wd_wal d) then Some (settled_by (flushBatch (wd_wal d)) d) else None)"
| "wal_exec Flushed d = (if flush_waits (wd_wal d) then Some (settled_by (flushBatch (wd_wal d)) d) else None)"
| "wal_exec (Written n) d =
     (case wl_flight (wd_wal d) of
        Some f \<Rightarrow> if \<not> fl_syncing f \<and> n \<le> length (concat (toWrite (fl_off f) (fl_bufs f)))
                  then Some (settled_by (writev_returned n f (wd_wal d)) d\<lparr>wd_disk := wd_disk d @ take n (concat (toWrite (fl_off f) (fl_bufs f)))\<rparr>) else None
      | None \<Rightarrow> None)"
| "wal_exec WriteFailed d =
     (case wl_flight (wd_wal d) of Some f \<Rightarrow> if \<not> fl_syncing f then Some (settled_by (flush_failed f (wd_wal d)) d) else None | None \<Rightarrow> None)"
| "wal_exec Synced d =
     (case wl_flight (wd_wal d) of Some f \<Rightarrow> if fl_syncing f then Some ((settled_by (flush_synced f (wd_wal d)) d)\<lparr>wd_synced := length (wd_disk d)\<rparr>) else None | None \<Rightarrow> None)"
| "wal_exec SyncFailed d =
     (case wl_flight (wd_wal d) of Some f \<Rightarrow> if fl_syncing f then Some (settled_by (flush_failed f (wd_wal d)) d) else None | None \<Rightarrow> None)"
| "wal_exec TimerSync d = (if wl_timer (wd_wal d) then Some (d\<lparr>wd_wal := wal_sync (wd_wal d)\<rparr>) else None)"
| "wal_exec Sealed d = Some (d\<lparr>wd_wal := wal_seal (wd_wal d)\<rparr>)"
| "wal_exec CloseStart d = Some (d\<lparr>wd_wal := close_start (wd_wal d)\<rparr>)"
| "wal_exec CloseEnd d = (if wl_closed (wd_wal d) \<and> \<not> flush_waits (wd_wal d) then Some (d\<lparr>wd_wal := close_end (wd_wal d)\<rparr>) else None)"

fun wal_execs :: "wal_event list \<Rightarrow> wal_world \<Rightarrow> wal_world option" where
  "wal_execs [] d = Some d"
| "wal_execs (e # es) d = Option.bind (wal_exec e d) (wal_execs es)"

lemma wal_exec_step: "wal_exec e d = Some d' \<Longrightarrow> wal_step e d d'"
  by (cases e) (auto intro: wal_step.intros simp del: o_apply split: prod.splits sum.splits if_splits option.splits)

lemma wal_run_cons: "wal_run es d' d'' \<Longrightarrow> wal_step e d d' \<Longrightarrow> wal_run (e # es) d d''"
proof (induction rule: wal_run.induct)
  case (run_none d')
  from wal_run.run_step [OF wal_run.run_none run_none] show ?case by simp
next
  case (run_step es d' e' d1 d2)
  then show ?case using wal_run.run_step [of "e # es"] by simp
qed

lemma wal_execs_run: "wal_execs es d = Some d' \<Longrightarrow> wal_run es d d'"
  by (induction es arbitrary: d) (auto simp: bind_eq_Some_conv intro: wal_run.run_none wal_run_cons wal_exec_step)

end
