(* ===== verification/WalProofs.thy ===== *)
theory WalProofs
  imports Wal
begin

section \<open>The write-ahead log: offsets, durability, draining\<close>

text \<open>
  \<open>wal_shape\<close> ties the flags of the log to the flush in flight and holds in every run. \<open>wal_ok\<close> adds,
  for runs without a failed write, that the file is the start of what was appended, that the
  offsets handed out are the positions of the frames in it, and which promises are settled.
\<close>

subsection \<open>Consuming the buffers of a short write\<close>

definition cursor_ok :: "nat \<Rightarrow> buffer list \<Rightarrow> bool" where
  "cursor_ok off bufs \<longleftrightarrow> (case bufs of [] \<Rightarrow> off = 0 | b # _ \<Rightarrow> off < length b)"

lemma toWrite_concat: "cursor_ok off bufs \<Longrightarrow> concat (toWrite off bufs) = drop off (concat bufs)"
  by (cases bufs) (auto simp: toWrite_def cursor_ok_def)

lemma consume_spec:
  "cursor_ok off bufs \<Longrightarrow> [] \<notin> set bufs \<Longrightarrow> rem \<le> length (drop off (concat bufs)) \<Longrightarrow> consume rem off bufs = (bufs', off') \<Longrightarrow>
    cursor_ok off' bufs' \<and> set bufs' \<subseteq> set bufs \<and> drop off' (concat bufs') = drop (off + rem) (concat bufs)"
proof (induction rem off bufs arbitrary: bufs' off' rule: consume.induct)
  case (1 rem off)
  then show ?case by simp
next
  case (2 rem off b bufs)
  have off: "off < length b" and ne: "[] \<notin> set bufs" using "2.prems"(1,2) by (auto simp: cursor_ok_def)
  show ?case
  proof (cases "rem = 0 \<or> rem < length b - off")
    case True
    with "2.prems"(4) have "bufs' = b # bufs" "off' = off + rem" "off + rem < length b"
      using off by (auto simp: Let_def split: if_splits)
    then show ?thesis by (auto simp: cursor_ok_def)
  next
    case False
    then have r: "consume (rem - (length b - off)) 0 bufs = (bufs', off')" using "2.prems"(4) by (auto simp: Let_def)
    have c: "cursor_ok 0 bufs" using ne by (cases bufs) (auto simp: cursor_ok_def)
    have "rem - (length b - off) \<le> length (drop 0 (concat bufs))" using "2.prems"(3) off by auto
    from "2.IH" [OF _ refl _ c ne this r] False show ?thesis using off by (auto simp: add.commute)
  qed
qed

subsection \<open>Shape\<close>

definition flight_ok :: "wal_flight \<Rightarrow> bool" where
  "flight_ok f \<longleftrightarrow> fl_batch f \<noteq> [] \<and> [] \<notin> set (fl_bufs f) \<and> cursor_ok (fl_off f) (fl_bufs f) \<and> (fl_syncing f \<longleftrightarrow> fl_bufs f = [])"

definition wal_shape :: "wal \<Rightarrow> bool" where
  "wal_shape w \<longleftrightarrow>
     wl_flushing w = (wl_flight w \<noteq> None) \<and> wl_inflight w = (wl_flight w \<noteq> None) \<and>
     (\<forall>f. wl_flight w = Some f \<longrightarrow> flight_ok f) \<and>
     (\<forall>p\<in>set (wl_queue w). pw_buf p \<noteq> []) \<and>
     wl_queuedBytes w = length (concat (map pw_buf (wl_queue w))) \<and>
     (wl_open w \<or> (wl_closed w \<and> \<not> flush_waits w)) \<and>
     (wl_queue w \<noteq> [] \<and> \<not> wl_flushing w \<and> \<not> wl_closed w \<longrightarrow> wl_scheduled w)"

lemma shape_opened: "wal_shape (wd_wal (opened policy base))"
  by (simp add: opened_def wal_open_def new_wal_def wal_shape_def flush_waits_def)

lemma shape_finish:
  assumes "wal_shape w" "wl_flight w = Some f"
  shows "wal_shape (finish_flush w)" "wal_shape (finish_flush (w\<lparr>wl_fsyncs := n\<rparr>))"
    "wal_shape (finish_flush (w\<lparr>wl_size := i, wl_written := j\<rparr>))"
  using assms by (auto simp: wal_shape_def finish_flush_def flush_waits_def)

lemma shape_flushBatch: "wal_shape w \<Longrightarrow> wal_shape (snd (flushBatch w))"
proof -
  assume s: "wal_shape w"
  show ?thesis
  proof (cases "wl_flushing w \<or> wl_queue w = []")
    case True
    then have "snd (flushBatch w) = w\<lparr>wl_scheduled := False\<rparr>" by (auto simp: flushBatch_def Let_def)
    with s True show ?thesis by (auto simp: wal_shape_def flush_waits_def)
  next
    case False
    with s have o: "wl_open w" by (auto simp: wal_shape_def flush_waits_def)
    have "cursor_ok 0 (map pw_buf (wl_queue w))" using s False
      by (cases "wl_queue w") (auto simp: wal_shape_def cursor_ok_def)
    with s False o show ?thesis by (auto simp: flushBatch_def Let_def wal_shape_def flight_ok_def flush_waits_def)
  qed
qed

lemma writev_returned_cases:
  assumes "flight_ok f" "\<not> fl_syncing f" "n \<le> length (concat (toWrite (fl_off f) (fl_bufs f)))" "n \<noteq> 0"
  obtains bufs off where "cursor_ok off bufs" "[] \<notin> set bufs"
    "concat (toWrite off bufs) = drop n (concat (toWrite (fl_off f) (fl_bufs f)))"
    "writev_returned n f w =
      (let w = w\<lparr>wl_size := wl_size w + n, wl_written := wl_written w + n\<rparr>
       in if bufs \<noteq> [] then ([], w\<lparr>wl_flight := Some (f\<lparr>fl_bufs := bufs, fl_off := off\<rparr>)\<rparr>)
          else if wl_policy w = Always then ([], w\<lparr>wl_flight := Some (f\<lparr>fl_bufs := [], fl_off := off, fl_syncing := True\<rparr>)\<rparr>)
          else (settle True (fl_batch f), finish_flush w))"
proof -
  obtain bufs off where c: "consume n (fl_off f) (fl_bufs f) = (bufs, off)" by (cases "consume n (fl_off f) (fl_bufs f)")
  have f: "cursor_ok (fl_off f) (fl_bufs f)" "[] \<notin> set (fl_bufs f)" using assms(1) by (auto simp: flight_ok_def)
  have n: "n \<le> length (drop (fl_off f) (concat (fl_bufs f)))" using assms(3) toWrite_concat [OF f(1)] by simp
  note s = consume_spec [OF f n c]
  show thesis
  proof
    show "cursor_ok off bufs" "[] \<notin> set bufs" using s f(2) by auto
    show "concat (toWrite off bufs) = drop n (concat (toWrite (fl_off f) (fl_bufs f)))"
      using s toWrite_concat f(1) by (simp add: add.commute)
    show "writev_returned n f w =
      (let w = w\<lparr>wl_size := wl_size w + n, wl_written := wl_written w + n\<rparr>
       in if bufs \<noteq> [] then ([], w\<lparr>wl_flight := Some (f\<lparr>fl_bufs := bufs, fl_off := off\<rparr>)\<rparr>)
          else if wl_policy w = Always then ([], w\<lparr>wl_flight := Some (f\<lparr>fl_bufs := [], fl_off := off, fl_syncing := True\<rparr>)\<rparr>)
          else (settle True (fl_batch f), finish_flush w))"
      using assms(4) c by (simp add: writev_returned_def Let_def)
  qed
qed

lemma shape_writev:
  assumes "wal_shape w" "wl_flight w = Some f" "\<not> fl_syncing f" "n \<le> length (concat (toWrite (fl_off f) (fl_bufs f)))"
  shows "wal_shape (snd (writev_returned n f w))"
proof (cases "n = 0")
  case True
  then show ?thesis using shape_finish [OF assms(1,2)] by (simp add: writev_returned_def flush_failed_def)
next
  case False
  have fo: "flight_ok f" using assms(1,2) by (simp add: wal_shape_def)
  from writev_returned_cases [OF fo assms(3,4) False, where w = w] obtain bufs off where b:
    "cursor_ok off bufs" "[] \<notin> set bufs"
    "writev_returned n f w =
      (let w = w\<lparr>wl_size := wl_size w + n, wl_written := wl_written w + n\<rparr>
       in if bufs \<noteq> [] then ([], w\<lparr>wl_flight := Some (f\<lparr>fl_bufs := bufs, fl_off := off\<rparr>)\<rparr>)
          else if wl_policy w = Always then ([], w\<lparr>wl_flight := Some (f\<lparr>fl_bufs := [], fl_off := off, fl_syncing := True\<rparr>)\<rparr>)
          else (settle True (fl_batch f), finish_flush w))" by metis
  have "fl_batch f \<noteq> []" using fo by (simp add: flight_ok_def)
  note w = assms(1,2) this b(1,2)
  show ?thesis
  proof (cases "bufs \<noteq> [] \<or> wl_policy w = Always")
    case True
    with w assms(3) show ?thesis unfolding b(3)
      by (cases "bufs = []") (auto simp: Let_def wal_shape_def flight_ok_def flush_waits_def)
  next
    case False
    then show ?thesis unfolding b(3) using shape_finish(3) [OF assms(1,2)] by (simp add: Let_def)
  qed
qed

lemma shape_append:
  assumes "wal_shape w" "appendLoc t frame w = (Inr o', w')" "frame \<noteq> []"
  shows "wal_shape w'"
proof -
  have c: "\<not> wl_closed w" and w': "w' = w\<lparr>wl_nextOffset := wl_nextOffset w + length frame,
      wl_queue := wl_queue w @ [\<lparr>pw_buf = frame, pw_ticket = t\<rparr>], wl_queuedBytes := wl_queuedBytes w + length frame,
      wl_scheduled := (wl_scheduled w \<or> \<not> wl_flushing w)\<rparr>"
    using assms(2) by (auto simp: appendLoc_def split: if_splits)
  show ?thesis using assms(1,3) c unfolding w' by (simp add: wal_shape_def flush_waits_def)
qed

lemma refused_same: "appendLoc t frame w = (Inl e, w') \<Longrightarrow> w' = w"
  by (simp add: appendLoc_def split: if_splits)

lemma shape_step: "wal_step e d d' \<Longrightarrow> wal_shape (wd_wal d) \<Longrightarrow> wal_shape (wd_wal d')"
proof (induction rule: wal_step.induct)
  case (Appended t frame d o' w)
  then show ?case using shape_append by simp
next
  case (Refused t frame d e w)
  then show ?case using refused_same [OF Refused(1)] by simp
next
  case (Written d f n)
  then show ?case using shape_writev by (simp add: settled_by_def)
next
  case (WriteFailed d f)
  then show ?case using shape_finish(1) by (simp add: settled_by_def flush_failed_def)
next
  case (Synced d f)
  then show ?case using shape_finish(2) by (simp add: settled_by_def flush_synced_def)
next
  case (SyncFailed d f)
  then show ?case using shape_finish(1) by (simp add: settled_by_def flush_failed_def)
next
  case (Tick d)
  then show ?case using shape_flushBatch by (simp add: settled_by_def)
next
  case (Flushed d)
  then show ?case using shape_flushBatch by (simp add: settled_by_def)
next
  case (TimerSync d)
  then show ?case by (auto simp: wal_shape_def flush_waits_def wal_sync_def)
next
  case (Sealed d)
  then show ?case by (auto simp: wal_shape_def flush_waits_def wal_seal_def)
next
  case (CloseStart d)
  then show ?case by (auto simp: wal_shape_def flush_waits_def close_start_def)
next
  case (CloseEnd d)
  then show ?case by (simp add: wal_shape_def flush_waits_def wal_sync_def close_end_def)
qed

lemma run_shape: "wal_run es d d' \<Longrightarrow> wal_shape (wd_wal d) \<Longrightarrow> wal_shape (wd_wal d')"
  by (induction rule: wal_run.induct) (auto intro: shape_step)

subsection \<open>Offsets\<close>

fun offsets_from :: "nat \<Rightarrow> (nat \<times> buffer \<times> nat) list \<Rightarrow> bool" where
  "offsets_from n [] \<longleftrightarrow> True"
| "offsets_from n ((o', frame, t) # l) \<longleftrightarrow> o' = n \<and> offsets_from (n + length frame) l"

definition frames :: "(nat \<times> buffer \<times> nat) list \<Rightarrow> buffer" where
  "frames l = concat (map (\<lambda>e. fst (snd e)) l)"

definition tickets :: "(nat \<times> buffer \<times> nat) list \<Rightarrow> nat set" where
  "tickets l = (snd \<circ> snd) ` set l"

lemma frames_simps [simp]: "frames [] = []" "frames (e # l) = fst (snd e) @ frames l" "frames (l @ l') = frames l @ frames l'"
  by (simp_all add: frames_def)

lemma tickets_simps [simp]: "tickets [] = {}" "tickets (e # l) = insert (snd (snd e)) (tickets l)" "tickets (l @ l') = tickets l \<union> tickets l'"
  by (simp_all add: tickets_def image_Un)

lemma offsets_from_append [simp]:
  "offsets_from n (l @ l') \<longleftrightarrow> offsets_from n l \<and> offsets_from (n + length (frames l)) l'"
  by (induction n l rule: offsets_from.induct) (auto simp: add.assoc)

lemma offsets_read:
  "offsets_from n l \<Longrightarrow> (o', frame, t) \<in> set l \<Longrightarrow> length base = n \<Longrightarrow>
    take (length frame) (drop o' (base @ frames l @ rest)) = frame \<and> o' + length frame \<le> n + length (frames l)"
proof -
  assume a: "offsets_from n l" "(o', frame, t) \<in> set l" "length base = n"
  then obtain l1 l2 where l: "l = l1 @ (o', frame, t) # l2" by (meson split_list)
  with a(1) have "o' = length (base @ frames l1)" using a(3) by simp
  then show ?thesis unfolding l using a(3) by simp
qed

definition entries_of :: "pending_write list \<Rightarrow> (buffer \<times> nat) list" where
  "entries_of ps = map (\<lambda>p. (pw_buf p, pw_ticket p)) ps"

definition batch_of :: "wal \<Rightarrow> pending_write list" where
  "batch_of w = (case wl_flight w of None \<Rightarrow> [] | Some f \<Rightarrow> fl_batch f)"

definition unwritten :: "wal \<Rightarrow> buffer" where
  "unwritten w = (case wl_flight w of None \<Rightarrow> [] | Some f \<Rightarrow> concat (toWrite (fl_off f) (fl_bufs f)))"

definition log_ok :: "nat \<Rightarrow> nat \<Rightarrow> (nat \<times> buffer \<times> nat) list \<Rightarrow> bool" where
  "log_ok n next' l \<longleftrightarrow> offsets_from n l \<and> next' = n + length (frames l) \<and> distinct (map (snd \<circ> snd) l)"

lemma log_append: "log_ok n next' l \<Longrightarrow> t \<notin> (snd \<circ> snd) ` set l \<Longrightarrow> log_ok n (next' + length frame) (l @ [(next', frame, t)])"
  by (simp add: log_ok_def)

text \<open>The accepted frames fall into those settled, those of the flush in flight and those queued.\<close>

definition wal_parts :: "buffer \<Rightarrow> (nat \<times> buffer \<times> nat) list \<Rightarrow> (nat \<times> buffer \<times> nat) list \<Rightarrow> (nat \<times> buffer \<times> nat) list \<Rightarrow> wal_world \<Rightarrow> bool" where
  "wal_parts base ds fs qs d \<longleftrightarrow>
     wd_log d = ds @ fs @ qs \<and> map snd fs = entries_of (batch_of (wd_wal d)) \<and> map snd qs = entries_of (wl_queue (wd_wal d)) \<and>
     wd_disk d @ unwritten (wd_wal d) = base @ frames ds @ frames fs \<and>
     length (unwritten (wd_wal d)) \<le> length (frames fs) \<and>
     log_ok (length base) (wl_nextOffset (wd_wal d)) (wd_log d) \<and> dom (wd_settled d) = tickets ds \<and>
     wd_synced d \<le> length (wd_disk d) \<and>
     (wl_policy (wd_wal d) = Always \<longrightarrow> (\<forall>(o', frame, t)\<in>set ds. wd_settled d t = Some True \<longrightarrow> o' + length frame \<le> wd_synced d))"

definition wal_ok :: "buffer \<Rightarrow> wal_world \<Rightarrow> bool" where
  "wal_ok base d \<longleftrightarrow> wal_shape (wd_wal d) \<and> (wl_open (wd_wal d) \<longrightarrow> wl_size (wd_wal d) = length (wd_disk d)) \<and>
     (\<exists>ds fs qs. wal_parts base ds fs qs d)"

lemma opened_ok: "wal_ok base (opened policy base)"
  using shape_opened [of policy base]
  by (auto simp: wal_ok_def wal_parts_def log_ok_def opened_def wal_open_def new_wal_def entries_of_def batch_of_def unwritten_def)

lemma batch_simps [simp]:
  "batch_of (finish_flush w) = []" "unwritten (finish_flush w) = []" "wl_queue (finish_flush w) = wl_queue w"
  "wl_nextOffset (finish_flush w) = wl_nextOffset w" "wl_policy (finish_flush w) = wl_policy w" "wl_size (finish_flush w) = wl_size w"
  "wl_open (finish_flush w) = wl_open w"
  by (simp_all add: batch_of_def unwritten_def finish_flush_def)

lemma settle_lookup: "map_of (settle ok batch) t = (if t \<in> pw_ticket ` set batch then Some ok else None)"
  by (induction batch) (auto simp: settle_def)

lemma settle_dom: "dom (map_of (settle ok batch)) = pw_ticket ` set batch"
  by (auto simp: settle_lookup split: if_splits)

lemma entries_tickets: "map snd l = entries_of ps \<Longrightarrow> pw_ticket ` set ps = tickets l"
proof -
  assume "map snd l = entries_of ps"
  then have "map snd (map snd l) = map snd (entries_of ps)" by simp
  then have "set (map snd (map snd l)) = set (map pw_ticket ps)" by (simp add: entries_of_def comp_def)
  then show ?thesis by (simp add: tickets_def image_comp)
qed

lemma entries_frames: "map snd l = entries_of ps \<Longrightarrow> concat (map pw_buf ps) = frames l"
proof -
  assume "map snd l = entries_of ps"
  then have "map fst (map snd l) = map fst (entries_of ps)" by simp
  then show ?thesis by (simp add: frames_def entries_of_def comp_def)
qed

text \<open>The batch in flight is settled, all of it written.\<close>

lemma parts_settled:
  assumes parts: "wal_parts base ds fs qs d" and flight: "wl_flight (wd_wal d) = Some f"
    and disk: "disk = base @ frames ds @ frames fs"
    and wal: "w' = finish_flush w" "wl_queue w = wl_queue (wd_wal d)" "wl_nextOffset w = wl_nextOffset (wd_wal d)" "wl_policy w = wl_policy (wd_wal d)"
    and sync: "wd_synced d \<le> synced" "synced \<le> length disk"
      "ok \<Longrightarrow> wl_policy (wd_wal d) = Always \<Longrightarrow> synced = length disk"
  shows "wal_parts base (ds @ fs) [] qs
    (d\<lparr>wd_wal := w', wd_settled := wd_settled d ++ map_of (settle ok (fl_batch f)), wd_disk := disk, wd_synced := synced\<rparr>)"
proof -
  have batch: "map snd fs = entries_of (fl_batch f)" using parts flight by (simp add: wal_parts_def batch_of_def)
  have log: "wd_log d = ds @ fs @ qs" "log_ok (length base) (wl_nextOffset (wd_wal d)) (wd_log d)" "dom (wd_settled d) = tickets ds"
    "offsets_from (length base) (wd_log d)"
    using parts unfolding wal_parts_def log_ok_def by blast+
  have val: "map_of (settle ok (fl_batch f)) t = (if t \<in> tickets fs then Some ok else None)" for t
    by (simp add: settle_lookup entries_tickets [OF batch])
  have end': "o' + length frame \<le> length disk" if "(o', frame, t) \<in> set (ds @ fs)" for o' frame t
    using offsets_read [of "length base" "ds @ fs" o' frame t base] log(1,4) that unfolding disk by simp
  have always: "o' + length frame \<le> synced"
    if "wl_policy (wd_wal d) = Always" "(o', frame, t) \<in> set (ds @ fs)" "(wd_settled d ++ map_of (settle ok (fl_batch f))) t = Some True" for o' frame t
  proof (cases "t \<in> tickets fs")
    case True
    with that(3) val [of t] have ok by (simp add: map_add_def)
    with end' [OF that(2)] sync(3) that(1) show ?thesis by simp
  next
    case False
    then have d: "(o', frame, t) \<in> set ds" using that(2) by (auto simp: tickets_def image_iff)
    have "wd_settled d t = Some True" using that(3) val [of t] False by (simp add: map_add_def)
    then have "o' + length frame \<le> wd_synced d" using parts that(1) d unfolding wal_parts_def by fastforce
    then show ?thesis using sync(1) by simp
  qed
  have next': "map snd qs = entries_of (wl_queue (wd_wal d))"
    using parts unfolding wal_parts_def by blast
  show ?thesis
    unfolding wal_parts_def
  proof (intro conjI impI ballI; (elim case_prodE)?)
    fix e assume p: "wl_policy (wd_wal (d\<lparr>wd_wal := w', wd_settled := wd_settled d ++ map_of (settle ok (fl_batch f)), wd_disk := disk, wd_synced := synced\<rparr>)) = Always"
      "e \<in> set (ds @ fs)"
    obtain o' frame t where e: "e = (o', frame, t)" by (cases e)
    show "case e of (o', frame, t) \<Rightarrow> wd_settled (d\<lparr>wd_wal := w', wd_settled := wd_settled d ++ map_of (settle ok (fl_batch f)), wd_disk := disk, wd_synced := synced\<rparr>) t = Some True \<longrightarrow>
        o' + length frame \<le> wd_synced (d\<lparr>wd_wal := w', wd_settled := wd_settled d ++ map_of (settle ok (fl_batch f)), wd_disk := disk, wd_synced := synced\<rparr>)"
      using always [of o' frame t] p wal unfolding e by simp
  qed (use log next' disk wal sync(2) settle_dom [of ok "fl_batch f"] entries_tickets [OF batch] in \<open>simp_all add: entries_of_def Un_commute\<close>)
qed

lemma flushBatch_starts:
  assumes "wal_shape w" "\<not> wl_flushing w" "wl_queue w \<noteq> []"
  shows "flushBatch w = ([], w\<lparr>wl_scheduled := False, wl_flushing := True, wl_queue := [], wl_queuedBytes := 0, wl_inflight := True,
    wl_flight := Some \<lparr>fl_batch = wl_queue w, fl_bufs = map pw_buf (wl_queue w), fl_off = 0, fl_syncing = False\<rparr>\<rparr>)"
proof -
  have "wl_open w" using assms by (auto simp: wal_shape_def flush_waits_def)
  with assms(2,3) show ?thesis by (simp add: flushBatch_def Let_def)
qed

lemma flushBatch_idle: "wl_flushing w \<or> wl_queue w = [] \<Longrightarrow> flushBatch w = ([], w\<lparr>wl_scheduled := False\<rparr>)"
  by (auto simp: flushBatch_def Let_def)

lemma parts_flushBatch:
  assumes "wal_shape (wd_wal d)" "wal_parts base ds fs qs d"
  shows "\<exists>fs' qs'. wal_parts base ds fs' qs' (settled_by (flushBatch (wd_wal d)) d) \<and>
    wl_size (wd_wal (settled_by (flushBatch (wd_wal d)) d)) = wl_size (wd_wal d) \<and>
    wl_open (wd_wal (settled_by (flushBatch (wd_wal d)) d)) = wl_open (wd_wal d) \<and>
    wd_disk (settled_by (flushBatch (wd_wal d)) d) = wd_disk d"
proof (cases "wl_flushing (wd_wal d) \<or> wl_queue (wd_wal d) = []")
  case True
  show ?thesis
    using assms(2) unfolding flushBatch_idle [OF True] settled_by_def wal_parts_def
    by - (rule exI [of _ fs], rule exI [of _ qs], auto simp: batch_of_def unwritten_def)
next
  case False
  then have n: "wl_flight (wd_wal d) = None" using assms(1) by (simp add: wal_shape_def)
  have q: "map snd qs = entries_of (wl_queue (wd_wal d))" and fs: "fs = []" and D: "wd_disk d = base @ frames ds"
    using assms(2) n by (auto simp: wal_parts_def batch_of_def unwritten_def entries_of_def)
  have f: "flushBatch (wd_wal d) = ([], (wd_wal d)\<lparr>wl_scheduled := False, wl_flushing := True, wl_queue := [], wl_queuedBytes := 0, wl_inflight := True,
    wl_flight := Some \<lparr>fl_batch = wl_queue (wd_wal d), fl_bufs = map pw_buf (wl_queue (wd_wal d)), fl_off = 0, fl_syncing = False\<rparr>\<rparr>)"
    using flushBatch_starts [OF assms(1)] False by blast
  have u: "concat (map pw_buf (wl_queue (wd_wal d))) = frames qs" by (rule entries_frames [OF q])
  show ?thesis
    using assms(2) fs q D u unfolding f settled_by_def wal_parts_def
    by - (rule exI [of _ qs], rule exI [of _ "[]"], auto simp: batch_of_def unwritten_def toWrite_def entries_of_def)
qed

lemma parts_written:
  assumes shape: "wal_shape (wd_wal d)" and parts: "wal_parts base ds fs qs d"
    and flight: "wl_flight (wd_wal d) = Some f" "\<not> fl_syncing f"
    and n: "n \<le> length (concat (toWrite (fl_off f) (fl_bufs f)))" "n \<noteq> 0"
    and d': "d' = settled_by (writev_returned n f (wd_wal d)) d\<lparr>wd_disk := wd_disk d @ take n (concat (toWrite (fl_off f) (fl_bufs f)))\<rparr>"
  shows "(\<exists>ds' fs'. wal_parts base ds' fs' qs d') \<and> wl_open (wd_wal d') = wl_open (wd_wal d) \<and>
    wl_size (wd_wal d') = wl_size (wd_wal d) + n \<and> length (wd_disk d') = length (wd_disk d) + n"
proof -
  let ?U = "concat (toWrite (fl_off f) (fl_bufs f))"
  have fo: "flight_ok f" using shape flight(1) by (simp add: wal_shape_def)
  have U: "wd_disk d @ ?U = base @ frames ds @ frames fs" using parts flight by (simp add: wal_parts_def unwritten_def)
  obtain bufs off where b: "cursor_ok off bufs" "concat (toWrite off bufs) = drop n ?U"
    "writev_returned n f (wd_wal d) =
      (let w = (wd_wal d)\<lparr>wl_size := wl_size (wd_wal d) + n, wl_written := wl_written (wd_wal d) + n\<rparr>
       in if bufs \<noteq> [] then ([], w\<lparr>wl_flight := Some (f\<lparr>fl_bufs := bufs, fl_off := off\<rparr>)\<rparr>)
          else if wl_policy w = Always then ([], w\<lparr>wl_flight := Some (f\<lparr>fl_bufs := [], fl_off := off, fl_syncing := True\<rparr>)\<rparr>)
          else (settle True (fl_batch f), finish_flush w))"
    using writev_returned_cases [OF fo flight(2) n, where w = "wd_wal d"] by metis
  have len: "length (wd_disk d') = length (wd_disk d) + n" using n(1) unfolding d' settled_by_def by simp
  show ?thesis
  proof (cases "bufs = [] \<and> wl_policy (wd_wal d) \<noteq> Always")
    case False
    have U': "wd_disk d @ take n ?U @ drop n ?U = base @ frames ds @ frames fs" using U by simp
    have l': "length ?U \<le> length (frames fs)" using parts flight(1) by (simp add: wal_parts_def unwritten_def)
    have "wal_parts base ds fs qs d'"
      using parts flight(1) U' le_trans [OF diff_le_self l'] b(2) False unfolding d' settled_by_def b(3) wal_parts_def
      by (cases "bufs = []") (auto simp: Let_def batch_of_def unwritten_def)
    then show ?thesis using False len unfolding d' settled_by_def b(3)
      by (cases "bufs = []") (auto simp: Let_def)
  next
    case True
    with b(1,2) have "drop n ?U = []" by (simp add: cursor_ok_def toWrite_def)
    then have D: "wd_disk d @ take n ?U = base @ frames ds @ frames fs" using U by simp
    let ?w = "(wd_wal d)\<lparr>wl_size := wl_size (wd_wal d) + n, wl_written := wl_written (wd_wal d) + n\<rparr>"
    have d2: "d' = d\<lparr>wd_wal := finish_flush ?w, wd_settled := wd_settled d ++ map_of (settle True (fl_batch f)), wd_disk := wd_disk d @ take n ?U, wd_synced := wd_synced d\<rparr>"
      using True unfolding d' settled_by_def b(3) by (simp add: Let_def)
    have "wd_synced d \<le> length (wd_disk d @ take n ?U)" using parts by (simp add: wal_parts_def)
    then have "wal_parts base (ds @ fs) [] qs d'"
      unfolding d2 using parts_settled [OF parts flight(1) D refl, of ?w "wd_synced d" True] True by simp
    then show ?thesis using len unfolding d2 by auto
  qed
qed

lemma parts_syncing:
  assumes "wal_shape (wd_wal d)" "wal_parts base ds fs qs d" "wl_flight (wd_wal d) = Some f" "fl_syncing f"
  shows "wd_disk d = base @ frames ds @ frames fs"
proof -
  have "flight_ok f" using assms(1,3) by (simp add: wal_shape_def)
  then have "concat (toWrite (fl_off f) (fl_bufs f)) = []" using assms(4) by (auto simp: flight_ok_def cursor_ok_def toWrite_def)
  with assms(2,3) show ?thesis by (simp add: wal_parts_def unwritten_def)
qed

lemma ok_step: "wal_step e d d' \<Longrightarrow> \<not> write_error e \<Longrightarrow> wal_ok base d \<Longrightarrow> wal_ok base d'"
proof -
  assume step: "wal_step e d d'" and e: "\<not> write_error e" and ok: "wal_ok base d"
  then obtain ds fs qs where shape: "wal_shape (wd_wal d)" and parts: "wal_parts base ds fs qs d"
    and sz: "wl_open (wd_wal d) \<Longrightarrow> wl_size (wd_wal d) = length (wd_disk d)" by (auto simp: wal_ok_def)
  have shape': "wal_shape (wd_wal d')" by (rule shape_step [OF step shape])
  have "(wl_open (wd_wal d') \<longrightarrow> wl_size (wd_wal d') = length (wd_disk d')) \<and> (\<exists>ds fs qs. wal_parts base ds fs qs d')"
    using step
  proof (cases rule: wal_step.cases)
    case (Appended t frame o' w)
    have o': "o' = wl_nextOffset (wd_wal d)" and w: "w = (wd_wal d)\<lparr>wl_nextOffset := wl_nextOffset (wd_wal d) + length frame,
      wl_queue := wl_queue (wd_wal d) @ [\<lparr>pw_buf = frame, pw_ticket = t\<rparr>], wl_queuedBytes := wl_queuedBytes (wd_wal d) + length frame,
      wl_scheduled := (wl_scheduled (wd_wal d) \<or> \<not> wl_flushing (wd_wal d))\<rparr>"
      using Appended(3) by (auto simp: appendLoc_def split: if_splits)
    have "wal_parts base ds fs (qs @ [(o', frame, t)]) d'"
      using parts log_append [OF _ Appended(5), of "length base" _ frame] unfolding Appended(2) w o'
      by (auto simp: wal_parts_def batch_of_def unwritten_def entries_of_def)
    then show ?thesis using sz unfolding Appended(2) w by auto
  next
    case (Refused t frame e w)
    then show ?thesis using refused_same [OF Refused(3)] parts sz by auto
  next
    case Tick
    then show ?thesis using parts_flushBatch [OF shape parts] sz by auto
  next
    case Flushed
    then show ?thesis using parts_flushBatch [OF shape parts] sz by auto
  next
    case (Written f n)
    have "n \<noteq> 0" using e Written(1) by (auto simp: write_error_def)
    from parts_written [OF shape parts Written(3,4,5) this Written(2)] show ?thesis using sz by auto
  next
    case (WriteFailed f)
    with e show ?thesis by (simp add: write_error_def)
  next
    case (Synced f)
    have D: "wd_disk d = base @ frames ds @ frames fs" by (rule parts_syncing [OF shape parts Synced(3,4)])
    have sy: "wd_synced d \<le> length (wd_disk d)" using parts by (simp add: wal_parts_def)
    have "wal_parts base (ds @ fs) [] qs d'"
      using parts_settled [OF parts Synced(3) D refl, of "(wd_wal d)\<lparr>wl_fsyncs := wl_fsyncs (wd_wal d) + 1\<rparr>" "length (wd_disk d)" True] sy
      unfolding Synced(2) by (simp add: settled_by_def flush_synced_def)
    then show ?thesis using sz unfolding Synced(2) by (auto simp: settled_by_def flush_synced_def)
  next
    case (SyncFailed f)
    have D: "wd_disk d = base @ frames ds @ frames fs" by (rule parts_syncing [OF shape parts SyncFailed(3,4)])
    have sy: "wd_synced d \<le> length (wd_disk d)" using parts by (simp add: wal_parts_def)
    have "wal_parts base (ds @ fs) [] qs d'"
      using parts_settled [OF parts SyncFailed(3) D refl, of "wd_wal d" "wd_synced d" False] sy
      unfolding SyncFailed(2) by (simp add: settled_by_def flush_failed_def)
    then show ?thesis using sz unfolding SyncFailed(2) by (auto simp: settled_by_def flush_failed_def)
  next
    case TimerSync
    have "wal_parts base ds fs qs d'" using parts unfolding TimerSync(2)
      by (auto simp: wal_parts_def batch_of_def unwritten_def wal_sync_def)
    then have "\<exists>ds fs qs. wal_parts base ds fs qs d'" by (intro exI)
    then show ?thesis using sz TimerSync(2) by (auto simp: wal_sync_def)
  next
    case Sealed
    have "wal_parts base ds fs qs d'" using parts unfolding Sealed(2)
      by (auto simp: wal_parts_def batch_of_def unwritten_def wal_seal_def)
    then have "\<exists>ds fs qs. wal_parts base ds fs qs d'" by (intro exI)
    then show ?thesis using sz Sealed(2) by (auto simp: wal_seal_def)
  next
    case CloseStart
    have "wal_parts base ds fs qs d'" using parts unfolding CloseStart(2)
      by (auto simp: wal_parts_def batch_of_def unwritten_def close_start_def)
    then have "\<exists>ds fs qs. wal_parts base ds fs qs d'" by (intro exI)
    then show ?thesis using sz CloseStart(2) by (auto simp: close_start_def)
  next
    case CloseEnd
    have "wal_parts base ds fs qs d'" using parts unfolding CloseEnd(2)
      by (auto simp: wal_parts_def batch_of_def unwritten_def close_end_def wal_sync_def)
    then have "\<exists>ds fs qs. wal_parts base ds fs qs d'" by (intro exI)
    then show ?thesis using sz CloseEnd(2) by (auto simp: close_end_def wal_sync_def)
  qed
  with shape' show ?thesis by (simp add: wal_ok_def)
qed

lemma run_ok: "wal_run es d d' \<Longrightarrow> \<forall>e\<in>set es. \<not> write_error e \<Longrightarrow> wal_ok base d \<Longrightarrow> wal_ok base d'"
  by (induction rule: wal_run.induct) (auto intro: ok_step)

lemma policy_step: "wal_step e d d' \<Longrightarrow> wl_policy (wd_wal d') = wl_policy (wd_wal d)"
  by (cases rule: wal_step.cases)
    (auto simp: appendLoc_def settled_by_def flushBatch_def Let_def finish_flush_def writev_returned_def flush_failed_def flush_synced_def
      wal_sync_def wal_seal_def close_start_def close_end_def split: if_splits prod.splits)

lemma run_policy: "wal_run es d d' \<Longrightarrow> wl_policy (wd_wal d') = wl_policy (wd_wal d)"
  by (induction rule: wal_run.induct) (simp_all add: policy_step)

subsection \<open>Draining\<close>

text \<open>The events that move a \<^verbatim>\<open>flush()\<close> forward, and how much of it is left.\<close>

fun flush_event :: "wal \<Rightarrow> wal_event \<Rightarrow> bool" where
  "flush_event w Flushed \<longleftrightarrow> \<not> wl_inflight w"
| "flush_event w (Written n) \<longleftrightarrow> True"
| "flush_event w WriteFailed \<longleftrightarrow> True"
| "flush_event w Synced \<longleftrightarrow> True"
| "flush_event w SyncFailed \<longleftrightarrow> True"
| "flush_event w e \<longleftrightarrow> False"

definition flush_work :: "wal \<Rightarrow> nat" where
  "flush_work w =
     (case wl_flight w of None \<Rightarrow> 0 | Some f \<Rightarrow> if fl_syncing f then 1 else 2 + length (unwritten w)) +
     (if wl_queue w = [] then 0 else 3 + length (concat (map pw_buf (wl_queue w))))"

lemma work_finish: "wl_flight w = Some f \<Longrightarrow> wl_queue w' = wl_queue w \<Longrightarrow> flush_work (finish_flush w') < flush_work w"
  by (simp add: flush_work_def finish_flush_def unwritten_def)

lemma work_step:
  assumes "wal_shape (wd_wal d)" "flush_event (wd_wal d) e" "wal_step e d d'"
  shows "flush_work (wd_wal d') < flush_work (wd_wal d)"
  using assms(3)
proof (cases rule: wal_step.cases)
  case Flushed
  then have i: "\<not> wl_flushing (wd_wal d)" "wl_flight (wd_wal d) = None" "wl_queue (wd_wal d) \<noteq> []"
    using assms(1,2) by (auto simp: wal_shape_def flush_waits_def)
  then show ?thesis unfolding Flushed(2) settled_by_def flushBatch_starts [OF assms(1) i(1,3)]
    by (simp add: flush_work_def unwritten_def toWrite_def)
next
  case (Written f n)
  have fo: "flight_ok f" using assms(1) Written(3) by (simp add: wal_shape_def)
  have w': "wd_wal d' = snd (writev_returned n f (wd_wal d))" unfolding Written(2) settled_by_def by simp
  show ?thesis
  proof (cases "n = 0")
    case True
    then show ?thesis unfolding w' using work_finish [OF Written(3) refl] by (simp add: writev_returned_def flush_failed_def)
  next
    case False
    obtain bufs off where b: "cursor_ok off bufs"
      "concat (toWrite off bufs) = drop n (concat (toWrite (fl_off f) (fl_bufs f)))"
      "writev_returned n f (wd_wal d) =
        (let w = (wd_wal d)\<lparr>wl_size := wl_size (wd_wal d) + n, wl_written := wl_written (wd_wal d) + n\<rparr>
         in if bufs \<noteq> [] then ([], w\<lparr>wl_flight := Some (f\<lparr>fl_bufs := bufs, fl_off := off\<rparr>)\<rparr>)
            else if wl_policy w = Always then ([], w\<lparr>wl_flight := Some (f\<lparr>fl_bufs := [], fl_off := off, fl_syncing := True\<rparr>)\<rparr>)
            else (settle True (fl_batch f), finish_flush w))"
      using writev_returned_cases [OF fo Written(4,5) False, where w = "wd_wal d"] by metis
    have len: "length (concat (toWrite off bufs)) < length (concat (toWrite (fl_off f) (fl_bufs f)))"
      unfolding b(2) using Written(5) False by simp
    show ?thesis
    proof (cases "bufs = []")
      case True
      have "flush_work (finish_flush ((wd_wal d)\<lparr>wl_size := wl_size (wd_wal d) + n, wl_written := wl_written (wd_wal d) + n\<rparr>)) < flush_work (wd_wal d)"
        by (rule work_finish [OF Written(3)]) simp
      with True show ?thesis unfolding w' b(3) using Written(3,4)
        by (cases "wl_policy (wd_wal d) = Always") (simp_all add: Let_def flush_work_def)
    next
      case c: False
      then show ?thesis unfolding w' b(3) using Written(3-5) len False
        by (simp add: Let_def flush_work_def unwritten_def)
    qed
  qed
next
  case (WriteFailed f)
  then show ?thesis using work_finish [OF _ refl] by (simp add: settled_by_def flush_failed_def)
next
  case (Synced f)
  then show ?thesis using work_finish [OF Synced(3)] by (simp add: settled_by_def flush_synced_def)
next
  case (SyncFailed f)
  then show ?thesis using work_finish [OF _ refl] by (simp add: settled_by_def flush_failed_def)
qed (use assms(2) in auto)

lemma flush_enabled:
  assumes "wal_shape (wd_wal d)"
  shows "flush_waits (wd_wal d) \<longleftrightarrow> (\<exists>e d'. flush_event (wd_wal d) e \<and> wal_step e d d')"
proof
  assume w: "flush_waits (wd_wal d)"
  show "\<exists>e d'. flush_event (wd_wal d) e \<and> wal_step e d d'"
  proof (cases "wl_flight (wd_wal d)")
    case None
    then have "\<not> wl_inflight (wd_wal d)" using assms by (simp add: wal_shape_def)
    with wal_step.Flushed [OF w] show ?thesis by (intro exI [of _ Flushed]) auto
  next
    case (Some f)
    show ?thesis
    proof (cases "fl_syncing f")
      case True
      from wal_step.Synced [OF Some this] show ?thesis by (intro exI [of _ Synced]) auto
    next
      case False
      from wal_step.WriteFailed [OF Some this] show ?thesis by (intro exI [of _ WriteFailed]) auto
    qed
  qed
next
  assume "\<exists>e d'. flush_event (wd_wal d) e \<and> wal_step e d d'"
  then obtain e d' where e: "flush_event (wd_wal d) e" "wal_step e d d'" by blast
  from e(2) show "flush_waits (wd_wal d)"
    by (cases rule: wal_step.cases) (use e(1) assms in \<open>auto simp: wal_shape_def flush_waits_def\<close>)
qed

subsection \<open>Properties\<close>

text \<open>C22: in every interleaving of appends, flushes, short writes, fsyncs, sealing and closing in which no
  write fails, the file is always a prefix of what was appended, in append order, and a frame whose
  promise was fulfilled stands in the file at exactly the offset its caller was told; under the
  policy \<^verbatim>\<open>always\<close> it has also been synced.\<close>

theorem wal_durable_offsets:
  assumes "wal_run es (opened policy base) d" "\<forall>e\<in>set es. \<not> write_error e"
  shows "(\<exists>k\<ge>length base. wd_disk d = take k (base @ frames (wd_log d))) \<and>
    (\<forall>(o', frame, t)\<in>set (wd_log d). wd_settled d t = Some True \<longrightarrow>
       take (length frame) (drop o' (wd_disk d)) = frame \<and> (policy = Always \<longrightarrow> o' + length frame \<le> wd_synced d))"
proof -
  obtain ds fs qs where P: "wal_parts base ds fs qs d"
    using run_ok [OF assms opened_ok] by (auto simp: wal_ok_def)
  let ?u = "unwritten (wd_wal d)"
  have log: "wd_log d = ds @ fs @ qs" and disk: "wd_disk d @ ?u = base @ frames ds @ frames fs" and u: "length ?u \<le> length (frames fs)"
    and lk: "log_ok (length base) (wl_nextOffset (wd_wal d)) (wd_log d)" and dom': "dom (wd_settled d) = tickets ds"
    using P unfolding wal_parts_def by blast+
  have off: "offsets_from (length base) ds" and dist: "distinct (map (snd \<circ> snd) (ds @ fs @ qs))"
    using lk unfolding log log_ok_def by simp_all
  have len: "length (wd_disk d) + length ?u = length base + length (frames ds) + length (frames fs)" using arg_cong [OF disk, of length] by simp
  have pre: "wd_disk d = take (length (wd_disk d)) ((base @ frames ds) @ frames fs)" using arg_cong [OF disk, of "take (length (wd_disk d))"] by simp
  have "wd_disk d = take (length (wd_disk d)) (base @ frames (wd_log d))"
    using pre len unfolding log by simp
  moreover have "length base \<le> length (wd_disk d)" using len u by simp
  moreover have "take (length frame) (drop o' (wd_disk d)) = frame \<and> (policy = Always \<longrightarrow> o' + length frame \<le> wd_synced d)"
    if e: "(o', frame, t) \<in> set (wd_log d)" "wd_settled d t = Some True" for o' frame t
  proof -
    have "t \<in> tickets ds" using e(2) dom' by auto
    then obtain e' where e': "e' \<in> set ds" "t = (snd \<circ> snd) e'" by (auto simp: tickets_def)
    have ds: "(o', frame, t) \<in> set ds"
    proof (rule ccontr)
      assume "(o', frame, t) \<notin> set ds"
      then have "(o', frame, t) \<in> set (fs @ qs)" using e(1) log by auto
      then have "t \<in> (snd \<circ> snd) ` set (fs @ qs)" by force
      with dist e' show False by auto
    qed
    have "take (length (base @ frames ds)) (wd_disk d) = base @ frames ds"
      by (subst pre) (use len u in \<open>simp add: min_def\<close>)
    then have d: "wd_disk d = base @ frames ds @ drop (length (base @ frames ds)) (wd_disk d)"
      using append_take_drop_id [of "length (base @ frames ds)" "wd_disk d"] by simp
    have "take (length frame) (drop o' (wd_disk d)) = frame"
      by (subst d) (rule conjunct1 [OF offsets_read [OF off ds refl]])
    moreover have "policy = wl_policy (wd_wal d)" using run_policy [OF assms(1)] by (simp add: opened_def wal_open_def new_wal_def)
    ultimately show ?thesis using P ds e(2) unfolding wal_parts_def by fastforce
  qed
  ultimately show ?thesis by blast
qed

text \<open>C23: \<^verbatim>\<open>flush()\<close> (and with it \<^verbatim>\<open>close()\<close> and the rotation of compaction) ends: in every reachable
  state, failed writes included, it waits exactly as long as one of its own events can happen, and
  every such event, whatever the kernel answers, leaves strictly less to do.\<close>

theorem wal_flush_drains:
  assumes "wal_run es (opened policy base) d"
  shows "(flush_waits (wd_wal d) \<longleftrightarrow> (\<exists>e d'. flush_event (wd_wal d) e \<and> wal_step e d d')) \<and>
    (\<forall>e d'. flush_event (wd_wal d) e \<and> wal_step e d d' \<longrightarrow> flush_work (wd_wal d') < flush_work (wd_wal d))"
proof -
  have "wal_shape (wd_wal d)" by (rule run_shape [OF assms shape_opened])
  with flush_enabled work_step show ?thesis by blast
qed

lemmas wal_eval = opened_def wal_open_def new_wal_def appendLoc_def settled_by_def flushBatch_def finish_flush_def settle_def
  toWrite_def writev_returned_def flush_failed_def flush_synced_def flush_waits_def wal_seal_def close_start_def close_end_def wal_sync_def

text \<open>A frame of three bytes after one byte of old log, with a short write and an fsync.\<close>

lemma sample_run: "\<exists>d. wal_run [Appended 7 [1, 2, 3], Tick, Written 2, Written 1, Synced] (opened Always [9]) d \<and>
    wd_disk d = [9, 1, 2, 3] \<and> wd_settled d 7 = Some True \<and> wd_log d = [(1, [1, 2, 3], 7)]"
proof -
  obtain d where "wal_execs [Appended 7 [1, 2, 3], Tick, Written 2, Written 1, Synced] (opened Always [9]) = Some d"
    "wd_disk d = [9, 1, 2, 3]" "wd_settled d 7 = Some True" "wd_log d = [(1, [1, 2, 3], 7)]"
    by (simp add: wal_eval)
  then show ?thesis using wal_execs_run by blast
qed

theorem wal_durable_offsets_witness:
  "\<exists>d. wal_run [Appended 7 [1, 2, 3], Tick, Written 2, Written 1, Synced] (opened Always [9]) d \<and>
     take 3 (drop 1 (wd_disk d)) = [1, 2, 3] \<and> 4 \<le> wd_synced d"
proof -
  obtain d where d: "wal_run [Appended 7 [1, 2, 3], Tick, Written 2, Written 1, Synced] (opened Always [9]) d"
    "wd_settled d 7 = Some True" "wd_log d = [(1, [1, 2, 3], 7)]" using sample_run by blast
  with wal_durable_offsets [OF d(1)] show ?thesis by (auto simp: write_error_def)
qed

theorem wal_flush_drains_witness:
  "\<exists>d. wal_run [Appended 7 [1, 2, 3], Tick, Written 2, Written 1, Synced] (opened Always [9]) d \<and>
     (flush_waits (wd_wal d) \<longleftrightarrow> (\<exists>e d'. flush_event (wd_wal d) e \<and> wal_step e d d'))"
  using sample_run wal_flush_drains by blast

subsection \<open>What a failed write leaves\<close>

text \<open>A failed batch does not take \<^verbatim>\<open>nextOffset\<close> back, so the frames appended afterwards are told offsets
  past the place where they land.\<close>

lemma failed_write_shifts_offsets:
  "\<exists>d. wal_run [Appended 1 [5, 5], Tick, WriteFailed, Appended 2 [6, 7, 8], Tick, Written 3] (opened EverySec []) d \<and>
     wd_settled d 2 = Some True \<and> (2, [6, 7, 8], 2) \<in> set (wd_log d) \<and> wd_disk d = [6, 7, 8]"
proof -
  obtain d where "wal_execs [Appended 1 [5, 5], Tick, WriteFailed, Appended 2 [6, 7, 8], Tick, Written 3] (opened EverySec []) = Some d"
    "wd_settled d 2 = Some True" "(2, [6, 7, 8], 2) \<in> set (wd_log d)" "wd_disk d = [6, 7, 8]"
    by (simp add: wal_eval)
  then show ?thesis using wal_execs_run by blast
qed

text \<open>A frame appended before \<^verbatim>\<open>open\<close> leaves a settled promise in \<^verbatim>\<open>inflight\<close>: the loop of \<^verbatim>\<open>flush\<close> then waits
  although nothing is queued and no event can end it.\<close>

lemma append_before_open_hangs_flush:
  "let w = snd (flushBatch (snd (appendLoc 1 [5] (new_wal policy)))) in
     wl_queue w = [] \<and> wl_flight w = None \<and> flush_waits w \<and> (\<forall>e. flush_event w e \<longrightarrow> \<not> (\<exists>d d'. wd_wal d = w \<and> wal_step e d d'))"
proof -
  let ?w = "snd (flushBatch (snd (appendLoc 1 [5] (new_wal policy))))"
  have w: "wl_queue ?w = []" "wl_flight ?w = None" "flush_waits ?w" "wl_inflight ?w"
    by (simp_all add: wal_eval Let_def)
  moreover have "\<not> (\<exists>d d'. wd_wal d = ?w \<and> wal_step e d d')" if "flush_event ?w e" for e
  proof
    assume "\<exists>d d'. wd_wal d = ?w \<and> wal_step e d d'"
    then obtain d d' where "wal_step e d d'" "wd_wal d = ?w" by blast
    then show False by (cases rule: wal_step.cases) (use that w in auto)
  qed
  ultimately show ?thesis by simp
qed

end
