(* ===== verification/Query.thy ===== *)
theory Query
  imports Json
begin

section \<open>The query language (\<^verbatim>\<open>query.ts\<close>)\<close>

text \<open>
  Paths with dots and bracketed indexes, and filters in the style of MongoDB. A filter is a JSON value
  that may also hold regular expressions. Building a regular expression, testing it, its text and the
  number a string converts to are the runtime's, passed as a record. Objects compare by identity: an
  object or array of a filter is never one of a decoded document. An evaluation that throws (an
  invalid expression) is \<open>None\<close>.
\<close>

datatype 're fval = FNull | FBool bool | FNum int | FStr js_string | FArr "'re fval list" | FObj "(js_string \<times> 're fval) list" | FRe 're

record 're runtime =
  rt_test :: "'re \<Rightarrow> js_string \<Rightarrow> bool"
  rt_new :: "'re fval \<Rightarrow> 're fval option \<Rightarrow> 're option"
  rt_text :: "'re \<Rightarrow> js_string"
  rt_number :: "js_string \<Rightarrow> int option"

subsection \<open>Paths\<close>

datatype token = TName js_string | TIndex nat

text \<open>The expression \<^verbatim>\<open>^([^[]*)\[(\d+)\](.*)$\<close>: the text before the first bracket, the digits, the rest;
  the dot matches no line terminator.\<close>

definition is_digit :: "16 word \<Rightarrow> bool" where "is_digit u \<longleftrightarrow> 48 \<le> u \<and> u \<le> 57"

definition line_end :: "16 word \<Rightarrow> bool" where "line_end u \<longleftrightarrow> u = 10 \<or> u = 13 \<or> u = 0x2028 \<or> u = 0x2029"

definition bracket_match :: "js_string \<Rightarrow> (js_string \<times> nat \<times> js_string) option" where
  "bracket_match s =
     (let pre = takeWhile (\<lambda>u. u \<noteq> 91) s;
          inner = drop 1 (dropWhile (\<lambda>u. u \<noteq> 91) s);
          ds = takeWhile is_digit inner;
          rest = dropWhile is_digit inner
      in if 91 \<in> set s \<and> ds \<noteq> [] \<and> rest \<noteq> [] \<and> hd rest = 93 \<and> (\<forall>u\<in>set (tl rest). \<not> line_end u)
         then Some (pre, digits_value ds, tl rest) else None)"

lemma bracket_shorter: "bracket_match s = Some (pre, n, rest) \<Longrightarrow> length rest < length s"
proof -
  assume "bracket_match s = Some (pre, n, rest)"
  then have r: "rest = tl (dropWhile is_digit (drop 1 (dropWhile (\<lambda>u. u \<noteq> 91) s)))" "91 \<in> set s"
    by (auto simp: bracket_match_def Let_def split: if_splits)
  have "length rest \<le> length (dropWhile is_digit (drop 1 (dropWhile (\<lambda>u. u \<noteq> 91) s)))"
    unfolding r(1) by simp
  also have "\<dots> \<le> length (drop 1 (dropWhile (\<lambda>u. u \<noteq> 91) s))" by (rule length_dropWhile_le)
  also have "\<dots> \<le> length s - 1" using length_dropWhile_le [of "\<lambda>u. u \<noteq> 91" s] by simp
  also have "\<dots> < length s" using r(2) by (cases s) auto
  finally show ?thesis .
qed

function segment_tokens :: "js_string \<Rightarrow> token list" where
  "segment_tokens s =
     (if s = [] then []
      else (case bracket_match s of
              Some (pre, n, rest) \<Rightarrow> (if pre \<noteq> [] then [TName pre] else []) @ TIndex n # segment_tokens rest
            | None \<Rightarrow> [TName s]))"
  by auto
termination by (relation "measure length") (auto dest: bracket_shorter)

declare segment_tokens.simps [simp del]

datatype query_path = PathText js_string | PathTokens "token list"

definition tokenizePath :: "query_path \<Rightarrow> token list" where
  "tokenizePath p = (case p of PathTokens ts \<Rightarrow> ts | PathText s \<Rightarrow> concat (map segment_tokens (split_at 46 s)))"

definition token_key :: "token \<Rightarrow> js_string" where
  "token_key t = (case t of TName s \<Rightarrow> s | TIndex n \<Rightarrow> digits n)"

definition query_getPath :: "json \<Rightarrow> query_path \<Rightarrow> json option" where
  "query_getPath doc p = foldl (\<lambda>cur t. step_path cur (token_key t)) (Some doc) (tokenizePath p)"

subsection \<open>Comparison\<close>

fun strict_eq :: "json option \<Rightarrow> 're fval \<Rightarrow> bool" where
  "strict_eq (Some JNull) FNull = True"
| "strict_eq (Some (JBool a)) (FBool b) = (a = b)"
| "strict_eq (Some (JNum a)) (FNum b) = (a = b)"
| "strict_eq (Some (JStr a)) (FStr b) = (a = b)"
| "strict_eq v f = False"

datatype primitive = PUndefined | PNull | PBool bool | PNum int | PStr js_string

text \<open>\<^verbatim>\<open>String\<close> of an array: its elements joined, \<^verbatim>\<open>null\<close> as the empty text.\<close>

fun element_text :: "json \<Rightarrow> js_string" and element_texts :: "json list \<Rightarrow> js_string list" where
  "element_text JNull = []"
| "element_text (JBool b) = bool_text b"
| "element_text (JNum n) = int_text n"
| "element_text (JStr s) = s"
| "element_text (JArr xs) = join_with [44] (element_texts xs)"
| "element_text (JObj ms) = js ''[object Object]''"
| "element_texts [] = []"
| "element_texts (x # xs) = element_text x # element_texts xs"

fun filter_text :: "'re runtime \<Rightarrow> 're fval \<Rightarrow> js_string" and filter_texts :: "'re runtime \<Rightarrow> 're fval list \<Rightarrow> js_string list" where
  "filter_text rt FNull = []"
| "filter_text rt (FBool b) = bool_text b"
| "filter_text rt (FNum n) = int_text n"
| "filter_text rt (FStr s) = s"
| "filter_text rt (FArr xs) = join_with [44] (filter_texts rt xs)"
| "filter_text rt (FObj ms) = js ''[object Object]''"
| "filter_text rt (FRe r) = rt_text rt r"
| "filter_texts rt [] = []"
| "filter_texts rt (x # xs) = filter_text rt x # filter_texts rt xs"

definition value_primitive :: "json option \<Rightarrow> primitive" where
  "value_primitive v =
     (case v of None \<Rightarrow> PUndefined
      | Some d \<Rightarrow> (case d of JNull \<Rightarrow> PNull | JBool b \<Rightarrow> PBool b | JNum n \<Rightarrow> PNum n | JStr s \<Rightarrow> PStr s
                  | JArr xs \<Rightarrow> PStr (element_text d) | JObj ms \<Rightarrow> PStr (element_text d)))"

definition filter_primitive :: "'re runtime \<Rightarrow> 're fval \<Rightarrow> primitive" where
  "filter_primitive rt f =
     (case f of FNull \<Rightarrow> PNull | FBool b \<Rightarrow> PBool b | FNum n \<Rightarrow> PNum n | FStr s \<Rightarrow> PStr s | _ \<Rightarrow> PStr (filter_text rt f))"

definition to_number :: "'re runtime \<Rightarrow> primitive \<Rightarrow> int option" where
  "to_number rt p =
     (case p of PUndefined \<Rightarrow> None | PNull \<Rightarrow> Some 0 | PBool b \<Rightarrow> Some (if b then 1 else 0) | PNum n \<Rightarrow> Some n | PStr s \<Rightarrow> rt_number rt s)"

text \<open>The relational operators: by code units between strings, by number otherwise, false against \<^verbatim>\<open>NaN\<close>.\<close>

definition relate :: "(int \<Rightarrow> int \<Rightarrow> bool) \<Rightarrow> (js_string \<Rightarrow> js_string \<Rightarrow> bool) \<Rightarrow> 're runtime \<Rightarrow> primitive \<Rightarrow> primitive \<Rightarrow> bool" where
  "relate on_num on_str rt a b =
     (case (a, b) of
        (PStr s, PStr t) \<Rightarrow> on_str s t
      | _ \<Rightarrow> (case (to_number rt a, to_number rt b) of (Some x, Some y) \<Rightarrow> on_num x y | _ \<Rightarrow> False))"

subsection \<open>Conditions\<close>

definition truthy :: "'re fval \<Rightarrow> bool" where
  "truthy f = (case f of FNull \<Rightarrow> False | FBool b \<Rightarrow> b | FNum n \<Rightarrow> n \<noteq> 0 | FStr s \<Rightarrow> s \<noteq> [] | _ \<Rightarrow> True)"

definition type_name :: "json option \<Rightarrow> js_string" where
  "type_name v =
     (case v of None \<Rightarrow> js ''undefined''
      | Some d \<Rightarrow> (case d of JBool b \<Rightarrow> js ''boolean'' | JNum n \<Rightarrow> js ''number'' | JStr s \<Rightarrow> js ''string'' | _ \<Rightarrow> js ''object''))"

definition regex_of :: "'re runtime \<Rightarrow> 're fval \<Rightarrow> 're option" where
  "regex_of rt arg =
     (case arg of FRe r \<Rightarrow> Some r
      | FArr [] \<Rightarrow> rt_new rt (FStr []) None
      | FArr [x] \<Rightarrow> rt_new rt x None
      | FArr (x # y # _) \<Rightarrow> rt_new rt x (Some y)
      | _ \<Rightarrow> rt_new rt arg None)"

definition match_op :: "'re runtime \<Rightarrow> json option \<Rightarrow> js_string \<Rightarrow> 're fval \<Rightarrow> bool option" where
  "match_op rt val op arg =
     (let a = value_primitive val; b = filter_primitive rt arg in
      if op = js ''$eq'' then Some (strict_eq val arg)
      else if op = js ''$ne'' then Some (\<not> strict_eq val arg)
      else if op = js ''$gt'' then Some (relate (>) (>) rt a b)
      else if op = js ''$gte'' then Some (relate (\<ge>) (\<ge>) rt a b)
      else if op = js ''$lt'' then Some (relate (<) (<) rt a b)
      else if op = js ''$lte'' then Some (relate (\<le>) (\<le>) rt a b)
      else if op = js ''$in'' then Some (case arg of FArr xs \<Rightarrow> list_ex (strict_eq val) xs | _ \<Rightarrow> False)
      else if op = js ''$nin'' then Some (case arg of FArr xs \<Rightarrow> \<not> list_ex (strict_eq val) xs | _ \<Rightarrow> False)
      else if op = js ''$regex'' then map_option (\<lambda>re. case val of Some (JStr s) \<Rightarrow> rt_test rt re s | _ \<Rightarrow> False) (regex_of rt arg)
      else if op = js ''$exists'' then Some ((val \<noteq> None) = truthy arg)
      else if op = js ''$contains'' then Some (case val of Some (JArr xs) \<Rightarrow> list_ex (\<lambda>x. strict_eq (Some x) arg) xs | _ \<Rightarrow> False)
      else if op = js ''$type'' then Some (arg = FStr (type_name val))
      else Some False)"

text \<open>One test after another, the first that fails or throws deciding.\<close>

definition and_then :: "bool option \<Rightarrow> bool option \<Rightarrow> bool option" where
  "and_then a b = (if a = Some True then b else a)"

fun match_ops :: "'re runtime \<Rightarrow> json option \<Rightarrow> (js_string \<times> 're fval) list \<Rightarrow> bool option" where
  "match_ops rt val [] = Some True"
| "match_ops rt val ((op, arg) # ops) = and_then (match_op rt val op arg) (match_ops rt val ops)"

text \<open>The own enumerable members of a value: the indexes of an array or string, the members of an object.\<close>

definition indexed_members :: "'a list \<Rightarrow> (js_string \<times> 'a) list" where
  "indexed_members xs = map (\<lambda>(i, x). (digits i, x)) (enumerate 0 xs)"

definition matchCond :: "'re runtime \<Rightarrow> json option \<Rightarrow> 're fval \<Rightarrow> bool option" where
  "matchCond rt val cond =
     (case cond of
        FRe re \<Rightarrow> Some (case val of Some (JStr s) \<Rightarrow> rt_test rt re s | _ \<Rightarrow> False)
      | FObj ms \<Rightarrow> match_ops rt val ms
      | FArr xs \<Rightarrow> match_ops rt val (indexed_members xs)
      | _ \<Rightarrow> Some (strict_eq val cond))"

subsection \<open>Filters\<close>

fun match_leaves :: "'re runtime \<Rightarrow> json \<Rightarrow> (js_string \<times> 're fval) list \<Rightarrow> bool option" where
  "match_leaves rt doc [] = Some True"
| "match_leaves rt doc ((k, c) # ms) = and_then (matchCond rt (query_getPath doc (PathText k)) c) (match_leaves rt doc ms)"

fun match_filter :: "'re runtime \<Rightarrow> json \<Rightarrow> 're fval \<Rightarrow> bool option"
  and match_members :: "'re runtime \<Rightarrow> json \<Rightarrow> (js_string \<times> 're fval) list \<Rightarrow> bool option"
  and match_every :: "'re runtime \<Rightarrow> json \<Rightarrow> 're fval list \<Rightarrow> bool option"
  and match_some :: "'re runtime \<Rightarrow> json \<Rightarrow> 're fval list \<Rightarrow> bool option" where
  "match_filter rt doc (FObj ms) = match_members rt doc ms"
| "match_filter rt doc (FArr xs) = match_leaves rt doc (indexed_members xs)"
| "match_filter rt doc (FStr s) = match_leaves rt doc (indexed_members (map (\<lambda>u. FStr [u]) s))"
| "match_filter rt doc FNull = Some True"
| "match_filter rt doc (FBool b) = Some True"
| "match_filter rt doc (FNum n) = Some True"
| "match_filter rt doc (FRe r) = Some True"
| "match_members rt doc [] = Some True"
| "match_members rt doc ((k, c) # ms) =
     and_then
       (if k = js ''$and'' then (case c of FArr fs \<Rightarrow> match_every rt doc fs | _ \<Rightarrow> Some False)
        else if k = js ''$or'' then (case c of FArr fs \<Rightarrow> match_some rt doc fs | _ \<Rightarrow> Some False)
        else if k = js ''$nor'' then (case c of FArr fs \<Rightarrow> map_option Not (match_some rt doc fs) | _ \<Rightarrow> Some False)
        else if k = js ''$not'' then map_option Not (match_filter rt doc c)
        else matchCond rt (query_getPath doc (PathText k)) c)
       (match_members rt doc ms)"
| "match_every rt doc [] = Some True"
| "match_every rt doc (f # fs) = and_then (match_filter rt doc f) (match_every rt doc fs)"
| "match_some rt doc [] = Some False"
| "match_some rt doc (f # fs) = (if match_filter rt doc f = Some False then match_some rt doc fs else match_filter rt doc f)"

end
