(* ===== verification/Planner.thy ===== *)
theory Planner
  imports Query IndexManager DtIndex Store
begin

section \<open>The query planner (\<^verbatim>\<open>query\<close> of \<^verbatim>\<open>index.ts\<close>)\<close>

text \<open>
  A query collects candidate keys from the key order, the datetime columns, the full-text index and
  the secondary indexes, and tests the remaining rows against the filter. \<open>query_source\<close> is what it
  reads: the decoded live row of a key, the live keys of a range, the indexes, and the ranking of a
  text search. All reads of a query happen at one instant. Keys are in the store's canonical form;
  rows are returned before their projection. \<open>NoReturn\<close> stands for a walk of a broken list, \<open>BadRegex\<close>
  for an expression that does not compile.
\<close>

datatype plan_error = IndexFailed index_error | NoTextIndex js_string | BadRegex | NoReturn

definition of_walk :: "'a option \<Rightarrow> (plan_error, 'a) res" where
  "of_walk r = (case r of None \<Rightarrow> Inl NoReturn | Some x \<Rightarrow> Inr x)"

definition of_index :: "(index_error, 'a) res \<Rightarrow> (plan_error, 'a) res" where
  "of_index r = (case r of Inl e \<Rightarrow> Inl (IndexFailed e) | Inr x \<Rightarrow> Inr x)"

definition canonRange :: "js_string range_options \<Rightarrow> js_string range_options" where
  "canonRange ro = ro\<lparr>ro_gte := map_option toKStr (ro_gte ro), ro_gt := map_option toKStr (ro_gt ro),
     ro_lte := map_option toKStr (ro_lte ro), ro_lt := map_option toKStr (ro_lt ro)\<rparr>"

subsection \<open>Queries and their sources\<close>

datatype key_query = KeyIs js_string | KeyRange "js_string option" "js_string range_options"

record dt_bounds =
  db_gte :: "int option"
  db_gt :: "int option"
  db_lte :: "int option"
  db_lt :: "int option"
  db_offset :: "int option"
  db_count :: "int option"
  db_reverse :: bool

definition dt_options :: "dt_bounds \<Rightarrow> int range_options" where
  "dt_options b = \<lparr>ro_gte = db_gte b, ro_gt = db_gt b, ro_lte = db_lte b, ro_lt = db_lt b,
     ro_offset = (case db_offset b of None \<Rightarrow> 0 | Some n \<Rightarrow> n), ro_count = db_count b, ro_reverse = db_reverse b\<rparr>"

record text_query =
  tq_index :: js_string
  tq_q :: js_string
  tq_and :: bool
  tq_limit :: "nat option"

record 're query_options =
  q_key :: "key_query option"
  q_dt :: "(js_string \<times> dt_bounds) list option"
  q_text :: "text_query option"
  q_filter :: "'re fval option"
  q_sort :: "(js_string \<times> int) list option"
  q_skip :: "nat option"
  q_limit :: "nat option"

record query_row =
  qr_key :: js_string
  qr_value :: json
  qr_dt :: "dt_columns option"

record query_source =
  qs_json :: bool
  qs_indexes :: index_manager
  qs_dt :: dt_index
  qs_row :: "js_string \<Rightarrow> (json \<times> dt_columns option) option"
  qs_raw :: "js_string range_options \<Rightarrow> js_string list"
  qs_text :: "text_query \<Rightarrow> (js_string \<times> int) list option"

subsection \<open>Predicates an index can answer\<close>

definition member_list :: "'re fval \<Rightarrow> (js_string \<times> 're fval) list option" where
  "member_list f = (case f of FObj ms \<Rightarrow> Some ms | FArr xs \<Rightarrow> Some (indexed_members xs) | FRe r \<Rightarrow> Some [] | _ \<Rightarrow> None)"

definition operator_key :: "js_string \<Rightarrow> bool" where
  "operator_key k \<longleftrightarrow> k \<noteq> [] \<and> hd k = 36"

definition plain_members :: "(js_string \<times> 're fval) list \<Rightarrow> (js_string \<times> 're fval) list" where
  "plain_members ms = filter (\<lambda>(k, c). \<not> operator_key k) ms"

definition member_predicates :: "js_string \<times> 're fval \<Rightarrow> (js_string \<times> 're fval) list" where
  "member_predicates m =
     (case m of (k, c) \<Rightarrow>
        (case (if k = js ''$and'' then (case c of FArr fs \<Rightarrow> Some fs | _ \<Rightarrow> None) else None) of
           Some fs \<Rightarrow> concat (map (\<lambda>f. case member_list f of Some ms \<Rightarrow> plain_members ms | None \<Rightarrow> []) fs)
         | None \<Rightarrow> if operator_key k then [] else [(k, c)]))"

definition indexPredicates :: "'re fval option \<Rightarrow> (js_string \<times> 're fval) list" where
  "indexPredicates flt =
     (case Option.bind flt member_list of None \<Rightarrow> [] | Some ms \<Rightarrow> concat (map member_predicates ms))"

text \<open>A filter value as the document value it would equal; a regular expression has no own members.\<close>

fun to_json :: "'re fval \<Rightarrow> json"
  and to_jsons :: "'re fval list \<Rightarrow> json list"
  and to_json_members :: "(js_string \<times> 're fval) list \<Rightarrow> (js_string \<times> json) list" where
  "to_json FNull = JNull"
| "to_json (FBool b) = JBool b"
| "to_json (FNum n) = JNum n"
| "to_json (FStr s) = JStr s"
| "to_json (FArr xs) = JArr (to_jsons xs)"
| "to_json (FObj ms) = JObj (to_json_members ms)"
| "to_json (FRe r) = JObj []"
| "to_jsons [] = []"
| "to_jsons (x # xs) = to_json x # to_jsons xs"
| "to_json_members [] = []"
| "to_json_members ((k, v) # ms) = (k, to_json v) # to_json_members ms"

definition operator_members :: "'re fval \<Rightarrow> (js_string \<times> 're fval) list option" where
  "operator_members cond = (case cond of FObj ms \<Rightarrow> Some ms | FArr xs \<Rightarrow> Some (indexed_members xs) | _ \<Rightarrow> None)"

definition number_member :: "(js_string \<times> 're fval) list \<Rightarrow> js_string \<Rightarrow> int option" where
  "number_member ms k = (case map_of ms k of Some (FNum n) \<Rightarrow> Some n | _ \<Rightarrow> None)"

definition range_bounds :: "(js_string \<times> 're fval) list \<Rightarrow> find_options" where
  "range_bounds ops =
     (let gte = number_member ops (js ''$gte''); gt = number_member ops (js ''$gt'');
          lte = number_member ops (js ''$lte''); lt = number_member ops (js ''$lt'')
      in \<lparr>fo_min = (if gt \<noteq> None then gt else gte), fo_max = (if lt \<noteq> None then lt else lte),
          fo_minExclusive = (gt \<noteq> None), fo_maxExclusive = (lt \<noteq> None), fo_offset = None, fo_count = None, fo_reverse = False\<rparr>)"

fun find_all :: "js_string \<Rightarrow> index_manager \<Rightarrow> 're fval list \<Rightarrow> (index_error, js_string list) res" where
  "find_all name m [] = Inr []"
| "find_all name m (v # vs) =
     bind_res (findEq name (Some (to_json v)) m) (\<lambda>pks. bind_res (find_all name m vs) (\<lambda>rest. Inr (pks @ rest)))"

definition eq_candidates :: "js_string \<Rightarrow> 're fval \<Rightarrow> index_manager \<Rightarrow> (index_error, js_string list option) res" where
  "eq_candidates name cond m =
     (case operator_members cond of
        None \<Rightarrow> map_res Some (findEq name (Some (to_json cond)) m)
      | Some ops \<Rightarrow>
          if length ops = 1 \<and> fst (hd ops) = js ''$eq'' then map_res Some (findEq name (Some (to_json (snd (hd ops)))) m)
          else (case map_of ops (js ''$in'') of
                  Some (FArr vs) \<Rightarrow> map_res (\<lambda>pks. Some (dedup pks)) (find_all name m vs)
                | _ \<Rightarrow> Inr None))"

definition range_candidates :: "js_string \<Rightarrow> 're fval \<Rightarrow> index_manager \<Rightarrow> (plan_error, js_string list option) res" where
  "range_candidates name cond m =
     (case operator_members cond of
        None \<Rightarrow> Inr None
      | Some ops \<Rightarrow>
          let b = range_bounds ops
          in if fo_min b = None \<and> fo_max b = None then Inr None
             else bind_res (of_index (findRange name b m)) (\<lambda>r. map_res (\<lambda>es. Some (dedup (map fst es))) (of_walk r)))"

definition find_index :: "index_type \<Rightarrow> (idx_info \<times> index_type) list \<Rightarrow> idx_info option" where
  "find_index t is = map_option fst (find (\<lambda>(i, t'). t' = t) is)"

definition candidateKeysForPredicate :: "bool \<Rightarrow> index_manager \<Rightarrow> js_string \<Rightarrow> 're fval \<Rightarrow> (plan_error, js_string list option) res" where
  "candidateKeysForPredicate json_codec m field cond =
     (if \<not> json_codec \<or> m = [] then Inr None
      else let indexes = filter (\<lambda>(i, t). ix_field i = field) (index_list m)
           in if indexes = [] then Inr None
              else bind_res
                (case find_index Equality indexes of None \<Rightarrow> Inr None | Some i \<Rightarrow> of_index (eq_candidates (ix_name i) cond m))
                (\<lambda>c. if c \<noteq> None then Inr c
                     else (case find_index Range indexes of None \<Rightarrow> Inr None | Some i \<Rightarrow> range_candidates (ix_name i) cond m)))"

fun intersect_candidates :: "bool \<Rightarrow> index_manager \<Rightarrow> (js_string \<times> 're fval) list \<Rightarrow> js_string list option \<Rightarrow> (plan_error, js_string list option) res" where
  "intersect_candidates json_codec m [] c = Inr c"
| "intersect_candidates json_codec m ((field, cond) # ps) c =
     bind_res (candidateKeysForPredicate json_codec m field cond) (\<lambda>s.
       case s of
         None \<Rightarrow> intersect_candidates json_codec m ps c
       | Some s' \<Rightarrow> intersect_candidates json_codec m ps (Some (case c of None \<Rightarrow> s' | Some c' \<Rightarrow> filter (\<lambda>k. k \<in> set s') c')))"

definition indexedCandidateKeys :: "bool \<Rightarrow> index_manager \<Rightarrow> 're fval option \<Rightarrow> (plan_error, js_string list option) res" where
  "indexedCandidateKeys json_codec m flt = intersect_candidates json_codec m (indexPredicates flt) None"

definition eq_check :: "index_manager \<Rightarrow> js_string \<times> 're fval \<Rightarrow> (js_string \<times> json) option" where
  "eq_check m p =
     (case find_index Equality (filter (\<lambda>(i, t). ix_field i = fst p) (index_list m)) of
        None \<Rightarrow> None
      | Some i \<Rightarrow>
          (case operator_members (snd p) of
             Some ops \<Rightarrow> if length ops = 1 \<and> fst (hd ops) = js ''$eq'' then Some (ix_name i, to_json (snd (hd ops))) else None
           | None \<Rightarrow> Some (ix_name i, to_json (snd p))))"

definition cheapEqChecks :: "index_manager \<Rightarrow> 're fval option \<Rightarrow> (js_string \<times> json) list" where
  "cheapEqChecks m flt = List.map_filter (eq_check m) (indexPredicates flt)"

subsection \<open>Rows\<close>

definition passes :: "'re runtime \<Rightarrow> 're fval option \<Rightarrow> json \<Rightarrow> bool option" where
  "passes rt flt v = (case flt of None \<Rightarrow> Some True | Some f \<Rightarrow> match_filter rt v f)"

definition reached :: "nat option \<Rightarrow> nat \<Rightarrow> bool" where
  "reached limit n = (case limit of None \<Rightarrow> False | Some l \<Rightarrow> n \<ge> l)"

fun query_loop :: "'re runtime \<Rightarrow> query_source \<Rightarrow> 're fval option \<Rightarrow> bool \<Rightarrow> nat \<Rightarrow> nat option \<Rightarrow> js_string list \<Rightarrow> nat \<Rightarrow> nat
    \<Rightarrow> (plan_error, query_row list) res" where
  "query_loop rt src flt early skip limit [] seen n = Inr []"
| "query_loop rt src flt early skip limit (k # ks) seen n =
     (case qs_row src k of
        None \<Rightarrow> query_loop rt src flt early skip limit ks seen n
      | Some (v, dt) \<Rightarrow>
          (case passes rt flt v of
             None \<Rightarrow> Inl BadRegex
           | Some False \<Rightarrow> query_loop rt src flt early skip limit ks seen n
           | Some True \<Rightarrow>
               if early \<and> seen < skip then query_loop rt src flt early skip limit ks (Suc seen) n
               else map_res (\<lambda>rows. \<lparr>qr_key = k, qr_value = v, qr_dt = dt\<rparr> # rows)
                      (if early \<and> reached limit (Suc n) then Inr []
                       else query_loop rt src flt early skip limit ks (Suc seen) (Suc n))))"

definition dt_keys :: "query_source \<Rightarrow> js_string \<Rightarrow> dt_bounds \<Rightarrow> (plan_error, js_string list) res" where
  "dt_keys src col b = map_res (\<lambda>es. dedup (map fst es)) (of_walk (dt_range col (dt_options b) (qs_dt src)))"

fun narrow_dt :: "query_source \<Rightarrow> (js_string \<times> dt_bounds) list \<Rightarrow> js_string list option \<Rightarrow> (plan_error, js_string list option) res" where
  "narrow_dt src [] keys = Inr keys"
| "narrow_dt src ((col, b) # cs) keys =
     bind_res (dt_keys src col b) (\<lambda>s. narrow_dt src cs (Some (case keys of None \<Rightarrow> s | Some ks \<Rightarrow> filter (\<lambda>k. k \<in> set s) ks)))"

definition all_keys :: "js_string range_options" where
  "all_keys = \<lparr>ro_gte = None, ro_gt = None, ro_lte = None, ro_lt = None, ro_offset = 0, ro_count = None, ro_reverse = False\<rparr>"

definition query_keys :: "query_source \<Rightarrow> key_query option \<Rightarrow> js_string list option" where
  "query_keys src k =
     (case k of
        None \<Rightarrow> None
      | Some (KeyIs s) \<Rightarrow> Some [toKStr s]
      | Some (KeyRange p r) \<Rightarrow>
          Some (qs_raw src
            (if p \<noteq> None \<and> p \<noteq> Some [] then all_keys\<lparr>ro_gte := map_option toKStr p, ro_lt := map_option (\<lambda>p. toKStr p @ [0xFFFF]) p\<rparr>
             else canonRange (r\<lparr>ro_offset := 0, ro_count := None, ro_reverse := False\<rparr>))))"

definition narrow :: "js_string list option \<Rightarrow> js_string list option \<Rightarrow> js_string list option" where
  "narrow keys found =
     (case found of None \<Rightarrow> keys | Some s \<Rightarrow> Some (case keys of None \<Rightarrow> s | Some ks \<Rightarrow> filter (\<lambda>k. k \<in> set s) ks))"

definition text_hits :: "query_source \<Rightarrow> text_query option \<Rightarrow> (plan_error, (js_string \<times> int) list option) res" where
  "text_hits src t =
     (case t of
        None \<Rightarrow> Inr None
      | Some tq \<Rightarrow> (case qs_text src (tq\<lparr>tq_limit := Some (case tq_limit tq of None \<Rightarrow> 1000000 | Some n \<Rightarrow> n)\<rparr>) of
                      None \<Rightarrow> Inl (NoTextIndex (tq_index tq)) | Some hits \<Rightarrow> Inr (Some hits)))"

text \<open>Sorting: the comparator of the query, and a stable sort by a comparator.\<close>

fun cmp_rows :: "'re runtime \<Rightarrow> (js_string \<times> int) list \<Rightarrow> query_row \<Rightarrow> query_row \<Rightarrow> int" where
  "cmp_rows rt [] a b = 0"
| "cmp_rows rt ((p, dir) # ps) a b =
     (let av = value_primitive (query_getPath (qr_value a) (PathText p)); bv = value_primitive (query_getPath (qr_value b) (PathText p));
          c = (if relate (<) (<) rt av bv then -1 else if relate (>) (>) rt av bv then 1 else 0)
      in if c \<noteq> 0 then (if dir < 0 then - c else c) else cmp_rows rt ps a b)"

fun insert_by :: "('a \<Rightarrow> 'a \<Rightarrow> int) \<Rightarrow> 'a \<Rightarrow> 'a list \<Rightarrow> 'a list" where
  "insert_by cmp x [] = [x]"
| "insert_by cmp x (y # ys) = (if cmp x y > 0 then y # insert_by cmp x ys else x # y # ys)"

definition sort_by :: "('a \<Rightarrow> 'a \<Rightarrow> int) \<Rightarrow> 'a list \<Rightarrow> 'a list" where
  "sort_by cmp xs = foldr (insert_by cmp) xs []"

fun rank_in :: "js_string \<Rightarrow> (js_string \<times> int) list \<Rightarrow> nat" where
  "rank_in k [] = 1000000000"
| "rank_in k ((k', s) # hits) = (if k \<in> fst ` set hits then Suc (rank_in k hits) else if k = k' then 0 else 1000000000)"

definition slice_rows :: "nat \<Rightarrow> nat option \<Rightarrow> 'a list \<Rightarrow> 'a list" where
  "slice_rows skip limit xs = (case limit of None \<Rightarrow> drop skip xs | Some l \<Rightarrow> take l (drop skip xs))"

definition query_slow :: "'re runtime \<Rightarrow> query_source \<Rightarrow> 're query_options \<Rightarrow> (plan_error, query_row list) res" where
  "query_slow rt src q =
     bind_res (narrow_dt src (case q_dt q of None \<Rightarrow> [] | Some cs \<Rightarrow> cs) (query_keys src (q_key q))) (\<lambda>keys1.
     bind_res (text_hits src (q_text q)) (\<lambda>hits.
     bind_res (indexedCandidateKeys (qs_json src) (qs_indexes src) (q_filter q)) (\<lambda>indexed.
       let keys = narrow (narrow keys1 (map_option (map fst) hits)) indexed;
           skip = (case q_skip q of None \<Rightarrow> 0 | Some n \<Rightarrow> n);
           early = (q_sort q = None \<and> hits = None)
       in bind_res (query_loop rt src (q_filter q) early skip (q_limit q) (case keys of None \<Rightarrow> qs_raw src all_keys | Some ks \<Rightarrow> ks) 0 0) (\<lambda>docs.
            let ranked = (case hits of Some hs \<Rightarrow> if q_sort q = None then sort_key (\<lambda>d. rank_in (qr_key d) hs) docs else docs | None \<Rightarrow> docs);
                sorted = (case q_sort q of Some ps \<Rightarrow> sort_by (cmp_rows rt ps) ranked | None \<Rightarrow> ranked)
            in Inr (if early then sorted else slice_rows skip (q_limit q) sorted)))))"

subsection \<open>The fast path over one datetime column\<close>

fun rejected :: "index_manager \<Rightarrow> (js_string \<times> json) list \<Rightarrow> js_string \<Rightarrow> (plan_error, bool) res" where
  "rejected m [] k = Inr False"
| "rejected m ((name, v) # cs) k =
     bind_res (of_index (hasEq name (Some v) k m)) (\<lambda>b. if \<not> b then Inr True else rejected m cs k)"

fun fast_loop :: "'re runtime \<Rightarrow> query_source \<Rightarrow> 're fval option \<Rightarrow> (js_string \<times> json) list \<Rightarrow> nat \<Rightarrow> nat \<Rightarrow> js_string list \<Rightarrow> nat \<Rightarrow> nat
    \<Rightarrow> (plan_error, query_row list) res" where
  "fast_loop rt src flt checks skip limit [] skipped n = Inr []"
| "fast_loop rt src flt checks skip limit (k # ks) skipped n =
     bind_res (rejected (qs_indexes src) checks k) (\<lambda>rej.
       if rej then fast_loop rt src flt checks skip limit ks skipped n
       else (case qs_row src k of
               None \<Rightarrow> fast_loop rt src flt checks skip limit ks skipped n
             | Some (v, dt) \<Rightarrow>
                 (case passes rt flt v of
                    None \<Rightarrow> Inl BadRegex
                  | Some False \<Rightarrow> fast_loop rt src flt checks skip limit ks skipped n
                  | Some True \<Rightarrow>
                      if skipped < skip then fast_loop rt src flt checks skip limit ks (Suc skipped) n
                      else map_res (\<lambda>rows. \<lparr>qr_key = k, qr_value = v, qr_dt = dt\<rparr> # rows)
                             (if Suc n \<ge> limit then Inr [] else fast_loop rt src flt checks skip limit ks skipped (Suc n)))))"

text \<open>The column, bounds, direction and limit of an eligible query.\<close>

definition fast_eligible :: "'re query_options \<Rightarrow> (js_string \<times> dt_bounds \<times> bool \<times> nat) option" where
  "fast_eligible q =
     (case (q_limit q, q_dt q) of
        (Some limit, Some [(col, b)]) \<Rightarrow>
          if q_text q \<noteq> None \<or> q_key q \<noteq> None \<or> db_offset b \<noteq> None \<or> db_count b \<noteq> None then None
          else (case q_sort q of
                  None \<Rightarrow> Some (col, b, False, limit)
                | Some [(key, dir)] \<Rightarrow> if key \<noteq> col then None else Some (col, b, dir < 0, limit)
                | Some _ \<Rightarrow> None)
      | _ \<Rightarrow> None)"

definition tryDtOrderedLimit :: "'re runtime \<Rightarrow> query_source \<Rightarrow> 're query_options \<Rightarrow> (plan_error, query_row list) res option" where
  "tryDtOrderedLimit rt src q =
     (case fast_eligible q of
        None \<Rightarrow> None
      | Some (col, b, reverse, limit) \<Rightarrow>
          Some (bind_res (of_walk (dt_iterate col (dt_options (b\<lparr>db_reverse := reverse\<rparr>)) (qs_dt src))) (\<lambda>es.
            fast_loop rt src (q_filter q) (cheapEqChecks (qs_indexes src) (q_filter q))
              (case q_skip q of None \<Rightarrow> 0 | Some n \<Rightarrow> n) limit (map fst es) 0 0)))"

definition query_rows :: "'re runtime \<Rightarrow> query_source \<Rightarrow> 're query_options \<Rightarrow> (plan_error, query_row list) res" where
  "query_rows rt src q = (case tryDtOrderedLimit rt src q of Some fast \<Rightarrow> fast | None \<Rightarrow> query_slow rt src q)"

end
