(* ===== verification/PlannerProofs.thy ===== *)
theory PlannerProofs
  imports Planner IndexUnique DtIndexProofs
begin

section \<open>The planner against a full scan\<close>

text \<open>
  The indexes only speed a query up: a row that passes the filter is always among the candidates.
  This needs the documents to be the indexed ones and the predicates an index answers to be
  \<open>planned\<close>: on such fields the path of the filter is the path of the index, no condition is a bare
  regular expression, and a range index sees only numbers. The last section shows what happens
  without these conditions.
\<close>

subsection \<open>Filters and their predicates\<close>

lemma and_then_True: "and_then a b = Some True \<longleftrightarrow> a = Some True \<and> b = Some True"
  by (simp add: and_then_def)

lemma match_ops_all: "match_ops rt val ms = Some True \<Longrightarrow> (op, arg) \<in> set ms \<Longrightarrow> match_op rt val op arg = Some True"
  by (induction ms) (auto simp: and_then_True)

lemma match_leaves_all: "match_leaves rt doc ms = Some True \<Longrightarrow> (k, c) \<in> set ms \<Longrightarrow> matchCond rt (query_getPath doc (PathText k)) c = Some True"
  by (induction ms) (auto simp: and_then_True)

lemma match_every_all: "match_every rt doc fs = Some True \<Longrightarrow> f \<in> set fs \<Longrightarrow> match_filter rt doc f = Some True"
  by (induction fs) (auto simp: and_then_True)

lemma operator_keys: "operator_key (js ''$and'')" "operator_key (js ''$or'')" "operator_key (js ''$nor'')" "operator_key (js ''$not'')"
  by (simp_all add: operator_key_def js_def)

lemma match_members_plain:
  "match_members rt doc ms = Some True \<Longrightarrow> (k, c) \<in> set ms \<Longrightarrow> \<not> operator_key k \<Longrightarrow>
    matchCond rt (query_getPath doc (PathText k)) c = Some True"
  by (induction ms) (auto simp: and_then_True operator_keys split: if_splits)

lemma match_members_and:
  "match_members rt doc ms = Some True \<Longrightarrow> (js ''$and'', FArr fs) \<in> set ms \<Longrightarrow> match_every rt doc fs = Some True"
  by (induction ms) (auto simp: and_then_True)

lemma digits_not_operator: "\<not> operator_key (digits n)"
  using digits_range [of "hd (digits n)" n] by (cases "digits n") (auto simp: operator_key_def word_le_nat_alt)

lemma indexed_members_plain: "(k, c) \<in> set (indexed_members xs) \<Longrightarrow> \<not> operator_key k"
  by (auto simp: indexed_members_def digits_not_operator)

lemma member_list_sound:
  assumes "match_filter rt doc f = Some True" "member_list f = Some ms" "(k, c) \<in> set ms" "\<not> operator_key k"
  shows "matchCond rt (query_getPath doc (PathText k)) c = Some True"
  using assms by (cases f) (auto simp: member_list_def intro: match_members_plain match_leaves_all)

lemma predicates_sound:
  assumes "match_filter rt doc f = Some True" "(k, c) \<in> set (indexPredicates (Some f))"
  shows "matchCond rt (query_getPath doc (PathText k)) c = Some True"
proof -
  obtain ms where ms: "member_list f = Some ms" "(k, c) \<in> set (concat (map member_predicates ms))"
    using assms(2) by (cases "member_list f") (simp_all add: indexPredicates_def)
  then obtain k0 c0 where m: "(k0, c0) \<in> set ms" "(k, c) \<in> set (member_predicates (k0, c0))" by auto
  show ?thesis
  proof (cases "k0 = js ''$and'' \<and> (\<exists>fs. c0 = FArr fs)")
    case True
    then obtain fs where k0: "k0 = js ''$and''" "c0 = FArr fs" by blast
    then obtain f' where f0: "f' \<in> set fs" "(k, c) \<in> set (case member_list f' of Some ms \<Rightarrow> plain_members ms | None \<Rightarrow> [])"
      using m(2) by (auto simp: member_predicates_def)
    then obtain ms' where f': "f' \<in> set fs" "member_list f' = Some ms'" "(k, c) \<in> set ms'" "\<not> operator_key k"
      by (cases "member_list f'") (auto simp: plain_members_def)
    have "match_every rt doc fs = Some True"
    proof (cases f)
      case (FObj ms0)
      then show ?thesis using assms(1) ms(1) m(1) k0 match_members_and by (auto simp: member_list_def)
    next
      case (FArr xs)
      then have "\<not> operator_key k0" using ms(1) m(1) indexed_members_plain by (fastforce simp: member_list_def)
      then show ?thesis using k0(1) operator_keys by simp
    qed (use ms m in \<open>auto simp: member_list_def\<close>)
    from member_list_sound [OF match_every_all [OF this f'(1)] f'(2-4)] show ?thesis .
  next
    case False
    then have "\<not> operator_key k0" "k = k0" "c = c0"
      using m(2) by (auto simp: member_predicates_def split: if_splits fval.splits)
    with member_list_sound [OF assms(1) ms(1) m(1)] show ?thesis by simp
  qed
qed

subsection \<open>Paths\<close>

definition plain_field :: "js_string \<Rightarrow> bool" where
  "plain_field f \<longleftrightarrow> 91 \<notin> set f \<and> [] \<notin> set (split_at 46 f)"

lemma plain_path:
  assumes "plain_field f"
  shows "query_getPath d (PathText f) = getField d f"
proof -
  have seg: "segment_tokens s = [TName s]" if "s \<in> set (split_at 46 f)" for s
  proof -
    have "91 \<notin> set s" "s \<noteq> []" using assms that split_at_set [OF that] by (auto simp: plain_field_def)
    then show ?thesis by (subst segment_tokens.simps) (simp add: bracket_match_def)
  qed
  have "concat (map segment_tokens ss) = map TName ss" if "\<forall>s\<in>set ss. segment_tokens s = [TName s]" for ss
    using that by (induction ss) auto
  then have "tokenizePath (PathText f) = map TName (split_at 46 f)" using seg by (simp add: tokenizePath_def)
  then show ?thesis by (simp add: query_getPath_def getField_def dotted_path_def token_key_def foldl_map)
qed

subsection \<open>Candidates of one predicate\<close>

definition rows_of :: "query_source \<Rightarrow> js_string \<rightharpoonup> json" where
  "rows_of src k = map_option fst (qs_row src k)"

definition named :: "index_manager \<Rightarrow> bool" where
  "named m \<longleftrightarrow> distinct (map fst m) \<and> (\<forall>(n, i)\<in>set m. ix_name (info_of i) = n)"

lemma strict_eq_key:
  assumes "strict_eq v f"
  shows "v \<noteq> None \<and> flatten v = [v] \<and> scalarKey v = scalarKey (Some (to_json f))"
  using assms by (induction v f rule: strict_eq.induct) (simp_all add: flatten_def scalarKey_def)

lemma find_in: "find P xs = Some x \<Longrightarrow> x \<in> set xs \<and> P x"
  by (induction xs) (auto split: if_splits)

lemma find_index_get:
  assumes "named m" "find_index t (filter (\<lambda>(i, t). ix_field i = field) (index_list m)) = Some i"
  obtains j where "map_of m (ix_name i) = Some j" "info_of j = i" "type_of_index j = t" "ix_field i = field" "(ix_name i, j) \<in> set m"
proof -
  let ?is = "filter (\<lambda>(i, t). ix_field i = field) (index_list m)"
  obtain x where x: "find (\<lambda>(i, t'). t' = t) ?is = Some x" "fst x = i" using assms(2) unfolding find_index_def by auto
  have "x \<in> set ?is" "snd x = t" using find_in [OF x(1)] by (simp_all add: case_prod_unfold)
  moreover have "x = (i, t)" using x(2) \<open>snd x = t\<close> by (simp add: prod_eq_iff)
  ultimately have it: "(i, t) \<in> set (index_list m)" "ix_field i = field" by simp_all
  from it(1) obtain p where p: "p \<in> set m" "(i, t) = (\<lambda>(name, i). (info_of i, type_of_index i)) p"
    unfolding index_list_def set_map by (elim imageE) (rule that)
  obtain n j where "p = (n, j)" by (cases p)
  with p have j: "(n, j) \<in> set m" "info_of j = i" "type_of_index j = t" by simp_all
  have n: "ix_name i = n" using assms(1) j unfolding named_def by fast
  have "map_of m n = Some j" using assms(1) j(1) unfolding named_def by (simp add: map_of_is_SomeI)
  with j n it(2) show thesis by (intro that) simp_all
qed

text \<open>An equality lookup finds every document whose field is strictly equal.\<close>

lemma findEq_complete:
  assumes "indexed docs m" "map_of m name = Some (EqIndex e)"
  shows "\<exists>pks. findEq name (Some (to_json f)) m = Inr pks \<and> distinct pks \<and> set pks \<subseteq> dom docs \<and>
    (\<forall>k d. docs k = Some d \<and> strict_eq (getField d (ix_field e)) f \<longrightarrow> k \<in> set pks)"
proof -
  obtain pks where pks: "findEq name (Some (to_json f)) m = Inr pks" "distinct pks"
    "set pks = {pk. \<exists>doc ks. docs pk = Some doc \<and> eq_keys e doc = Some ks \<and> scalarKey (Some (to_json f)) \<in> set ks}"
    using findEq_spec [OF assms] by blast
  have "k \<in> set pks" if "docs k = Some d" "strict_eq (getField d (ix_field e)) f" for k d
  proof -
    note s = strict_eq_key [OF that(2)]
    have "eq_keys e d = Some [scalarKey (Some (to_json f))]"
      using s by (simp add: eq_keys_def Let_def)
    with that(1) show ?thesis unfolding pks(3) by auto
  qed
  with pks show ?thesis by (intro exI [of _ pks]) auto
qed

lemma find_all_complete:
  assumes "indexed docs m" "map_of m name = Some (EqIndex e)"
  shows "\<exists>pks. find_all name m vs = Inr pks \<and> set pks \<subseteq> dom docs \<and>
    (\<forall>k d. docs k = Some d \<and> list_ex (strict_eq (getField d (ix_field e))) vs \<longrightarrow> k \<in> set pks)"
proof (induction vs)
  case Nil
  then show ?case by simp
next
  case (Cons v vs)
  then obtain rest where rest: "find_all name m vs = Inr rest" "set rest \<subseteq> dom docs"
    "\<forall>k d. docs k = Some d \<and> list_ex (strict_eq (getField d (ix_field e))) vs \<longrightarrow> k \<in> set rest" by blast
  obtain pks where "findEq name (Some (to_json v)) m = Inr pks" "set pks \<subseteq> dom docs"
    "\<forall>k d. docs k = Some d \<and> strict_eq (getField d (ix_field e)) v \<longrightarrow> k \<in> set pks"
    using findEq_complete [OF assms, of v] by blast
  with rest show ?case by auto
qed

lemma match_in: "match_op rt val (js ''$in'') arg = Some (case arg of FArr xs \<Rightarrow> list_ex (strict_eq val) xs | _ \<Rightarrow> False)"
  by (simp add: match_op_def Let_def js_def)

lemma match_eq: "match_op rt val (js ''$eq'') arg = Some (strict_eq val arg)"
  by (simp add: match_op_def Let_def)

lemma eq_candidates_complete:
  assumes "indexed docs m" "map_of m name = Some (EqIndex e)" "\<And>r. cond \<noteq> FRe r"
  shows "\<exists>c. eq_candidates name cond m = Inr c \<and> (\<forall>s. c = Some s \<longrightarrow> distinct s \<and> set s \<subseteq> dom docs \<and>
    (\<forall>k d. docs k = Some d \<and> matchCond rt (getField d (ix_field e)) cond = Some True \<longrightarrow> k \<in> set s))"
proof (cases "operator_members cond")
  case None
  then have cond: "matchCond rt v cond = Some (strict_eq v cond)" for v
    using assms(3) by (cases cond) (auto simp: matchCond_def operator_members_def)
  from findEq_complete [OF assms(1,2), of cond] show ?thesis
    using None unfolding cond by (auto simp: eq_candidates_def)
next
  case (Some ops)
  then have cond: "matchCond rt v cond = match_ops rt v ops" for v
    by (cases cond) (auto simp: matchCond_def operator_members_def)
  show ?thesis
  proof (cases "length ops = 1 \<and> fst (hd ops) = js ''$eq''")
    case True
    then obtain arg where ops: "ops = [(js ''$eq'', arg)]" by (cases ops; cases "hd ops") auto
    have "match_ops rt v ops = Some (strict_eq v arg)" for v by (simp add: ops and_then_def match_eq)
    with findEq_complete [OF assms(1,2), of arg] show ?thesis
      using Some unfolding cond by (auto simp: eq_candidates_def ops)
  next
    case False
    show ?thesis
    proof (cases "\<exists>vs. map_of ops (js ''$in'') = Some (FArr vs)")
      case True
      then obtain vs where vs: "map_of ops (js ''$in'') = Some (FArr vs)" by blast
      have "list_ex (strict_eq v) vs" if "match_ops rt v ops = Some True" for v
        using match_ops_all [OF that map_of_SomeD [OF vs]] by (simp add: match_in)
      moreover obtain pks where pks: "find_all name m vs = Inr pks" "set pks \<subseteq> dom docs"
        "\<forall>k d. docs k = Some d \<and> list_ex (strict_eq (getField d (ix_field e))) vs \<longrightarrow> k \<in> set pks"
        using find_all_complete [OF assms(1,2), of vs] by blast
      moreover have "eq_candidates name cond m = Inr (Some (dedup pks))"
        unfolding eq_candidates_def Some option.case if_not_P [OF False] vs fval.case pks(1) map_res_simps by (rule refl)
      ultimately show ?thesis unfolding cond by (intro exI [of _ "Some (dedup pks)"]) auto
    next
      case no: False
      have "(case map_of ops (js ''$in'') of Some (FArr vs) \<Rightarrow> map_res (\<lambda>pks. Some (dedup pks)) (find_all name m vs) | _ \<Rightarrow> Inr None) = Inr None"
        using no by (simp split: option.split fval.split)
      then have "eq_candidates name cond m = Inr None"
        unfolding eq_candidates_def Some option.case if_not_P [OF False] .
      then show ?thesis by simp
    qed
  qed
qed

subsection \<open>Range predicates\<close>

lemma match_number:
  assumes "match_ops rt val ops = Some True"
  shows "number_member ops (js ''$gte'') = Some b \<Longrightarrow> relate (\<ge>) (\<ge>) rt (value_primitive val) (PNum b)"
    "number_member ops (js ''$gt'') = Some b \<Longrightarrow> relate (>) (>) rt (value_primitive val) (PNum b)"
    "number_member ops (js ''$lte'') = Some b \<Longrightarrow> relate (\<le>) (\<le>) rt (value_primitive val) (PNum b)"
    "number_member ops (js ''$lt'') = Some b \<Longrightarrow> relate (<) (<) rt (value_primitive val) (PNum b)"
proof -
  have m: "match_op rt val k (FNum b) = Some True" if "number_member ops k = Some b" for k
  proof -
    have "map_of ops k = Some (FNum b)" using that by (auto simp: number_member_def split: option.splits fval.splits)
    from match_ops_all [OF assms map_of_SomeD [OF this]] show ?thesis .
  qed
  show "number_member ops (js ''$gte'') = Some b \<Longrightarrow> relate (\<ge>) (\<ge>) rt (value_primitive val) (PNum b)"
    "number_member ops (js ''$gt'') = Some b \<Longrightarrow> relate (>) (>) rt (value_primitive val) (PNum b)"
    "number_member ops (js ''$lte'') = Some b \<Longrightarrow> relate (\<le>) (\<le>) rt (value_primitive val) (PNum b)"
    "number_member ops (js ''$lt'') = Some b \<Longrightarrow> relate (<) (<) rt (value_primitive val) (PNum b)"
    by (drule m, simp add: match_op_def filter_primitive_def Let_def js_def)+
qed

lemma relate_number: "relate f g rt (value_primitive (Some (JNum n))) (PNum b) \<longleftrightarrow> f n b"
  "\<not> relate f g rt (value_primitive None) (PNum b)"
  by (simp_all add: relate_def value_primitive_def to_number_def)

lemma range_spec_all: "range_spec cmpK (find_range_options (range_bounds ops)) es =
    filter (\<lambda>e. \<not> below_lower cmpK (find_range_options (range_bounds ops)) (fst e) \<and>
                 \<not> above_upper cmpK (find_range_options (range_bounds ops)) (fst e)) es"
  by (simp add: range_spec_def find_range_options_def range_bounds_def Let_def)

lemma range_candidates_complete:
  assumes "indexed docs m" "map_of m name = Some (RangeIndex r)"
    and numeric: "\<And>k d. docs k = Some d \<Longrightarrow> getField d (ix_field r) = None \<or> (\<exists>n. getField d (ix_field r) = Some (JNum n))"
  shows "\<exists>c. range_candidates name cond m = Inr c \<and> (\<forall>s. c = Some s \<longrightarrow> distinct s \<and> set s \<subseteq> dom docs \<and>
    (\<forall>k d. docs k = Some d \<and> matchCond rt (getField d (ix_field r)) cond = Some True \<longrightarrow> k \<in> set s))"
proof (cases "operator_members cond")
  case None
  then show ?thesis by (simp add: range_candidates_def)
next
  case (Some ops)
  then have cond: "matchCond rt v cond = match_ops rt v ops" for v
    by (cases cond) (auto simp: matchCond_def operator_members_def)
  let ?b = "range_bounds ops" and ?o = "find_range_options (range_bounds ops)"
  show ?thesis
  proof (cases "fo_min ?b = None \<and> fo_max ?b = None")
    case True
    then show ?thesis using Some by (simp add: range_candidates_def Let_def)
  next
    case False
    obtain es where es: "sorted_entries cmpNumber cmpString {(v, pk). \<exists>doc. docs pk = Some doc \<and> v \<in> set (range_keys r doc)} es"
      "findRange name ?b m = Inr (Some (map (\<lambda>(v, pk). (pk, v)) (range_spec cmpNumber ?o es)))"
      using findRange_spec [OF assms(1,2)] by blast
    let ?keys = "dedup (map fst (map (\<lambda>(v, pk). (pk, v)) (range_spec cmpNumber ?o es)))"
    have E: "set es = {(v, pk). \<exists>doc. docs pk = Some doc \<and> v \<in> set (range_keys r doc)}" using es(1) by (simp add: sorted_entries_def)
    have keys: "k \<in> set ?keys \<longleftrightarrow> (\<exists>n d. docs k = Some d \<and> n \<in> set (range_keys r d) \<and> \<not> below_lower cmpNumber ?o n \<and> \<not> above_upper cmpNumber ?o n)" for k
      unfolding range_spec_all using E by (force simp: image_iff)
    have "k \<in> set ?keys" if k: "docs k = Some d" "matchCond rt (getField d (ix_field r)) cond = Some True" for k d
    proof -
      let ?v = "getField d (ix_field r)"
      have ops: "match_ops rt ?v ops = Some True" using k(2) cond by simp
      have "?v \<noteq> None"
      proof
        assume "?v = None"
        then have no: "\<not> relate f g rt (value_primitive ?v) (PNum b)" for f g b by (simp only: relate_number not_False_eq_True)
        have "number_member ops (js ''$gte'') = None" "number_member ops (js ''$gt'') = None"
          "number_member ops (js ''$lte'') = None" "number_member ops (js ''$lt'') = None"
          using match_number [OF ops] no by (meson not_Some_eq)+
        with False show False by (simp add: range_bounds_def Let_def)
      qed
      then obtain n where n: "?v = Some (JNum n)" using numeric [OF k(1)] by auto
      have b: "\<And>b. number_member ops (js ''$gte'') = Some b \<Longrightarrow> n \<ge> b" "\<And>b. number_member ops (js ''$gt'') = Some b \<Longrightarrow> n > b"
        "\<And>b. number_member ops (js ''$lte'') = Some b \<Longrightarrow> n \<le> b" "\<And>b. number_member ops (js ''$lt'') = Some b \<Longrightarrow> n < b"
        using match_number [OF ops] unfolding n relate_number(1) by blast+
      have "\<not> below_lower cmpNumber ?o n"
        using b(1,2) by (auto simp: below_lower_def find_range_options_def range_bounds_def Let_def cmpNumber_def split: option.splits)
      moreover have "\<not> above_upper cmpNumber ?o n"
        using b(3,4) by (auto simp: above_upper_def find_range_options_def range_bounds_def Let_def cmpNumber_def split: option.splits)
      moreover have "n \<in> set (range_keys r d)" unfolding range_keys_def n by (simp add: flatten_def numbers_of_iff)
      ultimately show ?thesis unfolding keys using k(1) by blast
    qed
    moreover have "range_candidates name cond m = Inr (Some ?keys)"
      using Some False es(2) by (auto simp: range_candidates_def Let_def of_index_def of_walk_def)
    moreover have "set ?keys \<subseteq> dom docs"
    proof
      fix k assume "k \<in> set ?keys"
      with keys [of k] show "k \<in> dom docs" by blast
    qed
    moreover have "range_candidates name cond m = Inr (Some K) \<Longrightarrow> set K \<subseteq> dom docs \<Longrightarrow> distinct K \<Longrightarrow>
        (\<And>k d. docs k = Some d \<Longrightarrow> matchCond rt (getField d (ix_field r)) cond = Some True \<Longrightarrow> k \<in> set K) \<Longrightarrow> ?thesis" for K
      by auto
    ultimately show ?thesis using distinct_dedup by blast
  qed
qed

subsection \<open>Candidates of a filter\<close>

definition planned :: "index_manager \<Rightarrow> (js_string \<rightharpoonup> json) \<Rightarrow> 're fval option \<Rightarrow> bool" where
  "planned m docs flt \<longleftrightarrow> (\<forall>(field, cond)\<in>set (indexPredicates flt). \<forall>(n, i)\<in>set m. ix_field (info_of i) = field \<longrightarrow>
     plain_field field \<and> (\<forall>r. cond \<noteq> FRe r) \<and>
     (type_of_index i = Range \<longrightarrow>
       (\<forall>k d. docs k = Some d \<longrightarrow> getField d field = None \<or> (\<exists>n. getField d field = Some (JNum n)))))"

definition sound_candidates :: "'re runtime \<Rightarrow> (js_string \<rightharpoonup> json) \<Rightarrow> (js_string \<times> 're fval) list \<Rightarrow> js_string list option \<Rightarrow> bool" where
  "sound_candidates rt docs ps c \<longleftrightarrow> (\<forall>s. c = Some s \<longrightarrow> distinct s \<and> set s \<subseteq> dom docs \<and>
     (\<forall>k d. docs k = Some d \<and> (\<forall>(field, cond)\<in>set ps. matchCond rt (query_getPath d (PathText field)) cond = Some True) \<longrightarrow> k \<in> set s))"

lemma sound_None [simp]: "sound_candidates rt docs ps None"
  by (simp add: sound_candidates_def)

lemma candidates_sound:
  assumes "indexed docs m" "named m" "planned m docs flt" "(field, cond) \<in> set (indexPredicates flt)"
  shows "\<exists>c. candidateKeysForPredicate json_codec m field cond = Inr c \<and> sound_candidates rt docs [(field, cond)] c"
proof (cases "\<not> json_codec \<or> m = [] \<or> filter (\<lambda>(i, t). ix_field i = field) (index_list m) = []")
  case True
  then show ?thesis by (auto simp: candidateKeysForPredicate_def)
next
  case False
  let ?is = "filter (\<lambda>(i, t). ix_field i = field) (index_list m)"
  have plan: "plain_field field" "cond \<noteq> FRe re" "type_of_index j = Range \<Longrightarrow> docs k = Some d \<Longrightarrow> getField d field = None \<or> (\<exists>n. getField d field = Some (JNum n))"
    if "(n, j) \<in> set m" "ix_field (info_of j) = field" for n j k d re
    using assms(3,4) that unfolding planned_def by fastforce+
  have one: "sound_candidates rt docs [(field, cond)] c" if "plain_field field" "\<forall>s. c = Some s \<longrightarrow> distinct s \<and> set s \<subseteq> dom docs \<and>
      (\<forall>k d. docs k = Some d \<and> matchCond rt (getField d field) cond = Some True \<longrightarrow> k \<in> set s)" for c
    using that by (auto simp: sound_candidates_def plain_path)
  have eq: "\<exists>c. (case find_index Equality ?is of None \<Rightarrow> Inr None | Some i \<Rightarrow> of_index (eq_candidates (ix_name i) cond m)) = Inr c \<and>
      sound_candidates rt docs [(field, cond)] c"
  proof (cases "find_index Equality ?is")
    case None
    then show ?thesis by simp
  next
    case (Some i)
    obtain j where j: "map_of m (ix_name i) = Some j" "info_of j = i" "type_of_index j = Equality" "ix_field i = field" "(ix_name i, j) \<in> set m"
      by (rule find_index_get [OF assms(2) Some])
    obtain e where e: "j = EqIndex e" using j(3) by (cases j) (auto simp: type_of_index_def)
    have f: "ix_field e = field" using j(2,4) e by auto
    obtain c where c: "eq_candidates (ix_name i) cond m = Inr c" "\<forall>s. c = Some s \<longrightarrow> distinct s \<and> set s \<subseteq> dom docs \<and>
        (\<forall>k d. docs k = Some d \<and> matchCond rt (getField d (ix_field e)) cond = Some True \<longrightarrow> k \<in> set s)"
      using eq_candidates_complete [OF assms(1) j(1) [unfolded e], where cond = cond and rt = rt] plan(2) [OF j(5)] j(2,4) by auto
    have "sound_candidates rt docs [(field, cond)] c"
      by (rule one) (use plan(1) [OF j(5)] j(2,4) c(2) f in auto)
    with Some c(1) show ?thesis by (simp add: of_index_def)
  qed
  have rg: "\<exists>c. (case find_index Range ?is of None \<Rightarrow> Inr None | Some i \<Rightarrow> range_candidates (ix_name i) cond m) = Inr c \<and>
      sound_candidates rt docs [(field, cond)] c"
  proof (cases "find_index Range ?is")
    case None
    then show ?thesis by simp
  next
    case (Some i)
    obtain j where j: "map_of m (ix_name i) = Some j" "info_of j = i" "type_of_index j = Range" "ix_field i = field" "(ix_name i, j) \<in> set m"
      by (rule find_index_get [OF assms(2) Some])
    obtain r where r: "j = RangeIndex r" using j(3) by (cases j) (auto simp: type_of_index_def)
    have f: "ix_field r = field" using j(2,4) r by auto
    have num: "docs k = Some d \<Longrightarrow> getField d (ix_field r) = None \<or> (\<exists>n. getField d (ix_field r) = Some (JNum n))" for k d
      using plan(3) [OF j(5) _ j(3)] j(2,4) f by simp
    obtain c where c: "range_candidates (ix_name i) cond m = Inr c" "\<forall>s. c = Some s \<longrightarrow> distinct s \<and> set s \<subseteq> dom docs \<and>
        (\<forall>k d. docs k = Some d \<and> matchCond rt (getField d (ix_field r)) cond = Some True \<longrightarrow> k \<in> set s)"
      using range_candidates_complete [OF assms(1) j(1) [unfolded r], where cond = cond and rt = rt] num by blast
    have "sound_candidates rt docs [(field, cond)] c"
      by (rule one) (use plan(1) [OF j(5)] j(2,4) c(2) f in auto)
    with Some c(1) show ?thesis by simp
  qed
  obtain c1 where c1: "(case find_index Equality ?is of None \<Rightarrow> Inr None | Some i \<Rightarrow> of_index (eq_candidates (ix_name i) cond m)) = Inr c1"
    "sound_candidates rt docs [(field, cond)] c1" using eq by blast
  obtain c2 where c2: "(case find_index Range ?is of None \<Rightarrow> Inr None | Some i \<Rightarrow> range_candidates (ix_name i) cond m) = Inr c2"
    "sound_candidates rt docs [(field, cond)] c2" using rg by blast
  have "candidateKeysForPredicate json_codec m field cond = Inr (if c1 \<noteq> None then c1 else c2)"
    using False c1(1) c2(1) by (simp add: candidateKeysForPredicate_def Let_def)
  with c1(2) c2(2) show ?thesis by simp
qed

lemma sound_narrow:
  assumes "sound_candidates rt docs ps c" "sound_candidates rt docs [p] (Some s)"
  shows "sound_candidates rt docs (ps @ [p]) (Some (case c of None \<Rightarrow> s | Some c' \<Rightarrow> filter (\<lambda>k. k \<in> set s) c'))"
  using assms by (cases c) (auto simp: sound_candidates_def)

lemma sound_more: "sound_candidates rt docs ps c \<Longrightarrow> sound_candidates rt docs (ps @ qs) c"
  by (auto simp: sound_candidates_def)

lemma intersect_sound:
  assumes "indexed docs m" "named m" "planned m docs flt"
  shows "set ps \<subseteq> set (indexPredicates flt) \<Longrightarrow> sound_candidates rt docs qs c \<Longrightarrow>
    \<exists>c'. intersect_candidates json_codec m ps c = Inr c' \<and> sound_candidates rt docs (qs @ ps) c'"
proof (induction ps arbitrary: c qs)
  case Nil
  then show ?case by simp
next
  case (Cons p ps)
  obtain field cond where p: "p = (field, cond)" by (cases p)
  obtain s where s: "candidateKeysForPredicate json_codec m field cond = Inr s" "sound_candidates rt docs [p] s"
    using candidates_sound [OF assms, where field = field and cond = cond and json_codec = json_codec and rt = rt] Cons.prems(1) p by auto
  let ?c = "case s of None \<Rightarrow> c | Some s' \<Rightarrow> Some (case c of None \<Rightarrow> s' | Some c' \<Rightarrow> filter (\<lambda>k. k \<in> set s') c')"
  have "sound_candidates rt docs (qs @ [p]) ?c"
    using sound_narrow [OF Cons.prems(2)] sound_more [OF Cons.prems(2)] s(2) by (cases s) auto
  with Cons.IH [of "qs @ [p]" ?c] Cons.prems(1) s(1) p show ?case by (cases s) auto
qed

text \<open>Every row the filter accepts is among the candidates.\<close>

lemma indexed_sound:
  assumes "indexed docs m" "named m" "planned m docs flt"
  shows "\<exists>c. indexedCandidateKeys json_codec m flt = Inr c \<and> (\<forall>s. c = Some s \<longrightarrow> distinct s \<and> set s \<subseteq> dom docs \<and>
    (\<forall>k d. docs k = Some d \<and> passes rt flt d = Some True \<longrightarrow> k \<in> set s))"
proof -
  obtain c where c: "intersect_candidates json_codec m (indexPredicates flt) None = Inr c" "sound_candidates rt docs (indexPredicates flt) c"
    using intersect_sound [OF assms subset_refl, where rt = rt and qs = "[]" and c = None and json_codec = json_codec] by auto
  have "matchCond rt (query_getPath d (PathText field)) cond = Some True"
    if "passes rt flt d = Some True" "(field, cond) \<in> set (indexPredicates flt)" for d field cond
  proof (cases flt)
    case None
    with that show ?thesis by (simp add: indexPredicates_def)
  next
    case (Some f)
    with that predicates_sound show ?thesis by (auto simp: passes_def)
  qed
  with c(2) have "\<forall>s. c = Some s \<longrightarrow> distinct s \<and> set s \<subseteq> dom docs \<and>
    (\<forall>k d. docs k = Some d \<and> passes rt flt d = Some True \<longrightarrow> k \<in> set s)"
    unfolding sound_candidates_def by fast
  with c(1) show ?thesis by (simp add: indexedCandidateKeys_def)
qed

subsection \<open>Loops over rows\<close>

lemma distinct_dedup_id: "distinct xs \<Longrightarrow> dedup xs = xs"
  by (induction xs) (simp_all add: removeAll_id)

lemma dt_iterate_range: "dt_iterate col ro d = dt_range col ro d"
proof -
  have "iterate_entries cmpNumber l ro = range_entries cmpNumber l ro" for l :: "(int, js_string) skip_list"
    unfolding iterate_entries_def range_entries_def by (rule refl)
  then show ?thesis by (simp add: dt_iterate_def dt_range_def split: option.split)
qed

lemma swap_fst: "map fst (map (\<lambda>(a, b). (b, a)) xs) = map snd xs"
  by (induction xs) auto

lemma bind_Inr_id: "bind_res r Inr = r"
  by (cases r) simp_all

definition good_row :: "'re runtime \<Rightarrow> query_source \<Rightarrow> 're fval option \<Rightarrow> js_string \<Rightarrow> query_row option" where
  "good_row rt src flt k =
     (case qs_row src k of
        None \<Rightarrow> None
      | Some (v, dt) \<Rightarrow> if passes rt flt v = Some True then Some \<lparr>qr_key = k, qr_value = v, qr_dt = dt\<rparr> else None)"

definition valid_filter :: "'re runtime \<Rightarrow> query_source \<Rightarrow> 're fval option \<Rightarrow> bool" where
  "valid_filter rt src flt \<longleftrightarrow> (\<forall>k v dt. qs_row src k = Some (v, dt) \<longrightarrow> passes rt flt v \<noteq> None)"

lemma query_loop_step:
  assumes "valid_filter rt src flt"
  shows "query_loop rt src flt early skip limit (k # ks) seen n =
    (case good_row rt src flt k of
       None \<Rightarrow> query_loop rt src flt early skip limit ks seen n
     | Some row \<Rightarrow>
         if early \<and> seen < skip then query_loop rt src flt early skip limit ks (Suc seen) n
         else map_res (\<lambda>rows. row # rows)
                (if early \<and> reached limit (Suc n) then Inr [] else query_loop rt src flt early skip limit ks (Suc seen) (Suc n)))"
proof (cases "qs_row src k")
  case None
  then show ?thesis by (simp add: good_row_def)
next
  case (Some vd)
  obtain v dt where v: "qs_row src k = Some (v, dt)" using Some by (cases vd) auto
  then obtain b where "passes rt flt v = Some b" using assms unfolding valid_filter_def by blast
  with v show ?thesis by (cases b) (simp_all add: good_row_def)
qed

lemma query_loop_all:
  assumes "valid_filter rt src flt" "\<not> early \<or> (skip = 0 \<and> limit = None)"
  shows "query_loop rt src flt early skip limit ks seen n = Inr (List.map_filter (good_row rt src flt) ks)"
proof (induction ks arbitrary: seen n)
  case Nil
  then show ?case by (simp add: List.map_filter_simps)
next
  case (Cons k ks)
  show ?case unfolding query_loop_step [OF assms(1)] using assms(2) Cons.IH
    by (cases "good_row rt src flt k") (auto simp: List.map_filter_simps reached_def)
qed

lemma query_loop_filter:
  assumes "valid_filter rt src flt" "\<And>k. k \<in> set ks \<Longrightarrow> \<not> P k \<Longrightarrow> good_row rt src flt k = None"
  shows "query_loop rt src flt early skip limit (filter P ks) seen n = query_loop rt src flt early skip limit ks seen n"
  using assms(2)
proof (induction ks arbitrary: seen n)
  case Nil
  then show ?case by simp
next
  case (Cons k ks)
  show ?case
  proof (cases "P k")
    case True
    have IH: "query_loop rt src flt early skip limit (filter P ks) seen n = query_loop rt src flt early skip limit ks seen n" for seen n
      using Cons by simp
    have "filter P (k # ks) = k # filter P ks" using True by simp
    then show ?thesis by (simp only: query_loop_step [OF assms(1)] IH)
  next
    case False
    with Cons.prems have "good_row rt src flt k = None" by simp
    then have "query_loop rt src flt early skip limit (k # ks) seen n = query_loop rt src flt early skip limit ks seen n"
      unfolding query_loop_step [OF assms(1)] by simp
    with False Cons show ?thesis by simp
  qed
qed

lemma fast_query_loop:
  assumes "valid_filter rt src flt"
    "\<And>k. \<exists>b. rejected (qs_indexes src) checks k = Inr b \<and> (b \<longrightarrow> good_row rt src flt k = None)"
  shows "fast_loop rt src flt checks skip limit ks (min seen skip) n = query_loop rt src flt True skip (Some limit) ks seen n"
proof (induction ks arbitrary: seen n)
  case Nil
  then show ?case by simp
next
  case (Cons k ks)
  obtain b where b: "rejected (qs_indexes src) checks k = Inr b" "b \<longrightarrow> good_row rt src flt k = None" using assms(2) by blast
  have next': "fast_loop rt src flt checks skip limit ks (if seen < skip then Suc (min seen skip) else min seen skip) n' =
      query_loop rt src flt True skip (Some limit) ks (Suc seen) n'" for n'
  proof -
    have "(if seen < skip then Suc (min seen skip) else min seen skip) = min (Suc seen) skip" by auto
    then show ?thesis using Cons.IH [of "Suc seen" n'] by simp
  qed
  show ?case
  proof (cases "qs_row src k")
    case None
    with b(1) Cons.IH show ?thesis by simp
  next
    case (Some vd)
    obtain v dt where v: "qs_row src k = Some (v, dt)" using Some by (cases vd) auto
    then obtain p where p: "passes rt flt v = Some p" using assms(1) unfolding valid_filter_def by blast
    show ?thesis
    proof (cases p)
      case False
      with v p b(1) Cons.IH show ?thesis by simp
    next
      case True
      then have nb: "\<not> b" using b(2) v p by (auto simp: good_row_def)
      show ?thesis
      proof (cases "seen < skip")
        case True
        then have "min seen skip = seen" by simp
        with True v p \<open>p\<close> b(1) nb next' [of n] show ?thesis by simp
      next
        case False
        then have "min seen skip = skip" by simp
        with False v p \<open>p\<close> b(1) nb next' [of "Suc n"] show ?thesis by (simp add: reached_def)
      qed
    qed
  qed
qed

lemma good_row_docs: "good_row rt src flt k = None \<longleftrightarrow> (\<forall>d. rows_of src k = Some d \<longrightarrow> passes rt flt d \<noteq> Some True)"
  by (auto simp: good_row_def rows_of_def split: option.splits)

lemma map_filter_mem: "y \<in> set (List.map_filter f xs) \<longleftrightarrow> (\<exists>x\<in>set xs. f x = Some y)"
  by (induction xs) (auto simp: List.map_filter_simps split: option.split)

lemma mem_good_rows:
  "row \<in> set (List.map_filter (good_row rt src flt) ks) \<longleftrightarrow>
    qr_key row \<in> set ks \<and> qs_row src (qr_key row) = Some (qr_value row, qr_dt row) \<and> passes rt flt (qr_value row) = Some True"
proof -
  have gr: "good_row rt src flt k = Some row \<longleftrightarrow>
      k = qr_key row \<and> qs_row src (qr_key row) = Some (qr_value row, qr_dt row) \<and> passes rt flt (qr_value row) = Some True" for k
  proof (cases row)
    case row: (fields k' v' dt')
    show ?thesis
    proof (cases "qs_row src k")
      case None
      then show ?thesis unfolding row by (auto simp: good_row_def)
    next
      case (Some vd)
      then show ?thesis unfolding row by (cases vd) (auto simp: good_row_def)
    qed
  qed
  show ?thesis unfolding map_filter_mem gr by blast
qed

lemma distinct_good_rows: "distinct ks \<Longrightarrow> distinct (map qr_key (List.map_filter (good_row rt src flt) ks))"
proof (induction ks)
  case Nil
  then show ?case by (simp add: List.map_filter_simps)
next
  case (Cons k ks)
  have key: "good_row rt src flt k = Some row \<Longrightarrow> qr_key row = k" for row
    by (auto simp: good_row_def split: option.splits if_splits)
  have "qr_key ` set (List.map_filter (good_row rt src flt) ks) \<subseteq> set ks" using mem_good_rows by fastforce
  with Cons key show ?case by (auto simp: List.map_filter_simps split: option.split)
qed

lemma sort_by_mset: "mset (sort_by cmp xs) = mset xs"
proof -
  have "mset (insert_by cmp x ys) = add_mset x (mset ys)" for x ys by (induction ys) auto
  then show ?thesis unfolding sort_by_def by (induction xs) auto
qed

subsection \<open>Equality checks of the fast path\<close>

lemma hasEq_sound:
  fixes rt :: "'re runtime"
  assumes "indexed docs m" "named m" "planned m docs flt" "(name, j) \<in> set (cheapEqChecks m flt)"
  shows "\<exists>b. hasEq name (Some j) k m = Inr b \<and> (\<forall>d. docs k = Some d \<and> passes rt flt d = Some True \<longrightarrow> b)"
proof -
  from assms(4) obtain p where pm: "p \<in> set (indexPredicates flt)" "eq_check m p = Some (name, j)"
    by (auto simp: cheapEqChecks_def List.map_filter_def)
  obtain field cond where p: "p = (field, cond)" by (cases p)
  let ?is = "filter (\<lambda>(i, t). ix_field i = field) (index_list m)"
  obtain i where i: "find_index Equality ?is = Some i" using pm(2) p by (auto simp: eq_check_def split: option.splits)
  obtain i' where i': "map_of m (ix_name i) = Some i'" "info_of i' = i" "type_of_index i' = Equality" "ix_field i = field" "(ix_name i, i') \<in> set m"
    by (rule find_index_get [OF assms(2) i])
  obtain e where e: "i' = EqIndex e" using i'(3) by (cases i') (auto simp: type_of_index_def)
  have f: "ix_field e = field" using i'(2,4) e by auto
  have plan: "plain_field field" "\<forall>r. cond \<noteq> FRe r" using assms(3) pm(1) p i' unfolding planned_def by fastforce+
  have "\<exists>f :: 're fval. (name, j) = (ix_name i, to_json f) \<and> (\<forall>v. matchCond rt v cond = Some True \<longrightarrow> strict_eq v f)"
  proof (cases "operator_members cond")
    case None
    then have "matchCond rt v cond = Some (strict_eq v cond)" for v
      using plan(2) by (cases cond) (auto simp: matchCond_def operator_members_def)
    with None pm(2) p i show ?thesis by (intro exI [of _ cond]) (simp add: eq_check_def)
  next
    case (Some ops)
    then have mc: "matchCond rt v cond = match_ops rt v ops" for v
      by (cases cond) (auto simp: matchCond_def operator_members_def)
    have l: "length ops = 1 \<and> fst (hd ops) = js ''$eq''" and nj: "(name, j) = (ix_name i, to_json (snd (hd ops)))"
      using Some pm(2) p i by (auto simp: eq_check_def split: if_splits)
    then obtain arg where ops: "ops = [(js ''$eq'', arg)]" by (cases ops; cases "hd ops") auto
    then show ?thesis using nj unfolding mc by (auto simp: and_then_def match_eq)
  qed
  then obtain f :: "'re fval" where f': "name = ix_name i" "j = to_json f" "\<And>v. matchCond rt v cond = Some True \<Longrightarrow> strict_eq v f" by blast
  obtain pks where pks: "findEq name (Some j) m = Inr pks"
    "\<forall>k d. docs k = Some d \<and> strict_eq (getField d (ix_field e)) f \<longrightarrow> k \<in> set pks"
    using findEq_complete [OF assms(1) i'(1) [unfolded e], of f] f'(1,2) by blast
  have "strict_eq (getField d (ix_field e)) f" if "passes rt flt d = Some True" for d
  proof (cases flt)
    case None
    then show ?thesis using pm(1) by (simp add: indexPredicates_def)
  next
    case (Some g)
    with predicates_sound [of rt d g field cond] pm(1) p that
    have "matchCond rt (query_getPath d (PathText field)) cond = Some True" by (simp add: passes_def)
    then show ?thesis unfolding f plain_path [OF plan(1)] by (rule f'(3))
  qed
  with pks show ?thesis unfolding hasEq_findEq by auto
qed

lemma rejected_sound:
  assumes "indexed docs m" "named m" "planned m docs flt"
  shows "set cs \<subseteq> set (cheapEqChecks m flt) \<Longrightarrow>
    \<exists>b. rejected m cs k = Inr b \<and> (b \<longrightarrow> (\<forall>d. docs k = Some d \<longrightarrow> passes rt flt d \<noteq> Some True))"
proof (induction cs)
  case Nil
  show ?case by (intro exI [of _ False]) simp
next
  case (Cons c cs)
  obtain name j where c: "c = (name, j)" by (cases c)
  obtain h where h: "hasEq name (Some j) k m = Inr h" "\<forall>d. docs k = Some d \<and> passes rt flt d = Some True \<longrightarrow> h"
    using hasEq_sound [OF assms, where name = name and j = j and k = k and rt = rt] Cons.prems c by auto
  obtain b where "rejected m cs k = Inr b" "b \<longrightarrow> (\<forall>d. docs k = Some d \<longrightarrow> passes rt flt d \<noteq> Some True)"
    using Cons by auto
  with h c show ?case by (auto simp: of_index_def)
qed

subsection \<open>Properties\<close>

text \<open>C20: Let the indexes hold the live rows, and let every field of the filter that has an index be a plain field, have
  no regular expression as its condition and, where the index is a range index, hold nothing but numbers in the rows. Then a query
  by a filter the runtime can decide, whatever its sort order, without limit, skip, key, time or text conditions, returns exactly the live
  rows the filter accepts, each once: going through the secondary indexes never loses a row a full scan would find.\<close>

theorem query_complete:
  assumes indexes: "indexed (rows_of src) (qs_indexes src)" "named (qs_indexes src)" "planned (qs_indexes src) (rows_of src) (q_filter q)"
    and raw: "set (qs_raw src all_keys) = dom (rows_of src)" "distinct (qs_raw src all_keys)"
    and valid: "valid_filter rt src (q_filter q)"
    and q: "q_key q = None" "q_dt q = None" "q_text q = None" "q_skip q = None" "q_limit q = None"
  shows "\<exists>rows. query_rows rt src q = Inr rows \<and> distinct (map qr_key rows) \<and>
    (\<forall>row. row \<in> set rows \<longleftrightarrow> qs_row src (qr_key row) = Some (qr_value row, qr_dt row) \<and> passes rt (q_filter q) (qr_value row) = Some True)"
proof -
  obtain c where c: "indexedCandidateKeys (qs_json src) (qs_indexes src) (q_filter q) = Inr c"
    "\<forall>s. c = Some s \<longrightarrow> distinct s \<and> set s \<subseteq> dom (rows_of src) \<and>
      (\<forall>k d. rows_of src k = Some d \<and> passes rt (q_filter q) d = Some True \<longrightarrow> k \<in> set s)"
    using indexed_sound [OF indexes, where json_codec = "qs_json src" and rt = rt] by blast
  let ?ks = "case c of None \<Rightarrow> qs_raw src all_keys | Some s \<Rightarrow> s"
  let ?docs = "List.map_filter (good_row rt src (q_filter q)) ?ks"
  have ks: "distinct ?ks" "\<And>k d. rows_of src k = Some d \<Longrightarrow> passes rt (q_filter q) d = Some True \<Longrightarrow> k \<in> set ?ks"
    using c(2) raw by (auto split: option.split)
  have mem: "row \<in> set ?docs \<longleftrightarrow> qs_row src (qr_key row) = Some (qr_value row, qr_dt row) \<and> passes rt (q_filter q) (qr_value row) = Some True" for row
  proof -
    have "rows_of src (qr_key row) = Some (qr_value row)" if "qs_row src (qr_key row) = Some (qr_value row, qr_dt row)"
      using that by (simp add: rows_of_def)
    then show ?thesis unfolding mem_good_rows using ks(2) by blast
  qed
  have loop: "query_loop rt src (q_filter q) (q_sort q = None) 0 None ?ks 0 0 = Inr ?docs"
    by (rule query_loop_all [OF valid]) simp
  let ?sorted = "case q_sort q of Some ps \<Rightarrow> sort_by (cmp_rows rt ps) ?docs | None \<Rightarrow> ?docs"
  have ms: "mset ?sorted = mset ?docs" by (simp add: sort_by_mset split: option.split)
  have same: "set ?sorted = set ?docs" by (rule mset_eq_setD [OF ms])
  have "mset (map qr_key ?sorted) = mset (map qr_key ?docs)" using ms by simp
  then have same': "distinct (map qr_key ?sorted) = distinct (map qr_key ?docs)" by (rule mset_eq_imp_distinct_iff)
  have "tryDtOrderedLimit rt src q = None" using q(5) by (simp add: tryDtOrderedLimit_def fast_eligible_def)
  moreover have "query_slow rt src q = Inr ?sorted"
    using c(1) loop q by (cases c; cases "q_sort q") (simp_all add: query_slow_def query_keys_def text_hits_def narrow_def slice_rows_def Let_def)
  ultimately have "query_rows rt src q = Inr ?sorted" by (simp add: query_rows_def)
  moreover have "distinct (map qr_key ?sorted)" unfolding same' by (rule distinct_good_rows [OF ks(1)])
  moreover have "row \<in> set ?sorted \<longleftrightarrow> qs_row src (qr_key row) = Some (qr_value row, qr_dt row) \<and> passes rt (q_filter q) (qr_value row) = Some True" for row
    unfolding same by (rule mem)
  ultimately show ?thesis by (intro exI [of _ ?sorted] conjI allI)
qed

text \<open>The fast path over one datetime column gives what the general path gives: for an unsorted, limited
  query with only plain bounds on the column, walking the column and stopping at the limit returns
  the same rows in the same order as collecting all candidates, testing and cutting them.\<close>

theorem dt_fast_path_exact:
  assumes indexes: "indexed (rows_of src) (qs_indexes src)" "named (qs_indexes src)" "planned (qs_indexes src) (rows_of src) (q_filter q)"
    and dt: "dt_inv (qs_dt src)" "single_bounds (dt_options b)" "\<not> db_reverse b"
    and valid: "valid_filter rt src (q_filter q)"
    and q: "fast_eligible q = Some (col, b, reverse, limit)" "q_sort q = None"
  shows "tryDtOrderedLimit rt src q = Some (query_slow rt src q)"
proof -
  have e: "q_limit q = Some limit" "q_dt q = Some [(col, b)]" "q_text q = None" "q_key q = None" "db_offset b = None" "db_count b = None" "\<not> reverse"
    using q by (auto simp: fast_eligible_def split: option.splits list.splits if_splits)
  define skip where "skip = (case q_skip q of None \<Rightarrow> 0 | Some n \<Rightarrow> n)"
  obtain es where es: "sorted_entries cmpNumber cmpString (placed (qs_dt src) col) es"
    "dt_range col (dt_options b) (qs_dt src) = Some (map (\<lambda>(ms, k). (k, ms)) (range_spec cmpNumber (dt_options b) es))"
    using dt_range_spec [OF dt(1,2), of col] by blast
  let ?ks = "map fst (map (\<lambda>(ms, k). (k, ms)) (range_spec cmpNumber (dt_options b) es))"
  have rs: "range_spec cmpNumber (dt_options b) es = filter (\<lambda>e. \<not> below_lower cmpNumber (dt_options b) (fst e) \<and> \<not> above_upper cmpNumber (dt_options b) (fst e)) es"
    using e(5,6) dt(3) by (simp add: range_spec_def dt_options_def)
  have "distinct ?ks"
  proof -
    have s: "sorted_wrt (entry_less cmpNumber cmpString) es" "set es = placed (qs_dt src) col" using es(1) by (simp_all add: sorted_entries_def)
    have "distinct es" by (rule number_str.index.sorted_distinct [OF s(1)])
    moreover have "inj_on snd (set es)"
      unfolding s(2) inj_on_def using placed_key [OF dt(1)] by (force simp: prod_eq_iff)
    ultimately have "distinct (map snd (range_spec cmpNumber (dt_options b) es))"
      unfolding rs by (auto simp: distinct_map intro: inj_on_subset)
    then show ?thesis unfolding swap_fst .
  qed
  then have keys: "dedup ?ks = ?ks" by (rule distinct_dedup_id)
  have "dt_options (b\<lparr>db_reverse := reverse\<rparr>) = dt_options b" using dt(3) e(7) by (simp add: dt_options_def)
  then have it: "dt_iterate col (dt_options (b\<lparr>db_reverse := reverse\<rparr>)) (qs_dt src) = Some (map (\<lambda>(ms, k). (k, ms)) (range_spec cmpNumber (dt_options b) es))"
    using es(2) by (simp add: dt_iterate_range)
  obtain c where c: "indexedCandidateKeys (qs_json src) (qs_indexes src) (q_filter q) = Inr c"
    "\<forall>s. c = Some s \<longrightarrow> distinct s \<and> set s \<subseteq> dom (rows_of src) \<and>
      (\<forall>k d. rows_of src k = Some d \<and> passes rt (q_filter q) d = Some True \<longrightarrow> k \<in> set s)"
    using indexed_sound [OF indexes, where json_codec = "qs_json src" and rt = rt] by blast
  have rej: "\<exists>b. rejected (qs_indexes src) (cheapEqChecks (qs_indexes src) (q_filter q)) k = Inr b \<and> (b \<longrightarrow> good_row rt src (q_filter q) k = None)" for k
    unfolding good_row_docs using rejected_sound [OF indexes subset_refl, where rt = rt and k = k] by blast
  have "tryDtOrderedLimit rt src q = Some (query_loop rt src (q_filter q) True skip (Some limit) ?ks 0 0)"
    using fast_query_loop [OF valid rej, of skip limit ?ks 0 0] q(1) it by (simp add: tryDtOrderedLimit_def of_walk_def skip_def)
  moreover have "query_slow rt src q = query_loop rt src (q_filter q) True skip (Some limit) (case c of None \<Rightarrow> ?ks | Some s \<Rightarrow> filter (\<lambda>k. k \<in> set s) ?ks) 0 0"
    using e c(1) es(2) keys q(2)
    by (cases c) (simp_all add: query_slow_def query_keys_def dt_keys_def of_walk_def text_hits_def narrow_def skip_def Let_def bind_Inr_id)
  moreover have "query_loop rt src (q_filter q) True skip (Some limit) (filter (\<lambda>k. k \<in> set s) ?ks) 0 0 =
      query_loop rt src (q_filter q) True skip (Some limit) ?ks 0 0" if "c = Some s" for s
  proof (rule query_loop_filter [OF valid])
    fix k assume k: "k \<notin> set s"
    have "\<forall>k d. rows_of src k = Some d \<and> passes rt (q_filter q) d = Some True \<longrightarrow> k \<in> set s" using c(2) that by simp
    with k show "good_row rt src (q_filter q) k = None" unfolding good_row_docs by blast
  qed
  ultimately show ?thesis by (cases c) simp_all
qed

text \<open>A table of one document, indexed by its field \<^verbatim>\<open>a\<close>, without regular expressions.\<close>

definition sample_runtime :: "unit runtime" where
  "sample_runtime = \<lparr>rt_test = (\<lambda>r s. s \<noteq> []), rt_new = (\<lambda>a b. None), rt_text = (\<lambda>r. []), rt_number = (\<lambda>s. None)\<rparr>"

definition sample_indexes :: "json \<Rightarrow> index_manager" where
  "sample_indexes v = [(js ''u'', EqIndex \<lparr>ix_name = js ''u'', ix_field = js ''a'', ix_unique = False, ix_sparse = True,
     eq_map = [(scalarKey (Some v), [[65]])], eq_byPk = [([65], [scalarKey (Some v)])]\<rparr>)]"

definition sample_source :: "json \<Rightarrow> query_source" where
  "sample_source v = \<lparr>qs_json = True, qs_indexes = sample_indexes v, qs_dt = new_dt_index,
     qs_row = (\<lambda>k. if k = [65] then Some (JObj [(js ''a'', v)], None) else None), qs_raw = (\<lambda>ro. [[65]]), qs_text = (\<lambda>t. None)\<rparr>"

definition sample_query :: "unit fval \<Rightarrow> nat option \<Rightarrow> (js_string \<times> dt_bounds) list option \<Rightarrow> unit query_options" where
  "sample_query cond limit dt = \<lparr>q_key = None, q_dt = dt, q_text = None, q_filter = Some (FObj [(js ''a'', cond)]),
     q_sort = None, q_skip = None, q_limit = limit\<rparr>"

lemma sample_field: "getField (JObj [(js ''a'', v)]) (js ''a'') = Some v" "plain_field (js ''a'')"
  by (simp_all add: getField_def dotted_path_def step_path_def get_prop_def js_def plain_field_def)

lemma sample_rows: "rows_of (sample_source v) = [[65] \<mapsto> JObj [(js ''a'', v)]]"
  by (auto simp: rows_of_def sample_source_def)

lemma sample_indexed: "(\<And>xs. v \<noteq> JArr xs) \<Longrightarrow> indexed (rows_of (sample_source v)) (sample_indexes v)" "named (sample_indexes v)"
proof -
  assume "\<And>xs. v \<noteq> JArr xs"
  then have f: "flatten (Some v) = [Some v]" by (simp add: flatten_def split: json.split)
  show "indexed (rows_of (sample_source v)) (sample_indexes v)"
    unfolding sample_rows
    by (auto simp: sample_indexes_def index_ok_def eq_ok_def eq_keys_def postings_ok_def posted_def sample_field f Let_def fun_eq_iff)
next
  show "named (sample_indexes v)" by (simp add: named_def sample_indexes_def)
qed

lemma sample_passes: "passes sample_runtime (q_filter (sample_query (FNum n) limit dt)) (JObj [(js ''a'', v)]) = Some (strict_eq (Some v) (FNum n :: unit fval))"
  by (simp add: passes_def sample_query_def matchCond_def plain_path sample_field and_then_def)
    (simp add: js_def)

lemma sample_valid: "valid_filter sample_runtime (sample_source v) (q_filter (sample_query (FNum n) limit dt))"
  by (simp add: valid_filter_def sample_source_def sample_passes)

lemma sample_planned: "planned (sample_indexes v) (rows_of (sample_source v)) (q_filter (sample_query (FNum n) limit dt))"
  by (auto simp: planned_def sample_query_def indexPredicates_def member_list_def member_predicates_def operator_key_def sample_indexes_def
      type_of_index_def sample_field js_def) (simp add: plain_field_def)

lemma distinct_single: "distinct xs \<Longrightarrow> set xs = {x} \<Longrightarrow> xs = [x]"
proof (cases xs)
  case (Cons a ys)
  assume d: "distinct xs" "set xs = {x}"
  then have "a = x" "set ys \<subseteq> {x}" "x \<notin> set ys" using Cons by auto
  then have "set ys = {}" by (auto simp: subset_singleton_iff)
  with Cons \<open>a = x\<close> show ?thesis by simp
qed simp

theorem query_complete_witness:
  "\<exists>rows. query_rows sample_runtime (sample_source (JNum 3)) (sample_query (FNum 3) None None) = Inr rows \<and> map qr_key rows = [[65]]"
proof -
  let ?q = "sample_query (FNum 3) None None" and ?src = "sample_source (JNum 3)"
  have i: "indexed (rows_of ?src) (qs_indexes ?src)" "named (qs_indexes ?src)" "planned (qs_indexes ?src) (rows_of ?src) (q_filter ?q)"
    using sample_indexed sample_planned by (simp_all add: sample_source_def)
  have raw: "set (qs_raw ?src all_keys) = dom (rows_of ?src)" "distinct (qs_raw ?src all_keys)"
    by (simp_all add: sample_rows) (simp_all add: sample_source_def)
  obtain rows where rows: "query_rows sample_runtime ?src ?q = Inr rows" "distinct (map qr_key rows)"
    "\<And>row. row \<in> set rows \<longleftrightarrow> qs_row ?src (qr_key row) = Some (qr_value row, qr_dt row) \<and> passes sample_runtime (q_filter ?q) (qr_value row) = Some True"
  proof -
    have q: "q_key ?q = None" "q_dt ?q = None" "q_text ?q = None" "q_skip ?q = None" "q_limit ?q = None" by (simp_all add: sample_query_def)
    from query_complete [OF i raw sample_valid q] show thesis by (elim exE conjE) (rule that, assumption, assumption, blast)
  qed
  have "set (map qr_key rows) = {[65]}"
  proof
    have "qr_key row = [65]" if "row \<in> set rows" for row
      using that unfolding rows(3) by (simp add: sample_source_def split: if_splits)
    then show "set (map qr_key rows) \<subseteq> {[65]}" by (simp add: image_subset_iff)
    have "\<lparr>qr_key = [65], qr_value = JObj [(js ''a'', JNum 3)], qr_dt = None\<rparr> \<in> set rows"
      unfolding rows(3) by (simp add: sample_passes) (simp add: sample_source_def)
    from imageI [OF this, of qr_key] show "{[65]} \<subseteq> set (map qr_key rows)" by simp
  qed
  with rows(2) have "map qr_key rows = [[65]]" by (rule distinct_single)
  with rows(1) show ?thesis by (intro exI [of _ rows] conjI)
qed

theorem dt_fast_path_exact_witness:
  "let b = \<lparr>db_gte = Some 1, db_gt = None, db_lte = None, db_lt = None, db_offset = None, db_count = None, db_reverse = False\<rparr>;
       q = sample_query (FNum 3) (Some 2) (Some [(js ''t'', b)])
   in tryDtOrderedLimit sample_runtime (sample_source (JNum 3)) q = Some (query_slow sample_runtime (sample_source (JNum 3)) q)"
proof -
  let ?b = "\<lparr>db_gte = Some 1, db_gt = None, db_lte = None, db_lt = None, db_offset = None, db_count = None, db_reverse = False\<rparr>"
  let ?q = "sample_query (FNum 3) (Some 2) (Some [(js ''t'', ?b)])" and ?src = "sample_source (JNum 3)"
  have i: "indexed (rows_of ?src) (qs_indexes ?src)" "named (qs_indexes ?src)" "planned (qs_indexes ?src) (rows_of ?src) (q_filter ?q)"
    using sample_indexed sample_planned by (simp_all add: sample_source_def)
  have d: "dt_inv (qs_dt ?src)" "single_bounds (dt_options ?b)" "\<not> db_reverse ?b"
    using new_dt_inv by (simp_all add: sample_source_def single_bounds_def dt_options_def)
  have e: "fast_eligible ?q = Some (js ''t'', ?b, False, 2)" "q_sort ?q = None" by (simp_all add: fast_eligible_def sample_query_def)
  show ?thesis using dt_fast_path_exact [OF i d sample_valid e] by simp
qed

subsection \<open>Outside the conditions\<close>

text \<open>A bare regular expression on an indexed field: the row passes the filter, but the planner looks the
  expression up as a value, and the query returns nothing.\<close>

lemma regex_on_indexed_field:
  "let src = sample_source (JStr (js ''x'')); q = sample_query (FRe ()) None None
   in passes sample_runtime (q_filter q) (JObj [(js ''a'', JStr (js ''x''))]) = Some True \<and> query_rows sample_runtime src q = Inr []"
proof -
  let ?src = "sample_source (JStr (js ''x''))" and ?q = "sample_query (FRe ()) None None"
  have p: "passes sample_runtime (q_filter ?q) (JObj [(js ''a'', JStr (js ''x''))]) = Some True"
    by (simp add: passes_def sample_query_def matchCond_def plain_path sample_field and_then_def sample_runtime_def)
      (simp add: js_def)
  have c: "indexedCandidateKeys True (sample_indexes (JStr (js ''x''))) (q_filter ?q) = Inr (Some [])"
    by (simp add: indexedCandidateKeys_def sample_query_def indexPredicates_def member_list_def member_predicates_def operator_key_def
        candidateKeysForPredicate_def index_list_def sample_indexes_def find_index_def info_of_def type_of_index_def idx_info.defs
        eq_candidates_def operator_members_def findEq_def index_get_def of_index_def scalarKey_def js_def)
  have "query_rows sample_runtime ?src ?q = Inr []"
  proof -
    have q: "q_key ?q = None" "q_dt ?q = None" "q_text ?q = None" "q_sort ?q = None" "q_skip ?q = None" "q_limit ?q = None"
      by (simp_all add: sample_query_def)
    have "tryDtOrderedLimit sample_runtime ?src ?q = None" by (simp add: tryDtOrderedLimit_def fast_eligible_def q)
    moreover have "qs_json ?src = True" "qs_indexes ?src = sample_indexes (JStr (js ''x''))" by (simp_all add: sample_source_def)
    then have "query_slow sample_runtime ?src ?q = Inr []"
      using c by (simp add: query_slow_def q query_keys_def text_hits_def narrow_def)
    ultimately show ?thesis by (simp add: query_rows_def)
  qed
  with p show ?thesis by simp
qed

text \<open>A limit of zero still returns the first row of an unsorted query.\<close>

lemma limit_zero_returns_a_row:
  "qs_row src k = Some (v, dt) \<Longrightarrow> passes rt flt v = Some True \<Longrightarrow>
    query_loop rt src flt True 0 (Some 0) (k # ks) 0 0 = Inr [\<lparr>qr_key = k, qr_value = v, qr_dt = dt\<rparr>]"
  by (simp add: reached_def)

end
