(* ===== verification/TextPostings.thy ===== *)
theory TextPostings
  imports Codec Json "HOL-Library.AList"
begin

section \<open>Postings of the full-text index on disk (\<^verbatim>\<open>text-postings.ts\<close>)\<close>

text \<open>
  A postings list is a sequence of pairs of a document number and a frequency, ascending in the
  numbers. It is stored delta- and varint-encoded in a record with a checksum; a dictionary in memory
  points at the records. Buffers are byte lists, a cursor is the rest of the buffer. The file
  operations either happen or throw before the new file replaces the old one: only their result is
  modelled. The text of the term in a record, which no caller reads, stays in its bytes.
\<close>

unbundle bit_operations_syntax

datatype postings_error =
    TruncatedVarint | VarintTooLong | TermTooLong | RecordTooShort | LengthOutOfRange | RecordCrc | TermBounds | PayloadBounds | FileMissing | FileClosed | ShortReadPastEnd

subsection \<open>Variable-length numbers\<close>

lemma unat_drop7: "unat (drop_bit 7 n) = unat n div 128" for n :: "32 word"
  by (simp only: unat_drop_bit_eq) (simp add: drop_bit_eq_div)

function varint :: "32 word \<Rightarrow> buffer" where
  "varint n = (if n \<ge> 0x80 then (ucast (n AND 0x7f) OR 0x80) # varint (drop_bit 7 n) else [ucast n])"
  by auto
termination
  by (relation "measure unat") (auto simp: word_le_nat_alt unat_drop7 simp del: drop_bit_eq_div)

declare varint.simps [simp del]

definition encodeVarintInto :: "int \<Rightarrow> buffer" where
  "encodeVarintInto n = varint (word_of_int n)"

fun varint_loop :: "32 word \<Rightarrow> nat \<Rightarrow> buffer \<Rightarrow> (postings_error, 32 word \<times> buffer) res" where
  "varint_loop r shift [] = Inl TruncatedVarint"
| "varint_loop r shift (b # bs) =
     (let r = r OR push_bit (shift mod 32) (ucast (b AND 0x7f))
      in if b AND 0x80 = 0 then Inr (r, bs)
         else if shift + 7 > 35 then Inl VarintTooLong
         else varint_loop r (shift + 7) bs)"

definition decodeVarint :: "buffer \<Rightarrow> (postings_error, 32 word \<times> buffer) res" where
  "decodeVarint bs = varint_loop 0 0 bs"

lemma mask7: "(127 :: int) = mask 7" "(128 :: int) = push_bit 7 1"
  by (simp_all add: mask_eq_exp_minus_1 push_bit_eq_mult)

lemma mask_bits: "bit (127 :: int) i \<longleftrightarrow> i < 7" "bit (128 :: int) i \<longleftrightarrow> i = 7"
  unfolding mask7 by (simp_all only: bit_mask_iff bit_push_bit_iff bit_1_iff possible_bit_int) auto

lemma low_bits_join: "(n AND 0x7f) OR push_bit 7 (drop_bit 7 n) = n" for n :: "32 word"
proof (rule bit_eqI)
  fix i assume "possible_bit TYPE(32 word) i"
  then show "bit ((n AND 0x7f) OR push_bit 7 (drop_bit 7 n)) i = bit n i"
    by (cases "i < 7") (auto simp: bit_or_iff bit_and_iff bit_push_bit_iff bit_drop_bit_eq mask_bits)
qed

lemma byte_low: "ucast ((ucast (n AND 0x7f) OR 0x80 :: byte) AND 0x7f) = (n AND 0x7f :: 32 word)"
  by (rule bit_eqI) (auto simp: bit_or_iff bit_and_iff bit_ucast_iff mask_bits)

lemma byte_high: "(ucast (n AND 0x7f :: 32 word) OR 0x80 :: byte) AND 0x80 \<noteq> 0"
proof -
  have "bit ((ucast (n AND 0x7f) OR 0x80 :: byte) AND 0x80) 7" by (simp add: bit_or_iff bit_and_iff mask_bits)
  then show ?thesis by force
qed

lemma byte_small:
  assumes "n < (0x80 :: 32 word)"
  shows "ucast ((ucast n :: byte) AND 0x7f) = n" "(ucast n :: byte) AND 0x80 = 0"
proof -
  have "take_bit 7 n = n" unfolding take_bit_eq_mod using assms by (simp add: mod_word_less)
  then have b: "bit n i \<longleftrightarrow> bit n i \<and> i < 7" for i by (metis bit_take_bit_iff)
  show "ucast ((ucast n :: byte) AND 0x7f) = n"
  proof (rule bit_eqI)
    fix i show "bit (ucast ((ucast n :: byte) AND 0x7f) :: 32 word) i = bit n i"
      using b [of i] by (auto simp: bit_and_iff bit_ucast_iff mask_bits)
  qed
  show "(ucast n :: byte) AND 0x80 = 0"
  proof (rule bit_eqI)
    fix i show "bit ((ucast n :: byte) AND 0x80) i = bit 0 i"
      using b [of i] by (auto simp: bit_and_iff bit_ucast_iff mask_bits)
  qed
qed

lemma varint_roundtrip_aux:
  "shift \<le> 28 \<Longrightarrow> unat n < 2 ^ (32 - shift) \<Longrightarrow> varint_loop r shift (varint n @ rest) = Inr (r OR push_bit shift n, rest)"
proof (induction n arbitrary: r shift rule: varint.induct)
  case (1 n)
  show ?case
  proof (cases "n \<ge> 0x80")
    case True
    have small: "shift < 25"
    proof (rule ccontr)
      assume "\<not> shift < 25"
      then have "(2 :: nat) ^ (32 - shift) \<le> 2 ^ 7" by (intro power_increasing) auto
      with "1.prems"(2) True show False by (simp add: word_le_nat_alt)
    qed
    have "unat (drop_bit 7 n) < 2 ^ (32 - (shift + 7))"
    proof -
      have "32 - shift = (32 - (shift + 7)) + 7" using small by simp
      then have "(2 :: nat) ^ (32 - shift) = 2 ^ (32 - (shift + 7)) * 128" by (simp only: power_add) simp
      with "1.prems"(2) show ?thesis unfolding unat_drop7 by (simp add: less_mult_imp_div_less)
    qed
    moreover have "shift + 7 \<le> 28 \<or> n < 0x80 \<or> shift + 7 < 32" using small by auto
    moreover have join: "push_bit shift (n AND 0x7f) OR push_bit (shift + 7) (drop_bit 7 n) = push_bit shift n"
    proof -
      have "push_bit (shift + 7) (drop_bit 7 n) = push_bit shift (push_bit 7 (drop_bit 7 n))" by simp
      then show ?thesis by (metis low_bits_join push_bit_or)
    qed
    ultimately show ?thesis
    proof (cases "shift + 7 \<le> 28")
      case s: True
      have IH: "varint_loop r' (shift + 7) (varint (drop_bit 7 n) @ rest) = Inr (r' OR push_bit (shift + 7) (drop_bit 7 n), rest)" for r'
        by (rule "1.IH" [OF True s]) fact
      show ?thesis
        using True s byte_high [of n] by (subst varint.simps) (simp add: Let_def byte_low IH join or.assoc del: push_bit_and)
    next
      case False
      with small have s: "shift \<in> {22, 23, 24}" by auto
      then have l: "unat (drop_bit 7 n) < 2 ^ 3" using \<open>unat (drop_bit 7 n) < 2 ^ (32 - (shift + 7))\<close>
        by (auto elim: less_le_trans)
      then have d: "drop_bit 7 n < 0x80" by (simp add: word_less_nat_alt del: drop_bit_eq_div)
      have m: "shift mod 32 = shift" "(shift + 7) mod 32 = shift + 7" "shift + 7 \<le> 35" using s by auto
      have last': "varint (drop_bit 7 n) = [ucast (drop_bit 7 n)]" using d by (subst varint.simps) (simp add: not_le)
      show ?thesis
        using True byte_high [of n] byte_small [OF d] m
        by (subst varint.simps, subst last') (simp add: Let_def byte_low join or.assoc del: push_bit_and)
    qed
  next
    case False
    then have n: "n < 0x80" by simp
    show ?thesis
      using False byte_small [OF n] "1.prems"(1) by (subst varint.simps) (simp add: Let_def)
  qed
qed

lemma varint_roundtrip: "decodeVarint (varint n @ rest) = Inr (n, rest)"
  using varint_roundtrip_aux [of 0 n 0 rest] unsigned_less [of n] by (simp add: decodeVarint_def)

lemma encode_roundtrip: "0 \<le> n \<Longrightarrow> n < 2 ^ 32 \<Longrightarrow> decodeVarint (encodeVarintInto n @ rest) = Inr (word_of_int n, rest) \<and> unat (word_of_int n :: 32 word) = nat n"
  by (simp add: encodeVarintInto_def varint_roundtrip unat_eq_nat_uint uint_word_of_int)

subsection \<open>Postings lists\<close>

type_synonym posting = "int \<times> int"

fun encode_entries :: "int \<Rightarrow> posting list \<Rightarrow> buffer" where
  "encode_entries prev [] = []"
| "encode_entries prev ((docID, freq) # es) =
     encodeVarintInto (docID - prev) @ encodeVarintInto freq @ encode_entries docID es"

definition encodePostingList :: "posting list \<Rightarrow> buffer" where
  "encodePostingList entries = encodeVarintInto (int (length entries)) @ encode_entries 0 entries"

fun decode_entries :: "nat \<Rightarrow> int \<Rightarrow> buffer \<Rightarrow> (postings_error, posting list) res" where
  "decode_entries 0 prev cur = Inr []"
| "decode_entries (Suc k) prev cur =
     bind_res (decodeVarint cur) (\<lambda>(d, cur).
     bind_res (decodeVarint cur) (\<lambda>(freq, cur).
       map_res (\<lambda>es. (prev + int (unat d), int (unat freq)) # es) (decode_entries k (prev + int (unat d)) cur)))"

definition decodePostingList :: "buffer \<Rightarrow> (postings_error, posting list) res" where
  "decodePostingList buf = bind_res (decodeVarint buf) (\<lambda>(count, cur). decode_entries (unat count) 0 cur)"

subsection \<open>Records\<close>

text \<open>\<^verbatim>\<open>Buffer.from(term, 'utf8')\<close>.\<close>

definition utf8 :: "js_string \<Rightarrow> buffer" where
  "utf8 s = map ucast (toKStr s)"

definition POSTINGS_HEADER_LEN :: nat where "POSTINGS_HEADER_LEN = 2 + 4 + 4"
definition POSTINGS_CRC_LEN :: nat where "POSTINGS_CRC_LEN = 4"

record decoded_record =
  dr_term :: buffer
  dr_df :: nat
  dr_payload :: buffer

definition encodeRecord :: "js_string \<Rightarrow> int \<Rightarrow> buffer \<Rightarrow> (postings_error, buffer) res" where
  "encodeRecord trm df payload =
     (let termBuf = utf8 trm in
      if length termBuf > 0xffff then Inl TermTooLong
      else if length payload \<ge> 2 ^ 32 then Inl LengthOutOfRange
      else let body = le_bytes 2 (length termBuf) @ termBuf @ le_bytes 4 (unat (word_of_int df :: 32 word))
                      @ le_bytes 4 (length payload) @ payload
           in Inr (body @ le_bytes 4 (unat (crc32 body 0))))"

definition decodeRecord :: "buffer \<Rightarrow> (postings_error, decoded_record) res" where
  "decodeRecord buf =
     (if length buf < POSTINGS_HEADER_LEN + POSTINGS_CRC_LEN then Inl RecordTooShort
      else if readUInt32LE buf (length buf - POSTINGS_CRC_LEN) \<noteq> unat (crc32 (subarray 0 (length buf - POSTINGS_CRC_LEN) buf) 0)
      then Inl RecordCrc
      else let termLen = readUInt16LE buf 0 in
           if 2 + termLen + 4 + 4 > length buf - POSTINGS_CRC_LEN then Inl TermBounds
           else let payloadLen = readUInt32LE buf (2 + termLen + 4);
                    o' = 2 + termLen + 4 + 4
                in if o' + payloadLen > length buf - POSTINGS_CRC_LEN then Inl PayloadBounds
                   else Inr \<lparr> dr_term = subarray 2 (2 + termLen) buf,
                              dr_df = readUInt32LE buf (2 + termLen),
                              dr_payload = subarray o' (o' + payloadLen) buf \<rparr>)"

subsection \<open>The postings file\<close>

record posting_entry =
  pe_off :: nat
  pe_len :: nat
  pe_df :: nat

text \<open>An open file is its content; \<open>None\<close> after \<^verbatim>\<open>close\<close>. The loop of positioned reads ends with all the
  bytes asked for, or at the end of the file with the error.\<close>

definition postings_open :: "buffer option \<Rightarrow> (postings_error, buffer option) res" where
  "postings_open on_disk = (case on_disk of None \<Rightarrow> Inl FileMissing | Some content \<Rightarrow> Inr (Some content))"

definition postings_close :: "buffer option \<Rightarrow> buffer option" where
  "postings_close fd = (case fd of Some content \<Rightarrow> None | None \<Rightarrow> None)"

definition postings_read :: "buffer option \<Rightarrow> posting_entry \<Rightarrow> (postings_error, posting list) res" where
  "postings_read fd e =
     (case fd of None \<Rightarrow> Inl FileClosed
      | Some content \<Rightarrow>
          if 0 < pe_len e \<and> length content < pe_off e + pe_len e then Inl ShortReadPastEnd
          else bind_res (decodeRecord (subarray (pe_off e) (pe_off e + pe_len e) content)) (\<lambda>rec.
                 decodePostingList (dr_payload rec)))"

fun rebuild_postings :: "(js_string \<times> posting list) list \<Rightarrow> buffer \<Rightarrow> (js_string \<times> posting_entry) list
    \<Rightarrow> (postings_error, (js_string \<times> posting_entry) list \<times> buffer) res" where
  "rebuild_postings [] content dict = Inr (dict, content)"
| "rebuild_postings ((trm, entries) # it) content dict =
     (if entries = [] then rebuild_postings it content dict
      else bind_res (encodeRecord trm (int (length entries)) (encodePostingList entries)) (\<lambda>rec.
             rebuild_postings it (content @ rec)
               (AList.update trm \<lparr> pe_off = length content, pe_len = length rec, pe_df = length entries \<rparr> dict)))"

definition rebuildSync :: "(js_string \<times> posting list) list
    \<Rightarrow> (postings_error, (js_string \<times> posting_entry) list \<times> buffer) res" where
  "rebuildSync it = rebuild_postings it [] []"

subsection \<open>What is written reads back\<close>

fun ascending_from :: "int \<Rightarrow> posting list \<Rightarrow> bool" where
  "ascending_from prev [] = True"
| "ascending_from prev ((d, f) # es) \<longleftrightarrow> prev \<le> d \<and> d < 2 ^ 32 \<and> 0 \<le> f \<and> f < 2 ^ 32 \<and> ascending_from d es"

definition valid_postings :: "posting list \<Rightarrow> bool" where
  "valid_postings es \<longleftrightarrow> ascending_from 0 es \<and> length es < 2 ^ 32"

lemma encoded_number:
  assumes "0 \<le> n" "n < 2 ^ 32"
  obtains w where "\<And>rest. decodeVarint (encodeVarintInto n @ rest) = Inr (w, rest)" "uint w = n" "unat w = nat n"
  using that [of "word_of_int n"] assms encode_roundtrip [OF assms] by (simp add: uint_word_of_int)

lemma decode_entries_encode:
  "0 \<le> prev \<Longrightarrow> ascending_from prev es \<Longrightarrow> decode_entries (length es) prev (encode_entries prev es @ rest) = Inr es"
proof (induction es arbitrary: prev)
  case (Cons e es)
  obtain d f where e: "e = (d, f)" by force
  have "0 \<le> d - prev" "d - prev < 2 ^ 32" "0 \<le> f" "f < 2 ^ 32" using Cons.prems e by auto
  then obtain w v where "\<And>r. decodeVarint (encodeVarintInto (d - prev) @ r) = Inr (w, r)" "uint w = d - prev"
    "\<And>r. decodeVarint (encodeVarintInto f @ r) = Inr (v, r)" "uint v = f"
    by (metis encoded_number)
  moreover have "decode_entries (length es) d (encode_entries d es @ rest) = Inr es"
    using Cons.prems e by (intro Cons.IH) auto
  ultimately show ?case using Cons.prems e by simp
qed simp

lemma postings_codec: "valid_postings es \<Longrightarrow> decodePostingList (encodePostingList es) = Inr es"
  by (rule encoded_number [of "int (length es)"])
     (use decode_entries_encode [of 0 es "[]"] in \<open>auto simp: valid_postings_def decodePostingList_def encodePostingList_def\<close>)

lemma record_codec:
  assumes "encodeRecord trm df payload = Inr rec"
  shows "decodeRecord rec = Inr \<lparr> dr_term = utf8 trm, dr_df = unat (word_of_int df :: 32 word), dr_payload = payload \<rparr>"
proof -
  define body where "body = le_bytes 2 (length (utf8 trm)) @ utf8 trm @ le_bytes 4 (unat (word_of_int df :: 32 word))
                      @ le_bytes 4 (length payload) @ payload"
  have t: "length (utf8 trm) \<le> 0xffff" and p: "length payload < 2 ^ 32" and r: "rec = body @ le_bytes 4 (unat (crc32 body 0))"
    using assms by (auto simp: encodeRecord_def body_def Let_def split: if_splits)
  have len: "length rec - 4 = length body" "length body = 10 + length (utf8 trm) + length payload" by (simp_all add: r body_def)
  have crc: "readUInt32LE rec (length body) = unat (crc32 body 0)"
    unfolding readUInt32LE_def r by (simp add: subarray_append_right unat_le_nat_crc subarray_0_all)
  have tl: "readUInt16LE rec 0 = length (utf8 trm)"
    using t unfolding readUInt16LE_def r body_def by (simp add: subarray_0_prefix le_nat_le_bytes)
  have rd: "subarray (a + b) (a + b + c) (xs @ ys @ zs @ ws) = zs"
    if "length xs = a" "length ys = b" "length zs = c" for a b c and xs ys zs ws :: buffer
    using that by (simp add: subarray_def)
  have df: "readUInt32LE rec (2 + length (utf8 trm)) = unat (word_of_int df :: 32 word)"
    unfolding readUInt32LE_def r body_def append_assoc
    by (subst rd [OF _ _ length_le_bytes]) (simp_all only: length_le_bytes unat_le_nat_crc)
  have rd4: "subarray (a + b + c) (a + b + c + d) (xs @ ys @ zs @ ws @ vs) = ws"
    if "length xs = a" "length ys = b" "length zs = c" "length ws = d" for a b c d and xs ys zs ws vs :: buffer
    using that by (simp add: subarray_def)
  have pl: "readUInt32LE rec (2 + length (utf8 trm) + 4) = length payload"
    using p unfolding readUInt32LE_def r body_def append_assoc
    by (subst rd4 [OF length_le_bytes refl length_le_bytes length_le_bytes]) (simp add: le_nat_le_bytes)
  have tb: "subarray 2 (2 + length (utf8 trm)) rec = utf8 trm"
    by (simp add: r body_def subarray_def)
  have pb: "subarray (2 + length (utf8 trm) + 4 + 4) (2 + length (utf8 trm) + 4 + 4 + length payload) rec = payload"
    by (simp add: r body_def subarray_def)
  have bd: "subarray 0 (length body) rec = body" by (simp add: r subarray_0_prefix)
  have nl: "\<not> length rec < POSTINGS_HEADER_LEN + POSTINGS_CRC_LEN" "length rec - POSTINGS_CRC_LEN = length body"
    "\<not> length body < 2 + length (utf8 trm) + 4 + 4" "\<not> length body < 2 + length (utf8 trm) + 4 + 4 + length payload"
    using len by (simp_all add: r POSTINGS_HEADER_LEN_def POSTINGS_CRC_LEN_def)
  show ?thesis
    unfolding decodeRecord_def Let_def tl nl crc bd df pl tb pb using nl by (simp only: if_False simp_thms)
qed

lemma postings_read_at:
  assumes "encodeRecord trm df (encodePostingList es) = Inr rec" "valid_postings es"
    "length content \<ge> off + length rec" "subarray off (off + length rec) content = rec"
  shows "postings_read (Some content) \<lparr> pe_off = off, pe_len = length rec, pe_df = n \<rparr> = Inr es"
  using assms record_codec [OF assms(1)] by (simp add: postings_read_def postings_codec)

definition dict_reads :: "buffer \<Rightarrow> (js_string \<times> posting_entry) list \<Rightarrow> js_string \<Rightarrow> posting list \<Rightarrow> bool" where
  "dict_reads content dict trm es \<longleftrightarrow>
     (\<exists>e. map_of dict trm = Some e \<and> pe_df e = length es \<and> pe_off e + pe_len e \<le> length content
        \<and> postings_read (Some content) e = Inr es)"

lemma dict_reads_extend:
  assumes "dict_reads content dict trm es" "map_of dict' trm = map_of dict trm"
  shows "dict_reads (content @ after) dict' trm es"
proof -
  obtain e where e: "map_of dict trm = Some e" "pe_df e = length es" "pe_off e + pe_len e \<le> length content"
    "postings_read (Some content) e = Inr es" using assms(1) unfolding dict_reads_def by blast
  have "postings_read (Some (content @ after)) e = Inr es"
    using e(3,4) by (simp add: postings_read_def subarray_prefix)
  with e assms(2) show ?thesis unfolding dict_reads_def by (intro exI [of _ e]) simp
qed

lemma rebuild_keeps:
  "rebuild_postings it content dict = Inr (dict', content') \<Longrightarrow> trm \<notin> fst ` set it \<Longrightarrow> dict_reads content dict trm es
   \<Longrightarrow> dict_reads content' dict' trm es"
proof (induction it content dict rule: rebuild_postings.induct)
  case (2 t entries it content dict)
  show ?case
  proof (cases "entries = []")
    case True
    with 2 show ?thesis by simp
  next
    case False
    then obtain rec where rec: "encodeRecord t (int (length entries)) (encodePostingList entries) = Inr rec"
      and go: "rebuild_postings it (content @ rec) (AList.update t \<lparr> pe_off = length content, pe_len = length rec, pe_df = length entries \<rparr> dict) = Inr (dict', content')"
      using 2(3) by (auto simp: bind_res_Inr)
    have "dict_reads (content @ rec) (AList.update t \<lparr> pe_off = length content, pe_len = length rec, pe_df = length entries \<rparr> dict) trm es"
      by (rule dict_reads_extend [OF 2(5)]) (use 2(4) in \<open>simp add: update_conv'\<close>)
    with "2.IH"(2) [OF False rec go] 2(4) show ?thesis by simp
  qed
qed simp

lemma rebuild_reads:
  "rebuild_postings it content dict = Inr (dict', content') \<Longrightarrow> distinct (map fst it)
   \<Longrightarrow> (trm, es) \<in> set it \<Longrightarrow> es \<noteq> [] \<Longrightarrow> valid_postings es \<Longrightarrow> dict_reads content' dict' trm es"
proof (induction it content dict rule: rebuild_postings.induct)
  case (2 t entries it content dict)
  show ?case
  proof (cases "entries = []")
    case True
    with 2 show ?thesis by auto
  next
    case False
    then obtain rec where rec: "encodeRecord t (int (length entries)) (encodePostingList entries) = Inr rec"
      and go: "rebuild_postings it (content @ rec) (AList.update t \<lparr> pe_off = length content, pe_len = length rec, pe_df = length entries \<rparr> dict) = Inr (dict', content')"
      using 2(3) by (auto simp: bind_res_Inr)
    show ?thesis
    proof (cases "(trm, es) = (t, entries)")
      case here: True
      have "dict_reads (content @ rec) (AList.update t \<lparr> pe_off = length content, pe_len = length rec, pe_df = length entries \<rparr> dict) trm es"
        unfolding dict_reads_def using rec here 2(7)
        by (intro exI [of _ "\<lparr> pe_off = length content, pe_len = length rec, pe_df = length entries \<rparr>"])
           (auto simp: update_conv' subarray_def intro!: postings_read_at)
      moreover have "trm \<notin> fst ` set it" using 2(4) here by auto
      ultimately show ?thesis using rebuild_keeps [OF go] by blast
    next
      case False': False
      with "2.IH"(2) [OF False rec go] 2(4-7) show ?thesis by auto
    qed
  qed
qed simp

lemma rebuild_total:
  "\<forall>(trm, es) \<in> set it. length (utf8 trm) \<le> 0xffff \<and> length (encodePostingList es) < 2 ^ 32
   \<Longrightarrow> \<exists>r. rebuild_postings it content dict = Inr r"
proof (induction it content dict rule: rebuild_postings.induct)
  case (2 t entries it content dict)
  show ?case
  proof (cases "entries = []")
    case True
    with 2 show ?thesis by simp
  next
    case False
    from 2(3) obtain rec where "encodeRecord t (int (length entries)) (encodePostingList entries) = Inr rec"
      by (simp add: encodeRecord_def Let_def)
    with 2 False show ?thesis by simp
  qed
qed simp

text \<open>C34: the postings file that \<open>rebuildSync\<close> writes for distinct terms that fit in a record can be read back: the
  dictionary points every term with postings at a record whose checksum holds and that decodes to exactly
  its postings, and records their number.\<close>

theorem postings_file_roundtrip:
  assumes "distinct (map fst it)"
    and "\<And>trm es. (trm, es) \<in> set it \<Longrightarrow> length (utf8 trm) \<le> 0xffff \<and> length (encodePostingList es) < 2 ^ 32 \<and> valid_postings es"
  shows "\<exists>dict content. rebuildSync it = Inr (dict, content)
    \<and> (\<forall>trm es. (trm, es) \<in> set it \<and> es \<noteq> [] \<longrightarrow>
         (\<exists>e. map_of dict trm = Some e \<and> pe_df e = length es \<and> postings_read (Some content) e = Inr es))"
proof -
  obtain dict content where r: "rebuildSync it = Inr (dict, content)"
    using rebuild_total [of it "[]" "[]"] assms(2) unfolding rebuildSync_def by fastforce
  have "dict_reads content dict trm es" if "(trm, es) \<in> set it" "es \<noteq> []" for trm es
    using rebuild_reads [OF r [unfolded rebuildSync_def] assms(1) that] assms(2) [OF that(1)] by blast
  with r show ?thesis unfolding dict_reads_def by blast
qed

theorem postings_file_roundtrip_witness:
  "\<exists>dict content. rebuildSync [(js ''ab'', [(3, 2), (300, 1)]), (js ''c'', [])] = Inr (dict, content)
    \<and> (\<forall>trm es. (trm, es) \<in> set [(js ''ab'', [(3, 2), (300, 1)]), (js ''c'', [])] \<and> es \<noteq> [] \<longrightarrow>
         (\<exists>e. map_of dict trm = Some e \<and> pe_df e = length es \<and> postings_read (Some content) e = Inr es))"
  by (rule postings_file_roundtrip) (auto simp: js_def utf8_def of_char_def valid_postings_def encodePostingList_def encodeVarintInto_def varint.simps)

end
