(* ===== verification/TextIndex.thy ===== *)
theory TextIndex
  imports TextPostings Planner
begin

section \<open>The full-text index (\<^verbatim>\<open>text-index.ts\<close>)\<close>

text \<open>
  An inverted index in two layers: base postings, in memory or in a postings file read through a cache,
  and a delta of the writes since the last build; deleted documents are tombstones. A JavaScript map is
  an association list in insertion order. Lower-casing and floating-point arithmetic are the runtime's:
  the first is a function argument, the second a record. A build in disk mode meets the outcomes of the
  file system described by \<open>rebuild_outcome\<close>.
\<close>

subsection \<open>Terms\<close>

definition MAX_TERM_CHARS :: nat where "MAX_TERM_CHARS = 0xffff"

definition is_latin :: "16 word \<Rightarrow> bool" where
  "is_latin u \<longleftrightarrow> (97 \<le> u \<and> u \<le> 122) \<or> (48 \<le> u \<and> u \<le> 57)"

definition is_cjk :: "16 word \<Rightarrow> bool" where
  "is_cjk u \<longleftrightarrow> (0x3400 \<le> u \<and> u \<le> 0x9FFF) \<or> (0x3040 \<le> u \<and> u \<le> 0x30FF) \<or> (0xFF00 \<le> u \<and> u \<le> 0xFFEF)"

text \<open>\<^verbatim>\<open>s.match(/[...]+/g)\<close>: the maximal runs of a class of units.\<close>

function runs :: "(16 word \<Rightarrow> bool) \<Rightarrow> js_string \<Rightarrow> js_string list" where
  "runs p [] = []"
| "runs p (u # us) = (if p u then (u # takeWhile p us) # runs p (dropWhile p us) else runs p us)"
  by pat_completeness auto
termination by (relation "measure (length \<circ> snd)") (auto simp: less_Suc_eq_le length_dropWhile_le)

fun grams :: "js_string \<Rightarrow> js_string list" where
  "grams [] = []"
| "grams [u] = [[u]]"
| "grams (u # v # us) = [u] # [u, v] # grams (v # us)"

definition tokenize :: "(js_string \<Rightarrow> js_string) \<Rightarrow> js_string \<Rightarrow> js_string list" where
  "tokenize lower str =
     (let s = lower str
      in filter (\<lambda>t. length t \<le> MAX_TERM_CHARS) (runs is_latin s) @ concat (map grams (runs is_cjk s)))"

fun stringLeaves :: "json \<Rightarrow> js_string list" and leaves_of :: "json list \<Rightarrow> js_string list"
  and leaves_of_members :: "(js_string \<times> json) list \<Rightarrow> js_string list" where
  "stringLeaves (JStr s) = [s]"
| "stringLeaves (JArr xs) = leaves_of xs"
| "stringLeaves (JObj ms) = leaves_of_members ms"
| "stringLeaves JNull = []"
| "stringLeaves (JBool b) = []"
| "stringLeaves (JNum n) = []"
| "leaves_of [] = []"
| "leaves_of (x # xs) = stringLeaves x @ leaves_of xs"
| "leaves_of_members [] = []"
| "leaves_of_members ((k, x) # ms) = stringLeaves x @ leaves_of_members ms"

subsection \<open>State\<close>

datatype text_error = PostingsFailed postings_error | WriteFailed | OpenFailed

type_synonym freqs = "(nat \<times> nat) list"
type_synonym term_map = "(js_string \<times> freqs) list"

record text_index =
  ti_fields :: "js_string list option"
  ti_path :: bool
  ti_cacheTerms :: nat
  ti_postings :: "(js_string \<times> posting_entry) list"
  ti_docLen :: "(nat \<times> nat) list"
  ti_keys :: "js_string option list"
  ti_keyToId :: "(js_string \<times> nat) list"
  ti_delta :: term_map
  ti_deltaCount :: int
  ti_removed :: "nat set"
  ti_memBase :: "term_map option"
  ti_pf :: "buffer option"
  ti_file :: "buffer option"
  ti_cache :: "(js_string \<times> posting list) list"
  ti_N :: int

definition new_text_index :: "js_string list option \<Rightarrow> bool \<Rightarrow> nat option \<Rightarrow> buffer option \<Rightarrow> text_index" where
  "new_text_index flds disk cacheTerms existing =
     \<lparr> ti_fields = flds, ti_path = disk, ti_cacheTerms = (case cacheTerms of None \<Rightarrow> 1024 | Some n \<Rightarrow> n), ti_postings = [],
       ti_docLen = [], ti_keys = [], ti_keyToId = [], ti_delta = [], ti_deltaCount = 0, ti_removed = {},
       ti_memBase = (if disk then None else Some []), ti_pf = None, ti_file = existing, ti_cache = [], ti_N = 0 \<rparr>"

definition text_extract :: "js_string list option \<Rightarrow> json \<Rightarrow> js_string" where
  "text_extract flds doc =
     (case flds of
        Some (f # fs) \<Rightarrow> join_with [32] (List.map_filter (\<lambda>f. case query_getPath doc (PathText f) of Some (JStr s) \<Rightarrow> Some s | _ \<Rightarrow> None) (f # fs))
      | _ \<Rightarrow> join_with [32] (stringLeaves doc))"

definition doc_tokens :: "(js_string \<Rightarrow> js_string) \<Rightarrow> js_string list option \<Rightarrow> json \<Rightarrow> js_string list" where
  "doc_tokens lower flds doc = tokenize lower (text_extract flds doc)"

definition entries_at :: "js_string \<Rightarrow> term_map \<Rightarrow> freqs" where
  "entries_at t d = (case map_of d t of None \<Rightarrow> [] | Some m \<Rightarrow> m)"

definition termCount :: "text_index \<Rightarrow> nat" where
  "termCount ti =
     (case ti_memBase ti of
        Some b \<Rightarrow> length b + length (filter (\<lambda>(t, m). map_of b t = None) (ti_delta ti))
      | None \<Rightarrow> length (ti_postings ti) + length (filter (\<lambda>(t, m). map_of (ti_postings ti) t = None) (ti_delta ti)))"

subsection \<open>Writes\<close>

definition bump :: "js_string \<Rightarrow> (js_string \<times> nat) list \<Rightarrow> (js_string \<times> nat) list" where
  "bump t c = AList.update t ((case map_of c t of None \<Rightarrow> 0 | Some n \<Rightarrow> n) + 1) c"

definition count_terms :: "js_string list \<Rightarrow> (js_string \<times> nat) list" where
  "count_terms tokens = fold bump tokens []"

fun add_counts :: "nat \<Rightarrow> (js_string \<times> nat) list \<Rightarrow> term_map \<Rightarrow> term_map" where
  "add_counts docID [] d = d"
| "add_counts docID ((t, c) # cs) d = add_counts docID cs (AList.update t (AList.update docID c (entries_at t d)) d)"

definition text_remove :: "js_string \<Rightarrow> text_index \<Rightarrow> text_index" where
  "text_remove key ti =
     (case map_of (ti_keyToId ti) key of
        None \<Rightarrow> ti
      | Some docID \<Rightarrow>
          ti\<lparr> ti_removed := insert docID (ti_removed ti),
             ti_keyToId := AList.delete key (ti_keyToId ti),
             ti_keys := (ti_keys ti)[docID := None],
             ti_docLen := AList.delete docID (ti_docLen ti),
             ti_deltaCount := ti_deltaCount ti - int (length (filter (\<lambda>(t, m). map_of m docID \<noteq> None) (ti_delta ti))),
             ti_delta := map (\<lambda>(t, m). (t, AList.delete docID m)) (ti_delta ti),
             ti_N := ti_N ti - 1 \<rparr>)"

definition text_insert :: "(js_string \<Rightarrow> js_string) \<Rightarrow> js_string \<Rightarrow> json \<Rightarrow> text_index \<Rightarrow> text_index" where
  "text_insert lower key doc ti =
     (let docID = length (ti_keys ti); tokens = doc_tokens lower (ti_fields ti) doc; counts = count_terms tokens
      in ti\<lparr> ti_keys := ti_keys ti @ [Some key],
            ti_keyToId := AList.update key docID (ti_keyToId ti),
            ti_delta := add_counts docID counts (ti_delta ti),
            ti_deltaCount := ti_deltaCount ti + int (length counts),
            ti_docLen := AList.update docID (length tokens) (ti_docLen ti),
            ti_N := ti_N ti + 1 \<rparr>)"

definition text_add :: "(js_string \<Rightarrow> js_string) \<Rightarrow> js_string \<Rightarrow> json \<Rightarrow> text_index \<Rightarrow> text_index" where
  "text_add lower key doc ti =
     text_insert lower key doc (if map_of (ti_keyToId ti) key \<noteq> None then text_remove key ti else ti)"

subsection \<open>Building\<close>

record staged =
  st_agg :: term_map
  st_keys :: "js_string option list"
  st_keyToId :: "(js_string \<times> nat) list"
  st_docLen :: "(nat \<times> nat) list"
  st_n :: nat

definition stage_doc :: "(js_string \<Rightarrow> js_string) \<Rightarrow> js_string list option \<Rightarrow> js_string \<times> json \<Rightarrow> staged \<Rightarrow> staged" where
  "stage_doc lower flds e s =
     (let docID = length (st_keys s); tokens = doc_tokens lower flds (snd e)
      in \<lparr> st_agg = add_counts docID (count_terms tokens) (st_agg s),
          st_keys = st_keys s @ [Some (fst e)],
          st_keyToId = AList.update (fst e) docID (st_keyToId s),
          st_docLen = AList.update docID (length tokens) (st_docLen s),
          st_n = st_n s + 1 \<rparr>)"

definition stage_docs :: "(js_string \<Rightarrow> js_string) \<Rightarrow> js_string list option \<Rightarrow> (js_string \<times> json) list \<Rightarrow> staged" where
  "stage_docs lower flds es =
     fold (stage_doc lower flds) es \<lparr> st_agg = [], st_keys = [], st_keyToId = [], st_docLen = [], st_n = 0 \<rparr>"

definition aggToSorted :: "term_map \<Rightarrow> (js_string \<times> posting list) list" where
  "aggToSorted agg = map (\<lambda>(t, m). (t, map (\<lambda>(i, f). (int i, int f)) m)) agg"

definition swap_in :: "staged \<Rightarrow> text_index \<Rightarrow> text_index" where
  "swap_in s ti = ti\<lparr> ti_docLen := st_docLen s, ti_keys := st_keys s, ti_keyToId := st_keyToId s, ti_delta := [],
     ti_deltaCount := 0, ti_removed := {}, ti_cache := [], ti_N := int (st_n s) \<rparr>"

text \<open>Whether writing the file works, whether the old file can be opened again after a failure, and
  whether the new file can be opened.\<close>

record rebuild_outcome =
  ro_written :: bool
  ro_reattach :: bool
  ro_opens :: bool

definition text_build :: "(js_string \<Rightarrow> js_string) \<Rightarrow> rebuild_outcome \<Rightarrow> (js_string \<times> json) list \<Rightarrow> text_index
    \<Rightarrow> (text_error, unit) res \<times> text_index" where
  "text_build lower out es ti =
     (let s = stage_docs lower (ti_fields ti) es in
      if \<not> ti_path ti then (Inr (), swap_in s (ti\<lparr> ti_memBase := Some (st_agg s) \<rparr>))
      else
        (let result = (if ro_written out then (case rebuildSync (aggToSorted (st_agg s)) of Inl e \<Rightarrow> Inl (PostingsFailed e) | Inr r \<Rightarrow> Inr r)
                       else Inl WriteFailed)
         in case result of
              Inl e \<Rightarrow> (Inl e, ti\<lparr> ti_pf := (if ti_pf ti \<noteq> None \<and> ro_reattach out then ti_file ti else None) \<rparr>)
            | Inr (dict, content) \<Rightarrow>
                if \<not> ro_opens out then (Inl OpenFailed, ti\<lparr> ti_pf := None, ti_file := Some content \<rparr>)
                else (Inr (), swap_in s (ti\<lparr> ti_postings := dict, ti_pf := Some content, ti_file := Some content \<rparr>))))"

subsection \<open>Reads\<close>

definition to_map :: "('a \<times> 'b) list \<Rightarrow> ('a \<times> 'b) list" where
  "to_map arr = fold (\<lambda>(i, f). AList.update i f) arr []"

definition cache_put :: "nat \<Rightarrow> js_string \<Rightarrow> posting list \<Rightarrow> (js_string \<times> posting list) list \<Rightarrow> (js_string \<times> posting list) list" where
  "cache_put cacheTerms t arr cache =
     (if cacheTerms > 0 then (let c = AList.update t arr cache in if length c > cacheTerms then tl c else c) else cache)"

definition of_postings :: "posting list \<Rightarrow> freqs" where
  "of_postings es = map (\<lambda>(i, f). (nat i, nat f)) es"

definition read_fresh :: "js_string \<Rightarrow> text_index \<Rightarrow> (postings_error, posting list) res" where
  "read_fresh t ti =
     (case (map_of (ti_postings ti) t, ti_pf ti) of
        (Some e, Some content) \<Rightarrow> postings_read (Some content) e
      | _ \<Rightarrow> Inr [])"

definition readBase :: "js_string \<Rightarrow> text_index \<Rightarrow> (text_error, freqs) res \<times> text_index" where
  "readBase t ti =
     (case ti_memBase ti of
        Some b \<Rightarrow> (Inr (entries_at t b), ti)
      | None \<Rightarrow>
          (case map_of (ti_cache ti) t of
             Some arr \<Rightarrow> (Inr (to_map (of_postings arr)), ti\<lparr> ti_cache := AList.delete t (ti_cache ti) @ [(t, arr)] \<rparr>)
           | None \<Rightarrow>
               (case read_fresh t ti of
                  Inl e \<Rightarrow> (Inl (PostingsFailed e), ti)
                | Inr arr \<Rightarrow> (Inr (to_map (of_postings arr)), ti\<lparr> ti_cache := cache_put (ti_cacheTerms ti) t arr (ti_cache ti) \<rparr>))))"

definition merge_live :: "nat set \<Rightarrow> freqs \<Rightarrow> freqs \<Rightarrow> freqs" where
  "merge_live removed base delta = to_map (filter (\<lambda>(i, f). i \<notin> removed) base @ filter (\<lambda>(i, f). i \<notin> removed) delta)"

definition livePostings :: "js_string \<Rightarrow> text_index \<Rightarrow> (text_error, freqs) res \<times> text_index" where
  "livePostings t ti =
     (case readBase t ti of
        (Inl e, ti') \<Rightarrow> (Inl e, ti')
      | (Inr base, ti') \<Rightarrow> (Inr (merge_live (ti_removed ti') base (entries_at t (ti_delta ti'))), ti'))"

fun term_maps :: "js_string list \<Rightarrow> text_index \<Rightarrow> (text_error, term_map) res \<times> text_index" where
  "term_maps [] ti = (Inr [], ti)"
| "term_maps (t # ts) ti =
     (case livePostings t ti of
        (Inl e, ti') \<Rightarrow> (Inl e, ti')
      | (Inr m, ti') \<Rightarrow> (case term_maps ts ti' of (Inl e, ti'') \<Rightarrow> (Inl e, ti'') | (Inr ms, ti'') \<Rightarrow> (Inr ((t, m) # ms), ti'')))"

text \<open>Candidates: the union, or the intersection starting from the shortest list.\<close>

fun narrow_all :: "nat list \<Rightarrow> freqs list \<Rightarrow> nat list" where
  "narrow_all c [] = c"
| "narrow_all c (m # ms) = (if c = [] then c else narrow_all (filter (\<lambda>i. map_of m i \<noteq> None) c) ms)"

definition and_candidates :: "freqs list \<Rightarrow> nat list" where
  "and_candidates ms =
     (if list_ex (\<lambda>m. m = []) ms then []
      else (case sort_key length ms of [] \<Rightarrow> [] | m # rest \<Rightarrow> narrow_all (map fst m) rest))"

definition or_candidates :: "freqs list \<Rightarrow> nat list" where
  "or_candidates ms = dedup (concat (map (map fst) ms))"

record 's score_arith =
  sa_zero :: 's
  sa_tf :: "nat \<Rightarrow> nat \<Rightarrow> 's"
  sa_idf :: "int \<Rightarrow> nat \<Rightarrow> 's"
  sa_times :: "'s \<Rightarrow> 's \<Rightarrow> 's"
  sa_plus :: "'s \<Rightarrow> 's \<Rightarrow> 's"
  sa_positive :: "'s \<Rightarrow> bool"
  sa_less :: "'s \<Rightarrow> 's \<Rightarrow> bool"

definition text_idf :: "'s score_arith \<Rightarrow> text_index \<Rightarrow> nat \<Rightarrow> 's" where
  "text_idf A ti df = sa_idf A (ti_N ti) (if df = 0 then 1 else df)"

fun doc_score :: "'s score_arith \<Rightarrow> text_index \<Rightarrow> nat \<Rightarrow> nat \<Rightarrow> term_map \<Rightarrow> 's \<Rightarrow> 's" where
  "doc_score A ti docID len [] score = score"
| "doc_score A ti docID len ((t, m) # ms) score =
     doc_score A ti docID len ms
       (case map_of m docID of
          Some f \<Rightarrow> if f \<noteq> 0 then sa_plus A score (sa_times A (sa_tf A f len) (text_idf A ti (length m))) else score
        | None \<Rightarrow> score)"

definition score_hit :: "'s score_arith \<Rightarrow> text_index \<Rightarrow> term_map \<Rightarrow> nat \<Rightarrow> (js_string \<times> 's) option" where
  "score_hit A ti ms docID =
     (let len = (case map_of (ti_docLen ti) docID of None \<Rightarrow> 1 | Some n \<Rightarrow> n);
          score = doc_score A ti docID len ms (sa_zero A)
      in if sa_positive A score
         then (if docID < length (ti_keys ti) then map_option (\<lambda>k. (k, score)) (ti_keys ti ! docID) else None)
         else None)"

definition by_score :: "'s score_arith \<Rightarrow> js_string \<times> 's \<Rightarrow> js_string \<times> 's \<Rightarrow> int" where
  "by_score A a b = (if sa_less A (snd b) (snd a) then -1 else if sa_less A (snd a) (snd b) then 1 else 0)"

definition text_search :: "(js_string \<Rightarrow> js_string) \<Rightarrow> 's score_arith \<Rightarrow> js_string \<Rightarrow> bool \<Rightarrow> nat option \<Rightarrow> text_index
    \<Rightarrow> (text_error, (js_string \<times> 's) list) res \<times> text_index" where
  "text_search lower A query any limit ti =
     (let qtokens = dedup (tokenize lower query) in
      if qtokens = [] then (Inr [], ti)
      else (case term_maps qtokens ti of
              (Inl e, ti') \<Rightarrow> (Inl e, ti')
            | (Inr ms, ti') \<Rightarrow>
                let candidates = (if any then or_candidates (map snd ms) else and_candidates (map snd ms));
                    scored = List.map_filter (score_hit A ti' ms) candidates
                in (Inr (take (case limit of None \<Rightarrow> 50 | Some n \<Rightarrow> n) (sort_by (by_score A) scored)), ti')))"

definition text_close :: "text_index \<Rightarrow> text_index" where
  "text_close ti = ti\<lparr> ti_pf := postings_close (ti_pf ti) \<rparr>"

end
