(* ===== verification/TextProofs.thy ===== *)
theory TextProofs
  imports TextIndex PlannerProofs Complex_Main
begin

section \<open>Correctness of the full-text index\<close>

text \<open>
  Every term of a document fits a postings record; the index, through any sequence of writes, searches
  and rebuilds, represents the table of the documents written, and a search returns exactly the
  documents whose terms it asks for.
\<close>

subsection \<open>Terms\<close>

lemma runs_class: "t \<in> set (runs p s) \<Longrightarrow> t \<noteq> [] \<and> (\<forall>u\<in>set t. p u)"
proof (induction p s rule: runs.induct)
  case (2 p u us)
  show ?case
  proof (cases "p u")
    case True
    then consider "t = u # takeWhile p us" | "t \<in> set (runs p (dropWhile p us))" using "2.prems" by auto
    then show ?thesis
    proof cases
      case 1
      with True show ?thesis by (auto dest: set_takeWhileD)
    qed (rule "2.IH"(1) [OF True])
  next
    case False
    then have "t \<in> set (runs p us)" using "2.prems" by simp
    then show ?thesis by (rule "2.IH"(2) [OF False])
  qed
qed simp

lemma grams_short: "t \<in> set (grams r) \<Longrightarrow> t \<noteq> [] \<and> length t \<le> 2"
  by (induction r rule: grams.induct) auto

lemma toKStr_ascii: "\<forall>u\<in>set t. u < 0x80 \<Longrightarrow> toKStr t = t"
  by (induction t) (simp_all add: Let_def word_less_nat_alt)

lemma toKStr_length: "length (toKStr t) \<le> 3 * length t"
proof (induction t rule: toKStr.induct)
  case (2 u us)
  note IH = 2
  let ?n = "unat u"
  consider "?n < 0x80" | "\<not> ?n < 0x80" "?n < 0x800"
    | "\<not> ?n < 0x80" "\<not> ?n < 0x800" "is_high u \<and> us \<noteq> [] \<and> is_low (hd us)"
    | "\<not> ?n < 0x80" "\<not> ?n < 0x800" "\<not> (is_high u \<and> us \<noteq> [] \<and> is_low (hd us))" "is_high u \<or> is_low u"
    | "\<not> ?n < 0x80" "\<not> ?n < 0x800" "\<not> (is_high u \<and> us \<noteq> [] \<and> is_low (hd us))" "\<not> (is_high u \<or> is_low u)"
    by blast
  then show ?case
  proof cases
    case 1
    then have "length (toKStr (u # us)) = 1 + length (toKStr us)" by (simp add: Let_def)
    with 1 2(1) [OF refl] show ?thesis by simp
  next
    case 2
    then have "length (toKStr (u # us)) = 2 + length (toKStr us)" by (simp add: Let_def)
    with IH(2) [OF refl 2] show ?thesis by simp
  next
    case 3
    then have "length (toKStr (u # us)) = 4 + length (toKStr (tl us))" "length us \<ge> 1" by (simp_all add: Let_def Suc_le_eq)
    with IH(3) [OF refl 3] show ?thesis by simp
  next
    case 4
    then have "length (toKStr (u # us)) = 3 + length (toKStr us)" by (auto simp: Let_def)
    with IH(4) [OF refl 4] show ?thesis by simp
  next
    case 5
    then have "length (toKStr (u # us)) = 3 + length (toKStr us)" by (auto simp: Let_def)
    with IH(5) [OF refl 5] show ?thesis by simp
  qed
qed simp

text \<open>Every term that \<open>tokenize\<close> produces fits the 16-bit length field of a postings record, so a document with an
  arbitrarily long word cannot make the writing of the postings file fail.\<close>

theorem terms_fit_records:
  assumes "t \<in> set (tokenize lower s)"
  shows "t \<noteq> [] \<and> length (utf8 t) \<le> 0xffff \<and> encodeRecord t df payload \<noteq> Inl TermTooLong"
proof -
  from assms have "(t \<in> set (runs is_latin (lower s)) \<and> length t \<le> 0xffff) \<or> (\<exists>r\<in>set (runs is_cjk (lower s)). t \<in> set (grams r))"
    by (auto simp: tokenize_def Let_def MAX_TERM_CHARS_def)
  then have "t \<noteq> [] \<and> length (utf8 t) \<le> 0xffff"
  proof
    assume l: "t \<in> set (runs is_latin (lower s)) \<and> length t \<le> 0xffff"
    then have "\<forall>u\<in>set t. is_latin u" "t \<noteq> []" using runs_class by blast+
    moreover have "is_latin u \<Longrightarrow> u < 0x80" for u by (auto simp: is_latin_def word_le_nat_alt word_less_nat_alt)
    ultimately show ?thesis using l toKStr_ascii [of t] by (simp add: utf8_def)
  next
    assume "\<exists>r\<in>set (runs is_cjk (lower s)). t \<in> set (grams r)"
    then have "t \<noteq> [] \<and> length t \<le> 2" using grams_short by blast
    then show ?thesis using toKStr_length [of t] by (simp add: utf8_def)
  qed
  then show ?thesis by (simp add: encodeRecord_def Let_def)
qed

subsection \<open>Maps and counts\<close>

definition freq_of :: "js_string list \<Rightarrow> js_string \<Rightarrow> nat option" where
  "freq_of toks t = (if t \<in> set toks then Some (count_list toks t) else None)"

lemma bump_fold:
  "map_of (fold bump toks c) t = (if t \<in> set toks then Some ((case map_of c t of None \<Rightarrow> 0 | Some n \<Rightarrow> n) + count_list toks t) else map_of c t)"
  by (induction toks arbitrary: c) (auto simp: bump_def update_conv' fun_upd_apply split: option.splits)

lemma bump_distinct: "distinct (map fst c) \<Longrightarrow> distinct (map fst (fold bump toks c))"
  by (induction toks arbitrary: c) (auto simp: bump_def intro: distinct_update)

lemma count_terms_map: "map_of (count_terms toks) t = freq_of toks t"
  by (simp add: count_terms_def bump_fold freq_of_def)

lemma count_terms_distinct: "distinct (map fst (count_terms toks))"
  by (simp add: count_terms_def bump_distinct)

lemma entries_at_update: "entries_at t (AList.update t' m d) = (if t = t' then m else entries_at t d)"
  by (simp add: entries_at_def update_conv' fun_upd_apply)

lemma entries_add_counts:
  "distinct (map fst cs) \<Longrightarrow> entries_at t (add_counts i cs d) = (case map_of cs t of None \<Rightarrow> entries_at t d | Some c \<Rightarrow> AList.update i c (entries_at t d))"
  by (induction i cs d rule: add_counts.induct)
     (auto simp: entries_at_update dest: map_of_SomeD image_eqI [of _ fst, OF fst_conv [symmetric]] split: option.splits)

lemma dom_add_counts: "fst ` set (add_counts i cs d) = fst ` set cs \<union> fst ` set d"
proof (induction i cs d rule: add_counts.induct)
  case (2 i t c cs d)
  then show ?case using update_keys [of t "AList.update i c (entries_at t d)" d] by (auto simp: dom_update)
qed simp

lemma distinct_add_counts: "distinct (map fst d) \<Longrightarrow> distinct (map fst (add_counts i cs d))"
  by (induction i cs d rule: add_counts.induct) (simp_all add: distinct_update)

lemma update_not_Nil: "AList.update k v al \<noteq> []"
  by (cases al) auto

lemma to_map_distinct: "distinct (map fst (to_map arr))"
proof -
  have "distinct (map fst c) \<Longrightarrow> distinct (map fst (fold (\<lambda>(i, f). AList.update i f) arr c))" for c :: "('a \<times> 'b) list"
    by (induction arr arbitrary: c) (auto intro: distinct_update)
  then show ?thesis by (simp add: to_map_def)
qed

lemma to_map_of: "map_of (to_map arr) = map_of (rev arr)"
proof -
  have "map_of (fold (\<lambda>(i, f). AList.update i f) arr c) = map_of (rev arr @ c)" for c :: "('a \<times> 'b) list"
    by (induction arr arbitrary: c) (auto simp: update_conv' map_add_upd)
  then show ?thesis by (simp add: to_map_def)
qed

lemma update_fresh: "k \<notin> fst ` set al \<Longrightarrow> AList.update k v al = al @ [(k, v)]"
  by (induction al) auto

lemma to_map_id: "distinct (map fst arr) \<Longrightarrow> to_map arr = arr"
proof -
  have "distinct (map fst (c @ arr)) \<Longrightarrow> fold (\<lambda>(i, f). AList.update i f) arr c = c @ arr" for c :: "('a \<times> 'b) list"
    by (induction arr arbitrary: c) (auto simp: update_fresh)
  then show "distinct (map fst arr) \<Longrightarrow> to_map arr = arr" by (simp add: to_map_def)
qed

lemma map_of_filter_key: "map_of (filter (\<lambda>(i, f). P i) xs) k = (if P k then map_of xs k else None)"
  by (induction xs) auto

lemma merge_live_map:
  assumes "distinct (map fst m)" "distinct (map fst d)"
  shows "map_of (merge_live removed m d) i = (if i \<in> removed then None else (map_of m ++ map_of d) i)"
proof -
  have "map_of (rev (filter (\<lambda>(i, f). i \<notin> removed) xs)) = map_of (filter (\<lambda>(i, f). i \<notin> removed) xs)"
    if "distinct (map fst xs)" for xs :: freqs
  proof -
    have "distinct (map fst (filter (\<lambda>(i, f). i \<notin> removed) xs))"
      using that by (simp add: distinct_map inj_on_subset [of fst "set xs"])
    then show ?thesis by (subst map_of_inject_set) (simp_all add: rev_map [symmetric])
  qed
  then show ?thesis using assms
    
    by (cases "map_of d i") (simp_all add: merge_live_def to_map_of map_add_def map_of_filter_key [of "\<lambda>i. i \<notin> removed"])
qed

subsection \<open>Reading the base\<close>

definition base_of :: "text_index \<Rightarrow> js_string \<Rightarrow> (postings_error, freqs) res" where
  "base_of ti t =
     (case ti_memBase ti of
        Some b \<Rightarrow> Inr (entries_at t b)
      | None \<Rightarrow> map_res (\<lambda>arr. to_map (of_postings arr)) (read_fresh t ti))"

definition cache_ok :: "text_index \<Rightarrow> bool" where
  "cache_ok ti \<longleftrightarrow> (\<forall>(t, arr)\<in>set (ti_cache ti). read_fresh t ti = Inr arr)"

lemma read_fresh_cache [simp]: "read_fresh t (ti\<lparr>ti_cache := c\<rparr>) = read_fresh t ti"
  by (simp add: read_fresh_def)

lemma set_update_subset: "set (AList.update k v al) \<subseteq> insert (k, v) (set al)"
  by (induction al) auto

lemma set_cache_put: "set (cache_put n t arr c) \<subseteq> insert (t, arr) (set c)"
proof -
  have "set (tl (AList.update t arr c)) \<subseteq> set (AList.update t arr c)" by (cases "AList.update t arr c") auto
  then show ?thesis using set_update_subset [of t arr c] unfolding cache_put_def Let_def by (simp split: if_splits) blast+
qed

lemma readBase_base:
  assumes "cache_ok ti" "base_of ti t = Inr m"
  obtains c where "readBase t ti = (Inr m, ti\<lparr>ti_cache := c\<rparr>)" "cache_ok (ti\<lparr>ti_cache := c\<rparr>)"
proof (cases "ti_memBase ti")
  case (Some b)
  then show ?thesis using assms that [of "ti_cache ti"] by (simp add: readBase_def base_of_def)
next
  case None
  then obtain arr where arr: "read_fresh t ti = Inr arr" "m = to_map (of_postings arr)"
    using assms(2) by (auto simp: base_of_def map_res_def bind_res_Inr)
  show ?thesis
  proof (cases "map_of (ti_cache ti) t")
    case (Some arr')
    then have "arr' = arr" using assms(1) arr(1) by (auto simp: cache_ok_def dest!: map_of_SomeD)
    then show ?thesis using assms(1) arr None Some that [of "AList.delete t (ti_cache ti) @ [(t, arr)]"]
      by (auto simp: readBase_def cache_ok_def AList.delete_eq)
  next
    case None': None
    show ?thesis
      using assms(1) arr None None' that [of "cache_put (ti_cacheTerms ti) t arr (ti_cache ti)"]
        set_cache_put [of "ti_cacheTerms ti" t arr "ti_cache ti"]
      by (auto simp: readBase_def cache_ok_def)
  qed
qed

subsection \<open>The table an index represents\<close>

definition layer_ok :: "(js_string \<Rightarrow> js_string) \<Rightarrow> text_index \<Rightarrow> (js_string \<rightharpoonup> json) \<Rightarrow> js_string \<Rightarrow> bool" where
  "layer_ok lower ti docs t \<longleftrightarrow>
     (\<exists>m. base_of ti t = Inr m \<and> distinct (map fst m) \<and> distinct (map fst (entries_at t (ti_delta ti)))
        \<and> (\<forall>i. i \<notin> ti_removed ti \<longrightarrow>
              (map_of m ++ map_of (entries_at t (ti_delta ti))) i =
                (if i < length (ti_keys ti) then freq_of (doc_tokens lower (ti_fields ti) (the (docs (the (ti_keys ti ! i))))) t else None)))"

definition ids_ok :: "(js_string \<Rightarrow> js_string) \<Rightarrow> text_index \<Rightarrow> (js_string \<rightharpoonup> json) \<Rightarrow> bool" where
  "ids_ok lower ti docs \<longleftrightarrow>
     (\<forall>k. map_of (ti_keyToId ti) k = None \<longleftrightarrow> docs k = None) \<and> finite (dom docs) \<and> ti_N ti = int (card (dom docs))
     \<and> (\<forall>k i. map_of (ti_keyToId ti) k = Some i \<longleftrightarrow> i < length (ti_keys ti) \<and> ti_keys ti ! i = Some k)
     \<and> (\<forall>i. i \<in> ti_removed ti \<longleftrightarrow> i < length (ti_keys ti) \<and> ti_keys ti ! i = None)
     \<and> (\<forall>k i d. map_of (ti_keyToId ti) k = Some i \<longrightarrow> docs k = Some d \<longrightarrow> map_of (ti_docLen ti) i = Some (length (doc_tokens lower (ti_fields ti) d)))"

definition ti_ok :: "(js_string \<Rightarrow> js_string) \<Rightarrow> text_index \<Rightarrow> (js_string \<rightharpoonup> json) \<Rightarrow> bool" where
  "ti_ok lower ti docs \<longleftrightarrow> ids_ok lower ti docs \<and> (\<forall>t. layer_ok lower ti docs t) \<and> cache_ok ti
     \<and> (ti_pf ti = None \<or> ti_pf ti = ti_file ti) \<and> (ti_path ti \<longleftrightarrow> ti_memBase ti = None)
     \<and> (ti_pf ti = None \<longrightarrow> ti_postings ti = [])"

lemma new_ok: "ti_ok lower (new_text_index flds disk n existing) Map.empty"
  by (auto simp: ti_ok_def ids_ok_def layer_ok_def cache_ok_def new_text_index_def base_of_def read_fresh_def entries_at_def of_postings_def to_map_def)

lemma base_of_frame:
  "ti_memBase ti' = ti_memBase ti \<Longrightarrow> ti_postings ti' = ti_postings ti \<Longrightarrow> ti_pf ti' = ti_pf ti \<Longrightarrow> base_of ti' t = base_of ti t"
  "ti_postings ti' = ti_postings ti \<Longrightarrow> ti_pf ti' = ti_pf ti \<Longrightarrow> read_fresh t ti' = read_fresh t ti"
  by (simp_all add: base_of_def read_fresh_def split: option.split)

lemma cache_change:
  assumes "ti_ok lower ti docs" "cache_ok (ti\<lparr>ti_cache := c\<rparr>)"
  shows "ti_ok lower (ti\<lparr>ti_cache := c\<rparr>) docs"
proof -
  have "base_of (ti\<lparr>ti_cache := c\<rparr>) t = base_of ti t" for t by (rule base_of_frame) simp_all
  then have "layer_ok lower (ti\<lparr>ti_cache := c\<rparr>) docs t \<longleftrightarrow> layer_ok lower ti docs t" for t by (simp add: layer_ok_def)
  with assms show ?thesis by (simp add: ti_ok_def ids_ok_def)
qed

lemma ids_okD:
  assumes "ids_ok lower ti docs"
  shows "map_of (ti_keyToId ti) k = None \<longleftrightarrow> docs k = None" "finite (dom docs)" "ti_N ti = int (card (dom docs))"
    "map_of (ti_keyToId ti) k = Some i \<longleftrightarrow> i < length (ti_keys ti) \<and> ti_keys ti ! i = Some k"
    "i \<in> ti_removed ti \<longleftrightarrow> i < length (ti_keys ti) \<and> ti_keys ti ! i = None"
    "map_of (ti_keyToId ti) k = Some i \<Longrightarrow> docs k = Some d \<Longrightarrow> map_of (ti_docLen ti) i = Some (length (doc_tokens lower (ti_fields ti) d))"
  using assms unfolding ids_ok_def by blast+

lemma live_id:
  assumes "ids_ok lower ti docs" "i < length (ti_keys ti)" "i \<notin> ti_removed ti"
  obtains k d where "ti_keys ti ! i = Some k" "map_of (ti_keyToId ti) k = Some i" "docs k = Some d"
  using assms ids_okD(1,4,5) [OF assms(1)] by (metis not_None_eq)

lemma insert_fields:
  "ti_keys (text_insert lower k d ti) = ti_keys ti @ [Some k]" "ti_keyToId (text_insert lower k d ti) = AList.update k (length (ti_keys ti)) (ti_keyToId ti)"
  "ti_docLen (text_insert lower k d ti) = AList.update (length (ti_keys ti)) (length (doc_tokens lower (ti_fields ti) d)) (ti_docLen ti)"
  "ti_N (text_insert lower k d ti) = ti_N ti + 1" "ti_removed (text_insert lower k d ti) = ti_removed ti" "ti_fields (text_insert lower k d ti) = ti_fields ti"
  "ti_memBase (text_insert lower k d ti) = ti_memBase ti" "ti_postings (text_insert lower k d ti) = ti_postings ti" "ti_pf (text_insert lower k d ti) = ti_pf ti"
  "ti_cache (text_insert lower k d ti) = ti_cache ti" "ti_path (text_insert lower k d ti) = ti_path ti" "ti_file (text_insert lower k d ti) = ti_file ti"
  by (simp_all add: text_insert_def Let_def)

lemma insert_ids:
  assumes ids: "ids_ok lower ti docs" and new: "docs k = None"
  shows "ids_ok lower (text_insert lower k d ti) (docs(k \<mapsto> d))"
  unfolding ids_ok_def insert_fields
proof (intro conjI allI impI)
  note D = ids_okD [OF ids]
  let ?n = "length (ti_keys ti)"
  have k: "map_of (ti_keyToId ti) k = None" "k \<notin> dom docs" using D(1) new by auto
  have old: "map_of (ti_keyToId ti) k' \<noteq> Some ?n" for k' using D(4) by simp
  have nk: "i < ?n \<Longrightarrow> ti_keys ti ! i \<noteq> Some k" for i using D(4) [of k i] k by simp
  show "(map_of (AList.update k ?n (ti_keyToId ti)) k' = None) = ((docs(k \<mapsto> d)) k' = None)" for k' using D(1) [of k'] by (simp add: update_conv')
  show "finite (dom (docs(k \<mapsto> d)))" using D(2) by simp
  show "ti_N ti + 1 = int (card (dom (docs(k \<mapsto> d))))" using D(2,3) k(2) by (simp add: card_insert_disjoint)
  show "(map_of (AList.update k ?n (ti_keyToId ti)) k' = Some i) = (i < length (ti_keys ti @ [Some k]) \<and> (ti_keys ti @ [Some k]) ! i = Some k')" for k' i
    using D(4) [of k' i] nk [of i] by (auto simp: update_conv' nth_append less_Suc_eq)
  show "(i \<in> ti_removed ti) = (i < length (ti_keys ti @ [Some k]) \<and> (ti_keys ti @ [Some k]) ! i = None)" for i
    using D(5) [of i] by (auto simp: nth_append less_Suc_eq)
  show "map_of (AList.update ?n (length (doc_tokens lower (ti_fields ti) d)) (ti_docLen ti)) i = Some (length (doc_tokens lower (ti_fields ti) d'))"
    if "map_of (AList.update k ?n (ti_keyToId ti)) k' = Some i" "(docs(k \<mapsto> d)) k' = Some d'" for k' i d'
  proof (cases "k' = k")
    case True
    with that show ?thesis by (simp add: update_conv')
  next
    case False
    then have m: "map_of (ti_keyToId ti) k' = Some i" "docs k' = Some d'" using that by (simp_all add: update_conv')
    then have "i \<noteq> ?n" using old [of k'] by auto
    with D(6) [OF m] show ?thesis by (simp add: update_conv')
  qed
qed

lemma insert_layer:
  assumes ids: "ids_ok lower ti docs" and new: "docs k = None" and l: "layer_ok lower ti docs t"
  shows "layer_ok lower (text_insert lower k d ti) (docs(k \<mapsto> d)) t"
proof -
  let ?ti = "text_insert lower k d ti" and ?n = "length (ti_keys ti)"
  let ?toks = "doc_tokens lower (ti_fields ti) d"
  obtain m where m: "base_of ti t = Inr m" "distinct (map fst m)" "distinct (map fst (entries_at t (ti_delta ti)))"
    and at: "\<And>i. i \<notin> ti_removed ti \<Longrightarrow> (map_of m ++ map_of (entries_at t (ti_delta ti))) i =
                (if i < ?n then freq_of (doc_tokens lower (ti_fields ti) (the (docs (the (ti_keys ti ! i))))) t else None)"
    using l unfolding layer_ok_def by blast
  have e: "entries_at t (ti_delta ?ti) = (case freq_of ?toks t of None \<Rightarrow> entries_at t (ti_delta ti) | Some c \<Rightarrow> AList.update ?n c (entries_at t (ti_delta ti)))"
    by (simp add: text_insert_def Let_def entries_add_counts [OF count_terms_distinct] count_terms_map)
  have e': "map_of (entries_at t (ti_delta ?ti)) = (case freq_of ?toks t of None \<Rightarrow> map_of (entries_at t (ti_delta ti)) | Some c \<Rightarrow> (map_of (entries_at t (ti_delta ti)))(?n \<mapsto> c))"
    by (simp add: e update_conv' split: option.split)
  have b: "base_of ?ti t = Inr m" using m(1) base_of_frame(1) [of ?ti ti] by (simp add: text_insert_def Let_def)
  have "(map_of m ++ map_of (entries_at t (ti_delta ?ti))) i =
          (if i < length (ti_keys ?ti) then freq_of (doc_tokens lower (ti_fields ?ti) (the ((docs(k \<mapsto> d)) (the (ti_keys ?ti ! i))))) t else None)"
    if i: "i \<notin> ti_removed ?ti" for i
  proof -
    have i': "i \<notin> ti_removed ti" using i by (simp add: text_insert_def Let_def)
    have lift: "(map_of m ++ map_of (entries_at t (ti_delta ?ti))) i = (if i = ?n \<and> freq_of ?toks t \<noteq> None then freq_of ?toks t else (map_of m ++ map_of (entries_at t (ti_delta ti))) i)"
      by (auto simp: e' map_add_def split: option.split)
    show ?thesis
    proof (cases "i < ?n")
      case True
      then obtain k' d' where "ti_keys ti ! i = Some k'" "docs k' = Some d'" using live_id [OF ids True i'] by blast
      then have "ti_keys ti ! i \<noteq> None" "ti_keys ti ! i \<noteq> Some k" using new by auto
      with True lift at [OF i'] show ?thesis by (auto simp: text_insert_def Let_def nth_append)
    next
      case False
      with lift at [OF i'] show ?thesis by (auto simp: text_insert_def Let_def nth_append)
    qed
  qed
  moreover have "distinct (map fst (entries_at t (ti_delta ?ti)))"
    using m(3) by (simp add: e distinct_update split: option.split)
  ultimately show ?thesis using b m(2) unfolding layer_ok_def by blast
qed

lemma remove_fields:
  assumes "map_of (ti_keyToId ti) k = Some i"
  shows "ti_removed (text_remove k ti) = insert i (ti_removed ti)" "ti_keyToId (text_remove k ti) = AList.delete k (ti_keyToId ti)"
    "ti_keys (text_remove k ti) = (ti_keys ti)[i := None]" "ti_docLen (text_remove k ti) = AList.delete i (ti_docLen ti)"
    "ti_delta (text_remove k ti) = map (\<lambda>(t, m). (t, AList.delete i m)) (ti_delta ti)" "ti_N (text_remove k ti) = ti_N ti - 1"
    "ti_fields (text_remove k ti) = ti_fields ti" "ti_memBase (text_remove k ti) = ti_memBase ti" "ti_postings (text_remove k ti) = ti_postings ti"
    "ti_pf (text_remove k ti) = ti_pf ti" "ti_cache (text_remove k ti) = ti_cache ti" "ti_path (text_remove k ti) = ti_path ti" "ti_file (text_remove k ti) = ti_file ti"
  using assms by (simp_all add: text_remove_def)

lemma remove_none: "map_of (ti_keyToId ti) k = None \<Longrightarrow> text_remove k ti = ti"
  by (simp add: text_remove_def)

lemma remove_ids:
  assumes ids: "ids_ok lower ti docs"
  shows "ids_ok lower (text_remove k ti) (docs(k := None))"
proof (cases "map_of (ti_keyToId ti) k")
  case None
  then have "docs(k := None) = docs" using ids_okD(1) [OF ids] by auto
  with assms None show ?thesis by (simp add: remove_none)
next
  case (Some i)
  note D = ids_okD [OF ids] and F = remove_fields [OF Some]
  have k: "k \<in> dom docs" using D(1) [of k] Some by (auto simp: domIff)
  have i: "i < length (ti_keys ti)" "ti_keys ti ! i = Some k" using D(4) Some by auto
  have "int (card (dom docs - {k})) = ti_N ti - 1"
  proof -
    have "card (dom docs) > 0" using k D(2) by (auto simp: card_gt_0_iff)
    then show ?thesis using k D(2,3) by (simp add: card_Diff_singleton of_nat_diff)
  qed
  note card = this
  have same: "map_of (ti_keyToId ti) k' = Some i \<Longrightarrow> k' = k" for k' using D(4) [of k' i] i by simp
  have only: "j = i" if "j < length (ti_keys ti)" "ti_keys ti ! j = Some k" for j using D(4) [of k j] that Some by simp
  show ?thesis
    unfolding ids_ok_def F
  proof (intro conjI allI impI)
    show "(map_of (AList.delete k (ti_keyToId ti)) k' = None) = ((docs(k := None)) k' = None)" for k' using D(1) [of k'] by (simp add: delete_conv')
    show "finite (dom (docs(k := None)))" using D(2) by simp
    show "ti_N ti - 1 = int (card (dom (docs(k := None))))" using card by simp
    show "(map_of (AList.delete k (ti_keyToId ti)) k' = Some j) = (j < length ((ti_keys ti)[i := None]) \<and> (ti_keys ti)[i := None] ! j = Some k')" for k' j
    proof (cases "k' = k")
      case True
      then show ?thesis using only [of j] i(1) by (cases "j = i") (auto simp: delete_conv')
    next
      case False
      then show ?thesis using D(4) [of k' j] i by (auto simp: delete_conv' nth_list_update)
    qed
    show "(j \<in> insert i (ti_removed ti)) = (j < length ((ti_keys ti)[i := None]) \<and> (ti_keys ti)[i := None] ! j = None)" for j
      using D(5) [of j] i by (auto simp: nth_list_update)
    show "map_of (AList.delete i (ti_docLen ti)) j = Some (length (doc_tokens lower (ti_fields ti) d'))"
      if "map_of (AList.delete k (ti_keyToId ti)) k' = Some j" "(docs(k := None)) k' = Some d'" for k' j d'
    proof -
      have m: "map_of (ti_keyToId ti) k' = Some j" "docs k' = Some d'" "k' \<noteq> k" using that by (auto simp: delete_conv' split: if_splits)
      then have "j \<noteq> i" using same [of k'] by auto
      then show ?thesis using D(6) [OF m(1,2)] by (simp add: delete_conv')
    qed
  qed
qed

lemma entries_at_delete: "entries_at t (map (\<lambda>(t, m). (t, AList.delete i m)) d) = AList.delete i (entries_at t d)"
  by (induction d) (auto simp: entries_at_def)

lemma remove_layer:
  assumes ids: "ids_ok lower ti docs" and l: "layer_ok lower ti docs t"
  shows "layer_ok lower (text_remove k ti) (docs(k := None)) t"
proof (cases "map_of (ti_keyToId ti) k")
  case None
  then have "docs(k := None) = docs" using ids_okD(1) [OF ids] by auto
  with l None show ?thesis by (simp add: remove_none)
next
  case (Some i)
  note D = ids_okD [OF ids] and F = remove_fields [OF Some]
  obtain m where m: "base_of ti t = Inr m" "distinct (map fst m)" "distinct (map fst (entries_at t (ti_delta ti)))"
    and at: "\<And>i. i \<notin> ti_removed ti \<Longrightarrow> (map_of m ++ map_of (entries_at t (ti_delta ti))) i =
                (if i < length (ti_keys ti) then freq_of (doc_tokens lower (ti_fields ti) (the (docs (the (ti_keys ti ! i))))) t else None)"
    using l unfolding layer_ok_def by blast
  have b: "base_of (text_remove k ti) t = Inr m" using m(1) base_of_frame(1) [of "text_remove k ti" ti] F by simp
  have e: "entries_at t (ti_delta (text_remove k ti)) = AList.delete i (entries_at t (ti_delta ti))" by (simp add: F entries_at_delete)
  have "(map_of m ++ map_of (entries_at t (ti_delta (text_remove k ti)))) j =
          (if j < length (ti_keys (text_remove k ti)) then freq_of (doc_tokens lower (ti_fields (text_remove k ti)) (the ((docs(k := None)) (the (ti_keys (text_remove k ti) ! j))))) t else None)"
    if "j \<notin> ti_removed (text_remove k ti)" for j
  proof -
    have j: "j \<noteq> i" "j \<notin> ti_removed ti" using that F by auto
    have "j < length (ti_keys ti) \<Longrightarrow> ti_keys ti ! j \<noteq> None \<and> ti_keys ti ! j \<noteq> Some k"
      using j D(4) [of k i] D(4) [of k j] Some D(5) [of j] by auto
    then show ?thesis using at [OF j(2)] j(1) by (auto simp: entries_at_delete F delete_conv' map_add_def)
  qed
  moreover have "distinct (map fst (entries_at t (ti_delta (text_remove k ti))))" using m(3) by (simp add: e distinct_delete)
  ultimately show ?thesis using b m(2) unfolding layer_ok_def by blast
qed

lemma remove_ok: "ti_ok lower ti docs \<Longrightarrow> ti_ok lower (text_remove k ti) (docs(k := None))"
proof (cases "map_of (ti_keyToId ti) k")
  case (Some i)
  assume ok: "ti_ok lower ti docs"
  have "read_fresh t (text_remove k ti) = read_fresh t ti" for t by (rule base_of_frame(2)) (simp_all add: remove_fields [OF Some])
  with ok Some show ?thesis
    using remove_ids [of lower ti docs k] remove_layer [of lower ti docs _ k] by (simp add: ti_ok_def cache_ok_def remove_fields)
next
  case None
  assume ok: "ti_ok lower ti docs"
  then have "docs(k := None) = docs" using ids_okD(1) [of lower ti docs k] None by (auto simp: ti_ok_def)
  with ok None show ?thesis by (simp add: remove_none)
qed

lemma add_ok:
  assumes "ti_ok lower ti docs"
  shows "ti_ok lower (text_add lower k d ti) (docs(k \<mapsto> d))"
proof -
  define ti0 where "ti0 = (if map_of (ti_keyToId ti) k \<noteq> None then text_remove k ti else ti)"
  have ok: "ti_ok lower ti0 (docs(k := None))"
  proof (cases "map_of (ti_keyToId ti) k")
    case None
    then show ?thesis using remove_ok [OF assms, of k] by (simp add: ti0_def remove_none)
  qed (use remove_ok [OF assms, of k] in \<open>simp add: ti0_def\<close>)
  have "read_fresh t (text_insert lower k d ti0) = read_fresh t ti0" for t
    by (rule base_of_frame(2)) (simp_all add: insert_fields)
  then have c: "cache_ok (text_insert lower k d ti0)" using ok by (simp add: ti_ok_def cache_ok_def insert_fields)
  have "ids_ok lower ti0 (docs(k := None))" "\<And>t. layer_ok lower ti0 (docs(k := None)) t" using ok by (simp_all add: ti_ok_def)
  then have "ids_ok lower (text_insert lower k d ti0) (docs(k \<mapsto> d))" "\<And>t. layer_ok lower (text_insert lower k d ti0) (docs(k \<mapsto> d)) t"
    using insert_ids [of lower ti0 "docs(k := None)" k d] insert_layer [of lower ti0 "docs(k := None)" k _ d] by simp_all
  with ok c have "ti_ok lower (text_insert lower k d ti0) (docs(k \<mapsto> d))" by (simp add: ti_ok_def insert_fields)
  then show ?thesis by (simp add: text_add_def ti0_def)
qed

subsection \<open>Building\<close>

definition ascending :: "freqs \<Rightarrow> nat \<Rightarrow> bool" where
  "ascending m n \<longleftrightarrow> sorted_wrt (<) (map fst m) \<and> (\<forall>i\<in>set (map fst m). i < n)"

lemma ascending_snoc: "ascending m n \<Longrightarrow> AList.update n c m = m @ [(n, c)] \<and> ascending (m @ [(n, c)]) (Suc n)"
  by (subst update_fresh) (auto simp: ascending_def sorted_wrt_append less_Suc_eq)

lemma ascending_mono: "ascending m n \<Longrightarrow> ascending m (Suc n)"
  by (auto simp: ascending_def)

definition staged_ok :: "(js_string \<Rightarrow> js_string) \<Rightarrow> js_string list option \<Rightarrow> (js_string \<times> json) list \<Rightarrow> staged \<Rightarrow> bool" where
  "staged_ok lower flds es s \<longleftrightarrow>
     st_keys s = map (\<lambda>e. Some (fst e)) es \<and> st_n s = length es
     \<and> (\<forall>k i. map_of (st_keyToId s) k = Some i \<longleftrightarrow> i < length es \<and> fst (es ! i) = k)
     \<and> (\<forall>i < length es. map_of (st_docLen s) i = Some (length (doc_tokens lower flds (snd (es ! i)))))
     \<and> distinct (map fst (st_agg s)) \<and> (\<forall>t\<in>fst ` set (st_agg s). entries_at t (st_agg s) \<noteq> [])
     \<and> (\<forall>t. ascending (entries_at t (st_agg s)) (length es)
          \<and> (\<forall>i. map_of (entries_at t (st_agg s)) i = (if i < length es then freq_of (doc_tokens lower flds (snd (es ! i))) t else None)))"

lemma stage_doc_ok:
  assumes s: "staged_ok lower flds es s" and k: "fst e \<notin> fst ` set es"
  shows "staged_ok lower flds (es @ [e]) (stage_doc lower flds e s)"
proof -
  let ?toks = "doc_tokens lower flds (snd e)" and ?n = "length es"
  have S: "st_keys s = map (\<lambda>e. Some (fst e)) es" "st_n s = length es"
    "\<And>k i. map_of (st_keyToId s) k = Some i \<longleftrightarrow> i < length es \<and> fst (es ! i) = k"
    "\<And>i. i < length es \<Longrightarrow> map_of (st_docLen s) i = Some (length (doc_tokens lower flds (snd (es ! i))))"
    "distinct (map fst (st_agg s))" "\<And>t. t \<in> fst ` set (st_agg s) \<Longrightarrow> entries_at t (st_agg s) \<noteq> []"
    "\<And>t. ascending (entries_at t (st_agg s)) (length es)"
    "\<And>t i. map_of (entries_at t (st_agg s)) i = (if i < length es then freq_of (doc_tokens lower flds (snd (es ! i))) t else None)"
    using s unfolding staged_ok_def by blast+
  have agg: "st_agg (stage_doc lower flds e s) = add_counts ?n (count_terms ?toks) (st_agg s)"
    by (simp add: stage_doc_def Let_def S(1))
  have at: "entries_at t (add_counts ?n (count_terms ?toks) (st_agg s)) = (case freq_of ?toks t of None \<Rightarrow> entries_at t (st_agg s) | Some c \<Rightarrow> entries_at t (st_agg s) @ [(?n, c)])" for t
    using ascending_snoc [OF S(7) [of t]] by (simp add: entries_add_counts [OF count_terms_distinct] count_terms_map split: option.split)
  have ne: "fst (es ! i) \<noteq> fst e" if "i < ?n" for i using k that by (metis image_eqI nth_mem)
  show ?thesis
    unfolding staged_ok_def agg
  proof (intro conjI allI ballI impI)
    show "st_keys (stage_doc lower flds e s) = map (\<lambda>e. Some (fst e)) (es @ [e])" "st_n (stage_doc lower flds e s) = length (es @ [e])"
      by (simp_all add: stage_doc_def Let_def S(1,2))
    show "(map_of (st_keyToId (stage_doc lower flds e s)) k' = Some i) = (i < length (es @ [e]) \<and> fst ((es @ [e]) ! i) = k')" for k' i
      using ne [of i] S(3) [of k' i] by (auto simp: stage_doc_def Let_def S(1) update_conv' nth_append less_Suc_eq)
    show "map_of (st_docLen (stage_doc lower flds e s)) i = Some (length (doc_tokens lower flds (snd ((es @ [e]) ! i))))" if "i < length (es @ [e])" for i
      using that S(4) [of i] by (auto simp: stage_doc_def Let_def S(1) update_conv' nth_append less_Suc_eq)
    show "distinct (map fst (add_counts ?n (count_terms ?toks) (st_agg s)))" by (rule distinct_add_counts [OF S(5)])
    show "entries_at t (add_counts ?n (count_terms ?toks) (st_agg s)) \<noteq> []" if "t \<in> fst ` set (add_counts ?n (count_terms ?toks) (st_agg s))" for t
    proof -
      have "t \<in> fst ` set (count_terms ?toks) \<or> t \<in> fst ` set (st_agg s)" using that by (simp add: dom_add_counts)
      then have "freq_of ?toks t \<noteq> None \<or> entries_at t (st_agg s) \<noteq> []"
        using S(6) [of t] count_terms_map [of ?toks t] by (metis map_of_eq_None_iff)
      then show ?thesis by (auto simp: at split: option.split)
    qed
    show "ascending (entries_at t (add_counts ?n (count_terms ?toks) (st_agg s))) (length (es @ [e]))" for t
      using ascending_snoc [OF S(7) [of t]] ascending_mono [OF S(7) [of t]] by (simp add: at split: option.split)
    show "map_of (entries_at t (add_counts ?n (count_terms ?toks) (st_agg s))) i =
            (if i < length (es @ [e]) then freq_of (doc_tokens lower flds (snd ((es @ [e]) ! i))) t else None)" for t i
      using S(8) [of t i] by (auto simp: at map_add_def nth_append less_Suc_eq split: option.split)
  qed
qed

lemma stage_docs_ok: "distinct (map fst es) \<Longrightarrow> staged_ok lower flds es (stage_docs lower flds es)"
proof (induction es rule: rev_induct)
  case Nil
  then show ?case by (simp add: staged_ok_def stage_docs_def entries_at_def ascending_def)
next
  case (snoc e es)
  then show ?case using stage_doc_ok [of lower flds es "stage_docs lower flds es" e] by (auto simp: stage_docs_def)
qed

lemma ascending_distinct: "ascending m n \<Longrightarrow> distinct (map fst m)"
  unfolding ascending_def by (metis strict_sorted_iff)

lemma ascending_length: "ascending m n \<Longrightarrow> length m \<le> n"
proof -
  assume a: "ascending m n"
  then have "card (set (map fst m)) = length m" using ascending_distinct [OF a] distinct_card by fastforce
  moreover have "set (map fst m) \<subseteq> {..<n}" using a by (auto simp: ascending_def)
  ultimately show ?thesis using card_mono [of "{..<n}" "set (map fst m)"] by simp
qed

lemma ascending_valid:
  assumes "ascending m n" "int n \<le> 2 ^ 32" "\<And>i f. (i, f) \<in> set m \<Longrightarrow> int f < 2 ^ 32" "int (length m) < 2 ^ 32"
  shows "valid_postings (map (\<lambda>(i, f). (int i, int f)) m)"
proof -
  have "ascending_from (int p) (map (\<lambda>(i, f). (int i, int f)) xs)"
    if "sorted_wrt (<) (map fst xs)" "\<forall>i\<in>set (map fst xs). p \<le> i \<and> i < n" "\<And>i f. (i, f) \<in> set xs \<Longrightarrow> int f < 2 ^ 32" for p xs
    using that assms(2)
  proof (induction xs arbitrary: p)
    case (Cons x xs)
    obtain i f where x: "x = (i, f)" by force
    have "ascending_from (int i) (map (\<lambda>(i, f). (int i, int f)) xs)"
      using Cons.prems x by (intro Cons.IH) (auto simp: less_imp_le)
    then show ?case using Cons.prems x by auto
  qed simp
  from this [of m 0] show ?thesis using assms by (auto simp: valid_postings_def ascending_def)
qed

lemma of_postings_conv [simp]: "of_postings (map (\<lambda>(i, f). (int i, int f)) m) = m"
  by (induction m) (auto simp: of_postings_def)

lemma rebuild_dict_dom: "rebuild_postings it content dict = Inr (dict', content') \<Longrightarrow> map_of dict' t \<noteq> None \<Longrightarrow> map_of dict t \<noteq> None \<or> t \<in> fst ` set it"
  by (induction it content dict rule: rebuild_postings.induct)
     (fastforce simp: bind_res_Inr update_conv' split: if_splits)+

definition within_bounds :: "(js_string \<Rightarrow> js_string) \<Rightarrow> js_string list option \<Rightarrow> (js_string \<times> json) list \<Rightarrow> bool" where
  "within_bounds lower flds es \<longleftrightarrow> int (length es) < 2 ^ 32 \<and> (\<forall>(k, d)\<in>set es. int (length (doc_tokens lower flds d)) < 2 ^ 32)"

lemma staged_base:
  assumes s: "staged_ok lower flds es s" and b: "within_bounds lower flds es"
    and r: "rebuildSync (aggToSorted (st_agg s)) = Inr (dict, content)"
    and ti: "ti_memBase ti = None" "ti_postings ti = dict" "ti_pf ti = Some content"
  shows "base_of ti t = Inr (entries_at t (st_agg s))"
proof -
  let ?m = "entries_at t (st_agg s)" and ?c = "\<lambda>(i, f). (int i, int f)"
  have asc: "ascending ?m (length es)"
    and at: "\<And>i. map_of ?m i = (if i < length es then freq_of (doc_tokens lower flds (snd (es ! i))) t else None)"
    using s unfolding staged_ok_def by blast+
  have keys: "fst ` set (aggToSorted (st_agg s)) = fst ` set (st_agg s)" by (force simp: aggToSorted_def)
  have dist: "distinct (map fst (aggToSorted (st_agg s)))" using s by (simp add: staged_ok_def aggToSorted_def case_prod_beta comp_def)
  show ?thesis
  proof (cases "t \<in> fst ` set (st_agg s)")
    case True
    then obtain m where m: "map_of (st_agg s) t = Some m" by (metis map_of_eq_None_iff not_None_eq)
    then have e: "?m = m" by (simp add: entries_at_def)
    have "int f < 2 ^ 32" if "(i, f) \<in> set ?m" for i f
    proof -
      have "map_of ?m i = Some f" using that ascending_distinct [OF asc] by simp
      then have "i < length es" "f \<le> length (doc_tokens lower flds (snd (es ! i)))"
        using at [of i] by (auto simp: freq_of_def count_le_length split: if_splits)
      moreover from this have "int (length (doc_tokens lower flds (snd (es ! i)))) < 2 ^ 32"
        using b nth_mem [of i es] unfolding within_bounds_def by (cases "es ! i") fastforce
      ultimately show ?thesis by linarith
    qed
    moreover have "int (length ?m) < 2 ^ 32" using ascending_length [OF asc] b by (simp add: within_bounds_def)
    ultimately have v: "valid_postings (map ?c m)" using ascending_valid [OF asc] b e by (simp add: within_bounds_def)
    have "m \<noteq> []" using s True e unfolding staged_ok_def by blast
    moreover have "(t, map ?c m) \<in> set (aggToSorted (st_agg s))" using map_of_SomeD [OF m] by (force simp: aggToSorted_def)
    ultimately have "dict_reads content dict t (map ?c m)"
      using rebuild_reads [OF r [unfolded rebuildSync_def] dist _ _ v] by simp
    then obtain en where "map_of dict t = Some en" "postings_read (Some content) en = Inr (map ?c m)" unfolding dict_reads_def by blast
    then show ?thesis using ti e to_map_id [OF ascending_distinct [OF asc]] by (simp add: base_of_def read_fresh_def)
  next
    case False
    then have "map_of dict t = None" using rebuild_dict_dom [OF r [unfolded rebuildSync_def], of t] keys by auto
    moreover from False have "map_of (st_agg s) t = None" by (simp add: map_of_eq_None_iff)
    then have "?m = []" by (simp add: entries_at_def)
    ultimately show ?thesis using ti by (simp add: base_of_def read_fresh_def of_postings_def to_map_def)
  qed
qed

lemma swap_fields:
  "ti_keys (swap_in s ti) = st_keys s" "ti_keyToId (swap_in s ti) = st_keyToId s" "ti_docLen (swap_in s ti) = st_docLen s" "ti_N (swap_in s ti) = int (st_n s)"
  "ti_removed (swap_in s ti) = {}" "ti_delta (swap_in s ti) = []" "ti_cache (swap_in s ti) = []" "ti_fields (swap_in s ti) = ti_fields ti"
  "ti_memBase (swap_in s ti) = ti_memBase ti" "ti_postings (swap_in s ti) = ti_postings ti" "ti_pf (swap_in s ti) = ti_pf ti" "ti_path (swap_in s ti) = ti_path ti" "ti_file (swap_in s ti) = ti_file ti"
  by (simp_all add: swap_in_def)

lemma swap_ok:
  assumes dist: "distinct (map fst es)" and s: "staged_ok lower (ti_fields ti) es s" and base: "\<And>t. base_of (swap_in s ti) t = Inr (entries_at t (st_agg s))"
    and ti: "ti_pf ti = None \<or> ti_pf ti = ti_file ti" "ti_path ti \<longleftrightarrow> ti_memBase ti = None" "ti_pf ti = None \<longrightarrow> ti_postings ti = []"
  shows "ti_ok lower (swap_in s ti) (map_of es)"
proof -
  have S: "st_keys s = map (\<lambda>e. Some (fst e)) es" "st_n s = length es"
    "\<And>k i. map_of (st_keyToId s) k = Some i \<longleftrightarrow> i < length es \<and> fst (es ! i) = k"
    "\<And>i. i < length es \<Longrightarrow> map_of (st_docLen s) i = Some (length (doc_tokens lower (ti_fields ti) (snd (es ! i))))"
    "\<And>t. ascending (entries_at t (st_agg s)) (length es)"
    "\<And>t i. map_of (entries_at t (st_agg s)) i = (if i < length es then freq_of (doc_tokens lower (ti_fields ti) (snd (es ! i))) t else None)"
    using s unfolding staged_ok_def by blast+
  have doc: "map_of es (fst (es ! i)) = Some (snd (es ! i))" if "i < length es" for i using dist that by (simp add: map_of_eq_Some_iff)
  have "dom (map_of es) = set (map fst es)" by (simp add: dom_map_of_conv_image_fst)
  then have card: "card (dom (map_of es)) = length es" using dist distinct_card by fastforce
  have none: "map_of (st_keyToId s) k = None \<longleftrightarrow> map_of es k = None" for k
  proof -
    have "map_of (st_keyToId s) k = None \<longleftrightarrow> (\<forall>i. \<not> (i < length es \<and> fst (es ! i) = k))" using S(3) [of k] by (metis not_None_eq option.distinct(1))
    also have "\<dots> \<longleftrightarrow> k \<notin> set (map fst es)" by (simp add: set_conv_nth del: set_map) (metis nth_map)
    also have "\<dots> \<longleftrightarrow> map_of es k = None" by (simp add: map_of_eq_None_iff)
    finally show ?thesis .
  qed
  have "ids_ok lower (swap_in s ti) (map_of es)"
    unfolding ids_ok_def swap_fields
  proof (intro conjI allI impI)
    show "(map_of (st_keyToId s) k = None) = (map_of es k = None)" for k by (rule none)
    show "finite (dom (map_of es))" by (rule finite_dom_map_of)
    show "int (st_n s) = int (card (dom (map_of es)))" by (simp add: card S(2))
    show "(map_of (st_keyToId s) k = Some i) = (i < length (st_keys s) \<and> st_keys s ! i = Some k)" for k i using S(3) [of k i] by (auto simp: S(1))
    show "(i \<in> {}) = (i < length (st_keys s) \<and> st_keys s ! i = None)" for i by (auto simp: S(1))
    show "map_of (st_docLen s) i = Some (length (doc_tokens lower (ti_fields ti) d))" if "map_of (st_keyToId s) k = Some i" "map_of es k = Some d" for k i d
      using that S(3) [of k i] S(4) [of i] doc [of i] by auto
  qed
  moreover have "layer_ok lower (swap_in s ti) (map_of es) t" for t
    unfolding layer_ok_def swap_fields using base [of t] ascending_distinct [OF S(5)] S(6) [of t] doc
    by (auto simp: entries_at_def S(1))
  ultimately show ?thesis using ti by (simp add: ti_ok_def cache_ok_def swap_fields)
qed

lemma build_ok:
  assumes ok: "ti_ok lower ti docs" and dist: "distinct (map fst es)" and b: "within_bounds lower (ti_fields ti) es"
    and out: "ro_reattach out" "ro_opens out" and r: "text_build lower out es ti = (r, ti')"
  shows "ti_ok lower ti' (case r of Inr u \<Rightarrow> map_of es | Inl e \<Rightarrow> docs) \<and> ti_fields ti' = ti_fields ti"
proof -
  let ?s = "stage_docs lower (ti_fields ti) es"
  have s: "staged_ok lower (ti_fields ti) es ?s" by (rule stage_docs_ok [OF dist])
  show ?thesis
  proof (cases "ti_path ti")
    case False
    let ?ti = "ti\<lparr>ti_memBase := Some (st_agg ?s)\<rparr>"
    have rr: "r = Inr ()" "ti' = swap_in ?s ?ti" using r False by (simp_all add: text_build_def Let_def)
    have "ti_ok lower (swap_in ?s ?ti) (map_of es)"
      by (rule swap_ok [OF dist]) (use s ok False in \<open>simp_all add: base_of_def swap_fields ti_ok_def\<close>)
    then show ?thesis using rr by (simp add: swap_fields)
  next
    case True
    let ?res = "if ro_written out then (case rebuildSync (aggToSorted (st_agg ?s)) of Inl e \<Rightarrow> Inl (PostingsFailed e) | Inr r \<Rightarrow> Inr r) else Inl WriteFailed"
    show ?thesis
    proof (cases ?res)
      case (Inl e)
      have "ti_pf ti = None \<or> ti_file ti = ti_pf ti" using ok by (auto simp: ti_ok_def)
      then have "r = Inl e" "ti' = ti" using r True Inl out by (auto simp: text_build_def Let_def)
      then show ?thesis using ok by simp
    next
      case (Inr dc)
      obtain dict content where dc: "dc = (dict, content)" by force
      let ?ti = "ti\<lparr>ti_postings := dict, ti_pf := Some content, ti_file := Some content\<rparr>"
      have rr: "r = Inr ()" "ti' = swap_in ?s ?ti" using r True Inr out dc by (auto simp: text_build_def Let_def)
      have rb: "rebuildSync (aggToSorted (st_agg ?s)) = Inr (dict, content)" using Inr dc by (auto split: if_splits sum.splits)
      have mem: "ti_memBase ti = None" using ok True by (simp add: ti_ok_def)
      have "base_of (swap_in ?s ?ti) t = Inr (entries_at t (st_agg ?s))" for t
        by (rule staged_base [OF s b rb]) (simp_all add: swap_fields mem)
      then have "ti_ok lower (swap_in ?s ?ti) (map_of es)"
        by (intro swap_ok [OF dist]) (use s ok True mem in \<open>simp_all add: ti_ok_def\<close>)
      then show ?thesis using rr by (simp add: swap_fields)
    qed
  qed
qed

subsection \<open>Searching\<close>

definition live_map :: "text_index \<Rightarrow> js_string \<Rightarrow> freqs" where
  "live_map ti t = (case base_of ti t of Inr m \<Rightarrow> merge_live (ti_removed ti) m (entries_at t (ti_delta ti)) | Inl e \<Rightarrow> [])"

lemma live_map_at:
  assumes "ti_ok lower ti docs"
  shows "map_of (live_map ti t) i = Some f \<longleftrightarrow>
    (\<exists>k d. map_of (ti_keyToId ti) k = Some i \<and> docs k = Some d \<and> freq_of (doc_tokens lower (ti_fields ti) d) t = Some f)"
proof -
  have ids: "ids_ok lower ti docs" and "layer_ok lower ti docs t" using assms by (simp_all add: ti_ok_def)
  then obtain m where m: "base_of ti t = Inr m" "distinct (map fst m)" "distinct (map fst (entries_at t (ti_delta ti)))"
    and at: "\<And>i. i \<notin> ti_removed ti \<Longrightarrow> (map_of m ++ map_of (entries_at t (ti_delta ti))) i =
                (if i < length (ti_keys ti) then freq_of (doc_tokens lower (ti_fields ti) (the (docs (the (ti_keys ti ! i))))) t else None)"
    unfolding layer_ok_def by blast
  have l: "map_of (live_map ti t) i = (if i \<in> ti_removed ti \<or> \<not> i < length (ti_keys ti) then None
      else freq_of (doc_tokens lower (ti_fields ti) (the (docs (the (ti_keys ti ! i))))) t)"
    using merge_live_map [OF m(2,3), of "ti_removed ti" i] at [of i] by (simp add: live_map_def m(1))
  note D = ids_okD [OF ids]
  show ?thesis
  proof (cases "i < length (ti_keys ti) \<and> i \<notin> ti_removed ti")
    case True
    then obtain k d where k: "ti_keys ti ! i = Some k" "map_of (ti_keyToId ti) k = Some i" "docs k = Some d"
      using live_id [OF ids] by blast
    have only: "map_of (ti_keyToId ti) k' = Some i \<Longrightarrow> k' = k" for k' using D(4) [of k' i] k(1) by simp
    have "map_of (live_map ti t) i = freq_of (doc_tokens lower (ti_fields ti) d) t" using l True k by simp
    then show ?thesis using only k(2,3) by (metis option.sel)
  next
    case False
    have no: "map_of (ti_keyToId ti) k \<noteq> Some i" for k using False D(4) [of k i] D(5) [of i] by simp
    have "map_of (live_map ti t) i = None" using l False by (cases "i < length (ti_keys ti)") simp_all
    then show ?thesis using no by simp
  qed
qed

lemma live_map_distinct: "distinct (map fst (live_map ti t))"
  by (cases "base_of ti t") (simp_all add: live_map_def merge_live_def to_map_distinct)

lemma live_map_cache: "live_map (ti\<lparr>ti_cache := c\<rparr>) t = live_map ti t"
proof -
  have "base_of (ti\<lparr>ti_cache := c\<rparr>) t = base_of ti t" by (rule base_of_frame) simp_all
  then show ?thesis by (cases "base_of ti t") (simp_all add: live_map_def)
qed

lemma term_maps_ok:
  assumes "ti_ok lower ti docs"
  shows "\<exists>c. term_maps ts ti = (Inr (map (\<lambda>t. (t, live_map ti t)) ts), ti\<lparr>ti_cache := c\<rparr>) \<and> ti_ok lower (ti\<lparr>ti_cache := c\<rparr>) docs"
  using assms
proof (induction ts arbitrary: ti)
  case Nil
  then show ?case by (intro exI [of _ "ti_cache ti"]) simp
next
  case (Cons t ts)
  obtain m where m: "base_of ti t = Inr m" using Cons.prems unfolding ti_ok_def layer_ok_def by blast
  obtain c where c: "readBase t ti = (Inr m, ti\<lparr>ti_cache := c\<rparr>)" "cache_ok (ti\<lparr>ti_cache := c\<rparr>)"
    using readBase_base [OF _ m] Cons.prems unfolding ti_ok_def by blast
  have ok: "ti_ok lower (ti\<lparr>ti_cache := c\<rparr>) docs" by (rule cache_change [OF Cons.prems c(2)])
  have l: "livePostings t ti = (Inr (live_map ti t), ti\<lparr>ti_cache := c\<rparr>)" by (simp add: livePostings_def c(1) live_map_def m)
  from Cons.IH [OF ok] obtain c' where "term_maps ts (ti\<lparr>ti_cache := c\<rparr>) = (Inr (map (\<lambda>t. (t, live_map ti t)) ts), ti\<lparr>ti_cache := c'\<rparr>)"
    "ti_ok lower (ti\<lparr>ti_cache := c'\<rparr>) docs" by (auto simp: live_map_cache)
  then show ?case by (intro exI [of _ c']) (simp add: l)
qed

lemma narrow_all_set: "set (narrow_all c ms) = {i \<in> set c. \<forall>m\<in>set ms. map_of m i \<noteq> None} \<and> (distinct c \<longrightarrow> distinct (narrow_all c ms))"
  by (induction c ms rule: narrow_all.induct) auto

lemma and_candidates_set:
  assumes "ms \<noteq> []"
  shows "set (and_candidates ms) = {i. \<forall>m\<in>set ms. map_of m i \<noteq> None}"
    and "\<forall>m\<in>set ms. distinct (map fst m) \<Longrightarrow> distinct (and_candidates ms)"
proof -
  obtain m rest where s: "sort_key length ms = m # rest" using assms by (metis length_0_conv length_sort neq_Nil_conv)
  then have e: "set ms = insert m (set rest)" by (metis list.simps(15) set_sort)
  show "set (and_candidates ms) = {i. \<forall>m\<in>set ms. map_of m i \<noteq> None}"
  proof (cases "[] \<in> set ms")
    case True
    moreover have "map_of [] i = None" for i :: nat by simp
    ultimately show ?thesis by (auto simp: and_candidates_def list_ex_iff simp del: map_of.simps intro!: bexI [of _ "[]"])
  next
    case False
    then have "\<not> list_ex (\<lambda>m. m = []) ms" by (auto simp: list_ex_iff)
    moreover have "i \<in> set (map fst m) \<longleftrightarrow> map_of m i \<noteq> None" for i by (simp add: map_of_eq_None_iff)
    ultimately show ?thesis using narrow_all_set [of "map fst m" rest] by (auto simp: and_candidates_def s e)
  qed
  show "\<forall>m\<in>set ms. distinct (map fst m) \<Longrightarrow> distinct (and_candidates ms)"
    using narrow_all_set [of "map fst m" rest] e by (auto simp: and_candidates_def s)
qed

lemma or_candidates_set: "set (or_candidates ms) = {i. \<exists>m\<in>set ms. map_of m i \<noteq> None}" "distinct (or_candidates ms)"
  by (auto simp: or_candidates_def map_of_eq_None_iff)

text \<open>What the scores need of floating-point arithmetic: adding the contribution of a term to a score gives a
  positive number, for the counts that occur (a term occurs at least once and at most as often as the document
  has terms, and in at least one and at most all documents), as long as they are exact doubles.\<close>

definition sound_arith :: "'s score_arith \<Rightarrow> bool" where
  "sound_arith A \<longleftrightarrow> (\<forall>s f len n df. (s = sa_zero A \<or> sa_positive A s) \<and> 0 < f \<and> f \<le> len \<and> len \<le> 2 ^ 53 \<and> 0 < df \<and> int df \<le> n \<and> n \<le> 2 ^ 53
     \<longrightarrow> sa_positive A (sa_plus A s (sa_times A (sa_tf A f len) (sa_idf A n df))))"

definition exact_counts :: "(js_string \<Rightarrow> js_string) \<Rightarrow> js_string list option \<Rightarrow> (js_string \<rightharpoonup> json) \<Rightarrow> bool" where
  "exact_counts lower flds docs \<longleftrightarrow> card (dom docs) \<le> 2 ^ 53 \<and> (\<forall>d\<in>ran docs. length (doc_tokens lower flds d) \<le> 2 ^ 53)"

text \<open>Arithmetic that rounds has it: \<open>rnd\<close> is monotone and keeps the powers of two down to \<open>2 ^ -54\<close>, as rounding to
  doubles does, and the computed logarithm of a number of at least two is at least one half.\<close>

definition rounded_arith :: "(real \<Rightarrow> real) \<Rightarrow> (real \<Rightarrow> real) \<Rightarrow> real score_arith" where
  "rounded_arith rnd lg = \<lparr>sa_zero = 0, sa_tf = \<lambda>f len. rnd (real f / real len), sa_idf = \<lambda>n df. lg (rnd (1 + rnd (real_of_int n / real df))),
     sa_times = \<lambda>x y. rnd (x * y), sa_plus = \<lambda>x y. rnd (x + y), sa_positive = \<lambda>x. 0 < x, sa_less = (<)\<rparr>"

lemma rounded_sound:
  assumes mono: "\<And>x y. x \<le> y \<Longrightarrow> rnd x \<le> rnd y" and pow: "\<And>k. k \<le> 54 \<Longrightarrow> rnd (1 / 2 ^ k) = 1 / 2 ^ k" "rnd 2 = 2"
    and lg: "\<And>x. 2 \<le> x \<Longrightarrow> 1 / 2 \<le> lg x"
  shows "sound_arith (rounded_arith rnd lg)"
proof -
  have P: "0 < rnd (s + rnd (rnd (real f / real len) * lg (rnd (1 + rnd (real_of_int n / real df)))))"
    if p: "0 \<le> s" "0 < f" "f \<le> len" "len \<le> 2 ^ 53" "0 < df" "int df \<le> n" for s f len n df
  proof -
    have "real len \<le> 2 ^ 53" using p(4) by (simp flip: of_nat_le_iff)
    then have "1 / 2 ^ 53 \<le> 1 / real len" using p(2,3) by (intro divide_left_mono) auto
    also have "1 / real len \<le> real f / real len" using p(2,3) by (intro divide_right_mono) auto
    finally have "rnd (1 / 2 ^ 53) \<le> rnd (real f / real len)" by (rule mono)
    then have tf: "1 / 2 ^ 53 \<le> rnd (real f / real len)" using pow(1) [of 53] by simp
    have "real df \<le> real_of_int n" using p(6) by linarith
    then have "1 \<le> real_of_int n / real df" using p(5) by simp
    then have "1 \<le> rnd (real_of_int n / real df)" using mono [of 1] pow(1) [of 0] by simp
    then have "2 \<le> rnd (1 + rnd (real_of_int n / real df))" using mono [of 2] pow(2) by simp
    then have idf: "1 / 2 \<le> lg (rnd (1 + rnd (real_of_int n / real df)))" by (rule lg)
    have "1 / 2 ^ 53 * (1 / 2) \<le> rnd (real f / real len) * lg (rnd (1 + rnd (real_of_int n / real df)))"
      by (rule mult_mono [OF tf idf]) (use tf in auto)
    then have "1 / 2 ^ 54 \<le> rnd (real f / real len) * lg (rnd (1 + rnd (real_of_int n / real df)))" by simp
    then have "rnd (1 / 2 ^ 54) \<le> rnd (rnd (real f / real len) * lg (rnd (1 + rnd (real_of_int n / real df))))" by (rule mono)
    then have "1 / 2 ^ 54 \<le> rnd (rnd (real f / real len) * lg (rnd (1 + rnd (real_of_int n / real df))))" using pow(1) [of 54] by simp
    then have "1 / 2 ^ 54 \<le> s + rnd (rnd (real f / real len) * lg (rnd (1 + rnd (real_of_int n / real df))))" using p(1) by linarith
    then have "rnd (1 / 2 ^ 54) \<le> rnd (s + rnd (rnd (real f / real len) * lg (rnd (1 + rnd (real_of_int n / real df)))))" by (rule mono)
    then have "1 / 2 ^ 54 \<le> rnd (s + rnd (rnd (real f / real len) * lg (rnd (1 + rnd (real_of_int n / real df)))))" using pow(1) [of 54] by simp
    then show ?thesis by (rule less_le_trans [rotated]) simp
  qed
  show ?thesis unfolding sound_arith_def
  proof (intro allI impI)
    fix s :: real and f len df :: nat and n :: int
    assume a: "(s = sa_zero (rounded_arith rnd lg) \<or> sa_positive (rounded_arith rnd lg) s) \<and> 0 < f \<and> f \<le> len \<and> len \<le> 2 ^ 53
      \<and> 0 < df \<and> int df \<le> n \<and> n \<le> 2 ^ 53"
    have "0 \<le> s" using a by (auto simp: rounded_arith_def)
    then show "sa_positive (rounded_arith rnd lg)
        (sa_plus (rounded_arith rnd lg) s (sa_times (rounded_arith rnd lg) (sa_tf (rounded_arith rnd lg) f len) (sa_idf (rounded_arith rnd lg) n df)))"
      using P [of s f len df n] a by (simp add: rounded_arith_def)
  qed
qed

lemma doc_score_positive:
  assumes A: "sound_arith A" and n: "ti_N ti \<le> 2 ^ 53" "len \<le> 2 ^ 53"
  shows "s = sa_zero A \<or> sa_positive A s \<Longrightarrow> \<forall>(t, m)\<in>set ms. int (length m) \<le> ti_N ti \<and> (\<forall>f. map_of m i = Some f \<longrightarrow> f \<le> len) \<Longrightarrow>
    sa_positive A s \<or> (\<exists>(t, m)\<in>set ms. \<exists>f. map_of m i = Some f \<and> f \<noteq> 0) \<Longrightarrow> sa_positive A (doc_score A ti i len ms s)"
proof (induction ms arbitrary: s)
  case (Cons x ms)
  obtain t m where x: "x = (t, m)" by force
  have m: "int (length m) \<le> ti_N ti" "map_of m i = Some f \<Longrightarrow> f \<le> len" for f using Cons.prems(2) x by auto
  have ms: "\<forall>(t, m)\<in>set ms. int (length m) \<le> ti_N ti \<and> (\<forall>f. map_of m i = Some f \<longrightarrow> f \<le> len)" using Cons.prems(2) by simp
  show ?case
  proof (cases "\<exists>f. map_of m i = Some f \<and> f \<noteq> 0")
    case True
    then obtain f where f: "map_of m i = Some f" "f \<noteq> 0" by blast
    then have "m \<noteq> []" by auto
    then have "sa_positive A (sa_plus A s (sa_times A (sa_tf A f len) (text_idf A ti (length m))))"
      using A f n m Cons.prems(1) unfolding sound_arith_def text_idf_def by simp
    then show ?thesis using Cons.IH ms f x by simp
  next
    case False
    then have "doc_score A ti i len (x # ms) s = doc_score A ti i len ms s" by (auto simp: x split: option.split)
    then show ?thesis using Cons.IH [OF Cons.prems(1) ms] Cons.prems(3) False x by auto
  qed
qed simp

lemma live_map_length:
  assumes ok: "ti_ok lower ti docs"
  shows "int (length (live_map ti t)) \<le> ti_N ti"
proof -
  have ids: "ids_ok lower ti docs" using ok by (simp add: ti_ok_def)
  note D = ids_okD [OF ids]
  define id_of where "id_of k = the (map_of (ti_keyToId ti) k)" for k
  have "i \<in> id_of ` dom docs" if "i \<in> set (map fst (live_map ti t))" for i
  proof -
    obtain f where "map_of (live_map ti t) i = Some f"
      using \<open>i \<in> _\<close> map_of_eq_None_iff [of "live_map ti t" i] by (cases "map_of (live_map ti t) i") auto
    then obtain k d where "map_of (ti_keyToId ti) k = Some i" "docs k = Some d" unfolding live_map_at [OF ok] by blast
    then show ?thesis by (intro image_eqI [of _ _ k]) (auto simp: id_of_def)
  qed
  then have "card (set (map fst (live_map ti t))) \<le> card (id_of ` dom docs)" using D(2) by (intro card_mono) auto
  also have "\<dots> \<le> card (dom docs)" by (rule card_image_le [OF D(2)])
  finally show ?thesis using distinct_card [OF live_map_distinct [of ti t]] D(3) by simp
qed

lemma score_hit_live:
  assumes ok: "ti_ok lower ti docs" and A: "sound_arith A" and x: "exact_counts lower (ti_fields ti) docs"
    and k: "map_of (ti_keyToId ti) k = Some i" "docs k = Some d"
    and t: "t \<in> set ts" "t \<in> set (doc_tokens lower (ti_fields ti) d)"
  shows "\<exists>s. score_hit A ti (map (\<lambda>t. (t, live_map ti t)) ts) i = Some (k, s)"
proof -
  let ?toks = "doc_tokens lower (ti_fields ti) d"
  have ids: "ids_ok lower ti docs" using ok by (simp add: ti_ok_def)
  note D = ids_okD [OF ids]
  have i: "i < length (ti_keys ti)" "ti_keys ti ! i = Some k" using D(4) k(1) by auto
  have len: "map_of (ti_docLen ti) i = Some (length ?toks)" by (rule D(6) [OF k])
  have "int (card (dom docs)) \<le> 2 ^ 53" using x unfolding exact_counts_def by (metis of_nat_le_iff of_nat_numeral of_nat_power)
  then have n: "ti_N ti \<le> 2 ^ 53" "length ?toks \<le> 2 ^ 53" using D(3) x k(2) by (simp_all add: exact_counts_def ranI)
  have only: "map_of (ti_keyToId ti) k' = Some i \<Longrightarrow> k' = k" for k' using D(4) [of k' i] i(2) by simp
  have "f \<le> length ?toks" if "map_of (live_map ti t') i = Some f" for t' f
    using that only k(2) unfolding live_map_at [OF ok] freq_of_def by (auto split: if_splits intro: count_le_length)
  then have b: "\<forall>(t, m)\<in>set (map (\<lambda>t. (t, live_map ti t)) ts). int (length m) \<le> ti_N ti \<and> (\<forall>f. map_of m i = Some f \<longrightarrow> f \<le> length ?toks)"
    using live_map_length [OF ok] by auto
  have "map_of (live_map ti t) i = Some (count_list ?toks t)"
    using k t(2) unfolding live_map_at [OF ok] freq_of_def by auto
  moreover have "count_list ?toks t \<noteq> 0" using t(2) by (simp add: count_list_0_iff)
  ultimately have "\<exists>(t, m)\<in>set (map (\<lambda>t. (t, live_map ti t)) ts). \<exists>f. map_of m i = Some f \<and> f \<noteq> 0" using t(1) by auto
  then have "sa_positive A (doc_score A ti i (length ?toks) (map (\<lambda>t. (t, live_map ti t)) ts) (sa_zero A))"
    by (intro doc_score_positive [OF A n _ b]) auto
  then show ?thesis by (simp add: score_hit_def Let_def len i)
qed

definition matching :: "(js_string \<Rightarrow> js_string) \<Rightarrow> js_string list option \<Rightarrow> (js_string \<rightharpoonup> json) \<Rightarrow> js_string \<Rightarrow> bool \<Rightarrow> js_string set" where
  "matching lower flds docs query any =
     (let q = set (tokenize lower query)
      in {k. \<exists>d. docs k = Some d \<and> q \<noteq> {} \<and>
             (if any then q \<inter> set (doc_tokens lower flds d) \<noteq> {} else q \<subseteq> set (doc_tokens lower flds d))})"

lemma candidates_live:
  assumes ok: "ti_ok lower ti docs" and q: "set ts = set (tokenize lower query)" "ts \<noteq> []"
  defines "lists' \<equiv> map (live_map ti) ts"
  shows "i \<in> set (if any then or_candidates lists' else and_candidates lists') \<longleftrightarrow>
    (\<exists>k. map_of (ti_keyToId ti) k = Some i \<and> k \<in> matching lower (ti_fields ti) docs query any)"
proof -
  have ids: "ids_ok lower ti docs" using ok by (simp add: ti_ok_def)
  have in_list: "map_of (live_map ti t) i \<noteq> None \<longleftrightarrow> (\<exists>k d. map_of (ti_keyToId ti) k = Some i \<and> docs k = Some d \<and> t \<in> set (doc_tokens lower (ti_fields ti) d))" for t
    using live_map_at [OF ok, of t i] by (auto simp: freq_of_def split: if_splits)
  have uniq: "map_of (ti_keyToId ti) k = Some i \<Longrightarrow> map_of (ti_keyToId ti) k' = Some i \<Longrightarrow> k = k'" for k k'
    using ids_okD(4) [OF ids, of k i] ids_okD(4) [OF ids, of k' i] by simp
  have ne: "set (tokenize lower query) \<noteq> {}" using q by (metis set_empty)
  show ?thesis
  proof (cases any)
    case True
    then have "i \<in> set (if any then or_candidates lists' else and_candidates lists') \<longleftrightarrow> (\<exists>t\<in>set ts. map_of (live_map ti t) i \<noteq> None)"
      by (auto simp: or_candidates_set lists'_def)
    then show ?thesis unfolding in_list using True ne q(1) by (auto simp: matching_def Let_def)
  next
    case False
    have "lists' \<noteq> []" using q(2) by (simp add: lists'_def)
    then have l: "i \<in> set (if any then or_candidates lists' else and_candidates lists') \<longleftrightarrow> (\<forall>t\<in>set ts. map_of (live_map ti t) i \<noteq> None)"
      using False and_candidates_set(1) [of lists'] by (auto simp: lists'_def)
    show ?thesis
    proof
      assume "i \<in> set (if any then or_candidates lists' else and_candidates lists')"
      then have a: "\<forall>t\<in>set ts. \<exists>k d. map_of (ti_keyToId ti) k = Some i \<and> docs k = Some d \<and> t \<in> set (doc_tokens lower (ti_fields ti) d)"
        unfolding l in_list .
      obtain t where "t \<in> set ts" using q(2) by (cases ts) auto
      then obtain k d where k: "map_of (ti_keyToId ti) k = Some i" "docs k = Some d" using a by blast
      have "set ts \<subseteq> set (doc_tokens lower (ti_fields ti) d)" using a uniq k by fastforce
      then show "\<exists>k. map_of (ti_keyToId ti) k = Some i \<and> k \<in> matching lower (ti_fields ti) docs query any"
        using k ne q(1) False by (auto simp: matching_def Let_def)
    next
      assume "\<exists>k. map_of (ti_keyToId ti) k = Some i \<and> k \<in> matching lower (ti_fields ti) docs query any"
      then show "i \<in> set (if any then or_candidates lists' else and_candidates lists')"
        unfolding l in_list using False q(1) by (auto simp: matching_def Let_def)
    qed
  qed
qed

lemma search_exact:
  assumes ok: "ti_ok lower ti docs" and A: "sound_arith A" and x: "exact_counts lower (ti_fields ti) docs"
    and n: "card (matching lower (ti_fields ti) docs query any) \<le> n"
  shows "\<exists>hits c. text_search lower A query any (Some n) ti = (Inr hits, ti\<lparr>ti_cache := c\<rparr>) \<and> ti_ok lower (ti\<lparr>ti_cache := c\<rparr>) docs
    \<and> distinct (map fst hits) \<and> set (map fst hits) = matching lower (ti_fields ti) docs query any"
proof (cases "tokenize lower query = []")
  case True
  then show ?thesis using ok
    by - (rule exI [of _ "[]"], rule exI [of _ "ti_cache ti"], simp add: text_search_def matching_def Let_def)
next
  case False
  define ts where "ts = dedup (tokenize lower query)"
  have ts: "set ts = set (tokenize lower query)" "ts \<noteq> []" using False by (simp_all add: ts_def) (metis set_dedup set_empty)
  obtain c where c: "term_maps ts ti = (Inr (map (\<lambda>t. (t, live_map ti t)) ts), ti\<lparr>ti_cache := c\<rparr>)" "ti_ok lower (ti\<lparr>ti_cache := c\<rparr>) docs"
    using term_maps_ok [OF ok] by blast
  let ?ms = "map (\<lambda>t. (t, live_map ti t)) ts" and ?ti = "ti\<lparr>ti_cache := c\<rparr>"
  define cands where "cands = (if any then or_candidates (map (live_map ti) ts) else and_candidates (map (live_map ti) ts))"
  define scored where "scored = List.map_filter (score_hit A ?ti ?ms) cands"
  have snd: "map snd ?ms = map (live_map ti) ts" by (simp add: comp_def)
  have run: "text_search lower A query any (Some n) ti = (Inr (take n (sort_by (by_score A) scored)), ?ti)"
    using ts(2) c(1) by (simp add: text_search_def Let_def ts_def [symmetric] cands_def scored_def comp_def)
  let ?M = "matching lower (ti_fields ti) docs query any"
  have live: "i \<in> set cands \<longleftrightarrow> (\<exists>k. map_of (ti_keyToId ti) k = Some i \<and> k \<in> ?M)" for i
    unfolding cands_def by (rule candidates_live [OF ok ts])
  have hit: "\<exists>s. score_hit A ?ti ?ms i = Some (k, s)" if k: "map_of (ti_keyToId ti) k = Some i" "k \<in> ?M" for i k
  proof -
    obtain d where d: "docs k = Some d" "set (tokenize lower query) \<noteq> {}"
      "if any then set (tokenize lower query) \<inter> set (doc_tokens lower (ti_fields ti) d) \<noteq> {}
       else set (tokenize lower query) \<subseteq> set (doc_tokens lower (ti_fields ti) d)"
      using k(2) unfolding matching_def Let_def by blast
    have "\<exists>t\<in>set ts. t \<in> set (doc_tokens lower (ti_fields ti) d)"
    proof (cases any)
      case True
      then show ?thesis using d(3) ts(1) by auto
    next
      case False
      then have "set ts \<subseteq> set (doc_tokens lower (ti_fields ti) d)" using d(3) ts(1) by simp
      then show ?thesis using ts(2) by (cases ts) auto
    qed
    then obtain t where "t \<in> set ts" "t \<in> set (doc_tokens lower (ti_fields ti) d)" by blast
    then have "\<exists>s. score_hit A ?ti (map (\<lambda>t. (t, live_map ?ti t)) ts) i = Some (k, s)"
      using score_hit_live [OF c(2) A, of k i d t ts] x k(1) d(1) by simp
    then show ?thesis by (simp add: live_map_cache)
  qed
  have ids: "ids_ok lower ti docs" using ok by (simp add: ti_ok_def)
  have set_scored: "set (map fst scored) = ?M"
  proof (intro set_eqI iffI)
    fix k assume "k \<in> set (map fst scored)"
    then obtain i s where i: "i \<in> set cands" "score_hit A ?ti ?ms i = Some (k, s)" by (auto simp: scored_def map_filter_mem)
    then obtain k' where "map_of (ti_keyToId ti) k' = Some i" "k' \<in> ?M" using live by blast
    with hit [of k' i] i(2) show "k \<in> ?M" by auto
  next
    fix k assume k: "k \<in> ?M"
    then have "docs k \<noteq> None" by (auto simp: matching_def Let_def)
    then obtain i where i: "map_of (ti_keyToId ti) k = Some i" using ids_okD(1) [OF ids, of k] by auto
    then have "i \<in> set cands" using live k by blast
    moreover obtain s where "score_hit A ?ti ?ms i = Some (k, s)" using hit [OF i k] by blast
    ultimately show "k \<in> set (map fst scored)" unfolding scored_def by (force simp: map_filter_mem)
  qed
  have "distinct cands"
    using ts(2) and_candidates_set(2) [of "map (live_map ti) ts"] by (auto simp: cands_def or_candidates_set live_map_distinct)
  have dist: "distinct (map fst (List.map_filter (score_hit A ?ti ?ms) is))" if "distinct is" "set is \<subseteq> set cands" for "is"
    using that
  proof (induction "is")
    case (Cons i "is")
    then obtain k where k: "map_of (ti_keyToId ti) k = Some i" "k \<in> ?M" using live by auto
    obtain s where s: "score_hit A ?ti ?ms i = Some (k, s)" using hit [OF k] by blast
    have "k \<noteq> k'" if "j \<in> set is" "score_hit A ?ti ?ms j = Some (k', s')" for j k' s'
    proof -
      obtain k'' where k'': "map_of (ti_keyToId ti) k'' = Some j" "k'' \<in> ?M" using live [of j] \<open>j \<in> set is\<close> Cons.prems(2) by auto
      then have "k'' = k'" using hit [OF k''] that(2) by auto
      moreover have "j \<noteq> i" using Cons.prems(1) that(1) by auto
      ultimately show ?thesis using k(1) k''(1) by auto
    qed
    then have "k \<notin> fst ` set (List.map_filter (score_hit A ?ti ?ms) is)" by (force simp: map_filter_mem)
    with Cons s show ?case by (simp add: List.map_filter_simps)
  qed (simp add: List.map_filter_simps)
  have ds: "distinct (map fst scored)" unfolding scored_def by (rule dist [OF \<open>distinct cands\<close>]) simp
  have ms: "mset (sort_by (by_score A) scored) = mset scored" by (rule sort_by_mset)
  have "length scored = card ?M" using set_scored distinct_card [OF ds] by simp
  then have len: "length (sort_by (by_score A) scored) \<le> n" using n ms by (metis size_mset)
  have "mset (map fst (sort_by (by_score A) scored)) = mset (map fst scored)" using ms by (metis mset_map)
  then have "distinct (map fst (sort_by (by_score A) scored))" "set (map fst (sort_by (by_score A) scored)) = ?M"
    using ds set_scored mset_eq_imp_distinct_iff mset_eq_setD by blast+
  then show ?thesis using run c(2) len
    by - (rule exI [of _ "sort_by (by_score A) scored"], rule exI [of _ c], simp)
qed

subsection \<open>Runs\<close>

datatype 's text_event =
    TextAdd js_string json
  | TextRemove js_string
  | TextBuild rebuild_outcome "(js_string \<times> json) list"
  | TextSearch "'s score_arith" js_string bool "nat option"

text \<open>What happens to the index, and to the table it stands for; a build that fails changes neither.\<close>

fun text_step :: "(js_string \<Rightarrow> js_string) \<Rightarrow> 's text_event \<Rightarrow> text_index \<times> (js_string \<rightharpoonup> json) \<Rightarrow> text_index \<times> (js_string \<rightharpoonup> json)" where
  "text_step lower (TextAdd k d) (ti, docs) = (text_add lower k d ti, docs(k \<mapsto> d))"
| "text_step lower (TextRemove k) (ti, docs) = (text_remove k ti, docs(k := None))"
| "text_step lower (TextBuild out es) (ti, docs) =
     (case text_build lower out es ti of (Inr u, ti') \<Rightarrow> (ti', map_of es) | (Inl e, ti') \<Rightarrow> (ti', docs))"
| "text_step lower (TextSearch A query any limit) (ti, docs) = (snd (text_search lower A query any limit ti), docs)"

fun good_event :: "(js_string \<Rightarrow> js_string) \<Rightarrow> js_string list option \<Rightarrow> 's text_event \<Rightarrow> bool" where
  "good_event lower flds (TextBuild out es) \<longleftrightarrow>
     distinct (map fst es) \<and> within_bounds lower flds es \<and> ro_reattach out \<and> ro_opens out"
| "good_event lower flds e = True"

lemma search_keeps:
  assumes "ti_ok lower ti docs"
  shows "\<exists>c. snd (text_search lower A query any limit ti) = ti\<lparr>ti_cache := c\<rparr> \<and> ti_ok lower (ti\<lparr>ti_cache := c\<rparr>) docs"
proof (cases "dedup (tokenize lower query) = []")
  case True
  then show ?thesis using assms by (intro exI [of _ "ti_cache ti"]) (simp add: text_search_def Let_def)
next
  case False
  obtain c where "term_maps (dedup (tokenize lower query)) ti = (Inr (map (\<lambda>t. (t, live_map ti t)) (dedup (tokenize lower query))), ti\<lparr>ti_cache := c\<rparr>)"
    "ti_ok lower (ti\<lparr>ti_cache := c\<rparr>) docs" using term_maps_ok [OF assms] by blast
  with False show ?thesis by (intro exI [of _ c]) (simp add: text_search_def Let_def)
qed

lemma text_step_ok:
  assumes "ti_ok lower ti docs" "good_event lower (ti_fields ti) e" "text_step lower e (ti, docs) = (ti', docs')"
  shows "ti_ok lower ti' docs' \<and> ti_fields ti' = ti_fields ti"
proof (cases e)
  case (TextAdd k d)
  have "ti_fields (text_add lower k d ti) = ti_fields ti"
    by (cases "map_of (ti_keyToId ti) k") (simp_all add: text_add_def insert_fields remove_fields)
  with TextAdd assms add_ok [OF assms(1)] show ?thesis by auto
next
  case (TextRemove k)
  have "ti_fields (text_remove k ti) = ti_fields ti"
    by (cases "map_of (ti_keyToId ti) k") (simp_all add: remove_none remove_fields)
  with TextRemove assms remove_ok [OF assms(1)] show ?thesis by auto
next
  case (TextBuild out es)
  obtain r t' where r: "text_build lower out es ti = (r, t')" by force
  have "ti' = t'" "docs' = (case r of Inr u \<Rightarrow> map_of es | Inl e \<Rightarrow> docs)" using assms(3) r TextBuild by (auto split: sum.splits)
  with build_ok [OF assms(1) _ _ _ _ r] assms(2) TextBuild show ?thesis by simp
next
  case (TextSearch A query any limit)
  with search_keeps [OF assms(1), of A query any limit] assms(3) show ?thesis by auto
qed

lemma text_run_ok:
  "ti_ok lower ti docs \<Longrightarrow> \<forall>e\<in>set evs. good_event lower (ti_fields ti) e \<Longrightarrow> fold (text_step lower) evs (ti, docs) = (ti', docs')
   \<Longrightarrow> ti_ok lower ti' docs' \<and> ti_fields ti' = ti_fields ti"
proof (induction evs arbitrary: ti docs)
  case (Cons e evs)
  obtain ti1 docs1 where 1: "text_step lower e (ti, docs) = (ti1, docs1)" by force
  have ok: "ti_ok lower ti1 docs1 \<and> ti_fields ti1 = ti_fields ti" using text_step_ok [OF Cons.prems(1) _ 1] Cons.prems(2) by simp
  then show ?case using Cons.IH [of ti1 docs1] Cons.prems(2,3) 1 by auto
qed simp

text \<open>C21: after any sequence of writes, searches and rebuilds, in memory or on disk, a search returns each of the
  documents that contain all (or, with OR, any) of the terms of the query exactly once, and no other document.
  A rebuild gets distinct keys and counts within the 32 bits of the postings; it may fail and then leaves the index as
  it was, but the file, old or new, can be opened again (else the code serves only the writes since the last
  build). The limit of the search is not smaller than the number of matches, the number of documents and of terms
  of a document is at most \<open>2 ^ 53\<close>, and adding the contribution of a term gives a positive score.\<close>

theorem text_search_exact:
  assumes "\<forall>e\<in>set evs. good_event lower flds e" "sound_arith A"
    and "fold (text_step lower) evs (new_text_index flds disk cacheTerms existing, Map.empty) = (ti, docs)"
    and "exact_counts lower flds docs" "card (matching lower flds docs query any) \<le> n"
  shows "\<exists>hits ti'. text_search lower A query any (Some n) ti = (Inr hits, ti')
    \<and> distinct (map fst hits) \<and> set (map fst hits) = matching lower flds docs query any"
proof -
  have f: "ti_fields (new_text_index flds disk cacheTerms existing) = flds" by (simp add: new_text_index_def)
  have "ti_ok lower ti docs \<and> ti_fields ti = flds"
    using text_run_ok [OF new_ok _ assms(3)] assms(1) f by simp
  then show ?thesis using search_exact [of lower ti docs A query any n] assms(2,4,5) by blast
qed

text \<open>Two documents, one from a rebuild and one written after it; one of them has the word asked for. The arithmetic
  is that of the real numbers with the natural logarithm.\<close>

definition real_arith :: "real score_arith" where
  "real_arith = rounded_arith (\<lambda>x. x) ln"

lemma real_sound: "sound_arith real_arith"
  unfolding real_arith_def
proof (rule rounded_sound)
  fix x :: real assume "2 \<le> x"
  then have "ln 2 \<le> ln x" by simp
  moreover have "1 / 2 \<le> ln (2 :: real)" using ln_ge_iff [of 2 "1 / 2 :: real"] exp_half_le2 by simp
  ultimately show "1 / 2 \<le> ln x" by linarith
qed auto

definition sample_events :: "real text_event list" where
  "sample_events =
     [TextAdd (js ''x'') (JStr (js ''old'')), TextBuild \<lparr>ro_written = True, ro_reattach = True, ro_opens = True\<rparr> [(js ''a'', JStr (js ''go on''))],
      TextAdd (js ''b'') (JArr [JStr (js ''go'')]), TextRemove (js ''x'')]"

lemma sample_tokens:
  "doc_tokens (\<lambda>s. s) None (JStr (js ''go on'')) = [js ''go'', js ''on'']" "doc_tokens (\<lambda>s. s) None (JArr [JStr (js ''go'')]) = [js ''go'']"
  "tokenize (\<lambda>s. s) (js ''go'') = [js ''go'']" "tokenize (\<lambda>s. s) (js ''on'') = [js ''on'']"
  by (simp_all add: doc_tokens_def text_extract_def tokenize_def js_def of_char_def is_latin_def is_cjk_def MAX_TERM_CHARS_def word_le_nat_alt)

lemma sample_table:
  "snd (fold (text_step (\<lambda>s. s)) sample_events (new_text_index None False None None, Map.empty)) =
     [js ''a'' \<mapsto> JStr (js ''go on''), js ''b'' \<mapsto> JArr [JStr (js ''go'')]]"
  by (simp add: sample_events_def text_build_def new_text_index_def Let_def text_add_def text_insert_def swap_in_def fun_eq_iff js_def of_char_def)

lemma sample_matching:
  "matching (\<lambda>s. s) None [js ''a'' \<mapsto> JStr (js ''go on''), js ''b'' \<mapsto> JArr [JStr (js ''go'')]] (js ''on'') False = {js ''a''}"
  by (auto simp: matching_def sample_tokens) (simp_all add: js_def of_char_def)

theorem text_search_exact_witness:
  "\<exists>hits ti'. text_search (\<lambda>s. s) real_arith (js ''on'') False (Some 1)
      (fst (fold (text_step (\<lambda>s. s)) sample_events (new_text_index None False None None, Map.empty))) = (Inr hits, ti')
    \<and> distinct (map fst hits) \<and> set (map fst hits) = {js ''a''}"
proof -
  let ?docs = "[js ''a'' \<mapsto> JStr (js ''go on''), js ''b'' \<mapsto> JArr [JStr (js ''go'')]]"
  have "\<exists>hits ti'. text_search (\<lambda>s. s) real_arith (js ''on'') False (Some 1)
      (fst (fold (text_step (\<lambda>s. s)) sample_events (new_text_index None False None None, Map.empty))) = (Inr hits, ti')
    \<and> distinct (map fst hits) \<and> set (map fst hits) = matching (\<lambda>s. s) None ?docs (js ''on'') False"
  proof (rule text_search_exact [where evs = sample_events and lower = "\<lambda>s. s" and flds = None and disk = False and cacheTerms = None and existing = None])
    show "\<forall>e\<in>set sample_events. good_event (\<lambda>s. s) None e"
      by (simp add: sample_events_def within_bounds_def sample_tokens)
    show "sound_arith real_arith" by (rule real_sound)
    have "card (dom ?docs) \<le> 2" by (simp add: card_insert_if)
    then show "exact_counts (\<lambda>s. s) None ?docs" by (auto simp: exact_counts_def ran_def sample_tokens split: if_splits)
    show "fold (text_step (\<lambda>s. s)) sample_events (new_text_index None False None None, Map.empty) =
        (fst (fold (text_step (\<lambda>s. s)) sample_events (new_text_index None False None None, Map.empty)), ?docs)"
      using sample_table by (metis prod.collapse)
    show "card (matching (\<lambda>s. s) None ?docs (js ''on'') False) \<le> 1" by (simp add: sample_matching)
  qed
  then show ?thesis by (simp only: sample_matching)
qed

theorem terms_fit_records_witness:
  "js ''go'' \<noteq> [] \<and> length (utf8 (js ''go'')) \<le> 0xffff \<and> encodeRecord (js ''go'') 1 [] \<noteq> Inl TermTooLong"
proof -
  have t: "js ''go'' \<in> set (tokenize (\<lambda>s. s) (js ''go''))" by (simp add: sample_tokens)
  from terms_fit_records [OF t] show ?thesis by blast
qed

end
