(* ===== verification/ToolAccess.thy ===== *)
theory ToolAccess
  imports Json "HOL-Library.Sublist"
begin

section \<open>Resource accesses of tool calls (\<^verbatim>\<open>toolContract.ts\<close>)\<close>

text \<open>
  What a tool call touches, and when two calls conflict. \<open>lower\<close> is the runtime's \<^verbatim>\<open>toLowerCase\<close>.
  \<open>touches\<close> is the set of normalized paths an access stands for: the conflict test is exact for it.
\<close>

datatype file_operation = OpRead | OpWrite | OpReadWrite | OpSearch

datatype resource_access = AccessAll | AccessFile file_operation js_string "bool option"

type_synonym tool_accesses = "resource_access list"

definition accesses_none :: tool_accesses where "accesses_none = []"
definition accesses_all :: tool_accesses where "accesses_all = [AccessAll]"

definition accesses_file :: "file_operation \<Rightarrow> js_string \<Rightarrow> bool option \<Rightarrow> tool_accesses" where
  "accesses_file operation path recursive = [AccessFile operation path recursive]"

definition readFile :: "js_string \<Rightarrow> tool_accesses" where "readFile path = accesses_file OpRead path None"
definition readTree :: "js_string \<Rightarrow> tool_accesses" where "readTree path = accesses_file OpRead path (Some True)"
definition writeFile :: "js_string \<Rightarrow> tool_accesses" where "writeFile path = accesses_file OpWrite path None"
definition writeTree :: "js_string \<Rightarrow> tool_accesses" where "writeTree path = accesses_file OpWrite path (Some True)"
definition readWriteFile :: "js_string \<Rightarrow> tool_accesses" where "readWriteFile path = accesses_file OpReadWrite path None"
definition readWriteTree :: "js_string \<Rightarrow> tool_accesses" where "readWriteTree path = accesses_file OpReadWrite path (Some True)"
definition searchTree :: "js_string \<Rightarrow> tool_accesses" where "searchTree path = accesses_file OpSearch path (Some True)"

text \<open>Code units 47 and 92 are the slash and the backslash.\<close>

fun collapse_slashes :: "js_string \<Rightarrow> js_string" where
  "collapse_slashes [] = []"
| "collapse_slashes [u] = [u]"
| "collapse_slashes (u # v # us) = (if u = 47 \<and> v = 47 then collapse_slashes (v # us) else u # collapse_slashes (v # us))"

definition ends_with_slash :: "js_string \<Rightarrow> bool" where
  "ends_with_slash p \<longleftrightarrow> p \<noteq> [] \<and> List.last p = 47"

definition normalizePath :: "(js_string \<Rightarrow> js_string) \<Rightarrow> js_string \<Rightarrow> js_string" where
  "normalizePath lower path =
     (let folded = lower (collapse_slashes (map (\<lambda>u. if u = 92 then 47 else u) path))
      in if length folded > 1 \<and> ends_with_slash folded then butlast folded else folded)"

fun fileOperationWrites :: "file_operation \<Rightarrow> bool" where
  "fileOperationWrites OpRead = False"
| "fileOperationWrites OpSearch = False"
| "fileOperationWrites OpWrite = True"
| "fileOperationWrites OpReadWrite = True"

definition fileOperationsConflict :: "file_operation \<Rightarrow> file_operation \<Rightarrow> bool" where
  "fileOperationsConflict left right \<longleftrightarrow> fileOperationWrites left \<or> fileOperationWrites right"

definition dir_prefix :: "js_string \<Rightarrow> js_string" where
  "dir_prefix p = (if ends_with_slash p then p else p @ [47])"

definition fileAccessesOverlap :: "(js_string \<Rightarrow> js_string) \<Rightarrow> js_string \<Rightarrow> bool option \<Rightarrow> js_string \<Rightarrow> bool option \<Rightarrow> bool" where
  "fileAccessesOverlap lower left leftRecursive right rightRecursive =
     (let leftPath = normalizePath lower left; rightPath = normalizePath lower right
      in leftPath = rightPath
         \<or> (leftRecursive = Some True \<and> prefix (dir_prefix leftPath) rightPath)
         \<or> (rightRecursive = Some True \<and> prefix (dir_prefix rightPath) leftPath))"

fun resourceAccessesConflict :: "(js_string \<Rightarrow> js_string) \<Rightarrow> resource_access \<Rightarrow> resource_access \<Rightarrow> bool" where
  "resourceAccessesConflict lower AccessAll r = True"
| "resourceAccessesConflict lower l AccessAll = True"
| "resourceAccessesConflict lower (AccessFile op1 p1 r1) (AccessFile op2 p2 r2) =
     (fileOperationsConflict op1 op2 \<and> fileAccessesOverlap lower p1 r1 p2 r2)"

definition accesses_conflict :: "(js_string \<Rightarrow> js_string) \<Rightarrow> tool_accesses \<Rightarrow> tool_accesses \<Rightarrow> bool" where
  "accesses_conflict lower left right = list_ex (\<lambda>l. list_ex (\<lambda>r. resourceAccessesConflict lower l r) right) left"

lemma resource_conflict_sym: "resourceAccessesConflict lower l r = resourceAccessesConflict lower r l"
  by (cases l; cases r) (auto simp: fileOperationsConflict_def fileAccessesOverlap_def Let_def)

lemma accesses_conflict_sym: "accesses_conflict lower left right = accesses_conflict lower right left"
  unfolding accesses_conflict_def list_ex_iff using resource_conflict_sym by metis

subsection \<open>What the test decides\<close>

definition touches :: "(js_string \<Rightarrow> js_string) \<Rightarrow> resource_access \<Rightarrow> js_string set" where
  "touches lower a =
     (case a of
        AccessAll \<Rightarrow> UNIV
      | AccessFile op' p rec \<Rightarrow>
          insert (normalizePath lower p) (if rec = Some True then {q. prefix (dir_prefix (normalizePath lower p)) q} else {}))"

definition writes :: "resource_access \<Rightarrow> bool" where
  "writes a = (case a of AccessAll \<Rightarrow> True | AccessFile op' p rec \<Rightarrow> fileOperationWrites op')"

lemma dir_prefix_cases: "dir_prefix p = p \<and> ends_with_slash p \<or> dir_prefix p = p @ [47]"
  by (simp add: dir_prefix_def)

lemma nested_trees:
  assumes "prefix (dir_prefix a) q" "prefix (dir_prefix b) q" "length (dir_prefix a) \<le> length (dir_prefix b)"
  shows "a = b \<or> prefix (dir_prefix a) b \<or> prefix (dir_prefix b) a"
proof -
  have p: "prefix (dir_prefix a) (dir_prefix b)" using prefix_length_prefix assms by blast
  show ?thesis
  proof (cases "ends_with_slash b")
    case True
    with p show ?thesis by (simp add: dir_prefix_def)
  next
    case False
    then have b: "dir_prefix b = b @ [47]" by (simp add: dir_prefix_def)
    with p have "prefix (dir_prefix a) b \<or> dir_prefix a = b @ [47]" by auto
    then show ?thesis
    proof
      assume a: "dir_prefix a = b @ [47]"
      from dir_prefix_cases [of a] show ?thesis using a b by auto
    qed simp
  qed
qed

lemma overlap_touches:
  "fileAccessesOverlap lower p r q s \<longleftrightarrow> touches lower (AccessFile o1 p r) \<inter> touches lower (AccessFile o2 q s) \<noteq> {}"
  (is "?l \<longleftrightarrow> ?r")
proof
  assume ?l
  then consider "normalizePath lower p = normalizePath lower q" | "normalizePath lower q \<in> touches lower (AccessFile o1 p r)"
    | "normalizePath lower p \<in> touches lower (AccessFile o2 q s)"
    by (auto simp: fileAccessesOverlap_def touches_def Let_def)
  then show ?r by cases (auto simp: touches_def)
next
  assume ?r
  then obtain x where x: "x \<in> touches lower (AccessFile o1 p r)" "x \<in> touches lower (AccessFile o2 q s)" by blast
  let ?p = "normalizePath lower p" and ?q = "normalizePath lower q"
  from x consider "x = ?p" "x = ?q" | "x = ?p" "s = Some True" "prefix (dir_prefix ?q) ?p" | "x = ?q" "r = Some True" "prefix (dir_prefix ?p) ?q"
    | "r = Some True" "s = Some True" "prefix (dir_prefix ?p) x" "prefix (dir_prefix ?q) x"
    by (auto simp: touches_def split: if_splits)
  then show ?l
  proof cases
    case 4
    then have "?p = ?q \<or> prefix (dir_prefix ?p) ?q \<or> prefix (dir_prefix ?q) ?p"
      using nested_trees [of ?p x ?q] nested_trees [of ?q x ?p] by (metis linorder_linear)
    with 4 show ?thesis by (auto simp: fileAccessesOverlap_def Let_def)
  qed (auto simp: fileAccessesOverlap_def Let_def)
qed

text \<open>Two tool calls conflict exactly when one of them accesses everything, or one writes and both touch a
  common (normalized) path.\<close>

theorem conflict_exact:
  "accesses_conflict lower left right \<longleftrightarrow>
     (\<exists>l\<in>set left. \<exists>r\<in>set right. l = AccessAll \<or> r = AccessAll \<or> ((writes l \<or> writes r) \<and> touches lower l \<inter> touches lower r \<noteq> {}))"
proof -
  have "resourceAccessesConflict lower l r \<longleftrightarrow> l = AccessAll \<or> r = AccessAll \<or> ((writes l \<or> writes r) \<and> touches lower l \<inter> touches lower r \<noteq> {})" for l r
  proof (cases l; cases r)
    fix o1 p r1 o2 q r2 assume e: "l = AccessFile o1 p r1" "r = AccessFile o2 q r2"
    then show ?thesis using overlap_touches [of lower p r1 q r2 o1 o2]
      by (simp add: fileOperationsConflict_def writes_def)
  qed (simp_all add: resource_conflict_sym [of lower _ AccessAll])
  then show ?thesis by (simp add: accesses_conflict_def list_ex_iff)
qed

end
