(* ===== verification/Scheduler.thy ===== *)
theory Scheduler
  imports ToolAccess "HOL-Library.Multiset"
begin

section \<open>The tool scheduler (\<^verbatim>\<open>toolScheduler.ts\<close>)\<close>

text \<open>
  Tool calls of one model step start when no active call and no call queued before them conflicts with
  their accesses. A task is a ticket with its accesses; \<open>tk_throws\<close> says that its \<^verbatim>\<open>start\<close> throws instead of
  returning a promise. \<open>conf\<close> is the conflict test. The log records calls of \<^verbatim>\<open>start\<close> and settled results.
  A task that throws is finished inside the loop that starts the queue, which then runs again from the old
  queue: the functions carry fuel for this recursion, and \<open>None\<close> is a call that does not return.
\<close>

record tool_task =
  tk_id :: nat
  tk_accesses :: tool_accesses
  tk_throws :: bool

datatype sched_effect = Started nat | Finished nat

record scheduler =
  sc_active :: "tool_task list"
  sc_queued :: "tool_task list"
  sc_log :: "sched_effect list"

definition new_scheduler :: scheduler where
  "new_scheduler = \<lparr>sc_active = [], sc_queued = [], sc_log = []\<rparr>"

definition conflictsWithAny :: "(tool_accesses \<Rightarrow> tool_accesses \<Rightarrow> bool) \<Rightarrow> tool_task \<Rightarrow> tool_task list \<Rightarrow> bool" where
  "conflictsWithAny conf t candidates = list_ex (\<lambda>c. conf (tk_accesses t) (tk_accesses c)) candidates"

definition isBlocked :: "(tool_accesses \<Rightarrow> tool_accesses \<Rightarrow> bool) \<Rightarrow> tool_task \<Rightarrow> tool_task list \<Rightarrow> scheduler \<Rightarrow> bool" where
  "isBlocked conf t queuedBefore s \<longleftrightarrow> conflictsWithAny conf t (sc_active s) \<or> conflictsWithAny conf t queuedBefore"

definition note_effect :: "sched_effect \<Rightarrow> scheduler \<Rightarrow> scheduler" where
  "note_effect e s = s\<lparr>sc_log := sc_log s @ [e]\<rparr>"

function startQueuedTasks :: "(tool_accesses \<Rightarrow> tool_accesses \<Rightarrow> bool) \<Rightarrow> nat \<Rightarrow> scheduler \<Rightarrow> scheduler option"
  and start_loop :: "(tool_accesses \<Rightarrow> tool_accesses \<Rightarrow> bool) \<Rightarrow> nat \<Rightarrow> tool_task list \<Rightarrow> tool_task list \<Rightarrow> scheduler \<Rightarrow> scheduler option"
  and start_task :: "(tool_accesses \<Rightarrow> tool_accesses \<Rightarrow> bool) \<Rightarrow> nat \<Rightarrow> tool_task \<Rightarrow> scheduler \<Rightarrow> scheduler option"
  and finish_task :: "(tool_accesses \<Rightarrow> tool_accesses \<Rightarrow> bool) \<Rightarrow> nat \<Rightarrow> tool_task \<Rightarrow> scheduler \<Rightarrow> scheduler option" where
  "startQueuedTasks conf 0 s = None"
| "startQueuedTasks conf (Suc n) s = start_loop conf n (sc_queued s) [] s"
| "start_loop conf n [] stillQueued s = Some (s\<lparr>sc_queued := stillQueued\<rparr>)"
| "start_loop conf n (t # ts) stillQueued s =
     (if isBlocked conf t stillQueued s then start_loop conf n ts (stillQueued @ [t]) s
      else (case start_task conf n t s of None \<Rightarrow> None | Some s' \<Rightarrow> start_loop conf n ts stillQueued s'))"
| "start_task conf n t s =
     (let s' = note_effect (Started (tk_id t)) (s\<lparr>sc_active := sc_active s @ [t]\<rparr>)
      in if tk_throws t then finish_task conf n t s' else Some s')"
| "finish_task conf n t s =
     startQueuedTasks conf n (note_effect (Finished (tk_id t)) (s\<lparr>sc_active := remove1 t (sc_active s)\<rparr>))"
  by pat_completeness auto
termination
  by (relation "measures [\<lambda>x. case x of Inl (Inl (c, n, s)) \<Rightarrow> n | Inl (Inr (c, n, ts, q, s)) \<Rightarrow> n | Inr (Inl (c, n, t, s)) \<Rightarrow> n | Inr (Inr (c, n, t, s)) \<Rightarrow> n,
      \<lambda>x. case x of Inl (Inl (c, n, s)) \<Rightarrow> 0 | Inl (Inr (c, n, ts, q, s)) \<Rightarrow> 3 + length ts | Inr (Inl (c, n, t, s)) \<Rightarrow> 2 | Inr (Inr (c, n, t, s)) \<Rightarrow> 1]") auto

definition sched_add :: "(tool_accesses \<Rightarrow> tool_accesses \<Rightarrow> bool) \<Rightarrow> nat \<Rightarrow> tool_task \<Rightarrow> scheduler \<Rightarrow> scheduler option" where
  "sched_add conf n t s =
     (if isBlocked conf t (sc_queued s) s then Some (s\<lparr>sc_queued := sc_queued s @ [t]\<rparr>) else start_task conf n t s)"

subsection \<open>Runs\<close>

text \<open>A call of \<^verbatim>\<open>add\<close>, or the promise of an active task settling. Tickets are fresh, and \<^verbatim>\<open>start\<close> is an
  \<^verbatim>\<open>async\<close> function, which does not throw, as in the executor.\<close>

inductive sched_step :: "(tool_accesses \<Rightarrow> tool_accesses \<Rightarrow> bool) \<Rightarrow> scheduler \<Rightarrow> scheduler \<Rightarrow> bool" for conf where
  Add: "\<not> tk_throws t \<Longrightarrow> Started (tk_id t) \<notin> set (sc_log s) \<Longrightarrow> tk_id t \<notin> tk_id ` set (sc_queued s) \<Longrightarrow> sched_add conf n t s = Some s'
    \<Longrightarrow> sched_step conf s s'"
| Settle: "t \<in> set (sc_active s) \<Longrightarrow> finish_task conf n t s = Some s' \<Longrightarrow> sched_step conf s s'"

inductive sched_reach :: "(tool_accesses \<Rightarrow> tool_accesses \<Rightarrow> bool) \<Rightarrow> scheduler \<Rightarrow> bool" for conf where
  reach_new: "sched_reach conf new_scheduler"
| reach_step: "sched_reach conf s \<Longrightarrow> sched_step conf s s' \<Longrightarrow> sched_reach conf s'"

inductive_cases sched_stepE: "sched_step conf s s'"

text \<open>The promises of some running tasks settling one after the other; \<open>None\<close> when a task of the list is not
  running or a call of \<^verbatim>\<open>finish\<close> does not return. The starts and results in a log, in order.\<close>

fun settle_all :: "(tool_accesses \<Rightarrow> tool_accesses \<Rightarrow> bool) \<Rightarrow> tool_task list \<Rightarrow> scheduler \<Rightarrow> scheduler option" where
  "settle_all conf [] s = Some s"
| "settle_all conf (t # ts) s =
     (if t \<in> set (sc_active s) then case finish_task conf 1 t s of None \<Rightarrow> None | Some s' \<Rightarrow> settle_all conf ts s' else None)"

definition started_in :: "sched_effect list \<Rightarrow> nat list" where
  "started_in es = concat (map (\<lambda>e. case e of Started i \<Rightarrow> [i] | Finished i \<Rightarrow> []) es)"

definition finished_in :: "sched_effect list \<Rightarrow> nat list" where
  "finished_in es = concat (map (\<lambda>e. case e of Started i \<Rightarrow> [] | Finished i \<Rightarrow> [i]) es)"

lemma started_in_simps [simp]:
  "started_in [] = []" "started_in (Started i # es) = i # started_in es" "started_in (Finished i # es) = started_in es"
  "started_in (es @ fs) = started_in es @ started_in fs" "started_in (map (\<lambda>t. Started (tk_id t)) ts) = map tk_id ts"
  by (simp_all add: started_in_def o_def concat_map_singleton)

lemma finished_in_simps [simp]:
  "finished_in [] = []" "finished_in (Started i # es) = finished_in es" "finished_in (Finished i # es) = i # finished_in es"
  "finished_in (es @ fs) = finished_in es @ finished_in fs" "finished_in (map (\<lambda>t. Started (tk_id t)) ts) = []"
  by (simp_all add: finished_in_def o_def)

lemma set_started_in: "i \<in> set (started_in es) \<longleftrightarrow> Started i \<in> set es"
  by (force simp: started_in_def split: sched_effect.splits)

lemma settle_all_append:
  "settle_all conf (ts @ us) s = (case settle_all conf ts s of None \<Rightarrow> None | Some s' \<Rightarrow> settle_all conf us s')"
  by (induction conf ts s rule: settle_all.induct) (auto split: option.splits)

lemma settle_all_reach: "settle_all conf ts s = Some s' \<Longrightarrow> sched_reach conf s \<Longrightarrow> sched_reach conf s'"
proof (induction conf ts s rule: settle_all.induct)
  case (2 conf t ts s)
  then obtain s1 where s1: "t \<in> set (sc_active s)" "finish_task conf 1 t s = Some s1" "settle_all conf ts s1 = Some s'"
    by (auto split: if_splits option.splits)
  have "sched_step conf s s1" by (rule sched_step.Settle [OF s1(1,2)])
  then have "sched_reach conf s1" using reach_step [OF 2(3)] by blast
  then show ?case using 2(1) [OF s1(1,2,3)] by blast
qed simp

subsection \<open>The contract of a conflict test\<close>

definition compatible :: "(tool_accesses \<Rightarrow> tool_accesses \<Rightarrow> bool) \<Rightarrow> tool_task \<Rightarrow> tool_task \<Rightarrow> bool" where
  "compatible conf a b \<longleftrightarrow> \<not> conf (tk_accesses a) (tk_accesses b)"

text \<open>Every task of a queue waits for an active task or for one queued before it.\<close>

fun waiting :: "(tool_accesses \<Rightarrow> tool_accesses \<Rightarrow> bool) \<Rightarrow> tool_task list \<Rightarrow> tool_task list \<Rightarrow> tool_task list \<Rightarrow> bool" where
  "waiting conf active pre [] = True"
| "waiting conf active pre (t # ts) \<longleftrightarrow> conflictsWithAny conf t (active @ pre) \<and> waiting conf active (pre @ [t]) ts"

definition sched_inv :: "(tool_accesses \<Rightarrow> tool_accesses \<Rightarrow> bool) \<Rightarrow> scheduler \<Rightarrow> bool" where
  "sched_inv conf s \<longleftrightarrow> sorted_wrt (compatible conf) (sc_active s) \<and> waiting conf (sc_active s) [] (sc_queued s)
     \<and> (\<forall>t\<in>set (sc_active s @ sc_queued s). \<not> tk_throws t) \<and> distinct (map tk_id (sc_active s @ sc_queued s))
     \<and> (\<forall>t\<in>set (sc_active s). Started (tk_id t) \<in> set (sc_log s)) \<and> (\<forall>t\<in>set (sc_queued s). Started (tk_id t) \<notin> set (sc_log s))"

text \<open>The log and the lists together: a ticket is started once, and is finished or running from then on.\<close>

definition log_inv :: "scheduler \<Rightarrow> bool" where
  "log_inv s \<longleftrightarrow> distinct (started_in (sc_log s)) \<and>
     mset (started_in (sc_log s)) = mset (finished_in (sc_log s)) + mset (map tk_id (sc_active s))"

lemma conflicts_append [simp]: "conflictsWithAny conf t (xs @ ys) \<longleftrightarrow> conflictsWithAny conf t xs \<or> conflictsWithAny conf t ys"
  by (simp add: conflictsWithAny_def)

lemma blocked_append: "isBlocked conf t pre s \<longleftrightarrow> conflictsWithAny conf t (sc_active s @ pre)"
  by (simp add: isBlocked_def)

lemma waiting_snoc: "waiting conf active pre (ts @ [t]) \<longleftrightarrow> waiting conf active pre ts \<and> conflictsWithAny conf t (active @ pre @ ts)"
  by (induction conf active pre ts rule: waiting.induct) auto

lemma waiting_active: "waiting conf active pre ts \<Longrightarrow> waiting conf (active @ more') pre ts"
  by (induction conf active pre ts rule: waiting.induct) auto

lemma waiting_nth: "waiting conf active pre ts \<Longrightarrow> i < length ts \<Longrightarrow> conflictsWithAny conf (ts ! i) (active @ pre @ take i ts)"
proof (induction conf active pre ts arbitrary: i rule: waiting.induct)
  case (2 conf active pre t ts)
  then show ?case by (cases i) auto
qed simp

text \<open>One pass over the queue: what it starts and what it leaves, without a task that throws.\<close>

definition pass_result :: "(tool_accesses \<Rightarrow> tool_accesses \<Rightarrow> bool) \<Rightarrow> nat \<Rightarrow> tool_task list \<Rightarrow> tool_task list \<Rightarrow> scheduler
    \<Rightarrow> tool_task list \<Rightarrow> tool_task list \<Rightarrow> bool" where
  "pass_result conf n ts still s started rest \<longleftrightarrow>
     start_loop conf n ts still s =
       Some (s\<lparr>sc_active := sc_active s @ started, sc_queued := still @ rest, sc_log := sc_log s @ map (\<lambda>t. Started (tk_id t)) started\<rparr>)
     \<and> sorted_wrt (compatible conf) (sc_active s @ started) \<and> waiting conf (sc_active s @ started) [] (still @ rest)
     \<and> mset ts = mset (started @ rest)
     \<and> (\<forall>i j. i < j \<longrightarrow> j < length ts \<longrightarrow> ts ! j \<in> set started \<longrightarrow> ts ! i \<in> set rest \<longrightarrow> distinct ts \<longrightarrow> compatible conf (ts ! i) (ts ! j))
     \<and> (\<forall>u\<in>set started. \<forall>w\<in>set still. compatible conf w u)"

lemma pass_resultD:
  assumes "pass_result conf n ts still s started rest"
  shows "start_loop conf n ts still s =
       Some (s\<lparr>sc_active := sc_active s @ started, sc_queued := still @ rest, sc_log := sc_log s @ map (\<lambda>t. Started (tk_id t)) started\<rparr>)"
    "sorted_wrt (compatible conf) (sc_active s @ started)" "waiting conf (sc_active s @ started) [] (still @ rest)"
    "mset ts = mset (started @ rest)"
    "i < j \<Longrightarrow> j < length ts \<Longrightarrow> ts ! j \<in> set started \<Longrightarrow> ts ! i \<in> set rest \<Longrightarrow> distinct ts \<Longrightarrow> compatible conf (ts ! i) (ts ! j)"
    "u \<in> set started \<Longrightarrow> w \<in> set still \<Longrightarrow> compatible conf w u"
  using assms unfolding pass_result_def by blast+

lemma sorted_wrt_remove1: "sorted_wrt P xs \<Longrightarrow> sorted_wrt P (remove1 a xs)"
proof (induction xs)
  case (Cons x xs)
  have "set (remove1 a xs) \<subseteq> set xs" by (rule set_remove1_subset)
  with Cons show ?case by auto
qed simp

locale conflict_test =
  fixes conf :: "tool_accesses \<Rightarrow> tool_accesses \<Rightarrow> bool"
  assumes sym: "conf a b = conf b a"
begin

lemma free_compatible: "\<not> conflictsWithAny conf t ts \<longleftrightarrow> (\<forall>a\<in>set ts. compatible conf a t)"
  using sym by (auto simp: conflictsWithAny_def compatible_def list_ex_iff)

lemma start_loop_pass:
  assumes "\<forall>t\<in>set ts. \<not> tk_throws t" "sorted_wrt (compatible conf) (sc_active s)" "waiting conf (sc_active s) [] still"
  shows "\<exists>started rest. pass_result conf n ts still s started rest"
  using assms
proof (induction ts arbitrary: still s)
  case Nil
  then show ?case by (intro exI [of _ "[]"]) (simp add: pass_result_def)
next
  case (Cons t ts)
  have nt: "\<forall>t\<in>set ts. \<not> tk_throws t" using Cons.prems(1) by simp
  show ?case
  proof (cases "isBlocked conf t still s")
    case True
    then have w: "waiting conf (sc_active s) [] (still @ [t])" using Cons.prems(3) by (simp add: waiting_snoc isBlocked_def)
    obtain started rest where P: "pass_result conf n ts (still @ [t]) s started rest" using Cons.IH [OF nt Cons.prems(2) w] by blast
    note IH = pass_resultD [OF P]
    have fair: "compatible conf ((t # ts) ! i) ((t # ts) ! j)"
      if ij: "i < j" and jl: "j < length (t # ts)" and js: "(t # ts) ! j \<in> set started" and ir: "(t # ts) ! i \<in> set (t # rest)" and d: "distinct (t # ts)" for i j
    proof (cases i)
      case 0
      with js IH(6) [of "(t # ts) ! j" t] show ?thesis by simp
    next
      case (Suc i')
      then obtain j' where j: "j = Suc j'" using ij Suc by (cases j) auto
      have "ts ! i' \<noteq> t" using d Suc j ij jl by auto
      then show ?thesis using IH(5) [of i' j'] ij jl js ir d Suc j by auto
    qed
    have "pass_result conf n (t # ts) still s started (t # rest)"
      unfolding pass_result_def
    proof (intro conjI allI impI ballI)
      show "compatible conf ((t # ts) ! i) ((t # ts) ! j)"
        if "i < j" "j < length (t # ts)" "(t # ts) ! j \<in> set started" "(t # ts) ! i \<in> set (t # rest)" "distinct (t # ts)" for i j
        using fair that by blast
    qed (use IH True in simp_all)
    then show ?thesis by blast
  next
    case False
    let ?s = "s\<lparr>sc_active := sc_active s @ [t], sc_log := sc_log s @ [Started (tk_id t)]\<rparr>"
    have go: "start_task conf n t s = Some ?s" using Cons.prems(1) by (simp add: Let_def note_effect_def)
    have free: "\<forall>a\<in>set (sc_active s @ still). compatible conf a t" using False free_compatible by (auto simp: blocked_append)
    have sw: "sorted_wrt (compatible conf) (sc_active ?s)" using Cons.prems(2) free by (auto simp: sorted_wrt_append)
    have w: "waiting conf (sc_active ?s) [] still" using waiting_active [OF Cons.prems(3)] by simp
    obtain started rest where P: "pass_result conf n ts still ?s started rest" using Cons.IH [OF nt sw w] by blast
    note IH = pass_resultD [OF P]
    have st: "set ts = set started \<union> set rest" using IH(4) by (metis set_append set_mset_mset)
    have fair: "compatible conf ((t # ts) ! i) ((t # ts) ! j)"
      if ij: "i < j" and jl: "j < length (t # ts)" and js: "(t # ts) ! j \<in> set (t # started)" and ir: "(t # ts) ! i \<in> set rest" and d: "distinct (t # ts)" for i j
    proof -
      have "t \<notin> set rest" using d st by auto
      then obtain i' where i: "i = Suc i'" using ir by (cases i) auto
      then obtain j' where j: "j = Suc j'" using ij i by (cases j) auto
      have "ts ! j' \<noteq> t" using d j jl by auto
      then show ?thesis using IH(5) [of i' j'] ij jl js ir d i j by auto
    qed
    have "pass_result conf n (t # ts) still s (t # started) rest"
      unfolding pass_result_def
    proof (intro conjI allI impI ballI)
      show "compatible conf ((t # ts) ! i) ((t # ts) ! j)"
        if "i < j" "j < length (t # ts)" "(t # ts) ! j \<in> set (t # started)" "(t # ts) ! i \<in> set rest" "distinct (t # ts)" for i j
        using fair that by blast
      show "compatible conf w u" if "u \<in> set (t # started)" "w \<in> set still" for u w
        using that free IH(6) [of u w] by auto
    qed (use IH False go in simp_all)
    then show ?thesis by blast
  qed
qed

lemma finish_pass:
  assumes inv: "sched_inv conf s" and t: "t \<in> set (sc_active s)"
  obtains started rest where
    "finish_task conf (Suc n) t s = Some (s\<lparr>sc_active := remove1 t (sc_active s) @ started, sc_queued := rest,
        sc_log := sc_log s @ Finished (tk_id t) # map (\<lambda>t. Started (tk_id t)) started\<rparr>)"
    "pass_result conf n (sc_queued s) [] (s\<lparr>sc_active := remove1 t (sc_active s), sc_log := sc_log s @ [Finished (tk_id t)]\<rparr>) started rest"
proof -
  let ?s = "s\<lparr>sc_active := remove1 t (sc_active s), sc_log := sc_log s @ [Finished (tk_id t)]\<rparr>"
  have "sorted_wrt (compatible conf) (sc_active ?s)"
    using inv by (auto simp: sched_inv_def intro: sorted_wrt_remove1)
  moreover have "\<forall>t\<in>set (sc_queued s). \<not> tk_throws t" using inv by (simp add: sched_inv_def)
  ultimately obtain started rest where P: "pass_result conf n (sc_queued s) [] ?s started rest"
    using start_loop_pass [of "sc_queued s" ?s "[]" n] by auto
  show ?thesis by (rule that [OF _ P]) (use pass_resultD(1) [OF P] in \<open>simp add: note_effect_def\<close>)
qed

lemma pass_inv:
  assumes inv: "sched_inv conf s" and t: "t \<in> set (sc_active s)"
    and P: "pass_result conf n (sc_queued s) [] (s\<lparr>sc_active := remove1 t (sc_active s), sc_log := sc_log s @ [Finished (tk_id t)]\<rparr>) started rest"
  shows "sched_inv conf (s\<lparr>sc_active := remove1 t (sc_active s) @ started, sc_queued := rest,
        sc_log := sc_log s @ Finished (tk_id t) # map (\<lambda>t. Started (tk_id t)) started\<rparr>)"
proof -
  note R = pass_resultD [OF P]
  have st: "set (sc_queued s) = set started \<union> set rest" using R(4) by (metis set_append set_mset_mset)
  have "mset (t # remove1 t (sc_active s) @ started @ rest) = mset (sc_active s @ sc_queued s)"
    using R(4) t by simp
  then have "mset (map tk_id (t # remove1 t (sc_active s) @ started @ rest)) = mset (map tk_id (sc_active s @ sc_queued s))"
    by (metis mset_map)
  moreover have "distinct (map tk_id (sc_active s @ sc_queued s))" using inv by (simp add: sched_inv_def)
  ultimately have "distinct (map tk_id (t # remove1 t (sc_active s) @ started @ rest))" using mset_eq_imp_distinct_iff by blast
  then have d: "distinct (map tk_id (remove1 t (sc_active s) @ started @ rest))" by simp
  have sub: "set (remove1 t (sc_active s)) \<subseteq> set (sc_active s)" by (rule set_remove1_subset)
  have "tk_id ` set started \<inter> tk_id ` set rest = {}" using d by auto
  then show ?thesis using inv R(2,3) st d sub unfolding sched_inv_def
    by (auto simp: image_iff)
qed

lemma finish_inv:
  assumes "sched_inv conf s" "t \<in> set (sc_active s)" "finish_task conf n t s = Some s'"
  shows "sched_inv conf s'"
proof -
  obtain m where n: "n = Suc m" using assms(3) by (cases n) auto
  obtain started rest where f: "finish_task conf (Suc m) t s = Some (s\<lparr>sc_active := remove1 t (sc_active s) @ started, sc_queued := rest,
        sc_log := sc_log s @ Finished (tk_id t) # map (\<lambda>t. Started (tk_id t)) started\<rparr>)"
    and P: "pass_result conf m (sc_queued s) [] (s\<lparr>sc_active := remove1 t (sc_active s), sc_log := sc_log s @ [Finished (tk_id t)]\<rparr>) started rest"
    by (rule finish_pass [OF assms(1,2)])
  have "s' = s\<lparr>sc_active := remove1 t (sc_active s) @ started, sc_queued := rest,
        sc_log := sc_log s @ Finished (tk_id t) # map (\<lambda>t. Started (tk_id t)) started\<rparr>"
    using f assms(3) n by simp
  then show ?thesis using pass_inv [OF assms(1,2) P] by simp
qed

lemma add_inv:
  assumes inv: "sched_inv conf s" and t: "\<not> tk_throws t" "Started (tk_id t) \<notin> set (sc_log s)" "tk_id t \<notin> tk_id ` set (sc_queued s)"
    and a: "sched_add conf n t s = Some s'"
  shows "sched_inv conf s'"
proof -
  have fresh: "tk_id t \<notin> tk_id ` set (sc_active s)" using inv t(2) by (auto simp: sched_inv_def)
  show ?thesis
  proof (cases "isBlocked conf t (sc_queued s) s")
    case True
    then have "s' = s\<lparr>sc_queued := sc_queued s @ [t]\<rparr>" using a by (simp add: sched_add_def)
    then show ?thesis using inv True t fresh by (auto simp: sched_inv_def waiting_snoc isBlocked_def)
  next
    case False
    then have s': "s' = s\<lparr>sc_active := sc_active s @ [t], sc_log := sc_log s @ [Started (tk_id t)]\<rparr>"
      using a t(1) by (simp add: sched_add_def Let_def note_effect_def)
    have "\<forall>b\<in>set (sc_active s). compatible conf b t" using False free_compatible by (simp add: isBlocked_def)
    moreover have "waiting conf (sc_active s @ [t]) [] (sc_queued s)" using inv waiting_active by (auto simp: sched_inv_def)
    moreover have "\<forall>q\<in>set (sc_queued s). tk_id q \<noteq> tk_id t" using t(3) by (metis imageI)
    ultimately show ?thesis using inv t fresh unfolding s' sched_inv_def by (auto simp: sorted_wrt_append)
  qed
qed

lemma reach_inv: "sched_reach conf s \<Longrightarrow> sched_inv conf s"
proof (induction rule: sched_reach.induct)
  case reach_new
  then show ?case by (simp add: sched_inv_def new_scheduler_def)
next
  case (reach_step s s')
  from reach_step(2) show ?case
    by (rule sched_step.cases) (use reach_step(3) add_inv finish_inv in blast)+
qed

lemma active_compatible:
  assumes "sched_inv conf s" "a \<in> set (sc_active s)" "b \<in> set (sc_active s)" "a \<noteq> b"
  shows "\<not> conf (tk_accesses a) (tk_accesses b)"
proof -
  obtain i j where ij: "a = sc_active s ! i" "b = sc_active s ! j" "i < length (sc_active s)" "j < length (sc_active s)"
    using assms(2,3) by (auto simp: in_set_conv_nth)
  have "i \<noteq> j" using assms(4) ij by auto
  moreover have "sorted_wrt (compatible conf) (sc_active s)" using assms(1) by (simp add: sched_inv_def)
  ultimately show ?thesis using ij sorted_wrt_nth_less [of "compatible conf" "sc_active s"] sym
    by (metis compatible_def linorder_neqE_nat)
qed

lemma queued_waits:
  assumes "sched_inv conf s" "i < length (sc_queued s)"
  shows "\<exists>c\<in>set (sc_active s) \<union> set (take i (sc_queued s)). conf (tk_accesses (sc_queued s ! i)) (tk_accesses c)"
  using waiting_nth [of conf "sc_active s" "[]" "sc_queued s" i] assms by (auto simp: sched_inv_def conflictsWithAny_def list_ex_iff)

lemma finish_effect:
  assumes "sched_inv conf s" "t \<in> set (sc_active s)"
  obtains s' es where "finish_task conf 1 t s = Some s'" "mset (t # sc_active s' @ sc_queued s') = mset (sc_active s @ sc_queued s)"
    "sc_log s' = sc_log s @ es" "finished_in es = [tk_id t]"
    "mset (started_in es @ map tk_id (sc_queued s')) = mset (map tk_id (sc_queued s))"
    "mset (map tk_id (sc_active s')) + {#tk_id t#} = mset (map tk_id (sc_active s)) + mset (started_in es)"
proof -
  obtain started rest where f: "finish_task conf (Suc 0) t s = Some (s\<lparr>sc_active := remove1 t (sc_active s) @ started, sc_queued := rest,
        sc_log := sc_log s @ Finished (tk_id t) # map (\<lambda>t. Started (tk_id t)) started\<rparr>)"
    and P: "pass_result conf 0 (sc_queued s) [] (s\<lparr>sc_active := remove1 t (sc_active s), sc_log := sc_log s @ [Finished (tk_id t)]\<rparr>) started rest"
    by (rule finish_pass [OF assms])
  have q: "mset (sc_queued s) = mset started + mset rest" using pass_resultD(4) [OF P] by simp
  have r: "add_mset t (mset (remove1 t (sc_active s))) = mset (sc_active s)" using assms(2) by simp
  have "mset (map tk_id (sc_queued s)) = mset (map tk_id started) + mset (map tk_id rest)" by (simp add: q)
  moreover have "add_mset (tk_id t) (mset (map tk_id (remove1 t (sc_active s)))) = mset (map tk_id (sc_active s))"
    unfolding mset_map by (metis image_mset_add_mset r)
  ultimately show ?thesis
    using that [of _ "Finished (tk_id t) # map (\<lambda>t. Started (tk_id t)) started"] f q r unfolding One_nat_def
    by (simp del: mset_map finish_task.simps mset_remove1)
qed

lemma reach_log: "sched_reach conf s \<Longrightarrow> log_inv s"
proof (induction rule: sched_reach.induct)
  case reach_new
  then show ?case by (simp add: log_inv_def new_scheduler_def)
next
  case (reach_step s s')
  have inv: "sched_inv conf s" by (rule reach_inv [OF reach_step(1)])
  from reach_step(2) show ?case
  proof (cases rule: sched_step.cases)
    case (Add t n)
    show ?thesis
    proof (cases "isBlocked conf t (sc_queued s) s")
      case True
      then show ?thesis using Add(4) reach_step(3) by (auto simp: sched_add_def log_inv_def)
    next
      case False
      then have "s' = s\<lparr>sc_active := sc_active s @ [t], sc_log := sc_log s @ [Started (tk_id t)]\<rparr>"
        using Add(1,4) by (simp add: sched_add_def Let_def note_effect_def)
      then show ?thesis using Add(2) reach_step(3) by (simp add: log_inv_def set_started_in)
    qed
  next
    case (Settle t n)
    then obtain m where n: "n = Suc m" by (cases n) auto
    obtain started rest where f: "finish_task conf (Suc m) t s = Some (s\<lparr>sc_active := remove1 t (sc_active s) @ started, sc_queued := rest,
          sc_log := sc_log s @ Finished (tk_id t) # map (\<lambda>t. Started (tk_id t)) started\<rparr>)"
      and P: "pass_result conf m (sc_queued s) [] (s\<lparr>sc_active := remove1 t (sc_active s), sc_log := sc_log s @ [Finished (tk_id t)]\<rparr>) started rest"
      by (rule finish_pass [OF inv Settle(1)])
    have s': "s' = s\<lparr>sc_active := remove1 t (sc_active s) @ started, sc_queued := rest,
          sc_log := sc_log s @ Finished (tk_id t) # map (\<lambda>t. Started (tk_id t)) started\<rparr>"
      using f Settle(2) n by simp
    have q: "mset (sc_queued s) = mset started + mset rest" using pass_resultD(4) [OF P] by simp
    then have sub: "set started \<subseteq> set (sc_queued s)" by (metis Un_upper1 set_mset_mset set_mset_union)
    have "add_mset t (mset (remove1 t (sc_active s))) = mset (sc_active s)" using Settle(1) by simp
    then have r: "add_mset (tk_id t) (mset (map tk_id (remove1 t (sc_active s)))) = mset (map tk_id (sc_active s))"
      unfolding mset_map by (metis image_mset_add_mset)
    have "distinct (map tk_id (sc_queued s))" using inv by (simp add: sched_inv_def)
    then have d: "distinct (map tk_id started)"
      by (metis q distinct_append map_append mset_append mset_eq_imp_distinct_iff mset_map)
    have fresh: "\<forall>u\<in>set started. tk_id u \<notin> set (started_in (sc_log s))"
      using inv sub by (auto simp: sched_inv_def set_started_in)
    show ?thesis using reach_step(3) d fresh r unfolding s' by (auto simp: log_inv_def simp del: mset_map)
  qed
qed

lemma settle_all_effect:
  assumes "settle_all conf ts s = Some s'" "sched_inv conf s"
  shows "\<exists>es. sc_log s' = sc_log s @ es \<and> finished_in es = map tk_id ts
      \<and> mset (started_in es @ map tk_id (sc_queued s')) = mset (map tk_id (sc_queued s))
      \<and> mset (ts @ sc_active s' @ sc_queued s') = mset (sc_active s @ sc_queued s)"
  using assms
proof (induction ts arbitrary: s)
  case (Cons t ts)
  from Cons.prems(1) obtain s1 where t: "t \<in> set (sc_active s)" and f: "finish_task conf 1 t s = Some s1"
    and r: "settle_all conf ts s1 = Some s'"
    by (auto split: if_splits option.splits)
  obtain es1 where e1: "mset (t # sc_active s1 @ sc_queued s1) = mset (sc_active s @ sc_queued s)"
    "sc_log s1 = sc_log s @ es1" "finished_in es1 = [tk_id t]"
    "mset (started_in es1 @ map tk_id (sc_queued s1)) = mset (map tk_id (sc_queued s))"
    using finish_effect [OF Cons.prems(2) t] f by (metis option.inject)
  obtain es2 where e2: "sc_log s' = sc_log s1 @ es2" "finished_in es2 = map tk_id ts"
    "mset (started_in es2 @ map tk_id (sc_queued s')) = mset (map tk_id (sc_queued s1))"
    "mset (ts @ sc_active s' @ sc_queued s') = mset (sc_active s1 @ sc_queued s1)"
    using Cons.IH [OF r finish_inv [OF Cons.prems(2) t f]] by blast
  have "mset (started_in (es1 @ es2) @ map tk_id (sc_queued s')) = mset (map tk_id (sc_queued s))"
    using e1(4) e2(3) by (simp add: add.assoc del: mset_map)
  moreover have "mset ((t # ts) @ sc_active s' @ sc_queued s') = mset (sc_active s @ sc_queued s)"
    using e1(1) e2(4) by simp
  ultimately show ?case using e1(2,3) e2(1,2) by (intro exI [of _ "es1 @ es2"]) simp
qed simp

lemma running_if_queued: "sched_inv conf s \<Longrightarrow> sc_queued s \<noteq> [] \<Longrightarrow> sc_active s \<noteq> []"
  using queued_waits [of s 0] by (cases "sc_queued s") auto

lemma settle_all_extends:
  assumes "settle_all conf ts s = Some s'" "sched_reach conf s" "t \<in> set (sc_active s')"
  shows "\<exists>s''. settle_all conf (ts @ [t]) s = Some s''"
proof -
  have "sched_inv conf s'" by (rule reach_inv [OF settle_all_reach [OF assms(1,2)]])
  then obtain s'' where "finish_task conf 1 t s' = Some s''" using finish_effect [OF _ assms(3)] by blast
  then show ?thesis using assms(1,3) by (simp add: settle_all_append)
qed

lemma settle_all_empties:
  assumes "sched_inv conf s"
  shows "\<exists>us s'. settle_all conf us s = Some s' \<and> sc_active s' = [] \<and> sc_queued s' = []"
  using assms
proof (induction "length (sc_active s @ sc_queued s)" arbitrary: s rule: less_induct)
  case less
  show ?case
  proof (cases "sc_active s")
    case Nil
    then have "sc_queued s = []" using running_if_queued [OF less.prems] by blast
    then show ?thesis using Nil by (intro exI [of _ "[]"]) simp
  next
    case (Cons t ts)
    then have t: "t \<in> set (sc_active s)" by simp
    obtain s1 where f: "finish_task conf 1 t s = Some s1" and m: "mset (t # sc_active s1 @ sc_queued s1) = mset (sc_active s @ sc_queued s)"
      by (rule finish_effect [OF less.prems t])
    have "length (t # sc_active s1 @ sc_queued s1) = length (sc_active s @ sc_queued s)" by (rule mset_eq_length [OF m])
    then obtain us s' where "settle_all conf us s1 = Some s'" "sc_active s' = []" "sc_queued s' = []"
      using less.hyps [of s1] finish_inv [OF less.prems t f] by auto
    then show ?thesis using t f by (intro exI [of _ "t # us"]) auto
  qed
qed

lemma finish_order:
  assumes inv: "sched_inv conf s" and t: "t \<in> set (sc_active s)" and f: "finish_task conf n t s = Some s'"
    and ij: "i < j" "j < length (sc_queued s)" "sc_queued s ! j \<in> set (sc_active s')" "sc_queued s ! i \<in> set (sc_queued s')"
  shows "\<not> conf (tk_accesses (sc_queued s ! i)) (tk_accesses (sc_queued s ! j))"
proof -
  obtain m where n: "n = Suc m" using f by (cases n) auto
  obtain started rest where e: "finish_task conf (Suc m) t s = Some (s\<lparr>sc_active := remove1 t (sc_active s) @ started, sc_queued := rest,
        sc_log := sc_log s @ Finished (tk_id t) # map (\<lambda>t. Started (tk_id t)) started\<rparr>)"
    and P: "pass_result conf m (sc_queued s) [] (s\<lparr>sc_active := remove1 t (sc_active s), sc_log := sc_log s @ [Finished (tk_id t)]\<rparr>) started rest"
    by (rule finish_pass [OF inv t])
  have s': "sc_active s' = remove1 t (sc_active s) @ started" "sc_queued s' = rest" using e f n by auto
  have d: "distinct (map tk_id (sc_active s @ sc_queued s))" using inv by (simp add: sched_inv_def)
  then have "distinct (sc_queued s)" "set (sc_active s) \<inter> set (sc_queued s) = {}" by (auto simp: distinct_map)
  moreover have "sc_queued s ! j \<in> set (sc_queued s)" using ij(2) by simp
  ultimately have "sc_queued s ! j \<in> set started" using ij(3) s'(1) notin_set_remove1 by (fastforce dest: in_set_remove1)
  then have "compatible conf (sc_queued s ! i) (sc_queued s ! j)"
    using pass_resultD(5) [OF P ij(1,2)] ij(4) s'(2) \<open>distinct (sc_queued s)\<close> by simp
  then show ?thesis by (simp add: compatible_def)
qed

end

interpretation tool_conflict: conflict_test "accesses_conflict lower" for lower
  by unfold_locales (rule accesses_conflict_sym)

text \<open>C16: however calls are added and results settle, two calls running at the same time never conflict, and a call
  only waits for a conflicting call that is running or was queued before it.\<close>

theorem sched_exclusive:
  assumes "sched_reach (accesses_conflict lower) s"
  shows "(\<forall>a\<in>set (sc_active s). \<forall>b\<in>set (sc_active s). a \<noteq> b \<longrightarrow> \<not> accesses_conflict lower (tk_accesses a) (tk_accesses b))
    \<and> (\<forall>i<length (sc_queued s). \<exists>c\<in>set (sc_active s) \<union> set (take i (sc_queued s)).
         accesses_conflict lower (tk_accesses (sc_queued s ! i)) (tk_accesses c))"
  using tool_conflict.active_compatible tool_conflict.queued_waits tool_conflict.reach_inv [OF assms] by blast

text \<open>C17: after any calls of \<^verbatim>\<open>add\<close> and any results, however the promises of running calls settle from there on:
  while calls are queued one is running, every running call can be the next to settle and its \<^verbatim>\<open>finish\<close> returns;
  the calls that settled, those running and those queued are together the calls that were pending, each once;
  the log grows by one result for each call that settled, in that order, and by one start for each call that left the
  queue; the run can be continued until nothing is running or queued; a start of a conflicting call never
  overtakes a call queued first. Over the whole history, no ticket is started twice, and those started are
  those finished and those running. The starts of the calls do not throw, as in the executor.\<close>

theorem sched_drains:
  assumes "sched_reach (accesses_conflict lower) s"
  shows "(\<forall>ts s'. settle_all (accesses_conflict lower) ts s = Some s' \<longrightarrow>
      (sc_queued s' \<noteq> [] \<longrightarrow> sc_active s' \<noteq> []) \<and>
      (\<forall>t\<in>set (sc_active s'). \<exists>s''. settle_all (accesses_conflict lower) (ts @ [t]) s = Some s'') \<and>
      mset (ts @ sc_active s' @ sc_queued s') = mset (sc_active s @ sc_queued s) \<and>
      (\<exists>es. sc_log s' = sc_log s @ es \<and> finished_in es = map tk_id ts \<and>
         mset (started_in es @ map tk_id (sc_queued s')) = mset (map tk_id (sc_queued s))) \<and>
      (\<exists>us s''. settle_all (accesses_conflict lower) (ts @ us) s = Some s'' \<and> sc_active s'' = [] \<and> sc_queued s'' = []))
    \<and> (\<forall>t\<in>set (sc_active s). \<forall>s'. finish_task (accesses_conflict lower) 1 t s = Some s' \<longrightarrow>
         (\<forall>i j. i < j \<and> j < length (sc_queued s) \<and> sc_queued s ! j \<in> set (sc_active s') \<and> sc_queued s ! i \<in> set (sc_queued s')
              \<longrightarrow> \<not> accesses_conflict lower (tk_accesses (sc_queued s ! i)) (tk_accesses (sc_queued s ! j))))
    \<and> distinct (map tk_id (sc_active s @ sc_queued s)) \<and> distinct (started_in (sc_log s))
    \<and> mset (started_in (sc_log s)) = mset (finished_in (sc_log s) @ map tk_id (sc_active s))" (is "?runs \<and> ?order \<and> ?ids \<and> ?once \<and> ?log")
proof -
  let ?c = "accesses_conflict lower"
  have inv: "sched_inv ?c s" by (rule tool_conflict.reach_inv [OF assms])
  have ?runs
  proof (intro allI impI)
    fix ts s' assume run: "settle_all ?c ts s = Some s'"
    have inv': "sched_inv ?c s'" by (rule tool_conflict.reach_inv [OF settle_all_reach [OF run assms]])
    obtain us s'' where "settle_all ?c us s' = Some s''" "sc_active s'' = []" "sc_queued s'' = []"
      using tool_conflict.settle_all_empties [OF inv'] by blast
    then have "settle_all ?c (ts @ us) s = Some s'' \<and> sc_active s'' = [] \<and> sc_queued s'' = []"
      using run by (simp add: settle_all_append)
    then show "(sc_queued s' \<noteq> [] \<longrightarrow> sc_active s' \<noteq> []) \<and>
      (\<forall>t\<in>set (sc_active s'). \<exists>s''. settle_all ?c (ts @ [t]) s = Some s'') \<and>
      mset (ts @ sc_active s' @ sc_queued s') = mset (sc_active s @ sc_queued s) \<and>
      (\<exists>es. sc_log s' = sc_log s @ es \<and> finished_in es = map tk_id ts \<and>
         mset (started_in es @ map tk_id (sc_queued s')) = mset (map tk_id (sc_queued s))) \<and>
      (\<exists>us s''. settle_all ?c (ts @ us) s = Some s'' \<and> sc_active s'' = [] \<and> sc_queued s'' = [])"
      using tool_conflict.running_if_queued [OF inv'] tool_conflict.settle_all_extends [OF run assms]
        tool_conflict.settle_all_effect [OF run inv] by blast
  qed
  moreover have ?order using tool_conflict.finish_order [OF inv] by blast
  moreover have ?ids using inv by (simp add: sched_inv_def)
  moreover have ?once ?log using tool_conflict.reach_log [OF assms] by (simp_all add: log_inv_def)
  ultimately show ?thesis by blast
qed

text \<open>A write waits for a write of the same file; a read of another file runs beside it.\<close>

definition sample_scheduler :: scheduler where
  "sample_scheduler =
     \<lparr>sc_active = [\<lparr>tk_id = 0, tk_accesses = writeFile (js ''a''), tk_throws = False\<rparr>, \<lparr>tk_id = 2, tk_accesses = readFile (js ''b''), tk_throws = False\<rparr>],
      sc_queued = [\<lparr>tk_id = 1, tk_accesses = writeFile (js ''a''), tk_throws = False\<rparr>], sc_log = [Started 0, Started 2]\<rparr>"

lemmas sample_access = js_def of_char_def writeFile_def readFile_def accesses_file_def accesses_conflict_def fileOperationsConflict_def
  fileAccessesOverlap_def normalizePath_def ends_with_slash_def

lemma sample_reach: "sched_reach (accesses_conflict (\<lambda>s. s)) sample_scheduler"
proof -
  let ?c = "accesses_conflict (\<lambda>s. s)"
  let ?t = "\<lambda>n a. \<lparr>tk_id = n, tk_accesses = a, tk_throws = False\<rparr>"
  let ?s1 = "\<lparr>sc_active = [?t 0 (writeFile (js ''a''))], sc_queued = [], sc_log = [Started 0]\<rparr>"
  let ?s2 = "?s1\<lparr>sc_queued := [?t 1 (writeFile (js ''a''))]\<rparr>"
  have "sched_step ?c new_scheduler ?s1"
    by (rule sched_step.Add [of "?t 0 (writeFile (js ''a''))" _ _ 0])
      (simp_all add: sched_add_def new_scheduler_def isBlocked_def conflictsWithAny_def Let_def note_effect_def)
  then have 1: "sched_reach ?c ?s1" using reach_new reach_step by blast
  have "sched_step ?c ?s1 ?s2"
    by (rule sched_step.Add [of "?t 1 (writeFile (js ''a''))" _ _ 0])
      (simp_all add: sched_add_def isBlocked_def conflictsWithAny_def sample_access)
  then have 2: "sched_reach ?c ?s2" using 1 reach_step by blast
  have "sched_step ?c ?s2 sample_scheduler"
    by (rule sched_step.Add [of "?t 2 (readFile (js ''b''))" _ _ 0])
      (simp_all add: sched_add_def isBlocked_def conflictsWithAny_def sample_access Let_def note_effect_def sample_scheduler_def)
  then show ?thesis using 2 reach_step by blast
qed

theorem sched_exclusive_witness:
  "sched_reach (accesses_conflict (\<lambda>s. s)) sample_scheduler \<and> length (sc_active sample_scheduler) = 2
   \<and> \<not> accesses_conflict (\<lambda>s. s) (tk_accesses (sc_active sample_scheduler ! 0)) (tk_accesses (sc_active sample_scheduler ! 1))"
proof -
  have "sc_active sample_scheduler ! 0 \<in> set (sc_active sample_scheduler)" "sc_active sample_scheduler ! 1 \<in> set (sc_active sample_scheduler)"
    "sc_active sample_scheduler ! 0 \<noteq> sc_active sample_scheduler ! 1"
    by (simp_all add: sample_scheduler_def)
  with sched_exclusive [OF sample_reach] sample_reach show ?thesis by (simp add: sample_scheduler_def)
qed

theorem sched_drains_witness:
  "\<exists>s'. settle_all (accesses_conflict (\<lambda>s. s)) [sc_active sample_scheduler ! 0, sc_queued sample_scheduler ! 0] sample_scheduler = Some s' \<and>
     mset (map tk_id (sc_active s' @ sc_queued s')) = {#2#} \<and> finished_in (sc_log s') = [0, 1] \<and> started_in (sc_log s') = [0, 2, 1]"
proof -
  let ?c = "accesses_conflict (\<lambda>s. s)"
  let ?ts = "[sc_active sample_scheduler ! 0, sc_queued sample_scheduler ! 0]"
  obtain s' where s': "settle_all ?c ?ts sample_scheduler = Some s'" "sc_queued s' = []"
    by (simp add: sample_scheduler_def isBlocked_def conflictsWithAny_def sample_access Let_def note_effect_def)
  have m: "mset (?ts @ sc_active s' @ sc_queued s') = mset (sc_active sample_scheduler @ sc_queued sample_scheduler)"
    using sched_drains [OF sample_reach] s'(1) by blast
  obtain es where es: "sc_log s' = sc_log sample_scheduler @ es" "finished_in es = map tk_id ?ts"
    "mset (started_in es @ map tk_id (sc_queued s')) = mset (map tk_id (sc_queued sample_scheduler))"
    using sched_drains [OF sample_reach] s'(1) by blast
  have "started_in es = [1]" using es(3) s'(2) by (simp add: sample_scheduler_def)
  moreover have "image_mset tk_id (mset (?ts @ sc_active s' @ sc_queued s')) = {#0, 1, 2#}"
    unfolding m by (simp add: sample_scheduler_def add_mset_commute)
  ultimately show ?thesis using s'(1) es by (intro exI [of _ s']) (simp add: sample_scheduler_def)
qed

text \<open>A queued task whose \<^verbatim>\<open>start\<close> throws is started again from the old queue by the call of \<^verbatim>\<open>finish\<close> inside the
  loop: no amount of recursion is enough.\<close>

lemma throwing_start_recurses:
  assumes "tk_throws t" "sc_queued s = [t]" "sc_active s = []"
  shows "startQueuedTasks conf n s = None"
  using assms(2,3)
proof (induction n arbitrary: s)
  case (Suc n)
  let ?s = "note_effect (Finished (tk_id t)) (note_effect (Started (tk_id t)) (s\<lparr>sc_active := []\<rparr>))"
  have "startQueuedTasks conf n ?s = None" by (rule Suc.IH) (use Suc.prems in \<open>simp_all add: note_effect_def\<close>)
  moreover have "start_task conf n t s = startQueuedTasks conf n ?s"
    using assms(1) Suc.prems by (simp add: Let_def note_effect_def)
  ultimately show ?case using Suc.prems by (simp add: isBlocked_def conflictsWithAny_def del: start_task.simps)
qed simp

end
