(* ===== verification/StepQueue.thy ===== *)
theory StepQueue
  imports Prelude "HOL-Library.Multiset"
begin

section \<open>Step requests and their queue (\<^verbatim>\<open>stepRequest.ts\<close>, \<^verbatim>\<open>stepRequestQueue.ts\<close>)\<close>

text \<open>
  The agent loop takes one batch of requests per step: a driver and every mergeable request folded into
  its step. A request is identified by its ticket; a sender that aborts a request changes the queued
  object, which is \<open>queue_abort\<close>. The messages a request contributes are not part of the queue.
\<close>

datatype request_state = Pending | Materialized | Aborted

datatype admission = NewTurn | ActiveOrNewTurn | ActiveOrNextTurn | ActiveTurnOnly

record step_request =
  rq_id :: nat
  rq_mergeable :: bool
  rq_turnScoped :: bool
  rq_admission :: admission
  rq_state :: request_state

definition new_request :: "nat \<Rightarrow> bool option \<Rightarrow> bool option \<Rightarrow> admission option \<Rightarrow> step_request" where
  "new_request i mergeable turnScoped adm =
     \<lparr>rq_id = i, rq_mergeable = (case mergeable of None \<Rightarrow> False | Some b \<Rightarrow> b), rq_turnScoped = (case turnScoped of None \<Rightarrow> True | Some b \<Rightarrow> b),
      rq_admission = (case adm of None \<Rightarrow> ActiveOrNextTurn | Some a \<Rightarrow> a), rq_state = Pending\<rparr>"

definition request_abort :: "step_request \<Rightarrow> bool \<times> step_request" where
  "request_abort r = (if rq_state r \<noteq> Pending then (False, r) else (True, r\<lparr>rq_state := Aborted\<rparr>))"

definition markMaterialized :: "step_request \<Rightarrow> step_request" where
  "markMaterialized r = (if rq_state r \<noteq> Pending then r else r\<lparr>rq_state := Materialized\<rparr>)"

definition request_aborted :: "step_request \<Rightarrow> bool" where
  "request_aborted r \<longleftrightarrow> rq_state r = Aborted"

subsection \<open>The queue\<close>

datatype queue_end = AtHead | AtTail

definition queue_enqueue :: "step_request \<Rightarrow> queue_end \<Rightarrow> step_request list \<Rightarrow> step_request list" where
  "queue_enqueue r at items = (case at of AtHead \<Rightarrow> r # items | AtTail \<Rightarrow> items @ [r])"

definition hasPendingRequests :: "step_request list \<Rightarrow> bool" where
  "hasPendingRequests items = list_ex (\<lambda>r. \<not> request_aborted r) items"

text \<open>The backward loop that splices out aborted requests.\<close>

fun discard_from :: "nat \<Rightarrow> step_request list \<Rightarrow> step_request list" where
  "discard_from 0 items = items"
| "discard_from (Suc i) items =
     discard_from i (if request_aborted (items ! i) then take i items @ drop (Suc i) items else items)"

definition discardAborted :: "step_request list \<Rightarrow> step_request list" where
  "discardAborted items = discard_from (length items) items"

definition driver_index :: "step_request list \<Rightarrow> nat" where
  "driver_index items = (case List.find (\<lambda>i. \<not> rq_mergeable (items ! i)) [0..<length items] of Some i \<Rightarrow> i | None \<Rightarrow> 0)"

fun split_batch :: "nat \<Rightarrow> nat \<Rightarrow> step_request list \<Rightarrow> step_request list \<times> step_request list" where
  "split_batch d i [] = ([], [])"
| "split_batch d i (r # rs) =
     (case split_batch d (Suc i) rs of (merged, rest) \<Rightarrow>
        if i = d then (merged, rest) else if rq_mergeable r then (r # merged, rest) else (merged, r # rest))"

record request_batch =
  rb_driver :: step_request
  rb_merged :: "step_request list"

definition takeNextBatch :: "step_request list \<Rightarrow> request_batch option \<times> step_request list" where
  "takeNextBatch items0 =
     (let items = discardAborted items0 in
      if items = [] then (None, [])
      else let d = driver_index items; (merged, rest) = split_batch d 0 items
           in (Some \<lparr>rb_driver = items ! d, rb_merged = merged\<rparr>, rest))"

definition queue_drain :: "step_request list \<Rightarrow> step_request list \<times> step_request list" where
  "queue_drain items = (items, [])"

definition abortTurnScoped :: "step_request list \<Rightarrow> step_request list" where
  "abortTurnScoped items = discardAborted (map (\<lambda>r. if rq_turnScoped r then snd (request_abort r) else r) items)"

definition queue_abort :: "nat \<Rightarrow> step_request list \<Rightarrow> step_request list" where
  "queue_abort i items = map (\<lambda>r. if rq_id r = i then snd (request_abort r) else r) items"

subsection \<open>What a batch is\<close>

lemma discard_from_filter:
  "i \<le> length items \<Longrightarrow> discard_from i items = filter (\<lambda>r. \<not> request_aborted r) (take i items) @ drop i items"
proof (induction i items rule: discard_from.induct)
  case (2 i items)
  have t: "take (Suc i) items = take i items @ [items ! i]" using 2(2) by (simp add: take_Suc_conv_app_nth)
  show ?case
  proof (cases "request_aborted (items ! i)")
    case True
    with 2 t show ?thesis by simp
  next
    case False
    with 2 t show ?thesis by (simp add: Cons_nth_drop_Suc)
  qed
qed simp

lemma discardAborted_filter: "discardAborted items = filter (\<lambda>r. \<not> request_aborted r) items"
  by (simp add: discardAborted_def discard_from_filter)

lemma split_batch_filter:
  "split_batch d i rs =
     (map snd (filter (\<lambda>(j, r). j \<noteq> d \<and> rq_mergeable r) (enumerate i rs)), map snd (filter (\<lambda>(j, r). j \<noteq> d \<and> \<not> rq_mergeable r) (enumerate i rs)))"
  by (induction d i rs rule: split_batch.induct) (auto split: prod.splits)

lemma filter_enumerate_past: "d < i \<Longrightarrow> map snd (filter (\<lambda>(j, r). j \<noteq> d \<and> P r) (enumerate i rs)) = filter P rs"
  by (induction rs arbitrary: i) auto

lemma filter_enumerate_split:
  "map snd (filter (\<lambda>(j, r). j \<noteq> i + length xs \<and> P r) (enumerate i (xs @ x # ys))) = filter P xs @ filter P ys"
proof (induction xs arbitrary: i)
  case Nil
  then show ?case by (simp add: filter_enumerate_past)
next
  case (Cons a xs)
  show ?case using Cons.IH [of "Suc i"] by auto
qed

lemma driver_first:
  assumes "items \<noteq> []"
  obtains xs x ys where "items = xs @ x # ys" "driver_index items = length xs" "\<forall>r\<in>set xs. rq_mergeable r"
    "\<not> rq_mergeable x \<or> (xs = [] \<and> (\<forall>r\<in>set items. rq_mergeable r))"
proof (cases "\<exists>r\<in>set items. \<not> rq_mergeable r")
  case True
  from split_list_first_prop [OF True] obtain xs x ys
    where s: "items = xs @ x # ys" "\<not> rq_mergeable x" "\<forall>r\<in>set xs. rq_mergeable r" by blast
  have "List.find (\<lambda>i. \<not> rq_mergeable (items ! i)) [0..<length items] = Some (length xs)"
    unfolding find_Some_iff
  proof (intro exI conjI allI impI)
    show "length xs < length [0..<length items]" by (simp add: s(1))
    then show "\<not> rq_mergeable (items ! ([0..<length items] ! length xs))" "length xs = [0..<length items] ! length xs"
      using s(2) by (simp_all add: s(1) del: upt_Suc)
    show "\<not> \<not> rq_mergeable (items ! ([0..<length items] ! j))" if "j < length xs" for j
    proof -
      have "[0..<length items] ! j = j" "items ! j = xs ! j" using that by (simp_all add: s(1) nth_append)
      with that s(3) show ?thesis by simp
    qed
  qed
  then have "driver_index items = length xs" by (simp add: driver_index_def)
  with s that show ?thesis by blast
next
  case False
  then have "List.find (\<lambda>i. \<not> rq_mergeable (items ! i)) [0..<length items] = None" by (auto simp: find_None_iff)
  then have "driver_index items = length ([] :: step_request list)" by (simp add: driver_index_def)
  moreover obtain x ys where "items = [] @ x # ys" using assms by (cases items) auto
  ultimately show ?thesis using False that [of "[]"] by auto
qed

lemma batch_parts:
  assumes "discardAborted items \<noteq> []"
  obtains xs x ys where "discardAborted items = xs @ x # ys"
    "takeNextBatch items = (Some \<lparr>rb_driver = x, rb_merged = filter rq_mergeable (xs @ ys)\<rparr>, filter (\<lambda>r. \<not> rq_mergeable r) (xs @ ys))"
    "\<forall>r\<in>set xs. rq_mergeable r" "\<not> rq_mergeable x \<or> (xs = [] \<and> (\<forall>r\<in>set (discardAborted items). rq_mergeable r))"
proof (rule driver_first [OF assms])
  fix xs x ys assume s: "discardAborted items = xs @ x # ys" "driver_index (discardAborted items) = length xs" "\<forall>r\<in>set xs. rq_mergeable r"
    "\<not> rq_mergeable x \<or> (xs = [] \<and> (\<forall>r\<in>set (discardAborted items). rq_mergeable r))"
  have "split_batch (length xs) 0 (xs @ x # ys) = (filter rq_mergeable (xs @ ys), filter (\<lambda>r. \<not> rq_mergeable r) (xs @ ys))"
    using filter_enumerate_split [of 0 xs _ x ys] by (simp add: split_batch_filter)
  then have "takeNextBatch items = (Some \<lparr>rb_driver = x, rb_merged = filter rq_mergeable (xs @ ys)\<rparr>, filter (\<lambda>r. \<not> rq_mergeable r) (xs @ ys))"
    using s(2) unfolding s(1) by (simp add: takeNextBatch_def Let_def s(1))
  with s that show ?thesis by blast
qed

subsection \<open>Draining a queue\<close>

lemma takeNextBatch_shrinks: "takeNextBatch items = (Some b, rest) \<Longrightarrow> length rest < length items"
proof -
  assume t: "takeNextBatch items = (Some b, rest)"
  then have ne: "discardAborted items \<noteq> []" by (auto simp: takeNextBatch_def Let_def)
  obtain xs x ys where s: "discardAborted items = xs @ x # ys" "rest = filter (\<lambda>r. \<not> rq_mergeable r) (xs @ ys)"
  proof (rule batch_parts [OF ne])
    fix xs x ys assume a: "discardAborted items = xs @ x # ys"
      "takeNextBatch items = (Some \<lparr>rb_driver = x, rb_merged = filter rq_mergeable (xs @ ys)\<rparr>, filter (\<lambda>r. \<not> rq_mergeable r) (xs @ ys))"
    show thesis by (rule that [OF a(1)]) (use t a(2) in \<open>simp only: prod.inject\<close>)
  qed
  have "length rest \<le> length (xs @ ys)" unfolding s(2) by (rule length_filter_le)
  also have "\<dots> < length (discardAborted items)" by (simp only: s(1)) simp
  also have "\<dots> \<le> length items" by (simp add: discardAborted_filter)
  finally show ?thesis .
qed

text \<open>The loop of the agent: one step per batch until there is none, with nothing enqueued meanwhile.\<close>

function all_batches :: "step_request list \<Rightarrow> request_batch list" where
  "all_batches items = (case takeNextBatch items of (None, rest) \<Rightarrow> [] | (Some b, rest) \<Rightarrow> b # all_batches rest)"
  by auto
termination by (relation "measure length") (auto dest!: sym [of "(Some _, _)"] takeNextBatch_shrinks)

declare all_batches.simps [simp del]

lemma all_batches_plain:
  "\<forall>r\<in>set items. \<not> rq_mergeable r \<and> \<not> request_aborted r \<Longrightarrow> all_batches items = map (\<lambda>r. \<lparr>rb_driver = r, rb_merged = []\<rparr>) items"
proof (induction items)
  case Nil
  have "takeNextBatch [] = (None, [])" by (simp add: takeNextBatch_def discardAborted_filter)
  then show ?case by (simp add: all_batches.simps)
next
  case (Cons r items)
  have d: "discardAborted (r # items) = r # items" using Cons.prems by (simp add: discardAborted_filter filter_id_conv)
  have "takeNextBatch (r # items) = (Some \<lparr>rb_driver = r, rb_merged = []\<rparr>, items)"
  proof (rule batch_parts [of "r # items"])
    show "discardAborted (r # items) \<noteq> []" unfolding d by simp
    fix xs x ys assume s: "discardAborted (r # items) = xs @ x # ys"
      "takeNextBatch (r # items) = (Some \<lparr>rb_driver = x, rb_merged = filter rq_mergeable (xs @ ys)\<rparr>, filter (\<lambda>r. \<not> rq_mergeable r) (xs @ ys))"
      "\<forall>r\<in>set xs. rq_mergeable r"
    have e: "r # items = xs @ x # ys" using s(1) d by simp
    then have "xs = []" using Cons.prems s(3) by (cases xs) auto
    then have "x = r" "ys = items" using e by auto
    then show ?thesis using s(2) \<open>xs = []\<close> Cons.prems by (simp add: filter_id_conv filter_empty_conv)
  qed
  then show ?case using Cons by (subst all_batches.simps) simp
qed

text \<open>C29: draining the queue ends, and its batches are these: aborted requests are dropped; every other request that does
  not merge drives exactly one step, in the order of the queue; all mergeable requests ride in the first step, in
  order, and drive it (the first of them) only when nothing else does.\<close>

theorem batches_drain_queue:
  "all_batches items =
     (let live = filter (\<lambda>r. \<not> request_aborted r) items; solo = filter (\<lambda>r. \<not> rq_mergeable r) live; merging = filter rq_mergeable live
      in case (solo, merging) of
           ([], []) \<Rightarrow> []
         | ([], m # ms) \<Rightarrow> [\<lparr>rb_driver = m, rb_merged = ms\<rparr>]
         | (s # ss, ms) \<Rightarrow> \<lparr>rb_driver = s, rb_merged = ms\<rparr> # map (\<lambda>r. \<lparr>rb_driver = r, rb_merged = []\<rparr>) ss)"
proof (cases "discardAborted items = []")
  case True
  then have "filter (\<lambda>r. \<not> request_aborted r) items = []" by (simp only: discardAborted_filter)
  with True show ?thesis by (subst all_batches.simps) (simp add: takeNextBatch_def Let_def)
next
  case False
  then show ?thesis
  proof (rule batch_parts)
    fix xs x ys assume s: "discardAborted items = xs @ x # ys"
      "takeNextBatch items = (Some \<lparr>rb_driver = x, rb_merged = filter rq_mergeable (xs @ ys)\<rparr>, filter (\<lambda>r. \<not> rq_mergeable r) (xs @ ys))"
      "\<forall>r\<in>set xs. rq_mergeable r" "\<not> rq_mergeable x \<or> (xs = [] \<and> (\<forall>r\<in>set (discardAborted items). rq_mergeable r))"
    let ?rest = "filter (\<lambda>r. \<not> rq_mergeable r) (xs @ ys)"
    have live: "filter (\<lambda>r. \<not> request_aborted r) items = xs @ x # ys" using s(1) by (simp only: discardAborted_filter)
    then have "\<forall>r\<in>set (xs @ x # ys). \<not> request_aborted r" by (metis (no_types, lifting) filter_eq_ConsD mem_Collect_eq set_filter)
    then have "all_batches ?rest = map (\<lambda>r. \<lparr>rb_driver = r, rb_merged = []\<rparr>) ?rest" by (intro all_batches_plain) auto
    then have all: "all_batches items = \<lparr>rb_driver = x, rb_merged = filter rq_mergeable (xs @ ys)\<rparr> # map (\<lambda>r. \<lparr>rb_driver = r, rb_merged = []\<rparr>) ?rest"
      using s(2) by (subst all_batches.simps) simp
    from s(4) show ?thesis
    proof
      assume x: "\<not> rq_mergeable x"
      have "filter (\<lambda>r. \<not> rq_mergeable r) xs = []" using s(3) by simp
      then show ?thesis using all x live by (simp add: Let_def)
    next
      assume x: "xs = [] \<and> (\<forall>r\<in>set (discardAborted items). rq_mergeable r)"
      then have m: "rq_mergeable x" "\<forall>r\<in>set ys. rq_mergeable r" using s(1) by auto
      then show ?thesis using all x live by (simp add: Let_def filter_empty_conv)
    qed
  qed
qed

end
