(* ===== verification/Lifecycle.thy ===== *)
theory Lifecycle
  imports Json
begin

section \<open>Lifecycle transitions (\<^verbatim>\<open>lifecycleMachine.ts\<close>)\<close>

text \<open>
  A state holder whose changes are guarded: a plain switch, or a transaction that holds the machine in a
  transition state while asynchronous work runs. The callback of a transaction is a sequence of calls on
  the transaction object and its outcome; cleanup actions are values, and \<open>act a\<close> is the error running
  \<open>a\<close> ends with, if any. The log lists the actions in the order they acts. Between the steps of a
  transaction other callers only find the machine busy: \<open>busy_rejects\<close>.
\<close>

datatype transition_reason = InvalidState | TransitionConflict | MissingCommitState | MissingRollbackState | AlreadyCommitted | AlreadyRolledBack

record transition_error =
  te_reason :: transition_reason
  te_operation :: js_string
  te_state :: js_string
  te_expected :: "js_string list option"
  te_activeOperation :: "js_string option"

text \<open>An error of a callback or an action is opaque; the aggregate has its message.\<close>

datatype 'e lifecycle_error = TransitionError transition_error | CallbackError 'e | Aggregate "'e lifecycle_error list" js_string

text \<open>The message of a transition error; an absent \<open>activeOperation\<close> prints as \<^verbatim>\<open>undefined\<close>.\<close>

definition formatTransitionError :: "transition_error \<Rightarrow> js_string" where
  "formatTransitionError e = (case te_reason e of
       InvalidState \<Rightarrow> js ''Lifecycle operation \"'' @ te_operation e @ js ''\" is not allowed from state \"'' @ te_state e @ js ''\"''
     | TransitionConflict \<Rightarrow> js ''Lifecycle operation \"'' @ te_operation e @ js ''\" conflicts with active operation \"''
         @ (case te_activeOperation e of None \<Rightarrow> js ''undefined'' | Some a \<Rightarrow> a) @ js ''\"''
     | MissingCommitState \<Rightarrow> js ''Lifecycle operation \"'' @ te_operation e @ js ''\" did not select a commit state''
     | MissingRollbackState \<Rightarrow> js ''Lifecycle operation \"'' @ te_operation e @ js ''\" did not select a rollback state''
     | AlreadyCommitted \<Rightarrow> js ''Lifecycle operation \"'' @ te_operation e @ js ''\" already selected a commit state''
     | AlreadyRolledBack \<Rightarrow> js ''Lifecycle operation \"'' @ te_operation e @ js ''\" already selected a rollback state'')"

subsection \<open>The machine\<close>

record lifecycle =
  lm_state :: js_string
  lm_active :: "js_string option"

record lifecycle_snapshot =
  ls_state :: js_string
  ls_transitioning :: bool
  ls_operation :: "js_string option"

definition new_lifecycle :: "js_string \<Rightarrow> lifecycle" where
  "new_lifecycle initial = \<lparr>lm_state = initial, lm_active = None\<rparr>"

definition lm_snapshot :: "lifecycle \<Rightarrow> lifecycle_snapshot" where
  "lm_snapshot m = (case lm_active m of
       None \<Rightarrow> \<lparr>ls_state = lm_state m, ls_transitioning = False, ls_operation = None\<rparr>
     | Some operation \<Rightarrow> \<lparr>ls_state = lm_state m, ls_transitioning = True, ls_operation = Some operation\<rparr>)"

definition lm_is :: "js_string list \<Rightarrow> lifecycle \<Rightarrow> bool" where
  "lm_is states m \<longleftrightarrow> lm_state m \<in> set states"

definition createError :: "js_string \<Rightarrow> transition_reason \<Rightarrow> js_string list option \<Rightarrow> js_string option \<Rightarrow> lifecycle \<Rightarrow> 'e lifecycle_error" where
  "createError operation reason expected active m =
     TransitionError \<lparr>te_reason = reason, te_operation = operation, te_state = lm_state m, te_expected = expected, te_activeOperation = active\<rparr>"

definition assertIdle :: "js_string \<Rightarrow> lifecycle \<Rightarrow> ('e lifecycle_error, unit) res" where
  "assertIdle operation m =
     (case lm_active m of None \<Rightarrow> Inr () | Some active \<Rightarrow> Inl (createError operation TransitionConflict None (Some active) m))"

definition assertState :: "js_string \<Rightarrow> js_string list \<Rightarrow> lifecycle \<Rightarrow> ('e lifecycle_error, unit) res" where
  "assertState operation expected m =
     (if lm_state m \<in> set expected then Inr () else Inl (createError operation InvalidState (Some expected) None m))"

definition lm_switch :: "js_string \<Rightarrow> js_string list \<Rightarrow> js_string \<Rightarrow> lifecycle \<Rightarrow> ('e lifecycle_error, unit) res \<times> lifecycle" where
  "lm_switch operation from' to' m =
     (case bind_res (assertIdle operation m) (\<lambda>_. assertState operation from' m) of
        Inl e \<Rightarrow> (Inl e, m)
      | Inr u \<Rightarrow> (Inr (), m\<lparr>lm_state := to'\<rparr>))"

subsection \<open>Transactions\<close>

record transaction_options =
  to_operation :: js_string
  to_from :: "js_string list"
  to_enter :: js_string
  to_commit :: "js_string option"
  to_rollback :: "js_string option"

record 'a transaction =
  tx_deferred :: "'a list"
  tx_rollbacks :: "'a list"
  tx_afterCommit :: "'a list"
  tx_commitState :: "js_string option"
  tx_rollbackState :: "js_string option"
  tx_commitSelected :: bool
  tx_rollbackSelected :: bool

datatype 'a tx_call = Defer 'a | Rollback 'a | AfterCommit 'a | Commit js_string | RollbackTo js_string

definition new_transaction :: "transaction_options \<Rightarrow> 'a transaction" where
  "new_transaction opts = \<lparr>tx_deferred = [], tx_rollbacks = [], tx_afterCommit = [], tx_commitState = to_commit opts,
     tx_rollbackState = to_rollback opts, tx_commitSelected = False, tx_rollbackSelected = False\<rparr>"

fun tx_do :: "js_string \<Rightarrow> lifecycle \<Rightarrow> 'a tx_call \<Rightarrow> 'a transaction \<Rightarrow> ('e lifecycle_error, 'a transaction) res" where
  "tx_do operation m (Defer a) tx = Inr (tx\<lparr>tx_deferred := tx_deferred tx @ [a]\<rparr>)"
| "tx_do operation m (Rollback a) tx = Inr (tx\<lparr>tx_rollbacks := tx_rollbacks tx @ [a]\<rparr>)"
| "tx_do operation m (AfterCommit a) tx = Inr (tx\<lparr>tx_afterCommit := tx_afterCommit tx @ [a]\<rparr>)"
| "tx_do operation m (Commit s) tx =
     (if tx_commitSelected tx then Inl (createError operation AlreadyCommitted None None m)
      else Inr (tx\<lparr>tx_commitSelected := True, tx_commitState := Some s\<rparr>))"
| "tx_do operation m (RollbackTo s) tx =
     (if tx_rollbackSelected tx then Inl (createError operation AlreadyRolledBack None None m)
      else Inr (tx\<lparr>tx_rollbackSelected := True, tx_rollbackState := Some s\<rparr>))"

text \<open>The callback: its calls up to the first that throws, then its own outcome.\<close>

fun run_callback :: "js_string \<Rightarrow> lifecycle \<Rightarrow> 'a tx_call list \<Rightarrow> 'e + 'r \<Rightarrow> 'a transaction
    \<Rightarrow> ('e lifecycle_error, 'r) res \<times> 'a transaction" where
  "run_callback operation m [] outcome tx = ((case outcome of Inl e \<Rightarrow> Inl (CallbackError e) | Inr r \<Rightarrow> Inr r), tx)"
| "run_callback operation m (c # cs) outcome tx =
     (case tx_do operation m c tx of Inl e \<Rightarrow> (Inl e, tx) | Inr tx' \<Rightarrow> run_callback operation m cs outcome tx')"

text \<open>\<^verbatim>\<open>runActions\<close> runs all actions, last first, and collects their errors.\<close>

definition runActions :: "('a \<Rightarrow> 'e option) \<Rightarrow> 'a list \<Rightarrow> 'e lifecycle_error list" where
  "runActions act actions = map CallbackError (List.map_filter act (rev actions))"

definition aggregateErrors :: "js_string \<Rightarrow> 'e lifecycle_error list \<Rightarrow> 'e lifecycle_error" where
  "aggregateErrors message errors = (case errors of [e] \<Rightarrow> e | _ \<Rightarrow> Aggregate errors message)"

definition fail_transaction :: "('a \<Rightarrow> 'e option) \<Rightarrow> transaction_options \<Rightarrow> 'e lifecycle_error \<Rightarrow> 'a transaction \<Rightarrow> lifecycle
    \<Rightarrow> ('e lifecycle_error, 'r) res \<times> lifecycle \<times> 'a list" where
  "fail_transaction act opts e tx m =
     (let errors = e # runActions act (tx_rollbacks tx) @ runActions act (tx_deferred tx);
          acts = rev (tx_rollbacks tx) @ rev (tx_deferred tx);
          message = js ''Lifecycle transaction \"'' @ to_operation opts @ js ''\" failed''
      in case tx_rollbackState tx of
           None \<Rightarrow> (Inl (aggregateErrors message (errors @ [createError (to_operation opts) MissingRollbackState None None m])),
                    m\<lparr>lm_active := None\<rparr>, acts)
         | Some s \<Rightarrow> (Inl (aggregateErrors message errors), m\<lparr>lm_state := s, lm_active := None\<rparr>, acts))"

definition commit_transaction :: "('a \<Rightarrow> 'e option) \<Rightarrow> transaction_options \<Rightarrow> 'r \<Rightarrow> 'a transaction \<Rightarrow> lifecycle
    \<Rightarrow> ('e lifecycle_error, 'r) res \<times> lifecycle \<times> 'a list" where
  "commit_transaction act opts r tx m =
     (case tx_commitState tx of
        None \<Rightarrow> (Inl (createError (to_operation opts) MissingCommitState None None m), m\<lparr>lm_active := None\<rparr>, [])
      | Some s \<Rightarrow>
          let errors = runActions act (tx_deferred tx) @ runActions act (tx_afterCommit tx);
              message = js ''Lifecycle transaction \"'' @ to_operation opts @ js ''\" committed with action failures''
          in ((if errors \<noteq> [] then Inl (aggregateErrors message errors) else Inr r), m\<lparr>lm_state := s, lm_active := None\<rparr>,
              rev (tx_deferred tx) @ rev (tx_afterCommit tx)))"

definition lm_begin :: "transaction_options \<Rightarrow> lifecycle \<Rightarrow> ('e lifecycle_error, unit) res \<times> lifecycle" where
  "lm_begin opts m =
     (case bind_res (assertIdle (to_operation opts) m) (\<lambda>_. assertState (to_operation opts) (to_from opts) m) of
        Inl e \<Rightarrow> (Inl e, m)
      | Inr u \<Rightarrow> (Inr (), m\<lparr>lm_active := Some (to_operation opts), lm_state := to_enter opts\<rparr>))"

definition lm_transaction :: "('a \<Rightarrow> 'e option) \<Rightarrow> transaction_options \<Rightarrow> 'a tx_call list \<Rightarrow> 'e + 'r \<Rightarrow> lifecycle
    \<Rightarrow> ('e lifecycle_error, 'r) res \<times> lifecycle \<times> 'a list" where
  "lm_transaction act opts calls outcome m =
     (case lm_begin opts m of
        (Inl e, m') \<Rightarrow> (Inl e, m', [])
      | (Inr u, m') \<Rightarrow>
          (case run_callback (to_operation opts) m' calls outcome (new_transaction opts) of
             (Inl e, tx) \<Rightarrow> fail_transaction act opts e tx m'
           | (Inr r, tx) \<Rightarrow> commit_transaction act opts r tx m'))"

subsection \<open>What a transaction leaves behind\<close>

lemma busy_rejects:
  assumes "lm_active m = Some active"
  shows "fst (lm_switch operation from' to' m) = Inl (createError operation TransitionConflict None (Some active) m)"
    "snd (lm_switch operation from' to' m) = m"
    "lm_transaction act opts calls outcome m = (Inl (createError (to_operation opts) TransitionConflict None (Some active) m), m, [])"
  using assms by (simp_all add: lm_switch_def lm_transaction_def lm_begin_def assertIdle_def)

definition deferred_of :: "'a tx_call list \<Rightarrow> 'a list" where
  "deferred_of calls = List.map_filter (\<lambda>c. case c of Defer a \<Rightarrow> Some a | _ \<Rightarrow> None) calls"

definition rollbacks_of :: "'a tx_call list \<Rightarrow> 'a list" where
  "rollbacks_of calls = List.map_filter (\<lambda>c. case c of Rollback a \<Rightarrow> Some a | _ \<Rightarrow> None) calls"

definition afterCommit_of :: "'a tx_call list \<Rightarrow> 'a list" where
  "afterCommit_of calls = List.map_filter (\<lambda>c. case c of AfterCommit a \<Rightarrow> Some a | _ \<Rightarrow> None) calls"

definition commits_of :: "'a tx_call list \<Rightarrow> js_string list" where
  "commits_of calls = List.map_filter (\<lambda>c. case c of Commit s \<Rightarrow> Some s | _ \<Rightarrow> None) calls"

definition rollback_targets :: "'a tx_call list \<Rightarrow> js_string list" where
  "rollback_targets calls = List.map_filter (\<lambda>c. case c of RollbackTo s \<Rightarrow> Some s | _ \<Rightarrow> None) calls"

definition choice :: "'s list \<Rightarrow> 's option \<Rightarrow> 's option" where
  "choice xs d = (case xs of [] \<Rightarrow> d | x # _ \<Rightarrow> Some x)"

lemma calls_of_simps [simp]:
  "deferred_of [] = []" "rollbacks_of [] = []" "afterCommit_of [] = []" "commits_of [] = []" "rollback_targets [] = []"
  "deferred_of (c # cs) = (case c of Defer a \<Rightarrow> [a] | _ \<Rightarrow> []) @ deferred_of cs"
  "rollbacks_of (c # cs) = (case c of Rollback a \<Rightarrow> [a] | _ \<Rightarrow> []) @ rollbacks_of cs"
  "afterCommit_of (c # cs) = (case c of AfterCommit a \<Rightarrow> [a] | _ \<Rightarrow> []) @ afterCommit_of cs"
  "commits_of (c # cs) = (case c of Commit s \<Rightarrow> [s] | _ \<Rightarrow> []) @ commits_of cs"
  "rollback_targets (c # cs) = (case c of RollbackTo s \<Rightarrow> [s] | _ \<Rightarrow> []) @ rollback_targets cs"
  "choice [] d = d" "choice (s # ss) d = Some s"
  by (simp_all add: deferred_of_def rollbacks_of_def afterCommit_of_def commits_of_def rollback_targets_def choice_def
      List.map_filter_simps split: tx_call.split)

text \<open>The calls that take effect: all of them, or those before the second choice of a state.\<close>

fun effective_calls :: "bool \<Rightarrow> bool \<Rightarrow> 'a tx_call list \<Rightarrow> 'a tx_call list" where
  "effective_calls c r [] = []"
| "effective_calls c r (Commit s # cs) = (if c then [] else Commit s # effective_calls True r cs)"
| "effective_calls c r (RollbackTo s # cs) = (if r then [] else RollbackTo s # effective_calls c True cs)"
| "effective_calls c r (x # cs) = x # effective_calls c r cs"

definition callback_value :: "'a tx_call list \<Rightarrow> 'a tx_call list \<Rightarrow> 'e + 'r \<Rightarrow> 'r option" where
  "callback_value es calls outcome = (if es = calls then (case outcome of Inl e \<Rightarrow> None | Inr v \<Rightarrow> Some v) else None)"

lemma callback_value_Some: "callback_value es calls outcome = Some v \<longleftrightarrow> es = calls \<and> outcome = Inr v"
  by (simp add: callback_value_def split: sum.split)

lemma run_callback_tx:
  fixes tx :: "'c transaction" and outcome :: "'b + 'r"
  shows "\<exists>res tx'. run_callback operation m calls outcome tx = (res, tx') \<and>
     (let es = effective_calls (tx_commitSelected tx) (tx_rollbackSelected tx) calls
      in tx_deferred tx' = tx_deferred tx @ deferred_of es \<and> tx_rollbacks tx' = tx_rollbacks tx @ rollbacks_of es
         \<and> tx_afterCommit tx' = tx_afterCommit tx @ afterCommit_of es
         \<and> (\<not> tx_commitSelected tx \<longrightarrow> tx_commitState tx' = choice (commits_of es) (tx_commitState tx))
         \<and> (tx_commitSelected tx \<longrightarrow> tx_commitState tx' = tx_commitState tx)
         \<and> (\<not> tx_rollbackSelected tx \<longrightarrow> tx_rollbackState tx' = choice (rollback_targets es) (tx_rollbackState tx))
         \<and> (tx_rollbackSelected tx \<longrightarrow> tx_rollbackState tx' = tx_rollbackState tx)
         \<and> (\<forall>v. res = Inr v \<longleftrightarrow> callback_value es calls outcome = Some v))"
proof (induction calls arbitrary: tx)
  case Nil
  then show ?case by (cases outcome) (simp_all add: Let_def callback_value_def)
next
  case (Cons c cs)
  show ?case
  proof (cases "tx_do operation m c tx :: ('b lifecycle_error, 'c transaction) res")
    case (Inl e)
    then show ?thesis by (cases c) (auto simp: Let_def callback_value_Some split: if_splits)
  next
    case (Inr tx1)
    then show ?thesis using Cons.IH [of tx1] by (cases c) (auto simp: Let_def callback_value_Some split: if_splits)
  qed
qed

lemma runActions_Nil: "runActions act xs = [] \<longleftrightarrow> (\<forall>a\<in>set xs. act a = None)"
  by (auto simp: runActions_def List.map_filter_def filter_empty_conv)

lemma lm_begin_idle:
  assumes "lm_active m = None" "lm_state m \<in> set (to_from opts)"
  shows "lm_begin opts m = (Inr (), m\<lparr>lm_active := Some (to_operation opts), lm_state := to_enter opts\<rparr>)"
  using assms by (simp add: lm_begin_def assertIdle_def assertState_def)

text \<open>C30: what a lifecycle transaction that starts leaves behind, in every case: the machine is idle again;
  if the callback succeeds, its commit choice (or the options' commit state) becomes the state, the deferred
  actions then the after-commit actions have each run once, last first, and the caller gets the callback's
  value unless an action failed; without a commit state the machine stays in the transition state and no
  action runs; if the callback fails, the rollback actions then the deferred actions have each run once, no
  after-commit action runs, the rollback choice becomes the state and the caller gets an error.\<close>

theorem transaction_outcome:
  fixes r :: "('e lifecycle_error, 'r) res"
  assumes "lm_active m = None" "lm_state m \<in> set (to_from opts)"
    "lm_transaction act opts calls outcome m = (r, m', acts)"
    "es = effective_calls False False calls"
  shows "lm_active m' = None \<and>
    (case callback_value es calls outcome of
       Some v \<Rightarrow> (case choice (commits_of es) (to_commit opts) of
           None \<Rightarrow> lm_state m' = to_enter opts \<and> acts = [] \<and> (\<exists>e. r = Inl e)
         | Some s \<Rightarrow> lm_state m' = s \<and> acts = rev (deferred_of es) @ rev (afterCommit_of es)
             \<and> (if \<forall>a\<in>set acts. act a = None then r = Inr v else \<exists>e. r = Inl e))
     | None \<Rightarrow> acts = rev (rollbacks_of es) @ rev (deferred_of es) \<and> (\<exists>e. r = Inl e)
         \<and> lm_state m' = (case choice (rollback_targets es) (to_rollback opts) of None \<Rightarrow> to_enter opts | Some s \<Rightarrow> s))"
proof -
  let ?m = "m\<lparr>lm_active := Some (to_operation opts), lm_state := to_enter opts\<rparr>"
  obtain res tx where run: "run_callback (to_operation opts) ?m calls outcome (new_transaction opts) = (res :: ('e lifecycle_error, 'r) res, tx)"
    and tx: "tx_deferred tx = deferred_of es" "tx_rollbacks tx = rollbacks_of es" "tx_afterCommit tx = afterCommit_of es"
      "tx_commitState tx = choice (commits_of es) (to_commit opts)" "tx_rollbackState tx = choice (rollback_targets es) (to_rollback opts)"
    and res: "\<And>v. res = Inr v \<longleftrightarrow> callback_value es calls outcome = Some v"
    using run_callback_tx [of "to_operation opts" ?m calls outcome "new_transaction opts"] assms(4)
    by (auto simp: new_transaction_def Let_def)
  have lm: "(case res of Inl e \<Rightarrow> fail_transaction act opts e tx ?m | Inr v \<Rightarrow> commit_transaction act opts v tx ?m) = (r, m', acts)"
    using assms(3) by (simp add: lm_transaction_def lm_begin_idle [OF assms(1,2)] run split: sum.splits)
  show ?thesis
  proof (cases res)
    case (Inl e)
    then have "callback_value es calls outcome = None" using res by (cases "callback_value es calls outcome") auto
    then show ?thesis using lm Inl tx by (auto simp: fail_transaction_def Let_def split: option.splits)
  next
    case (Inr v)
    then have "callback_value es calls outcome = Some v" using res by blast
    then show ?thesis using lm Inr tx
      by (auto simp: commit_transaction_def Let_def runActions_Nil split: option.splits if_splits)
  qed
qed

lemma transaction_outcome_witness:
  "fst (snd (lm_transaction (\<lambda>a. None :: nat option) \<lparr>to_operation = [1], to_from = [[2]], to_enter = [3], to_commit = None, to_rollback = Some [5]\<rparr>
       [Defer (7::nat), Commit [4], AfterCommit 8] (Inr ()) \<lparr>lm_state = [2], lm_active = None\<rparr>)) = \<lparr>lm_state = [4], lm_active = None\<rparr>"
proof -
  let ?opts = "\<lparr>to_operation = [1], to_from = [[2]], to_enter = [3], to_commit = None, to_rollback = Some [5]\<rparr>"
  obtain r m' acts where run: "lm_transaction (\<lambda>a. None :: nat option) ?opts [Defer (7::nat), Commit [4], AfterCommit 8] (Inr ()) \<lparr>lm_state = [2], lm_active = None\<rparr> = (r, m', acts)"
    by (meson prod_cases3)
  have "lm_active m' = None \<and> lm_state m' = [4]"
    using transaction_outcome [OF _ _ run refl] by (simp add: callback_value_def)
  then show ?thesis by (simp add: run)
qed

end
