(* ===== verification/Message.thy ===== *)
theory Message
  imports Json
begin

section \<open>Messages and token estimates (\<^verbatim>\<open>message.ts\<close>, \<^verbatim>\<open>tokens.ts\<close>, \<^verbatim>\<open>contextMemory/types.ts\<close>)\<close>

text \<open>
  The wire messages of a conversation, the stored messages that extend them, and the size estimates that
  budgets are computed from. A message object is a value: the cache of estimates keyed by the object is not
  observable and is left out. JSON numbers are integers, as in \<open>Json\<close>.
\<close>

subsection \<open>Text\<close>

text \<open>The white space and line terminators \<^verbatim>\<open>trim\<close> removes.\<close>

definition is_space :: "16 word \<Rightarrow> bool" where
  "is_space u \<longleftrightarrow> u \<in> {9, 10, 11, 12, 13, 32, 0xA0, 0x1680, 0x2000, 0x2001, 0x2002, 0x2003, 0x2004, 0x2005, 0x2006, 0x2007,
     0x2008, 0x2009, 0x200A, 0x2028, 0x2029, 0x202F, 0x205F, 0x3000, 0xFEFF}"

definition trim :: "js_string \<Rightarrow> js_string" where
  "trim s = rev (dropWhile is_space (rev (dropWhile is_space s)))"

lemma trim_Nil: "trim s = [] \<longleftrightarrow> list_all is_space s"
proof -
  have "trim s = [] \<longleftrightarrow> (\<forall>u\<in>set (dropWhile is_space s). is_space u)" by (simp add: trim_def dropWhile_eq_Nil_conv)
  also have "\<dots> \<longleftrightarrow> dropWhile is_space s = []"
    using hd_dropWhile [of is_space s] by (cases "dropWhile is_space s") (auto dest: set_dropWhileD simp: dropWhile_eq_Nil_conv)
  finally show ?thesis by (simp add: dropWhile_eq_Nil_conv list_all_iff)
qed

text \<open>Iterating over a string takes a surrogate pair as one character.\<close>

fun chars_of :: "js_string \<Rightarrow> js_string list" where
  "chars_of [] = []"
| "chars_of [u] = [[u]]"
| "chars_of (u # v # us) = (if is_high u \<and> is_low v then [u, v] # chars_of us else [u] # chars_of (v # us))"

lemma concat_chars [simp]: "concat (chars_of s) = s"
  by (induction s rule: chars_of.induct) auto

text \<open>\<^verbatim>\<open>JSON.stringify\<close> of a value.\<close>

fun json_text :: "json \<Rightarrow> js_string"
  and json_items :: "json list \<Rightarrow> js_string list"
  and json_members :: "(js_string \<times> json) list \<Rightarrow> js_string list" where
  "json_text JNull = js ''null''"
| "json_text (JBool b) = bool_text b"
| "json_text (JNum n) = int_text n"
| "json_text (JStr s) = quote s"
| "json_text (JArr xs) = 91 # join_with [44] (json_items xs) @ [93]"
| "json_text (JObj ms) = 123 # join_with [44] (json_members ms) @ [125]"
| "json_items [] = []"
| "json_items (x # xs) = json_text x # json_items xs"
| "json_members [] = []"
| "json_members ((k, v) # ms) = (quote k @ [58] @ json_text v) # json_members ms"

subsection \<open>Wire messages\<close>

datatype role = RSystem | RUser | RAssistant | RTool

datatype content_part =
    TextPart js_string
  | ThinkPart js_string "js_string option"
  | ImageURLPart js_string "js_string option"
  | AudioURLPart js_string "js_string option"
  | VideoURLPart js_string "js_string option"

datatype stream_index = IndexNumber int | IndexString js_string

record tool_call =
  tc_id :: js_string
  tc_name :: js_string
  tc_arguments :: "js_string option"
  tc_extras :: "json option"
  tc_streamIndex :: "stream_index option"

datatype streamed_part = Content content_part | Call tool_call | CallPart "js_string option" "stream_index option"

record tool =
  tool_name :: js_string
  tool_description :: js_string
  tool_parameters :: json
  tool_deferred :: bool

record message =
  msg_role :: role
  msg_name :: "js_string option"
  msg_content :: "content_part list"
  msg_toolCalls :: "tool_call list"
  msg_toolCallId :: "js_string option"
  msg_partial :: "bool option"
  msg_tools :: "tool list option"

definition isContentPart :: "streamed_part \<Rightarrow> bool" where
  "isContentPart part \<longleftrightarrow> (case part of Content c \<Rightarrow> True | Call c \<Rightarrow> False | CallPart a i \<Rightarrow> False)"

definition isToolCall :: "streamed_part \<Rightarrow> bool" where
  "isToolCall part \<longleftrightarrow> (case part of Call c \<Rightarrow> True | _ \<Rightarrow> False)"

definition isToolCallPart :: "streamed_part \<Rightarrow> bool" where
  "isToolCallPart part \<longleftrightarrow> (case part of CallPart a i \<Rightarrow> True | _ \<Rightarrow> False)"

definition isToolDeclarationOnlyMessage :: "'a message_scheme \<Rightarrow> bool" where
  "isToolDeclarationOnlyMessage m \<longleftrightarrow>
     (case msg_tools m of None \<Rightarrow> False | Some ts \<Rightarrow> length ts > 0 \<and> length (msg_content m) = 0 \<and> length (msg_toolCalls m) = 0)"

text \<open>Folding a streamed delta into the pending part: the changed target and whether it took the delta.\<close>

fun mergeInPlace :: "streamed_part \<Rightarrow> streamed_part \<Rightarrow> bool \<times> streamed_part" where
  "mergeInPlace (Content (TextPart t)) (Content (TextPart s)) = (True, Content (TextPart (t @ s)))"
| "mergeInPlace (Content (ThinkPart t enc)) (Content (ThinkPart s enc')) =
     (if enc \<noteq> None then (False, Content (ThinkPart t enc))
      else (True, Content (ThinkPart (t @ s) enc')))"
| "mergeInPlace (Call c) (CallPart a i) =
     (True, Call (case a of None \<Rightarrow> c | Some s \<Rightarrow>
        c\<lparr>tc_arguments := Some (case tc_arguments c of None \<Rightarrow> s | Some t \<Rightarrow> t @ s)\<rparr>))"
| "mergeInPlace target source = (False, target)"

definition texts_of :: "content_part list \<Rightarrow> js_string list" where
  "texts_of parts = List.map_filter (\<lambda>p. case p of TextPart t \<Rightarrow> Some t | _ \<Rightarrow> None) parts"

definition extractText :: "'a message_scheme \<Rightarrow> js_string \<Rightarrow> js_string" where
  "extractText m sep = join_with sep (texts_of (msg_content m))"

definition getTextContent :: "'a message_scheme \<Rightarrow> js_string" where
  "getTextContent m = extractText m []"

definition createUserMessage :: "js_string \<Rightarrow> message" where
  "createUserMessage content = \<lparr>msg_role = RUser, msg_name = None, msg_content = [TextPart content], msg_toolCalls = [],
     msg_toolCallId = None, msg_partial = None, msg_tools = None\<rparr>"

definition createAssistantMessage :: "content_part list \<Rightarrow> tool_call list option \<Rightarrow> message" where
  "createAssistantMessage content toolCalls = \<lparr>msg_role = RAssistant, msg_name = None, msg_content = content,
     msg_toolCalls = (case toolCalls of None \<Rightarrow> [] | Some cs \<Rightarrow> cs), msg_toolCallId = None, msg_partial = None, msg_tools = None\<rparr>"

text \<open>The output of a tool is a string or content parts.\<close>

datatype tool_output = OutText js_string | OutParts "content_part list"

definition createToolMessage :: "js_string \<Rightarrow> tool_output \<Rightarrow> message" where
  "createToolMessage toolCallId out = \<lparr>msg_role = RTool, msg_name = None,
     msg_content = (case out of OutText s \<Rightarrow> [TextPart s] | OutParts ps \<Rightarrow> ps), msg_toolCalls = [],
     msg_toolCallId = Some toolCallId, msg_partial = None, msg_tools = None\<rparr>"

subsection \<open>Token estimates\<close>

definition is_ascii_char :: "js_string \<Rightarrow> bool" where
  "is_ascii_char c \<longleftrightarrow> (case c of [u] \<Rightarrow> u \<le> 127 | _ \<Rightarrow> False)"

text \<open>\<open>ceil (n / 4)\<close> on natural numbers.\<close>

definition quarter_up :: "nat \<Rightarrow> nat" where
  "quarter_up n = (n + 3) div 4"

definition count_tokens :: "js_string list \<Rightarrow> nat" where
  "count_tokens cs = quarter_up (length (filter is_ascii_char cs)) + length (filter (\<lambda>c. \<not> is_ascii_char c) cs)"

definition estimateTokens :: "js_string \<Rightarrow> nat" where
  "estimateTokens s = count_tokens (chars_of s)"

definition MEDIA_TOKEN_ESTIMATE :: nat where "MEDIA_TOKEN_ESTIMATE = 2000"

fun estimateTokensForContentPart :: "content_part \<Rightarrow> nat" where
  "estimateTokensForContentPart (TextPart t) = estimateTokens t"
| "estimateTokensForContentPart (ThinkPart t enc) = estimateTokens t"
| "estimateTokensForContentPart (ImageURLPart url i) = MEDIA_TOKEN_ESTIMATE"
| "estimateTokensForContentPart (AudioURLPart url i) = MEDIA_TOKEN_ESTIMATE"
| "estimateTokensForContentPart (VideoURLPart url i) = MEDIA_TOKEN_ESTIMATE"

definition estimateTokensForContentParts :: "content_part list \<Rightarrow> nat" where
  "estimateTokensForContentParts parts = sum_list (map estimateTokensForContentPart parts)"

definition role_text :: "role \<Rightarrow> js_string" where
  "role_text r = (case r of RSystem \<Rightarrow> js ''system'' | RUser \<Rightarrow> js ''user'' | RAssistant \<Rightarrow> js ''assistant'' | RTool \<Rightarrow> js ''tool'')"

text \<open>The arguments of a call are a string, which is stringified once more, or \<open>null\<close>.\<close>

definition call_tokens :: "tool_call \<Rightarrow> nat" where
  "call_tokens c = estimateTokens (tc_name c) + estimateTokens (case tc_arguments c of None \<Rightarrow> js ''null'' | Some a \<Rightarrow> quote a)"

definition estimateTokensForMessage :: "'a message_scheme \<Rightarrow> nat" where
  "estimateTokensForMessage m = estimateTokens (role_text (msg_role m)) + estimateTokensForContentParts (msg_content m)
     + sum_list (map call_tokens (msg_toolCalls m))"

definition estimateTokensForMessages :: "'a message_scheme list \<Rightarrow> nat" where
  "estimateTokensForMessages ms = sum_list (map estimateTokensForMessage ms)"

definition estimateTokensForTools :: "tool list \<Rightarrow> nat" where
  "estimateTokensForTools ts =
     sum_list (map (\<lambda>t. estimateTokens (tool_name t) + estimateTokens (tool_description t) + estimateTokens (json_text (tool_parameters t))) ts)"

subsection \<open>Stored messages\<close>

datatype skill_source = SkillProject | SkillUser | SkillExtra | SkillBuiltin
datatype skill_trigger = UserSlash | ModelTool | NestedSkill
datatype shell_phase = ShellInput | ShellOutput
datatype task_status = TaskRunning | TaskCompleted | TaskFailed | TaskTimedOut | TaskKilled | TaskLost

datatype prompt_origin =
    OUser
  | OSkillActivation (oActivation: js_string) (oName: js_string) (oArgs: "js_string option") (oTrigger: skill_trigger)
      (oSkillType: "js_string option") (oSkillPath: "js_string option") (oSkillSource: "skill_source option")
  | OPluginCommand (oActivation: js_string) (oPlugin: js_string) (oName: js_string) (oArgs: "js_string option")
  | OInjection (oVariant: js_string) (oOwner: "js_string option")
  | OShellCommand (oPhase: shell_phase) (oIsError: "bool option")
  | OCompactionSummary
  | OSystemTrigger (oName: js_string)
  | OTask (oTaskId: js_string) (oStatus: task_status) (oNotification: js_string)
  | OCronJob (oJobId: js_string) (oCron: js_string) (oRecurring: bool) (oCoalesced: int) (oStale: bool)
  | OCronMissed (oCount: int)
  | OHookResult (oEvent: js_string) (oBlocked: "bool option")
  | ORetry (oRetryTrigger: "js_string option")

record context_message = message +
  cm_id :: "js_string option"
  cm_providerMessageId :: "js_string option"
  cm_origin :: "prompt_origin option"
  cm_isError :: "bool option"
  cm_note :: "js_string option"

text \<open>A wire message as a stored one: the added fields are absent.\<close>

definition stored :: "message \<Rightarrow> context_message" where
  "stored m = message.extend m \<lparr>cm_id = None, cm_providerMessageId = None, cm_origin = None, cm_isError = None, cm_note = None\<rparr>"

lemma stored_simps [simp]:
  "msg_role (stored m) = msg_role m" "msg_content (stored m) = msg_content m" "msg_toolCalls (stored m) = msg_toolCalls m"
  "msg_toolCallId (stored m) = msg_toolCallId m" "msg_partial (stored m) = msg_partial m" "msg_tools (stored m) = msg_tools m"
  "msg_name (stored m) = msg_name m" "cm_origin (stored m) = None" "cm_isError (stored m) = None" "cm_note (stored m) = None"
  "cm_id (stored m) = None" "cm_providerMessageId (stored m) = None"
  by (simp_all add: stored_def message.defs)

subsection \<open>Content that carries nothing (\<^verbatim>\<open>vacuousContent.ts\<close>)\<close>

fun isVacuousContentPart :: "content_part \<Rightarrow> bool" where
  "isVacuousContentPart (TextPart t) = (trim t = [])"
| "isVacuousContentPart (ThinkPart t enc) = (enc = None \<and> trim t = [])"
| "isVacuousContentPart _ = False"

end
