(* ===== verification/LoopFold.thy ===== *)
theory LoopFold
  imports Message
begin

section \<open>Folding loop events into the history (\<^verbatim>\<open>loopEventFold.ts\<close>)\<close>

text \<open>
  The agent loop records each step as events, and the fold turns them into assistant and tool messages, live and
  on replay alike. The fold's state travels with the history it belongs to (in the code a weak map from the
  current array): the open step, the calls without a result, in insertion order, and the messages held back
  while a tool exchange is open. Fields of the events that the fold does not read (turn and step numbers, timing,
  usage) are left out.
\<close>

record result_fact =
  rf_output :: tool_output
  rf_isError :: "bool option"
  rf_note :: "js_string option"

datatype loop_event =
    StepBegin js_string
  | StepEnd js_string
  | ContentPart js_string content_part
  | ToolCallEvent js_string js_string js_string "json option" "json option"
  | ToolResultEvent js_string result_fact

record fold_state =
  fs_messages :: "context_message list"
  fs_openStep :: "js_string option"
  fs_pending :: "js_string list"
  fs_deferred :: "context_message list"

definition TOOL_INTERRUPTED_ON_RESUME_OUTPUT :: js_string where
  "TOOL_INTERRUPTED_ON_RESUME_OUTPUT =
     js ''Tool execution was interrupted before its result was recorded. Do not assume the tool completed successfully.''"

definition resetFold :: "context_message list \<Rightarrow> fold_state" where
  "resetFold ms = \<lparr>fs_messages = ms, fs_openStep = None, fs_pending = [], fs_deferred = []\<rparr>"

definition foldAppendMessage :: "context_message \<Rightarrow> fold_state \<Rightarrow> fold_state" where
  "foldAppendMessage m st =
     (if length (fs_pending st) > 0 then st\<lparr>fs_deferred := fs_deferred st @ [m]\<rparr>
      else st\<lparr>fs_messages := fs_messages st @ [m]\<rparr>)"

definition interruptedToolMessage :: "js_string \<Rightarrow> context_message" where
  "interruptedToolMessage i = (stored (createToolMessage i (OutText TOOL_INTERRUPTED_ON_RESUME_OUTPUT)))\<lparr>cm_isError := Some True\<rparr>"

definition flushDeferred :: "fold_state \<Rightarrow> fold_state" where
  "flushDeferred st =
     (if length (fs_pending st) > 0 \<or> length (fs_deferred st) = 0 then st
      else st\<lparr>fs_messages := fs_messages st @ fs_deferred st, fs_deferred := []\<rparr>)"

definition closePending :: "fold_state \<Rightarrow> fold_state" where
  "closePending st =
     (if length (fs_pending st) = 0 then st
      else flushDeferred (st\<lparr>fs_messages := fs_messages st @ map interruptedToolMessage (fs_pending st), fs_pending := []\<rparr>))"

text \<open>The loop from the end: the index of the last partial message below \<open>n\<close>.\<close>

fun find_open :: "context_message list \<Rightarrow> nat \<Rightarrow> nat option" where
  "find_open ms 0 = None"
| "find_open ms (Suc i) = (if msg_partial (ms ! i) = Some True then Some i else find_open ms i)"

definition findOpenAssistantIndex :: "context_message list \<Rightarrow> nat option" where
  "findOpenAssistantIndex ms = find_open ms (length ms)"

definition appendToOpenAssistant :: "(context_message \<Rightarrow> context_message) \<Rightarrow> fold_state \<Rightarrow> fold_state" where
  "appendToOpenAssistant update st =
     (case findOpenAssistantIndex (fs_messages st) of
        None \<Rightarrow> st
      | Some i \<Rightarrow> st\<lparr>fs_messages := (fs_messages st)[i := update (fs_messages st ! i)]\<rparr>)"

definition settleOpenStep :: "fold_state \<Rightarrow> fold_state" where
  "settleOpenStep st0 =
     (let st = closePending st0; closed = fs_messages st in
      case findOpenAssistantIndex closed of
        None \<Rightarrow> st
      | Some i \<Rightarrow>
          (let opened = closed ! i in
           if length (msg_toolCalls opened) = 0 \<and> list_all isVacuousContentPart (msg_content opened)
           then st\<lparr>fs_messages := take i closed @ drop (Suc i) closed\<rparr>
           else st\<lparr>fs_messages := closed[i := opened\<lparr>msg_partial := None\<rparr>]\<rparr>))"

definition open_assistant :: context_message where
  "open_assistant = stored \<lparr>msg_role = RAssistant, msg_name = None, msg_content = [], msg_toolCalls = [], msg_toolCallId = None,
     msg_partial = Some True, msg_tools = None\<rparr>"

definition recorded_call :: "js_string \<Rightarrow> js_string \<Rightarrow> json option \<Rightarrow> json option \<Rightarrow> tool_call" where
  "recorded_call i name args extras =
     \<lparr>tc_id = i, tc_name = name, tc_arguments = map_option json_text args, tc_extras = extras, tc_streamIndex = None\<rparr>"

definition result_message :: "js_string \<Rightarrow> result_fact \<Rightarrow> context_message" where
  "result_message i r = (stored (createToolMessage i (rf_output r)))\<lparr>cm_isError := rf_isError r, cm_note := rf_note r\<rparr>"

text \<open>Adding to a \<^verbatim>\<open>Set\<close> keeps the position of an element already there.\<close>

definition set_add_id :: "js_string \<Rightarrow> js_string list \<Rightarrow> js_string list" where
  "set_add_id i xs = (if i \<in> set xs then xs else xs @ [i])"

fun foldLoopEvent :: "loop_event \<Rightarrow> fold_state \<Rightarrow> fold_state" where
  "foldLoopEvent (StepBegin uuid) st =
     (let st = settleOpenStep st in st\<lparr>fs_openStep := Some uuid, fs_messages := fs_messages st @ [open_assistant]\<rparr>)"
| "foldLoopEvent (StepEnd uuid) st = flushDeferred (settleOpenStep (st\<lparr>fs_openStep := None\<rparr>))"
| "foldLoopEvent (ContentPart stepUuid part) st =
     appendToOpenAssistant (\<lambda>m. m\<lparr>msg_content := msg_content m @ [part]\<rparr>) st"
| "foldLoopEvent (ToolCallEvent stepUuid i name args extras) st =
     appendToOpenAssistant (\<lambda>m. m\<lparr>msg_toolCalls := msg_toolCalls m @ [recorded_call i name args extras]\<rparr>)
       (st\<lparr>fs_pending := set_add_id i (fs_pending st)\<rparr>)"
| "foldLoopEvent (ToolResultEvent i r) st =
     (if i \<notin> set (fs_pending st) then st
      else flushDeferred (st\<lparr>fs_messages := fs_messages st @ [result_message i r], fs_pending := removeAll i (fs_pending st)\<rparr>))"

end
