(* ===== verification/Handoff.thy ===== *)
theory Handoff
  imports Message
begin

section \<open>The compaction handoff (\<^verbatim>\<open>compactionHandoff.ts\<close>)\<close>

text \<open>
  A full compaction keeps the user's own messages, within a token budget, and a summary. When the budget is
  exceeded the oldest and the most recent messages are kept, with a note in between. Budgets are integers.
\<close>

definition COMPACTION_SUMMARY_PREFIX :: js_string where
  "COMPACTION_SUMMARY_PREFIX =
     js ''The conversation so far has been compacted to free up context. What follows is your own working summary of this task '' @ [0x2014]
     @ js '' use it to continue your train of thought rather than starting over. Treat it as notes, not proof: where it says a step was done, tests passed, or a fix worked, verify that yourself before relying on it. Any user messages earlier in this context are preserved verbatim from the compacted conversation; where a system-reminder note among them marks an omitted middle section, the user messages it replaced are covered by this summary.''"

definition COMPACT_USER_MESSAGE_MAX_TOKENS :: int where "COMPACT_USER_MESSAGE_MAX_TOKENS = 20000"
definition COMPACT_USER_MESSAGE_HEAD_TOKENS :: int where "COMPACT_USER_MESSAGE_HEAD_TOKENS = 2000"
definition COMPACTION_ELISION_VARIANT :: js_string where "COMPACTION_ELISION_VARIANT = js ''compaction_elision''"

definition buildCompactionSummaryText :: "js_string \<Rightarrow> js_string" where
  "buildCompactionSummaryText summary =
     (let suffix = trim summary in COMPACTION_SUMMARY_PREFIX @ [10] @ (if length suffix > 0 then suffix else js ''(no summary available)''))"

definition text_message :: "js_string \<Rightarrow> prompt_origin \<Rightarrow> context_message" where
  "text_message text origin = (stored (createUserMessage text))\<lparr>cm_origin := Some origin\<rparr>"

definition createCompactionSummaryMessage :: "js_string \<Rightarrow> context_message" where
  "createCompactionSummaryMessage text = text_message text OCompactionSummary"

definition buildCompactionElisionText :: "int \<Rightarrow> js_string" where
  "buildCompactionElisionText omittedTokens =
     join_with [10]
       [js ''<system-reminder>'',
        js ''Some of this conversation's user messages were omitted here during compaction: the messages above this note are the oldest user input, the messages below are the most recent, and roughly ''
          @ int_text omittedTokens @ js '' tokens in between were dropped. The omitted content is covered by the compaction summary at the end of the conversation.'',
        js ''</system-reminder>'']"

definition createCompactionElisionMessage :: "int \<Rightarrow> context_message" where
  "createCompactionElisionMessage omittedTokens =
     text_message (buildCompactionElisionText omittedTokens) (OInjection COMPACTION_ELISION_VARIANT None)"

subsection \<open>Which messages are the user's\<close>

datatype disposition = Keep | Drop

fun compactionUserMessageDisposition :: "prompt_origin option \<Rightarrow> disposition" where
  "compactionUserMessageDisposition None = Keep"
| "compactionUserMessageDisposition (Some OUser) = Keep"
| "compactionUserMessageDisposition (Some (OSkillActivation a n as t st sp ss)) = (if t = UserSlash then Keep else Drop)"
| "compactionUserMessageDisposition (Some (OPluginCommand a p n as)) = Keep"
| "compactionUserMessageDisposition (Some _) = Drop"

definition isCompactionSummaryMessage :: "context_message \<Rightarrow> bool" where
  "isCompactionSummaryMessage m \<longleftrightarrow> cm_origin m = Some OCompactionSummary"

definition isRealUserInput :: "context_message \<Rightarrow> bool" where
  "isRealUserInput m \<longleftrightarrow> msg_role m = RUser \<and> compactionUserMessageDisposition (cm_origin m) = Keep"

definition collectCompactableUserMessages :: "context_message list \<Rightarrow> context_message list" where
  "collectCompactableUserMessages ms = filter (\<lambda>m. isRealUserInput m \<and> \<not> isCompactionSummaryMessage m) ms"

subsection \<open>Cutting text to a budget\<close>

text \<open>The characters taken while their estimate stays within the budget.\<close>

fun fit_chars :: "int \<Rightarrow> nat \<Rightarrow> nat \<Rightarrow> js_string list \<Rightarrow> js_string list" where
  "fit_chars maxTokens ascii other [] = []"
| "fit_chars maxTokens ascii other (c # cs) =
     (let ascii' = (if is_ascii_char c then Suc ascii else ascii); other' = (if is_ascii_char c then other else Suc other)
      in if int (quarter_up ascii' + other') > maxTokens then [] else c # fit_chars maxTokens ascii' other' cs)"

definition truncateTextToTokens :: "js_string \<Rightarrow> int \<Rightarrow> js_string" where
  "truncateTextToTokens text maxTokens = (if maxTokens \<le> 0 then [] else concat (fit_chars maxTokens 0 0 (chars_of text)))"

text \<open>The characters from the end, on the reversed text: a low surrogate takes the high one before it along.\<close>

fun chars_from_end :: "js_string \<Rightarrow> js_string list" where
  "chars_from_end [] = []"
| "chars_from_end [u] = [[u]]"
| "chars_from_end (u # v # us) = (if is_low u \<and> is_high v then [v, u] # chars_from_end us else [u] # chars_from_end (v # us))"

definition truncateTextToTokensFromEnd :: "js_string \<Rightarrow> int \<Rightarrow> js_string" where
  "truncateTextToTokensFromEnd text maxTokens =
     (if maxTokens \<le> 0 then [] else concat (rev (fit_chars maxTokens 0 0 (chars_from_end (rev text)))))"

definition content_text :: "content_part list \<Rightarrow> js_string" where
  "content_text content = concat (texts_of content)"

definition replaceMessageText :: "context_message \<Rightarrow> js_string \<Rightarrow> context_message" where
  "replaceMessageText m text = m\<lparr>msg_content := [TextPart text], msg_toolCalls := []\<rparr>"

definition truncateUserMessage :: "context_message \<Rightarrow> int \<Rightarrow> context_message" where
  "truncateUserMessage m maxTokens = replaceMessageText m (truncateTextToTokens (content_text (msg_content m)) maxTokens)"

definition tokens_of :: "context_message \<Rightarrow> int" where
  "tokens_of m = int (estimateTokensForMessage m)"

text \<open>The most recent messages within a budget; \<open>n\<close> counts the messages still to look at, from the end.\<close>

fun recent_messages :: "context_message list \<Rightarrow> nat \<Rightarrow> int \<Rightarrow> context_message list \<Rightarrow> context_message list" where
  "recent_messages ms 0 remaining selected = selected"
| "recent_messages ms (Suc i) remaining selected =
     (if \<not> remaining > 0 then selected
      else let m = ms ! i in
        if tokens_of m \<le> remaining then recent_messages ms i (remaining - tokens_of m) (m # selected)
        else truncateUserMessage m remaining # selected)"

definition selectRecentUserMessages :: "context_message list \<Rightarrow> int \<Rightarrow> context_message list" where
  "selectRecentUserMessages ms maxTokens = recent_messages ms (length ms) maxTokens []"

record user_selection =
  us_head :: "context_message list"
  us_tail :: "context_message list"
  us_elided :: bool
  us_omittedTokens :: int

text \<open>The tail, where the head candidates end, and the dropped beginning of a message cut in two.\<close>

fun tail_loop :: "context_message list \<Rightarrow> nat \<Rightarrow> int \<Rightarrow> context_message list \<Rightarrow> context_message list \<times> nat \<times> context_message option" where
  "tail_loop ms 0 remaining acc = (acc, 0, None)"
| "tail_loop ms (Suc i) remaining acc =
     (if \<not> remaining > 0 then (acc, Suc i, None)
      else let m = ms ! i in
        if tokens_of m \<le> remaining then tail_loop ms i (remaining - tokens_of m) (m # acc)
        else let fullText = content_text (msg_content m); keptSuffix = truncateTextToTokensFromEnd fullText remaining;
                 droppedPrefix = take (length fullText - length keptSuffix) fullText
             in (replaceMessageText m keptSuffix # acc, i, if length droppedPrefix > 0 then Some (replaceMessageText m droppedPrefix) else None))"

fun head_loop :: "context_message list \<Rightarrow> int \<Rightarrow> context_message list" where
  "head_loop [] remaining = []"
| "head_loop (m # ms) remaining =
     (if remaining \<le> 0 then []
      else if tokens_of m \<le> remaining then m # head_loop ms (remaining - tokens_of m)
      else [truncateUserMessage m remaining])"

definition total_tokens :: "context_message list \<Rightarrow> int" where
  "total_tokens ms = sum_list (map tokens_of ms)"

definition selectCompactionUserMessages :: "context_message list \<Rightarrow> int \<Rightarrow> int \<Rightarrow> user_selection" where
  "selectCompactionUserMessages ms maxTokens headTokens =
     (if total_tokens ms \<le> maxTokens then \<lparr>us_head = [], us_tail = ms, us_elided = False, us_omittedTokens = 0\<rparr>
      else let headBudget = min (max headTokens 0) maxTokens; tailBudget = maxTokens - headBudget;
               (tail, headEnd, droppedPrefix) = tail_loop ms (length ms) tailBudget [];
               headCandidates = take headEnd ms @ (case droppedPrefix of None \<Rightarrow> [] | Some m \<Rightarrow> [m]);
               head = head_loop headCandidates headBudget
           in \<lparr>us_head = head, us_tail = tail, us_elided = True, us_omittedTokens = max 0 (total_tokens ms - (total_tokens head + total_tokens tail))\<rparr>)"

subsection \<open>The shape of a compacted history\<close>

record compaction_input =
  ci_summary :: js_string
  ci_legacySummaryMessage :: "context_message option"
  ci_contextSummary :: "js_string option"
  ci_compactedCount :: int
  ci_tokensBefore :: int
  ci_tokensAfter :: "int option"
  ci_keptUserMessageCount :: "int option"
  ci_keptHeadUserMessageCount :: "int option"
  ci_droppedCount :: "int option"
  ci_legacyTail :: "bool option"

record compaction_shape =
  cs_summary :: js_string
  cs_contextSummary :: js_string
  cs_compactedCount :: int
  cs_tokensBefore :: int
  cs_tokensAfter :: int
  cs_keptUserMessageCount :: int
  cs_keptHeadUserMessageCount :: "int option"
  cs_droppedCount :: "int option"
  cs_messages :: "context_message list"

definition usesLegacyTailShape :: "compaction_input \<Rightarrow> bool" where
  "usesLegacyTailShape i \<longleftrightarrow> ci_legacyTail i = Some True"

text \<open>\<^verbatim>\<open>slice(n)\<close>: a negative start counts from the end.\<close>

definition slice_from :: "int \<Rightarrow> 'a list \<Rightarrow> 'a list" where
  "slice_from n xs = (if n < 0 then drop (nat (int (length xs) + n)) xs else drop (nat n) xs)"

definition kept_messages :: "user_selection \<Rightarrow> context_message list" where
  "kept_messages s =
     (if us_elided s then us_head s @ [createCompactionElisionMessage (us_omittedTokens s)] @ us_tail s else us_head s @ us_tail s)"

definition or_else :: "'a option \<Rightarrow> 'a \<Rightarrow> 'a" where
  "or_else x d = (case x of None \<Rightarrow> d | Some y \<Rightarrow> y)"

definition buildContextCompactionShape :: "context_message list \<Rightarrow> compaction_input \<Rightarrow> compaction_shape" where
  "buildContextCompactionShape history i =
     (let contextSummary = or_else (ci_contextSummary i) (ci_summary i) in
      if usesLegacyTailShape i
      then let messages = or_else (ci_legacySummaryMessage i) (createCompactionSummaryMessage contextSummary) # slice_from (ci_compactedCount i) history
           in \<lparr>cs_summary = ci_summary i, cs_contextSummary = contextSummary, cs_compactedCount = ci_compactedCount i,
               cs_tokensBefore = ci_tokensBefore i, cs_tokensAfter = or_else (ci_tokensAfter i) (int (estimateTokensForMessages messages)),
               cs_keptUserMessageCount = 0, cs_keptHeadUserMessageCount = None, cs_droppedCount = ci_droppedCount i, cs_messages = messages\<rparr>
      else let selection = selectCompactionUserMessages (collectCompactableUserMessages history) COMPACT_USER_MESSAGE_MAX_TOKENS COMPACT_USER_MESSAGE_HEAD_TOKENS;
               keptMessages = kept_messages selection
           in \<lparr>cs_summary = ci_summary i, cs_contextSummary = contextSummary, cs_compactedCount = ci_compactedCount i,
               cs_tokensBefore = ci_tokensBefore i,
               cs_tokensAfter = or_else (ci_tokensAfter i) (int (estimateTokens contextSummary) + int (estimateTokensForMessages keptMessages)),
               cs_keptUserMessageCount = or_else (ci_keptUserMessageCount i) (int (length (us_head selection) + length (us_tail selection))),
               cs_keptHeadUserMessageCount = (case ci_keptHeadUserMessageCount i of
                  Some n \<Rightarrow> Some n | None \<Rightarrow> if us_elided selection then Some (int (length (us_head selection))) else None),
               cs_droppedCount = ci_droppedCount i, cs_messages = keptMessages @ [createCompactionSummaryMessage contextSummary]\<rparr>)"

subsection \<open>Cut text stays within its budget\<close>

text \<open>A list of characters is how iteration splits a string when no two neighbours form a surrogate pair.\<close>

definition char_ok :: "js_string \<Rightarrow> bool" where
  "char_ok c \<longleftrightarrow> (\<exists>u. c = [u]) \<or> (\<exists>h l. c = [h, l] \<and> is_high h \<and> is_low l)"

definition torn :: "js_string \<Rightarrow> js_string \<Rightarrow> bool" where
  "torn c d \<longleftrightarrow> (\<exists>h l. c = [h] \<and> d = [l] \<and> is_high h \<and> is_low l)"

fun segmented :: "js_string list \<Rightarrow> bool" where
  "segmented [] = True"
| "segmented [c] = char_ok c"
| "segmented (c # d # cs) = (char_ok c \<and> \<not> torn c d \<and> segmented (d # cs))"

lemma high_not_low: "is_high u \<Longrightarrow> \<not> is_low u"
  by (auto simp: is_high_def is_low_def)

lemma segmented_chars: "segmented cs \<Longrightarrow> chars_of (concat cs) = cs"
proof (induction cs rule: segmented.induct)
  case (2 c)
  then show ?case by (auto simp: char_ok_def)
next
  case (3 c d cs)
  have d: "char_ok d" using 3(2) by (cases cs) auto
  have IH: "chars_of (concat (d # cs)) = d # cs" using 3 by simp
  from 3(2) consider u where "c = [u]" | h l where "c = [h, l]" "is_high h" "is_low l" by (auto simp: char_ok_def)
  then show ?case
  proof cases
    case (1 u)
    obtain v vs where v: "d = v # vs" using d by (auto simp: char_ok_def)
    have "\<not> (is_high u \<and> is_low v)" using 3(2) 1 d v high_not_low by (auto simp: torn_def char_ok_def)
    then show ?thesis using IH 1 v by auto
  next
    case (2 h l)
    then show ?thesis using IH by simp
  qed
qed simp

lemma segmented_append: "segmented (xs @ ys) \<Longrightarrow> segmented xs \<and> segmented ys"
proof (induction xs rule: segmented.induct)
  case (2 c)
  then show ?case by (cases ys) auto
qed auto

lemma segmented_snoc: "segmented (xs @ [d]) \<longleftrightarrow> segmented xs \<and> char_ok d \<and> (xs = [] \<or> \<not> torn (List.last xs) d)"
  by (induction xs rule: segmented.induct) auto

lemma segmented_chars_of: "segmented (chars_of s)"
proof (induction s rule: chars_of.induct)
  case (3 u v us)
  have hd_v: "\<exists>c cs. chars_of (v # us) = c # cs \<and> hd c = v" by (cases us) auto
  show ?case
  proof (cases "is_high u \<and> is_low v")
    case True
    with 3(1) show ?thesis by (cases "chars_of us") (auto simp: char_ok_def torn_def)
  next
    case False
    with 3(2) hd_v show ?thesis by (auto simp: char_ok_def torn_def)
  qed
qed (auto simp: char_ok_def)

lemma segmented_from_end: "segmented (rev (chars_from_end us)) \<and> concat (rev (chars_from_end us)) = rev us"
proof (induction us rule: chars_from_end.induct)
  case (3 u v us)
  have hd_v: "\<exists>c cs. chars_from_end (v # us) = c # cs \<and> (c = [v] \<or> length c = 2)" by (cases us) auto
  show ?case
  proof (cases "is_low u \<and> is_high v")
    case True
    then have "\<not> torn c [v, u]" for c by (simp add: torn_def)
    with 3(1) True show ?thesis by (auto simp: segmented_snoc char_ok_def)
  next
    case False
    with hd_v have "\<not> torn (List.last (rev (chars_from_end (v # us)))) [u]" by (auto simp: torn_def)
    with 3(2) False show ?thesis by (auto simp: segmented_snoc char_ok_def)
  qed
qed (auto simp: char_ok_def)

lemma fit_chars_prefix: "\<exists>rest. cs = fit_chars m a n cs @ rest"
  by (induction cs arbitrary: a n) (auto simp: Let_def)

lemma fit_chars_bound:
  "int (quarter_up a + n) \<le> m \<Longrightarrow>
     int (quarter_up (a + length (filter is_ascii_char (fit_chars m a n cs))) + (n + length (filter (\<lambda>c. \<not> is_ascii_char c) (fit_chars m a n cs)))) \<le> m"
proof (induction cs arbitrary: a n)
  case (Cons c cs)
  show ?case using Cons.IH [of "Suc a" n] Cons.IH [of a "Suc n"] Cons.prems by (auto simp: Let_def)
qed simp

lemma fit_chars_tokens: "m > 0 \<Longrightarrow> int (count_tokens (fit_chars m 0 0 cs)) \<le> m"
  using fit_chars_bound [of 0 0 m cs] by (simp add: count_tokens_def quarter_up_def)

lemma truncate_tokens: "m > 0 \<Longrightarrow> int (estimateTokens (truncateTextToTokens s m)) \<le> m"
proof -
  assume m: "m > 0"
  obtain rest where "chars_of s = fit_chars m 0 0 (chars_of s) @ rest" using fit_chars_prefix by blast
  then have "segmented (fit_chars m 0 0 (chars_of s))" using segmented_chars_of [of s] segmented_append by metis
  from segmented_chars [OF this] fit_chars_tokens [OF m] m show ?thesis by (simp add: truncateTextToTokens_def estimateTokens_def)
qed

lemma truncate_end_tokens: "m > 0 \<Longrightarrow> int (estimateTokens (truncateTextToTokensFromEnd s m)) \<le> m"
proof -
  assume m: "m > 0"
  let ?cs = "chars_from_end (rev s)"
  obtain rest where "?cs = fit_chars m 0 0 ?cs @ rest" using fit_chars_prefix by blast
  then have "rev ?cs = rev rest @ rev (fit_chars m 0 0 ?cs)" by (metis rev_append)
  then have "segmented (rev (fit_chars m 0 0 ?cs))" using segmented_from_end [of "rev s"] segmented_append by metis
  from segmented_chars [OF this] fit_chars_tokens [OF m, of ?cs] m show ?thesis
    by (simp add: truncateTextToTokensFromEnd_def estimateTokens_def count_tokens_def rev_filter [symmetric])
qed

subsection \<open>The kept messages\<close>

lemma user_role_tokens: "estimateTokens (role_text RUser) = 1"
  by (simp add: role_text_def js_def estimateTokens_def of_char_def is_high_def is_low_def count_tokens_def is_ascii_char_def quarter_up_def)

lemma replaced_tokens: "msg_role m = RUser \<Longrightarrow> tokens_of (replaceMessageText m s) = 1 + int (estimateTokens s)"
  by (simp add: tokens_of_def estimateTokensForMessage_def replaceMessageText_def user_role_tokens estimateTokensForContentParts_def)

lemma total_simps [simp]: "total_tokens [] = 0" "total_tokens (m # ms) = tokens_of m + total_tokens ms" "total_tokens (ms @ ns) = total_tokens ms + total_tokens ns"
  by (simp_all add: total_tokens_def)

lemma tail_loop_spec:
  "n \<le> length ms \<Longrightarrow> remaining \<ge> 0 \<Longrightarrow> tail_loop ms n remaining (drop n ms) = (tail, e, dropped) \<Longrightarrow> \<forall>m\<in>set ms. msg_role m = RUser \<Longrightarrow>
     total_tokens tail \<le> total_tokens (drop n ms) + remaining + 1
     \<and> (\<exists>q j. tail = q @ drop j ms \<and> j \<le> length ms \<and> length q \<le> 1 \<and> e + length q = j) \<and> (\<forall>m. dropped = Some m \<longrightarrow> msg_role m = RUser)"
proof (induction n arbitrary: remaining)
  case 0
  then show ?case by (intro conjI exI [of _ "[]"] exI [of _ 0]) auto
next
  case (Suc i)
  let ?m = "ms ! i"
  have m: "msg_role ?m = RUser" "drop i ms = ?m # drop (Suc i) ms" using Suc.prems(1,4) by (auto simp: Cons_nth_drop_Suc)
  consider "remaining = 0" | "remaining > 0" "tokens_of ?m \<le> remaining" | "remaining > 0" "\<not> tokens_of ?m \<le> remaining" using Suc.prems(2) by linarith
  then show ?case
  proof cases
    case 1
    with Suc.prems show ?thesis by (intro conjI exI [of _ "[]"] exI [of _ "Suc i"]) auto
  next
    case 2
    then have "tail_loop ms i (remaining - tokens_of ?m) (drop i ms) = (tail, e, dropped)" using Suc.prems(3) by (simp add: Let_def m(2))
    from Suc.IH [OF _ _ this Suc.prems(4)] Suc.prems(1) 2 show ?thesis by (auto simp: m(2))
  next
    case 3
    let ?kept = "truncateTextToTokensFromEnd (content_text (msg_content ?m)) remaining"
    have t: "tail = replaceMessageText ?m ?kept # drop (Suc i) ms" "e = i" "\<And>m. dropped = Some m \<Longrightarrow> msg_role m = RUser"
      using Suc.prems(3) 3 m(1) by (auto simp: Let_def replaceMessageText_def split: if_splits)
    have "tokens_of (replaceMessageText ?m ?kept) \<le> 1 + remaining"
      using truncate_end_tokens [OF 3(1)] m(1) by (simp add: replaced_tokens)
    with t Suc.prems(1) show ?thesis by (intro conjI exI [of _ "[replaceMessageText ?m ?kept]"] exI [of _ "Suc i"]) auto
  qed
qed

lemma head_loop_spec:
  "remaining \<ge> 0 \<Longrightarrow> \<forall>m\<in>set ms. msg_role m = RUser \<Longrightarrow>
     total_tokens (head_loop ms remaining) \<le> remaining + 1 \<and> (\<exists>p i. head_loop ms remaining = take i ms @ p \<and> i \<le> length ms \<and> length p \<le> 1 \<and> i + length p \<le> length ms)"
proof (induction ms arbitrary: remaining)
  case (Cons m ms)
  consider "remaining \<le> 0" | "remaining > 0" "tokens_of m \<le> remaining" | "remaining > 0" "\<not> tokens_of m \<le> remaining" by linarith
  then show ?case
  proof cases
    case 1
    with Cons.prems show ?thesis by (intro conjI exI [of _ "[]"] exI [of _ 0]) auto
  next
    case 2
    with Cons.prems have "remaining - tokens_of m \<ge> 0" "\<forall>m\<in>set ms. msg_role m = RUser" by auto
    from Cons.IH [OF this] obtain p i where "total_tokens (head_loop ms (remaining - tokens_of m)) \<le> remaining - tokens_of m + 1"
      "head_loop ms (remaining - tokens_of m) = take i ms @ p" "i \<le> length ms" "length p \<le> 1" "i + length p \<le> length ms" by blast
    with 2 show ?thesis by (intro conjI exI [of _ p] exI [of _ "Suc i"]) auto
  next
    case 3
    then have "tokens_of (truncateUserMessage m remaining) \<le> 1 + remaining"
      using truncate_tokens [OF 3(1)] Cons.prems(2) by (simp add: truncateUserMessage_def replaced_tokens)
    with 3 show ?thesis by (intro conjI exI [of _ "[truncateUserMessage m remaining]"] exI [of _ 0]) auto
  qed
qed (auto intro!: exI [of _ "[]"])

text \<open>C35: what a compaction keeps of the user's messages, for a budget that is not negative: all of them while they
  fit the budget; otherwise the oldest and the most recent ones, unchanged except for at most one message cut on
  either side of the gap, within the budget plus one token for the role of each cut message.\<close>

theorem selection_within_budget:
  assumes "\<forall>m\<in>set ms. msg_role m = RUser" "0 \<le> maxTokens" "s = selectCompactionUserMessages ms maxTokens headTokens"
  shows "if total_tokens ms \<le> maxTokens then us_head s = [] \<and> us_tail s = ms \<and> \<not> us_elided s
    else us_elided s \<and> total_tokens (us_head s) + total_tokens (us_tail s) \<le> maxTokens + 2
      \<and> (\<exists>i j p q. i \<le> j \<and> j \<le> length ms \<and> us_head s = take i ms @ p \<and> us_tail s = q @ drop j ms \<and> length p \<le> 1 \<and> length q \<le> 1)"
proof (cases "total_tokens ms \<le> maxTokens")
  case True
  with assms(3) show ?thesis by (simp add: selectCompactionUserMessages_def)
next
  case False
  let ?hb = "min (max headTokens 0) maxTokens"
  obtain tail e dropped where t: "tail_loop ms (length ms) (maxTokens - ?hb) (drop (length ms) ms) = (tail, e, dropped)" by (metis prod_cases3)
  note spec = tail_loop_spec [OF order_refl _ t assms(1)]
  let ?d = "case dropped of None \<Rightarrow> [] | Some m \<Rightarrow> [m]"
  let ?c = "take e ms @ ?d"
  have s: "us_head s = head_loop ?c ?hb" "us_tail s = tail" "us_elided s"
    using assms(3) False t by (simp_all add: selectCompactionUserMessages_def Let_def)
  have hb: "0 \<le> ?hb" "0 \<le> maxTokens - ?hb" using assms(2) by auto
  from spec [OF hb(2)] obtain q j where q: "total_tokens tail \<le> maxTokens - ?hb + 1" "tail = q @ drop j ms" "j \<le> length ms" "length q \<le> 1" "e + length q = j"
    "\<And>m. dropped = Some m \<Longrightarrow> msg_role m = RUser" by auto
  have users: "\<forall>m\<in>set ?c. msg_role m = RUser" using assms(1) q(6) by (auto dest: in_set_takeD split: option.splits)
  from head_loop_spec [OF hb(1) users] obtain p i where p: "total_tokens (head_loop ?c ?hb) \<le> ?hb + 1" "head_loop ?c ?hb = take i ?c @ p"
    "i \<le> length ?c" "length p \<le> 1" "i + length p \<le> length ?c" by blast
  have "\<exists>i' p'. i' \<le> e \<and> head_loop ?c ?hb = take i' ms @ p' \<and> length p' \<le> 1"
  proof (cases "i \<le> length (take e ms)")
    case True
    then show ?thesis using p(2,4) by (intro exI [of _ i] exI [of _ p]) (auto simp: min_def split: if_splits)
  next
    case False
    define d where "d = ?d"
    have d: "length d \<le> 1" by (simp add: d_def split: option.split)
    have len: "length (take e ms @ d) = length (take e ms) + length d" by simp
    have "i + length p \<le> length (take e ms) + length d" using p(5) len by (simp only: d_def)
    then have "p = []" "length (take e ms @ d) \<le> i" using False d len by (simp_all only: length_0_conv [symmetric])
    then have "p = []" "take i ?c = ?c" by (simp_all only: d_def take_all)
    moreover have "length ?d \<le> 1" using d by (simp only: d_def)
    ultimately have "p = []" "take i ?c = ?c" "length ?d \<le> 1" by simp_all
    then show ?thesis using p(2) by (intro exI [of _ e] exI [of _ ?d]) auto
  qed
  then obtain i' p' where i': "i' \<le> e" "head_loop ?c ?hb = take i' ms @ p'" "length p' \<le> 1" by blast
  have ij: "i' \<le> j" using i'(1) q(5) by simp
  have parts: "us_head s = take i' ms @ p'" "us_tail s = q @ drop j ms" using s i'(2) q(2) by simp_all
  have total: "total_tokens (us_head s) + total_tokens (us_tail s) \<le> maxTokens + 2" using s p(1) q(1) by simp
  have "\<exists>i j p q. i \<le> j \<and> j \<le> length ms \<and> us_head s = take i ms @ p \<and> us_tail s = q @ drop j ms \<and> length p \<le> 1 \<and> length q \<le> 1"
    using ij q(3,4) parts i'(3) by blast
  with False s(3) total show ?thesis by simp
qed

theorem selection_within_budget_witness:
  "total_tokens (us_head (selectCompactionUserMessages
     [stored (createUserMessage (js ''first request'')), stored (createUserMessage (js ''second request'')), stored (createUserMessage (js ''third''))] 8 3))
   + total_tokens (us_tail (selectCompactionUserMessages
     [stored (createUserMessage (js ''first request'')), stored (createUserMessage (js ''second request'')), stored (createUserMessage (js ''third''))] 8 3)) \<le> 10"
proof -
  let ?ms = "[stored (createUserMessage (js ''first request'')), stored (createUserMessage (js ''second request'')), stored (createUserMessage (js ''third''))]"
  have "\<forall>m\<in>set ?ms. msg_role m = RUser" "\<not> total_tokens ?ms \<le> 8" by code_simp+
  then show ?thesis using selection_within_budget [OF _ _ refl, of ?ms 8 3] by (simp only: if_False zero_le_numeral HOL.simp_thms numeral_plus_numeral) simp
qed

end

