(* ===== verification/ContextOps.thy ===== *)
theory ContextOps
  imports LoopFold Handoff
begin

section \<open>The operations of the history (\<^verbatim>\<open>contextOps.ts\<close>, \<^verbatim>\<open>conversationTime.ts\<close>)\<close>

text \<open>
  The conversation history and its recorded operations: messages appended from outside the loop, loop events,
  clearing, compaction and undo. A record read back from the journal is a map from keys to values, of which only
  the kinds the code tests for are told apart. An operation that returns the same array leaves the fold's state
  with it; every array an operation makes starts a fresh fold.
\<close>

subsection \<open>The conversation clock\<close>

definition isUndoAnchor :: "context_message \<Rightarrow> bool" where
  "isUndoAnchor m \<longleftrightarrow>
     msg_role m = RUser \<and>
     (case cm_origin m of
        None \<Rightarrow> True
      | Some OUser \<Rightarrow> True
      | Some (OSkillActivation a n as t st sp ss) \<Rightarrow> t = UserSlash
      | Some (OPluginCommand a p n as) \<Rightarrow> True
      | Some _ \<Rightarrow> False)"

definition isPromptOwnedInjection :: "context_message \<Rightarrow> context_message \<Rightarrow> bool" where
  "isPromptOwnedInjection m prompt \<longleftrightarrow>
     (case cm_origin m of Some (OInjection variant (Some owner)) \<Rightarrow> cm_id prompt = Some owner | _ \<Rightarrow> False)"

definition MAX_SAFE_INTEGER :: int where "MAX_SAFE_INTEGER = 9007199254740991"

definition isValidUndoCount :: "int \<Rightarrow> bool" where
  "isValidUndoCount n \<longleftrightarrow> \<bar>n\<bar> \<le> MAX_SAFE_INTEGER \<and> n > 0"

record 'a checkpointed =
  ck_current :: 'a
  ck_checkpoints :: "'a list"

definition checkpoint_append :: "('a \<Rightarrow> context_message \<Rightarrow> 'a) option \<Rightarrow> context_message \<Rightarrow> 'a checkpointed \<Rightarrow> 'a checkpointed" where
  "checkpoint_append onAppendMessage m st =
     (if isUndoAnchor m then st\<lparr>ck_checkpoints := ck_checkpoints st @ [ck_current st]\<rparr>
      else case onAppendMessage of None \<Rightarrow> st | Some f \<Rightarrow> st\<lparr>ck_current := f (ck_current st) m\<rparr>)"

definition checkpoint_reset :: "'a checkpointed \<Rightarrow> 'a checkpointed" where
  "checkpoint_reset st = (if length (ck_checkpoints st) = 0 then st else st\<lparr>ck_checkpoints := []\<rparr>)"

definition checkpoint_undo :: "int \<Rightarrow> 'a checkpointed \<Rightarrow> 'a checkpointed" where
  "checkpoint_undo count st =
     (if \<not> isValidUndoCount count \<or> int (length (ck_checkpoints st)) < count then st
      else let checkpointIndex = nat (int (length (ck_checkpoints st)) - count)
           in \<lparr>ck_current = ck_checkpoints st ! checkpointIndex, ck_checkpoints = take checkpointIndex (ck_checkpoints st)\<rparr>)"

subsection \<open>How far an undo reaches\<close>

record undo_cut =
  uc_cutIndex :: int
  uc_removedCount :: int
  uc_stoppedAtCompaction :: bool

definition is_injection :: "context_message \<Rightarrow> bool" where
  "is_injection m \<longleftrightarrow> (case cm_origin m of Some (OInjection v w) \<Rightarrow> True | _ \<Rightarrow> False)"

text \<open>The inner loop: the injections right before a prompt that belong to it go with it.\<close>

fun owned_start :: "context_message list \<Rightarrow> context_message \<Rightarrow> nat \<Rightarrow> nat" where
  "owned_start state prompt 0 = 0"
| "owned_start state prompt (Suc i) = (if isPromptOwnedInjection (state ! i) prompt then owned_start state prompt i else Suc i)"

fun undo_loop :: "context_message list \<Rightarrow> nat \<Rightarrow> int \<Rightarrow> undo_cut \<Rightarrow> undo_cut" where
  "undo_loop state 0 remaining c = c"
| "undo_loop state (Suc i) remaining c =
     (if \<not> remaining > 0 then c
      else let m = state ! i in
        if is_injection m then undo_loop state i remaining c
        else if isCompactionSummaryMessage m then c\<lparr>uc_stoppedAtCompaction := True\<rparr>
        else if isUndoAnchor m
        then undo_loop state i (remaining - 1)
               (c\<lparr>uc_removedCount := uc_removedCount c + 1, uc_cutIndex := int (owned_start state m i)\<rparr>)
        else undo_loop state i remaining c)"

definition computeUndoCut :: "context_message list \<Rightarrow> int \<Rightarrow> undo_cut" where
  "computeUndoCut state count =
     undo_loop state (length state) count \<lparr>uc_cutIndex = -1, uc_removedCount = 0, uc_stoppedAtCompaction = False\<rparr>"

definition isFullyUndoable :: "undo_cut \<Rightarrow> int \<Rightarrow> bool" where
  "isFullyUndoable c count \<longleftrightarrow> uc_cutIndex c \<ge> 0 \<and> uc_removedCount c \<ge> count"

datatype unavailable_reason = NothingToUndo | CompactionBoundary | Insufficient | CheckpointLost

datatype undo_precheck = UndoOk | UndoUnavailable unavailable_reason int int

definition precheckUndo :: "context_message list \<Rightarrow> int \<Rightarrow> undo_precheck" where
  "precheckUndo history count =
     (let c = computeUndoCut history count in
      if isFullyUndoable c count then UndoOk
      else UndoUnavailable
             (if uc_stoppedAtCompaction c then CompactionBoundary else if uc_removedCount c = 0 then NothingToUndo else Insufficient)
             count (uc_removedCount c))"

definition formatUndoUnavailableMessage :: "unavailable_reason \<Rightarrow> int \<Rightarrow> int \<Rightarrow> js_string" where
  "formatUndoUnavailableMessage reason requested undoable =
     (case reason of
        NothingToUndo \<Rightarrow> js ''Nothing to undo: no user message to undo''
      | CompactionBoundary \<Rightarrow> js ''Nothing to undo: would cross a compaction boundary''
      | Insufficient \<Rightarrow> js ''Nothing to undo: only '' @ int_text undoable @ js '' of '' @ int_text requested @ js '' requested turn(s) available''
      | CheckpointLost \<Rightarrow> js ''Nothing to undo: conversation state checkpoints are incomplete'')"

subsection \<open>Reading a compaction record\<close>

datatype field_value = FNumber int | FString js_string | FBoolean bool | FMessage context_message | FOther

type_synonym unknown_record = "js_string \<Rightarrow> field_value option"

datatype record_error = MissingCompactedCount | MissingSummary

definition readOptionalNumber :: "unknown_record \<Rightarrow> js_string \<Rightarrow> int option" where
  "readOptionalNumber r key = (case r key of Some (FNumber n) \<Rightarrow> Some n | _ \<Rightarrow> None)"

definition readOptionalString :: "unknown_record \<Rightarrow> js_string \<Rightarrow> js_string option" where
  "readOptionalString r key = (case r key of Some (FString s) \<Rightarrow> Some s | _ \<Rightarrow> None)"

definition readOptionalBoolean :: "unknown_record \<Rightarrow> js_string \<Rightarrow> bool option" where
  "readOptionalBoolean r key = (case r key of Some (FBoolean b) \<Rightarrow> Some b | _ \<Rightarrow> None)"

definition readLegacySummaryMessage :: "unknown_record \<Rightarrow> context_message option" where
  "readLegacySummaryMessage r = (case r (js ''summary'') of Some (FMessage m) \<Rightarrow> Some m | _ \<Rightarrow> None)"

definition readContextCompactedCount :: "unknown_record \<Rightarrow> record_error + int" where
  "readContextCompactedCount r =
     (case readOptionalNumber r (js ''compactedCount'') of Some n \<Rightarrow> Inr n
      | None \<Rightarrow> case readOptionalNumber r (js ''count'') of Some n \<Rightarrow> Inr n | None \<Rightarrow> Inl MissingCompactedCount)"

definition readContextCompactionSummary :: "unknown_record \<Rightarrow> record_error + context_message" where
  "readContextCompactionSummary r =
     (case readOptionalString r (js ''contextSummary'') of Some s \<Rightarrow> Inr (createCompactionSummaryMessage s)
      | None \<Rightarrow> case readOptionalString r (js ''summary'') of Some s \<Rightarrow> Inr (createCompactionSummaryMessage s)
      | None \<Rightarrow> case readLegacySummaryMessage r of Some m \<Rightarrow> Inr m | None \<Rightarrow> Inl MissingSummary)"

definition readContextCompactionRawSummary :: "unknown_record \<Rightarrow> record_error + js_string" where
  "readContextCompactionRawSummary r =
     (case readOptionalString r (js ''summary'') of Some s \<Rightarrow> Inr s
      | None \<Rightarrow> case readOptionalString r (js ''contextSummary'') of Some s \<Rightarrow> Inr s
      | None \<Rightarrow> case readLegacySummaryMessage r of Some m \<Rightarrow> Inr (content_text (msg_content m)) | None \<Rightarrow> Inl MissingSummary)"

definition readContextCompactionShapeInput :: "unknown_record \<Rightarrow> record_error + compaction_input" where
  "readContextCompactionShapeInput r =
     (let kept = readOptionalNumber r (js ''keptUserMessageCount'') in
      case readContextCompactionRawSummary r of Inl e \<Rightarrow> Inl e
      | Inr summary \<Rightarrow> case readContextCompactedCount r of Inl e \<Rightarrow> Inl e
      | Inr compactedCount \<Rightarrow> Inr
          \<lparr>ci_summary = summary, ci_legacySummaryMessage = readLegacySummaryMessage r,
           ci_contextSummary = readOptionalString r (js ''contextSummary''), ci_compactedCount = compactedCount,
           ci_tokensBefore = or_else (readOptionalNumber r (js ''tokensBefore'')) 0,
           ci_tokensAfter = readOptionalNumber r (js ''tokensAfter''), ci_keptUserMessageCount = kept,
           ci_keptHeadUserMessageCount = readOptionalNumber r (js ''keptHeadUserMessageCount''),
           ci_droppedCount = readOptionalNumber r (js ''droppedCount''),
           ci_legacyTail = Some (or_else (readOptionalBoolean r (js ''legacyTail'')) (kept = None))\<rparr>)"

subsection \<open>The operations\<close>

definition popSwarmModeReminder :: "fold_state \<Rightarrow> fold_state" where
  "popSwarmModeReminder st =
     (if fs_messages st = [] then st
      else case cm_origin (List.last (fs_messages st)) of
        Some (OInjection variant owner) \<Rightarrow>
          if variant \<noteq> js ''swarm_mode'' then st else resetFold (butlast (fs_messages st))
      | _ \<Rightarrow> st)"

definition contextClear :: "fold_state \<Rightarrow> fold_state" where
  "contextClear st = (if length (fs_messages st) = 0 then st else resetFold [])"

definition contextApplyCompaction :: "unknown_record \<Rightarrow> fold_state \<Rightarrow> record_error + fold_state" where
  "contextApplyCompaction p st =
     (case readContextCompactionShapeInput p of Inl e \<Rightarrow> Inl e
      | Inr i \<Rightarrow> Inr (resetFold (cs_messages (buildContextCompactionShape (fs_messages st) i))))"

definition contextUndo :: "int \<Rightarrow> fold_state \<Rightarrow> fold_state" where
  "contextUndo count st =
     (if \<not> isValidUndoCount count \<or> length (fs_messages st) = 0 then st
      else let c = computeUndoCut (fs_messages st) count in
        if \<not> isFullyUndoable c count then st else resetFold (take (nat (uc_cutIndex c)) (fs_messages st)))"

subsection \<open>Offloaded media\<close>

text \<open>
  The transformer of content parts (blob storage, outside this code) is a parameter; \<open>None\<close> stands for the same
  reference returned. Reading the blobs back after a replay walks the history; only a changed history is a new array.
  The transformer returns as many parts as it is given.
\<close>

fun dehydrateMessages :: "(content_part list \<Rightarrow> content_part list option) \<Rightarrow> context_message list \<Rightarrow> bool \<times> context_message list" where
  "dehydrateMessages transform [] = (False, [])"
| "dehydrateMessages transform (m # ms) =
     (let (changed, result) = dehydrateMessages transform ms in
      case transform (msg_content m) of None \<Rightarrow> (changed, m # result)
      | Some parts \<Rightarrow> (True, m\<lparr>msg_content := parts\<rparr> # result))"

definition rehydrate :: "(content_part list \<Rightarrow> content_part list option) \<Rightarrow> fold_state \<Rightarrow> fold_state" where
  "rehydrate transform st =
     (let (changed, result) = dehydrateMessages transform (fs_messages st) in if changed then resetFold result else st)"

datatype wire_record = AppendMessageRecord context_message | LoopEventRecord loop_event | OtherRecord

definition dehydrateRecord :: "(content_part list \<Rightarrow> content_part list option) \<Rightarrow> wire_record \<Rightarrow> wire_record" where
  "dehydrateRecord transform r =
     (case r of
        AppendMessageRecord m \<Rightarrow>
          (case transform (msg_content m) of None \<Rightarrow> r | Some parts \<Rightarrow> AppendMessageRecord (m\<lparr>msg_content := parts\<rparr>))
      | LoopEventRecord (ContentPart stepUuid part) \<Rightarrow>
          (case transform [part] of Some (part' # parts) \<Rightarrow> LoopEventRecord (ContentPart stepUuid part') | _ \<Rightarrow> r)
      | LoopEventRecord (ToolResultEvent i result) \<Rightarrow>
          (case rf_output result of OutText t \<Rightarrow> r
           | OutParts output \<Rightarrow>
               (case transform output of None \<Rightarrow> r
                | Some parts \<Rightarrow> LoopEventRecord (ToolResultEvent i (result\<lparr>rf_output := OutParts parts\<rparr>))))
      | _ \<Rightarrow> r)"

end
