(* ===== verification/UndoReach.thy ===== *)
theory UndoReach
  imports ContextOps
begin

section \<open>How far an undo reaches\<close>

text \<open>
  An undo walks back over the history to the last compaction summary. It is possible exactly when enough prompts
  follow that summary; the cut is at the prompt with that many prompts from it on, with the injections it owns.
\<close>

subsection \<open>Which messages count for an undo\<close>

definition is_mark :: "context_message \<Rightarrow> bool" where
  "is_mark m \<longleftrightarrow> isUndoAnchor m \<or> isCompactionSummaryMessage m"

definition marks :: "context_message list \<Rightarrow> context_message list" where "marks ms = filter is_mark ms"

definition count_anchor :: "nat \<Rightarrow> context_message \<Rightarrow> nat" where
  "count_anchor n m = (if isCompactionSummaryMessage m then 0 else if isUndoAnchor m then Suc n else n)"

text \<open>The prompts after the last compaction summary.\<close>

definition anchors :: "context_message list \<Rightarrow> nat" where "anchors ms = foldl count_anchor 0 ms"

lemma summary_not_anchor: "isCompactionSummaryMessage m \<Longrightarrow> \<not> isUndoAnchor m"
  by (simp add: isCompactionSummaryMessage_def isUndoAnchor_def)

lemma injection_not_mark: "is_injection m \<Longrightarrow> \<not> is_mark m"
  by (auto simp: is_mark_def is_injection_def isUndoAnchor_def isCompactionSummaryMessage_def split: option.splits prompt_origin.splits)

lemma owned_is_injection: "isPromptOwnedInjection m p \<Longrightarrow> is_injection m"
  by (auto simp: isPromptOwnedInjection_def is_injection_def split: option.splits prompt_origin.splits)

lemma marks_simps [simp]: "marks [] = []" "marks (m # ms) = (if is_mark m then m # marks ms else marks ms)" "marks (ms @ ns) = marks ms @ marks ns"
  by (simp_all add: marks_def)

lemma anchors_simps [simp]: "anchors [] = 0" "anchors (ms @ [m]) = count_anchor (anchors ms) m"
  by (simp_all add: anchors_def)

lemma foldl_marks: "foldl count_anchor n (marks ms) = foldl count_anchor n ms"
  by (induction ms arbitrary: n) (auto simp: is_mark_def count_anchor_def)

lemma anchors_marks: "marks ms = marks ns \<Longrightarrow> anchors ms = anchors ns"
  unfolding anchors_def by (metis foldl_marks)

lemma foldl_no_summary: "\<not> list_ex isCompactionSummaryMessage ms \<Longrightarrow> foldl count_anchor n ms = n + length (filter isUndoAnchor ms)"
  by (induction ms arbitrary: n) (auto simp: count_anchor_def)

lemma anchors_append: "\<not> list_ex isCompactionSummaryMessage ns \<Longrightarrow> anchors (ms @ ns) = anchors ms + length (filter isUndoAnchor ns)"
  by (simp add: anchors_def foldl_no_summary)

subsection \<open>The reach of an undo\<close>

lemma owned_start_le: "owned_start ms p i \<le> i"
  by (induction i) (auto intro: le_SucI)

lemma owned_start_between: "owned_start ms p i \<le> j \<Longrightarrow> j < i \<Longrightarrow> isPromptOwnedInjection (ms ! j) p"
  by (induction i) (auto simp: less_Suc_eq split: if_splits)

lemma owned_start_stop: "owned_start ms p i = 0 \<or> \<not> isPromptOwnedInjection (ms ! (owned_start ms p i - 1)) p"
  by (induction i) auto

text \<open>The result of the walk back: the prompts removed, and the prompt the cut is at.\<close>

definition at_prompt :: "context_message list \<Rightarrow> nat \<Rightarrow> int \<Rightarrow> nat \<Rightarrow> bool" where
  "at_prompt ms n r p \<longleftrightarrow> p < n \<and> isUndoAnchor (ms ! p) \<and> \<not> list_ex isCompactionSummaryMessage (drop p (take n ms))
     \<and> int (length (filter isUndoAnchor (drop p (take n ms)))) = r"

lemma take_Suc_snoc: "Suc i \<le> length ms \<Longrightarrow> take (Suc i) ms = take i ms @ [ms ! i]"
  by (simp add: take_Suc_conv_app_nth)

lemma at_prompt_grow:
  assumes "at_prompt ms i r p" "Suc i \<le> length ms" "\<not> isCompactionSummaryMessage (ms ! i)"
  shows "at_prompt ms (Suc i) (if isUndoAnchor (ms ! i) then r + 1 else r) p"
proof -
  have "p < i" using assms(1) by (simp add: at_prompt_def)
  then have "drop p (take (Suc i) ms) = drop p (take i ms) @ [ms ! i]" using assms(2) by (simp add: take_Suc_snoc)
  then show ?thesis using assms \<open>p < i\<close> by (simp add: at_prompt_def)
qed

lemma at_prompt_here: "Suc i \<le> length ms \<Longrightarrow> isUndoAnchor (ms ! i) \<Longrightarrow> at_prompt ms (Suc i) 1 i"
  using summary_not_anchor [of "ms ! i"] by (auto simp: at_prompt_def take_Suc_snoc)

definition cut_ok :: "context_message list \<Rightarrow> nat \<Rightarrow> int \<Rightarrow> undo_cut \<Rightarrow> undo_cut \<Rightarrow> bool" where
  "cut_ok ms n r c out \<longleftrightarrow> (let k = min r (int (anchors (take n ms))) in
     uc_removedCount out = uc_removedCount c + k \<and> (k = 0 \<longrightarrow> uc_cutIndex out = uc_cutIndex c)
     \<and> (0 < k \<longrightarrow> (\<exists>p. at_prompt ms n k p \<and> uc_cutIndex out = int (owned_start ms (ms ! p) p))))"

lemma cut_ok_skip:
  assumes "Suc i \<le> length ms" "\<not> is_mark (ms ! i)" "cut_ok ms i r c out"
  shows "cut_ok ms (Suc i) r c out"
proof -
  have m: "\<not> isCompactionSummaryMessage (ms ! i)" "\<not> isUndoAnchor (ms ! i)" using assms(2) by (auto simp: is_mark_def)
  then have "anchors (take (Suc i) ms) = anchors (take i ms)" using assms(1) by (simp add: take_Suc_snoc count_anchor_def)
  then show ?thesis using assms(3) at_prompt_grow [OF _ assms(1) m(1)] m(2) unfolding cut_ok_def Let_def by (metis (full_types))
qed

lemma cut_ok_prompt:
  assumes "Suc i \<le> length ms" "isUndoAnchor (ms ! i)" "0 < r"
    "cut_ok ms i (r - 1) (c\<lparr>uc_removedCount := uc_removedCount c + 1, uc_cutIndex := int (owned_start ms (ms ! i) i)\<rparr>) out"
  shows "cut_ok ms (Suc i) r c out"
proof -
  let ?k = "min (r - 1) (int (anchors (take i ms)))"
  have m: "\<not> isCompactionSummaryMessage (ms ! i)" using assms(2) summary_not_anchor by blast
  have k: "min r (int (anchors (take (Suc i) ms))) = ?k + 1" using assms(1-3) m by (simp add: take_Suc_snoc count_anchor_def)
  have "\<exists>p. at_prompt ms (Suc i) (?k + 1) p \<and> uc_cutIndex out = int (owned_start ms (ms ! p) p)"
  proof (cases "0 < ?k")
    case True
    then show ?thesis using assms(4) at_prompt_grow [OF _ assms(1) m] assms(2) unfolding cut_ok_def Let_def by (metis (full_types))
  next
    case False
    then have "?k = 0" using assms(3) by linarith
    then show ?thesis using assms(4) at_prompt_here [OF assms(1,2)] unfolding cut_ok_def Let_def by auto
  qed
  moreover have "uc_removedCount out = uc_removedCount c + (?k + 1)" using assms(4) by (simp add: cut_ok_def Let_def)
  moreover have "0 < ?k + 1" "?k + 1 \<noteq> 0" using assms(3) by linarith+
  ultimately show ?thesis unfolding cut_ok_def Let_def k by simp
qed

lemma cut_ok_nothing: "min r (int (anchors (take n ms))) = 0 \<Longrightarrow> uc_removedCount out = uc_removedCount c \<Longrightarrow> uc_cutIndex out = uc_cutIndex c \<Longrightarrow> cut_ok ms n r c out"
  by (simp add: cut_ok_def)

lemma undo_loop_spec: "n \<le> length ms \<Longrightarrow> 0 \<le> r \<Longrightarrow> cut_ok ms n r c (undo_loop ms n r c)"
proof (induction n arbitrary: r c)
  case (Suc i)
  consider "r = 0" | "0 < r" "isUndoAnchor (ms ! i)" | "0 < r" "isCompactionSummaryMessage (ms ! i)" | "0 < r" "\<not> is_mark (ms ! i)"
    using Suc.prems(2) unfolding is_mark_def by linarith
  then show ?case
  proof cases
    case 1
    then show ?thesis by (simp add: cut_ok_nothing)
  next
    case 2
    then have "\<not> is_injection (ms ! i)" "\<not> isCompactionSummaryMessage (ms ! i)" using injection_not_mark summary_not_anchor by (auto simp: is_mark_def)
    with 2 show ?thesis using Suc.prems by (simp add: Let_def) (rule cut_ok_prompt, simp_all add: Suc.IH)
  next
    case 3
    then have "\<not> is_injection (ms ! i)" using injection_not_mark by (auto simp: is_mark_def)
    with 3 show ?thesis using Suc.prems by (simp add: Let_def) (rule cut_ok_nothing, simp_all add: take_Suc_snoc count_anchor_def)
  next
    case 4
    then have "undo_loop ms (Suc i) r c = undo_loop ms i r c" by (simp add: is_mark_def Let_def)
    with 4 show ?thesis using Suc cut_ok_skip by simp
  qed
qed (simp add: cut_ok_nothing)

lemma undo_loop_stopped: "n \<le> length ms \<Longrightarrow> 0 \<le> r \<Longrightarrow> uc_stoppedAtCompaction (undo_loop ms n r c) \<longleftrightarrow> uc_stoppedAtCompaction c
    \<or> int (anchors (take n ms)) < r \<and> list_ex isCompactionSummaryMessage (take n ms)"
proof (induction n arbitrary: r c)
  case (Suc i)
  have "is_injection (ms ! i) \<Longrightarrow> \<not> isUndoAnchor (ms ! i) \<and> \<not> isCompactionSummaryMessage (ms ! i)" using injection_not_mark [of "ms ! i"] by (simp add: is_mark_def)
  then show ?case using Suc summary_not_anchor [of "ms ! i"] by (auto simp: Let_def take_Suc_snoc count_anchor_def)
qed simp

text \<open>The cut of a possible undo, and that it is possible exactly when enough prompts follow the last compaction.\<close>

lemma undo_possible:
  assumes "0 < n"
  shows "isFullyUndoable (computeUndoCut ms n) n \<longleftrightarrow> n \<le> int (anchors ms)"
  using undo_loop_spec [OF order_refl, of n ms "\<lparr>uc_cutIndex = -1, uc_removedCount = 0, uc_stoppedAtCompaction = False\<rparr>"] assms
  by (auto simp: computeUndoCut_def isFullyUndoable_def cut_ok_def Let_def min_def split: if_splits)

lemma undo_cut_at:
  assumes "0 < n" "n \<le> int (anchors ms)"
  obtains p where "at_prompt ms (length ms) n p" "uc_cutIndex (computeUndoCut ms n) = int (owned_start ms (ms ! p) p)"
  using undo_loop_spec [OF order_refl, of n ms "\<lparr>uc_cutIndex = -1, uc_removedCount = 0, uc_stoppedAtCompaction = False\<rparr>"] assms
  by (auto simp: computeUndoCut_def cut_ok_def Let_def min_def split: if_splits)

lemma at_prompt_unique: "at_prompt ms (length ms) r p \<Longrightarrow> at_prompt ms (length ms) r q \<Longrightarrow> p = q"
proof (induction p q rule: linorder_less_wlog)
  case (less p q)
  have "drop p ms = ms ! p # drop (Suc p) ms" using less.prems(1) by (simp add: at_prompt_def Cons_nth_drop_Suc)
  moreover have "drop q ms = drop (q - Suc p) (drop (Suc p) ms)" using less.hyps by simp
  ultimately have "drop p ms = ms ! p # take (q - Suc p) (drop (Suc p) ms) @ drop q ms" by (metis append_take_drop_id)
  then have "length (filter isUndoAnchor (drop q ms)) < length (filter isUndoAnchor (drop p ms))"
    using less.prems(1) by (simp only: at_prompt_def filter.simps filter_append length_append list.size if_True)
  with less.prems show ?case by (simp add: at_prompt_def)
qed auto

lemma owned_not_marks: "owned_start ms p i \<le> j \<Longrightarrow> j < i \<Longrightarrow> \<not> is_mark (ms ! j)"
  using owned_start_between owned_is_injection injection_not_mark by blast

lemma marks_take_owned:
  assumes "i \<le> length ms"
  shows "marks (take (owned_start ms p i) ms) = marks (take i ms)"
proof -
  let ?s = "owned_start ms p i"
  have "take i ms = take ?s ms @ drop ?s (take i ms)" using owned_start_le [of ms p i] by (metis append_take_drop_id min.absorb1 take_take)
  moreover have "\<forall>x\<in>set (drop ?s (take i ms)). \<not> is_mark x"
    using owned_not_marks [of ms p i] assms by (auto simp: in_set_conv_nth)
  ultimately show ?thesis by (metis append_Nil2 filter_False marks_def marks_simps(3))
qed

text \<open>What remains after the cut has that many prompts fewer.\<close>

lemma anchors_after_undo:
  assumes "0 < n" "n \<le> int (anchors ms)"
  shows "int (anchors (take (nat (uc_cutIndex (computeUndoCut ms n))) ms)) = int (anchors ms) - n"
proof -
  obtain p where p: "at_prompt ms (length ms) n p" "uc_cutIndex (computeUndoCut ms n) = int (owned_start ms (ms ! p) p)"
    using undo_cut_at [OF assms] by blast
  have "anchors (take (owned_start ms (ms ! p) p) ms) = anchors (take p ms)"
    by (rule anchors_marks [OF marks_take_owned]) (use p(1) in \<open>simp add: at_prompt_def\<close>)
  moreover have "anchors ms = anchors (take p ms) + length (filter isUndoAnchor (drop p ms))"
    using anchors_append [of "drop p ms" "take p ms"] p(1) by (simp add: at_prompt_def)
  ultimately show ?thesis using p by (simp add: at_prompt_def)
qed

end
