(* ===== verification/Compaction.thy ===== *)
theory Compaction
  imports Message "HOL-Library.Extended_Nat"
begin

section \<open>Where to compact a history (\<^verbatim>\<open>fullCompaction/strategy.ts\<close>)\<close>

text \<open>
  When a conversation outgrows its context window, a prefix of the messages is replaced by a summary. A prefix
  is cut where no tool exchange is open. \<open>est\<close> is the size estimate of a message. Sizes are integers; a ratio
  is the rational value of a double, and \<open>mul\<close> the double product, so no exactness is assumed of it. A limit
  that may be \<^verbatim>\<open>Infinity\<close> is an extended natural number.
\<close>

datatype compaction_source = Manual | Auto

record compaction_config =
  cf_triggerRatio :: rat
  cf_blockRatio :: rat
  cf_reservedContextSize :: int
  cf_maxCompactionPerTurn :: enat
  cf_maxOverflowCompactionAttempts :: nat
  cf_maxRecentMessages :: enat
  cf_maxRecentUserMessages :: enat
  cf_maxRecentSizeRatio :: rat
  cf_minOverflowReductionRatio :: rat

definition DEFAULT_COMPACTION_CONFIG :: compaction_config where
  "DEFAULT_COMPACTION_CONFIG =
     \<lparr>cf_triggerRatio = 85 / 100, cf_blockRatio = 85 / 100, cf_reservedContextSize = 50000, cf_maxCompactionPerTurn = \<infinity>,
      cf_maxOverflowCompactionAttempts = 3, cf_maxRecentMessages = 4, cf_maxRecentUserMessages = \<infinity>,
      cf_maxRecentSizeRatio = 2 / 10, cf_minOverflowReductionRatio = 5 / 100\<rparr>"

text \<open>A strategy: the window size its provider returns and its configuration.\<close>

record strategy =
  st_maxSize :: int
  st_config :: compaction_config

definition shouldUseReservedContext :: "strategy \<Rightarrow> int \<Rightarrow> bool" where
  "shouldUseReservedContext s used \<longleftrightarrow>
     (let reserved = cf_reservedContextSize (st_config s)
      in reserved > 0 \<and> reserved < st_maxSize s \<and> used + reserved \<ge> st_maxSize s)"

definition shouldCompact :: "(int \<Rightarrow> rat \<Rightarrow> rat) \<Rightarrow> strategy \<Rightarrow> int \<Rightarrow> bool" where
  "shouldCompact mul s used \<longleftrightarrow>
     (if st_maxSize s \<le> 0 then False
      else of_int used \<ge> mul (st_maxSize s) (cf_triggerRatio (st_config s)) \<or> shouldUseReservedContext s used)"

definition shouldBlock :: "(int \<Rightarrow> rat \<Rightarrow> rat) \<Rightarrow> strategy \<Rightarrow> int \<Rightarrow> bool" where
  "shouldBlock mul s used \<longleftrightarrow>
     (if st_maxSize s \<le> 0 then False
      else of_int used \<ge> mul (st_maxSize s) (cf_blockRatio (st_config s)) \<or> shouldUseReservedContext s used)"

subsection \<open>Where a history may be split\<close>

text \<open>Scanning back from a tool result: are there fewer results than calls?\<close>

fun open_exchange :: "'a message_scheme list \<Rightarrow> nat \<Rightarrow> nat \<Rightarrow> bool" where
  "open_exchange ms 0 results =
     (if msg_role (ms ! 0) = RTool then False
      else msg_role (ms ! 0) = RAssistant \<and> length (msg_toolCalls (ms ! 0)) > results)"
| "open_exchange ms (Suc i) results =
     (if msg_role (ms ! Suc i) = RTool then open_exchange ms i (Suc results)
      else msg_role (ms ! Suc i) = RAssistant \<and> length (msg_toolCalls (ms ! Suc i)) > results)"

definition prefixEndsWithOpenToolExchange :: "'a message_scheme list \<Rightarrow> nat \<Rightarrow> bool" where
  "prefixEndsWithOpenToolExchange ms i \<longleftrightarrow> i < length ms \<and> msg_role (ms ! i) = RTool \<and> open_exchange ms i 0"

definition canSplitAfter :: "'a message_scheme list \<Rightarrow> nat \<Rightarrow> bool" where
  "canSplitAfter ms i \<longleftrightarrow>
     (if \<not> i < length ms then False
      else if msg_role (ms ! i) = RUser then False
      else if msg_role (ms ! i) = RAssistant \<and> length (msg_toolCalls (ms ! i)) > 0 then False
      else if Suc i < length ms \<and> msg_role (ms ! Suc i) = RTool then False
      else if prefixEndsWithOpenToolExchange ms i then False
      else True)"

subsection \<open>Fitting a count to the window\<close>

text \<open>The loop from \<open>n\<close> down to 1: \<open>size\<close> is the size of the first \<open>n + 1\<close> messages, \<open>best\<close> the last split seen.\<close>

fun fit_loop :: "('a message_scheme \<Rightarrow> nat) \<Rightarrow> int \<Rightarrow> 'a message_scheme list \<Rightarrow> nat \<Rightarrow> int \<Rightarrow> nat option \<Rightarrow> nat option" where
  "fit_loop est maxSize ms 0 sz best = best"
| "fit_loop est maxSize ms (Suc n) sz best =
     (let sz' = sz - int (est (ms ! Suc n))
      in if \<not> canSplitAfter ms n then fit_loop est maxSize ms n sz' best
         else if sz' \<le> maxSize then Some (Suc n)
         else fit_loop est maxSize ms n sz' (Some (Suc n)))"

definition fitCompactCountToWindow :: "('a message_scheme \<Rightarrow> nat) \<Rightarrow> strategy \<Rightarrow> 'a message_scheme list \<Rightarrow> nat \<Rightarrow> nat" where
  "fitCompactCountToWindow est s ms compactedCount =
     (if st_maxSize s \<le> 0 \<or> compactedCount = 0 then compactedCount
      else let sz = int (sum_list (map est (take compactedCount ms)))
           in if sz \<le> st_maxSize s then compactedCount
              else (case fit_loop est (st_maxSize s) ms (compactedCount - 1) sz None of Some n \<Rightarrow> n | None \<Rightarrow> compactedCount))"

subsection \<open>How much to compact\<close>

text \<open>A manual compaction takes everything up to the last split after the first message.\<close>

fun manual_count :: "'a message_scheme list \<Rightarrow> nat \<Rightarrow> nat" where
  "manual_count ms 0 = 0"
| "manual_count ms (Suc i) = (if canSplitAfter ms (Suc i) then Suc (Suc i) else manual_count ms i)"

text \<open>An automatic one keeps recent messages: the loop over their number, from 1.\<close>

function recent_loop :: "(int \<Rightarrow> rat \<Rightarrow> rat) \<Rightarrow> ('a message_scheme \<Rightarrow> nat) \<Rightarrow> strategy \<Rightarrow> 'a message_scheme list \<Rightarrow> nat \<Rightarrow> nat \<Rightarrow> int
    \<Rightarrow> nat option \<Rightarrow> nat option" where
  "recent_loop mul est s ms recent users sz best =
     (if \<not> recent < length ms then best
      else let split = length ms - recent - 1; m2 = ms ! (length ms - recent);
               users' = (if msg_role m2 = RUser then Suc users else users);
               sz' = sz + int (est m2);
               best' = (if canSplitAfter ms split then Some (Suc split) else best);
               reachesMax = (enat recent \<ge> cf_maxRecentMessages (st_config s) \<or> enat users' \<ge> cf_maxRecentUserMessages (st_config s)
                 \<or> of_int sz' \<ge> mul (st_maxSize s) (cf_maxRecentSizeRatio (st_config s)))
           in if reachesMax \<and> best' \<noteq> None then best' else recent_loop mul est s ms (Suc recent) users' sz' best')"
  by auto
termination by (relation "measure (\<lambda>(mul, est, s, ms, recent, users, sz, best). length ms - recent)") auto

declare recent_loop.simps [simp del]

definition computeCompactCount :: "(int \<Rightarrow> rat \<Rightarrow> rat) \<Rightarrow> ('a message_scheme \<Rightarrow> nat) \<Rightarrow> strategy \<Rightarrow> 'a message_scheme list \<Rightarrow> compaction_source \<Rightarrow> nat" where
  "computeCompactCount mul est s ms source =
     (case source of
        Manual \<Rightarrow> (case manual_count ms (length ms - 1) of 0 \<Rightarrow> 0 | Suc n \<Rightarrow> fitCompactCountToWindow est s ms (Suc n))
      | Auto \<Rightarrow> fitCompactCountToWindow est s ms (case recent_loop mul est s ms 1 0 0 None of Some n \<Rightarrow> n | None \<Rightarrow> 0))"

text \<open>After an overflow the compacted part must shrink, by a minimum amount where a split allows it.\<close>

fun overflow_loop :: "('a message_scheme \<Rightarrow> nat) \<Rightarrow> int \<Rightarrow> 'a message_scheme list \<Rightarrow> nat \<Rightarrow> int \<Rightarrow> nat option \<Rightarrow> nat option" where
  "overflow_loop est minReduced ms 0 reduced best = best"
| "overflow_loop est minReduced ms (Suc i) reduced best =
     (let reduced' = reduced + int (est (ms ! Suc (Suc i)))
      in if canSplitAfter ms (Suc i)
         then (if reduced' \<ge> minReduced then Some (Suc (Suc i)) else overflow_loop est minReduced ms i reduced' (Some (Suc (Suc i))))
         else overflow_loop est minReduced ms i reduced' best)"

definition reduceCompactOnOverflow :: "(int \<Rightarrow> rat \<Rightarrow> rat) \<Rightarrow> ('a message_scheme \<Rightarrow> nat) \<Rightarrow> strategy \<Rightarrow> 'a message_scheme list \<Rightarrow> nat" where
  "reduceCompactOnOverflow mul est s ms =
     (case overflow_loop est (max 1 \<lceil>mul (st_maxSize s) (cf_minOverflowReductionRatio (st_config s))\<rceil>) ms (length ms - 2) 0 None of
        Some n \<Rightarrow> n | None \<Rightarrow> length ms)"

definition checkAfterStep :: "strategy \<Rightarrow> bool" where
  "checkAfterStep s \<longleftrightarrow> cf_triggerRatio (st_config s) \<noteq> cf_blockRatio (st_config s)"

subsection \<open>The strategy of a running agent\<close>

record model_context =
  mc_maxInputTokens :: "int option"
  mc_maxContextTokens :: int
  mc_compactionTriggerRatio :: "rat option"
  mc_reservedContextSize :: "int option"

definition runtime_config :: "model_context \<Rightarrow> compaction_config" where
  "runtime_config m =
     (let trigger = (case mc_compactionTriggerRatio m of None \<Rightarrow> cf_triggerRatio DEFAULT_COMPACTION_CONFIG | Some r \<Rightarrow> r)
      in DEFAULT_COMPACTION_CONFIG\<lparr>cf_triggerRatio := trigger, cf_blockRatio := max trigger (cf_blockRatio DEFAULT_COMPACTION_CONFIG),
           cf_reservedContextSize := (case mc_reservedContextSize m of None \<Rightarrow> cf_reservedContextSize DEFAULT_COMPACTION_CONFIG | Some n \<Rightarrow> n)\<rparr>)"

definition window_size :: "model_context \<Rightarrow> int" where
  "window_size m = (case mc_maxInputTokens m of None \<Rightarrow> mc_maxContextTokens m | Some n \<Rightarrow> n)"

definition delegate :: "model_context \<Rightarrow> strategy" where
  "delegate m = \<lparr>st_maxSize = window_size m, st_config = runtime_config m\<rparr>"

definition windowDelegate :: "model_context \<Rightarrow> strategy" where
  "windowDelegate m = \<lparr>st_maxSize = window_size m, st_config = DEFAULT_COMPACTION_CONFIG\<rparr>"

definition runtime_shouldCompact :: "(int \<Rightarrow> rat \<Rightarrow> rat) \<Rightarrow> model_context \<Rightarrow> int \<Rightarrow> bool" where
  "runtime_shouldCompact mul m used = shouldCompact mul (delegate m) used"

definition runtime_shouldBlock :: "(int \<Rightarrow> rat \<Rightarrow> rat) \<Rightarrow> model_context \<Rightarrow> int \<Rightarrow> bool" where
  "runtime_shouldBlock mul m used = shouldBlock mul (delegate m) used"

definition runtime_computeCompactCount :: "(int \<Rightarrow> rat \<Rightarrow> rat) \<Rightarrow> model_context \<Rightarrow> message list \<Rightarrow> compaction_source \<Rightarrow> nat" where
  "runtime_computeCompactCount mul m ms source = computeCompactCount mul estimateTokensForMessage (windowDelegate m) ms source"

definition runtime_reduceCompactOnOverflow :: "(int \<Rightarrow> rat \<Rightarrow> rat) \<Rightarrow> model_context \<Rightarrow> message list \<Rightarrow> nat" where
  "runtime_reduceCompactOnOverflow mul m ms = reduceCompactOnOverflow mul estimateTokensForMessage (windowDelegate m) ms"

definition runtime_checkAfterStep :: "model_context \<Rightarrow> bool" where
  "runtime_checkAfterStep m \<longleftrightarrow> cf_triggerRatio (runtime_config m) \<noteq> cf_blockRatio (runtime_config m)"

subsection \<open>Properties of the counts\<close>

lemma canSplit_inside: "canSplitAfter ms i \<Longrightarrow> i < length ms"
  by (simp add: canSplitAfter_def split: if_splits)

definition prefix_size :: "('a message_scheme \<Rightarrow> nat) \<Rightarrow> 'a message_scheme list \<Rightarrow> nat \<Rightarrow> int" where
  "prefix_size est ms n = int (sum_list (map est (take n ms)))"

text \<open>No count up to \<open>n\<close> is a split; \<open>k\<close> is the greatest split up to \<open>n\<close> that fits, or the least of all.\<close>

definition no_split :: "'a message_scheme list \<Rightarrow> nat \<Rightarrow> bool" where
  "no_split ms n \<longleftrightarrow> (\<forall>m. 0 < m \<and> m \<le> n \<longrightarrow> \<not> canSplitAfter ms (m - 1))"

definition best_fit :: "('a message_scheme \<Rightarrow> nat) \<Rightarrow> int \<Rightarrow> 'a message_scheme list \<Rightarrow> nat \<Rightarrow> nat \<Rightarrow> bool" where
  "best_fit est maxSize ms n k \<longleftrightarrow> 0 < k \<and> k \<le> n \<and> canSplitAfter ms (k - 1) \<and> (prefix_size est ms k \<le> maxSize \<or> no_split ms (k - 1))
     \<and> (\<forall>m. k < m \<and> m \<le> n \<and> canSplitAfter ms (m - 1) \<longrightarrow> prefix_size est ms m > maxSize)"

lemma best_fit_grow:
  "best_fit est maxSize ms n k \<Longrightarrow> \<not> canSplitAfter ms n \<or> prefix_size est ms (Suc n) > maxSize \<Longrightarrow> best_fit est maxSize ms (Suc n) k"
  by (auto simp: best_fit_def le_Suc_eq)

lemma best_fit_top:
  "canSplitAfter ms n \<Longrightarrow> prefix_size est ms (Suc n) \<le> maxSize \<or> no_split ms n \<Longrightarrow> best_fit est maxSize ms (Suc n) (Suc n)"
  by (auto simp: best_fit_def)

lemma no_split_Suc: "no_split ms n \<Longrightarrow> \<not> canSplitAfter ms n \<Longrightarrow> no_split ms (Suc n)"
  by (auto simp: no_split_def le_Suc_eq)

lemma fit_loop_cases:
  assumes "sz = prefix_size est ms (Suc n)" "n < length ms"
  shows "(fit_loop est maxSize ms n sz best = best \<and> no_split ms n) \<or> (\<exists>k. fit_loop est maxSize ms n sz best = Some k \<and> best_fit est maxSize ms n k)"
  using assms
proof (induction est maxSize ms n sz best rule: fit_loop.induct)
  case (1 est maxSize ms sz best)
  then show ?case by (simp add: no_split_def)
next
  case (2 est maxSize ms n sz best)
  let ?sz = "sz - int (est (ms ! Suc n))"
  have sz: "?sz = prefix_size est ms (Suc n)" and n: "n < length ms"
    using 2(3,4) take_Suc_conv_app_nth [of "Suc n" ms] by (simp_all add: prefix_size_def)
  consider "\<not> canSplitAfter ms n" | "canSplitAfter ms n" "?sz \<le> maxSize" | "canSplitAfter ms n" "\<not> ?sz \<le> maxSize" by blast
  then show ?case
  proof cases
    case 1
    with 2(1) [OF refl 1 sz n] show ?thesis using best_fit_grow no_split_Suc by fastforce
  next
    case 2
    then show ?thesis using best_fit_top [of ms n est maxSize] sz by simp
  next
    case 3
    from 3 sz have big: "prefix_size est ms (Suc n) > maxSize" by simp
    have "\<not> \<not> canSplitAfter ms n" using 3 by simp
    from 2(2) [OF refl this 3(2) sz n] 3 show ?thesis
      using best_fit_grow [of est maxSize ms n] best_fit_top [of ms n est maxSize] big by fastforce
  qed
qed

lemma fit_count:
  assumes "c = 0 \<or> canSplitAfter ms (c - 1)" "c \<le> length ms"
  shows "let n = fitCompactCountToWindow est s ms c in
    if c = 0 then n = 0 else if st_maxSize s \<le> 0 then n = c else best_fit est (st_maxSize s) ms c n"
proof (cases "st_maxSize s \<le> 0 \<or> c = 0 \<or> prefix_size est ms c \<le> st_maxSize s")
  case True
  then have "fitCompactCountToWindow est s ms c = c" by (auto simp: fitCompactCountToWindow_def Let_def prefix_size_def)
  with True assms show ?thesis by (auto simp: best_fit_def)
next
  case False
  then obtain d where c: "c = Suc d" by (cases c) auto
  define r where "r = fit_loop est (st_maxSize s) ms d (prefix_size est ms c) None"
  have n: "fitCompactCountToWindow est s ms c = (case r of Some n \<Rightarrow> n | None \<Rightarrow> c)"
    using False unfolding fitCompactCountToWindow_def Let_def r_def prefix_size_def c by simp
  have "d < length ms" using assms(2) c by simp
  from fit_loop_cases [OF refl this, where est = est and maxSize = "st_maxSize s" and best = None]
  have "(r = None \<and> no_split ms d) \<or> (\<exists>k. r = Some k \<and> best_fit est (st_maxSize s) ms d k)" by (simp only: r_def c)
  then consider "r = None" "no_split ms d" | k where "r = Some k" "best_fit est (st_maxSize s) ms d k" by blast
  then have "best_fit est (st_maxSize s) ms c (fitCompactCountToWindow est s ms c)"
  proof cases
    case 1
    then show ?thesis using best_fit_top [of ms d est "st_maxSize s"] assms(1) n by (simp add: c)
  next
    case (2 k)
    then show ?thesis using best_fit_grow [of est "st_maxSize s" ms d k] False n by (simp add: c)
  qed
  with False show ?thesis by (simp add: Let_def)
qed

lemma manual_count_max:
  "i < length ms \<or> ms = [] \<and> i = 0 \<Longrightarrow> manual_count ms i \<le> length ms \<and> (manual_count ms i = 0 \<or> manual_count ms i > 1 \<and> canSplitAfter ms (manual_count ms i - 1))
    \<and> (\<forall>m\<in>{1<..Suc i}. canSplitAfter ms (m - 1) \<longrightarrow> m \<le> manual_count ms i)"
proof (induction ms i rule: manual_count.induct)
  case (2 ms i)
  have "{1<..Suc (Suc i)} = insert (Suc (Suc i)) {1<..Suc i}" by auto
  with 2 show ?case by auto
qed auto

lemma recent_loop_step:
  assumes "recent < length ms"
  shows "\<exists>stop users' sz'. recent_loop mul est s ms recent users sz best =
    (let best' = (if canSplitAfter ms (length ms - recent - 1) then Some (Suc (length ms - recent - 1)) else best)
     in if stop \<and> best' \<noteq> None then best' else recent_loop mul est s ms (Suc recent) users' sz' best')"
  by (subst recent_loop.simps) (simp only: assms Let_def not_True_eq_False if_False, intro exI, rule refl)

lemma recent_loop_split:
  "best = None \<or> (\<exists>n. best = Some n \<and> 0 < n \<and> n \<le> length ms \<and> canSplitAfter ms (n - 1)) \<Longrightarrow> 0 < recent \<Longrightarrow>
     recent_loop mul est s ms recent users sz best = Some n \<Longrightarrow> 0 < n \<and> n \<le> length ms \<and> canSplitAfter ms (n - 1)"
proof (induction "length ms - recent" arbitrary: recent users sz best)
  case 0
  then have "recent_loop mul est s ms recent users sz best = best" by (subst recent_loop.simps) simp
  with 0 show ?case by auto
next
  case (Suc d)
  then have r: "recent < length ms" by simp
  define best' where "best' = (if canSplitAfter ms (length ms - recent - 1) then Some (Suc (length ms - recent - 1)) else best)"
  obtain stop users' sz' where e: "recent_loop mul est s ms recent users sz best =
      (if stop \<and> best' \<noteq> None then best' else recent_loop mul est s ms (Suc recent) users' sz' best')"
    using recent_loop_step [OF r, of mul est s users sz best] unfolding Let_def best'_def by blast
  have b: "best' = None \<or> (\<exists>n. best' = Some n \<and> 0 < n \<and> n \<le> length ms \<and> canSplitAfter ms (n - 1))"
    using Suc.prems(1) canSplit_inside [of ms "length ms - recent - 1"] by (auto simp: best'_def)
  have "d = length ms - Suc recent" using Suc.hyps(2) by simp
  from Suc.hyps(1) [OF this b, of users' sz'] b e Suc.prems(3) show ?case by (auto split: if_splits)
qed

lemma compact_count:
  obtains c where "c \<le> length ms" "c = 0 \<or> canSplitAfter ms (c - 1)" "source = Manual \<Longrightarrow> c = manual_count ms (length ms - 1)"
    "computeCompactCount mul est s ms source = fitCompactCountToWindow est s ms c"
proof -
  define c where "c = (case source of Manual \<Rightarrow> manual_count ms (length ms - 1) | Auto \<Rightarrow> (case recent_loop mul est s ms 1 0 0 None of Some n \<Rightarrow> n | None \<Rightarrow> 0))"
  have n: "computeCompactCount mul est s ms source = fitCompactCountToWindow est s ms c"
  proof (cases source)
    case Manual
    have "fitCompactCountToWindow est s ms 0 = 0" by (simp add: fitCompactCountToWindow_def)
    then show ?thesis using Manual by (cases "manual_count ms (length ms - 1)") (simp_all add: computeCompactCount_def c_def)
  next
    case Auto
    then show ?thesis by (simp add: computeCompactCount_def c_def)
  qed
  have "manual_count ms (length ms - 1) \<le> length ms \<and> (manual_count ms (length ms - 1) = 0 \<or> canSplitAfter ms (manual_count ms (length ms - 1) - 1))"
    using manual_count_max [of "length ms - 1" ms] by (cases ms) auto
  moreover have "0 < k \<and> k \<le> length ms \<and> canSplitAfter ms (k - 1)" if "recent_loop mul est s ms 1 0 0 None = Some k" for k
    by (rule recent_loop_split [OF _ _ that]) simp_all
  ultimately have "c \<le> length ms \<and> (c = 0 \<or> canSplitAfter ms (c - 1))"
    unfolding c_def by (cases source; cases "recent_loop mul est s ms 1 0 0 None") simp_all
  then show thesis using that [of c] n by (auto simp: c_def split: compaction_source.split)
qed

lemma open_exchange_results:
  "i + r < length ms \<Longrightarrow> msg_role (ms ! i) \<noteq> RTool \<Longrightarrow> (\<And>j. i < j \<Longrightarrow> j \<le> i + r \<Longrightarrow> msg_role (ms ! j) = RTool)
   \<Longrightarrow> open_exchange ms (i + r) k \<longleftrightarrow> msg_role (ms ! i) = RAssistant \<and> length (msg_toolCalls (ms ! i)) > k + r"
proof (induction r arbitrary: k)
  case 0
  then show ?case by (cases i) auto
next
  case (Suc r)
  have "msg_role (ms ! Suc (i + r)) = RTool" using Suc.prems(3) [of "Suc (i + r)"] by simp
  then have "open_exchange ms (i + Suc r) k = open_exchange ms (i + r) (Suc k)" by simp
  also have "\<dots> \<longleftrightarrow> msg_role (ms ! i) = RAssistant \<and> length (msg_toolCalls (ms ! i)) > Suc k + r"
    using Suc.IH [of "Suc k"] Suc.prems by simp
  finally show ?case by simp
qed

text \<open>A history as the agent records it: the messages after an assistant message are tool results, as many as it has
  calls, or fewer at the end of the history.\<close>

definition exchanges_in_order :: "'a message_scheme list \<Rightarrow> bool" where
  "exchanges_in_order ms \<longleftrightarrow> (\<forall>i<length ms. msg_role (ms ! i) = RAssistant \<longrightarrow>
     (\<forall>j<length ms. i < j \<and> j \<le> i + length (msg_toolCalls (ms ! i)) \<longrightarrow> msg_role (ms ! j) = RTool))"

lemma split_closes_exchange:
  assumes "exchanges_in_order ms" "canSplitAfter ms n" "i \<le> n" "msg_role (ms ! i) = RAssistant"
  shows "i + length (msg_toolCalls (ms ! i)) \<le> n"
proof (rule ccontr)
  assume open': "\<not> i + length (msg_toolCalls (ms ! i)) \<le> n"
  have n: "n < length ms" by (rule canSplit_inside [OF assms(2)])
  show False
  proof (cases "i = n")
    case True
    with assms(2,4) open' show False by (auto simp: canSplitAfter_def split: if_splits)
  next
    case False
    have tools: "msg_role (ms ! j) = RTool" if "i < j" "j \<le> n" for j
    proof -
      have "i < length ms" "j < length ms" "j \<le> i + length (msg_toolCalls (ms ! i))" using n that open' by linarith+
      with assms(1,4) that(1) show ?thesis unfolding exchanges_in_order_def by blast
    qed
    have nd: "n = i + (n - i)" using assms(3) by simp
    have "open_exchange ms (i + (n - i)) 0 \<longleftrightarrow> msg_role (ms ! i) = RAssistant \<and> length (msg_toolCalls (ms ! i)) > 0 + (n - i)"
      by (rule open_exchange_results) (use n nd tools assms(4) in auto)
    then have "open_exchange ms n 0" using open' assms(3,4) nd by auto
    then have "prefixEndsWithOpenToolExchange ms n" using n tools [of n] False assms(3) by (simp add: prefixEndsWithOpenToolExchange_def)
    with assms(2) show False by (auto simp: canSplitAfter_def split: if_splits)
  qed
qed

text \<open>A compaction never tears a tool exchange: in the compacted prefix every assistant message has all its results, and
  the kept messages do not begin with one.\<close>

lemma compact_closes_exchanges:
  assumes "exchanges_in_order ms" "n = computeCompactCount mul est s ms source"
  shows "n \<le> length ms \<and> (\<forall>i<n. msg_role (ms ! i) = RAssistant \<longrightarrow> i + length (msg_toolCalls (ms ! i)) < n)
    \<and> (0 < n \<and> n < length ms \<longrightarrow> msg_role (ms ! n) \<noteq> RTool)"
proof -
  obtain c where c: "c \<le> length ms" "c = 0 \<or> canSplitAfter ms (c - 1)" "n = fitCompactCountToWindow est s ms c"
    using compact_count [of ms source mul est s] assms(2) by metis
  have n: "n \<le> length ms" "n = 0 \<or> canSplitAfter ms (n - 1)"
    using fit_count [OF c(2,1), of est s] c by (auto simp: Let_def best_fit_def split: if_splits)
  show ?thesis
  proof (cases "n = 0")
    case False
    then have s: "canSplitAfter ms (n - 1)" using n(2) by simp
    have "i + length (msg_toolCalls (ms ! i)) < n" if "i < n" "msg_role (ms ! i) = RAssistant" for i
      using split_closes_exchange [OF assms(1) s _ that(2)] that(1) by linarith
    moreover have "n < length ms \<Longrightarrow> msg_role (ms ! n) \<noteq> RTool" using s False by (auto simp: canSplitAfter_def split: if_splits)
    ultimately show ?thesis using n(1) by blast
  qed simp
qed

text \<open>A manual compaction takes the longest prefix that ends at a possible split and fits the window; when none fits,
  the shortest one, and nothing only when the history has no split beyond its first message.\<close>

theorem manual_count_best:
  assumes "st_maxSize s > 0" "n = computeCompactCount mul est s ms Manual"
  shows "if \<exists>m. 1 < m \<and> m \<le> length ms \<and> canSplitAfter ms (m - 1)
    then canSplitAfter ms (n - 1)
      \<and> (\<forall>m. n < m \<and> m \<le> length ms \<and> canSplitAfter ms (m - 1) \<longrightarrow> prefix_size est ms m > st_maxSize s)
      \<and> (prefix_size est ms n \<le> st_maxSize s \<or> (\<forall>m. 0 < m \<and> m < n \<longrightarrow> \<not> canSplitAfter ms (m - 1)))
    else n = 0"
proof -
  obtain c where c: "c \<le> length ms" "c = 0 \<or> canSplitAfter ms (c - 1)" "c = manual_count ms (length ms - 1)" "n = fitCompactCountToWindow est s ms c"
    using compact_count [of ms Manual mul est s] assms(2) by metis
  have man: "c = 0 \<or> 1 < c \<and> canSplitAfter ms (c - 1)" "\<And>m. 1 < m \<Longrightarrow> m \<le> length ms \<Longrightarrow> canSplitAfter ms (m - 1) \<Longrightarrow> m \<le> c"
    using manual_count_max [of "length ms - 1" ms] by (cases ms; auto simp: c(3))+
  show ?thesis
  proof (cases "c = 0")
    case True
    then show ?thesis using man(2) c(4) by (auto simp: fitCompactCountToWindow_def)
  next
    case False
    then have "best_fit est (st_maxSize s) ms c n" using fit_count [OF c(2,1), of est s] assms(1) c(4) by (simp add: Let_def)
    moreover have "\<exists>m. 1 < m \<and> m \<le> length ms \<and> canSplitAfter ms (m - 1)" using False man(1) c(1) by blast
    moreover have "m \<le> c" if "n < m" "m \<le> length ms" "canSplitAfter ms (m - 1)" for m
      using man that calculation(1) by (auto simp: best_fit_def)
    moreover have "no_split ms (n - 1) \<Longrightarrow> 0 < m \<Longrightarrow> m < n \<Longrightarrow> \<not> canSplitAfter ms (m - 1)" for m by (auto simp: no_split_def)
    ultimately show ?thesis by (auto simp: best_fit_def)
  qed
qed

subsection \<open>Shrinking after an overflow\<close>

definition suffix_size :: "('a message_scheme \<Rightarrow> nat) \<Rightarrow> 'a message_scheme list \<Rightarrow> nat \<Rightarrow> int" where
  "suffix_size est ms n = int (sum_list (map est (drop n ms)))"

text \<open>\<open>k\<close> is the greatest split below the end whose rest is large enough, or the least split of all.\<close>

definition shrinks_to :: "('a message_scheme \<Rightarrow> nat) \<Rightarrow> int \<Rightarrow> 'a message_scheme list \<Rightarrow> nat \<Rightarrow> nat \<Rightarrow> bool" where
  "shrinks_to est minReduced ms i k \<longleftrightarrow> 1 < k \<and> k \<le> Suc i \<and> canSplitAfter ms (k - 1)
     \<and> (suffix_size est ms k \<ge> minReduced \<or> (\<forall>m. 1 < m \<and> m < k \<longrightarrow> \<not> canSplitAfter ms (m - 1)))"

lemma overflow_loop_cases:
  assumes "reduced = suffix_size est ms (Suc (Suc i))" "Suc i < length ms"
  shows "(overflow_loop est minReduced ms i reduced best = best \<and> (\<forall>m. 1 < m \<and> m \<le> Suc i \<longrightarrow> \<not> canSplitAfter ms (m - 1)))
    \<or> (\<exists>k. overflow_loop est minReduced ms i reduced best = Some k \<and> shrinks_to est minReduced ms i k)"
  using assms
proof (induction est minReduced ms i reduced best rule: overflow_loop.induct)
  case (2 est minReduced ms i reduced best)
  let ?r = "reduced + int (est (ms ! Suc (Suc i)))"
  have r: "?r = suffix_size est ms (Suc (Suc i))" and i: "Suc i < length ms"
    using 2(3,4) Cons_nth_drop_Suc [of "Suc (Suc i)" ms, symmetric] by (simp_all add: suffix_size_def)
  have grow: "shrinks_to est minReduced ms i k \<Longrightarrow> shrinks_to est minReduced ms (Suc i) k" for k by (auto simp: shrinks_to_def)
  have none: "\<forall>m. 1 < m \<and> m \<le> Suc i \<longrightarrow> \<not> canSplitAfter ms (m - 1) \<Longrightarrow> canSplitAfter ms (Suc i) \<Longrightarrow> shrinks_to est minReduced ms (Suc i) (Suc (Suc i))"
    by (auto simp: shrinks_to_def)
  consider "\<not> canSplitAfter ms (Suc i)" | "canSplitAfter ms (Suc i)" "?r \<ge> minReduced" | "canSplitAfter ms (Suc i)" "\<not> ?r \<ge> minReduced" by blast
  then show ?case
  proof cases
    case 1
    have "(\<forall>m. 1 < m \<and> m \<le> Suc i \<longrightarrow> \<not> canSplitAfter ms (m - 1)) \<Longrightarrow> (\<forall>m. 1 < m \<and> m \<le> Suc (Suc i) \<longrightarrow> \<not> canSplitAfter ms (m - 1))"
      using 1 by (auto simp: le_Suc_eq)
    with 2(2) [OF refl 1 r i] 1 grow show ?thesis by fastforce
  next
    case 2
    then show ?thesis using r by (simp add: shrinks_to_def)
  next
    case 3
    from 2(1) [OF refl 3(1,2) r i] 3 grow none show ?thesis by fastforce
  qed
qed (auto simp: le_Suc_eq)

text \<open>When the summary request still overflows, the compacted prefix shrinks strictly whenever a split is left
  before its last message, by the required amount or to the shortest prefix; the count stays as it is only when
  there is none. So repeated overflows end.\<close>

theorem overflow_shrinks:
  assumes "n = reduceCompactOnOverflow mul est s ms"
  shows "if \<exists>m. 1 < m \<and> m < length ms \<and> canSplitAfter ms (m - 1)
    then 1 < n \<and> n < length ms \<and> canSplitAfter ms (n - 1)
      \<and> (suffix_size est ms n \<ge> max 1 \<lceil>mul (st_maxSize s) (cf_minOverflowReductionRatio (st_config s))\<rceil>
         \<or> (\<forall>m. 1 < m \<and> m < n \<longrightarrow> \<not> canSplitAfter ms (m - 1)))
    else n = length ms"
proof (cases "length ms < 2")
  case True
  then have "length ms - 2 = 0" by simp
  then have "n = length ms" using assms by (simp add: reduceCompactOnOverflow_def)
  then show ?thesis using True by auto
next
  case False
  define i where "i = length ms - 2"
  have i: "length ms = Suc (Suc i)" using False by (simp add: i_def)
  let ?min = "max 1 \<lceil>mul (st_maxSize s) (cf_minOverflowReductionRatio (st_config s))\<rceil>"
  have "(0::int) = suffix_size est ms (Suc (Suc i))" by (simp add: suffix_size_def i)
  moreover have "Suc i < length ms" by (simp add: i)
  ultimately have "(overflow_loop est ?min ms i 0 None = None \<and> (\<forall>m. 1 < m \<and> m \<le> Suc i \<longrightarrow> \<not> canSplitAfter ms (m - 1)))
    \<or> (\<exists>k. overflow_loop est ?min ms i 0 None = Some k \<and> shrinks_to est ?min ms i k)" by (rule overflow_loop_cases)
  then show ?thesis
  proof
    assume n: "overflow_loop est ?min ms i 0 None = None \<and> (\<forall>m. 1 < m \<and> m \<le> Suc i \<longrightarrow> \<not> canSplitAfter ms (m - 1))"
    then have "n = length ms" using assms by (simp add: reduceCompactOnOverflow_def i_def)
    then show ?thesis using n i by auto
  next
    assume "\<exists>k. overflow_loop est ?min ms i 0 None = Some k \<and> shrinks_to est ?min ms i k"
    then obtain k where k: "overflow_loop est ?min ms i 0 None = Some k" "shrinks_to est ?min ms i k" by blast
    then have "n = k" using assms by (simp add: reduceCompactOnOverflow_def i_def)
    moreover have "\<exists>m. 1 < m \<and> m < length ms \<and> canSplitAfter ms (m - 1)" using k(2) i by (auto simp: shrinks_to_def)
    ultimately show ?thesis using k(2) i by (auto simp: shrinks_to_def)
  qed
qed

text \<open>An agent that blocks also compacts: the block ratio is at least the trigger ratio.\<close>

lemma block_implies_compact:
  assumes "\<And>a b. a \<le> b \<Longrightarrow> mul (window_size m) a \<le> mul (window_size m) b" "runtime_shouldBlock mul m used"
  shows "runtime_shouldCompact mul m used"
proof -
  have "cf_triggerRatio (runtime_config m) \<le> cf_blockRatio (runtime_config m)" by (simp add: runtime_config_def Let_def)
  from assms(1) [OF this] assms(2) show ?thesis
    by (auto simp: runtime_shouldBlock_def runtime_shouldCompact_def shouldBlock_def shouldCompact_def delegate_def split: if_splits)
qed

subsection \<open>A small history\<close>

definition sample_call :: tool_call where
  "sample_call = \<lparr>tc_id = [97], tc_name = [110], tc_arguments = None, tc_extras = None, tc_streamIndex = None\<rparr>"

definition sample_messages :: "message list" where
  "sample_messages = [createUserMessage [104], createAssistantMessage [] (Some [sample_call]), createToolMessage [97] (OutText [120]),
     createAssistantMessage [TextPart [111]] None, createUserMessage [105]]"

definition sample_strategy :: strategy where
  "sample_strategy = \<lparr>st_maxSize = 3, st_config = DEFAULT_COMPACTION_CONFIG\<rparr>"

lemmas sample_message_defs = sample_messages_def createUserMessage_def createAssistantMessage_def createToolMessage_def sample_call_def

lemma sample_splits: "canSplitAfter sample_messages i = (i = 2 \<or> i = 3)"
proof -
  have "length sample_messages = 5" by (simp add: sample_messages_def)
  moreover have "i < 5 \<Longrightarrow> i = 0 \<or> i = 1 \<or> i = 2 \<or> i = 3 \<or> i = 4" by auto
  moreover have "open_exchange sample_messages 2 0 = False" by (simp add: sample_message_defs numeral_2_eq_2)
  ultimately show ?thesis
    by (auto simp: canSplitAfter_def prefixEndsWithOpenToolExchange_def sample_message_defs numeral_3_eq_3 numeral_2_eq_2)
qed

lemma sample_length: "length sample_messages = 5"
  by (simp add: sample_messages_def)

lemma sample_in_order: "exchanges_in_order sample_messages"
proof -
  have "msg_role (sample_messages ! j) = RTool"
    if "i < 5" "msg_role (sample_messages ! i) = RAssistant" "i < j" "j \<le> i + length (msg_toolCalls (sample_messages ! i))" for i j
  proof -
    from that(1) consider "i = 0" | "i = 1" | "i = 2" | "i = 3" | "i = 4" by linarith
    then show ?thesis using that by cases (simp_all add: sample_message_defs numeral_2_eq_2 numeral_3_eq_3)
  qed
  then show ?thesis by (auto simp: exchanges_in_order_def sample_length)
qed

lemma sample_count: "computeCompactCount (\<lambda>n r. 0) (\<lambda>m. 1) sample_strategy sample_messages Manual = 3"
  by (simp add: computeCompactCount_def fitCompactCountToWindow_def sample_length sample_splits sample_strategy_def sum_list_triv numeral_eq_Suc)

theorem manual_count_best_witness:
  "canSplitAfter sample_messages 2 \<and> prefix_size (\<lambda>m. 1) sample_messages 4 > 3"
proof -
  have "st_maxSize sample_strategy > 0" by (simp add: sample_strategy_def)
  moreover have "\<exists>m. 1 < m \<and> m \<le> length sample_messages \<and> canSplitAfter sample_messages (m - 1)"
    by (rule exI [of _ 3]) (simp add: sample_length sample_splits)
  ultimately have "canSplitAfter sample_messages (3 - 1) \<and> (\<forall>m. 3 < m \<and> m \<le> length sample_messages \<and> canSplitAfter sample_messages (m - 1)
      \<longrightarrow> prefix_size (\<lambda>m. 1) sample_messages m > st_maxSize sample_strategy)"
    using manual_count_best [OF _ sample_count [symmetric]] by simp
  then show ?thesis using sample_splits [of 3] sample_length by (auto simp: sample_strategy_def elim!: allE [of _ 4])
qed

theorem overflow_shrinks_witness:
  "reduceCompactOnOverflow (\<lambda>n r. 0) (\<lambda>m. 1) sample_strategy sample_messages < 5"
proof -
  have "\<exists>m. 1 < m \<and> m < length sample_messages \<and> canSplitAfter sample_messages (m - 1)"
    by (rule exI [of _ 3]) (simp add: sample_length sample_splits)
  then show ?thesis using overflow_shrinks [OF refl, where mul = "\<lambda>n r. 0" and est = "\<lambda>m. 1" and s = sample_strategy and ms = sample_messages] sample_length by simp
qed

end
