(* ===== verification/Projector.thy ===== *)
theory Projector
  imports Message "HOL-Library.AList"
begin

section \<open>Projecting a history onto the wire (\<^verbatim>\<open>contextProjectorService.ts\<close>, \<^verbatim>\<open>toolResultRender.ts\<close>)\<close>

text \<open>
  The stored history becomes the list of messages sent to the model; every repair is an anomaly, collected in
  the order the code reports them. An operation that throws is \<open>Inl\<close> of the tool call id in the error's details.
\<close>

subsection \<open>Tool results for the model\<close>

definition TOOL_ERROR_STATUS :: js_string where "TOOL_ERROR_STATUS = js ''<system>ERROR: Tool execution failed.</system>''"
definition TOOL_EMPTY_STATUS :: js_string where "TOOL_EMPTY_STATUS = js ''<system>Tool output is empty.</system>''"
definition TOOL_EMPTY_ERROR_STATUS :: js_string where
  "TOOL_EMPTY_ERROR_STATUS = js ''<system>ERROR: Tool execution failed. Tool output is empty.</system>''"
definition TOOL_OUTPUT_EMPTY_TEXT :: js_string where "TOOL_OUTPUT_EMPTY_TEXT = js ''Tool output is empty.''"

record tool_result =
  tr_output :: tool_output
  tr_note :: "js_string option"
  tr_isError :: "bool option"

definition singleTextPart :: "content_part list \<Rightarrow> js_string option" where
  "singleTextPart out = (case out of [TextPart t] \<Rightarrow> Some t | _ \<Rightarrow> None)"

definition isEmptyOutputText :: "js_string \<Rightarrow> bool" where
  "isEmptyOutputText out \<longleftrightarrow> length (trim out) = 0 \<or> trim out = TOOL_OUTPUT_EMPTY_TEXT"

definition isBlankText :: "content_part \<Rightarrow> bool" where
  "isBlankText p \<longleftrightarrow> (case p of TextPart t \<Rightarrow> length (trim t) = 0 | _ \<Rightarrow> False)"

definition isEmptyEquivalentContentArray :: "content_part list \<Rightarrow> bool" where
  "isEmptyEquivalentContentArray out = list_all (\<lambda>p. case p of TextPart t \<Rightarrow> length (trim t) = 0 | _ \<Rightarrow> False) out"

definition renderStatus :: "tool_result \<Rightarrow> content_part list" where
  "renderStatus r =
     (let single = (case tr_output r of OutText s \<Rightarrow> Some s | OutParts ps \<Rightarrow> singleTextPart ps);
          parts = (case tr_output r of OutText s \<Rightarrow> [] | OutParts ps \<Rightarrow> ps)
      in case single of
           Some s \<Rightarrow>
             if tr_isError r = Some True
             then (if length s = 0 then [TextPart TOOL_EMPTY_ERROR_STATUS] else [TextPart (TOOL_ERROR_STATUS @ 10 # s)])
             else if isEmptyOutputText s then [TextPart TOOL_EMPTY_STATUS] else [TextPart s]
         | None \<Rightarrow>
             if isEmptyEquivalentContentArray parts
             then [TextPart (if tr_isError r = Some True then TOOL_EMPTY_ERROR_STATUS else TOOL_EMPTY_STATUS)]
             else if tr_isError r = Some True then TextPart TOOL_ERROR_STATUS # parts else parts)"

definition renderToolResultForModel :: "tool_result \<Rightarrow> content_part list" where
  "renderToolResultForModel r =
     (let rendered = renderStatus r in
      case tr_note r of
        None \<Rightarrow> rendered
      | Some note \<Rightarrow>
          if length note = 0 then rendered
          else (case rendered of
                  [TextPart t] \<Rightarrow> [TextPart (t @ 10 # note)]
                | _ \<Rightarrow> rendered @ [TextPart note]))"

subsection \<open>Anomalies and content\<close>

datatype anomaly =
    ToolResultReordered js_string
  | ToolResultSynthesized js_string bool
  | OrphanToolResultDropped js_string
  | DuplicateToolCallDropped js_string
  | DuplicateToolResultDropped js_string
  | LeadingNonUserDropped role
  | ConsecutiveAssistantsMerged
  | WhitespaceTextDropped role
  | VacuousMessageDropped role

datatype projection_error = EmptyToolResult "js_string option"

text \<open>Blank text parts are dropped; a tool result must keep something.\<close>

definition cleanContent :: "context_message \<Rightarrow> content_part list \<Rightarrow> (projection_error, content_part list \<times> anomaly list) res" where
  "cleanContent source raw =
     (let content = filter (\<lambda>p. \<not> isBlankText p) raw;
          noted = List.map_filter (\<lambda>p. case p of
             TextPart t \<Rightarrow> if isBlankText p \<and> length t > 0 then Some (WhitespaceTextDropped (msg_role source)) else None | _ \<Rightarrow> None) raw
      in if msg_role source = RTool \<and> length content = 0 then Inl (EmptyToolResult (msg_toolCallId source)) else Inr (content, noted))"

definition outputFromToolContent :: "content_part list \<Rightarrow> tool_output" where
  "outputFromToolContent content = (case content of [TextPart t] \<Rightarrow> OutText t | _ \<Rightarrow> OutParts content)"

definition projectedContent :: "context_message \<Rightarrow> (projection_error, content_part list \<times> anomaly list) res" where
  "projectedContent source =
     cleanContent source
       (if msg_role source = RTool
        then renderToolResultForModel \<lparr>tr_output = outputFromToolContent (msg_content source), tr_note = cm_note source, tr_isError = cm_isError source\<rparr>
        else msg_content source)"

definition TOOL_INTERRUPTED_TEXT :: js_string where
  "TOOL_INTERRUPTED_TEXT = js ''Tool result is not available in the current context. Do not assume the tool completed successfully.''"

definition createInterruptedToolResult :: "js_string \<Rightarrow> message" where
  "createInterruptedToolResult toolCallId = \<lparr>msg_role = RTool, msg_name = None, msg_content = [TextPart TOOL_INTERRUPTED_TEXT],
     msg_toolCalls = [], msg_toolCallId = Some toolCallId, msg_partial = None, msg_tools = None\<rparr>"

definition TOOL_RESULT_SLOT :: message where "TOOL_RESULT_SLOT = createInterruptedToolResult []"

definition isInterruptedToolResult :: "message \<Rightarrow> bool" where
  "isInterruptedToolResult m \<longleftrightarrow> msg_role m = RTool \<and> (case msg_content m of TextPart t # ps \<Rightarrow> t = TOOL_INTERRUPTED_TEXT | _ \<Rightarrow> False)"

definition canMergeUserMessage :: "context_message \<Rightarrow> bool" where
  "canMergeUserMessage m \<longleftrightarrow> msg_role m = RUser \<and> cm_origin m = Some OUser"

definition hasDeclaredTools :: "context_message \<Rightarrow> bool" where
  "hasDeclaredTools m \<longleftrightarrow> (case msg_tools m of None \<Rightarrow> False | Some ts \<Rightarrow> length ts > 0)"

definition toWireMessage :: "context_message \<Rightarrow> content_part list \<Rightarrow> message" where
  "toWireMessage m content = \<lparr>msg_role = msg_role m, msg_name = msg_name m, msg_content = content, msg_toolCalls = msg_toolCalls m,
     msg_toolCallId = msg_toolCallId m, msg_partial = msg_partial m, msg_tools = msg_tools m\<rparr>"

subsection \<open>The projection\<close>

record open_slot =
  os_index :: nat
  os_owner :: nat
  os_foreign :: bool

record merge_group =
  mg_index :: nat
  mg_single :: "content_part list option"
  mg_texts :: "js_string list"
  mg_parts :: "content_part list"

definition appendMergeContent :: "content_part list \<Rightarrow> merge_group \<Rightarrow> merge_group" where
  "appendMergeContent content g =
     (let text = concat (texts_of content)
      in g\<lparr>mg_parts := mg_parts g @ filter (\<lambda>p. case p of TextPart t \<Rightarrow> False | _ \<Rightarrow> True) content,
           mg_texts := (if length text > 0 then mg_texts g @ [text] else mg_texts g)\<rparr>)"

record projection =
  pj_out :: "message list"
  pj_open :: "(js_string \<times> open_slot) list"
  pj_merge :: "merge_group option"
  pj_anomalies :: "anomaly list"

definition new_projection :: projection where
  "new_projection = \<lparr>pj_out = [], pj_open = [], pj_merge = None, pj_anomalies = []\<rparr>"

definition note_anomalies :: "anomaly list \<Rightarrow> projection \<Rightarrow> projection" where
  "note_anomalies as p = p\<lparr>pj_anomalies := pj_anomalies p @ as\<rparr>"

definition merged_message :: "merge_group \<Rightarrow> message" where
  "merged_message g =
     (let text = join_with [10, 10] (mg_texts g)
      in \<lparr>msg_role = RUser, msg_name = None, msg_content = (if text = [] then [] else [TextPart text]) @ mg_parts g,
          msg_toolCalls = [], msg_toolCallId = None, msg_partial = None, msg_tools = None\<rparr>)"

definition flushMerge :: "projection \<Rightarrow> projection" where
  "flushMerge p =
     (case pj_merge p of
        None \<Rightarrow> p
      | Some g \<Rightarrow> p\<lparr>pj_out := (if mg_single g = None then (pj_out p)[mg_index g := merged_message g] else pj_out p), pj_merge := None\<rparr>)"

definition markForeignBetween :: "projection \<Rightarrow> projection" where
  "markForeignBetween p = p\<lparr>pj_open := map (\<lambda>(k, s). (k, s\<lparr>os_foreign := True\<rparr>)) (pj_open p)\<rparr>"

definition merge_user :: "context_message \<Rightarrow> content_part list \<Rightarrow> projection \<Rightarrow> projection" where
  "merge_user source content p =
     (case pj_merge p of
        None \<Rightarrow> p\<lparr>pj_out := pj_out p @ [toWireMessage source content],
                  pj_merge := Some \<lparr>mg_index = length (pj_out p), mg_single = Some content, mg_texts = [], mg_parts = []\<rparr>\<rparr>
      | Some g \<Rightarrow>
          (let g' = (case mg_single g of None \<Rightarrow> g | Some single \<Rightarrow> (appendMergeContent single g)\<lparr>mg_single := None\<rparr>)
           in p\<lparr>pj_merge := Some (appendMergeContent content g')\<rparr>))"

definition emit :: "context_message \<Rightarrow> projection \<Rightarrow> (projection_error, projection) res" where
  "emit source p =
     bind_res (projectedContent source) (\<lambda>(content, noted).
       let p = note_anomalies noted p;
           bare = (msg_toolCalls source = [] \<and> \<not> hasDeclaredTools source)
       in if bare \<and> content = [] then Inr p
          else if bare \<and> list_all isVacuousContentPart content then Inr (note_anomalies [VacuousMessageDropped (msg_role source)] p)
          else let p = markForeignBetween p
               in if canMergeUserMessage source then Inr (merge_user source content p)
                  else let p = flushMerge p in Inr (p\<lparr>pj_out := pj_out p @ [toWireMessage source content]\<rparr>))"

definition reserve_slot :: "int \<Rightarrow> nat \<Rightarrow> tool_call \<Rightarrow> projection \<Rightarrow> projection" where
  "reserve_slot lastNonTool index call p =
     (let p = (case map_of (pj_open p) (tc_id call) of
                 None \<Rightarrow> p
               | Some reopened \<Rightarrow>
                   note_anomalies [ToolResultSynthesized (tc_id call) (int (os_owner reopened) \<ge> lastNonTool)]
                     (p\<lparr>pj_out := (pj_out p)[os_index reopened := createInterruptedToolResult (tc_id call)]\<rparr>))
      in p\<lparr>pj_open := AList.update (tc_id call) \<lparr>os_index = length (pj_out p), os_owner = index, os_foreign = False\<rparr> (pj_open p),
           pj_out := pj_out p @ [TOOL_RESULT_SLOT]\<rparr>)"

definition fill_slot :: "context_message \<Rightarrow> projection \<Rightarrow> (projection_error, projection) res" where
  "fill_slot m p =
     (case msg_toolCallId m of
        None \<Rightarrow> Inr p
      | Some i \<Rightarrow>
          (case map_of (pj_open p) i of
             None \<Rightarrow> Inr (note_anomalies [OrphanToolResultDropped i] (markForeignBetween p))
           | Some slot \<Rightarrow>
               (let p = p\<lparr>pj_open := AList.delete i (pj_open p)\<rparr>;
                    p = (if os_foreign slot then note_anomalies [ToolResultReordered i] p else p)
                in bind_res (projectedContent m) (\<lambda>(content, noted).
                     Inr ((note_anomalies noted p)\<lparr>pj_out := (pj_out p)[os_index slot := toWireMessage m content]\<rparr>)))))"

definition project_message :: "bool \<Rightarrow> int \<Rightarrow> nat \<Rightarrow> context_message \<Rightarrow> projection \<Rightarrow> (projection_error, projection) res" where
  "project_message hasAssistant lastNonTool index m p =
     (if msg_partial m = Some True then Inr p
      else if msg_role m = RTool then (if \<not> hasAssistant then emit m p else fill_slot m p)
      else map_res (fold (reserve_slot lastNonTool index) (msg_toolCalls m)) (emit m p))"

fun project_loop :: "bool \<Rightarrow> int \<Rightarrow> nat \<Rightarrow> context_message list \<Rightarrow> projection \<Rightarrow> (projection_error, projection) res" where
  "project_loop hasAssistant lastNonTool index [] p = Inr p"
| "project_loop hasAssistant lastNonTool index (m # ms) p =
     bind_res (project_message hasAssistant lastNonTool index m p) (project_loop hasAssistant lastNonTool (Suc index) ms)"

definition close_slot :: "int \<Rightarrow> js_string \<times> open_slot \<Rightarrow> projection \<Rightarrow> projection" where
  "close_slot lastNonTool = (\<lambda>(i, slot) p.
     note_anomalies [ToolResultSynthesized i (int (os_owner slot) \<ge> lastNonTool)] (p\<lparr>pj_out := (pj_out p)[os_index slot := createInterruptedToolResult i]\<rparr>))"

text \<open>The index of the last message that is neither a tool result nor partial.\<close>

fun last_non_tool :: "nat \<Rightarrow> context_message list \<Rightarrow> int" where
  "last_non_tool 0 history = -1"
| "last_non_tool (Suc i) history =
     (if msg_role (history ! i) = RTool \<or> msg_partial (history ! i) = Some True then last_non_tool i history else int i)"

definition has_assistant :: "context_message list \<Rightarrow> bool" where
  "has_assistant history = list_ex (\<lambda>m. msg_partial m \<noteq> Some True \<and> msg_role m = RAssistant) history"

definition project :: "context_message list \<Rightarrow> (projection_error, message list \<times> anomaly list) res" where
  "project history =
     (let lastNonTool = last_non_tool (length history) history
      in map_res (\<lambda>p. let p = flushMerge (fold (close_slot lastNonTool) (pj_open p) p) in (pj_out p, pj_anomalies p))
           (project_loop (has_assistant history) lastNonTool 0 history new_projection))"

end
