(* ===== verification/ProjectionViews.thy ===== *)
theory ProjectionViews
  imports Projector
begin

section \<open>Strict and media-reduced projections, and their reports (\<^verbatim>\<open>contextProjectorService.ts\<close>)\<close>

text \<open>
  The fallbacks a rejected request is resent with: the strict projection, and the ones that replace media by
  text. \<open>hash\<close> is the SHA-256 digest of the media key, in hexadecimal.
\<close>

subsection \<open>The strict projection\<close>

record dedupe_state =
  dd_calls :: "js_string list"
  dd_results :: "(js_string \<times> nat) list"
  dd_out :: "message list"
  dd_anomalies :: "anomaly list"

fun keep_new_calls :: "tool_call list \<Rightarrow> js_string list \<Rightarrow> tool_call list \<times> js_string list \<times> anomaly list" where
  "keep_new_calls [] seen = ([], seen, [])"
| "keep_new_calls (c # cs) seen =
     (if tc_id c \<in> set seen
      then (case keep_new_calls cs seen of (kept, seen', as) \<Rightarrow> (kept, seen', DuplicateToolCallDropped (tc_id c) # as))
      else (case keep_new_calls cs (seen @ [tc_id c]) of (kept, seen', as) \<Rightarrow> (c # kept, seen', as)))"

definition dedupe_assistant :: "message \<Rightarrow> dedupe_state \<Rightarrow> dedupe_state" where
  "dedupe_assistant m d =
     (case keep_new_calls (msg_toolCalls m) (dd_calls d) of
        (kept, seen, as) \<Rightarrow>
          (let d = d\<lparr>dd_calls := seen, dd_anomalies := dd_anomalies d @ as\<rparr>
           in if length kept = length (msg_toolCalls m) then d\<lparr>dd_out := dd_out d @ [m]\<rparr>
              else if length kept > 0 \<or> \<not> list_all isVacuousContentPart (msg_content m)
                then d\<lparr>dd_out := dd_out d @ [m\<lparr>msg_toolCalls := kept\<rparr>]\<rparr>
              else if length (msg_content m) > 0 then d\<lparr>dd_anomalies := dd_anomalies d @ [VacuousMessageDropped (msg_role m)]\<rparr>
              else d))"

definition dedupe_result :: "js_string \<Rightarrow> message \<Rightarrow> dedupe_state \<Rightarrow> dedupe_state" where
  "dedupe_result i m d =
     (case map_of (dd_results d) i of
        Some previous \<Rightarrow>
          if isInterruptedToolResult (dd_out d ! previous) \<and> \<not> isInterruptedToolResult m then d\<lparr>dd_out := (dd_out d)[previous := m]\<rparr>
          else d\<lparr>dd_anomalies := dd_anomalies d @ [DuplicateToolResultDropped i]\<rparr>
      | None \<Rightarrow> d\<lparr>dd_results := dd_results d @ [(i, length (dd_out d))], dd_out := dd_out d @ [m]\<rparr>)"

definition dedupe_message :: "message \<Rightarrow> dedupe_state \<Rightarrow> dedupe_state" where
  "dedupe_message m d =
     (if msg_role m = RAssistant \<and> length (msg_toolCalls m) > 0 then dedupe_assistant m d
      else (case (msg_role m, msg_toolCallId m) of
              (RTool, Some i) \<Rightarrow> dedupe_result i m d
            | _ \<Rightarrow> d\<lparr>dd_out := dd_out d @ [m]\<rparr>))"

definition dedupeDuplicateToolCalls :: "message list \<Rightarrow> message list \<times> anomaly list" where
  "dedupeDuplicateToolCalls ms =
     (let d = fold dedupe_message ms \<lparr>dd_calls = [], dd_results = [], dd_out = [], dd_anomalies = []\<rparr> in (dd_out d, dd_anomalies d))"

definition merge_pair :: "message \<Rightarrow> message \<Rightarrow> message" where
  "merge_pair previous m =
     previous\<lparr>msg_content := msg_content previous @ msg_content m, msg_toolCalls := msg_toolCalls previous @ msg_toolCalls m\<rparr>"

definition merge_message :: "message \<Rightarrow> message list \<times> anomaly list \<Rightarrow> message list \<times> anomaly list" where
  "merge_message m = (\<lambda>(out, as).
     if out \<noteq> [] \<and> msg_role (List.last out) = RAssistant \<and> msg_role m = RAssistant
     then (out[length out - 1 := merge_pair (List.last out) m], as @ [ConsecutiveAssistantsMerged])
     else (out @ [m], as))"

definition mergeConsecutiveAssistantMessages :: "message list \<Rightarrow> message list \<times> anomaly list" where
  "mergeConsecutiveAssistantMessages ms = fold merge_message ms ([], [])"

fun dropLeadingNonUserMessages :: "message list \<Rightarrow> message list \<times> anomaly list" where
  "dropLeadingNonUserMessages [] = ([], [])"
| "dropLeadingNonUserMessages (m # ms) =
     (if msg_role m = RUser then (m # ms, [])
      else (case dropLeadingNonUserMessages ms of (out, as) \<Rightarrow> (out, LeadingNonUserDropped (msg_role m) # as)))"

definition projectStrict :: "context_message list \<Rightarrow> (projection_error, message list \<times> anomaly list) res" where
  "projectStrict history =
     map_res (\<lambda>(projected, a0).
        case dedupeDuplicateToolCalls projected of (deduped, a1) \<Rightarrow>
        case mergeConsecutiveAssistantMessages deduped of (merged, a2) \<Rightarrow>
        case dropLeadingNonUserMessages merged of (out, a3) \<Rightarrow> (out, a0 @ a1 @ a2 @ a3)) (project history)"

subsection \<open>Media\<close>

datatype media_kind = ImageURL | AudioURL | VideoURL

definition MEDIA_DEGRADE_KEEP_RECENT :: nat where "MEDIA_DEGRADE_KEEP_RECENT = 2"

definition MEDIA_DEGRADED_PLACEHOLDERS :: "media_kind \<Rightarrow> js_string" where
  "MEDIA_DEGRADED_PLACEHOLDERS k = (case k of
       ImageURL \<Rightarrow> js ''[image omitted: dropped to fit the provider request size limit; re-read the file to view it]''
     | AudioURL \<Rightarrow> js ''[audio omitted: dropped to fit the provider request size limit; re-read the file to hear it]''
     | VideoURL \<Rightarrow> js ''[video omitted: dropped to fit the provider request size limit; re-read the file to view it]'')"

definition MEDIA_STRIPPED_PLACEHOLDERS :: "media_kind \<Rightarrow> js_string" where
  "MEDIA_STRIPPED_PLACEHOLDERS k = (case k of
       ImageURL \<Rightarrow> js ''[image omitted for provider compatibility; re-read the file to view it or get conversion guidance]''
     | AudioURL \<Rightarrow> js ''[audio omitted for provider compatibility; re-read the file to hear it]''
     | VideoURL \<Rightarrow> js ''[video omitted for provider compatibility; re-read the file to view it]'')"

text \<open>The kind, address and identity of a part that can be degraded.\<close>

fun media_of :: "content_part \<Rightarrow> (media_kind \<times> js_string \<times> js_string option) option" where
  "media_of (ImageURLPart url i) = Some (ImageURL, url, i)"
| "media_of (AudioURLPart url i) = Some (AudioURL, url, i)"
| "media_of (VideoURLPart url i) = Some (VideoURL, url, i)"
| "media_of _ = None"

definition isDegradableMediaPart :: "content_part \<Rightarrow> bool" where
  "isDegradableMediaPart p \<longleftrightarrow> media_of p \<noteq> None"

definition kind_text :: "media_kind \<Rightarrow> js_string" where
  "kind_text k = (case k of ImageURL \<Rightarrow> js ''image_url'' | AudioURL \<Rightarrow> js ''audio_url'' | VideoURL \<Rightarrow> js ''video_url'')"

definition mediaStripKey :: "(js_string \<Rightarrow> js_string) \<Rightarrow> media_kind \<times> js_string \<times> js_string option \<Rightarrow> js_string" where
  "mediaStripKey hash = (\<lambda>(k, url, i). hash (kind_text k @ [0] @ (case i of None \<Rightarrow> [] | Some s \<Rightarrow> s) @ [0] @ url))"

type_synonym media_snapshot = "js_string set"

definition captureMediaStripSnapshot :: "(js_string \<Rightarrow> js_string) \<Rightarrow> message list \<Rightarrow> media_snapshot" where
  "captureMediaStripSnapshot hash ms = set (List.map_filter (\<lambda>p. map_option (mediaStripKey hash) (media_of p)) (concat (map msg_content ms)))"

definition strip_part :: "(js_string \<Rightarrow> js_string) \<Rightarrow> media_snapshot \<Rightarrow> content_part \<Rightarrow> content_part" where
  "strip_part hash keys p =
     (case media_of p of None \<Rightarrow> p | Some md \<Rightarrow> if mediaStripKey hash md \<notin> keys then p else TextPart (MEDIA_STRIPPED_PLACEHOLDERS (fst md)))"

definition stripMediaPartsBySnapshot :: "(js_string \<Rightarrow> js_string) \<Rightarrow> media_snapshot \<Rightarrow> message list \<Rightarrow> message list" where
  "stripMediaPartsBySnapshot hash keys ms = map (\<lambda>m. m\<lparr>msg_content := map (strip_part hash keys) (msg_content m)\<rparr>) ms"

text \<open>The first \<open>n\<close> media parts are replaced; the counter runs through the parts of all messages.\<close>

fun degrade_parts :: "(media_kind \<Rightarrow> js_string) \<Rightarrow> nat \<Rightarrow> content_part list \<Rightarrow> nat \<times> content_part list" where
  "degrade_parts ph n [] = (n, [])"
| "degrade_parts ph n (p # ps) =
     (case (n, media_of p) of
        (Suc k, Some md) \<Rightarrow> (case degrade_parts ph k ps of (n', qs) \<Rightarrow> (n', TextPart (ph (fst md)) # qs))
      | _ \<Rightarrow> (case degrade_parts ph n ps of (n', qs) \<Rightarrow> (n', p # qs)))"

fun degrade_messages :: "(media_kind \<Rightarrow> js_string) \<Rightarrow> nat \<Rightarrow> message list \<Rightarrow> message list" where
  "degrade_messages ph n [] = []"
| "degrade_messages ph n (m # ms) =
     (if n = 0 \<or> \<not> list_ex isDegradableMediaPart (msg_content m) then m # degrade_messages ph n ms
      else (case degrade_parts ph n (msg_content m) of (n', content) \<Rightarrow> m\<lparr>msg_content := content\<rparr> # degrade_messages ph n' ms))"

definition degradeOlderMediaParts :: "message list \<Rightarrow> nat \<Rightarrow> (media_kind \<Rightarrow> js_string) \<Rightarrow> message list" where
  "degradeOlderMediaParts ms keepRecent ph =
     (let mediaCount = sum_list (map (\<lambda>m. length (filter isDegradableMediaPart (msg_content m))) ms); toDegrade = mediaCount - keepRecent
      in if toDegrade = 0 then ms else degrade_messages ph toDegrade ms)"

subsection \<open>Reporting repairs\<close>

definition anomaly_kind :: "anomaly \<Rightarrow> js_string" where
  "anomaly_kind a = (case a of
       ToolResultReordered i \<Rightarrow> js ''tool_result_reordered'' | ToolResultSynthesized i t \<Rightarrow> js ''tool_result_synthesized''
     | OrphanToolResultDropped i \<Rightarrow> js ''orphan_tool_result_dropped'' | DuplicateToolCallDropped i \<Rightarrow> js ''duplicate_tool_call_dropped''
     | DuplicateToolResultDropped i \<Rightarrow> js ''duplicate_tool_result_dropped'' | LeadingNonUserDropped r \<Rightarrow> js ''leading_non_user_dropped''
     | ConsecutiveAssistantsMerged \<Rightarrow> js ''consecutive_assistants_merged'' | WhitespaceTextDropped r \<Rightarrow> js ''whitespace_text_dropped''
     | VacuousMessageDropped r \<Rightarrow> js ''vacuous_message_dropped'')"

fun anomaly_call :: "anomaly \<Rightarrow> js_string option" where
  "anomaly_call (ToolResultReordered i) = Some i"
| "anomaly_call (ToolResultSynthesized i t) = Some i"
| "anomaly_call (OrphanToolResultDropped i) = Some i"
| "anomaly_call (DuplicateToolCallDropped i) = Some i"
| "anomaly_call (DuplicateToolResultDropped i) = Some i"
| "anomaly_call _ = None"

definition notable :: "anomaly \<Rightarrow> bool" where
  "notable a \<longleftrightarrow> (case a of ToolResultSynthesized i trailing \<Rightarrow> \<not> trailing | _ \<Rightarrow> True)"

record repair_report =
  rp_reordered :: nat
  rp_synthesized :: nat
  rp_droppedOrphan :: nat
  rp_duplicateCallsDropped :: nat
  rp_duplicateResultsDropped :: nat
  rp_leadingDropped :: nat
  rp_assistantsMerged :: nat
  rp_whitespaceDropped :: nat
  rp_vacuousDropped :: nat
  rp_toolCallIds :: "js_string list"

definition kind_count :: "string \<Rightarrow> anomaly list \<Rightarrow> nat" where
  "kind_count k as = length (filter (\<lambda>a. anomaly_kind a = js k) as)"

text \<open>The distinct ids in order of first occurrence: a \<^verbatim>\<open>Set\<close> spread into an array.\<close>

definition repair_report_of :: "anomaly list \<Rightarrow> repair_report" where
  "repair_report_of as =
     \<lparr>rp_reordered = kind_count ''tool_result_reordered'' as, rp_synthesized = kind_count ''tool_result_synthesized'' as,
      rp_droppedOrphan = kind_count ''orphan_tool_result_dropped'' as, rp_duplicateCallsDropped = kind_count ''duplicate_tool_call_dropped'' as,
      rp_duplicateResultsDropped = kind_count ''duplicate_tool_result_dropped'' as, rp_leadingDropped = kind_count ''leading_non_user_dropped'' as,
      rp_assistantsMerged = kind_count ''consecutive_assistants_merged'' as, rp_whitespaceDropped = kind_count ''whitespace_text_dropped'' as,
      rp_vacuousDropped = kind_count ''vacuous_message_dropped'' as,
      rp_toolCallIds = take 5 (rev (remdups (rev (List.map_filter anomaly_call as))))\<rparr>"

definition repair_signature :: "anomaly list \<Rightarrow> js_string" where
  "repair_signature as =
     join_with [124] (sort (map (\<lambda>a. case anomaly_call a of Some i \<Rightarrow> anomaly_kind a @ [58] @ i | None \<Rightarrow> anomaly_kind a) as))"

text \<open>The warning to log, if any, and the remembered signature of the last one.\<close>

definition reportProjectionRepairs :: "anomaly list \<Rightarrow> js_string option \<Rightarrow> repair_report option \<times> js_string option" where
  "reportProjectionRepairs anomalies lastSignature =
     (let as = filter notable anomalies; signature = repair_signature as
      in if as = [] then (None, None)
         else if lastSignature = Some signature then (None, lastSignature)
         else (Some (repair_report_of as), Some signature))"

type_synonym projector_result = "(projection_error, message list \<times> repair_report option) res \<times> js_string option"

definition projectWithTrace :: "(context_message list \<Rightarrow> (projection_error, message list \<times> anomaly list) res) \<Rightarrow> context_message list
    \<Rightarrow> js_string option \<Rightarrow> projector_result" where
  "projectWithTrace fn ms lastSignature =
     (case fn ms of
        Inl e \<Rightarrow> (Inl e, lastSignature)
      | Inr (out, anomalies) \<Rightarrow>
          (case reportProjectionRepairs anomalies lastSignature of (report, signature) \<Rightarrow> (Inr (out, report), signature)))"

definition service_project :: "context_message list \<Rightarrow> js_string option \<Rightarrow> projector_result" where
  "service_project ms s = projectWithTrace project ms s"

definition service_projectStrict :: "context_message list \<Rightarrow> js_string option \<Rightarrow> projector_result" where
  "service_projectStrict ms s = projectWithTrace projectStrict ms s"

definition projectMediaDegraded :: "context_message list \<Rightarrow> js_string option \<Rightarrow> projector_result" where
  "projectMediaDegraded ms s =
     (case projectWithTrace project ms s of
        (r, s') \<Rightarrow> (map_res (\<lambda>(out, report). (degradeOlderMediaParts out MEDIA_DEGRADE_KEEP_RECENT MEDIA_DEGRADED_PLACEHOLDERS, report)) r, s'))"

definition projectMediaStripped :: "(js_string \<Rightarrow> js_string) \<Rightarrow> media_snapshot option \<Rightarrow> context_message list \<Rightarrow> js_string option \<Rightarrow> projector_result" where
  "projectMediaStripped hash snapshot ms s =
     (case projectWithTrace project ms s of
        (r, s') \<Rightarrow> (map_res (\<lambda>(out, report).
           (stripMediaPartsBySnapshot hash (case snapshot of None \<Rightarrow> captureMediaStripSnapshot hash out | Some keys \<Rightarrow> keys) out, report)) r, s'))"

end
