(* ===== verification/ProjectorProofs.thy ===== *)
theory ProjectorProofs
  imports ProjectionViews
begin

section \<open>What the projections guarantee\<close>

text \<open>
  A list of wire messages is valid when every assistant message with tool calls is followed at once by their
  results, in order, and there are no other results. The place of a message is the part of it that matters for
  this; a projection in progress is described by the places its messages will have.
\<close>

datatype place = Plain | Calls "js_string list" | Result "js_string option" | Misplaced

definition place_of :: "'a message_scheme \<Rightarrow> place" where
  "place_of m =
     (if msg_role m = RTool then (if msg_toolCalls m = [] then Result (msg_toolCallId m) else Misplaced)
      else if msg_toolCalls m = [] then Plain
      else if msg_role m = RAssistant then Calls (map tc_id (msg_toolCalls m)) else Misplaced)"

fun places_ok :: "place list \<Rightarrow> bool" where
  "places_ok [] = True"
| "places_ok (Plain # ps) = places_ok ps"
| "places_ok (Calls ids # ps) = (take (length ids) ps = map (\<lambda>i. Result (Some i)) ids \<and> places_ok (drop (length ids) ps))"
| "places_ok (Result i # ps) = False"
| "places_ok (Misplaced # ps) = False"

definition wire_valid :: "message list \<Rightarrow> bool" where
  "wire_valid ms = places_ok (map place_of ms)"

definition all_calls :: "'a message_scheme list \<Rightarrow> tool_call list" where
  "all_calls ms = concat (map msg_toolCalls ms)"

lemma all_calls_simps [simp]: "all_calls [] = []" "all_calls (m # ms) = msg_toolCalls m @ all_calls ms" "all_calls (ms @ ns) = all_calls ms @ all_calls ns"
  by (simp_all add: all_calls_def)

abbreviation results_for :: "js_string list \<Rightarrow> place list" where
  "results_for ids \<equiv> map (\<lambda>i. Result (Some i)) ids"

lemma places_ok_group [simp]: "places_ok (Calls ids # results_for ids @ ps) = places_ok ps"
  by simp

lemma places_ok_groupE:
  assumes "places_ok (Calls ids # ps)"
  obtains rest where "ps = results_for ids @ rest" "places_ok rest"
  using assms that [of "drop (length ids) ps"] append_take_drop_id [of "length ids" ps] by simp

lemma places_induct [consumes 1, case_names Nil Plain Group]:
  assumes "places_ok ps" "P []" "\<And>ps. places_ok ps \<Longrightarrow> P ps \<Longrightarrow> P (Plain # ps)"
    "\<And>ids ps. places_ok ps \<Longrightarrow> P ps \<Longrightarrow> P (Calls ids # results_for ids @ ps)"
  shows "P ps"
  using assms(1)
proof (induction "length ps" arbitrary: ps rule: less_induct)
  case less
  show ?case
  proof (cases ps)
    case Nil
    with assms(2) show ?thesis by simp
  next
    case (Cons q qs)
    then show ?thesis
    proof (cases q)
      case Plain
      with Cons less have "places_ok qs" "P qs" by simp_all
      with Plain Cons show ?thesis using assms(3) by simp
    next
      case (Calls ids)
      with Cons less.prems obtain rest where r: "qs = results_for ids @ rest" "places_ok rest" by (blast elim: places_ok_groupE)
      with less.hyps Cons have "P rest" by simp
      with r Calls Cons show ?thesis using assms(4) by simp
    qed (use less Cons in auto)
  qed
qed

lemma places_ok_append: "places_ok xs \<Longrightarrow> places_ok (xs @ ys) = places_ok ys"
  by (induction xs rule: places_induct) simp_all

lemma places_ok_last: "places_ok ps \<Longrightarrow> ps \<noteq> [] \<Longrightarrow> List.last ps = Calls ids \<Longrightarrow> ids = []"
proof (induction ps rule: places_induct)
  case (Group jds ps)
  then show ?case by (cases "ps = []"; cases "jds = []") (auto simp: last_map split: if_splits)
qed (auto split: if_splits)

subsection \<open>Tool results are never empty\<close>

lemma status_texts: "\<not> isBlankText (TextPart TOOL_ERROR_STATUS)" "\<not> isBlankText (TextPart TOOL_EMPTY_STATUS)"
  "\<not> isBlankText (TextPart TOOL_EMPTY_ERROR_STATUS)" "\<not> isBlankText (TextPart (TOOL_ERROR_STATUS @ s))"
  by (simp_all add: isBlankText_def trim_Nil TOOL_ERROR_STATUS_def TOOL_EMPTY_STATUS_def TOOL_EMPTY_ERROR_STATUS_def js_def is_space_def of_char_def)

lemma blank_append: "\<not> isBlankText (TextPart s) \<Longrightarrow> \<not> isBlankText (TextPart (s @ t))"
  by (simp add: isBlankText_def trim_Nil)

lemma renderStatus_shows: "\<exists>p\<in>set (renderStatus r). \<not> isBlankText p"
proof (cases "case tr_output r of OutText s \<Rightarrow> Some s | OutParts ps \<Rightarrow> singleTextPart ps")
  case None
  then obtain ps where ps: "tr_output r = OutParts ps" by (cases "tr_output r") auto
  show ?thesis
  proof (cases "isEmptyEquivalentContentArray ps")
    case True
    with None ps show ?thesis by (simp add: renderStatus_def status_texts)
  next
    case False
    then obtain p where "p \<in> set ps" "\<not> isBlankText p"
      by (auto simp: isEmptyEquivalentContentArray_def isBlankText_def list_all_iff)
    with None ps False show ?thesis by (auto simp: renderStatus_def)
  qed
next
  case (Some s)
  have "\<not> isEmptyOutputText s \<Longrightarrow> \<not> isBlankText (TextPart s)" by (simp add: isEmptyOutputText_def isBlankText_def)
  with Some show ?thesis by (auto simp: renderStatus_def status_texts)
qed

lemma render_shows: "\<exists>p\<in>set (renderToolResultForModel r). \<not> isBlankText p"
proof -
  have one: "renderStatus r = [TextPart t] \<Longrightarrow> \<not> isBlankText (TextPart t)" for t using renderStatus_shows [of r] by auto
  show ?thesis
    using renderStatus_shows [of r] one
    by (auto simp: renderToolResultForModel_def Let_def blank_append split: option.split list.split content_part.split)
qed

lemma projectedContent_ok: "\<exists>content noted. projectedContent m = Inr (content, noted)"
proof (cases "msg_role m = RTool")
  case True
  let ?r = "renderToolResultForModel \<lparr>tr_output = outputFromToolContent (msg_content m), tr_note = cm_note m, tr_isError = cm_isError m\<rparr>"
  have "filter (\<lambda>p. \<not> isBlankText p) ?r \<noteq> []" using render_shows by (auto simp: filter_empty_conv)
  with True show ?thesis by (simp add: projectedContent_def cleanContent_def Let_def)
qed (simp add: projectedContent_def cleanContent_def Let_def)

subsection \<open>The projection in progress\<close>

definition fits :: "(js_string \<times> open_slot) list \<Rightarrow> message list \<Rightarrow> nat \<Rightarrow> place \<Rightarrow> bool" where
  "fits opens out i pl \<longleftrightarrow> place_of (out ! i) = pl
     \<or> (\<exists>c s. pl = Result (Some c) \<and> map_of opens c = Some s \<and> os_index s = i \<and> msg_toolCalls (out ! i) = [])"

definition keys_once :: "(js_string \<times> open_slot) list \<Rightarrow> bool" where
  "keys_once opens = distinct (map fst opens)"

definition projecting :: "place list \<Rightarrow> projection \<Rightarrow> bool" where
  "projecting sk p \<longleftrightarrow> length sk = length (pj_out p) \<and> (\<forall>i<length sk. fits (pj_open p) (pj_out p) i (sk ! i))
     \<and> (\<forall>c s. map_of (pj_open p) c = Some s \<longrightarrow> os_index s < length sk \<and> sk ! os_index s = Result (Some c))
     \<and> (\<forall>g. pj_merge p = Some g \<longrightarrow> mg_index g < length sk \<and> sk ! mg_index g = Plain)
     \<and> keys_once (pj_open p)"

lemma projectingD:
  assumes "projecting sk p"
  shows "length sk = length (pj_out p)" "i < length sk \<Longrightarrow> fits (pj_open p) (pj_out p) i (sk ! i)"
    "map_of (pj_open p) c = Some s \<Longrightarrow> os_index s < length (pj_out p) \<and> sk ! os_index s = Result (Some c)"
    "pj_merge p = Some g \<Longrightarrow> mg_index g < length (pj_out p) \<and> sk ! mg_index g = Plain" "keys_once (pj_open p)"
  using assms by (auto simp: projecting_def)

lemma projecting_new: "projecting [] new_projection"
  by (simp add: projecting_def new_projection_def keys_once_def)

lemma projecting_note [simp]: "projecting sk (note_anomalies as p) = projecting sk p"
  by (simp add: projecting_def note_anomalies_def)

lemma note_simps [simp]: "pj_out (note_anomalies as p) = pj_out p" "pj_open (note_anomalies as p) = pj_open p" "pj_merge (note_anomalies as p) = pj_merge p"
  by (simp_all add: note_anomalies_def)

lemma slot_free:
  "projecting sk p \<Longrightarrow> i < length sk \<Longrightarrow> sk ! i \<noteq> Misplaced \<Longrightarrow> (\<And>ids. sk ! i \<noteq> Calls ids) \<Longrightarrow> msg_toolCalls (pj_out p ! i) = []"
  using projectingD(2) [of sk p i] by (auto simp: fits_def place_of_def dest: sym split: if_splits)

lemma all_calls_update: "i < length ms \<Longrightarrow> msg_toolCalls (ms ! i) = [] \<Longrightarrow> msg_toolCalls m = [] \<Longrightarrow> all_calls (ms[i := m]) = all_calls ms"
  by (induction ms arbitrary: i) (auto split: nat.splits simp: nth_Cons')

lemma update_slot:
  assumes "projecting sk p" "i < length sk" "place_of m = sk ! i" "sk ! i \<noteq> Misplaced" "\<And>ids. sk ! i \<noteq> Calls ids"
  shows "projecting sk (p\<lparr>pj_out := (pj_out p)[i := m]\<rparr>)" "all_calls ((pj_out p)[i := m]) = all_calls (pj_out p)"
proof -
  have m: "msg_toolCalls m = []" using assms(4) assms(5) [symmetric] by (auto simp: assms(3) [symmetric] place_of_def split: if_splits)
  have "fits (pj_open p) ((pj_out p)[i := m]) j (sk ! j)" if j: "j < length sk" for j
    using projectingD(2) [OF assms(1) j] assms(2,3) j m projectingD(1) [OF assms(1)] by (cases "j = i") (auto simp: fits_def)
  then show "projecting sk (p\<lparr>pj_out := (pj_out p)[i := m]\<rparr>)" using assms(1) by (auto simp: projecting_def)
  show "all_calls ((pj_out p)[i := m]) = all_calls (pj_out p)"
    using assms(2) projectingD(1) [OF assms(1)] slot_free [OF assms(1,2,4,5)] m by (simp add: all_calls_update)
qed

lemma place_simps [simp]:
  "place_of (toWireMessage m content) = place_of m" "msg_toolCalls (toWireMessage m content) = msg_toolCalls m"
  "place_of (merged_message g) = Plain" "msg_toolCalls (merged_message g) = []"
  "place_of (createInterruptedToolResult c) = Result (Some c)" "msg_toolCalls (createInterruptedToolResult c) = []"
  by (simp_all add: place_of_def toWireMessage_def merged_message_def createInterruptedToolResult_def Let_def)

lemma flushMerge_ok:
  assumes "projecting sk p"
  shows "projecting sk (flushMerge p)" "all_calls (pj_out (flushMerge p)) = all_calls (pj_out p)" "pj_open (flushMerge p) = pj_open p"
    "length (pj_out (flushMerge p)) = length (pj_out p)"
proof -
  have drop: "projecting sk (q\<lparr>pj_merge := None\<rparr>)" if "projecting sk q" for q using that by (auto simp: projecting_def)
  have "projecting sk (flushMerge p) \<and> all_calls (pj_out (flushMerge p)) = all_calls (pj_out p)"
  proof (cases "pj_merge p")
    case (Some g)
    from projectingD(4) [OF assms Some] projectingD(1) [OF assms]
    have "mg_index g < length sk" "place_of (merged_message g) = sk ! mg_index g" "sk ! mg_index g \<noteq> Misplaced" "\<And>ids. sk ! mg_index g \<noteq> Calls ids"
      by simp_all
    from update_slot [OF assms this] drop [OF assms] drop show ?thesis by (auto simp: flushMerge_def Some)
  qed (use assms in \<open>simp add: flushMerge_def\<close>)
  then show "projecting sk (flushMerge p)" "all_calls (pj_out (flushMerge p)) = all_calls (pj_out p)" by auto
qed (auto simp: flushMerge_def split: option.split)

lemma markForeign_ok: "projecting sk p \<Longrightarrow> projecting sk (markForeignBetween p)"
proof -
  have m: "map_of (map (\<lambda>(k, s). (k, s\<lparr>os_foreign := True\<rparr>)) xs) c = map_option (os_foreign_update (\<lambda>_. True)) (map_of xs c)" for xs :: "(js_string \<times> open_slot) list" and c
    by (induction xs) auto
  assume p: "projecting sk p"
  have "fits (map (\<lambda>(k, s). (k, s\<lparr>os_foreign := True\<rparr>)) (pj_open p)) (pj_out p) i (sk ! i)" if "i < length sk" for i
    using projectingD(2) [OF p that] by (auto simp: fits_def m)
  moreover have "map fst (map (\<lambda>(k, s). (k, s\<lparr>os_foreign := True\<rparr>)) (pj_open p)) = map fst (pj_open p)" by auto
  then have "keys_once (map (\<lambda>(k, s). (k, s\<lparr>os_foreign := True\<rparr>)) (pj_open p)) = keys_once (pj_open p)" by (simp only: keys_once_def)
  ultimately show ?thesis using p by (auto simp: projecting_def markForeignBetween_def m)
qed

lemma markForeign_out [simp]: "pj_out (markForeignBetween p) = pj_out p"
  by (simp add: markForeignBetween_def)

lemma push_ok:
  assumes "projecting sk p" "place_of m = pl"
  shows "projecting (sk @ [pl]) (p\<lparr>pj_out := pj_out p @ [m]\<rparr>)"
proof -
  have "fits (pj_open p) (pj_out p @ [m]) i ((sk @ [pl]) ! i)" if "i < length (sk @ [pl])" for i
    using projectingD(1) [OF assms(1)] projectingD(2) [OF assms(1), of i] that assms(2)
    by (cases "i < length sk") (auto simp: fits_def nth_append)
  with assms(1) show ?thesis by (auto simp: projecting_def nth_append)
qed

text \<open>What a step may do to the places: nothing for a message that shows nothing, its own place otherwise.\<close>

lemma merge_user_ok:
  assumes "projecting sk p" "canMergeUserMessage m" "msg_toolCalls m = []"
  shows "\<exists>sk'. projecting (sk @ sk') (merge_user m content p) \<and> sk' \<in> {[], [Plain]}"
    "all_calls (pj_out (merge_user m content p)) = all_calls (pj_out p)"
proof -
  have pl: "place_of m = Plain" using assms(2,3) by (simp add: place_of_def canMergeUserMessage_def)
  have new: "projecting (sk @ [Plain]) (q\<lparr>pj_merge := Some g\<rparr>)" if "projecting (sk @ [Plain]) q" "mg_index g = length sk" for q g
    using that by (auto simp: projecting_def)
  have keep: "projecting sk (p\<lparr>pj_merge := Some g'\<rparr>)" if "pj_merge p = Some g" "mg_index g' = mg_index g" for g g'
    using that assms(1) by (auto simp: projecting_def)
  show "\<exists>sk'. projecting (sk @ sk') (merge_user m content p) \<and> sk' \<in> {[], [Plain]}"
  proof (cases "pj_merge p")
    case None
    have "projecting (sk @ [Plain]) (merge_user m content p)"
      using new [OF push_ok [OF assms(1), of "toWireMessage m content" Plain]] pl projectingD(1) [OF assms(1)] by (simp add: merge_user_def None)
    then show ?thesis by blast
  next
    case (Some g)
    have "projecting (sk @ []) (merge_user m content p)"
      using keep [OF Some] by (simp add: merge_user_def Some Let_def appendMergeContent_def split: option.split)
    then show ?thesis by blast
  qed
  show "all_calls (pj_out (merge_user m content p)) = all_calls (pj_out p)"
    using assms(3) by (simp add: merge_user_def Let_def split: option.split)
qed

definition calls_by_assistants :: "context_message list \<Rightarrow> bool" where
  "calls_by_assistants ms = list_all (\<lambda>m. msg_toolCalls m = [] \<or> msg_role m = RAssistant) ms"

lemma emit_ok:
  assumes "projecting sk p" "msg_toolCalls m = [] \<or> msg_role m = RAssistant" "msg_role m \<noteq> RTool"
  shows "\<exists>q sk'. emit m p = Inr q \<and> projecting (sk @ sk') q \<and> all_calls (pj_out q) = all_calls (pj_out p) @ msg_toolCalls m
    \<and> (if msg_toolCalls m = [] then sk' \<in> {[], [Plain]} else sk' = [place_of m])"
proof -
  obtain content noted where c: "projectedContent m = Inr (content, noted)" using projectedContent_ok by blast
  define p0 where "p0 = note_anomalies noted p"
  have p0: "projecting sk p0" "projecting sk (markForeignBetween p0)" "pj_out p0 = pj_out p"
    using assms(1) markForeign_ok [of sk p0] by (simp_all add: p0_def)
  have pl: "msg_toolCalls m = [] \<Longrightarrow> place_of m = Plain" using assms(3) by (simp add: place_of_def)
  consider (quiet) a where "emit m p = Inr (note_anomalies a p0)" "msg_toolCalls m = []"
    | (merge) "emit m p = Inr (merge_user m content (markForeignBetween p0))" "canMergeUserMessage m"
    | (push) "emit m p = Inr ((flushMerge (markForeignBetween p0))\<lparr>pj_out := pj_out (flushMerge (markForeignBetween p0)) @ [toWireMessage m content]\<rparr>)"
  proof -
    have e: "emit m p = (let bare = (msg_toolCalls m = [] \<and> \<not> hasDeclaredTools m) in
       if bare \<and> content = [] then Inr (note_anomalies [] p0)
       else if bare \<and> list_all isVacuousContentPart content then Inr (note_anomalies [VacuousMessageDropped (msg_role m)] p0)
       else if canMergeUserMessage m then Inr (merge_user m content (markForeignBetween p0))
       else Inr ((flushMerge (markForeignBetween p0))\<lparr>pj_out := pj_out (flushMerge (markForeignBetween p0)) @ [toWireMessage m content]\<rparr>))"
      by (simp add: emit_def c Let_def p0_def) (simp add: note_anomalies_def)
    show thesis using that e by (simp add: Let_def split: if_splits)
  qed
  then show ?thesis
  proof cases
    case quiet
    then show ?thesis using p0 by (intro exI [of _ "note_anomalies a p0"] exI [of _ "[]"]) simp
  next
    case merge
    then have nc: "msg_toolCalls m = []" using assms(2) by (auto simp: canMergeUserMessage_def)
    from merge_user_ok [OF p0(2) merge(2) nc, of content] show ?thesis using merge(1) nc p0(3) by auto
  next
    case push
    let ?f = "flushMerge (markForeignBetween p0)"
    have "projecting (sk @ [place_of m]) (?f\<lparr>pj_out := pj_out ?f @ [toWireMessage m content]\<rparr>)"
      using push_ok [OF flushMerge_ok(1) [OF p0(2)], of "toWireMessage m content" "place_of m"] by simp
    then show ?thesis using push flushMerge_ok(2) [OF p0(2)] p0(3) pl by (cases "msg_toolCalls m = []") fastforce+
  qed
qed

lemma projectingI:
  assumes "length sk = length (pj_out p)" "\<And>i. i < length sk \<Longrightarrow> fits (pj_open p) (pj_out p) i (sk ! i)"
    "\<And>c s. map_of (pj_open p) c = Some s \<Longrightarrow> os_index s < length sk \<and> sk ! os_index s = Result (Some c)"
    "\<And>g. pj_merge p = Some g \<Longrightarrow> mg_index g < length sk \<and> sk ! mg_index g = Plain" "keys_once (pj_open p)"
  shows "projecting sk p"
  using assms by (auto simp: projecting_def)

lemma keys_once_update: "keys_once xs \<Longrightarrow> keys_once (AList.update k v xs)"
  by (simp add: keys_once_def distinct_update)

lemma keys_once_delete: "keys_once xs \<Longrightarrow> keys_once (AList.delete k xs)"
  by (simp add: keys_once_def distinct_delete)

lemma open_slot_ok:
  assumes "projecting sk p" "\<And>s. map_of (pj_open p) c = Some s \<Longrightarrow> place_of (pj_out p ! os_index s) = Result (Some c)" "os_index s' = length (pj_out p)"
  shows "projecting (sk @ [Result (Some c)]) (p\<lparr>pj_open := AList.update c s' (pj_open p), pj_out := pj_out p @ [TOOL_RESULT_SLOT]\<rparr>)"
    (is "projecting ?sk ?p")
proof (rule projectingI)
  note len = projectingD(1) [OF assms(1)]
  show "length ?sk = length (pj_out ?p)" by (simp add: len)
  show "keys_once (pj_open ?p)" using projectingD(5) [OF assms(1)] by (simp add: keys_once_update)
  show "mg_index g < length ?sk \<and> ?sk ! mg_index g = Plain" if "pj_merge ?p = Some g" for g
    using projectingD(4) [OF assms(1)] that len by (auto simp: nth_append)
  show "os_index s < length ?sk \<and> ?sk ! os_index s = Result (Some d)" if "map_of (pj_open ?p) d = Some s" for d s
    using projectingD(3) [OF assms(1), of d s] that len assms(3) by (cases "d = c") (auto simp: update_conv nth_append)
  show "fits (pj_open ?p) (pj_out ?p) i (?sk ! i)" if "i < length ?sk" for i
  proof (cases "i < length sk")
    case True
    from projectingD(2) [OF assms(1) True] consider (placed) "place_of (pj_out p ! i) = sk ! i"
      | (slot) d s where "sk ! i = Result (Some d)" "map_of (pj_open p) d = Some s" "os_index s = i" "msg_toolCalls (pj_out p ! i) = []"
      unfolding fits_def by blast
    then show ?thesis
    proof cases
      case slot
      then show ?thesis
      proof (cases "d = c")
        case True
        then show ?thesis using assms(2) slot \<open>i < length sk\<close> len by (auto simp: fits_def nth_append)
      next
        case False
        then show ?thesis using slot \<open>i < length sk\<close> len by (auto simp: fits_def nth_append update_conv)
      qed
    qed (use True len in \<open>simp add: fits_def nth_append\<close>)
  next
    case False
    then have "i = length sk" using that by simp
    then show ?thesis using len assms(3) by (auto simp: fits_def nth_append update_conv TOOL_RESULT_SLOT_def)
  qed
qed

lemma reserve_slot_ok:
  assumes "projecting sk p"
  shows "projecting (sk @ [Result (Some (tc_id c))]) (reserve_slot l i c p)" "all_calls (pj_out (reserve_slot l i c p)) = all_calls (pj_out p)"
proof -
  have "projecting (sk @ [Result (Some (tc_id c))]) (reserve_slot l i c p) \<and> all_calls (pj_out (reserve_slot l i c p)) = all_calls (pj_out p)"
  proof (cases "map_of (pj_open p) (tc_id c)")
    case None
    then show ?thesis using open_slot_ok [OF assms, of "tc_id c"] by (simp add: reserve_slot_def Let_def TOOL_RESULT_SLOT_def)
  next
    case (Some s)
    define q where "q = p\<lparr>pj_out := (pj_out p)[os_index s := createInterruptedToolResult (tc_id c)]\<rparr>"
    define q' where "q' = note_anomalies [ToolResultSynthesized (tc_id c) (int (os_owner s) \<ge> l)] q"
    have s: "os_index s < length sk" "sk ! os_index s = Result (Some (tc_id c))" "os_index s < length (pj_out p)"
      using projectingD(1,3) [OF assms] Some by auto
    have q: "projecting sk q'" "all_calls (pj_out q') = all_calls (pj_out p)"
      using update_slot [OF assms s(1), of "createInterruptedToolResult (tc_id c)"] s(2) by (simp_all add: q'_def q_def)
    have "place_of (pj_out q' ! os_index t) = Result (Some (tc_id c))" if "map_of (pj_open q') (tc_id c) = Some t" for t
      using that Some s(3) by (simp add: q'_def q_def)
    from open_slot_ok [OF q(1) this] have "projecting (sk @ [Result (Some (tc_id c))]) (reserve_slot l i c p)"
      by (simp add: reserve_slot_def Some Let_def q'_def q_def)
    moreover have "pj_out (reserve_slot l i c p) = pj_out q' @ [TOOL_RESULT_SLOT]"
      by (simp add: reserve_slot_def Some Let_def q'_def q_def)
    ultimately show ?thesis using q(2) by (simp add: TOOL_RESULT_SLOT_def)
  qed
  then show "projecting (sk @ [Result (Some (tc_id c))]) (reserve_slot l i c p)" "all_calls (pj_out (reserve_slot l i c p)) = all_calls (pj_out p)" by auto
qed

lemma reserve_all_ok:
  "projecting sk p \<Longrightarrow> projecting (sk @ results_for (map tc_id cs)) (fold (reserve_slot l i) cs p)
    \<and> all_calls (pj_out (fold (reserve_slot l i) cs p)) = all_calls (pj_out p)"
proof (induction cs arbitrary: sk p)
  case (Cons c cs)
  from Cons.IH [OF reserve_slot_ok(1) [OF Cons.prems, of c l i]] reserve_slot_ok(2) [OF Cons.prems, of l i c]
  show ?case by simp
qed simp

lemma close_ok:
  assumes "projecting sk p" "map_of (pj_open p) c = Some s" "place_of m = Result (Some c)"
  shows "projecting sk (p\<lparr>pj_out := (pj_out p)[os_index s := m]\<rparr>)"
    "projecting sk (p\<lparr>pj_open := AList.delete c (pj_open p), pj_out := (pj_out p)[os_index s := m]\<rparr>)"
    "all_calls ((pj_out p)[os_index s := m]) = all_calls (pj_out p)"
proof -
  have s: "os_index s < length sk" "sk ! os_index s = Result (Some c)" "os_index s < length (pj_out p)"
    using projectingD(1,3) [OF assms(1)] assms(2) by auto
  show q: "projecting sk (p\<lparr>pj_out := (pj_out p)[os_index s := m]\<rparr>)" and "all_calls ((pj_out p)[os_index s := m]) = all_calls (pj_out p)"
    using update_slot [OF assms(1) s(1), of m] s(2) assms(3) by simp_all
  show "projecting sk (p\<lparr>pj_open := AList.delete c (pj_open p), pj_out := (pj_out p)[os_index s := m]\<rparr>)" (is "projecting sk ?p")
  proof (rule projectingI)
    show "length sk = length (pj_out ?p)" using projectingD(1) [OF q] by simp
    show "keys_once (pj_open ?p)" using projectingD(5) [OF q] by (simp add: keys_once_delete)
    show "os_index t < length sk \<and> sk ! os_index t = Result (Some d)" if "map_of (pj_open ?p) d = Some t" for d t
      using that projectingD(1) [OF q] projectingD(3) [OF q, of d t] by (auto simp: delete_conv split: if_splits)
    show "mg_index g < length sk \<and> sk ! mg_index g = Plain" if "pj_merge ?p = Some g" for g
      using that projectingD(1) [OF q] projectingD(4) [OF q, of g] by auto
    show "fits (pj_open ?p) (pj_out ?p) i (sk ! i)" if "i < length sk" for i
    proof (cases "i = os_index s")
      case True
      with s assms(3) show ?thesis by (simp add: fits_def)
    next
      case False
      from projectingD(2) [OF q that] consider (placed) "place_of ((pj_out p)[os_index s := m] ! i) = sk ! i"
        | (slot) d t where "sk ! i = Result (Some d)" "map_of (pj_open p) d = Some t" "os_index t = i" "msg_toolCalls ((pj_out p)[os_index s := m] ! i) = []"
        unfolding fits_def by auto
      then show ?thesis
      proof cases
        case slot
        with False assms(2) have "d \<noteq> c" by auto
        with slot show ?thesis by (auto simp: fits_def delete_conv')
      qed (simp add: fits_def)
    qed
  qed
qed

lemma fill_slot_ok:
  assumes "projecting sk p" "msg_role m = RTool" "msg_toolCalls m = []"
  shows "\<exists>q. fill_slot m p = Inr q \<and> projecting sk q \<and> all_calls (pj_out q) = all_calls (pj_out p)"
proof (cases "msg_toolCallId m")
  case None
  with assms(1) show ?thesis by (simp add: fill_slot_def)
next
  case (Some i)
  obtain content noted where c: "projectedContent m = Inr (content, noted)" using projectedContent_ok by blast
  show ?thesis
  proof (cases "map_of (pj_open p) i")
    case None
    with assms(1) Some show ?thesis by (simp add: fill_slot_def markForeign_ok)
  next
    case (Some s)
    have "place_of (toWireMessage m content) = Result (Some i)" using assms(2,3) \<open>msg_toolCallId m = Some i\<close> by (simp add: place_of_def toWireMessage_def)
    note ok = close_ok(2,3) [OF assms(1) Some this]
    define q where "q = p\<lparr>pj_open := AList.delete i (pj_open p), pj_out := (pj_out p)[os_index s := toWireMessage m content]\<rparr>"
    have "fill_slot m p = Inr (note_anomalies ((if os_foreign s then [ToolResultReordered i] else []) @ noted) q)"
      using \<open>msg_toolCallId m = Some i\<close> Some by (simp add: fill_slot_def c Let_def q_def note_anomalies_def)
    then show ?thesis using ok by (simp add: q_def)
  qed
qed

definition shown :: "context_message list \<Rightarrow> context_message list" where
  "shown ms = filter (\<lambda>m. msg_partial m \<noteq> Some True) ms"

lemma project_message_ok:
  assumes "projecting sk p" "places_ok sk" "msg_toolCalls m = [] \<or> msg_role m = RAssistant" "h \<or> msg_role m \<noteq> RTool"
  shows "\<exists>q sk'. project_message h l i m p = Inr q \<and> projecting sk' q \<and> places_ok sk' \<and> all_calls (pj_out q) = all_calls (pj_out p) @ all_calls (shown [m])"
proof (cases "msg_partial m = Some True")
  case True
  with assms show ?thesis by (auto simp: project_message_def shown_def)
next
  case partial: False
  show ?thesis
  proof (cases "msg_role m = RTool")
    case True
    with assms(3) have nc: "msg_toolCalls m = []" by auto
    show ?thesis using fill_slot_ok [OF assms(1) True nc] True partial assms(2,4) nc by (auto simp: project_message_def shown_def)
  next
    case False
    from emit_ok [OF assms(1,3) False] obtain q sk' where e: "emit m p = Inr q" "projecting (sk @ sk') q"
      "all_calls (pj_out q) = all_calls (pj_out p) @ msg_toolCalls m" "if msg_toolCalls m = [] then sk' \<in> {[], [Plain]} else sk' = [place_of m]" by blast
    have "places_ok ((sk @ sk') @ results_for (map tc_id (msg_toolCalls m)))"
    proof (cases "msg_toolCalls m = []")
      case True
      with e(4) show ?thesis using assms(2) by (auto simp: places_ok_append)
    next
      case nonempty: False
      with assms(3) False e(4) have "sk' = [Calls (map tc_id (msg_toolCalls m))]" by (simp add: place_of_def)
      then show ?thesis using assms(2) places_ok_group [of "map tc_id (msg_toolCalls m)" "[]"] by (simp add: places_ok_append del: places_ok_group)
    qed
    with reserve_all_ok [OF e(2), of "msg_toolCalls m" l i] e(1,3) partial False show ?thesis
      by (auto simp: project_message_def shown_def)
  qed
qed

lemma project_loop_ok:
  "projecting sk p \<Longrightarrow> places_ok sk \<Longrightarrow> calls_by_assistants ms \<Longrightarrow> h \<or> (\<forall>m\<in>set (shown ms). msg_role m \<noteq> RTool)
   \<Longrightarrow> \<exists>q sk'. project_loop h l i ms p = Inr q \<and> projecting sk' q \<and> places_ok sk' \<and> all_calls (pj_out q) = all_calls (pj_out p) @ all_calls (shown ms)"
proof (induction ms arbitrary: sk p i)
  case (Cons m ms)
  have cs: "msg_toolCalls m = [] \<or> msg_role m = RAssistant" "calls_by_assistants ms" using Cons.prems(3) by (auto simp: calls_by_assistants_def)
  have sh: "shown (m # ms) = shown [m] @ shown ms" by (simp add: shown_def)
  have "\<exists>q sk'. project_message h l i m p = Inr q \<and> projecting sk' q \<and> places_ok sk' \<and> all_calls (pj_out q) = all_calls (pj_out p) @ all_calls (shown [m])"
  proof (cases "h \<or> msg_role m \<noteq> RTool")
    case True
    then show ?thesis by (rule project_message_ok [OF Cons.prems(1,2) cs(1)])
  next
    case False
    with Cons.prems(4) have "msg_partial m = Some True" by (auto simp: shown_def split: if_splits)
    with Cons.prems show ?thesis by (auto simp: project_message_def shown_def)
  qed
  then obtain q sk' where q: "project_message h l i m p = Inr q" "projecting sk' q" "places_ok sk'"
    "all_calls (pj_out q) = all_calls (pj_out p) @ all_calls (shown [m])" by blast
  have "h \<or> (\<forall>m\<in>set (shown ms). msg_role m \<noteq> RTool)" using Cons.prems(4) by (auto simp: shown_def)
  from Cons.IH [OF q(2,3) cs(2) this, of "Suc i"] q(1,4) show ?case by (auto simp: sh)
qed (auto simp: shown_def)

text \<open>Closing the slots that are still open.\<close>

lemma close_all_ok:
  assumes "projecting sk p" "set xs \<subseteq> set (pj_open p)" "\<And>i. i \<in> A \<Longrightarrow> place_of (pj_out p ! i) = sk ! i"
  shows "projecting sk (fold (close_slot l) xs p) \<and> all_calls (pj_out (fold (close_slot l) xs p)) = all_calls (pj_out p)
    \<and> (\<forall>i\<in>A \<union> (os_index \<circ> snd) ` set xs. place_of (pj_out (fold (close_slot l) xs p) ! i) = sk ! i)
    \<and> pj_open (fold (close_slot l) xs p) = pj_open p"
  using assms
proof (induction xs arbitrary: p A)
  case (Cons x xs)
  obtain c s where x: "x = (c, s)" by (cases x)
  have m: "map_of (pj_open p) c = Some s" using Cons.prems(1,2) x by (auto simp: projecting_def keys_once_def)
  let ?q = "close_slot l x p"
  have q: "pj_out ?q = (pj_out p)[os_index s := createInterruptedToolResult c]" "pj_open ?q = pj_open p" "projecting sk ?q"
    using close_ok(1) [OF Cons.prems(1) m, of "createInterruptedToolResult c"] by (simp_all add: close_slot_def x)
  have idx: "os_index s < length (pj_out p)" "sk ! os_index s = Result (Some c)" using projectingD(3) [OF Cons.prems(1) m] by auto
  have "place_of (pj_out ?q ! i) = sk ! i" if "i \<in> insert (os_index s) A" for i
    using that Cons.prems(3) [of i] idx q(1) by (cases "i = os_index s") auto
  from Cons.IH [OF q(3) _ this] Cons.prems(2) q(1,2) close_ok(3) [OF Cons.prems(1) m, of "createInterruptedToolResult c"] x
  show ?case by auto
qed auto

lemma project_valid:
  assumes "calls_by_assistants history" "has_assistant history \<or> (\<forall>m\<in>set (shown history). msg_role m \<noteq> RTool)"
  shows "\<exists>out as. project history = Inr (out, as) \<and> wire_valid out \<and> all_calls out = all_calls (shown history)"
proof -
  let ?l = "last_non_tool (length history) history"
  from project_loop_ok [OF projecting_new _ assms, of ?l 0]
  obtain q sk where q: "project_loop (has_assistant history) ?l 0 history new_projection = Inr q" "projecting sk q" "places_ok sk"
    "all_calls (pj_out q) = all_calls (shown history)" by (auto simp: new_projection_def)
  define r where "r = fold (close_slot ?l) (pj_open q) q"
  have r: "projecting sk r" "all_calls (pj_out r) = all_calls (pj_out q)" "pj_open r = pj_open q"
    "\<And>x. x \<in> set (pj_open q) \<Longrightarrow> place_of (pj_out r ! os_index (snd x)) = sk ! os_index (snd x)"
    using close_all_ok [OF q(2), of "pj_open q" "{}" ?l] by (auto simp: r_def)
  have placed: "place_of (pj_out r ! i) = sk ! i" if i: "i < length sk" for i
  proof -
    from projectingD(2) [OF r(1) i] consider "place_of (pj_out r ! i) = sk ! i" | c s where "map_of (pj_open r) c = Some s" "os_index s = i"
      unfolding fits_def by blast
    then show ?thesis
    proof cases
      case (2 c s)
      then show ?thesis using r(4) [of "(c, s)"] r(3) map_of_SomeD [OF 2(1)] by simp
    qed
  qed
  have "place_of (pj_out (flushMerge r) ! i) = sk ! i" if i: "i < length sk" for i
  proof (cases "pj_merge r")
    case None
    then show ?thesis using placed [OF i] by (simp add: flushMerge_def)
  next
    case (Some g)
    from projectingD(4) [OF r(1) Some] show ?thesis using placed [OF i]
      by (cases "i = mg_index g") (auto simp: flushMerge_def Some)
  qed
  then have "map place_of (pj_out (flushMerge r)) = sk"
    using projectingD(1) [OF flushMerge_ok(1) [OF r(1)]] by (intro nth_equalityI) auto
  moreover have "project history = Inr (pj_out (flushMerge r), pj_anomalies (flushMerge r))"
    by (simp add: project_def q(1) Let_def r_def)
  ultimately show ?thesis using q(3,4) r(2) flushMerge_ok(2) [OF r(1)] by (simp add: wire_valid_def)
qed

text \<open>C3: Take a history in which only assistant messages carry tool calls and with at least one assistant message
  that is not partial. Projecting it never fails and gives valid wire messages, whatever happened to its results
  (lost, duplicated, displaced, interleaved with other messages): every assistant message with tool calls is followed at
  once by their results in order and there are no other results. No call is lost, added or reordered. Without such an
  assistant message the code sends the bare results on purpose, and this does not hold.\<close>

theorem project_wire_valid:
  assumes "calls_by_assistants history" "has_assistant history"
  shows "\<exists>out as. project history = Inr (out, as) \<and> wire_valid out \<and> all_calls out = all_calls (shown history)"
  using project_valid assms by blast

subsection \<open>The strict projection\<close>

lemma wire_induct [consumes 1, case_names Nil Plain Group]:
  assumes "wire_valid ms" "P []" "\<And>m ms. place_of m = Plain \<Longrightarrow> wire_valid ms \<Longrightarrow> P ms \<Longrightarrow> P (m # ms)"
    "\<And>m ids rs ms. place_of m = Calls ids \<Longrightarrow> map place_of rs = results_for ids \<Longrightarrow> wire_valid ms \<Longrightarrow> P ms \<Longrightarrow> P (m # rs @ ms)"
  shows "P ms"
proof -
  have "places_ok ps \<Longrightarrow> map place_of ms = ps \<Longrightarrow> P ms" for ps
  proof (induction ps arbitrary: ms rule: places_induct)
    case (Plain ps)
    then show ?case using assms(3) by (auto simp: wire_valid_def)
  next
    case (Group ids ps)
    from Group.prems obtain m rest where m: "ms = m # rest" "place_of m = Calls ids" "map place_of rest = results_for ids @ ps" by auto
    from m(3) obtain rs ns where r: "rest = rs @ ns" "map place_of rs = results_for ids" "map place_of ns = ps" by (auto simp: map_eq_append_conv)
    with Group.IH have "P ns" by blast
    with assms(4) [OF m(2) r(2)] m(1) r(1,3) Group.hyps show ?case by (simp add: wire_valid_def)
  qed (use assms(2) in simp)
  with assms(1) show ?thesis by (simp add: wire_valid_def)
qed

lemma place_Calls: "place_of m = Calls ids \<longleftrightarrow> msg_role m = RAssistant \<and> msg_toolCalls m \<noteq> [] \<and> ids = map tc_id (msg_toolCalls m)"
  by (auto simp: place_of_def)

lemma place_Result: "place_of m = Result i \<longleftrightarrow> msg_role m = RTool \<and> msg_toolCalls m = [] \<and> msg_toolCallId m = i"
  by (auto simp: place_of_def)

lemma place_Plain: "place_of m = Plain \<longleftrightarrow> msg_role m \<noteq> RTool \<and> msg_toolCalls m = []"
  by (auto simp: place_of_def)

text \<open>The ids not seen before, each once.\<close>

fun fresh :: "'a list \<Rightarrow> 'a list \<Rightarrow> 'a list" where
  "fresh [] seen = []"
| "fresh (x # xs) seen = (if x \<in> set seen then fresh xs seen else x # fresh xs (seen @ [x]))"

lemma fresh_set: "set (fresh xs seen) = set xs - set seen" "distinct (fresh xs seen)"
  by (induction xs arbitrary: seen) auto

lemma keep_new_calls_ok:
  "keep_new_calls cs seen = (kept, seen', as) \<Longrightarrow>
     map tc_id kept = fresh (map tc_id cs) seen \<and> seen' = seen @ map tc_id kept \<and> length kept \<le> length cs \<and> (length kept = length cs \<longrightarrow> kept = cs)"
proof (induction cs arbitrary: seen kept seen' as)
  case (Cons c cs)
  show ?case
  proof (cases "tc_id c \<in> set seen")
    case True
    obtain k s a where k: "keep_new_calls cs seen = (k, s, a)" by (cases "keep_new_calls cs seen")
    from Cons.IH [OF k] Cons.prems True k show ?thesis by auto
  next
    case False
    obtain k s a where k: "keep_new_calls cs (seen @ [tc_id c]) = (k, s, a)" by (cases "keep_new_calls cs (seen @ [tc_id c])")
    from Cons.IH [OF k] Cons.prems False k show ?thesis by auto
  qed
qed simp

definition results_indexed :: "dedupe_state \<Rightarrow> bool" where
  "results_indexed d \<longleftrightarrow> (\<forall>c k. map_of (dd_results d) c = Some k \<longrightarrow> k < length (dd_out d) \<and> place_of (dd_out d ! k) = Result (Some c))"

lemma results_indexedD: "results_indexed d \<Longrightarrow> map_of (dd_results d) c = Some k \<Longrightarrow> k < length (dd_out d) \<and> place_of (dd_out d ! k) = Result (Some c)"
  by (simp add: results_indexed_def)

lemma results_indexed_push: "results_indexed d \<Longrightarrow> results_indexed (d\<lparr>dd_out := dd_out d @ [m]\<rparr>)"
  by (fastforce simp: results_indexed_def nth_append)

definition deduping :: "dedupe_state \<Rightarrow> bool" where
  "deduping d \<longleftrightarrow> wire_valid (dd_out d) \<and> dd_calls d = map tc_id (all_calls (dd_out d)) \<and> distinct (dd_calls d)
     \<and> dom (map_of (dd_results d)) = set (dd_calls d) \<and> results_indexed d"

lemma dedupingD:
  assumes "deduping d"
  shows "wire_valid (dd_out d)" "dd_calls d = map tc_id (all_calls (dd_out d))" "distinct (map tc_id (all_calls (dd_out d)))"
    "dom (map_of (dd_results d)) = set (dd_calls d)" "results_indexed d"
  using assms unfolding deduping_def by metis+

lemma map_update_same: "k < length xs \<Longrightarrow> f (xs ! k) = f y \<Longrightarrow> map f (xs[k := y]) = map f xs"
  by (simp add: map_update list_update_same_conv)

lemma dedupe_results_ok:
  assumes "map place_of rs = results_for ids" "dom (map_of (dd_results d)) = set seen" "results_indexed d"
  shows "map place_of (dd_out (fold dedupe_message rs d)) = map place_of (dd_out d) @ results_for (fresh ids seen)
    \<and> dd_calls (fold dedupe_message rs d) = dd_calls d \<and> dom (map_of (dd_results (fold dedupe_message rs d))) = set seen \<union> set ids
    \<and> results_indexed (fold dedupe_message rs d) \<and> all_calls (dd_out (fold dedupe_message rs d)) = all_calls (dd_out d)"
  using assms
proof (induction rs arbitrary: ids seen d)
  case (Cons r rs)
  then obtain i is' where ids: "ids = i # is'" "place_of r = Result (Some i)" "map place_of rs = results_for is'" by (cases ids) auto
  then have r: "msg_role r = RTool" "msg_toolCalls r = []" "msg_toolCallId r = Some i" by (simp_all add: place_Result)
  have step: "dedupe_message r d = dedupe_result i r d" using r by (simp add: dedupe_message_def)
  let ?d = "dedupe_result i r d"
  show ?case
  proof (cases "map_of (dd_results d) i")
    case None
    then have new: "i \<notin> set seen" using Cons.prems(2) by (metis domIff)
    have d: "?d = d\<lparr>dd_results := dd_results d @ [(i, length (dd_out d))], dd_out := dd_out d @ [r]\<rparr>" by (simp add: dedupe_result_def None)
    have "dom (map_of (dd_results ?d)) = set (seen @ [i])" using Cons.prems(2) by (auto simp: d map_add_def dom_def split: option.splits)
    moreover have "results_indexed ?d" using Cons.prems(3) ids(2) by (auto simp: d results_indexed_def map_add_def nth_append split: option.splits if_splits)
    ultimately show ?thesis using Cons.IH [OF ids(3), of ?d "seen @ [i]"] new ids(1,2) r(2) by (simp add: step) (simp add: d)
  next
    case (Some k)
    then have old: "i \<in> set seen" using Cons.prems(2) by blast
    note k = results_indexedD [OF Cons.prems(3) Some]
    have d: "dd_results ?d = dd_results d" "dd_calls ?d = dd_calls d" "dd_out ?d = dd_out d \<or> dd_out ?d = (dd_out d)[k := r]"
      by (simp_all add: dedupe_result_def Some)
    have same: "map place_of (dd_out ?d) = map place_of (dd_out d)" "all_calls (dd_out ?d) = all_calls (dd_out d)"
    proof -
      have "map place_of ((dd_out d)[k := r]) = map place_of (dd_out d)" using map_update_same [of k "dd_out d" place_of r] k ids(2) by simp
      moreover have "all_calls ((dd_out d)[k := r]) = all_calls (dd_out d)"
        using all_calls_update [of k "dd_out d" r] k r(2) place_Result [of "dd_out d ! k" "Some i"] by simp
      ultimately show "map place_of (dd_out ?d) = map place_of (dd_out d)" "all_calls (dd_out ?d) = all_calls (dd_out d)" using d(3) by metis+
    qed
    then have len: "length (dd_out ?d) = length (dd_out d)" by (metis length_map)
    have "place_of (dd_out ?d ! j) = place_of (dd_out d ! j)" if "j < length (dd_out d)" for j
      using arg_cong [OF same(1), of "\<lambda>xs. xs ! j"] that len by simp
    with Cons.prems(3) len have "results_indexed ?d" by (simp add: results_indexed_def d(1))
    with Cons.IH [OF ids(3), of ?d seen] Cons.prems(2) old ids(1) same d show ?thesis by (auto simp: step)
  qed
qed auto

lemma dedupe_assistant_shape:
  assumes "msg_role m = RAssistant" "msg_toolCalls m \<noteq> []" "keep_new_calls (msg_toolCalls m) (dd_calls d) = (kept, seen, as)"
  shows "\<exists>pre. dd_out (dedupe_message m d) = dd_out d @ pre \<and> dd_calls (dedupe_message m d) = seen \<and> dd_results (dedupe_message m d) = dd_results d
    \<and> (pre = [] \<and> kept = [] \<or> (\<exists>x. pre = [x] \<and> msg_role x = RAssistant \<and> msg_toolCalls x = kept))"
proof -
  have all: "length kept = length (msg_toolCalls m) \<Longrightarrow> kept = msg_toolCalls m" using keep_new_calls_ok [OF assms(3)] by simp
  have d: "dedupe_message m d = dedupe_assistant m d" using assms(1,2) by (simp add: dedupe_message_def)
  consider "length kept = length (msg_toolCalls m)" | "length kept \<noteq> length (msg_toolCalls m)" "length kept > 0 \<or> \<not> list_all isVacuousContentPart (msg_content m)"
    | "length kept \<noteq> length (msg_toolCalls m)" "kept = []" "list_all isVacuousContentPart (msg_content m)" by (cases kept) auto
  then show ?thesis
  proof cases
    case 1
    then show ?thesis unfolding d using assms(1) all by (simp add: dedupe_assistant_def assms(3) Let_def)
  next
    case 2
    then show ?thesis unfolding d using assms(1) by (simp add: dedupe_assistant_def assms(3) Let_def)
  next
    case 3
    then show ?thesis unfolding d by (simp add: dedupe_assistant_def assms(3) Let_def)
  qed
qed

lemma dedupe_ok: "wire_valid ms \<Longrightarrow> deduping d \<Longrightarrow> deduping (fold dedupe_message ms d)"
proof (induction ms arbitrary: d rule: wire_induct)
  case (Plain m ms)
  then have "dedupe_message m d = d\<lparr>dd_out := dd_out d @ [m]\<rparr>" by (auto simp: dedupe_message_def place_Plain split: role.splits)
  moreover have "deduping (d\<lparr>dd_out := dd_out d @ [m]\<rparr>)"
    using Plain(1) place_Plain [of m] Plain.prems by (auto simp: deduping_def wire_valid_def places_ok_append results_indexed_push)
  ultimately show ?case using Plain.IH by simp
next
  case (Group m ids rs ms)
  then have m: "msg_role m = RAssistant" "msg_toolCalls m \<noteq> []" "ids = map tc_id (msg_toolCalls m)" by (simp_all add: place_Calls)
  obtain kept seen as where k: "keep_new_calls (msg_toolCalls m) (dd_calls d) = (kept, seen, as)" by (cases "keep_new_calls (msg_toolCalls m) (dd_calls d)")
  note ok = keep_new_calls_ok [OF k]
  let ?new = "fresh ids (dd_calls d)"
  define d1 where "d1 = dedupe_message m d"
  have cs: "?new = map tc_id kept" using ok m(3) by metis
  obtain pre where pre: "dd_out d1 = dd_out d @ pre" "dd_calls d1 = seen" "dd_results d1 = dd_results d"
    "pre = [] \<and> kept = [] \<or> (\<exists>x. pre = [x] \<and> msg_role x = RAssistant \<and> msg_toolCalls x = kept)"
    using dedupe_assistant_shape [OF m(1,2) k] by (auto simp: d1_def)
  have d1: "dd_out d1 = dd_out d @ pre" "dd_calls d1 = seen" "dd_results d1 = dd_results d" "all_calls pre = kept"
    using pre by auto
  have d: "wire_valid (dd_out d)" "dd_calls d = map tc_id (all_calls (dd_out d))" "distinct (dd_calls d)" "dom (map_of (dd_results d)) = set (dd_calls d)" "results_indexed d"
    using dedupingD [OF Group.prems] by auto
  have "results_indexed d1" using d(5) by (fastforce simp: results_indexed_def d1 nth_append)
  then have rs: "map place_of (dd_out (fold dedupe_message rs d1)) = map place_of (dd_out d1) @ results_for ?new"
    "dd_calls (fold dedupe_message rs d1) = seen" "dom (map_of (dd_results (fold dedupe_message rs d1))) = set (dd_calls d) \<union> set ids"
    "results_indexed (fold dedupe_message rs d1)" "all_calls (dd_out (fold dedupe_message rs d1)) = all_calls (dd_out d) @ kept"
    using dedupe_results_ok [OF Group(2), of d1 "dd_calls d"] d(4) d1 by auto
  have "places_ok (map place_of pre @ results_for ?new)"
  proof (cases "kept = []")
    case True
    then show ?thesis using pre(4) by (auto simp: cs place_of_def)
  next
    case False
    with pre(4) have "map place_of pre = [Calls ?new]" by (auto simp: cs place_Calls)
    then show ?thesis using places_ok_group [of ?new "[]"] by simp
  qed
  then have "wire_valid (dd_out (fold dedupe_message rs d1))"
    using d(1) rs(1) d1(1) by (simp add: wire_valid_def places_ok_append)
  moreover have "seen = dd_calls d @ ?new" using ok m(3) by simp
  ultimately have "deduping (fold dedupe_message rs d1)"
    using rs(2-5) d(2,3) ok m(3) fresh_set [of ids "dd_calls d"] by (auto simp: deduping_def)
  from Group.IH [OF this] show ?case by (simp add: d1_def)
qed simp

lemma places_ok_snoc_Plain: "places_ok (ps @ [Plain]) \<Longrightarrow> places_ok ps"
proof (induction "length ps" arbitrary: ps rule: less_induct)
  case less
  show ?case
  proof (cases ps)
    case (Cons q qs)
    show ?thesis
    proof (cases q)
      case (Calls ids)
      have len: "length ids \<le> length qs"
      proof (rule ccontr)
        assume "\<not> length ids \<le> length qs"
        then have "take (length ids) (qs @ [Plain]) = qs @ [Plain]" by simp
        with less.prems Calls Cons have "qs @ [Plain] = results_for ids" by simp
        then have "Plain \<in> set (results_for ids)" by (metis in_set_conv_decomp)
        then show False by auto
      qed
      with less.prems Calls Cons have "take (length ids) qs = results_for ids" "places_ok (drop (length ids) qs @ [Plain])" by simp_all
      with less.hyps [of "drop (length ids) qs"] Calls Cons show ?thesis by simp
    qed (use less Cons in auto)
  qed simp
qed

definition no_double :: "message list \<Rightarrow> bool" where
  "no_double ms = successively (\<lambda>a b. \<not> (a = RAssistant \<and> b = RAssistant)) (map msg_role ms)"

lemma no_double_snoc: "no_double (ms @ [m]) \<longleftrightarrow> no_double ms \<and> (ms = [] \<or> msg_role (List.last ms) \<noteq> RAssistant \<or> msg_role m \<noteq> RAssistant)"
  by (auto simp: no_double_def successively_append_iff last_map)

lemma merge_appends:
  "list_all (\<lambda>m. msg_role m \<noteq> RAssistant) rs \<Longrightarrow> fold merge_message rs (out, as) = (out @ rs, as)"
  by (induction rs arbitrary: out) (auto simp: merge_message_def)

lemma no_double_append_tools:
  "no_double ms \<Longrightarrow> list_all (\<lambda>m. msg_role m \<noteq> RAssistant) rs \<Longrightarrow> no_double (ms @ rs)"
proof (induction rs rule: rev_induct)
  case (snoc r rs)
  then show ?case unfolding append_assoc [symmetric] no_double_snoc by simp
qed simp

text \<open>Adding an assistant message to a valid list: its place is at the end, alone or merged.\<close>

lemma merge_assistant:
  assumes "wire_valid out" "no_double out" "msg_role m = RAssistant"
  shows "\<exists>pre x as'. merge_message m (out, as) = (pre @ [x], as') \<and> wire_valid pre \<and> no_double (pre @ [x]) \<and> msg_role x = RAssistant
    \<and> msg_toolCalls x = msg_toolCalls m \<and> all_calls pre = all_calls out"
proof (cases "out \<noteq> [] \<and> msg_role (List.last out) = RAssistant")
  case True
  then obtain pre prev where out: "out = pre @ [prev]" "msg_role prev = RAssistant" by (metis append_butlast_last_id)
  have "places_ok (map place_of pre @ [place_of prev])" using assms(1) out by (simp add: wire_valid_def)
  have "msg_toolCalls prev = []"
  proof (rule ccontr)
    assume "msg_toolCalls prev \<noteq> []"
    then have "place_of prev = Calls (map tc_id (msg_toolCalls prev))" using out(2) place_Calls by blast
    with places_ok_last [OF \<open>places_ok (map place_of pre @ [place_of prev])\<close>] \<open>msg_toolCalls prev \<noteq> []\<close> show False by simp
  qed
  then have "place_of prev = Plain" using out(2) place_Plain [of prev] by simp
  then have prev: "place_of prev = Plain" "msg_toolCalls prev = []" using place_Plain [of prev] by simp_all
  have "wire_valid pre" using \<open>places_ok (map place_of pre @ [place_of prev])\<close> places_ok_snoc_Plain by (simp add: prev wire_valid_def)
  moreover have "no_double (pre @ [merge_pair prev m])" using assms(2) out by (simp add: no_double_def merge_pair_def)
  ultimately show ?thesis using out assms(3) prev(2)
    by (intro exI [of _ pre] exI [of _ "merge_pair prev m"]) (simp add: merge_message_def merge_pair_def)
next
  case False
  with assms show ?thesis by (intro exI [of _ out] exI [of _ m]) (auto simp: merge_message_def no_double_snoc)
qed

lemma merge_ok:
  "wire_valid ms \<Longrightarrow> wire_valid out \<Longrightarrow> no_double out \<Longrightarrow>
     \<exists>out' as'. fold merge_message ms (out, as) = (out', as') \<and> wire_valid out' \<and> no_double out' \<and> all_calls out' = all_calls out @ all_calls ms"
proof (induction ms arbitrary: out as rule: wire_induct)
  case (Plain m ms)
  have m: "msg_toolCalls m = []" "msg_role m \<noteq> RTool" using Plain(1) place_Plain [of m] by simp_all
  have "\<exists>out1 as1. merge_message m (out, as) = (out1, as1) \<and> wire_valid out1 \<and> no_double out1 \<and> all_calls out1 = all_calls out"
  proof (cases "msg_role m = RAssistant")
    case True
    from merge_assistant [OF Plain.prems True, of as] obtain pre x as' where
      x: "merge_message m (out, as) = (pre @ [x], as')" "wire_valid pre" "no_double (pre @ [x])" "msg_role x = RAssistant" "msg_toolCalls x = []" "all_calls pre = all_calls out"
      using m(1) by auto
    then have "place_of x = Plain" by (simp add: place_Plain)
    with x show ?thesis by (auto simp: wire_valid_def places_ok_append)
  next
    case False
    then have "wire_valid (out @ [m])" using Plain.prems(1) m place_Plain [of m] by (simp add: wire_valid_def places_ok_append)
    with False Plain.prems m(1) show ?thesis by (auto simp: merge_message_def no_double_snoc)
  qed
  then obtain out1 as1 where 1: "merge_message m (out, as) = (out1, as1)" "wire_valid out1" "no_double out1" "all_calls out1 = all_calls out" by blast
  from Plain.IH [OF 1(2,3), of as1] 1(1,4) m(1) show ?case by simp
next
  case (Group m ids rs ms)
  then have m: "msg_role m = RAssistant" "ids = map tc_id (msg_toolCalls m)" "msg_toolCalls m \<noteq> []" using place_Calls [of m ids] by simp_all
  have tools: "list_all (\<lambda>r. msg_role r \<noteq> RAssistant) rs" "all_calls rs = []"
  proof -
    have "msg_role r = RTool \<and> msg_toolCalls r = []" if "r \<in> set rs" for r
    proof -
      from that have "place_of r \<in> set (results_for ids)" using Group(2) by (metis image_eqI set_map)
      then show ?thesis using place_Result [of r] by auto
    qed
    then show "list_all (\<lambda>r. msg_role r \<noteq> RAssistant) rs" "all_calls rs = []" by (auto simp: list_all_iff all_calls_def)
  qed
  from merge_assistant [OF Group.prems m(1), of as] obtain pre x as' where
    x: "merge_message m (out, as) = (pre @ [x], as')" "wire_valid pre" "no_double (pre @ [x])" "msg_role x = RAssistant"
      "msg_toolCalls x = msg_toolCalls m" "all_calls pre = all_calls out" by blast
  then have "place_of x = Calls ids" using m by (simp add: place_Calls)
  then have v: "wire_valid (pre @ [x] @ rs)" using x(2) Group(2) places_ok_group [of ids "[]"] by (simp add: wire_valid_def places_ok_append del: places_ok_group)
  from Group.IH [OF v] no_double_append_tools [OF x(3) tools(1)] x tools(2) m
  show ?case by (simp add: merge_appends [OF tools(1)])
qed auto

lemma drop_leading_tools: "list_all (\<lambda>m. msg_role m \<noteq> RUser) rs \<Longrightarrow> fst (dropLeadingNonUserMessages (rs @ ms)) = fst (dropLeadingNonUserMessages ms)"
  by (induction rs) (auto split: prod.split)

lemma drop_leading_suffix: "\<exists>pre. ms = pre @ fst (dropLeadingNonUserMessages ms)"
  by (induction ms) (force split: prod.split)+

lemma drop_leading_user: "fst (dropLeadingNonUserMessages ms) = [] \<or> msg_role (hd (fst (dropLeadingNonUserMessages ms))) = RUser"
  by (induction ms) (auto split: prod.split)

lemma drop_leading_valid: "wire_valid ms \<Longrightarrow> wire_valid (fst (dropLeadingNonUserMessages ms))"
proof (induction ms rule: wire_induct)
  case (Plain m ms)
  then show ?case by (auto simp: wire_valid_def split: prod.split)
next
  case (Group m ids rs ms)
  have "place_of r \<in> set (results_for ids)" if "r \<in> set rs" for r using that Group(2) by (metis image_eqI set_map)
  then have "msg_role r = RTool" if "r \<in> set rs" for r using that place_Result [of r] by auto
  then have "list_all (\<lambda>m. msg_role m \<noteq> RUser) (m # rs)" using Group(1) place_Calls [of m ids] by (auto simp: list_all_iff)
  from drop_leading_tools [OF this, of ms] Group.IH show ?case by simp
qed (simp add: wire_valid_def)

text \<open>C24: Take again a history in which only assistant messages carry tool calls and with at least one assistant message
  that is not partial. Its strict projection gives messages that the strictest provider accepts: valid as in the projection,
  no tool call id twice, no two assistant messages in a row, and a user message first (or no message at all).\<close>

theorem strict_wire_valid:
  assumes "calls_by_assistants history" "has_assistant history"
  shows "\<exists>out as. projectStrict history = Inr (out, as) \<and> wire_valid out \<and> distinct (map tc_id (all_calls out))
    \<and> successively (\<lambda>a b. \<not> (a = RAssistant \<and> b = RAssistant)) (map msg_role out) \<and> (out = [] \<or> msg_role (hd out) = RUser)"
proof -
  obtain p0 a0 where p: "project history = Inr (p0, a0)" "wire_valid p0" using project_valid assms by blast
  define d where "d = fold dedupe_message p0 \<lparr>dd_calls = [], dd_results = [], dd_out = [], dd_anomalies = []\<rparr>"
  have "deduping d" unfolding d_def
    by (rule dedupe_ok [OF p(2)]) (simp add: deduping_def results_indexed_def wire_valid_def)
  then obtain p1 a1 where d: "dedupeDuplicateToolCalls p0 = (p1, a1)" "wire_valid p1" "distinct (map tc_id (all_calls p1))"
    using that [of "dd_out d" "dd_anomalies d"] by (simp add: dedupeDuplicateToolCalls_def Let_def d_def [symmetric] dedupingD)
  obtain p2 a2 where m: "mergeConsecutiveAssistantMessages p1 = (p2, a2)" "wire_valid p2" "no_double p2" "all_calls p2 = all_calls p1"
    using merge_ok [OF d(2), of "[]" "[]"] by (auto simp: mergeConsecutiveAssistantMessages_def no_double_def wire_valid_def)
  obtain p3 a3 where l: "dropLeadingNonUserMessages p2 = (p3, a3)" by (cases "dropLeadingNonUserMessages p2")
  obtain pre where pre: "p2 = pre @ p3" using drop_leading_suffix [of p2] l by auto
  have "projectStrict history = Inr (p3, a0 @ a1 @ a2 @ a3)" by (simp add: projectStrict_def p(1) d(1) m(1) l)
  moreover have "wire_valid p3" "p3 = [] \<or> msg_role (hd p3) = RUser" using drop_leading_valid [OF m(2)] drop_leading_user [of p2] l by simp_all
  moreover have "distinct (map tc_id (all_calls p3))" using d(3) by (simp add: m(4) [symmetric] pre)
  moreover have "no_double p3" using m(3) pre by (auto simp: no_double_def successively_append_iff)
  ultimately show ?thesis by (auto simp: no_double_def)
qed

subsection \<open>Media\<close>

definition all_media :: "message list \<Rightarrow> content_part list" where
  "all_media ms = filter isDegradableMediaPart (concat (map msg_content ms))"

lemma all_media_simps [simp]: "all_media [] = []" "all_media (m # ms) = filter isDegradableMediaPart (msg_content m) @ all_media ms"
  by (simp_all add: all_media_def)

lemma degrade_parts_ok:
  "degrade_parts ph n ps = (n', qs) \<Longrightarrow> n' = n - length (filter isDegradableMediaPart ps)
     \<and> filter isDegradableMediaPart qs = drop n (filter isDegradableMediaPart ps)"
proof (induction ps arbitrary: n n' qs)
  case (Cons p ps)
  obtain n1 q1 where r: "degrade_parts ph (case media_of p of None \<Rightarrow> n | Some md \<Rightarrow> n - 1) ps = (n1, q1)" by fastforce
  from Cons.IH [OF r] Cons.prems r show ?case
    by (cases n; cases "media_of p") (auto simp: isDegradableMediaPart_def)
qed simp

lemma degrade_messages_ok:
  "all_media (degrade_messages ph n ms) = drop n (all_media ms) \<and> map place_of (degrade_messages ph n ms) = map place_of ms
    \<and> length (degrade_messages ph n ms) = length ms"
proof (induction ms arbitrary: n)
  case (Cons m ms)
  show ?case
  proof (cases "n = 0 \<or> \<not> list_ex isDegradableMediaPart (msg_content m)")
    case True
    then have "n = 0 \<or> filter isDegradableMediaPart (msg_content m) = []" by (auto simp: filter_empty_conv list_ex_iff)
    then show ?thesis using Cons.IH [of n] True by auto
  next
    case False
    obtain n' content where d: "degrade_parts ph n (msg_content m) = (n', content)" by fastforce
    with degrade_parts_ok [OF d] Cons.IH [of n'] False show ?thesis by (simp add: place_of_def)
  qed
qed simp

lemma captured_keys: "p \<in> set (concat (map msg_content ms)) \<Longrightarrow> media_of p = Some md \<Longrightarrow> mediaStripKey hash md \<in> captureMediaStripSnapshot hash ms"
  unfolding captureMediaStripSnapshot_def List.map_filter_def set_map set_filter
  by (cases md, rule image_eqI [of _ _ p]) simp_all

lemma strip_parts: "filter isDegradableMediaPart (map (strip_part hash keys) ps) =
    filter (\<lambda>p. \<exists>md. media_of p = Some md \<and> mediaStripKey hash md \<notin> keys) ps"
  by (induction ps) (auto simp: strip_part_def isDegradableMediaPart_def split: option.splits)

lemma strip_all: "all_media (stripMediaPartsBySnapshot hash keys ms) =
    filter (\<lambda>p. \<exists>md. media_of p = Some md \<and> mediaStripKey hash md \<notin> keys) (concat (map msg_content ms))"
  by (induction ms) (simp_all add: stripMediaPartsBySnapshot_def strip_parts)

text \<open>The media fallbacks: the degraded projection keeps exactly the last two media parts; stripping by a snapshot
  of messages removes every media part those messages had and no other; neither changes which calls and results
  the messages hold.\<close>

theorem media_fallbacks:
  "all_media (degradeOlderMediaParts ms MEDIA_DEGRADE_KEEP_RECENT ph) = drop (length (all_media ms) - 2) (all_media ms)
   \<and> all_media (stripMediaPartsBySnapshot hash (captureMediaStripSnapshot hash ms) (ms @ later)) =
       filter (\<lambda>p. \<exists>md. media_of p = Some md \<and> mediaStripKey hash md \<notin> captureMediaStripSnapshot hash ms) (concat (map msg_content later))
   \<and> wire_valid (degradeOlderMediaParts ms MEDIA_DEGRADE_KEEP_RECENT ph) = wire_valid ms
   \<and> wire_valid (stripMediaPartsBySnapshot hash keys ms) = wire_valid ms"
proof (intro conjI)
  have count: "sum_list (map (\<lambda>m. length (filter isDegradableMediaPart (msg_content m))) ms) = length (all_media ms)" by (induction ms) auto
  show "all_media (degradeOlderMediaParts ms MEDIA_DEGRADE_KEEP_RECENT ph) = drop (length (all_media ms) - 2) (all_media ms)"
    "wire_valid (degradeOlderMediaParts ms MEDIA_DEGRADE_KEEP_RECENT ph) = wire_valid ms"
    using degrade_messages_ok [of ph "length (all_media ms) - 2" ms]
    by (auto simp: degradeOlderMediaParts_def count MEDIA_DEGRADE_KEEP_RECENT_def Let_def wire_valid_def)
  have "filter (\<lambda>p. \<exists>md. media_of p = Some md \<and> mediaStripKey hash md \<notin> captureMediaStripSnapshot hash ms) (concat (map msg_content ms)) = []"
    using captured_keys by (auto simp: filter_empty_conv)
  then show "all_media (stripMediaPartsBySnapshot hash (captureMediaStripSnapshot hash ms) (ms @ later)) =
       filter (\<lambda>p. \<exists>md. media_of p = Some md \<and> mediaStripKey hash md \<notin> captureMediaStripSnapshot hash ms) (concat (map msg_content later))"
    by (simp add: strip_all)
  have "map place_of (stripMediaPartsBySnapshot hash keys ms) = map place_of ms"
    by (simp add: stripMediaPartsBySnapshot_def place_of_def)
  then show "wire_valid (stripMediaPartsBySnapshot hash keys ms) = wire_valid ms" by (simp add: wire_valid_def)
qed

subsection \<open>A damaged history\<close>

text \<open>A result displaced by a user message, a call without a result, and an orphan.\<close>

definition sample_history :: "context_message list" where
  "sample_history =
     [stored (createUserMessage [104]),
      stored (createAssistantMessage [TextPart [111]] (Some [\<lparr>tc_id = [97], tc_name = [1], tc_arguments = None, tc_extras = None, tc_streamIndex = None\<rparr>,
         \<lparr>tc_id = [98], tc_name = [1], tc_arguments = None, tc_extras = None, tc_streamIndex = None\<rparr>])),
      stored (createUserMessage [105]), stored (createToolMessage [98] (OutText [])), stored (createToolMessage [99] (OutText [120]))]"

lemma sample_history_ok: "calls_by_assistants sample_history" "has_assistant sample_history"
  by (simp_all add: sample_history_def calls_by_assistants_def has_assistant_def createUserMessage_def createAssistantMessage_def createToolMessage_def)

theorem project_wire_valid_witness:
  "\<exists>out as. project sample_history = Inr (out, as) \<and> wire_valid out \<and> map tc_id (all_calls out) = [[97], [98]]"
proof -
  from project_wire_valid [OF sample_history_ok] obtain out as where p: "project sample_history = Inr (out, as)" "wire_valid out"
    "all_calls out = all_calls (shown sample_history)" by blast
  have "map tc_id (all_calls (shown sample_history)) = [[97], [98]]"
    by (simp add: sample_history_def shown_def createUserMessage_def createAssistantMessage_def createToolMessage_def)
  with p show ?thesis by auto
qed

theorem strict_wire_valid_witness:
  "\<exists>out as. projectStrict sample_history = Inr (out, as) \<and> wire_valid out \<and> distinct (map tc_id (all_calls out))"
  using strict_wire_valid [OF sample_history_ok] by blast

end
