(* ===== verification/LoopFoldProofs.thy ===== *)
theory LoopFoldProofs
  imports LoopFold Compaction ProjectorProofs "HOL-Library.Multiset"
begin

section \<open>The history the loop records\<close>

text \<open>
  In a settled history every assistant message with calls is followed at once by one result per call, in the
  order the results arrived. While a tool exchange is open the history ends with that exchange, and the calls
  without a result are the pending ones.
\<close>

function groups_ok :: "place list \<Rightarrow> bool" where
  "groups_ok [] = True"
| "groups_ok (Plain # ps) = groups_ok ps"
| "groups_ok (Calls ids # ps) =
     (length ids \<le> length ps \<and> mset (take (length ids) ps) = mset (results_for ids) \<and> groups_ok (drop (length ids) ps))"
| "groups_ok (Result i # ps) = False"
| "groups_ok (Misplaced # ps) = False"
  by pat_completeness auto
termination by (relation "measure length") auto

lemma groups_induct [consumes 1, case_names Nil Plain Group]:
  assumes "groups_ok ps" "P []" "\<And>ps. groups_ok ps \<Longrightarrow> P ps \<Longrightarrow> P (Plain # ps)"
    "\<And>ids rs ps. mset rs = mset (results_for ids) \<Longrightarrow> groups_ok ps \<Longrightarrow> P ps \<Longrightarrow> P (Calls ids # rs @ ps)"
  shows "P ps"
  using assms(1)
proof (induction ps rule: groups_ok.induct)
  case (3 ids ps)
  then have "P (drop (length ids) ps)" by simp
  with assms(4) [of "take (length ids) ps" ids "drop (length ids) ps"] 3 show ?case by simp
qed (use assms(2,3) in auto)

lemma mset_results: "mset rs = mset (results_for ids) \<Longrightarrow> length rs = length ids \<and> (\<forall>r\<in>set rs. \<exists>i. r = Result (Some i))"
  by (metis (mono_tags, lifting) ex_map_conv length_map mset_eq_length mset_eq_setD)

lemma groups_ok_group: "mset rs = mset (results_for ids) \<Longrightarrow> groups_ok (Calls ids # rs @ ps) = groups_ok ps"
  using mset_results [of rs ids] by simp

lemma groups_ok_append: "groups_ok xs \<Longrightarrow> groups_ok (xs @ ys) = groups_ok ys"
proof (induction xs rule: groups_induct)
  case (Group ids rs ps)
  have "groups_ok ((Calls ids # rs @ ps) @ ys) = groups_ok (ps @ ys)" using groups_ok_group [OF Group(1), of "ps @ ys"] by (simp only: append_Cons append_assoc)
  with Group.IH show ?case by simp
qed simp_all

text \<open>A plain message is never inside a group.\<close>

lemma groups_ok_remove: "groups_ok (xs @ Plain # ys) \<Longrightarrow> groups_ok (xs @ ys) \<and> groups_ok (xs @ [Plain])"
proof (induction "length xs" arbitrary: xs rule: less_induct)
  case less
  show ?case
  proof (cases xs)
    case (Cons q qs)
    show ?thesis
    proof (cases q)
      case (Calls ids)
      let ?rest = "qs @ Plain # ys"
      have g: "length ids \<le> length ?rest" "mset (take (length ids) ?rest) = mset (results_for ids)" "groups_ok (drop (length ids) ?rest)"
        using less.prems Cons Calls by simp_all
      have len: "length ids \<le> length qs"
      proof (rule ccontr)
        assume "\<not> length ids \<le> length qs"
        then have "Plain \<in> set (take (length ids) ?rest)" by (simp add: take_Cons')
        then show False using mset_results [OF g(2)] by auto
      qed
      then have "groups_ok (drop (length ids) qs @ Plain # ys)" "mset (take (length ids) qs) = mset (results_for ids)" using g by simp_all
      with less.hyps [of "drop (length ids) qs"] Cons Calls len show ?thesis by simp
    qed (use less Cons in auto)
  qed (use less.prems in simp)
qed

subsection \<open>The invariant of the fold\<close>

definition places :: "context_message list \<Rightarrow> place list" where
  "places ms = map place_of ms"

lemma places_simps [simp]: "places [] = []" "places (m # ms) = place_of m # places ms" "places (ms @ ns) = places ms @ places ns" "length (places ms) = length ms"
  by (simp_all add: places_def)

definition is_partial :: "context_message \<Rightarrow> bool" where "is_partial m \<longleftrightarrow> msg_partial m = Some True"

text \<open>Messages appended from outside the loop are neither tool results nor partial and have no calls.\<close>

definition appendable :: "context_message \<Rightarrow> bool" where
  "appendable m \<longleftrightarrow> place_of m = Plain \<and> \<not> is_partial m"

definition open_group :: "js_string list \<Rightarrow> context_message list \<Rightarrow> bool" where
  "open_group pending ms \<longleftrightarrow> (\<exists>a rs ids. ms = a # rs \<and> place_of a = Calls ids \<and> is_partial a \<and> distinct ids
     \<and> mset (places rs) + mset (results_for pending) = mset (results_for ids) \<and> (\<forall>r\<in>set rs. \<not> is_partial r))"

definition partials_assist :: "context_message list \<Rightarrow> bool" where
  "partials_assist ms = list_all (\<lambda>m. is_partial m \<longrightarrow> msg_role m = RAssistant) ms"

lemma partials_assist_simps [simp]: "partials_assist []" "partials_assist (m # ms) \<longleftrightarrow> (is_partial m \<longrightarrow> msg_role m = RAssistant) \<and> partials_assist ms"
  by (simp_all add: partials_assist_def)

lemma partials_assist_append [simp]: "partials_assist (ms @ ns) \<longleftrightarrow> partials_assist ms \<and> partials_assist ns"
  by (simp add: partials_assist_def)

lemma no_partials_assist: "filter is_partial ms = [] \<Longrightarrow> partials_assist ms"
  by (auto simp: partials_assist_def filter_empty_conv list_all_iff)

definition fold_ok :: "fold_state \<Rightarrow> bool" where
  "fold_ok st \<longleftrightarrow> (\<exists>settled tail. fs_messages st = settled @ tail \<and> groups_ok (places settled)
     \<and> (if fs_pending st = [] then tail = [] \<and> fs_deferred st = [] \<and> length (filter is_partial settled) \<le> 1 \<and> partials_assist settled
        else open_group (fs_pending st) tail \<and> filter is_partial settled = [] \<and> distinct (fs_pending st))
     \<and> list_all appendable (fs_deferred st))"

lemma find_open_Some: "find_open ms n = Some i \<Longrightarrow> n \<le> length ms \<Longrightarrow> i < n \<and> is_partial (ms ! i)"
  by (induction n) (auto simp: is_partial_def split: if_splits)

lemma find_open_None: "find_open ms n = None \<Longrightarrow> n \<le> length ms \<Longrightarrow> \<forall>i<n. \<not> is_partial (ms ! i)"
  by (induction n) (auto simp: is_partial_def less_Suc_eq split: if_splits)

lemma find_unique:
  assumes "ms = xs @ a # ys" "is_partial a" "filter is_partial xs = []" "filter is_partial ys = []"
  shows "findOpenAssistantIndex ms = Some (length xs)"
proof (cases "findOpenAssistantIndex ms")
  case None
  have "length xs < length ms" "ms ! length xs = a" using assms(1) by simp_all
  then show ?thesis using find_open_None [of ms "length ms"] None assms(2) by (auto simp: findOpenAssistantIndex_def)
next
  case (Some i)
  then have i: "i < length ms" "is_partial (ms ! i)" using find_open_Some [of ms "length ms" i] by (simp_all add: findOpenAssistantIndex_def)
  have "i = length xs"
  proof (rule ccontr)
    assume "i \<noteq> length xs"
    then have "ms ! i \<in> set xs \<or> ms ! i \<in> set ys" using i(1) assms(1) by (auto simp: nth_append nth_Cons' split: if_splits)
    with i(2) assms(3,4) show False by (auto simp: filter_empty_conv)
  qed
  with Some show ?thesis by simp
qed

lemma find_none: "filter is_partial ms = [] \<Longrightarrow> findOpenAssistantIndex ms = None"
  using find_open_Some [of ms "length ms"] by (cases "findOpenAssistantIndex ms") (auto simp: findOpenAssistantIndex_def filter_empty_conv)

lemma one_partial:
  assumes "length (filter is_partial ms) \<le> 1"
  obtains "filter is_partial ms = []" | xs a ys where "ms = xs @ a # ys" "is_partial a" "filter is_partial xs = []" "filter is_partial ys = []"
proof (cases "filter is_partial ms = []")
  case False
  then obtain a where "filter is_partial ms = [a]" using assms by (cases "filter is_partial ms") auto
  then obtain xs ys where "ms = xs @ a # ys" "is_partial a" "\<forall>x\<in>set xs. \<not> is_partial x" "filter is_partial ys = []"
    by (auto simp: filter_eq_Cons_iff)
  then show thesis using that(2) by (auto simp: filter_empty_conv)
qed (use that(1) in blast)

definition settled_ok :: "fold_state \<Rightarrow> bool" where
  "settled_ok st \<longleftrightarrow> groups_ok (places (fs_messages st)) \<and> fs_pending st = [] \<and> fs_deferred st = [] \<and> length (filter is_partial (fs_messages st)) \<le> 1
     \<and> partials_assist (fs_messages st)"

lemma settled_fold_ok: "settled_ok st \<Longrightarrow> fold_ok st"
  by (auto simp: settled_ok_def fold_ok_def)

lemma appendable_list: "list_all appendable ms \<Longrightarrow> groups_ok (places ms) \<and> filter is_partial ms = []"
  by (induction ms) (auto simp: appendable_def)

lemma open_group_partial: "open_group pending ms \<Longrightarrow> length (filter is_partial ms) = 1"
  by (auto simp: open_group_def filter_empty_conv)

lemma close_group:
  assumes "open_group pending ms" "mset (places rs) = mset (results_for pending)" "filter is_partial rs = []"
  shows "groups_ok (places (ms @ rs))" "length (filter is_partial (ms @ rs)) = 1" "partials_assist (ms @ rs)"
proof -
  from assms(1) obtain a r0 ids where g: "ms = a # r0" "place_of a = Calls ids" "mset (places r0) + mset (results_for pending) = mset (results_for ids)"
    "\<forall>r\<in>set r0. \<not> is_partial r" by (auto simp: open_group_def)
  then show "partials_assist (ms @ rs)" using no_partials_assist [OF assms(3)] place_Calls [of a ids] by (auto simp: partials_assist_def list_all_iff)
  have "mset (places (r0 @ rs)) = mset (results_for ids)" using g(3) assms(2) by simp
  from groups_ok_group [OF this, of "[]"] show "groups_ok (places (ms @ rs))" by (simp add: g(1,2))
  show "length (filter is_partial (ms @ rs)) = 1" using open_group_partial [OF assms(1)] assms(3) by simp
qed

lemma fold_okE:
  assumes "fold_ok st"
  obtains (settled) "settled_ok st"
  | (opened) settled tail where "fs_messages st = settled @ tail" "groups_ok (places settled)" "fs_pending st \<noteq> []" "open_group (fs_pending st) tail"
      "filter is_partial settled = []" "distinct (fs_pending st)" "list_all appendable (fs_deferred st)"
proof (cases "fs_pending st = []")
  case True
  with assms show thesis using settled by (auto simp: fold_ok_def settled_ok_def)
next
  case False
  with assms show thesis using opened unfolding fold_ok_def by (metis (no_types, lifting))
qed

subsection \<open>Settling\<close>

lemma interrupted_places: "places (map interruptedToolMessage jds) = results_for jds" "filter is_partial (map interruptedToolMessage jds) = []"
  by (induction jds) (simp_all add: interruptedToolMessage_def createToolMessage_def place_of_def is_partial_def stored_def message.defs)

lemma closePending_ok:
  assumes "fold_ok st"
  shows "settled_ok (closePending st)"
  using assms
proof (cases rule: fold_okE)
  case settled
  then show ?thesis by (simp add: closePending_def settled_ok_def)
next
  case (opened pre tail)
  let ?int = "map interruptedToolMessage (fs_pending st)"
  note g = close_group [OF opened(4), of ?int]
  define T where "T = tail @ ?int"
  have T: "groups_ok (places T)" "length (filter is_partial T) = 1" "partials_assist T"
    using g by (simp_all only: T_def interrupted_places)
  moreover have "fs_messages (closePending st) = pre @ T @ fs_deferred st" "fs_pending (closePending st) = []" "fs_deferred (closePending st) = []"
    using opened(1,3) by (auto simp: closePending_def flushDeferred_def T_def)
  ultimately show ?thesis using opened(2,5) appendable_list [OF opened(7)] by (simp add: settled_ok_def groups_ok_append no_partials_assist)
qed

lemma place_sealed: "place_of (m\<lparr>msg_partial := p\<rparr>) = place_of m" "is_partial (m\<lparr>msg_partial := None\<rparr>) = False"
  by (simp_all add: place_of_def is_partial_def)

text \<open>After settling, nothing is open: every exchange is complete and no message is partial.\<close>

definition quiet :: "fold_state \<Rightarrow> bool" where
  "quiet st \<longleftrightarrow> groups_ok (places (fs_messages st)) \<and> fs_pending st = [] \<and> fs_deferred st = [] \<and> filter is_partial (fs_messages st) = []"

lemma settle_ok:
  assumes "fold_ok st"
  shows "quiet (settleOpenStep st)"
proof -
  let ?c = "closePending st"
  have c: "groups_ok (places (fs_messages ?c))" "fs_pending ?c = []" "fs_deferred ?c = []" "length (filter is_partial (fs_messages ?c)) \<le> 1" "partials_assist (fs_messages ?c)"
    using closePending_ok [OF assms] by (simp_all add: settled_ok_def)
  from c(4) show ?thesis
  proof (cases rule: one_partial)
    case 1
    then show ?thesis using c by (simp add: settleOpenStep_def Let_def find_none quiet_def)
  next
    case (2 xs a ys)
    note i = find_unique [OF 2]
    show ?thesis
    proof (cases "length (msg_toolCalls a) = 0 \<and> list_all isVacuousContentPart (msg_content a)")
      case True
      have "msg_role a = RAssistant" using c(5) 2(1,2) by (simp add: partials_assist_def)
      then have "place_of a = Plain" using True by (simp add: place_of_def)
      then have "groups_ok (places (xs @ ys))" using groups_ok_remove [of "places xs" "places ys"] c(1) 2(1) by simp
      then show ?thesis using True i 2 c by (simp add: settleOpenStep_def Let_def quiet_def)
    next
      case False
      then have "(msg_toolCalls a = [] \<and> list_all isVacuousContentPart (msg_content a)) = False" by simp
      with i 2(1) have "settleOpenStep st = ?c\<lparr>fs_messages := xs @ a\<lparr>msg_partial := None\<rparr> # ys\<rparr>"
        by (simp add: settleOpenStep_def Let_def list_update_append)
      then show ?thesis using 2 c by (simp add: quiet_def place_sealed)
    qed
  qed
qed

subsection \<open>The records of a turn\<close>

text \<open>A call is recorded while its step's assistant message is the last one, under a new id: the loop records the
  calls of a response before their results, and the messages that could come between are held back.\<close>

fun allowed :: "loop_event \<Rightarrow> fold_state \<Rightarrow> bool" where
  "allowed (ToolCallEvent stepUuid i name args extras) st =
     (fs_messages st \<noteq> [] \<and> is_partial (List.last (fs_messages st)) \<and> i \<notin> set (map tc_id (msg_toolCalls (List.last (fs_messages st)))))"
| "allowed _ st = True"

lemma quiet_settled: "quiet st \<Longrightarrow> settled_ok st"
  by (simp add: quiet_def settled_ok_def no_partials_assist)

lemma append_message_ok:
  assumes "fold_ok st" "appendable m"
  shows "fold_ok (foldAppendMessage m st)"
  using assms(1)
proof (cases rule: fold_okE)
  case settled
  with assms(2) have "settled_ok (foldAppendMessage m st)"
    by (simp add: foldAppendMessage_def settled_ok_def groups_ok_append appendable_def)
  then show ?thesis by (rule settled_fold_ok)
next
  case (opened pre tail)
  with assms(2) show ?thesis by (auto simp: foldAppendMessage_def fold_ok_def)
qed

lemma step_begin_ok:
  assumes "fold_ok st"
  shows "settled_ok (foldLoopEvent (StepBegin u) st)"
proof -
  have "place_of open_assistant = Plain" "is_partial open_assistant" "msg_role open_assistant = RAssistant"
    by (simp_all add: open_assistant_def place_of_def is_partial_def stored_def message.defs)
  then show ?thesis using settle_ok [OF assms]
    by (simp add: Let_def settled_ok_def quiet_def groups_ok_append no_partials_assist)
qed

lemma step_end_ok:
  assumes "fold_ok st"
  shows "quiet (foldLoopEvent (StepEnd u) st)"
proof -
  from assms have "fold_ok (st\<lparr>fs_openStep := None\<rparr>)"
  proof (cases rule: fold_okE)
    case settled
    then show ?thesis by (intro settled_fold_ok) (simp add: settled_ok_def)
  next
    case (opened pre tail)
    then show ?thesis unfolding fold_ok_def by (intro exI [of _ pre] exI [of _ tail]) simp
  qed
  from settle_ok [OF this] show ?thesis by (simp add: flushDeferred_def quiet_def)
qed

lemma same_shape:
  assumes "i < length ms" "place_of m = place_of (ms ! i)" "is_partial m = is_partial (ms ! i)" "msg_role m = msg_role (ms ! i)"
  shows "places (ms[i := m]) = places ms" "length (filter is_partial (ms[i := m])) = length (filter is_partial ms)" "partials_assist (ms[i := m]) = partials_assist ms"
proof -
  have u: "ms[i := m] = take i ms @ m # drop (Suc i) ms" "ms = take i ms @ ms ! i # drop (Suc i) ms"
    using assms(1) by (simp_all add: upd_conv_take_nth_drop id_take_nth_drop)
  show "places (ms[i := m]) = places ms" using assms(1,2) by (simp add: places_def map_update_same)
  show "length (filter is_partial (ms[i := m])) = length (filter is_partial ms)"
    by (subst u(1), subst (3) u(2)) (simp add: assms(3))
  show "partials_assist (ms[i := m]) = partials_assist ms"
    by (subst u(1), subst (3) u(2)) (simp add: assms(3,4))
qed

lemma content_part_ok:
  assumes "fold_ok st"
  shows "fold_ok (foldLoopEvent (ContentPart u part) st)"
proof (cases "findOpenAssistantIndex (fs_messages st)")
  case None
  with assms show ?thesis by (simp add: appendToOpenAssistant_def)
next
  case (Some i)
  let ?m = "fs_messages st ! i"
  let ?n = "?m\<lparr>msg_content := msg_content ?m @ [part]\<rparr>"
  have i: "i < length (fs_messages st)" using find_open_Some [of "fs_messages st" _ i] Some by (simp add: findOpenAssistantIndex_def)
  have e: "foldLoopEvent (ContentPart u part) st = st\<lparr>fs_messages := (fs_messages st)[i := ?n]\<rparr>" by (simp add: appendToOpenAssistant_def Some)
  have n: "place_of ?n = place_of ?m" "is_partial ?n = is_partial ?m" "msg_role ?n = msg_role ?m" by (simp_all add: place_of_def is_partial_def)
  note same = same_shape [OF i n]
  from assms show ?thesis
  proof (cases rule: fold_okE)
    case settled
    then show ?thesis unfolding e by (intro settled_fold_ok) (simp add: settled_ok_def same)
  next
    case (opened pre tail)
    from opened(4) obtain a rs ids where g: "tail = a # rs" "place_of a = Calls ids" "is_partial a" "distinct ids"
      "mset (places rs) + mset (results_for (fs_pending st)) = mset (results_for ids)" "\<forall>r\<in>set rs. \<not> is_partial r" by (auto simp: open_group_def)
    have "findOpenAssistantIndex (fs_messages st) = Some (length pre)"
      by (rule find_unique [of _ pre a rs]) (use opened g in \<open>auto simp: filter_empty_conv\<close>)
    then have ip: "i = length pre" using Some by simp
    then have m: "?m = a" using opened(1) g(1) by simp
    have "(fs_messages st)[i := ?n] = pre @ ?n # rs" using opened(1) g(1) ip by simp
    moreover have "open_group (fs_pending st) (?n # rs)"
      unfolding open_group_def using g n by (intro exI [of _ ?n] exI [of _ rs] exI [of _ ids]) (simp add: m)
    ultimately show ?thesis unfolding e fold_ok_def using opened by (intro exI [of _ pre] exI [of _ "?n # rs"]) simp
  qed
qed

lemma groups_ok_last: "groups_ok (ps @ [Calls ids]) \<Longrightarrow> ids = []"
proof (induction "length ps" arbitrary: ps rule: less_induct)
  case less
  show ?case
  proof (cases ps)
    case (Cons q qs)
    show ?thesis
    proof (cases q)
      case (Calls jds)
      let ?rest = "qs @ [Calls ids]"
      have g: "length jds \<le> length ?rest" "mset (take (length jds) ?rest) = mset (results_for jds)" "groups_ok (drop (length jds) ?rest)"
        using less.prems Cons Calls by simp_all
      have "length jds \<le> length qs"
      proof (rule ccontr)
        assume "\<not> length jds \<le> length qs"
        then have "Calls ids \<in> set (take (length jds) ?rest)" using g(1) by simp
        then show False using mset_results [OF g(2)] by auto
      qed
      with g(3) less.hyps [of "drop (length jds) qs"] Cons show ?thesis by simp
    qed (use less Cons in auto)
  qed (use less.prems in simp)
qed

lemma tool_call_ok:
  assumes "fold_ok st" "allowed (ToolCallEvent u i name args extras) st"
  shows "fold_ok (foldLoopEvent (ToolCallEvent u i name args extras) st)"
proof -
  obtain pre a where ms: "fs_messages st = pre @ [a]" "is_partial a" "i \<notin> set (map tc_id (msg_toolCalls a))"
    using assms(2) by (metis allowed.simps(1) append_butlast_last_id)
  let ?b = "a\<lparr>msg_toolCalls := msg_toolCalls a @ [recorded_call i name args extras]\<rparr>"
  have event: "foldLoopEvent (ToolCallEvent u i name args extras) st = st\<lparr>fs_messages := pre @ [?b], fs_pending := set_add_id i (fs_pending st)\<rparr>"
    if "filter is_partial pre = []"
    using find_unique [of "fs_messages st" pre a "[]"] ms that by (simp add: appendToOpenAssistant_def)
  have main: ?thesis if "filter is_partial pre = []" "groups_ok (places pre)" "msg_role a = RAssistant" "mset (fs_pending st) = mset (map tc_id (msg_toolCalls a))"
    "distinct (fs_pending st)" "list_all appendable (fs_deferred st)"
  proof -
    let ?ids = "map tc_id (msg_toolCalls ?b)"
    have pend: "set_add_id i (fs_pending st) = fs_pending st @ [i]" using ms(3) mset_eq_setD [OF that(4)] by (simp add: set_add_id_def)
    have "mset (fs_pending st @ [i]) = mset ?ids" using that(4) by (simp add: recorded_call_def)
    then have "mset (results_for (fs_pending st @ [i])) = mset (results_for ?ids)" by (simp only: mset_map)
    moreover have "place_of ?b = Calls ?ids" using that(3) by (simp add: place_of_def)
    moreover have "distinct ?ids" using that(5) ms(3) mset_eq_imp_distinct_iff [OF that(4)] by (simp add: recorded_call_def)
    moreover have "is_partial ?b" using ms(2) by (simp add: is_partial_def)
    ultimately have "open_group (fs_pending st @ [i]) [?b]" unfolding open_group_def by (intro exI [of _ ?b] exI [of _ "[]"] exI [of _ ?ids]) simp
    moreover have "distinct (fs_pending st @ [i])" using that(5) ms(3) mset_eq_setD [OF that(4)] by simp
    ultimately show ?thesis unfolding event [OF that(1)] fold_ok_def pend using that(1,2,6)
      by (intro exI [of _ pre] exI [of _ "[?b]"]) simp
  qed
  from assms(1) show ?thesis
  proof (cases rule: fold_okE)
    case settled
    then have s: "groups_ok (places pre @ [place_of a])" "length (filter is_partial (pre @ [a])) \<le> 1" "partials_assist (pre @ [a])" "fs_pending st = []" "fs_deferred st = []"
      by (simp_all add: settled_ok_def ms(1))
    have role: "msg_role a = RAssistant" using s(3) ms(2) by simp
    have nocalls: "msg_toolCalls a = []"
    proof (rule ccontr)
      assume "msg_toolCalls a \<noteq> []"
      then have "place_of a = Calls (map tc_id (msg_toolCalls a))" using role by (simp add: place_of_def)
      then show False using groups_ok_last [of "places pre" "map tc_id (msg_toolCalls a)"] s(1) \<open>msg_toolCalls a \<noteq> []\<close> by simp
    qed
    then have "place_of a = Plain" using role by (simp add: place_of_def)
    then have "groups_ok (places pre)" using groups_ok_remove [of "places pre" "[]"] s(1) by simp
    then show ?thesis using main s(2,4,5) role nocalls ms(2) by simp
  next
    case (opened pre' tail)
    from opened(4) obtain a' rs ids where g: "tail = a' # rs" "place_of a' = Calls ids" "distinct ids"
      "mset (places rs) + mset (results_for (fs_pending st)) = mset (results_for ids)" "\<forall>r\<in>set rs. \<not> is_partial r" by (auto simp: open_group_def)
    have "rs = []" using opened(1) g(1,5) ms(1,2) by (cases rs rule: rev_cases) auto
    then have eq: "pre = pre'" "a = a'" using opened(1) g(1) ms(1) by simp_all
    then have a: "msg_role a = RAssistant" "ids = map tc_id (msg_toolCalls a)" using g(2) by (auto simp: place_Calls)
    have "image_mset (\<lambda>i. Result (Some i)) (mset (fs_pending st)) = image_mset (\<lambda>i. Result (Some i)) (mset ids)" using g(4) \<open>rs = []\<close> by simp
    then have "mset (fs_pending st) = mset ids" by (rule multiset.inj_map_strong [rotated]) auto
    then show ?thesis using main opened a eq by simp
  qed
qed

lemma tool_result_ok:
  assumes "fold_ok st"
  shows "fold_ok (foldLoopEvent (ToolResultEvent i r) st)"
proof (cases "i \<in> set (fs_pending st)")
  case False
  with assms show ?thesis by simp
next
  case True
  let ?m = "result_message i r"
  have m: "place_of ?m = Result (Some i)" "\<not> is_partial ?m"
    by (simp_all add: result_message_def createToolMessage_def place_of_def is_partial_def stored_def message.defs)
  from assms show ?thesis
  proof (cases rule: fold_okE)
    case settled
    with True show ?thesis by (simp add: settled_ok_def)
  next
    case (opened pre tail)
    from opened(4) obtain a rs ids where g: "tail = a # rs" "place_of a = Calls ids" "is_partial a" "distinct ids"
      "mset (places rs) + mset (results_for (fs_pending st)) = mset (results_for ids)" "\<forall>r\<in>set rs. \<not> is_partial r" by (auto simp: open_group_def)
    let ?pending = "removeAll i (fs_pending st)"
    have "mset (fs_pending st) = add_mset i (mset ?pending)"
      using True opened(6) by (simp add: distinct_remove1_removeAll [symmetric])
    then have "mset (results_for (fs_pending st)) = add_mset (Result (Some i)) (mset (results_for ?pending))" by simp
    then have bal: "mset (places (rs @ [?m])) + mset (results_for ?pending) = mset (results_for ids)" using g(5) m(1) by simp
    have np: "\<forall>r\<in>set (rs @ [?m]). \<not> is_partial r" using g(6) m(2) by simp
    have open': "open_group ?pending (a # rs @ [?m])"
      unfolding open_group_def using g bal np by (intro exI [of _ a] exI [of _ "rs @ [?m]"] exI [of _ ids]) simp
    show ?thesis
    proof (cases "?pending = []")
      case False
      have "foldLoopEvent (ToolResultEvent i r) st = st\<lparr>fs_messages := pre @ (a # rs @ [?m]), fs_pending := ?pending\<rparr>"
        using True False opened(1) g(1) by (simp add: flushDeferred_def)
      moreover have "distinct ?pending" using opened(6) by (simp add: distinct_removeAll)
      ultimately show ?thesis unfolding fold_ok_def using opened(2,5,7) open' False
        by (intro exI [of _ pre] exI [of _ "a # rs @ [?m]"]) simp
    next
      case empty: True
      then have "open_group [] (a # rs @ [?m])" using open' by simp
      from close_group [OF this, of "[]"] have c: "groups_ok (places (a # rs @ [?m]))" "length (filter is_partial (a # rs @ [?m])) = 1" "partials_assist (a # rs @ [?m])"
        by simp_all
      define T where "T = a # rs @ [?m]"
      have "fs_messages (foldLoopEvent (ToolResultEvent i r) st) = pre @ T @ fs_deferred st" "fs_pending (foldLoopEvent (ToolResultEvent i r) st) = []"
        "fs_deferred (foldLoopEvent (ToolResultEvent i r) st) = []"
        using True empty opened(1) g(1) by (auto simp: flushDeferred_def T_def)
      then have "settled_ok (foldLoopEvent (ToolResultEvent i r) st)"
        using c [folded T_def] opened(2,5) appendable_list [OF opened(7)] by (simp add: settled_ok_def groups_ok_append no_partials_assist)
      then show ?thesis by (rule settled_fold_ok)
    qed
  qed
qed

lemma loop_event_ok: "fold_ok st \<Longrightarrow> allowed e st \<Longrightarrow> fold_ok (foldLoopEvent e st)"
  using step_begin_ok [THEN settled_fold_ok] step_end_ok [THEN quiet_settled, THEN settled_fold_ok] content_part_ok tool_call_ok tool_result_ok
  by (cases e) blast+

end

