(* ===== verification/Conversation.thy ===== *)
theory Conversation
  imports UndoReach LoopFoldProofs
begin

section \<open>Conversations: the history and the models rolled back with it\<close>

text \<open>
  A conversation is the history with its fold and one checkpointed model, both driven by the same operations. The
  step relation has one rule per recorded operation; what a caller owes is the premise of its rule. The invariants are
  that tool exchanges stay complete, and that the model holds one checkpoint per prompt an undo can reach.
\<close>

record 'a conversation =
  cv_fold :: fold_state
  cv_model :: "'a checkpointed"

definition initial_conversation :: "'a \<Rightarrow> 'a conversation" where
  "initial_conversation a = \<lparr>cv_fold = resetFold [], cv_model = \<lparr>ck_current = a, ck_checkpoints = []\<rparr>\<rparr>"

definition do_append :: "('a \<Rightarrow> context_message \<Rightarrow> 'a) option \<Rightarrow> context_message \<Rightarrow> 'a conversation \<Rightarrow> 'a conversation" where
  "do_append f m c = \<lparr>cv_fold = foldAppendMessage m (cv_fold c), cv_model = checkpoint_append f m (cv_model c)\<rparr>"

definition do_event :: "loop_event \<Rightarrow> 'a conversation \<Rightarrow> 'a conversation" where
  "do_event e c = c\<lparr>cv_fold := foldLoopEvent e (cv_fold c)\<rparr>"

definition do_change :: "'a \<Rightarrow> 'a conversation \<Rightarrow> 'a conversation" where
  "do_change a c = c\<lparr>cv_model := (cv_model c)\<lparr>ck_current := a\<rparr>\<rparr>"

definition do_clear :: "'a conversation \<Rightarrow> 'a conversation" where
  "do_clear c = \<lparr>cv_fold = contextClear (cv_fold c), cv_model = checkpoint_reset (cv_model c)\<rparr>"

definition do_compact :: "unknown_record \<Rightarrow> 'a conversation \<Rightarrow> record_error + 'a conversation" where
  "do_compact r c = (case contextApplyCompaction r (cv_fold c) of Inl e \<Rightarrow> Inl e
     | Inr st \<Rightarrow> Inr \<lparr>cv_fold = st, cv_model = checkpoint_reset (cv_model c)\<rparr>)"

definition do_undo :: "int \<Rightarrow> 'a conversation \<Rightarrow> 'a conversation" where
  "do_undo n c = \<lparr>cv_fold = contextUndo n (cv_fold c), cv_model = checkpoint_undo n (cv_model c)\<rparr>"

definition do_exit_swarm :: "'a conversation \<Rightarrow> 'a conversation" where
  "do_exit_swarm c = c\<lparr>cv_fold := popSwarmModeReminder (cv_fold c)\<rparr>"

subsection \<open>What loop events leave alone\<close>

text \<open>Messages of the loop carry no origin, and messages with one are no part of a tool exchange.\<close>

definition clean :: "context_message \<Rightarrow> bool" where
  "clean m \<longleftrightarrow> (cm_origin m \<noteq> None \<longrightarrow> place_of m = Plain \<and> \<not> is_partial m)"

definition story :: "fold_state \<Rightarrow> context_message list" where
  "story st = fs_messages st @ fs_deferred st"

definition told :: "fold_state \<Rightarrow> bool" where
  "told st \<longleftrightarrow> fold_ok st \<and> list_all clean (story st)"

lemma appendable_clean: "appendable m \<Longrightarrow> clean m"
  by (simp add: appendable_def clean_def)

lemma fold_ok_assist:
  assumes "fold_ok st"
  shows "partials_assist (fs_messages st)"
  using assms
proof (cases rule: fold_okE)
  case (opened settled tail)
  then show ?thesis using no_partials_assist by (auto simp: open_group_def partials_assist_def list_all_iff filter_empty_conv place_of_def split: if_splits)
qed (auto simp: settled_ok_def)

lemma partial_not_mark: "is_partial m \<Longrightarrow> msg_role m = RAssistant \<Longrightarrow> clean m \<Longrightarrow> \<not> is_mark m"
  by (auto simp: is_mark_def isUndoAnchor_def isCompactionSummaryMessage_def clean_def)

lemma marks_update:
  assumes "i < length ms" "\<not> is_mark (ms ! i)" "\<not> is_mark m"
  shows "marks (ms[i := m]) = marks ms"
proof -
  have "ms = take i ms @ ms ! i # drop (Suc i) ms" "ms[i := m] = take i ms @ m # drop (Suc i) ms"
    using assms(1) by (simp_all add: id_take_nth_drop upd_conv_take_nth_drop)
  then show ?thesis using assms(2,3) by (metis marks_simps(2,3))
qed

lemma marks_remove:
  assumes "i < length ms" "\<not> is_mark (ms ! i)"
  shows "marks (take i ms @ drop (Suc i) ms) = marks ms"
  using assms id_take_nth_drop [OF assms(1)] by (metis marks_simps(2,3))

lemma open_assistant_found:
  assumes "told st" "findOpenAssistantIndex (fs_messages st) = Some i"
  shows "i < length (fs_messages st)" "is_partial (fs_messages st ! i)" "msg_role (fs_messages st ! i) = RAssistant"
    "cm_origin (fs_messages st ! i) = None" "\<not> is_mark (fs_messages st ! i)"
proof -
  show i: "i < length (fs_messages st)" and p: "is_partial (fs_messages st ! i)"
    using find_open_Some [of "fs_messages st" "length (fs_messages st)" i] assms(2) by (simp_all add: findOpenAssistantIndex_def)
  have c: "clean (fs_messages st ! i)" using assms(1) i by (simp add: told_def story_def list_all_iff)
  show r: "msg_role (fs_messages st ! i) = RAssistant" using fold_ok_assist assms(1) i p by (auto simp: told_def partials_assist_def list_all_iff)
  show "cm_origin (fs_messages st ! i) = None" using c p by (auto simp: clean_def)
  show "\<not> is_mark (fs_messages st ! i)" using partial_not_mark p r c by blast
qed

text \<open>A fold step keeps the story's marks and the cleanness of its messages.\<close>

definition keeps_story :: "fold_state \<Rightarrow> fold_state \<Rightarrow> bool" where
  "keeps_story st st' \<longleftrightarrow> marks (story st') = marks (story st) \<and> (list_all clean (story st) \<longrightarrow> list_all clean (story st'))"

lemma keeps_story_trans: "keeps_story a b \<Longrightarrow> keeps_story b c \<Longrightarrow> keeps_story a c"
  by (simp add: keeps_story_def)

lemma keeps_story_refl: "keeps_story a a" by (simp add: keeps_story_def)

lemma loop_message: "clean (interruptedToolMessage i)" "\<not> is_mark (interruptedToolMessage i)" "clean (result_message i r)" "\<not> is_mark (result_message i r)"
  "clean open_assistant" "\<not> is_mark open_assistant"
  by (simp_all add: interruptedToolMessage_def result_message_def open_assistant_def clean_def is_mark_def isUndoAnchor_def
      isCompactionSummaryMessage_def createToolMessage_def stored_def message.defs)

lemma flush_story: "story (flushDeferred st) = story st"
  by (auto simp: flushDeferred_def story_def)

lemma keeps_flush: "keeps_story st (flushDeferred st)"
  by (simp add: keeps_story_def flush_story)

lemma interrupted_story: "marks (map interruptedToolMessage xs) = []" "list_all clean (map interruptedToolMessage xs)"
  by (induction xs) (simp_all add: loop_message)

lemma keeps_close: "keeps_story st (closePending st)"
  unfolding closePending_def by (auto simp: keeps_story_def flush_story interrupted_story) (auto simp: story_def interrupted_story)

lemma keeps_update:
  assumes "told st" "findOpenAssistantIndex (fs_messages st) = Some i" "msg_role m = RAssistant" "cm_origin m = None"
  shows "keeps_story st (st\<lparr>fs_messages := (fs_messages st)[i := m]\<rparr>)"
proof -
  have "\<not> is_mark m" "clean m" using assms(3,4) by (simp_all add: is_mark_def isUndoAnchor_def isCompactionSummaryMessage_def clean_def)
  then show ?thesis using marks_update open_assistant_found [OF assms(1,2)]
    by (auto simp: keeps_story_def story_def list_all_iff dest: set_update_subset_insert [THEN subsetD])
qed

lemma keeps_settle:
  assumes "told st"
  shows "keeps_story st (settleOpenStep st)"
proof -
  let ?c = "closePending st"
  have keeps: "keeps_story st ?c" by (rule keeps_close)
  have told: "told ?c" using assms closePending_ok [THEN settled_fold_ok] keeps by (simp add: told_def keeps_story_def)
  show ?thesis
  proof (cases "findOpenAssistantIndex (fs_messages ?c)")
    case None
    then show ?thesis using keeps by (simp add: settleOpenStep_def Let_def)
  next
    case (Some i)
    note found = open_assistant_found [OF told Some]
    have removed: "keeps_story ?c (?c\<lparr>fs_messages := take i (fs_messages ?c) @ drop (Suc i) (fs_messages ?c)\<rparr>)"
      using marks_remove [OF found(1,5)] by (auto simp: keeps_story_def story_def list_all_iff dest: in_set_takeD in_set_dropD)
    have sealed: "keeps_story ?c (?c\<lparr>fs_messages := (fs_messages ?c)[i := (fs_messages ?c ! i)\<lparr>msg_partial := None\<rparr>]\<rparr>)"
      using keeps_update [OF told Some] found(3,4) by simp
    show ?thesis using Some keeps_story_trans [OF keeps removed] keeps_story_trans [OF keeps sealed] by (simp add: settleOpenStep_def Let_def)
  qed
qed

lemma settle_told: "told st \<Longrightarrow> told (settleOpenStep st)"
  using keeps_settle [of st] settle_ok [of st] quiet_settled settled_fold_ok by (auto simp: told_def keeps_story_def)

lemma keeps_append_open:
  assumes "told st" "\<And>m. msg_role (f m) = msg_role m \<and> cm_origin (f m) = cm_origin m"
  shows "keeps_story st ((appendToOpenAssistant f st)\<lparr>fs_pending := p\<rparr>)" "keeps_story st (appendToOpenAssistant f st)"
  using keeps_update [OF assms(1)] open_assistant_found [OF assms(1)] assms(2)
  by (auto simp: appendToOpenAssistant_def keeps_story_def story_def split: option.splits)

lemma append_open_pending: "appendToOpenAssistant f (st\<lparr>fs_pending := p\<rparr>) = (appendToOpenAssistant f st)\<lparr>fs_pending := p\<rparr>"
  by (simp add: appendToOpenAssistant_def split: option.split)

lemma event_keeps:
  assumes "told st"
  shows "keeps_story st (foldLoopEvent e st)"
proof (cases e)
  case (StepBegin u)
  have "keeps_story (settleOpenStep st) (foldLoopEvent e st)"
    using loop_message(5,6) StepBegin by (simp add: keeps_story_def story_def Let_def)
  with keeps_settle [OF assms] show ?thesis by (rule keeps_story_trans)
next
  case (StepEnd u)
  let ?st = "st\<lparr>fs_openStep := None\<rparr>"
  have "told ?st" using assms by (cases st) (simp only: told_def fold_ok_def story_def fold_state.simps)
  then have "keeps_story ?st (foldLoopEvent e st)" using StepEnd by (simp add: keeps_story_trans [OF keeps_settle keeps_flush])
  then show ?thesis by (simp add: keeps_story_def story_def)
next
  case (ContentPart u part)
  then show ?thesis using keeps_append_open(2) [OF assms] by simp
next
  case (ToolCallEvent u i name args extras)
  then show ?thesis using keeps_append_open(1) [OF assms] by (simp add: append_open_pending)
next
  case (ToolResultEvent i r)
  let ?st = "st\<lparr>fs_messages := fs_messages st @ [result_message i r], fs_pending := removeAll i (fs_pending st)\<rparr>"
  have "keeps_story st ?st" using loop_message(3,4) by (simp add: keeps_story_def story_def)
  then have "keeps_story st (flushDeferred ?st)" using keeps_flush by (rule keeps_story_trans)
  then show ?thesis using ToolResultEvent keeps_story_refl by (simp del: removeAll.simps)
qed

lemma event_told: "told st \<Longrightarrow> allowed e st \<Longrightarrow> told (foldLoopEvent e st)"
  using event_keeps [of st e] loop_event_ok [of st e] by (auto simp: told_def keeps_story_def)

subsection \<open>Cutting a history\<close>

lemma groups_ok_placed: "groups_ok ps \<Longrightarrow> Misplaced \<notin> set ps"
proof (induction ps rule: groups_induct)
  case (Group ids rs ps)
  then show ?case using mset_results [OF Group(1)] by auto
qed auto

lemma placed: "groups_ok (places ms) \<Longrightarrow> m \<in> set ms \<Longrightarrow> place_of m \<noteq> Misplaced"
  using groups_ok_placed [of "places ms"] by (auto simp: places_def image_iff)

lemma groups_ok_prefix: "groups_ok (xs @ Plain # ys) \<Longrightarrow> groups_ok xs"
  using groups_ok_remove [of xs ys] groups_ok_remove [of xs "[]"] by auto

lemma open_group_places: "open_group pending tail \<Longrightarrow> m \<in> set tail \<Longrightarrow> (\<exists>ids. place_of m = Calls ids) \<or> (\<exists>i. place_of m = Result i)"
proof -
  assume "open_group pending tail" "m \<in> set tail"
  then obtain a rs ids where g: "tail = a # rs" "place_of a = Calls ids" "mset (places rs) + mset (results_for pending) = mset (results_for ids)"
    by (auto simp: open_group_def)
  have "m \<in> set rs \<Longrightarrow> place_of m \<in># mset (results_for ids)" using g(3) [symmetric] by (auto simp: places_def)
  then show ?thesis using g(1,2) \<open>m \<in> set tail\<close> by auto
qed

lemma user_place:
  assumes "fold_ok st" "m \<in> set (fs_messages st)" "msg_role m = RUser"
  shows "place_of m = Plain"
  using assms(1)
proof (cases rule: fold_okE)
  case settled
  then have "place_of m \<noteq> Misplaced" using placed [OF _ assms(2)] by (simp add: settled_ok_def)
  then show ?thesis using assms(3) by (auto simp: place_of_def split: if_splits)
next
  case (opened settled tail)
  have "m \<notin> set tail" using open_group_places [OF opened(4)] assms(3) by (fastforce simp: place_of_def split: if_splits)
  then have "place_of m \<noteq> Misplaced" using placed [OF opened(2)] assms(2) opened(1) by simp
  then show ?thesis using assms(3) by (auto simp: place_of_def split: if_splits)
qed

lemma settled_take: "groups_ok (places (xs @ m # ys)) \<Longrightarrow> place_of m = Plain \<Longrightarrow> length (filter is_partial xs) \<le> 1 \<Longrightarrow> partials_assist xs
    \<Longrightarrow> settled_ok (resetFold xs)"
  using groups_ok_prefix [of "places xs" "places ys"] by (simp add: settled_ok_def resetFold_def)

lemma cut_settled:
  assumes "fold_ok st" "fs_messages st = xs @ m # ys" "place_of m = Plain"
  shows "settled_ok (resetFold xs)" "ys = [] \<Longrightarrow> fs_deferred st = []"
proof -
  have "settled_ok (resetFold xs) \<and> (ys = [] \<longrightarrow> fs_deferred st = [])"
    using assms(1)
  proof (cases rule: fold_okE)
    case settled
    then show ?thesis using settled_take [of xs m ys] assms(2,3) by (simp add: settled_ok_def)
  next
    case (opened settled tail)
    have "m \<notin> set tail" using open_group_places [OF opened(4)] assms(3) by fastforce
    then obtain zs where z: "settled = xs @ m # zs" "ys = zs @ tail" using opened(1) assms(2)
      by (auto simp: append_eq_append_conv2 append_eq_Cons_conv Cons_eq_append_conv)
    moreover have "tail \<noteq> []" using opened(4) by (auto simp: open_group_def)
    ultimately show ?thesis using settled_take [of xs m zs] opened(2,5) assms(3) no_partials_assist by simp
  qed
  then show "settled_ok (resetFold xs)" "ys = [] \<Longrightarrow> fs_deferred st = []" by simp_all
qed

lemma story_reset [simp]: "story (resetFold ms) = ms" "fs_messages (resetFold ms) = ms" "fs_deferred (resetFold ms) = []" "fs_pending (resetFold ms) = []"
  by (simp_all add: story_def resetFold_def)

lemma told_cut:
  assumes "told st" "fs_messages st = xs @ m # ys" "place_of m = Plain"
  shows "told (resetFold xs)"
  using assms cut_settled(1) [of st xs m ys, THEN settled_fold_ok] by (auto simp: told_def story_def)

subsection \<open>A compacted history\<close>

text \<open>What a compaction keeps are the user's messages, whole or cut, the note on what was left out, and the summary.\<close>

definition kept_from :: "context_message list \<Rightarrow> context_message \<Rightarrow> bool" where
  "kept_from ms m \<longleftrightarrow> m \<in> set ms \<or> (\<exists>m0\<in>set ms. \<exists>t. m = replaceMessageText m0 t)"

lemma tail_loop_kept:
  "tail_loop ms n r acc = (tail, e, d) \<Longrightarrow> n \<le> length ms \<Longrightarrow> \<forall>m\<in>set acc. kept_from ms m
    \<Longrightarrow> (\<forall>m\<in>set tail. kept_from ms m) \<and> (\<forall>m. d = Some m \<longrightarrow> kept_from ms m)"
proof (induction ms n r acc rule: tail_loop.induct)
  case (2 ms i r acc)
  have "ms ! i \<in> set ms" using 2(3) by simp
  then have "kept_from ms (ms ! i)" "\<And>t. kept_from ms (replaceMessageText (ms ! i) t)" by (auto simp: kept_from_def)
  with 2 show ?case by (auto simp: Let_def split: if_splits)
qed simp

lemma replace_twice: "replaceMessageText (replaceMessageText m s) t = replaceMessageText m t"
  by (simp add: replaceMessageText_def)

lemma kept_trans: "kept_from ns m \<Longrightarrow> \<forall>n\<in>set ns. kept_from ms n \<Longrightarrow> kept_from ms m"
  unfolding kept_from_def by (metis replace_twice)

lemma head_loop_kept: "m \<in> set (head_loop ms r) \<Longrightarrow> kept_from ms m"
proof (induction ms r rule: head_loop.induct)
  case (2 n ns r)
  then show ?case by (auto simp: kept_from_def truncateUserMessage_def split: if_splits)
qed simp

lemma selection_kept:
  assumes "s = selectCompactionUserMessages ms mt ht" "m \<in> set (us_head s) \<union> set (us_tail s)"
  shows "kept_from ms m"
proof -
  obtain tail e d where t: "tail_loop ms (length ms) (mt - min (max ht 0) mt) [] = (tail, e, d)" by (metis prod_cases3)
  have k: "\<forall>m\<in>set tail. kept_from ms m" "\<forall>m. d = Some m \<longrightarrow> kept_from ms m" using tail_loop_kept [OF t] by simp_all
  let ?c = "take e ms @ (case d of None \<Rightarrow> [] | Some m \<Rightarrow> [m])"
  have c: "\<forall>n\<in>set ?c. kept_from ms n" using k(2) by (auto simp: kept_from_def dest: in_set_takeD split: option.splits)
  have "m \<in> set (us_head s) \<union> set (us_tail s) \<Longrightarrow> m \<in> set ms \<or> m \<in> set tail \<or> m \<in> set (head_loop ?c (min (max ht 0) mt))"
    using assms(1) t by (auto simp: selectCompactionUserMessages_def Let_def split: if_splits)
  then show ?thesis using assms(2) k(1) kept_trans [OF head_loop_kept c] by (auto simp: kept_from_def)
qed

lemma compaction_messages:
  assumes "told st" "\<not> usesLegacyTailShape i" "ms = cs_messages (buildContextCompactionShape (fs_messages st) i)"
  shows "list_all (\<lambda>m. msg_role m = RUser \<and> place_of m = Plain \<and> \<not> is_partial m) ms" "ms \<noteq> [] \<and> isCompactionSummaryMessage (List.last ms)"
proof -
  let ?users = "collectCompactableUserMessages (fs_messages st)"
  have user: "msg_role m = RUser \<and> place_of m = Plain \<and> \<not> is_partial m" if "m \<in> set ?users" for m
  proof -
    have m: "m \<in> set (fs_messages st)" "msg_role m = RUser" using that by (auto simp: collectCompactableUserMessages_def isRealUserInput_def)
    then have "\<not> is_partial m" using fold_ok_assist assms(1) by (auto simp: told_def partials_assist_def list_all_iff)
    then show ?thesis using user_place [OF _ m] m(2) assms(1) by (simp add: told_def)
  qed
  have kept: "msg_role m = RUser \<and> place_of m = Plain \<and> \<not> is_partial m" if "kept_from ?users m" for m
  proof -
    have "msg_role (replaceMessageText n t) = RUser \<and> place_of (replaceMessageText n t) = Plain \<and> \<not> is_partial (replaceMessageText n t)"
      if "msg_role n = RUser" "\<not> is_partial n" for n t
      using that by (simp add: replaceMessageText_def place_of_def is_partial_def)
    then show ?thesis using that user unfolding kept_from_def by blast
  qed
  have noted: "msg_role (text_message t or) = RUser \<and> place_of (text_message t or) = Plain \<and> \<not> is_partial (text_message t or)" for t or
    by (simp add: text_message_def createUserMessage_def place_of_def is_partial_def)
  obtain s where s: "s = selectCompactionUserMessages ?users COMPACT_USER_MESSAGE_MAX_TOKENS COMPACT_USER_MESSAGE_HEAD_TOKENS" by blast
  have ms: "ms = kept_messages s @ [createCompactionSummaryMessage (or_else (ci_contextSummary i) (ci_summary i))]"
    using assms(2,3) s by (simp add: buildContextCompactionShape_def Let_def)
  show "list_all (\<lambda>m. msg_role m = RUser \<and> place_of m = Plain \<and> \<not> is_partial m) ms"
    unfolding ms list_all_iff using kept [OF selection_kept [OF s]] noted
    by (auto simp: kept_messages_def createCompactionSummaryMessage_def createCompactionElisionMessage_def split: if_splits)
  show "ms \<noteq> [] \<and> isCompactionSummaryMessage (List.last ms)"
    unfolding ms by (simp add: createCompactionSummaryMessage_def text_message_def isCompactionSummaryMessage_def)
qed

lemma plain_settled: "list_all (\<lambda>m. msg_role m = RUser \<and> place_of m = Plain \<and> \<not> is_partial m) ms \<Longrightarrow> told (resetFold ms)"
proof -
  assume a: "list_all (\<lambda>m. msg_role m = RUser \<and> place_of m = Plain \<and> \<not> is_partial m) ms"
  then have "groups_ok (places ms)" "filter is_partial ms = []" "list_all clean ms"
    by (induction ms) (auto simp: clean_def)
  then show ?thesis using settled_fold_ok [of "resetFold ms"] no_partials_assist [of ms] by (simp add: told_def settled_ok_def)
qed

lemma ends_with_summary: "ms \<noteq> [] \<Longrightarrow> isCompactionSummaryMessage (List.last ms) \<Longrightarrow> anchors ms = 0"
  by (cases ms rule: rev_cases) (simp_all add: count_anchor_def)

subsection \<open>The invariant of a conversation\<close>

definition in_step :: "'a conversation \<Rightarrow> bool" where
  "in_step c \<longleftrightarrow> told (cv_fold c) \<and> anchors (story (cv_fold c)) = length (ck_checkpoints (cv_model c))"

lemma in_step_initial: "in_step (initial_conversation a)"
  using settled_fold_ok [of "resetFold []"] by (simp add: in_step_def initial_conversation_def told_def settled_ok_def)

lemma in_step_append:
  assumes "in_step c" "appendable m" "\<not> isCompactionSummaryMessage m"
  shows "in_step (do_append f m c)"
proof -
  have s: "story (foldAppendMessage m st) = story st @ [m] \<or> fs_deferred st \<noteq> [] \<and> fs_pending st = []" for st
    by (auto simp: foldAppendMessage_def story_def)
  have "fold_ok (cv_fold c)" using assms(1) by (simp add: in_step_def told_def)
  then have "fs_pending (cv_fold c) = [] \<Longrightarrow> fs_deferred (cv_fold c) = []" by (auto simp: fold_ok_def)
  with s have s: "story (foldAppendMessage m (cv_fold c)) = story (cv_fold c) @ [m]" by blast
  then show ?thesis using assms append_message_ok [of "cv_fold c" m] appendable_clean
    by (auto simp: in_step_def told_def do_append_def checkpoint_append_def count_anchor_def split: option.split)
qed

lemma in_step_event: "in_step c \<Longrightarrow> allowed e (cv_fold c) \<Longrightarrow> in_step (do_event e c)"
  using event_told [of "cv_fold c" e] event_keeps [of "cv_fold c" e] anchors_marks [of "story (foldLoopEvent e (cv_fold c))" "story (cv_fold c)"] by (simp add: in_step_def do_event_def keeps_story_def)

lemma in_step_clear:
  assumes "in_step c"
  shows "in_step (do_clear c)"
proof -
  have f: "fold_ok (cv_fold c)" using assms by (simp add: in_step_def told_def)
  have "fs_messages (cv_fold c) = [] \<Longrightarrow> fs_deferred (cv_fold c) = []" using f by (cases rule: fold_okE) (auto simp: settled_ok_def open_group_def)
  then show ?thesis using assms in_step_initial [of undefined]
    by (auto simp: in_step_def do_clear_def contextClear_def checkpoint_reset_def initial_conversation_def story_def)
qed

lemma in_step_compact:
  assumes "in_step c" "readContextCompactionShapeInput r = Inr i" "\<not> usesLegacyTailShape i"
  shows "\<exists>c'. do_compact r c = Inr c' \<and> in_step c'"
proof -
  let ?ms = "cs_messages (buildContextCompactionShape (fs_messages (cv_fold c)) i)"
  have "told (cv_fold c)" using assms(1) by (simp add: in_step_def)
  note m = compaction_messages [OF this assms(3) refl]
  have "told (resetFold ?ms)" "anchors ?ms = 0" using plain_settled [OF m(1)] ends_with_summary m(2) by blast+
  then show ?thesis using assms(2) by (simp add: do_compact_def contextApplyCompaction_def in_step_def checkpoint_reset_def)
qed

lemma swarm_reminder:
  assumes "told st"
  shows "told (popSwarmModeReminder st) \<and> marks (story (popSwarmModeReminder st)) = marks (story st)"
proof (cases "popSwarmModeReminder st = st")
  case False
  then obtain xs m where m: "fs_messages st = xs @ [m]" "popSwarmModeReminder st = resetFold xs" "is_injection m"
    by (cases "fs_messages st" rule: rev_cases) (auto simp: popSwarmModeReminder_def is_injection_def split: option.splits prompt_origin.splits if_splits)
  have "clean m" using assms m(1) by (simp add: told_def story_def)
  then have p: "place_of m = Plain" using m(3) by (auto simp: clean_def is_injection_def split: option.splits)
  have "fs_deferred st = []" using cut_settled(2) [of st xs m "[]"] assms m(1) p by (simp add: told_def)
  then show ?thesis using told_cut [OF assms _ p, of xs "[]"] m injection_not_mark by (simp add: story_def)
qed (use assms in simp)

lemma in_step_exit_swarm: "in_step c \<Longrightarrow> in_step (do_exit_swarm c)"
  using swarm_reminder [of "cv_fold c"] anchors_marks [of "story (popSwarmModeReminder (cv_fold c))" "story (cv_fold c)"] by (simp add: in_step_def do_exit_swarm_def)

lemma undo_told:
  assumes "told st"
  shows "told (contextUndo n st)"
proof (cases "isValidUndoCount n \<and> fs_messages st \<noteq> [] \<and> n \<le> int (anchors (fs_messages st))")
  case True
  then have n: "0 < n" by (simp add: isValidUndoCount_def)
  let ?ms = "fs_messages st"
  obtain p where p: "at_prompt ?ms (length ?ms) n p" "uc_cutIndex (computeUndoCut ?ms n) = int (owned_start ?ms (?ms ! p) p)"
    using undo_cut_at [OF n] True by blast
  let ?s = "owned_start ?ms (?ms ! p) p"
  have len: "?s \<le> p" "p < length ?ms" using owned_start_le p(1) by (auto simp: at_prompt_def)
  have ok: "fold_ok st" "list_all clean ?ms" using assms by (simp_all add: told_def story_def)
  have "msg_role (?ms ! p) = RUser" using p(1) by (simp add: at_prompt_def isUndoAnchor_def)
  then have prompt: "place_of (?ms ! p) = Plain" using user_place [OF ok(1)] len(2) by simp
  have "place_of (?ms ! ?s) = Plain"
  proof (cases "?s = p")
    case True
    then show ?thesis using prompt by simp
  next
    case False
    then have "is_injection (?ms ! ?s)" using owned_start_between [of ?ms "?ms ! p" p ?s] owned_is_injection len(1) by simp
    then have "cm_origin (?ms ! ?s) \<noteq> None" by (auto simp: is_injection_def split: option.splits)
    then show ?thesis using ok(2) len by (auto simp: list_all_length clean_def)
  qed
  moreover have "?ms = take ?s ?ms @ ?ms ! ?s # drop (Suc ?s) ?ms" using len by (simp add: id_take_nth_drop)
  ultimately have "told (resetFold (take ?s ?ms))" using told_cut [OF assms] by blast
  then show ?thesis using True undo_possible [OF n, of ?ms] p(2) by (simp add: contextUndo_def Let_def)
next
  case False
  then show ?thesis using assms undo_possible [of n "fs_messages st"] by (auto simp: contextUndo_def Let_def isValidUndoCount_def)
qed

text \<open>The history and the checkpointed models accept the same undos, and stay in step.\<close>

lemma in_step_undo:
  assumes "in_step c" "fs_deferred (cv_fold c) = []"
  shows "in_step (do_undo n c)"
proof -
  let ?ms = "fs_messages (cv_fold c)"
  have a: "anchors ?ms = length (ck_checkpoints (cv_model c))" using assms by (simp add: in_step_def story_def)
  show ?thesis
  proof (cases "isValidUndoCount n \<and> n \<le> int (anchors ?ms)")
    case True
    then have n: "0 < n" "?ms \<noteq> []" by (auto simp: isValidUndoCount_def)
    have "fs_messages (contextUndo n (cv_fold c)) = take (nat (uc_cutIndex (computeUndoCut ?ms n))) ?ms" "fs_deferred (contextUndo n (cv_fold c)) = []"
      using True n undo_possible [OF n(1), of ?ms] by (simp_all add: contextUndo_def Let_def)
    then have "int (anchors (story (contextUndo n (cv_fold c)))) = int (anchors ?ms) - n"
      using anchors_after_undo [OF n(1), of ?ms] True by (simp add: story_def)
    moreover have "int (length (ck_checkpoints (checkpoint_undo n (cv_model c)))) = int (anchors ?ms) - n"
      using True a n(1) by (simp add: checkpoint_undo_def Let_def)
    ultimately show ?thesis using assms(1) undo_told by (simp add: in_step_def do_undo_def)
  next
    case False
    then have "contextUndo n (cv_fold c) = cv_fold c" "checkpoint_undo n (cv_model c) = cv_model c"
      using undo_possible [of n ?ms] a by (auto simp: contextUndo_def checkpoint_undo_def Let_def isValidUndoCount_def)
    then show ?thesis using assms(1) by (simp add: in_step_def do_undo_def)
  qed
qed

subsection \<open>Reachable conversations\<close>

inductive conversing :: "('a \<Rightarrow> context_message \<Rightarrow> 'a) option \<Rightarrow> 'a \<Rightarrow> 'a conversation \<Rightarrow> bool" for f a where
  start: "conversing f a (initial_conversation a)"
| append: "conversing f a c \<Longrightarrow> appendable m \<Longrightarrow> \<not> isCompactionSummaryMessage m \<Longrightarrow> conversing f a (do_append f m c)"
| event: "conversing f a c \<Longrightarrow> allowed e (cv_fold c) \<Longrightarrow> conversing f a (do_event e c)"
| change: "conversing f a c \<Longrightarrow> conversing f a (do_change b c)"
| clear: "conversing f a c \<Longrightarrow> conversing f a (do_clear c)"
| compact: "conversing f a c \<Longrightarrow> readContextCompactionShapeInput r = Inr i \<Longrightarrow> \<not> usesLegacyTailShape i \<Longrightarrow> do_compact r c = Inr c' \<Longrightarrow> conversing f a c'"
| undo: "conversing f a c \<Longrightarrow> fs_deferred (cv_fold c) = [] \<Longrightarrow> conversing f a (do_undo n c)"
| exit_swarm: "conversing f a c \<Longrightarrow> conversing f a (do_exit_swarm c)"

lemma conversing_in_step: "conversing f a c \<Longrightarrow> in_step c"
proof (induction rule: conversing.induct)
  case (compact c r i c')
  then show ?case using in_step_compact [of c r i] by auto
next
  case (change c b)
  then show ?case by (simp add: in_step_def do_change_def)
qed (auto intro: in_step_initial in_step_append in_step_event in_step_clear in_step_undo in_step_exit_swarm)

end
