(* ===== verification/ContextService.thy ===== *)
theory ContextService
  imports ContextOps "HOL-Library.Extended_Nat"
begin

section \<open>The context services (\<^verbatim>\<open>contextMemoryService.ts\<close>, \<^verbatim>\<open>contextSizeService.ts\<close>, \<^verbatim>\<open>undoService.ts\<close>)\<close>

text \<open>
  The history together with its measured prefix, and the services over it. A mutation returns the splice it
  publishes. An undo waits for nothing else to run, checks the history and every checkpointed model, cuts them all and
  then flushes; whether the loop is quiet, a compaction runs, and a flush succeeds are arguments. The participants that
  reconcile afterwards and the stored last prompt are outside the model: their failures are only logged.
\<close>

subsection \<open>The measured prefix\<close>

record context_size_state =
  cz_length :: int
  cz_tokens :: int

definition normalizeMeasuredLength :: "int \<Rightarrow> int" where
  "normalizeMeasuredLength n = max 0 n"

definition contextSizeMeasured :: "int \<Rightarrow> int \<Rightarrow> context_size_state \<Rightarrow> context_size_state" where
  "contextSizeMeasured len tokens s =
     (let n = normalizeMeasuredLength len; t = max 0 tokens in
      if cz_length s = n \<and> cz_tokens s = t then s else \<lparr>cz_length = n, cz_tokens = t\<rparr>)"

record context_state =
  cx_fold :: fold_state
  cx_size :: context_size_state

record splice =
  sp_start :: int
  sp_deleteCount :: int
  sp_messages :: "context_message list"
  sp_tokens :: "int option"

subsection \<open>The memory service\<close>

definition service_append :: "context_message list \<Rightarrow> context_state \<Rightarrow> splice option \<times> context_state" where
  "service_append ms s =
     (if length ms = 0 then (None, s)
      else (Some \<lparr>sp_start = int (length (fs_messages (cx_fold s))), sp_deleteCount = 0, sp_messages = ms, sp_tokens = None\<rparr>,
            s\<lparr>cx_fold := fold foldAppendMessage ms (cx_fold s)\<rparr>))"

definition service_appendLoopEvent :: "loop_event \<Rightarrow> context_state \<Rightarrow> context_state" where
  "service_appendLoopEvent e s = s\<lparr>cx_fold := foldLoopEvent e (cx_fold s)\<rparr>"

definition service_clear :: "context_state \<Rightarrow> splice option \<times> context_state" where
  "service_clear s =
     (let deleteCount = length (fs_messages (cx_fold s)) in
      if deleteCount = 0 then (None, s)
      else (Some \<lparr>sp_start = 0, sp_deleteCount = int deleteCount, sp_messages = [], sp_tokens = None\<rparr>,
            \<lparr>cx_fold = contextClear (cx_fold s), cx_size = contextSizeMeasured 0 0 (cx_size s)\<rparr>))"

text \<open>The measured prefix of a cut history is estimated anew when the cut goes into it.\<close>

definition sizeOpsForCut :: "int \<Rightarrow> context_message list \<Rightarrow> context_size_state \<Rightarrow> context_size_state" where
  "sizeOpsForCut cutIndex history z =
     (if cz_length z \<le> cutIndex then z
      else contextSizeMeasured cutIndex (int (estimateTokensForMessages (take (nat cutIndex) history))) z)"

definition service_undo :: "int \<Rightarrow> context_state \<Rightarrow> undo_cut \<times> splice option \<times> context_state" where
  "service_undo count s =
     (let history = fs_messages (cx_fold s); c = computeUndoCut history count in
      if isFullyUndoable c count
      then (c, Some \<lparr>sp_start = uc_cutIndex c, sp_deleteCount = int (length history) - uc_cutIndex c, sp_messages = [], sp_tokens = None\<rparr>,
            \<lparr>cx_fold = contextUndo count (cx_fold s), cx_size = sizeOpsForCut (uc_cutIndex c) history (cx_size s)\<rparr>)
      else (c, None, s))"

text \<open>The record of a live compaction: a property that is \<^verbatim>\<open>undefined\<close> is not there when it is read back.\<close>

definition opt_number :: "int option \<Rightarrow> field_value option" where
  "opt_number x = map_option FNumber x"

definition compaction_record :: "compaction_shape \<Rightarrow> unknown_record" where
  "compaction_record r = map_of
     [(js ''summary'', FString (cs_summary r)), (js ''contextSummary'', FString (cs_contextSummary r)),
      (js ''compactedCount'', FNumber (cs_compactedCount r)), (js ''tokensBefore'', FNumber (cs_tokensBefore r)),
      (js ''tokensAfter'', FNumber (cs_tokensAfter r)), (js ''keptUserMessageCount'', FNumber (cs_keptUserMessageCount r))]
     ++ (\<lambda>key. if key = js ''keptHeadUserMessageCount'' then opt_number (cs_keptHeadUserMessageCount r)
              else if key = js ''droppedCount'' then opt_number (cs_droppedCount r) else None)"

definition service_applyCompaction :: "compaction_input \<Rightarrow> context_state \<Rightarrow> record_error + (compaction_shape \<times> splice \<times> context_state)" where
  "service_applyCompaction input s =
     (let history = fs_messages (cx_fold s); result = buildContextCompactionShape history input in
      case contextApplyCompaction (compaction_record result) (cx_fold s) of Inl e \<Rightarrow> Inl e
      | Inr st \<Rightarrow> Inr (result,
          \<lparr>sp_start = 0, sp_deleteCount = int (length history), sp_messages = cs_messages result, sp_tokens = Some (cs_tokensAfter result)\<rparr>,
          \<lparr>cx_fold = st, cx_size = contextSizeMeasured (int (length (cs_messages result))) (cs_tokensAfter result) (cx_size s)\<rparr>))"

subsection \<open>The size service\<close>

record context_size =
  sz_size :: int
  sz_measured :: int
  sz_estimated :: int

definition normalizeSliceIndex :: "int \<Rightarrow> int \<Rightarrow> int" where
  "normalizeSliceIndex index len = (if index < 0 then max (len + index) 0 else min index len)"

definition slice_messages :: "context_message list \<Rightarrow> int \<Rightarrow> int \<Rightarrow> context_message list" where
  "slice_messages ms a b = drop (nat a) (take (nat b) ms)"

definition size_get :: "int option \<Rightarrow> int option \<Rightarrow> context_state \<Rightarrow> context_size" where
  "size_get start stop s =
     (let context = fs_messages (cx_fold s); len = int (length context); model = cx_size s;
          measuredLength = min (cz_length model) len;
          from = normalizeSliceIndex (or_else start 0) len; to = normalizeSliceIndex (or_else stop len) len;
          measuredEnd = min to measuredLength; estimatedStart = max from measuredLength;
          measured = (if from = 0 \<and> measuredEnd = measuredLength then cz_tokens model
                      else int (estimateTokensForMessages (slice_messages context from measuredEnd)));
          estimated = int (estimateTokensForMessages (slice_messages context estimatedStart to))
      in \<lparr>sz_size = measured + estimated, sz_measured = measured, sz_estimated = estimated\<rparr>)"

record token_usage =
  tu_inputOther :: int
  tu_output :: int
  tu_inputCacheRead :: int
  tu_inputCacheCreation :: int

definition tokenUsageTotal :: "token_usage \<Rightarrow> int" where
  "tokenUsageTotal u = tu_inputCacheRead u + tu_inputCacheCreation u + tu_inputOther u + tu_output u"

text \<open>Messages are compared as objects; \<open>same\<close> tells whether the two at a position are the same one.\<close>

definition matchesContext :: "(nat \<Rightarrow> bool) \<Rightarrow> nat \<Rightarrow> context_message list \<Rightarrow> bool" where
  "matchesContext same inputLength context \<longleftrightarrow> inputLength = length context \<and> list_all same [0..<inputLength]"

definition size_measured :: "(nat \<Rightarrow> bool) \<Rightarrow> nat \<Rightarrow> token_usage \<Rightarrow> context_state \<Rightarrow> context_state" where
  "size_measured same inputLength usage s =
     (if \<not> matchesContext same inputLength (fs_messages (cx_fold s)) then s
      else s\<lparr>cx_size := contextSizeMeasured (int (length (fs_messages (cx_fold s)))) (tokenUsageTotal usage) (cx_size s)\<rparr>)"

subsection \<open>The undo service\<close>

type_synonym 'a models = "(js_string \<times> 'a checkpointed) list"

text \<open>The least depth and the first model that has it; without models the depth is infinite.\<close>

definition checkpointDepth :: "'a models \<Rightarrow> enat \<times> js_string" where
  "checkpointDepth models =
     foldl (\<lambda>(depth, model) (name, state). if enat (length (ck_checkpoints state)) < depth then (enat (length (ck_checkpoints state)), name) else (depth, model))
       (\<infinity>, []) models"

record undo_availability =
  av_maxTurns :: int
  av_stoppedAtCompaction :: bool

definition at_most :: "int \<Rightarrow> enat \<Rightarrow> int" where
  "at_most n depth = (case depth of enat k \<Rightarrow> min n (int k) | \<infinity> \<Rightarrow> n)"

definition availability :: "context_message list \<Rightarrow> 'a models \<Rightarrow> undo_availability" where
  "availability history models =
     (let c = computeUndoCut history MAX_SAFE_INTEGER; maxTurns = at_most (uc_removedCount c) (fst (checkpointDepth models)) in
      \<lparr>av_maxTurns = maxTurns, av_stoppedAtCompaction = (uc_stoppedAtCompaction c \<or> maxTurns < uc_removedCount c)\<rparr>)"

datatype busy_reason = LoopBusy | CompactionBusy

datatype undo_error =
    InvalidCount
  | SessionBusy busy_reason
  | Unavailable unavailable_reason int int
  | FlushFailed

definition assertUndoAvailable :: "int \<Rightarrow> context_message list \<Rightarrow> 'a models \<Rightarrow> undo_error option" where
  "assertUndoAvailable turns history models =
     (case precheckUndo history turns of
        UndoUnavailable reason requested undoable \<Rightarrow> Some (Unavailable reason requested undoable)
      | UndoOk \<Rightarrow>
          (let depth = fst (checkpointDepth models) in
           if at_most turns depth = turns then None
           else Some (Unavailable
             (if uc_stoppedAtCompaction (computeUndoCut history MAX_SAFE_INTEGER) then CompactionBoundary else CheckpointLost)
             turns (at_most turns depth))))"

text \<open>The cut is recorded once, and every checkpointed model reads the same record.\<close>

definition undo_all :: "int \<Rightarrow> 'a models \<Rightarrow> 'a models" where
  "undo_all turns models = map (\<lambda>(name, state). (name, checkpoint_undo turns state)) models"

definition undoNow :: "bool \<Rightarrow> bool \<Rightarrow> bool \<Rightarrow> bool \<Rightarrow> int \<Rightarrow> context_state \<Rightarrow> 'a models \<Rightarrow> (undo_error + int) \<times> context_state \<times> 'a models" where
  "undoNow quiescent compacting cutFlushed stateFlushed turns s models =
     (if \<not> quiescent then (Inl (SessionBusy LoopBusy), s, models)
      else if compacting then (Inl (SessionBusy CompactionBusy), s, models)
      else case assertUndoAvailable turns (fs_messages (cx_fold s)) models of
        Some e \<Rightarrow> (Inl e, s, models)
      | None \<Rightarrow>
          (let (c, sp, s') = service_undo turns s; models' = undo_all turns models
           in (if \<not> cutFlushed \<or> \<not> stateFlushed then Inl FlushFailed else Inr turns, s', models')))"

definition undo :: "bool \<Rightarrow> bool \<Rightarrow> bool \<Rightarrow> bool \<Rightarrow> int \<Rightarrow> context_state \<Rightarrow> 'a models \<Rightarrow> (undo_error + int) \<times> context_state \<times> 'a models" where
  "undo quiescent compacting cutFlushed stateFlushed turns s models =
     (if \<not> isValidUndoCount turns then (Inl InvalidCount, s, models)
      else undoNow quiescent compacting cutFlushed stateFlushed turns s models)"

end
