(* ===== verification/ConversationProofs.thy ===== *)
theory ConversationProofs
  imports Conversation ContextService
begin

section \<open>What holds of every conversation\<close>

text \<open>
  Of the conversations of \<open>Conversation\<close>: the history is made of complete tool exchanges, undo takes a prompt and
  what followed it back, the undo service refuses or performs exactly what it announces, and the record of a
  compaction replays to what the live one made. The samples at the end run each of them.
\<close>

subsection \<open>Tool exchanges\<close>

fun results_follow :: "place list \<Rightarrow> bool" where
  "results_follow [] = True"
| "results_follow (p # ps) =
     ((case p of Calls ids \<Rightarrow> list_all (\<lambda>r. \<exists>i. r = Result i) (take (length ids) ps) | _ \<Rightarrow> True) \<and> results_follow ps)"

lemma results_follow_results: "\<forall>r\<in>set rs. \<exists>i. r = Result i \<Longrightarrow> results_follow (rs @ ps) = results_follow ps"
  by (induction rs) auto

lemma groups_results_follow: "groups_ok ps \<Longrightarrow> results_follow qs \<Longrightarrow> results_follow (ps @ qs)"
proof (induction ps rule: groups_induct)
  case (Group ids rs ps)
  have r: "length rs = length ids" "\<forall>r\<in>set rs. \<exists>i. r = Result i" using mset_results [OF Group(1)] by blast+
  then show ?case using Group results_follow_results [of rs "ps @ qs"] by (simp add: list_all_iff)
qed auto

lemma open_results_follow:
  assumes "open_group pending tail"
  shows "results_follow (places tail)"
proof -
  obtain a rs ids where g: "tail = a # rs" "mset (places rs) + mset (results_for pending) = mset (results_for ids)"
    using assms by (auto simp: open_group_def)
  have "r \<in># mset (results_for ids)" if "r \<in> set (places rs)" for r
    using that arg_cong [OF g(2), of set_mset] by auto
  then have "\<forall>r\<in>set (places rs). \<exists>i. r = Result i" by auto
  then show ?thesis using g(1) results_follow_results [of "places rs" "[]"] by (auto simp: list_all_iff dest: in_set_takeD split: place.split)
qed

lemma exchangesD: "exchanges_in_order ms \<Longrightarrow> msg_role (ms ! i) = RAssistant \<Longrightarrow> j < length ms \<Longrightarrow> i < j \<Longrightarrow> j \<le> i + length (msg_toolCalls (ms ! i))
    \<Longrightarrow> msg_role (ms ! j) = RTool"
  unfolding exchanges_in_order_def using less_trans by blast

lemma exchanges_Cons:
  assumes "exchanges_in_order ms" "msg_role m = RAssistant \<Longrightarrow> \<forall>j<length ms. j < length (msg_toolCalls m) \<longrightarrow> msg_role (ms ! j) = RTool"
  shows "exchanges_in_order (m # ms)"
  unfolding exchanges_in_order_def
proof (intro allI impI)
  fix i j assume i: "i < length (m # ms)" "msg_role ((m # ms) ! i) = RAssistant" and j: "j < length (m # ms)" "i < j \<and> j \<le> i + length (msg_toolCalls ((m # ms) ! i))"
  obtain k where k: "j = Suc k" using j(2) by (cases j) auto
  show "msg_role ((m # ms) ! j) = RTool"
  proof (cases i)
    case 0
    then show ?thesis using assms(2) i j k by simp
  next
    case (Suc i')
    then show ?thesis using exchangesD [OF assms(1), of i' k] i j k by simp
  qed
qed

lemma results_follow_exchanges: "results_follow (places ms) \<Longrightarrow> exchanges_in_order ms"
proof (induction ms)
  case (Cons m ms)
  have "\<forall>j<length ms. j < length (msg_toolCalls m) \<longrightarrow> msg_role (ms ! j) = RTool" if "msg_role m = RAssistant"
  proof (intro allI impI)
    fix j assume j: "j < length ms" "j < length (msg_toolCalls m)"
    then have "place_of m = Calls (map tc_id (msg_toolCalls m))" using that by (auto simp: place_of_def)
    then have "list_all (\<lambda>r. \<exists>i. r = Result i) (take (length (msg_toolCalls m)) (places ms))" using Cons.prems by simp
    then have "\<exists>i. place_of (ms ! j) = Result i" using j by (auto simp: list_all_length places_def)
    then show "msg_role (ms ! j) = RTool" by (auto simp: place_of_def split: if_splits)
  qed
  with Cons show ?case by (intro exchanges_Cons) simp_all
qed (simp add: exchanges_in_order_def)

text \<open>A place no exchange crosses.\<close>

definition closed_at :: "place list \<Rightarrow> nat \<Rightarrow> bool" where
  "closed_at ps n \<longleftrightarrow> (\<forall>i<n. \<forall>ids. i < length ps \<and> ps ! i = Calls ids \<longrightarrow> i + length ids < n)"

lemma closed_at_shift: "closed_at (qs @ ps) (length qs + n) \<Longrightarrow> closed_at ps n"
  unfolding closed_at_def
proof (intro allI impI)
  fix i ids assume "\<forall>i<length qs + n. \<forall>ids. i < length (qs @ ps) \<and> (qs @ ps) ! i = Calls ids \<longrightarrow> i + length ids < length qs + n"
    and "i < n" "i < length ps \<and> ps ! i = Calls ids"
  then have "length qs + i + length ids < length qs + n" by (simp add: nth_append)
  then show "i + length ids < n" by simp
qed

lemma split_groups: "groups_ok ps \<Longrightarrow> closed_at ps n \<Longrightarrow> groups_ok (take n ps) \<and> groups_ok (drop n ps)"
proof (induction ps arbitrary: n rule: groups_induct)
  case (Plain ps)
  then show ?case using closed_at_shift [of "[Plain]" ps "n - 1"] by (cases n) auto
next
  case (Group ids rs ps)
  have r: "length rs = length ids" using mset_results [OF Group(1)] by blast
  show ?case
  proof (cases n)
    case 0
    then show ?thesis using groups_ok_group [OF Group(1)] Group(2) by simp
  next
    case (Suc k)
    then have "length ids < n" using Group.prems by (auto simp: closed_at_def dest: spec [of _ 0])
    then have k: "n = length (Calls ids # rs) + (k - length rs)" using Suc r by simp
    then have "closed_at ps (k - length rs)" using Group.prems closed_at_shift [of "Calls ids # rs" ps "k - length rs"] by simp
    then have "groups_ok (take (k - length rs) ps) \<and> groups_ok (drop (k - length rs) ps)" by (rule Group.IH)
    moreover have "take n (Calls ids # rs @ ps) = Calls ids # rs @ take (k - length rs) ps" "drop n (Calls ids # rs @ ps) = drop (k - length rs) ps"
      using k by simp_all
    ultimately show ?thesis by (simp only: groups_ok_group [OF Group(1)] simp_thms)
  qed
qed simp

lemma open_compact_closed:
  assumes "groups_ok (places settled)" "open_group pending tail" "pending \<noteq> []" "n \<le> length (settled @ tail)" "closed_at (places (settled @ tail)) n"
  shows "n \<le> length settled"
proof (rule ccontr)
  assume "\<not> n \<le> length settled"
  obtain a rs ids where g: "tail = a # rs" "place_of a = Calls ids" "mset (places rs) + mset (results_for pending) = mset (results_for ids)"
    using assms(2) by (auto simp: open_group_def)
  have "length (places rs) + length (results_for pending) = length (results_for ids)" using arg_cong [OF g(3), of size] by simp
  then have short: "length rs < length ids" using assms(3) by (cases pending) simp_all
  have "places (settled @ tail) ! length settled = Calls ids" using g(1,2) by (simp add: nth_append)
  then have "length settled + length ids < n" using assms(5) \<open>\<not> n \<le> length settled\<close> g(1) by (auto simp: closed_at_def)
  then show False using assms(4) short g(1) by simp
qed

lemma in_step_exchanges:
  assumes "told st" "ms = fs_messages st" "n = computeCompactCount mul est s ms source"
  shows "n \<le> length ms \<and> groups_ok (places (take n ms)) \<and> (fs_pending st = [] \<longrightarrow> groups_ok (places (drop n ms)))"
proof -
  have ok: "fold_ok st" using assms(1) by (simp add: told_def)
  have "results_follow (places ms)" using ok
    by (cases rule: fold_okE) (auto simp: settled_ok_def assms(2) dest: groups_results_follow [of _ "[]"] intro: groups_results_follow open_results_follow)
  then have "exchanges_in_order ms" by (rule results_follow_exchanges)
  note c = compact_closes_exchanges [OF this assms(3)]
  have "closed_at (places ms) n" unfolding closed_at_def
  proof (intro allI impI)
    fix i ids assume i: "i < n" "i < length (places ms) \<and> places ms ! i = Calls ids"
    then have "place_of (ms ! i) = Calls ids" by (auto simp: places_def)
    then have "msg_role (ms ! i) = RAssistant" "length (msg_toolCalls (ms ! i)) = length ids" by (auto simp: place_of_def split: if_splits)
    then show "i + length ids < n" using c i(1) by auto
  qed
  note closed = this
  from ok show ?thesis
  proof (cases rule: fold_okE)
    case settled
    then show ?thesis using split_groups [OF _ closed] c by (simp add: settled_ok_def assms(2) places_def take_map drop_map)
  next
    case (opened settled tail)
    have "n \<le> length (settled @ tail)" "closed_at (places (settled @ tail)) n" using c closed opened(1) assms(2) by simp_all
    note n = open_compact_closed [OF opened(2,4,3) this]
    have "closed_at (places settled) n" using closed n opened(1) assms(2) by (auto simp: closed_at_def nth_append)
    then show ?thesis using split_groups [OF opened(2), of n] opened(1,3) n c assms(2) by (simp add: places_def take_map)
  qed
qed

text \<open>C4: Take a conversation made, from the empty one, of appended messages (without calls, not tool results, not partial,
  no compaction summaries), loop events where a call is recorded only under a new id on the last message while that is the
  step's assistant message, undos with no message held back, clears, exits from swarm mode, and
  compactions that do not use the legacy tail (a message
  appended between the beginning of a step and its first call is outside these). Its history is complete tool exchanges,
  each call answered exactly once right after it, up to the one exchange still open, at the end; the messages a
  compaction would take, and with no exchange open also those it would leave, are complete exchanges again.\<close>

theorem conversation_exchanges:
  assumes "conversing f a c" "ms = fs_messages (cv_fold c)" "n = computeCompactCount mul est s ms source"
  shows "(\<exists>settled tail. ms = settled @ tail \<and> groups_ok (places settled)
      \<and> (if fs_pending (cv_fold c) = [] then tail = [] else open_group (fs_pending (cv_fold c)) tail))
    \<and> n \<le> length ms \<and> groups_ok (places (take n ms)) \<and> (fs_pending (cv_fold c) = [] \<longrightarrow> groups_ok (places (drop n ms)))"
proof -
  have told: "told (cv_fold c)" using conversing_in_step [OF assms(1)] by (simp add: in_step_def)
  then have "\<exists>settled tail. ms = settled @ tail \<and> groups_ok (places settled)
      \<and> (if fs_pending (cv_fold c) = [] then tail = [] else open_group (fs_pending (cv_fold c)) tail)"
    unfolding told_def fold_ok_def assms(2) by (auto split: if_splits)
  then show ?thesis using in_step_exchanges [OF told assms(2,3)] by blast
qed

subsection \<open>Undo\<close>

text \<open>A prefix without a partial message stays as it is.\<close>

definition begins :: "context_message list \<Rightarrow> fold_state \<Rightarrow> bool" where
  "begins pre st \<longleftrightarrow> (\<exists>rest. fs_messages st = pre @ rest) \<and> filter is_partial pre = []"

lemma begins_more: "begins pre st \<Longrightarrow> fs_messages st' = fs_messages st @ ms \<Longrightarrow> begins pre st'"
  by (auto simp: begins_def)

lemma begins_same: "begins pre st \<Longrightarrow> fs_messages st' = fs_messages st \<Longrightarrow> begins pre st'"
  by (simp add: begins_def)

lemma open_after:
  assumes "begins pre st" "findOpenAssistantIndex (fs_messages st) = Some i"
  shows "length pre \<le> i" "i < length (fs_messages st)"
proof -
  have i: "i < length (fs_messages st)" "is_partial (fs_messages st ! i)"
    using find_open_Some [of "fs_messages st" "length (fs_messages st)" i] assms(2) by (simp_all add: findOpenAssistantIndex_def)
  obtain rest where r: "fs_messages st = pre @ rest" "\<forall>m\<in>set pre. \<not> is_partial m" using assms(1) by (auto simp: begins_def filter_empty_conv)
  show "i < length (fs_messages st)" by (rule i(1))
  show "length pre \<le> i"
  proof (rule ccontr)
    assume "\<not> length pre \<le> i"
    then have "fs_messages st ! i \<in> set pre" using r(1) by (simp add: nth_append)
    then show False using i(2) r(2) by blast
  qed
qed

lemma begins_update: "begins pre st \<Longrightarrow> findOpenAssistantIndex (fs_messages st) = Some i \<Longrightarrow> fs_messages st' = (fs_messages st)[i := m] \<Longrightarrow> begins pre st'"
  using open_after [of pre st i] by (auto simp: begins_def list_update_append)

lemma begins_remove: "begins pre st \<Longrightarrow> findOpenAssistantIndex (fs_messages st) = Some i
    \<Longrightarrow> fs_messages st' = take i (fs_messages st) @ drop (Suc i) (fs_messages st) \<Longrightarrow> begins pre st'"
  using open_after [of pre st i] by (auto simp: begins_def)

lemma begins_flush: "begins pre st \<Longrightarrow> begins pre (flushDeferred st)"
  using begins_more [of pre st "flushDeferred st" "fs_deferred st"] begins_same [of pre st "flushDeferred st"] by (auto simp: flushDeferred_def)

lemma begins_close: "begins pre st \<Longrightarrow> begins pre (closePending st)"
proof -
  assume b: "begins pre st"
  have "begins pre (st\<lparr>fs_messages := fs_messages st @ map interruptedToolMessage (fs_pending st), fs_pending := []\<rparr>)"
    by (rule begins_more [OF b]) simp
  then show ?thesis using begins_flush b by (simp add: closePending_def)
qed

lemma begins_settle: "begins pre st \<Longrightarrow> begins pre (settleOpenStep st)"
proof -
  assume "begins pre st"
  then have c: "begins pre (closePending st)" by (rule begins_close)
  show ?thesis
  proof (cases "findOpenAssistantIndex (fs_messages (closePending st))")
    case None
    then show ?thesis using c by (simp add: settleOpenStep_def Let_def)
  next
    case (Some i)
    have "begins pre (closePending st\<lparr>fs_messages := take i (fs_messages (closePending st)) @ drop (Suc i) (fs_messages (closePending st))\<rparr>)"
      by (rule begins_remove [OF c Some]) simp
    moreover have "begins pre (closePending st\<lparr>fs_messages := (fs_messages (closePending st))[i := m]\<rparr>)" for m
      by (rule begins_update [OF c Some]) simp
    ultimately show ?thesis using Some by (simp add: settleOpenStep_def Let_def)
  qed
qed

lemma begins_open: "begins pre st \<Longrightarrow> begins pre (appendToOpenAssistant f st)"
  by (auto simp: appendToOpenAssistant_def split: option.split elim!: begins_update)

lemma begins_event: "begins pre st \<Longrightarrow> begins pre (foldLoopEvent e st)"
proof (cases e)
  case (StepBegin u)
  assume "begins pre st"
  then have "begins pre (settleOpenStep st)" by (rule begins_settle)
  then show ?thesis using StepBegin by (auto simp: Let_def elim!: begins_more)
next
  case (StepEnd u)
  assume "begins pre st"
  then have "begins pre (st\<lparr>fs_openStep := None\<rparr>)" by (rule begins_same) simp
  then show ?thesis using StepEnd begins_settle begins_flush by simp
next
  case (ToolCallEvent u i name args extras)
  assume "begins pre st"
  then have "begins pre (st\<lparr>fs_pending := set_add_id i (fs_pending st)\<rparr>)" by (rule begins_same) simp
  then show ?thesis using ToolCallEvent begins_open by simp
next
  case (ToolResultEvent i r)
  assume "begins pre st"
  then have "begins pre (st\<lparr>fs_messages := fs_messages st @ [result_message i r], fs_pending := removeAll i (fs_pending st)\<rparr>)"
    by (rule begins_more) simp
  then show ?thesis using ToolResultEvent begins_flush \<open>begins pre st\<close> by (simp del: removeAll.simps)
qed (use begins_open in simp)

text \<open>What happens after a prompt, with the number of further prompts.\<close>

inductive talks :: "('a \<Rightarrow> context_message \<Rightarrow> 'a) option \<Rightarrow> 'a conversation \<Rightarrow> nat \<Rightarrow> 'a conversation \<Rightarrow> bool" for f c where
  stay: "talks f c 0 c"
| say: "talks f c k c' \<Longrightarrow> appendable m \<Longrightarrow> \<not> isCompactionSummaryMessage m \<Longrightarrow> talks f c (if isUndoAnchor m then Suc k else k) (do_append f m c')"
| step: "talks f c k c' \<Longrightarrow> allowed e (cv_fold c') \<Longrightarrow> talks f c k (do_event e c')"
| own: "talks f c k c' \<Longrightarrow> talks f c k (do_change b c')"

lemma conversing_told: "conversing f a c \<Longrightarrow> told (cv_fold c)"
  using conversing_in_step [of f a c] by (simp add: in_step_def)

lemma talks_conversing: "talks f c k c' \<Longrightarrow> conversing f a c \<Longrightarrow> conversing f a c'"
  by (induction rule: talks.induct) (auto intro: conversing.intros)

lemma talks_since:
  assumes "talks f c k c'" "conversing f a c" "begins pre (cv_fold c)"
  shows "begins pre (cv_fold c') \<and> (\<exists>as. marks (story (cv_fold c')) = marks (story (cv_fold c)) @ as \<and> list_all isUndoAnchor as \<and> length as = k)
    \<and> (\<exists>cs. ck_checkpoints (cv_model c') = ck_checkpoints (cv_model c) @ cs \<and> length cs = k)"
  using assms
proof (induction rule: talks.induct)
  case (say k c' m)
  have told: "told (cv_fold c')" by (rule conversing_told [OF talks_conversing [OF say(1,5)]])
  then have "fs_pending (cv_fold c') = [] \<Longrightarrow> fs_deferred (cv_fold c') = []" by (auto simp: told_def fold_ok_def)
  then have s: "story (foldAppendMessage m (cv_fold c')) = story (cv_fold c') @ [m]" by (auto simp: foldAppendMessage_def story_def)
  have b: "begins pre (foldAppendMessage m (cv_fold c'))" using say.IH [OF say.prems] by (auto simp: foldAppendMessage_def elim: begins_more begins_same)
  show ?case using say.IH [OF say.prems] s b say(3) by (auto simp: do_append_def is_mark_def checkpoint_append_def split: option.split)
next
  case (step k c' e)
  have "told (cv_fold c')" by (rule conversing_told [OF talks_conversing [OF step(1,4)]])
  then show ?case using step.IH [OF step.prems] event_keeps [of "cv_fold c'" e] begins_event by (simp add: do_event_def keeps_story_def)
next
  case (own k c' b)
  then show ?case by (simp add: do_change_def)
qed auto

lemma owned_start_cong: "(\<And>j. j < i \<Longrightarrow> ms ! j = ns ! j) \<Longrightarrow> owned_start ms m i = owned_start ns m i"
  by (induction i) simp_all

lemma owned_start_strip: "n \<le> length ms \<Longrightarrow> take (owned_start ms m n) ms = rev (dropWhile (\<lambda>x. isPromptOwnedInjection x m) (rev (take n ms)))"
  by (induction n) (auto simp: take_Suc_conv_app_nth)

lemma anchors_only: "list_all isUndoAnchor (marks xs) \<Longrightarrow> \<not> list_ex isCompactionSummaryMessage xs \<and> filter isUndoAnchor xs = marks xs"
  using summary_not_anchor by (induction xs) (auto simp: is_mark_def split: if_splits)

text \<open>Undoing a prompt with all that came after it finds the history cut right before it.\<close>

lemma cut_to_prompt:
  assumes "ms = base @ m # rest" "isUndoAnchor m" "\<not> list_ex isCompactionSummaryMessage rest" "k = int (length (filter isUndoAnchor rest))"
  shows "k + 1 \<le> int (anchors ms)"
    "take (nat (uc_cutIndex (computeUndoCut ms (k + 1)))) ms = rev (dropWhile (\<lambda>x. isPromptOwnedInjection x m) (rev base))"
proof -
  have here: "at_prompt ms (length ms) (k + 1) (length base)" using assms summary_not_anchor [of m] by (auto simp: at_prompt_def)
  have "anchors ms = anchors base + length (filter isUndoAnchor (m # rest))"
    unfolding assms(1) by (rule anchors_append) (use assms(2,3) summary_not_anchor [of m] in auto)
  then show le: "k + 1 \<le> int (anchors ms)" using assms(2,4) by simp
  have "0 < k + 1" using assms(4) by simp
  then obtain p where p: "at_prompt ms (length ms) (k + 1) p" "uc_cutIndex (computeUndoCut ms (k + 1)) = int (owned_start ms (ms ! p) p)"
    using undo_cut_at le by blast
  then have "p = length base" using at_prompt_unique here by blast
  then have "uc_cutIndex (computeUndoCut ms (k + 1)) = int (owned_start ms m (length base))" using p(2) assms(1) by simp
  then show "take (nat (uc_cutIndex (computeUndoCut ms (k + 1)))) ms = rev (dropWhile (\<lambda>x. isPromptOwnedInjection x m) (rev base))"
    using owned_start_strip [of "length base" ms m] assms(1) by simp
qed

text \<open>C5: Take such a conversation (as in the theorem before) with no exchange open, nothing held back and no partial
  message, then a prompt, then any loop events (calls recorded as there), changes of the model and appended messages, among them
  \<open>k\<close> further prompts, up to a point where nothing is held back. Undoing \<open>k + 1\<close> prompts gives the history of before the
  first prompt, less the injections at its end that belong to that prompt, and the model exactly as it was, checkpoints included.\<close>

theorem undo_restores:
  assumes "conversing f a c" "quiet (cv_fold c)" "appendable m" "isUndoAnchor m" "talks f (do_append f m c) k c'"
    "fs_deferred (cv_fold c') = []" "isValidUndoCount (int k + 1)"
  shows "cv_fold (do_undo (int k + 1) c') = resetFold (rev (dropWhile (\<lambda>x. isPromptOwnedInjection x m) (rev (fs_messages (cv_fold c)))))
    \<and> cv_model (do_undo (int k + 1) c') = cv_model c"
proof -
  let ?base = "fs_messages (cv_fold c)"
  have nosum: "\<not> isCompactionSummaryMessage m" using assms(4) summary_not_anchor by blast
  have q: "fs_pending (cv_fold c) = []" "fs_deferred (cv_fold c) = []" "filter is_partial ?base = []" using assms(2) by (simp_all add: quiet_def)
  have conv: "conversing f a (do_append f m c)" using assms(1,3) nosum by (rule conversing.append)
  have first: "fs_messages (cv_fold (do_append f m c)) = ?base @ [m]" "story (cv_fold (do_append f m c)) = ?base @ [m]"
    "ck_checkpoints (cv_model (do_append f m c)) = ck_checkpoints (cv_model c) @ [ck_current (cv_model c)]"
    using q assms(4) by (simp_all add: do_append_def foldAppendMessage_def checkpoint_append_def story_def)
  have "begins (?base @ [m]) (cv_fold (do_append f m c))" using first(1) q(3) assms(3) by (simp add: begins_def appendable_def)
  note since = talks_since [OF assms(5) conv this, unfolded first]
  obtain rest where r: "fs_messages (cv_fold c') = (?base @ [m]) @ rest" using since by (auto simp: begins_def)
  obtain as where s: "marks (story (cv_fold c')) = marks (?base @ [m]) @ as" "list_all isUndoAnchor as" "length as = k" using since by blast
  obtain cs where ck: "ck_checkpoints (cv_model c') = (ck_checkpoints (cv_model c) @ [ck_current (cv_model c)]) @ cs" "length cs = k" using since by blast
  have "marks rest = as" using s(1) r assms(6) by (simp add: story_def split: if_splits)
  then have rest: "\<not> list_ex isCompactionSummaryMessage rest" "int k = int (length (filter isUndoAnchor rest))"
    using anchors_only [of rest] s(2,3) by simp_all
  have ms: "fs_messages (cv_fold c') = ?base @ m # rest" using r by simp
  note cut = cut_to_prompt [OF ms assms(4) rest]
  have "cv_fold (do_undo (int k + 1) c') = resetFold (rev (dropWhile (\<lambda>x. isPromptOwnedInjection x m) (rev ?base)))"
    using cut undo_possible [of "int k + 1" "fs_messages (cv_fold c')"] assms(7) ms by (simp add: do_undo_def contextUndo_def Let_def)
  moreover have "cv_model (do_undo (int k + 1) c') = cv_model c"
    using ck assms(7) by (simp add: do_undo_def checkpoint_undo_def Let_def nth_append)
  ultimately show ?thesis by blast
qed

subsection \<open>The undo service\<close>

lemma equal_depths:
  assumes "list_all (\<lambda>(name, k). length (ck_checkpoints k) = d) models" "models \<noteq> []"
  shows "fst (checkpointDepth models) = enat d"
proof -
  let ?f = "\<lambda>(depth, model) (name, state). if enat (length (ck_checkpoints state)) < depth then (enat (length (ck_checkpoints state)), name) else (depth, model)"
  have "fst (foldl ?f (e, n) ms) = (if ms = [] then e else min e (enat d))" if "list_all (\<lambda>(name, k). length (ck_checkpoints k) = d) ms" for ms e n
    using that by (induction ms arbitrary: e n) (auto simp: min_def)
  from this [OF assms(1), of \<infinity> "[]"] show ?thesis using assms(2) unfolding checkpointDepth_def by simp
qed

lemma undone_depth: "length (ck_checkpoints k) = d \<Longrightarrow> n \<le> int d \<Longrightarrow> isValidUndoCount n \<Longrightarrow> length (ck_checkpoints (checkpoint_undo n k)) = nat (int d - n)"
  by (auto simp: checkpoint_undo_def Let_def isValidUndoCount_def)

lemma removed_by_undo: "0 \<le> n \<Longrightarrow> uc_removedCount (computeUndoCut ms n) = min n (int (anchors ms))"
  using undo_loop_spec [of "length ms" ms n] by (simp add: computeUndoCut_def cut_ok_def Let_def)

lemma stopped_by_summary: "0 \<le> n \<Longrightarrow> uc_stoppedAtCompaction (computeUndoCut ms n) \<longleftrightarrow> int (anchors ms) < n \<and> list_ex isCompactionSummaryMessage ms"
  using undo_loop_stopped [of "length ms" ms n] by (simp add: computeUndoCut_def)

lemma precheck_exact:
  assumes "0 < n"
  shows "precheckUndo ms n =
    (if n \<le> int (anchors ms) then UndoOk
     else UndoUnavailable (if list_ex isCompactionSummaryMessage ms then CompactionBoundary else if anchors ms = 0 then NothingToUndo else Insufficient)
       n (int (anchors ms)))"
  using undo_possible [OF assms, of ms] removed_by_undo [of n ms] stopped_by_summary [of n ms] assms
  by (auto simp: precheckUndo_def Let_def)

text \<open>C6: Let a conversation be one of those above in the fold and in every registered model (there is at least one), and let an
  undo of a valid count be asked for when the loop is quiet, no compaction runs and no message is held back. It is refused
  with the reason and the number that could be undone, and then nothing changes, or it takes back exactly that many prompts in
  the history and in every checkpointed model; the check of the models never refuses what the history allows, and the availability
  shown beforehand tells the counts that are accepted. A failed flush is reported after the cut is made.\<close>

theorem undo_outcome:
  assumes "\<And>name k. (name, k) \<in> set models \<Longrightarrow> \<exists>f a. conversing f a \<lparr>cv_fold = cx_fold s, cv_model = k\<rparr>"
    "models \<noteq> []" "fs_deferred (cx_fold s) = []" "isValidUndoCount n" "ms = fs_messages (cx_fold s)"
    "undo True False cutFlushed stateFlushed n s models = (r, s', models')"
  shows "if n \<le> av_maxTurns (availability ms models)
    then r = (if cutFlushed \<and> stateFlushed then Inr n else Inl FlushFailed)
      \<and> (\<exists>p. at_prompt ms (length ms) n p \<and> fs_messages (cx_fold s') = take (owned_start ms (ms ! p) p) ms)
      \<and> list_all (\<lambda>(name, k). length (ck_checkpoints k) = anchors (fs_messages (cx_fold s'))) models'
      \<and> int (anchors (fs_messages (cx_fold s'))) = int (anchors ms) - n
    else r = Inl (Unavailable (if list_ex isCompactionSummaryMessage ms then CompactionBoundary else if anchors ms = 0 then NothingToUndo else Insufficient)
        n (int (anchors ms))) \<and> s' = s \<and> models' = models"
proof -
  have n: "0 < n" "n \<le> MAX_SAFE_INTEGER" using assms(4) by (auto simp: isValidUndoCount_def)
  have depth: "list_all (\<lambda>(name, k). length (ck_checkpoints k) = anchors ms) models"
    unfolding list_all_iff
  proof clarify
    fix name k assume "(name, k) \<in> set models"
    then obtain f a where "conversing f a \<lparr>cv_fold = cx_fold s, cv_model = k\<rparr>" using assms(1) by blast
    from conversing_in_step [OF this] show "length (ck_checkpoints k) = anchors ms" using assms(3,5) by (simp add: in_step_def story_def)
  qed
  note d = equal_depths [OF depth assms(2)]
  have avail: "av_maxTurns (availability ms models) = min MAX_SAFE_INTEGER (int (anchors ms))"
    by (simp add: availability_def d at_most_def removed_by_undo MAX_SAFE_INTEGER_def Let_def)
  show ?thesis
  proof (cases "n \<le> int (anchors ms)")
    case True
    have ok: "assertUndoAvailable n ms models = None" using precheck_exact [OF n(1), of ms] True d by (simp add: assertUndoAvailable_def at_most_def Let_def)
    have full: "isFullyUndoable (computeUndoCut ms n) n" using undo_possible [OF n(1)] True by simp
    have out: "r = (if cutFlushed \<and> stateFlushed then Inr n else Inl FlushFailed)" "cx_fold s' = contextUndo n (cx_fold s)" "models' = undo_all n models"
      using assms(4-6) ok full by (auto simp: undo_def undoNow_def service_undo_def Let_def)
    obtain p where p: "at_prompt ms (length ms) n p" "uc_cutIndex (computeUndoCut ms n) = int (owned_start ms (ms ! p) p)"
      using undo_cut_at [OF n(1) True] by blast
    have "ms \<noteq> []" using p(1) by (auto simp: at_prompt_def)
    then have cut: "fs_messages (cx_fold s') = take (owned_start ms (ms ! p) p) ms"
      using out(2) full assms(4,5) p(2) by (simp add: contextUndo_def Let_def)
    have left: "int (anchors (fs_messages (cx_fold s'))) = int (anchors ms) - n" using anchors_after_undo [OF n(1) True] cut p(2) by simp
    have "length (ck_checkpoints (snd x)) = nat (int (anchors ms) - n)" if x: "x \<in> set models'" for x
    proof -
      obtain y where y: "y \<in> set models" "snd x = checkpoint_undo n (snd y)" using x by (auto simp: out(3) undo_all_def)
      then have "length (ck_checkpoints (snd y)) = anchors ms" using depth by (auto simp: list_all_iff case_prod_beta)
      then show ?thesis using undone_depth [OF _ True assms(4)] y(2) by simp
    qed
    moreover have "nat (int (anchors ms) - n) = anchors (fs_messages (cx_fold s'))" using left by simp
    ultimately have "list_all (\<lambda>(name, k). length (ck_checkpoints k) = anchors (fs_messages (cx_fold s'))) models'" by (simp add: list_all_iff case_prod_beta)
    then show ?thesis using True n(2) avail out(1) cut p(1) left by (simp, blast)
  next
    case False
    have "assertUndoAvailable n ms models = Some (Unavailable (if list_ex isCompactionSummaryMessage ms then CompactionBoundary
        else if anchors ms = 0 then NothingToUndo else Insufficient) n (int (anchors ms)))"
      using precheck_exact [OF n(1), of ms] False by (simp add: assertUndoAvailable_def)
    then show ?thesis using False avail assms(4-6) by (auto simp: undo_def undoNow_def)
  qed
qed

subsection \<open>Replaying a compaction\<close>

lemma recorded_fields:
  "compaction_record r (js ''summary'') = Some (FString (cs_summary r))"
  "compaction_record r (js ''contextSummary'') = Some (FString (cs_contextSummary r))"
  "compaction_record r (js ''compactedCount'') = Some (FNumber (cs_compactedCount r))"
  "compaction_record r (js ''keptUserMessageCount'') = Some (FNumber (cs_keptUserMessageCount r))"
  "compaction_record r (js ''legacyTail'') = None"
  by (simp_all add: compaction_record_def js_def map_add_def)

text \<open>The record of a live compaction, read back, makes the same history as the one the live compaction was built and
  published with, whatever the counts and sizes in it; the splice replaces the whole history, the measured prefix is the new
  history, and the record is one replay always accepts.\<close>

theorem compaction_replays:
  assumes "ci_legacyTail i \<noteq> Some True"
  shows "\<exists>result sp s'. service_applyCompaction i s = Inr (result, sp, s')
    \<and> result = buildContextCompactionShape (fs_messages (cx_fold s)) i
    \<and> contextApplyCompaction (compaction_record result) (cx_fold s) = Inr (resetFold (cs_messages result))
    \<and> cx_fold s' = resetFold (cs_messages result) \<and> sp_messages sp = cs_messages result
    \<and> sp_start sp = 0 \<and> sp_deleteCount sp = int (length (fs_messages (cx_fold s)))
    \<and> cx_size s' = \<lparr>cz_length = int (length (cs_messages result)), cz_tokens = max 0 (cs_tokensAfter result)\<rparr>"
proof -
  define result where "result = buildContextCompactionShape (fs_messages (cx_fold s)) i"
  have live: "\<not> usesLegacyTailShape i" using assms by (simp add: usesLegacyTailShape_def)
  obtain i' where i': "readContextCompactionShapeInput (compaction_record result) = Inr i'"
    "ci_contextSummary i' = Some (cs_contextSummary result)" "ci_legacyTail i' = Some False"
    by (simp add: readContextCompactionShapeInput_def readContextCompactionRawSummary_def readContextCompactedCount_def readOptionalString_def
        readOptionalNumber_def readOptionalBoolean_def recorded_fields or_else_def Let_def)
  have "cs_messages (buildContextCompactionShape (fs_messages (cx_fold s)) i') = cs_messages result"
    using i'(2,3) live unfolding result_def by (simp add: buildContextCompactionShape_def usesLegacyTailShape_def or_else_def Let_def)
  then have "contextApplyCompaction (compaction_record result) (cx_fold s) = Inr (resetFold (cs_messages result))"
    using i'(1) by (simp add: contextApplyCompaction_def)
  then show ?thesis unfolding service_applyCompaction_def Let_def result_def [symmetric]
    by (auto simp: contextSizeMeasured_def normalizeMeasuredLength_def Let_def)
qed

subsection \<open>A sample conversation\<close>

text \<open>A prompt and its turn with one tool call, the result not there yet; then the result and the end of the step.\<close>

definition sample_prompt :: context_message where
  "sample_prompt = stored (createUserMessage (js ''List the files''))"

definition sample_calling :: "nat conversation" where
  "sample_calling = do_event (ToolCallEvent (js ''s1'') (js ''c1'') (js ''ls'') None None) (do_event (StepBegin (js ''s1''))
     (do_append None sample_prompt (initial_conversation 7)))"

definition sample_quiet :: "nat conversation" where
  "sample_quiet = do_event (StepEnd (js ''s1'')) (do_event (ToolResultEvent (js ''c1'') \<lparr>rf_output = OutText (js ''a b''), rf_isError = None, rf_note = None\<rparr>)
     sample_calling)"

lemma sample_prompt_ok: "appendable sample_prompt" "\<not> isCompactionSummaryMessage sample_prompt" "isUndoAnchor sample_prompt"
  by (simp_all add: appendable_def place_of_def is_partial_def isCompactionSummaryMessage_def isUndoAnchor_def sample_prompt_def createUserMessage_def)

lemmas sample_defs = sample_calling_def sample_quiet_def do_append_def do_event_def initial_conversation_def sample_prompt_def createUserMessage_def
  foldAppendMessage_def resetFold_def settleOpenStep_def closePending_def findOpenAssistantIndex_def appendToOpenAssistant_def flushDeferred_def
  open_assistant_def set_add_id_def checkpoint_append_def isUndoAnchor_def recorded_call_def result_message_def createToolMessage_def

lemma sample_calling_state:
  "fs_pending (cv_fold sample_calling) = [js ''c1'']" "fs_deferred (cv_fold sample_calling) = []" "length (fs_messages (cv_fold sample_calling)) = 2"
  by (simp_all add: sample_defs)

lemma sample_calling_conversing: "conversing None 7 sample_calling"
  unfolding sample_calling_def
  by (intro conversing.intros sample_prompt_ok) (simp_all add: sample_defs is_partial_def)

lemma sample_quiet_conversing: "conversing None 7 sample_quiet"
  unfolding sample_quiet_def by (intro conversing.event sample_calling_conversing) simp_all

lemma event_fold: "cv_fold (do_event e c) = foldLoopEvent e (cv_fold c)"
  by (simp add: do_event_def)

lemma sample_quiet_quiet: "quiet (cv_fold sample_quiet)"
proof -
  have "fold_ok (foldLoopEvent (ToolResultEvent i r) (cv_fold sample_calling))" for i r
    using tool_result_ok conversing_told [OF sample_calling_conversing] by (simp only: told_def)
  note step_end_ok [OF this]
  then show ?thesis by (simp only: sample_quiet_def event_fold)
qed

theorem conversation_exchanges_witness:
  "\<exists>settled tail. fs_messages (cv_fold sample_calling) = settled @ tail \<and> groups_ok (places settled) \<and> open_group [js ''c1''] tail"
  using conversation_exchanges [OF sample_calling_conversing refl refl] by (simp add: sample_calling_state)

theorem undo_restores_witness:
  "fs_messages (cv_fold (do_undo 1 (do_append None sample_prompt sample_quiet))) = fs_messages (cv_fold sample_quiet)"
proof -
  have "fs_deferred (cv_fold (do_append None sample_prompt sample_quiet)) = []"
    using sample_quiet_quiet by (simp add: do_append_def foldAppendMessage_def quiet_def)
  from undo_restores [OF sample_quiet_conversing sample_quiet_quiet sample_prompt_ok(1,3) talks.stay this]
  have r: "cv_fold (do_undo 1 (do_append None sample_prompt sample_quiet))
      = resetFold (rev (dropWhile (\<lambda>x. isPromptOwnedInjection x sample_prompt) (rev (fs_messages (cv_fold sample_quiet)))))"
    by (simp add: isValidUndoCount_def MAX_SAFE_INTEGER_def)
  have "\<not> isPromptOwnedInjection m sample_prompt" for m
    by (simp add: isPromptOwnedInjection_def sample_prompt_def split: option.split prompt_origin.split)
  then have "dropWhile (\<lambda>x. isPromptOwnedInjection x sample_prompt) xs = xs" for xs by (cases xs) simp_all
  then show ?thesis using r by simp
qed

theorem undo_outcome_witness:
  "fst (undo True False True True 2 \<lparr>cx_fold = cv_fold sample_calling, cx_size = \<lparr>cz_length = 0, cz_tokens = 0\<rparr>\<rparr> [(js ''goal'', cv_model sample_calling)])
    = Inl (Unavailable Insufficient 2 1)"
proof -
  let ?s = "\<lparr>cx_fold = cv_fold sample_calling, cx_size = \<lparr>cz_length = 0, cz_tokens = 0\<rparr>\<rparr>"
  let ?m = "[(js ''goal'', cv_model sample_calling)]"
  obtain r s' models' where u: "undo True False True True 2 ?s ?m = (r, s', models')" by (metis prod_cases3)
  have ms: "anchors (fs_messages (cv_fold sample_calling)) = 1" "\<not> list_ex isCompactionSummaryMessage (fs_messages (cv_fold sample_calling))"
    by (simp_all add: sample_defs anchors_def count_anchor_def isCompactionSummaryMessage_def)
  have eq: "\<lparr>cv_fold = cv_fold sample_calling, cv_model = cv_model sample_calling\<rparr> = sample_calling" by (cases sample_calling) simp
  have whole: "conversing None 7 \<lparr>cv_fold = cv_fold sample_calling, cv_model = cv_model sample_calling\<rparr>"
    unfolding eq by (rule sample_calling_conversing)
  have "\<exists>f a. conversing f a \<lparr>cv_fold = cx_fold ?s, cv_model = k\<rparr>" if "(name, k) \<in> set ?m" for name k
    using that by (intro exI [of _ None] exI [of _ 7]) (simp add: whole)
  from undo_outcome [OF this _ _ _ refl u] have "\<not> 2 \<le> av_maxTurns (availability (fs_messages (cv_fold sample_calling)) ?m) \<Longrightarrow> r = Inl (Unavailable Insufficient 2 1)"
    using ms by (simp add: sample_calling_state isValidUndoCount_def MAX_SAFE_INTEGER_def)
  moreover have "\<not> 2 \<le> av_maxTurns (availability (fs_messages (cv_fold sample_calling)) ?m)"
    using ms(1) by (simp add: availability_def removed_by_undo MAX_SAFE_INTEGER_def Let_def at_most_def split: enat.split)
  ultimately show ?thesis using u by simp
qed

theorem compaction_replays_witness:
  "\<exists>result. contextApplyCompaction (compaction_record result) (cv_fold sample_calling) = Inr (resetFold (cs_messages result))"
proof -
  let ?i = "\<lparr>ci_summary = js ''done'', ci_legacySummaryMessage = None, ci_contextSummary = None, ci_compactedCount = 2, ci_tokensBefore = 10,
    ci_tokensAfter = None, ci_keptUserMessageCount = None, ci_keptHeadUserMessageCount = None, ci_droppedCount = None, ci_legacyTail = None\<rparr>"
  show ?thesis using compaction_replays [of ?i "\<lparr>cx_fold = cv_fold sample_calling, cx_size = \<lparr>cz_length = 0, cz_tokens = 0\<rparr>\<rparr>"] by auto
qed

end
