(* ===== verification/WireMigration.thy ===== *)
theory WireMigration
  imports Json "HOL-Library.AList"
begin

section \<open>Journal records and their migrations (\<^verbatim>\<open>wire/record.ts\<close>, \<^verbatim>\<open>wire/migration\<close>)\<close>

text \<open>
  A journal record is a JSON object: its members in the order they were set, keys distinct. A property set to
  \<^verbatim>\<open>undefined\<close> is not written, so it is no member. Spreading an object into another sets its members one by one.
  Reading a property of \<^verbatim>\<open>undefined\<close> throws: a migration that does is \<open>None\<close>.
\<close>

type_synonym wobj = "(js_string \<times> json) list"

definition spread :: "wobj \<Rightarrow> wobj \<Rightarrow> wobj" where
  "spread base ms = foldl (\<lambda>o' (k, v). AList.update k v o') base ms"

definition without :: "js_string list \<Rightarrow> wobj \<Rightarrow> wobj" where
  "without ks o' = filter (\<lambda>(k, v). k \<notin> set ks) o'"

text \<open>Setting a member to a value that may be \<^verbatim>\<open>undefined\<close>.\<close>

definition put :: "js_string \<Rightarrow> json option \<Rightarrow> wobj \<Rightarrow> wobj" where
  "put k v o' = (case v of Some x \<Rightarrow> AList.update k x o' | None \<Rightarrow> without [k] o')"

definition type_of :: "wobj \<Rightarrow> js_string option" where
  "type_of r = (case map_of r (js ''type'') of Some (JStr t) \<Rightarrow> Some t | _ \<Rightarrow> None)"

subsection \<open>Records\<close>

definition AGENT_WIRE_RECORD_KEY :: js_string where "AGENT_WIRE_RECORD_KEY = js ''wire.jsonl''"

definition WIRE_PROTOCOL_VERSION :: js_string where "WIRE_PROTOCOL_VERSION = js ''1.5''"

definition isWireRecord :: "json \<Rightarrow> bool" where
  "isWireRecord v \<longleftrightarrow> (case v of JObj r \<Rightarrow> type_of r \<noteq> None | _ \<Rightarrow> False)"

definition createWireMetadataRecord :: "int \<Rightarrow> wobj" where
  "createWireMetadataRecord now =
     [(js ''type'', JStr (js ''metadata'')), (js ''protocol_version'', JStr WIRE_PROTOCOL_VERSION), (js ''created_at'', JNum now)]"

definition isWireMetadataRecord :: "wobj \<Rightarrow> bool" where
  "isWireMetadataRecord r \<longleftrightarrow> type_of r = Some (js ''metadata'')
     \<and> (case map_of r (js ''protocol_version'') of Some (JStr v) \<Rightarrow> True | _ \<Rightarrow> False)
     \<and> (case map_of r (js ''created_at'') of Some (JNum n) \<Rightarrow> True | _ \<Rightarrow> False)"

text \<open>A payload that is an object gives its members to the record; any other is the member \<^verbatim>\<open>payload\<close>.\<close>

definition opToWireRecord :: "js_string \<Rightarrow> json \<Rightarrow> int \<Rightarrow> wobj" where
  "opToWireRecord t payload now =
     (let r = (case payload of JObj ms \<Rightarrow> spread [(js ''type'', JStr t)] ms
               | _ \<Rightarrow> [(js ''type'', JStr t), (js ''payload'', payload)])
      in if map_of r (js ''time'') = None then AList.update (js ''time'') (JNum now) r else r)"

definition wireRecordToPayload :: "wobj \<Rightarrow> json" where
  "wireRecordToPayload r =
     (let payload = without [js ''type'', js ''time''] r in
      case map_of payload (js ''payload'') of
        Some p \<Rightarrow> if length payload = 1 then p else JObj payload
      | None \<Rightarrow> JObj payload)"

subsection \<open>The migrations\<close>

definition migrateToolCall :: "json \<Rightarrow> json option" where
  "migrateToolCall c =
     (case c of
        JObj m \<Rightarrow>
          (let rest = without [js ''function''] m in
           case map_of m (js ''function'') of
             None \<Rightarrow> None
           | Some JNull \<Rightarrow> None
           | Some (JObj f) \<Rightarrow> Some (JObj (put (js ''arguments'') (map_of f (js ''arguments'')) (put (js ''name'') (map_of f (js ''name'')) rest)))
           | Some _ \<Rightarrow> Some (JObj (without [js ''name'', js ''arguments''] rest)))
      | _ \<Rightarrow> None)"

fun map_all :: "('a \<Rightarrow> 'b option) \<Rightarrow> 'a list \<Rightarrow> 'b list option" where
  "map_all f [] = Some []"
| "map_all f (x # xs) = (case f x of None \<Rightarrow> None | Some y \<Rightarrow> (case map_all f xs of None \<Rightarrow> None | Some ys \<Rightarrow> Some (y # ys)))"

definition migrateV1_0ToV1_1 :: "wobj \<Rightarrow> wobj option" where
  "migrateV1_0ToV1_1 r =
     (if type_of r \<noteq> Some (js ''context.append_message'') then Some r
      else case map_of r (js ''message'') of
        Some (JObj m) \<Rightarrow>
          (case map_of m (js ''toolCalls'') of
             Some (JArr cs) \<Rightarrow>
               (case map_all migrateToolCall cs of None \<Rightarrow> None
                | Some cs' \<Rightarrow> Some (AList.update (js ''message'') (JObj (AList.update (js ''toolCalls'') (JArr cs') m)) r))
           | _ \<Rightarrow> None)
      | _ \<Rightarrow> None)"

definition LEGACY_SESSION_APPROVAL_ACTION_TO_PATTERN :: "(js_string \<times> js_string) list" where
  "LEGACY_SESSION_APPROVAL_ACTION_TO_PATTERN =
     [(js ''run command'', js ''Bash''), (js ''stop background task'', js ''TaskStop''), (js ''edit file'', js ''Write''),
      (js ''edit file outside of working directory'', js ''Write''), (js ''write file'', js ''Write'')]"

definition LEGACY_SESSION_APPROVAL_UNRESTORABLE_ACTIONS :: "js_string list" where
  "LEGACY_SESSION_APPROVAL_UNRESTORABLE_ACTIONS = [js ''run command in plan mode'', js ''run background command'']"

definition approval_pattern :: "wobj \<Rightarrow> json option" where
  "approval_pattern r =
     (case map_of r (js ''action'') of
        Some (JStr action) \<Rightarrow>
          (if action \<in> set LEGACY_SESSION_APPROVAL_UNRESTORABLE_ACTIONS then None
           else case map_of LEGACY_SESSION_APPROVAL_ACTION_TO_PATTERN action of Some p \<Rightarrow> Some (JStr p) | None \<Rightarrow> map_of r (js ''toolName''))
      | _ \<Rightarrow> map_of r (js ''toolName''))"

definition migrateV1_1ToV1_2 :: "wobj \<Rightarrow> wobj option" where
  "migrateV1_1ToV1_2 r =
     (if type_of r \<noteq> Some (js ''permission.record_approval_result'') then Some r
      else case map_of r (js ''result'') of
        None \<Rightarrow> None
      | Some JNull \<Rightarrow> None
      | Some (JObj result) \<Rightarrow>
          (if map_of result (js ''decision'') \<noteq> Some (JStr (js ''approved'')) \<or> map_of result (js ''scope'') \<noteq> Some (JStr (js ''session'')) then Some r
           else if map_of r (js ''sessionApprovalRule'') \<noteq> None then Some r
           else case approval_pattern r of None \<Rightarrow> Some r | Some p \<Rightarrow> Some (AList.update (js ''sessionApprovalRule'') p r))
      | Some _ \<Rightarrow> Some r)"

definition migrateV1_2ToV1_3 :: "wobj \<Rightarrow> wobj option" where "migrateV1_2ToV1_3 r = Some r"

text \<open>The members named, in this order, after the type.\<close>

definition pick :: "string \<Rightarrow> string list \<Rightarrow> wobj \<Rightarrow> wobj" where
  "pick t ks r = foldl (\<lambda>o' k. put (js k) (map_of r (js k)) o') [(js ''type'', JStr (js t))] ks"

definition migrateGoalCreate :: "wobj \<Rightarrow> wobj" where
  "migrateGoalCreate = pick ''goal.create'' [''goalId'', ''objective'', ''completionCriterion'', ''time'']"

definition migrateGoalUpdate :: "wobj \<Rightarrow> wobj" where
  "migrateGoalUpdate = pick ''goal.update'' [''status'', ''reason'', ''turnsUsed'', ''tokensUsed'', ''wallClockMs'', ''actor'', ''time'']"

definition migrateGoalAccountUsage :: "wobj \<Rightarrow> wobj" where
  "migrateGoalAccountUsage = pick ''goal.update'' [''tokensUsed'', ''wallClockMs'', ''time'']"

definition migrateGoalContinuation :: "wobj \<Rightarrow> wobj" where
  "migrateGoalContinuation = pick ''goal.update'' [''turnsUsed'', ''time'']"

definition migrateGoalClear :: "wobj \<Rightarrow> wobj" where
  "migrateGoalClear = pick ''goal.clear'' [''time'']"

definition migrateV1_3ToV1_4 :: "wobj \<Rightarrow> wobj option" where
  "migrateV1_3ToV1_4 r =
     Some (if type_of r = Some (js ''goal.create'') then migrateGoalCreate r
           else if type_of r = Some (js ''goal.update'') then migrateGoalUpdate r
           else if type_of r = Some (js ''goal.account_usage'') then migrateGoalAccountUsage r
           else if type_of r = Some (js ''goal.continuation'') then migrateGoalContinuation r
           else if type_of r = Some (js ''goal.clear'') then migrateGoalClear r
           else r)"

definition advancesActiveInterval :: "wobj \<Rightarrow> bool" where
  "advancesActiveInterval r \<longleftrightarrow>
     type_of r = Some (js ''goal.create'')
     \<or> type_of r = Some (js ''goal.update'')
       \<and> (map_of r (js ''status'') = Some (JStr (js ''active''))
         \<or> map_of r (js ''status'') = None \<and> (case map_of r (js ''wallClockMs'') of Some (JNum n) \<Rightarrow> True | _ \<Rightarrow> False))"

definition migrateV1_4ToV1_5 :: "wobj \<Rightarrow> wobj option" where
  "migrateV1_4ToV1_5 r =
     Some (if \<not> advancesActiveInterval r then r
           else if map_of r (js ''wallClockResumedAt'') \<noteq> None then r
           else case map_of r (js ''time'') of Some (JNum n) \<Rightarrow> AList.update (js ''wallClockResumedAt'') (JNum n) r | _ \<Rightarrow> r)"

subsection \<open>Which migrations a journal needs\<close>

record migration =
  mg_source :: js_string
  mg_target :: js_string
  mg_migrateRecord :: "wobj \<Rightarrow> wobj option"

definition MIGRATIONS :: "migration list" where
  "MIGRATIONS =
     [\<lparr>mg_source = js ''1.0'', mg_target = js ''1.1'', mg_migrateRecord = migrateV1_0ToV1_1\<rparr>,
      \<lparr>mg_source = js ''1.1'', mg_target = js ''1.2'', mg_migrateRecord = migrateV1_1ToV1_2\<rparr>,
      \<lparr>mg_source = js ''1.2'', mg_target = js ''1.3'', mg_migrateRecord = migrateV1_2ToV1_3\<rparr>,
      \<lparr>mg_source = js ''1.3'', mg_target = js ''1.4'', mg_migrateRecord = migrateV1_3ToV1_4\<rparr>,
      \<lparr>mg_source = js ''1.4'', mg_target = js ''1.5'', mg_migrateRecord = migrateV1_4ToV1_5\<rparr>]"

text \<open>
  A part of a version as a number; \<open>None\<close> is \<^verbatim>\<open>NaN\<close>. Signs, exponents, blanks and hexadecimal digits, which no writer of
  a journal puts into a version, are not told apart from other text.
\<close>

definition version_part :: "js_string \<Rightarrow> int option" where
  "version_part s = (if list_all (\<lambda>u. 48 \<le> u \<and> u \<le> 57) s then Some (int (digits_value s)) else None)"

text \<open>The first difference, part by part, a missing part being \<^verbatim>\<open>0\<close>; a difference with \<^verbatim>\<open>NaN\<close> is \<^verbatim>\<open>NaN\<close>, and not \<open>0\<close>.\<close>

fun compare_parts :: "js_string list \<Rightarrow> js_string list \<Rightarrow> int option" where
  "compare_parts [] [] = Some 0"
| "compare_parts (a # as) [] = (case version_part a of None \<Rightarrow> None | Some x \<Rightarrow> if x \<noteq> 0 then Some x else compare_parts as [])"
| "compare_parts [] (b # bs) = (case version_part b of None \<Rightarrow> None | Some y \<Rightarrow> if - y \<noteq> 0 then Some (- y) else compare_parts [] bs)"
| "compare_parts (a # as) (b # bs) =
     (case version_part a of None \<Rightarrow> None | Some x \<Rightarrow> (case version_part b of None \<Rightarrow> None
      | Some y \<Rightarrow> if x - y \<noteq> 0 then Some (x - y) else compare_parts as bs))"

definition compareWireVersions :: "js_string \<Rightarrow> js_string \<Rightarrow> int option" where
  "compareWireVersions a b = compare_parts (split_at 46 a) (split_at 46 b)"

definition isNewerWireVersion :: "js_string \<Rightarrow> bool" where
  "isNewerWireVersion v = (case compareWireVersions v WIRE_PROTOCOL_VERSION of Some d \<Rightarrow> d > 0 | None \<Rightarrow> False)"

definition findMigration :: "js_string \<Rightarrow> migration option" where
  "findMigration v = find (\<lambda>m. mg_source m = v) MIGRATIONS"

definition older :: "js_string \<Rightarrow> bool" where
  "older v = (case compareWireVersions v WIRE_PROTOCOL_VERSION of Some d \<Rightarrow> d < 0 | None \<Rightarrow> False)"

definition steps_left :: "js_string \<Rightarrow> nat" where
  "steps_left v = length (dropWhile (\<lambda>m. mg_source m \<noteq> v) MIGRATIONS)"

lemma js_eq: "js s = js t \<longleftrightarrow> s = t"
proof -
  have "c = d" if "(of_char c :: 16 word) = of_char d" for c d
  proof -
    have "unat (of_char c :: 16 word) = (of_char c :: nat)" for c
    proof -
      have less: "(of_char c :: nat) < 256" by (metis mod_less_divisor of_char_mod_256 zero_less_numeral)
      have w: "(of_char c :: 16 word) = of_nat (of_char c)" by (rule of_nat_of_char [symmetric])
      have "unat (of_nat (of_char c) :: 16 word) = of_char c" by (subst unat_of_nat, rule mod_less, rule less_trans [OF less]) simp
      then show ?thesis by (simp only: w)
    qed
    then have "(of_char c :: nat) = of_char d" using that by metis
    then show ?thesis by (rule of_char_eqI)
  qed
  then show ?thesis unfolding js_def by (simp add: inj_map_eq_map inj_def)
qed

lemma migration_cases:
  assumes "findMigration v = Some m"
  obtains "v = js ''1.0''" "mg_target m = js ''1.1''" | "v = js ''1.1''" "mg_target m = js ''1.2''" | "v = js ''1.2''" "mg_target m = js ''1.3''"
    | "v = js ''1.3''" "mg_target m = js ''1.4''" | "v = js ''1.4''" "mg_target m = js ''1.5''"
proof -
  have "mg_source m = v" "m \<in> set MIGRATIONS" using assms by (auto simp: findMigration_def find_Some_iff)
  then show thesis using that unfolding MIGRATIONS_def by auto
qed

lemma steps_left_values: "steps_left (js ''1.0'') = 5" "steps_left (js ''1.1'') = 4" "steps_left (js ''1.2'') = 3" "steps_left (js ''1.3'') = 2"
  "steps_left (js ''1.4'') = 1" "steps_left (js ''1.5'') = 0"
  unfolding steps_left_def MIGRATIONS_def by (simp_all add: js_eq)

lemma migration_advances: "findMigration v = Some m \<Longrightarrow> steps_left (mg_target m) < steps_left v"
  by (erule migration_cases) (simp_all add: steps_left_values)

text \<open>The loop: an older version without a migration throws.\<close>

function resolve_loop :: "js_string \<Rightarrow> migration list option" where
  "resolve_loop version =
     (if \<not> older version then Some []
      else case findMigration version of
        None \<Rightarrow> None
      | Some m \<Rightarrow> (case resolve_loop (mg_target m) of None \<Rightarrow> None | Some ms \<Rightarrow> Some (m # ms)))"
  by pat_completeness auto
termination by (relation "measure steps_left") (auto dest: migration_advances)

declare resolve_loop.simps [simp del]

definition resolveWireMigrations :: "js_string \<Rightarrow> migration list option" where
  "resolveWireMigrations readVersion =
     (if (case compareWireVersions readVersion WIRE_PROTOCOL_VERSION of Some d \<Rightarrow> d \<ge> 0 | None \<Rightarrow> False) then Some []
      else resolve_loop readVersion)"

fun migrateWireRecord :: "wobj \<Rightarrow> migration list \<Rightarrow> wobj option" where
  "migrateWireRecord r [] = Some r"
| "migrateWireRecord r (m # ms) = (case mg_migrateRecord m r of None \<Rightarrow> None | Some r' \<Rightarrow> migrateWireRecord r' ms)"

definition applyWireMigrations :: "wobj list \<Rightarrow> migration list \<Rightarrow> wobj list option" where
  "applyWireMigrations rs ms = map_all (\<lambda>r. migrateWireRecord r ms) rs"

definition migrateWireRecords :: "wobj list \<Rightarrow> js_string option \<Rightarrow> wobj list option" where
  "migrateWireRecords rs readVersion =
     (case readVersion of None \<Rightarrow> applyWireMigrations rs MIGRATIONS
      | Some v \<Rightarrow> (case resolveWireMigrations v of None \<Rightarrow> None | Some ms \<Rightarrow> applyWireMigrations rs ms))"

end
