(* ===== verification/Wire.thy ===== *)
theory Wire
  imports WireMigration
begin

section \<open>The wire service (\<^verbatim>\<open>wire/wireService.ts\<close>, \<^verbatim>\<open>wire/op.ts\<close>, \<^verbatim>\<open>wire/model.ts\<close>)\<close>

text \<open>
  An agent's models are states changed only by operations. A live operation is applied, handed to the journal when it
  persists, published as an event, and folded into the models that registered a reducer for its type; a restore reads
  the journal back and applies the records silently. Model states are of one type \<open>'u\<close>, event facts of a type \<open>'e\<close>; an
  \<open>apply\<close> or reducer that throws is \<open>None\<close>. What the subscribers of an event dispatch while it is published is an argument,
  as are the clock and the codecs for stored media.
\<close>

record ('u, 'e) descriptor =
  ds_model :: js_string
  ds_schema :: "json \<Rightarrow> json option"
  ds_apply :: "'u \<Rightarrow> json \<Rightarrow> 'u option"
  ds_toEvent :: "(json \<Rightarrow> 'u \<Rightarrow> 'e option) option"
  ds_persist :: "bool option"

record ('u, 'e) op =
  op_type :: js_string
  op_payload :: json
  op_descriptor :: "('u, 'e) descriptor"

text \<open>What is registered when the code is loaded: the operations by type, the reducers by the type they react to, the
  initial state of every model. A second registration of a type throws.\<close>

type_synonym ('u, 'e) op_registry = "js_string \<Rightarrow> ('u, 'e) descriptor option"
type_synonym 'u cross_reducers = "js_string \<Rightarrow> (js_string \<times> ('u \<Rightarrow> json \<Rightarrow> 'u option)) list"

definition defineOp :: "js_string \<Rightarrow> ('u, 'e) descriptor \<Rightarrow> ('u, 'e) op_registry \<Rightarrow> ('u, 'e) op_registry option" where
  "defineOp t d reg = (if reg t \<noteq> None then None else Some (reg(t \<mapsto> d)))"

definition make_op :: "js_string \<Rightarrow> ('u, 'e) descriptor \<Rightarrow> json \<Rightarrow> ('u, 'e) op" where
  "make_op t d payload = \<lparr>op_type = t, op_payload = payload, op_descriptor = d\<rparr>"

definition defineModel :: "js_string \<Rightarrow> (js_string \<times> ('u \<Rightarrow> json \<Rightarrow> 'u option)) list \<Rightarrow> 'u cross_reducers \<Rightarrow> 'u cross_reducers" where
  "defineModel name reducers table = foldl (\<lambda>t (opType, reducer). t(opType := t opType @ [(name, reducer)])) table reducers"

subsection \<open>Applying operations\<close>

record ('u, 'e) wire_state =
  ws_models :: "js_string \<Rightarrow> 'u option"
  ws_journal :: "(wobj \<times> js_string) list"
  ws_events :: "'e list"
  ws_queue :: "('u, 'e) op list"

record ('u, 'e) wire_env =
  we_initial :: "js_string \<Rightarrow> 'u"
  we_cross :: "'u cross_reducers"
  we_react :: "'e \<Rightarrow> (js_string \<Rightarrow> 'u) \<Rightarrow> ('u, 'e) op list"
  we_now :: "nat \<Rightarrow> int"

definition getModel :: "('u, 'e) wire_env \<Rightarrow> ('u, 'e) wire_state \<Rightarrow> js_string \<Rightarrow> 'u" where
  "getModel env s name = (case ws_models s name of None \<Rightarrow> we_initial env name | Some u \<Rightarrow> u)"

definition set_model :: "js_string \<Rightarrow> 'u \<Rightarrow> ('u, 'e) wire_state \<Rightarrow> ('u, 'e) wire_state" where
  "set_model name u s = s\<lparr>ws_models := (ws_models s)(name \<mapsto> u)\<rparr>"

text \<open>The flag tells whether everything was applied; on a throw the state is the one reached.\<close>

fun run_reducers :: "('u, 'e) wire_env \<Rightarrow> js_string \<Rightarrow> json \<Rightarrow> (js_string \<times> ('u \<Rightarrow> json \<Rightarrow> 'u option)) list
    \<Rightarrow> ('u, 'e) wire_state \<Rightarrow> bool \<times> ('u, 'e) wire_state" where
  "run_reducers env own payload [] s = (True, s)"
| "run_reducers env own payload ((name, reducer) # rs) s =
     (if name = own then run_reducers env own payload rs s
      else case reducer (getModel env s name) payload of
        None \<Rightarrow> (False, s)
      | Some u \<Rightarrow> run_reducers env own payload rs (set_model name u s))"

definition publish :: "('u, 'e) wire_env \<Rightarrow> 'e option \<Rightarrow> ('u, 'e) wire_state \<Rightarrow> ('u, 'e) wire_state" where
  "publish env event s =
     (case event of None \<Rightarrow> s
      | Some e \<Rightarrow> s\<lparr>ws_events := ws_events s @ [e], ws_queue := ws_queue s @ we_react env e (getModel env s)\<rparr>)"

definition notify :: "('u, 'e) wire_env \<Rightarrow> ('u, 'e) op \<Rightarrow> 'u \<Rightarrow> ('u, 'e) wire_state \<Rightarrow> ('u, 'e) wire_state" where
  "notify env x u s =
     (let d = op_descriptor x;
          s' = (if ds_persist d \<noteq> Some False
                then s\<lparr>ws_journal := ws_journal s @ [(opToWireRecord (op_type x) (op_payload x) (we_now env (length (ws_journal s))), ds_model d)]\<rparr>
                else s)
      in publish env (case ds_toEvent d of None \<Rightarrow> None | Some f \<Rightarrow> f (op_payload x) u) s')"

definition execute_op :: "('u, 'e) wire_env \<Rightarrow> bool \<Rightarrow> ('u, 'e) op \<Rightarrow> ('u, 'e) wire_state \<Rightarrow> bool \<times> ('u, 'e) wire_state" where
  "execute_op env silent x s =
     (let d = op_descriptor x in
      case ds_apply d (getModel env s (ds_model d)) (op_payload x) of
        None \<Rightarrow> (False, s)
      | Some u \<Rightarrow>
          (let s1 = set_model (ds_model d) u s;
               s2 = (if silent then s1 else notify env x u s1)
           in run_reducers env (ds_model d) (op_payload x) (we_cross env (op_type x)) s2))"

fun execute :: "('u, 'e) wire_env \<Rightarrow> bool \<Rightarrow> ('u, 'e) op list \<Rightarrow> ('u, 'e) wire_state \<Rightarrow> bool \<times> ('u, 'e) wire_state" where
  "execute env silent [] s = (True, s)"
| "execute env silent (x # xs) s =
     (case execute_op env silent x s of (False, s') \<Rightarrow> (False, s') | (True, s') \<Rightarrow> execute env silent xs s')"

subsection \<open>Dispatch\<close>

definition MAX_DRAIN :: nat where "MAX_DRAIN = 100"

datatype dispatch_result = Dispatched | Threw | Cycle

text \<open>Rounds of queued operations; whatever ends the dispatch, nothing stays queued.\<close>

function drain :: "('u, 'e) wire_env \<Rightarrow> nat \<Rightarrow> ('u, 'e) wire_state \<Rightarrow> dispatch_result \<times> ('u, 'e) wire_state" where
  "drain env drainDepth s =
     (if length (ws_queue s) = 0 then (Dispatched, s)
      else if Suc drainDepth > MAX_DRAIN then (Cycle, s\<lparr>ws_queue := []\<rparr>)
      else case execute env False (ws_queue s) (s\<lparr>ws_queue := []\<rparr>) of
        (False, s') \<Rightarrow> (Threw, s'\<lparr>ws_queue := []\<rparr>)
      | (True, s') \<Rightarrow> drain env (Suc drainDepth) s')"
  by pat_completeness auto
termination by (relation "measure (\<lambda>(env, n, s). MAX_DRAIN - n)") auto

declare drain.simps [simp del]

definition dispatch :: "('u, 'e) wire_env \<Rightarrow> ('u, 'e) op list \<Rightarrow> ('u, 'e) wire_state \<Rightarrow> dispatch_result \<times> ('u, 'e) wire_state" where
  "dispatch env ops s =
     (if length ops = 0 then (Dispatched, s)
      else case execute env False ops s of
        (False, s') \<Rightarrow> (Threw, s'\<lparr>ws_queue := []\<rparr>)
      | (True, s') \<Rightarrow> drain env 0 s')"

subsection \<open>Restore\<close>

datatype skip_report = UnknownRecord js_string nat | MalformedRecord "js_string option" nat

datatype restore_error = MalformedMetadata | MissingMigration | MigrationThrew | ApplyThrew

definition replayRecord :: "('u, 'e) wire_env \<Rightarrow> ('u, 'e) op_registry \<Rightarrow> wobj \<Rightarrow> nat \<Rightarrow> ('u, 'e) wire_state
    \<Rightarrow> restore_error + skip_report list \<times> ('u, 'e) wire_state" where
  "replayRecord env reg r index s =
     (case type_of r of None \<Rightarrow> Inr ([], s)
      | Some t \<Rightarrow> case reg t of
          None \<Rightarrow> Inr ([UnknownRecord t index], s)
        | Some d \<Rightarrow> case ds_schema d (wireRecordToPayload r) of
            None \<Rightarrow> Inr ([MalformedRecord (Some t) index], s)
          | Some data \<Rightarrow> case execute env True [make_op t d data] s of
              (False, s') \<Rightarrow> Inl ApplyThrew
            | (True, s') \<Rightarrow> Inr ([], s'))"

record ('u, 'e) restoring =
  rs_wire :: "('u, 'e) wire_state"
  rs_migrations :: "migration list"
  rs_rewritten :: "wobj list option"
  rs_newer :: bool
  rs_index :: nat
  rs_hasRecords :: bool
  rs_reports :: "skip_report list"

text \<open>The first record decides which migrations the rest needs and whether the journal is rewritten.\<close>

definition first_record :: "int \<Rightarrow> wobj \<Rightarrow> ('u, 'e) restoring \<Rightarrow> restore_error + ('u, 'e) restoring" where
  "first_record now r t =
     (if rs_hasRecords t then Inr t
      else let t = t\<lparr>rs_hasRecords := True\<rparr> in
        if type_of r \<noteq> Some (js ''metadata'')
        then Inr (t\<lparr>rs_rewritten := Some [createWireMetadataRecord now],
                    rs_migrations := [\<lparr>mg_source = js ''1.4'', mg_target = js ''1.5'', mg_migrateRecord = migrateV1_4ToV1_5\<rparr>]\<rparr>)
        else if \<not> isWireMetadataRecord r then Inl MalformedMetadata
        else case map_of r (js ''protocol_version'') of
          Some (JStr version) \<Rightarrow>
            (if isNewerWireVersion version then Inr (t\<lparr>rs_newer := True\<rparr>)
             else case resolveWireMigrations version of
               None \<Rightarrow> Inl MissingMigration
             | Some ms \<Rightarrow> Inr (t\<lparr>rs_migrations := ms, rs_rewritten := (if version \<noteq> WIRE_PROTOCOL_VERSION then Some [] else rs_rewritten t)\<rparr>))
        | _ \<Rightarrow> Inl MalformedMetadata)"

definition restore_record :: "('u, 'e) wire_env \<Rightarrow> ('u, 'e) op_registry \<Rightarrow> int \<Rightarrow> json \<Rightarrow> ('u, 'e) restoring \<Rightarrow> restore_error + ('u, 'e) restoring" where
  "restore_record env reg now candidate t =
     (case candidate of
        JObj source \<Rightarrow>
          (if \<not> isWireRecord candidate
           then Inr (t\<lparr>rs_reports := rs_reports t @ [MalformedRecord None (rs_index t)], rs_index := Suc (rs_index t)\<rparr>)
           else case first_record now source t of Inl e \<Rightarrow> Inl e
           | Inr t1 \<Rightarrow> (case migrateWireRecord source (rs_migrations t1) of None \<Rightarrow> Inl MigrationThrew
             | Some migrated \<Rightarrow>
                 (let r = (if \<not> rs_newer t1 \<and> type_of migrated = Some (js ''metadata'')
                           then AList.update (js ''protocol_version'') (JStr WIRE_PROTOCOL_VERSION) migrated else migrated);
                      t2 = t1\<lparr>rs_rewritten := map_option (\<lambda>rs. rs @ [r]) (rs_rewritten t1)\<rparr>
                  in if type_of r = Some (js ''metadata'') then Inr t2
                     else case replayRecord env reg r (rs_index t2) (rs_wire t2) of Inl e \<Rightarrow> Inl e
                       | Inr (reports, w) \<Rightarrow> Inr (t2\<lparr>rs_wire := w, rs_reports := rs_reports t2 @ reports, rs_index := Suc (rs_index t2)\<rparr>))))
      | _ \<Rightarrow> Inr (t\<lparr>rs_reports := rs_reports t @ [MalformedRecord None (rs_index t)], rs_index := Suc (rs_index t)\<rparr>))"

fun restore_loop :: "('u, 'e) wire_env \<Rightarrow> ('u, 'e) op_registry \<Rightarrow> int \<Rightarrow> json list \<Rightarrow> ('u, 'e) restoring \<Rightarrow> restore_error + ('u, 'e) restoring" where
  "restore_loop env reg now [] t = Inr t"
| "restore_loop env reg now (c # cs) t =
     (case restore_record env reg now c t of Inl e \<Rightarrow> Inl e | Inr t' \<Rightarrow> restore_loop env reg now cs t')"

definition rehydrateModels :: "(js_string \<Rightarrow> ('u \<Rightarrow> 'u) option) \<Rightarrow> ('u, 'e) wire_state \<Rightarrow> ('u, 'e) wire_state" where
  "rehydrateModels codecs s =
     s\<lparr>ws_models := (\<lambda>name. case ws_models s name of None \<Rightarrow> None
        | Some u \<Rightarrow> (case codecs name of None \<Rightarrow> Some u | Some f \<Rightarrow> Some (f u)))\<rparr>"

text \<open>The restored service, what the journal is rewritten to when it is, and the records skipped.\<close>

definition restore_records :: "('u, 'e) wire_env \<Rightarrow> ('u, 'e) op_registry \<Rightarrow> (js_string \<Rightarrow> ('u \<Rightarrow> 'u) option) \<Rightarrow> int \<Rightarrow> json list \<Rightarrow> ('u, 'e) wire_state
    \<Rightarrow> restore_error + ('u, 'e) wire_state \<times> wobj list option \<times> skip_report list" where
  "restore_records env reg codecs now source s =
     (case restore_loop env reg now source
         \<lparr>rs_wire = s, rs_migrations = [], rs_rewritten = None, rs_newer = False, rs_index = 0, rs_hasRecords = False, rs_reports = []\<rparr> of
        Inl e \<Rightarrow> Inl e
      | Inr t \<Rightarrow> Inr (rehydrateModels codecs (rs_wire t),
          (if \<not> rs_hasRecords t then Some [createWireMetadataRecord now] else rs_rewritten t), rs_reports t))"

datatype restore_phase = PhaseNew | PhaseRestoring | PhaseReady | PhaseFailed

text \<open>Restoring again throws; the phase a restore ends in.\<close>

definition restore :: "('u, 'e) wire_env \<Rightarrow> ('u, 'e) op_registry \<Rightarrow> (js_string \<Rightarrow> ('u \<Rightarrow> 'u) option) \<Rightarrow> int \<Rightarrow> json list \<Rightarrow> restore_phase \<times> ('u, 'e) wire_state
    \<Rightarrow> (restore_error + ('u, 'e) wire_state \<times> wobj list option \<times> skip_report list) option \<times> restore_phase" where
  "restore env reg codecs now source ps =
     (if fst ps \<noteq> PhaseNew then (None, fst ps)
      else case restore_records env reg codecs now source (snd ps) of
        Inl e \<Rightarrow> (Some (Inl e), PhaseFailed)
      | Inr x \<Rightarrow> (Some (Inr x), PhaseReady))"

text \<open>A new journal begins with its metadata.\<close>

definition seal :: "int \<Rightarrow> wobj list \<Rightarrow> wobj list" where
  "seal now log = (case log of [] \<Rightarrow> [createWireMetadataRecord now] | r # rs \<Rightarrow> log)"

subsection \<open>Handing records to the journal\<close>

text \<open>
  A record of a model whose media are stored first waits for that, and the records after it wait for it: they are
  chained, and the chain is taken down when its last member is through. A record whose storing fails is lost.
\<close>

datatype persist_job = Chained wobj js_string | Settled

record persist_state =
  pt_log :: "wobj list"
  pt_chain :: "persist_job list"
  pt_lost :: "wobj list"

definition appendToJournal :: "(js_string \<Rightarrow> (wobj \<Rightarrow> wobj option) option) \<Rightarrow> wobj \<times> js_string \<Rightarrow> persist_state \<Rightarrow> persist_state" where
  "appendToJournal dehydrate rm p =
     (if dehydrate (snd rm) = None \<and> pt_chain p = [] then p\<lparr>pt_log := pt_log p @ [fst rm]\<rparr>
      else p\<lparr>pt_chain := pt_chain p @ [Chained (fst rm) (snd rm)]\<rparr>)"

definition stored_record :: "(js_string \<Rightarrow> (wobj \<Rightarrow> wobj option) option) \<Rightarrow> wobj \<times> js_string \<Rightarrow> wobj option" where
  "stored_record dehydrate rm = (case dehydrate (snd rm) of None \<Rightarrow> Some (fst rm) | Some f \<Rightarrow> f (fst rm))"

text \<open>The first job of the chain ends, with the record as stored or a failure. While it is the last one the chain stays up
  until the callback that takes it down has run.\<close>

definition chain_step :: "(js_string \<Rightarrow> (wobj \<Rightarrow> wobj option) option) \<Rightarrow> persist_state \<Rightarrow> persist_state" where
  "chain_step dehydrate p =
     (case pt_chain p of
        [] \<Rightarrow> p
      | Settled # jobs \<Rightarrow> p\<lparr>pt_chain := jobs\<rparr>
      | Chained r m # jobs \<Rightarrow>
          (case stored_record dehydrate (r, m) of
             Some r' \<Rightarrow> p\<lparr>pt_log := pt_log p @ [r'], pt_chain := (if jobs = [] then [Settled] else jobs)\<rparr>
           | None \<Rightarrow> p\<lparr>pt_lost := pt_lost p @ [r], pt_chain := (if jobs = [] then [Settled] else jobs)\<rparr>))"

definition flush_chain :: "(js_string \<Rightarrow> (wobj \<Rightarrow> wobj option) option) \<Rightarrow> persist_state \<Rightarrow> persist_state" where
  "flush_chain dehydrate p = (chain_step dehydrate ^^ Suc (length (pt_chain p))) p"

end
