(* ===== verification/WireModels.thy ===== *)
theory WireModels
  imports Wire
begin

section \<open>Two small wire models (\<^verbatim>\<open>agent/swarm/swarmOps.ts\<close>, \<^verbatim>\<open>agent/permissionMode/permissionModeOps.ts\<close>)\<close>

text \<open>
  Model states are JSON values here, \<open>None\<close> being \<^verbatim>\<open>undefined\<close>. An object schema keeps the members it names; a custom
  member without a check accepts anything, \<^verbatim>\<open>undefined\<close> included.
\<close>

type_synonym json_model = "json option"

definition object_schema :: "js_string list \<Rightarrow> json \<Rightarrow> json option" where
  "object_schema ks p = (case p of JObj ms \<Rightarrow> Some (JObj (filter (\<lambda>(k, v). k \<in> set ks) ms)) | _ \<Rightarrow> None)"

definition member :: "json \<Rightarrow> js_string \<Rightarrow> json option" where
  "member p k = (case p of JObj ms \<Rightarrow> map_of ms k | _ \<Rightarrow> None)"

definition swarm_status :: "bool \<Rightarrow> json" where
  "swarm_status b = JObj [(js ''type'', JStr (js ''agent.status.updated'')), (js ''swarmMode'', JBool b)]"

definition swarmEnter :: "(json_model, json) descriptor" where
  "swarmEnter = \<lparr>ds_model = js ''swarm'', ds_schema = object_schema [js ''trigger''], ds_apply = (\<lambda>s p. Some (member p (js ''trigger''))),
     ds_toEvent = Some (\<lambda>p s. Some (swarm_status True)), ds_persist = None\<rparr>"

definition swarmExit :: "(json_model, json) descriptor" where
  "swarmExit = \<lparr>ds_model = js ''swarm'', ds_schema = object_schema [], ds_apply = (\<lambda>s p. Some (Some JNull)),
     ds_toEvent = Some (\<lambda>p s. Some (swarm_status False)), ds_persist = None\<rparr>"

definition setMode :: "(json_model, json) descriptor" where
  "setMode = \<lparr>ds_model = js ''permissionMode'', ds_schema = object_schema [js ''mode''], ds_apply = (\<lambda>s p. Some (member p (js ''mode''))),
     ds_toEvent = None, ds_persist = None\<rparr>"

definition model_initial :: "js_string \<Rightarrow> json_model" where
  "model_initial name = (if name = js ''swarm'' then Some JNull else if name = js ''permissionMode'' then Some (JStr (js ''manual''))
     else if name = js ''permissionMode.configured'' then Some (JBool False) else None)"

definition model_registry :: "(json_model, json) op_registry" where
  "model_registry = [js ''swarm_mode.enter'' \<mapsto> swarmEnter, js ''swarm_mode.exit'' \<mapsto> swarmExit, js ''permission.set_mode'' \<mapsto> setMode]"

definition model_reducers :: "json_model cross_reducers" where
  "model_reducers = defineModel (js ''permissionMode.configured'') [(js ''permission.set_mode'', \<lambda>s p. Some (Some (JBool True)))] (\<lambda>t. [])"

definition model_env :: "(json \<Rightarrow> (js_string \<Rightarrow> json_model) \<Rightarrow> (json_model, json) op list) \<Rightarrow> (nat \<Rightarrow> int) \<Rightarrow> (json_model, json) wire_env" where
  "model_env react now = \<lparr>we_initial = model_initial, we_cross = model_reducers, we_react = react, we_now = now\<rparr>"

end
