(* ===== verification/WireProofs.thy ===== *)
theory WireProofs
  imports WireModels
begin

section \<open>What holds of the wire service\<close>

text \<open>
  The envelope of a record, migrations and their chain, the replay of a journal against the dispatches that wrote it, the
  order of the journal under failing appends, and the rewriting of a journal from an older version.
\<close>

subsection \<open>Objects as maps\<close>

lemma map_of_put: "map_of (put k v o') k' = (if k' = k then v else map_of o' k')"
proof -
  have "map_of (filter (\<lambda>(a, b). a \<notin> {k}) o') k' = (if k' = k then None else map_of o' k')"
    by (induction o') auto
  then show ?thesis by (auto simp: put_def without_def update_conv' split: option.split)
qed

lemma type_put: "k \<noteq> js ''type'' \<Longrightarrow> type_of (put k v r) = type_of r"
  by (simp add: type_of_def map_of_put)

lemma type_update: "k \<noteq> js ''type'' \<Longrightarrow> type_of (AList.update k v r) = type_of r"
  by (simp add: type_of_def update_conv')

lemma without_map_of: "map_of (without ks o') k = (if k \<in> set ks then None else map_of o' k)"
  by (induction o') (auto simp: without_def)

text \<open>A payload survives its record when its members do not include the record's own.\<close>

definition plain_payload :: "json \<Rightarrow> bool" where
  "plain_payload p \<longleftrightarrow> (case p of JObj ms \<Rightarrow> distinct (map fst ms) \<and> js ''type'' \<notin> fst ` set ms \<and> js ''time'' \<notin> fst ` set ms \<and> map fst ms \<noteq> [js ''payload'']
     | _ \<Rightarrow> True)"

lemma spread_new: "distinct (map fst ms) \<Longrightarrow> fst ` set ms \<inter> fst ` set base = {} \<Longrightarrow> spread base ms = base @ ms"
proof (induction ms arbitrary: base)
  case (Cons m ms)
  obtain k v where m: "m = (k, v)" by force
  have "AList.update k v base = base @ [(k, v)]" using Cons.prems(2) m by (induction base) auto
  then show ?case using Cons.IH [of "base @ [(k, v)]"] Cons.prems m by (auto simp: spread_def)
qed (simp add: spread_def)

lemma without_new: "js ''type'' \<notin> fst ` set ms \<Longrightarrow> js ''time'' \<notin> fst ` set ms \<Longrightarrow> without [js ''type'', js ''time''] ms = ms"
  by (induction ms) (auto simp: without_def)

lemma update_new: "k \<notin> fst ` set o' \<Longrightarrow> AList.update k v o' = o' @ [(k, v)]"
  by (induction o') auto

lemma names_differ: "js ''time'' \<noteq> js ''type''" "js ''payload'' \<noteq> js ''type''" "js ''payload'' \<noteq> js ''time''" "js ''protocol_version'' \<noteq> js ''type''"
  "js ''created_at'' \<noteq> js ''type''" "js ''created_at'' \<noteq> js ''protocol_version''"
  by (simp_all add: js_eq)

lemma record_payload:
  assumes "plain_payload p"
  shows "wireRecordToPayload (opToWireRecord t p now) = p" "type_of (opToWireRecord t p now) = Some t"
proof -
  have "wireRecordToPayload (opToWireRecord t p now) = p \<and> type_of (opToWireRecord t p now) = Some t"
  proof (cases p)
    case (JObj ms)
    then have d: "distinct (map fst ms)" "js ''type'' \<notin> fst ` set ms" "js ''time'' \<notin> fst ` set ms" "map fst ms \<noteq> [js ''payload'']"
      using assms by (simp_all add: plain_payload_def)
    have s: "spread [(js ''type'', JStr t)] ms = (js ''type'', JStr t) # ms" using spread_new [of ms "[(js ''type'', JStr t)]"] d by auto
    have "map_of ms (js ''time'') = None" using d(3) by (simp add: map_of_eq_None_iff)
    then have r: "opToWireRecord t p now = ((js ''type'', JStr t) # ms) @ [(js ''time'', JNum now)]"
      using JObj s d(3) names_differ(1) by (simp add: opToWireRecord_def update_new)
    have w: "without [js ''type'', js ''time''] (opToWireRecord t p now) = ms"
      using r without_new [OF d(2,3)] by (simp add: without_def)
    have "length ms = 1 \<Longrightarrow> map_of ms (js ''payload'') = None" using d(4) by (cases ms) auto
    then show ?thesis using w r JObj by (auto simp: wireRecordToPayload_def type_of_def Let_def split: option.split)
  qed (use names_differ in \<open>simp_all add: opToWireRecord_def wireRecordToPayload_def without_def type_of_def Let_def\<close>)
  then show "wireRecordToPayload (opToWireRecord t p now) = p" "type_of (opToWireRecord t p now) = Some t" by simp_all
qed

subsection \<open>Replaying what was dispatched\<close>

text \<open>Operations that are registered, are recorded faithfully, and keep the models that persist (outside \<open>T\<close>) apart from
  those that do not.\<close>

definition sound_op :: "('u, 'e) wire_env \<Rightarrow> ('u, 'e) op_registry \<Rightarrow> js_string set \<Rightarrow> ('u, 'e) op \<Rightarrow> bool" where
  "sound_op env reg T x \<longleftrightarrow>
     (let names = insert (ds_model (op_descriptor x)) (fst ` set (we_cross env (op_type x))) in
      if ds_persist (op_descriptor x) = Some False then names \<subseteq> T
      else names \<inter> T = {} \<and> reg (op_type x) = Some (op_descriptor x) \<and> op_type x \<noteq> js ''metadata''
        \<and> plain_payload (op_payload x) \<and> ds_schema (op_descriptor x) (op_payload x) = Some (op_payload x))"

definition agree :: "('u, 'e) wire_env \<Rightarrow> js_string set \<Rightarrow> ('u, 'e) wire_state \<Rightarrow> ('u, 'e) wire_state \<Rightarrow> bool" where
  "agree env T s r \<longleftrightarrow> (\<forall>n. n \<notin> T \<longrightarrow> getModel env s n = getModel env r n)"

lemma get_set_model [simp]: "getModel env (set_model n u s) m = (if m = n then u else getModel env s m)"
  by (simp add: getModel_def set_model_def)

lemma get_notify [simp]: "getModel env (notify env x u s) n = getModel env s n"
  by (simp add: notify_def publish_def getModel_def Let_def split: option.split)

lemma agree_set: "agree env T s r \<Longrightarrow> agree env T (set_model n u s) (set_model n u r)"
  by (simp add: agree_def)

lemma agree_notify: "agree env T (notify env x u s) r = agree env T s r"
  by (simp add: agree_def)

lemma reducers_agree:
  "run_reducers env own p rs s = (ok, s') \<Longrightarrow> agree env T s r \<Longrightarrow> fst ` set rs \<inter> T = {}
    \<Longrightarrow> \<exists>r'. run_reducers env own p rs r = (ok, r') \<and> agree env T s' r'"
proof (induction env own p rs s arbitrary: r rule: run_reducers.induct)
  case (2 env own p n f rs s)
  show ?case
  proof (cases "n = own")
    case True
    then show ?thesis using 2 by simp
  next
    case False
    have same: "getModel env s n = getModel env r n" using 2(4,5) by (simp add: agree_def)
    show ?thesis
    proof (cases "f (getModel env s n) p")
      case None
      then show ?thesis using False 2(3,4) same by auto
    next
      case (Some u)
      then show ?thesis using 2(2) [OF False Some _ agree_set [OF 2(4)]] 2(3,5) False same by simp
    qed
  qed
qed auto

lemma reducers_within: "run_reducers env own p rs s = (ok, s') \<Longrightarrow> fst ` set rs \<subseteq> T \<Longrightarrow> agree env T s' s"
proof (induction env own p rs s rule: run_reducers.induct)
  case (2 env own p n f rs s)
  then show ?case by (auto simp: agree_def split: if_splits option.splits)
qed (simp add: agree_def)

lemma reducers_rest: "run_reducers env own p rs s = (ok, s') \<Longrightarrow> ws_journal s' = ws_journal s \<and> ws_queue s' = ws_queue s"
  by (induction env own p rs s rule: run_reducers.induct) (auto simp: set_model_def split: if_splits option.splits)

lemma execute_one: "execute env silent [x] s = execute_op env silent x s"
  by (simp split: prod.split bool.split)

lemma persistent_step:
  assumes "execute_op env False x s = (True, s')" "agree env T s r" "sound_op env reg T x" "ds_persist (op_descriptor x) \<noteq> Some False"
  shows "\<exists>r'. execute_op env True x r = (True, r') \<and> agree env T s' r'"
    "\<exists>now. ws_journal s' = ws_journal s @ [(opToWireRecord (op_type x) (op_payload x) now, ds_model (op_descriptor x))]"
proof -
  let ?d = "op_descriptor x"
  have sep: "ds_model ?d \<notin> T" "fst ` set (we_cross env (op_type x)) \<inter> T = {}" using assms(3,4) by (auto simp: sound_op_def Let_def)
  have same: "getModel env s (ds_model ?d) = getModel env r (ds_model ?d)" using assms(2) sep(1) by (simp add: agree_def)
  obtain u where u: "ds_apply ?d (getModel env s (ds_model ?d)) (op_payload x) = Some u"
    using assms(1) by (cases "ds_apply ?d (getModel env s (ds_model ?d)) (op_payload x)") (simp_all add: execute_op_def Let_def)
  let ?n = "notify env x u (set_model (ds_model ?d) u s)"
  have run: "run_reducers env (ds_model ?d) (op_payload x) (we_cross env (op_type x)) ?n = (True, s')"
    using assms(1) u by (simp add: execute_op_def Let_def)
  have "agree env T ?n (set_model (ds_model ?d) u r)" using assms(2) by (simp add: agree_notify agree_set)
  from reducers_agree [OF run this sep(2)] show "\<exists>r'. execute_op env True x r = (True, r') \<and> agree env T s' r'"
    using u same by (simp add: execute_op_def Let_def)
  show "\<exists>now. ws_journal s' = ws_journal s @ [(opToWireRecord (op_type x) (op_payload x) now, ds_model ?d)]"
    using reducers_rest [OF run] assms(4) by (auto simp: notify_def publish_def set_model_def Let_def split: option.split)
qed

lemma transient_step:
  assumes "execute_op env False x s = (True, s')" "sound_op env reg T x" "ds_persist (op_descriptor x) = Some False"
  shows "agree env T s' s" "ws_journal s' = ws_journal s"
proof -
  let ?d = "op_descriptor x"
  have sep: "ds_model ?d \<in> T" "fst ` set (we_cross env (op_type x)) \<subseteq> T" using assms(2,3) by (auto simp: sound_op_def Let_def)
  obtain u where u: "ds_apply ?d (getModel env s (ds_model ?d)) (op_payload x) = Some u"
    using assms(1) by (cases "ds_apply ?d (getModel env s (ds_model ?d)) (op_payload x)") (simp_all add: execute_op_def Let_def)
  let ?n = "notify env x u (set_model (ds_model ?d) u s)"
  have run: "run_reducers env (ds_model ?d) (op_payload x) (we_cross env (op_type x)) ?n = (True, s')"
    using assms(1) u by (simp add: execute_op_def Let_def)
  have "agree env T ?n s" using sep(1) by (auto simp: agree_def)
  moreover have "agree env T s' ?n" by (rule reducers_within [OF run sep(2)])
  ultimately show "agree env T s' s" by (simp add: agree_def)
  show "ws_journal s' = ws_journal s"
    using reducers_rest [OF run] assms(3) by (auto simp: notify_def publish_def set_model_def Let_def split: option.split)
qed

text \<open>A record that is replayed without a report, and a list of them.\<close>

definition replays_to :: "('u, 'e) wire_env \<Rightarrow> ('u, 'e) op_registry \<Rightarrow> wobj \<Rightarrow> ('u, 'e) wire_state \<Rightarrow> ('u, 'e) wire_state \<Rightarrow> bool" where
  "replays_to env reg r s s' \<longleftrightarrow> type_of r \<noteq> None \<and> type_of r \<noteq> Some (js ''metadata'') \<and> (\<forall>i. replayRecord env reg r i s = Inr ([], s'))"

fun replay_chain :: "('u, 'e) wire_env \<Rightarrow> ('u, 'e) op_registry \<Rightarrow> wobj list \<Rightarrow> ('u, 'e) wire_state \<Rightarrow> ('u, 'e) wire_state \<Rightarrow> bool" where
  "replay_chain env reg [] s s' \<longleftrightarrow> s' = s"
| "replay_chain env reg (r # rs) s s' \<longleftrightarrow> (\<exists>t. replays_to env reg r s t \<and> replay_chain env reg rs t s')"

lemma replay_chain_snoc: "replay_chain env reg rs s t \<Longrightarrow> replays_to env reg r t t' \<Longrightarrow> replay_chain env reg (rs @ [r]) s t'"
  by (induction rs arbitrary: s) auto

lemma sound_replays:
  assumes "sound_op env reg T x" "ds_persist (op_descriptor x) \<noteq> Some False" "execute_op env True x r = (True, r')"
  shows "replays_to env reg (opToWireRecord (op_type x) (op_payload x) now) r r'"
proof -
  have x: "reg (op_type x) = Some (op_descriptor x)" "op_type x \<noteq> js ''metadata''" "plain_payload (op_payload x)"
    "ds_schema (op_descriptor x) (op_payload x) = Some (op_payload x)" using assms(1,2) by (simp_all add: sound_op_def Let_def)
  have "make_op (op_type x) (op_descriptor x) (op_payload x) = x" by (simp add: make_op_def)
  then show ?thesis using record_payload [OF x(3)] x assms(3) by (simp add: replays_to_def replayRecord_def execute_one)
qed

definition recorded :: "('u, 'e) wire_env \<Rightarrow> ('u, 'e) op_registry \<Rightarrow> js_string set \<Rightarrow> ('u, 'e) wire_state \<Rightarrow> ('u, 'e) wire_state \<Rightarrow> bool" where
  "recorded env reg T s0 s \<longleftrightarrow> list_all (sound_op env reg T) (ws_queue s)
     \<and> (\<exists>r. replay_chain env reg (map fst (ws_journal s)) s0 r \<and> agree env T s r)"

definition sound_env :: "('u, 'e) wire_env \<Rightarrow> ('u, 'e) op_registry \<Rightarrow> js_string set \<Rightarrow> bool" where
  "sound_env env reg T \<longleftrightarrow> (\<forall>e f. list_all (sound_op env reg T) (we_react env e f))"

lemma publish_queue: "sound_env env reg T \<Longrightarrow> list_all (sound_op env reg T) (ws_queue s) \<Longrightarrow> list_all (sound_op env reg T) (ws_queue (notify env x u s))"
  by (simp add: notify_def publish_def sound_env_def Let_def split: option.split)

lemma step_queue:
  assumes "execute_op env False x s = (True, s')" "sound_env env reg T" "list_all (sound_op env reg T) (ws_queue s)"
  shows "list_all (sound_op env reg T) (ws_queue s')"
proof -
  let ?d = "op_descriptor x"
  obtain u where u: "ds_apply ?d (getModel env s (ds_model ?d)) (op_payload x) = Some u"
    using assms(1) by (cases "ds_apply ?d (getModel env s (ds_model ?d)) (op_payload x)") (simp_all add: execute_op_def Let_def)
  have run: "run_reducers env (ds_model ?d) (op_payload x) (we_cross env (op_type x)) (notify env x u (set_model (ds_model ?d) u s)) = (True, s')"
    using assms(1) u by (simp add: execute_op_def Let_def)
  have "list_all (sound_op env reg T) (ws_queue (notify env x u (set_model (ds_model ?d) u s)))"
    by (rule publish_queue [OF assms(2)]) (use assms(3) in \<open>simp add: set_model_def\<close>)
  then show ?thesis using reducers_rest [OF run] by simp
qed

lemma recorded_step:
  assumes "execute_op env False x s = (True, s')" "sound_env env reg T" "sound_op env reg T x" "recorded env reg T s0 s"
  shows "recorded env reg T s0 s'"
proof -
  obtain r where r: "replay_chain env reg (map fst (ws_journal s)) s0 r" "agree env T s r" and q: "list_all (sound_op env reg T) (ws_queue s)"
    using assms(4) by (auto simp: recorded_def)
  have "\<exists>r'. replay_chain env reg (map fst (ws_journal s')) s0 r' \<and> agree env T s' r'"
  proof (cases "ds_persist (op_descriptor x) = Some False")
    case True
    then show ?thesis using transient_step [OF assms(1,3) True] r by (auto simp: agree_def)
  next
    case False
    obtain r' where r': "execute_op env True x r = (True, r')" "agree env T s' r'" using persistent_step(1) [OF assms(1) r(2) assms(3) False] by blast
    obtain now where now: "ws_journal s' = ws_journal s @ [(opToWireRecord (op_type x) (op_payload x) now, ds_model (op_descriptor x))]"
      using persistent_step(2) [OF assms(1) r(2) assms(3) False] by blast
    show ?thesis using replay_chain_snoc [OF r(1) sound_replays [OF assms(3) False r'(1), of now]] r'(2) now by auto
  qed
  then show ?thesis using step_queue [OF assms(1,2) q] by (simp add: recorded_def)
qed

lemma recorded_execute:
  "execute env False xs s = (True, s') \<Longrightarrow> sound_env env reg T \<Longrightarrow> list_all (sound_op env reg T) xs \<Longrightarrow> recorded env reg T s0 s
    \<Longrightarrow> recorded env reg T s0 s'"
  by (induction env False xs s rule: execute.induct) (auto split: prod.splits bool.splits intro: recorded_step)

lemma recorded_clear: "recorded env reg T s0 s \<Longrightarrow> recorded env reg T s0 (s\<lparr>ws_queue := []\<rparr>)"
  by (simp add: recorded_def agree_def getModel_def)

lemma recorded_drain:
  "drain env n s = (res, s') \<Longrightarrow> res \<noteq> Threw \<Longrightarrow> sound_env env reg T \<Longrightarrow> recorded env reg T s0 s \<Longrightarrow> recorded env reg T s0 s' \<and> ws_queue s' = []"
proof (induction env n s rule: drain.induct)
  case (1 env n s)
  show ?case
  proof (cases "ws_queue s = [] \<or> Suc n > MAX_DRAIN")
    case True
    then show ?thesis using 1(2,5) recorded_clear by (subst (asm) drain.simps) (auto split: if_splits)
  next
    case False
    obtain ok t where t: "execute env False (ws_queue s) (s\<lparr>ws_queue := []\<rparr>) = (ok, t)" by force
    have d: "drain env n s = (if ok then drain env (Suc n) t else (Threw, t\<lparr>ws_queue := []\<rparr>))" using False t by (subst drain.simps) (simp split: bool.split)
    then have ok: "ok" using 1(2,3) by (auto split: if_splits)
    have t': "execute env False (ws_queue s) (s\<lparr>ws_queue := []\<rparr>) = (True, t)" using t ok by simp
    have "recorded env reg T s0 t"
      by (rule recorded_execute [OF t' 1(4) _ recorded_clear [OF 1(5)]]) (use 1(5) in \<open>simp add: recorded_def\<close>)
    moreover have "drain env (Suc n) t = (res, s')" using d ok 1(2) by simp
    ultimately show ?thesis using "1.IH" False t' 1(3,4) by auto
  qed
qed

lemma recorded_dispatch:
  assumes "dispatch env ops s = (res, s')" "res \<noteq> Threw" "sound_env env reg T" "list_all (sound_op env reg T) ops" "recorded env reg T s0 s" "ws_queue s = []"
  shows "recorded env reg T s0 s' \<and> ws_queue s' = []"
proof (cases "ops = []")
  case False
  obtain ok t where t: "execute env False ops s = (ok, t)" by force
  have d: "dispatch env ops s = (if ok then drain env 0 t else (Threw, t\<lparr>ws_queue := []\<rparr>))" using False t by (simp add: dispatch_def split: bool.split)
  then have ok: ok using assms(1,2) by (auto split: if_splits)
  then have "execute env False ops s = (True, t)" using t by simp
  then have "recorded env reg T s0 t" by (rule recorded_execute [OF _ assms(3-5)])
  then show ?thesis using recorded_drain [OF _ assms(2,3), of 0 t s'] d ok assms(1) by simp
qed (use assms in \<open>simp add: dispatch_def\<close>)

text \<open>A sequence of dispatches of which none throws.\<close>

fun run_dispatches :: "('u, 'e) wire_env \<Rightarrow> ('u, 'e) op list list \<Rightarrow> ('u, 'e) wire_state \<Rightarrow> ('u, 'e) wire_state option" where
  "run_dispatches env [] s = Some s"
| "run_dispatches env (b # bs) s = (case dispatch env b s of (res, s') \<Rightarrow> if res = Threw then None else run_dispatches env bs s')"

lemma recorded_run:
  "run_dispatches env bs s = Some s' \<Longrightarrow> sound_env env reg T \<Longrightarrow> list_all (list_all (sound_op env reg T)) bs \<Longrightarrow> recorded env reg T s0 s \<Longrightarrow> ws_queue s = []
    \<Longrightarrow> recorded env reg T s0 s'"
proof (induction env bs s rule: run_dispatches.induct)
  case (2 env b bs s)
  obtain res t where t: "dispatch env b s = (res, t)" by force
  then have "res \<noteq> Threw" "run_dispatches env bs t = Some s'" using 2(2) by (auto split: if_splits)
  then show ?case using 2 t recorded_dispatch [OF t] by auto
qed simp

definition new_wire :: "('u, 'e) wire_state" where
  "new_wire = \<lparr>ws_models = \<lambda>n. None, ws_journal = [], ws_events = [], ws_queue = []\<rparr>"

lemma restore_chain:
  "replay_chain env reg rs (rs_wire t) s' \<Longrightarrow> rs_hasRecords t \<Longrightarrow> rs_migrations t = [] \<Longrightarrow> rs_rewritten t = None
    \<Longrightarrow> \<exists>i. restore_loop env reg now (map JObj rs) t = Inr (t\<lparr>rs_wire := s', rs_index := i\<rparr>)"
proof (induction rs arbitrary: t)
  case Nil
  then show ?case by (intro exI [of _ "rs_index t"]) simp
next
  case (Cons r rs)
  then obtain u where u: "replays_to env reg r (rs_wire t) u" "replay_chain env reg rs u s'" by auto
  have "isWireRecord (JObj r)" using u(1) by (simp add: isWireRecord_def replays_to_def)
  then have "restore_record env reg now (JObj r) t = Inr (t\<lparr>rs_wire := u, rs_index := Suc (rs_index t)\<rparr>)"
    using u(1) Cons.prems(2-4) by (simp add: restore_record_def first_record_def replays_to_def Let_def)
  then show ?case using Cons.IH [of "t\<lparr>rs_wire := u, rs_index := Suc (rs_index t)\<rparr>"] u(2) Cons.prems(2-4) by simp
qed

lemma current_version: "\<not> isNewerWireVersion WIRE_PROTOCOL_VERSION" "resolveWireMigrations WIRE_PROTOCOL_VERSION = Some []"
proof -
  have "compareWireVersions WIRE_PROTOCOL_VERSION WIRE_PROTOCOL_VERSION = Some 0" by code_simp
  then show "\<not> isNewerWireVersion WIRE_PROTOCOL_VERSION" "resolveWireMigrations WIRE_PROTOCOL_VERSION = Some []"
    by (simp_all add: isNewerWireVersion_def resolveWireMigrations_def)
qed

lemma metadata_record: "isWireRecord (JObj (createWireMetadataRecord n))" "type_of (createWireMetadataRecord n) = Some (js ''metadata'')"
  "isWireMetadataRecord (createWireMetadataRecord n)" "map_of (createWireMetadataRecord n) (js ''protocol_version'') = Some (JStr WIRE_PROTOCOL_VERSION)"
  by (simp_all add: createWireMetadataRecord_def isWireRecord_def isWireMetadataRecord_def type_of_def js_eq)

lemma restore_sealed:
  assumes "rs_hasRecords t = False" "rs_newer t = False" "rs_rewritten t = None" "rs_migrations t = []"
  shows "restore_record env reg now (JObj (createWireMetadataRecord n)) t = Inr (t\<lparr>rs_hasRecords := True\<rparr>)"
  using assms metadata_record [of n] current_version by (simp add: restore_record_def first_record_def type_update js_eq Let_def)

text \<open>C7: Let everything dispatched, from outside or by subscribers while an event is published, be sound: an operation that
  persists is registered under its type, is not the metadata record, has a plain payload (one that survives being a record of the
  journal) which the schema accepts unchanged, and touches only models that persist; one that does not persist touches only models
  that do not (\<open>T\<close>). Let no reducer, event or append throw, and let no codec move media out of the records. Then, even when
  a cascade was cut off, restoring the sealed journal rebuilds every persistent model as it was, reports nothing and finds
  nothing to rewrite.\<close>

theorem replay_rebuilds:
  assumes "sound_env env reg T" "list_all (list_all (sound_op env reg T)) batches" "run_dispatches env batches new_wire = Some s"
  shows "\<exists>w. restore_records env reg (\<lambda>n. None) now (map JObj (createWireMetadataRecord created # map fst (ws_journal s))) new_wire = Inr (w, None, [])
    \<and> (\<forall>n. n \<notin> T \<longrightarrow> getModel env w n = getModel env s n)"
proof -
  have "recorded env reg T new_wire new_wire" by (auto simp: recorded_def new_wire_def agree_def)
  then have "recorded env reg T new_wire s" using recorded_run [OF assms(3,1,2)] by (simp add: new_wire_def)
  then obtain r where r: "replay_chain env reg (map fst (ws_journal s)) new_wire r" "agree env T s r" by (auto simp: recorded_def)
  let ?t = "\<lparr>rs_wire = new_wire, rs_migrations = [], rs_rewritten = None, rs_newer = False, rs_index = 0, rs_hasRecords = True, rs_reports = []\<rparr>"
  have "\<exists>i. restore_loop env reg now (map JObj (map fst (ws_journal s))) ?t = Inr (?t\<lparr>rs_wire := r, rs_index := i\<rparr>)"
    by (rule restore_chain) (use r(1) in simp_all)
  then obtain i where i: "restore_loop env reg now (map JObj (map fst (ws_journal s))) ?t = Inr (?t\<lparr>rs_wire := r, rs_index := i\<rparr>)" by blast
  have "rehydrateModels (\<lambda>n. None) r = r" by (simp add: rehydrateModels_def option.case_eq_if cong: if_cong)
  then have "restore_records env reg (\<lambda>n. None) now (map JObj (createWireMetadataRecord created # map fst (ws_journal s))) new_wire = Inr (r, None, [])"
    using i by (simp add: restore_records_def restore_sealed)
  then show ?thesis using r(2) by (auto simp: agree_def)
qed

subsection \<open>Migrations\<close>

lemma type_pick: "''type'' \<notin> set ks \<Longrightarrow> type_of (pick t ks r) = Some (js t)"
proof -
  have "type_of (foldl (\<lambda>o' k. put (js k) (map_of r (js k)) o') o' ks) = type_of o'" if "''type'' \<notin> set ks" for o'
    using that by (induction ks arbitrary: o') (auto simp: type_put js_eq)
  moreover assume "''type'' \<notin> set ks"
  ultimately show ?thesis by (simp add: pick_def type_of_def)
qed

text \<open>A migration keeps a record a record, and metadata as it is.\<close>

lemma migration_keeps:
  assumes "m \<in> set MIGRATIONS" "mg_migrateRecord m r = Some r'" "type_of r = Some t"
  shows "\<exists>t'. type_of r' = Some t' \<and> (t = js ''metadata'' \<longrightarrow> r' = r) \<and> (t' = js ''metadata'' \<longrightarrow> t = js ''metadata'')"
proof -
  consider "migrateV1_0ToV1_1 r = Some r'" | "migrateV1_1ToV1_2 r = Some r'" | "migrateV1_2ToV1_3 r = Some r'" | "migrateV1_3ToV1_4 r = Some r'" | "migrateV1_4ToV1_5 r = Some r'"
    using assms(1,2) by (auto simp: MIGRATIONS_def)
  then show ?thesis
  proof cases
    case 1
    then show ?thesis using assms(3) by (auto simp: migrateV1_0ToV1_1_def type_update js_eq split: if_splits option.splits json.splits)
  next
    case 2
    then show ?thesis using assms(3) by (auto simp: migrateV1_1ToV1_2_def type_update js_eq split: if_splits option.splits json.splits)
  next
    case 3
    then show ?thesis using assms(3) by (simp add: migrateV1_2ToV1_3_def)
  next
    case 4
    then show ?thesis using assms(3)
      by (auto simp: migrateV1_3ToV1_4_def migrateGoalCreate_def migrateGoalUpdate_def migrateGoalAccountUsage_def migrateGoalContinuation_def
          migrateGoalClear_def type_pick js_eq split: if_splits)
  next
    case 5
    then show ?thesis using assms(3) by (auto simp: migrateV1_4ToV1_5_def advancesActiveInterval_def type_update js_eq split: if_splits option.splits json.splits)
  qed
qed

lemma migrations_keep: "migrateWireRecord r ms = Some r' \<Longrightarrow> set ms \<subseteq> set MIGRATIONS \<Longrightarrow> type_of r = Some t
    \<Longrightarrow> \<exists>t'. type_of r' = Some t' \<and> (t = js ''metadata'' \<longrightarrow> r' = r) \<and> (t' = js ''metadata'' \<longrightarrow> t = js ''metadata'')"
proof (induction r ms arbitrary: t rule: migrateWireRecord.induct)
  case (2 r m ms)
  then obtain s where s: "mg_migrateRecord m r = Some s" "migrateWireRecord s ms = Some r'" by (auto split: option.splits)
  obtain u where u: "type_of s = Some u" "t = js ''metadata'' \<longrightarrow> s = r" "u = js ''metadata'' \<longrightarrow> t = js ''metadata''"
    using migration_keeps [OF _ s(1) 2(4)] 2(3) by auto
  then show ?case using 2(1) [OF s(1,2) _ u(1)] 2(3,4) by auto
qed auto

lemma found_migration: "findMigration v = Some m \<Longrightarrow> m \<in> set MIGRATIONS \<and> mg_source m = v"
  by (auto simp: findMigration_def find_Some_iff)

lemma resolve_loop_chain:
  "resolve_loop v = Some ms \<Longrightarrow> set ms \<subseteq> set MIGRATIONS \<and> (if ms = [] then \<not> older v else mg_source (hd ms) = v \<and> \<not> older (mg_target (List.last ms)))
    \<and> (\<forall>i. Suc i < length ms \<longrightarrow> mg_target (ms ! i) = mg_source (ms ! Suc i))"
proof (induction v arbitrary: ms rule: resolve_loop.induct)
  case (1 v)
  show ?case
  proof (cases "older v")
    case False
    then show ?thesis using 1(2) by (simp add: resolve_loop.simps [of v])
  next
    case True
    then obtain m rest where m: "findMigration v = Some m" "resolve_loop (mg_target m) = Some rest" "ms = m # rest"
      using 1(2) by (simp add: resolve_loop.simps [of v] split: option.splits)
    have ih: "set rest \<subseteq> set MIGRATIONS" "if rest = [] then \<not> older (mg_target m) else mg_source (hd rest) = mg_target m \<and> \<not> older (mg_target (List.last rest))"
      "\<forall>i. Suc i < length rest \<longrightarrow> mg_target (rest ! i) = mg_source (rest ! Suc i)" using "1.IH" True m(1,2) by auto
    have "mg_target (ms ! i) = mg_source (ms ! Suc i)" if "Suc i < length ms" for i
      using ih(2,3) that m(3) by (cases i; cases rest) (auto split: if_splits)
    then show ?thesis using ih found_migration [OF m(1)] m(3) by (auto split: if_splits)
  qed
qed

lemma resolve_subset: "resolveWireMigrations v = Some ms \<Longrightarrow> set ms \<subseteq> set MIGRATIONS"
  using resolve_loop_chain [of v ms] by (auto simp: resolveWireMigrations_def split: if_splits option.splits)

lemma current_not_older: "\<not> older (js ''1.5'')" "older (js ''1.0'')" "older (js ''1.1'')" "older (js ''1.2'')" "older (js ''1.3'')" "older (js ''1.4'')"
  by code_simp+

lemma resolve_known: "findMigration v = Some m \<Longrightarrow> \<exists>ms. resolve_loop (mg_target m) = Some ms"
proof -
  have five: "resolve_loop (js ''1.5'') = Some []" by (simp add: resolve_loop.simps [of "js ''1.5''"] current_not_older)
  have step: "\<exists>ms. resolve_loop a = Some ms" if "older a" "findMigration a \<noteq> None" "\<And>m. findMigration a = Some m \<Longrightarrow> \<exists>ms. resolve_loop (mg_target m) = Some ms" for a
    using that by (auto simp: resolve_loop.simps [of a])
  have found: "findMigration (js ''1.1'') \<noteq> None" "findMigration (js ''1.2'') \<noteq> None" "findMigration (js ''1.3'') \<noteq> None" "findMigration (js ''1.4'') \<noteq> None"
    by (simp_all add: findMigration_def MIGRATIONS_def js_eq)
  have four: "\<exists>ms. resolve_loop (js ''1.4'') = Some ms" by (rule step) (use current_not_older found five in \<open>auto elim: migration_cases simp: js_eq\<close>)
  have three: "\<exists>ms. resolve_loop (js ''1.3'') = Some ms" by (rule step) (use current_not_older found four in \<open>auto elim: migration_cases simp: js_eq\<close>)
  have two: "\<exists>ms. resolve_loop (js ''1.2'') = Some ms" by (rule step) (use current_not_older found three in \<open>auto elim: migration_cases simp: js_eq\<close>)
  have one: "\<exists>ms. resolve_loop (js ''1.1'') = Some ms" by (rule step) (use current_not_older found two in \<open>auto elim: migration_cases simp: js_eq\<close>)
  show "findMigration v = Some m \<Longrightarrow> \<exists>ms. resolve_loop (mg_target m) = Some ms" using one two three four five by (auto elim!: migration_cases)
qed

text \<open>C36: the migrations of a journal: for every version the search ends; it fails exactly for an older version nothing
  migrates from, is empty for one that is not older, and otherwise is a chain of known migrations, each taking up where the
  one before ends, from the version read to one that is no longer older.\<close>

theorem migrations_chain:
  "(resolveWireMigrations v = None) = (older v \<and> findMigration v = None)
    \<and> (case resolveWireMigrations v of None \<Rightarrow> True
       | Some [] \<Rightarrow> \<not> older v
       | Some (m # ms) \<Rightarrow> older v \<and> mg_source m = v \<and> \<not> older (mg_target (List.last (m # ms))) \<and> set (m # ms) \<subseteq> set MIGRATIONS
           \<and> list_all (\<lambda>i. mg_target ((m # ms) ! i) = mg_source ((m # ms) ! Suc i)) [0..<length ms])"
proof (cases "older v")
  case False
  then have "resolveWireMigrations v = Some []" by (auto simp: resolveWireMigrations_def resolve_loop.simps [of v] older_def split: option.splits)
  then show ?thesis using False by simp
next
  case True
  then have r: "resolveWireMigrations v = resolve_loop v" by (auto simp: resolveWireMigrations_def older_def split: option.splits)
  show ?thesis
  proof (cases "findMigration v")
    case None
    then have "resolve_loop v = None" using True by (simp add: resolve_loop.simps [of v])
    then show ?thesis using r True None by simp
  next
    case (Some m)
    then obtain ms where ms: "resolve_loop v = Some (m # ms)" using resolve_known [OF Some] True by (auto simp: resolve_loop.simps [of v])
    show ?thesis using resolve_loop_chain [OF ms] r ms True Some by (auto simp: list_all_iff)
  qed
qed

subsection \<open>Rewriting a journal\<close>

text \<open>A restore in progress over a journal that needs no migration.\<close>

definition settled_restore :: "('u, 'e) restoring \<Rightarrow> bool" where
  "settled_restore t \<longleftrightarrow> rs_hasRecords t \<and> rs_migrations t = [] \<and> rs_rewritten t = None \<and> \<not> rs_newer t"

definition migrating :: "('u, 'e) restoring \<Rightarrow> bool" where
  "migrating t \<longleftrightarrow> rs_hasRecords t \<and> set (rs_migrations t) \<subseteq> set MIGRATIONS \<and> rs_rewritten t \<noteq> None \<and> \<not> rs_newer t"

lemma restore_append: "restore_loop env reg now (as @ bs) t = (case restore_loop env reg now as t of Inl e \<Rightarrow> Inl e | Inr t' \<Rightarrow> restore_loop env reg now bs t')"
  by (induction as arbitrary: t) (auto split: sum.split)

text \<open>Records read later, as rewritten: restoring them does to the models what restoring the originals did.\<close>

definition rewrites_to :: "('u, 'e) wire_env \<Rightarrow> ('u, 'e) op_registry \<Rightarrow> int \<Rightarrow> wobj list \<Rightarrow> ('u, 'e) wire_state \<Rightarrow> ('u, 'e) wire_state \<Rightarrow> bool" where
  "rewrites_to env reg now out w w' \<longleftrightarrow> (\<forall>t. settled_restore t \<and> rs_wire t = w \<longrightarrow>
     (\<exists>t'. restore_loop env reg now (map JObj out) t = Inr t' \<and> settled_restore t' \<and> rs_wire t' = w'))"

lemma rewrites_append: "rewrites_to env reg now a u v \<Longrightarrow> rewrites_to env reg now b v w \<Longrightarrow> rewrites_to env reg now (a @ b) u w"
  unfolding rewrites_to_def map_append restore_append by (metis sum.simps(6))

lemma rewrites_Nil: "rewrites_to env reg now [] w w"
  by (simp add: rewrites_to_def)

lemma rewrites_metadata:
  assumes "type_of r = Some (js ''metadata'')"
  shows "rewrites_to env reg now [r] w w"
  unfolding rewrites_to_def
proof (intro allI impI)
  fix t :: "('a, 'b) restoring" assume t: "settled_restore t \<and> rs_wire t = w"
  have "isWireRecord (JObj r)" using assms by (simp add: isWireRecord_def)
  then have "restore_record env reg now (JObj r) t = Inr t"
    using t assms by (simp add: restore_record_def first_record_def settled_restore_def type_update js_eq Let_def)
  then show "\<exists>t'. restore_loop env reg now (map JObj [r]) t = Inr t' \<and> settled_restore t' \<and> rs_wire t' = w" using t by simp
qed

lemma replay_index: "replayRecord env reg r i s = Inr (ps, s') \<Longrightarrow> \<exists>ps'. replayRecord env reg r j s = Inr (ps', s')"
  by (auto simp: replayRecord_def split: option.splits prod.splits bool.splits)

lemma rewrites_record:
  assumes "type_of r = Some u" "u \<noteq> js ''metadata''" "replayRecord env reg r i w = Inr (ps, w')"
  shows "rewrites_to env reg now [r] w w'"
  unfolding rewrites_to_def
proof (intro allI impI)
  fix t assume t: "settled_restore t \<and> rs_wire t = w"
  obtain ps' where p: "replayRecord env reg r (rs_index t) w = Inr (ps', w')" using replay_index [OF assms(3)] by blast
  have "isWireRecord (JObj r)" using assms by (simp add: isWireRecord_def)
  then have "restore_record env reg now (JObj r) t = Inr (t\<lparr>rs_wire := w', rs_reports := rs_reports t @ ps', rs_index := Suc (rs_index t)\<rparr>)"
    using t assms(1,2) p by (simp add: restore_record_def first_record_def settled_restore_def Let_def)
  then show "\<exists>t'. restore_loop env reg now (map JObj [r]) t = Inr t' \<and> settled_restore t' \<and> rs_wire t' = w'"
    using t by (simp add: settled_restore_def)
qed

text \<open>One record after the first, while the journal is being rewritten.\<close>

lemma rewritten_step:
  assumes "migrating t" "restore_record env reg now c t = Inr t'"
  shows "migrating t' \<and> (\<exists>out. rs_rewritten t' = map_option (\<lambda>acc. acc @ out) (rs_rewritten t) \<and> rewrites_to env reg now out (rs_wire t) (rs_wire t'))"
proof (cases "\<exists>source. c = JObj source \<and> isWireRecord c")
  case False
  then have "t' = t\<lparr>rs_reports := rs_reports t @ [MalformedRecord None (rs_index t)], rs_index := Suc (rs_index t)\<rparr>"
    using assms(2) by (cases c) (auto simp: restore_record_def)
  then show ?thesis using assms(1) rewrites_Nil by (auto simp: migrating_def intro!: exI [of _ "[]"])
next
  case True
  then obtain source u where c: "c = JObj source" "isWireRecord c" "type_of source = Some u" by (auto simp: isWireRecord_def)
  have first: "first_record now source t = Inr t" using assms(1) by (simp add: first_record_def migrating_def)
  obtain migrated where m: "migrateWireRecord source (rs_migrations t) = Some migrated"
    using assms(2) c first by (cases "migrateWireRecord source (rs_migrations t)") (simp_all add: restore_record_def)
  obtain v where v: "type_of migrated = Some v" "v = js ''metadata'' \<longrightarrow> u = js ''metadata''"
    using migrations_keep [OF m _ c(3)] assms(1) by (auto simp: migrating_def)
  show ?thesis
  proof (cases "v = js ''metadata''")
    case True
    let ?r = "AList.update (js ''protocol_version'') (JStr WIRE_PROTOCOL_VERSION) migrated"
    have ty: "type_of ?r = Some (js ''metadata'')" using v True by (simp add: type_update js_eq)
    have "t' = t\<lparr>rs_rewritten := map_option (\<lambda>rs. rs @ [?r]) (rs_rewritten t)\<rparr>"
      using assms c first m v True ty by (simp add: restore_record_def migrating_def Let_def)
    then show ?thesis using assms(1) rewrites_metadata [OF ty, where env = env and reg = reg and now = now and w = "rs_wire t"]
      by (auto simp: migrating_def intro!: exI [of _ "[?r]"])
  next
    case False
    obtain ps w where p: "replayRecord env reg migrated (rs_index t) (rs_wire t) = Inr (ps, w)"
      "t' = t\<lparr>rs_rewritten := map_option (\<lambda>rs. rs @ [migrated]) (rs_rewritten t), rs_wire := w, rs_reports := rs_reports t @ ps, rs_index := Suc (rs_index t)\<rparr>"
      using assms(2) c first m v False by (auto simp: restore_record_def Let_def split: sum.splits)
    then show ?thesis using assms(1) rewrites_record [OF v(1) False p(1), where now = now]
      by (auto simp: migrating_def intro!: exI [of _ "[migrated]"])
  qed
qed

lemma rewritten_loop:
  "restore_loop env reg now cs t = Inr t' \<Longrightarrow> migrating t
    \<Longrightarrow> \<exists>out. rs_rewritten t' = map_option (\<lambda>acc. acc @ out) (rs_rewritten t) \<and> rewrites_to env reg now out (rs_wire t) (rs_wire t')"
proof (induction cs arbitrary: t)
  case Nil
  then show ?case using rewrites_Nil by (cases "rs_rewritten t") (auto simp: migrating_def intro!: exI [of _ "[]"])
next
  case (Cons c cs)
  then obtain u where u: "restore_record env reg now c t = Inr u" "restore_loop env reg now cs u = Inr t'" by (auto split: sum.splits)
  obtain a where a: "migrating u" "rs_rewritten u = map_option (\<lambda>acc. acc @ a) (rs_rewritten t)" "rewrites_to env reg now a (rs_wire t) (rs_wire u)"
    using rewritten_step [OF Cons.prems(2) u(1)] by blast
  obtain b where b: "rs_rewritten t' = map_option (\<lambda>acc. acc @ b) (rs_rewritten u)" "rewrites_to env reg now b (rs_wire u) (rs_wire t')"
    using Cons.IH [OF u(2) a(1)] by blast
  have "rs_rewritten t' = map_option (\<lambda>acc. acc @ (a @ b)) (rs_rewritten t)" using a(2) b(1) by (simp add: option.map_comp comp_def)
  then show ?case using rewrites_append [OF a(3) b(2)] by blast
qed

definition fresh_restore :: "('u, 'e) restoring \<Rightarrow> bool" where
  "fresh_restore t \<longleftrightarrow> \<not> rs_hasRecords t \<and> rs_migrations t = [] \<and> rs_rewritten t = None \<and> \<not> rs_newer t"

text \<open>A journal read from its beginning to the given models.\<close>

definition opens_to :: "('u, 'e) wire_env \<Rightarrow> ('u, 'e) op_registry \<Rightarrow> int \<Rightarrow> wobj list \<Rightarrow> ('u, 'e) wire_state \<Rightarrow> ('u, 'e) wire_state \<Rightarrow> bool" where
  "opens_to env reg now out w w' \<longleftrightarrow> (\<forall>t. fresh_restore t \<and> rs_wire t = w \<longrightarrow>
     (\<exists>t'. restore_loop env reg now (map JObj out) t = Inr t' \<and> settled_restore t' \<and> rs_wire t' = w'))"

lemma opens_append: "opens_to env reg now a u v \<Longrightarrow> rewrites_to env reg now b v w \<Longrightarrow> opens_to env reg now (a @ b) u w"
  unfolding opens_to_def rewrites_to_def map_append restore_append by (metis sum.simps(6))

lemma opens_metadata:
  assumes "isWireMetadataRecord r" "map_of r (js ''protocol_version'') = Some (JStr WIRE_PROTOCOL_VERSION)"
  shows "opens_to env reg now [r] w w"
  unfolding opens_to_def
proof (intro allI impI)
  fix t :: "('a, 'b) restoring" assume t: "fresh_restore t \<and> rs_wire t = w"
  have ty: "type_of r = Some (js ''metadata'')" using assms(1) by (simp add: isWireMetadataRecord_def)
  then have "isWireRecord (JObj r)" by (simp add: isWireRecord_def)
  then have "restore_record env reg now (JObj r) t = Inr (t\<lparr>rs_hasRecords := True\<rparr>)"
    using t ty assms current_version by (simp add: restore_record_def first_record_def fresh_restore_def type_update js_eq Let_def)
  then show "\<exists>t'. restore_loop env reg now (map JObj [r]) t = Inr t' \<and> settled_restore t' \<and> rs_wire t' = w"
    using t by (simp add: fresh_restore_def settled_restore_def)
qed

lemma versioned_metadata:
  assumes "isWireMetadataRecord r"
  shows "isWireMetadataRecord (AList.update (js ''protocol_version'') (JStr WIRE_PROTOCOL_VERSION) r)"
  using assms by (simp add: isWireMetadataRecord_def type_update update_conv' js_eq)

lemma first_rewritten:
  assumes "fresh_restore t" "isWireRecord (JObj source)" "restore_record env reg now (JObj source) t = Inr t'"
  shows "rs_hasRecords t' \<and> (rs_rewritten t' = None \<or> migrating t' \<and> (\<exists>out. rs_rewritten t' = Some out \<and> opens_to env reg now out (rs_wire t) (rs_wire t')))"
proof -
  obtain u where u: "type_of source = Some u" using assms(2) by (auto simp: isWireRecord_def)
  obtain t1 where t1: "first_record now source t = Inr t1" using assms(2,3) by (auto simp: restore_record_def split: sum.splits)
  show ?thesis
  proof (cases "u = js ''metadata''")
    case False
    let ?last = "\<lparr>mg_source = js ''1.4'', mg_target = js ''1.5'', mg_migrateRecord = migrateV1_4ToV1_5\<rparr>"
    let ?t1 = "t\<lparr>rs_hasRecords := True, rs_rewritten := Some [createWireMetadataRecord now], rs_migrations := [?last]\<rparr>"
    have e: "t1 = ?t1" using t1 u False assms(1) by (simp add: first_record_def fresh_restore_def Let_def)
    have mig: "migrating ?t1" using assms(1) by (simp add: migrating_def fresh_restore_def MIGRATIONS_def)
    then have "first_record now source ?t1 = Inr ?t1" by (simp add: first_record_def migrating_def)
    then have "restore_record env reg now (JObj source) ?t1 = Inr t'" using assms(2,3) t1 e by (simp add: restore_record_def)
    from rewritten_step [OF mig this] obtain out where out: "migrating t'" "rs_rewritten t' = Some (createWireMetadataRecord now # out)"
      "rewrites_to env reg now out (rs_wire t) (rs_wire t')" by auto
    have "opens_to env reg now ([createWireMetadataRecord now] @ out) (rs_wire t) (rs_wire t')"
      by (rule opens_append [OF opens_metadata [OF metadata_record(3,4)] out(3)])
    then show ?thesis using out(1,2) by (auto simp: migrating_def)
  next
    case True
    have meta: "isWireMetadataRecord source" using t1 u True assms(1) by (auto simp: first_record_def fresh_restore_def Let_def split: if_splits)
    then obtain v where v: "map_of source (js ''protocol_version'') = Some (JStr v)" by (auto simp: isWireMetadataRecord_def split: option.splits json.splits)
    show ?thesis
    proof (cases "isNewerWireVersion v \<or> v = WIRE_PROTOCOL_VERSION")
      case True
      then have "rs_rewritten t1 = None \<and> rs_hasRecords t1"
        using t1 u meta v assms(1) \<open>u = _\<close> by (auto simp: first_record_def fresh_restore_def Let_def split: option.splits if_splits)
      then show ?thesis using assms(2,3) t1 by (auto simp: restore_record_def Let_def split: option.splits sum.splits if_splits)
    next
      case False
      then obtain ms where ms: "resolveWireMigrations v = Some ms" "t1 = t\<lparr>rs_hasRecords := True, rs_migrations := ms, rs_rewritten := Some []\<rparr>"
        using t1 u meta v assms(1) \<open>u = _\<close> by (auto simp: first_record_def fresh_restore_def Let_def split: option.splits)
      obtain migrated where "migrateWireRecord source ms = Some migrated"
        using assms(2,3) t1 ms(2) by (cases "migrateWireRecord source ms") (simp_all add: restore_record_def)
      moreover from migrations_keep [OF this resolve_subset [OF ms(1)] u] have "migrated = source" using \<open>u = _\<close> by auto
      ultimately have mi: "migrateWireRecord source ms = Some source" by simp
      let ?r = "AList.update (js ''protocol_version'') (JStr WIRE_PROTOCOL_VERSION) source"
      have r: "isWireMetadataRecord ?r" "map_of ?r (js ''protocol_version'') = Some (JStr WIRE_PROTOCOL_VERSION)" "type_of ?r = Some (js ''metadata'')"
        using versioned_metadata [OF meta] by (simp_all add: update_conv' isWireMetadataRecord_def)
      have "t' = t1\<lparr>rs_rewritten := Some [?r]\<rparr>"
        using assms t1 ms(2) mi u \<open>u = _\<close> r(3) by (simp add: restore_record_def fresh_restore_def Let_def)
      then show ?thesis using opens_metadata [OF r(1,2), where w = "rs_wire t"] ms(2) resolve_subset [OF ms(1)] assms(1)
        by (simp add: migrating_def fresh_restore_def)
    qed
  qed
qed

lemma unchanged_loop: "restore_loop env reg now cs t = Inr t' \<Longrightarrow> rs_hasRecords t \<Longrightarrow> rs_rewritten t = None \<Longrightarrow> rs_hasRecords t' \<and> rs_rewritten t' = None"
proof (induction cs arbitrary: t)
  case (Cons c cs)
  then obtain u where u: "restore_record env reg now c t = Inr u" "restore_loop env reg now cs u = Inr t'" by (auto split: sum.splits)
  have "rs_hasRecords u \<and> rs_rewritten u = None" using u(1) Cons.prems(2,3)
    by (auto simp: restore_record_def first_record_def Let_def split: json.splits if_splits option.splits sum.splits)
  then show ?case using Cons.IH [OF u(2)] by simp
qed simp

lemma restore_whole:
  "restore_loop env reg now cs t = Inr t' \<Longrightarrow> fresh_restore t \<Longrightarrow>
    (fresh_restore t' \<and> rs_wire t' = rs_wire t) \<or> rs_hasRecords t' \<and> (rs_rewritten t' = None \<or> (\<exists>out. rs_rewritten t' = Some out \<and> opens_to env reg now out (rs_wire t) (rs_wire t')))"
proof (induction cs arbitrary: t)
  case (Cons c cs)
  then obtain u where u: "restore_record env reg now c t = Inr u" "restore_loop env reg now cs u = Inr t'" by (auto split: sum.splits)
  show ?case
  proof (cases "\<exists>source. c = JObj source \<and> isWireRecord c")
    case False
    then have "u = t\<lparr>rs_reports := rs_reports t @ [MalformedRecord None (rs_index t)], rs_index := Suc (rs_index t)\<rparr>"
      using u(1) by (cases c) (auto simp: restore_record_def)
    then show ?thesis using Cons.IH [OF u(2)] Cons.prems(2) by (simp add: fresh_restore_def)
  next
    case True
    then obtain source where "c = JObj source" "isWireRecord (JObj source)" by auto
    with first_rewritten [OF Cons.prems(2) this(2)] u(1)
    have f: "rs_hasRecords u \<and> (rs_rewritten u = None \<or> migrating u \<and> (\<exists>out. rs_rewritten u = Some out \<and> opens_to env reg now out (rs_wire t) (rs_wire u)))" by simp
    then consider "rs_hasRecords u" "rs_rewritten u = None" | out where "migrating u" "rs_rewritten u = Some out" "opens_to env reg now out (rs_wire t) (rs_wire u)" by auto
    then show ?thesis
    proof cases
      case 1
      then show ?thesis using unchanged_loop [OF u(2)] by simp
    next
      case 2
      obtain more where "rs_rewritten t' = Some (out @ more)" "rewrites_to env reg now more (rs_wire u) (rs_wire t')"
        using rewritten_loop [OF u(2) 2(1)] 2(2) by auto
      moreover have "rs_hasRecords t'"
        using u(2) 2(1)
      proof (induction cs arbitrary: u)
        case (Cons d ds)
        then obtain w where "restore_record env reg now d u = Inr w" "restore_loop env reg now ds w = Inr t'" by (auto split: sum.splits)
        then show ?case using Cons.IH rewritten_step [OF Cons.prems(2)] by blast
      qed (simp add: migrating_def)
      ultimately show ?thesis using opens_append [OF 2(3)] by blast
    qed
  qed
qed simp

text \<open>C8: a journal a restore rewrites, with the records migrated, the malformed ones gone and the metadata brought up to date,
  restores to the same models again, without being rewritten once more.\<close>

theorem rewritten_journal_stable:
  assumes "restore_records env reg codecs now source new_wire = Inr (w, Some journal, reports)"
  shows "\<exists>reports'. restore_records env reg codecs now (map JObj journal) new_wire = Inr (w, None, reports')"
proof -
  let ?t = "\<lparr>rs_wire = new_wire, rs_migrations = [], rs_rewritten = None, rs_newer = False, rs_index = 0, rs_hasRecords = False, rs_reports = []\<rparr>"
  have fresh: "fresh_restore ?t" by (simp add: fresh_restore_def)
  obtain t where t: "restore_loop env reg now source ?t = Inr t" "w = rehydrateModels codecs (rs_wire t)"
    "Some journal = (if \<not> rs_hasRecords t then Some [createWireMetadataRecord now] else rs_rewritten t)"
    using assms by (auto simp: restore_records_def split: sum.splits)
  have "opens_to env reg now journal new_wire (rs_wire t)"
  proof (cases "rs_hasRecords t")
    case False
    then have "rs_wire t = new_wire" using restore_whole [OF t(1) fresh] by simp
    then show ?thesis using t(3) False opens_metadata [OF metadata_record(3,4)] by simp
  next
    case True
    then show ?thesis using restore_whole [OF t(1) fresh] t(3) by (auto simp: fresh_restore_def)
  qed
  then obtain t' where t': "restore_loop env reg now (map JObj journal) ?t = Inr t'" "settled_restore t'" "rs_wire t' = rs_wire t"
    using fresh by (auto simp: opens_to_def)
  then show ?thesis using t(2) by (simp add: restore_records_def settled_restore_def)
qed

subsection \<open>The order of the journal\<close>

inductive persisted :: "(js_string \<Rightarrow> (wobj \<Rightarrow> wobj option) option) \<Rightarrow> (wobj \<times> js_string) list \<Rightarrow> persist_state \<Rightarrow> bool" for dehydrate where
  none: "persisted dehydrate [] \<lparr>pt_log = [], pt_chain = [], pt_lost = []\<rparr>"
| hand: "persisted dehydrate rms p \<Longrightarrow> persisted dehydrate (rms @ [rm]) (appendToJournal dehydrate rm p)"
| pass: "persisted dehydrate rms p \<Longrightarrow> persisted dehydrate rms (chain_step dehydrate p)"

fun waiting :: "persist_job list \<Rightarrow> (wobj \<times> js_string) list" where
  "waiting [] = []"
| "waiting (Chained r m # jobs) = (r, m) # waiting jobs"
| "waiting (Settled # jobs) = waiting jobs"

lemma waiting_append [simp]: "waiting (a @ b) = waiting a @ waiting b"
  by (induction a rule: waiting.induct) simp_all

definition stored_records :: "(js_string \<Rightarrow> (wobj \<Rightarrow> wobj option) option) \<Rightarrow> (wobj \<times> js_string) list \<Rightarrow> wobj list" where
  "stored_records dehydrate rms = List.map_filter (stored_record dehydrate) rms"

definition lost_records :: "(js_string \<Rightarrow> (wobj \<Rightarrow> wobj option) option) \<Rightarrow> (wobj \<times> js_string) list \<Rightarrow> wobj list" where
  "lost_records dehydrate rms = map fst (filter (\<lambda>rm. stored_record dehydrate rm = None) rms)"

lemma stored_snoc: "stored_records d (rms @ [rm]) = stored_records d rms @ (case stored_record d rm of None \<Rightarrow> [] | Some r \<Rightarrow> [r])"
  "stored_records d [] = []"
  by (simp_all add: stored_records_def List.map_filter_def split: option.split)

lemma lost_snoc: "lost_records d (rms @ [rm]) = lost_records d rms @ (if stored_record d rm = None then [fst rm] else [])" "lost_records d [] = []"
  by (simp_all add: lost_records_def)

lemma persisted_split:
  "persisted d rms p \<Longrightarrow> \<exists>through. rms = through @ waiting (pt_chain p) \<and> pt_log p = stored_records d through \<and> pt_lost p = lost_records d through"
proof (induction rule: persisted.induct)
  case none
  then show ?case by (simp add: stored_snoc lost_snoc)
next
  case (hand rms p rm)
  then obtain through where t: "rms = through @ waiting (pt_chain p)" "pt_log p = stored_records d through" "pt_lost p = lost_records d through" by blast
  show ?case
  proof (cases "d (snd rm) = None \<and> pt_chain p = []")
    case True
    then have "stored_record d rm = Some (fst rm)" by (simp add: stored_record_def)
    then show ?thesis using t True by (intro exI [of _ "through @ [rm]"]) (simp add: appendToJournal_def stored_snoc lost_snoc)
  next
    case False
    then show ?thesis using t by (intro exI [of _ through]) (auto simp: appendToJournal_def)
  qed
next
  case (pass rms p)
  then obtain through where t: "rms = through @ waiting (pt_chain p)" "pt_log p = stored_records d through" "pt_lost p = lost_records d through" by blast
  show ?case
  proof (cases "pt_chain p" rule: waiting.cases)
    case (2 r m jobs)
    then show ?thesis using t
      by (intro exI [of _ "through @ [(r, m)]"]) (auto simp: chain_step_def stored_snoc lost_snoc split: option.split)
  qed (use t in \<open>auto simp: chain_step_def intro: exI [of _ through]\<close>)
qed

text \<open>Settled jobs are only ever at the front.\<close>

definition ordered_chain :: "persist_job list \<Rightarrow> bool" where
  "ordered_chain jobs \<longleftrightarrow> Settled \<notin> set (tl jobs)"

lemma persisted_ordered: "persisted d rms p \<Longrightarrow> ordered_chain (pt_chain p)"
proof (induction rule: persisted.induct)
  case (hand rms p rm)
  then show ?case by (cases "pt_chain p") (auto simp: appendToJournal_def ordered_chain_def)
next
  case (pass rms p)
  show ?case using pass.IH
    by (cases "pt_chain p" rule: waiting.cases; cases "tl (pt_chain p)") (auto simp: chain_step_def ordered_chain_def split: option.split)
qed (simp add: ordered_chain_def)

definition chain_length :: "persist_job list \<Rightarrow> nat" where
  "chain_length jobs = (if jobs = [] then 0 else if jobs = [Settled] then 1 else Suc (length jobs))"

lemma chain_step_length:
  assumes "ordered_chain (pt_chain p)"
  shows "chain_length (pt_chain (chain_step d p)) = chain_length (pt_chain p) - 1"
proof (cases "pt_chain p" rule: waiting.cases)
  case (2 r m jobs)
  then show ?thesis using assms by (cases jobs) (auto simp: chain_step_def chain_length_def ordered_chain_def split: option.split)
next
  case (3 jobs)
  then show ?thesis using assms by (cases jobs) (auto simp: chain_step_def chain_length_def ordered_chain_def)
qed (simp add: chain_step_def chain_length_def)

lemma persisted_steps: "persisted d rms p \<Longrightarrow> persisted d rms ((chain_step d ^^ n) p) \<and> chain_length (pt_chain ((chain_step d ^^ n) p)) = chain_length (pt_chain p) - n"
proof (induction n)
  case (Suc n)
  then have p: "persisted d rms ((chain_step d ^^ n) p)" "chain_length (pt_chain ((chain_step d ^^ n) p)) = chain_length (pt_chain p) - n" by simp_all
  then show ?case using chain_step_length [OF persisted_ordered [OF p(1)]] persisted.pass [OF p(1)] by simp
qed simp

text \<open>C37: in every interleaving of handing over records and storing their media, the log holds the records in the order they were
  handed over, without a gap but for those whose storing failed; a flush ends with all of them through.\<close>

theorem journal_in_order:
  assumes "persisted dehydrate rms p"
  shows "(\<exists>through. rms = through @ waiting (pt_chain p) \<and> pt_log p = stored_records dehydrate through \<and> pt_lost p = lost_records dehydrate through)
    \<and> pt_chain (flush_chain dehydrate p) = [] \<and> pt_log (flush_chain dehydrate p) = stored_records dehydrate rms
    \<and> pt_lost (flush_chain dehydrate p) = lost_records dehydrate rms"
proof -
  have f: "persisted dehydrate rms (flush_chain dehydrate p)" "chain_length (pt_chain (flush_chain dehydrate p)) = chain_length (pt_chain p) - Suc (length (pt_chain p))"
    using persisted_steps [OF assms, of "Suc (length (pt_chain p))"] by (simp_all only: flush_chain_def)
  have "chain_length (pt_chain (flush_chain dehydrate p)) = 0" using f(2) by (simp add: chain_length_def)
  then have "pt_chain (flush_chain dehydrate p) = []" by (auto simp: chain_length_def split: if_splits)
  then show ?thesis using persisted_split [OF assms] persisted_split [OF f(1)] by auto
qed

subsection \<open>Samples\<close>

definition sample_env :: "(json_model, json) wire_env" where
  "sample_env = model_env (\<lambda>e f. if e = swarm_status True then [make_op (js ''permission.set_mode'') setMode (JObj [(js ''mode'', JStr (js ''auto''))])] else []) int"

definition sample_ops :: "(json_model, json) op list list" where
  "sample_ops = [[make_op (js ''swarm_mode.enter'') swarmEnter (JObj [(js ''trigger'', JStr (js ''user''))])]]"

lemma sample_sound: "sound_env sample_env model_registry {}" "list_all (list_all (sound_op sample_env model_registry {})) sample_ops"
  by (simp_all add: sound_env_def sound_op_def sample_env_def sample_ops_def model_env_def make_op_def model_registry_def setMode_def swarmEnter_def
      plain_payload_def object_schema_def js_eq)

theorem replay_rebuilds_witness:
  "\<exists>s w. run_dispatches sample_env sample_ops new_wire = Some s \<and> getModel sample_env s (js ''permissionMode.configured'') = Some (JBool True)
    \<and> getModel sample_env w (js ''permissionMode.configured'') = Some (JBool True)
    \<and> restore_records sample_env model_registry (\<lambda>n. None) 9 (map JObj (createWireMetadataRecord 5 # map fst (ws_journal s))) new_wire = Inr (w, None, [])"
proof -
  obtain s where s: "run_dispatches sample_env sample_ops new_wire = Some s" "getModel sample_env s (js ''permissionMode.configured'') = Some (JBool True)"
    by (simp add: sample_env_def sample_ops_def new_wire_def dispatch_def execute_op_def notify_def publish_def make_op_def model_env_def model_reducers_def
        swarmEnter_def setMode_def defineModel_def getModel_def set_model_def drain.simps MAX_DRAIN_def js_eq Let_def)
  from replay_rebuilds [OF sample_sound s(1), of 9 5] s show ?thesis by auto
qed

theorem rewritten_journal_stable_witness:
  "\<exists>w journal reports reports'. restore_records sample_env model_registry (\<lambda>n. None) 9 [JNull] new_wire = Inr (w, Some journal, reports)
    \<and> restore_records sample_env model_registry (\<lambda>n. None) 9 (map JObj journal) new_wire = Inr (w, None, reports')"
proof -
  obtain w journal reports where r: "restore_records sample_env model_registry (\<lambda>n. None) 9 [JNull] new_wire = Inr (w, Some journal, reports)"
    by (simp add: restore_records_def restore_record_def)
  from rewritten_journal_stable [OF this] r show ?thesis by blast
qed

theorem journal_in_order_witness:
  "pt_log (flush_chain (\<lambda>m. Some Some) (appendToJournal (\<lambda>m. Some Some) ([], js ''m'') \<lparr>pt_log = [], pt_chain = [], pt_lost = []\<rparr>)) = [[]]"
proof -
  have "persisted (\<lambda>m. Some Some) ([] @ [([], js ''m'')]) (appendToJournal (\<lambda>m. Some Some) ([], js ''m'') \<lparr>pt_log = [], pt_chain = [], pt_lost = []\<rparr>)"
    by (intro persisted.intros)
  from journal_in_order [OF this] show ?thesis by (simp add: stored_records_def List.map_filter_def stored_record_def)
qed

end
