(* ===== verification/Calendar.thy ===== *)
theory Calendar
  imports Prelude
begin

section \<open>Dates of the language\<close>

text \<open>
  What the scheduling code uses of JavaScript's \<^verbatim>\<open>Date\<close>, after the definitions of the language
  standard: a date is a number of milliseconds since 1970 in universal time; its fields are those
  of the local time; a setter computes the local time, replaces fields (values beyond their range
  carry over) and converts back. The local time zone belongs to the machine the program runs on
  and is a parameter: the offset that holds from the beginning, and the transitions to other
  offsets. A local time that a transition skips or repeats is converted with the offset before
  the transition, as the standard prescribes. The range limit of dates (some 270,000 years) is
  left out.
\<close>

subsection \<open>Days, years and months\<close>

definition day_from_year :: "int \<Rightarrow> int" where
  "day_from_year y = 365 * (y - 1970) + (y - 1969) div 4 - (y - 1901) div 100 + (y - 1601) div 400"

definition leap_year :: "int \<Rightarrow> bool" where
  "leap_year y \<longleftrightarrow> y mod 4 = 0 \<and> y mod 100 \<noteq> 0 \<or> y mod 400 = 0"

lemma div_bounds: "0 < k \<Longrightarrow> k * (x div k) \<le> x" "0 < k \<Longrightarrow> x < k * (x div k) + k" for k :: int
  using mult_div_mod_eq [of k x] pos_mod_bound [of k x] pos_mod_sign [of k x] by linarith+

lemma div_next:
  fixes k :: int
  assumes "0 < k" "k dvd c"
  shows "(y + 1 - (c + 1)) div k = (y - (c + 1)) div k + (if y mod k = 0 then 1 else 0)"
proof -
  obtain b where c: "c = k * b" using assms(2) by blast
  have y: "y = k * (y div k) + y mod k" by simp
  have m: "0 \<le> y mod k" "y mod k < k" using assms(1) by simp_all
  have 1: "(y + 1 - (c + 1)) div k = y div k - b"
    by (rule int_div_pos_eq [where r = "y mod k"]) (use y m c in \<open>simp_all add: algebra_simps\<close>)
  have 2: "(y - (c + 1)) div k = y div k - b - 1" if "y mod k = 0"
    by (rule int_div_pos_eq [where r = "k - 1"]) (use y that assms(1) c in \<open>simp_all add: algebra_simps\<close>)
  have 3: "(y - (c + 1)) div k = y div k - b" if "y mod k \<noteq> 0"
    by (rule int_div_pos_eq [where r = "y mod k - 1"]) (use y m that c in \<open>simp_all add: algebra_simps\<close>)
  show ?thesis using 1 2 3 by auto
qed

lemma leap_sum: "(r \<Longrightarrow> q) \<Longrightarrow> (q \<Longrightarrow> p) \<Longrightarrow>
    365 * (y + 1 - 1970) + (a + (if p then 1 else 0)) - (b + (if q then 1 else 0)) + (c + (if r then 1 else 0))
    = 365 * (y - 1970) + a - b + c + (if p \<and> \<not> q \<or> r then 366 else 365)" for a b c y :: int
  by (cases p; cases q; cases r; simp)

lemma day_from_next_year: "day_from_year (y + 1) = day_from_year y + (if leap_year y then 366 else 365)"
proof -
  have 1: "y mod 400 = 0 \<Longrightarrow> y mod 100 = 0" and 2: "y mod 100 = 0 \<Longrightarrow> y mod 4 = 0"
    unfolding mod_eq_0_iff_dvd by (erule dvd_trans [rotated], simp)+
  have "(y + 1 - 1969) div 4 = (y - 1969) div 4 + (if y mod 4 = 0 then 1 else 0)"
    using div_next [of 4 1968 y] by simp
  moreover have "(y + 1 - 1901) div 100 = (y - 1901) div 100 + (if y mod 100 = 0 then 1 else 0)"
    using div_next [of 100 1900 y] by simp
  moreover have "(y + 1 - 1601) div 400 = (y - 1601) div 400 + (if y mod 400 = 0 then 1 else 0)"
    using div_next [of 400 1600 y] by simp
  ultimately show ?thesis unfolding day_from_year_def leap_year_def by (simp only: leap_sum [OF 1 2])
qed

text \<open>Counted from 1970.\<close>

lemma day_from_year_1970: "day_from_year (1970 + k) = 365 * k + (k + 1) div 4 - (k + 69) div 100 + (k + 369) div 400"
proof -
  have e: "1970 + k - 1970 = k" "1970 + k - 1969 = k + 1" "1970 + k - 1901 = k + 69" "1970 + k - 1601 = k + 369" by linarith+
  show ?thesis unfolding day_from_year_def e ..
qed

lemma leap_counts: "4 * ((k + 1) div 4) \<le> k + 1" "k + 1 < 4 * ((k + 1) div 4) + 4"
    "100 * ((k + 69) div 100) \<le> k + 69" "k + 69 < 100 * ((k + 69) div 100) + 100"
    "400 * ((k + 369) div 400) \<le> k + 369" "k + 369 < 400 * ((k + 369) div 400) + 400" for k :: int
  by (rule div_bounds, rule zero_less_numeral)+

text \<open>The year of a day is the last one that has begun, searched from an estimate that is never too late.\<close>

function year_search :: "int \<Rightarrow> int \<Rightarrow> int" where
  "year_search y d = (if day_from_year (y + 1) \<le> d then year_search (y + 1) d else y)"
  by auto

termination
  by (relation "measure (\<lambda>(y, d). nat (d - day_from_year y))") (auto simp: day_from_next_year split: if_splits)

declare year_search.simps [simp del]

definition year_of :: "int \<Rightarrow> int" where
  "year_of d = year_search (1970 + (if 0 \<le> d then d div 366 else d div 365)) d"

lemma year_search_bounds:
  "day_from_year y \<le> d \<Longrightarrow> day_from_year (year_search y d) \<le> d \<and> d < day_from_year (year_search y d + 1)"
proof (induction y d rule: year_search.induct)
  case (1 y d)
  then show ?case by (cases "day_from_year (y + 1) \<le> d") (simp_all add: year_search.simps [of y d])
qed

lemma year_bounds: "day_from_year (year_of d) \<le> d \<and> d < day_from_year (year_of d + 1)"
proof -
  have "day_from_year (1970 + (if 0 \<le> d then d div 366 else d div 365)) \<le> d"
  proof (cases "0 \<le> d")
    case True
    define k where "k = d div 366"
    have k: "366 * k \<le> d" "0 \<le> k" unfolding k_def using True div_bounds(1) [of 366 d] by (simp_all add: pos_imp_zdiv_nonneg_iff)
    have "0 \<le> (k + 69) div 100" using k leap_counts(4) [of k] by linarith
    then have "(k + 369) div 400 \<le> (k + 69) div 100" "(k + 1) div 4 \<le> k" using k leap_counts [of k] by linarith+
    then show ?thesis using True k day_from_year_1970 [of k] unfolding k_def [symmetric] by (simp only: if_True)
  next
    case False
    define k where "k = d div 365"
    have k: "365 * k \<le> d" "k \<le> - 1" unfolding k_def using False div_bounds(1) [of 365 d] by linarith+
    show ?thesis
    proof (cases "k = - 1")
      case True
      then show ?thesis using False k unfolding k_def [symmetric] by (simp add: day_from_year_def)
    next
      case nk: False
      then have "(k + 1) div 4 - (k + 69) div 100 + (k + 369) div 400 \<le> 0" using k leap_counts [of k] by linarith
      then show ?thesis using False k day_from_year_1970 [of k] unfolding k_def [symmetric] by simp
    qed
  qed
  from year_search_bounds [OF this] show ?thesis unfolding year_of_def .
qed

lemma day_from_year_mono: "y \<le> y' \<Longrightarrow> day_from_year y \<le> day_from_year y'"
  by (induction y' rule: int_ge_induct) (auto simp: day_from_next_year split: if_splits)

lemma year_of_unique: "day_from_year y \<le> d \<Longrightarrow> d < day_from_year (y + 1) \<Longrightarrow> year_of d = y"
  using year_bounds [of d] day_from_year_mono [of "year_of d + 1" y] day_from_year_mono [of "y + 1" "year_of d"]
  by linarith

text \<open>Months count from 0; \<open>month_start\<close> is the number of days before a month of a common or leap year.\<close>

definition month_start :: "bool \<Rightarrow> int \<Rightarrow> int" where
  "month_start l m = (if m \<le> 0 then 0 else if m = 1 then 31 else
     (if m = 2 then 59 else if m = 3 then 90 else if m = 4 then 120 else if m = 5 then 151 else if m = 6 then 181
      else if m = 7 then 212 else if m = 8 then 243 else if m = 9 then 273 else if m = 10 then 304
      else if m = 11 then 334 else 365) + (if l then 1 else 0))"

definition month_in :: "bool \<Rightarrow> int \<Rightarrow> int" where
  "month_in l d = (if d < 31 then 0 else let e = d - (if l then 1 else 0) in
     if e < 59 then 1 else if e < 90 then 2 else if e < 120 then 3 else if e < 151 then 4 else if e < 181 then 5
     else if e < 212 then 6 else if e < 243 then 7 else if e < 273 then 8 else if e < 304 then 9
     else if e < 334 then 10 else 11)"

definition month_of :: "int \<Rightarrow> int" where
  "month_of d = month_in (leap_year (year_of d)) (d - day_from_year (year_of d))"

definition date_of :: "int \<Rightarrow> int" where
  "date_of d = d - day_from_year (year_of d) - month_start (leap_year (year_of d)) (month_of d) + 1"

definition week_day :: "int \<Rightarrow> int" where
  "week_day d = (d + 4) mod 7"

definition make_day :: "int \<Rightarrow> int \<Rightarrow> int \<Rightarrow> int" where
  "make_day y m dt = (let ym = y + m div 12 in day_from_year ym + month_start (leap_year ym) (m mod 12) + dt - 1)"

lemma month_in_bounds: "0 \<le> d \<Longrightarrow> d < (if l then 366 else 365) \<Longrightarrow>
    0 \<le> month_in l d \<and> month_in l d \<le> 11 \<and> month_start l (month_in l d) \<le> d \<and> d < month_start l (month_in l d + 1)"
  unfolding month_in_def Let_def month_start_def by (cases l) (simp_all split del: if_split split: if_split)

lemma month_in_unique: "0 \<le> m \<Longrightarrow> m \<le> 11 \<Longrightarrow> month_start l m \<le> d \<Longrightarrow> d < month_start l (m + 1) \<Longrightarrow> month_in l d = m"
proof -
  assume a: "0 \<le> m" "m \<le> 11" "month_start l m \<le> d" "d < month_start l (m + 1)"
  have "m = 0 \<or> m = 1 \<or> m = 2 \<or> m = 3 \<or> m = 4 \<or> m = 5 \<or> m = 6 \<or> m = 7 \<or> m = 8 \<or> m = 9 \<or> m = 10 \<or> m = 11"
    using a(1,2) by presburger
  then show "month_in l d = m" using a(3,4) unfolding month_in_def Let_def month_start_def by (auto split: if_splits)
qed

lemma day_in_year: "0 \<le> d - day_from_year (year_of d)"
    "d - day_from_year (year_of d) < (if leap_year (year_of d) then 366 else 365)"
  using year_bounds [of d] day_from_next_year [of "year_of d"] by linarith+

lemma month_bounds: "0 \<le> month_of d" "month_of d \<le> 11"
    "day_from_year (year_of d) + month_start (leap_year (year_of d)) (month_of d) \<le> d"
    "d < day_from_year (year_of d) + month_start (leap_year (year_of d)) (month_of d + 1)"
  using month_in_bounds [OF day_in_year [of d]] unfolding month_of_def by linarith+

lemma month_start_12: "month_start l 12 = (if l then 366 else 365)"
  by (simp add: month_start_def)

lemma make_day_date: "make_day (year_of d) (month_of d) (date_of d + k) = d + k"
  using month_bounds [of d] unfolding make_day_def Let_def date_of_def by simp

text \<open>The first day of the next month; every day before it from the given one on is of the same month.\<close>

definition month_end :: "int \<Rightarrow> int" where
  "month_end d = make_day (year_of d) (month_of d + 1) 1"

lemma month_end_eq: "month_end d = day_from_year (year_of d) + month_start (leap_year (year_of d)) (month_of d + 1)"
proof (cases "month_of d = 11")
  case True
  have "month_start (leap_year (year_of d + 1)) 0 = 0" by (simp add: month_start_def)
  then show ?thesis using True unfolding month_end_def make_day_def Let_def
    by (simp add: day_from_next_year month_start_12)
next
  case False
  then have "(month_of d + 1) div 12 = 0" "(month_of d + 1) mod 12 = month_of d + 1"
    using month_bounds(1,2) [of d] by simp_all
  then show ?thesis unfolding month_end_def make_day_def Let_def by simp
qed

lemma month_end_after: "d < month_end d"
  using month_bounds(4) [of d] by (simp add: month_end_eq)

lemma month_start_mono: "month_start l m \<le> month_start l (m + 1)" "m \<le> 11 \<Longrightarrow> month_start l (m + 1) \<le> month_start l 12"
  unfolding month_start_def by auto

lemma month_same:
  assumes "d \<le> d'" "d' < month_end d"
  shows "month_of d' = month_of d"
proof -
  let ?y = "year_of d" let ?l = "leap_year ?y"
  have le: "month_start ?l (month_of d + 1) \<le> month_start ?l 12" by (rule month_start_mono(2) [OF month_bounds(2)])
  have "year_of d' = ?y"
  proof (rule year_of_unique)
    show "day_from_year ?y \<le> d'" using assms(1) year_bounds [of d] by linarith
    show "d' < day_from_year (?y + 1)" using assms(2) le
      by (simp add: day_from_next_year month_end_eq month_start_12 split: if_splits)
  qed
  moreover have "month_in ?l (d' - day_from_year ?y) = month_of d"
    by (rule month_in_unique) (use assms month_bounds [of d] month_end_eq [of d] in linarith)+
  ultimately show ?thesis unfolding month_of_def [of d'] by simp
qed

subsection \<open>Local time\<close>

type_synonym zone = "int \<times> (int \<times> int) list"

fun offset_at :: "int \<Rightarrow> (int \<times> int) list \<Rightarrow> int \<Rightarrow> int" where
  "offset_at off [] t = off"
| "offset_at off ((t', off') # ts) t = (if t < t' then off else offset_at off' ts t)"

definition local_time :: "zone \<Rightarrow> int \<Rightarrow> int" where
  "local_time z t = t + offset_at (fst z) (snd z) t"

fun utc_from :: "int \<Rightarrow> (int \<times> int) list \<Rightarrow> int \<Rightarrow> int" where
  "utc_from off [] l = l - off"
| "utc_from off ((t', off') # ts) l = (if l < t' + max off off' then l - off else utc_from off' ts l)"

definition utc :: "zone \<Rightarrow> int \<Rightarrow> int" where
  "utc z l = utc_from (fst z) (snd z) l"

definition fixed_zone :: "zone \<Rightarrow> bool" where
  "fixed_zone z \<longleftrightarrow> snd z = []"

lemma fixed_zone_inverse: "fixed_zone z \<Longrightarrow> local_time z (utc z l) = l" "fixed_zone z \<Longrightarrow> utc z (local_time z t) = t"
  unfolding fixed_zone_def local_time_def utc_def by simp_all

lemma fixed_zone_shift: "fixed_zone z \<Longrightarrow> local_time z t = t + fst z"
  unfolding fixed_zone_def local_time_def by simp

definition make_date :: "int \<Rightarrow> int \<Rightarrow> int" where
  "make_date day tm = day * 86400000 + tm"

definition make_time :: "int \<Rightarrow> int \<Rightarrow> int \<Rightarrow> int \<Rightarrow> int" where
  "make_time h m s ms = h * 3600000 + m * 60000 + s * 1000 + ms"

definition day_of :: "int \<Rightarrow> int" where "day_of l = l div 86400000"
definition hour_of :: "int \<Rightarrow> int" where "hour_of l = (l div 3600000) mod 24"
definition minute_of :: "int \<Rightarrow> int" where "minute_of l = (l div 60000) mod 60"
definition second_of :: "int \<Rightarrow> int" where "second_of l = (l div 1000) mod 60"
definition milli_of :: "int \<Rightarrow> int" where "milli_of l = l mod 1000"

subsection \<open>The methods of a date\<close>

definition getMonth :: "zone \<Rightarrow> int \<Rightarrow> int" where "getMonth z t = month_of (day_of (local_time z t))"
definition getDate :: "zone \<Rightarrow> int \<Rightarrow> int" where "getDate z t = date_of (day_of (local_time z t))"
definition getDay :: "zone \<Rightarrow> int \<Rightarrow> int" where "getDay z t = week_day (day_of (local_time z t))"
definition getHours :: "zone \<Rightarrow> int \<Rightarrow> int" where "getHours z t = hour_of (local_time z t)"
definition getMinutes :: "zone \<Rightarrow> int \<Rightarrow> int" where "getMinutes z t = minute_of (local_time z t)"

definition setMonth :: "zone \<Rightarrow> int \<Rightarrow> int \<Rightarrow> int" where
  "setMonth z m t = (let l = local_time z t; d = day_of l in
     utc z (make_date (make_day (year_of d) m (date_of d)) (l mod 86400000)))"

definition setDate :: "zone \<Rightarrow> int \<Rightarrow> int \<Rightarrow> int" where
  "setDate z dt t = (let l = local_time z t; d = day_of l in
     utc z (make_date (make_day (year_of d) (month_of d) dt) (l mod 86400000)))"

definition setHours :: "zone \<Rightarrow> int \<Rightarrow> int \<Rightarrow> int" where
  "setHours z h t = (let l = local_time z t in
     utc z (make_date (day_of l) (make_time h (minute_of l) (second_of l) (milli_of l))))"

definition setHours4 :: "zone \<Rightarrow> int \<Rightarrow> int \<Rightarrow> int \<Rightarrow> int \<Rightarrow> int \<Rightarrow> int" where
  "setHours4 z h m s ms t = utc z (make_date (day_of (local_time z t)) (make_time h m s ms))"

definition setMinutes :: "zone \<Rightarrow> int \<Rightarrow> int \<Rightarrow> int" where
  "setMinutes z m t = (let l = local_time z t in
     utc z (make_date (day_of l) (make_time (hour_of l) m (second_of l) (milli_of l))))"

definition setMinutes3 :: "zone \<Rightarrow> int \<Rightarrow> int \<Rightarrow> int \<Rightarrow> int \<Rightarrow> int" where
  "setMinutes3 z m s ms t = (let l = local_time z t in utc z (make_date (day_of l) (make_time (hour_of l) m s ms)))"

definition setSeconds :: "zone \<Rightarrow> int \<Rightarrow> int \<Rightarrow> int \<Rightarrow> int" where
  "setSeconds z s ms t = (let l = local_time z t in utc z (make_date (day_of l) (make_time (hour_of l) (minute_of l) s ms)))"

lemma local_fields: "l = make_date (day_of l) (make_time (hour_of l) (minute_of l) (second_of l) (milli_of l))"
proof -
  have "l div 1000 div 60 = l div 60000" "l div 60000 div 60 = l div 3600000" "l div 3600000 div 24 = l div 86400000"
    by (simp_all add: div_mult2_eq [symmetric] zdiv_zmult2_eq [symmetric])
  then have "l = 1000 * (l div 1000) + milli_of l" "l div 1000 = 60 * (l div 60000) + second_of l"
      "l div 60000 = 60 * (l div 3600000) + minute_of l" "l div 3600000 = 24 * day_of l + hour_of l"
    unfolding milli_of_def second_of_def minute_of_def hour_of_def day_of_def
    by (metis mult_div_mod_eq)+
  then show ?thesis unfolding make_date_def make_time_def by simp
qed

lemma clock_bounds: "0 \<le> hour_of l" "hour_of l < 24" "0 \<le> minute_of l" "minute_of l < 60" "0 \<le> second_of l" "second_of l < 60"
    "0 \<le> milli_of l" "milli_of l < 1000"
  by (simp_all add: hour_of_def minute_of_def second_of_def milli_of_def)

text \<open>Fields of a date composed from fields within their ranges.\<close>

lemma day_of_date: "0 \<le> tm \<Longrightarrow> tm < 86400000 \<Longrightarrow> day_of (make_date d tm) = d"
  unfolding day_of_def make_date_def by simp

lemma time_of_date: "0 \<le> tm \<Longrightarrow> tm < 86400000 \<Longrightarrow> make_date d tm mod 86400000 = tm"
  unfolding make_date_def by simp

end
