(* ===== verification/CronExpr.thy ===== *)
theory CronExpr
  imports Message
begin

section \<open>Cron expressions\<close>

text \<open>
  The parser of five-field cron expressions and their rendering in words, from
  \<^verbatim>\<open>app/cron/cron-expr.ts\<close>. A set of numbers is the list of its elements in the order they
  were added, without repetitions, as the language iterates a set. Numbers that exceed the safe
  integers are out of the range of every field, so integers model them exactly.
\<close>

text \<open>Splitting at runs of white space; the text has none at its ends.\<close>

function split_spaces :: "js_string \<Rightarrow> js_string list" where
  "split_spaces s = (case dropWhile (\<lambda>u. \<not> is_space u) s of
      [] \<Rightarrow> [takeWhile (\<lambda>u. \<not> is_space u) s]
    | u # us \<Rightarrow> takeWhile (\<lambda>u. \<not> is_space u) s # split_spaces (dropWhile is_space us))"
  by auto

termination
proof (relation "measure length")
  fix s u us
  assume "dropWhile (\<lambda>u. \<not> is_space u) s = u # us"
  then have "length (u # us) \<le> length s" using length_dropWhile_le [of "\<lambda>u. \<not> is_space u" s] by simp
  then show "(dropWhile is_space us, s) \<in> measure length"
    using length_dropWhile_le [of is_space us] by simp
qed simp

declare split_spaces.simps [simp del]

record cron_expr =
  ce_raw :: js_string
  ce_minutes :: "int list"
  ce_hours :: "int list"
  ce_daysOfMonth :: "int list"
  ce_months :: "int list"
  ce_daysOfWeek :: "int list"
  ce_daysOfMonthWildcard :: bool
  ce_daysOfWeekWildcard :: bool

datatype cron_error =
    EmptyExpression
  | FieldCount nat
  | EmptyField js_string
  | EmptyTerm js_string
  | NoValues js_string
  | NotDigits js_string js_string js_string
  | EmptyStep js_string js_string
  | StepNotPositive js_string js_string
  | StepWithoutRange js_string js_string
  | ValueOutOfRange js_string int int int
  | RangeOutOfBounds js_string int int int int

definition set_add :: "int \<Rightarrow> int list \<Rightarrow> int list" where
  "set_add v out = (if v \<in> set out then out else out @ [v])"

definition isWildcard :: "js_string \<Rightarrow> bool" where
  "isWildcard field = (field = js ''*'')"

definition parseCronInt :: "js_string \<Rightarrow> js_string \<Rightarrow> js_string \<Rightarrow> (cron_error, int) res" where
  "parseCronInt raw name role =
     (if raw \<noteq> [] \<and> list_all (\<lambda>u. 48 \<le> u \<and> u \<le> 57) raw then Inr (int (digits_value raw))
      else Inl (NotDigits name role raw))"

text \<open>The loop that adds a range. A step below 1 never reaches it: \<open>addTerm\<close> refuses it first.\<close>

function add_range :: "int \<Rightarrow> int \<Rightarrow> int \<Rightarrow> int list \<Rightarrow> int list" where
  "add_range v hi step out = (if v \<le> hi \<and> 0 < step then add_range (v + step) hi step (set_add v out) else out)"
  by auto

termination
  by (relation "measure (\<lambda>(v, hi, step, out). nat (hi + 1 - v))") auto

declare add_range.simps [simp del]

definition term_step :: "js_string \<Rightarrow> js_string \<Rightarrow> (cron_error, js_string \<times> int \<times> bool) res" where
  "term_step name t =
     (if 47 \<in> set t then
        (let rangePart = takeWhile (\<lambda>u. u \<noteq> 47) t; stepStr = tl (dropWhile (\<lambda>u. u \<noteq> 47) t) in
         if stepStr = [] then Inl (EmptyStep name t)
         else bind_res (parseCronInt stepStr name (js ''step'')) (\<lambda>parsedStep.
           if parsedStep \<le> 0 then Inl (StepNotPositive name stepStr)
           else if rangePart = [] then Inl (StepWithoutRange name t)
           else Inr (rangePart, parsedStep, True)))
      else Inr (t, 1, False))"

definition addTerm :: "int list \<Rightarrow> js_string \<Rightarrow> int \<Rightarrow> int \<Rightarrow> js_string \<Rightarrow> (cron_error, int list) res" where
  "addTerm out t lowest highest name =
     bind_res (term_step name t) (\<lambda>(rangePart, step, slash).
       if rangePart = js ''*'' then Inr (add_range lowest highest step out)
       else if 45 \<notin> set rangePart then
         bind_res (parseCronInt rangePart name (js ''value'')) (\<lambda>single.
           if single < lowest \<or> highest < single then Inl (ValueOutOfRange name single lowest highest)
           else if slash then Inr (add_range single highest step out)
           else Inr (set_add single out))
       else
         bind_res (parseCronInt (takeWhile (\<lambda>u. u \<noteq> 45) rangePart) name (js ''range lower bound'')) (\<lambda>lo.
         bind_res (parseCronInt (tl (dropWhile (\<lambda>u. u \<noteq> 45) rangePart)) name (js ''range upper bound'')) (\<lambda>hi.
           if lo < lowest \<or> highest < hi \<or> hi < lo then Inl (RangeOutOfBounds name lo hi lowest highest)
           else Inr (add_range lo hi step out))))"

fun addTerms :: "int list \<Rightarrow> js_string list \<Rightarrow> int \<Rightarrow> int \<Rightarrow> js_string \<Rightarrow> (cron_error, int list) res" where
  "addTerms out [] lowest highest name = Inr out"
| "addTerms out (t # ts) lowest highest name =
     (if t = [] then Inl (EmptyTerm name)
      else bind_res (addTerm out t lowest highest name) (\<lambda>out'. addTerms out' ts lowest highest name))"

definition parseField :: "js_string \<Rightarrow> int \<Rightarrow> int \<Rightarrow> js_string \<Rightarrow> (cron_error, int list) res" where
  "parseField field lowest highest name =
     (if field = [] then Inl (EmptyField name)
      else bind_res (addTerms [] (split_at 44 field) lowest highest name) (\<lambda>out.
        if out = [] then Inl (NoValues name) else Inr out))"

fun add_days :: "int list \<Rightarrow> int list \<Rightarrow> int list" where
  "add_days out [] = out"
| "add_days out (v # vs) = add_days (set_add (if v = 7 then 0 else v) out) vs"

definition parseCronExpression :: "js_string \<Rightarrow> (cron_error, cron_expr) res" where
  "parseCronExpression expr =
     (let trimmed = trim expr in
      if trimmed = [] then Inl EmptyExpression
      else case split_spaces trimmed of
        [minField, hourField, domField, monthField, dowField] \<Rightarrow>
          bind_res (parseField minField 0 59 (js ''minute'')) (\<lambda>minutes.
          bind_res (parseField hourField 0 23 (js ''hour'')) (\<lambda>hours.
          bind_res (parseField domField 1 31 (js ''day-of-month'')) (\<lambda>daysOfMonth.
          bind_res (parseField monthField 1 12 (js ''month'')) (\<lambda>months.
          bind_res (parseField dowField 0 7 (js ''day-of-week'')) (\<lambda>dowRaw.
            Inr \<lparr>ce_raw = trimmed, ce_minutes = minutes, ce_hours = hours, ce_daysOfMonth = daysOfMonth,
                 ce_months = months, ce_daysOfWeek = add_days [] dowRaw,
                 ce_daysOfMonthWildcard = isWildcard domField, ce_daysOfWeekWildcard = isWildcard dowField\<rparr>)))))
      | parts \<Rightarrow> Inl (FieldCount (length parts)))"

subsection \<open>In words\<close>

fun holds_from :: "int list \<Rightarrow> int \<Rightarrow> nat \<Rightarrow> bool" where
  "holds_from s v 0 = True"
| "holds_from s v (Suc n) = (v \<in> set s \<and> holds_from s (v + 1) n)"

definition isFullRange :: "int list \<Rightarrow> int \<Rightarrow> int \<Rightarrow> bool" where
  "isFullRange s lowest highest =
     (int (length s) = highest - lowest + 1 \<and> holds_from s lowest (nat (highest - lowest + 1)))"

fun step_loop :: "int list \<Rightarrow> int \<Rightarrow> int \<Rightarrow> int option" where
  "step_loop [] expected step = Some expected"
| "step_loop (v # vs) expected step = (if v \<noteq> expected then None else step_loop vs (expected + step) step)"

definition detectStep :: "int list \<Rightarrow> int \<Rightarrow> int \<Rightarrow> int option" where
  "detectStep s lowest highest =
     (case sort s of
        v0 # v1 # vs \<Rightarrow>
          if v0 \<noteq> lowest then None
          else let step = v1 - v0 in
            if step \<le> 0 then None
            else (case step_loop (v0 # v1 # vs) lowest step of
                None \<Rightarrow> None
              | Some expected \<Rightarrow> if expected - step > highest then None else Some step)
      | _ \<Rightarrow> None)"

definition MONTH_NAMES :: "js_string list" where
  "MONTH_NAMES = [js ''January'', js ''February'', js ''March'', js ''April'', js ''May'', js ''June'', js ''July'',
     js ''August'', js ''September'', js ''October'', js ''November'', js ''December'']"

definition DAY_NAMES :: "js_string list" where
  "DAY_NAMES = [js ''Sunday'', js ''Monday'', js ''Tuesday'', js ''Wednesday'', js ''Thursday'', js ''Friday'', js ''Saturday'']"

definition formatDows :: "int list \<Rightarrow> js_string option" where
  "formatDows s = (let values = sort s in
     if values = [] then None
     else if values = [1, 2, 3, 4, 5] then Some (js ''weekdays'')
     else if values = [0, 6] then Some (js ''weekends'')
     else Some (join_with (js '', '') (map (\<lambda>v. DAY_NAMES ! nat v) values)))"

definition pad :: "int \<Rightarrow> js_string" where
  "pad n = (if n < 10 then 48 # int_text n else int_text n)"

definition or_else :: "'a option \<Rightarrow> 'a option \<Rightarrow> 'a option" where
  "or_else a b = (case a of None \<Rightarrow> b | Some _ \<Rightarrow> a)"

definition every_hour_text :: "cron_expr \<Rightarrow> js_string option" where
  "every_hour_text e =
     or_else (case detectStep (ce_minutes e) 0 59 of
        Some step \<Rightarrow> if step > 1 then Some (js ''every '' @ int_text step @ js '' minutes'') else None
      | None \<Rightarrow> None)
     (if isFullRange (ce_minutes e) 0 59 then Some (js ''every minute'')
      else if length (ce_minutes e) = 1 then Some (js ''at minute '' @ int_text (hd (ce_minutes e)) @ js '' of every hour'')
      else None)"

definition step_hours_text :: "cron_expr \<Rightarrow> js_string option" where
  "step_hours_text e =
     (case detectStep (ce_hours e) 0 23 of
        Some step \<Rightarrow> if step > 1 then Some (js ''every '' @ int_text step @ js '' hours at minute '' @ pad (hd (ce_minutes e))) else None
      | None \<Rightarrow> None)"

definition clock_text :: "cron_expr \<Rightarrow> js_string" where
  "clock_text e = js ''at '' @ pad (hd (ce_hours e)) @ js '':'' @ pad (hd (ce_minutes e))"

definition cronToHuman :: "cron_expr \<Rightarrow> js_string" where
  "cronToHuman e =
     (let allHour = isFullRange (ce_hours e) 0 23; allDom = ce_daysOfMonthWildcard e;
          allMonth = isFullRange (ce_months e) 1 12; allDow = ce_daysOfWeekWildcard e;
          one_minute = (length (ce_minutes e) = 1); one_hour = (length (ce_hours e) = 1) in
      case or_else (if allHour \<and> allDom \<and> allMonth \<and> allDow then every_hour_text e else None)
          (or_else (if one_minute \<and> allDom \<and> allMonth \<and> allDow then step_hours_text e else None)
          (or_else (if one_minute \<and> one_hour \<and> allDom \<and> allMonth
                    then (if allDow then Some (clock_text e @ js '' every day'')
                          else map_option (\<lambda>d. clock_text e @ js '' on '' @ d) (formatDows (ce_daysOfWeek e)))
                    else None)
            (if one_minute \<and> one_hour \<and> length (ce_daysOfMonth e) = 1 \<and> \<not> ce_daysOfMonthWildcard e
                \<and> length (ce_months e) = 1 \<and> allDow
             then Some (clock_text e @ js '' on day '' @ int_text (hd (ce_daysOfMonth e)) @ js '' of ''
               @ MONTH_NAMES ! nat (hd (ce_months e) - 1)) else None)))
      of Some text \<Rightarrow> text | None \<Rightarrow> ce_raw e)"

subsection \<open>Properties of the parser\<close>

text \<open>What a range adds.\<close>

lemma set_set_add [simp]: "set (set_add v out) = insert v (set out)"
  by (auto simp: set_add_def)

lemma distinct_set_add [simp]: "distinct out \<Longrightarrow> distinct (set_add v out)"
  by (simp add: set_add_def)

lemma set_add_range: "0 < step \<Longrightarrow> set (add_range v hi step out) = set out \<union> {w. v \<le> w \<and> w \<le> hi \<and> (w - v) mod step = 0}"
proof (induction v hi step out rule: add_range.induct)
  case (1 v hi step out)
  show ?case
  proof (cases "v \<le> hi")
    case True
    have "{w. v \<le> w \<and> w \<le> hi \<and> (w - v) mod step = 0}
        = insert v {w. v + step \<le> w \<and> w \<le> hi \<and> (w - (v + step)) mod step = 0}"
    proof (intro set_eqI iffI)
      fix w
      assume w: "w \<in> {w. v \<le> w \<and> w \<le> hi \<and> (w - v) mod step = 0}"
      have m: "(w - (v + step)) mod step = (w - v) mod step" by (simp add: diff_diff_eq [symmetric])
      have "v + step \<le> w" if "w \<noteq> v"
      proof (rule ccontr)
        assume "\<not> v + step \<le> w"
        then have "(w - v) mod step = w - v" using w by (intro mod_pos_pos_trivial) auto
        then show False using w that by simp
      qed
      then show "w \<in> insert v {w. v + step \<le> w \<and> w \<le> hi \<and> (w - (v + step)) mod step = 0}" using w m by auto
    next
      fix w
      have m: "(w - (v + step)) mod step = (w - v) mod step" by (simp add: diff_diff_eq [symmetric])
      assume "w \<in> insert v {w. v + step \<le> w \<and> w \<le> hi \<and> (w - (v + step)) mod step = 0}"
      then show "w \<in> {w. v \<le> w \<and> w \<le> hi \<and> (w - v) mod step = 0}" using m True 1(2) by auto
    qed
    then show ?thesis using 1 True by (simp add: add_range.simps [of v])
  next
    case False
    then show ?thesis by (auto simp: add_range.simps [of v])
  qed
qed

lemma distinct_add_range: "distinct out \<Longrightarrow> distinct (add_range v hi step out)"
proof (induction v hi step out rule: add_range.induct)
  case (1 v hi step out)
  then show ?case by (cases "v \<le> hi \<and> 0 < step") (auto simp: add_range.simps [of v])
qed

text \<open>What a parsed expression is: every set holds numbers of its field only, each once, and at least one.\<close>

definition within :: "int \<Rightarrow> int \<Rightarrow> int list \<Rightarrow> bool" where
  "within lowest highest s \<longleftrightarrow> list_all (\<lambda>v. lowest \<le> v \<and> v \<le> highest) s \<and> distinct s"

definition cron_ok :: "cron_expr \<Rightarrow> bool" where
  "cron_ok e \<longleftrightarrow> within 0 59 (ce_minutes e) \<and> ce_minutes e \<noteq> [] \<and> within 0 23 (ce_hours e) \<and> ce_hours e \<noteq> []
     \<and> within 1 31 (ce_daysOfMonth e) \<and> ce_daysOfMonth e \<noteq> [] \<and> within 1 12 (ce_months e) \<and> ce_months e \<noteq> []
     \<and> within 0 6 (ce_daysOfWeek e) \<and> ce_daysOfWeek e \<noteq> []"

lemma within_set_add: "within lowest highest s \<Longrightarrow> lowest \<le> v \<Longrightarrow> v \<le> highest \<Longrightarrow> within lowest highest (set_add v s)"
  by (auto simp: within_def list_all_iff)

lemma within_add_range:
  assumes "within lowest highest s" "lowest \<le> v" "hi \<le> highest" "0 < step"
  shows "within lowest highest (add_range v hi step s)"
  using assms distinct_add_range [of s v hi step] unfolding within_def list_all_iff set_add_range [OF assms(4)] by auto

lemma term_step_positive: "term_step name t = Inr (r, step, slash) \<Longrightarrow> 0 < step"
  unfolding term_step_def Let_def by (auto simp: bind_res_Inr split: if_splits)

lemma parseCronInt_value: "parseCronInt raw name role = Inr v \<Longrightarrow> 0 \<le> v"
  by (auto simp: parseCronInt_def split: if_splits)

lemma within_addTerm:
  assumes "addTerm out t lowest highest name = Inr out'" "within lowest highest out"
  shows "within lowest highest out'"
proof -
  obtain r step slash where s: "term_step name t = Inr (r, step, slash)"
    using assms(1) unfolding addTerm_def by (cases "term_step name t") auto
  show ?thesis using assms term_step_positive [OF s] unfolding addTerm_def s
    by (auto simp: bind_res_Inr split: if_splits intro!: within_add_range within_set_add)
qed

lemma within_addTerms: "addTerms out ts lowest highest name = Inr out' \<Longrightarrow> within lowest highest out \<Longrightarrow> within lowest highest out'"
proof (induction ts arbitrary: out)
  case (Cons t ts)
  then show ?case by (auto simp: bind_res_Inr split: if_splits dest: within_addTerm)
qed simp

lemma parseField_within: "parseField field lowest highest name = Inr s \<Longrightarrow> within lowest highest s \<and> s \<noteq> []"
  unfolding parseField_def by (auto simp: bind_res_Inr within_def split: if_splits dest!: within_addTerms)

lemma add_days_set: "set (add_days out vs) = set out \<union> (\<lambda>v. if v = 7 then 0 else v) ` set vs"
  by (induction vs arbitrary: out) auto

lemma add_days_distinct: "distinct out \<Longrightarrow> distinct (add_days out vs)"
  by (induction vs arbitrary: out) auto

lemma add_days_within: "within 0 7 vs \<Longrightarrow> vs \<noteq> [] \<Longrightarrow> within 0 6 (add_days [] vs) \<and> add_days [] vs \<noteq> []"
proof -
  assume a: "within 0 7 vs" "vs \<noteq> []"
  have s: "set (add_days [] vs) = (\<lambda>v. if v = 7 then 0 else v) ` set vs" by (simp add: add_days_set)
  have "add_days [] vs \<noteq> []" using s a(2) by (metis image_is_empty set_empty)
  moreover have "within 0 6 (add_days [] vs)" using a(1) unfolding within_def list_all_iff s
    by (auto simp: add_days_distinct)
  ultimately show ?thesis by simp
qed

lemma parse_ok: "parseCronExpression expr = Inr e \<Longrightarrow> cron_ok e"
proof -
  assume p: "parseCronExpression expr = Inr e"
  obtain a b c d f where f: "split_spaces (trim expr) = [a, b, c, d, f]" "trim expr \<noteq> []"
    using p unfolding parseCronExpression_def Let_def by (auto split: if_splits list.splits)
  obtain mi ho da mo w where x: "parseField a 0 59 (js ''minute'') = Inr mi" "parseField b 0 23 (js ''hour'') = Inr ho"
      "parseField c 1 31 (js ''day-of-month'') = Inr da" "parseField d 1 12 (js ''month'') = Inr mo"
      "parseField f 0 7 (js ''day-of-week'') = Inr w"
      "e = \<lparr>ce_raw = trim expr, ce_minutes = mi, ce_hours = ho, ce_daysOfMonth = da, ce_months = mo,
            ce_daysOfWeek = add_days [] w, ce_daysOfMonthWildcard = isWildcard c, ce_daysOfWeekWildcard = isWildcard f\<rparr>"
    using p f unfolding parseCronExpression_def Let_def by (auto simp: bind_res_Inr)
  show ?thesis using x(1-5) [THEN parseField_within] add_days_within [of w] unfolding cron_ok_def x(6) by simp
qed

end
