(* ===== verification/CronNext.thy ===== *)
theory CronNext
  imports Complex_Main Calendar CronExpr
begin

section \<open>The next run of a cron expression\<close>

text \<open>
  The search for the next instant an expression matches, from \<^verbatim>\<open>app/cron/cron-expr.ts\<close>. The date
  the code mutates is a time value that is passed on; the local time zone of the machine is a
  parameter. The loop carries the code's own iteration limit, which bounds its recursion.
\<close>

definition dayMatches :: "zone \<Rightarrow> cron_expr \<Rightarrow> int \<Rightarrow> bool" where
  "dayMatches z e date =
     (let domOk = (getDate z date \<in> set (ce_daysOfMonth e)); dowOk = (getDay z date \<in> set (ce_daysOfWeek e)) in
      if ce_daysOfMonthWildcard e \<and> ce_daysOfWeekWildcard e then True
      else if ce_daysOfMonthWildcard e then dowOk
      else if ce_daysOfWeekWildcard e then domOk
      else domOk \<or> dowOk)"

definition advanceMonth :: "zone \<Rightarrow> int \<Rightarrow> int" where
  "advanceMonth z date = (let d = setHours4 z 0 0 0 0 (setDate z 1 date) in setMonth z (getMonth z d + 1) d)"

definition advanceDay :: "zone \<Rightarrow> int \<Rightarrow> int" where
  "advanceDay z date = (let d = setHours4 z 0 0 0 0 date in setDate z (getDate z d + 1) d)"

definition advanceHour :: "zone \<Rightarrow> int \<Rightarrow> int" where
  "advanceHour z date = (let d = setMinutes3 z 0 0 0 date in setHours z (getHours z d + 1) d)"

definition advanceMinute :: "zone \<Rightarrow> int \<Rightarrow> int" where
  "advanceMinute z date = (let d = setSeconds z 0 0 date in setMinutes z (getMinutes z d + 1) d)"

definition HARD_ITERATION_CAP :: int where
  "HARD_ITERATION_CAP = 10000000"

function next_loop :: "zone \<Rightarrow> cron_expr \<Rightarrow> int \<Rightarrow> int \<Rightarrow> int \<Rightarrow> int option" where
  "next_loop z e deadline iterations date =
     (if date \<le> deadline \<and> iterations < HARD_ITERATION_CAP then
        if getMonth z date + 1 \<notin> set (ce_months e) then next_loop z e deadline (iterations + 1) (advanceMonth z date)
        else if \<not> dayMatches z e date then next_loop z e deadline (iterations + 1) (advanceDay z date)
        else if getHours z date \<notin> set (ce_hours e) then next_loop z e deadline (iterations + 1) (advanceHour z date)
        else if getMinutes z date \<notin> set (ce_minutes e) then next_loop z e deadline (iterations + 1) (advanceMinute z date)
        else Some date
      else None)"
  by auto

termination
  by (relation "measure (\<lambda>(z, e, deadline, iterations, date). nat (HARD_ITERATION_CAP - iterations))") auto

declare next_loop.simps [simp del]

definition nextRunWithinMinutes :: "zone \<Rightarrow> cron_expr \<Rightarrow> int \<Rightarrow> int \<Rightarrow> int option" where
  "nextRunWithinMinutes z e fromMs capMinutes =
     (let start = setSeconds z 0 0 fromMs; date = start + 60000; deadlineMs = fromMs + capMinutes * 60000 in
      next_loop z e deadlineMs 0 date)"

definition computeNextCronRun :: "zone \<Rightarrow> cron_expr \<Rightarrow> int \<Rightarrow> int option" where
  "computeNextCronRun z e fromMs = nextRunWithinMinutes z e fromMs (5 * 366 * 24 * 60)"

definition hasFireWithinYears :: "zone \<Rightarrow> cron_expr \<Rightarrow> rat \<Rightarrow> int \<Rightarrow> bool" where
  "hasFireWithinYears z e years fromMs =
     (let capMin = max 1 \<lfloor>years * 366 * 24 * 60\<rfloor> in nextRunWithinMinutes z e fromMs capMin \<noteq> None)"

subsection \<open>What a match is\<close>

text \<open>An instant whose local fields the expression admits.\<close>

definition cron_matches :: "zone \<Rightarrow> cron_expr \<Rightarrow> int \<Rightarrow> bool" where
  "cron_matches z e t \<longleftrightarrow> getMonth z t + 1 \<in> set (ce_months e) \<and> dayMatches z e t
     \<and> getHours z t \<in> set (ce_hours e) \<and> getMinutes z t \<in> set (ce_minutes e)"

text \<open>In every zone, what the search returns matches and lies within the deadline.\<close>

lemma next_loop_sound: "next_loop z e deadline n date = Some t \<Longrightarrow> cron_matches z e t \<and> t \<le> deadline"
proof (induction z e deadline n date rule: next_loop.induct)
  case (1 z e deadline n date)
  from 1(5) show ?case
    using 1(1-4) by (subst (asm) next_loop.simps) (auto simp: cron_matches_def split: if_splits)
qed

subsection \<open>The steps in a zone with one offset\<close>

text \<open>A local time cut to a unit keeps the fields above the unit, and has the lower ones zero.\<close>

lemma cut_div: "0 < j \<Longrightarrow> (x div k * k) div (k * j) = x div (k * j)" for j k x :: int
  by (cases "k = 0") (simp_all add: zdiv_zmult2_eq)

lemma cut_minute:
  fixes l :: int
  defines "m \<equiv> l div 60000 * 60000"
  shows "day_of m = day_of l" "hour_of m = hour_of l" "minute_of m = minute_of l" "second_of m = 0" "milli_of m = 0"
    "m = make_date (day_of l) (make_time (hour_of l) (minute_of l) 0 0)"
proof -
  show 1: "day_of m = day_of l" "hour_of m = hour_of l" "minute_of m = minute_of l"
    using cut_div [of 1440 l 60000] cut_div [of 60 l 60000]
    unfolding m_def day_of_def hour_of_def minute_of_def by simp_all
  have "m div 1000 = l div 60000 * 60" unfolding m_def by simp
  then show 2: "second_of m = 0" "milli_of m = 0" unfolding second_of_def milli_of_def by (simp_all add: m_def mod_mult_eq)
  show "m = make_date (day_of l) (make_time (hour_of l) (minute_of l) 0 0)" using local_fields [of m] unfolding 1 2 .
qed

lemma cut_hour:
  fixes l :: int
  defines "m \<equiv> l div 3600000 * 3600000"
  shows "day_of m = day_of l" "hour_of m = hour_of l" "minute_of m = 0" "second_of m = 0" "milli_of m = 0"
    "m = make_date (day_of l) (make_time (hour_of l) 0 0 0)"
proof -
  show 1: "day_of m = day_of l" "hour_of m = hour_of l"
    using cut_div [of 24 l 3600000] unfolding m_def day_of_def hour_of_def by simp_all
  have "m div 60000 = l div 3600000 * 60" "m div 1000 = l div 3600000 * 3600" unfolding m_def by simp_all
  moreover have "l div 3600000 * 3600 mod 60 = 0" using mod_mult_right_eq [of "l div 3600000" 3600 60] by simp
  ultimately show 2: "minute_of m = 0" "second_of m = 0" "milli_of m = 0"
    unfolding minute_of_def second_of_def milli_of_def by (simp_all add: m_def mod_mult_eq)
  show "m = make_date (day_of l) (make_time (hour_of l) 0 0 0)" using local_fields [of m] unfolding 1 2 .
qed

lemma cut_day:
  "day_of (make_date d 0) = d" "hour_of (make_date d 0) = 0" "minute_of (make_date d 0) = 0" "make_date d 0 mod 86400000 = 0"
proof -
  have "make_date d 0 div 3600000 = d * 24" "make_date d 0 div 60000 = d * 1440" unfolding make_date_def by simp_all
  moreover have "d * 1440 mod 60 = 0" using mod_mult_right_eq [of d 1440 60] by simp
  ultimately show "hour_of (make_date d 0) = 0" "minute_of (make_date d 0) = 0" unfolding hour_of_def minute_of_def by simp_all
  show "day_of (make_date d 0) = d" "make_date d 0 mod 86400000 = 0" by (simp_all add: day_of_def make_date_def)
qed

lemma setSeconds_local: "fixed_zone z \<Longrightarrow> local_time z (setSeconds z 0 0 t) = local_time z t div 60000 * 60000"
  unfolding setSeconds_def Let_def by (simp add: fixed_zone_inverse cut_minute(6) [symmetric])

lemma minute_carry: "make_date (day_of l) (make_time (hour_of l) (minute_of l + 1) 0 0) = (l div 60000 + 1) * 60000"
proof -
  obtain q where q: "l div 60000 = q" by simp
  show ?thesis using cut_minute(6) [of l] unfolding make_date_def make_time_def q by (simp add: distrib_right)
qed

lemma hour_carry: "make_date (day_of l) (make_time (hour_of l + 1) 0 0 0) = (l div 3600000 + 1) * 3600000"
proof -
  obtain q where q: "l div 3600000 = q" by simp
  show ?thesis using cut_hour(6) [of l] unfolding make_date_def make_time_def q by (simp add: distrib_right)
qed

lemma advanceMinute_local: "fixed_zone z \<Longrightarrow> local_time z (advanceMinute z t) = (local_time z t div 60000 + 1) * 60000"
  unfolding advanceMinute_def setMinutes_def Let_def getMinutes_def
  by (simp only: fixed_zone_inverse setSeconds_local cut_minute(1-5) minute_carry)

lemma advanceHour_local: "fixed_zone z \<Longrightarrow> local_time z (advanceHour z t) = (local_time z t div 3600000 + 1) * 3600000"
proof -
  assume z: "fixed_zone z"
  have "local_time z (setMinutes3 z 0 0 0 t) = local_time z t div 3600000 * 3600000"
    unfolding setMinutes3_def Let_def by (simp only: fixed_zone_inverse z cut_hour(6) [symmetric])
  then show ?thesis unfolding advanceHour_def setHours_def Let_def getHours_def
    by (simp only: fixed_zone_inverse z cut_hour(1-5) hour_carry)
qed

lemma midnight_local: "fixed_zone z \<Longrightarrow> local_time z (setHours4 z 0 0 0 0 t) = make_date (day_of (local_time z t)) 0"
  unfolding setHours4_def by (simp add: fixed_zone_inverse make_time_def)

lemma advanceDay_local: "fixed_zone z \<Longrightarrow> local_time z (advanceDay z t) = make_date (day_of (local_time z t) + 1) 0"
  unfolding advanceDay_def setDate_def Let_def getDate_def
  by (simp add: fixed_zone_inverse midnight_local cut_day make_day_date)

lemma first_of_month: "make_day (year_of d) (month_of d) 1 = d - date_of d + 1"
  using make_day_date [of d "1 - date_of d"] by simp

lemma date_bounds: "1 \<le> date_of d"
  using month_bounds(3) [of d] unfolding date_of_def by simp

text \<open>The first day of a month has its year and its month.\<close>

lemma first_fields:
  defines "f \<equiv> \<lambda>d. make_day (year_of d) (month_of d) 1"
  shows "year_of (f d) = year_of d" "month_of (f d) = month_of d" "date_of (f d) = 1"
proof -
  have f: "f d = day_from_year (year_of d) + month_start (leap_year (year_of d)) (month_of d)"
    unfolding f_def first_of_month date_of_def by simp
  have s: "0 \<le> month_start (leap_year (year_of d)) (month_of d)" by (simp add: month_start_def)
  show y: "year_of (f d) = year_of d"
    by (rule year_of_unique) (use f s month_bounds(3) [of d] year_bounds [of d] in linarith)+
  show m: "month_of (f d) = month_of d" unfolding month_of_def [of "f d"] y
    by (rule month_in_unique) (use f month_bounds [of d] in linarith)+
  show "date_of (f d) = 1" unfolding date_of_def y m using f by simp
qed

lemma advanceMonth_local: "fixed_zone z \<Longrightarrow> local_time z (advanceMonth z t) = make_date (month_end (day_of (local_time z t))) 0"
proof -
  assume z: "fixed_zone z"
  let ?d = "day_of (local_time z t)"
  have "local_time z (setDate z 1 t) = make_date (make_day (year_of ?d) (month_of ?d) 1) (local_time z t mod 86400000)"
    unfolding setDate_def Let_def by (simp add: fixed_zone_inverse z)
  then have "local_time z (setHours4 z 0 0 0 0 (setDate z 1 t)) = make_date (make_day (year_of ?d) (month_of ?d) 1) 0"
    by (simp add: midnight_local z day_of_date)
  then show ?thesis unfolding advanceMonth_def setMonth_def Let_def getMonth_def month_end_def
    by (simp add: fixed_zone_inverse z cut_day first_fields)
qed

end
