(* ===== verification/CronSearch.thy ===== *)
theory CronSearch
  imports CronNext
begin

section \<open>The search finds the first run\<close>

text \<open>
  In a zone with one offset every step of the search skips only instants that do not match, so the
  search returns the first run after the given instant, and nothing exactly when there is none
  until the deadline. Where the offset changes the search is only sound: an example shows that in
  a repeated hour it returns an instant that has already passed.
\<close>

definition day_ok :: "cron_expr \<Rightarrow> int \<Rightarrow> bool" where
  "day_ok e d = (let domOk = (date_of d \<in> set (ce_daysOfMonth e)); dowOk = (week_day d \<in> set (ce_daysOfWeek e)) in
      if ce_daysOfMonthWildcard e \<and> ce_daysOfWeekWildcard e then True
      else if ce_daysOfMonthWildcard e then dowOk
      else if ce_daysOfWeekWildcard e then domOk
      else domOk \<or> dowOk)"

definition local_match :: "cron_expr \<Rightarrow> int \<Rightarrow> bool" where
  "local_match e l \<longleftrightarrow> month_of (day_of l) + 1 \<in> set (ce_months e) \<and> day_ok e (day_of l)
     \<and> hour_of l \<in> set (ce_hours e) \<and> minute_of l \<in> set (ce_minutes e)"

lemma dayMatches_local: "dayMatches z e t = day_ok e (day_of (local_time z t))"
  unfolding dayMatches_def day_ok_def getDate_def getDay_def ..

lemma matches_local: "cron_matches z e t = local_match e (local_time z t)"
  unfolding cron_matches_def local_match_def dayMatches_local getMonth_def getHours_def getMinutes_def ..

text \<open>The runs of an expression: the beginnings of the minutes it matches.\<close>

definition cron_run :: "zone \<Rightarrow> cron_expr \<Rightarrow> int \<Rightarrow> bool" where
  "cron_run z e t \<longleftrightarrow> local_time z t mod 60000 = 0 \<and> cron_matches z e t"

text \<open>One step of the search in local time: it moves on by at least a minute and skips no match.\<close>

definition skips :: "cron_expr \<Rightarrow> int \<Rightarrow> int \<Rightarrow> bool" where
  "skips e l l' \<longleftrightarrow> l + 60000 \<le> l' \<and> l' mod 60000 = 0 \<and> (\<forall>k. l \<le> k \<longrightarrow> k < l' \<longrightarrow> \<not> local_match e k)"

lemma same_cut:
  fixes c k l :: int
  assumes "l \<le> k" "k < (l div c + 1) * c" "0 < c"
  shows "k div c = l div c"
proof (rule antisym)
  show "l div c \<le> k div c" using assms(1,3) by (rule zdiv_mono1)
  have "\<not> l div c + 1 \<le> k div c"
  proof
    assume "l div c + 1 \<le> k div c"
    then have "(l div c + 1) * c \<le> k div c * c" using assms(3) by (intro mult_right_mono) auto
    then show False using assms(2) div_bounds(1) [OF assms(3), of k] by (simp add: mult.commute)
  qed
  then show "k div c \<le> l div c" by simp
qed

lemma step_ahead:
  fixes c l :: int
  assumes "0 < c" "c mod 60000 = 0" "l mod 60000 = 0"
  shows "l + 60000 \<le> (l div c + 1) * c" "(l div c + 1) * c mod 60000 = 0"
proof -
  obtain b where b: "c = 60000 * b" using assms(2) by (metis mult_div_mod_eq add.right_neutral)
  obtain m where m: "l = 60000 * m" using assms(3) by (metis mult_div_mod_eq add.right_neutral)
  obtain n where n: "(l div c + 1) * c = 60000 * n" unfolding b by (metis mult.left_commute)
  have "l < (l div c + 1) * c" using div_bounds(2) [OF assms(1), of l] by (simp add: algebra_simps)
  then have "l < 60000 * n" unfolding n .
  then have "m + 1 \<le> n" using m by simp
  then have "60000 * m + 60000 \<le> 60000 * n" by simp
  then show "l + 60000 \<le> (l div c + 1) * c" unfolding n using m by simp
  show "(l div c + 1) * c mod 60000 = 0" unfolding n by simp
qed

lemma skips_cut:
  assumes "0 < c" "c mod 60000 = 0" "l mod 60000 = 0" "\<And>k. k div c = l div c \<Longrightarrow> \<not> local_match e k"
  shows "skips e l ((l div c + 1) * c)"
  unfolding skips_def
proof (intro conjI allI impI)
  show "l + 60000 \<le> (l div c + 1) * c" "(l div c + 1) * c mod 60000 = 0" using step_ahead [OF assms(1-3)] .
  show "\<not> local_match e k" if "l \<le> k" "k < (l div c + 1) * c" for k
    by (rule assms(4)) (rule same_cut [OF that assms(1)])
qed

lemma skips_minute: "l mod 60000 = 0 \<Longrightarrow> minute_of l \<notin> set (ce_minutes e) \<Longrightarrow> skips e l ((l div 60000 + 1) * 60000)"
  by (rule skips_cut) (simp_all add: local_match_def minute_of_def)

lemma skips_hour: "l mod 60000 = 0 \<Longrightarrow> hour_of l \<notin> set (ce_hours e) \<Longrightarrow> skips e l ((l div 3600000 + 1) * 3600000)"
  by (rule skips_cut) (simp_all add: local_match_def hour_of_def)

lemma day_cut: "make_date (day_of l + 1) 0 = (l div 86400000 + 1) * 86400000"
  by (simp add: make_date_def day_of_def)

lemma skips_day: "l mod 60000 = 0 \<Longrightarrow> \<not> day_ok e (day_of l) \<Longrightarrow> skips e l (make_date (day_of l + 1) 0)"
  unfolding day_cut by (rule skips_cut) (simp_all add: local_match_def day_of_def)

lemma skips_month:
  assumes "l mod 60000 = 0" "month_of (day_of l) + 1 \<notin> set (ce_months e)"
  shows "skips e l (make_date (month_end (day_of l)) 0)"
  unfolding skips_def
proof (intro conjI allI impI)
  have e: "make_date d 0 = 86400000 * d" for d by (simp add: make_date_def)
  have "make_date (day_of l + 1) 0 \<le> make_date (month_end (day_of l)) 0"
    using month_end_after [of "day_of l"] unfolding e by simp
  moreover have "l + 60000 \<le> make_date (day_of l + 1) 0"
    unfolding day_cut by (rule step_ahead(1) [OF _ _ assms(1)]) simp_all
  ultimately show "l + 60000 \<le> make_date (month_end (day_of l)) 0" by linarith
  show "make_date (month_end (day_of l)) 0 mod 60000 = 0"
    using mod_mult_right_eq [of "month_end (day_of l)" 86400000 60000] by (simp add: make_date_def)
  show "\<not> local_match e k" if "l \<le> k" "k < make_date (month_end (day_of l)) 0" for k
  proof -
    have "day_of l \<le> day_of k" unfolding day_of_def using that(1) by (intro zdiv_mono1) simp_all
    moreover have "day_of k < month_end (day_of l)"
      using that(2) div_bounds(1) [of 86400000 k] unfolding e day_of_def by simp
    ultimately have "month_of (day_of k) = month_of (day_of l)" by (rule month_same)
    then show ?thesis using assms(2) by (simp add: local_match_def)
  qed
qed

text \<open>The loop, as long as the iteration limit covers the minutes until the deadline.\<close>

definition first_run :: "zone \<Rightarrow> cron_expr \<Rightarrow> int \<Rightarrow> int \<Rightarrow> int option \<Rightarrow> bool" where
  "first_run z e start deadline r = (case r of
      Some t \<Rightarrow> cron_run z e t \<and> start \<le> t \<and> t \<le> deadline \<and> (\<forall>k. start \<le> k \<longrightarrow> k < t \<longrightarrow> \<not> cron_run z e k)
    | None \<Rightarrow> \<forall>k. start \<le> k \<longrightarrow> k \<le> deadline \<longrightarrow> \<not> cron_run z e k)"

lemma first_run_skip:
  assumes "fixed_zone z" "skips e (local_time z date) (local_time z date')" "first_run z e date' deadline r"
  shows "first_run z e date deadline r"
proof -
  have le: "date \<le> date'" using assms(2) fixed_zone_shift [OF assms(1)] unfolding skips_def by simp
  have no: "\<not> cron_run z e k" if "date \<le> k" "k < date'" for k
    using assms(2) that fixed_zone_shift [OF assms(1)] unfolding skips_def cron_run_def matches_local by simp
  then have no': "date' \<le> k" if "cron_run z e k" "date \<le> k" for k using that by (meson not_le)
  show ?thesis using assms(3) le no' unfolding first_run_def by (cases r) auto
qed

lemma next_loop_first:
  "fixed_zone z \<Longrightarrow> local_time z date mod 60000 = 0 \<Longrightarrow> deadline < date + (HARD_ITERATION_CAP - n) * 60000 \<Longrightarrow>
    first_run z e date deadline (next_loop z e deadline n date)"
proof (induction z e deadline n date rule: next_loop.induct)
  case (1 z e deadline n date)
  note fz = 1(5)
  have step: "first_run z e date deadline (next_loop z e deadline (n + 1) date')"
    if "skips e (local_time z date) (local_time z date')"
      "local_time z date' mod 60000 = 0 \<Longrightarrow> deadline < date' + (HARD_ITERATION_CAP - (n + 1)) * 60000 \<Longrightarrow>
        first_run z e date' deadline (next_loop z e deadline (n + 1) date')" for date'
    using first_run_skip [OF fz that(1)] that 1(7) fixed_zone_shift [OF fz] unfolding skips_def by simp
  show ?case
  proof (cases "date \<le> deadline \<and> n < HARD_ITERATION_CAP")
    case True
    consider (month) "getMonth z date + 1 \<notin> set (ce_months e)"
      | (day) "getMonth z date + 1 \<in> set (ce_months e)" "\<not> dayMatches z e date"
      | (hour) "getMonth z date + 1 \<in> set (ce_months e)" "dayMatches z e date" "getHours z date \<notin> set (ce_hours e)"
      | (minute) "getMonth z date + 1 \<in> set (ce_months e)" "dayMatches z e date" "getHours z date \<in> set (ce_hours e)"
          "getMinutes z date \<notin> set (ce_minutes e)"
      | (match) "cron_matches z e date"
      unfolding cron_matches_def by blast
    then show ?thesis
    proof cases
      case month
      have "skips e (local_time z date) (local_time z (advanceMonth z date))"
        unfolding advanceMonth_local [OF fz] using skips_month 1(6) month unfolding getMonth_def by simp
      from step [OF this 1(1) [OF True month fz]] show ?thesis using True month by (simp add: next_loop.simps [of z e deadline n date])
    next
      case day
      have "skips e (local_time z date) (local_time z (advanceDay z date))"
        unfolding advanceDay_local [OF fz] using skips_day 1(6) day unfolding dayMatches_local by simp
      from step [OF this] 1(2) [OF True _ day(2) fz] show ?thesis using True day by (simp add: next_loop.simps [of z e deadline n date])
    next
      case hour
      have "skips e (local_time z date) (local_time z (advanceHour z date))"
        unfolding advanceHour_local [OF fz] using skips_hour 1(6) hour unfolding getHours_def by simp
      from step [OF this] 1(3) [OF True _ _ hour(3) fz] show ?thesis using True hour by (simp add: next_loop.simps [of z e deadline n date])
    next
      case minute
      have "skips e (local_time z date) (local_time z (advanceMinute z date))"
        unfolding advanceMinute_local [OF fz] using skips_minute 1(6) minute unfolding getMinutes_def by simp
      from step [OF this] 1(4) [OF True _ _ _ minute(4) fz] show ?thesis using True minute by (simp add: next_loop.simps [of z e deadline n date])
    next
      case match
      then show ?thesis using True 1(6) unfolding cron_matches_def
        by (simp add: next_loop.simps [of z e deadline n date] first_run_def cron_run_def cron_matches_def)
    qed
  next
    case False
    then have "\<not> date \<le> deadline" using 1(7) by auto
    then show ?thesis by (auto simp: next_loop.simps [of z e deadline n date] first_run_def)
  qed
qed

lemma nextRun_first:
  assumes "fixed_zone z" "capMinutes \<le> HARD_ITERATION_CAP"
  shows "first_run z e (fromMs + 1) (fromMs + capMinutes * 60000) (nextRunWithinMinutes z e fromMs capMinutes)"
proof -
  let ?start = "setSeconds z 0 0 fromMs"
  have l: "local_time z (?start + 60000) = (local_time z fromMs div 60000 + 1) * 60000"
    using setSeconds_local [OF assms(1), of fromMs] fixed_zone_shift [OF assms(1)] by (simp add: algebra_simps)
  have b: "local_time z fromMs < local_time z (?start + 60000)" "local_time z (?start + 60000) \<le> local_time z fromMs + 60000"
    unfolding l using div_bounds [of 60000 "local_time z fromMs"] by (simp_all add: algebra_simps)
  have d: "fromMs + 1 \<le> ?start + 60000" "?start + 60000 \<le> fromMs + 60000"
    using b fixed_zone_shift [OF assms(1)] by simp_all
  have "first_run z e (?start + 60000) (fromMs + capMinutes * 60000) (nextRunWithinMinutes z e fromMs capMinutes)"
    unfolding nextRunWithinMinutes_def Let_def
  proof (rule next_loop_first [OF assms(1)])
    show "local_time z (?start + 60000) mod 60000 = 0" unfolding l by simp
    show "fromMs + capMinutes * 60000 < ?start + 60000 + (HARD_ITERATION_CAP - 0) * 60000"
      using assms(2) d(1) by simp
  qed
  moreover have "\<not> cron_run z e k" if "fromMs + 1 \<le> k" "k < ?start + 60000" for k
  proof
    assume "cron_run z e k"
    then obtain q where q: "local_time z k = 60000 * q" unfolding cron_run_def by (metis mult_div_mod_eq add.right_neutral)
    have "local_time z fromMs < 60000 * q" "60000 * q < (local_time z fromMs div 60000 + 1) * 60000"
      using that l q fixed_zone_shift [OF assms(1)] by simp_all
    moreover obtain p where p: "local_time z fromMs div 60000 = p" by simp
    ultimately have "60000 * p < 60000 * q" "60000 * q < 60000 * (p + 1)"
      using div_bounds(1) [of 60000 "local_time z fromMs"] by simp_all
    then show False by simp
  qed
  ultimately show ?thesis using d(1) unfolding first_run_def
    by (cases "nextRunWithinMinutes z e fromMs capMinutes") (auto, (meson not_le)+)
qed


lemma five_years: "5 * 366 * 24 * 60 \<le> HARD_ITERATION_CAP"
  by (simp add: HARD_ITERATION_CAP_def)

lemma next_run_after:
  assumes "fixed_zone z" "computeNextCronRun z e fromMs = Some t"
  shows "fromMs < t" "cron_run z e t" "\<And>k. fromMs < k \<Longrightarrow> k < t \<Longrightarrow> \<not> cron_run z e k"
  using nextRun_first [OF assms(1) five_years, of e fromMs] assms(2)
  unfolding computeNextCronRun_def first_run_def by auto

text \<open>C9: In a time zone with one offset, the next run of an expression is the beginning of the first
  minute after the given instant whose local month, day, hour and minute the expression admits,
  and there is none exactly when no minute of the next five years (of 366 days) is admitted; in
  particular the search never gives up on its own iteration limit.\<close>

theorem next_run_is_first:
  assumes "fixed_zone z"
  shows "first_run z e (fromMs + 1) (fromMs + 5 * 366 * 24 * 60 * 60000) (computeNextCronRun z e fromMs)"
  unfolding computeNextCronRun_def using nextRun_first [OF assms five_years, of e fromMs] by simp

text \<open>Half past nine on working days, after midnight of Saturday, 3 January 1970, eight hours east: Monday.\<close>

definition working_days :: cron_expr where
  "working_days = \<lparr>ce_raw = js ''30 9 * * 1-5'', ce_minutes = [30], ce_hours = [9], ce_daysOfMonth = [1..31],
     ce_months = [1..12], ce_daysOfWeek = [1, 2, 3, 4, 5], ce_daysOfMonthWildcard = True, ce_daysOfWeekWildcard = False\<rparr>"

lemma working_days_parsed: "parseCronExpression (js '' 30 9 * * 1-5 '') = Inr working_days"
  by code_simp

lemma next_run_is_first_witness:
  "computeNextCronRun (28800000, []) working_days 144000000 = Some 351000000
   \<and> first_run (28800000, []) working_days 144000001 158256000000 (Some 351000000)"
proof -
  have r: "computeNextCronRun (28800000, []) working_days 144000000 = Some 351000000" by code_simp
  show ?thesis using next_run_is_first [of "(28800000, [])" working_days 144000000] unfolding r
    by (simp add: fixed_zone_def)
qed

text \<open>Summer time ends: the hour from one to two is repeated. From within its second pass the search
  for the next minute returns one of the first pass, an hour before.\<close>

definition every_minute :: cron_expr where
  "every_minute = \<lparr>ce_raw = js ''* * * * *'', ce_minutes = [0..59], ce_hours = [0..23], ce_daysOfMonth = [1..31],
     ce_months = [1..12], ce_daysOfWeek = [0..6], ce_daysOfMonthWildcard = True, ce_daysOfWeekWildcard = True\<rparr>"

lemma repeated_hour_goes_back:
  "computeNextCronRun (- 25200000, [(1762074000000, - 28800000)]) every_minute 1762075820000 = Some 1762072260000"
  by code_simp


text \<open>The run that follows the first minute of the second pass is the second minute of the first pass, so
  the runs cycle through the repeated hour.\<close>

lemma repeated_hour_cycles:
  "computeNextCronRun (0, [(36000000, - 3600000)]) every_minute 35940000 = Some 36000000"
  "computeNextCronRun (0, [(36000000, - 3600000)]) every_minute 36000000 = Some 32460000"
  by code_simp+

end
