(* ===== verification/CronJitter.thy ===== *)
theory CronJitter
  imports CronSearch
begin

section \<open>Jitter\<close>

text \<open>
  The per-task shift of run times, from \<^verbatim>\<open>app/cron/jitter.ts\<close>. The numbers the code multiplies are
  rationals here: its floating-point products round, monotonically, so bounds that are
  representable hold for them too.
\<close>

record jitter_config =
  jc_recurringMaxFractionOfPeriod :: rat
  jc_recurringMaxMs :: rat
  jc_oneShotMaxMs :: rat

definition DEFAULT_CRON_JITTER_CONFIG :: jitter_config where
  "DEFAULT_CRON_JITTER_CONFIG = \<lparr>jc_recurringMaxFractionOfPeriod = 1 / 10, jc_recurringMaxMs = 900000, jc_oneShotMaxMs = 90000\<rparr>"

definition MS_PER_DAY :: int where
  "MS_PER_DAY = 24 * 60 * 60000"

definition hex_value :: "16 word \<Rightarrow> nat option" where
  "hex_value u = (if 48 \<le> u \<and> u \<le> 57 then Some (unat u - 48)
     else if 97 \<le> u \<and> u \<le> 102 then Some (unat u - 87)
     else if 65 \<le> u \<and> u \<le> 70 then Some (unat u - 55) else None)"

fun parse_hex :: "nat \<Rightarrow> js_string \<Rightarrow> nat option" where
  "parse_hex acc [] = Some acc"
| "parse_hex acc (u # us) = (case hex_value u of None \<Rightarrow> None | Some v \<Rightarrow> parse_hex (16 * acc + v) us)"

fun hash_id :: "32 word \<Rightarrow> js_string \<Rightarrow> 32 word" where
  "hash_id hash [] = hash"
| "hash_id hash (u # us) = hash_id (push_bit 5 hash + hash + ucast u) us"

definition fractionFromId :: "js_string \<Rightarrow> rat" where
  "fractionFromId ident = (case (if length ident = 8 then parse_hex 0 ident else None) of
      Some n \<Rightarrow> of_nat n / 4294967296
    | None \<Rightarrow> of_nat (unat (hash_id 5381 ident)) / 4294967296)"

definition jitteredNextCronRunMs :: "zone \<Rightarrow> js_string \<Rightarrow> cron_expr \<Rightarrow> int \<Rightarrow> jitter_config \<Rightarrow> bool \<Rightarrow> rat" where
  "jitteredNextCronRunMs z ident parsed idealMs config noJitter =
     (if noJitter then of_int idealMs
      else let nextNext = computeNextCronRun z parsed idealMs;
               period = (case nextNext of Some n \<Rightarrow> if n > idealMs then n - idealMs else MS_PER_DAY | None \<Rightarrow> MS_PER_DAY);
               periodCap = of_int period * jc_recurringMaxFractionOfPeriod config;
               cap = min periodCap (jc_recurringMaxMs config) in
        if \<not> cap > 0 then of_int idealMs else of_int idealMs + cap * fractionFromId ident)"

definition oneShotJitteredNextCronRunMs :: "zone \<Rightarrow> js_string \<Rightarrow> int option \<Rightarrow> int \<Rightarrow> jitter_config \<Rightarrow> bool \<Rightarrow> rat" where
  "oneShotJitteredNextCronRunMs z ident createdAt idealMs config noJitter =
     (if noJitter then of_int idealMs
      else if idealMs mod 60000 \<noteq> 0 then of_int idealMs
      else let minuteOfHour = getMinutes z idealMs in
        if minuteOfHour \<noteq> 0 \<and> minuteOfHour \<noteq> 30 then of_int idealMs
        else if \<not> jc_oneShotMaxMs config > 0 then of_int idealMs
        else let offset = - jc_oneShotMaxMs config * fractionFromId ident; shifted = of_int idealMs + offset in
          case createdAt of
            Some c \<Rightarrow> if shifted < of_int c then of_int idealMs else shifted
          | None \<Rightarrow> shifted)"

subsection \<open>Bounds\<close>

lemma hex_value_bound: "hex_value u = Some v \<Longrightarrow> v < 16"
  unfolding hex_value_def by (auto simp: word_le_nat_alt split: if_splits)

lemma parse_hex_bound: "parse_hex acc us = Some n \<Longrightarrow> n < (acc + 1) * 16 ^ length us"
proof (induction us arbitrary: acc)
  case (Cons u us)
  obtain v where v: "hex_value u = Some v" "parse_hex (16 * acc + v) us = Some n"
    using Cons.prems by (auto split: option.splits)
  have "n < (16 * acc + v + 1) * 16 ^ length us" by (rule Cons.IH [OF v(2)])
  also have "\<dots> \<le> ((acc + 1) * 16) * 16 ^ length us" using hex_value_bound [OF v(1)] by (intro mult_right_mono) auto
  finally show ?case by (simp add: algebra_simps)
qed simp

lemma fraction_bounds: "0 \<le> fractionFromId ident" "fractionFromId ident < 1"
proof -
  have h: "unat (h :: 32 word) < 4294967296" for h using unsigned_less [of h, where ?'a = nat] by simp
  have "\<exists>n < 4294967296. fractionFromId ident = of_nat n / 4294967296"
  proof (cases "if length ident = 8 then parse_hex 0 ident else None")
    case None
    then show ?thesis using h [of "hash_id 5381 ident"] unfolding fractionFromId_def
      by (intro exI [of _ "unat (hash_id 5381 ident)"]) simp
  next
    case (Some n)
    then have "length ident = 8" "parse_hex 0 ident = Some n" by (simp_all split: if_splits)
    then show ?thesis using parse_hex_bound [of 0 ident n] unfolding fractionFromId_def
      by (intro exI [of _ n]) simp
  qed
  then obtain n :: nat where n: "n < 4294967296" "fractionFromId ident = of_nat n / 4294967296" by blast
  have "(of_nat n :: rat) < of_nat 4294967296" using n(1) by (simp only: of_nat_less_iff)
  then show "0 \<le> fractionFromId ident" "fractionFromId ident < 1" unfolding n(2) by simp_all
qed

lemma scaled_fraction: "0 < c \<Longrightarrow> 0 \<le> c * fractionFromId ident \<and> c * fractionFromId ident < c"
  using fraction_bounds [of ident] mult_strict_left_mono [of "fractionFromId ident" 1 c] by simp

text \<open>C38: A recurring task runs at or after the ideal instant, delayed by no more than the configured
  maximum, and strictly before the next ideal instant, whatever its identifier: jitter never
  reorders the runs of a task nor merges two of them. Without jitter it runs at the ideal instant.\<close>

theorem jitter_keeps_order:
  assumes "jc_recurringMaxFractionOfPeriod config \<le> 1"
    and "computeNextCronRun z parsed idealMs = Some n" "idealMs < n"
  shows "of_int idealMs \<le> jitteredNextCronRunMs z ident parsed idealMs config noJitter
    \<and> jitteredNextCronRunMs z ident parsed idealMs config noJitter < of_int n
    \<and> jitteredNextCronRunMs z ident parsed idealMs config noJitter \<le> of_int idealMs + max 0 (jc_recurringMaxMs config)
    \<and> jitteredNextCronRunMs z ident parsed idealMs config True = of_int idealMs"
proof -
  define cap where "cap = min (of_int (n - idealMs) * jc_recurringMaxFractionOfPeriod config) (jc_recurringMaxMs config)"
  have t: "jitteredNextCronRunMs z ident parsed idealMs config b
      = (if b \<or> \<not> cap > 0 then of_int idealMs else of_int idealMs + cap * fractionFromId ident)" for b
    unfolding jitteredNextCronRunMs_def cap_def Let_def using assms(2,3) by simp
  have "of_int (n - idealMs) * jc_recurringMaxFractionOfPeriod config \<le> of_int (n - idealMs) * 1"
    using assms(1,3) by (intro mult_left_mono) auto
  then have cap: "cap \<le> of_int n - of_int idealMs" "cap \<le> jc_recurringMaxMs config" unfolding cap_def by simp_all
  have n: "(of_int idealMs :: rat) < of_int n" using assms(3) by simp
  obtain p where p: "cap * fractionFromId ident = p" by simp
  show ?thesis using cap n scaled_fraction [of cap ident] unfolding t p by auto
qed

lemma jitter_keeps_order_witness:
  "jitteredNextCronRunMs (0, []) (js ''80000000'') every_minute 60000 DEFAULT_CRON_JITTER_CONFIG False = 63000
   \<and> (63000 :: rat) < 120000"
proof -
  have n: "computeNextCronRun (0, []) every_minute 60000 = Some 120000" by code_simp
  have c: "jc_recurringMaxFractionOfPeriod DEFAULT_CRON_JITTER_CONFIG \<le> 1" by (simp add: DEFAULT_CRON_JITTER_CONFIG_def)
  have f: "fractionFromId (js ''80000000'') = 1 / 2"
    unfolding fractionFromId_def by (simp add: js_def hex_value_def)
  have j: "jitteredNextCronRunMs (0, []) (js ''80000000'') every_minute 60000 DEFAULT_CRON_JITTER_CONFIG False = 63000"
    unfolding jitteredNextCronRunMs_def n f Let_def by (simp add: DEFAULT_CRON_JITTER_CONFIG_def)
  show ?thesis
    using jitter_keeps_order [OF c n, where ident = "js ''80000000''" and noJitter = False] unfolding j by simp
qed

text \<open>A one-shot task runs at the ideal instant or earlier, by less than the configured maximum; it is
  only moved from the full or the half hour, and never before the instant it was created.\<close>

theorem one_shot_bounds:
  "of_int idealMs - max 0 (jc_oneShotMaxMs config) \<le> oneShotJitteredNextCronRunMs z ident createdAt idealMs config noJitter
   \<and> oneShotJitteredNextCronRunMs z ident createdAt idealMs config noJitter \<le> of_int idealMs
   \<and> (oneShotJitteredNextCronRunMs z ident createdAt idealMs config noJitter = of_int idealMs
      \<or> noJitter = False \<and> idealMs mod 60000 = 0 \<and> getMinutes z idealMs \<in> {0, 30}
        \<and> (case createdAt of None \<Rightarrow> True
           | Some c \<Rightarrow> of_int c \<le> oneShotJitteredNextCronRunMs z ident createdAt idealMs config noJitter))"
proof -
  let ?m = "jc_oneShotMaxMs config"
  obtain p where p: "?m * fractionFromId ident = p" by simp
  have "0 < ?m \<Longrightarrow> 0 \<le> p \<and> p < ?m" using scaled_fraction [of ?m ident] unfolding p .
  moreover have "- ?m * fractionFromId ident = - p" using p by simp
  ultimately show ?thesis unfolding oneShotJitteredNextCronRunMs_def Let_def
    by (auto split: option.splits)
qed

end
