(* ===== verification/CronSyntax.thy ===== *)
theory CronSyntax
  imports CronJitter
begin

section \<open>The language of cron fields\<close>

text \<open>
  An abstract syntax of the terms of a field, with the numbers each denotes, and the property that
  the parser reads every written term back as exactly the numbers it denotes.
\<close>

datatype cron_term = AnyValue | EveryStep nat | Exactly nat | FromStep nat nat | Between nat nat | BetweenStep nat nat nat

fun term_text :: "cron_term \<Rightarrow> js_string" where
  "term_text AnyValue = [42]"
| "term_text (EveryStep k) = 42 # 47 # digits k"
| "term_text (Exactly v) = digits v"
| "term_text (FromStep v k) = digits v @ 47 # digits k"
| "term_text (Between a b) = digits a @ 45 # digits b"
| "term_text (BetweenStep a b k) = digits a @ 45 # digits b @ 47 # digits k"

fun term_ok :: "int \<Rightarrow> int \<Rightarrow> cron_term \<Rightarrow> bool" where
  "term_ok lo hi AnyValue = True"
| "term_ok lo hi (EveryStep k) = (0 < k)"
| "term_ok lo hi (Exactly v) = (lo \<le> int v \<and> int v \<le> hi)"
| "term_ok lo hi (FromStep v k) = (lo \<le> int v \<and> int v \<le> hi \<and> 0 < k)"
| "term_ok lo hi (Between a b) = (lo \<le> int a \<and> a \<le> b \<and> int b \<le> hi)"
| "term_ok lo hi (BetweenStep a b k) = (lo \<le> int a \<and> a \<le> b \<and> int b \<le> hi \<and> 0 < k)"

definition steps_of :: "int \<Rightarrow> int \<Rightarrow> int \<Rightarrow> int set" where
  "steps_of v hi k = {w. v \<le> w \<and> w \<le> hi \<and> (w - v) mod k = 0}"

fun term_set :: "int \<Rightarrow> int \<Rightarrow> cron_term \<Rightarrow> int set" where
  "term_set lo hi AnyValue = {lo..hi}"
| "term_set lo hi (EveryStep k) = steps_of lo hi (int k)"
| "term_set lo hi (Exactly v) = {int v}"
| "term_set lo hi (FromStep v k) = steps_of (int v) hi (int k)"
| "term_set lo hi (Between a b) = {int a..int b}"
| "term_set lo hi (BetweenStep a b k) = steps_of (int a) (int b) (int k)"

lemma steps_of_1: "steps_of v hi 1 = {v..hi}"
  by (auto simp: steps_of_def)

lemma digits_not_Nil [simp]: "digits n \<noteq> []"
  by (subst digits.simps) simp

lemma digits_all: "list_all (\<lambda>u. 48 \<le> u \<and> u \<le> 57) (digits n)"
  using digits_range by (auto simp: list_all_iff)

lemma digits_without: "u < 48 \<Longrightarrow> u \<notin> set (digits n)"
  using digits_range [of u n] by auto

lemma parse_digits [simp]: "parseCronInt (digits n) name role = Inr (int n)"
  unfolding parseCronInt_def using digits_all [of n] digits_value_digits [of n] by simp

lemma cut_before: "u \<notin> set xs \<Longrightarrow> takeWhile (\<lambda>w. w \<noteq> u) (xs @ u # ys) = xs \<and> dropWhile (\<lambda>w. w \<noteq> u) (xs @ u # ys) = u # ys"
  by (induction xs) auto

lemma digits_split:
  "takeWhile (\<lambda>w. w \<noteq> 45) (digits a @ 45 # ys) = digits a" "dropWhile (\<lambda>w. w \<noteq> 45) (digits a @ 45 # ys) = 45 # ys"
  "takeWhile (\<lambda>w. w \<noteq> 47) (digits a @ 47 # ys) = digits a" "dropWhile (\<lambda>w. w \<noteq> 47) (digits a @ 47 # ys) = 47 # ys"
  "takeWhile (\<lambda>w. w \<noteq> 47) (digits a @ 45 # digits b @ 47 # ys) = digits a @ 45 # digits b"
  "dropWhile (\<lambda>w. w \<noteq> 47) (digits a @ 45 # digits b @ 47 # ys) = 47 # ys"
  using cut_before [of 45 "digits a" ys] cut_before [of 47 "digits a" ys] cut_before [of 47 "digits a @ 45 # digits b" ys]
    digits_without [of 45 a] digits_without [of 47 a] digits_without [of 47 b] by simp_all

lemma digits_unlike: "digits n \<noteq> 42 # us" "digits n @ us \<noteq> 42 # vs" "digits n \<noteq> [42]"
proof -
  have "42 \<notin> set (digits n)" by (rule digits_without) simp
  then have "hd (digits n) \<noteq> 42" by (metis digits_not_Nil hd_in_set)
  then show "digits n \<noteq> 42 # us" "digits n @ us \<noteq> 42 # vs" "digits n \<noteq> [42]" by (auto dest: arg_cong [where f = hd])
qed

lemma star: "js ''*'' = [42]"
  by (simp add: js_def)

text \<open>The parser on a written term.\<close>

lemma addTerm_text:
  assumes "term_ok lo hi t" "distinct out" "lo \<le> hi"
  shows "\<exists>out'. addTerm out (term_text t) lo hi name = Inr out' \<and> distinct out' \<and> set out' = set out \<union> term_set lo hi t"
  using assms
proof (cases t)
  case AnyValue
  have "addTerm out [42] lo hi name = Inr (add_range lo hi 1 out)"
    by (simp add: addTerm_def term_step_def star)
  then show ?thesis using assms AnyValue by (simp add: distinct_add_range set_add_range steps_of_1 [symmetric] steps_of_def)
next
  case (EveryStep k)
  have "addTerm out (term_text t) lo hi name = Inr (add_range lo hi (int k) out)"
    using assms(1) EveryStep by (simp add: addTerm_def term_step_def star Let_def)
  then show ?thesis using assms EveryStep by (simp add: distinct_add_range set_add_range steps_of_def)
next
  case (Exactly v)
  have "addTerm out (term_text t) lo hi name = Inr (set_add (int v) out)"
    using assms(1) Exactly by (simp add: addTerm_def term_step_def star digits_without digits_unlike)
  then show ?thesis using assms Exactly by simp
next
  case (FromStep v k)
  have "addTerm out (term_text t) lo hi name = Inr (add_range (int v) hi (int k) out)"
    using assms(1) FromStep by (simp add: addTerm_def term_step_def star Let_def digits_split digits_without digits_unlike)
  then show ?thesis using assms FromStep by (simp add: distinct_add_range set_add_range steps_of_def)
next
  case (Between a b)
  have "addTerm out (term_text t) lo hi name = Inr (add_range (int a) (int b) 1 out)"
    using assms(1) Between by (simp add: addTerm_def term_step_def star digits_split digits_without digits_unlike)
  then show ?thesis using assms Between by (simp add: distinct_add_range set_add_range steps_of_1 [symmetric] steps_of_def)
next
  case (BetweenStep a b k)
  have "addTerm out (term_text t) lo hi name = Inr (add_range (int a) (int b) (int k) out)"
    using assms(1) BetweenStep by (simp add: addTerm_def term_step_def star Let_def digits_split digits_without digits_unlike)
  then show ?thesis using assms BetweenStep by (simp add: distinct_add_range set_add_range steps_of_def)
qed

lemma term_text_units: "u \<in> set (term_text t) \<Longrightarrow> u = 42 \<or> u = 45 \<or> u = 47 \<or> 48 \<le> u"
  by (cases t) (auto dest: digits_range)

lemma term_text_plain: "term_text t \<noteq> []" "44 \<notin> set (term_text t)"
  by (cases t; simp) (use term_text_units [of 44 t] in auto)

lemma split_append: "sep \<notin> set p \<Longrightarrow> split_at sep (p @ sep # us) = p # split_at sep us"
  by (induction p) auto

lemma split_plain: "sep \<notin> set p \<Longrightarrow> split_at sep p = [p]"
  by (induction p) auto

lemma split_join: "ps \<noteq> [] \<Longrightarrow> \<forall>p\<in>set ps. sep \<notin> set p \<Longrightarrow> split_at sep (join_with [sep] ps) = ps"
  by (induction "[sep]" ps rule: join_with.induct) (auto simp: split_append split_plain)

lemma addTerms_text:
  "list_all (term_ok lo hi) ts \<Longrightarrow> distinct out \<Longrightarrow> lo \<le> hi \<Longrightarrow>
    \<exists>out'. addTerms out (map term_text ts) lo hi name = Inr out' \<and> distinct out' \<and> set out' = set out \<union> (\<Union>t\<in>set ts. term_set lo hi t)"
proof (induction ts arbitrary: out)
  case (Cons t ts)
  obtain o1 where o1: "addTerm out (term_text t) lo hi name = Inr o1" "distinct o1" "set o1 = set out \<union> term_set lo hi t"
    using addTerm_text [of lo hi t out name] Cons.prems by auto
  obtain o2 where o2: "addTerms o1 (map term_text ts) lo hi name = Inr o2" "distinct o2"
      "set o2 = set o1 \<union> (\<Union>t\<in>set ts. term_set lo hi t)"
    using Cons.IH [of o1] o1(2) Cons.prems by auto
  show ?case using o1 o2 by (auto simp: term_text_plain)
qed simp

lemma steps_of_ne: "v \<le> hi \<Longrightarrow> steps_of v hi k \<noteq> {}"
  by (auto simp: steps_of_def intro!: exI [of _ v])

lemma term_set_ne: "term_ok lo hi t \<Longrightarrow> lo \<le> hi \<Longrightarrow> term_set lo hi t \<noteq> {}"
  by (cases t) (auto simp: steps_of_ne)

lemma join_not_Nil: "ps \<noteq> [] \<Longrightarrow> \<forall>p\<in>set ps. p \<noteq> [] \<Longrightarrow> join_with sep ps \<noteq> []"
  by (induction sep ps rule: join_with.induct) auto

text \<open>C39: Every list of terms, written out with commas, parses to exactly the numbers its terms denote,
  each once: \<^verbatim>\<open>*\<close> and ranges with and without steps, and single values with a step up to the
  end of the field.\<close>

theorem field_denotes:
  assumes "ts \<noteq> []" "list_all (term_ok lo hi) ts" "lo \<le> hi"
  shows "\<exists>out. parseField (join_with [44] (map term_text ts)) lo hi name = Inr out \<and> distinct out
    \<and> set out = (\<Union>t\<in>set ts. term_set lo hi t)"
proof -
  obtain out where out: "addTerms [] (map term_text ts) lo hi name = Inr out" "distinct out"
      "set out = (\<Union>t\<in>set ts. term_set lo hi t)"
    using addTerms_text [OF assms(2), of "[]" name] assms(3) by auto
  have "out \<noteq> []" using out(3) assms term_set_ne by (cases ts) (auto simp: list_all_iff)
  moreover have "join_with [44] (map term_text ts) \<noteq> []" using assms(1) term_text_plain(1) by (intro join_not_Nil) auto
  moreover have "split_at 44 (join_with [44] (map term_text ts)) = map term_text ts"
    using assms(1) term_text_plain(2) by (intro split_join) auto
  ultimately show ?thesis using out unfolding parseField_def by simp
qed

lemma field_denotes_witness:
  "\<exists>out. parseField (join_with [44] (map term_text [Exactly 5, BetweenStep 10 20 5, FromStep 50 4])) 0 59 (js ''minute'') = Inr out
    \<and> distinct out \<and> set out = {5, 10, 15, 20, 50, 54, 58}"
proof -
  have s: "steps_of 10 20 5 = {10, 15, 20}" "steps_of 50 59 4 = {50, 54, 58}"
    using set_add_range [of 5 10 20 "[]"] set_add_range [of 4 50 59 "[]"] unfolding steps_of_def
    by (simp_all add: add_range.simps set_add_def)
  show ?thesis
    using field_denotes [of "[Exactly 5, BetweenStep 10 20 5, FromStep 50 4]" 0 59 "js ''minute''"] by (simp add: s insert_commute)
qed

text \<open>C40: Whatever text is parsed, the result is a well-formed expression: each of its sets is inhabited and
  holds numbers of its field only, each once; Sunday is 0 alone.\<close>

theorem parsed_well_formed: "parseCronExpression expr = Inr e \<Longrightarrow> cron_ok e"
  by (rule parse_ok)

lemma parsed_well_formed_witness: "parseCronExpression (js '' 30 9 * * 1-5 '') = Inr working_days \<and> cron_ok working_days"
  using parsed_well_formed [OF working_days_parsed] working_days_parsed by simp

end
