(* ===== verification/CronService.thy ===== *)
theory CronService
  imports CronSyntax "HOL-Library.AList"
begin

section \<open>The cron service of a session\<close>

text \<open>
  The scheduling engine of \<^verbatim>\<open>session/cron/sessionCronServiceImpl.ts\<close> with the wire model of
  \<^verbatim>\<open>session/cron/cronOps.ts\<close> and the message of \<^verbatim>\<open>app/cron/format.ts\<close>. A map or a set is the list of
  its entries in insertion order. The synchronous part of \<^verbatim>\<open>processDue\<close>, up to the injection of the
  prompt, is one operation; the delivery it then awaits is kept as pending, and its settlement,
  with the outcome of the injection, is another. Times are whole milliseconds. The operations on the
  store wait in one queue per task; the head of any queue may run next (\<open>persist_run\<close>), and may fail.
\<close>

record cron_task =
  ct_id :: js_string
  ct_cron :: js_string
  ct_prompt :: js_string
  ct_createdAt :: int
  ct_recurring :: "bool option"
  ct_lastFiredAt :: "int option"
  ct_tags :: "(js_string \<times> js_string) list option"

definition CRON_SESSION_TAG :: js_string where
  "CRON_SESSION_TAG = js ''sessionId''"

subsection \<open>The wire model\<close>

datatype cron_op = CronAdd cron_task | CronDelete "js_string list" | CronCursor js_string int

fun delete_ids :: "(js_string \<times> cron_task) list \<Rightarrow> js_string list \<Rightarrow> (js_string \<times> cron_task) list" where
  "delete_ids s [] = s"
| "delete_ids s (i # ids) = delete_ids (if map_of s i \<noteq> None then AList.delete i s else s) ids"

fun cron_apply :: "cron_op \<Rightarrow> (js_string \<times> cron_task) list \<Rightarrow> (js_string \<times> cron_task) list" where
  "cron_apply (CronAdd task) s = AList.update (ct_id task) task s"
| "cron_apply (CronDelete ids) s = delete_ids s ids"
| "cron_apply (CronCursor i lastFiredAt) s =
     (case map_of s i of None \<Rightarrow> s | Some task \<Rightarrow> AList.update i (task\<lparr>ct_lastFiredAt := Some lastFiredAt\<rparr>) s)"

subsection \<open>The message of a run\<close>

record cron_origin =
  co_jobId :: js_string
  co_cron :: js_string
  co_recurring :: bool
  co_coalescedCount :: nat
  co_stale :: bool

fun escape_attr :: "js_string \<Rightarrow> js_string" where
  "escape_attr [] = []"
| "escape_attr (u # us) = (if u = 38 then js ''&amp;'' else if u = 34 then js ''&quot;'' else [u]) @ escape_attr us"

definition stringAttr :: "js_string \<Rightarrow> js_string \<Rightarrow> js_string" where
  "stringAttr v fallback = (if v = [] then fallback else escape_attr v)"

definition bool_text :: "bool \<Rightarrow> js_string" where
  "bool_text b = (if b then js ''true'' else js ''false'')"

definition renderCronFireXml :: "cron_origin \<Rightarrow> js_string \<Rightarrow> js_string" where
  "renderCronFireXml origin prompt =
     join_with [10]
       [js ''<cron-fire jobId='' @ [34] @ stringAttr (co_jobId origin) (js ''unknown'') @ [34]
          @ js '' cron='' @ [34] @ stringAttr (co_cron origin) (js ''unknown'') @ [34]
          @ js '' recurring='' @ [34] @ bool_text (co_recurring origin) @ [34]
          @ js '' coalescedCount='' @ [34] @ digits (co_coalescedCount origin) @ [34]
          @ js '' stale='' @ [34] @ bool_text (co_stale origin) @ [34] @ js ''>'',
        js ''<prompt>'', prompt, js ''</prompt>'', js ''</cron-fire>'']"

subsection \<open>State\<close>

datatype store_job = SaveTask cron_task | DeleteTask js_string

record delivery =
  dl_task :: cron_task
  dl_count :: nat
  dl_lastDue :: "int option"
  dl_now :: int
  dl_stale :: bool

record cron_state =
  cs_tasks :: "(js_string \<times> cron_task) list"
  cs_parsedCache :: "(js_string \<times> cron_expr) list"
  cs_lastSeenAt :: "(js_string \<times> int) list"
  cs_seededFromStore :: "js_string list"
  cs_inFlight :: "js_string list"
  cs_pending :: "delivery list"
  cs_injected :: "(cron_origin \<times> js_string) list"
  cs_ops :: "cron_op list"
  cs_jobs :: "(js_string \<times> store_job list) list"
  cs_started :: bool
  cs_timer :: "int option"

record cron_env =
  en_zone :: zone
  en_session :: js_string
  en_disabled :: bool
  en_noJitter :: bool
  en_noStale :: bool
  en_manualTick :: bool
  en_pollIntervalMs :: "int option option"

definition STALE_THRESHOLD_MS :: int where "STALE_THRESHOLD_MS = 7 * 24 * 60 * 60 * 1000"
definition MAX_COALESCE_ITERATIONS :: nat where "MAX_COALESCE_ITERATIONS = 10000"
definition MAX_ID_ATTEMPTS :: nat where "MAX_ID_ATTEMPTS = 8"

definition set_put :: "'a \<Rightarrow> 'a list \<Rightarrow> 'a list" where
  "set_put x xs = (if x \<in> set xs then xs else xs @ [x])"

subsection \<open>Adding and removing tasks\<close>

definition dispatchCron :: "bool \<Rightarrow> cron_op \<Rightarrow> cron_state \<Rightarrow> cron_state" where
  "dispatchCron main opn s = (if main then s\<lparr>cs_ops := cs_ops s @ [opn]\<rparr> else s)"

definition queue_of :: "cron_state \<Rightarrow> js_string \<Rightarrow> store_job list" where
  "queue_of s i = (case map_of (cs_jobs s) i of None \<Rightarrow> [] | Some q \<Rightarrow> q)"

definition persistEnqueue :: "js_string \<Rightarrow> store_job \<Rightarrow> cron_state \<Rightarrow> cron_state" where
  "persistEnqueue i j s = s\<lparr>cs_jobs := AList.update i (queue_of s i @ [j]) (cs_jobs s)\<rparr>"

text \<open>The next operation queued for a task runs on the store; a failure is swallowed. The last one removes the
  queue.\<close>

fun store_apply :: "store_job \<Rightarrow> (js_string \<times> cron_task) list \<Rightarrow> (js_string \<times> cron_task) list" where
  "store_apply (SaveTask task) st = AList.update (ct_id task) task st"
| "store_apply (DeleteTask i) st = AList.delete i st"

definition persist_run :: "js_string \<Rightarrow> bool \<Rightarrow> cron_state \<times> (js_string \<times> cron_task) list \<Rightarrow> cron_state \<times> (js_string \<times> cron_task) list" where
  "persist_run i ok = (\<lambda>(s, st).
     case queue_of s i of
       [] \<Rightarrow> (s, st)
     | j # q \<Rightarrow> (s\<lparr>cs_jobs := (if q = [] then AList.delete i (cs_jobs s) else AList.update i q (cs_jobs s))\<rparr>,
         if ok then store_apply j st else st))"

definition crockford :: "16 word \<Rightarrow> bool" where
  "crockford u \<longleftrightarrow> (let c = (if 97 \<le> u \<and> u \<le> 122 then u - 32 else u) in
     48 \<le> c \<and> c \<le> 57 \<or> 65 \<le> c \<and> c \<le> 90 \<and> c \<noteq> 73 \<and> c \<noteq> 76 \<and> c \<noteq> 79 \<and> c \<noteq> 85)"

definition CRON_ID_REGEX :: "js_string \<Rightarrow> bool" where
  "CRON_ID_REGEX i \<longleftrightarrow> length i = 8 \<and> list_all (\<lambda>u. hex_value u \<noteq> None) i \<or> length i = 26 \<and> list_all crockford i"

text \<open>The candidates are what the \<^verbatim>\<open>ulid\<close> package returns, one per attempt; none is the error.\<close>

definition generateUniqueId :: "js_string list \<Rightarrow> cron_state \<Rightarrow> js_string option" where
  "generateUniqueId candidates s =
     find (\<lambda>c. CRON_ID_REGEX c \<and> map_of (cs_tasks s) c = None) (take MAX_ID_ATTEMPTS candidates)"

definition addTask :: "cron_env \<Rightarrow> bool \<Rightarrow> js_string list \<Rightarrow> int \<Rightarrow> cron_task \<Rightarrow> cron_state \<Rightarrow> (cron_task \<times> cron_state) option" where
  "addTask env main candidates now init s =
     (case generateUniqueId candidates s of
        None \<Rightarrow> None
      | Some i \<Rightarrow>
          let task = init\<lparr>ct_id := i, ct_createdAt := now,
                ct_tags := Some (AList.update CRON_SESSION_TAG (en_session env) (case ct_tags init of None \<Rightarrow> [] | Some ts \<Rightarrow> ts))\<rparr>;
              s = s\<lparr>cs_tasks := AList.update i task (cs_tasks s)\<rparr>;
              s = dispatchCron main (CronAdd task) s;
              s = persistEnqueue i (SaveTask task) s in
          Some (task, s))"

fun removeByIds :: "js_string list \<Rightarrow> (js_string \<times> cron_task) list \<Rightarrow> js_string list \<times> (js_string \<times> cron_task) list" where
  "removeByIds [] tasks = ([], tasks)"
| "removeByIds (i # ids) tasks =
     (if map_of tasks i \<noteq> None then (let (removed, tasks') = removeByIds ids (AList.delete i tasks) in (i # removed, tasks'))
      else removeByIds ids tasks)"

definition removeTasks :: "bool \<Rightarrow> js_string list \<Rightarrow> cron_state \<Rightarrow> js_string list \<times> cron_state" where
  "removeTasks main ids s =
     (let (removed, tasks') = removeByIds ids (cs_tasks s); s = s\<lparr>cs_tasks := tasks'\<rparr> in
      if removed = [] then (removed, s)
      else let s = dispatchCron main (CronDelete removed) s in
        (removed, fold (\<lambda>i. persistEnqueue i (DeleteTask i)) removed s))"

definition markFired :: "js_string \<Rightarrow> int \<Rightarrow> cron_state \<Rightarrow> cron_task option \<times> cron_state" where
  "markFired i lastFiredAt s =
     (case map_of (cs_tasks s) i of
        None \<Rightarrow> (None, s)
      | Some existing \<Rightarrow> let updated = existing\<lparr>ct_lastFiredAt := Some lastFiredAt\<rparr> in
          (Some updated, s\<lparr>cs_tasks := AList.update i updated (cs_tasks s)\<rparr>))"

definition advanceCursor :: "bool \<Rightarrow> js_string \<Rightarrow> int \<Rightarrow> cron_state \<Rightarrow> cron_state" where
  "advanceCursor main i lastFiredAt s =
     (case markFired i lastFiredAt s of
        (None, s) \<Rightarrow> s
      | (Some updated, s) \<Rightarrow> persistEnqueue i (SaveTask updated) (dispatchCron main (CronCursor i lastFiredAt) s))"

fun loadTasks :: "cron_env \<Rightarrow> cron_task list \<Rightarrow> cron_state \<Rightarrow> cron_state" where
  "loadTasks env [] s = s"
| "loadTasks env (task # ts) s = loadTasks env ts
     (case (case ct_tags task of None \<Rightarrow> None | Some tags \<Rightarrow> map_of tags CRON_SESSION_TAG) of
        None \<Rightarrow>
          let claimed = task\<lparr>ct_tags := Some (AList.update CRON_SESSION_TAG (en_session env) (case ct_tags task of None \<Rightarrow> [] | Some tg \<Rightarrow> tg))\<rparr> in
          persistEnqueue (ct_id claimed) (SaveTask claimed) (s\<lparr>cs_tasks := AList.update (ct_id claimed) claimed (cs_tasks s)\<rparr>)
      | Some owner \<Rightarrow> if owner \<noteq> en_session env then s else s\<lparr>cs_tasks := AList.update (ct_id task) task (cs_tasks s)\<rparr>)"

definition loadFromStore :: "cron_env \<Rightarrow> bool \<Rightarrow> cron_task list \<Rightarrow> cron_state \<Rightarrow> cron_state" where
  "loadFromStore env replace allTasks s = loadTasks env allTasks (if replace then s\<lparr>cs_tasks := []\<rparr> else s)"

definition restore_tasks :: "cron_env \<Rightarrow> (js_string \<times> cron_task) list \<Rightarrow> cron_task list \<Rightarrow> cron_state \<Rightarrow> cron_state" where
  "restore_tasks env model allTasks s =
     loadFromStore env False allTasks (s\<lparr>cs_tasks := fold (\<lambda>(i, t). AList.update i t) model []\<rparr>)"

subsection \<open>Starting and stopping\<close>

text \<open>The poll interval: \<open>None\<close> is undefined, \<open>Some None\<close> is null.\<close>

definition DEFAULT_POLL_INTERVAL_MS :: int where "DEFAULT_POLL_INTERVAL_MS = 1000"

definition cron_start :: "cron_env \<Rightarrow> cron_state \<Rightarrow> cron_state" where
  "cron_start env s =
     (if cs_started s then s
      else let poll = (if en_manualTick env then Some None else en_pollIntervalMs env);
               interval = (case poll of None \<Rightarrow> Some DEFAULT_POLL_INTERVAL_MS | Some p \<Rightarrow> p) in
        (case interval of
           None \<Rightarrow> s\<lparr>cs_started := True\<rparr>
         | Some n \<Rightarrow> if n \<noteq> 0 then s\<lparr>cs_started := True, cs_timer := Some n\<rparr> else s\<lparr>cs_started := True\<rparr>))"

definition cron_stop :: "cron_state \<Rightarrow> cron_state" where
  "cron_stop s = s\<lparr>cs_timer := None, cs_inFlight := [], cs_lastSeenAt := [], cs_seededFromStore := [],
     cs_parsedCache := [], cs_started := False\<rparr>"

subsection \<open>Due runs\<close>

definition getParsed :: "js_string \<Rightarrow> cron_state \<Rightarrow> (cron_error, cron_expr) res \<times> cron_state" where
  "getParsed expr s =
     (case map_of (cs_parsedCache s) expr of
        Some cached \<Rightarrow> (Inr cached, s)
      | None \<Rightarrow> (case parseCronExpression expr of
            Inl e \<Rightarrow> (Inl e, s)
          | Inr parsed \<Rightarrow> (Inr parsed, s\<lparr>cs_parsedCache := AList.update expr parsed (cs_parsedCache s)\<rparr>)))"

definition task_jitter :: "cron_env \<Rightarrow> cron_task \<Rightarrow> cron_expr \<Rightarrow> int \<Rightarrow> rat" where
  "task_jitter env task parsed ideal =
     (if ct_recurring task = Some False
      then oneShotJitteredNextCronRunMs (en_zone env) (ct_id task) (Some (ct_createdAt task)) ideal DEFAULT_CRON_JITTER_CONFIG (en_noJitter env)
      else jitteredNextCronRunMs (en_zone env) (ct_id task) parsed ideal DEFAULT_CRON_JITTER_CONFIG (en_noJitter env))"

definition computeJitteredNext :: "cron_env \<Rightarrow> cron_task \<Rightarrow> cron_expr \<Rightarrow> int \<Rightarrow> rat option" where
  "computeJitteredNext env task parsed baseMs =
     (case computeNextCronRun (en_zone env) parsed baseMs of None \<Rightarrow> None | Some ideal \<Rightarrow> Some (task_jitter env task parsed ideal))"

function coalesce_loop :: "cron_env \<Rightarrow> cron_task \<Rightarrow> cron_expr \<Rightarrow> int \<Rightarrow> nat \<Rightarrow> int \<Rightarrow> int \<Rightarrow> nat \<times> int" where
  "coalesce_loop env task parsed nowMs count cursor lastDueMs =
     (if count < MAX_COALESCE_ITERATIONS then
        (case computeNextCronRun (en_zone env) parsed cursor of
           None \<Rightarrow> (count, lastDueMs)
         | Some nxt \<Rightarrow>
             if nxt > nowMs then (count, lastDueMs)
             else if task_jitter env task parsed nxt > of_int nowMs then (count, lastDueMs)
             else coalesce_loop env task parsed nowMs (count + 1) nxt nxt)
      else (count, lastDueMs))"
  by auto

termination
  by (relation "measure (\<lambda>(env, task, parsed, nowMs, count, cursor, lastDueMs). MAX_COALESCE_ITERATIONS - count)") auto

declare coalesce_loop.simps [simp del]

definition countCoalesced :: "cron_env \<Rightarrow> cron_task \<Rightarrow> cron_expr \<Rightarrow> int \<Rightarrow> int \<Rightarrow> nat \<times> int" where
  "countCoalesced env task parsed firstFireMs nowMs = coalesce_loop env task parsed nowMs 1 firstFireMs firstFireMs"

definition isStaleAt :: "cron_env \<Rightarrow> cron_task \<Rightarrow> int \<Rightarrow> bool" where
  "isStaleAt env task now \<longleftrightarrow> (if en_noStale env then False else if ct_recurring task = Some False then False
     else now - ct_createdAt task \<ge> STALE_THRESHOLD_MS)"

definition base_from :: "cron_task \<Rightarrow> int option \<Rightarrow> int" where
  "base_from task seen = (case seen of Some t \<Rightarrow> if t > ct_createdAt task then t else ct_createdAt task | None \<Rightarrow> ct_createdAt task)"

definition nextFireFor :: "cron_env \<Rightarrow> int \<Rightarrow> cron_task \<Rightarrow> cron_state \<Rightarrow> rat option \<times> cron_state" where
  "nextFireFor env now task s =
     (case getParsed (ct_cron task) s of
        (Inl e, s) \<Rightarrow> (None, s)
      | (Inr parsed, s) \<Rightarrow>
          let seen = map_of (cs_lastSeenAt s) (ct_id task);
              persistedCursor = (case ct_lastFiredAt task of Some t \<Rightarrow> if t \<le> now then Some t else None | None \<Rightarrow> None);
              cursor = (case seen of Some t \<Rightarrow> Some t | None \<Rightarrow> persistedCursor) in
          (computeJitteredNext env task parsed (base_from task cursor), s))"

fun min_fire :: "cron_env \<Rightarrow> int \<Rightarrow> cron_task list \<Rightarrow> rat option \<Rightarrow> cron_state \<Rightarrow> rat option \<times> cron_state" where
  "min_fire env now [] m s = (m, s)"
| "min_fire env now (task # ts) m s =
     (case nextFireFor env now task s of
        (None, s) \<Rightarrow> min_fire env now ts m s
      | (Some nxt, s) \<Rightarrow> min_fire env now ts (case m of None \<Rightarrow> Some nxt | Some k \<Rightarrow> if nxt < k then Some nxt else m) s)"

definition getNextFireTime :: "cron_env \<Rightarrow> int \<Rightarrow> cron_state \<Rightarrow> rat option \<times> cron_state" where
  "getNextFireTime env now s = (if cs_tasks s = [] then (None, s) else min_fire env now (map snd (cs_tasks s)) None s)"

definition getNextFireForTask :: "cron_env \<Rightarrow> int \<Rightarrow> js_string \<Rightarrow> cron_state \<Rightarrow> rat option \<times> cron_state" where
  "getNextFireForTask env now i s = (case map_of (cs_tasks s) i of None \<Rightarrow> (None, s) | Some task \<Rightarrow> nextFireFor env now task s)"

text \<open>The first use of a task takes its stored cursor over, unless it lies in the future.\<close>

definition seed_cursor :: "int \<Rightarrow> cron_task \<Rightarrow> cron_state \<Rightarrow> cron_state" where
  "seed_cursor now task s =
     (let i = ct_id task;
          s = (case ct_lastFiredAt task of
                 Some t \<Rightarrow> if i \<notin> set (cs_seededFromStore s) \<and> t \<le> now \<and> map_of (cs_lastSeenAt s) i = None
                   then s\<lparr>cs_lastSeenAt := AList.update i t (cs_lastSeenAt s)\<rparr> else s
               | None \<Rightarrow> s) in
      s\<lparr>cs_seededFromStore := set_put i (cs_seededFromStore s)\<rparr>)"

text \<open>The injection of the prompt: what is delivered, and the promise that is then awaited.\<close>

definition deliverFire :: "cron_env \<Rightarrow> int \<Rightarrow> int \<Rightarrow> cron_task \<Rightarrow> nat \<Rightarrow> int option \<Rightarrow> cron_state \<Rightarrow> cron_state" where
  "deliverFire env now firedAt task count lastDue s =
     (let stale = isStaleAt env task firedAt;
          origin = \<lparr>co_jobId = ct_id task, co_cron = ct_cron task, co_recurring = (ct_recurring task \<noteq> Some False),
            co_coalescedCount = count, co_stale = stale\<rparr> in
      s\<lparr>cs_inFlight := set_put (ct_id task) (cs_inFlight s),
        cs_injected := cs_injected s @ [(origin, renderCronFireXml origin (ct_prompt task))],
        cs_pending := cs_pending s @ [\<lparr>dl_task = task, dl_count = count, dl_lastDue = lastDue, dl_now = now, dl_stale = stale\<rparr>]\<rparr>)"

definition processDue :: "cron_env \<Rightarrow> int \<Rightarrow> int \<Rightarrow> cron_task \<Rightarrow> cron_state \<Rightarrow> cron_state" where
  "processDue env now firedAt task s =
     (if ct_id task \<in> set (cs_inFlight s) then s
      else case getParsed (ct_cron task) s of
        (Inl e, s) \<Rightarrow> s
      | (Inr parsed, s) \<Rightarrow>
          let s = seed_cursor now task s;
              baseFromMs = base_from task (map_of (cs_lastSeenAt s) (ct_id task)) in
          (case computeJitteredNext env task parsed baseFromMs of
             None \<Rightarrow> s
           | Some nextFireAt \<Rightarrow>
               if of_int now < nextFireAt then s
               else (case computeNextCronRun (en_zone env) parsed baseFromMs of
                   Some ideal \<Rightarrow>
                     if ct_recurring task \<noteq> Some False
                     then let (count, lastDueMs) = countCoalesced env task parsed ideal now in
                       deliverFire env now firedAt task (max 1 count) (Some lastDueMs) s
                     else deliverFire env now firedAt task 1 None s
                 | None \<Rightarrow> deliverFire env now firedAt task 1 None s)))"

text \<open>A tick: \<open>running\<close> is the state of the main agent's loop, \<open>clock\<close> the time at which each task is
  delivered.\<close>

definition cron_tick :: "cron_env \<Rightarrow> bool \<Rightarrow> bool \<Rightarrow> int \<Rightarrow> (js_string \<Rightarrow> int) \<Rightarrow> cron_state \<Rightarrow> cron_state" where
  "cron_tick env main running now clock s =
     (if en_disabled env then s
      else if cs_tasks s = [] then s
      else if \<not> main then s
      else if running then s
      else fold (\<lambda>task. processDue env now (clock (ct_id task)) task) (map snd (cs_tasks s)) s)"

text \<open>The settlement of a delivery, to the end of \<^verbatim>\<open>processDue\<close>.\<close>

definition settle :: "bool \<Rightarrow> bool \<Rightarrow> delivery \<Rightarrow> cron_state \<Rightarrow> cron_state" where
  "settle main delivered d s =
     (let task = dl_task d; i = ct_id task;
          s = s\<lparr>cs_pending := remove1 d (cs_pending s)\<rparr>;
          s = (if delivered \<and> dl_stale d \<and> ct_recurring task \<noteq> Some False then snd (removeTasks main [i] s) else s);
          s = s\<lparr>cs_inFlight := removeAll i (cs_inFlight s)\<rparr> in
      if \<not> delivered then s
      else if ct_recurring task = Some False
      then let s = snd (removeTasks main [i] s) in
        s\<lparr>cs_lastSeenAt := AList.delete i (cs_lastSeenAt s), cs_seededFromStore := removeAll i (cs_seededFromStore s)\<rparr>
      else let advancedTo = (case dl_lastDue d of Some t \<Rightarrow> t | None \<Rightarrow> dl_now d);
               s = s\<lparr>cs_lastSeenAt := AList.update i advancedTo (cs_lastSeenAt s)\<rparr> in
        advanceCursor main i advancedTo s)"

end
