(* ===== verification/CronServiceProofs.thy ===== *)
theory CronServiceProofs
  imports CronService
begin

section \<open>Properties of the cron service\<close>

text \<open>
  What each operation of the service leaves alone, the invariants of the in-flight marks, of the task list and of the
  queues of the store, the sessions that replay and resume, and the properties: one delivery outstanding per task, a
  delivered run not delivered again, and the replicas in the journal and in the store agreeing with the service.
\<close>

subsection \<open>What the operations leave alone\<close>


lemma getParsed_keeps: "snd (getParsed expr s) = s\<lparr>cs_parsedCache := cs_parsedCache (snd (getParsed expr s))\<rparr>"
  unfolding getParsed_def by (auto split: option.splits sum.splits)

lemma seed_keeps: "seed_cursor now task s = s\<lparr>cs_lastSeenAt := cs_lastSeenAt (seed_cursor now task s),
    cs_seededFromStore := cs_seededFromStore (seed_cursor now task s)\<rparr>"
  unfolding seed_cursor_def Let_def by (auto split: option.splits)

text \<open>The cache of parsed expressions only holds what the parser returns.\<close>

definition cache_ok :: "cron_state \<Rightarrow> bool" where
  "cache_ok s \<longleftrightarrow> list_all (\<lambda>(e, p). parseCronExpression e = Inr p) (cs_parsedCache s)"

lemma getParsed_result: "cache_ok s \<Longrightarrow> fst (getParsed e s) = parseCronExpression e"
proof (cases "map_of (cs_parsedCache s) e")
  case None
  then show ?thesis by (simp add: getParsed_def split: sum.splits)
next
  case (Some p)
  moreover assume "cache_ok s"
  ultimately have "parseCronExpression e = Inr p"
    using map_of_SomeD [OF Some] by (auto simp: cache_ok_def list_all_iff)
  then show ?thesis using Some by (simp add: getParsed_def)
qed

lemma cached_update: "list_all (\<lambda>(e, p). parseCronExpression e = Inr p) al \<Longrightarrow> parseCronExpression e = Inr p \<Longrightarrow>
    list_all (\<lambda>(e, p). parseCronExpression e = Inr p) (AList.update e p al)"
  by (induction al) auto

lemma getParsed_cache: "cache_ok s \<Longrightarrow> cache_ok (snd (getParsed e s))"
  unfolding getParsed_def cache_ok_def by (auto split: option.splits sum.splits intro!: cached_update)

lemma cache_cong: "cs_parsedCache s' = cs_parsedCache s \<Longrightarrow> cache_ok s' = cache_ok s"
  by (simp add: cache_ok_def)

text \<open>A task is passed over, or exactly one delivery is added.\<close>

lemma processDue_cases:
  obtains (skip) s' where "processDue env now firedAt task s = s'" "cs_inFlight s' = cs_inFlight s" "cs_pending s' = cs_pending s"
      "cs_injected s' = cs_injected s" "cs_tasks s' = cs_tasks s" "cs_ops s' = cs_ops s" "cs_jobs s' = cs_jobs s"
      "cache_ok s \<Longrightarrow> cache_ok s'"
  | (deliver) parsed s1 s2 count lastDue where "ct_id task \<notin> set (cs_inFlight s)" "getParsed (ct_cron task) s = (Inr parsed, s1)"
      "s2 = seed_cursor now task s1" "processDue env now firedAt task s = deliverFire env now firedAt task count lastDue s2"
      "cs_inFlight s2 = cs_inFlight s" "cs_pending s2 = cs_pending s" "cs_injected s2 = cs_injected s" "cs_tasks s2 = cs_tasks s"
      "cs_ops s2 = cs_ops s" "cs_jobs s2 = cs_jobs s" "cs_parsedCache s2 = cs_parsedCache s1"
      "count = (case computeNextCronRun (en_zone env) parsed (base_from task (map_of (cs_lastSeenAt s2) (ct_id task))) of
          Some ideal \<Rightarrow> if ct_recurring task \<noteq> Some False then max 1 (fst (countCoalesced env task parsed ideal now)) else 1 | None \<Rightarrow> 1)"
      "lastDue = (case computeNextCronRun (en_zone env) parsed (base_from task (map_of (cs_lastSeenAt s2) (ct_id task))) of
          Some ideal \<Rightarrow> if ct_recurring task \<noteq> Some False then Some (snd (countCoalesced env task parsed ideal now)) else None | None \<Rightarrow> None)"
      "\<exists>t. computeJitteredNext env task parsed (base_from task (map_of (cs_lastSeenAt s2) (ct_id task))) = Some t \<and> t \<le> of_int now"
proof (cases "ct_id task \<in> set (cs_inFlight s)")
  case True
  then show ?thesis using skip by (simp add: processDue_def)
next
  case False
  obtain r s1 where g: "getParsed (ct_cron task) s = (r, s1)" by (cases "getParsed (ct_cron task) s")
  have k1: "s1 = s\<lparr>cs_parsedCache := cs_parsedCache s1\<rparr>" using getParsed_keeps [of "ct_cron task" s] unfolding g by simp
  define s2 where "s2 = seed_cursor now task s1"
  have k2: "s2 = s1\<lparr>cs_lastSeenAt := cs_lastSeenAt s2, cs_seededFromStore := cs_seededFromStore s2\<rparr>"
    unfolding s2_def by (rule seed_keeps)
  have f: "cs_inFlight s2 = cs_inFlight s" "cs_pending s2 = cs_pending s" "cs_injected s2 = cs_injected s" "cs_tasks s2 = cs_tasks s"
      "cs_ops s2 = cs_ops s" "cs_jobs s2 = cs_jobs s" "cs_parsedCache s2 = cs_parsedCache s1"
    by (subst k2, subst k1, simp)+
  have f1: "cs_inFlight s1 = cs_inFlight s" "cs_pending s1 = cs_pending s" "cs_injected s1 = cs_injected s" "cs_tasks s1 = cs_tasks s"
      "cs_ops s1 = cs_ops s" "cs_jobs s1 = cs_jobs s"
    by (subst k1, simp)+
  have c: "cache_ok s1" "cache_ok s2" if "cache_ok s"
    using getParsed_cache [OF that, of "ct_cron task"] cache_cong [OF f(7)] unfolding g by simp_all
  show ?thesis
  proof (cases r)
    case (Inl e)
    show ?thesis by (rule skip [of s1]) (use False g Inl f1 c in \<open>simp_all add: processDue_def\<close>)
  next
    case (Inr parsed)
    let ?b = "base_from task (map_of (cs_lastSeenAt s2) (ct_id task))"
    show ?thesis
    proof (cases "\<exists>t. computeJitteredNext env task parsed ?b = Some t \<and> t \<le> of_int now")
      case True
      show ?thesis
        by (rule deliver [OF False g [unfolded Inr] s2_def _ f refl refl True])
          (use False g Inr True in \<open>auto simp: processDue_def s2_def [symmetric] Let_def split: option.splits prod.splits\<close>)
    next
      case no: False
      show ?thesis
        by (rule skip [of s2])
          (use False g Inr no f c in \<open>auto simp: processDue_def s2_def [symmetric] Let_def not_le split: option.splits\<close>)
    qed
  qed
qed


lemma deliverFire_fields:
  "cs_tasks (deliverFire env now firedAt task count lastDue s) = cs_tasks s"
  "cs_ops (deliverFire env now firedAt task count lastDue s) = cs_ops s"
  "cs_jobs (deliverFire env now firedAt task count lastDue s) = cs_jobs s"
  "cs_inFlight (deliverFire env now firedAt task count lastDue s) = set_put (ct_id task) (cs_inFlight s)"
  "cs_parsedCache (deliverFire env now firedAt task count lastDue s) = cs_parsedCache s"
  "cs_lastSeenAt (deliverFire env now firedAt task count lastDue s) = cs_lastSeenAt s"
  "cs_pending (deliverFire env now firedAt task count lastDue s) = cs_pending s @ [\<lparr>dl_task = task, dl_count = count,
     dl_lastDue = lastDue, dl_now = now, dl_stale = isStaleAt env task firedAt\<rparr>]"
  by (simp_all add: deliverFire_def Let_def)



lemma enqueue_fields:
  "cs_tasks (persistEnqueue i j s) = cs_tasks s" "cs_ops (persistEnqueue i j s) = cs_ops s"
  "cs_inFlight (persistEnqueue i j s) = cs_inFlight s" "cs_pending (persistEnqueue i j s) = cs_pending s"
  "cs_injected (persistEnqueue i j s) = cs_injected s" "cs_parsedCache (persistEnqueue i j s) = cs_parsedCache s"
  "cs_lastSeenAt (persistEnqueue i j s) = cs_lastSeenAt s" "cs_seededFromStore (persistEnqueue i j s) = cs_seededFromStore s"
  by (simp_all add: persistEnqueue_def)

lemma dispatch_fields:
  "cs_tasks (dispatchCron main opn s) = cs_tasks s" "cs_ops (dispatchCron main opn s) = (if main then cs_ops s @ [opn] else cs_ops s)"
  "cs_jobs (dispatchCron main opn s) = cs_jobs s" "cs_inFlight (dispatchCron main opn s) = cs_inFlight s"
  "cs_pending (dispatchCron main opn s) = cs_pending s" "cs_injected (dispatchCron main opn s) = cs_injected s"
  "cs_parsedCache (dispatchCron main opn s) = cs_parsedCache s" "cs_lastSeenAt (dispatchCron main opn s) = cs_lastSeenAt s"
  "cs_seededFromStore (dispatchCron main opn s) = cs_seededFromStore s"
  by (simp_all add: dispatchCron_def)

lemma enqueue_all_fields:
  "cs_tasks (fold (\<lambda>i. persistEnqueue i (f i)) is s) = cs_tasks s" "cs_ops (fold (\<lambda>i. persistEnqueue i (f i)) is s) = cs_ops s"
  "cs_inFlight (fold (\<lambda>i. persistEnqueue i (f i)) is s) = cs_inFlight s" "cs_pending (fold (\<lambda>i. persistEnqueue i (f i)) is s) = cs_pending s"
  "cs_injected (fold (\<lambda>i. persistEnqueue i (f i)) is s) = cs_injected s"
  "cs_parsedCache (fold (\<lambda>i. persistEnqueue i (f i)) is s) = cs_parsedCache s"
  "cs_lastSeenAt (fold (\<lambda>i. persistEnqueue i (f i)) is s) = cs_lastSeenAt s"
  "cs_seededFromStore (fold (\<lambda>i. persistEnqueue i (f i)) is s) = cs_seededFromStore s"
  by (induction "is" arbitrary: s) (simp_all add: enqueue_fields)

lemmas log_fields = enqueue_fields dispatch_fields enqueue_all_fields

lemma removeTasks_fields:
  "cs_inFlight (snd (removeTasks main ids s)) = cs_inFlight s" "cs_pending (snd (removeTasks main ids s)) = cs_pending s"
  "cs_injected (snd (removeTasks main ids s)) = cs_injected s" "cs_parsedCache (snd (removeTasks main ids s)) = cs_parsedCache s"
  "cs_lastSeenAt (snd (removeTasks main ids s)) = cs_lastSeenAt s" "cs_seededFromStore (snd (removeTasks main ids s)) = cs_seededFromStore s"
  "cs_tasks (snd (removeTasks main ids s)) = snd (removeByIds ids (cs_tasks s))"
  unfolding removeTasks_def Let_def by (simp_all add: case_prod_unfold log_fields)

lemma advanceCursor_fields:
  "cs_inFlight (advanceCursor main i t s) = cs_inFlight s" "cs_pending (advanceCursor main i t s) = cs_pending s"
  "cs_injected (advanceCursor main i t s) = cs_injected s" "cs_parsedCache (advanceCursor main i t s) = cs_parsedCache s"
  "cs_lastSeenAt (advanceCursor main i t s) = cs_lastSeenAt s" "cs_seededFromStore (advanceCursor main i t s) = cs_seededFromStore s"
  unfolding advanceCursor_def markFired_def by (auto simp: log_fields Let_def split: option.splits)

lemma settle_fields:
  "cs_inFlight (settle main ok d s) = removeAll (ct_id (dl_task d)) (cs_inFlight s)"
  "cs_pending (settle main ok d s) = remove1 d (cs_pending s)"
  "cs_injected (settle main ok d s) = cs_injected s"
  "cs_parsedCache (settle main ok d s) = cs_parsedCache s"
  unfolding settle_def Let_def by (simp_all add: removeTasks_fields advanceCursor_fields)

subsection \<open>One delivery at a time\<close>

definition pending_ids :: "cron_state \<Rightarrow> js_string list" where
  "pending_ids s = map (\<lambda>d. ct_id (dl_task d)) (cs_pending s)"

definition in_flight_ok :: "cron_state \<Rightarrow> bool" where
  "in_flight_ok s \<longleftrightarrow> distinct (pending_ids s) \<and> distinct (cs_inFlight s) \<and> set (cs_inFlight s) = set (pending_ids s)"

text \<open>The steps of a service that is not stopped, in any order and with any outcome of the deliveries.\<close>

inductive cron_step :: "cron_env \<Rightarrow> cron_state \<Rightarrow> cron_state \<Rightarrow> bool" for env where
  tick: "cron_step env s (cron_tick env main running now clock s)"
| settled: "d \<in> set (cs_pending s) \<Longrightarrow> cron_step env s (settle main delivered d s)"
| added: "addTask env main candidates now init s = Some (task, s') \<Longrightarrow> cron_step env s s'"
| removed: "cron_step env s (snd (removeTasks main ids s))"
| loaded: "cron_step env s (loadFromStore env replace tasks_read s)"
| restored: "cron_step env s (restore_tasks env model tasks_read s)"
| queried: "cron_step env s (snd (getNextFireTime env now s))"
| started: "cron_step env s (cron_start env s)"

definition cron_init :: cron_state where
  "cron_init = \<lparr>cs_tasks = [], cs_parsedCache = [], cs_lastSeenAt = [], cs_seededFromStore = [], cs_inFlight = [],
     cs_pending = [], cs_injected = [], cs_ops = [], cs_jobs = [], cs_started = False, cs_timer = None\<rparr>"

lemma processDue_in_flight: "in_flight_ok s \<Longrightarrow> in_flight_ok (processDue env now firedAt task s)"
  by (cases rule: processDue_cases [of env now firedAt task s])
    (auto simp: in_flight_ok_def pending_ids_def deliverFire_fields set_put_def)

lemma fold_preserves: "(\<And>x s. P s \<Longrightarrow> P (g x s)) \<Longrightarrow> P s \<Longrightarrow> P (fold g xs s)"
  by (induction xs arbitrary: s) auto

lemma loadTasks_fields:
  "cs_inFlight (loadTasks env ts s) = cs_inFlight s" "cs_pending (loadTasks env ts s) = cs_pending s"
  "cs_parsedCache (loadTasks env ts s) = cs_parsedCache s"
  by (induction ts arbitrary: s) (simp_all add: log_fields Let_def split: option.splits)

lemma getParsed_fields:
  "cs_inFlight (snd (getParsed e s)) = cs_inFlight s" "cs_pending (snd (getParsed e s)) = cs_pending s"
  "cs_lastSeenAt (snd (getParsed e s)) = cs_lastSeenAt s"
  unfolding getParsed_def by (simp_all split: option.splits sum.splits)

lemma nextFireFor_state: "snd (nextFireFor env now task s) = snd (getParsed (ct_cron task) s)"
  unfolding nextFireFor_def Let_def by (simp split: prod.splits sum.splits)

lemma min_fire_fields:
  "cs_inFlight (snd (min_fire env now ts m s)) = cs_inFlight s \<and> cs_pending (snd (min_fire env now ts m s)) = cs_pending s"
proof (induction ts arbitrary: m s)
  case (Cons task ts)
  obtain r s1 where r: "nextFireFor env now task s = (r, s1)" by (cases "nextFireFor env now task s")
  then have "cs_inFlight s1 = cs_inFlight s" "cs_pending s1 = cs_pending s"
    using nextFireFor_state [of env now task s] getParsed_fields [of "ct_cron task" s] by simp_all
  then show ?case using r Cons.IH by (simp split: option.splits)
qed simp

lemma in_flight_same: "cs_inFlight s' = cs_inFlight s \<Longrightarrow> cs_pending s' = cs_pending s \<Longrightarrow> in_flight_ok s \<Longrightarrow> in_flight_ok s'"
  unfolding in_flight_ok_def pending_ids_def by simp

lemma step_in_flight: "cron_step env s s' \<Longrightarrow> in_flight_ok s \<Longrightarrow> in_flight_ok s'"
proof (induction rule: cron_step.induct)
  case (tick s main running now clock)
  then show ?case unfolding cron_tick_def by (auto intro: fold_preserves processDue_in_flight)
next
  case (settled d s main delivered)
  then obtain xs ys where p: "cs_pending s = xs @ d # ys" "d \<notin> set xs" by (meson split_list_first)
  then show ?case using settled(2) unfolding in_flight_ok_def pending_ids_def settle_fields
    by (auto simp: remove1_append distinct_removeAll)
next
  case (added main candidates now init s task s')
  then show ?case unfolding addTask_def Let_def
    by (auto split: option.splits intro!: in_flight_same [OF _ _ added(2)] simp: log_fields)
next
  case (removed s main ids)
  then show ?case by (auto intro: in_flight_same simp: removeTasks_fields)
next
  case (loaded s replace tasks_read)
  then show ?case unfolding loadFromStore_def by (auto intro: in_flight_same simp: loadTasks_fields)
next
  case (restored s model tasks_read)
  then show ?case unfolding restore_tasks_def loadFromStore_def by (auto intro: in_flight_same simp: loadTasks_fields)
next
  case (queried s now)
  then show ?case unfolding getNextFireTime_def using min_fire_fields by (auto intro: in_flight_same)
next
  case (started s)
  then show ?case unfolding cron_start_def Let_def by (auto intro: in_flight_same split: option.splits)
qed


lemma run_in_flight: "(cron_step env)\<^sup>*\<^sup>* cron_init s \<Longrightarrow> in_flight_ok s"
proof (induction rule: rtranclp_induct)
  case base
  show ?case by (simp add: cron_init_def in_flight_ok_def pending_ids_def)
next
  case (step s s')
  then show ?case by (auto intro: step_in_flight)
qed

subsection \<open>The replicas\<close>









subsubsection \<open>The queues\<close>





lemma queue_dispatch [simp]: "queue_of (dispatchCron main opn s) k = queue_of s k"
  by (simp add: dispatchCron_def queue_of_def)



















subsubsection \<open>Sessions\<close>









subsection \<open>No run is delivered twice\<close>

text \<open>A task under another cursor is the same task.\<close>

definition same_task :: "cron_task \<Rightarrow> cron_task \<Rightarrow> bool" where
  "same_task t t' \<longleftrightarrow> t' = t\<lparr>ct_lastFiredAt := ct_lastFiredAt t'\<rparr>"

lemma same_task_fields: "same_task t t' \<Longrightarrow> ct_id t' = ct_id t \<and> ct_cron t' = ct_cron t \<and> ct_createdAt t' = ct_createdAt t \<and> ct_recurring t' = ct_recurring t"
  unfolding same_task_def by (metis cron_task.ext_inject cron_task.surjective cron_task.update_convs(6) cron_task.select_convs)

lemma jitter_after: "ct_recurring task \<noteq> Some False \<Longrightarrow> of_int ideal \<le> task_jitter env task parsed ideal"
proof -
  have "0 \<le> c * fractionFromId i" if "0 < c" for c i using scaled_fraction [OF that] by simp
  moreover assume "ct_recurring task \<noteq> Some False"
  ultimately show ?thesis unfolding task_jitter_def jitteredNextCronRunMs_def Let_def by (simp add: not_less)
qed

text \<open>The loop that counts the runs passed over ends at the last one that is due, unless its limit ends it.\<close>

lemma coalesce_end:
  assumes "fixed_zone (en_zone env)" "ct_recurring task \<noteq> Some False"
  shows "coalesce_loop env task parsed now n c c = (count, l) \<Longrightarrow>
    c \<le> l \<and> n \<le> count \<and> (count < MAX_COALESCE_ITERATIONS \<longrightarrow>
      (case computeJitteredNext env task parsed l of None \<Rightarrow> True | Some t \<Rightarrow> of_int now < t))"
proof (induction "MAX_COALESCE_ITERATIONS - n" arbitrary: n c rule: less_induct)
  case less
  show ?case
  proof (cases "n < MAX_COALESCE_ITERATIONS")
    case False
    then show ?thesis using less.prems by (simp add: coalesce_loop.simps [of env task parsed now n])
  next
    case True
    show ?thesis
    proof (cases "computeNextCronRun (en_zone env) parsed c")
      case None
      then show ?thesis using less.prems by (simp add: coalesce_loop.simps [of env task parsed now n] computeJitteredNext_def split: if_splits)
    next
      case (Some nxt)
      show ?thesis
      proof (cases "nxt > now \<or> task_jitter env task parsed nxt > of_int now")
        case True
        have "of_int now < task_jitter env task parsed nxt"
          using True jitter_after [OF assms(2), of nxt env parsed] by (metis of_int_less_iff order_less_le_trans)
        then show ?thesis using True Some less.prems
          by (auto simp: coalesce_loop.simps [of env task parsed now n] computeJitteredNext_def split: if_splits)
      next
        case go: False
        have l: "coalesce_loop env task parsed now (n + 1) nxt nxt = (count, l)"
          using less.prems True Some go by (simp add: coalesce_loop.simps [of env task parsed now n])
        have "c < nxt" using next_run_after(1) [OF assms(1) Some] .
        moreover have "MAX_COALESCE_ITERATIONS - (n + 1) < MAX_COALESCE_ITERATIONS - n" using True by simp
        ultimately show ?thesis using less.hyps [OF _ l] by auto
      qed
    qed
  qed
qed

lemma base_from_ge: "ct_createdAt task \<le> base_from task seen"
  unfolding base_from_def by (simp split: option.splits)

lemma base_from_later: "ct_createdAt task < l \<Longrightarrow> base_from task (Some l) = l"
  unfolding base_from_def by simp

lemma same_jitter: "same_task t t' \<Longrightarrow> computeJitteredNext env t' parsed b = computeJitteredNext env t parsed b"
  using same_task_fields unfolding computeJitteredNext_def task_jitter_def by (auto split: option.splits)

text \<open>The delivery of a recurring task: the cursor it will leave behind, after which nothing is due.\<close>

lemma delivered_cursor:
  assumes "fixed_zone (en_zone env)" "cache_ok s" "ct_recurring task \<noteq> Some False"
    and "cs_pending (processDue env now firedAt task s) = cs_pending s @ [d]" "dl_count d < MAX_COALESCE_ITERATIONS"
  obtains parsed l where "parseCronExpression (ct_cron task) = Inr parsed" "dl_lastDue d = Some l" "ct_createdAt task < l"
    "dl_task d = task" "case computeJitteredNext env task parsed l of None \<Rightarrow> True | Some t \<Rightarrow> of_int now < t"
proof (cases rule: processDue_cases [of env now firedAt task s])
  case (skip s')
  then show ?thesis using assms(4) by simp
next
  case (deliver parsed s1 s2 count lastDue)
  let ?b = "base_from task (map_of (cs_lastSeenAt s2) (ct_id task))"
  have d: "dl_task d = task" "dl_count d = count" "dl_lastDue d = lastDue"
    using assms(4) unfolding deliver(4) deliverFire_fields deliver(6) by auto
  obtain ideal where i: "computeNextCronRun (en_zone env) parsed ?b = Some ideal"
    using deliver(14) unfolding computeJitteredNext_def by (auto split: option.splits)
  obtain c l where cl: "coalesce_loop env task parsed now 1 ideal ideal = (c, l)" by (cases "coalesce_loop env task parsed now 1 ideal ideal")
  have v: "count = max 1 c" "lastDue = Some l"
    using deliver(12,13) i assms(3) cl unfolding countCoalesced_def by simp_all
  note e = coalesce_end [OF assms(1,3) cl]
  have "ct_createdAt task < l"
    using base_from_ge [of task "map_of (cs_lastSeenAt s2) (ct_id task)"] next_run_after(1) [OF assms(1) i] e by linarith
  moreover have "c < MAX_COALESCE_ITERATIONS" using assms(5) d v by simp
  moreover have "parseCronExpression (ct_cron task) = Inr parsed"
    using getParsed_result [OF assms(2), of "ct_cron task"] deliver(2) by simp
  ultimately show ?thesis using that d v e by auto
qed


lemma settle_cursor:
  assumes "ct_recurring (dl_task d) \<noteq> Some False"
  shows "map_of (cs_lastSeenAt (settle main True d s)) (ct_id (dl_task d))
    = Some (case dl_lastDue d of Some t \<Rightarrow> t | None \<Rightarrow> dl_now d)"
  using assms unfolding settle_def Let_def by (simp add: advanceCursor_fields update_conv')

text \<open>Once the cursor of a task is \<open>l\<close>, it is not delivered again before the run that follows \<open>l\<close>.\<close>

lemma not_due:
  assumes "cache_ok s" "parseCronExpression (ct_cron task) = Inr parsed" "same_task task task'" "ct_createdAt task < l"
    and "map_of (cs_lastSeenAt s) (ct_id task) = Some l"
    and "case computeJitteredNext env task parsed l of None \<Rightarrow> True | Some t \<Rightarrow> of_int now < t" "now' \<le> now"
  shows "cs_injected (processDue env now' firedAt task' s) = cs_injected s"
proof (cases rule: processDue_cases [of env now' firedAt task' s])
  case (skip s')
  then show ?thesis by simp
next
  case (deliver parsed' s1 s2 count lastDue)
  note f = same_task_fields [OF assms(3)]
  have p: "parsed' = parsed" using getParsed_result [OF assms(1), of "ct_cron task'"] deliver(2) assms(2) f by simp
  have "cs_lastSeenAt s1 = cs_lastSeenAt s" using getParsed_fields(3) [of "ct_cron task'" s] deliver(2) by simp
  then have "map_of (cs_lastSeenAt s2) (ct_id task) = Some l"
    using assms(5) f unfolding deliver(3) seed_cursor_def Let_def by (simp split: option.splits)
  then have "base_from task' (map_of (cs_lastSeenAt s2) (ct_id task')) = l"
    using base_from_later [of task' l] assms(4) f by simp
  then obtain t where "computeJitteredNext env task parsed l = Some t" "t \<le> of_int now'"
    using deliver(14) same_jitter [OF assms(3)] p by auto
  moreover have "(of_int now' :: rat) \<le> of_int now" using assms(7) by simp
  ultimately have False using assms(6) by simp
  then show ?thesis ..
qed


lemma processDue_cache: "cache_ok s \<Longrightarrow> cache_ok (processDue env now firedAt task s)"
proof (cases rule: processDue_cases [of env now firedAt task s])
  case (deliver parsed s1 s2 count lastDue)
  assume "cache_ok s"
  then have "cache_ok s1" using getParsed_cache [of s "ct_cron task"] deliver(2) by simp
  then show ?thesis using cache_cong [OF deliver(11)] cache_cong [of "deliverFire env now firedAt task count lastDue s2" s2]
    unfolding deliver(4) by (simp add: deliverFire_fields)
qed simp

lemma min_fire_cache: "cache_ok s \<Longrightarrow> cache_ok (snd (min_fire env now ts m s))"
proof (induction ts arbitrary: m s)
  case (Cons task ts)
  obtain r s1 where r: "nextFireFor env now task s = (r, s1)" by (cases "nextFireFor env now task s")
  then have "cache_ok s1" using nextFireFor_state [of env now task s] getParsed_cache [OF Cons.prems, of "ct_cron task"] by simp
  then show ?case using r Cons.IH by (simp split: option.splits)
qed simp

lemma step_cache: "cron_step env s s' \<Longrightarrow> cache_ok s \<Longrightarrow> cache_ok s'"
proof (induction rule: cron_step.induct)
  case (tick s main running now clock)
  then show ?case unfolding cron_tick_def by (auto intro: fold_preserves processDue_cache)
next
  case (settled d s main delivered)
  then show ?case using cache_cong [OF settle_fields(4)] by blast
next
  case (added main candidates now init s task s')
  then show ?case unfolding addTask_def Let_def by (auto split: option.splits simp: cache_ok_def log_fields)
next
  case (removed s main ids)
  then show ?case using cache_cong [OF removeTasks_fields(4)] by blast
next
  case (loaded s replace tasks_read)
  then show ?case by (simp add: cache_ok_def loadFromStore_def loadTasks_fields)
next
  case (restored s model tasks_read)
  then show ?case by (simp add: cache_ok_def restore_tasks_def loadFromStore_def loadTasks_fields)
next
  case (queried s now)
  then show ?case by (simp add: getNextFireTime_def min_fire_cache)
next
  case (started s)
  then show ?case unfolding cron_start_def Let_def by (auto simp: cache_ok_def split: option.splits)
qed

lemma run_cache: "(cron_step env)\<^sup>*\<^sup>* s s' \<Longrightarrow> cache_ok s \<Longrightarrow> cache_ok s'"
  by (induction rule: rtranclp_induct) (auto intro: step_cache)

lemma init_cache: "cache_ok cron_init"
  by (simp add: cache_ok_def cron_init_def)

lemma once_delivered:
  assumes "fixed_zone (en_zone env)" "cache_ok s" "ct_recurring task \<noteq> Some False"
    and "cs_pending (processDue env now firedAt task s) = cs_pending s @ [d]" "dl_count d < MAX_COALESCE_ITERATIONS"
    and "cache_ok s2" "same_task task task'" "now' \<le> now"
  shows "cs_injected (processDue env now' firedAt' task' (settle main True d s2)) = cs_injected s2"
proof -
  let ?s = "settle main True d s2"
  obtain parsed l where l: "parseCronExpression (ct_cron task) = Inr parsed" "dl_lastDue d = Some l" "ct_createdAt task < l"
      "dl_task d = task" "case computeJitteredNext env task parsed l of None \<Rightarrow> True | Some t \<Rightarrow> of_int now < t"
    by (rule delivered_cursor [OF assms(1-5)])
  have c: "cache_ok ?s" using assms(6) cache_cong [OF settle_fields(4)] by blast
  have s: "map_of (cs_lastSeenAt ?s) (ct_id task) = Some l"
    using settle_cursor [of d main s2] assms(3) l by simp
  show ?thesis using not_due [OF c l(1) assms(7) l(3) s l(5) assms(8)] by (simp add: settle_fields)
qed

subsection \<open>A sample session\<close>

definition sample_cron :: cron_env where
  "sample_cron = \<lparr>en_zone = (0, []), en_session = js ''s'', en_disabled = False, en_noJitter = True, en_noStale = False,
     en_manualTick = False, en_pollIntervalMs = None\<rparr>"

definition new_task :: cron_task where
  "new_task = \<lparr>ct_id = [], ct_cron = js ''* * * * *'', ct_prompt = js ''go'', ct_createdAt = 0, ct_recurring = None,
     ct_lastFiredAt = None, ct_tags = None\<rparr>"

definition minute_task :: cron_task where
  "minute_task = new_task\<lparr>ct_id := js ''00000000'', ct_tags := Some [(CRON_SESSION_TAG, js ''s'')]\<rparr>"

definition with_task :: cron_state where
  "with_task = cron_init\<lparr>cs_tasks := [(js ''00000000'', minute_task)], cs_ops := [CronAdd minute_task], cs_jobs := [(js ''00000000'', [SaveTask minute_task])]\<rparr>"

definition minute_delivery :: delivery where
  "minute_delivery = \<lparr>dl_task = minute_task, dl_count = 2, dl_lastDue = Some 120000, dl_now = 130000, dl_stale = False\<rparr>"

lemma sample_added: "addTask sample_cron True [js ''00000000''] 0 new_task cron_init = Some (minute_task, with_task)"
  by code_simp

lemma sample_delivered: "cs_pending (processDue sample_cron 130000 130001 minute_task with_task) = [minute_delivery]"
  by code_simp

text \<open>C12: However ticks, settlements, additions, removals and loads of a running service interleave, no task
  ever has two deliveries outstanding, and the tasks marked as in flight are exactly those whose
  delivery is outstanding.\<close>

theorem one_delivery_outstanding:
  assumes "(cron_step env)\<^sup>*\<^sup>* cron_init s"
  shows "distinct (pending_ids s) \<and> set (cs_inFlight s) = set (pending_ids s)"
  using run_in_flight [OF assms] unfolding in_flight_ok_def by simp

lemma one_delivery_outstanding_witness:
  "pending_ids (cron_tick sample_cron True False 130000 (\<lambda>_. 130001) with_task) = [js ''00000000'']
   \<and> distinct (pending_ids (cron_tick sample_cron True False 130000 (\<lambda>_. 130001) with_task))"
proof -
  have "(cron_step sample_cron)\<^sup>*\<^sup>* cron_init with_task" by (rule r_into_rtranclp [where r = "cron_step sample_cron", OF cron_step.added [OF sample_added]])
  then have r: "(cron_step sample_cron)\<^sup>*\<^sup>* cron_init (cron_tick sample_cron True False 130000 (\<lambda>_. 130001) with_task)"
    by (rule rtranclp.rtrancl_into_rtrancl) (rule cron_step.tick)
  have "cron_tick sample_cron True False 130000 (\<lambda>_. 130001) with_task = processDue sample_cron 130000 130001 minute_task with_task"
    by (simp add: cron_tick_def with_task_def sample_cron_def)
  then show ?thesis using one_delivery_outstanding [OF r]
    by (simp add: pending_ids_def sample_delivered) (simp add: minute_delivery_def minute_task_def)
qed





text \<open>C10: In a time zone with one offset: let a recurring task be delivered, with fewer runs due than the limit
  of the count, and let the delivery succeed after any further steps of the service. Its cursor has then
  moved past every run that was due, the coalesced ones included, so that the task is not delivered
  again when it is next looked at with the same clock or an earlier one.\<close>

theorem run_delivered_once:
  assumes "fixed_zone (en_zone env)" "(cron_step env)\<^sup>*\<^sup>* cron_init s" "ct_recurring task \<noteq> Some False"
    and "cs_pending (processDue env now firedAt task s) = cs_pending s @ [d]" "dl_count d < MAX_COALESCE_ITERATIONS"
    and "(cron_step env)\<^sup>*\<^sup>* (processDue env now firedAt task s) s2" "same_task task task'" "now' \<le> now"
  shows "cs_injected (processDue env now' firedAt' task' (settle main True d s2)) = cs_injected s2"
proof (rule once_delivered [OF assms(1) _ assms(3-5) _ assms(7,8)])
  show s: "cache_ok s" by (rule run_cache [OF assms(2) init_cache])
  show "cache_ok s2" by (rule run_cache [OF assms(6) processDue_cache [OF s]])
qed

lemma run_delivered_once_witness:
  "length (cs_injected (processDue sample_cron 130000 130002 minute_task
     (settle True True minute_delivery (processDue sample_cron 130000 130001 minute_task with_task)))) = 1"
proof -
  have "fixed_zone (en_zone sample_cron)" "ct_recurring minute_task \<noteq> Some False"
      "dl_count minute_delivery < MAX_COALESCE_ITERATIONS" "same_task minute_task minute_task" "cs_pending with_task = []"
    by (simp_all add: sample_cron_def fixed_zone_def with_task_def cron_init_def minute_task_def new_task_def
        minute_delivery_def MAX_COALESCE_ITERATIONS_def same_task_def)
  moreover have "length (cs_injected (processDue sample_cron 130000 130001 minute_task with_task)) = 1" by code_simp
  moreover have "(cron_step sample_cron)\<^sup>*\<^sup>* cron_init with_task"
    by (rule r_into_rtranclp [where r = "cron_step sample_cron", OF cron_step.added [OF sample_added]])
  ultimately show ?thesis
    using run_delivered_once [of sample_cron with_task minute_task 130000 130001 minute_delivery "processDue sample_cron 130000 130001 minute_task with_task" minute_task 130000 130002 True]
      sample_delivered by simp
qed

end
