(* ===== verification/AgentBatch.thy ===== *)
theory AgentBatch
  imports Json
begin

section \<open>Batches of subagent runs\<close>

text \<open>
  The launch scheduler of a swarm, \<^verbatim>\<open>AgentRunBatch\<close> of \<^verbatim>\<open>session/swarm/agentRunBatch.ts\<close>: a burst of
  launches followed by a steady ramp, and, once the provider limits the rate, requeueing with a
  capacity that shrinks and recovers. Task states are addressed by their index, attempts by the
  number of their launch. The promises, timers and signals the code waits for are events, each with
  the clock at which it is handled; an event of an attempt that is no longer active is ignored as
  the code does. The delays of the \<^verbatim>\<open>retry\<close> package are a parameter. The launcher reports
  readiness after \<^verbatim>\<open>startAttempt\<close> has returned. An infinite time is \<open>None\<close>.
\<close>

datatype batch_kind = SpawnTask js_string | ResumeTask js_string

record batch_task =
  bt_kind :: batch_kind
  bt_prompt :: js_string
  bt_timeout :: "int option"

record task_state =
  ts_agentId :: "js_string option"
  ts_retryAgentId :: "js_string option"
  ts_retryCount :: nat
  ts_retryReadyAt :: int
  ts_started :: bool

datatype abort_reason = UserCancel | OtherAbort js_string

record attempt =
  at_number :: nat
  at_index :: nat
  at_ready :: bool
  at_timedOut :: bool
  at_aborted :: "abort_reason option"

datatype run_status = StatusCompleted | StatusFailed | StatusAborted
datatype run_stage = NotStarted | WasStarted

record run_result =
  rr_index :: nat
  rr_agentId :: "js_string option"
  rr_status :: run_status
  rr_stage :: "run_stage option"
  rr_text :: js_string

datatype launch_call = RetryCall js_string | ResumeCall js_string | SpawnCall js_string

datatype batch_outcome = Resolved "run_result list" | Rejected js_string

record batch =
  ba_tasks :: "batch_task list"
  ba_states :: "task_state list"
  ba_pending :: "nat list"
  ba_results :: "run_result option list"
  ba_signals :: "abort_reason option list"
  ba_active :: "attempt list"
  ba_launches :: "(nat \<times> launch_call) list"
  ba_suspended :: "(nat \<times> js_string) list"
  ba_attempts :: nat
  ba_normalLaunchCount :: nat
  ba_normalTimer :: bool
  ba_rateTimer :: "int option"
  ba_outcome :: "batch_outcome option"
  ba_aborted :: bool
  ba_rateLimitMode :: bool
  ba_startedSuccessCount :: nat
  ba_capacity :: nat
  ba_lastRateLimitAt :: "int option"
  ba_lastShrinkAt :: "int option"
  ba_lastRecoveryAt :: "int option"
  ba_globalRetry :: int
  ba_nextLaunchAt :: int

record batch_env =
  be_maxConcurrency :: "nat option"
  be_createTimeout :: "nat \<Rightarrow> int"

definition INITIAL_LAUNCH_LIMIT :: nat where "INITIAL_LAUNCH_LIMIT = 5"
definition RATE_LIMIT_RETRY_BASE_MS :: int where "RATE_LIMIT_RETRY_BASE_MS = 3000"
definition RATE_LIMIT_CAPACITY_SHRINK_INTERVAL_MS :: int where "RATE_LIMIT_CAPACITY_SHRINK_INTERVAL_MS = 2000"
definition RATE_LIMIT_CAPACITY_RECOVERY_INTERVAL_MS :: int where "RATE_LIMIT_CAPACITY_RECOVERY_INTERVAL_MS = 3 * 60 * 1000"

definition initial_task_state :: task_state where
  "initial_task_state = \<lparr>ts_agentId = None, ts_retryAgentId = None, ts_retryCount = 0, ts_retryReadyAt = 0, ts_started = False\<rparr>"

definition new_batch :: "batch_task list \<Rightarrow> batch" where
  "new_batch tasks = \<lparr>ba_tasks = tasks, ba_states = map (\<lambda>_. initial_task_state) tasks, ba_pending = [0..<length tasks],
     ba_results = map (\<lambda>_. None) tasks, ba_signals = map (\<lambda>_. None) tasks, ba_active = [], ba_launches = [], ba_suspended = [], ba_attempts = 0,
     ba_normalLaunchCount = 0, ba_normalTimer = False, ba_rateTimer = None, ba_outcome = None, ba_aborted = False,
     ba_rateLimitMode = False, ba_startedSuccessCount = 0, ba_capacity = 1, ba_lastRateLimitAt = None, ba_lastShrinkAt = None,
     ba_lastRecoveryAt = None, ba_globalRetry = RATE_LIMIT_RETRY_BASE_MS, ba_nextLaunchAt = 0\<rparr>"

subsection \<open>Ending\<close>

definition batch_cleanup :: "batch \<Rightarrow> batch" where
  "batch_cleanup b = b\<lparr>ba_normalTimer := False, ba_rateTimer := None, ba_active := []\<rparr>"

definition batch_finish :: "run_result list \<Rightarrow> batch \<Rightarrow> batch" where
  "batch_finish results b = (if ba_outcome b \<noteq> None then b else (batch_cleanup b)\<lparr>ba_outcome := Some (Resolved results)\<rparr>)"

definition batch_fail :: "js_string \<Rightarrow> batch \<Rightarrow> batch" where
  "batch_fail err b = (if ba_outcome b \<noteq> None then b else (batch_cleanup b)\<lparr>ba_outcome := Some (Rejected err)\<rparr>)"

definition all_done :: "batch \<Rightarrow> bool" where
  "all_done b \<longleftrightarrow> list_all (\<lambda>r. r \<noteq> None) (ba_results b)"

definition cancelled_result :: "batch \<Rightarrow> nat \<Rightarrow> run_result" where
  "cancelled_result b i = (case ba_results b ! i of
      Some r \<Rightarrow> r
    | None \<Rightarrow> let s = ba_states b ! i in
        if ts_started s \<or> ts_agentId s \<noteq> None
        then \<lparr>rr_index = i, rr_agentId = ts_agentId s, rr_status = StatusAborted, rr_stage = Some WasStarted,
              rr_text = js ''The user manually interrupted this subagent batch before this subagent finished.''\<rparr>
        else \<lparr>rr_index = i, rr_agentId = None, rr_status = StatusAborted, rr_stage = Some NotStarted,
              rr_text = js ''The user manually interrupted this subagent batch before this subagent was started.''\<rparr>)"

definition finishWithUserCancellation :: "batch \<Rightarrow> batch" where
  "finishWithUserCancellation b =
     (if ba_outcome b \<noteq> None then b else batch_finish (map (cancelled_result b) [0..<length (ba_states b)]) b)"

definition batchAbortListener :: "abort_reason \<Rightarrow> batch \<Rightarrow> batch" where
  "batchAbortListener reason b = (let b = b\<lparr>ba_aborted := True\<rparr> in
     case reason of UserCancel \<Rightarrow> finishWithUserCancellation b | OtherAbort err \<Rightarrow> batch_fail err b)"

subsection \<open>Launching\<close>

definition launch_call_of :: "batch_task \<Rightarrow> task_state \<Rightarrow> launch_call" where
  "launch_call_of task s = (case ts_retryAgentId s of
      Some agent \<Rightarrow> RetryCall agent
    | None \<Rightarrow> (case bt_kind task of ResumeTask agent \<Rightarrow> ResumeCall agent | SpawnTask profile \<Rightarrow> SpawnCall profile))"

text \<open>An attempt of a task whose signal is already aborted is active, but launches nothing.\<close>

definition startAttempt :: "nat \<Rightarrow> batch \<Rightarrow> batch" where
  "startAttempt i b =
     (if ba_outcome b \<noteq> None \<or> ba_aborted b then b
      else let signal = ba_signals b ! i in
        b\<lparr>ba_active := ba_active b @ [\<lparr>at_number = ba_attempts b, at_index = i, at_ready = False, at_timedOut = False, at_aborted = signal\<rparr>],
          ba_attempts := ba_attempts b + 1,
          ba_launches := (if signal = None then ba_launches b @ [(i, launch_call_of (ba_tasks b ! i) (ba_states b ! i))] else ba_launches b)\<rparr>)"

definition isAtConcurrencyLimit :: "batch_env \<Rightarrow> batch \<Rightarrow> bool" where
  "isAtConcurrencyLimit env b = (case be_maxConcurrency env of None \<Rightarrow> False | Some n \<Rightarrow> length (ba_active b) \<ge> n)"

definition start_next :: "batch \<Rightarrow> batch" where
  "start_next b = (let b1 = startAttempt (hd (ba_pending b)) (b\<lparr>ba_pending := tl (ba_pending b)\<rparr>) in
     b1\<lparr>ba_normalLaunchCount := ba_normalLaunchCount b1 + 1\<rparr>)"

lemma start_next_count: "ba_normalLaunchCount (start_next b) = ba_normalLaunchCount b + 1"
  by (simp add: start_next_def Let_def startAttempt_def)

function launch_burst :: "batch_env \<Rightarrow> batch \<Rightarrow> batch" where
  "launch_burst env b =
     (if ba_normalLaunchCount b < INITIAL_LAUNCH_LIMIT \<and> ba_pending b \<noteq> [] \<and> \<not> ba_rateLimitMode b \<and> \<not> isAtConcurrencyLimit env b
      then launch_burst env (start_next b) else b)"
  by auto

termination
  by (relation "measure (\<lambda>(env, b). INITIAL_LAUNCH_LIMIT - ba_normalLaunchCount b)") (auto simp: start_next_count)

declare launch_burst.simps [simp del]

definition scheduleNormalLaunch :: "batch_env \<Rightarrow> batch \<Rightarrow> batch" where
  "scheduleNormalLaunch env b =
     (let b = launch_burst env b in
      if ba_pending b = [] \<or> ba_rateLimitMode b \<or> ba_normalTimer b \<or> isAtConcurrencyLimit env b then b
      else b\<lparr>ba_normalTimer := True\<rparr>)"

definition min_time :: "int option \<Rightarrow> int option \<Rightarrow> int option" where
  "min_time a b = (case a of None \<Rightarrow> b | Some x \<Rightarrow> (case b of None \<Rightarrow> a | Some y \<Rightarrow> Some (min x y)))"

definition max_time :: "int \<Rightarrow> int option \<Rightarrow> int option" where
  "max_time a b = map_option (max a) b"

definition nextRecoveryAt :: "batch \<Rightarrow> int option" where
  "nextRecoveryAt b =
     (if ba_pending b = [] then None
      else case ba_lastRateLimitAt b of
        None \<Rightarrow> None
      | Some t \<Rightarrow> Some (max t (case ba_lastRecoveryAt b of None \<Rightarrow> 0 | Some r \<Rightarrow> r) + RATE_LIMIT_CAPACITY_RECOVERY_INTERVAL_MS))"

definition recoverRateLimitCapacity :: "int \<Rightarrow> batch \<Rightarrow> batch" where
  "recoverRateLimitCapacity now b =
     (case nextRecoveryAt b of
        None \<Rightarrow> b
      | Some t \<Rightarrow> if t > now then b
          else b\<lparr>ba_capacity := ba_capacity b + 1, ba_lastRecoveryAt := Some now, ba_nextLaunchAt := min (ba_nextLaunchAt b) now\<rparr>)"

definition nextPendingReadyAt :: "batch \<Rightarrow> int option" where
  "nextPendingReadyAt b = fold (\<lambda>i t. min_time t (Some (ts_retryReadyAt (ba_states b ! i)))) (ba_pending b) None"

definition scheduleWakeup :: "int option \<Rightarrow> int \<Rightarrow> batch \<Rightarrow> batch" where
  "scheduleWakeup wakeupAt now b = (case wakeupAt of
      None \<Rightarrow> b
    | Some t \<Rightarrow> if t \<le> now then b else b\<lparr>ba_rateTimer := Some t\<rparr>)"

definition scheduleNextWakeup :: "int \<Rightarrow> batch \<Rightarrow> batch" where
  "scheduleNextWakeup now b =
     (if ba_pending b = [] then b
      else scheduleWakeup
        (if length (ba_active b) \<ge> ba_capacity b then nextRecoveryAt b
         else min_time (max_time (ba_nextLaunchAt b) (nextPendingReadyAt b)) (nextRecoveryAt b)) now b)"

definition later :: "int option \<Rightarrow> int \<Rightarrow> bool" where
  "later t now = (case t of None \<Rightarrow> True | Some x \<Rightarrow> x > now)"

definition scheduleRateLimitLaunch :: "int \<Rightarrow> batch \<Rightarrow> batch" where
  "scheduleRateLimitLaunch now b =
     (let b = b\<lparr>ba_rateTimer := None\<rparr> in
      if ba_pending b = [] then b
      else let b = recoverRateLimitCapacity now b in
        if length (ba_active b) \<ge> ba_capacity b then scheduleWakeup (nextRecoveryAt b) now b
        else let nextAllowedAt = max_time (ba_nextLaunchAt b) (nextPendingReadyAt b);
                 nextWakeupAt = min_time nextAllowedAt (nextRecoveryAt b) in
          if later nextWakeupAt now then scheduleWakeup nextWakeupAt now b
          else case find (\<lambda>i. ts_retryReadyAt (ba_states b ! i) \<le> now) (ba_pending b) of
              None \<Rightarrow> b
            | Some i \<Rightarrow>
                let b = startAttempt i (b\<lparr>ba_pending := remove1 i (ba_pending b)\<rparr>);
                    b = b\<lparr>ba_nextLaunchAt := now + ba_globalRetry b\<rparr> in
                scheduleNextWakeup now b)"

definition batch_schedule :: "batch_env \<Rightarrow> int \<Rightarrow> batch \<Rightarrow> batch" where
  "batch_schedule env now b =
     (if ba_outcome b \<noteq> None then b
      else if all_done b then batch_finish (map the (ba_results b)) b
      else if ba_aborted b then b
      else if ba_rateLimitMode b then scheduleRateLimitLaunch now b
      else scheduleNormalLaunch env b)"

definition batch_run :: "batch_env \<Rightarrow> int \<Rightarrow> abort_reason option \<Rightarrow> batch_task list \<Rightarrow> batch" where
  "batch_run env now aborted tasks = (let b = new_batch tasks in
     if ba_states b = [] then batch_finish [] b
     else case aborted of
         Some reason \<Rightarrow> batchAbortListener reason b
       | None \<Rightarrow> batch_schedule env now b)"

subsection \<open>Rate limits\<close>

definition shrinkRateLimitCapacity :: "int \<Rightarrow> bool \<Rightarrow> batch \<Rightarrow> batch" where
  "shrinkRateLimitCapacity now force b =
     (if \<not> force \<and> (case ba_lastShrinkAt b of None \<Rightarrow> False | Some t \<Rightarrow> now - t < RATE_LIMIT_CAPACITY_SHRINK_INTERVAL_MS) then b
      else b\<lparr>ba_capacity := max 1 (ba_capacity b - 1), ba_lastShrinkAt := Some now\<rparr>)"

definition enterRateLimitMode :: "int \<Rightarrow> batch \<Rightarrow> batch" where
  "enterRateLimitMode now b =
     (if \<not> ba_rateLimitMode b
      then shrinkRateLimitCapacity now True
        (b\<lparr>ba_rateLimitMode := True, ba_normalTimer := False, ba_capacity := max 1 (ba_startedSuccessCount b),
           ba_nextLaunchAt := max (ba_nextLaunchAt b) (now + RATE_LIMIT_RETRY_BASE_MS)\<rparr>)
      else shrinkRateLimitCapacity now False b)"

definition requeueRateLimited :: "batch_env \<Rightarrow> int \<Rightarrow> attempt \<Rightarrow> js_string \<Rightarrow> batch \<Rightarrow> batch" where
  "requeueRateLimited env now a agentId b =
     (let i = at_index a; s = ba_states b ! i;
          retryCount = ts_retryCount s + 1;
          retryDelay = be_createTimeout env (retryCount - 1);
          s = s\<lparr>ts_agentId := Some agentId, ts_retryAgentId := Some agentId, ts_retryCount := retryCount, ts_retryReadyAt := now + retryDelay\<rparr>;
          b = b\<lparr>ba_suspended := ba_suspended b @ [(i, agentId)], ba_lastRateLimitAt := Some now,
                ba_states := (ba_states b)[i := s], ba_pending := i # ba_pending b\<rparr>;
          b = enterRateLimitMode now b in
      if \<not> at_ready a
      then let g = max (ba_globalRetry b * 2) retryDelay in
        b\<lparr>ba_globalRetry := g, ba_nextLaunchAt := max (ba_nextLaunchAt b) (now + g)\<rparr>
      else b\<lparr>ba_nextLaunchAt := max (ba_nextLaunchAt b) (now + RATE_LIMIT_RETRY_BASE_MS)\<rparr>)"

subsection \<open>Events\<close>

text \<open>How the awaited work of an attempt ends: it completes, the provider limits the rate, it fails (before
  or after the launch), or \<^verbatim>\<open>runAttempt\<close> itself rejects.\<close>

datatype attempt_end = Completes js_string js_string | Limited js_string js_string | Throws js_string | Rejects js_string

datatype batch_event = Ready nat | GotHandle nat js_string | Ended nat attempt_end | TaskTimeout nat | TaskAborted nat abort_reason
  | NormalTimer | RateTimer | BatchAborted abort_reason

definition attemptErrorMessage :: "batch \<Rightarrow> attempt \<Rightarrow> js_string \<Rightarrow> run_status \<Rightarrow> js_string" where
  "attemptErrorMessage b a err status =
     (if at_timedOut a \<and> bt_timeout (ba_tasks b ! at_index a) \<noteq> None then js ''Subagent timed out.''
      else if status = StatusAborted then js ''The user manually interrupted this subagent batch.'' else err)"

definition failedAttemptOutcome :: "batch \<Rightarrow> attempt \<Rightarrow> js_string \<Rightarrow> run_result" where
  "failedAttemptOutcome b a err =
     (let status = (if at_aborted a = Some UserCancel then StatusAborted else StatusFailed);
          agent = ts_agentId (ba_states b ! at_index a) in
      \<lparr>rr_index = at_index a, rr_agentId = agent, rr_status = status,
       rr_stage = Some (if agent = None then NotStarted else WasStarted), rr_text = attemptErrorMessage b a err status\<rparr>)"

definition set_result :: "nat \<Rightarrow> run_result \<Rightarrow> batch \<Rightarrow> batch" where
  "set_result i r b = b\<lparr>ba_results := (ba_results b)[i := Some r]\<rparr>"

definition isOnlyUnfinishedTask :: "nat \<Rightarrow> batch \<Rightarrow> bool" where
  "isOnlyUnfinishedTask i b \<longleftrightarrow> list_all (\<lambda>j. j = i \<or> ba_results b ! j \<noteq> None) [0..<length (ba_results b)]"

definition handleEnd :: "batch_env \<Rightarrow> int \<Rightarrow> attempt \<Rightarrow> attempt_end \<Rightarrow> batch \<Rightarrow> batch" where
  "handleEnd env now a e b =
     (let i = at_index a in
      batch_schedule env now
        (case e of
           Completes agent text \<Rightarrow> set_result i \<lparr>rr_index = i, rr_agentId = Some agent, rr_status = StatusCompleted, rr_stage = None, rr_text = text\<rparr> b
         | Throws err \<Rightarrow> set_result i (failedAttemptOutcome b a err) b
         | Rejects err \<Rightarrow> set_result i \<lparr>rr_index = i, rr_agentId = ts_agentId (ba_states b ! i), rr_status = StatusFailed, rr_stage = None, rr_text = err\<rparr> b
         | Limited agent err \<Rightarrow>
             if isOnlyUnfinishedTask i b
             then set_result i \<lparr>rr_index = i, rr_agentId = Some agent, rr_status = StatusFailed, rr_stage = Some WasStarted,
               rr_text = attemptErrorMessage b a err StatusFailed\<rparr> b
             else requeueRateLimited env now a agent b))"

definition find_attempt :: "nat \<Rightarrow> batch \<Rightarrow> attempt option" where
  "find_attempt k b = find (\<lambda>a. at_number a = k) (ba_active b)"

definition abort_attempt :: "abort_reason \<Rightarrow> attempt \<Rightarrow> attempt" where
  "abort_attempt reason a = a\<lparr>at_aborted := (case at_aborted a of None \<Rightarrow> Some reason | Some r \<Rightarrow> Some r)\<rparr>"

definition change_attempt :: "nat \<Rightarrow> (attempt \<Rightarrow> attempt) \<Rightarrow> batch \<Rightarrow> batch" where
  "change_attempt k f b = b\<lparr>ba_active := map (\<lambda>a. if at_number a = k then f a else a) (ba_active b)\<rparr>"

definition release_attempt :: "nat \<Rightarrow> batch \<Rightarrow> batch" where
  "release_attempt k b = b\<lparr>ba_active := filter (\<lambda>a. at_number a \<noteq> k) (ba_active b)\<rparr>"

definition markAttemptReady :: "batch_env \<Rightarrow> int \<Rightarrow> attempt \<Rightarrow> batch \<Rightarrow> batch" where
  "markAttemptReady env now a b =
     (if at_ready a then b
      else let i = at_index a;
               b = change_attempt (at_number a) (\<lambda>a. a\<lparr>at_ready := True\<rparr>) b;
               b = b\<lparr>ba_states := (ba_states b)[i := (ba_states b ! i)\<lparr>ts_started := True\<rparr>]\<rparr> in
        if \<not> ba_rateLimitMode b then b\<lparr>ba_startedSuccessCount := ba_startedSuccessCount b + 1\<rparr>
        else batch_schedule env now (b\<lparr>ba_globalRetry := RATE_LIMIT_RETRY_BASE_MS, ba_nextLaunchAt := now + RATE_LIMIT_RETRY_BASE_MS\<rparr>))"

definition normal_timer_fires :: "batch_env \<Rightarrow> int \<Rightarrow> batch \<Rightarrow> batch" where
  "normal_timer_fires env now b =
     (let b = b\<lparr>ba_normalTimer := False\<rparr> in
      if ba_outcome b \<noteq> None \<or> ba_rateLimitMode b \<or> ba_pending b = [] then b
      else if isAtConcurrencyLimit env b then b
      else batch_schedule env now (start_next b))"

definition batch_step :: "batch_env \<Rightarrow> int \<Rightarrow> batch_event \<Rightarrow> batch \<Rightarrow> batch" where
  "batch_step env now ev b = (case ev of
      Ready k \<Rightarrow> (case find_attempt k b of None \<Rightarrow> b | Some a \<Rightarrow> markAttemptReady env now a b)
    | GotHandle k agent \<Rightarrow> (case find_attempt k b of None \<Rightarrow> b
        | Some a \<Rightarrow> b\<lparr>ba_states := (ba_states b)[at_index a := (ba_states b ! at_index a)\<lparr>ts_agentId := Some agent\<rparr>]\<rparr>)
    | Ended k e \<Rightarrow> (case find_attempt k b of None \<Rightarrow> b | Some a \<Rightarrow> handleEnd env now a e (release_attempt k b))
    | TaskTimeout k \<Rightarrow> change_attempt k (\<lambda>a. if bt_timeout (ba_tasks b ! at_index a) = None then a
        else abort_attempt (OtherAbort (js ''Aborted'')) (a\<lparr>at_timedOut := True\<rparr>)) b
    | TaskAborted i reason \<Rightarrow> if i < length (ba_signals b) \<and> ba_signals b ! i = None
        then b\<lparr>ba_signals := (ba_signals b)[i := Some reason],
               ba_active := map (\<lambda>a. if at_index a = i then abort_attempt reason a else a) (ba_active b)\<rparr>
        else b
    | NormalTimer \<Rightarrow> if ba_normalTimer b then normal_timer_fires env now b else b
    | RateTimer \<Rightarrow> if ba_rateTimer b \<noteq> None then batch_schedule env now (b\<lparr>ba_rateTimer := None\<rparr>) else b
    | BatchAborted reason \<Rightarrow> if ba_outcome b \<noteq> None \<or> ba_aborted b then b else batchAbortListener reason b)"

fun batch_steps :: "batch_env \<Rightarrow> (int \<times> batch_event) list \<Rightarrow> batch \<Rightarrow> batch" where
  "batch_steps env [] b = b"
| "batch_steps env ((now, ev) # evs) b = batch_steps env evs (batch_step env now ev b)"

end
