(* ===== verification/AgentBatchProofs.thy ===== *)
theory AgentBatchProofs
  imports AgentBatch
begin

section \<open>Properties of a batch\<close>

text \<open>
  Of every sequence of launches, results, suspensions, rate limits and timers of a batch: each task is in one
  place, the batch is never stuck before it is finished, and every task gets one result at its own index.
\<close>

subsection \<open>Every task is in one place\<close>

text \<open>While a batch is unfinished, every task without a result is either pending or has one active
  attempt.\<close>

definition work :: "batch \<Rightarrow> nat list" where
  "work b = ba_pending b @ map at_index (ba_active b)"

definition shape_ok :: "batch \<Rightarrow> bool" where
  "shape_ok b \<longleftrightarrow> length (ba_states b) = length (ba_tasks b) \<and> length (ba_results b) = length (ba_tasks b)
     \<and> (\<forall>i r. i < length (ba_results b) \<longrightarrow> ba_results b ! i = Some r \<longrightarrow> rr_index r = i)"

definition open_ok :: "batch \<Rightarrow> bool" where
  "open_ok b \<longleftrightarrow> distinct (work b) \<and> set (work b) = {i. i < length (ba_results b) \<and> ba_results b ! i = None}
     \<and> distinct (map at_number (ba_active b)) \<and> list_all (\<lambda>a. at_number a < ba_attempts b) (ba_active b)"

definition closed_ok :: "batch \<Rightarrow> bool" where
  "closed_ok b \<longleftrightarrow> ba_active b = [] \<and> \<not> ba_normalTimer b \<and> ba_rateTimer b = None
     \<and> (\<forall>rs. ba_outcome b = Some (Resolved rs) \<longrightarrow> length rs = length (ba_tasks b)
          \<and> (\<forall>i < length rs. rr_index (rs ! i) = i \<and> (\<forall>r. ba_results b ! i = Some r \<longrightarrow> rs ! i = r)))"

definition batch_ok :: "batch \<Rightarrow> bool" where
  "batch_ok b \<longleftrightarrow> shape_ok b \<and> 0 < ba_capacity b \<and> (ba_rateLimitMode b \<longrightarrow> \<not> ba_normalTimer b)
     \<and> (ba_outcome b = None \<longrightarrow> open_ok b \<and> \<not> ba_aborted b) \<and> (ba_outcome b \<noteq> None \<longrightarrow> closed_ok b)"

text \<open>What keeps a batch going: an attempt, or a timer.\<close>

definition alive :: "batch \<Rightarrow> bool" where
  "alive b \<longleftrightarrow> ba_active b \<noteq> [] \<or> ba_normalTimer b \<or> ba_rateTimer b \<noteq> None"

definition going :: "batch \<Rightarrow> bool" where
  "going b \<longleftrightarrow> (ba_outcome b = None \<longrightarrow> alive b)"

definition within_limit :: "batch_env \<Rightarrow> batch \<Rightarrow> bool" where
  "within_limit env b \<longleftrightarrow> ba_rateLimitMode b \<or> (\<forall>n. be_maxConcurrency env = Some n \<longrightarrow> length (ba_active b) \<le> n)"

definition env_ok :: "batch_env \<Rightarrow> bool" where
  "env_ok env \<longleftrightarrow> be_maxConcurrency env \<noteq> Some 0"

lemma limit_active: "env_ok env \<Longrightarrow> isAtConcurrencyLimit env b \<Longrightarrow> ba_active b \<noteq> []"
  unfolding env_ok_def isAtConcurrencyLimit_def by (auto split: option.splits)

lemma open_work: "open_ok b \<Longrightarrow> \<not> all_done b \<Longrightarrow> work b \<noteq> []"
proof -
  assume o: "open_ok b" "\<not> all_done b"
  then obtain i where "i < length (ba_results b)" "ba_results b ! i = None"
    unfolding all_done_def list_all_length by auto
  then have "i \<in> set (work b)" using o(1) unfolding open_ok_def by simp
  then show ?thesis by auto
qed

text \<open>Launching moves a task from pending to active.\<close>

definition same_frame :: "batch \<Rightarrow> batch \<Rightarrow> bool" where
  "same_frame b b' \<longleftrightarrow> ba_tasks b' = ba_tasks b \<and> ba_states b' = ba_states b \<and> ba_results b' = ba_results b \<and> ba_outcome b' = ba_outcome b
     \<and> ba_aborted b' = ba_aborted b \<and> ba_rateLimitMode b' = ba_rateLimitMode b"

lemma start_ok:
  assumes "batch_ok b" "ba_outcome b = None" "i \<in> set (ba_pending b)"
  shows "batch_ok (startAttempt i (b\<lparr>ba_pending := remove1 i (ba_pending b)\<rparr>))"
    "ba_active (startAttempt i (b\<lparr>ba_pending := remove1 i (ba_pending b)\<rparr>)) \<noteq> []"
proof -
  have o: "open_ok b" "\<not> ba_aborted b" using assms(1,2) unfolding batch_ok_def by simp_all
  have d: "distinct (ba_pending b)" using o(1) unfolding open_ok_def work_def by simp
  have "set (remove1 i (ba_pending b)) = set (ba_pending b) - {i}" using d by (rule set_remove1_eq)
  then show "batch_ok (startAttempt i (b\<lparr>ba_pending := remove1 i (ba_pending b)\<rparr>))"
    using assms o unfolding batch_ok_def startAttempt_def Let_def
    by (auto simp: shape_ok_def open_ok_def work_def list_all_iff dest: notin_set_remove1 distinct_remove1)
  show "ba_active (startAttempt i (b\<lparr>ba_pending := remove1 i (ba_pending b)\<rparr>)) \<noteq> []"
    using assms(2) o(2) by (simp add: startAttempt_def Let_def)
qed

lemma start_next_eq: "ba_pending b \<noteq> [] \<Longrightarrow>
    start_next b = (startAttempt (hd (ba_pending b)) (b\<lparr>ba_pending := remove1 (hd (ba_pending b)) (ba_pending b)\<rparr>))
      \<lparr>ba_normalLaunchCount := ba_normalLaunchCount b + 1\<rparr>"
  unfolding start_next_def Let_def by (cases "ba_pending b") (simp_all add: startAttempt_def Let_def)

lemma batch_ok_cong:
  assumes "ba_tasks b' = ba_tasks b" "ba_states b' = ba_states b" "ba_results b' = ba_results b" "ba_pending b' = ba_pending b"
    "ba_active b' = ba_active b" "ba_attempts b' = ba_attempts b" "ba_outcome b' = ba_outcome b" "ba_aborted b' = ba_aborted b"
    "ba_capacity b' = ba_capacity b" "ba_rateLimitMode b' = ba_rateLimitMode b" "ba_normalTimer b' = ba_normalTimer b" "ba_rateTimer b' = ba_rateTimer b"
  shows "batch_ok b' = batch_ok b"
  using assms unfolding batch_ok_def shape_ok_def open_ok_def closed_ok_def work_def by simp

lemma start_next_ok:
  assumes "batch_ok b" "ba_outcome b = None" "ba_pending b \<noteq> []"
  shows "batch_ok (start_next b)" "ba_active (start_next b) \<noteq> []" "ba_outcome (start_next b) = None"
    "ba_rateLimitMode (start_next b) = ba_rateLimitMode b" "length (ba_active (start_next b)) = length (ba_active b) + 1"
    "ba_results (start_next b) = ba_results b" "ba_normalTimer (start_next b) = ba_normalTimer b"
proof -
  have "hd (ba_pending b) \<in> set (ba_pending b)" using assms(3) by simp
  note s = start_ok [OF assms(1,2) this]
  show "batch_ok (start_next b)" unfolding start_next_eq [OF assms(3)] using s(1) by (subst batch_ok_cong) simp_all
  show "ba_active (start_next b) \<noteq> []" unfolding start_next_eq [OF assms(3)] using s(2) by simp
  have "\<not> ba_aborted b" using assms(1,2) by (simp add: batch_ok_def)
  then show "ba_outcome (start_next b) = None" "ba_rateLimitMode (start_next b) = ba_rateLimitMode b"
      "length (ba_active (start_next b)) = length (ba_active b) + 1" "ba_results (start_next b) = ba_results b"
      "ba_normalTimer (start_next b) = ba_normalTimer b"
    using assms(2) unfolding start_next_def Let_def startAttempt_def by simp_all
qed

lemma limit_step: "\<not> isAtConcurrencyLimit env b \<Longrightarrow> length (ba_active b') = length (ba_active b) + 1 \<Longrightarrow> within_limit env b'"
  unfolding isAtConcurrencyLimit_def within_limit_def by (auto split: option.splits)

lemma burst_ok:
  "batch_ok b \<Longrightarrow> ba_outcome b = None \<Longrightarrow> within_limit env b \<Longrightarrow>
    batch_ok (launch_burst env b) \<and> within_limit env (launch_burst env b) \<and> ba_outcome (launch_burst env b) = None
    \<and> ba_rateLimitMode (launch_burst env b) = ba_rateLimitMode b \<and> ba_results (launch_burst env b) = ba_results b"
proof (induction env b rule: launch_burst.induct)
  case (1 env b)
  show ?case
  proof (cases "ba_normalLaunchCount b < INITIAL_LAUNCH_LIMIT \<and> ba_pending b \<noteq> [] \<and> \<not> ba_rateLimitMode b \<and> \<not> isAtConcurrencyLimit env b")
    case True
    then have p: "ba_pending b \<noteq> []" and l: "\<not> isAtConcurrencyLimit env b" by simp_all
    note s = start_next_ok [OF 1(2,3) p]
    show ?thesis using 1(1) [OF True s(1,3) limit_step [OF l s(5)]] True s(4,6) by (simp add: launch_burst.simps [of env b])
  next
    case False
    then show ?thesis using 1(2-4) by (auto simp: launch_burst.simps [of env b])
  qed
qed


text \<open>While a batch is open, the timer of the throttled mode and the launch times do not matter.\<close>

lemma open_cong:
  assumes "ba_tasks b' = ba_tasks b" "ba_states b' = ba_states b" "ba_results b' = ba_results b" "ba_pending b' = ba_pending b"
    "ba_active b' = ba_active b" "ba_attempts b' = ba_attempts b" "ba_outcome b' = None" "ba_outcome b = None" "ba_aborted b' = ba_aborted b"
    "0 < ba_capacity b'" "ba_rateLimitMode b' \<longrightarrow> \<not> ba_normalTimer b'" "batch_ok b"
  shows "batch_ok b'"
  using assms unfolding batch_ok_def shape_ok_def open_ok_def work_def by simp

lemma normal_ok:
  assumes "batch_ok b" "ba_outcome b = None" "\<not> all_done b" "\<not> ba_rateLimitMode b" "within_limit env b" "env_ok env"
  shows "batch_ok (scheduleNormalLaunch env b) \<and> within_limit env (scheduleNormalLaunch env b)
    \<and> ba_outcome (scheduleNormalLaunch env b) = None \<and> alive (scheduleNormalLaunch env b)
    \<and> ba_results (scheduleNormalLaunch env b) = ba_results b"
proof -
  define c where "c = launch_burst env b"
  note u = burst_ok [OF assms(1,2,5), folded c_def]
  have w: "work c \<noteq> []" using open_work [of c] u assms(3) by (auto simp: batch_ok_def all_done_def)
  have rl: "\<not> ba_rateLimitMode c" using u assms(4) by simp
  show ?thesis
  proof (cases "ba_pending c = [] \<or> ba_normalTimer c \<or> isAtConcurrencyLimit env c")
    case True
    then have "alive c" using w limit_active [OF assms(6)] unfolding alive_def work_def by auto
    then show ?thesis using u True rl unfolding scheduleNormalLaunch_def c_def [symmetric] Let_def by auto
  next
    case False
    have "batch_ok (c\<lparr>ba_normalTimer := True\<rparr>)" by (rule open_cong [of _ c]) (use u rl in \<open>auto simp: batch_ok_def\<close>)
    then show ?thesis using u False rl unfolding scheduleNormalLaunch_def c_def [symmetric] Let_def
      by (auto simp: alive_def within_limit_def)
  qed
qed

lemma wakeup_fields: "scheduleWakeup t now b = b\<lparr>ba_rateTimer := ba_rateTimer (scheduleWakeup t now b)\<rparr>"
  unfolding scheduleWakeup_def by (simp split: option.splits)

lemma next_wakeup_fields: "scheduleNextWakeup now b = b\<lparr>ba_rateTimer := ba_rateTimer (scheduleNextWakeup now b)\<rparr>"
  unfolding scheduleNextWakeup_def using wakeup_fields by simp

lemma rate_timer_ok: "batch_ok b \<Longrightarrow> ba_outcome b = None \<Longrightarrow> batch_ok (b\<lparr>ba_rateTimer := t\<rparr>)"
  by (rule open_cong [of _ b]) (auto simp: batch_ok_def)

lemma recovered_fields:
  "recoverRateLimitCapacity now b = b\<lparr>ba_capacity := ba_capacity (recoverRateLimitCapacity now b),
     ba_lastRecoveryAt := ba_lastRecoveryAt (recoverRateLimitCapacity now b), ba_nextLaunchAt := ba_nextLaunchAt (recoverRateLimitCapacity now b)\<rparr>
   \<and> ba_capacity b \<le> ba_capacity (recoverRateLimitCapacity now b)"
  unfolding recoverRateLimitCapacity_def by (simp split: option.splits)

text \<open>Once the capacity has recovered, the next recovery lies ahead.\<close>

lemma recovery_ahead: "later (nextRecoveryAt (recoverRateLimitCapacity now b)) now"
  unfolding recoverRateLimitCapacity_def nextRecoveryAt_def later_def RATE_LIMIT_CAPACITY_RECOVERY_INTERVAL_MS_def
  by (auto split: option.splits)

lemma ready_fold:
  "fold (\<lambda>i t. min_time t (Some (f i))) is acc = Some m \<Longrightarrow> acc = Some m \<or> (\<exists>i\<in>set is. f i = m)"
proof (induction "is" arbitrary: acc)
  case (Cons i "is")
  then have "min_time acc (Some (f i)) = Some m \<or> (\<exists>i\<in>set is. f i = m)" by simp
  then show ?case by (auto simp: min_time_def min_def split: option.splits if_splits)
qed simp

lemma ready_some: "acc \<noteq> None \<or> is \<noteq> [] \<Longrightarrow> fold (\<lambda>i t. min_time t (Some (f i))) is acc \<noteq> None"
proof (induction "is" arbitrary: acc)
  case (Cons i "is")
  have "min_time acc (Some (f i)) \<noteq> None" by (simp add: min_time_def split: option.splits)
  then show ?case using Cons.IH by simp
qed simp

lemma rate_ok:
  assumes "batch_ok b" "ba_outcome b = None" "\<not> all_done b" "ba_rateLimitMode b"
  shows "batch_ok (scheduleRateLimitLaunch now b) \<and> ba_rateLimitMode (scheduleRateLimitLaunch now b)
    \<and> ba_outcome (scheduleRateLimitLaunch now b) = None \<and> alive (scheduleRateLimitLaunch now b)
    \<and> ba_results (scheduleRateLimitLaunch now b) = ba_results b"
proof -
  define b0 where "b0 = b\<lparr>ba_rateTimer := None\<rparr>"
  have b0: "batch_ok b0" "ba_outcome b0 = None" "ba_rateLimitMode b0" "\<not> all_done b0"
    unfolding b0_def using rate_timer_ok [OF assms(1,2)] assms(2-4) by (simp_all add: all_done_def)
  have w: "work b0 \<noteq> []" using open_work [of b0] b0 by (auto simp: batch_ok_def)
  show ?thesis
  proof (cases "ba_pending b0 = []")
    case True
    then have "scheduleRateLimitLaunch now b = b0" unfolding scheduleRateLimitLaunch_def b0_def Let_def by simp
    then show ?thesis using b0 w True by (simp add: alive_def work_def) (simp add: b0_def)
  next
    case False
    define c where "c = recoverRateLimitCapacity now b0"
    obtain cap r n where c: "c = b0\<lparr>ba_capacity := cap, ba_lastRecoveryAt := r, ba_nextLaunchAt := n\<rparr>" "ba_capacity b0 \<le> cap"
      using recovered_fields [of now b0] unfolding c_def by blast
    have cok: "batch_ok c" by (rule open_cong [OF _ _ _ _ _ _ _ b0(2) _ _ _ b0(1)]) (use c b0 in \<open>simp_all add: batch_ok_def\<close>)
    have cf: "ba_outcome c = None" "ba_rateLimitMode c" "ba_pending c \<noteq> []" "0 < ba_capacity c"
      using c b0 False cok by (simp_all add: batch_ok_def)
    have ahead: "later (nextRecoveryAt c) now" unfolding c_def by (rule recovery_ahead)
    have go: "scheduleRateLimitLaunch now b = (if length (ba_active c) \<ge> ba_capacity c then scheduleWakeup (nextRecoveryAt c) now c
        else let nextAllowedAt = max_time (ba_nextLaunchAt c) (nextPendingReadyAt c);
                 nextWakeupAt = min_time nextAllowedAt (nextRecoveryAt c) in
          if later nextWakeupAt now then scheduleWakeup nextWakeupAt now c
          else case find (\<lambda>i. ts_retryReadyAt (ba_states c ! i) \<le> now) (ba_pending c) of
              None \<Rightarrow> c
            | Some i \<Rightarrow>
                let b = startAttempt i (c\<lparr>ba_pending := remove1 i (ba_pending c)\<rparr>);
                    b = b\<lparr>ba_nextLaunchAt := now + ba_globalRetry b\<rparr> in
                scheduleNextWakeup now b)"
      using False unfolding scheduleRateLimitLaunch_def b0_def [symmetric] c_def [symmetric] Let_def by simp
    have wk: "batch_ok (scheduleWakeup t now c) \<and> ba_rateLimitMode (scheduleWakeup t now c) \<and> ba_outcome (scheduleWakeup t now c) = None
        \<and> ba_active (scheduleWakeup t now c) = ba_active c \<and> ba_results (scheduleWakeup t now c) = ba_results b" for t
      using rate_timer_ok [OF cok cf(1)] cf c unfolding b0_def by (subst (1 2 3 4 5) wakeup_fields) simp
    show ?thesis
    proof (cases "length (ba_active c) \<ge> ba_capacity c")
      case True
      then have "ba_active c \<noteq> []" using cf(4) by auto
      then show ?thesis unfolding go using True wk by (simp add: alive_def)
    next
      case room: False
      obtain m where m: "nextPendingReadyAt c = Some m"
        using ready_some [of None "ba_pending c"] cf(3) unfolding nextPendingReadyAt_def by fastforce
      let ?next = "min_time (max_time (ba_nextLaunchAt c) (nextPendingReadyAt c)) (nextRecoveryAt c)"
      show ?thesis
      proof (cases "later ?next now")
        case True
        obtain t where t: "?next = Some t" unfolding m by (cases "nextRecoveryAt c") (auto simp: max_time_def min_time_def)
        then have "ba_rateTimer (scheduleWakeup ?next now c) \<noteq> None" using True unfolding t scheduleWakeup_def later_def by simp
        then show ?thesis unfolding go using room True wk by (simp add: alive_def Let_def)
      next
        case now: False
        have "m \<le> now" using now ahead unfolding m
          by (auto simp: max_time_def min_time_def later_def split: option.splits if_splits)
        moreover obtain i0 where "i0 \<in> set (ba_pending c)" "ts_retryReadyAt (ba_states c ! i0) = m"
          using ready_fold [OF m [unfolded nextPendingReadyAt_def]] by auto
        ultimately have "find (\<lambda>i. ts_retryReadyAt (ba_states c ! i) \<le> now) (ba_pending c) \<noteq> None"
          by (auto simp: find_None_iff)
        then obtain i where i: "find (\<lambda>i. ts_retryReadyAt (ba_states c ! i) \<le> now) (ba_pending c) = Some i" by blast
        then have "i \<in> set (ba_pending c)" by (auto simp: find_Some_iff)
        note s = start_ok [OF cok cf(1) this]
        define d where "d = startAttempt i (c\<lparr>ba_pending := remove1 i (ba_pending c)\<rparr>)"
        have df: "ba_outcome d = None" "ba_rateLimitMode d" "ba_results d = ba_results b"
          using cf c unfolding d_def startAttempt_def Let_def b0_def by simp_all
        define e where "e = d\<lparr>ba_nextLaunchAt := now + ba_globalRetry d\<rparr>"
        have e: "batch_ok e" "ba_active e \<noteq> []" "ba_outcome e = None" "ba_rateLimitMode e" "ba_results e = ba_results b"
          using s df unfolding d_def [symmetric] e_def by (simp_all add: batch_ok_cong [of "d\<lparr>ba_nextLaunchAt := _\<rparr>" d])
        have "scheduleRateLimitLaunch now b = scheduleNextWakeup now e"
          unfolding go using room now i by (simp add: Let_def d_def e_def)
        moreover have "batch_ok (scheduleNextWakeup now e) \<and> ba_rateLimitMode (scheduleNextWakeup now e)
            \<and> ba_outcome (scheduleNextWakeup now e) = None \<and> ba_active (scheduleNextWakeup now e) = ba_active e
            \<and> ba_results (scheduleNextWakeup now e) = ba_results b"
          using rate_timer_ok [OF e(1,3)] e by (subst (1 2 3 4 5) next_wakeup_fields) simp
        ultimately show ?thesis using e(2) by (simp add: alive_def)
      qed
    qed
  qed
qed


lemma finish_ok:
  assumes "batch_ok b" "length rs = length (ba_tasks b)"
    and "\<And>i. i < length rs \<Longrightarrow> rr_index (rs ! i) = i \<and> (\<forall>r. ba_results b ! i = Some r \<longrightarrow> rs ! i = r)"
  shows "batch_ok (batch_finish rs b)"
  using assms unfolding batch_finish_def batch_cleanup_def batch_ok_def shape_ok_def closed_ok_def by auto

lemma finish_outcome: "ba_outcome (batch_finish rs b) \<noteq> None" "ba_outcome b = None \<Longrightarrow> ba_active (batch_finish rs b) = []"
  unfolding batch_finish_def batch_cleanup_def by auto

lemma schedule_ok:
  assumes "batch_ok b" "within_limit env b" "env_ok env"
  shows "batch_ok (batch_schedule env now b) \<and> within_limit env (batch_schedule env now b) \<and> going (batch_schedule env now b)"
proof (cases "ba_outcome b = None")
  case False
  then have "batch_schedule env now b = b" unfolding batch_schedule_def by simp
  then show ?thesis using assms False unfolding going_def by auto
next
  case opened: True
  have na: "\<not> ba_aborted b" using assms(1) opened by (simp add: batch_ok_def)
  show ?thesis
  proof (cases "all_done b")
    case True
    have "batch_ok (batch_finish (map the (ba_results b)) b)"
    proof (rule finish_ok [OF assms(1)])
      show "length (map the (ba_results b)) = length (ba_tasks b)" using assms(1) by (simp add: batch_ok_def shape_ok_def)
      fix i
      assume "i < length (map the (ba_results b))"
      then show "rr_index (map the (ba_results b) ! i) = i \<and> (\<forall>r. ba_results b ! i = Some r \<longrightarrow> map the (ba_results b) ! i = r)"
        using assms(1) True unfolding batch_ok_def shape_ok_def all_done_def list_all_length by force
    qed
    then show ?thesis using opened True finish_outcome [where rs = "map the (ba_results b)" and b = b] unfolding batch_schedule_def going_def within_limit_def by auto
  next
    case nd: False
    show ?thesis
    proof (cases "ba_rateLimitMode b")
      case True
      then show ?thesis using rate_ok [OF assms(1) opened nd True, of now] opened nd na unfolding batch_schedule_def going_def within_limit_def by simp
    next
      case False
      then show ?thesis using normal_ok [OF assms(1) opened nd False assms(2,3)] opened nd na unfolding batch_schedule_def going_def by simp
    qed
  qed
qed

subsection \<open>The events\<close>

definition invariant :: "batch_env \<Rightarrow> batch \<Rightarrow> bool" where
  "invariant env b \<longleftrightarrow> batch_ok b \<and> within_limit env b \<and> going b"

lemma find_attempt_Some: "find_attempt k b = Some a \<Longrightarrow> a \<in> set (ba_active b) \<and> at_number a = k"
  unfolding find_attempt_def by (auto simp: find_Some_iff)

lemma active_open: "batch_ok b \<Longrightarrow> a \<in> set (ba_active b) \<Longrightarrow> ba_outcome b = None"
  unfolding batch_ok_def closed_ok_def by (cases "ba_outcome b") auto

lemma change_ok:
  assumes "batch_ok b" "\<And>a. at_number (f a) = at_number a \<and> at_index (f a) = at_index a"
  shows "batch_ok (b\<lparr>ba_active := map f (ba_active b)\<rparr>)"
proof -
  have e: "at_number \<circ> f = at_number" "at_index \<circ> f = at_index" using assms(2) by (auto simp: fun_eq_iff)
  let ?b = "b\<lparr>ba_active := map f (ba_active b)\<rparr>"
  have "work ?b = work b" "map at_number (ba_active ?b) = map at_number (ba_active b)" unfolding work_def by (simp_all add: e)
  moreover have "list_all (\<lambda>a. at_number a < n) (map f xs) = list_all (\<lambda>a. at_number a < n) xs" for xs n
    using assms(2) by (induction xs) auto
  ultimately show ?thesis using assms(1) unfolding batch_ok_def shape_ok_def open_ok_def closed_ok_def by (simp add: e)
qed

lemma states_ok: "batch_ok b \<Longrightarrow> batch_ok (b\<lparr>ba_states := (ba_states b)[i := s]\<rparr>)"
  unfolding batch_ok_def shape_ok_def open_ok_def closed_ok_def work_def by auto

lemma released:
  assumes "batch_ok b" "a \<in> set (ba_active b)"
  obtains xs ys where "ba_active b = xs @ a # ys" "ba_active (release_attempt (at_number a) b) = xs @ ys"
    "at_index a < length (ba_results b)" "ba_results b ! at_index a = None"
    "at_index a \<notin> set (ba_pending b) \<union> at_index ` set (xs @ ys)" "distinct (ba_pending b @ map at_index (xs @ ys))"
    "set (ba_pending b @ map at_index (xs @ ys)) = {i. i < length (ba_results b) \<and> ba_results b ! i = None} - {at_index a}"
    "distinct (map at_number (xs @ ys))" "list_all (\<lambda>a. at_number a < ba_attempts b) (xs @ ys)"
proof -
  have "ba_outcome b = None" by (rule active_open [OF assms])
  then have o: "open_ok b" using assms(1) by (simp add: batch_ok_def)
  obtain xs ys where a: "ba_active b = xs @ a # ys" using assms(2) by (meson split_list)
  have d: "distinct (map at_number (xs @ a # ys))" "distinct (work b)" "list_all (\<lambda>a. at_number a < ba_attempts b) (xs @ a # ys)"
      "set (work b) = {i. i < length (ba_results b) \<and> ba_results b ! i = None}"
    using o unfolding open_ok_def a by simp_all
  have n: "at_number a \<notin> at_number ` set xs" "at_number a \<notin> at_number ` set ys" using d(1) by auto
  have "filter (\<lambda>c. at_number c \<noteq> at_number a) zs = zs" if "at_number a \<notin> at_number ` set zs" for zs :: "attempt list"
    using that by (induction zs) auto
  then have r: "ba_active (release_attempt (at_number a) b) = xs @ ys" using n unfolding release_attempt_def a by simp
  have "at_index a \<in> set (work b)" unfolding work_def a by simp
  then have i: "at_index a < length (ba_results b)" "ba_results b ! at_index a = None" unfolding d(4) by simp_all
  have w: "work b = ba_pending b @ map at_index xs @ at_index a # map at_index ys" unfolding work_def a by simp
  have u: "at_index a \<notin> set (ba_pending b) \<union> at_index ` set (xs @ ys)" "distinct (ba_pending b @ map at_index (xs @ ys))"
    using d(2) unfolding w by auto
  have "set (ba_pending b @ map at_index (xs @ ys)) = set (work b) - {at_index a}" using u(1) unfolding w by auto
  then show ?thesis using that [OF a r i u] d unfolding d(4) by simp
qed

text \<open>The attempt ends with a result, or its task is requeued.\<close>

lemma result_ok:
  assumes "batch_ok b" "a \<in> set (ba_active b)" "rr_index r = at_index a"
  shows "batch_ok (set_result (at_index a) r (release_attempt (at_number a) b))"
proof -
  obtain xs ys where x: "ba_active b = xs @ a # ys" "ba_active (release_attempt (at_number a) b) = xs @ ys"
    "at_index a < length (ba_results b)" "ba_results b ! at_index a = None"
    "at_index a \<notin> set (ba_pending b) \<union> at_index ` set (xs @ ys)" "distinct (ba_pending b @ map at_index (xs @ ys))"
    "set (ba_pending b @ map at_index (xs @ ys)) = {i. i < length (ba_results b) \<and> ba_results b ! i = None} - {at_index a}"
    "distinct (map at_number (xs @ ys))" "list_all (\<lambda>a. at_number a < ba_attempts b) (xs @ ys)"
    by (rule released [OF assms(1,2)])
  have o: "ba_outcome b = None" by (rule active_open [OF assms(1,2)])
  let ?b = "set_result (at_index a) r (release_attempt (at_number a) b)"
  have f: "ba_active ?b = xs @ ys" "ba_pending ?b = ba_pending b" "ba_results ?b = (ba_results b)[at_index a := Some r]"
      "ba_attempts ?b = ba_attempts b" "ba_outcome ?b = None" "ba_tasks ?b = ba_tasks b" "ba_states ?b = ba_states b"
      "ba_aborted ?b = ba_aborted b" "ba_capacity ?b = ba_capacity b" "ba_rateLimitMode ?b = ba_rateLimitMode b" "ba_normalTimer ?b = ba_normalTimer b"
    using x(2) o unfolding set_result_def release_attempt_def by simp_all
  have "{i. i < length (ba_results ?b) \<and> ba_results ?b ! i = None} = {i. i < length (ba_results b) \<and> ba_results b ! i = None} - {at_index a}"
    unfolding f using x(3) by (auto simp: nth_list_update split: if_splits)
  then have "open_ok ?b" unfolding open_ok_def work_def f(1,2,4) using x(6-9) by simp
  moreover have "shape_ok ?b" using assms(1,3) unfolding batch_ok_def shape_ok_def f using x(3) by (auto simp: nth_list_update split: if_splits)
  ultimately show ?thesis using assms(1) o f unfolding batch_ok_def by simp
qed

lemma shrink_fields:
  "ba_active (shrinkRateLimitCapacity now force b) = ba_active b" "ba_pending (shrinkRateLimitCapacity now force b) = ba_pending b"
  "ba_results (shrinkRateLimitCapacity now force b) = ba_results b" "ba_attempts (shrinkRateLimitCapacity now force b) = ba_attempts b"
  "ba_outcome (shrinkRateLimitCapacity now force b) = ba_outcome b" "ba_tasks (shrinkRateLimitCapacity now force b) = ba_tasks b"
  "ba_states (shrinkRateLimitCapacity now force b) = ba_states b" "ba_aborted (shrinkRateLimitCapacity now force b) = ba_aborted b"
  "ba_rateLimitMode (shrinkRateLimitCapacity now force b) = ba_rateLimitMode b"
  "ba_normalTimer (shrinkRateLimitCapacity now force b) = ba_normalTimer b"
  "0 < ba_capacity b \<Longrightarrow> 0 < ba_capacity (shrinkRateLimitCapacity now force b)"
  unfolding shrinkRateLimitCapacity_def by (auto simp: max_def)

lemma enter_fields:
  "ba_active (enterRateLimitMode now b) = ba_active b" "ba_pending (enterRateLimitMode now b) = ba_pending b"
  "ba_results (enterRateLimitMode now b) = ba_results b" "ba_attempts (enterRateLimitMode now b) = ba_attempts b"
  "ba_outcome (enterRateLimitMode now b) = ba_outcome b" "ba_tasks (enterRateLimitMode now b) = ba_tasks b"
  "ba_states (enterRateLimitMode now b) = ba_states b" "ba_aborted (enterRateLimitMode now b) = ba_aborted b"
  "ba_rateLimitMode (enterRateLimitMode now b)"
  "(ba_rateLimitMode b \<longrightarrow> \<not> ba_normalTimer b) \<Longrightarrow> \<not> ba_normalTimer (enterRateLimitMode now b)"
  "0 < ba_capacity b \<Longrightarrow> 0 < ba_capacity (enterRateLimitMode now b)"
  unfolding enterRateLimitMode_def by (simp_all add: shrink_fields)

lemma requeue_fields:
  "ba_active (requeueRateLimited env now a g b) = ba_active b" "ba_pending (requeueRateLimited env now a g b) = at_index a # ba_pending b"
  "ba_results (requeueRateLimited env now a g b) = ba_results b" "ba_attempts (requeueRateLimited env now a g b) = ba_attempts b"
  "ba_outcome (requeueRateLimited env now a g b) = ba_outcome b" "ba_tasks (requeueRateLimited env now a g b) = ba_tasks b"
  "length (ba_states (requeueRateLimited env now a g b)) = length (ba_states b)" "ba_aborted (requeueRateLimited env now a g b) = ba_aborted b"
  "ba_rateLimitMode (requeueRateLimited env now a g b)"
  "(ba_rateLimitMode b \<longrightarrow> \<not> ba_normalTimer b) \<Longrightarrow> \<not> ba_normalTimer (requeueRateLimited env now a g b)"
  "0 < ba_capacity b \<Longrightarrow> 0 < ba_capacity (requeueRateLimited env now a g b)"
  unfolding requeueRateLimited_def Let_def by (simp_all add: enter_fields)

lemma requeue_ok:
  assumes "batch_ok b" "a \<in> set (ba_active b)"
  shows "batch_ok (requeueRateLimited env now a agent (release_attempt (at_number a) b))"
    "ba_rateLimitMode (requeueRateLimited env now a agent (release_attempt (at_number a) b))"
proof -
  obtain xs ys where x: "ba_active b = xs @ a # ys" "ba_active (release_attempt (at_number a) b) = xs @ ys"
    "at_index a < length (ba_results b)" "ba_results b ! at_index a = None"
    "at_index a \<notin> set (ba_pending b) \<union> at_index ` set (xs @ ys)" "distinct (ba_pending b @ map at_index (xs @ ys))"
    "set (ba_pending b @ map at_index (xs @ ys)) = {i. i < length (ba_results b) \<and> ba_results b ! i = None} - {at_index a}"
    "distinct (map at_number (xs @ ys))" "list_all (\<lambda>a. at_number a < ba_attempts b) (xs @ ys)"
    by (rule released [OF assms])
  have o: "ba_outcome b = None" by (rule active_open [OF assms])
  let ?b = "requeueRateLimited env now a agent (release_attempt (at_number a) b)"
  have k: "ba_pending (release_attempt (at_number a) b) = ba_pending b" "ba_results (release_attempt (at_number a) b) = ba_results b"
      "ba_attempts (release_attempt (at_number a) b) = ba_attempts b" "ba_outcome (release_attempt (at_number a) b) = ba_outcome b"
      "ba_tasks (release_attempt (at_number a) b) = ba_tasks b" "ba_states (release_attempt (at_number a) b) = ba_states b"
      "ba_aborted (release_attempt (at_number a) b) = ba_aborted b" "ba_rateLimitMode (release_attempt (at_number a) b) = ba_rateLimitMode b"
      "ba_normalTimer (release_attempt (at_number a) b) = ba_normalTimer b" "ba_capacity (release_attempt (at_number a) b) = ba_capacity b"
    by (simp_all add: release_attempt_def)
  have f: "ba_active ?b = xs @ ys" "ba_pending ?b = at_index a # ba_pending b" "ba_results ?b = ba_results b"
      "ba_attempts ?b = ba_attempts b" "ba_outcome ?b = None" "ba_tasks ?b = ba_tasks b" "length (ba_states ?b) = length (ba_states b)"
      "ba_aborted ?b = ba_aborted b" "ba_rateLimitMode ?b"
    using x(2) o by (simp_all add: requeue_fields k)
  have t: "\<not> ba_normalTimer ?b" "0 < ba_capacity ?b"
    using assms(1) requeue_fields(10,11) [of "release_attempt (at_number a) b"] unfolding batch_ok_def k by simp_all
  have "open_ok ?b" unfolding open_ok_def work_def f(1-4) using x(3-9) by (auto simp: insert_absorb)
  moreover have "shape_ok ?b" using assms(1) unfolding batch_ok_def shape_ok_def f by auto
  ultimately show "batch_ok ?b" using assms(1) o f t unfolding batch_ok_def by simp
  show "ba_rateLimitMode ?b" by (rule f(9))
qed


lemma within_mono: "within_limit env b \<Longrightarrow> ba_rateLimitMode b' = ba_rateLimitMode b \<Longrightarrow> length (ba_active b') \<le> length (ba_active b) \<Longrightarrow> within_limit env b'"
  unfolding within_limit_def by (metis order_trans)

lemma handleEnd_ok:
  assumes "batch_ok b" "within_limit env b" "env_ok env" "a \<in> set (ba_active b)"
  shows "invariant env (handleEnd env now a e (release_attempt (at_number a) b))"
proof -
  have r: "batch_ok (set_result (at_index a) r (release_attempt (at_number a) b)) \<and> within_limit env (set_result (at_index a) r (release_attempt (at_number a) b))"
    if "rr_index r = at_index a" for r
    using result_ok [OF assms(1,4) that] assms(2)
    by (auto intro!: within_mono [OF assms(2)] simp: set_result_def release_attempt_def)
  have q: "batch_ok (requeueRateLimited env now a g (release_attempt (at_number a) b))
      \<and> within_limit env (requeueRateLimited env now a g (release_attempt (at_number a) b))" for g
    using requeue_ok [OF assms(1,4), of env now g] unfolding within_limit_def by simp
  show ?thesis using r q schedule_ok [OF _ _ assms(3)] unfolding handleEnd_def invariant_def Let_def
    by (cases e) (simp_all add: failedAttemptOutcome_def Let_def)
qed

lemma ready_ok:
  assumes "batch_ok b" "within_limit env b" "env_ok env" "a \<in> set (ba_active b)" "going b"
  shows "invariant env (markAttemptReady env now a b)"
proof (cases "at_ready a")
  case True
  then show ?thesis using assms unfolding markAttemptReady_def invariant_def by simp
next
  case False
  define c where "c = change_attempt (at_number a) (\<lambda>a. a\<lparr>at_ready := True\<rparr>) b"
  define d where "d = c\<lparr>ba_states := (ba_states c)[at_index a := (ba_states c ! at_index a)\<lparr>ts_started := True\<rparr>]\<rparr>"
  have "batch_ok c" unfolding c_def change_attempt_def by (rule change_ok [OF assms(1)]) simp
  then have d: "batch_ok d" unfolding d_def by (rule states_ok)
  have o: "ba_outcome d = None" "ba_active d \<noteq> []" "length (ba_active d) = length (ba_active b)" "ba_rateLimitMode d = ba_rateLimitMode b"
    using active_open [OF assms(1,4)] assms(4) unfolding d_def c_def change_attempt_def by auto
  have w: "within_limit env d" by (rule within_mono [OF assms(2) o(4)]) (simp add: o(3))
  show ?thesis
  proof (cases "ba_rateLimitMode b")
    case True
    have "batch_ok (d\<lparr>ba_globalRetry := g, ba_nextLaunchAt := n\<rparr>)" for g n by (rule open_cong [OF _ _ _ _ _ _ _ o(1) _ _ _ d]) (use d o in \<open>simp_all add: batch_ok_def\<close>)
    moreover have "within_limit env (d\<lparr>ba_globalRetry := g, ba_nextLaunchAt := n\<rparr>)" for g n using w unfolding within_limit_def by simp
    ultimately show ?thesis using schedule_ok [OF _ _ assms(3)] False True o
      unfolding markAttemptReady_def invariant_def Let_def c_def [symmetric] d_def [symmetric] by simp
  next
    case nr: False
    have "batch_ok (d\<lparr>ba_startedSuccessCount := g\<rparr>)" for g by (rule open_cong [OF _ _ _ _ _ _ _ o(1) _ _ _ d]) (use d o in \<open>simp_all add: batch_ok_def\<close>)
    moreover have "within_limit env (d\<lparr>ba_startedSuccessCount := g\<rparr>)" for g using w unfolding within_limit_def by simp
    ultimately show ?thesis using False nr o
      unfolding markAttemptReady_def invariant_def Let_def c_def [symmetric] d_def [symmetric] by (simp add: going_def alive_def)
  qed
qed

lemma cancel_ok: "batch_ok b \<Longrightarrow> ba_outcome b = None \<Longrightarrow> invariant env (batchAbortListener reason b)"
proof -
  assume b: "batch_ok b" "ba_outcome b = None"
  have s: "shape_ok b" using b by (simp add: batch_ok_def)
  have "rr_index (cancelled_result (b\<lparr>ba_aborted := True\<rparr>) i) = i \<and>
      (\<forall>r. ba_results b ! i = Some r \<longrightarrow> cancelled_result (b\<lparr>ba_aborted := True\<rparr>) i = r)" if "i < length (ba_results b)" for i
    using s that unfolding shape_ok_def cancelled_result_def Let_def by (auto split: option.splits)
  then show ?thesis
    using b s unfolding batchAbortListener_def finishWithUserCancellation_def batch_finish_def batch_fail_def batch_cleanup_def
    by (auto simp: invariant_def batch_ok_def shape_ok_def closed_ok_def within_limit_def going_def Let_def split: abort_reason.splits)
qed

lemma timer_ok:
  assumes "batch_ok b" "within_limit env b" "env_ok env" "ba_normalTimer b" "ba_outcome b = None" "\<not> all_done b"
  shows "invariant env (normal_timer_fires env now b)"
proof -
  define c where "c = b\<lparr>ba_normalTimer := False\<rparr>"
  have c: "batch_ok c" unfolding c_def by (rule open_cong [OF _ _ _ _ _ _ _ assms(5) _ _ _ assms(1)]) (use assms in \<open>simp_all add: batch_ok_def\<close>)
  have f: "ba_outcome c = None" "\<not> ba_rateLimitMode c" "within_limit env c" "\<not> all_done c"
    using assms unfolding c_def by (auto simp: batch_ok_def within_limit_def all_done_def)
  have w: "work c \<noteq> []" using open_work [of c] f c by (auto simp: batch_ok_def)
  show ?thesis
  proof (cases "ba_pending c = [] \<or> isAtConcurrencyLimit env c")
    case True
    then have "alive c" using w limit_active [OF assms(3)] unfolding alive_def work_def by auto
    then show ?thesis using True c f unfolding normal_timer_fires_def c_def [symmetric] Let_def by (auto simp: invariant_def going_def)
  next
    case False
    then have p: "ba_pending c \<noteq> []" and l: "\<not> isAtConcurrencyLimit env c" by simp_all
    note s = start_next_ok [OF c f(1) p]
    show ?thesis using schedule_ok [OF s(1) limit_step [OF l s(5)] assms(3)] False f
      unfolding normal_timer_fires_def c_def [symmetric] Let_def invariant_def by simp
  qed
qed


text \<open>A batch that is open has something left to do.\<close>

definition unfinished :: "batch \<Rightarrow> bool" where
  "unfinished b \<longleftrightarrow> (ba_outcome b = None \<longrightarrow> \<not> all_done b)"

lemma changed_invariant:
  assumes "invariant env b" "\<And>a. at_number (f a) = at_number a \<and> at_index (f a) = at_index a"
  shows "invariant env (b\<lparr>ba_active := map f (ba_active b)\<rparr>)"
  using assms change_ok [OF _ assms(2), of b] unfolding invariant_def within_limit_def going_def alive_def by simp

lemma rate_timer_unset: "batch_ok b \<Longrightarrow> batch_ok (b\<lparr>ba_rateTimer := None\<rparr>)"
  unfolding batch_ok_def shape_ok_def open_ok_def closed_ok_def work_def by simp

lemma step_invariant:
  assumes "invariant env b" "env_ok env" "unfinished b"
  shows "invariant env (batch_step env now ev b)"
proof -
  have i: "batch_ok b" "within_limit env b" "going b" using assms(1) by (simp_all add: invariant_def)
  show ?thesis
  proof (cases ev)
    case (Ready k)
    then show ?thesis using ready_ok [OF i(1,2) assms(2) _ i(3)] assms(1) find_attempt_Some
      by (auto simp: batch_step_def split: option.splits)
  next
    case (GotHandle k agent)
    have "invariant env (b\<lparr>ba_states := (ba_states b)[j := t]\<rparr>)" for j t
      using assms(1) states_ok unfolding invariant_def within_limit_def going_def alive_def by simp
    then show ?thesis using GotHandle assms(1) by (simp add: batch_step_def split: option.splits)
  next
    case (Ended k e)
    show ?thesis
    proof (cases "find_attempt k b")
      case None
      then show ?thesis using Ended assms(1) by (simp add: batch_step_def)
    next
      case (Some a)
      then have "a \<in> set (ba_active b)" "k = at_number a" using find_attempt_Some by auto
      then show ?thesis using handleEnd_ok [OF i(1,2) assms(2)] Some Ended by (simp add: batch_step_def)
    qed
  next
    case (TaskTimeout k)
    then show ?thesis unfolding batch_step_def change_attempt_def
      by (auto intro!: changed_invariant [OF assms(1)] simp: abort_attempt_def)
  next
    case (TaskAborted j reason)
    have c: "invariant env (b\<lparr>ba_active := map (\<lambda>a. if at_index a = j then abort_attempt reason a else a) (ba_active b)\<rparr>)"
      by (rule changed_invariant [OF assms(1)]) (simp add: abort_attempt_def)
    have sg: "invariant env (b'\<lparr>ba_signals := x\<rparr>) = invariant env b'" for b' x
      unfolding invariant_def within_limit_def going_def alive_def by (simp add: batch_ok_cong [of "b'\<lparr>ba_signals := x\<rparr>" b'])
    have sg_order: "b\<lparr>ba_signals := x, ba_active := y\<rparr> = b\<lparr>ba_active := y, ba_signals := x\<rparr>" for x y by simp
    have "invariant env (b\<lparr>ba_signals := x, ba_active := map (\<lambda>a. if at_index a = j then abort_attempt reason a else a) (ba_active b)\<rparr>)" for x
      unfolding sg_order using c sg [where b' = "b\<lparr>ba_active := map (\<lambda>a. if at_index a = j then abort_attempt reason a else a) (ba_active b)\<rparr>" and x = x] by simp
    then show ?thesis using TaskAborted assms(1) by (simp add: batch_step_def)
  next
    case NormalTimer
    show ?thesis
    proof (cases "ba_normalTimer b")
      case True
      then have "ba_outcome b = None" using i(1) by (auto simp: batch_ok_def closed_ok_def)
      then show ?thesis using timer_ok [OF i(1,2) assms(2) True] assms(3) True NormalTimer by (simp add: batch_step_def unfinished_def)
    next
      case False
      then show ?thesis using NormalTimer assms(1) by (simp add: batch_step_def)
    qed
  next
    case RateTimer
    have "within_limit env (b\<lparr>ba_rateTimer := None\<rparr>)" using i(2) unfolding within_limit_def by simp
    then show ?thesis using RateTimer schedule_ok [OF rate_timer_unset [OF i(1)] _ assms(2)] assms(1) by (simp add: batch_step_def invariant_def)
  next
    case (BatchAborted reason)
    then show ?thesis using cancel_ok [OF i(1)] assms(1) by (simp add: batch_step_def)
  qed
qed

lemma schedule_unfinished: "batch_ok b \<Longrightarrow> within_limit env b \<Longrightarrow> env_ok env \<Longrightarrow> unfinished (batch_schedule env now b)"
proof -
  assume a: "batch_ok b" "within_limit env b" "env_ok env"
  consider (closed) "ba_outcome b \<noteq> None" | (complete) "ba_outcome b = None" "all_done b"
    | (rate) "ba_outcome b = None" "\<not> all_done b" "ba_rateLimitMode b" | (normal) "ba_outcome b = None" "\<not> all_done b" "\<not> ba_rateLimitMode b"
    by blast
  then show ?thesis
  proof cases
    case closed
    then show ?thesis unfolding batch_schedule_def unfinished_def by auto
  next
    case complete
    then show ?thesis using finish_outcome(1) [where rs = "map the (ba_results b)" and b = b] unfolding batch_schedule_def unfinished_def by auto
  next
    case rate
    then show ?thesis using rate_ok [OF a(1) rate, of now] unfolding batch_schedule_def unfinished_def all_done_def by auto
  next
    case normal
    then show ?thesis using normal_ok [OF a(1) normal a(2,3)] unfolding batch_schedule_def unfinished_def all_done_def by auto
  qed
qed


lemma unfinished_keep: "unfinished b \<Longrightarrow> ba_results b' = ba_results b \<Longrightarrow> ba_outcome b' = ba_outcome b \<Longrightarrow> unfinished b'"
  unfolding unfinished_def all_done_def by simp

lemma abort_unfinished: "unfinished (batchAbortListener reason b)"
  unfolding batchAbortListener_def finishWithUserCancellation_def batch_finish_def batch_fail_def unfinished_def Let_def
  by (auto split: abort_reason.splits)

lemma step_unfinished:
  assumes "invariant env b" "env_ok env" "unfinished b"
  shows "unfinished (batch_step env now ev b)"
proof -
  have i: "batch_ok b" "within_limit env b" using assms(1) by (simp_all add: invariant_def)
  note sched = schedule_unfinished [OF _ _ assms(2)]
  show ?thesis
  proof (cases ev)
    case (Ready k)
    show ?thesis
    proof (cases "find_attempt k b")
      case None
      then show ?thesis using Ready assms(3) by (simp add: batch_step_def)
    next
      case (Some a)
      then have a: "a \<in> set (ba_active b)" using find_attempt_Some by blast
      show ?thesis
      proof (cases "at_ready a \<or> \<not> ba_rateLimitMode b")
        case True
        then show ?thesis using Ready Some unfinished_keep [OF assms(3)]
          by (auto simp: batch_step_def markAttemptReady_def Let_def change_attempt_def assms(3))
      next
        case False
        define c where "c = change_attempt (at_number a) (\<lambda>a. a\<lparr>at_ready := True\<rparr>) b"
        define d where "d = c\<lparr>ba_states := (ba_states c)[at_index a := (ba_states c ! at_index a)\<lparr>ts_started := True\<rparr>]\<rparr>"
        have "batch_ok c" unfolding c_def change_attempt_def by (rule change_ok [OF i(1)]) simp
        then have d: "batch_ok d" unfolding d_def by (rule states_ok)
        have "batch_ok (d\<lparr>ba_globalRetry := g, ba_nextLaunchAt := n\<rparr>)" for g n by (subst batch_ok_cong [where b = d]) (simp_all add: d)
        moreover have "within_limit env (d\<lparr>ba_globalRetry := g, ba_nextLaunchAt := n\<rparr>)" for g n
          using False unfolding within_limit_def d_def c_def change_attempt_def by simp
        moreover have "ba_rateLimitMode d" "ba_rateLimitMode c" using False unfolding d_def c_def change_attempt_def by simp_all
        ultimately show ?thesis using Ready Some False sched
          by (simp add: batch_step_def markAttemptReady_def Let_def c_def [symmetric] d_def [symmetric])
      qed
    qed
  next
    case (GotHandle k agent)
    then show ?thesis using unfinished_keep [OF assms(3)] assms(3) by (auto simp: batch_step_def split: option.splits)
  next
    case (Ended k e)
    show ?thesis
    proof (cases "find_attempt k b")
      case None
      then show ?thesis using Ended assms(3) by (simp add: batch_step_def)
    next
      case (Some a)
      then have a: "a \<in> set (ba_active b)" "k = at_number a" using find_attempt_Some by auto
      have r: "unfinished (batch_schedule env now (set_result (at_index a) r (release_attempt (at_number a) b)))" if "rr_index r = at_index a" for r
        by (rule sched [OF result_ok [OF i(1) a(1) that]], rule within_mono [OF i(2)]) (simp_all add: set_result_def release_attempt_def)
      have q: "unfinished (batch_schedule env now (requeueRateLimited env now a g (release_attempt (at_number a) b)))" for g
        by (rule sched [OF requeue_ok(1) [OF i(1) a(1)]]) (simp add: within_limit_def requeue_ok(2) [OF i(1) a(1)])
      show ?thesis using Ended Some a r q unfolding batch_step_def handleEnd_def Let_def
        by (cases e) (simp_all add: failedAttemptOutcome_def Let_def)
    qed
  next
    case (TaskTimeout k)
    then show ?thesis using unfinished_keep [OF assms(3)] by (simp add: batch_step_def change_attempt_def)
  next
    case (TaskAborted j reason)
    then show ?thesis using unfinished_keep [OF assms(3)] assms(3) by (simp add: batch_step_def)
  next
    case NormalTimer
    define c where "c = b\<lparr>ba_normalTimer := False\<rparr>"
    show ?thesis
    proof (cases "ba_normalTimer b \<and> ba_outcome c = None \<and> \<not> ba_rateLimitMode c \<and> ba_pending c \<noteq> [] \<and> \<not> isAtConcurrencyLimit env c")
      case True
      have c: "batch_ok c" unfolding c_def
        by (rule open_cong [OF _ _ _ _ _ _ _ _ _ _ _ i(1)]) (use True i(1) in \<open>simp_all add: batch_ok_def c_def\<close>)
      note s = start_next_ok [OF c]
      have "unfinished (batch_schedule env now (start_next c))"
        by (rule sched) (use True s limit_step [of env c "start_next c"] in auto)
      then show ?thesis using True NormalTimer by (simp add: batch_step_def normal_timer_fires_def Let_def c_def [symmetric])
    next
      case False
      then show ?thesis using NormalTimer unfinished_keep [OF assms(3), of c] assms(3)
        by (auto simp: batch_step_def normal_timer_fires_def Let_def c_def [symmetric]) (auto simp: c_def)
    qed
  next
    case RateTimer
    have "within_limit env (b\<lparr>ba_rateTimer := None\<rparr>)" using i(2) unfolding within_limit_def by simp
    then show ?thesis using RateTimer sched [OF rate_timer_unset [OF i(1)]] assms(3) by (simp add: batch_step_def)
  next
    case (BatchAborted reason)
    then show ?thesis using abort_unfinished assms(3) by (simp add: batch_step_def)
  qed
qed

text \<open>Runs: every finite sequence of events, at any times.\<close>

lemma new_batch_ok: "batch_ok (new_batch tasks)" "within_limit env (new_batch tasks)"
  unfolding new_batch_def batch_ok_def shape_ok_def open_ok_def work_def within_limit_def
  by auto

lemma run_invariant: "env_ok env \<Longrightarrow> invariant env (batch_run env now aborted tasks) \<and> unfinished (batch_run env now aborted tasks)"
proof -
  assume e: "env_ok env"
  note n = new_batch_ok(1) [of tasks] new_batch_ok(1) [of tasks] new_batch_ok(2) [where env = env and tasks = tasks]
  show ?thesis
  proof (cases "tasks = []")
    case True
    then show ?thesis
      by (auto simp: batch_run_def new_batch_def Let_def batch_finish_def batch_cleanup_def invariant_def batch_ok_def shape_ok_def
          closed_ok_def within_limit_def going_def unfinished_def)
  next
    case False
    then have s: "ba_states (new_batch tasks) \<noteq> []" "ba_outcome (new_batch tasks) = None" by (simp_all add: new_batch_def)
    show ?thesis
    proof (cases aborted)
      case None
      then show ?thesis using s schedule_ok [OF n(1) n(3) e] schedule_unfinished [OF n(1) n(3) e]
        by (simp add: batch_run_def invariant_def)
    next
      case (Some r)
      then show ?thesis using s cancel_ok [OF n(1) s(2)] abort_unfinished by (simp add: batch_run_def Let_def)
    qed
  qed
qed

lemma steps_invariant: "env_ok env \<Longrightarrow> invariant env b \<Longrightarrow> unfinished b \<Longrightarrow> invariant env (batch_steps env evs b) \<and> unfinished (batch_steps env evs b)"
  by (induction env evs b rule: batch_steps.induct) (simp_all add: step_invariant step_unfinished)

lemma batch_invariant: "env_ok env \<Longrightarrow> invariant env (batch_steps env evs (batch_run env now aborted tasks))"
  using steps_invariant run_invariant by blast


subsection \<open>A sample batch\<close>

definition sample_batch_env :: batch_env where
  "sample_batch_env = \<lparr>be_maxConcurrency = Some 2, be_createTimeout = (\<lambda>n. 3000 * 2 ^ n)\<rparr>"

definition sample_tasks :: "nat \<Rightarrow> batch_task list" where
  "sample_tasks n = map (\<lambda>_. \<lparr>bt_kind = SpawnTask (js ''coder''), bt_prompt = js ''go'', bt_timeout = None\<rparr>) [0..<n]"

lemma sample_env_ok: "env_ok sample_batch_env"
  by (simp add: env_ok_def sample_batch_env_def)

text \<open>Two tasks of three run; the first is limited and waits, the second completes.\<close>

definition sample_events :: "(int \<times> batch_event) list" where
  "sample_events = [(10, Ready 0), (20, GotHandle 0 (js ''a'')), (30, Ended 0 (Limited (js ''a'') (js ''429''))),
     (40, Ended 1 (Completes (js ''b'') (js ''ok'')))]"

text \<open>C13: Whatever sequence of launches, readiness reports, completions, failures, rate limits, timeouts and
  timers a batch goes through, as long as it is not finished every task without a result is in
  exactly one place: pending, or run by exactly one active attempt. No task is lost, none is run
  twice at a time, and no finished task is run again.\<close>

theorem batch_partition:
  assumes "env_ok env" "ba_outcome (batch_steps env evs (batch_run env now aborted tasks)) = None"
  shows "distinct (work (batch_steps env evs (batch_run env now aborted tasks)))
    \<and> set (work (batch_steps env evs (batch_run env now aborted tasks)))
      = {i. i < length (ba_results (batch_steps env evs (batch_run env now aborted tasks)))
            \<and> ba_results (batch_steps env evs (batch_run env now aborted tasks)) ! i = None}"
  using batch_invariant [OF assms(1), of evs now aborted tasks] assms(2)
  unfolding invariant_def batch_ok_def open_ok_def by simp

lemma batch_partition_witness:
  "work (batch_steps sample_batch_env sample_events (batch_run sample_batch_env 0 None (sample_tasks 3))) = [0, 2]
   \<and> distinct (work (batch_steps sample_batch_env sample_events (batch_run sample_batch_env 0 None (sample_tasks 3))))"
proof -
  have "ba_outcome (batch_steps sample_batch_env sample_events (batch_run sample_batch_env 0 None (sample_tasks 3))) = None"
    "work (batch_steps sample_batch_env sample_events (batch_run sample_batch_env 0 None (sample_tasks 3))) = [0, 2]"
    by code_simp+
  then show ?thesis using batch_partition [OF sample_env_ok, of sample_events 0 None "sample_tasks 3"] by simp
qed

text \<open>C14: A batch never gets stuck: as long as it is not finished, an attempt is active or a timer is armed
  that will launch the next one, in the burst, on the ramp, and while the provider limits the
  rate.\<close>

theorem batch_never_stuck:
  assumes "env_ok env" "ba_outcome (batch_steps env evs (batch_run env now aborted tasks)) = None"
  shows "alive (batch_steps env evs (batch_run env now aborted tasks))"
  using batch_invariant [OF assms(1), of evs now aborted tasks] assms(2) unfolding invariant_def going_def by simp

lemma batch_never_stuck_witness:
  "ba_active (batch_steps sample_batch_env sample_events (batch_run sample_batch_env 0 None (sample_tasks 3))) = []
   \<and> alive (batch_steps sample_batch_env sample_events (batch_run sample_batch_env 0 None (sample_tasks 3)))"
proof -
  have "ba_outcome (batch_steps sample_batch_env sample_events (batch_run sample_batch_env 0 None (sample_tasks 3))) = None"
    "ba_active (batch_steps sample_batch_env sample_events (batch_run sample_batch_env 0 None (sample_tasks 3))) = []"
    by code_simp+
  then show ?thesis using batch_never_stuck [OF sample_env_ok, of sample_events 0 None "sample_tasks 3"] by simp
qed

text \<open>C15: A batch that resolves gives every task its own result, in the order of the tasks, keeping each
  result an attempt had already produced, also when the user cancels the batch.\<close>

theorem batch_results:
  assumes "env_ok env" "ba_outcome (batch_steps env evs (batch_run env now aborted tasks)) = Some (Resolved rs)"
  shows "length rs = length (ba_tasks (batch_steps env evs (batch_run env now aborted tasks)))
    \<and> (\<forall>i < length rs. rr_index (rs ! i) = i
        \<and> (\<forall>r. ba_results (batch_steps env evs (batch_run env now aborted tasks)) ! i = Some r \<longrightarrow> rs ! i = r))"
proof -
  have "closed_ok (batch_steps env evs (batch_run env now aborted tasks))"
    using batch_invariant [OF assms(1), of evs now aborted tasks] assms(2) unfolding invariant_def batch_ok_def by simp
  then show ?thesis using assms(2) unfolding closed_ok_def by blast
qed

lemma batch_results_witness:
  "map rr_status (case ba_outcome (batch_steps sample_batch_env (sample_events @ [(50, BatchAborted UserCancel)])
     (batch_run sample_batch_env 0 None (sample_tasks 3))) of Some (Resolved rs) \<Rightarrow> rs | _ \<Rightarrow> [])
   = [StatusAborted, StatusCompleted, StatusAborted]"
proof -
  obtain rs where rs: "ba_outcome (batch_steps sample_batch_env (sample_events @ [(50, BatchAborted UserCancel)])
     (batch_run sample_batch_env 0 None (sample_tasks 3))) = Some (Resolved rs)" "map rr_status rs = [StatusAborted, StatusCompleted, StatusAborted]"
    by (rule that, code_simp, code_simp)
  show ?thesis using batch_results [OF sample_env_ok rs(1)] rs by simp
qed

text \<open>Before the first rate limit, no more attempts are active than the limit allows.\<close>

lemma batch_concurrency:
  assumes "env_ok env" "be_maxConcurrency env = Some n"
    and "\<not> ba_rateLimitMode (batch_steps env evs (batch_run env now aborted tasks))"
  shows "length (ba_active (batch_steps env evs (batch_run env now aborted tasks))) \<le> n"
  using batch_invariant [OF assms(1), of evs now aborted tasks] assms(2,3) unfolding invariant_def within_limit_def by simp

text \<open>After it the limit no longer holds: the capacity counts every start so far, not the concurrent
  ones, and nothing compares it with the limit. Five of ten tasks have completed two at a time; then
  one is limited, and the timer lets four attempts run at once.\<close>

definition overrun_events :: "(int \<times> batch_event) list" where
  "overrun_events =
     [(1, Ready 0), (2, Ready 1), (3, Ended 0 (Completes (js ''a'') [])), (4, Ready 2), (5, Ended 1 (Completes (js ''b'') [])),
      (6, Ready 3), (7, Ended 2 (Completes (js ''c'') [])), (8, Ready 4), (9, Ended 3 (Completes (js ''d'') [])), (800, NormalTimer),
      (801, Ready 5), (802, Ended 4 (Limited (js ''e'') [])), (4000, RateTimer), (7000, RateTimer), (10000, RateTimer)]"

lemma limit_overrun:
  "map at_index (ba_active (batch_steps sample_batch_env overrun_events (batch_run sample_batch_env 0 None (sample_tasks 10)))) = [5, 4, 6, 7]"
  by code_simp

end
