(* ===== verification/Spec2Isabelle.thy ===== *)
theory Spec2Isabelle
  imports FrameScan FrameStream SkipListSpec MinHeap StoreOps RecoveryProofs
    DtIndexProofs CompoundProofs IndexUnique WalProofs PlannerProofs TextProofs Scheduler StepQueue Lifecycle ConversationProofs WireProofs CronServiceProofs AgentBatchProofs
begin

section \<open>The storage engine and the agent engine of MultiAI-CLI\<close>

text \<open>
  MultiAI-CLI runs coding agents. This development models two parts of its code that other parts
  build on: the embedded storage engine \<^verbatim>\<open>packages/minidb/src\<close>, and the core of the agent engine
  \<^verbatim>\<open>packages/agent-core-v2/src\<close>. File names below are relative to the directory named first.

  \<^bold>\<open>Conventions.\<close> Definitions keep the names of the functions they translate, with an underscore form where
  HOL has taken the name. Strings are lists of 16-bit code units (\<open>js_string\<close>), buffers lists of bytes. A
  function that throws returns \<open>error + 'a\<close> or an option; a \<^verbatim>\<open>Map\<close> whose order matters is an association
  list in insertion order; objects that are mutated and shared live in an explicit store. Asynchronous
  code is cut at its \<^verbatim>\<open>await\<close>s: what runs between two of them is a function on the state, and what may
  happen meanwhile (a system call completes, a promise settles, a timer fires, a caller aborts) is an
  event of a step relation or an element of a list of events. Code that is not in the repository
  (\<^verbatim>\<open>JSON.parse\<close>, lower-casing, digests, floating-point products, glob matching, the operating system's
  byte counts) is a parameter, with what is assumed of it as a hypothesis or a locale assumption.

  \<^bold>\<open>Storage: records.\<close> \<open>Prelude\<close> is the shared vocabulary. \<open>Crc32\<close> is \<^verbatim>\<open>crc32.ts\<close>; \<open>Codec\<close> is \<^verbatim>\<open>codec.ts\<close>
  (frames, batch bodies, the buffer parser), \<open>FrameScan\<close> its file scanner and \<open>FrameStream\<close> its streaming
  parser; \<open>Parsing\<close> proves what parsing recovers from intact, torn and damaged logs, and the other two
  are shown to be the buffer parser under another schedule of reads.

  \<^bold>\<open>Storage: key space.\<close> \<open>Comparators\<close>, \<open>SkipList\<close> (\<^verbatim>\<open>skiplist.ts\<close>: nodes in a store, forward pointers,
  spans, back links) with its linking invariant (\<open>SkipListInv\<close>, \<open>SkipListInsert\<close>, \<open>SkipListDelete\<close>) and
  its specification as a sorted list (\<open>SkipListSpec\<close>); \<open>OrderedSets\<close>, the view of it the indexes have;
  \<open>MinHeap\<close> and \<open>Store\<close> (\<^verbatim>\<open>store.ts\<close>) with \<open>StoreInv\<close>, \<open>StoreOps\<close>. \<open>Wal\<close>, \<open>WalProofs\<close> are \<^verbatim>\<open>wal.ts\<close> as a
  transition system; \<open>Recovery\<close>, \<open>RecoveryProofs\<close> are \<^verbatim>\<open>recovery.ts\<close>, which replays a snapshot and a log
  through the record layer into the store.

  \<^bold>\<open>Storage: indexes and queries.\<close> \<open>Json\<close> holds the documents. \<open>DtIndex\<close> (\<^verbatim>\<open>dt-index.ts\<close>), \<open>CompoundIndex\<close>
  (\<^verbatim>\<open>compound-index.ts\<close>), \<open>IndexManager\<close> (\<^verbatim>\<open>index-manager.ts\<close>), \<open>TextPostings\<close> and \<open>TextIndex\<close>
  (\<^verbatim>\<open>text-postings.ts\<close>, \<^verbatim>\<open>text-index.ts\<close>) are derived state of the table of documents, which \<open>DtIndexProofs\<close>,
  \<open>CompoundProofs\<close>, \<open>IndexProofs\<close>, \<open>IndexUnique\<close> and \<open>TextProofs\<close> show every operation keeps up to date.
  \<open>Query\<close> is \<^verbatim>\<open>query.ts\<close>, \<open>Planner\<close> the planner of \<^verbatim>\<open>index.ts\<close>; \<open>PlannerProofs\<close> compares it with a scan of
  all rows.

  \<^bold>\<open>Agent: running tools.\<close> \<open>ToolAccess\<close> (\<^verbatim>\<open>tool/toolContract.ts\<close>) says what a tool call touches and
  \<open>Scheduler\<close> (\<^verbatim>\<open>agent/toolExecutor/toolScheduler.ts\<close>) which calls run at once; \<open>StepQueue\<close>
  (\<^verbatim>\<open>agent/loop/stepRequest.ts\<close>, \<^verbatim>\<open>stepRequestQueue.ts\<close>) makes the batches of requests the loop works off;
  \<open>Lifecycle\<close> is \<^verbatim>\<open>_base/lifecycle/lifecycleMachine.ts\<close>.

  \<^bold>\<open>Agent: the conversation.\<close> \<open>Message\<close> holds messages and token estimates. \<open>LoopFold\<close>
  (\<^verbatim>\<open>agent/contextMemory/loopEventFold.ts\<close>) folds the loop's events into the history, \<open>ContextOps\<close>,
  \<open>ContextService\<close> and \<open>UndoReach\<close> are its other operations, the services over it and the undo;
  \<open>Conversation\<close>, \<open>ConversationProofs\<close> and \<open>LoopFoldProofs\<close> are the step relation of all of them and its
  invariants. \<open>Projector\<close>, \<open>ProjectionViews\<close> (\<^verbatim>\<open>agent/contextProjector\<close>) turn a history into what the
  provider accepts, which \<open>ProjectorProofs\<close> shows for every history with an assistant message and calls of assistants only. \<open>Compaction\<close>
  (\<^verbatim>\<open>agent/fullCompaction/strategy.ts\<close>) and \<open>Handoff\<close> (\<^verbatim>\<open>agent/contextMemory/compactionHandoff.ts\<close>) shorten it.

  \<^bold>\<open>Agent: state and journal.\<close> \<open>WireMigration\<close>, \<open>Wire\<close>, \<open>WireModels\<close> (\<^verbatim>\<open>wire/\<close>) dispatch operations to the
  models of the services, journal them and restore them; \<open>WireProofs\<close> shows that replaying registered
  operations with plain payloads rebuilds the state.

  \<^bold>\<open>Agent: scheduling.\<close> \<open>Calendar\<close> is what the code uses of \<^verbatim>\<open>Date\<close>. \<open>CronExpr\<close>, \<open>CronNext\<close>
  (\<^verbatim>\<open>app/cron/cron-expr.ts\<close>) and \<open>CronJitter\<close> (\<^verbatim>\<open>app/cron/jitter.ts\<close>), with \<open>CronSyntax\<close> and \<open>CronSearch\<close> for
  what the parser and the search promise; \<open>CronService\<close> and \<open>CronServiceProofs\<close> are
  \<^verbatim>\<open>session/cron/sessionCronServiceImpl.ts\<close>. \<open>AgentBatch\<close>, \<open>AgentBatchProofs\<close> are the launch scheduler of a
  swarm, \<^verbatim>\<open>session/swarm/agentRunBatch.ts\<close>.

  \<^bold>\<open>Bounds.\<close> Loops are recursions with a measure. Where the code has a cap, the model has the same: 100 rounds of
  a wire drain, 10,000 iterations of coalescing, 10,000,000 of the cron search. The last is never reached:
  the search gives up after five years, at most 2,635,200 minutes, and every iteration advances by one
  or more. The lengths in a frame are 16-bit and 32-bit fields, whose range errors the encoder raises; the search
  of the text index assumes counts up to \<open>2^53\<close>, which doubles hold exactly. Towers of a skip list have at most 32 levels, and the random heights are a
  parameter, as are all random numbers.

  \<^bold>\<open>Not modelled.\<close> Processes, sockets, terminals, timers and telemetry; the user interfaces; the provider
  adapters; the first version of the agent engine (\<^verbatim>\<open>packages/agent-core\<close>), whose logic the second
  rewrites; minidb's cluster and server processes, the rotation of its files
  (compaction, snapshots, lock files). In the second engine, the
  loop and tool executor services, permissions, goals and background tasks, the tools themselves, profiles,
  plugins, configuration and authorization are not modelled yet. The text before each property names the
  conditions under which it holds; the manifest lists as findings where the code leaves them.
\<close>

end
